(* ===== verification/Prelude.thy ===== *)
theory Prelude
  imports Main "HOL-Library.Word" "HOL-Library.Monad_Syntax" "HOL-Library.Signed_Division"
begin

text \<open>
  Prelude of the tyrantFS development: the machine types of the C program, the
  little-endian encoding of its integers, the byte memory of a device (with the
  reads, writes and framing facts every component uses) and C strings.
  Nothing here depends on the file system.
\<close>

unbundle bit_operations_syntax

section \<open>Machine types\<close>

type_synonym u8 = "8 word"
type_synonym u32 = "32 word"
type_synonym u64 = "64 word"
type_synonym bytes = "u8 list"

text \<open>Facts about device addresses, and facts that run the system calls symbolically.\<close>

named_theorems addr_simps
named_theorems io_simps

section \<open>Little-endian integers\<close>

fun of_le :: "bytes \<Rightarrow> 'a::len word" where
  "of_le [] = 0"
| "of_le (b # bs) = ucast b OR push_bit 8 (of_le bs)"

fun to_le :: "nat \<Rightarrow> 'a::len word \<Rightarrow> bytes" where
  "to_le 0 w = []"
| "to_le (Suc n) w = ucast w # to_le n (drop_bit 8 w)"

lemma length_to_le [simp]: "length (to_le n w) = n"
  by (induction n arbitrary: w) auto

lemma bit_of_le: "bit (of_le bs :: 'a::len word) i \<Longrightarrow> i < 8 * length bs"
proof (induction bs arbitrary: i)
  case Nil
  then show ?case by simp
next
  case (Cons b bs)
  show ?case
  proof (cases "i < 8")
    case False
    then have "bit (of_le bs :: 'a word) (i - 8)"
      using Cons.prems by (auto simp: bit_simps dest: bit_imp_le_length)
    then have "i - 8 < 8 * length bs" by (rule Cons.IH)
    then show ?thesis by simp
  qed simp
qed

lemma of_le_to_le: "of_le (to_le n w) = take_bit (8 * n) (w :: 'a::len word)"
proof (induction n arbitrary: w)
  case 0
  then show ?case by simp
next
  case (Suc n)
  show ?case
    by (rule bit_word_eqI) (auto simp: Suc.IH bit_simps)
qed

lemma of_le_to_le_full [simp]: "LENGTH('a) \<le> 8 * n \<Longrightarrow> of_le (to_le n w) = (w :: 'a::len word)"
  by (simp add: of_le_to_le take_bit_word_eq_self)

lemma to_le_of_le [simp]:
  "8 * length bs \<le> LENGTH('a) \<Longrightarrow> n = length bs \<Longrightarrow> to_le n (of_le bs :: 'a::len word) = bs"
proof (induction bs arbitrary: n)
  case Nil
  then show ?case by simp
next
  case (Cons b bs)
  have len: "8 * Suc (length bs) \<le> LENGTH('a)" using Cons.prems(1) by simp
  have low: "ucast (ucast b OR push_bit 8 (of_le bs) :: 'a word) = b"
    using Cons.prems(1) by (intro bit_word_eqI) (auto simp: bit_simps)
  have high: "drop_bit 8 (ucast b OR push_bit 8 (of_le bs) :: 'a word) = of_le bs"
  proof (rule bit_word_eqI)
    fix i assume "i < LENGTH('a)"
    show "bit (drop_bit 8 (ucast b OR push_bit 8 (of_le bs) :: 'a word)) i = bit (of_le bs :: 'a word) i"
      using len bit_of_le [of bs i, where 'a='a] bit_imp_le_length [of b "i + 8"]
      by (auto simp: bit_simps add.commute)
  qed
  show ?case
    using Cons.prems Cons.IH [of "length bs"] by (simp add: low high del: drop_bit_or)
qed

lemma to_le_zero [simp]: "to_le n 0 = replicate n 0"
  by (induction n) auto

lemma of_le_replicate_zero [simp]: "of_le (replicate n 0) = 0"
  by (induction n) auto

section \<open>Byte memory\<close>

text \<open>The contents of a device: the byte stored at every address.\<close>

type_synonym mem = "nat \<Rightarrow> u8"

definition rdbytes :: "mem \<Rightarrow> nat \<Rightarrow> nat \<Rightarrow> bytes" where
  "rdbytes m a n = map m [a..<a + n]"

definition wrbytes :: "mem \<Rightarrow> nat \<Rightarrow> bytes \<Rightarrow> mem" where
  "wrbytes m a bs = (\<lambda>x. if a \<le> x \<and> x < a + length bs then bs ! (x - a) else m x)"

definition rd64 :: "mem \<Rightarrow> nat \<Rightarrow> u64" where
  "rd64 m a = of_le (rdbytes m a 8)"

definition wr64 :: "mem \<Rightarrow> nat \<Rightarrow> u64 \<Rightarrow> mem" where
  "wr64 m a v = wrbytes m a (to_le 8 v)"

lemma length_rdbytes [simp]: "length (rdbytes m a n) = n"
  by (simp add: rdbytes_def)

lemma nth_rdbytes [simp]: "i < n \<Longrightarrow> rdbytes m a n ! i = m (a + i)"
  by (simp add: rdbytes_def)

lemma rdbytes_0 [simp]: "rdbytes m a 0 = []"
  by (simp add: rdbytes_def)

lemma wrbytes_Nil [simp]: "wrbytes m a [] = m"
  by (rule ext) (auto simp: wrbytes_def)

lemma rdbytes_cong: "(\<And>i. i < n \<Longrightarrow> m (a + i) = m' (a + i)) \<Longrightarrow> rdbytes m a n = rdbytes m' a n"
  by (auto simp: list_eq_iff_nth_eq)

lemma wrbytes_out: "x < a \<or> a + length bs \<le> x \<Longrightarrow> wrbytes m a bs x = m x"
  by (auto simp: wrbytes_def)

lemma wrbytes_in: "i < length bs \<Longrightarrow> wrbytes m a bs (a + i) = bs ! i"
  by (simp add: wrbytes_def)

lemma rdbytes_wrbytes_same [simp]: "n = length bs \<Longrightarrow> rdbytes (wrbytes m a bs) a n = bs"
  by (auto simp: list_eq_iff_nth_eq wrbytes_in)

lemma rdbytes_wrbytes_disjoint:
  "b + n \<le> a \<or> a + length bs \<le> b \<Longrightarrow> rdbytes (wrbytes m a bs) b n = rdbytes m b n"
  by (rule rdbytes_cong) (auto simp: wrbytes_def)

lemma rdbytes_wrbytes_inside:
  "a \<le> b \<Longrightarrow> b + n \<le> a + length bs \<Longrightarrow> rdbytes (wrbytes m a bs) b n = take n (drop (b - a) bs)"
  by (auto simp: list_eq_iff_nth_eq wrbytes_def)

lemma wrbytes_wrbytes_same: "length bs = length cs \<Longrightarrow> wrbytes (wrbytes m a bs) a cs = wrbytes m a cs"
  by (auto simp: wrbytes_def)

lemma wrbytes_rdbytes [simp]: "wrbytes m a (rdbytes m a n) = m"
  by (auto simp: wrbytes_def fun_eq_iff)

lemma rdbytes_split: "k \<le> n \<Longrightarrow> rdbytes m a n = rdbytes m a k @ rdbytes m (a + k) (n - k)"
  by (auto simp: list_eq_iff_nth_eq nth_append)

lemma take_drop_rdbytes: "i + k \<le> n \<Longrightarrow> take k (drop i (rdbytes m a n)) = rdbytes m (a + i) k"
  by (auto simp: list_eq_iff_nth_eq ac_simps)

lemma rd64_wr64_same [simp]: "rd64 (wr64 m a v) a = v"
  by (simp add: rd64_def wr64_def)

lemma rd64_wr64_disjoint [addr_simps]: "b + 8 \<le> a \<or> a + 8 \<le> b \<Longrightarrow> rd64 (wr64 m a v) b = rd64 m b"
  by (simp add: rd64_def wr64_def rdbytes_wrbytes_disjoint)

lemma rd64_wrbytes_disjoint [addr_simps]:
  "b + 8 \<le> a \<or> a + length bs \<le> b \<Longrightarrow> rd64 (wrbytes m a bs) b = rd64 m b"
  by (simp add: rd64_def rdbytes_wrbytes_disjoint)

lemma rd64_wrbytes_zero:
  "a \<le> b \<Longrightarrow> b + 8 \<le> a + n \<Longrightarrow> rd64 (wrbytes m a (replicate n 0)) b = 0"
proof -
  assume "a \<le> b" "b + 8 \<le> a + n"
  then have "rdbytes (wrbytes m a (replicate n 0)) b 8 = take 8 (drop (b - a) (replicate n 0))"
    by (simp add: rdbytes_wrbytes_inside)
  also have "\<dots> = replicate 8 0"
    using \<open>a \<le> b\<close> \<open>b + 8 \<le> a + n\<close> by simp
  finally show ?thesis by (simp only: rd64_def of_le_replicate_zero)
qed

lemma wr64_out [addr_simps]: "x < a \<or> a + 8 \<le> x \<Longrightarrow> wr64 m a v x = m x"
  by (simp add: wr64_def wrbytes_out)

lemma rd64_cong: "(\<And>i. i < 8 \<Longrightarrow> m (a + i) = m' (a + i)) \<Longrightarrow> rd64 m a = rd64 m' a"
  by (simp add: rd64_def cong: rdbytes_cong)

section \<open>Objects partly overwritten by a short read\<close>

definition patch :: "bytes \<Rightarrow> bytes \<Rightarrow> bytes" where
  "patch old new = new @ drop (length new) old"

definition patch_at :: "nat \<Rightarrow> bytes \<Rightarrow> bytes \<Rightarrow> bytes" where
  "patch_at k old new = take k old @ new @ drop (k + length new) old"

lemma patch_full [simp]: "length new = length old \<Longrightarrow> patch old new = new"
  by (simp add: patch_def)

lemma patch_Nil [simp]: "patch old [] = old"
  by (simp add: patch_def)

lemma length_patch [simp]: "length new \<le> length old \<Longrightarrow> length (patch old new) = length old"
  by (simp add: patch_def)

section \<open>C strings\<close>

text \<open>
  A C string is the list of its bytes before the terminating zero. \<open>streq\<close> is
  \<open>strcmp(buf, name) == 0\<close> for an array object \<open>buf\<close> and a proper string: it reads the
  array up to the first difference, and \<open>None\<close> is a read past its end.
\<close>

fun streq :: "bytes \<Rightarrow> bytes \<Rightarrow> bool option" where
  "streq [] cs = None"
| "streq (b # bs) [] = Some (b = 0)"
| "streq (b # bs) (c # cs) = (if b \<noteq> c then Some False else streq bs cs)"

definition cstr :: "bytes \<Rightarrow> bytes" where
  "cstr bs = takeWhile (\<lambda>b. b \<noteq> 0) bs"

definition bytes_of_string :: "string \<Rightarrow> bytes" where
  "bytes_of_string s = map of_char s"

abbreviation "wf_name cs \<equiv> (0 :: u8) \<notin> set cs"

text \<open>On a terminated array, \<open>strcmp\<close> compares the strings and stays inside the array.\<close>

lemma streq_terminated: "0 \<in> set bs \<Longrightarrow> wf_name cs \<Longrightarrow> streq bs cs = Some (cstr bs = cs)"
proof (induction bs cs rule: streq.induct)
  case (3 b bs c cs)
  then show ?case by (cases "b = 0") (auto simp: cstr_def)
qed (auto simp: cstr_def)

lemma streq_prefix:
  "wf_name cs \<Longrightarrow> length cs < length bs \<Longrightarrow> streq bs cs = Some (take (Suc (length cs)) bs = cs @ [0])"
proof (induction bs cs rule: streq.induct)
  case (3 b bs c cs)
  then show ?case by auto
qed (auto simp: take_Suc_conv_app_nth)

lemma cstr_append_zero [simp]: "wf_name cs \<Longrightarrow> cstr (cs @ 0 # bs) = cs"
  unfolding cstr_def by (subst takeWhile_append2) auto

lemma wf_name_cstr [simp]: "wf_name (cstr bs)"
  by (induction bs) (auto simp: cstr_def)

section \<open>Address arithmetic\<close>

text \<open>
  Device addresses are \<open>uint64_t\<close>; a device is smaller than \<open>2 ^ 63\<close> bytes, so an address
  inside it reads the same as an \<open>off_t\<close>.
\<close>

lemma unat_add_in [addr_simps]:
  "unat (a :: u64) + n < 2 ^ 63 \<Longrightarrow> unat (a + of_nat n) = unat a + n"
  by (simp add: unat_word_ariths unat_of_nat)

lemma unat_of_nat_le: "n \<le> unat (w :: u64) \<Longrightarrow> unat (of_nat n :: u64) = n"
proof -
  assume "n \<le> unat w"
  moreover have "unat w < 2 ^ 64" using unsigned_less [of w] by simp
  ultimately show ?thesis by (simp add: unat_of_nat)
qed

lemma Suc_unat_word: "(i :: u64) < n \<Longrightarrow> unat (i + 1) = Suc (unat i)"
proof -
  assume "i < n"
  then have "unat i < unat n" "unat n < 2 ^ 64"
    using unsigned_less [of n] by (simp_all add: word_less_nat_alt)
  then show ?thesis by (simp add: unat_word_ariths)
qed

lemma unat_minus_1 [simp]: "unat (- 1 :: u64) = 18446744073709551615"
  by (simp add: unsigned_minus_1_eq_mask mask_eq_exp_minus_1)

lemma sint_small [addr_simps]: "unat (a :: u64) < 2 ^ 63 \<Longrightarrow> sint a = int (unat a)"
proof -
  assume "unat a < 2 ^ 63"
  then have "int (unat a) < int (2 ^ 63)" by (simp only: of_nat_less_iff)
  then have "uint a < 2 ^ 63" by simp
  moreover have "- (2 ^ 63) \<le> uint a"
    by (rule order_trans [of _ 0]) simp_all
  ultimately have "sint a = uint a"
    by (simp add: sint_uint signed_take_bit_int_eq_self_iff)
  then show ?thesis by simp
qed

lemma u64_eq_unat: "(a :: u64) = b \<longleftrightarrow> unat a = unat b"
  by (simp add: word_unat_eq_iff)

end
