(* ===== verification/Device.thy ===== *)
theory Device
  imports Prelude
begin

text \<open>
  The state of the C program and the system calls it makes. The program keeps its file
  system on one block device, opened once; everything it knows between two calls is in
  the global variables of \<^verbatim>\<open>disk.c\<close> and on the device.

  The device is a byte array of fixed size, with the file offset of its descriptor, as
  POSIX describes \<open>lseek\<close>, \<open>read\<close> and \<open>write\<close> and Linux implements them for block devices:
  seeking past the end fails and leaves the offset, reads and writes stop at the end.
  A descriptor below 0 is not open. \<open>time\<close> reads \<open>clock\<close>, and an object
  that the C program does not initialise starts with bytes of \<open>junk\<close>, so that a theorem
  holds for every clock and every content of uninitialised memory.
\<close>

section \<open>Program state\<close>

record fs =
  dev :: mem
  devsize :: nat
  pos :: nat
  drive :: int
  root_node :: u64
  drivesize :: u64
  inode_byte_boundary :: u64
  num_blocks :: u64
  inode_blocks :: u64
  data_blocks :: u64
  clock :: "nat \<Rightarrow> u64"
  ticks :: nat
  junk :: "nat \<Rightarrow> nat \<Rightarrow> u8"
  fresh :: nat
  euid :: u32
  egid :: u32

abbreviation "BLOCKSIZE \<equiv> 4096"
abbreviation "ADDR_LENGTH \<equiv> 8"
abbreviation "NAME_BOUNDARY \<equiv> 256"
abbreviation "INODE_SIZE_BOUNDARY \<equiv> 256"

section \<open>System calls\<close>

datatype whence = SEEK_SET | SEEK_CUR

definition lseek :: "int \<Rightarrow> int \<Rightarrow> whence \<Rightarrow> fs \<Rightarrow> int \<times> fs" where
  "lseek fd off w s =
     (let p = (case w of SEEK_SET \<Rightarrow> off | SEEK_CUR \<Rightarrow> int (pos s) + off)
      in if fd < 0 \<or> p < 0 \<or> int (devsize s) < p then (-1, s)
         else (p, s\<lparr>pos := nat p\<rparr>))"

definition sys_read :: "int \<Rightarrow> nat \<Rightarrow> fs \<Rightarrow> int \<times> bytes \<times> fs" where
  "sys_read fd n s =
     (if fd < 0 then (-1, [], s)
      else let k = min n (devsize s - pos s)
           in (int k, rdbytes (dev s) (pos s) k, s\<lparr>pos := pos s + k\<rparr>))"

definition sys_write :: "int \<Rightarrow> bytes \<Rightarrow> fs \<Rightarrow> int \<times> fs" where
  "sys_write fd bs s =
     (if fd < 0 then (-1, s)
      else if bs \<noteq> [] \<and> devsize s \<le> pos s then (-1, s)
      else let k = min (length bs) (devsize s - pos s)
           in (int k, s\<lparr>dev := wrbytes (dev s) (pos s) (take k bs), pos := pos s + k\<rparr>))"

text \<open>An offset held in a \<open>uint64_t\<close> is converted to the signed \<open>off_t\<close>.\<close>

definition seek_to :: "int \<Rightarrow> u64 \<Rightarrow> fs \<Rightarrow> fs" where
  "seek_to fd a s = snd (lseek fd (sint a) SEEK_SET s)"

definition seek_by :: "int \<Rightarrow> int \<Rightarrow> fs \<Rightarrow> fs" where
  "seek_by fd d s = snd (lseek fd d SEEK_CUR s)"

text \<open>\<open>read(fd, &v, ADDR_LENGTH)\<close> into a \<open>uint64_t\<close>: bytes not transferred keep their value.\<close>

definition read_addr :: "int \<Rightarrow> u64 \<Rightarrow> fs \<Rightarrow> u64 \<times> fs" where
  "read_addr fd v s =
     (case sys_read fd ADDR_LENGTH s of (r, bs, s) \<Rightarrow> (of_le (patch (to_le ADDR_LENGTH v) bs), s))"

definition write_addr :: "int \<Rightarrow> u64 \<Rightarrow> fs \<Rightarrow> fs" where
  "write_addr fd v s = snd (sys_write fd (to_le ADDR_LENGTH v) s)"

definition write_zeros :: "int \<Rightarrow> nat \<Rightarrow> fs \<Rightarrow> fs" where
  "write_zeros fd n s = snd (sys_write fd (replicate n 0) s)"

definition get_current_time_in_nsec :: "fs \<Rightarrow> u64 \<times> fs" where
  "get_current_time_in_nsec s = (clock s (ticks s), s\<lparr>ticks := Suc (ticks s)\<rparr>)"

definition uninit :: "nat \<Rightarrow> fs \<Rightarrow> bytes \<times> fs" where
  "uninit n s = (map (junk s (fresh s)) [0..<n], s\<lparr>fresh := Suc (fresh s)\<rparr>)"

text \<open>The C conversions between \<open>int\<close>, \<open>off_t\<close> and \<open>uint64_t\<close>.\<close>

definition u64_of_int :: "int \<Rightarrow> u64" where
  "u64_of_int i = word_of_int i"

definition int_of_u64 :: "u64 \<Rightarrow> int" where
  "int_of_u64 w = sint (ucast w :: u32)"

section \<open>What the program may change\<close>

text \<open>
  Between two calls only the device, the file offset and the two supplies (clock readings
  and uninitialised objects) change; the geometry is fixed when the device is opened.
\<close>

definition only_io :: "fs \<Rightarrow> fs \<Rightarrow> bool" where
  "only_io s s' \<longleftrightarrow>
     devsize s' = devsize s \<and> drive s' = drive s \<and> root_node s' = root_node s \<and>
     drivesize s' = drivesize s \<and> inode_byte_boundary s' = inode_byte_boundary s \<and>
     num_blocks s' = num_blocks s \<and> inode_blocks s' = inode_blocks s \<and>
     data_blocks s' = data_blocks s \<and> clock s' = clock s \<and> junk s' = junk s \<and>
     euid s' = euid s \<and> egid s' = egid s"

definition ok_dev :: "fs \<Rightarrow> bool" where
  "ok_dev s \<longleftrightarrow> 0 \<le> drive s \<and> devsize s < 2 ^ 63"

lemma only_io_refl [simp]: "only_io s s"
  by (simp add: only_io_def)

lemma only_io_fields [simp]:
  "only_io s (s\<lparr>dev := m\<rparr>)" "only_io s (s\<lparr>pos := p\<rparr>)"
  "only_io s (s\<lparr>ticks := t\<rparr>)" "only_io s (s\<lparr>fresh := f\<rparr>)"
  by (simp_all add: only_io_def)

lemma only_ioD:
  assumes "only_io s s'"
  shows "devsize s' = devsize s" "drive s' = drive s" "root_node s' = root_node s"
    "drivesize s' = drivesize s" "inode_byte_boundary s' = inode_byte_boundary s"
    "num_blocks s' = num_blocks s" "inode_blocks s' = inode_blocks s"
    "data_blocks s' = data_blocks s" "clock s' = clock s" "junk s' = junk s"
    "euid s' = euid s" "egid s' = egid s"
  using assms by (simp_all add: only_io_def)

lemma only_io_trans [trans]: "only_io s s' \<Longrightarrow> only_io s' s'' \<Longrightarrow> only_io s s''"
  by (simp add: only_io_def)

lemma ok_dev_only_io: "only_io s s' \<Longrightarrow> ok_dev s' = ok_dev s"
  by (simp add: ok_dev_def only_io_def)

section \<open>The calls inside the device\<close>

lemma seek_to_in [io_simps]:
  "ok_dev s \<Longrightarrow> fd = drive s \<Longrightarrow> unat a \<le> devsize s \<Longrightarrow> seek_to fd a s = s\<lparr>pos := unat a\<rparr>"
proof -
  assume "ok_dev s" "fd = drive s" and le: "unat a \<le> devsize s"
  have "uint a \<le> int (devsize s)"
    using le by (metis of_nat_mono of_nat_unat)
  then show ?thesis
    using \<open>ok_dev s\<close> \<open>fd = drive s\<close> le
    by (simp add: seek_to_def lseek_def ok_dev_def sint_small Let_def)
qed

lemma seek_by_back [io_simps]:
  "ok_dev s \<Longrightarrow> fd = drive s \<Longrightarrow> n \<le> pos s \<Longrightarrow> pos s \<le> devsize s \<Longrightarrow>
     seek_by fd (- int n) s = s\<lparr>pos := pos s - n\<rparr>"
  by (simp add: seek_by_def lseek_def ok_dev_def Let_def nat_diff_distrib')

lemma sys_read_in [io_simps]:
  "ok_dev s \<Longrightarrow> fd = drive s \<Longrightarrow> pos s + n \<le> devsize s \<Longrightarrow>
     sys_read fd n s = (int n, rdbytes (dev s) (pos s) n, s\<lparr>pos := pos s + n\<rparr>)"
  by (simp add: sys_read_def ok_dev_def min_def Let_def)

lemma sys_write_in [io_simps]:
  "ok_dev s \<Longrightarrow> fd = drive s \<Longrightarrow> pos s + length bs \<le> devsize s \<Longrightarrow>
     sys_write fd bs s =
       (int (length bs), s\<lparr>dev := wrbytes (dev s) (pos s) bs, pos := pos s + length bs\<rparr>)"
  by (auto simp: sys_write_def ok_dev_def min_def Let_def)

lemma read_addr_in [io_simps]:
  "ok_dev s \<Longrightarrow> fd = drive s \<Longrightarrow> pos s + 8 \<le> devsize s \<Longrightarrow>
     read_addr fd v s = (rd64 (dev s) (pos s), s\<lparr>pos := pos s + 8\<rparr>)"
  by (simp add: read_addr_def sys_read_in rd64_def)

lemma write_addr_in [io_simps]:
  "ok_dev s \<Longrightarrow> fd = drive s \<Longrightarrow> pos s + 8 \<le> devsize s \<Longrightarrow>
     write_addr fd v s = s\<lparr>dev := wr64 (dev s) (pos s) v, pos := pos s + 8\<rparr>"
  by (simp add: write_addr_def sys_write_in wr64_def)

lemma write_zeros_in [io_simps]:
  "ok_dev s \<Longrightarrow> fd = drive s \<Longrightarrow> pos s + n \<le> devsize s \<Longrightarrow>
     write_zeros fd n s = s\<lparr>dev := wrbytes (dev s) (pos s) (replicate n 0), pos := pos s + n\<rparr>"
  by (simp add: write_zeros_def sys_write_in)

text \<open>Whatever their arguments, the calls change only what \<open>only_io\<close> allows.\<close>

lemma only_io_lseek: "only_io s (snd (lseek fd off w s))"
  by (auto simp: lseek_def Let_def)

lemma only_io_sys_read: "sys_read fd n s = (r, bs, s') \<Longrightarrow> only_io s s'"
  by (auto simp: sys_read_def Let_def split: if_splits)

lemma only_io_sys_write: "sys_write fd bs s = (r, s') \<Longrightarrow> only_io s s'"
  by (auto simp: sys_write_def Let_def only_io_def split: if_splits)

lemma only_io_seek [simp]: "only_io s (seek_to fd a s)" "only_io s (seek_by fd d s)"
  by (simp_all add: seek_to_def seek_by_def only_io_lseek)

lemma only_io_read_addr: "read_addr fd v s = (w, s') \<Longrightarrow> only_io s s'"
  by (auto simp: read_addr_def split: prod.splits dest: only_io_sys_read)

lemma only_io_write_addr [simp]: "only_io s (write_addr fd v s)"
  by (metis only_io_sys_write prod.collapse write_addr_def)

lemma only_io_write_zeros [simp]: "only_io s (write_zeros fd n s)"
  by (metis only_io_sys_write prod.collapse write_zeros_def)

lemma dev_seek [simp]: "dev (seek_to fd a s) = dev s" "dev (seek_by fd d s) = dev s"
  by (auto simp: seek_to_def seek_by_def lseek_def Let_def)

lemma ok_dev_updates [simp]:
  "ok_dev (s\<lparr>dev := m\<rparr>) = ok_dev s" "ok_dev (s\<lparr>pos := p\<rparr>) = ok_dev s"
  "ok_dev (s\<lparr>ticks := t\<rparr>) = ok_dev s" "ok_dev (s\<lparr>fresh := f\<rparr>) = ok_dev s"
  by (simp_all add: ok_dev_def)

end
