(* ===== verification/Inode.thy ===== *)
theory Inode
  imports Device
begin

text \<open>
  \<^verbatim>\<open>struct inode\<close> of \<^verbatim>\<open>disk.h\<close>, its image on the device, and the two
  functions of \<^verbatim>\<open>disk.c\<close> that move it: \<^verbatim>\<open>fetch_inode\<close> and
  \<^verbatim>\<open>commit_inode\<close>. The layout is that of the LP64 ABI the program is built for:
  208 bytes, little-endian, with four bytes of padding after \<open>mode\<close> and after \<open>links\<close>,
  which are kept as fields because the program copies the whole object.
\<close>

section \<open>The structure and its image\<close>

record node =
  user_id :: u32
  group_id :: u32
  mode :: u32
  pad1 :: u32
  n_size :: u64
  access_time :: u64
  change_time :: u64
  data_time :: u64
  creation_time :: u64
  deletion_time :: u64
  links :: u32
  pad2 :: u32
  blocks :: u64
  direct_blocks :: "u64 list"
  indirect_blocks :: u64
  dbl_indirect :: u64
  trpl_indirect :: u64
  flags :: u32
  checksum :: u32

abbreviation "SIZEOF_NODE \<equiv> 208"
abbreviation "S_IFDIR \<equiv> 0x4000"

definition bytes_of_node :: "node \<Rightarrow> bytes" where
  "bytes_of_node n =
     to_le 4 (user_id n) @ to_le 4 (group_id n) @ to_le 4 (mode n) @ to_le 4 (pad1 n) @
     to_le 8 (n_size n) @ to_le 8 (access_time n) @ to_le 8 (change_time n) @
     to_le 8 (data_time n) @ to_le 8 (creation_time n) @ to_le 8 (deletion_time n) @
     to_le 4 (links n) @ to_le 4 (pad2 n) @ to_le 8 (blocks n) @
     concat (map (to_le 8) (direct_blocks n)) @
     to_le 8 (indirect_blocks n) @ to_le 8 (dbl_indirect n) @ to_le 8 (trpl_indirect n) @
     to_le 4 (flags n) @ to_le 4 (checksum n)"

definition node_of_bytes :: "bytes \<Rightarrow> node" where
  "node_of_bytes bs =
     \<lparr>user_id = of_le (take 4 bs), group_id = of_le (take 4 (drop 4 bs)),
      mode = of_le (take 4 (drop 8 bs)), pad1 = of_le (take 4 (drop 12 bs)),
      n_size = of_le (take 8 (drop 16 bs)), access_time = of_le (take 8 (drop 24 bs)),
      change_time = of_le (take 8 (drop 32 bs)), data_time = of_le (take 8 (drop 40 bs)),
      creation_time = of_le (take 8 (drop 48 bs)), deletion_time = of_le (take 8 (drop 56 bs)),
      links = of_le (take 4 (drop 64 bs)), pad2 = of_le (take 4 (drop 68 bs)),
      blocks = of_le (take 8 (drop 72 bs)),
      direct_blocks = map (\<lambda>i. of_le (take 8 (drop (80 + 8 * i) bs))) [0..<12],
      indirect_blocks = of_le (take 8 (drop 176 bs)), dbl_indirect = of_le (take 8 (drop 184 bs)),
      trpl_indirect = of_le (take 8 (drop 192 bs)), flags = of_le (take 4 (drop 200 bs)),
      checksum = of_le (take 4 (drop 204 bs))\<rparr>"

text \<open>A C array has its declared length.\<close>

definition wf_node :: "node \<Rightarrow> bool" where
  "wf_node n \<longleftrightarrow> length (direct_blocks n) = 12"

lemma wf_node_of_bytes [simp]: "wf_node (node_of_bytes bs)"
  by (simp add: wf_node_def node_of_bytes_def)

lemma wf_node_updates [simp]:
  "wf_node (n\<lparr>user_id := a\<rparr>) = wf_node n" "wf_node (n\<lparr>group_id := a\<rparr>) = wf_node n"
  "wf_node (n\<lparr>mode := a\<rparr>) = wf_node n" "wf_node (n\<lparr>n_size := b\<rparr>) = wf_node n"
  "wf_node (n\<lparr>access_time := b\<rparr>) = wf_node n" "wf_node (n\<lparr>change_time := b\<rparr>) = wf_node n"
  "wf_node (n\<lparr>data_time := b\<rparr>) = wf_node n" "wf_node (n\<lparr>creation_time := b\<rparr>) = wf_node n"
  "wf_node (n\<lparr>links := a\<rparr>) = wf_node n" "wf_node (n\<lparr>blocks := b\<rparr>) = wf_node n"
  "wf_node (n\<lparr>indirect_blocks := b\<rparr>) = wf_node n" "wf_node (n\<lparr>dbl_indirect := b\<rparr>) = wf_node n"
  "wf_node (n\<lparr>trpl_indirect := b\<rparr>) = wf_node n"
  "wf_node (n\<lparr>direct_blocks := (direct_blocks n)[i := b]\<rparr>) = wf_node n"
  by (simp_all add: wf_node_def)

lemma length_concat_to_le [simp]: "length (concat (map (to_le k) ws)) = k * length ws"
  by (induction ws) auto

lemma length_bytes_of_node [simp]: "wf_node n \<Longrightarrow> length (bytes_of_node n) = 208"
  by (simp add: bytes_of_node_def wf_node_def)

lemma take_drop_concat_to_le:
  "i < length ws \<Longrightarrow> take k (drop (k * i) (concat (map (to_le k) ws) @ r)) = to_le k (ws ! i)"
proof (induction ws arbitrary: i)
  case (Cons w ws)
  then show ?case by (cases i) simp_all
qed simp

lemma concat_take_drop:
  "concat (map (\<lambda>i. take k (drop (c + k * i) bs)) [0..<n]) = take (k * n) (drop c bs)"
proof (induction n)
  case (Suc n)
  then show ?case by (simp add: take_add [of "k * n" k] add.commute [of k] add.commute [of c])
qed simp

lemma take_drop_glue: "b = a + k \<Longrightarrow> take k (drop a bs) @ drop b bs = drop a bs"
  by (metis add.commute append_take_drop_id drop_drop)

theorem node_of_bytes_of_node: "wf_node n \<Longrightarrow> node_of_bytes (bytes_of_node n) = n"
proof -
  assume wf: "wf_node n"
  have direct: "map (\<lambda>i. of_le (take 8 (drop (80 + 8 * i) (bytes_of_node n)))) [0..<12] = direct_blocks n"
  proof (rule nth_equalityI)
    fix i assume "i < length (map (\<lambda>i. of_le (take 8 (drop (80 + 8 * i) (bytes_of_node n))) :: u64) [0..<12])"
    then have i: "i < length (direct_blocks n)" "i < 12" using wf by (simp_all add: wf_node_def)
    have "drop (80 + 8 * i) (bytes_of_node n) = drop (8 * i) (drop 80 (bytes_of_node n))"
      by (simp add: add.commute)
    then show "map (\<lambda>i. of_le (take 8 (drop (80 + 8 * i) (bytes_of_node n)))) [0..<12] ! i
        = direct_blocks n ! i"
      using i by (simp add: bytes_of_node_def take_drop_concat_to_le
          take_drop_concat_to_le [where r = "[]", simplified])
  qed (use wf in \<open>simp add: wf_node_def\<close>)
  show ?thesis
    by (rule node.equality)
      (use wf direct in \<open>simp_all add: node_of_bytes_def, simp_all add: bytes_of_node_def wf_node_def\<close>)
qed

theorem bytes_of_node_of_bytes: "length bs = 208 \<Longrightarrow> bytes_of_node (node_of_bytes bs) = bs"
proof -
  assume len: "length bs = 208"
  have last: "to_le 4 (of_le (take 4 (drop 204 bs)) :: u32) = drop 204 bs"
    using len by simp
  have eq: "map (\<lambda>i. to_le 8 (of_le (take 8 (drop (80 + 8 * i) bs)) :: u64)) [0..<12]
      = map (\<lambda>i. take 8 (drop (80 + 8 * i) bs)) [0..<12]"
    by (rule map_cong) (auto simp: len)
  have "concat (map (to_le 8) (direct_blocks (node_of_bytes bs)))
      = concat (map (\<lambda>i. take 8 (drop (80 + 8 * i) bs)) [0..<12])"
    by (simp only: eq [symmetric] node_of_bytes_def node.select_convs map_map comp_def)
  then have direct: "concat (map (to_le 8) (direct_blocks (node_of_bytes bs))) = take 96 (drop 80 bs)"
    using concat_take_drop [of 8 80 bs 12] by simp
  show ?thesis
    unfolding bytes_of_node_def direct
    using len by (simp add: node_of_bytes_def last take_drop_glue)
qed

definition node_at :: "mem \<Rightarrow> nat \<Rightarrow> node" where
  "node_at m a = node_of_bytes (rdbytes m a SIZEOF_NODE)"

lemma wf_node_at [simp]: "wf_node (node_at m a)"
  by (simp add: node_at_def)

lemma wf_node_direct [simp]: "wf_node (n\<lparr>direct_blocks := ds\<rparr>) = (length ds = 12)"
  by (simp add: wf_node_def)

lemma length_direct_blocks [simp]: "length (direct_blocks (node_at m a)) = 12"
  using wf_node_at [of m a] by (simp add: wf_node_def)

section \<open>fetch_inode and commit_inode\<close>

text \<open>An automatic or \<open>malloc\<close>ed \<^verbatim>\<open>node\<close> before anything is stored in it.\<close>

definition uninit_node :: "fs \<Rightarrow> node \<times> fs" where
  "uninit_node s = (let (bs, s) = uninit SIZEOF_NODE s in (node_of_bytes bs, s))"

text \<open>The first component is \<open>False\<close> when the C function returns \<open>NULL\<close>.\<close>

definition fetch_inode :: "u64 \<Rightarrow> node \<Rightarrow> fs \<Rightarrow> bool \<times> node \<times> fs" where
  "fetch_inode my_node buff s =
     (if my_node = 0 then (False, buff, s)
      else let s = seek_to (drive s) my_node s;
               (r, bs, s) = sys_read (drive s) SIZEOF_NODE s
           in (True, node_of_bytes (patch (bytes_of_node buff) bs), s))"

definition commit_inode :: "node \<Rightarrow> u64 \<Rightarrow> fs \<Rightarrow> int \<times> fs" where
  "commit_inode my_node node_loc s =
     (let s = seek_to (drive s) node_loc s;
          (r, s) = sys_write (drive s) (bytes_of_node my_node) s
      in (int_of_u64 (u64_of_int r), s))"

text \<open>Most callers ignore what the two functions return.\<close>

definition load_node :: "u64 \<Rightarrow> node \<Rightarrow> fs \<Rightarrow> node \<times> fs" where
  "load_node a n s = snd (fetch_inode a n s)"

definition store_node :: "node \<Rightarrow> u64 \<Rightarrow> fs \<Rightarrow> fs" where
  "store_node n a s = snd (commit_inode n a s)"

text \<open>An inode address the two functions can use in full.\<close>

definition node_ok :: "fs \<Rightarrow> u64 \<Rightarrow> bool" where
  "node_ok s a \<longleftrightarrow> a \<noteq> 0 \<and> unat a + SIZEOF_NODE \<le> devsize s"

lemma node_ok_updates [simp]:
  "node_ok (s\<lparr>dev := m\<rparr>) a = node_ok s a" "node_ok (s\<lparr>pos := p\<rparr>) a = node_ok s a"
  "node_ok (s\<lparr>ticks := t\<rparr>) a = node_ok s a" "node_ok (s\<lparr>fresh := f\<rparr>) a = node_ok s a"
  by (simp_all add: node_ok_def)

lemma fetch_inode_in [io_simps]:
  "ok_dev s \<Longrightarrow> node_ok s a \<Longrightarrow> wf_node n \<Longrightarrow>
     fetch_inode a n s = (True, node_at (dev s) (unat a), s\<lparr>pos := unat a + 208\<rparr>)"
  by (simp add: fetch_inode_def node_ok_def io_simps node_at_def)

lemma load_node_in [io_simps]:
  "ok_dev s \<Longrightarrow> node_ok s a \<Longrightarrow> wf_node n \<Longrightarrow>
     load_node a n s = (node_at (dev s) (unat a), s\<lparr>pos := unat a + 208\<rparr>)"
  by (simp add: load_node_def fetch_inode_in)

lemma commit_inode_in:
  "ok_dev s \<Longrightarrow> node_ok s a \<Longrightarrow> wf_node n \<Longrightarrow>
     commit_inode n a s =
       (208, s\<lparr>dev := wrbytes (dev s) (unat a) (bytes_of_node n), pos := unat a + 208\<rparr>)"
  by (simp add: commit_inode_def node_ok_def io_simps int_of_u64_def u64_of_int_def)

lemma store_node_in [io_simps]:
  "ok_dev s \<Longrightarrow> node_ok s a \<Longrightarrow> wf_node n \<Longrightarrow>
     store_node n a s =
       s\<lparr>dev := wrbytes (dev s) (unat a) (bytes_of_node n), pos := unat a + 208\<rparr>"
  by (simp add: store_node_def commit_inode_in)

lemma uninit_node_in [io_simps]:
  "uninit_node s = (node_of_bytes (map (junk s (fresh s)) [0..<208]), s\<lparr>fresh := Suc (fresh s)\<rparr>)"
  by (simp add: uninit_node_def uninit_def)

lemma node_at_store [simp]: "wf_node n \<Longrightarrow> node_at (wrbytes m a (bytes_of_node n)) a = n"
  by (simp add: node_at_def node_of_bytes_of_node)

lemma node_at_disjoint [addr_simps]:
  "a + 208 \<le> b \<or> b + length bs \<le> a \<Longrightarrow> node_at (wrbytes m b bs) a = node_at m a"
  by (simp add: node_at_def rdbytes_wrbytes_disjoint)

lemma node_at_cong: "(\<And>i. i < 208 \<Longrightarrow> m (a + i) = m' (a + i)) \<Longrightarrow> node_at m a = node_at m' a"
  unfolding node_at_def by (metis rdbytes_cong)

lemma only_io_fetch: "fetch_inode a n s = (r, n', s') \<Longrightarrow> only_io s s' \<and> dev s' = dev s"
proof -
  assume f: "fetch_inode a n s = (r, n', s')"
  show ?thesis
  proof (cases "a = 0")
    case True
    with f show ?thesis by (simp add: fetch_inode_def)
  next
    case False
    obtain r1 bs s1 where rd: "sys_read (drive s) 208 (seek_to (drive s) a s) = (r1, bs, s1)"
      by (metis prod_cases3)
    have "only_io s s1" using only_io_sys_read [OF rd] only_io_seek only_io_trans by blast
    moreover have "dev s1 = dev s"
      using rd by (auto simp: sys_read_def Let_def split: if_splits)
    moreover have "s' = s1"
      using f False rd by (simp add: fetch_inode_def Let_def only_ioD [OF only_io_seek(1)])
    ultimately show ?thesis by simp
  qed
qed

lemma only_io_load: "load_node a n s = (n', s') \<Longrightarrow> only_io s s' \<and> dev s' = dev s"
  by (metis load_node_def only_io_fetch prod.collapse snd_conv)

lemma only_io_store [simp]: "only_io s (store_node n a s)"
  unfolding store_node_def commit_inode_def
  by (auto simp: Let_def split: prod.split dest!: only_io_sys_write intro: only_io_trans [OF only_io_seek(1)])

lemma only_io_uninit: "uninit n s = (bs, s') \<Longrightarrow> only_io s s' \<and> dev s' = dev s"
  by (auto simp: uninit_def)

lemma only_io_uninit_node: "uninit_node s = (n, s') \<Longrightarrow> only_io s s' \<and> dev s' = dev s"
  by (auto simp: uninit_node_in)

lemma only_io_time: "get_current_time_in_nsec s = (t, s') \<Longrightarrow> only_io s s' \<and> dev s' = dev s"
  by (auto simp: get_current_time_in_nsec_def)

end
