(* ===== verification/Block_IO.thy ===== *)
theory Block_IO
  imports Inode
begin

text \<open>
  \<^verbatim>\<open>read_block\<close> and \<^verbatim>\<open>write_block\<close> of \<^verbatim>\<open>disk.c\<close>: transfers inside
  one 4096-byte block, clamped at its end. A buffer argument is \<open>None\<close> for the null
  pointer and otherwise the bytes of the object it points to. The offset is the
  signed \<open>off_t\<close> the C functions take.
\<close>

definition read_block :: "bytes option \<Rightarrow> u64 \<Rightarrow> int \<Rightarrow> u64 \<Rightarrow> fs \<Rightarrow> int \<times> bytes option \<times> fs" where
  "read_block buff block offset n s =
     (case buff of
        None \<Rightarrow> (0, buff, s)
      | Some b \<Rightarrow>
          if block = 0 then (0, buff, s)
          else if offset > BLOCKSIZE \<or> offset < 0 then (0, buff, s)
          else let start = block + u64_of_int offset;
                   bytes_avail = u64_of_int (BLOCKSIZE - offset);
                   s = seek_to (drive s) start s
               in if bytes_avail < n
                  then let (r, bs, s) = sys_read (drive s) (unat bytes_avail) s
                       in (r, Some (patch b bs), s)
                  else let (r, bs, s) = sys_read (drive s) (unat n) s
                       in (r, Some (patch b bs), s))"

definition write_block :: "bytes option \<Rightarrow> u64 \<Rightarrow> int \<Rightarrow> u64 \<Rightarrow> fs \<Rightarrow> int \<times> fs" where
  "write_block buff block offset n s =
     (case buff of
        None \<Rightarrow> (0, s)
      | Some b \<Rightarrow>
          if offset > BLOCKSIZE \<or> offset < 0 then (0, s)
          else let start = block + u64_of_int offset;
                   s = seek_to (drive s) start s;
                   bytes_avail = u64_of_int (BLOCKSIZE - offset)
               in if bytes_avail < n
                  then sys_write (drive s) (take (unat bytes_avail) b) s
                  else sys_write (drive s) (take (unat n) b) s)"

text \<open>Calls that move one \<open>uint64_t\<close>, or one array of known length, to or from a block.\<close>

definition read_block_addr :: "u64 \<Rightarrow> u64 \<Rightarrow> int \<Rightarrow> fs \<Rightarrow> u64 \<times> fs" where
  "read_block_addr v block offset s =
     (case read_block (Some (to_le ADDR_LENGTH v)) block offset ADDR_LENGTH s of
        (r, b, s) \<Rightarrow> (of_le (the b), s))"

definition write_block_addr :: "u64 \<Rightarrow> u64 \<Rightarrow> int \<Rightarrow> fs \<Rightarrow> fs" where
  "write_block_addr v block offset s =
     snd (write_block (Some (to_le ADDR_LENGTH v)) block offset ADDR_LENGTH s)"

definition read_block_arr :: "bytes \<Rightarrow> u64 \<Rightarrow> int \<Rightarrow> fs \<Rightarrow> bytes \<times> fs" where
  "read_block_arr b block offset s =
     (case read_block (Some b) block offset (of_nat (length b)) s of (r, b, s) \<Rightarrow> (the b, s))"

definition write_block_arr :: "bytes \<Rightarrow> u64 \<Rightarrow> int \<Rightarrow> fs \<Rightarrow> fs" where
  "write_block_arr b block offset s =
     snd (write_block (Some b) block offset (of_nat (length b)) s)"

section \<open>Blocks inside the device\<close>

text \<open>A block the program may use: past the superblock and whole on the device.\<close>

definition block_ok :: "fs \<Rightarrow> u64 \<Rightarrow> bool" where
  "block_ok s b \<longleftrightarrow> b \<noteq> 0 \<and> unat b + BLOCKSIZE \<le> devsize s"

lemma block_ok_updates [simp]:
  "block_ok (s\<lparr>dev := m\<rparr>) a = block_ok s a" "block_ok (s\<lparr>pos := p\<rparr>) a = block_ok s a"
  "block_ok (s\<lparr>ticks := t\<rparr>) a = block_ok s a" "block_ok (s\<lparr>fresh := f\<rparr>) a = block_ok s a"
  by (simp_all add: block_ok_def)

lemma block_ok_only_io: "only_io s s' \<Longrightarrow> block_ok s' b = block_ok s b"
  by (simp add: block_ok_def only_io_def)

lemma unat_u64_of_int [simp]: "k < 2 ^ 64 \<Longrightarrow> unat (u64_of_int (int k)) = k"
  by (simp add: u64_of_int_def unat_of_nat)

lemma unat_block_add:
  "ok_dev s \<Longrightarrow> block_ok s b \<Longrightarrow> i \<le> BLOCKSIZE \<Longrightarrow> unat (b + u64_of_int (int i)) = unat b + i"
  by (simp add: u64_of_int_def unat_add_in ok_dev_def block_ok_def)

lemma unat_bytes_avail:
  "i \<le> BLOCKSIZE \<Longrightarrow> unat (u64_of_int (BLOCKSIZE - int i)) = BLOCKSIZE - i"
  using unat_u64_of_int [of "BLOCKSIZE - i"] by simp

text \<open>The number of bytes a call moves.\<close>

lemma pick_min:
  assumes "i \<le> BLOCKSIZE"
  shows "u64_of_int (BLOCKSIZE - int i) < n \<Longrightarrow> min (unat n) (BLOCKSIZE - i) = BLOCKSIZE - i"
    and "\<not> u64_of_int (BLOCKSIZE - int i) < n \<Longrightarrow> min (unat n) (BLOCKSIZE - i) = unat n"
  using unat_bytes_avail [OF assms] by (auto simp: word_less_nat_alt)

lemma read_block_in [io_simps]:
  assumes "ok_dev s" "block_ok s block" "i \<le> BLOCKSIZE"
  shows "read_block (Some b) block (int i) n s =
    (let k = min (unat n) (BLOCKSIZE - i)
     in (int k, Some (patch b (rdbytes (dev s) (unat block + i) k)),
         s\<lparr>pos := unat block + i + k\<rparr>))"
proof -
  have start: "unat (block + u64_of_int (int i)) = unat block + i"
    using assms by (rule unat_block_add)
  have fits: "unat block + i + min (unat n) (BLOCKSIZE - i) \<le> devsize s"
    using assms by (auto simp: block_ok_def)
  have "read_block (Some b) block (int i) n s =
      (\<lambda>k. case sys_read (drive s) k (s\<lparr>pos := unat block + i\<rparr>) of (r, bs, s) \<Rightarrow> (r, Some (patch b bs), s))
        (min (unat n) (BLOCKSIZE - i))"
    using assms start
    by (simp add: read_block_def Let_def io_simps block_ok_def pick_min unat_bytes_avail)
  then show ?thesis
    using assms fits by (simp add: io_simps Let_def)
qed

lemma write_block_in [io_simps]:
  assumes "ok_dev s" "block_ok s block" "i \<le> BLOCKSIZE"
  shows "write_block (Some b) block (int i) n s =
    (let bs = take (min (unat n) (BLOCKSIZE - i)) b
     in (int (length bs), s\<lparr>dev := wrbytes (dev s) (unat block + i) bs,
         pos := unat block + i + length bs\<rparr>))"
proof -
  have start: "unat (block + u64_of_int (int i)) = unat block + i"
    using assms by (rule unat_block_add)
  have fits: "unat block + i + min (length b) (min (unat n) (BLOCKSIZE - i)) \<le> devsize s"
    using assms by (auto simp: block_ok_def)
  have "write_block (Some b) block (int i) n s =
      (\<lambda>k. sys_write (drive s) (take k b) (s\<lparr>pos := unat block + i\<rparr>)) (min (unat n) (BLOCKSIZE - i))"
    using assms start
    by (simp add: write_block_def Let_def io_simps block_ok_def pick_min unat_bytes_avail)
  then show ?thesis
    using assms fits by (simp add: io_simps Let_def)
qed


lemma read_block_addr_in [io_simps]:
  "ok_dev s \<Longrightarrow> block_ok s block \<Longrightarrow> i + 8 \<le> BLOCKSIZE \<Longrightarrow>
     read_block_addr v block (int i) s =
       (rd64 (dev s) (unat block + i), s\<lparr>pos := unat block + i + 8\<rparr>)"
  by (auto simp: read_block_addr_def read_block_in Let_def rd64_def min_def)

lemma write_block_addr_in [io_simps]:
  "ok_dev s \<Longrightarrow> block_ok s block \<Longrightarrow> i + 8 \<le> BLOCKSIZE \<Longrightarrow>
     write_block_addr v block (int i) s =
       s\<lparr>dev := wr64 (dev s) (unat block + i) v, pos := unat block + i + 8\<rparr>"
  by (auto simp: write_block_addr_def write_block_in Let_def wr64_def min_def)

lemma read_block_arr_in [io_simps]:
  "ok_dev s \<Longrightarrow> block_ok s block \<Longrightarrow> i + length b \<le> BLOCKSIZE \<Longrightarrow>
     read_block_arr b block (int i) s =
       (rdbytes (dev s) (unat block + i) (length b), s\<lparr>pos := unat block + i + length b\<rparr>)"
  by (auto simp: read_block_arr_def read_block_in Let_def min_def unat_of_nat)

lemma write_block_arr_in [io_simps]:
  "ok_dev s \<Longrightarrow> block_ok s block \<Longrightarrow> i + length b \<le> BLOCKSIZE \<Longrightarrow>
     write_block_arr b block (int i) s =
       s\<lparr>dev := wrbytes (dev s) (unat block + i) b, pos := unat block + i + length b\<rparr>"
  by (auto simp: write_block_arr_def write_block_in Let_def min_def unat_of_nat)

text \<open>The same calls with the offset as the code has it, an \<open>off_t\<close>.\<close>

lemma read_block_addr_at:
  "ok_dev s \<Longrightarrow> block_ok s block \<Longrightarrow> 0 \<le> off \<Longrightarrow> off \<le> 4088 \<Longrightarrow>
     read_block_addr v block off s =
       (rd64 (dev s) (unat block + nat off), s\<lparr>pos := unat block + nat off + 8\<rparr>)"
  using read_block_addr_in [of s block "nat off" v] by simp

lemma write_block_addr_at:
  "ok_dev s \<Longrightarrow> block_ok s block \<Longrightarrow> 0 \<le> off \<Longrightarrow> off \<le> 4088 \<Longrightarrow>
     write_block_addr v block off s =
       s\<lparr>dev := wr64 (dev s) (unat block + nat off) v, pos := unat block + nat off + 8\<rparr>"
  using write_block_addr_in [of s block "nat off" v] by simp

lemma read_block_arr_at:
  "ok_dev s \<Longrightarrow> block_ok s block \<Longrightarrow> 0 \<le> off \<Longrightarrow> nat off + length b \<le> BLOCKSIZE \<Longrightarrow>
     read_block_arr b block off s =
       (rdbytes (dev s) (unat block + nat off) (length b), s\<lparr>pos := unat block + nat off + length b\<rparr>)"
  using read_block_arr_in [of s block "nat off" b] by simp

lemma write_block_arr_at:
  "ok_dev s \<Longrightarrow> block_ok s block \<Longrightarrow> 0 \<le> off \<Longrightarrow> nat off + length b \<le> BLOCKSIZE \<Longrightarrow>
     write_block_arr b block off s =
       s\<lparr>dev := wrbytes (dev s) (unat block + nat off) b, pos := unat block + nat off + length b\<rparr>"
  using write_block_arr_in [of s block "nat off" b] by simp

lemma read_block_at:
  "ok_dev s \<Longrightarrow> block_ok s block \<Longrightarrow> 0 \<le> off \<Longrightarrow> off \<le> 4096 \<Longrightarrow>
     read_block (Some b) block off n s =
       (let k = min (unat n) (BLOCKSIZE - nat off)
        in (int k, Some (patch b (rdbytes (dev s) (unat block + nat off) k)),
            s\<lparr>pos := unat block + nat off + k\<rparr>))"
  using read_block_in [of s block "nat off" b n] by simp

lemma write_block_at:
  "ok_dev s \<Longrightarrow> block_ok s block \<Longrightarrow> 0 \<le> off \<Longrightarrow> off \<le> 4096 \<Longrightarrow>
     write_block (Some b) block off n s =
       (let bs = take (min (unat n) (BLOCKSIZE - nat off)) b
        in (int (length bs), s\<lparr>dev := wrbytes (dev s) (unat block + nat off) bs,
            pos := unat block + nat off + length bs\<rparr>))"
  using write_block_in [of s block "nat off" b n] by simp

lemmas block_at = read_block_at write_block_at read_block_addr_at write_block_addr_at read_block_arr_at write_block_arr_at

text \<open>The rejected calls: a null buffer, a null source block, an offset outside the block.\<close>

lemma read_block_rejects:
  "block = 0 \<or> off < 0 \<or> BLOCKSIZE < off \<Longrightarrow> read_block (Some b) block off n s = (0, Some b, s)"
  "read_block None block off n s = (0, None, s)"
  by (auto simp: read_block_def)

lemma write_block_rejects:
  "off < 0 \<or> BLOCKSIZE < off \<Longrightarrow> write_block (Some b) block off n s = (0, s)"
  "write_block None block off n s = (0, s)"
  by (auto simp: write_block_def)

lemma read_block_addr_null [simp]: "read_block_addr v 0 off s = (v, s)"
  by (simp add: read_block_addr_def read_block_rejects)

lemma only_io_read_block: "read_block b block off n s = (r, b', s') \<Longrightarrow> only_io s s' \<and> dev s' = dev s"
proof -
  have rd: "only_io s s' \<and> dev s' = dev s"
    if "sys_read (drive s) k (seek_to (drive s) a s) = (r, bs, s')" for k a r bs s'
  proof -
    have "dev s' = dev s" using that by (auto simp: sys_read_def Let_def split: if_splits)
    then show ?thesis using only_io_sys_read [OF that] only_io_trans [OF only_io_seek(1)] by blast
  qed
  assume "read_block b block off n s = (r, b', s')"
  then show ?thesis
    by (auto simp: read_block_def Let_def only_ioD [OF only_io_seek(1)]
        split: option.splits if_splits prod.splits dest: rd)
qed

lemma only_io_write_block: "write_block b block off n s = (r, s') \<Longrightarrow> only_io s s'"
  by (auto simp: write_block_def Let_def split: option.splits if_splits
      dest!: only_io_sys_write intro: only_io_trans [OF only_io_seek(1)])

lemma only_io_read_block_addr: "read_block_addr v block off s = (w, s') \<Longrightarrow> only_io s s' \<and> dev s' = dev s"
  by (auto simp: read_block_addr_def split: prod.splits dest: only_io_read_block)

lemma only_io_write_block_addr [simp]: "only_io s (write_block_addr v block off s)"
  unfolding write_block_addr_def by (metis only_io_write_block prod.collapse)

lemma only_io_write_block_arr [simp]: "only_io s (write_block_arr b block off s)"
  unfolding write_block_arr_def by (metis only_io_write_block prod.collapse)

lemma only_io_read_block_arr: "read_block_arr b block off s = (w, s') \<Longrightarrow> only_io s s' \<and> dev s' = dev s"
  by (auto simp: read_block_arr_def split: prod.splits dest: only_io_read_block)

section \<open>Properties\<close>

text \<open>
  A write into a block moves as many bytes as fit before the block's end, changes only
  those bytes of the device, and a read at the same place returns just them (the
  assertions of \<^verbatim>\<open>test_read_and_write_block\<close>, the clamp at 4090 included).
\<close>

theorem write_then_read_block:
  assumes "ok_dev s" "block_ok s b" "off \<le> BLOCKSIZE" "length d < 2 ^ 64" "length buf = length d"
    and "k = min (length d) (BLOCKSIZE - off)"
  shows "\<exists>s' s''. write_block (Some d) b (int off) (of_nat (length d)) s = (int k, s') \<and>
    only_io s s' \<and>
    (\<forall>x. x < unat b + off \<or> unat b + off + k \<le> x \<longrightarrow> dev s' x = dev s x) \<and>
    read_block (Some buf) b (int off) (of_nat (length d)) s' =
      (int k, Some (take k d @ drop k buf), s'') \<and> dev s'' = dev s'"
proof -
  have n: "unat (of_nat (length d) :: u64) = length d" using assms(4) by (simp add: unat_of_nat)
  let ?s' = "s\<lparr>dev := wrbytes (dev s) (unat b + off) (take k d), pos := unat b + off + k\<rparr>"
  have w: "write_block (Some d) b (int off) (of_nat (length d)) s = (int k, ?s')"
    using assms n by (simp add: io_simps Let_def)
  have "length (take k d) = k" using assms(6) by simp
  then have "rdbytes (dev ?s') (unat b + off) k = take k d" by simp
  then have "read_block (Some buf) b (int off) (of_nat (length d)) ?s' =
      (int k, Some (take k d @ drop k buf), ?s'\<lparr>pos := unat b + off + k\<rparr>)"
    using assms n by (simp add: io_simps Let_def patch_def)
  then show ?thesis
    using w \<open>length (take k d) = k\<close> by (auto simp: only_io_def wrbytes_out)
qed

text \<open>A one-block disk for the witness: the block at 4096.\<close>

definition blank_fs :: "nat \<Rightarrow> fs" where
  "blank_fs n = \<lparr>dev = (\<lambda>_. 0), devsize = n, pos = 0, drive = 3, root_node = 4096,
     drivesize = of_nat n, inode_byte_boundary = 8192, num_blocks = of_nat (n div 4096),
     inode_blocks = 1, data_blocks = 63, clock = of_nat, ticks = 0, junk = (\<lambda>_ _. 7),
     fresh = 0, euid = 0, egid = 0\<rparr>"

theorem write_then_read_block_witness:
  "\<exists>s' s''. write_block (Some (bytes_of_string ''Testing'')) 4096 4090 7 (blank_fs 8192) = (6, s') \<and>
     read_block (Some (replicate 7 0)) 4096 4090 7 s' = (6, Some (bytes_of_string ''Testin'' @ [0]), s'')"
proof -
  have p: "ok_dev (blank_fs 8192)" "block_ok (blank_fs 8192) 4096"
    by (simp_all add: ok_dev_def block_ok_def blank_fs_def)
  let ?d = "bytes_of_string ''Testing''"
  have d: "length ?d = 7" "take 6 ?d = bytes_of_string ''Testin''" "drop 6 (replicate 7 0) = [0 :: u8]"
    by (simp_all add: bytes_of_string_def)
  show ?thesis
    using write_then_read_block [OF p, of 4090 ?d "replicate 7 0" 6] unfolding d(1) d(2) d(3)
    by (simp only: list.size length_replicate) (auto simp: d(3))
qed

end
