(* ===== verification/Free_List.thy ===== *)
theory Free_List
  imports Block_IO "HOL-Library.Multiset"
begin

text \<open>
  The free list of \<^verbatim>\<open>disk.c\<close>: \<^verbatim>\<open>allocate_block\<close> and
  \<^verbatim>\<open>free_block\<close>. The superblock (address 0) holds the address of the first list
  block; a list block is itself free and holds 512 addresses, 0 for an empty slot, the
  last of them being the next list block. The abstract content is the set of free blocks;
  the two operations refine removing an element of it and inserting one, which is the
  contract stated as the locale \<open>block_pool\<close> and interpreted on the model.
\<close>

section \<open>The operations\<close>

text \<open>The loop of \<^verbatim>\<open>allocate_block\<close>, with the code after it as its last branch.\<close>

function allocate_block_loop :: "nat \<Rightarrow> u64 \<Rightarrow> u64 \<Rightarrow> fs \<Rightarrow> u64 \<times> fs" where
  "allocate_block_loop i next_block free_block s =
     (if i < BLOCKSIZE then
        let (free_block, s) = read_addr (drive s) free_block s
        in if free_block \<noteq> 0 then
             let s = seek_by (drive s) (- ADDR_LENGTH) s;
                 s = write_zeros (drive s) ADDR_LENGTH s
             in if i = BLOCKSIZE - ADDR_LENGTH then
                  let next_block = free_block;
                      s = seek_to (drive s) 0 s;
                      (free_block, s) = read_addr (drive s) free_block s;
                      s = seek_to (drive s) 0 s;
                      s = write_addr (drive s) next_block s
                  in (free_block, s)
                else (free_block, s)
           else allocate_block_loop (i + ADDR_LENGTH) (next_block + ADDR_LENGTH) free_block s
      else
        let s = seek_to (drive s) 0 s;
            (free_block, s) = read_addr (drive s) free_block s;
            s = seek_by (drive s) (- ADDR_LENGTH) s;
            s = write_zeros (drive s) ADDR_LENGTH s
        in (free_block, s))"
  by pat_completeness auto
termination
  by (relation "measure (\<lambda>(i, _). BLOCKSIZE - i)") auto

declare allocate_block_loop.simps [simp del]

definition allocate_block :: "fs \<Rightarrow> u64 \<times> fs" where
  "allocate_block s =
     (let s = seek_to (drive s) 0 s;
          (next_block, s) = read_addr (drive s) 0 s
      in if next_block = 0 then (0, s)
         else let s = seek_to (drive s) next_block s
              in allocate_block_loop 0 next_block 0 s)"

function free_block_loop :: "u64 \<Rightarrow> nat \<Rightarrow> u64 \<Rightarrow> u64 \<Rightarrow> fs \<Rightarrow> int \<times> fs" where
  "free_block_loop block i next_block free_block s =
     (if i < BLOCKSIZE then
        let (free_block, s) = read_addr (drive s) free_block s
        in if free_block = 0 then
             let s = seek_by (drive s) (- ADDR_LENGTH) s;
                 s = write_addr (drive s) block s
             in if i = BLOCKSIZE - ADDR_LENGTH then
                  let s = seek_to (drive s) block s;
                      s = write_zeros (drive s) BLOCKSIZE s
                  in (0, s)
                else (0, s)
           else free_block_loop block (i + ADDR_LENGTH) (next_block + ADDR_LENGTH) free_block s
      else
        let next_block = next_block - BLOCKSIZE;
            s = seek_to (drive s) block s;
            s = write_zeros (drive s) BLOCKSIZE s;
            s = seek_to (drive s) (block + BLOCKSIZE - ADDR_LENGTH) s;
            s = write_addr (drive s) next_block s;
            s = seek_to (drive s) 0 s;
            s = write_addr (drive s) block s
        in (0, s))"
  by pat_completeness auto
termination
  by (relation "measure (\<lambda>(b, i, _). BLOCKSIZE - i)") auto

declare free_block_loop.simps [simp del]

definition free_block :: "int \<Rightarrow> u64 \<Rightarrow> fs \<Rightarrow> int \<times> fs" where
  "free_block fd block s =
     (if fd < 0 \<or> block = 0 then (-1, s)
      else
        let s = seek_to (drive s) 0 s;
            (next_block, s) = read_addr (drive s) 0 s
        in if next_block = 0 then
             let s = seek_to (drive s) 0 s;
                 s = write_addr (drive s) block s;
                 s = seek_to (drive s) block s;
                 s = write_zeros (drive s) BLOCKSIZE s
             in (0, s)
           else
             let s = seek_to (drive s) next_block s
             in free_block_loop block 0 next_block 0 s)"

section \<open>The abstract free list\<close>

definition entry :: "mem \<Rightarrow> u64 \<Rightarrow> nat \<Rightarrow> u64" where
  "entry m h j = rd64 m (unat h + 8 * j)"

definition spare :: "mem \<Rightarrow> u64 \<Rightarrow> u64 list" where
  "spare m h = filter (\<lambda>b. b \<noteq> 0) (map (entry m h) [0..<511])"

text \<open>The free blocks held by the list blocks \<open>hs\<close>.\<close>

definition free_of :: "mem \<Rightarrow> u64 list \<Rightarrow> u64 list" where
  "free_of m hs = concat (map (\<lambda>h. h # spare m h) hs)"

fun chain :: "mem \<Rightarrow> u64 \<Rightarrow> u64 list \<Rightarrow> bool" where
  "chain m h [] \<longleftrightarrow> h = 0"
| "chain m h (x # xs) \<longleftrightarrow> h \<noteq> 0 \<and> x = h \<and> chain m (entry m h 511) xs"

text \<open>An aligned block of the data region, whole on the device.\<close>

definition data_block :: "fs \<Rightarrow> u64 \<Rightarrow> bool" where
  "data_block s b \<longleftrightarrow>
     b \<noteq> 0 \<and> BLOCKSIZE dvd unat b \<and> unat (inode_byte_boundary s) \<le> unat b \<and>
     unat b + BLOCKSIZE \<le> devsize s"

definition super :: "fs \<Rightarrow> u64" where
  "super s = rd64 (dev s) 0"

text \<open>The list blocks, found by following the chain; the fuel is the number of blocks.\<close>

fun walk :: "nat \<Rightarrow> mem \<Rightarrow> u64 \<Rightarrow> u64 list" where
  "walk 0 m h = []"
| "walk (Suc n) m h = (if h = 0 then [] else h # walk n m (entry m h 511))"

definition heads :: "fs \<Rightarrow> u64 list" where
  "heads s = walk (devsize s div BLOCKSIZE) (dev s) (super s)"

definition free_blocks :: "fs \<Rightarrow> u64 list" where
  "free_blocks s = free_of (dev s) (heads s)"

definition free_set :: "fs \<Rightarrow> u64 set" where
  "free_set s = set (free_blocks s)"

definition fl_ok :: "fs \<Rightarrow> u64 list \<Rightarrow> bool" where
  "fl_ok s hs \<longleftrightarrow>
     ok_dev s \<and> BLOCKSIZE \<le> devsize s \<and> chain (dev s) (super s) hs \<and>
     distinct (free_of (dev s) hs) \<and> list_all (data_block s) (free_of (dev s) hs)"

definition fl_inv :: "fs \<Rightarrow> bool" where
  "fl_inv s \<longleftrightarrow> fl_ok s (heads s)"

section \<open>What the loops do\<close>

lemma seek_by_8 [io_simps]:
  "ok_dev s \<Longrightarrow> fd = drive s \<Longrightarrow> 8 \<le> pos s \<Longrightarrow> pos s \<le> devsize s \<Longrightarrow>
     seek_by fd (- 8) s = s\<lparr>pos := pos s - 8\<rparr>"
  using seek_by_back [of s fd 8] by simp

lemma pos_same [simp]: "p = pos s \<Longrightarrow> s\<lparr>pos := p\<rparr> = s"
  by simp

lemma wrbytes_zeros_8 [simp]: "wrbytes m a (replicate 8 0) = wr64 m a 0"
  by (simp add: wr64_def)

lemma data_block_block_ok: "data_block s b \<Longrightarrow> block_ok s b"
  by (simp add: data_block_def block_ok_def)

text \<open>The first used slot of a list block is handed out and cleared.\<close>

lemma allocate_block_loop_skip:
  assumes "ok_dev s" "block_ok s h" "k < 512" "entry (dev s) h k = 0" "pos s = unat h + 8 * k"
  shows "allocate_block_loop (8 * k) nb fb s =
    allocate_block_loop (8 * Suc k) (nb + 8) 0 (s\<lparr>pos := unat h + 8 * Suc k\<rparr>)"
  using assms by (subst allocate_block_loop.simps) (simp add: io_simps block_ok_def entry_def ac_simps)

lemma allocate_block_loop_hit:
  assumes "ok_dev s" "block_ok s h" "j < 512" "entry (dev s) h j \<noteq> 0" "pos s = unat h + 8 * j"
  shows "allocate_block_loop (8 * j) nb fb s =
    (if j = 511
     then (rd64 (wr64 (dev s) (unat h + 8 * j) 0) 0,
           s\<lparr>dev := wr64 (wr64 (dev s) (unat h + 8 * j) 0) 0 (entry (dev s) h j), pos := 8\<rparr>)
     else (entry (dev s) h j,
           s\<lparr>dev := wr64 (dev s) (unat h + 8 * j) 0, pos := unat h + 8 * j + 8\<rparr>))"
  using assms by (subst allocate_block_loop.simps) (simp add: io_simps block_ok_def entry_def Let_def ac_simps)

lemma allocate_block_loop_miss:
  assumes "ok_dev s" "8 \<le> devsize s"
  shows "allocate_block_loop 4096 nb fb s = (super s, s\<lparr>dev := wr64 (dev s) 0 0, pos := 8\<rparr>)"
  using assms by (subst allocate_block_loop.simps) (simp add: io_simps super_def Let_def)

lemma allocate_block_loop_run:
  assumes "ok_dev s" "block_ok s h" "k \<le> j" "j \<le> 512"
    and "\<And>i. k \<le> i \<Longrightarrow> i < j \<Longrightarrow> entry (dev s) h i = 0"
    and "pos s = unat h + 8 * k"
  shows "\<exists>nb' fb'. allocate_block_loop (8 * k) nb fb s =
    allocate_block_loop (8 * j) nb' fb' (s\<lparr>pos := unat h + 8 * j\<rparr>)"
  using assms
proof (induction "j - k" arbitrary: k nb fb s)
  case 0
  then have "j = k" by simp
  with "0.prems" show ?case by fastforce
next
  case (Suc x)
  have k: "k < 512" "k < j" using Suc.hyps Suc.prems by simp_all
  have "\<exists>nb' fb'. allocate_block_loop (8 * Suc k) (nb + 8) 0 (s\<lparr>pos := unat h + 8 * Suc k\<rparr>) =
      allocate_block_loop (8 * j) nb' fb' (s\<lparr>pos := unat h + 8 * Suc k, pos := unat h + 8 * j\<rparr>)"
    using Suc.hyps Suc.prems k by (intro Suc.hyps(1)) auto
  then show ?case
    using allocate_block_loop_skip [OF Suc.prems(1,2) k(1) _ Suc.prems(6)] Suc.prems(5) k by simp
qed

lemma pos_eq: "s\<lparr>dev := m, pos := p\<rparr> = s\<lparr>dev := m, pos := q\<rparr> \<longleftrightarrow> p = q"
  by (metis fs.select_convs(3) fs.surjective fs.update_convs(3))

text \<open>The slots of a list block before the first one that satisfies a test.\<close>

lemma first_slot:
  obtains "\<forall>i < (n :: nat). \<not> P i" | j where "j < n" "P j" "\<forall>i < j. \<not> P i"
proof (cases "\<exists>i < n. P i")
  case True
  then obtain j where "P j" "j < n" by blast
  then have "P (LEAST i. P i)" "(LEAST i. P i) < n" "\<forall>i < (LEAST i. P i). \<not> P i"
    by (auto intro: LeastI le_less_trans [OF Least_le] dest: not_less_Least)
  then show ?thesis using that(2) [of "LEAST i. P i"] by blast
qed (use that(1) in blast)

lemma allocate_block_null:
  assumes "ok_dev s" "8 \<le> devsize s" "super s = 0"
  shows "allocate_block s = (0, s\<lparr>pos := 8\<rparr>)"
  using assms by (simp add: allocate_block_def io_simps super_def)

lemma allocate_block_reach:
  assumes "ok_dev s" "block_ok s h" "super s = h" "j \<le> 512" "\<forall>i < j. entry (dev s) h i = 0"
  obtains nb fb where
    "allocate_block s = allocate_block_loop (8 * j) nb fb (s\<lparr>pos := unat h + 8 * j\<rparr>)"
proof -
  have "allocate_block s = allocate_block_loop (8 * 0) h 0 (s\<lparr>pos := unat h + 8 * 0\<rparr>)"
    using assms by (auto simp: allocate_block_def io_simps super_def block_ok_def)
  then show ?thesis
    using allocate_block_loop_run [of "s\<lparr>pos := unat h + 8 * 0\<rparr>" h 0 j h 0] assms that by auto
qed

lemma allocate_block_spare:
  assumes "ok_dev s" "block_ok s h" "super s = h" "j < 511"
    and "entry (dev s) h j \<noteq> 0" "\<forall>i < j. entry (dev s) h i = 0"
  shows "allocate_block s = (entry (dev s) h j,
    s\<lparr>dev := wr64 (dev s) (unat h + 8 * j) 0, pos := unat h + 8 * j + 8\<rparr>)"
proof -
  obtain nb fb where "allocate_block s = allocate_block_loop (8 * j) nb fb (s\<lparr>pos := unat h + 8 * j\<rparr>)"
    by (rule allocate_block_reach [OF assms(1-3), of j]) (use assms in auto)
  then show ?thesis
    using assms by (simp add: allocate_block_loop_hit [of _ h])
qed

lemma allocate_block_last:
  assumes "ok_dev s" "block_ok s h" "super s = h" "8 \<le> unat h"
    and "entry (dev s) h 511 \<noteq> 0" "\<forall>i < 511. entry (dev s) h i = 0"
  shows "allocate_block s = (h, s\<lparr>dev := wr64 (wr64 (dev s) (unat h + 4088) 0) 0 (entry (dev s) h 511), pos := 8\<rparr>)"
proof -
  obtain nb fb where "allocate_block s = allocate_block_loop (8 * 511) nb fb (s\<lparr>pos := unat h + 8 * 511\<rparr>)"
    by (rule allocate_block_reach [OF assms(1-3), of 511]) (use assms in auto)
  moreover have "rd64 (wr64 (dev s) (unat h + 4088) 0) 0 = h"
    using assms by (simp add: addr_simps super_def)
  ultimately show ?thesis
    using assms allocate_block_loop_hit [of "s\<lparr>pos := unat h + 8 * 511\<rparr>" h 511 nb fb]
    by simp
qed

lemma allocate_block_empty:
  assumes "ok_dev s" "block_ok s h" "super s = h" "\<forall>i < 512. entry (dev s) h i = 0"
  shows "allocate_block s = (h, s\<lparr>dev := wr64 (dev s) 0 0, pos := 8\<rparr>)"
proof -
  obtain nb fb where "allocate_block s = allocate_block_loop (8 * 512) nb fb (s\<lparr>pos := unat h + 8 * 512\<rparr>)"
    by (rule allocate_block_reach [OF assms(1-3), of 512]) (use assms in auto)
  then show ?thesis
    using assms allocate_block_loop_miss [of "s\<lparr>pos := unat h + 8 * 512\<rparr>" nb fb]
    by (simp add: block_ok_def super_def)
qed


text \<open>\<^verbatim>\<open>free_block\<close> uses the first empty slot, or starts a new list block.\<close>

lemma free_block_loop_skip:
  assumes "ok_dev s" "block_ok s h" "k < 512" "entry (dev s) h k \<noteq> 0" "pos s = unat h + 8 * k"
  shows "free_block_loop b (8 * k) nb fb s =
    free_block_loop b (8 * Suc k) (nb + 8) (entry (dev s) h k) (s\<lparr>pos := unat h + 8 * Suc k\<rparr>)"
  using assms by (subst free_block_loop.simps) (simp add: io_simps block_ok_def entry_def ac_simps)

lemma free_block_loop_hit:
  assumes "ok_dev s" "block_ok s h" "block_ok s b" "j < 512" "entry (dev s) h j = 0"
    and "pos s = unat h + 8 * j"
  shows "\<exists>p. free_block_loop b (8 * j) nb fb s =
    (0, s\<lparr>dev := (if j = 511
             then wrbytes (wr64 (dev s) (unat h + 8 * j) b) (unat b) (replicate BLOCKSIZE 0)
             else wr64 (dev s) (unat h + 8 * j) b), pos := p\<rparr>)"
  using assms
  by (subst free_block_loop.simps) (auto simp: io_simps block_ok_def entry_def Let_def ac_simps)

lemma free_block_loop_full:
  assumes "ok_dev s" "block_ok s b"
  shows "\<exists>p. free_block_loop b 4096 nb fb s =
    (0, s\<lparr>dev := wr64 (wr64 (wrbytes (dev s) (unat b) (replicate BLOCKSIZE 0)) (unat b + 4088) (nb - BLOCKSIZE)) 0 b,
          pos := p\<rparr>)"
proof -
  have "unat (b + of_nat 4088) = unat b + 4088"
    using assms by (intro unat_add_in) (simp add: ok_dev_def block_ok_def)
  then have "unat (b + BLOCKSIZE - ADDR_LENGTH) = unat b + 4088" by (simp add: add.commute)
  then show ?thesis
    using assms(1,2) by (subst free_block_loop.simps) (auto simp: io_simps block_ok_def Let_def)
qed

lemma free_block_loop_run:
  assumes "ok_dev s" "block_ok s h" "k \<le> j" "j \<le> 512"
    and "\<And>i. k \<le> i \<Longrightarrow> i < j \<Longrightarrow> entry (dev s) h i \<noteq> 0"
    and "pos s = unat h + 8 * k"
  shows "\<exists>fb'. free_block_loop b (8 * k) nb fb s =
    free_block_loop b (8 * j) (nb + of_nat (8 * (j - k))) fb' (s\<lparr>pos := unat h + 8 * j\<rparr>)"
  using assms
proof (induction "j - k" arbitrary: k nb fb s)
  case 0
  then have "j = k" by simp
  with "0.prems" show ?case by fastforce
next
  case (Suc x)
  have k: "k < 512" "k < j" "j - k = Suc (j - Suc k)" using Suc.hyps Suc.prems by simp_all
  have "\<exists>fb'. free_block_loop b (8 * Suc k) (nb + 8) (entry (dev s) h k) (s\<lparr>pos := unat h + 8 * Suc k\<rparr>) =
      free_block_loop b (8 * j) (nb + 8 + of_nat (8 * (j - Suc k))) fb'
        (s\<lparr>pos := unat h + 8 * Suc k, pos := unat h + 8 * j\<rparr>)"
    using Suc.hyps Suc.prems k by (intro Suc.hyps(1)) auto
  then show ?case
    using free_block_loop_skip [OF Suc.prems(1,2) k(1) _ Suc.prems(6)] Suc.prems(5) [of k] k
    by (simp add: algebra_simps)
qed

lemma free_block_null:
  assumes "ok_dev s" "block_ok s b" "super s = 0"
  shows "\<exists>p. free_block (drive s) b s =
    (0, s\<lparr>dev := wrbytes (wr64 (dev s) 0 b) (unat b) (replicate BLOCKSIZE 0), pos := p\<rparr>)"
  using assms by (auto simp: free_block_def io_simps super_def block_ok_def ok_dev_def)

lemma free_block_reach:
  assumes "ok_dev s" "block_ok s h" "block_ok s b" "super s = h" "j \<le> 512"
    and "\<forall>i < j. entry (dev s) h i \<noteq> 0"
  obtains fb where "free_block (drive s) b s =
    free_block_loop b (8 * j) (h + of_nat (8 * j)) fb (s\<lparr>pos := unat h + 8 * j\<rparr>)"
proof -
  have "free_block (drive s) b s = free_block_loop b (8 * 0) h 0 (s\<lparr>pos := unat h + 8 * 0\<rparr>)"
    using assms by (auto simp: free_block_def io_simps super_def block_ok_def ok_dev_def)
  then show ?thesis
    using free_block_loop_run [of "s\<lparr>pos := unat h + 8 * 0\<rparr>" h 0 j b h 0] assms that by auto
qed

lemma free_block_slot:
  assumes "ok_dev s" "block_ok s h" "block_ok s b" "super s = h" "j < 512"
    and "entry (dev s) h j = 0" "\<forall>i < j. entry (dev s) h i \<noteq> 0"
  shows "\<exists>p. free_block (drive s) b s =
    (0, s\<lparr>dev := (if j = 511
             then wrbytes (wr64 (dev s) (unat h + 8 * j) b) (unat b) (replicate BLOCKSIZE 0)
             else wr64 (dev s) (unat h + 8 * j) b), pos := p\<rparr>)"
proof -
  obtain fb where "free_block (drive s) b s =
      free_block_loop b (8 * j) (h + of_nat (8 * j)) fb (s\<lparr>pos := unat h + 8 * j\<rparr>)"
    by (rule free_block_reach [OF assms(1-4), of j]) (use assms in auto)
  then show ?thesis
    using assms free_block_loop_hit [of "s\<lparr>pos := unat h + 8 * j\<rparr>" h b j "h + of_nat (8 * j)" fb]
    by auto
qed

lemma free_block_full:
  assumes "ok_dev s" "block_ok s h" "block_ok s b" "super s = h"
    and "\<forall>i < 512. entry (dev s) h i \<noteq> 0"
  shows "\<exists>p. free_block (drive s) b s =
    (0, s\<lparr>dev := wr64 (wr64 (wrbytes (dev s) (unat b) (replicate BLOCKSIZE 0)) (unat b + 4088) h) 0 b,
          pos := p\<rparr>)"
proof -
  obtain fb where "free_block (drive s) b s =
      free_block_loop b (8 * 512) (h + of_nat (8 * 512)) fb (s\<lparr>pos := unat h + 8 * 512\<rparr>)"
    by (rule free_block_reach [OF assms(1-4), of 512]) (use assms in auto)
  then show ?thesis
    using assms free_block_loop_full [of "s\<lparr>pos := unat h + 8 * 512\<rparr>" b "h + of_nat (8 * 512)" fb]
    by simp
qed


section \<open>The abstraction\<close>

lemma aligned_blocks_apart:
  "BLOCKSIZE dvd a \<Longrightarrow> BLOCKSIZE dvd b \<Longrightarrow> a \<noteq> b \<Longrightarrow> a + BLOCKSIZE \<le> b \<or> b + BLOCKSIZE \<le> (a :: nat)"
  by (auto elim!: dvdE)

lemma data_blocks_apart:
  "data_block s a \<Longrightarrow> data_block s b \<Longrightarrow> a \<noteq> b \<Longrightarrow>
     unat a + BLOCKSIZE \<le> unat b \<or> unat b + BLOCKSIZE \<le> unat a"
  by (rule aligned_blocks_apart) (simp_all add: data_block_def word_unat_eq_iff)

lemma data_block_ge: "data_block s b \<Longrightarrow> BLOCKSIZE \<le> unat b"
  by (rule dvd_imp_le) (simp_all add: data_block_def unat_gt_0)

lemma data_block_only_io: "only_io s s' \<Longrightarrow> data_block s' b = data_block s b"
  by (simp add: data_block_def only_io_def)

text \<open>Two memories that agree on a set of addresses agree on the free list kept there.\<close>

definition same_block :: "mem \<Rightarrow> mem \<Rightarrow> u64 \<Rightarrow> bool" where
  "same_block m m' h \<longleftrightarrow> (\<forall>i < BLOCKSIZE. m (unat h + i) = m' (unat h + i))"

lemma entry_same: "same_block m m' h \<Longrightarrow> j < 512 \<Longrightarrow> entry m' h j = entry m h j"
  unfolding entry_def same_block_def by (intro rd64_cong) (simp add: add.assoc)

lemma spare_cong: "(\<And>i. i < 511 \<Longrightarrow> entry m' h' i = entry m h i) \<Longrightarrow> spare m' h' = spare m h"
  unfolding spare_def by (intro arg_cong [of _ _ "filter _"] map_cong) simp_all

lemma spare_same: "same_block m m' h \<Longrightarrow> spare m' h = spare m h"
  by (rule spare_cong) (simp add: entry_same)

lemma free_of_same: "(\<And>h. h \<in> set hs \<Longrightarrow> same_block m m' h) \<Longrightarrow> free_of m' hs = free_of m hs"
  unfolding free_of_def by (intro arg_cong [of _ _ concat] map_cong) (simp_all add: spare_same)

lemma chain_same: "(\<And>h. h \<in> set hs \<Longrightarrow> same_block m m' h) \<Longrightarrow> chain m' x hs = chain m x hs"
proof (induction hs arbitrary: x)
  case (Cons h hs)
  have "entry m' h 511 = entry m h 511"
    using Cons.prems [of h] by (intro entry_same) simp_all
  moreover have "chain m' x hs = chain m x hs" for x
    using Cons.prems by (intro Cons.IH) simp
  ultimately show ?case by (metis chain.simps(2))
qed simp

lemma same_block_wrbytes:
  "unat h + BLOCKSIZE \<le> a \<or> a + length bs \<le> unat h \<Longrightarrow> same_block m (wrbytes m a bs) h"
  by (auto simp: same_block_def wrbytes_def)

lemma same_block_wr64:
  "unat h + BLOCKSIZE \<le> a \<or> a + 8 \<le> unat h \<Longrightarrow> same_block m (wr64 m a v) h"
  by (simp add: wr64_def same_block_wrbytes)

lemma same_block_trans: "same_block m m' h \<Longrightarrow> same_block m' m'' h \<Longrightarrow> same_block m m'' h"
  by (simp add: same_block_def)

lemma entry_wr64_slot:
  "entry (wr64 m (unat h + 8 * j) v) h i = (if i = j then v else entry m h i)"
proof (cases "i = j")
  case False
  then have "unat h + 8 * i + 8 \<le> unat h + 8 * j \<or> unat h + 8 * j + 8 \<le> unat h + 8 * i" by auto
  with False show ?thesis by (simp add: entry_def addr_simps)
qed (simp add: entry_def)

lemma entry_zeroed: "j < 512 \<Longrightarrow> entry (wrbytes m (unat h) (replicate BLOCKSIZE 0)) h j = 0"
  unfolding entry_def by (intro rd64_wrbytes_zero) auto

lemma map_upt_update: "j < n \<Longrightarrow> map (\<lambda>i. if i = j then v else f i) [0..<n] = (map f [0..<n])[j := v]"
  by (auto simp: list_eq_iff_nth_eq nth_list_update)

lemma mset_filter_update:
  assumes "j < length xs" "\<not> P v" "P (xs ! j)"
  shows "mset (filter P xs) = add_mset (xs ! j) (mset (filter P (xs[j := v])))"
  using assms by (subst id_take_nth_drop [of j xs]) (simp_all add: upd_conv_take_nth_drop)

lemma spare_wr64_slot:
  assumes "j < 511"
  shows "spare (wr64 m (unat h + 8 * j) v) h =
     filter (\<lambda>b. b \<noteq> 0) ((map (entry m h) [0..<511])[j := v])"
proof -
  have "entry (wr64 m (unat h + 8 * j) v) h = (\<lambda>i. if i = j then v else entry m h i)"
    by (simp add: fun_eq_iff entry_wr64_slot)
  then show ?thesis by (simp only: spare_def map_upt_update [OF assms])
qed

lemma spare_clear:
  assumes "j < 511" "entry m h j \<noteq> 0"
  shows "mset (spare m h) = add_mset (entry m h j) (mset (spare (wr64 m (unat h + 8 * j) 0) h))"
  unfolding spare_wr64_slot [OF assms(1)] unfolding spare_def
  using mset_filter_update [of j "map (entry m h) [0..<511]" "\<lambda>b. b \<noteq> 0" 0] assms
  by (simp del: mset_filter mset_map)

lemma spare_fill:
  assumes "j < 511" "entry m h j = 0" "v \<noteq> 0"
  shows "mset (spare (wr64 m (unat h + 8 * j) v) h) = add_mset v (mset (spare m h))"
proof -
  let ?m = "wr64 m (unat h + 8 * j) v"
  have "wr64 ?m (unat h + 8 * j) 0 = wr64 m (unat h + 8 * j) 0"
    by (simp add: wr64_def wrbytes_wrbytes_same del: wrbytes_zeros_8 to_le_zero)
  moreover have "spare (wr64 m (unat h + 8 * j) 0) h = spare m h"
    using assms by (intro spare_cong) (simp add: entry_wr64_slot)
  moreover have "entry ?m h j = v" by (simp add: entry_wr64_slot)
  ultimately show ?thesis
    using spare_clear [of j ?m h] assms by (simp del: mset_filter)
qed

lemma spare_last: "spare (wr64 m (unat h + 4088) v) h = spare m h"
  by (rule spare_cong) (use entry_wr64_slot [of m h 511 v] in simp)

lemma spare_empty: "\<forall>i < 511. entry m h i = 0 \<Longrightarrow> spare m h = []"
  by (auto simp: spare_def filter_empty_conv)

lemma free_of_Cons: "free_of m (h # hs) = h # spare m h @ free_of m hs"
  by (simp add: free_of_def)

lemma heads_in_free: "set hs \<subseteq> set (free_of m hs)"
  by (auto simp: free_of_def)

lemma chain_walk: "chain m h hs \<Longrightarrow> length hs \<le> n \<Longrightarrow> walk n m h = hs"
proof (induction hs arbitrary: h n)
  case Nil
  then show ?case by (cases n) auto
next
  case (Cons x xs)
  then show ?case by (cases n) auto
qed

lemma list_blocks_bound:
  assumes "distinct hs" "list_all (data_block s) hs"
  shows "length hs \<le> devsize s div BLOCKSIZE"
proof -
  let ?f = "\<lambda>b :: u64. unat b div BLOCKSIZE"
  have "inj_on ?f (set hs)"
  proof (rule inj_onI)
    fix a b assume "a \<in> set hs" "b \<in> set hs" "?f a = ?f b"
    moreover from this have "BLOCKSIZE dvd unat a" "BLOCKSIZE dvd unat b"
      using assms(2) by (simp_all add: list_all_iff data_block_def)
    ultimately have "unat a = unat b" by (metis dvd_div_mult_self)
    then show "a = b" by (simp add: word_unat_eq_iff)
  qed
  moreover have "?f ` set hs \<subseteq> {0..<devsize s div BLOCKSIZE}"
  proof clarsimp
    fix b assume "b \<in> set hs"
    then have "unat b + BLOCKSIZE \<le> devsize s" using assms(2) by (simp add: list_all_iff data_block_def)
    then have "unat b div BLOCKSIZE + 1 \<le> devsize s div BLOCKSIZE"
      using div_le_mono [of "unat b + BLOCKSIZE" "devsize s" BLOCKSIZE] by simp
    then show "unat b div BLOCKSIZE < devsize s div BLOCKSIZE" by simp
  qed
  ultimately have "card (set hs) \<le> card {0..<devsize s div BLOCKSIZE}"
    by (intro card_inj_on_le) auto
  then show ?thesis using assms(1) by (simp add: distinct_card)
qed

lemma distinct_heads: "distinct (free_of m hs) \<Longrightarrow> distinct hs"
  by (induction hs) (use heads_in_free in \<open>auto simp: free_of_Cons\<close>)

lemma fl_ok_heads: "fl_ok s hs \<Longrightarrow> heads s = hs"
  unfolding fl_ok_def heads_def
  by (intro chain_walk list_blocks_bound)
    (use heads_in_free [of hs "dev s"] distinct_heads in \<open>auto simp: list_all_iff\<close>)

lemma fl_ok_inv: "fl_ok s hs \<Longrightarrow> fl_inv s \<and> free_set s = set (free_of (dev s) hs) \<and> heads s = hs"
  using fl_ok_heads by (simp add: fl_inv_def free_set_def free_blocks_def)


section \<open>Refinement\<close>

text \<open>Outside the superblock pointer and the blocks of \<open>B\<close> the device is unchanged.\<close>

definition keeps_outside :: "fs \<Rightarrow> fs \<Rightarrow> u64 set \<Rightarrow> bool" where
  "keeps_outside s s' B \<longleftrightarrow>
     (\<forall>a \<ge> 8. (\<forall>b \<in> B. a < unat b \<or> unat b + BLOCKSIZE \<le> a) \<longrightarrow> dev s' a = dev s a)"

lemma fl_okD:
  assumes "fl_ok s hs"
  shows "ok_dev s" "BLOCKSIZE \<le> devsize s" "chain (dev s) (super s) hs"
    and "distinct (free_of (dev s) hs)" "\<And>b. b \<in> set (free_of (dev s) hs) \<Longrightarrow> data_block s b"
    and "\<And>h. h \<in> set hs \<Longrightarrow> data_block s h"
  using assms heads_in_free [of hs "dev s"] by (auto simp: fl_ok_def list_all_iff)

lemma fl_ok_remove:
  assumes "fl_ok s hs" "only_io s s'" "chain (dev s') (super s') hs'"
    and "mset (free_of (dev s) hs) = add_mset b (mset (free_of (dev s') hs'))"
  shows "fl_ok s' hs'" "b \<in> set (free_of (dev s) hs)"
    and "set (free_of (dev s') hs') = set (free_of (dev s) hs) - {b}"
proof -
  have eq: "mset (free_of (dev s) hs) = mset (b # free_of (dev s') hs')" using assms(4) by simp
  have "distinct (b # free_of (dev s') hs')"
    using fl_okD(4) [OF assms(1)] mset_eq_imp_distinct_iff [OF eq] by simp
  moreover have "set (free_of (dev s) hs) = set (b # free_of (dev s') hs')"
    using eq by (rule mset_eq_setD)
  ultimately show "fl_ok s' hs'" "b \<in> set (free_of (dev s) hs)"
    "set (free_of (dev s') hs') = set (free_of (dev s) hs) - {b}"
    using assms fl_okD [OF assms(1)] only_ioD(1) [OF assms(2)]
    by (auto simp: fl_ok_def list_all_iff ok_dev_only_io data_block_only_io)
qed

lemma fl_ok_add:
  assumes "fl_ok s hs" "only_io s s'" "chain (dev s') (super s') hs'"
    and "mset (free_of (dev s') hs') = add_mset b (mset (free_of (dev s) hs))"
    and "data_block s b" "b \<notin> set (free_of (dev s) hs)"
  shows "fl_ok s' hs'" "set (free_of (dev s') hs') = insert b (set (free_of (dev s) hs))"
proof -
  have eq: "mset (free_of (dev s') hs') = mset (b # free_of (dev s) hs)" using assms(4) by simp
  have "distinct (free_of (dev s') hs')"
    using fl_okD(4) [OF assms(1)] assms(6) mset_eq_imp_distinct_iff [OF eq] by simp
  moreover have set: "set (free_of (dev s') hs') = set (b # free_of (dev s) hs)"
    using eq by (rule mset_eq_setD)
  ultimately show "fl_ok s' hs'"
    using assms fl_okD [OF assms(1)] only_ioD(1) [OF assms(2)]
    by (auto simp: fl_ok_def list_all_iff ok_dev_only_io data_block_only_io)
  show "set (free_of (dev s') hs') = insert b (set (free_of (dev s) hs))" using set by simp
qed

text \<open>The facts about a nonempty list that the cases of both operations share.\<close>

lemma fl_ok_ConsD:
  assumes "fl_ok s (h # t)"
  shows "super s = h" "block_ok s h" "data_block s h" "BLOCKSIZE \<le> unat h" "h \<notin> set t"
    and "chain (dev s) (entry (dev s) h 511) t"
    and "\<And>x. x \<in> set t \<Longrightarrow> BLOCKSIZE \<le> unat x \<and> (unat x + BLOCKSIZE \<le> unat h \<or> unat h + BLOCKSIZE \<le> unat x)"
proof -
  note ok = fl_okD [OF assms]
  show "super s = h" "chain (dev s) (entry (dev s) h 511) t" using ok(3) by auto
  show h: "data_block s h" using ok(6) by simp
  then show "block_ok s h" "BLOCKSIZE \<le> unat h"
    by (auto intro: data_block_block_ok data_block_ge)
  show nt: "h \<notin> set t" using ok(4) heads_in_free [of t "dev s"] by (auto simp: free_of_Cons)
  show "BLOCKSIZE \<le> unat x \<and> (unat x + BLOCKSIZE \<le> unat h \<or> unat h + BLOCKSIZE \<le> unat x)" if "x \<in> set t" for x
  proof -
    have "data_block s x" "x \<noteq> h" using ok(6) [of x] that nt by auto
    then show ?thesis using data_block_ge data_blocks_apart [OF _ h] by blast
  qed
qed

lemma same_block_slot:
  assumes "fl_ok s (h # t)" "x \<in> set t" "j < 512"
  shows "same_block m (wr64 m (unat h + 8 * j) v) x"
  using fl_ok_ConsD(7) [OF assms(1,2)] assms(3) by (intro same_block_wr64) auto

lemma allocate_block_step:
  assumes ok: "fl_ok s (h # t)" and run: "allocate_block s = (b, s')"
  shows "\<exists>hs'. only_io s s' \<and> chain (dev s') (super s') hs' \<and> keeps_outside s s' {h} \<and>
    mset (free_of (dev s) (h # t)) = add_mset b (mset (free_of (dev s') hs'))"
proof -
  note c = fl_ok_ConsD [OF ok] and o = fl_okD [OF ok]
  have t_free: "free_of m t = free_of (dev s) t" "chain m x t = chain (dev s) x t"
    if "\<And>x. x \<in> set t \<Longrightarrow> same_block (dev s) m x" for m x
    using free_of_same [of t "dev s" m] chain_same [of t "dev s" m x] that by blast+
  consider "\<forall>i < 511. \<not> entry (dev s) h i \<noteq> 0" |
    j where "j < (511 :: nat)" "entry (dev s) h j \<noteq> 0" "\<forall>i < j. \<not> entry (dev s) h i \<noteq> 0"
    by (rule first_slot [of 511 "\<lambda>i. entry (dev s) h i \<noteq> 0"])
  then show ?thesis
  proof cases
    case 2
    let ?m = "wr64 (dev s) (unat h + 8 * j) 0"
    have s': "b = entry (dev s) h j" "s' = s\<lparr>dev := ?m, pos := unat h + 8 * j + 8\<rparr>"
      using run allocate_block_spare [OF o(1) c(2,1) 2(1,2)] 2(3) by auto
    have same: "same_block (dev s) ?m x" if "x \<in> set t" for x
      using 2(1) by (intro same_block_slot [OF ok that]) simp
    have "super s' = super s" using c(4) by (simp add: s' super_def addr_simps)
    moreover have "entry ?m h 511 = entry (dev s) h 511" using 2(1) by (simp add: entry_wr64_slot)
    ultimately have "chain (dev s') (super s') (h # t)"
      using c(1,4,6) t_free(2) [of ?m, OF same] o(3) by (simp add: s')
    moreover have "mset (free_of (dev s) (h # t)) = add_mset b (mset (free_of (dev s') (h # t)))"
      using spare_clear [OF 2(1,2)] t_free(1) [of ?m, OF same] by (simp add: s' free_of_Cons)
    moreover have "keeps_outside s s' {h}"
      using 2(1) by (auto simp: keeps_outside_def s' addr_simps)
    moreover have "only_io s s'" by (simp add: s' only_io_def)
    ultimately show ?thesis using s'(1) by blast
  next
    case 1
    then have none: "spare (dev s) h = []" by (intro spare_empty) simp
    show ?thesis
    proof (cases "entry (dev s) h 511 = 0")
      case True
      then have "t = []" using c(6) by (cases t) auto
      have "entry (dev s) h i = 0" if "i < 512" for i
        using that 1 True by (cases "i = 511") auto
      then have s': "b = h" "s' = s\<lparr>dev := wr64 (dev s) 0 0, pos := 8\<rparr>"
        using run allocate_block_empty [OF o(1) c(2,1)] by auto
      show ?thesis
        using \<open>t = []\<close> none
        by (intro exI [of _ "[]"])
          (simp add: s' super_def free_of_def only_io_def keeps_outside_def addr_simps)
    next
      case False
      let ?e = "entry (dev s) h 511"
      let ?m = "wr64 (wr64 (dev s) (unat h + 4088) 0) 0 ?e"
      have s': "b = h" "s' = s\<lparr>dev := ?m, pos := 8\<rparr>"
        using run allocate_block_last [OF o(1) c(2,1) _ False] c(4) 1 by auto
      have same: "same_block (dev s) ?m x" if "x \<in> set t" for x
      proof (rule same_block_trans)
        show "same_block (dev s) (wr64 (dev s) (unat h + 4088) 0) x"
          using same_block_slot [OF ok that, of 511 "dev s" 0] by simp
        show "same_block (wr64 (dev s) (unat h + 4088) 0) ?m x"
          using fl_ok_ConsD(7) [OF ok that] by (intro same_block_wr64) auto
      qed
      have "chain (dev s') (super s') t"
        using c(6) t_free(2) [of ?m, OF same] by (simp add: s' super_def)
      moreover have "mset (free_of (dev s) (h # t)) = add_mset b (mset (free_of (dev s') t))"
        using none t_free(1) [of ?m, OF same] by (simp add: s' free_of_Cons)
      moreover have "keeps_outside s s' {h}"
        by (auto simp: keeps_outside_def s' addr_simps)
      moreover have "only_io s s'" by (simp add: s' only_io_def)
      ultimately show ?thesis using s'(1) by blast
    qed
  qed
qed


text \<open>The cases of \<^verbatim>\<open>free_block\<close>, on a block that is not free.\<close>

lemma free_block_step:
  assumes ok: "fl_ok s hs" and b: "data_block s b" "b \<notin> set (free_of (dev s) hs)"
    and run: "free_block (drive s) b s = (r, s')"
  shows "\<exists>hs'. r = 0 \<and> only_io s s' \<and> chain (dev s') (super s') hs' \<and>
    keeps_outside s s' (insert b (set hs)) \<and>
    mset (free_of (dev s') hs') = add_mset b (mset (free_of (dev s) hs))"
proof -
  note o = fl_okD [OF ok]
  have bok: "block_ok s b" "BLOCKSIZE \<le> unat b" "b \<noteq> 0" "unat b \<noteq> 0"
    using b(1) data_block_ge by (auto intro: data_block_block_ok simp: data_block_def unat_eq_zero)
  have apart: "unat x + BLOCKSIZE \<le> unat b \<or> unat b + BLOCKSIZE \<le> unat x" "BLOCKSIZE \<le> unat x"
    if "x \<in> set hs" for x
    using o(6) [OF that] b heads_in_free [of hs "dev s"] that data_blocks_apart [OF o(6) [OF that] b(1)]
      data_block_ge by (auto dest: subsetD)
  have hs_free: "free_of m hs = free_of (dev s) hs" "chain m x hs = chain (dev s) x hs"
    if "\<And>x. x \<in> set hs \<Longrightarrow> same_block (dev s) m x" for m x
    using free_of_same [of hs "dev s" m] chain_same [of hs "dev s" m x] that by blast+
  have zeroed: "entry (wr64 (wrbytes m (unat b) (replicate BLOCKSIZE 0)) 0 v) b i = 0" if "i < 512" for m v i
    using entry_same [OF same_block_wr64, of b 0 i "wrbytes m (unat b) (replicate BLOCKSIZE 0)" v]
      entry_zeroed [OF that] bok(2) that by simp
  show ?thesis
  proof (cases hs)
    case Nil
    then have "super s = 0" using o(3) by simp
    let ?m = "wrbytes (wr64 (dev s) 0 b) (unat b) (replicate BLOCKSIZE 0)"
    obtain p where s': "r = 0" "s' = s\<lparr>dev := ?m, pos := p\<rparr>"
      using run free_block_null [OF o(1) bok(1) \<open>super s = 0\<close>] by auto
    have z: "entry ?m b i = 0" if "i < 512" for i using entry_zeroed [OF that] .
    have sup: "super s' = b" using bok(2) by (simp add: s' super_def addr_simps)
    have sp: "spare (dev s') b = []" "entry (dev s') b 511 = 0"
      using z by (simp_all add: s' spare_empty)
    have "keeps_outside s s' (insert b (set hs))"
      by (auto simp: keeps_outside_def s' wrbytes_out addr_simps)
    moreover have "only_io s s'" by (simp add: s' only_io_def)
    ultimately show ?thesis
      using Nil s'(1) sup sp bok(3) by (intro exI [of _ "[b]"]) (simp add: free_of_def)
  next
    case (Cons h t)
    note c = fl_ok_ConsD [OF ok [unfolded Cons]]
    have hb: "unat h + BLOCKSIZE \<le> unat b \<or> unat b + BLOCKSIZE \<le> unat h" using apart(1) Cons by simp
    have t_free: "free_of m t = free_of (dev s) t" "chain m x t = chain (dev s) x t"
      if "\<And>x. x \<in> set t \<Longrightarrow> same_block (dev s) m x" for m x
      using free_of_same [of t "dev s" m] chain_same [of t "dev s" m x] that by blast+
    consider "\<forall>i < 512. \<not> entry (dev s) h i = 0" |
      j where "j < (512 :: nat)" "entry (dev s) h j = 0" "\<forall>i < j. \<not> entry (dev s) h i = 0"
      by (rule first_slot [of 512 "\<lambda>i. entry (dev s) h i = 0"])
    then show ?thesis
    proof cases
      case 1
      let ?z = "wrbytes (dev s) (unat b) (replicate BLOCKSIZE 0)"
      let ?m = "wr64 (wr64 ?z (unat b + 4088) h) 0 b"
      obtain p where s': "r = 0" "s' = s\<lparr>dev := ?m, pos := p\<rparr>"
        using run free_block_full [OF o(1) c(2) bok(1) c(1)] 1 by auto
      have same: "same_block (dev s) ?m x" if "x \<in> set hs" for x
        using apart [OF that]
        by (intro same_block_trans [OF same_block_wrbytes
              same_block_trans [OF same_block_wr64 same_block_wr64]]) auto
      have e: "entry ?m b i = (if i = 511 then h else 0)" if "i < 512" for i
        using entry_same [OF same_block_wr64, of b 0 i "wr64 ?z (unat b + 8 * 511) h" b]
          entry_wr64_slot [of ?z b 511 h i] entry_zeroed [OF that] bok(2) that by simp
      have "spare ?m b = []" using e by (intro spare_empty) simp
      then have "mset (free_of (dev s') (b # hs)) = add_mset b (mset (free_of (dev s) hs))"
        using hs_free(1) [OF same] by (simp add: s' free_of_Cons)
      moreover have "chain (dev s') (super s') (b # hs)"
        using hs_free(2) [OF same, of h] o(3) c(1) bok(3) e [of 511] by (simp add: s' super_def)
      moreover have "keeps_outside s s' (insert b (set hs))"
        by (auto simp: keeps_outside_def s' wrbytes_out addr_simps)
      moreover have "only_io s s'" by (simp add: s' only_io_def)
      ultimately show ?thesis using s'(1) by blast
    next
      case 2
      show ?thesis
      proof (cases "j = 511")
        case False
        let ?m = "wr64 (dev s) (unat h + 8 * j) b"
        have j: "j < 511" using 2(1) False by simp
        obtain p where s': "r = 0" "s' = s\<lparr>dev := ?m, pos := p\<rparr>"
          using run free_block_slot [OF o(1) c(2) bok(1) c(1) 2(1,2)] 2(3) False by auto
        have same: "same_block (dev s) ?m x" if "x \<in> set t" for x
          using 2(1) same_block_slot [OF ok [unfolded Cons] that] by simp
        have "super s' = super s" using c(4) by (simp add: s' super_def addr_simps)
        moreover have "entry ?m h 511 = entry (dev s) h 511" using j by (simp add: entry_wr64_slot)
        ultimately have "chain (dev s') (super s') hs"
          using c(1,4,6) t_free(2) [OF same] o(3) Cons by (simp add: s')
        moreover have "mset (free_of (dev s') hs) = add_mset b (mset (free_of (dev s) hs))"
          using spare_fill [OF j 2(2) bok(3)] t_free(1) [OF same] Cons by (simp add: s' free_of_Cons)
        moreover have "keeps_outside s s' (insert b (set hs))"
          using 2(1) Cons by (auto simp: keeps_outside_def s' addr_simps)
        moreover have "only_io s s'" by (simp add: s' only_io_def)
        ultimately show ?thesis using s'(1) by blast
      next
        case True
        then have "t = []" using c(6) 2(2) by (cases t) auto
        let ?w = "wr64 (dev s) (unat h + 8 * 511) b"
        let ?m = "wrbytes ?w (unat b) (replicate BLOCKSIZE 0)"
        obtain p where s': "r = 0" "s' = s\<lparr>dev := ?m, pos := p\<rparr>"
          using run free_block_slot [OF o(1) c(2) bok(1) c(1) 2(1,2)] 2(3) True by auto
        have h_same: "same_block ?w ?m h" using hb by (intro same_block_wrbytes) auto
        have eh: "entry ?m h 511 = b"
          using entry_same [OF h_same, of 511] by (simp only: entry_wr64_slot) simp
        have sp: "spare ?m h = spare (dev s) h"
          using spare_same [OF h_same] spare_last [of "dev s" h b] by simp
        have z: "entry ?m b i = 0" if "i < 512" for i using entry_zeroed [OF that] .
        have "spare ?m b = []" using z by (intro spare_empty) simp
        moreover have "super s' = h"
          using c(1,4) bok(2) by (simp add: s' super_def addr_simps)
        ultimately have "chain (dev s') (super s') [h, b]"
          "mset (free_of (dev s') [h, b]) = add_mset b (mset (free_of (dev s) hs))"
          using eh z [of 511] bok(3) sp Cons \<open>t = []\<close> o(3) by (simp_all add: s' free_of_def)
        moreover have "keeps_outside s s' (insert b (set hs))"
          using Cons by (auto simp: keeps_outside_def s' wrbytes_out addr_simps)
        moreover have "only_io s s'" by (simp add: s' only_io_def)
        ultimately show ?thesis using s'(1) by blast
      qed
    qed
  qed
qed


lemma keeps_outside_mono: "keeps_outside s s' B \<Longrightarrow> B \<subseteq> C \<Longrightarrow> keeps_outside s s' C"
  by (fastforce simp: keeps_outside_def)

lemma allocate_block_fl:
  assumes "fl_inv s" "allocate_block s = (b, s')"
  shows "fl_inv s' \<and> only_io s s' \<and> keeps_outside s s' (free_set s) \<and>
    (if free_set s = {} then b = 0 \<and> free_set s' = {}
     else b \<in> free_set s \<and> free_set s' = free_set s - {b})"
proof (cases "heads s")
  case Nil
  then have ok: "fl_ok s []" using assms(1) by (simp add: fl_inv_def)
  have "b = 0" "s' = s\<lparr>pos := 8\<rparr>"
    using allocate_block_null [of s] fl_okD [OF ok] assms(2) by auto
  moreover from this ok have "fl_ok s' []" by (simp add: fl_ok_def super_def list_all_iff free_of_def)
  ultimately show ?thesis
    using fl_ok_inv [OF ok] fl_ok_inv [of s' "[]"]
    by (simp add: free_of_def keeps_outside_def)
next
  case (Cons h t)
  then have ok: "fl_ok s (h # t)" using assms(1) by (simp add: fl_inv_def)
  obtain hs' where st: "only_io s s'" "chain (dev s') (super s') hs'" "keeps_outside s s' {h}"
    "mset (free_of (dev s) (h # t)) = add_mset b (mset (free_of (dev s') hs'))"
    using allocate_block_step [OF ok assms(2)] by blast
  note new = fl_ok_remove [OF ok st(1,2,4)]
  have "h \<in> set (free_of (dev s) (h # t))" by (simp add: free_of_Cons)
  then show ?thesis
    using new st(1,3) fl_ok_inv [OF ok] fl_ok_inv [OF new(1)]
    by (auto simp: keeps_outside_def)
qed

lemma free_block_fl:
  assumes "fl_inv s" "data_block s b" "b \<notin> free_set s" "free_block (drive s) b s = (r, s')"
  shows "r = 0 \<and> fl_inv s' \<and> only_io s s' \<and> free_set s' = insert b (free_set s) \<and>
    keeps_outside s s' (insert b (free_set s))"
proof -
  have ok: "fl_ok s (heads s)" using assms(1) by (simp add: fl_inv_def)
  have nb: "b \<notin> set (free_of (dev s) (heads s))" using assms(3) by (simp add: free_set_def free_blocks_def)
  obtain hs' where st: "r = 0" "only_io s s'" "chain (dev s') (super s') hs'"
    "keeps_outside s s' (insert b (set (heads s)))"
    "mset (free_of (dev s') hs') = add_mset b (mset (free_of (dev s) (heads s)))"
    using free_block_step [OF ok assms(2) nb assms(4)] by blast
  note new = fl_ok_add [OF ok st(2,3,5) assms(2) nb]
  have "set (heads s) \<subseteq> free_set s"
    using heads_in_free by (auto simp: free_set_def free_blocks_def)
  then have "keeps_outside s s' (insert b (free_set s))"
    by (intro keeps_outside_mono [OF st(4)] insert_mono)
  then show ?thesis
    using new st(1,2) fl_ok_inv [OF ok] fl_ok_inv [OF new(1)] by simp
qed

section \<open>Framing\<close>

text \<open>Writes that miss the superblock pointer and the free blocks leave the free list alone.\<close>

lemma fl_ok_frame:
  assumes "fl_ok s hs" "only_io s s'" "rd64 (dev s') 0 = rd64 (dev s) 0"
    and "\<And>h. h \<in> set hs \<Longrightarrow> same_block (dev s) (dev s') h"
  shows "fl_ok s' hs" "free_of (dev s') hs = free_of (dev s) hs"
proof -
  show f: "free_of (dev s') hs = free_of (dev s) hs" using assms(4) by (rule free_of_same)
  have "chain (dev s') (super s') hs"
    using chain_same [of hs "dev s" "dev s'" "super s'"] assms(3,4) fl_okD(3) [OF assms(1)]
    by (simp add: super_def)
  then show "fl_ok s' hs"
    using assms(1) f only_ioD(1) [OF assms(2)]
    by (simp add: fl_ok_def ok_dev_only_io [OF assms(2)] data_block_only_io [OF assms(2), abs_def] list_all_iff)
qed

lemma fl_frame:
  assumes "fl_inv s" "only_io s s'" "\<And>x. x < 8 \<Longrightarrow> dev s' x = dev s x"
    and "\<And>b. b \<in> free_set s \<Longrightarrow> same_block (dev s) (dev s') b"
  shows "fl_inv s'" "free_set s' = free_set s"
proof -
  have ok: "fl_ok s (heads s)" using assms(1) by (simp add: fl_inv_def)
  have "rd64 (dev s') 0 = rd64 (dev s) 0" using assms(3) by (intro rd64_cong) simp
  moreover have "same_block (dev s) (dev s') h" if "h \<in> set (heads s)" for h
    using assms(4) [of h] heads_in_free [of "heads s" "dev s"] that by (auto simp: free_set_def free_blocks_def)
  ultimately have ok': "fl_ok s' (heads s)" "free_of (dev s') (heads s) = free_of (dev s) (heads s)"
    using fl_ok_frame [OF ok assms(2)] by blast+
  then show "fl_inv s'" "free_set s' = free_set s" using fl_ok_inv [OF ok] fl_ok_inv [OF ok'(1)] by simp_all
qed

lemma free_set_data: "fl_inv s \<Longrightarrow> b \<in> free_set s \<Longrightarrow> data_block s b"
  by (simp add: fl_inv_def fl_okD(5) free_set_def free_blocks_def)

text \<open>A write inside a data block that is not free.\<close>

lemma fl_write_block:
  assumes "fl_inv s" "data_block s b" "b \<notin> free_set s" "only_io s s'"
    and "\<And>x. x < unat b \<or> unat b + BLOCKSIZE \<le> x \<Longrightarrow> dev s' x = dev s x"
  shows "fl_inv s'" "free_set s' = free_set s"
proof -
  have b: "BLOCKSIZE \<le> unat b" using assms(2) by (rule data_block_ge)
  have "dev s' x = dev s x" if "x < 8" for x using assms(5) that b by simp
  moreover have "same_block (dev s) (dev s') c" if c: "c \<in> free_set s" for c
  proof -
    have "c \<noteq> b" using assms(3) c by blast
    then have "unat b + BLOCKSIZE \<le> unat c \<or> unat c + BLOCKSIZE \<le> unat b"
      using data_blocks_apart [OF assms(2) free_set_data [OF assms(1) c]] by blast
    then have "unat c + i < unat b \<or> unat b + BLOCKSIZE \<le> unat c + i" if "i < BLOCKSIZE" for i
      using that by linarith
    then show ?thesis using assms(5) by (simp add: same_block_def)
  qed
  ultimately show "fl_inv s'" "free_set s' = free_set s" using fl_frame [OF assms(1,4)] by blast+
qed

text \<open>A write inside the inode table.\<close>

lemma fl_write_table:
  assumes "fl_inv s" "only_io s s'"
    and "\<And>x. x < 8 \<or> unat (inode_byte_boundary s) \<le> x \<Longrightarrow> dev s' x = dev s x"
  shows "fl_inv s'" "free_set s' = free_set s"
proof -
  have "same_block (dev s) (dev s') c" if c: "c \<in> free_set s" for c
    using free_set_data [OF assms(1) c] assms(3) by (auto simp: same_block_def data_block_def)
  then show "fl_inv s'" "free_set s' = free_set s" using fl_frame [OF assms(1,2)] assms(3) by blast+
qed

section \<open>The contract of a block pool\<close>

text \<open>
  What a client of the allocator relies on, for any pool: a run of allocations, and
  giving a list of blocks back one after the other.
\<close>

fun allocs :: "('s \<Rightarrow> 'b \<times> 's) \<Rightarrow> nat \<Rightarrow> 's \<Rightarrow> 'b list \<times> 's" where
  "allocs alloc 0 s = ([], s)"
| "allocs alloc (Suc n) s =
     (let (b, s) = alloc s; (bs, s) = allocs alloc n s in (b # bs, s))"

fun frees :: "('b \<Rightarrow> 's \<Rightarrow> 's) \<Rightarrow> 'b list \<Rightarrow> 's \<Rightarrow> 's" where
  "frees free [] s = s"
| "frees free (b # bs) s = frees free bs (free b s)"

locale block_pool =
  fixes alloc :: "'s \<Rightarrow> 'b \<times> 's"
    and free :: "'b \<Rightarrow> 's \<Rightarrow> 's"
    and avail :: "'s \<Rightarrow> 'b set"
    and inv :: "'s \<Rightarrow> bool"
    and valid :: "'s \<Rightarrow> 'b \<Rightarrow> bool"
    and null :: 'b
  assumes alloc_take: "inv s \<Longrightarrow> avail s \<noteq> {} \<Longrightarrow> alloc s = (b, s') \<Longrightarrow>
      inv s' \<and> b \<in> avail s \<and> avail s' = avail s - {b}"
    and alloc_none: "inv s \<Longrightarrow> avail s = {} \<Longrightarrow> alloc s = (b, s') \<Longrightarrow>
      inv s' \<and> b = null \<and> avail s' = {}"
    and free_give: "inv s \<Longrightarrow> valid s b \<Longrightarrow> b \<notin> avail s \<Longrightarrow>
      inv (free b s) \<and> avail (free b s) = insert b (avail s)"
    and finite_avail: "finite (avail s)"
    and avail_valid: "inv s \<Longrightarrow> b \<in> avail s \<Longrightarrow> valid s b \<and> b \<noteq> null"
    and valid_alloc: "inv s \<Longrightarrow> alloc s = (c, s') \<Longrightarrow> valid s' b = valid s b"
    and valid_free: "inv s \<Longrightarrow> valid s c \<Longrightarrow> c \<notin> avail s \<Longrightarrow> valid (free c s) b = valid s b"
begin

lemma allocs_take:
  "inv s \<Longrightarrow> n \<le> card (avail s) \<Longrightarrow> allocs alloc n s = (bs, s') \<Longrightarrow>
     inv s' \<and> length bs = n \<and> distinct bs \<and> set bs \<subseteq> avail s \<and> avail s' = avail s - set bs \<and>
     (\<forall>b. valid s' b = valid s b)"
proof (induction n arbitrary: s bs s')
  case 0
  then show ?case by auto
next
  case (Suc n)
  obtain b s1 where a: "alloc s = (b, s1)" by fastforce
  obtain cs s2 where r: "allocs alloc n s1 = (cs, s2)" by fastforce
  have ne: "avail s \<noteq> {}" using Suc.prems(2) by auto
  note t = alloc_take [OF Suc.prems(1) ne a]
  have "card (avail s1) = card (avail s) - 1"
    using t by (simp add: card_Diff_singleton)
  then have "n \<le> card (avail s1)" using Suc.prems(2) by simp
  then have "inv s2 \<and> length cs = n \<and> distinct cs \<and> set cs \<subseteq> avail s1 \<and>
      avail s2 = avail s1 - set cs \<and> (\<forall>b. valid s2 b = valid s1 b)"
    using t by (intro Suc.IH [OF _ _ r]) simp_all
  moreover have "bs = b # cs" "s' = s2" using Suc.prems(3) by (simp_all add: a r)
  moreover have "valid s1 c = valid s c" for c using valid_alloc [OF Suc.prems(1) a] .
  ultimately show ?case using t by (simp, blast)
qed

lemma allocs_all:
  assumes "inv s" "allocs alloc (card (avail s)) s = (bs, s')" "alloc s' = (c, s'')"
  shows "set bs = avail s \<and> distinct bs \<and> avail s' = {} \<and> c = null"
proof -
  note t = allocs_take [OF assms(1) le_refl assms(2)]
  have "card (set bs) = card (avail s)" using t distinct_card by metis
  then have "set bs = avail s" using t finite_avail by (metis card_subset_eq)
  then show ?thesis using t alloc_none [OF _ _ assms(3)] by auto
qed

lemma frees_give:
  "inv s \<Longrightarrow> distinct bs \<Longrightarrow> (\<And>b. b \<in> set bs \<Longrightarrow> valid s b \<and> b \<notin> avail s) \<Longrightarrow>
     inv (frees free bs s) \<and> avail (frees free bs s) = avail s \<union> set bs"
proof (induction bs arbitrary: s)
  case (Cons b bs)
  have v: "valid s b" "b \<notin> avail s" using Cons.prems(3) by simp_all
  note g = free_give [OF Cons.prems(1) v]
  have "inv (frees free bs (free b s)) \<and> avail (frees free bs (free b s)) = avail (free b s) \<union> set bs"
    using g Cons.prems valid_free [OF Cons.prems(1) v] by (intro Cons.IH) auto
  then show ?case using g by auto
qed simp

lemma cycle:
  assumes "inv s" "n \<le> card (avail s)" "allocs alloc n s = (bs, s')"
  shows "inv (frees free bs s') \<and> avail (frees free bs s') = avail s"
proof -
  note t = allocs_take [OF assms]
  have "inv (frees free bs s') \<and> avail (frees free bs s') = avail s' \<union> set bs"
    using t avail_valid [OF assms(1)] by (intro frees_give) auto
  then show ?thesis using t by auto
qed

end

definition release :: "u64 \<Rightarrow> fs \<Rightarrow> fs" where
  "release b s = snd (free_block (drive s) b s)"

interpretation pool: block_pool allocate_block release free_set fl_inv data_block 0
proof unfold_locales
  fix s b s' c
  show "fl_inv s \<Longrightarrow> free_set s \<noteq> {} \<Longrightarrow> allocate_block s = (b, s') \<Longrightarrow>
      fl_inv s' \<and> b \<in> free_set s \<and> free_set s' = free_set s - {b}"
    using allocate_block_fl [of s b s'] by simp
  show "fl_inv s \<Longrightarrow> free_set s = {} \<Longrightarrow> allocate_block s = (b, s') \<Longrightarrow>
      fl_inv s' \<and> b = 0 \<and> free_set s' = {}"
    using allocate_block_fl [of s b s'] by simp
  show "fl_inv s \<Longrightarrow> data_block s b \<Longrightarrow> b \<notin> free_set s \<Longrightarrow>
      fl_inv (release b s) \<and> free_set (release b s) = insert b (free_set s)"
    unfolding release_def using free_block_fl [of s b] by (metis prod.collapse)
  show "finite (free_set s)" by (simp add: free_set_def)
  show "fl_inv s \<Longrightarrow> b \<in> free_set s \<Longrightarrow> data_block s b \<and> b \<noteq> 0"
    by (auto simp: fl_inv_def fl_ok_def free_set_def free_blocks_def list_all_iff data_block_def)
  show "fl_inv s \<Longrightarrow> allocate_block s = (c, s') \<Longrightarrow> data_block s' b = data_block s b"
    using allocate_block_fl [of s c s'] data_block_only_io by blast
  show "fl_inv s \<Longrightarrow> data_block s c \<Longrightarrow> c \<notin> free_set s \<Longrightarrow> data_block (release c s) b = data_block s b"
    unfolding release_def using free_block_fl [of s c] data_block_only_io by (metis prod.collapse)
qed


section \<open>Allocating a block just freed\<close>

text \<open>
  While the list block at the head stays, freeing a block puts it before every used slot,
  so the next allocation returns it.
\<close>

lemma allocate_free_spare:
  assumes ok: "fl_ok s (h # t)" and j: "j < 511" "entry (dev s) h j \<noteq> 0"
    "\<forall>i < j. entry (dev s) h i = 0" and run: "allocate_block s = (b, s')"
  shows "super s' = h \<and> (\<exists>s''. free_block (drive s) b s' = (0, s'') \<and> fst (allocate_block s'') = b)"
proof -
  note c = fl_ok_ConsD [OF ok] and o = fl_okD [OF ok]
  let ?m = "wr64 (dev s) (unat h + 8 * j) 0"
  have s': "b = entry (dev s) h j" "s' = s\<lparr>dev := ?m, pos := unat h + 8 * j + 8\<rparr>"
    using run allocate_block_spare [OF o(1) c(2,1) j] by auto
  have sup: "super s' = h" using c(1,4) by (simp add: s' super_def addr_simps)
  have "b \<in> set (free_of (dev s) (h # t))"
    using j(1,2) by (auto simp: s' free_of_def spare_def)
  then have b: "data_block s b" "b \<noteq> 0" using o(5) by (auto simp: data_block_def)
  have slot0: "entry (dev s') h 0 = 0" using j(3) entry_wr64_slot [of "dev s" h 0 0 0] by (cases "j = 0") (auto simp: s' entry_wr64_slot)
  have cond: "ok_dev s'" "block_ok s' h" "block_ok s' b" "drive s' = drive s"
    using o(1) c(2) data_block_block_ok [OF b(1)] by (simp_all add: s')
  obtain p where f: "free_block (drive s) b s' = (0, s'\<lparr>dev := wr64 (dev s') (unat h) b, pos := p\<rparr>)"
    using free_block_slot [OF cond(1-3) sup, of 0] slot0 cond(4) by auto
  let ?s'' = "s'\<lparr>dev := wr64 (dev s') (unat h) b, pos := p\<rparr>"
  have "super ?s'' = h" using sup c(4) by (simp add: super_def addr_simps)
  moreover have "entry (dev ?s'') h 0 = b" using entry_wr64_slot [of "dev s'" h 0 b 0] by simp
  ultimately have "fst (allocate_block ?s'') = b"
    using allocate_block_spare [of ?s'' h 0] cond b(2) by simp
  with f sup show ?thesis by blast
qed

lemma allocate_free_only:
  assumes ok: "fl_ok s (h # t)" and none: "\<forall>i < 512. entry (dev s) h i = 0"
    and run: "allocate_block s = (b, s')"
  shows "super s' = 0 \<and> (\<exists>s''. free_block (drive s) b s' = (0, s'') \<and> fst (allocate_block s'') = b)"
proof -
  note c = fl_ok_ConsD [OF ok] and o = fl_okD [OF ok]
  have s': "b = h" "s' = s\<lparr>dev := wr64 (dev s) 0 0, pos := 8\<rparr>"
    using run allocate_block_empty [OF o(1) c(2,1) none] by auto
  have cond: "ok_dev s'" "block_ok s' h" "drive s' = drive s" "super s' = 0"
    using o(1) c(2) by (simp_all add: s' super_def)
  let ?m = "wrbytes (wr64 (dev s') 0 h) (unat h) (replicate BLOCKSIZE 0)"
  obtain p where f: "free_block (drive s) b s' = (0, s'\<lparr>dev := ?m, pos := p\<rparr>)"
    using free_block_null [OF cond(1,2,4)] cond(3) s'(1) by auto
  let ?s'' = "s'\<lparr>dev := ?m, pos := p\<rparr>"
  have "super ?s'' = h" using c(4) by (simp add: super_def addr_simps)
  moreover have "\<forall>i < 512. entry (dev ?s'') h i = 0" by (simp add: entry_zeroed)
  ultimately have "fst (allocate_block ?s'') = h"
    using allocate_block_empty [of ?s'' h] cond by simp
  with f cond(4) s'(1) show ?thesis by blast
qed

lemma allocate_free_again:
  assumes inv: "fl_inv s" and run: "allocate_block s = (b, s')"
    and head: "super s' = super s \<and> super s \<noteq> 0 \<or> super s' = 0 \<and> b \<noteq> 0"
  shows "\<exists>s''. free_block (drive s) b s' = (0, s'') \<and> fst (allocate_block s'') = b"
proof (cases "heads s")
  case Nil
  then have ok: "fl_ok s []" using inv by (simp add: fl_inv_def)
  then have "super s = 0" by (simp add: fl_ok_def)
  then show ?thesis
    using head run allocate_block_null [of s] fl_okD [OF ok] by auto
next
  case (Cons h t)
  then have ok: "fl_ok s (h # t)" using inv by (simp add: fl_inv_def)
  note c = fl_ok_ConsD [OF ok] and o = fl_okD [OF ok]
  consider "\<forall>i < 511. \<not> entry (dev s) h i \<noteq> 0" |
    j where "j < (511 :: nat)" "entry (dev s) h j \<noteq> 0" "\<forall>i < j. \<not> entry (dev s) h i \<noteq> 0"
    by (rule first_slot [of 511 "\<lambda>i. entry (dev s) h i \<noteq> 0"])
  then show ?thesis
  proof cases
    case 2
    then show ?thesis using allocate_free_spare [OF ok 2(1,2) _ run] by simp
  next
    case 1
    have "entry (dev s) h 511 = 0"
    proof (rule ccontr)
      assume e: "entry (dev s) h 511 \<noteq> 0"
      then obtain x xs where t: "t = x # xs" "x = entry (dev s) h 511" using c(6) by (cases t) auto
      then have "x \<noteq> h" using c(5) by auto
      moreover have "super s' = x"
        using run allocate_block_last [OF o(1) c(2,1) _ e] c(4) 1 t by (auto simp: super_def)
      ultimately show False using head c(1) t e by auto
    qed
    then have "entry (dev s) h i = 0" if "i < 512" for i
      using 1 that by (cases "i = 511") auto
    then show ?thesis using allocate_free_only [OF ok _ run] by simp
  qed
qed

section \<open>Properties\<close>

text \<open>
  A small disk for the witnesses: five blocks, one of inodes, the free list
  made of the list block 8192 with two addresses in it.
\<close>

definition small_fs :: "mem \<Rightarrow> fs" where
  "small_fs m = \<lparr>dev = m, devsize = 20480, pos = 0, drive = 3, root_node = 4096,
     drivesize = 20480, inode_byte_boundary = 8192, num_blocks = 5, inode_blocks = 1,
     data_blocks = 3, clock = of_nat, ticks = 100, junk = (\<lambda>_ _. 7), fresh = 0,
     euid = 1000, egid = 1000\<rparr>"

definition pool_mem :: mem where
  "pool_mem = wr64 (wr64 (wr64 (\<lambda>_. 0) 0 8192) 8192 12288) 8200 16384"

definition pool_fs :: fs where
  "pool_fs = small_fs pool_mem"

lemma rd64_zero_mem [simp]: "rd64 (\<lambda>_. 0) a = 0"
proof -
  have "rdbytes (\<lambda>_. 0) a 8 = replicate 8 (0 :: u8)" by (simp add: rdbytes_def map_replicate_const)
  then show ?thesis by (simp only: rd64_def of_le_replicate_zero)
qed

lemma ok_dev_small [simp]: "ok_dev (small_fs m)"
  by (simp add: ok_dev_def small_fs_def)

lemma pool_spare: "spare pool_mem 8192 = [12288, 16384]"
proof -
  have idx: "[0..<511] = 0 # Suc 0 # [Suc (Suc 0)..<511]"
    by (rule trans [OF upt_conv_Cons arg_cong [of _ _ "Cons 0", OF upt_conv_Cons]]) simp_all
  have "entry pool_mem 8192 i = 0" if "2 \<le> i" for i
  proof -
    have "rd64 pool_mem (8192 + 8 * i) = rd64 (wr64 (wr64 (\<lambda>_. 0) 0 8192) 8192 12288) (8192 + 8 * i)"
      unfolding pool_mem_def using that by (intro rd64_wr64_disjoint) auto
    also have "\<dots> = rd64 (wr64 (\<lambda>_. 0) 0 8192) (8192 + 8 * i)"
      using that by (intro rd64_wr64_disjoint) auto
    also have "\<dots> = rd64 (\<lambda>_. 0) (8192 + 8 * i)"
      by (intro rd64_wr64_disjoint) auto
    finally show ?thesis by (simp add: entry_def)
  qed
  then have "\<forall>i \<in> set [Suc (Suc 0)..<511]. entry pool_mem 8192 i = 0"
    by (simp only: set_upt atLeastLessThan_iff) simp
  then have "filter (\<lambda>b. b \<noteq> 0) (map (entry pool_mem 8192) [Suc (Suc 0)..<511]) = []"
    by (simp only: filter_empty_conv set_map) blast
  moreover have "entry pool_mem 8192 0 = 12288" "entry pool_mem 8192 1 = 16384"
    by (simp_all add: entry_def pool_mem_def addr_simps)
  moreover have "filter (\<lambda>b. b \<noteq> 0) (map f (0 # Suc 0 # is)) = f 0 # f 1 # filter (\<lambda>b. b \<noteq> 0) (map f is)"
    if "f 0 \<noteq> 0" "f 1 \<noteq> 0" for f :: "nat \<Rightarrow> u64" and "is"
    using that by simp
  ultimately show ?thesis unfolding spare_def idx by simp
qed

lemma pool_fs_ok: "fl_ok pool_fs [8192]"
proof -
  have "super pool_fs = 8192" "entry pool_mem 8192 511 = 0"
    by (simp_all add: super_def pool_fs_def small_fs_def pool_mem_def entry_def addr_simps)
  moreover have "free_of (dev pool_fs) [8192] = [8192, 12288, 16384]"
    by (simp add: free_of_def pool_fs_def small_fs_def pool_spare)
  ultimately show ?thesis
    by (simp add: fl_ok_def pool_fs_def data_block_def) (simp add: small_fs_def)
qed

lemma pool_fs_inv: "fl_inv pool_fs" "free_set pool_fs = {8192, 12288, 16384}"
  using fl_ok_inv [OF pool_fs_ok] by (simp_all add: free_of_def pool_fs_def small_fs_def pool_spare)

text \<open>
  C1. On a well-formed free list \<^verbatim>\<open>allocate_block\<close> returns 0 exactly when no
  block is free; otherwise it returns a free block and removes just that block from the
  free set. The free list stays well-formed, and nothing on the device changes outside
  the superblock pointer and the blocks that were free, so no block in use is touched.
\<close>

theorem allocate_block_refines:
  assumes "fl_inv s" "allocate_block s = (b, s')"
  shows "fl_inv s' \<and> only_io s s' \<and> keeps_outside s s' (free_set s) \<and>
    (if free_set s = {} then b = 0 \<and> free_set s' = {}
     else b \<in> free_set s \<and> free_set s' = free_set s - {b})"
  using assms by (rule allocate_block_fl)

theorem allocate_block_refines_witness:
  "fl_inv pool_fs \<and> fst (allocate_block pool_fs) \<in> {8192, 12288, 16384} \<and>
   free_set (snd (allocate_block pool_fs)) = {8192, 12288, 16384} - {fst (allocate_block pool_fs)}"
  using allocate_block_refines [OF pool_fs_inv(1), of "fst (allocate_block pool_fs)" "snd (allocate_block pool_fs)"]
    pool_fs_inv by simp

text \<open>
  C2. On a well-formed free list \<^verbatim>\<open>free_block\<close> of an aligned data block that is not
  free succeeds, adds just that block to the free set, keeps the list well-formed and
  changes nothing outside the superblock pointer, the block itself and blocks that were free.
\<close>

theorem free_block_refines:
  assumes "fl_inv s" "data_block s b" "b \<notin> free_set s" "free_block (drive s) b s = (r, s')"
  shows "r = 0 \<and> fl_inv s' \<and> only_io s s' \<and> free_set s' = insert b (free_set s) \<and>
    keeps_outside s s' (insert b (free_set s))"
  using assms by (rule free_block_fl)

lemma pool_fs_alloc:
  "allocate_block pool_fs = (12288, small_fs (wr64 pool_mem 8192 0)\<lparr>pos := 8200\<rparr>)"
proof -
  note c = fl_ok_ConsD [OF pool_fs_ok]
  have e: "entry (dev pool_fs) 8192 0 = 12288"
    by (simp add: pool_fs_def small_fs_def pool_mem_def entry_def addr_simps)
  have "ok_dev pool_fs" by (simp add: pool_fs_def)
  then show ?thesis
    using allocate_block_spare [of pool_fs 8192 0] c(1,2) e
    by (simp add: pool_fs_def) (simp add: small_fs_def)
qed

definition taken_fs :: fs where
  "taken_fs = snd (allocate_block pool_fs)"

lemma taken_fs_inv: "fl_inv taken_fs" "free_set taken_fs = {8192, 16384}" "data_block taken_fs 12288"
  "drive taken_fs = 3"
  using allocate_block_fl [OF pool_fs_inv(1) pool_fs_alloc] pool_fs_inv(2)
  by (auto simp: taken_fs_def pool_fs_alloc data_block_def small_fs_def)

theorem free_block_refines_witness:
  "data_block taken_fs 12288 \<and> 12288 \<notin> free_set taken_fs \<and>
   fst (free_block 3 12288 taken_fs) = 0 \<and>
   free_set (snd (free_block 3 12288 taken_fs)) = {8192, 12288, 16384}"
  using free_block_refines [OF taken_fs_inv(1,3), of "fst (free_block 3 12288 taken_fs)"
      "snd (free_block 3 12288 taken_fs)"] taken_fs_inv
  by auto

text \<open>
  C5. Exactly as many blocks as the free set holds can be allocated: that many calls
  return distinct blocks, together the whole free set, and the next call returns 0.
\<close>

theorem allocate_until_exhausted:
  assumes "fl_inv s" "allocs allocate_block (card (free_set s)) s = (bs, s')"
    and "allocate_block s' = (c, s'')"
  shows "set bs = free_set s \<and> distinct bs \<and> free_set s' = {} \<and> c = 0"
  using assms by (rule pool.allocs_all)

theorem allocate_until_exhausted_witness:
  "\<exists>bs s'. allocs allocate_block 3 pool_fs = (bs, s') \<and> set bs = {8192, 12288, 16384} \<and> distinct bs \<and>
     fst (allocate_block s') = 0"
proof -
  obtain bs s' where r: "allocs allocate_block 3 pool_fs = (bs, s')" by fastforce
  obtain c s'' where n: "allocate_block s' = (c, s'')" by fastforce
  have "card (free_set pool_fs) = 3" by (simp add: pool_fs_inv(2))
  then have "set bs = free_set pool_fs \<and> distinct bs \<and> free_set s' = {} \<and> c = 0"
    using r n by (intro allocate_until_exhausted [OF pool_fs_inv(1)]) simp_all
  then show ?thesis using r n pool_fs_inv(2) by (metis fst_conv)
qed

text \<open>
  Allocating any number of blocks that are available and freeing them again, in the
  order they came, restores the free set (the blocks of \<^verbatim>\<open>test_block.c\<close>'s loops
  can be allocated again).
\<close>

theorem allocate_free_cycle:
  assumes "fl_inv s" "n \<le> card (free_set s)" "allocs allocate_block n s = (bs, s')"
  shows "fl_inv (frees release bs s') \<and> free_set (frees release bs s') = free_set s"
  using assms by (rule pool.cycle)

theorem allocate_free_cycle_witness:
  "\<exists>bs s'. allocs allocate_block 2 pool_fs = (bs, s') \<and>
     free_set (frees release bs s') = {8192, 12288, 16384}"
proof -
  obtain bs s' where r: "allocs allocate_block 2 pool_fs = (bs, s')" by fastforce
  have "2 \<le> card (free_set pool_fs)" by (simp add: pool_fs_inv(2))
  then have "free_set (frees release bs s') = free_set pool_fs"
    using allocate_free_cycle [OF pool_fs_inv(1) _ r] by blast
  then show ?thesis using r pool_fs_inv(2) by blast
qed

text \<open>
  A block that is freed right after it was allocated is the one the next allocation
  returns (the assertion of \<^verbatim>\<open>test_allocate_and_free_block\<close>), as long as the
  allocation did not move the superblock on to another list block.
\<close>

theorem allocate_after_free_same:
  assumes "fl_inv s" "allocate_block s = (b, s')"
    and "super s' = super s \<and> super s \<noteq> 0 \<or> super s' = 0 \<and> b \<noteq> 0"
  shows "\<exists>s''. free_block (drive s) b s' = (0, s'') \<and> fst (allocate_block s'') = b"
  using assms by (rule allocate_free_again)

theorem allocate_after_free_same_witness:
  "\<exists>s''. free_block 3 12288 taken_fs = (0, s'') \<and> fst (allocate_block s'') = 12288"
proof -
  have eq: "taken_fs = small_fs (wr64 pool_mem 8192 0)\<lparr>pos := 8200\<rparr>"
    by (simp add: taken_fs_def pool_fs_alloc)
  have "super taken_fs = 8192" "super pool_fs = 8192"
    unfolding eq by (simp_all add: super_def pool_fs_def small_fs_def pool_mem_def addr_simps)
  then have "\<exists>s''. free_block (drive pool_fs) 12288 taken_fs = (0, s'') \<and> fst (allocate_block s'') = 12288"
    using pool_fs_alloc
    by (intro allocate_after_free_same [OF pool_fs_inv(1)]) (simp_all add: taken_fs_def)
  then show ?thesis by (simp add: pool_fs_def small_fs_def)
qed


end
