(* ===== verification/Inode_Table.thy ===== *)
theory Inode_Table
  imports Free_List
begin

text \<open>
  The inode table of \<^verbatim>\<open>disk.c\<close>: 256-byte slots from address 4096 up to
  \<open>inode_byte_boundary\<close>. A slot whose \<open>mode\<close> is 0 is free. The operations are
  \<^verbatim>\<open>allocate_inode\<close>, \<^verbatim>\<open>free_inode\<close>, \<^verbatim>\<open>read_inode\<close> and
  \<^verbatim>\<open>write_inode\<close>.
\<close>

section \<open>The operations\<close>

text \<open>
  The scan of \<^verbatim>\<open>allocate_inode\<close>; a \<open>uint64_t\<close> counter that wrapped around would
  never reach the boundary, so the model is partial and its totality is a theorem.
\<close>

partial_function (option) allocate_inode_loop :: "u64 \<Rightarrow> node \<Rightarrow> fs \<Rightarrow> (u64 \<times> fs) option" where
  "allocate_inode_loop i inode_ptr s =
     (if i < inode_byte_boundary s then
        let s1 = seek_to (drive s) i s;
            rd = sys_read (drive s1) SIZEOF_NODE s1;
            inode_ptr = node_of_bytes (patch (bytes_of_node inode_ptr) (fst (snd rd)));
            s2 = snd (snd rd)
        in if mode inode_ptr = 0 then Some (i, s2)
           else allocate_inode_loop (i + INODE_SIZE_BOUNDARY) inode_ptr s2
      else Some (0, s))"

definition allocate_inode :: "int \<Rightarrow> fs \<Rightarrow> (u64 \<times> fs) option" where
  "allocate_inode fd s =
     (if drive s < 0 then Some (0, s)
      else let s = seek_to (drive s) BLOCKSIZE s;
               (inode_ptr, s) = uninit_node s
           in allocate_inode_loop BLOCKSIZE inode_ptr s)"

definition free_inode :: "u64 \<Rightarrow> fs \<Rightarrow> int \<times> fs" where
  "free_inode cur_node s =
     (if cur_node = 0 then (-1, s)
      else let s = seek_to (drive s) cur_node s;
               s = write_zeros (drive s) INODE_SIZE_BOUNDARY s;
               (cur, s) = uninit_node s;
               (cur, s) = load_node cur_node cur s
           in (0, s))"

definition read_inode :: "u64 \<Rightarrow> bytes option \<Rightarrow> fs \<Rightarrow> int \<times> bytes option \<times> fs" where
  "read_inode inode buff s =
     (case buff of
        None \<Rightarrow> (-1, buff, s)
      | Some b \<Rightarrow>
          if inode = 0 then (-1, buff, s)
          else let s = seek_to (drive s) inode s;
                   (valid, bs, s) = sys_read (drive s) INODE_SIZE_BOUNDARY s
               in (0, Some (patch b bs), s))"

definition write_inode :: "u64 \<Rightarrow> bytes option \<Rightarrow> fs \<Rightarrow> int \<times> fs" where
  "write_inode inode buff s =
     (case buff of
        None \<Rightarrow> (-1, s)
      | Some b \<Rightarrow>
          if inode = 0 then (-1, s)
          else let s = seek_to (drive s) inode s;
                   (valid, s) = sys_write (drive s) (take INODE_SIZE_BOUNDARY b) s
               in if valid > 0 then (0, s) else (-1, s))"

section \<open>The table\<close>

text \<open>The geometry \<^verbatim>\<open>tfs_mkfs\<close> and \<^verbatim>\<open>tfs_disk_info\<close> set up.\<close>

definition table_ok :: "fs \<Rightarrow> bool" where
  "table_ok s \<longleftrightarrow>
     ok_dev s \<and> BLOCKSIZE dvd unat (inode_byte_boundary s) \<and>
     unat (inode_byte_boundary s) \<le> devsize s"

definition inode_slot :: "fs \<Rightarrow> u64 \<Rightarrow> bool" where
  "inode_slot s a \<longleftrightarrow>
     INODE_SIZE_BOUNDARY dvd unat a \<and> BLOCKSIZE \<le> unat a \<and>
     unat a + INODE_SIZE_BOUNDARY \<le> unat (inode_byte_boundary s)"

text \<open>The slots at and after an address, in the order of the scan.\<close>

definition slots_from :: "fs \<Rightarrow> nat \<Rightarrow> nat list" where
  "slots_from s a = map (\<lambda>k. a + INODE_SIZE_BOUNDARY * k)
     [0..<(unat (inode_byte_boundary s) - a) div INODE_SIZE_BOUNDARY]"

definition free_slot :: "fs \<Rightarrow> nat \<Rightarrow> bool" where
  "free_slot s a \<longleftrightarrow> mode (node_at (dev s) a) = 0"

definition first_free :: "fs \<Rightarrow> u64" where
  "first_free s = (case find (free_slot s) (slots_from s BLOCKSIZE) of None \<Rightarrow> 0 | Some a \<Rightarrow> of_nat a)"

lemma table_ok_updates [simp]:
  "table_ok (s\<lparr>dev := m\<rparr>) = table_ok s" "table_ok (s\<lparr>pos := p\<rparr>) = table_ok s"
  "table_ok (s\<lparr>ticks := t\<rparr>) = table_ok s" "table_ok (s\<lparr>fresh := f\<rparr>) = table_ok s"
  by (simp_all add: table_ok_def)

lemma slots_from_step:
  assumes "a < unat (inode_byte_boundary s)" "INODE_SIZE_BOUNDARY dvd a"
    and "INODE_SIZE_BOUNDARY dvd unat (inode_byte_boundary s)"
  shows "slots_from s a = a # slots_from s (a + INODE_SIZE_BOUNDARY)"
proof -
  obtain x y where xy: "a = 256 * x" "unat (inode_byte_boundary s) = 256 * y"
    using assms(2,3) by (auto elim!: dvdE)
  have "x < y" using assms(1) xy by simp
  have "(256 * y - 256 * x) div 256 = Suc ((256 * y - (256 * x + 256)) div 256)"
    using \<open>x < y\<close> by (simp add: diff_mult_distrib2 [symmetric])
  then show ?thesis
    by (simp add: slots_from_def xy map_upt_Suc del: upt_Suc)
qed

lemma slots_from_end: "unat (inode_byte_boundary s) \<le> a \<Longrightarrow> slots_from s a = []"
  by (simp add: slots_from_def)

lemma allocate_inode_loop_scan:
  assumes "table_ok s" "wf_node n" "INODE_SIZE_BOUNDARY dvd unat i" "BLOCKSIZE \<le> unat i"
  shows "\<exists>p. allocate_inode_loop i n s =
    Some (case find (free_slot s) (slots_from s (unat i)) of None \<Rightarrow> 0 | Some a \<Rightarrow> of_nat a, s\<lparr>pos := p\<rparr>)"
  using assms
proof (induction "unat (inode_byte_boundary s) - unat i" arbitrary: i n s rule: less_induct)
  case less
  note t = less.prems(1) [unfolded table_ok_def]
  have d: "INODE_SIZE_BOUNDARY dvd unat (inode_byte_boundary s)"
    using t by (auto intro: dvd_trans [of "256 :: nat" 4096])
  show ?case
  proof (cases "i < inode_byte_boundary s")
    case False
    then show ?thesis
      using slots_from_end [of s "unat i"]
      by (subst allocate_inode_loop.simps) (simp add: word_less_nat_alt not_less, metis pos_same)
  next
    case True
    then have lt: "unat i < unat (inode_byte_boundary s)" by (simp add: word_less_nat_alt)
    have room: "unat i + 256 \<le> unat (inode_byte_boundary s)"
      using lt d less.prems(3) by (auto elim!: dvdE)
    have i0: "node_ok s i" using less.prems(4) room t by (auto simp: node_ok_def)
    have nx: "unat (i + 256) = unat i + 256"
      using room t unat_add_in [of i 256] by (simp add: ok_dev_def)
    let ?n = "node_at (dev s) (unat i)" and ?s = "s\<lparr>pos := unat i + 208\<rparr>"
    have body: "allocate_inode_loop i n s =
        (if mode ?n = 0 then Some (i, ?s) else allocate_inode_loop (i + 256) ?n ?s)"
      using True i0 t less.prems(2)
      by (subst allocate_inode_loop.simps) (simp add: io_simps node_ok_def Let_def node_at_def)
    show ?thesis
    proof (cases "mode ?n = 0")
      case True
      then show ?thesis
        using body slots_from_step [OF lt less.prems(3) d] by (auto simp: free_slot_def)
    next
      case False
      have "\<exists>p. allocate_inode_loop (i + 256) ?n ?s =
          Some (case find (free_slot ?s) (slots_from ?s (unat (i + 256))) of None \<Rightarrow> 0 | Some a \<Rightarrow> of_nat a,
            ?s\<lparr>pos := p\<rparr>)"
        using less.prems nx room lt by (intro less.hyps) auto
      moreover have "free_slot ?s = free_slot s" "slots_from ?s = slots_from s"
        by (simp_all add: free_slot_def slots_from_def fun_eq_iff)
      ultimately show ?thesis
        using body False slots_from_step [OF lt less.prems(3) d] nx by (simp add: free_slot_def)
    qed
  qed
qed

lemma allocate_inode_scan:
  assumes "table_ok s" "BLOCKSIZE \<le> devsize s"
  shows "\<exists>s'. allocate_inode fd s = Some (first_free s, s') \<and> only_io s s' \<and> dev s' = dev s"
proof -
  let ?s = "s\<lparr>pos := 4096, fresh := Suc (fresh s)\<rparr>"
  let ?n = "node_of_bytes (map (junk s (fresh s)) [0..<208])"
  have d: "0 \<le> drive s" using assms(1) by (simp add: table_ok_def ok_dev_def)
  have "allocate_inode fd s = allocate_inode_loop BLOCKSIZE ?n ?s"
    using assms d by (simp add: allocate_inode_def io_simps table_ok_def)
  moreover have "free_slot ?s = free_slot s" "slots_from ?s = slots_from s"
    by (simp_all add: free_slot_def slots_from_def fun_eq_iff)
  moreover obtain p where "allocate_inode_loop BLOCKSIZE ?n ?s =
      Some (case find (free_slot ?s) (slots_from ?s (unat (BLOCKSIZE :: u64))) of None \<Rightarrow> 0 | Some a \<Rightarrow> of_nat a, ?s\<lparr>pos := p\<rparr>)"
    using allocate_inode_loop_scan [of ?s ?n BLOCKSIZE] assms(1) by auto
  ultimately show ?thesis by (simp add: first_free_def only_io_def)
qed

lemma table_ok_only_io: "only_io s s' \<Longrightarrow> table_ok s' = table_ok s"
  by (simp add: table_ok_def only_io_def ok_dev_def)

lemma inode_slot_only_io: "only_io s s' \<Longrightarrow> inode_slot s' a = inode_slot s a"
  by (simp add: inode_slot_def only_io_def)

lemma inode_slot_updates [simp]:
  "inode_slot (s\<lparr>dev := m\<rparr>) a = inode_slot s a" "inode_slot (s\<lparr>pos := p\<rparr>) a = inode_slot s a"
  "inode_slot (s\<lparr>ticks := t\<rparr>) a = inode_slot s a" "inode_slot (s\<lparr>fresh := f\<rparr>) a = inode_slot s a"
  by (simp_all add: inode_slot_def)

lemma inode_slot_node_ok: "table_ok s \<Longrightarrow> inode_slot s a \<Longrightarrow> node_ok s a \<and> BLOCKSIZE \<le> unat a"
  by (auto simp: table_ok_def inode_slot_def node_ok_def)

lemma inode_slots_apart:
  assumes "inode_slot s a" "inode_slot s b" "a \<noteq> b"
  shows "unat a + 256 \<le> unat b \<or> unat b + 256 \<le> unat a"
proof -
  obtain x y where "unat a = 256 * x" "unat b = 256 * y"
    using assms by (auto simp: inode_slot_def elim!: dvdE)
  then show ?thesis using assms(3) by (auto simp: word_unat_eq_iff)
qed

lemma in_slots_from:
  assumes "table_ok s"
  shows "n \<in> set (slots_from s BLOCKSIZE) \<longleftrightarrow> (\<exists>a. inode_slot s a \<and> n = unat a)"
proof -
  let ?b = "unat (inode_byte_boundary s)"
  have small: "?b < 2 ^ 63" using assms by (simp add: table_ok_def ok_dev_def)
  have "256 dvd ?b" using assms by (auto simp: table_ok_def intro: dvd_trans [of "256 :: nat" 4096])
  then obtain y where y: "?b = 256 * y" by (auto elim: dvdE)
  show ?thesis
  proof
    assume "n \<in> set (slots_from s BLOCKSIZE)"
    then obtain k where k: "n = 4096 + 256 * k" "k < (?b - 4096) div 256"
      by (auto simp: slots_from_def)
    then have "4096 + 256 * k + 256 \<le> ?b" using y by (simp add: diff_mult_distrib2 [symmetric])
    moreover from this have "n < 2 ^ 64" using small k(1) by simp
    then have "unat (of_nat n :: u64) = n" unfolding unat_of_nat by (intro mod_less) simp
    moreover have "256 dvd 4096 + 256 * k" by (simp add: dvd_add)
    ultimately show "\<exists>a. inode_slot s a \<and> n = unat a"
      using k(1) by (intro exI [of _ "of_nat n"]) (simp add: inode_slot_def)
  next
    assume "\<exists>a. inode_slot s a \<and> n = unat a"
    then obtain x where x: "n = 256 * x" "4096 \<le> n" "n + 256 \<le> ?b"
      by (auto simp: inode_slot_def elim!: dvdE)
    moreover have "256 * y - 4096 = 256 * (y - 16)" by simp
    ultimately have "n = 4096 + 256 * (x - 16)" "x - 16 < (?b - 4096) div 256"
      using y by simp_all
    then show "n \<in> set (slots_from s BLOCKSIZE)" by (auto simp: slots_from_def)
  qed
qed

lemma sorted_slots_from: "i < j \<Longrightarrow> j < length (slots_from s a) \<Longrightarrow> slots_from s a ! i < slots_from s a ! j"
  by (simp add: slots_from_def)

text \<open>What the scan finds.\<close>

lemma first_free_cases:
  assumes "table_ok s"
  shows "if first_free s = 0 then \<forall>b. inode_slot s b \<longrightarrow> \<not> free_slot s (unat b)
    else inode_slot s (first_free s) \<and> free_slot s (unat (first_free s)) \<and>
      (\<forall>b. inode_slot s b \<and> b < first_free s \<longrightarrow> \<not> free_slot s (unat b))"
proof (cases "find (free_slot s) (slots_from s BLOCKSIZE)")
  case None
  then have "first_free s = 0" by (simp add: first_free_def)
  then show ?thesis using None in_slots_from [OF assms] by (auto simp: find_None_iff)
next
  case (Some n)
  then obtain i where i: "i < length (slots_from s BLOCKSIZE)" "n = slots_from s BLOCKSIZE ! i"
    "free_slot s n" "\<And>j. j < i \<Longrightarrow> \<not> free_slot s (slots_from s BLOCKSIZE ! j)"
    by (auto simp: find_Some_iff)
  then obtain a where a: "inode_slot s a" "n = unat a"
    using in_slots_from [OF assms, of n] by (metis nth_mem)
  have ff: "first_free s = a" using Some a(2) by (simp add: first_free_def)
  have "\<not> free_slot s (unat b)" if b: "inode_slot s b" "b < a" for b
  proof -
    obtain j where j: "j < length (slots_from s BLOCKSIZE)" "unat b = slots_from s BLOCKSIZE ! j"
      using in_slots_from [OF assms, of "unat b"] b(1) by (metis in_set_conv_nth)
    have "j < i"
    proof (rule ccontr)
      assume "\<not> j < i"
      then have "i = j \<or> slots_from s BLOCKSIZE ! i < slots_from s BLOCKSIZE ! j"
        using j(1) by (metis linorder_neqE_nat sorted_slots_from)
      then have "unat a \<le> unat b" using i(2) a(2) j(2) by auto
      then show False using b(2) by (simp add: word_less_nat_alt)
    qed
    then show ?thesis using i(4) j(2) by simp
  qed
  moreover have "a \<noteq> 0" using a(1) by (auto simp: inode_slot_def)
  ultimately show ?thesis using ff a i(3) by simp
qed

section \<open>The inode table as a store\<close>

text \<open>
  What the handlers rely on: an inode that was committed is the one fetched until the next
  commit at the same address, and a commit does not disturb any other inode.
\<close>

fun puts :: "('k \<Rightarrow> 'v \<Rightarrow> 's \<Rightarrow> 's) \<Rightarrow> ('k \<times> 'v) list \<Rightarrow> 's \<Rightarrow> 's" where
  "puts put [] s = s"
| "puts put ((k, v) # kvs) s = puts put kvs (put k v s)"

locale keyed_store =
  fixes get :: "'s \<Rightarrow> 'k \<Rightarrow> 'v"
    and put :: "'k \<Rightarrow> 'v \<Rightarrow> 's \<Rightarrow> 's"
    and key :: "'s \<Rightarrow> 'k \<Rightarrow> bool"
    and val :: "'v \<Rightarrow> bool"
  assumes get_put: "key s k \<Longrightarrow> val v \<Longrightarrow> key s k' \<Longrightarrow>
      get (put k v s) k' = (if k' = k then v else get s k')"
    and key_put: "key s k \<Longrightarrow> val v \<Longrightarrow> key (put k v s) k' = key s k'"
begin

lemma key_puts:
  "(\<And>k v. (k, v) \<in> set kvs \<Longrightarrow> key s k \<and> val v) \<Longrightarrow> key (puts put kvs s) k' = key s k'"
proof (induction kvs arbitrary: s)
  case (Cons kv kvs)
  obtain k v where kv: "kv = (k, v)" by fastforce
  then have k: "key (put k v s) x = key s x" for x using Cons.prems by (intro key_put) auto
  have "key (puts put kvs (put k v s)) k' = key (put k v s) k'"
    using Cons.prems k by (intro Cons.IH) auto
  then show ?case using kv k by simp
qed simp

lemma get_puts:
  "key s k' \<Longrightarrow> (\<And>k v. (k, v) \<in> set kvs \<Longrightarrow> key s k \<and> val v) \<Longrightarrow>
     get (puts put kvs s) k' = (case map_of (rev kvs) k' of Some v \<Rightarrow> v | None \<Rightarrow> get s k')"
proof (induction kvs arbitrary: s)
  case (Cons kv kvs)
  obtain k v where kv: "kv = (k, v)" by fastforce
  then have ok: "key s k" "val v" using Cons.prems(2) by auto
  have "key (put k v s) x = key s x" for x using ok by (rule key_put)
  then have "get (puts put kvs (put k v s)) k' =
      (case map_of (rev kvs) k' of Some v \<Rightarrow> v | None \<Rightarrow> get (put k v s) k')"
    using Cons.prems by (intro Cons.IH) auto
  then show ?case
    using kv get_put [OF ok Cons.prems(1)] by (auto simp: map_add_def split: option.splits)
qed simp

end

definition get_node :: "fs \<Rightarrow> u64 \<Rightarrow> node" where
  "get_node s a = node_at (dev s) (unat a)"

definition put_node :: "u64 \<Rightarrow> node \<Rightarrow> fs \<Rightarrow> fs" where
  "put_node a n s = store_node n a s"

interpretation itable: keyed_store get_node put_node "\<lambda>s a. table_ok s \<and> inode_slot s a" wf_node
proof unfold_locales
  fix s k v k'
  show "table_ok (put_node k v s) \<and> inode_slot (put_node k v s) k' \<longleftrightarrow> table_ok s \<and> inode_slot s k'"
    unfolding put_node_def using table_ok_only_io inode_slot_only_io only_io_store by blast
  assume k: "table_ok s \<and> inode_slot s k" and v: "wf_node v" and k': "table_ok s \<and> inode_slot s k'"
  have n: "node_ok s k" "ok_dev s" using k inode_slot_node_ok by (auto simp: table_ok_def)
  show "get_node (put_node k v s) k' = (if k' = k then v else get_node s k')"
    using n v inode_slots_apart [of s k k'] k k'
    by (auto simp: get_node_def put_node_def io_simps intro!: node_at_disjoint)
qed


section \<open>Properties\<close>

lemma node_at_zeros:
  assumes "a \<le> b" "b + 208 \<le> a + n"
  shows "node_at (wrbytes m a (replicate n 0)) b = node_of_bytes (replicate 208 0)"
proof -
  have "rdbytes (wrbytes m a (replicate n 0)) b 208 = replicate 208 (0 :: u8)"
    using assms by (subst rdbytes_wrbytes_inside) simp_all
  then show ?thesis by (simp only: node_at_def)
qed

lemma free_inode_in:
  assumes "table_ok s" "inode_slot s a"
  shows "\<exists>p f. free_inode a s = (0, s\<lparr>dev := wrbytes (dev s) (unat a) (replicate 256 0), fresh := f, pos := p\<rparr>)"
proof -
  have "node_ok s a" "unat a + 256 \<le> devsize s" "ok_dev s"
    using assms inode_slot_node_ok [OF assms] by (auto simp: inode_slot_def table_ok_def)
  then show ?thesis by (auto simp: free_inode_def io_simps node_ok_def)
qed

text \<open>
  C6. \<^verbatim>\<open>allocate_inode\<close> always returns, leaves the device as it is, and returns
  the lowest slot of the table whose mode is 0, or 0 when every slot is in use.
\<close>

theorem allocate_inode_lowest:
  assumes "table_ok s" "BLOCKSIZE \<le> devsize s"
  shows "\<exists>a s'. allocate_inode fd s = Some (a, s') \<and> only_io s s' \<and> dev s' = dev s \<and>
    (if a = 0 then \<forall>b. inode_slot s b \<longrightarrow> mode (get_node s b) \<noteq> 0
     else inode_slot s a \<and> mode (get_node s a) = 0 \<and>
       (\<forall>b. inode_slot s b \<and> b < a \<longrightarrow> mode (get_node s b) \<noteq> 0))"
  using allocate_inode_scan [OF assms, of fd] first_free_cases [OF assms(1)]
  by (auto simp: free_slot_def get_node_def split: if_splits)

lemma small_table: "table_ok (small_fs m)"
  by (simp add: table_ok_def) (simp add: small_fs_def)

theorem allocate_inode_lowest_witness:
  "\<exists>s'. allocate_inode 3 pool_fs = Some (4096, s')"
proof -
  have b: "table_ok pool_fs" "BLOCKSIZE \<le> devsize pool_fs"
    using small_table by (simp_all add: pool_fs_def) (simp add: small_fs_def)
  obtain a s' where r: "allocate_inode 3 pool_fs = Some (a, s')"
    and p: "if a = 0 then \<forall>b. inode_slot pool_fs b \<longrightarrow> mode (get_node pool_fs b) \<noteq> 0
     else inode_slot pool_fs a \<and> mode (get_node pool_fs a) = 0 \<and>
       (\<forall>b. inode_slot pool_fs b \<and> b < a \<longrightarrow> mode (get_node pool_fs b) \<noteq> 0)"
    using allocate_inode_lowest [OF b, of 3] by blast
  have "rdbytes pool_mem 4096 208 = rdbytes (\<lambda>_. 0) 4096 208"
    by (rule rdbytes_cong) (simp add: pool_mem_def addr_simps)
  then have z: "mode (get_node pool_fs 4096) = 0"
    by (simp add: get_node_def node_at_def pool_fs_def small_fs_def node_of_bytes_def)
      (simp add: rdbytes_def map_replicate_const)
  have slot: "inode_slot pool_fs 4096" by (simp add: inode_slot_def pool_fs_def small_fs_def)
  have "a = 4096"
  proof (cases "a = 0")
    case False
    then have "\<not> (4096 :: u64) < a" "4096 \<le> unat a" using p slot z by (auto simp: inode_slot_def)
    then show ?thesis by (simp add: word_unat_eq_iff word_less_nat_alt)
  qed (use p slot z in simp)
  then show ?thesis using r by blast
qed

text \<open>
  After any sequence of \<^verbatim>\<open>commit_inode\<close> calls at slots of the table, fetching
  an inode gives the one committed last at its address, or the old one where none was.
\<close>

theorem commit_inodes_then_fetch:
  assumes "table_ok s" "inode_slot s a"
    and "\<And>k n. (k, n) \<in> set kns \<Longrightarrow> inode_slot s k \<and> wf_node n" "wf_node old"
  shows "fst (snd (fetch_inode a old (puts put_node kns s))) =
    (case map_of (rev kns) a of Some n \<Rightarrow> n | None \<Rightarrow> get_node s a)"
proof -
  let ?s = "puts put_node kns s"
  have "table_ok ?s \<and> inode_slot ?s a"
    using itable.key_puts [of kns s a] assms by auto
  then have "fst (snd (fetch_inode a old ?s)) = get_node ?s a"
    using inode_slot_node_ok assms(4) by (auto simp: table_ok_def io_simps get_node_def)
  then show ?thesis using itable.get_puts [of s a kns] assms by simp
qed

theorem commit_inodes_then_fetch_witness:
  "\<exists>n. wf_node n \<and> mode n = 0x81A4 \<and>
     fst (snd (fetch_inode 4352 n (puts put_node [(4352, n), (4096, node_of_bytes [])] pool_fs))) = n"
proof -
  define n where "n = (node_of_bytes [])\<lparr>mode := 0x81A4\<rparr>"
  have n: "wf_node n" "mode n = 0x81A4" by (simp_all add: n_def)
  have "table_ok pool_fs" "inode_slot pool_fs 4352" "inode_slot pool_fs 4096"
    using small_table by (simp_all add: pool_fs_def) (simp_all add: inode_slot_def small_fs_def)
  then have "fst (snd (fetch_inode 4352 n (puts put_node [(4352, n), (4096, node_of_bytes [])] pool_fs))) =
      (case map_of (rev [(4352 :: u64, n), (4096, node_of_bytes [])]) 4352 of Some n \<Rightarrow> n | None \<Rightarrow> get_node pool_fs 4352)"
    using n(1) by (intro commit_inodes_then_fetch) auto
  then show ?thesis using n by auto
qed

text \<open>
  \<^verbatim>\<open>free_inode\<close> zeroes the 256 bytes of its slot and nothing else, so a slot
  that was freed is found again: the next \<^verbatim>\<open>allocate_inode\<close> returns a slot at or
  below it.
\<close>

theorem free_inode_reusable:
  assumes "table_ok s" "BLOCKSIZE \<le> devsize s" "inode_slot s a"
  shows "\<exists>s'. free_inode a s = (0, s') \<and> only_io s s' \<and> mode (get_node s' a) = 0 \<and>
    (\<forall>x. x < unat a \<or> unat a + 256 \<le> x \<longrightarrow> dev s' x = dev s x) \<and>
    (\<exists>b s''. allocate_inode fd s' = Some (b, s'') \<and> b \<noteq> 0 \<and> b \<le> a)"
proof -
  obtain p f where r: "free_inode a s = (0, s\<lparr>dev := wrbytes (dev s) (unat a) (replicate 256 0), fresh := f, pos := p\<rparr>)"
    (is "_ = (0, ?s)") using free_inode_in [OF assms(1,3)] by blast
  have z: "free_slot ?s (unat a)"
    by (simp add: free_slot_def node_at_zeros node_of_bytes_def)
  have t: "table_ok ?s" "BLOCKSIZE \<le> devsize ?s" "inode_slot ?s a" using assms by simp_all
  have "first_free ?s \<noteq> 0 \<and> first_free ?s \<le> a"
    using first_free_cases [OF t(1)] t(3) z by (metis not_le)
  then show ?thesis
    using allocate_inode_scan [OF t(1,2), of fd] r z
    by (intro exI [of _ ?s]) (auto simp: only_io_def free_slot_def get_node_def wrbytes_out)
qed

theorem free_inode_reusable_witness:
  "\<exists>s'. free_inode 4608 pool_fs = (0, s') \<and> mode (get_node s' 4608) = 0"
proof -
  have "table_ok pool_fs" "BLOCKSIZE \<le> devsize pool_fs" "inode_slot pool_fs 4608"
    using small_table by (simp_all add: pool_fs_def) (simp_all add: inode_slot_def small_fs_def)
  then show ?thesis using free_inode_reusable by blast
qed


end
