(* ===== verification/Storage.thy ===== *)
theory Storage
  imports Inode_Table
begin

text \<open>
  What the upper layers keep of the storage below them: a well-formed inode table and free
  list, blocks that are in use because they are not free, and how each primitive
  (\<^verbatim>\<open>allocate_block\<close>, \<^verbatim>\<open>free_block\<close>, \<^verbatim>\<open>commit_inode\<close>,
  \<^verbatim>\<open>write_block\<close>) changes one inode or one block and keeps all the others. The
  relation \<open>kept\<close> says so, and composes along the steps of a handler.
\<close>

section \<open>Blocks in use\<close>

definition fsys_ok :: "fs \<Rightarrow> bool" where
  "fsys_ok s \<longleftrightarrow> fl_inv s \<and> table_ok s"

definition owned :: "fs \<Rightarrow> u64 \<Rightarrow> bool" where
  "owned s b \<longleftrightarrow> data_block s b \<and> b \<notin> free_set s"

definition kept :: "u64 set \<Rightarrow> u64 set \<Rightarrow> fs \<Rightarrow> fs \<Rightarrow> bool" where
  "kept A B s s' \<longleftrightarrow>
     only_io s s' \<and> fsys_ok s' \<and>
     (\<forall>a. inode_slot s a \<and> a \<notin> A \<longrightarrow> get_node s' a = get_node s a) \<and>
     (\<forall>b. owned s b \<and> b \<notin> B \<longrightarrow> owned s' b \<and> same_block (dev s) (dev s') b)"

lemma fsys_okD:
  assumes "fsys_ok s"
  shows "fl_inv s" "table_ok s" "ok_dev s"
  using assms by (simp_all add: fsys_ok_def table_ok_def)

lemma kept_refl: "fsys_ok s \<Longrightarrow> kept A B s s"
  by (simp add: kept_def same_block_def)

lemma keptD:
  assumes "kept A B s s'"
  shows "only_io s s'" "fsys_ok s'"
    and "\<And>a. inode_slot s a \<Longrightarrow> a \<notin> A \<Longrightarrow> get_node s' a = get_node s a"
    and "\<And>b. owned s b \<Longrightarrow> b \<notin> B \<Longrightarrow> owned s' b"
    and "\<And>b. owned s b \<Longrightarrow> b \<notin> B \<Longrightarrow> same_block (dev s) (dev s') b"
  using assms by (simp_all add: kept_def)

lemma kept_trans:
  "kept A B s s1 \<Longrightarrow> kept C D s1 s2 \<Longrightarrow> kept (A \<union> C) (B \<union> D) s s2"
proof -
  assume k: "kept A B s s1" "kept C D s1 s2"
  note k1 = keptD [OF k(1)] and k2 = keptD [OF k(2)]
  have "get_node s2 a = get_node s a" if "inode_slot s a" "a \<notin> A \<union> C" for a
    using k1(3) [OF that(1)] k2(3) [of a] inode_slot_only_io [OF k1(1)] that by simp
  moreover have "owned s2 b \<and> same_block (dev s) (dev s2) b" if "owned s b" "b \<notin> B \<union> D" for b
    using k1(4,5) [OF that(1)] k2(4,5) [of b] that(2) same_block_trans by blast
  ultimately show ?thesis using k1(1) k2(1,2) only_io_trans by (auto simp: kept_def)
qed

lemma kept_mono: "kept A B s s' \<Longrightarrow> A \<subseteq> C \<Longrightarrow> B \<subseteq> D \<Longrightarrow> kept C D s s'"
  by (auto simp: kept_def)

text \<open>Steps that write nothing to the device.\<close>

lemma fl_same_dev: "only_io s s' \<Longrightarrow> dev s' = dev s \<Longrightarrow> fl_inv s' = fl_inv s \<and> free_set s' = free_set s"
proof -
  assume io: "only_io s s'" and d: "dev s' = dev s"
  have "heads s' = heads s" "data_block s' = data_block s"
    using d only_ioD(1) [OF io] data_block_only_io [OF io] by (auto simp: heads_def super_def)
  then show ?thesis
    using d only_ioD(1) [OF io] ok_dev_only_io [OF io]
    by (simp add: fl_inv_def fl_ok_def free_set_def free_blocks_def super_def)
qed

lemma owned_same_dev: "only_io s s' \<Longrightarrow> dev s' = dev s \<Longrightarrow> owned s' b = owned s b"
  using fl_same_dev by (simp add: owned_def data_block_only_io)

lemma kept_same_dev: "fsys_ok s \<Longrightarrow> only_io s s' \<Longrightarrow> dev s' = dev s \<Longrightarrow> kept A B s s'"
  using fl_same_dev [of s s'] table_ok_only_io [of s s'] owned_same_dev [of s s']
  by (simp add: kept_def fsys_ok_def get_node_def same_block_def)

lemma owned_block_ok: "owned s b \<Longrightarrow> block_ok s b"
  by (simp add: owned_def data_block_block_ok)

lemma owned_nonzero: "owned s b \<Longrightarrow> b \<noteq> 0"
  by (simp add: owned_def data_block_def)

lemma slot_ok: "fsys_ok s \<Longrightarrow> inode_slot s a \<Longrightarrow> node_ok s a"
  using inode_slot_node_ok by (simp add: fsys_ok_def)

text \<open>An inode and a data block never overlap, nor do two different blocks.\<close>

lemma slot_below_block:
  "inode_slot s a \<Longrightarrow> data_block s b \<Longrightarrow> unat a + 256 \<le> unat b"
  by (simp add: inode_slot_def data_block_def)

lemma same_block_get:
  "same_block (dev s) (dev s') b \<Longrightarrow> i + n \<le> 4096 \<Longrightarrow> rdbytes (dev s') (unat b + i) n = rdbytes (dev s) (unat b + i) n"
  by (rule rdbytes_cong) (simp add: same_block_def add.assoc)

lemma same_block_rd64:
  "same_block (dev s) (dev s') b \<Longrightarrow> i + 8 \<le> 4096 \<Longrightarrow> rd64 (dev s') (unat b + i) = rd64 (dev s) (unat b + i)"
  by (rule rd64_cong) (simp add: same_block_def add.assoc)

section \<open>The primitives\<close>

lemma get_node_outside:
  assumes "inode_slot s a" "\<And>x. unat a \<le> x \<Longrightarrow> x < unat a + 208 \<Longrightarrow> dev s' x = dev s x"
  shows "get_node s' a = get_node s a"
  unfolding get_node_def by (rule node_at_cong) (use assms in simp)

lemma allocate_kept:
  assumes "fsys_ok s" "free_set s \<noteq> {}" "allocate_block s = (b, s')"
  shows "kept {} {} s s'" "b \<in> free_set s" "owned s' b" "free_set s' = free_set s - {b}" "\<not> owned s b"
proof -
  note f = fsys_okD [OF assms(1)]
  note al = allocate_block_fl [OF f(1) assms(3)]
  then have io: "only_io s s'" and b: "b \<in> free_set s" and fs: "free_set s' = free_set s - {b}"
    using assms(2) by simp_all
  show "b \<in> free_set s" "free_set s' = free_set s - {b}" by fact+
  have db: "data_block s b" using free_set_data [OF f(1) b] .
  then show "owned s' b" using fs data_block_only_io [OF io] by (simp add: owned_def)
  show "\<not> owned s b" using b by (simp add: owned_def)
  have out: "dev s' x = dev s x" if "8 \<le> x" "\<forall>c \<in> free_set s. x < unat c \<or> unat c + 4096 \<le> x" for x
    using al that by (simp add: keeps_outside_def)
  have "get_node s' a = get_node s a" if a: "inode_slot s a" for a
  proof (rule get_node_outside [OF a])
    fix x assume x: "unat a \<le> x" "x < unat a + 208"
    show "dev s' x = dev s x"
    proof (rule out)
      show "8 \<le> x" using a x by (simp add: inode_slot_def)
      show "\<forall>c \<in> free_set s. x < unat c \<or> unat c + 4096 \<le> x"
        using slot_below_block [OF a free_set_data [OF f(1)]] x by fastforce
    qed
  qed
  moreover have "owned s' c \<and> same_block (dev s) (dev s') c" if c: "owned s c" for c
  proof
    show "owned s' c" using c fs data_block_only_io [OF io] by (simp add: owned_def)
    show "same_block (dev s) (dev s') c"
      unfolding same_block_def
    proof (intro allI impI)
      fix i assume i: "i < (4096 :: nat)"
      have "dev s' (unat c + i) = dev s (unat c + i)"
      proof (rule out)
        show "8 \<le> unat c + i" using c data_block_ge [of s c] by (simp add: owned_def)
        show "\<forall>d \<in> free_set s. unat c + i < unat d \<or> unat d + 4096 \<le> unat c + i"
        proof
          fix d assume d: "d \<in> free_set s"
          then have "d \<noteq> c" using c by (auto simp: owned_def)
          then have "unat c + 4096 \<le> unat d \<or> unat d + 4096 \<le> unat c"
            using data_blocks_apart [of s c d] c free_set_data [OF f(1) d] by (simp add: owned_def)
          then show "unat c + i < unat d \<or> unat d + 4096 \<le> unat c + i" using i by linarith
        qed
      qed
      then show "dev s (unat c + i) = dev s' (unat c + i)" by simp
    qed
  qed
  moreover have "fsys_ok s'" using al f(2) table_ok_only_io [OF io] by (simp add: fsys_ok_def)
  ultimately show "kept {} {} s s'" using io by (simp add: kept_def)
qed

lemma allocate_none:
  assumes "fsys_ok s" "free_set s = {}" "allocate_block s = (b, s')"
  shows "b = 0" "fsys_ok s'" "free_set s' = {}" "only_io s s'"
  using allocate_block_fl [OF fsys_okD(1) [OF assms(1)] assms(3)] assms
  by (auto simp: fsys_ok_def table_ok_only_io)

lemma store_kept:
  assumes "fsys_ok s" "inode_slot s a" "wf_node n"
  shows "kept {a} {} s (store_node n a s)" "get_node (store_node n a s) a = n"
    "free_set (store_node n a s) = free_set s"
    "\<And>x. unat (inode_byte_boundary s) \<le> x \<Longrightarrow> dev (store_node n a s) x = dev s x"
proof -
  let ?s = "store_node n a s"
  note f = fsys_okD [OF assms(1)] and ok = slot_ok [OF assms(1,2)]
  have d: "dev ?s = wrbytes (dev s) (unat a) (bytes_of_node n)"
    using f(3) ok assms(3) by (simp add: io_simps)
  have a: "4096 \<le> unat a" "unat a + 256 \<le> unat (inode_byte_boundary s)"
    using assms(2) by (simp_all add: inode_slot_def)
  have "dev ?s x = dev s x" if "x < 8 \<or> unat (inode_byte_boundary s) \<le> x" for x
    using that a assms(3) by (auto simp: d wrbytes_out)
  note fl = fl_write_table [OF f(1) only_io_store this]
  show "free_set ?s = free_set s" by (rule fl(2))
  show hi: "dev ?s x = dev s x" if "unat (inode_byte_boundary s) \<le> x" for x
    using that a assms(3) by (simp add: d wrbytes_out)
  show "get_node ?s a = n" using assms(3) by (simp add: get_node_def d)
  have "get_node ?s c = get_node s c" if "inode_slot s c" "c \<noteq> a" for c
    using inode_slots_apart [OF assms(2) that(1)] that(2) assms(3)
    by (auto simp: get_node_def d intro!: node_at_disjoint)
  moreover have "owned ?s c \<and> same_block (dev s) (dev ?s) c" if "owned s c" for c
  proof
    show "owned ?s c" using that fl(2) data_block_only_io [OF only_io_store] by (simp add: owned_def)
    show "same_block (dev s) (dev ?s) c"
      using that hi by (simp add: owned_def same_block_def data_block_def)
  qed
  moreover have "fsys_ok ?s" using fl(1) f(2) table_ok_only_io [OF only_io_store] by (simp add: fsys_ok_def)
  ultimately show "kept {a} {} s ?s" by (simp add: kept_def)
qed

text \<open>Any change confined to one block in use.\<close>

lemma write_kept:
  assumes "fsys_ok s" "owned s b" "only_io s s'"
    and "\<And>x. x < unat b \<or> unat b + BLOCKSIZE \<le> x \<Longrightarrow> dev s' x = dev s x"
  shows "kept {} {b} s s'" "free_set s' = free_set s" "owned s' b"
proof -
  have db: "data_block s b" "b \<notin> free_set s" using assms(2) by (simp_all add: owned_def)
  note fl = fl_write_block [OF fsys_okD(1) [OF assms(1)] db assms(3,4)]
  show "free_set s' = free_set s" by (rule fl(2))
  show "owned s' b" using db fl(2) data_block_only_io [OF assms(3)] by (simp add: owned_def)
  have "get_node s' c = get_node s c" if "inode_slot s c" for c
    using slot_below_block [OF that db(1)] assms(4) by (intro get_node_outside [OF that]) simp
  moreover have "owned s' c \<and> same_block (dev s) (dev s') c" if c: "owned s c" "c \<noteq> b" for c
  proof
    show "owned s' c" using c fl(2) data_block_only_io [OF assms(3)] by (simp add: owned_def)
    have "unat c + 4096 \<le> unat b \<or> unat b + 4096 \<le> unat c"
      using data_blocks_apart [of s c b] c db by (simp add: owned_def)
    then have "unat c + i < unat b \<or> unat b + 4096 \<le> unat c + i" if "i < 4096" for i
      using that by linarith
    then show "same_block (dev s) (dev s') c" using assms(4) by (simp add: same_block_def)
  qed
  moreover have "fsys_ok s'"
    using fl(1) fsys_okD [OF assms(1)] table_ok_only_io [OF assms(3)] by (simp add: fsys_ok_def)
  ultimately show "kept {} {b} s s'" using assms(3) by (simp add: kept_def)
qed

lemma free_kept:
  assumes "fsys_ok s" "owned s b" "free_block (drive s) b s = (r, s')"
  shows "kept {} {b} s s'" "r = 0" "free_set s' = insert b (free_set s)"
proof -
  note f = fsys_okD [OF assms(1)]
  have db: "data_block s b" "b \<notin> free_set s" using assms(2) by (simp_all add: owned_def)
  note fb = free_block_fl [OF f(1) db assms(3)]
  show "r = 0" "free_set s' = insert b (free_set s)" using fb by simp_all
  have io: "only_io s s'" using fb by simp
  have all: "data_block s c" if "c \<in> insert b (free_set s)" for c
    using that db free_set_data [OF f(1)] by blast
  have out: "dev s' x = dev s x" if "8 \<le> x" "\<forall>c \<in> insert b (free_set s). x < unat c \<or> unat c + 4096 \<le> x" for x
    using fb that by (simp add: keeps_outside_def)
  have "get_node s' a = get_node s a" if a: "inode_slot s a" for a
  proof (rule get_node_outside [OF a])
    fix x assume x: "unat a \<le> x" "x < unat a + 208"
    show "dev s' x = dev s x"
    proof (rule out)
      show "8 \<le> x" using a x by (simp add: inode_slot_def)
      show "\<forall>c \<in> insert b (free_set s). x < unat c \<or> unat c + 4096 \<le> x"
        using slot_below_block [OF a all] x by fastforce
    qed
  qed
  moreover have "owned s' c \<and> same_block (dev s) (dev s') c" if c: "owned s c" "c \<noteq> b" for c
  proof
    show "owned s' c" using c fb data_block_only_io [OF io] by (simp add: owned_def)
    have apart: "unat c + 4096 \<le> unat d \<or> unat d + 4096 \<le> unat c" if d: "d \<in> insert b (free_set s)" for d
      using data_blocks_apart [of s c d] c all [OF d] d by (auto simp: owned_def)
    have "dev s' (unat c + i) = dev s (unat c + i)" if i: "i < 4096" for i
    proof (rule out)
      show "8 \<le> unat c + i" using c data_block_ge [of s c] by (simp add: owned_def)
      show "\<forall>d \<in> insert b (free_set s). unat c + i < unat d \<or> unat d + 4096 \<le> unat c + i"
        using apart i by fastforce
    qed
    then show "same_block (dev s) (dev s') c" by (simp add: same_block_def)
  qed
  moreover have "fsys_ok s'" using fb f(2) table_ok_only_io [OF io] by (simp add: fsys_ok_def)
  ultimately show "kept {} {b} s s'" using io by (simp add: kept_def)
qed

end
