(* ===== verification/Block_Map.thy ===== *)
theory Block_Map
  imports Storage
begin

text \<open>
  The blocks of a file: \<^verbatim>\<open>get_i_block\<close> and \<^verbatim>\<open>add_block_to_node\<close> of
  \<^verbatim>\<open>tyrant_help.c\<close> and \<^verbatim>\<open>fetch_block\<close> of \<^verbatim>\<open>disk.c\<close>. An
  inode names its first 12 blocks itself, the next 512 through one indirect block, and the
  following ones through a double and a triple indirect block.
\<close>

abbreviation "ADDRS \<equiv> 512"
abbreviation "UINT64_MAX \<equiv> -1"

section \<open>The operations\<close>

text \<open>
  An offset computed as a \<open>uint64_t\<close> and passed as an \<open>off_t\<close>; bounds computed with
  \<^verbatim>\<open>pow\<close> are exact, as they are powers of two far below \<open>2 ^ 53\<close>.
\<close>

definition off_t :: "u64 \<Rightarrow> int" where
  "off_t w = sint w"

definition get_i_block :: "node \<Rightarrow> u64 \<Rightarrow> fs \<Rightarrow> u64 \<times> fs" where
  "get_i_block cur_node i s =
     (if blocks cur_node = 0 then (0, s)
      else if blocks cur_node \<le> i then (0, s)
      else
        let (cur_blk, s) = uninit ADDR_LENGTH s;
            cur_blk = of_le cur_blk
        in if i < 12 then (direct_blocks cur_node ! unat i, s)
           else if i < 12 + ADDRS then
             let indir_blk = indirect_blocks cur_node;
                 indir_blk_offset = (i - 12) * ADDR_LENGTH
             in if indir_blk = 0 then (0, s)
                else read_block_addr cur_blk indir_blk (off_t indir_blk_offset) s
           else if i < 12 + ADDRS + ADDRS ^ 2 then
             let dbl_blk = dbl_indirect cur_node;
                 dbl_blk_offset = (i - 12 - ADDRS) div ADDRS * ADDR_LENGTH;
                 indir_blk_offset = (i - 12 - ADDRS) mod ADDRS * ADDR_LENGTH
             in if dbl_blk = 0 then (0, s)
                else let (indir_blk, s) = read_block_addr 0 dbl_blk (off_t dbl_blk_offset) s
                     in read_block_addr cur_blk indir_blk (off_t indir_blk_offset) s
           else
             let trpl_blk = trpl_indirect cur_node;
                 k = i - 12 - ADDRS - ADDRS * ADDRS;
                 trpl_blk_offset = k div (ADDRS * ADDRS) * ADDR_LENGTH;
                 dbl_blk_offset = k mod (ADDRS * ADDRS) div ADDRS * ADDR_LENGTH;
                 indir_blk_offset = k mod (ADDRS * ADDRS) mod ADDRS * ADDR_LENGTH
             in if trpl_blk = 0 then (0, s)
                else let (dbl_blk, s) = read_block_addr 0 trpl_blk (off_t trpl_blk_offset) s;
                         (indir_blk, s) = read_block_addr 0 dbl_blk (off_t dbl_blk_offset) s
                     in read_block_addr cur_blk indir_blk (off_t indir_blk_offset) s)"

text \<open>
  \<^verbatim>\<open>add_block_to_node\<close>: the result is the new block or 0, with the caller's inode.
  The three levels below it are the branches of the C function. A block that was taken is
  given back when a block of addresses cannot be had.
\<close>

definition add_indirect :: "u64 \<Rightarrow> node \<Rightarrow> u64 \<Rightarrow> fs \<Rightarrow> u64 \<times> node \<times> fs" where
  "add_indirect block parent parent_loc s =
     (let i = blocks parent;
          indir_blk = indirect_blocks parent;
          (indir_blk, parent, s) =
            (if indir_blk = 0 then
               let (indir_blk, s) = allocate_block s
               in if indir_blk = 0 then (0, parent, s)
                  else let parent = parent\<lparr>indirect_blocks := indir_blk\<rparr>
                       in (indir_blk, parent, store_node parent parent_loc s)
             else (indir_blk, parent, s))
      in if indir_blk = 0 then (0, parent, snd (free_block (drive s) block s))
         else let indir_blk_offset = (i - 12) * ADDR_LENGTH;
                  s = write_block_addr block indir_blk (off_t indir_blk_offset) s;
                  parent = parent\<lparr>blocks := blocks parent + 1\<rparr>;
                  s = store_node parent parent_loc s
              in (block, parent, s))"

definition add_dbl_indirect :: "u64 \<Rightarrow> node \<Rightarrow> u64 \<Rightarrow> fs \<Rightarrow> u64 \<times> node \<times> fs" where
  "add_dbl_indirect block parent parent_loc s =
     (let i = blocks parent;
          dbl_blk = dbl_indirect parent;
          (dbl_blk, parent, s) =
            (if dbl_blk = 0 then
               let (dbl_blk, s) = allocate_block s
               in if dbl_blk = 0 then (0, parent, s)
                  else let parent = parent\<lparr>dbl_indirect := dbl_blk\<rparr>
                       in (dbl_blk, parent, store_node parent parent_loc s)
             else (dbl_blk, parent, s))
      in if dbl_blk = 0 then (0, parent, snd (free_block (drive s) block s))
         else
           let dbl_blk_offset = (i - 12 - ADDRS) div ADDRS * ADDR_LENGTH;
               indir_blk_offset = (i - 12 - ADDRS) mod ADDRS * ADDR_LENGTH;
               (indir_blk, s) = read_block_addr 0 dbl_blk (off_t dbl_blk_offset) s;
               (indir_blk, s) =
                 (if indir_blk = 0 then
                    let (indir_blk, s) = allocate_block s
                    in if indir_blk = 0 then (0, s)
                       else let s = write_block_addr indir_blk dbl_blk (off_t dbl_blk_offset) s
                            in (indir_blk, store_node parent parent_loc s)
                  else (indir_blk, s))
           in if indir_blk = 0 then (0, parent, snd (free_block (drive s) block s))
              else let s = write_block_addr block indir_blk (off_t indir_blk_offset) s;
                       parent = parent\<lparr>blocks := blocks parent + 1\<rparr>;
                       s = store_node parent parent_loc s
                   in (block, parent, s))"

definition add_trpl_indirect :: "u64 \<Rightarrow> node \<Rightarrow> u64 \<Rightarrow> fs \<Rightarrow> u64 \<times> node \<times> fs" where
  "add_trpl_indirect block parent parent_loc s =
     (let i = blocks parent;
          trpl_blk = trpl_indirect parent;
          (trpl_blk, parent, s) =
            (if trpl_blk = 0 then
               let (trpl_blk, s) = allocate_block s
               in if trpl_blk = 0 then (0, parent, s)
                  else let parent = parent\<lparr>trpl_indirect := trpl_blk\<rparr>
                       in (trpl_blk, parent, store_node parent parent_loc s)
             else (trpl_blk, parent, s))
      in if trpl_blk = 0 then (0, parent, snd (free_block (drive s) block s))
         else
           let k = i - 12 - ADDRS - ADDRS * ADDRS;
               trpl_blk_offset = k div (ADDRS * ADDRS) * ADDR_LENGTH;
               dbl_blk_offset = k mod (ADDRS * ADDRS) div ADDRS * ADDR_LENGTH;
               indir_blk_offset = k mod (ADDRS * ADDRS) mod ADDRS * ADDR_LENGTH;
               (dbl_blk, s) = read_block_addr 0 trpl_blk (off_t trpl_blk_offset) s;
               (dbl_blk, s) =
                 (if dbl_blk = 0 then
                    let (dbl_blk, s) = allocate_block s
                    in if dbl_blk = 0 then (0, s)
                       else let s = write_block_addr dbl_blk trpl_blk (off_t trpl_blk_offset) s
                            in (dbl_blk, store_node parent parent_loc s)
                  else (dbl_blk, s))
           in if dbl_blk = 0 then (0, parent, snd (free_block (drive s) block s))
              else
                let (indir_blk, s) = read_block_addr 0 dbl_blk (off_t dbl_blk_offset) s;
                    (indir_blk, s) =
                      (if indir_blk = 0 then
                         let (indir_blk, s) = allocate_block s
                         in if indir_blk = 0 then (0, s)
                            else let s = write_block_addr indir_blk dbl_blk (off_t dbl_blk_offset) s
                                 in (indir_blk, store_node parent parent_loc s)
                       else (indir_blk, s))
                in if indir_blk = 0 then (0, parent, snd (free_block (drive s) block s))
                   else let s = write_block_addr block indir_blk (off_t indir_blk_offset) s;
                            parent = parent\<lparr>blocks := blocks parent + 1\<rparr>;
                            s = store_node parent parent_loc s
                        in (block, parent, s))"

definition add_block_to_node :: "node \<Rightarrow> u64 \<Rightarrow> fs \<Rightarrow> u64 \<times> node \<times> fs" where
  "add_block_to_node parent parent_loc s =
     (if parent_loc = 0 then (0, parent, s)
      else
        let (block, s) = allocate_block s
        in if block = 0 then (0, parent, s)
           else if blocks parent = UINT64_MAX then (0, parent, snd (free_block (drive s) block s))
           else
             let i = blocks parent
             in if i < 12 then
                  let parent = parent\<lparr>direct_blocks := (direct_blocks parent)[unat i := block],
                                      blocks := blocks parent + 1\<rparr>;
                      s = store_node parent parent_loc s
                  in (block, parent, s)
                else if i < 12 + ADDRS then add_indirect block parent parent_loc s
                else if i < 12 + ADDRS + ADDRS ^ 2 then add_dbl_indirect block parent parent_loc s
                else add_trpl_indirect block parent parent_loc s)"

text \<open>
  \<^verbatim>\<open>fetch_block\<close>: the first component is \<open>False\<close> for \<open>NULL\<close>. The two loops look
  for the group of 512 (or \<open>512 ^ 2\<close>) blocks that ends past the wanted one.
\<close>

definition read_whole :: "bytes \<Rightarrow> u64 \<Rightarrow> fs \<Rightarrow> bytes \<times> fs" where
  "read_whole block addr s =
     (case read_block (Some block) addr 0 BLOCKSIZE s of (r, b, s) \<Rightarrow> (the b, s))"

definition fetch_data :: "bytes \<Rightarrow> u64 \<Rightarrow> int \<Rightarrow> fs \<Rightarrow> bool \<times> bytes \<times> fs" where
  "fetch_data block indir_blk offset s =
     (let (block_addr, s) = read_block_addr 0 indir_blk offset s
      in if block_addr = 0 then (False, block, s)
         else let (block, s) = read_whole block block_addr s in (True, block, s))"

function fetch_dbl :: "nat \<Rightarrow> u64 \<Rightarrow> node \<Rightarrow> bytes \<Rightarrow> fs \<Rightarrow> bool \<times> bytes \<times> fs" where
  "fetch_dbl i dbl_offset parent block s =
     (if i < ADDRS ^ 2 then
        if dbl_offset < of_nat i then
          let (r, b, s) = read_block (Some (to_le ADDR_LENGTH (0 :: u64))) (dbl_indirect parent)
                            (off_t (of_nat ((i div ADDRS - 1) * ADDR_LENGTH))) ADDR_LENGTH s;
              indir_blk = of_le (the b) :: u64;
              valid_bytes = word_of_int r :: u32
          in if indir_blk = 0 \<or> valid_bytes = 0 then (False, block, s)
             else let dbl_offset = dbl_offset - of_nat (i - ADDRS)
                  in fetch_data block indir_blk (off_t (dbl_offset * ADDR_LENGTH)) s
        else fetch_dbl (i + ADDRS) dbl_offset parent block s
      else (False, block, s))"
  by pat_completeness auto
termination
  by (relation "measure (\<lambda>(i, _). ADDRS ^ 2 - i)") auto

declare fetch_dbl.simps [simp del]

text \<open>The inner loop of the triple indirect case; \<open>None\<close> when it ends without a group.\<close>

function fetch_trpl_group :: "nat \<Rightarrow> u64 \<Rightarrow> u64 \<Rightarrow> bytes \<Rightarrow> fs \<Rightarrow> (bool \<times> bytes \<times> fs) option" where
  "fetch_trpl_group j trpl_offset dbl_blk block s =
     (if j < ADDRS ^ 2 then
        if trpl_offset < of_nat j then
          let (indir_blk, s) = read_block_addr 0 dbl_blk (off_t (of_nat ((j div ADDRS - 1) * ADDR_LENGTH))) s
          in if indir_blk = 0 then Some (False, block, s)
             else let trpl_offset = trpl_offset - of_nat (j - ADDRS)
                  in Some (fetch_data block indir_blk (off_t (trpl_offset * ADDR_LENGTH)) s)
        else fetch_trpl_group (j + ADDRS) trpl_offset dbl_blk block s
      else None)"
  by pat_completeness auto
termination
  by (relation "measure (\<lambda>(j, _). ADDRS ^ 2 - j)") auto

declare fetch_trpl_group.simps [simp del]

text \<open>
  The outer loop. When the inner one finds no group the code goes round again with the
  reduced offset and converts a negative \<open>double\<close> to \<open>uint64_t\<close>, which is undefined: \<open>None\<close>.
\<close>

function fetch_trpl :: "nat \<Rightarrow> u64 \<Rightarrow> node \<Rightarrow> bytes \<Rightarrow> fs \<Rightarrow> (bool \<times> bytes \<times> fs) option" where
  "fetch_trpl i trpl_offset parent block s =
     (if i < ADDRS ^ 3 then
        if trpl_offset < of_nat i then
          let rd = read_block_addr 0 (trpl_indirect parent) (off_t (of_nat ((i div ADDRS ^ 2 - 1) * ADDR_LENGTH))) s;
              dbl_blk = fst rd
          in if dbl_blk = 0 then Some (False, block, snd rd)
             else if trpl_offset < of_nat (i - ADDRS ^ 2) then None
             else let trpl_offset = trpl_offset - of_nat (i - ADDRS ^ 2)
                  in (case fetch_trpl_group 0 trpl_offset dbl_blk block (snd rd) of
                        Some r \<Rightarrow> Some r
                      | None \<Rightarrow> fetch_trpl (i + ADDRS ^ 2) trpl_offset parent block (snd rd))
        else fetch_trpl (i + ADDRS ^ 2) trpl_offset parent block s
      else Some (False, block, s))"
  by pat_completeness auto
termination
  by (relation "measure (\<lambda>(i, _). ADDRS ^ 3 - i)") auto

declare fetch_trpl.simps [simp del]

definition fetch_block :: "u64 \<Rightarrow> u64 \<Rightarrow> bytes \<Rightarrow> fs \<Rightarrow> (bool \<times> bytes \<times> fs) option" where
  "fetch_block my_node block_no block s =
     (if my_node = 0 then Some (False, block, s)
      else
        let (parent, s) = uninit_node s;
            (parent, s) = load_node my_node parent s
        in if blocks parent \<le> block_no then Some (False, block, s)
           else if block_no < 12 then
             let (block, s) = read_whole block (direct_blocks parent ! unat block_no) s
             in Some (True, block, s)
           else if block_no < 12 + ADDRS then
             Some (fetch_data block (indirect_blocks parent) (off_t ((block_no - 12) * ADDR_LENGTH)) s)
           else if block_no < 12 + ADDRS + ADDRS ^ 2 then
             Some (fetch_dbl 0 (block_no - 12 - ADDRS) parent block s)
           else if block_no < 12 + ADDRS + ADDRS ^ 2 + ADDRS ^ 3 then
             fetch_trpl 0 (block_no - (12 + ADDRS + ADDRS ^ 2)) parent block s
           else Some (False, block, s))"

section \<open>The block map\<close>

text \<open>The address of block \<open>i\<close> of a file, and when the tables that lead to it are usable.\<close>

definition dbl_addr :: "mem \<Rightarrow> u64 \<Rightarrow> nat \<Rightarrow> u64" where
  "dbl_addr m b k = rd64 m (unat (rd64 m (unat b + 8 * (k div 512))) + 8 * (k mod 512))"

definition nth_addr :: "mem \<Rightarrow> node \<Rightarrow> nat \<Rightarrow> u64" where
  "nth_addr m n i =
     (if i < 12 then direct_blocks n ! i
      else if i < 524 then rd64 m (unat (indirect_blocks n) + 8 * (i - 12))
      else if i < 262668 then dbl_addr m (dbl_indirect n) (i - 524)
      else dbl_addr m (rd64 m (unat (trpl_indirect n) + 8 * ((i - 262668) div 262144)))
             ((i - 262668) mod 262144))"

definition dbl_ok :: "fs \<Rightarrow> u64 \<Rightarrow> nat \<Rightarrow> bool" where
  "dbl_ok s b k \<longleftrightarrow> block_ok s b \<and> block_ok s (rd64 (dev s) (unat b + 8 * (k div 512)))"

definition index_ok :: "fs \<Rightarrow> node \<Rightarrow> nat \<Rightarrow> bool" where
  "index_ok s n i \<longleftrightarrow>
     i < 12 + 512 + 512 ^ 2 + 512 ^ 3 \<and>
     (12 \<le> i \<and> i < 524 \<longrightarrow> block_ok s (indirect_blocks n)) \<and>
     (524 \<le> i \<and> i < 262668 \<longrightarrow> dbl_ok s (dbl_indirect n) (i - 524)) \<and>
     (262668 \<le> i \<longrightarrow> block_ok s (trpl_indirect n) \<and>
        dbl_ok s (rd64 (dev s) (unat (trpl_indirect n) + 8 * ((i - 262668) div 262144)))
          ((i - 262668) mod 262144))"

section \<open>Looking a block up\<close>

lemma off_t_of_nat [simp]: "x < 2 ^ 63 \<Longrightarrow> off_t (of_nat x) = int x"
  unfolding off_t_def by (subst sint_small) (simp_all add: unat_of_nat)

lemma u64_div: "x < 2 ^ 64 \<Longrightarrow> d < 2 ^ 64 \<Longrightarrow> (of_nat x :: u64) div of_nat d = of_nat (x div d)"
  using le_less_trans [OF div_le_dividend, of x "2 ^ 64" d] by (simp add: word_unat_eq_iff unat_div unat_of_nat)

lemma u64_mod: "x < 2 ^ 64 \<Longrightarrow> d < 2 ^ 64 \<Longrightarrow> (of_nat x :: u64) mod of_nat d = of_nat (x mod d)"
  using le_less_trans [OF mod_less_eq_dividend, of x "2 ^ 64" d] by (simp add: word_unat_eq_iff unat_mod unat_of_nat)

text \<open>The offsets the code computes, on numbers.\<close>

lemma direct_offset: "12 \<le> i \<Longrightarrow> (of_nat i - 12) * 8 = (of_nat ((i - 12) * 8) :: u64)"
  by (simp add: of_nat_diff)

lemma dbl_offsets:
  assumes "524 \<le> i" "i < 2 ^ 63"
  shows "(of_nat i - 12 - 512) div 512 * 8 = (of_nat ((i - 524) div 512 * 8) :: u64)"
    "(of_nat i - 12 - 512) mod 512 * 8 = (of_nat ((i - 524) mod 512 * 8) :: u64)"
proof -
  have "of_nat i - 12 - 512 = (of_nat (i - 524) :: u64)" using assms(1) by (simp add: of_nat_diff)
  then show "(of_nat i - 12 - 512) div 512 * 8 = (of_nat ((i - 524) div 512 * 8) :: u64)"
    "(of_nat i - 12 - 512) mod 512 * 8 = (of_nat ((i - 524) mod 512 * 8) :: u64)"
    using u64_div [of "i - 524" 512] u64_mod [of "i - 524" 512] assms(2) by simp_all
qed

lemma trpl_offsets:
  assumes "262668 \<le> i" "i < 2 ^ 63"
  shows "(of_nat i - 12 - 512 - 512 * 512) div (512 * 512) * 8 = (of_nat ((i - 262668) div 262144 * 8) :: u64)"
    "(of_nat i - 12 - 512 - 512 * 512) mod (512 * 512) div 512 * 8 =
       (of_nat ((i - 262668) mod 262144 div 512 * 8) :: u64)"
    "(of_nat i - 12 - 512 - 512 * 512) mod (512 * 512) mod 512 * 8 =
       (of_nat ((i - 262668) mod 262144 mod 512 * 8) :: u64)"
proof -
  have "of_nat i - 12 - 512 - 512 * 512 = (of_nat (i - 262668) :: u64)"
    using assms(1) by (simp add: of_nat_diff)
  then show "(of_nat i - 12 - 512 - 512 * 512) div (512 * 512) * 8 = (of_nat ((i - 262668) div 262144 * 8) :: u64)"
    "(of_nat i - 12 - 512 - 512 * 512) mod (512 * 512) div 512 * 8 =
       (of_nat ((i - 262668) mod 262144 div 512 * 8) :: u64)"
    "(of_nat i - 12 - 512 - 512 * 512) mod (512 * 512) mod 512 * 8 =
       (of_nat ((i - 262668) mod 262144 mod 512 * 8) :: u64)"
    using u64_div [of "i - 262668" 262144] u64_mod [of "i - 262668" 262144] assms(2)
      u64_div [of "(i - 262668) mod 262144" 512] u64_mod [of "(i - 262668) mod 262144" 512]
    by (simp_all add: less_trans [OF mod_less_divisor])
qed

lemma get_dbl:
  assumes "ok_dev s" "dbl_ok s b k" "k < 262144"
  shows "read_block_addr 0 b (int (k div 512 * 8)) s =
      (rd64 (dev s) (unat b + 8 * (k div 512)), s\<lparr>pos := unat b + 8 * (k div 512) + 8\<rparr>)"
    "read_block_addr v (rd64 (dev s) (unat b + 8 * (k div 512))) (int (k mod 512 * 8)) s =
      (dbl_addr (dev s) b k, s\<lparr>pos := unat (rd64 (dev s) (unat b + 8 * (k div 512))) + 8 * (k mod 512) + 8\<rparr>)"
proof -
  have "k div 512 * 8 + 8 \<le> 4096" "k mod 512 * 8 + 8 \<le> 4096"
    using assms(3) mod_less_divisor [of 512 k] by (auto simp: less_mult_imp_div_less Suc_le_eq[symmetric] div_less_iff_less_mult)
  then show "read_block_addr 0 b (int (k div 512 * 8)) s =
      (rd64 (dev s) (unat b + 8 * (k div 512)), s\<lparr>pos := unat b + 8 * (k div 512) + 8\<rparr>)"
    "read_block_addr v (rd64 (dev s) (unat b + 8 * (k div 512))) (int (k mod 512 * 8)) s =
      (dbl_addr (dev s) b k, s\<lparr>pos := unat (rd64 (dev s) (unat b + 8 * (k div 512))) + 8 * (k mod 512) + 8\<rparr>)"
    using assms read_block_addr_in [of s b "k div 512 * 8" 0]
      read_block_addr_in [of s "rd64 (dev s) (unat b + 8 * (k div 512))" "k mod 512 * 8" v]
    by (simp_all add: dbl_ok_def dbl_addr_def mult.commute)
qed

lemma get_i_block_in:
  assumes "ok_dev s" "i < blocks n" "index_ok s n (unat i)"
  shows "\<exists>s'. get_i_block n i s = (nth_addr (dev s) n (unat i), s') \<and> only_io s s' \<and> dev s' = dev s"
proof -
  define k where "k = unat i"
  have i: "i = of_nat k" "unat i = k" by (simp_all add: k_def)
  have ok: "index_ok s n k" using assms(3) by (simp add: k_def)
  have k: "k < 2 ^ 63" using ok by (simp add: index_ok_def)
  have b: "blocks n \<noteq> 0" "\<not> blocks n \<le> i" using assms(2) by (auto simp: not_le)
  let ?s = "s\<lparr>fresh := Suc (fresh s)\<rparr>"
  have cmp: "i < 12 \<longleftrightarrow> k < 12" "i < 12 + ADDRS \<longleftrightarrow> k < 524" "i < 12 + ADDRS + ADDRS ^ 2 \<longleftrightarrow> k < 262668"
    by (simp_all add: word_less_nat_alt i(2))
  have d: "ok_dev ?s" "dev ?s = dev s" using assms(1) by simp_all
  have dk: "dbl_ok ?s = dbl_ok s" by (simp add: dbl_ok_def fun_eq_iff)
  consider "k < 12" | "12 \<le> k" "k < 524" | "524 \<le> k" "k < 262668" | "262668 \<le> k" by linarith
  then show ?thesis
  proof cases
    case 1
    then show ?thesis using b cmp i(2) by (simp add: get_i_block_def uninit_def nth_addr_def)
  next
    case 2
    have ib: "block_ok s (indirect_blocks n)" using ok 2 by (simp add: index_ok_def)
    then have "indirect_blocks n \<noteq> 0" by (simp add: block_ok_def)
    moreover have o: "off_t ((i - 12) * 8) = int ((k - 12) * 8)"
      unfolding i(1) direct_offset [OF 2(1)] using 2 by (intro off_t_of_nat) simp
    have "(k - 12) * 8 + 8 \<le> 4096" using 2 by simp
    then have "read_block_addr v (indirect_blocks n) (off_t ((i - 12) * 8)) ?s =
        (rd64 (dev s) (unat (indirect_blocks n) + (k - 12) * 8), ?s\<lparr>pos := unat (indirect_blocks n) + (k - 12) * 8 + 8\<rparr>)" for v
      using ib d unfolding o by (intro read_block_addr_in [THEN trans]) simp_all
    ultimately show ?thesis
      using b cmp 2 i(2) by (simp add: get_i_block_def uninit_def nth_addr_def mult.commute only_io_def)
  next
    case 3
    have db: "dbl_ok ?s (dbl_indirect n) (k - 524)" using ok 3 dk by (simp add: index_ok_def)
    have nz: "dbl_indirect n \<noteq> 0" using db by (simp add: dbl_ok_def block_ok_def)
    have lt: "k - 524 < 262144" using 3 by simp
    have small: "(k - 524) div 512 * 8 < 2 ^ 63" "(k - 524) mod 512 * 8 < 2 ^ 63"
      using lt mod_less_divisor [of 512 "k - 524"] div_le_dividend [of "k - 524" 512] by simp_all
    let ?o1 = "(i - 12 - ADDRS) div ADDRS * 8" and ?o2 = "(i - 12 - ADDRS) mod ADDRS * 8"
    have o: "off_t ?o1 = int ((k - 524) div 512 * 8)" "off_t ?o2 = int ((k - 524) mod 512 * 8)"
      using dbl_offsets [OF 3(1) k] small unfolding i(1) by (simp_all only: off_t_of_nat)
    let ?s1 = "?s\<lparr>pos := unat (dbl_indirect n) + 8 * ((k - 524) div 512) + 8\<rparr>"
    have "dbl_ok ?s1 (dbl_indirect n) (k - 524)" using db by (simp add: dbl_ok_def)
    with db show ?thesis
      using b cmp 3 nz get_dbl(1) [OF d(1) db lt] get_dbl(2) [of ?s1 "dbl_indirect n" "k - 524"] d lt
      unfolding get_i_block_def uninit_def Let_def o
      by (simp add: nth_addr_def i(2) only_io_def)
  next
    case 4
    let ?k = "k - 262668"
    let ?q = "?k div 262144" and ?r = "?k mod 262144"
    let ?t = "rd64 (dev s) (unat (trpl_indirect n) + 8 * ?q)"
    have tb: "block_ok ?s (trpl_indirect n)" and db: "dbl_ok ?s ?t ?r" and max: "k < 134480396"
      using ok 4 dk by (simp_all add: index_ok_def)
    have nz: "trpl_indirect n \<noteq> 0" using tb by (simp add: block_ok_def)
    have lt: "?r < 262144" "?q < 512" using max by (simp_all add: div_less_iff_less_mult)
    have small: "?q * 8 < 2 ^ 63" "?r div 512 * 8 < 2 ^ 63" "?r mod 512 * 8 < 2 ^ 63"
      using lt mod_less_divisor [of 512 ?r] div_le_dividend [of ?r 512] by simp_all
    let ?i = "i - 12 - ADDRS - ADDRS * ADDRS"
    have o: "off_t (?i div (ADDRS * ADDRS) * 8) = int (?q * 8)"
      "off_t (?i mod (ADDRS * ADDRS) div ADDRS * 8) = int (?r div 512 * 8)"
      "off_t (?i mod (ADDRS * ADDRS) mod ADDRS * 8) = int (?r mod 512 * 8)"
      using trpl_offsets [OF 4 k] small unfolding i(1) by (simp_all only: off_t_of_nat)
    let ?s1 = "?s\<lparr>pos := unat (trpl_indirect n) + ?q * 8 + 8\<rparr>"
    have t: "read_block_addr 0 (trpl_indirect n) (int (?q * 8)) ?s = (?t, ?s1)"
      using tb d lt(2) read_block_addr_in [of ?s "trpl_indirect n" "?q * 8" 0] by (simp add: mult.commute)
    let ?s2 = "?s1\<lparr>pos := unat ?t + 8 * (?r div 512) + 8\<rparr>"
    have db1: "dbl_ok ?s1 ?t ?r" "dbl_ok ?s2 ?t ?r" "ok_dev ?s1" "ok_dev ?s2" using db d by (simp_all add: dbl_ok_def)
    note g1 = get_dbl(1) [OF db1(3,1) lt(1)] and g2 = get_dbl(2) [OF db1(4,2) lt(1)]
    show ?thesis
      using b cmp 4 nz t g1 g2 unfolding get_i_block_def uninit_def Let_def o
      by (simp add: nth_addr_def i(2) only_io_def)
  qed
qed

section \<open>Adding a block\<close>

text \<open>
  A file of at most 524 blocks: its blocks are in use and different, and so is its indirect
  block.
\<close>

definition addrs :: "fs \<Rightarrow> node \<Rightarrow> u64 list" where
  "addrs s n = map (nth_addr (dev s) n) [0..<unat (blocks n)]"

definition file_ok :: "fs \<Rightarrow> node \<Rightarrow> bool" where
  "file_ok s n \<longleftrightarrow>
     wf_node n \<and> unat (blocks n) \<le> 524 \<and> list_all (owned s) (addrs s n) \<and> distinct (addrs s n) \<and>
     (indirect_blocks n \<noteq> 0 \<longrightarrow> owned s (indirect_blocks n) \<and> indirect_blocks n \<notin> set (addrs s n)) \<and>
     (12 < unat (blocks n) \<longrightarrow> indirect_blocks n \<noteq> 0)"

lemma file_okD:
  assumes "file_ok s n"
  shows "wf_node n" "unat (blocks n) \<le> 524" "list_all (owned s) (addrs s n)" "distinct (addrs s n)"
    and "indirect_blocks n \<noteq> 0 \<Longrightarrow> owned s (indirect_blocks n)"
    and "indirect_blocks n \<noteq> 0 \<Longrightarrow> indirect_blocks n \<notin> set (addrs s n)"
    and "12 < unat (blocks n) \<Longrightarrow> indirect_blocks n \<noteq> 0"
    and "\<And>i. i < unat (blocks n) \<Longrightarrow> owned s (nth_addr (dev s) n i)"
  using assms by (auto simp: file_ok_def addrs_def list_all_iff)

lemma file_ok_index:
  assumes "file_ok s n" "i < unat (blocks n)"
  shows "index_ok s n i"
  using file_okD(2,5,7) [OF assms(1)] assms(2) owned_block_ok by (auto simp: index_ok_def)

lemma length_addrs [simp]: "length (addrs s n) = unat (blocks n)"
  by (simp add: addrs_def)

text \<open>The map of a file depends on its inode and the contents of its indirect block.\<close>

lemma nth_addr_same:
  assumes "i < 524" "12 \<le> i \<longrightarrow> same_block m m' (indirect_blocks n)"
  shows "nth_addr m' n i = nth_addr m n i"
proof (cases "12 \<le> i")
  case True
  then have "unat (indirect_blocks n) + 8 * (i - 12) + j = unat (indirect_blocks n) + (8 * (i - 12) + j)" for j
    by simp
  moreover have "8 * (i - 12) + j < 4096" if "j < 8" for j using that assms(1) True by simp
  ultimately have "rd64 m' (unat (indirect_blocks n) + 8 * (i - 12)) = rd64 m (unat (indirect_blocks n) + 8 * (i - 12))"
    using assms(2) True by (intro rd64_cong) (simp add: same_block_def add.assoc)
  then show ?thesis using assms(1) True by (simp add: nth_addr_def)
qed (use assms in \<open>simp add: nth_addr_def\<close>)

lemma addrs_kept:
  assumes "file_ok s n" "kept A B s s'" "indirect_blocks n \<notin> B"
  shows "addrs s' n = addrs s n"
  unfolding addrs_def
proof (rule map_cong [OF refl])
  fix i assume i: "i \<in> set [0..<unat (blocks n)]"
  then have "12 \<le> i \<longrightarrow> same_block (dev s) (dev s') (indirect_blocks n)"
    using keptD(5) [OF assms(2)] file_okD(5,7) [OF assms(1)] assms(3) by auto
  then show "nth_addr (dev s') n i = nth_addr (dev s) n i"
    using i file_okD(2) [OF assms(1)] by (intro nth_addr_same) auto
qed

lemma file_ok_kept:
  assumes "file_ok s n" "kept A B s s'" "B \<inter> insert (indirect_blocks n) (set (addrs s n)) = {}"
  shows "file_ok s' n"
proof -
  have a: "addrs s' n = addrs s n" using assms by (intro addrs_kept) auto
  have "owned s' b" if "b \<in> set (addrs s n)" for b
    using that keptD(4) [OF assms(2), of b] file_okD(3) [OF assms(1)] assms(3) by (auto simp: list_all_iff)
  then show ?thesis
    using file_okD [OF assms(1)] a keptD(4) [OF assms(2)] assms(3)
    by (auto simp: file_ok_def list_all_iff)
qed

text \<open>The last steps of the indirect case: the slot is written and the inode committed.\<close>

lemma slot_write:
  fixes v :: u64
  assumes "fsys_ok s" "owned s b" "j < 512"
  defines "s' \<equiv> write_block_addr v b (off_t (of_nat (j * 8))) s"
  shows "kept {} {b} s s'" "free_set s' = free_set s" "owned s' b"
    "\<And>i. i < 512 \<Longrightarrow> rd64 (dev s') (unat b + 8 * i) = (if i = j then v else rd64 (dev s) (unat b + 8 * i))"
proof -
  have o: "off_t (of_nat (j * 8)) = int (j * 8)" using assms(3) by (intro off_t_of_nat) simp
  have s': "s' = s\<lparr>dev := wr64 (dev s) (unat b + j * 8) v, pos := unat b + j * 8 + 8\<rparr>"
    unfolding s'_def o using assms owned_block_ok by (intro write_block_addr_in) (auto dest: fsys_okD)
  have out: "dev s' x = dev s x" if "x < unat b \<or> unat b + 4096 \<le> x" for x
    using that assms(3) by (auto simp: s' addr_simps)
  have io: "only_io s s'" by (simp add: s' only_io_def)
  show "kept {} {b} s s'" "free_set s' = free_set s" "owned s' b"
    using write_kept [OF assms(1,2) io out] by blast+
  fix i assume "i < (512 :: nat)"
  show "rd64 (dev s') (unat b + 8 * i) = (if i = j then v else rd64 (dev s) (unat b + 8 * i))"
  proof (cases "i = j")
    case False
    then have "8 * i + 8 \<le> j * 8 \<or> j * 8 + 8 \<le> 8 * i" by auto
    then show ?thesis using False by (simp add: s' addr_simps)
  qed (simp add: s' mult.commute)
qed

text \<open>What a successful call establishes; \<open>B\<close> are the blocks it took.\<close>

definition appended :: "node \<Rightarrow> u64 \<Rightarrow> fs \<Rightarrow> u64 \<times> node \<times> fs \<Rightarrow> u64 set \<Rightarrow> bool" where
  "appended n a s r B =
     (case r of (b, n', s') \<Rightarrow>
        b \<in> B \<and> B \<subseteq> free_set s \<and> kept {a} {indirect_blocks n} s s' \<and> get_node s' a = n' \<and>
        file_ok s' n' \<and> addrs s' n' = addrs s n @ [b] \<and> free_set s' = free_set s - B \<and>
        (\<exists>ds ib. n' = n\<lparr>direct_blocks := ds, indirect_blocks := ib, blocks := blocks n + 1\<rparr> \<and> (indirect_blocks n \<noteq> 0 \<longrightarrow> ib = indirect_blocks n) \<and>
           (ib = indirect_blocks n \<and> B = {b} \<or> indirect_blocks n = 0 \<and> 12 \<le> unat (blocks n) \<and> B = {b, ib})))"

lemma appendedI:
  assumes "b \<in> B" "B \<subseteq> free_set s" "kept {a} {indirect_blocks n} s s'" "get_node s' a = n'"
    and "file_ok s' n'" "addrs s' n' = addrs s n @ [b]" "free_set s' = free_set s - B"
    and "n' = n\<lparr>direct_blocks := ds, indirect_blocks := ib, blocks := blocks n + 1\<rparr>"
    and "ib = indirect_blocks n \<and> B = {b} \<or> indirect_blocks n = 0 \<and> 12 \<le> unat (blocks n) \<and> B = {b, ib}"
  shows "appended n a s (b, n', s') B"
  unfolding appended_def prod.case using assms by blast

lemma blocks_Suc: "unat (k :: u64) < 524 \<Longrightarrow> unat (k + 1) = Suc (unat k)"
  by (rule Suc_unat_word [of _ 524]) (simp add: word_less_nat_alt)

lemma fresh_not_owned: "b \<in> free_set s \<Longrightarrow> \<not> owned s b"
  by (simp add: owned_def)

lemma kept_ownedD: "kept A B s s' \<Longrightarrow> list_all (owned s) bs \<Longrightarrow> B \<inter> set bs = {} \<Longrightarrow> list_all (owned s') bs"
  using keptD(4) by (fastforce simp: list_all_iff)

lemma add_direct_ok:
  assumes "fsys_ok s" "file_ok s n" "inode_slot s a" "unat (blocks n) < 12" "free_set s \<noteq> {}"
  shows "\<exists>b. appended n a s (add_block_to_node n a s) {b}"
proof -
  obtain b s1 where al: "allocate_block s = (b, s1)" by fastforce
  note k1 = allocate_kept [OF assms(1,5) al] and f = file_okD [OF assms(2)]
  let ?k = "unat (blocks n)"
  let ?n = "n\<lparr>direct_blocks := (direct_blocks n)[?k := b], blocks := blocks n + 1\<rparr>"
  let ?s = "store_node ?n a s1"
  have a0: "a \<noteq> 0" using slot_ok [OF assms(1,3)] by (simp add: node_ok_def)
  have b0: "b \<noteq> 0" using k1(3) by (rule owned_nonzero)
  have bm: "blocks n \<noteq> - 1" "blocks n < 12" using assms(4) by (auto simp: word_less_nat_alt)
  have r: "add_block_to_node n a s = (b, ?n, ?s)"
    using al a0 b0 bm by (simp add: add_block_to_node_def Let_def)
  have wf: "wf_node ?n" using f(1) by (simp add: wf_node_def)
  have sl: "inode_slot s1 a" using inode_slot_only_io [OF keptD(1) [OF k1(1)]] assms(3) by simp
  note st = store_kept [OF keptD(2) [OF k1(1)] sl wf]
  have kt: "kept {a} {} s ?s" using kept_trans [OF k1(1) st(1)] by simp
  have len: "length (direct_blocks n) = 12" using f(1) by (simp add: wf_node_def)
  have Suc: "unat (blocks ?n) = Suc ?k" using blocks_Suc [of "blocks n"] assms(4) by simp
  have nth: "nth_addr (dev ?s) ?n i = (if i = ?k then b else nth_addr (dev s) n i)" if "i < Suc ?k" for i
    using that assms(4) len by (simp add: nth_addr_def nth_list_update)
  have ad: "addrs ?s ?n = addrs s n @ [b]"
    unfolding addrs_def Suc using nth by simp
  have nb: "b \<notin> set (addrs s n)" "b \<noteq> indirect_blocks n \<or> indirect_blocks n = 0"
    using k1(5) f(3,5) by (auto simp: list_all_iff)
  have "list_all (owned ?s) (addrs s n @ [b])"
    using kept_ownedD [OF kt f(3)] keptD(4) [OF st(1) k1(3)] by simp
  then have "file_ok ?s ?n"
    using f(2,4,5,6) nb ad wf keptD(4) [OF kt f(5)] Suc assms(4) by (auto simp: file_ok_def)
  then have "appended n a s (b, ?n, ?s) {b}"
  proof (intro appendedI [where ds = "(direct_blocks n)[?k := b]" and ib = "indirect_blocks n"])
    show "kept {a} {indirect_blocks n} s ?s" using kept_mono [OF kt] by simp
  qed (use k1(2,4) st(2,3) ad in simp_all)
  then show ?thesis unfolding r by blast
qed

text \<open>The indirect case, once the indirect block is there.\<close>

lemma add_indirect_ok:
  assumes "fsys_ok s" "file_ok s n" "inode_slot s a" "12 \<le> unat (blocks n)" "unat (blocks n) < 524"
    and "owned s (indirect_blocks n)" "owned s b" "b \<notin> set (addrs s n)" "b \<noteq> indirect_blocks n"
  defines "n' \<equiv> n\<lparr>blocks := blocks n + 1\<rparr>"
  shows "\<exists>s'. add_indirect b n a s = (b, n', s') \<and> kept {a} {indirect_blocks n} s s' \<and>
    get_node s' a = n' \<and> file_ok s' n' \<and> addrs s' n' = addrs s n @ [b] \<and> free_set s' = free_set s"
proof -
  note f = file_okD [OF assms(2)]
  let ?k = "unat (blocks n)" and ?i = "indirect_blocks n"
  have i0: "?i \<noteq> 0" using assms(6) by (rule owned_nonzero)
  define s1 where "s1 = write_block_addr b ?i (off_t (of_nat ((?k - 12) * 8))) s"
  let ?s = "store_node n' a s1"
  have off: "(blocks n - 12) * 8 = of_nat ((?k - 12) * 8)" using direct_offset [OF assms(4)] by simp
  have r: "add_indirect b n a s = (b, n', ?s)"
    using i0 unfolding add_indirect_def Let_def s1_def n'_def off by simp
  have j: "?k - 12 < 512" using assms(5) by simp
  note w = slot_write [OF assms(1,6) j, where v = b, folded s1_def]
  have wf: "wf_node n'" using f(1) by (simp add: n'_def)
  have sl: "inode_slot s1 a" using inode_slot_only_io [OF keptD(1) [OF w(1)]] assms(3) by simp
  note st = store_kept [OF keptD(2) [OF w(1)] sl wf]
  have kt: "kept {a} {?i} s ?s" using kept_trans [OF w(1) st(1)] by simp
  have Suc: "unat (blocks n') = Suc ?k" using blocks_Suc [OF assms(5)] by (simp add: n'_def)
  have nth: "nth_addr (dev ?s) n' i = (if i = ?k then b else nth_addr (dev s) n i)" if "i < Suc ?k" for i
  proof (cases "i < 12")
    case True
    then show ?thesis using assms(4) by (simp add: nth_addr_def n'_def)
  next
    case False
    then have i: "i - 12 < 512" "12 \<le> i" "i < 524" using that assms(5) by simp_all
    have "rd64 (dev ?s) (unat ?i + 8 * (i - 12)) = rd64 (dev s1) (unat ?i + 8 * (i - 12))"
      using same_block_rd64 [OF keptD(5) [OF st(1) w(3)]] i(1) by simp
    also have "\<dots> = (if i = ?k then b else rd64 (dev s) (unat ?i + 8 * (i - 12)))"
      using w(4) [OF i(1)] i(2) assms(4) by auto
    finally show ?thesis using i by (simp add: nth_addr_def n'_def)
  qed
  have ad: "addrs ?s n' = addrs s n @ [b]"
    unfolding addrs_def Suc using nth by simp
  have own: "owned ?s c" if "owned s c" for c
    using that keptD(4) [OF kt that] keptD(4) [OF st(1) w(3)] by (cases "c = ?i") simp_all
  have "list_all (owned ?s) (addrs s n @ [b])"
    using f(3) own assms(7) by (simp add: list_all_iff)
  then have "file_ok ?s n'"
    using f(4,6) assms(5,6,8,9) ad wf own Suc i0 by (simp add: file_ok_def n'_def)
  then show ?thesis using r kt st(2,3) w(2) ad by auto
qed

lemma add_block_ok:
  assumes "fsys_ok s" "file_ok s n" "inode_slot s a" "unat (blocks n) < 524"
    and "card (free_set s) \<ge> (if 12 \<le> unat (blocks n) \<and> indirect_blocks n = 0 then 2 else 1)"
  shows "\<exists>B. appended n a s (add_block_to_node n a s) B"
proof (cases "unat (blocks n) < 12")
  case True
  have "free_set s \<noteq> {}" using assms(5) True by auto
  then show ?thesis using add_direct_ok [OF assms(1-3) True] by blast
next
  case False
  have ne: "free_set s \<noteq> {}" using assms(5) by (auto split: if_splits)
  obtain b s1 where al: "allocate_block s = (b, s1)" by fastforce
  note k1 = allocate_kept [OF assms(1) ne al] and f = file_okD [OF assms(2)]
  have io1: "only_io s s1" using k1(1) by (rule keptD)
  have a0: "a \<noteq> 0" using slot_ok [OF assms(1,3)] by (simp add: node_ok_def)
  have b0: "b \<noteq> 0" using k1(3) by (rule owned_nonzero)
  have bm: "blocks n \<noteq> - 1" "\<not> blocks n < 12" "blocks n < 12 + ADDRS"
    using assms(4) False by (auto simp: word_less_nat_alt)
  have r: "add_block_to_node n a s = add_indirect b n a s1"
    using al a0 b0 bm by (simp add: add_block_to_node_def Let_def)
  have nb: "b \<notin> set (addrs s n)" "indirect_blocks n \<noteq> 0 \<longrightarrow> b \<noteq> indirect_blocks n"
    using k1(5) f(3,5) by (auto simp: list_all_iff)
  have f1: "file_ok s1 n" "addrs s1 n = addrs s n"
    using file_ok_kept [OF assms(2) k1(1)] addrs_kept [OF assms(2) k1(1)] by simp_all
  have sl: "inode_slot s1 a" using inode_slot_only_io [OF io1] assms(3) by simp
  have k: "12 \<le> unat (blocks n)" using False by simp
  show ?thesis
  proof (cases "indirect_blocks n = 0")
    case False
    have oi: "owned s1 (indirect_blocks n)" using keptD(4) [OF k1(1) f(5) [OF False]] by simp
    obtain s' where s': "add_indirect b n a s1 = (b, n\<lparr>blocks := blocks n + 1\<rparr>, s')"
      "kept {a} {indirect_blocks n} s1 s'" "get_node s' a = n\<lparr>blocks := blocks n + 1\<rparr>"
      "file_ok s' (n\<lparr>blocks := blocks n + 1\<rparr>)" "addrs s' (n\<lparr>blocks := blocks n + 1\<rparr>) = addrs s1 n @ [b]"
      "free_set s' = free_set s1"
      using add_indirect_ok [OF keptD(2) [OF k1(1)] f1(1) sl k assms(4) oi k1(3)] nb f1(2) False by auto
    have "appended n a s (add_indirect b n a s1) {b}"
      unfolding s'(1)
    proof (intro appendedI [where ds = "direct_blocks n" and ib = "indirect_blocks n"])
      show "kept {a} {indirect_blocks n} s s'" using kept_trans [OF k1(1) s'(2)] by simp
    qed (use k1(2,4) s'(3-6) f1(2) in simp_all)
    then show ?thesis unfolding r by blast
  next
    case True
    have "finite (free_set s)" by (rule pool.finite_avail)
    then have "card (free_set s1) \<ge> 1" using assms(5) True k k1(2,4) by (simp add: card_Diff_singleton)
    then have ne1: "free_set s1 \<noteq> {}" by auto
    obtain c s2 where al2: "allocate_block s1 = (c, s2)" by fastforce
    note k2 = allocate_kept [OF keptD(2) [OF k1(1)] ne1 al2]
    have c0: "c \<noteq> 0" using k2(3) by (rule owned_nonzero)
    let ?n = "n\<lparr>indirect_blocks := c\<rparr>"
    let ?s3 = "store_node ?n a s2"
    have k12: "unat (blocks n) = 12" using f(7) k True by fastforce
    have wf: "wf_node ?n" using f(1) by simp
    have sl2: "inode_slot s2 a" using inode_slot_only_io [OF keptD(1) [OF k2(1)]] sl by simp
    note st = store_kept [OF keptD(2) [OF k2(1)] sl2 wf]
    have k13: "kept {a} {} s1 ?s3" using kept_trans [OF k2(1) st(1)] by simp
    have ad3: "addrs ?s3 ?n = addrs s n"
      unfolding addrs_def using k12 by (intro map_cong) (simp_all add: nth_addr_def)
    have nc: "c \<notin> set (addrs s n)" using k2(5) keptD(4) [OF k1(1)] f(3) by (auto simp: list_all_iff)
    have own3: "owned ?s3 x" if "owned s1 x" for x using keptD(4) [OF k13 that] by simp
    have oc: "owned ?s3 c" using keptD(4) [OF st(1) k2(3)] by simp
    have "list_all (owned ?s3) (addrs s n)"
      using f(3) keptD(4) [OF k1(1)] own3 by (auto simp: list_all_iff)
    then have f3: "file_ok ?s3 ?n"
      using f(4) wf k12 ad3 oc nc by (simp add: file_ok_def)
    have sl3: "inode_slot ?s3 a" using inode_slot_only_io [OF keptD(1) [OF k13]] sl by simp
    have bc: "b \<noteq> c" using k1(3) k2(5) by auto
    have body: "add_indirect b n a s1 = add_indirect b ?n a ?s3"
      using True al2 c0 by (simp add: add_indirect_def Let_def)
    obtain s' where s': "add_indirect b ?n a ?s3 = (b, ?n\<lparr>blocks := blocks n + 1\<rparr>, s')"
      "kept {a} {c} ?s3 s'" "get_node s' a = ?n\<lparr>blocks := blocks n + 1\<rparr>"
      "file_ok s' (?n\<lparr>blocks := blocks n + 1\<rparr>)" "addrs s' (?n\<lparr>blocks := blocks n + 1\<rparr>) = addrs ?s3 ?n @ [b]"
      "free_set s' = free_set ?s3"
      using add_indirect_ok [OF keptD(2) [OF k13] f3 sl3, of b] k assms(4) oc own3 [OF k1(3)] nb(1) ad3 bc
      by auto
    have ks: "kept {a} {c} s s'" using kept_trans [OF kept_trans [OF k1(1) k13] s'(2)] by simp
    moreover have "\<not> owned s c"
      using k2(5) keptD(4) [OF k1(1), of c] by auto
    ultimately have "kept {a} {indirect_blocks n} s s'" by (auto simp: kept_def)
    moreover have "free_set s' = free_set s - {b, c}" using s'(6) st(3) k2(4) k1(4) by auto
    moreover have "c \<in> free_set s" using k2(2) k1(4) by auto
    ultimately have "appended n a s (add_indirect b ?n a ?s3) {b, c}"
      unfolding s'(1) by (intro appendedI [where ds = "direct_blocks n" and ib = c]) (use k1(2) s'(3-5) ad3 True k in simp_all)
    then show ?thesis unfolding r body by blast
  qed
qed

section \<open>Running out of blocks\<close>

lemma kept_drop: "kept A (insert b B) s s' \<Longrightarrow> \<not> owned s b \<Longrightarrow> kept A B s s'"
  by (auto simp: kept_def)

lemma allocate_none_kept:
  assumes "fsys_ok s" "free_set s = {}" "allocate_block s = (b, s')"
  shows "b = 0" "kept {} {} s s'" "free_set s' = {}"
proof -
  note f = fsys_okD [OF assms(1)]
  have "heads s = []" using heads_in_free [of "heads s" "dev s"] assms(2) by (auto simp: free_set_def free_blocks_def)
  then have "super s = 0" "8 \<le> devsize s" using f(1) by (auto simp: fl_inv_def fl_ok_def)
  then have s': "b = 0" "s' = s\<lparr>pos := 8\<rparr>" using allocate_block_null [of s] f(3) assms(3) by auto
  then show "b = 0" "kept {} {} s s'" using kept_same_dev [OF assms(1), of s'] by simp_all
  show "free_set s' = {}" using fl_same_dev [of s s'] s'(2) assms(2) by simp
qed

lemma add_block_none:
  assumes "fsys_ok s" "file_ok s n" "inode_slot s a" "unat (blocks n) < 524"
    and "card (free_set s) < (if 12 \<le> unat (blocks n) \<and> indirect_blocks n = 0 then 2 else 1)"
  shows "\<exists>s'. add_block_to_node n a s = (0, n, s') \<and> kept {} {} s s' \<and> free_set s' = free_set s"
proof -
  have a0: "a \<noteq> 0" using slot_ok [OF assms(1,3)] by (simp add: node_ok_def)
  have fin: "finite (free_set s)" by (rule pool.finite_avail)
  obtain b s1 where al: "allocate_block s = (b, s1)" by fastforce
  show ?thesis
  proof (cases "free_set s = {}")
    case True
    note n = allocate_none_kept [OF assms(1) True al]
    then show ?thesis using a0 al True by (simp add: add_block_to_node_def)
  next
    case False
    then have pos: "1 \<le> card (free_set s)" using fin by (simp add: Suc_le_eq card_gt_0_iff)
    then have c: "12 \<le> unat (blocks n)" "indirect_blocks n = 0" "card (free_set s) < 2"
      using assms(5) by (auto split: if_splits)
    have c1: "card (free_set s) = 1" using c(3) pos by linarith
    note k1 = allocate_kept [OF assms(1) False al]
    have b0: "b \<noteq> 0" using k1(3) by (rule owned_nonzero)
    have "card (free_set s1) = 0" using c1 k1(2,4) by (simp add: card_Diff_singleton)
    then have e: "free_set s1 = {}" using fin k1(4) by simp
    obtain x s2 where al2: "allocate_block s1 = (x, s2)" by fastforce
    note k2 = allocate_none_kept [OF keptD(2) [OF k1(1)] e al2]
    obtain r s3 where fr: "free_block (drive s2) b s2 = (r, s3)" by fastforce
    have ob: "owned s2 b" using keptD(4) [OF k2(2) k1(3)] by simp
    note k3 = free_kept [OF keptD(2) [OF k2(2)] ob fr]
    have "kept {} {b} s s3" using kept_trans [OF kept_trans [OF k1(1) k2(2)] k3(1)] by simp
    then have "kept {} {} s s3" using k1(5) by (rule kept_drop)
    moreover have "free_set s3 = free_set s" using k3(3) k2(3) k1(2,4) e by auto
    moreover have "add_block_to_node n a s = (0, n, s3)"
    proof -
      have "blocks n \<noteq> - 1" "\<not> blocks n < 12" "blocks n < 12 + ADDRS"
        using assms(4) c(1) by (auto simp: word_less_nat_alt)
      then show ?thesis
        using a0 al b0 c(2) al2 k2(1) fr
        by (simp add: add_block_to_node_def add_indirect_def Let_def)
    qed
    ultimately show ?thesis by blast
  qed
qed

section \<open>fetch\_block\<close>

lemma fetch_dbl_none:
  "512 dvd i \<Longrightarrow> 261632 \<le> unat off \<Longrightarrow> fetch_dbl i off n buf s = (False, buf, s)"
proof (induction i off n buf s rule: fetch_dbl.induct)
  case (1 i off n buf s)
  show ?case
  proof (cases "i < ADDRS ^ 2")
    case True
    obtain q where q: "i = 512 * q" using "1.prems"(1) by (elim dvdE)
    then have "i \<le> 261632" using True by simp
    then have nl: "\<not> off < of_nat i" using "1.prems"(2) by (simp add: word_less_nat_alt unat_of_nat)
    then have "fetch_dbl (i + ADDRS) off n buf s = (False, buf, s)"
      using "1.prems" True by (intro "1.IH") simp_all
    then show ?thesis using True nl by (subst fetch_dbl.simps) simp
  qed (subst fetch_dbl.simps, simp)
qed

lemma read_whole_in:
  "ok_dev s \<Longrightarrow> block_ok s b \<Longrightarrow> length buf = 4096 \<Longrightarrow>
     read_whole buf b s = (rdbytes (dev s) (unat b) 4096, s\<lparr>pos := unat b + 4096\<rparr>)"
  by (simp add: read_whole_def block_at Let_def)

section \<open>Properties\<close>

text \<open>
  C8. \<^verbatim>\<open>get_i_block\<close> finds the block of every index below \<open>blocks\<close> through the
  inode, the indirect, the double or the triple indirect block, whose tables must be on the
  device, and changes nothing there.
\<close>

theorem get_i_block_finds:
  assumes "ok_dev s" "i < blocks n" "index_ok s n (unat i)"
  shows "\<exists>s'. get_i_block n i s = (nth_addr (dev s) n (unat i), s') \<and> only_io s s' \<and> dev s' = dev s"
  using assms by (rule get_i_block_in)

text \<open>A file whose only double indirect block has one entry, at 12288; the data is at 16384.\<close>

definition dbl_mem :: mem where
  "dbl_mem = wr64 (wr64 (\<lambda>_. 0) 8192 12288) 12296 16384"

theorem get_i_block_finds_witness:
  "fst (get_i_block ((node_of_bytes [])\<lparr>blocks := 526, dbl_indirect := 8192\<rparr>) 525
      (blank_fs 20480\<lparr>dev := dbl_mem\<rparr>)) = 16384"
proof -
  let ?n = "(node_of_bytes [])\<lparr>blocks := 526, dbl_indirect := 8192\<rparr>"
  let ?s = "blank_fs 20480\<lparr>dev := dbl_mem\<rparr>"
  have ok: "ok_dev ?s" by (simp add: ok_dev_def blank_fs_def)
  have m: "rd64 dbl_mem 8192 = 12288" "rd64 dbl_mem 12296 = 16384"
    by (simp_all add: dbl_mem_def addr_simps)
  have "index_ok ?s ?n (unat (525 :: u64))"
    using m by (simp add: index_ok_def dbl_ok_def block_ok_def blank_fs_def)
  moreover have "nth_addr (dev ?s) ?n (unat (525 :: u64)) = 16384"
    using m by (simp add: nth_addr_def dbl_addr_def)
  ultimately show ?thesis using get_i_block_finds [OF ok, of 525 ?n] by auto
qed

lemma get_i_block_file:
  assumes "fsys_ok s" "file_ok s n" "i < unat (blocks n)"
  shows "\<exists>s'. get_i_block n (of_nat i) s = (addrs s n ! i, s') \<and> only_io s s' \<and> dev s' = dev s"
proof -
  have u: "unat (of_nat i :: u64) = i" using assms(3) by (intro unat_of_nat_le [of _ "blocks n"]) simp
  then have "(of_nat i :: u64) < blocks n" using assms(3) by (simp add: word_less_nat_alt)
  then show ?thesis
    using get_i_block_in [of s "of_nat i" n] file_ok_index [OF assms(2,3)] fsys_okD(3) [OF assms(1)] u assms(3)
    by (simp add: addrs_def)
qed

text \<open>
  C4. Within the direct and single indirect range, and while the disk has the blocks it
  needs, \<^verbatim>\<open>add_block_to_node\<close> appends a free block to the file: the inode on the
  device counts it, \<^verbatim>\<open>get_i_block\<close> finds it at the end and every other block where it
  was, and no other inode and no block of another file changes.
\<close>

theorem add_block_appends:
  assumes "fsys_ok s" "file_ok s n" "inode_slot s a" "unat (blocks n) < 524"
    and "card (free_set s) \<ge> (if 12 \<le> unat (blocks n) \<and> indirect_blocks n = 0 then 2 else 1)"
  shows "\<exists>b n' s'. add_block_to_node n a s = (b, n', s') \<and> b \<in> free_set s \<and> b \<notin> free_set s' \<and>
    kept {a} {indirect_blocks n} s s' \<and> get_node s' a = n' \<and> file_ok s' n' \<and>
    blocks n' = blocks n + 1 \<and> n_size n' = n_size n \<and>
    (\<forall>i < unat (blocks n). fst (get_i_block n' (of_nat i) s') = fst (get_i_block n (of_nat i) s)) \<and>
    fst (get_i_block n' (blocks n) s') = b"
proof -
  obtain B where "appended n a s (add_block_to_node n a s) B" using add_block_ok [OF assms] by blast
  moreover obtain b n' s' where r: "add_block_to_node n a s = (b, n', s')" by (metis prod_cases3)
  ultimately have ap: "b \<in> B" "B \<subseteq> free_set s" "kept {a} {indirect_blocks n} s s'" "get_node s' a = n'"
    "file_ok s' n'" "addrs s' n' = addrs s n @ [b]" "free_set s' = free_set s - B"
    and n': "\<exists>ds ib. n' = n\<lparr>direct_blocks := ds, indirect_blocks := ib, blocks := blocks n + 1\<rparr>"
    unfolding appended_def r prod.case by blast+
  have bl: "blocks n' = blocks n + 1" "n_size n' = n_size n" using n' by auto
  have Suc: "unat (blocks n') = Suc (unat (blocks n))" using bl blocks_Suc [OF assms(4)] by simp
  have get': "fst (get_i_block n' (of_nat i) s') = addrs s' n' ! i" if "i < unat (blocks n')" for i
    using get_i_block_file [OF keptD(2) [OF ap(3)] ap(5) that] by auto
  have "fst (get_i_block n' (of_nat i) s') = fst (get_i_block n (of_nat i) s)" if i: "i < unat (blocks n)" for i
  proof -
    have "fst (get_i_block n (of_nat i) s) = addrs s n ! i"
      using get_i_block_file [OF assms(1,2) i] by auto
    then show ?thesis using get' [of i] i ap(6) Suc by (simp add: nth_append)
  qed
  moreover have "fst (get_i_block n' (blocks n) s') = b"
    using get' [of "unat (blocks n)"] ap(6) Suc by (simp add: nth_append)
  ultimately show ?thesis using r ap bl by blast
qed

text \<open>An empty file on the sample disk of 5 blocks.\<close>

lemma sample_fsys: "fsys_ok pool_fs" "file_ok pool_fs (node_of_bytes (replicate 208 0))"
  "inode_slot pool_fs 4096" "card (free_set pool_fs) = 3"
proof -
  have "table_ok pool_fs" using small_table by (simp add: pool_fs_def)
  then show "fsys_ok pool_fs" using pool_fs_inv(1) by (simp add: fsys_ok_def)
  show "file_ok pool_fs (node_of_bytes (replicate 208 0))"
  proof -
    have "blocks (node_of_bytes (replicate 208 0)) = 0" "indirect_blocks (node_of_bytes (replicate 208 0)) = 0"
      by (simp_all add: node_of_bytes_def)
    then show ?thesis by (simp add: file_ok_def addrs_def)
  qed
  show "inode_slot pool_fs 4096" by (simp add: inode_slot_def pool_fs_def small_fs_def)
  show "card (free_set pool_fs) = 3" by (simp add: pool_fs_inv(2))
qed

theorem add_block_appends_witness:
  "\<exists>b n' s'. add_block_to_node (node_of_bytes (replicate 208 0)) 4096 pool_fs = (b, n', s') \<and>
     b \<in> {8192, 12288, 16384} \<and> blocks n' = 1"
proof -
  have z: "blocks (node_of_bytes (replicate 208 0)) = 0" by (simp add: node_of_bytes_def)
  obtain b n' s' where r: "add_block_to_node (node_of_bytes (replicate 208 0)) 4096 pool_fs = (b, n', s')"
    "b \<in> free_set pool_fs" "blocks n' = blocks (node_of_bytes (replicate 208 0)) + 1"
    using add_block_appends [OF sample_fsys(1-3)] z sample_fsys(4) by auto
  then show ?thesis using z pool_fs_inv(2) by simp
qed

text \<open>
  When the disk lacks a block it needs, \<^verbatim>\<open>add_block_to_node\<close> returns 0, leaves
  the caller's inode, every inode and every block in use as they were, and gives back what it
  took.
\<close>

theorem add_block_no_space:
  assumes "fsys_ok s" "file_ok s n" "inode_slot s a" "unat (blocks n) < 524"
    and "card (free_set s) < (if 12 \<le> unat (blocks n) \<and> indirect_blocks n = 0 then 2 else 1)"
  shows "\<exists>s'. add_block_to_node n a s = (0, n, s') \<and> kept {} {} s s' \<and> free_set s' = free_set s"
  using assms by (rule add_block_none)

text \<open>The sample disk when all its blocks are taken.\<close>

definition full_fs :: fs where
  "full_fs = small_fs (\<lambda>_. 0)"

lemma full_fsys: "fsys_ok full_fs" "free_set full_fs = {}" "inode_slot full_fs 4096"
proof -
  have "rd64 (\<lambda>_. 0) 0 = 0"
    by (simp add: rd64_def rdbytes_def map_replicate_const)
  then have "fl_ok full_fs []"
    by (simp add: fl_ok_def full_fs_def small_fs_def super_def free_of_def ok_dev_def)
  then show "fsys_ok full_fs" "free_set full_fs = {}"
    using fl_ok_inv [of full_fs "[]"] small_table by (simp_all add: fsys_ok_def full_fs_def free_of_def)
  show "inode_slot full_fs 4096" by (simp add: inode_slot_def full_fs_def small_fs_def)
qed

theorem add_block_no_space_witness:
  "\<exists>s'. add_block_to_node (node_of_bytes (replicate 208 0)) 4096 full_fs =
     (0, node_of_bytes (replicate 208 0), s')"
proof -
  have z: "blocks (node_of_bytes (replicate 208 0)) = 0" "indirect_blocks (node_of_bytes (replicate 208 0)) = 0"
    by (simp_all add: node_of_bytes_def)
  have "file_ok full_fs (node_of_bytes (replicate 208 0))"
    using z by (simp add: file_ok_def addrs_def)
  from add_block_no_space [OF full_fsys(1) this full_fsys(3)] show ?thesis
    using z full_fsys(2) by auto
qed

text \<open>
  \<^verbatim>\<open>fetch_block\<close> copies the contents of any of the first 524 blocks of a file
  into the caller's buffer.
\<close>

theorem fetch_block_contents:
  assumes "fsys_ok s" "inode_slot s a" "file_ok s (get_node s a)" "i < unat (blocks (get_node s a))"
    and "length buf = BLOCKSIZE"
  shows "\<exists>s'. fetch_block a (of_nat i) buf s =
      Some (True, rdbytes (dev s) (unat (addrs s (get_node s a) ! i)) BLOCKSIZE, s') \<and>
    only_io s s' \<and> dev s' = dev s"
proof -
  let ?n = "get_node s a"
  note f = file_okD [OF assms(3)]
  have ok: "ok_dev s" "node_ok s a" using fsys_okD(3) slot_ok assms(1,2) by blast+
  have a0: "a \<noteq> 0" using ok(2) by (simp add: node_ok_def)
  have i: "i < 524" using f(2) assms(4) by simp
  then have u: "unat (of_nat i :: u64) = i" by (simp add: unat_of_nat)
  have cmp: "\<not> blocks ?n \<le> of_nat i" "of_nat i < (12 :: u64) \<longleftrightarrow> i < 12" "of_nat i < (12 + ADDRS :: u64)"
    using assms(4) i u by (simp_all add: word_le_nat_alt word_less_nat_alt)
  let ?s = "s\<lparr>fresh := Suc (fresh s), pos := unat a + 208\<rparr>"
  have load: "(let (p, s) = uninit_node s in load_node a p s) = (?n, ?s)"
    using ok by (simp add: io_simps get_node_def)
  have own: "owned s (addrs s ?n ! i)" using f(8) [OF assms(4)] assms(4) by (simp add: addrs_def)
  have b: "block_ok s (addrs s ?n ! i)" using own by (rule owned_block_ok)
  have d: "ok_dev ?s" "dev ?s = dev s" "only_io s ?s" using ok by (simp_all add: only_io_def)
  show ?thesis
  proof (cases "i < 12")
    case True
    then have "direct_blocks ?n ! i = addrs s ?n ! i" using assms(4) by (simp add: addrs_def nth_addr_def)
    then show ?thesis
      using a0 load cmp True u b d assms(5)
      by (simp add: fetch_block_def Let_def split_def read_whole_in only_io_def)
  next
    case False
    then have nz: "indirect_blocks ?n \<noteq> 0" using f(7) assms(4) by simp
    have ib: "block_ok s (indirect_blocks ?n)" using f(5) [OF nz] by (rule owned_block_ok)
    have o: "off_t ((of_nat i - 12) * 8) = int ((i - 12) * 8)"
      using False i by (subst direct_offset) (simp_all del: of_nat_mult)
    have "read_block_addr 0 (indirect_blocks ?n) (int ((i - 12) * 8)) ?s =
        (addrs s ?n ! i, ?s\<lparr>pos := unat (indirect_blocks ?n) + (i - 12) * 8 + 8\<rparr>)"
      using ib d i False assms(4)
      by (subst read_block_addr_in) (simp_all add: addrs_def nth_addr_def mult.commute)
    then show ?thesis
      using a0 load cmp False o b d owned_nonzero [OF own] assms(5)
      by (simp add: fetch_block_def fetch_data_def Let_def split_def read_whole_in only_io_def)
  qed
qed


text \<open>The sample disk with a file of one block, 12288, and five bytes at inode 4096.\<close>

definition file_node :: node where
  "file_node = (node_of_bytes (replicate 208 0))
     \<lparr>mode := 0x81A4, n_size := 5, links := 1, blocks := 1, direct_blocks := 12288 # replicate 11 0\<rparr>"

definition file_fs :: fs where
  "file_fs = store_node file_node 4096 taken_fs"

lemma file_fs_ok: "fsys_ok file_fs" "inode_slot file_fs 4096" "get_node file_fs 4096 = file_node"
  "file_ok file_fs file_node" "free_set file_fs = {8192, 16384}"
proof -
  have io: "only_io pool_fs taken_fs"
    using allocate_block_fl [OF pool_fs_inv(1) pool_fs_alloc] by (simp add: taken_fs_def pool_fs_alloc)
  have ok: "fsys_ok taken_fs" "inode_slot taken_fs 4096"
    using sample_fsys taken_fs_inv(1) table_ok_only_io [OF io] inode_slot_only_io [OF io] by (simp_all add: fsys_ok_def)
  have wf: "wf_node file_node" by (simp add: file_node_def)
  note st = store_kept [OF ok wf, folded file_fs_def]
  show "fsys_ok file_fs" "get_node file_fs 4096 = file_node" using st keptD(2) by blast+
  show "free_set file_fs = {8192, 16384}" using st(3) taken_fs_inv(2) by simp
  show "inode_slot file_fs 4096" using ok(2) inode_slot_only_io [OF keptD(1) [OF st(1)]] by simp
  have own: "owned file_fs 12288"
    using taken_fs_inv keptD(4) [OF st(1)] by (simp add: owned_def)
  have "addrs file_fs file_node = [12288]" by (simp add: addrs_def nth_addr_def file_node_def)
  then show "file_ok file_fs file_node"
    using own wf by (simp add: file_ok_def) (simp add: file_node_def node_of_bytes_def)
qed

theorem fetch_block_contents_witness:
  "\<exists>s'. fetch_block 4096 0 (replicate 4096 0) file_fs =
     Some (True, rdbytes (dev file_fs) 12288 4096, s')"
proof -
  have "unat (blocks file_node) = 1" "addrs file_fs file_node = [12288]"
    by (simp_all add: file_node_def addrs_def nth_addr_def)
  then show ?thesis
    using fetch_block_contents [OF file_fs_ok(1,2), of 0 "replicate 4096 0"] file_fs_ok(3,4) by auto
qed

text \<open>
  C9. \<^verbatim>\<open>fetch_block\<close> never returns a block of the last group of the double
  indirect range, the numbers from 262156 to 262667: its loop over the groups ends one
  short, and the result is \<open>NULL\<close> for an inode of any size.
\<close>

theorem fetch_block_misses_last_group:
  assumes "ok_dev s" "node_ok s a" "262156 \<le> i" "i < 262668"
  shows "\<exists>s'. fetch_block a (of_nat i) buf s = Some (False, buf, s') \<and> dev s' = dev s"
proof -
  let ?n = "get_node s a"
  let ?s = "s\<lparr>fresh := Suc (fresh s), pos := unat a + 208\<rparr>"
  have a0: "a \<noteq> 0" using assms(2) by (simp add: node_ok_def)
  have load: "(let (p, s) = uninit_node s in load_node a p s) = (?n, ?s)"
    using assms(1,2) by (simp add: io_simps get_node_def)
  have u: "unat (of_nat i :: u64) = i" using assms(4) by (simp add: unat_of_nat)
  have cmp: "\<not> of_nat i < (12 :: u64)" "\<not> of_nat i < (12 + ADDRS :: u64)" "of_nat i < (12 + ADDRS + ADDRS ^ 2 :: u64)"
    using assms(3,4) u by (simp_all add: word_less_nat_alt)
  have "of_nat i - 12 - ADDRS = (of_nat (i - 524) :: u64)" using assms(3) by (simp add: of_nat_diff)
  moreover have "unat (of_nat (i - 524) :: u64) = i - 524" using assms(4) by (simp add: unat_of_nat)
  ultimately have "fetch_dbl 0 (of_nat i - 12 - ADDRS) ?n buf ?s = (False, buf, ?s)"
    using assms(3) by (intro fetch_dbl_none) simp_all
  then show ?thesis
    using a0 load cmp by (simp add: fetch_block_def Let_def split_def)
qed

theorem fetch_block_misses_last_group_witness:
  "\<exists>s'. fetch_block 4096 262667 [] pool_fs = Some (False, [], s')"
proof -
  have "ok_dev pool_fs" "node_ok pool_fs 4096"
    using fsys_okD(3) slot_ok sample_fsys(1,3) by blast+
  from fetch_block_misses_last_group [OF this, of 262667 "[]"] show ?thesis by auto
qed

end
