(* ===== verification/Directory.thy ===== *)
theory Directory
  imports Block_Map
begin

text \<open>
  Directories (\<^verbatim>\<open>tyrant_help.c\<close>): a directory is a file of 256-byte slots, 248
  bytes of name and an inode address. \<^verbatim>\<open>add_addr\<close> and
  \<^verbatim>\<open>add_to_directory\<close> enter a name, \<^verbatim>\<open>check_block\<close> and its three
  indirect forms look one up, \<^verbatim>\<open>remove_link_from_parent\<close> and
  \<^verbatim>\<open>rename_from_parent\<close> find an entry by its address and remove or rename it.

  Names are C strings, given as the bytes before the terminating zero. A copy past the end of
  an array, a comparison that reads past one and an overflow of \<open>int\<close> are undefined in C: the
  result is then \<open>None\<close>.
\<close>

abbreviation "NAME_LENGTH \<equiv> 248"

section \<open>Entering a name\<close>

text \<open>The loop of \<^verbatim>\<open>add_addr\<close> over the slots of the block.\<close>

function add_addr_loop ::
  "nat \<Rightarrow> u8 \<Rightarrow> bytes \<Rightarrow> node \<Rightarrow> node \<Rightarrow> u64 \<Rightarrow> u64 \<Rightarrow> u64 \<Rightarrow> fs \<Rightarrow> int \<times> fs" where
  "add_addr_loop i empty_space temp parent_node addr_node parent block addr s =
     (if i < BLOCKSIZE then
        let (b, s) = read_block_arr [empty_space] block (int i) s;
            empty_space = hd b
        in if empty_space = 0 then
             let s = write_block_arr temp block (int i) s;
                 s = write_block_addr addr block (int i + NAME_BOUNDARY - ADDR_LENGTH) s;
                 parent_node = parent_node\<lparr>n_size := n_size parent_node + NAME_BOUNDARY\<rparr>;
                 addr_node = addr_node\<lparr>links := links addr_node + 1\<rparr>;
                 (t, s) = get_current_time_in_nsec s;
                 parent_node = parent_node\<lparr>data_time := t\<rparr>;
                 parent_node = parent_node\<lparr>change_time := data_time parent_node\<rparr>;
                 addr_node = addr_node\<lparr>change_time := data_time parent_node\<rparr>;
                 s = store_node parent_node parent s;
                 s = store_node addr_node addr s
             in (0, s)
           else add_addr_loop (i + NAME_BOUNDARY) empty_space temp parent_node addr_node parent block addr s
      else (-1, s))"
  by pat_completeness auto
termination
  by (relation "measure (\<lambda>(i, _). BLOCKSIZE - i)") auto

declare add_addr_loop.simps [simp del]

text \<open>\<open>strcpy(dst, src)\<close> into an array: \<open>None\<close> when the string does not fit.\<close>

definition strcpy :: "bytes \<Rightarrow> bytes \<Rightarrow> bytes option" where
  "strcpy dst src = (if length src < length dst then Some (patch dst (src @ [0])) else None)"

definition add_addr :: "u64 \<Rightarrow> u64 \<Rightarrow> u64 \<Rightarrow> bytes \<Rightarrow> fs \<Rightarrow> (int \<times> fs) option" where
  "add_addr parent block addr name s =
     (if block = 0 \<or> parent = 0 \<or> addr = 0 then Some (-1, s)
      else do {
        let (temp, s) = uninit NAME_LENGTH s;
        let (addr_node, s) = uninit_node s;
        let (parent_node, s) = uninit_node s;
        let (parent_node, s) = load_node parent parent_node s;
        let (addr_node, s) = load_node addr addr_node s;
        temp \<leftarrow> strcpy temp name;
        Some (add_addr_loop 0 0 temp parent_node addr_node parent block addr s)
      })"

definition add_to_directory :: "u64 \<Rightarrow> u64 \<Rightarrow> bytes \<Rightarrow> fs \<Rightarrow> (int \<times> fs) option" where
  "add_to_directory parent child name s =
     (if parent = 0 \<or> child = 0 then Some (-1, s)
      else
        let (parent_node, s) = uninit_node s;
            (child_node, s) = uninit_node s;
            (parent_node, s) = load_node parent parent_node s;
            (child_node, s) = load_node child child_node s
        in if n_size parent_node mod BLOCKSIZE = 0 then
             let (block, parent_node, s) = add_block_to_node parent_node parent s
             in if block = 0 then Some (-1, s)
                else let s = write_block_arr (replicate BLOCKSIZE 0) block 0 s
                     in add_addr parent block child name s
           else
             let (block, s) = get_i_block parent_node (blocks parent_node - 1) s
             in add_addr parent block child name s)"

section \<open>Looking a name up\<close>

text \<open>
  \<^verbatim>\<open>check_block\<close>: the names are copied into \<open>tmp_name[249]\<close>, whose last byte is
  never set, and compared with \<^verbatim>\<open>strcmp\<close>.
\<close>

function check_block_loop :: "nat \<Rightarrow> bytes \<Rightarrow> bytes \<Rightarrow> bytes \<Rightarrow> u64 option" where
  "check_block_loop i tmp_name block name =
     (if i < BLOCKSIZE then
        let tmp_name = patch tmp_name (take NAME_LENGTH (drop i block))
        in (case streq tmp_name name of
              None \<Rightarrow> None
            | Some True \<Rightarrow> Some (of_le (take ADDR_LENGTH (drop (i + NAME_BOUNDARY - ADDR_LENGTH) block)))
            | Some False \<Rightarrow> check_block_loop (i + NAME_BOUNDARY) tmp_name block name)
      else Some 0)"
  by pat_completeness auto
termination
  by (relation "measure (\<lambda>(i, _). BLOCKSIZE - i)") auto

declare check_block_loop.simps [simp del]

definition check_block :: "bytes \<Rightarrow> bytes \<Rightarrow> fs \<Rightarrow> (u64 \<times> fs) option" where
  "check_block block name s =
     (let (tmp_name, s) = uninit (NAME_LENGTH + 1) s
      in (case check_block_loop 0 tmp_name block name of
            None \<Rightarrow> None | Some a \<Rightarrow> Some (a, s)))"

text \<open>The indirect forms: the address block, the count of blocks left and the last block read.\<close>

text \<open>\<open>lseek\<close> and a \<open>read\<close> of one block into a buffer.\<close>

definition read_at :: "u64 \<Rightarrow> bytes \<Rightarrow> fs \<Rightarrow> bytes \<times> fs" where
  "read_at a buf s =
     (let s = seek_to (drive s) a s;
          (r, bs, s) = sys_read (drive s) BLOCKSIZE s
      in (patch buf bs, s))"

definition addr_at :: "bytes \<Rightarrow> nat \<Rightarrow> u64" where
  "addr_at block i = of_le (take ADDR_LENGTH (drop i block))"

function check_indirect_loop ::
  "nat \<Rightarrow> bytes \<Rightarrow> bytes \<Rightarrow> bytes \<Rightarrow> u64 \<Rightarrow> fs \<Rightarrow> (u64 \<times> u64 \<times> fs) option" where
  "check_indirect_loop i data_blk block name block_count s =
     (if i < BLOCKSIZE then
        if block_count = 0 then Some (0, block_count, s)
        else
          let block_count = block_count - 1;
              block_addr = addr_at block i;
              (data_blk, s) = read_at block_addr data_blk s
          in (case check_block data_blk name s of
                None \<Rightarrow> None
              | Some (tmp_node, s) \<Rightarrow>
                  if tmp_node \<noteq> 0 then Some (tmp_node, block_count, s)
                  else check_indirect_loop (i + ADDR_LENGTH) data_blk block name block_count s)
      else Some (0, block_count, s))"
  by pat_completeness auto
termination
  by (relation "measure (\<lambda>(i, _). BLOCKSIZE - i)") auto

declare check_indirect_loop.simps [simp del]

definition check_indirect_blk :: "bytes \<Rightarrow> bytes \<Rightarrow> u64 \<Rightarrow> fs \<Rightarrow> (u64 \<times> u64 \<times> fs) option" where
  "check_indirect_blk block name block_count s =
     (let (data_blk, s) = uninit BLOCKSIZE s
      in check_indirect_loop 0 data_blk block name block_count s)"

function check_dbl_indirect_loop ::
  "nat \<Rightarrow> bytes \<Rightarrow> bytes \<Rightarrow> bytes \<Rightarrow> u64 \<Rightarrow> fs \<Rightarrow> (u64 \<times> u64 \<times> fs) option" where
  "check_dbl_indirect_loop i data_blk block name block_count s =
     (if i < BLOCKSIZE then
        if block_count = 0 then Some (0, block_count, s)
        else
          let block_addr = addr_at block i;
              (data_blk, s) = read_at block_addr data_blk s
          in (case check_indirect_blk data_blk name block_count s of
                None \<Rightarrow> None
              | Some (tmp_node, block_count, s) \<Rightarrow>
                  if tmp_node \<noteq> 0 then Some (tmp_node, block_count, s)
                  else check_dbl_indirect_loop (i + ADDR_LENGTH) data_blk block name block_count s)
      else Some (0, block_count, s))"
  by pat_completeness auto
termination
  by (relation "measure (\<lambda>(i, _). BLOCKSIZE - i)") auto

declare check_dbl_indirect_loop.simps [simp del]

definition check_dbl_indirect_blk :: "bytes \<Rightarrow> bytes \<Rightarrow> u64 \<Rightarrow> fs \<Rightarrow> (u64 \<times> u64 \<times> fs) option" where
  "check_dbl_indirect_blk block name block_count s =
     (let (data_blk, s) = uninit BLOCKSIZE s
      in check_dbl_indirect_loop 0 data_blk block name block_count s)"

function check_trpl_indirect_loop ::
  "nat \<Rightarrow> bytes \<Rightarrow> bytes \<Rightarrow> bytes \<Rightarrow> u64 \<Rightarrow> fs \<Rightarrow> (u64 \<times> u64 \<times> fs) option" where
  "check_trpl_indirect_loop i data_blk block name block_count s =
     (if i < BLOCKSIZE then
        if block_count = 0 then Some (0, block_count, s)
        else
          let block_addr = addr_at block i;
              (data_blk, s) = read_at block_addr data_blk s
          in (case check_dbl_indirect_blk data_blk name block_count s of
                None \<Rightarrow> None
              | Some (tmp_node, block_count, s) \<Rightarrow>
                  if tmp_node \<noteq> 0 then Some (tmp_node, block_count, s)
                  else check_trpl_indirect_loop (i + ADDR_LENGTH) data_blk block name block_count s)
      else Some (0, block_count, s))"
  by pat_completeness auto
termination
  by (relation "measure (\<lambda>(i, _). BLOCKSIZE - i)") auto

declare check_trpl_indirect_loop.simps [simp del]

definition check_trpl_indirect_blk :: "bytes \<Rightarrow> bytes \<Rightarrow> u64 \<Rightarrow> fs \<Rightarrow> (u64 \<times> u64 \<times> fs) option" where
  "check_trpl_indirect_blk block name block_count s =
     (let (data_blk, s) = uninit BLOCKSIZE s
      in check_trpl_indirect_loop 0 data_blk block name block_count s)"

section \<open>Finding an entry by its address\<close>

text \<open>
  The two nested loops that \<^verbatim>\<open>remove_link_from_parent\<close> and
  \<^verbatim>\<open>rename_from_parent\<close> share; the result is the block, its number and the offset
  in it where the body is entered. The counters are \<open>int\<close>s.
\<close>

function find_in_block ::
  "nat \<Rightarrow> nat \<Rightarrow> u64 \<Rightarrow> u64 \<Rightarrow> u64 \<Rightarrow> u64 \<Rightarrow> fs \<Rightarrow> (nat option \<times> u64 \<times> fs) option" where
  "find_in_block j i block child cur_node sz s =
     (if j < BLOCKSIZE then
        if 2 ^ 31 \<le> j + i * BLOCKSIZE then None
        else if of_nat (j + i * BLOCKSIZE) < sz then
          let (child, s) = read_block_addr child block (int j + NAME_BOUNDARY - ADDR_LENGTH) s
          in if child = cur_node then Some (Some j, child, s)
             else find_in_block (j + NAME_BOUNDARY) i block child cur_node sz s
        else Some (None, child, s)
      else Some (None, child, s))"
  by pat_completeness auto
termination
  by (relation "measure (\<lambda>(j, _). BLOCKSIZE - j)") auto

declare find_in_block.simps [simp del]

function find_link ::
  "nat \<Rightarrow> u64 \<Rightarrow> u64 \<Rightarrow> node \<Rightarrow> fs \<Rightarrow> ((u64 \<times> nat \<times> nat) option \<times> fs) option" where
  "find_link i child cur_node parent_node s =
     (if i < unat (blocks parent_node) then
        let (block, s) = get_i_block parent_node (of_nat i) s
        in if block = 0 then Some (None, s)
           else (case find_in_block 0 i block child cur_node (n_size parent_node) s of
                   None \<Rightarrow> None
                 | Some (Some j, child, s) \<Rightarrow> Some (Some (block, i, j), s)
                 | Some (None, child, s) \<Rightarrow> find_link (i + 1) child cur_node parent_node s)
      else Some (None, s))"
  by pat_completeness auto
termination
  by (relation "measure (\<lambda>(i, c, n, p, s). unat (blocks p) - i)") auto

declare find_link.simps [simp del]

section \<open>Removing and renaming an entry\<close>

text \<open>The last entry is moved into the slot that was emptied, unless they are the same.\<close>

definition move_last_entry :: "u64 \<Rightarrow> nat \<Rightarrow> nat \<Rightarrow> u64 \<Rightarrow> bytes \<Rightarrow> node \<Rightarrow> fs \<Rightarrow> fs" where
  "move_last_entry block i j last_block entry_data parent_node s =
     (if of_nat (j + i * BLOCKSIZE) \<noteq> n_size parent_node - NAME_BOUNDARY then
        let name_slot = replicate NAME_BOUNDARY 0;
            offset = off_t (n_size parent_node mod BLOCKSIZE - NAME_BOUNDARY);
            (entry_data, s) = read_block_arr entry_data last_block offset s;
            s = write_block_arr entry_data block (int j) s
        in write_block_arr name_slot last_block offset s
      else s)"

text \<open>The directory shrinks by a slot, and by a block when its last one is empty.\<close>

definition drop_last_slot :: "u64 \<Rightarrow> node \<Rightarrow> u64 \<Rightarrow> fs \<Rightarrow> fs" where
  "drop_last_slot last_block parent_node parent s =
     (let parent_node = parent_node\<lparr>n_size := n_size parent_node - NAME_BOUNDARY\<rparr>;
          (parent_node, s) =
            (if n_size parent_node mod BLOCKSIZE = 0 then
               let (r, s) = free_block (drive s) last_block s
               in (parent_node\<lparr>blocks := blocks parent_node - 1\<rparr>, s)
             else (parent_node, s));
          (t, s) = get_current_time_in_nsec s;
          parent_node = parent_node\<lparr>data_time := t\<rparr>;
          parent_node = parent_node\<lparr>change_time := data_time parent_node\<rparr>
      in store_node parent_node parent s)"

definition remove_entry :: "u64 \<Rightarrow> nat \<Rightarrow> nat \<Rightarrow> bytes \<Rightarrow> node \<Rightarrow> u64 \<Rightarrow> fs \<Rightarrow> int \<times> fs" where
  "remove_entry block i j entry_data parent_node parent s =
     (let name_slot = replicate NAME_BOUNDARY 0;
          s = write_block_arr name_slot block (int j) s;
          (last_block, s) = get_i_block parent_node (blocks parent_node - 1) s
      in if last_block = 0 then (-1, s)
         else
           let s = move_last_entry block i j last_block entry_data parent_node s;
               s = drop_last_slot last_block parent_node parent s
           in (0, s))"

definition remove_link_from_parent :: "u64 \<Rightarrow> u64 \<Rightarrow> fs \<Rightarrow> (int \<times> fs) option" where
  "remove_link_from_parent parent cur_node s =
     (if parent = 0 then Some (-1, s)
      else if cur_node = 0 then Some (-1, s)
      else
        let (entry_data, s) = uninit NAME_BOUNDARY s;
            (parent_node, s) = uninit_node s;
            (parent_node, s) = load_node parent parent_node s
        in (case find_link 0 0 cur_node parent_node s of
              None \<Rightarrow> None
            | Some (None, s) \<Rightarrow> Some (-1, s)
            | Some (Some (block, i, j), s) \<Rightarrow>
                Some (remove_entry block i j entry_data parent_node parent s)))"

definition rename_entry :: "u64 \<Rightarrow> nat \<Rightarrow> bytes \<Rightarrow> node \<Rightarrow> u64 \<Rightarrow> fs \<Rightarrow> int \<times> fs" where
  "rename_entry block j new_name parent_node parent s =
     (let name_slot = replicate NAME_LENGTH 0;
          s = write_block_arr name_slot block (int j) s;
          name_size = min (length new_name) NAME_LENGTH;
          s = write_block_arr (take name_size (new_name @ [0])) block (int j) s;
          (name_slot, s) = read_block_arr name_slot block (int j) s;
          (t, s) = get_current_time_in_nsec s;
          parent_node = parent_node\<lparr>data_time := t\<rparr>;
          parent_node = parent_node\<lparr>change_time := data_time parent_node\<rparr>;
          s = store_node parent_node parent s
      in (0, s))"

definition rename_from_parent :: "u64 \<Rightarrow> u64 \<Rightarrow> bytes \<Rightarrow> fs \<Rightarrow> (int \<times> fs) option" where
  "rename_from_parent parent cur_node new_name s =
     (if parent = 0 then Some (-1, s)
      else if cur_node = 0 then Some (-1, s)
      else
        let (parent_node, s) = uninit_node s;
            (parent_node, s) = load_node parent parent_node s
        in (case find_link 0 0 cur_node parent_node s of
              None \<Rightarrow> None
            | Some (None, s) \<Rightarrow> Some (-1, s)
            | Some (Some (block, i, j), s) \<Rightarrow>
                Some (rename_entry block j new_name parent_node parent s)))"

section \<open>Slots and entries\<close>

text \<open>The entry in the 256 bytes at an address, and a slot that is in use: it has a name.\<close>

definition ent :: "mem \<Rightarrow> nat \<Rightarrow> bytes \<times> u64" where
  "ent m p = (cstr (rdbytes m p 248), rd64 m (p + 248))"

definition valid_ent :: "mem \<Rightarrow> nat \<Rightarrow> bool" where
  "valid_ent m p \<longleftrightarrow> m p \<noteq> 0 \<and> 0 \<in> set (rdbytes m p 248)"

definition slot :: "fs \<Rightarrow> node \<Rightarrow> nat \<Rightarrow> nat" where
  "slot s n i = unat (addrs s n ! (i div 16)) + 256 * (i mod 16)"

definition entry_count :: "node \<Rightarrow> nat" where
  "entry_count n = unat (n_size n) div 256"

definition entries :: "fs \<Rightarrow> node \<Rightarrow> (bytes \<times> u64) list" where
  "entries s n = map (\<lambda>i. ent (dev s) (slot s n i)) [0..<entry_count n]"

text \<open>
  A directory: just enough blocks for its entries, every entry in use, and the slots after
  the last one empty. The address in an entry may be 0, as that of \<open>..\<close> is in a directory made by
  \<^verbatim>\<open>tfs_mkdir\<close>.
\<close>

definition dir_ok :: "fs \<Rightarrow> node \<Rightarrow> bool" where
  "dir_ok s n \<longleftrightarrow>
     file_ok s n \<and> unat (n_size n) = 256 * entry_count n \<and>
     unat (blocks n) = (entry_count n + 15) div 16 \<and>
     (\<forall>i < entry_count n. valid_ent (dev s) (slot s n i)) \<and>
     (\<forall>i. entry_count n \<le> i \<and> i < 16 * unat (blocks n) \<longrightarrow> dev s (slot s n i) = 0)"

lemma dir_okD:
  assumes "dir_ok s n"
  shows "file_ok s n" "unat (n_size n) = 256 * entry_count n"
    and "unat (blocks n) = (entry_count n + 15) div 16"
    and "\<And>i. i < entry_count n \<Longrightarrow> valid_ent (dev s) (slot s n i)"
    and "\<And>i. entry_count n \<le> i \<Longrightarrow> i < 16 * unat (blocks n) \<Longrightarrow> dev s (slot s n i) = 0"
    and "entry_count n \<le> 16 * unat (blocks n)"
proof -
  show "file_ok s n" "unat (n_size n) = 256 * entry_count n"
    "unat (blocks n) = (entry_count n + 15) div 16"
    "\<And>i. i < entry_count n \<Longrightarrow> valid_ent (dev s) (slot s n i)"
    "\<And>i. entry_count n \<le> i \<Longrightarrow> i < 16 * unat (blocks n) \<Longrightarrow> dev s (slot s n i) = 0"
    using assms by (simp_all add: dir_ok_def)
  show "entry_count n \<le> 16 * unat (blocks n)"
    using \<open>unat (blocks n) = _\<close> by linarith
qed

lemma length_entries [simp]: "length (entries s n) = entry_count n"
  by (simp add: entries_def)

lemma addrs_cong:
  assumes "blocks n' = blocks n" "direct_blocks n' = direct_blocks n" "indirect_blocks n' = indirect_blocks n"
    and "dbl_indirect n' = dbl_indirect n" "trpl_indirect n' = trpl_indirect n"
  shows "addrs s n' = addrs s n"
  using assms by (simp add: addrs_def nth_addr_def)

lemma file_ok_cong:
  assumes "blocks n' = blocks n" "direct_blocks n' = direct_blocks n" "indirect_blocks n' = indirect_blocks n"
    and "dbl_indirect n' = dbl_indirect n" "trpl_indirect n' = trpl_indirect n"
  shows "file_ok s n' = file_ok s n"
  using addrs_cong [OF assms, of s] assms by (simp add: file_ok_def wf_node_def)

lemma ent_same:
  assumes "\<And>x. p \<le> x \<Longrightarrow> x < p + 256 \<Longrightarrow> m' x = m x"
  shows "ent m' p = ent m p" "valid_ent m' p = valid_ent m p"
proof -
  have "rdbytes m' p 248 = rdbytes m p 248" using assms by (intro rdbytes_cong) simp
  moreover have "rd64 m' (p + 248) = rd64 m (p + 248)" using assms by (intro rd64_cong) simp
  moreover have "m' p = m p" using assms by simp
  ultimately show "ent m' p = ent m p" "valid_ent m' p = valid_ent m p"
    by (simp_all add: ent_def valid_ent_def)
qed

lemma slot_block:
  assumes "file_ok s n" "i < 16 * unat (blocks n)"
  shows "owned s (addrs s n ! (i div 16))" "addrs s n ! (i div 16) \<in> set (addrs s n)"
    "unat (addrs s n ! (i div 16)) \<le> slot s n i"
    "slot s n i + 256 \<le> unat (addrs s n ! (i div 16)) + 4096"
proof -
  have i: "i div 16 < unat (blocks n)" using assms(2) by (simp add: less_mult_imp_div_less mult.commute)
  then show "addrs s n ! (i div 16) \<in> set (addrs s n)" by simp
  then show "owned s (addrs s n ! (i div 16))" using file_okD(3) [OF assms(1)] by (simp add: list_all_iff)
  have "i mod 16 \<le> 15" using mod_less_divisor [of 16 i] by linarith
  then show "unat (addrs s n ! (i div 16)) \<le> slot s n i"
    "slot s n i + 256 \<le> unat (addrs s n ! (i div 16)) + 4096"
    by (simp_all add: slot_def)
qed

text \<open>Blocks that are kept keep their slots.\<close>

lemma slot_same:
  assumes "file_ok s n" "i < 16 * unat (blocks n)"
    and "same_block (dev s) (dev s') (addrs s n ! (i div 16))"
    and "slot s n i \<le> x" "x < slot s n i + 256"
  shows "dev s' x = dev s x"
proof -
  let ?b = "unat (addrs s n ! (i div 16))"
  have "?b \<le> x" "x < ?b + 4096" using slot_block [OF assms(1,2)] assms(4,5) by simp_all
  then have "x - ?b < 4096" by simp
  then have "dev s (?b + (x - ?b)) = dev s' (?b + (x - ?b))"
    using assms(3) unfolding same_block_def by blast
  then show ?thesis using \<open>?b \<le> x\<close> by simp
qed

section \<open>Looking up in a block\<close>

lemma find_map_eq: "find P (map f xs) = map_option f (find (\<lambda>x. P (f x)) xs)"
  by (induction xs) auto

lemma cstr_append_terminated: "0 \<in> set xs \<Longrightarrow> cstr (xs @ ys) = cstr xs"
  by (simp add: cstr_def takeWhile_append1)

lemma check_block_loop_finds:
  assumes "length tmp = 249" "length blk = 4096" "wf_name name" "k \<le> 16"
    and "\<And>j. k \<le> j \<Longrightarrow> j < 16 \<Longrightarrow> 0 \<in> set (take 248 (drop (256 * j) blk))"
  shows "check_block_loop (256 * k) tmp blk name =
    Some (case find (\<lambda>j. cstr (take 248 (drop (256 * j) blk)) = name) [k..<16] of
            None \<Rightarrow> 0 | Some j \<Rightarrow> addr_at blk (256 * j + 248))"
  using assms
proof (induction "16 - k" arbitrary: k tmp)
  case 0
  then show ?case by (subst check_block_loop.simps) simp
next
  case (Suc x)
  then have k: "k < 16" by simp
  let ?nm = "take 248 (drop (256 * k) blk)"
  let ?tmp = "patch tmp ?nm"
  have len: "length ?nm = 248" using Suc.prems(2) k by simp
  then have tmp: "length ?tmp = 249" using Suc.prems(1) by simp
  have z: "0 \<in> set ?nm" using Suc.prems(5) k by simp
  then have "streq ?tmp name = Some (cstr ?nm = name)"
    using streq_terminated [of ?tmp name] Suc.prems(3) cstr_append_terminated [OF z]
    by (simp add: patch_def)
  moreover have up: "[k..<16] = k # [Suc k..<16]" using k by (rule upt_conv_Cons)
  moreover have "check_block_loop (256 * Suc k) ?tmp blk name =
      Some (case find (\<lambda>j. cstr (take 248 (drop (256 * j) blk)) = name) [Suc k..<16] of
              None \<Rightarrow> 0 | Some j \<Rightarrow> addr_at blk (256 * j + 248))"
    using Suc.hyps(2) Suc.prems tmp k by (intro Suc.hyps(1)) simp_all
  ultimately show ?case
    using k by (subst check_block_loop.simps) (simp add: Let_def addr_at_def add.commute)
qed

text \<open>The same on a block of the device.\<close>

lemma check_block_device:
  assumes "wf_name name" "\<And>j. j < 16 \<Longrightarrow> 0 \<in> set (rdbytes m (b + 256 * j) 248)"
  shows "\<exists>s'. check_block (rdbytes m b 4096) name s =
      Some (case find (\<lambda>e. fst e = name) (map (\<lambda>j. ent m (b + 256 * j)) [0..<16]) of
              None \<Rightarrow> 0 | Some e \<Rightarrow> snd e, s') \<and> only_io s s' \<and> dev s' = dev s"
proof -
  let ?blk = "rdbytes m b 4096"
  have sl: "take 248 (drop (256 * j) ?blk) = rdbytes m (b + 256 * j) 248" if "j < 16" for j
    using that by (simp add: take_drop_rdbytes)
  have ad: "addr_at ?blk (256 * j + 248) = rd64 m (b + 256 * j + 248)" if "j < 16" for j
    using that by (simp add: addr_at_def take_drop_rdbytes rd64_def add.assoc)
  have "check_block_loop (256 * 0) tmp ?blk name =
      Some (case find (\<lambda>j. cstr (take 248 (drop (256 * j) ?blk)) = name) [0..<16] of
              None \<Rightarrow> 0 | Some j \<Rightarrow> addr_at ?blk (256 * j + 248))" if "length tmp = 249" for tmp
    using that assms sl by (intro check_block_loop_finds) simp_all
  moreover have "find (\<lambda>j. cstr (take 248 (drop (256 * j) ?blk)) = name) [0..<16] =
      find (\<lambda>j. cstr (rdbytes m (b + 256 * j) 248) = name) [0..<16]"
    using sl by (intro find_cong) auto
  moreover have "(case find (\<lambda>j. cstr (rdbytes m (b + 256 * j) 248) = name) [0..<16] of
      None \<Rightarrow> 0 | Some j \<Rightarrow> addr_at ?blk (256 * j + 248)) =
    (case find (\<lambda>e. fst e = name) (map (\<lambda>j. ent m (b + 256 * j)) [0..<16]) of None \<Rightarrow> 0 | Some e \<Rightarrow> snd e)"
  proof (cases "find (\<lambda>j. cstr (rdbytes m (b + 256 * j) 248) = name) [0..<16]")
    case (Some j)
    then have "j < 16" by (auto simp: find_Some_iff)
    then show ?thesis using Some ad by (simp add: find_map_eq ent_def)
  qed (simp add: find_map_eq ent_def)
  ultimately show ?thesis by (simp add: check_block_def uninit_def)
qed

section \<open>Entering a name in a block\<close>

lemma add_addr_loop_skip:
  assumes "ok_dev s" "block_ok s b" "k < 16" "dev s (unat b + 256 * k) \<noteq> 0"
  shows "add_addr_loop (256 * k) e temp pn an p b c s =
    add_addr_loop (256 * Suc k) (dev s (unat b + 256 * k)) temp pn an p b c (s\<lparr>pos := unat b + 256 * k + 1\<rparr>)"
proof -
  have "read_block_arr [e] b (int (256 * k)) s =
      (rdbytes (dev s) (unat b + 256 * k) 1, s\<lparr>pos := unat b + 256 * k + 1\<rparr>)"
    using assms(1-3) read_block_arr_in [of s b "256 * k" "[e]"] by simp
  then show ?thesis
    using assms(3,4) by (subst add_addr_loop.simps) (simp add: rdbytes_def add.commute)
qed

lemma add_addr_loop_run:
  assumes "ok_dev s" "block_ok s b" "k \<le> q" "q \<le> 16" "\<And>j. k \<le> j \<Longrightarrow> j < q \<Longrightarrow> dev s (unat b + 256 * j) \<noteq> 0"
  shows "\<exists>e' x. add_addr_loop (256 * k) e temp pn an p b c s =
    add_addr_loop (256 * q) e' temp pn an p b c (s\<lparr>pos := x\<rparr>)"
  using assms
proof (induction "q - k" arbitrary: k e s)
  case 0
  then have "q = k" by simp
  then show ?case by (intro exI [of _ e] exI [of _ "pos s"]) simp
next
  case (Suc y)
  let ?s = "s\<lparr>pos := unat b + 256 * k + 1\<rparr>"
  have k: "k < q" "k < 16" using Suc by simp_all
  have "\<exists>e' x. add_addr_loop (256 * Suc k) (dev s (unat b + 256 * k)) temp pn an p b c ?s =
      add_addr_loop (256 * q) e' temp pn an p b c (?s\<lparr>pos := x\<rparr>)"
    using Suc.hyps(2) Suc.prems k by (intro Suc.hyps(1)) simp_all
  then show ?case
    using add_addr_loop_skip [OF Suc.prems(1,2) k(2)] Suc.prems(5) [of k] k by simp
qed

lemma add_addr_loop_put:
  assumes "ok_dev s" "block_ok s b" "q < 16" "dev s (unat b + 256 * q) = 0" "length temp = 248"
  shows "\<exists>s1 t. add_addr_loop (256 * q) e temp pn an p b c s =
      (0, store_node (an\<lparr>links := links an + 1, change_time := t\<rparr>) c
            (store_node (pn\<lparr>n_size := n_size pn + 256, data_time := t, change_time := t\<rparr>) p s1)) \<and>
    only_io s s1 \<and> dev s1 = wr64 (wrbytes (dev s) (unat b + 256 * q) temp) (unat b + 256 * q + 248) c"
proof -
  let ?a = "unat b + 256 * q"
  have r: "read_block_arr [e] b (int (256 * q)) s = ([0], s\<lparr>pos := ?a + 1\<rparr>)"
    using assms(1-4) read_block_arr_in [of s b "256 * q" "[e]"] by (simp add: rdbytes_def)
  have w1: "write_block_arr temp b (int (256 * q)) (s\<lparr>pos := ?a + 1\<rparr>) =
      s\<lparr>dev := wrbytes (dev s) ?a temp, pos := ?a + 248\<rparr>" (is "_ = ?s1")
    using assms write_block_arr_in [of "s\<lparr>pos := ?a + 1\<rparr>" b "256 * q" temp] by simp
  have o: "int (256 * q) + 256 - 8 = int (256 * q + 248)" by simp
  have w2: "write_block_addr c b (int (256 * q) + 256 - 8) ?s1 =
      ?s1\<lparr>dev := wr64 (dev ?s1) (?a + 248) c, pos := ?a + 256\<rparr>"
    unfolding o using assms by (subst write_block_addr_in) (simp_all add: add.assoc)
  show ?thesis
    using assms(3) r w1 w2
    by (subst add_addr_loop.simps) (simp add: Let_def get_current_time_in_nsec_def, auto simp: only_io_def)
qed

lemma strcpy_ok:
  "length name < 248 \<Longrightarrow> length dst = 248 \<Longrightarrow>
     \<exists>t. strcpy dst name = Some (name @ 0 # t) \<and> length (name @ 0 # t) = 248"
  by (simp add: strcpy_def patch_def)

lemma add_addr_ok:
  assumes "fsys_ok s" "owned s b" "inode_slot s p" "inode_slot s c" "p \<noteq> c"
    and "name \<noteq> []" "wf_name name" "length name < 248"
    and "q < 16" "\<And>j. j < q \<Longrightarrow> dev s (unat b + 256 * j) \<noteq> 0" "dev s (unat b + 256 * q) = 0"
  shows "\<exists>s' t. add_addr p b c name s = Some (0, s') \<and> kept {p, c} {b} s s' \<and> owned s' b \<and>
    free_set s' = free_set s \<and>
    get_node s' p = (get_node s p)\<lparr>n_size := n_size (get_node s p) + 256, data_time := t, change_time := t\<rparr> \<and>
    get_node s' c = (get_node s c)\<lparr>links := links (get_node s c) + 1, change_time := t\<rparr> \<and>
    ent (dev s') (unat b + 256 * q) = (name, c) \<and> valid_ent (dev s') (unat b + 256 * q) \<and>
    (\<forall>x. unat b \<le> x \<and> x < unat b + 4096 \<and> (x < unat b + 256 * q \<or> unat b + 256 * q + 256 \<le> x) \<longrightarrow> dev s' x = dev s x)"
proof -
  note f = fsys_okD [OF assms(1)]
  have ok: "node_ok s p" "node_ok s c" "block_ok s b"
    using slot_ok [OF assms(1)] assms(3,4) owned_block_ok [OF assms(2)] by simp_all
  have nz: "b \<noteq> 0" "p \<noteq> 0" "c \<noteq> 0" using ok by (simp_all add: node_ok_def block_ok_def)
  let ?pn = "get_node s p" and ?an = "get_node s c" and ?a = "unat b + 256 * q"
  let ?s0 = "s\<lparr>fresh := Suc (Suc (Suc (fresh s))), pos := unat c + 208\<rparr>"
  obtain t0 where sc: "strcpy (map (junk s (fresh s)) [0..<248]) name = Some (name @ 0 # t0)"
    "length (name @ 0 # t0) = 248" using strcpy_ok [OF assms(8), of "map (junk s (fresh s)) [0..<248]"] by auto
  let ?temp = "name @ 0 # t0"
  have body: "add_addr p b c name s = Some (add_addr_loop (256 * 0) 0 ?temp ?pn ?an p b c ?s0)"
    using nz f(3) ok(1,2) sc(1)
    by (simp add: add_addr_def uninit_def io_simps get_node_def Let_def)
  obtain e' x where run: "add_addr_loop (256 * 0) 0 ?temp ?pn ?an p b c ?s0 =
      add_addr_loop (256 * q) e' ?temp ?pn ?an p b c (?s0\<lparr>pos := x\<rparr>)"
    using add_addr_loop_run [of ?s0 b 0 q 0 ?temp ?pn ?an p c] f(3) ok(3) assms(9,10) by auto
  obtain s1 t where put: "add_addr_loop (256 * q) e' ?temp ?pn ?an p b c (?s0\<lparr>pos := x\<rparr>) =
      (0, store_node (?an\<lparr>links := links ?an + 1, change_time := t\<rparr>) c
            (store_node (?pn\<lparr>n_size := n_size ?pn + 256, data_time := t, change_time := t\<rparr>) p s1))"
    "only_io (?s0\<lparr>pos := x\<rparr>) s1" "dev s1 = wr64 (wrbytes (dev s) ?a ?temp) (?a + 248) c"
    using add_addr_loop_put [of "?s0\<lparr>pos := x\<rparr>" b q ?temp e' ?pn ?an p c] f(3) ok(3) assms(9,11) sc(2) by auto
  have io1: "only_io s s1" using put(2) by (simp add: only_io_def)
  have in_b: "?a + 256 \<le> unat b + 4096" using assms(9) by simp
  have out1: "dev s1 y = dev s y" if "y < ?a \<or> ?a + 256 \<le> y" for y
    using that sc(2) by (auto simp: put(3) wrbytes_out addr_simps)
  then have "dev s1 y = dev s y" if "y < unat b \<or> unat b + 4096 \<le> y" for y
    using that in_b by auto
  note w = write_kept [OF assms(1,2) io1 this]
  let ?pn' = "?pn\<lparr>n_size := n_size ?pn + 256, data_time := t, change_time := t\<rparr>"
  let ?an' = "?an\<lparr>links := links ?an + 1, change_time := t\<rparr>"
  let ?s2 = "store_node ?pn' p s1"
  let ?s3 = "store_node ?an' c ?s2"
  have wf: "wf_node ?pn'" "wf_node ?an'" by (simp_all add: get_node_def)
  have sl1: "inode_slot s1 p" using inode_slot_only_io [OF io1] assms(3) by simp
  note st2 = store_kept [OF keptD(2) [OF w(1)] sl1 wf(1)]
  have k2: "kept {p} {b} s ?s2" using kept_trans [OF w(1) st2(1)] by simp
  have sl2: "inode_slot ?s2 c" using inode_slot_only_io [OF keptD(1) [OF k2]] assms(4) by simp
  note st3 = store_kept [OF keptD(2) [OF k2] sl2 wf(2)]
  have k3: "kept {p, c} {b} s ?s3"
    using kept_mono [OF kept_trans [OF k2 st3(1)], of "{p, c}" "{b}"] by simp
  have "get_node ?s3 p = get_node ?s2 p"
    using keptD(3) [OF st3(1)] inode_slot_only_io [OF keptD(1) [OF k2]] assms(3,5) by simp
  then have gp: "get_node ?s3 p = ?pn'" using st2(2) by simp
  have hi: "dev ?s3 y = dev s1 y" if "unat b \<le> y" for y
  proof -
    have "unat (inode_byte_boundary s) \<le> y" using that assms(2) by (simp add: owned_def data_block_def)
    then show ?thesis
      using st2(4) st3(4) only_ioD(5) [OF io1] only_ioD(5) [OF keptD(1) [OF k2]] by simp
  qed
  have pre: "rdbytes (dev s1) ?a 248 = ?temp"
    using sc(2) by (simp add: put(3) wr64_def rdbytes_wrbytes_disjoint)
  have "rdbytes (dev ?s3) ?a 248 = ?temp" using pre hi by (subst rdbytes_cong [of _ _ _ "dev s1"]) simp_all
  moreover have "rd64 (dev ?s3) (?a + 248) = c"
    using hi by (subst rd64_cong [of "dev ?s3" _ "dev s1"]) (simp_all add: put(3))
  moreover have "dev ?s3 ?a = hd ?temp"
  proof -
    have "dev ?s3 ?a = rdbytes (dev ?s3) ?a 248 ! 0" by simp
    then show ?thesis using \<open>rdbytes (dev ?s3) ?a 248 = ?temp\<close> assms(6) by (simp add: hd_conv_nth nth_append)
  qed
  moreover have "hd ?temp \<noteq> 0" using assms(6,7) by (cases name) auto
  ultimately have ent: "ent (dev ?s3) ?a = (name, c)" "valid_ent (dev ?s3) ?a"
    using assms(7) nz by (simp_all add: ent_def valid_ent_def)
  have "owned ?s3 b" using keptD(4) [OF st3(1) keptD(4) [OF st2(1) w(3)]] by simp
  moreover have "free_set ?s3 = free_set s" using st3(3) st2(3) w(2) by simp
  moreover have "dev ?s3 y = dev s y" if "unat b \<le> y" "y < ?a \<or> ?a + 256 \<le> y" for y
    using hi [OF that(1)] out1 [OF that(2)] by simp
  ultimately show ?thesis
    using body run put(1) k3 gp st3(2) ent by (intro exI [of _ ?s3] exI [of _ t]) auto
qed

section \<open>Entering a name in a directory\<close>

lemma dir_count:
  assumes "dir_ok s n"
  shows "entry_count n \<le> 8384" "unat (n_size n + 256) = 256 * (entry_count n + 1)"
    "n_size n mod 4096 = 0 \<longleftrightarrow> entry_count n mod 16 = 0"
proof -
  note d = dir_okD [OF assms] and f = file_okD [OF dir_okD(1) [OF assms]]
  show c: "entry_count n \<le> 8384" using d(6) f(2) by simp
  have "unat (n_size n + of_nat 256) = unat (n_size n) + 256"
    by (rule unat_add_in) (use d(2) c in simp)
  then show "unat (n_size n + 256) = 256 * (entry_count n + 1)" using d(2) by simp
  have "256 * entry_count n mod 4096 = 256 * (entry_count n mod 16)"
    using mult_mod_right [of 256 "entry_count n" 16] by simp
  then show "n_size n mod 4096 = 0 \<longleftrightarrow> entry_count n mod 16 = 0"
    using d(2) by (simp add: word_unat_eq_iff unat_mod)
qed

lemma dir_extend:
  assumes "dir_ok s n" "file_ok s' n'" "n_size n' = n_size n + 256"
    and "unat (blocks n') = entry_count n div 16 + 1"
    and "\<And>i. i < entry_count n \<Longrightarrow> slot s' n' i = slot s n i"
    and "\<And>i x. i < entry_count n \<Longrightarrow> slot s n i \<le> x \<Longrightarrow> x < slot s n i + 256 \<Longrightarrow> dev s' x = dev s x"
    and "ent (dev s') (slot s' n' (entry_count n)) = e" "valid_ent (dev s') (slot s' n' (entry_count n))"
    and "\<And>i. entry_count n < i \<Longrightarrow> i < 16 * unat (blocks n') \<Longrightarrow> dev s' (slot s' n' i) = 0"
  shows "dir_ok s' n'" "entries s' n' = entries s n @ [e]"
proof -
  note d = dir_okD [OF assms(1)]
  let ?k = "entry_count n"
  have cnt: "entry_count n' = Suc ?k" "unat (n_size n') = 256 * Suc ?k"
    using dir_count(2) [OF assms(1)] by (simp_all add: entry_count_def assms(3))
  have old: "ent (dev s') (slot s' n' i) = ent (dev s) (slot s n i)"
    "valid_ent (dev s') (slot s' n' i) = valid_ent (dev s) (slot s n i)" if "i < ?k" for i
    unfolding assms(5) [OF that] using assms(6) [OF that] by (auto intro!: ent_same)
  have "valid_ent (dev s') (slot s' n' i)" if "i < Suc ?k" for i
    using that old(2) [of i] d(4) [of i] assms(8) by (cases "i = ?k") simp_all
  moreover have "unat (blocks n') = (Suc ?k + 15) div 16" using assms(4) by simp
  ultimately show "dir_ok s' n'"
    using assms(2,9) cnt by (simp add: dir_ok_def)
  have "map (\<lambda>i. ent (dev s') (slot s' n' i)) [0..<?k] = entries s n"
    unfolding entries_def using old(1) by (intro map_cong) simp_all
  then show "entries s' n' = entries s n @ [e]"
    using assms(7) by (simp add: entries_def [of s' n'] cnt)
qed

lemma file_ok_owned:
  assumes "file_ok s n" "kept A B s s'" "indirect_blocks n \<notin> B" "\<And>b. b \<in> B \<Longrightarrow> owned s' b"
  shows "file_ok s' n"
proof -
  have a: "addrs s' n = addrs s n" using assms by (intro addrs_kept) auto
  have "owned s' b" if "owned s b" for b
    using that keptD(4) [OF assms(2) that] assms(4) by (cases "b \<in> B") simp_all
  then show ?thesis
    using file_okD [OF assms(1)] a by (auto simp: file_ok_def list_all_iff)
qed

text \<open>What the call establishes.\<close>

definition entered :: "u64 \<Rightarrow> u64 \<Rightarrow> bytes \<Rightarrow> fs \<Rightarrow> fs \<Rightarrow> bool" where
  "entered p c name s s' \<longleftrightarrow>
     (let n = get_node s p
      in kept {p, c} (insert (indirect_blocks n) (set (addrs s n))) s s' \<and>
         dir_ok s' (get_node s' p) \<and> entries s' (get_node s' p) = entries s n @ [(name, c)] \<and>
         (\<exists>t. get_node s' c = (get_node s c)\<lparr>links := links (get_node s c) + 1, change_time := t\<rparr>) \<and>
         free_set s' \<subseteq> free_set s \<and> (entry_count n mod 16 \<noteq> 0 \<longrightarrow> free_set s' = free_set s))"

lemma dir_slot_other:
  assumes "dir_ok s n" "i < 16 * unat (blocks n)" "i div 16 \<noteq> k" "k < unat (blocks n)"
  shows "addrs s n ! (i div 16) \<noteq> addrs s n ! k"
proof -
  have "i div 16 < unat (blocks n)" using assms(2) by (simp add: less_mult_imp_div_less mult.commute)
  then show ?thesis
    using file_okD(4) [OF dir_okD(1) [OF assms(1)]] assms(3,4) by (simp add: nth_eq_iff_index_eq)
qed

lemma enter_last_block:
  assumes "fsys_ok s" "inode_slot s p" "inode_slot s c" "p \<noteq> c" "dir_ok s (get_node s p)"
    and "name \<noteq> []" "wf_name name" "length name < 248" "entry_count (get_node s p) mod 16 \<noteq> 0"
  defines "n \<equiv> get_node s p"
  shows "\<exists>s'. add_addr p (addrs s n ! (entry_count n div 16)) c name s = Some (0, s') \<and> entered p c name s s'"
proof -
  note d = dir_okD [OF assms(5) [folded n_def]]
  note f = file_okD [OF d(1)]
  let ?k = "entry_count n" and ?b = "addrs s n ! (entry_count n div 16)"
  let ?q = "?k mod 16"
  have m: "?q \<noteq> 0" "?q < 16" using assms(9) by (simp_all add: n_def)
  have k: "16 * (?k div 16) + ?q = ?k" by simp
  have bl: "unat (blocks n) = ?k div 16 + 1" using d(3) m k by linarith
  then have kb: "?k < 16 * unat (blocks n)" "?k div 16 < unat (blocks n)" using k m(2) by linarith+
  note sb = slot_block [OF d(1) kb(1)]
  have sl: "slot s n (16 * (?k div 16) + j) = unat ?b + 256 * j" if "j < 16" for j
    using that by (simp add: slot_def)
  have used: "dev s (unat ?b + 256 * j) \<noteq> 0" if "j < ?q" for j
  proof -
    have "valid_ent (dev s) (slot s n (16 * (?k div 16) + j))"
      by (rule d(4)) (use that k in linarith)
    then show ?thesis using sl [of j] that m(2) by (simp add: valid_ent_def)
  qed
  have free: "dev s (unat ?b + 256 * ?q) = 0"
    using d(5) [OF le_refl kb(1)] sl [OF m(2)] k by simp
  obtain s' t where r: "add_addr p ?b c name s = Some (0, s')" "kept {p, c} {?b} s s'" "owned s' ?b"
    "free_set s' = free_set s"
    "get_node s' p = n\<lparr>n_size := n_size n + 256, data_time := t, change_time := t\<rparr>" (is "_ = ?n")
    "get_node s' c = (get_node s c)\<lparr>links := links (get_node s c) + 1, change_time := t\<rparr>"
    "ent (dev s') (unat ?b + 256 * ?q) = (name, c)" "valid_ent (dev s') (unat ?b + 256 * ?q)"
    "\<forall>x. unat ?b \<le> x \<and> x < unat ?b + 4096 \<and> (x < unat ?b + 256 * ?q \<or> unat ?b + 256 * ?q + 256 \<le> x) \<longrightarrow> dev s' x = dev s x"
    using add_addr_ok [OF assms(1) sb(1) assms(2-4,6-8) m(2) used free] unfolding n_def by blast
  have ib: "indirect_blocks n \<notin> {?b}"
    using f(6) sb(2) owned_nonzero [OF sb(1)] by (cases "indirect_blocks n = 0") auto
  have "file_ok s' n" using file_ok_owned [OF d(1) r(2) ib] r(3) by simp
  then have fo: "file_ok s' ?n" using file_ok_cong [of ?n n s'] by simp
  have ad: "addrs s' ?n = addrs s n"
    using addrs_cong [of ?n n s'] addrs_kept [OF d(1) r(2) ib] by simp
  have sl': "slot s' ?n i = slot s n i" for i by (simp add: slot_def ad)
  have same: "dev s' x = dev s x"
    if i: "i < 16 * unat (blocks n)" "i \<noteq> ?k" and x: "slot s n i \<le> x" "x < slot s n i + 256" for i x
  proof (cases "i div 16 = ?k div 16")
    case True
    have "slot s n i = unat ?b + 256 * (i mod 16)" using True by (simp add: slot_def)
    moreover have "i mod 16 \<noteq> ?q" using True i(2) by (metis div_mult_mod_eq)
    moreover have "i mod 16 < 16" by simp
    ultimately have "unat ?b \<le> x \<and> x < unat ?b + 4096 \<and> (x < unat ?b + 256 * ?q \<or> unat ?b + 256 * ?q + 256 \<le> x)"
      using x by linarith
    then show ?thesis using r(9) by blast
  next
    case False
    have "addrs s n ! (i div 16) \<notin> {?b}"
      using dir_slot_other [OF assms(5) [folded n_def] i(1) False kb(2)] by simp
    then have "same_block (dev s) (dev s') (addrs s n ! (i div 16))"
      using keptD(5) [OF r(2)] slot_block(1) [OF d(1) i(1)] by blast
    then show ?thesis using slot_same [OF d(1) i(1) _ x] by blast
  qed
  have ext: "dir_ok s' ?n" "entries s' ?n = entries s n @ [(name, c)]"
  proof -
    have at: "slot s' ?n ?k = unat ?b + 256 * ?q" by (simp add: sl') (simp add: slot_def)
    have empty: "dev s' (slot s' ?n i) = 0" if "?k < i" "i < 16 * unat (blocks ?n)" for i
      using that same [of i "slot s n i"] d(5) [of i] by (simp add: sl')
    have old: "dev s' x = dev s x" if "i < ?k" "slot s n i \<le> x" "x < slot s n i + 256" for i x
      using that kb(1) by (intro same) simp_all
    have e: "ent (dev s') (slot s' ?n ?k) = (name, c)" "valid_ent (dev s') (slot s' ?n ?k)"
      using r(7,8) unfolding at by simp_all
    have n2: "n_size ?n = n_size n + 256" "unat (blocks ?n) = ?k div 16 + 1" using bl by simp_all
    note * = dir_extend [OF assms(5) [folded n_def] fo n2 sl' old e empty]
    show "dir_ok s' ?n" "entries s' ?n = entries s n @ [(name, c)]" by (rule *; assumption)+
  qed
  have "kept {p, c} (insert (indirect_blocks n) (set (addrs s n))) s s'"
    using kept_mono [OF r(2)] sb(2) by auto
  then have "entered p c name s s'"
    using r(4,5,6) ext by (auto simp: entered_def Let_def n_def [symmetric])
  then show ?thesis using r(1) by blast
qed

lemma entered_nodes: "get_node s0 p = get_node s p \<Longrightarrow> get_node s0 c = get_node s c \<Longrightarrow> addrs s0 (get_node s p) = addrs s (get_node s p)
    \<Longrightarrow> entries s0 (get_node s p) = entries s (get_node s p) \<Longrightarrow> only_io s s0 \<Longrightarrow> dev s0 = dev s \<Longrightarrow>
    entered p c name s0 s' \<Longrightarrow> fsys_ok s \<Longrightarrow> entered p c name s s'"
proof -
  assume eq: "get_node s0 p = get_node s p" "get_node s0 c = get_node s c"
    "addrs s0 (get_node s p) = addrs s (get_node s p)" "entries s0 (get_node s p) = entries s (get_node s p)"
    and io: "only_io s s0" "dev s0 = dev s" and en: "entered p c name s0 s'" and ok: "fsys_ok s"
  let ?n = "get_node s p"
  have "kept {p, c} (insert (indirect_blocks ?n) (set (addrs s ?n))) s s'"
    using kept_trans [OF kept_same_dev [OF ok io, of "{}" "{}"]] en
    by (auto simp: entered_def Let_def eq)
  moreover have "free_set s0 = free_set s" using fl_same_dev [OF io] by simp
  ultimately show ?thesis using en by (simp add: entered_def Let_def eq)
qed

lemma same_dev_views:
  assumes "only_io s s0" "dev s0 = dev s"
  shows "get_node s0 a = get_node s a" "addrs s0 n = addrs s n" "entries s0 n = entries s n"
    "file_ok s0 n = file_ok s n" "dir_ok s0 n = dir_ok s n" "slot s0 n i = slot s n i"
proof -
  show "get_node s0 a = get_node s a" by (simp add: get_node_def assms(2))
  show a: "addrs s0 n = addrs s n" for n by (simp add: addrs_def assms(2))
  show sl: "slot s0 n i = slot s n i" for n i by (simp add: slot_def a)
  then show "entries s0 n = entries s n" by (simp add: entries_def assms(2))
  have "owned s0 = owned s" using owned_same_dev [OF assms] by (simp add: fun_eq_iff)
  then show f: "file_ok s0 n = file_ok s n" for n by (simp add: file_ok_def a)
  show "dir_ok s0 n = dir_ok s n" by (simp add: dir_ok_def f sl assms(2))
qed

lemma enter_new_block:
  assumes "fsys_ok s" "inode_slot s p" "inode_slot s c" "p \<noteq> c" "dir_ok s (get_node s p)"
    and "name \<noteq> []" "wf_name name" "length name < 248" "entry_count (get_node s p) mod 16 = 0"
    and "appended (get_node s p) p s (b, n', s1) B"
  defines "s2 \<equiv> write_block_arr (replicate 4096 0) b 0 s1"
  shows "b \<noteq> 0 \<and> (\<exists>s'. add_addr p b c name s2 = Some (0, s') \<and> entered p c name s s')"
proof -
  let ?n = "get_node s p"
  note d = dir_okD [OF assms(5)] and f = file_okD [OF dir_okD(1) [OF assms(5)]]
  let ?k = "entry_count ?n"
  have ap: "b \<in> B" "B \<subseteq> free_set s" "kept {p} {indirect_blocks ?n} s s1" "get_node s1 p = n'"
    "file_ok s1 n'" "addrs s1 n' = addrs s ?n @ [b]" "free_set s1 = free_set s - B"
    and n': "\<exists>ds ib. n' = ?n\<lparr>direct_blocks := ds, indirect_blocks := ib, blocks := blocks ?n + 1\<rparr> \<and>
      (indirect_blocks ?n \<noteq> 0 \<longrightarrow> ib = indirect_blocks ?n)"
    using assms(10) unfolding appended_def prod.case by blast+
  have io1: "only_io s s1" and ok1: "fsys_ok s1" using keptD(1,2) [OF ap(3)] by blast+
  have ob: "owned s1 b" using file_okD(3) [OF ap(5)] ap(6) by simp
  have nb: "\<not> owned s b" using ap(1,2) by (auto simp: owned_def)
  have k16: "16 * (?k div 16) = ?k" using assms(9) mult_div_mod_eq [of 16 ?k] by linarith
  have bl: "unat (blocks ?n) = ?k div 16" using d(3) k16 by linarith
  have len: "length (addrs s1 n') = unat (blocks n')" by simp
  then have bl': "unat (blocks n') = ?k div 16 + 1" using ap(6) bl by simp
  have s2: "s2 = s1\<lparr>dev := wrbytes (dev s1) (unat b) (replicate 4096 0), pos := unat b + 4096\<rparr>"
    unfolding s2_def using fsys_okD(3) [OF ok1] owned_block_ok [OF ob] by (simp add: block_at)
  have io2: "only_io s1 s2" by (simp add: s2 only_io_def)
  have out2: "dev s2 x = dev s1 x" if "x < unat b \<or> unat b + 4096 \<le> x" for x
    using that by (simp add: s2 wrbytes_out)
  note w2 = write_kept [OF ok1 ob io2 out2]
  have zero: "dev s2 (unat b + i) = 0" if "i < 4096" for i
    using that by (simp add: s2 wrbytes_in)
  have sl2: "inode_slot s2 p" "inode_slot s2 c"
    using inode_slot_only_io [OF io2] inode_slot_only_io [OF io1] assms(2,3) by simp_all
  obtain s' t where r: "add_addr p b c name s2 = Some (0, s')" "kept {p, c} {b} s2 s'" "owned s' b"
    "free_set s' = free_set s2"
    "get_node s' p = (get_node s2 p)\<lparr>n_size := n_size (get_node s2 p) + 256, data_time := t, change_time := t\<rparr>"
    "get_node s' c = (get_node s2 c)\<lparr>links := links (get_node s2 c) + 1, change_time := t\<rparr>"
    "ent (dev s') (unat b + 256 * 0) = (name, c)" "valid_ent (dev s') (unat b + 256 * 0)"
    "\<forall>x. unat b \<le> x \<and> x < unat b + 4096 \<and> (x < unat b + 256 * 0 \<or> unat b + 256 * 0 + 256 \<le> x) \<longrightarrow> dev s' x = dev s2 x"
    using add_addr_ok [OF keptD(2) [OF w2(1)] w2(3) sl2 assms(4,6-8), of 0] zero [of 0] by auto
  have g2: "get_node s2 p = n'" "get_node s2 c = get_node s c"
    using keptD(3) [OF w2(1)] keptD(3) [OF ap(3)] inode_slot_only_io [OF io1] assms(2-4) ap(4) by simp_all
  have k2': "kept {p, c} {b} s1 s'" using kept_mono [OF kept_trans [OF w2(1) r(2)], of "{p, c}" "{b}"] by simp
  have "kept ({p} \<union> {p, c}) ({indirect_blocks ?n} \<union> {b}) s s'" using kept_trans [OF ap(3) k2'] .
  then have "kept {p, c} (insert b {indirect_blocks ?n}) s s'" by (simp add: insert_commute)
  then have ks: "kept {p, c} {indirect_blocks ?n} s s'" using nb by (rule kept_drop)
  let ?n2 = "n'\<lparr>n_size := n_size n' + 256, data_time := t, change_time := t\<rparr>"
  have gp: "get_node s' p = ?n2" using r(5) g2(1) by simp
  have ibn: "indirect_blocks n' \<notin> {b}"
    using file_okD(6) [OF ap(5)] ap(6) owned_nonzero [OF ob] by (cases "indirect_blocks n' = 0") auto
  have "file_ok s' n'" using file_ok_owned [OF ap(5) k2' ibn] r(3) by simp
  then have fo: "file_ok s' ?n2" using file_ok_cong [of ?n2 n' s'] by simp
  have ad: "addrs s' ?n2 = addrs s ?n @ [b]"
    using addrs_cong [of ?n2 n' s'] addrs_kept [OF ap(5) k2' ibn] ap(6) by simp
  have sl': "slot s' ?n2 i = slot s ?n i" if "i < ?k" for i
  proof -
    have "i div 16 < unat (blocks ?n)" using that bl k16 by (simp add: less_mult_imp_div_less mult.commute)
    then show ?thesis by (simp add: slot_def ad nth_append)
  qed
  have new: "slot s' ?n2 i = unat b + 256 * (i mod 16)" if "?k \<le> i" "i < 16 * unat (blocks ?n2)" for i
  proof -
    have "i div 16 = unat (blocks ?n)" using that bl bl' k16 by simp
    then show ?thesis by (simp add: slot_def ad nth_append)
  qed
  have old: "dev s' x = dev s x" if i: "i < ?k" and x: "slot s ?n i \<le> x" "x < slot s ?n i + 256" for i x
  proof -
    have i16: "i < 16 * unat (blocks ?n)" using i d(6) by simp
    have "addrs s ?n ! (i div 16) \<noteq> indirect_blocks ?n"
      using slot_block(1,2) [OF d(1) i16] f(6) owned_nonzero by (metis)
    then have "same_block (dev s) (dev s') (addrs s ?n ! (i div 16))"
      using keptD(5) [OF ks] slot_block(1) [OF d(1) i16] by blast
    then show ?thesis using slot_same [OF d(1) i16 _ x] by blast
  qed
  have kk: "?k < 16 * unat (blocks ?n2)" "?k mod 16 = 0" using bl' k16 assms(9) by simp_all
  have e: "ent (dev s') (slot s' ?n2 ?k) = (name, c)" "valid_ent (dev s') (slot s' ?n2 ?k)"
    using r(7,8) new [OF le_refl kk(1)] kk(2) by simp_all
  have empty: "dev s' (slot s' ?n2 i) = 0" if "?k < i" "i < 16 * unat (blocks ?n2)" for i
  proof -
    have "i div 16 = ?k div 16" using that bl' k16 by simp
    then have "i mod 16 \<noteq> 0" using that(1) k16 mult_div_mod_eq [of 16 i] by linarith
    moreover have "i mod 16 < 16" by simp
    ultimately have "unat b + 256 \<le> slot s' ?n2 i" "slot s' ?n2 i < unat b + 4096"
      using new [of i] that by simp_all
    then show ?thesis using r(9) zero [of "slot s' ?n2 i - unat b"] by simp
  qed
  have n2: "n_size ?n2 = n_size ?n + 256" "unat (blocks ?n2) = ?k div 16 + 1"
    using bl' n' by auto
  note ext = dir_extend [OF assms(5) fo n2 sl' old e empty]
  have "kept {p, c} (insert (indirect_blocks ?n) (set (addrs s ?n))) s s'"
    using kept_mono [OF ks] by blast
  moreover have "free_set s' \<subseteq> free_set s" using r(4) w2(2) ap(7) by auto
  ultimately have "entered p c name s s'"
    using r(6) g2(2) ext assms(9) by (auto simp: entered_def Let_def gp)
  then show ?thesis using r(1) owned_nonzero [OF ob] by blast
qed

text \<open>The room a directory needs: a free slot in its last block, or blocks for a new one.\<close>

definition has_room :: "fs \<Rightarrow> node \<Rightarrow> bool" where
  "has_room s n \<longleftrightarrow>
     (entry_count n mod 16 = 0 \<longrightarrow>
        unat (blocks n) < 524 \<and>
        (if 12 \<le> unat (blocks n) \<and> indirect_blocks n = 0 then 2 else 1) \<le> card (free_set s))"

lemma add_to_directory_ok:
  assumes "fsys_ok s" "inode_slot s p" "inode_slot s c" "p \<noteq> c" "dir_ok s (get_node s p)"
    and "name \<noteq> []" "wf_name name" "length name < 248" "has_room s (get_node s p)"
  shows "\<exists>s'. add_to_directory p c name s = Some (0, s') \<and> entered p c name s s'"
proof -
  let ?n = "get_node s p"
  note d = dir_okD [OF assms(5)]
  have ok: "ok_dev s" "node_ok s p" "node_ok s c"
    using fsys_okD(3) slot_ok assms(1-3) by blast+
  let ?s = "s\<lparr>fresh := Suc (Suc (fresh s)), pos := unat c + 208\<rparr>"
  have io: "only_io s ?s" "dev ?s = dev s" by (simp_all add: only_io_def)
  note v = same_dev_views [OF io]
  have ok0: "fsys_ok ?s" using keptD(2) [OF kept_same_dev [OF assms(1) io]] .
  have fs0: "free_set ?s = free_set s" using fl_same_dev [OF io] by simp
  have sl: "inode_slot ?s p" "inode_slot ?s c" using assms(2,3) by simp_all
  have d0: "dir_ok ?s (get_node ?s p)" using assms(5) v by simp
  have nz: "p \<noteq> 0" "c \<noteq> 0" using ok by (simp_all add: node_ok_def)
  have size0: "n_size ?n mod 4096 = 0 \<longleftrightarrow> entry_count ?n mod 16 = 0" using dir_count(3) [OF assms(5)] .
  show ?thesis
  proof (cases "entry_count ?n mod 16 = 0")
    case False
    have bl: "unat (blocks ?n) = entry_count ?n div 16 + 1" 
      using d(3) False mult_div_mod_eq [of 16 "entry_count ?n"] mod_less_divisor [of 16 "entry_count ?n"] by linarith
    have "blocks ?n = of_nat (unat (blocks ?n))" by simp
    then have lt: "blocks ?n - 1 = of_nat (entry_count ?n div 16)" unfolding bl by simp
    obtain s1 where g: "get_i_block ?n (blocks ?n - 1) ?s = (addrs s ?n ! (entry_count ?n div 16), s1)"
      "only_io ?s s1" "dev s1 = dev ?s"
      using get_i_block_file [OF ok0, of ?n "entry_count ?n div 16"] d(1) v bl lt by auto
    have io1: "only_io s s1" "dev s1 = dev s" using only_io_trans [OF io(1) g(2)] g(3) io(2) by simp_all
    note v1 = same_dev_views [OF io1]
    have ok1: "fsys_ok s1" using keptD(2) [OF kept_same_dev [OF assms(1) io1]] .
    have sl1: "inode_slot s1 p" "inode_slot s1 c" using assms(2,3) inode_slot_only_io [OF io1(1)] by simp_all
    have d1: "dir_ok s1 (get_node s1 p)" using assms(5) v1 by simp
    have m1: "entry_count (get_node s1 p) mod 16 \<noteq> 0" using False v1 by simp
    obtain s' where s': "add_addr p (addrs s1 (get_node s1 p) ! (entry_count (get_node s1 p) div 16)) c name s1 = Some (0, s')"
      "entered p c name s1 s'"
      using enter_last_block [OF ok1 sl1 assms(4) d1 assms(6-8) m1] by blast
    have "add_to_directory p c name s = Some (0, s')"
      using nz ok g(1) s'(1) False size0 v1
      by (simp add: add_to_directory_def io_simps get_node_def [symmetric])
    moreover have "entered p c name s s'"
      using entered_nodes [OF v1(1,1,2,3) io1 s'(2) assms(1)] .
    ultimately show ?thesis by blast
  next
    case True
    have room: "unat (blocks ?n) < 524" "(if 12 \<le> unat (blocks ?n) \<and> indirect_blocks ?n = 0 then 2 else 1) \<le> card (free_set ?s)"
      using assms(9) True fs0 by (simp_all add: has_room_def)
    obtain B where ap: "appended ?n p ?s (add_block_to_node ?n p ?s) B"
      using add_block_ok [OF ok0 _ sl(1) room(1,2)] d(1) v by auto
    obtain b n' s1 where r: "add_block_to_node ?n p ?s = (b, n', s1)" by (metis prod_cases3)
    have ap': "appended (get_node ?s p) p ?s (b, n', s1) B" using ap r v by simp
    have m0: "entry_count (get_node ?s p) mod 16 = 0" using True v by simp
    obtain s' where s': "b \<noteq> 0" "add_addr p b c name (write_block_arr (replicate 4096 0) b 0 s1) = Some (0, s')"
      "entered p c name ?s s'"
      using enter_new_block [OF ok0 sl assms(4) d0 assms(6-8) m0 ap'] by blast
    have "add_to_directory p c name s = Some (0, s')"
      using nz ok r s'(1,2) True size0
      by (simp add: add_to_directory_def io_simps get_node_def [symmetric])
    moreover have "entered p c name s s'"
      using entered_nodes [OF v(1,1,2,3) io s'(3) assms(1)] .
    ultimately show ?thesis by blast
  qed
qed

section \<open>Writing in a slot\<close>

lemma slots_apart:
  assumes "file_ok s n" "i < 16 * unat (blocks n)" "k < 16 * unat (blocks n)" "i \<noteq> k"
  shows "slot s n i + 256 \<le> slot s n k \<or> slot s n k + 256 \<le> slot s n i"
proof (cases "i div 16 = k div 16")
  case True
  then have "i mod 16 \<noteq> k mod 16" using assms(4) by (metis div_mult_mod_eq)
  then show ?thesis using True by (simp add: slot_def) linarith
next
  case False
  have lt: "i div 16 < unat (blocks n)" "k div 16 < unat (blocks n)"
    using assms(2,3) by (simp_all add: less_mult_imp_div_less mult.commute)
  let ?b = "addrs s n ! (i div 16)" and ?c = "addrs s n ! (k div 16)"
  have "?b \<noteq> ?c" using file_okD(4) [OF assms(1)] False lt by (simp add: nth_eq_iff_index_eq)
  then have "unat ?b + 4096 \<le> unat ?c \<or> unat ?c + 4096 \<le> unat ?b"
    using data_blocks_apart [of s ?b ?c] slot_block(1) [OF assms(1)] assms(2,3) by (simp add: owned_def)
  then show ?thesis using slot_block(3,4) [OF assms(1)] assms(2,3) by (meson le_trans)
qed

lemma slot_put:
  assumes "fsys_ok s" "file_ok s n" "i < 16 * unat (blocks n)" "length v \<le> 256"
  defines "s' \<equiv> write_block_arr v (addrs s n ! (i div 16)) (int (256 * (i mod 16))) s"
  shows "only_io s s'" "dev s' = wrbytes (dev s) (slot s n i) v"
    "kept {} {addrs s n ! (i div 16)} s s'" "free_set s' = free_set s"
    "file_ok s' n" "addrs s' n = addrs s n" "slot s' n k = slot s n k"
proof -
  let ?b = "addrs s n ! (i div 16)"
  note b = slot_block [OF assms(2,3)] and f = file_okD [OF assms(2)]
  have "i mod 16 < 16" by simp
  then have "256 * (i mod 16) + length v \<le> 4096" using assms(4) by linarith
  then have s': "s' = s\<lparr>dev := wrbytes (dev s) (unat ?b + 256 * (i mod 16)) v, pos := unat ?b + 256 * (i mod 16) + length v\<rparr>"
    unfolding s'_def using fsys_okD(3) [OF assms(1)] owned_block_ok [OF b(1)] by (intro write_block_arr_in)
  show io: "only_io s s'" by (simp add: s' only_io_def)
  show d: "dev s' = wrbytes (dev s) (slot s n i) v" by (simp add: s' slot_def)
  have "dev s' x = dev s x" if "x < unat ?b \<or> unat ?b + 4096 \<le> x" for x
    using that b(3,4) assms(4) by (auto simp: d wrbytes_out)
  note w = write_kept [OF assms(1) b(1) io this]
  show k: "kept {} {?b} s s'" and "free_set s' = free_set s" using w by simp_all
  have ib: "indirect_blocks n \<notin> {?b}"
    using f(6) b(2) owned_nonzero [OF b(1)] by (cases "indirect_blocks n = 0") auto
  show "file_ok s' n" using file_ok_owned [OF assms(2) k ib] w(3) by simp
  show a: "addrs s' n = addrs s n" using addrs_kept [OF assms(2) k ib] .
  show "slot s' n k = slot s n k" by (simp add: slot_def a)
qed

lemma slot_get:
  assumes "fsys_ok s" "file_ok s n" "i < 16 * unat (blocks n)" "length buf = 256"
  shows "\<exists>s'. read_block_arr buf (addrs s n ! (i div 16)) (int (256 * (i mod 16))) s =
    (rdbytes (dev s) (slot s n i) 256, s') \<and> only_io s s' \<and> dev s' = dev s"
proof -
  have "i mod 16 < 16" by simp
  then have "256 * (i mod 16) + length buf \<le> 4096" using assms(4) by linarith
  then show ?thesis
    using read_block_arr_in [of s "addrs s n ! (i div 16)" "256 * (i mod 16)" buf] assms(4)
      fsys_okD(3) [OF assms(1)] owned_block_ok [OF slot_block(1) [OF assms(2,3)]]
    by (auto simp: slot_def only_io_def)
qed

section \<open>Finding an entry\<close>

lemma of_nat_less_u64: "a < 2 ^ 64 \<Longrightarrow> b < 2 ^ 64 \<Longrightarrow> (of_nat a :: u64) < of_nat b \<longleftrightarrow> a < b"
  by (simp add: word_less_nat_alt unat_of_nat)

lemma find_in_block_finds:
  assumes "ok_dev s" "block_ok s b" "i < 524" "q \<le> 16" "cnt \<le> 8384"
  shows "\<exists>ch s'. find_in_block (256 * q) i b child cur (of_nat (256 * cnt)) s =
      Some (case find (\<lambda>j. rd64 (dev s) (unat b + 256 * j + 248) = cur) [q..<min 16 (cnt - 16 * i)] of
              None \<Rightarrow> None | Some j \<Rightarrow> Some (256 * j), ch, s') \<and> only_io s s' \<and> dev s' = dev s"
  using assms
proof (induction "16 - q" arbitrary: q child s)
  case 0
  then show ?case by (subst find_in_block.simps) simp
next
  case (Suc x)
  then have q: "q < 16" by simp
  have ov: "\<not> 2 ^ 31 \<le> 256 * q + i * 4096" using q Suc.prems(3) by simp
  have eq: "256 * q + i * 4096 = 256 * (16 * i + q)" by simp
  have small: "256 * (16 * i + q) < 2 ^ 64" "256 * cnt < 2 ^ 64" using q Suc.prems(3,5) by simp_all
  have lt: "(of_nat (256 * (16 * i + q)) :: u64) < of_nat (256 * cnt) \<longleftrightarrow> 16 * i + q < cnt"
    using small using of_nat_less_u64 [OF small] by (metis mult_less_cancel1 zero_less_numeral)
  show ?case
  proof (cases "16 * i + q < cnt")
    case False
    then have "[q..<min 16 (cnt - 16 * i)] = []" by simp
    then show ?thesis
      using q ov lt False unfolding eq [symmetric] by (subst find_in_block.simps) (simp add: only_io_def)
  next
    case True
    then have up: "[q..<min 16 (cnt - 16 * i)] = q # [Suc q..<min 16 (cnt - 16 * i)]"
      using q by (intro upt_conv_Cons) simp
    let ?v = "rd64 (dev s) (unat b + 256 * q + 248)"
    let ?s = "s\<lparr>pos := unat b + (256 * q + 248) + 8\<rparr>"
    have o: "int (256 * q) + 256 - 8 = int (256 * q + 248)" by simp
    have rd: "read_block_addr child b (int (256 * q) + 256 - 8) s = (?v, ?s)"
      unfolding o using Suc.prems(1,2) q by (subst read_block_addr_in) (simp_all add: add.assoc)
    have body: "find_in_block (256 * q) i b child cur (of_nat (256 * cnt)) s =
        (if ?v = cur then Some (Some (256 * q), ?v, ?s)
         else find_in_block (256 * Suc q) i b ?v cur (of_nat (256 * cnt)) ?s)"
      using q ov lt True rd unfolding eq [symmetric]
      by (subst find_in_block.simps) (simp add: add.commute)
    show ?thesis
    proof (cases "?v = cur")
      case True
      then show ?thesis unfolding body up by (auto simp: only_io_def)
    next
      case False
      have "\<exists>ch s'. find_in_block (256 * Suc q) i b ?v cur (of_nat (256 * cnt)) ?s =
          Some (case find (\<lambda>j. rd64 (dev ?s) (unat b + 256 * j + 248) = cur) [Suc q..<min 16 (cnt - 16 * i)] of
              None \<Rightarrow> None | Some j \<Rightarrow> Some (256 * j), ch, s') \<and> only_io ?s s' \<and> dev s' = dev ?s"
        using Suc.hyps(2) Suc.prems q by (intro Suc.hyps(1)) simp_all
      then show ?thesis unfolding body up using False by (auto simp: only_io_def)
    qed
  qed
qed

lemma map_plus_upt: "map ((+) a) [0..<q] = [a..<a + q]"
  by (induction q) auto

lemma find_append: "find P (xs @ ys) = (case find P xs of None \<Rightarrow> find P ys | Some x \<Rightarrow> Some x)"
  by (induction xs) auto

lemma find_link_finds:
  assumes "fsys_ok s" "dir_ok s n"
  shows "\<exists>s'. find_link i child cur n s =
      Some (map_option (\<lambda>t. (addrs s n ! (t div 16), t div 16, 256 * (t mod 16)))
              (find (\<lambda>t. snd (entries s n ! t) = cur) [16 * i..<entry_count n]), s') \<and>
    only_io s s' \<and> dev s' = dev s"
  using assms
proof (induction "unat (blocks n) - i" arbitrary: i child s)
  case 0
  note d = dir_okD [OF "0.prems"(2)]
  have "find P [16 * i..<entry_count n] = None" for P using d(6) 0 by (auto simp: find_None_iff)
  then show ?case using 0 by (subst find_link.simps) simp
next
  case (Suc x)
  note d = dir_okD [OF Suc.prems(2)] and f = file_okD [OF dir_okD(1) [OF Suc.prems(2)]]
  have i: "i < unat (blocks n)" using Suc.hyps(2) by simp
  let ?b = "addrs s n ! i" and ?c = "entry_count n"
  have cnt: "?c \<le> 8384" using dir_count(1) [OF Suc.prems(2)] .
  have sz: "n_size n = of_nat (256 * ?c)" unfolding d(2) [symmetric] by simp
  obtain s1 where g: "get_i_block n (of_nat i) s = (?b, s1)" "only_io s s1" "dev s1 = dev s"
    using get_i_block_file [OF Suc.prems(1) d(1) i] by blast
  have ob: "owned s ?b" using f(3) i by (simp add: list_all_length)
  have ok1: "ok_dev s1" "block_ok s1 ?b"
    using fsys_okD(3) [OF Suc.prems(1)] ok_dev_only_io [OF g(2)] block_ok_only_io [OF g(2)] owned_block_ok [OF ob] by simp_all
  obtain ch s2 where r: "find_in_block (256 * 0) i ?b child cur (of_nat (256 * ?c)) s1 =
      Some (case find (\<lambda>j. rd64 (dev s1) (unat ?b + 256 * j + 248) = cur) [0..<min 16 (?c - 16 * i)] of
              None \<Rightarrow> None | Some j \<Rightarrow> Some (256 * j), ch, s2)" "only_io s1 s2" "dev s2 = dev s1"
    using find_in_block_finds [OF ok1, of i 0 ?c child cur] i f(2) cnt by auto
  define Q where "Q = min 16 (?c - 16 * i)"
  have ent: "snd (entries s n ! (16 * i + j)) = rd64 (dev s) (unat ?b + 256 * j + 248)" if "j < Q" for j
  proof -
    have "16 * i + j < ?c" "(16 * i + j) div 16 = i" "(16 * i + j) mod 16 = j" using that unfolding Q_def by (linarith, linarith, simp)
    then show ?thesis by (simp add: entries_def ent_def slot_def)
  qed
  have split: "[16 * i..<?c] = map ((+) (16 * i)) [0..<Q] @ [16 * Suc i..<?c]"
  proof (cases "16 * Suc i \<le> ?c")
    case True
    then have "Q = 16" "?c = 16 * Suc i + (?c - 16 * Suc i)" by (simp_all add: Q_def)
    moreover have "[16 * i..<16 * Suc i + k] = [16 * i..<16 * i + 16] @ [16 * Suc i..<16 * Suc i + k]" for k
      using upt_add_eq_append [of "16 * i" "16 * Suc i" k] by (simp add: add.commute del: upt_rec_numeral)
    ultimately show ?thesis unfolding map_plus_upt by metis
  next
    case False
    then have "Q = ?c - 16 * i" "[16 * Suc i..<?c] = []" by (simp_all add: Q_def)
    then show ?thesis unfolding map_plus_upt by (cases "16 * i \<le> ?c") simp_all
  qed
  have fnd: "find (\<lambda>t. snd (entries s n ! t) = cur) (map ((+) (16 * i)) [0..<Q]) =
      map_option ((+) (16 * i)) (find (\<lambda>j. rd64 (dev s) (unat ?b + 256 * j + 248) = cur) [0..<Q])"
    unfolding find_map_eq using ent by (intro arg_cong [of _ _ "map_option _"] find_cong) auto
  show ?case
  proof (cases "find (\<lambda>j. rd64 (dev s) (unat ?b + 256 * j + 248) = cur) [0..<Q]")
    case (Some j)
    then have j: "j < 16" by (auto simp: find_Some_iff Q_def)
    then have "(16 * i + j) div 16 = i" "(16 * i + j) mod 16 = j" by simp_all
    moreover have "find_link i child cur n s = Some (Some (?b, i, 256 * j), s2)"
      using i g r(1) owned_nonzero [OF ob] Some g(3) sz
      by (subst find_link.simps) (simp add: Q_def)
    ultimately show ?thesis
      using only_io_trans [OF g(2) r(2)] r(3) g(3) unfolding split find_append fnd Some by simp
  next
    case None
    have io: "only_io s s2" "dev s2 = dev s" using only_io_trans [OF g(2) r(2)] r(3) g(3) by simp_all
    note v = same_dev_views [OF io]
    have ok2: "fsys_ok s2" using keptD(2) [OF kept_same_dev [OF Suc.prems(1) io]] .
    have d2: "dir_ok s2 n" using Suc.prems(2) v by simp
    have "find_link i child cur n s = find_link (Suc i) ch cur n s2"
      using i g r(1) owned_nonzero [OF ob] None g(3) sz
      by (subst find_link.simps) (simp add: Q_def)
    moreover have "\<exists>s'. find_link (Suc i) ch cur n s2 =
        Some (map_option (\<lambda>t. (addrs s2 n ! (t div 16), t div 16, 256 * (t mod 16)))
              (find (\<lambda>t. snd (entries s2 n ! t) = cur) [16 * Suc i..<?c]), s') \<and>
        only_io s2 s' \<and> dev s' = dev s2"
      by (rule Suc.hyps(1)) (use Suc.hyps(2) ok2 d2 in simp_all)
    ultimately show ?thesis
      using only_io_trans [OF io(1)] io(2) unfolding split find_append fnd None by (auto simp: v)
  qed
qed

section \<open>Removing an entry\<close>

text \<open>What the removal does to the list of entries.\<close>

definition remove_at :: "nat \<Rightarrow> 'a list \<Rightarrow> 'a list" where
  "remove_at t xs = butlast (xs[t := last xs])"

lemma remove_at_simps:
  assumes "t < length xs"
  shows "length (remove_at t xs) = length xs - 1"
    "i < length xs - 1 \<Longrightarrow> remove_at t xs ! i = (if i = t then last xs else xs ! i)"
  using assms by (auto simp: remove_at_def nth_butlast)

lemma mset_remove_at: "t < length xs \<Longrightarrow> mset (remove_at t xs) = mset xs - {#xs ! t#}"
proof -
  assume t: "t < length xs"
  then have ne: "xs[t := last xs] \<noteq> []" by auto
  have l: "last (xs[t := last xs]) = last xs"
    using t by (subst last_list_update) auto
  have "xs[t := last xs] = remove_at t xs @ [last xs]"
    using append_butlast_last_id [OF ne] by (simp add: l remove_at_def)
  then have "mset (xs[t := last xs]) = mset (remove_at t xs) + {#last xs#}" by simp
  then show ?thesis using t by (simp add: mset_update)
qed

definition clear_slot :: "nat \<Rightarrow> mem \<Rightarrow> mem" where
  "clear_slot p m = wrbytes m p (replicate 256 0)"

definition moved :: "fs \<Rightarrow> node \<Rightarrow> nat \<Rightarrow> mem" where
  "moved s n t =
     (let l = slot s n (entry_count n - 1); p = slot s n t
      in if t = entry_count n - 1 then clear_slot p (dev s)
         else clear_slot l (wrbytes (clear_slot p (dev s)) p (rdbytes (dev s) l 256)))"

lemma moved_bytes:
  assumes "dir_ok s n" "t < entry_count n"
  shows "i < 16 * unat (blocks n) \<Longrightarrow> i \<noteq> t \<Longrightarrow> i \<noteq> entry_count n - 1 \<Longrightarrow>
      slot s n i \<le> x \<Longrightarrow> x < slot s n i + 256 \<Longrightarrow> moved s n t x = dev s x"
    "t \<noteq> entry_count n - 1 \<Longrightarrow> j < 256 \<Longrightarrow> moved s n t (slot s n t + j) = dev s (slot s n (entry_count n - 1) + j)"
    "moved s n t (slot s n (entry_count n - 1)) = 0"
proof -
  note d = dir_okD [OF assms(1)]
  have lt: "t < 16 * unat (blocks n)" "entry_count n - 1 < 16 * unat (blocks n)" using assms(2) d(6) by simp_all
  let ?l = "entry_count n - 1"
  show "moved s n t x = dev s x"
    if "i < 16 * unat (blocks n)" "i \<noteq> t" "i \<noteq> ?l" "slot s n i \<le> x" "x < slot s n i + 256"
    using slots_apart [OF d(1) that(1) lt(1) that(2)] slots_apart [OF d(1) that(1) lt(2) that(3)] that(4,5)
    by (auto simp: moved_def clear_slot_def wrbytes_out Let_def)
  show "moved s n t (slot s n t + j) = dev s (slot s n ?l + j)" if "t \<noteq> ?l" "j < 256"
    using slots_apart [OF d(1) lt that(1)] that
    by (auto simp: moved_def clear_slot_def wrbytes_out wrbytes_in Let_def)
  show "moved s n t (slot s n ?l) = 0"
    by (auto simp: moved_def clear_slot_def wrbytes_def Let_def)
qed

lemma ent_moved:
  assumes "\<And>j. j < 256 \<Longrightarrow> m' (p' + j) = m (p + j)"
  shows "ent m' p' = ent m p" "valid_ent m' p' = valid_ent m p"
proof -
  have "rdbytes m' (p' + i) l = rdbytes m (p + i) l" if "i + l \<le> 256" for i l
    by (rule nth_equalityI) (use assms that in \<open>simp_all add: add.assoc\<close>)
  from this [of 0 248] this [of 248 8] assms [of 0]
  show "ent m' p' = ent m p" "valid_ent m' p' = valid_ent m p"
    by (simp_all add: ent_def valid_ent_def rd64_def)
qed

lemma nth_entries [simp]: "i < entry_count n \<Longrightarrow> entries s n ! i = ent (dev s) (slot s n i)"
  by (simp add: entries_def)

lemma entries_eq_Nil [simp]: "entries s n = [] \<longleftrightarrow> entry_count n = 0"
  by (simp add: entries_def)

lemma dir_shrink:
  assumes "dir_ok s n" "t < entry_count n" "file_ok s' n'" "n_size n' = n_size n - 256"
    and "unat (blocks n') = (entry_count n - 1 + 15) div 16"
    and "\<And>i. i < 16 * unat (blocks n') \<Longrightarrow> slot s' n' i = slot s n i"
    and "\<And>i x. i < 16 * unat (blocks n') \<Longrightarrow> slot s n i \<le> x \<Longrightarrow> x < slot s n i + 256 \<Longrightarrow> dev s' x = moved s n t x"
  shows "dir_ok s' n'" "entries s' n' = remove_at t (entries s n)"
proof -
  note d = dir_okD [OF assms(1)]
  let ?k = "entry_count n"
  have k0: "0 < ?k" using assms(2) by simp
  have "n_size n = of_nat (256 * ?k)" unfolding d(2) [symmetric] by simp
  then have "n_size n' = of_nat (256 * ?k) - of_nat 256" by (simp add: assms(4))
  also have "\<dots> = of_nat (256 * (?k - 1))"
    using k0 by (subst of_nat_diff [symmetric]) (simp_all add: diff_mult_distrib2)
  finally have "unat (n_size n') = 256 * (?k - 1)"
    using dir_count(1) [OF assms(1)] by (simp only: unat_of_nat) simp
  then have cnt: "entry_count n' = ?k - 1" "unat (n_size n') = 256 * (?k - 1)" by (simp_all add: entry_count_def)
  have bl: "?k - 1 \<le> 16 * unat (blocks n')" "unat (blocks n') \<le> unat (blocks n)" using assms(5) d(3) by linarith+
  have old: "ent (dev s') (slot s' n' i) = ent (dev s) (slot s n (if i = t then ?k - 1 else i))"
    "valid_ent (dev s') (slot s' n' i) = valid_ent (dev s) (slot s n (if i = t then ?k - 1 else i))" if "i < ?k - 1" for i
  proof -
    have i: "i < 16 * unat (blocks n')" "i < 16 * unat (blocks n)" using that bl by linarith+
    have b: "dev s' (slot s' n' i + j) = dev s (slot s n (if i = t then ?k - 1 else i) + j)" if "j < 256" for j
      using assms(7) [OF i(1), of "slot s n i + j"] moved_bytes(1) [OF assms(1,2) i(2), of "slot s n i + j"]
        moved_bytes(2) [OF assms(1,2) _ that] that \<open>i < ?k - 1\<close> assms(6) [OF i(1)] by auto
    show "ent (dev s') (slot s' n' i) = ent (dev s) (slot s n (if i = t then ?k - 1 else i))"
      "valid_ent (dev s') (slot s' n' i) = valid_ent (dev s) (slot s n (if i = t then ?k - 1 else i))"
      by (rule ent_moved, rule b, assumption)+
  qed
  have "valid_ent (dev s') (slot s' n' i)" if "i < ?k - 1" for i
    using old(2) [OF that] d(4) [of i] d(4) [of "?k - 1"] that by simp
  moreover have "dev s' (slot s' n' i) = 0" if i: "?k - 1 \<le> i" "i < 16 * unat (blocks n')" for i
  proof (cases "i = ?k - 1")
    case True
    then show ?thesis using assms(6,7) [OF i(2)] moved_bytes(3) [OF assms(1,2)] by simp
  next
    case False
    then have "i \<noteq> t" "?k \<le> i" "i < 16 * unat (blocks n)" using i bl(2) assms(2) by linarith+
    then show ?thesis using assms(6,7) [OF i(2)] moved_bytes(1) [OF assms(1,2), of i] False d(5) by simp
  qed
  ultimately show "dir_ok s' n'" using assms(3,5) cnt by (simp add: dir_ok_def)
  show "entries s' n' = remove_at t (entries s n)"
  proof (rule nth_equalityI)
    fix i assume "i < length (entries s' n')"
    then have i: "i < ?k - 1" by (simp add: cnt)
    moreover have "last (entries s n) = ent (dev s) (slot s n (?k - 1))"
      using k0 by (subst last_conv_nth) auto
    moreover have "remove_at t (entries s n) ! i = (if i = t then last (entries s n) else entries s n ! i)"
      using assms(2) i by (intro remove_at_simps(2)) simp_all
    ultimately show "entries s' n' ! i = remove_at t (entries s n) ! i"
      using old(1) [OF i] by (auto simp: cnt)
  qed (use remove_at_simps(1) [of t "entries s n"] assms(2) in \<open>simp add: cnt\<close>)
qed

lemma size_of_count: "dir_ok s n \<Longrightarrow> n_size n = of_nat (256 * entry_count n)"
  by (simp add: dir_okD(2) [symmetric])

lemma pred_div_mod:
  fixes k :: nat
  assumes "k mod 16 \<noteq> 0"
  shows "(k - 1) mod 16 = k mod 16 - 1 \<and> (k - 1) div 16 = k div 16"
proof -
  have "k - 1 = (k mod 16 - 1) + 16 * (k div 16)" "k mod 16 - 1 < 16"
    using assms mult_div_mod_eq [of 16 k] mod_less_divisor [of 16 k] by linarith+
  moreover have "(a + 16 * b) mod 16 = a \<and> (a + 16 * b) div 16 = b" if "a < 16" for a b :: nat
    using that by simp
  ultimately show ?thesis by metis
qed

lemma last_offset:
  assumes "dir_ok s n" "entry_count n mod 16 \<noteq> 0"
  shows "off_t (n_size n mod 4096 - 256) = int (256 * ((entry_count n - 1) mod 16))"
    "(entry_count n - 1) div 16 = entry_count n div 16"
proof -
  let ?k = "entry_count n"
  have k: "256 * ?k < 2 ^ 64" "?k \<noteq> 0" by (use dir_count(1) [OF assms(1)] in simp, use assms(2) in auto)
  then have m: "(?k - 1) mod 16 = ?k mod 16 - 1" "(?k - 1) div 16 = ?k div 16"
    using pred_div_mod [OF assms(2)] by simp_all
  show "(?k - 1) div 16 = ?k div 16" by (rule m(2))
  have "n_size n mod of_nat 4096 = of_nat (256 * ?k mod 4096)"
    unfolding size_of_count [OF assms(1)] using k(1) by (intro u64_mod) simp_all
  also have "256 * ?k mod 4096 = 256 * (?k mod 16)" using mult_mod_right [of 256 ?k 16] by simp
  finally have "n_size n mod 4096 - 256 = of_nat (256 * (?k mod 16)) - of_nat 256" by simp
  also have "\<dots> = of_nat (256 * ((?k - 1) mod 16))"
    unfolding m(1) using assms(2) by (subst of_nat_diff [symmetric]) (simp_all add: diff_mult_distrib2)
  finally have e: "n_size n mod 4096 - 256 = of_nat (256 * ((?k - 1) mod 16))" .
  have "(?k - 1) mod 16 < 16" by simp
  then have "256 * ((?k - 1) mod 16) < 2 ^ 63" by simp
  then show "off_t (n_size n mod 4096 - 256) = int (256 * ((?k - 1) mod 16))"
    unfolding e by (rule off_t_of_nat)
qed

lemma of_nat_eq_u64: "a < 2 ^ 64 \<Longrightarrow> b < 2 ^ 64 \<Longrightarrow> (of_nat a :: u64) = of_nat b \<longleftrightarrow> a = b"
  by (simp add: word_unat_eq_iff unat_of_nat)

lemma last_slot_iff:
  assumes "dir_ok s n" "t < entry_count n"
  shows "(of_nat (256 * (t mod 16) + t div 16 * 4096) = n_size n - 256) \<longleftrightarrow> t = entry_count n - 1"
proof -
  let ?k = "entry_count n"
  have k: "256 * t < 2 ^ 64" "256 * (?k - 1) < 2 ^ 64" "256 \<le> 256 * ?k" 
    using dir_count(1) [OF assms(1)] assms(2) by simp_all
  have a: "256 * (t mod 16) + t div 16 * 4096 = 256 * t" using mult_div_mod_eq [of 16 t] by linarith
  have "n_size n - of_nat 256 = of_nat (256 * (?k - 1))"
    unfolding size_of_count [OF assms(1)] using k(3) by (subst of_nat_diff [symmetric]) (simp_all add: diff_mult_distrib2)
  then have b: "n_size n - 256 = of_nat (256 * (?k - 1))" by simp
  have "(of_nat (256 * t) :: u64) = of_nat (256 * (?k - 1)) \<longleftrightarrow> 256 * t = 256 * (?k - 1)"
    by (rule of_nat_eq_u64 [OF k(1,2)])
  then show ?thesis unfolding a b by simp
qed

lemma last_block_found:
  assumes "fsys_ok s" "file_ok s n" "unat (blocks n) = j + 1"
  shows "\<exists>s'. get_i_block n (blocks n - 1) s = (addrs s n ! j, s') \<and> only_io s s' \<and> dev s' = dev s"
proof -
  have "blocks n = of_nat (unat (blocks n))" by simp
  then have "blocks n - 1 = of_nat j" unfolding assms(3) by simp
  then show ?thesis using get_i_block_file [OF assms(1,2), of j] assms(3) by simp
qed

lemma moved_state:
  assumes "fsys_ok s" "dir_ok s n" "t < entry_count n" "t = entry_count n - 1 \<or> entry_count n mod 16 \<noteq> 0"
    and "length ed = 256"
  shows "\<exists>s3. remove_entry (addrs s n ! (t div 16)) (t div 16) (256 * (t mod 16)) ed n p s =
      (0, drop_last_slot (addrs s n ! ((entry_count n - 1) div 16)) n p s3) \<and>
    kept {} (set (addrs s n)) s s3 \<and> free_set s3 = free_set s \<and> file_ok s3 n \<and>
    addrs s3 n = addrs s n \<and> dev s3 = moved s n t"
proof -
  note d = dir_okD [OF assms(2)]
  let ?l = "entry_count n - 1" and ?z = "replicate 256 0 :: bytes"
  let ?b = "addrs s n ! (t div 16)" and ?c = "addrs s n ! (?l div 16)"
  have lt: "t < 16 * unat (blocks n)" "?l < 16 * unat (blocks n)" "0 < entry_count n" using assms(3) d(6) by simp_all
  have bl: "unat (blocks n) = ?l div 16 + 1" using d(3) lt(3) by linarith
  have z: "length ?z \<le> 256" by simp
  define s1 where "s1 = write_block_arr ?z ?b (int (256 * (t mod 16))) s"
  note p1 = slot_put [OF assms(1) d(1) lt(1) z, folded s1_def]
  have ok1: "fsys_ok s1" using keptD(2) [OF p1(3)] .
  have k1: "kept {} (set (addrs s n)) s s1" using kept_mono [OF p1(3)] slot_block(2) [OF d(1) lt(1)] by blast
  obtain s2 where g: "get_i_block n (blocks n - 1) s1 = (?c, s2)" "only_io s1 s2" "dev s2 = dev s1"
    using last_block_found [OF ok1 p1(5) bl] p1(6) by auto
  have c0: "?c \<noteq> 0" using owned_nonzero [OF slot_block(1) [OF d(1) lt(2)]] .
  have body: "remove_entry ?b (t div 16) (256 * (t mod 16)) ed n p s =
      (0, drop_last_slot ?c n p (move_last_entry ?b (t div 16) (256 * (t mod 16)) ?c ed n s2))"
    using g(1) c0 by (simp add: remove_entry_def s1_def Let_def)
  have ok2: "fsys_ok s2" using keptD(2) [OF kept_same_dev [OF ok1 g(2,3)]] .
  have k2: "kept {} (set (addrs s n)) s s2" using kept_trans [OF k1 kept_same_dev [OF ok1 g(2,3), of "{}" "{}"]] by simp
  note v = same_dev_views [OF g(2,3)]
  have f2: "file_ok s2 n" "addrs s2 n = addrs s n" "free_set s2 = free_set s" "slot s2 n i = slot s n i" for i
    using p1(4-7) v fl_same_dev [OF g(2,3)] by simp_all
  show ?thesis
  proof (cases "t = ?l")
    case True
    then have "move_last_entry ?b (t div 16) (256 * (t mod 16)) ?c ed n s2 = s2"
      using last_slot_iff [OF assms(2,3)] by (simp add: move_last_entry_def)
    moreover have "dev s2 = moved s n t" using True g(3) p1(2) by (simp add: moved_def clear_slot_def Let_def)
    ultimately show ?thesis using body k2 f2 by (intro exI [of _ s2]) simp
  next
    case False
    then have m: "entry_count n mod 16 \<noteq> 0" using assms(4) by simp
    obtain s4 where r: "read_block_arr ed ?c (int (256 * (?l mod 16))) s2 = (rdbytes (dev s2) (slot s n ?l) 256, s4)"
      "only_io s2 s4" "dev s4 = dev s2"
      using slot_get [OF ok2 f2(1) lt(2) assms(5)] f2(2,4) by auto
    let ?v = "rdbytes (dev s2) (slot s n ?l) 256"
    have vl: "length ?v \<le> 256" by simp
    have ok4: "fsys_ok s4" using keptD(2) [OF kept_same_dev [OF ok2 r(2,3)]] .
    note v4 = same_dev_views [OF r(2,3)]
    have f4: "file_ok s4 n" "addrs s4 n = addrs s n" "free_set s4 = free_set s" "slot s4 n i = slot s n i" for i
      using f2 v4 fl_same_dev [OF r(2,3)] by simp_all
    define s5 where "s5 = write_block_arr ?v ?b (int (256 * (t mod 16))) s4"
    note p5 = slot_put [OF ok4 f4(1) lt(1) vl, unfolded f4(2), folded s5_def]
    have ok5: "fsys_ok s5" using keptD(2) [OF p5(3)] .
    define s6 where "s6 = write_block_arr ?z ?c (int (256 * (?l mod 16))) s5"
    have f5: "addrs s5 n = addrs s n" "free_set s5 = free_set s" "slot s5 n i = slot s n i" for i
      using p5(4,6,7) f4 by simp_all
    note p6 = slot_put [OF ok5 p5(5) lt(2) z, unfolded f5(1), folded s6_def]
    have mv: "move_last_entry ?b (t div 16) (256 * (t mod 16)) ?c ed n s2 = s6"
      using False last_slot_iff [OF assms(2,3)] last_offset(1) [OF assms(2) m] r(1)
      by (simp add: move_last_entry_def s5_def s6_def)
    have "?b \<in> set (addrs s n)" "?c \<in> set (addrs s n)" using slot_block(2) [OF d(1)] lt(1,2) by simp_all
    then have "kept {} (set (addrs s n)) s2 s6"
      using kept_mono [OF kept_trans [OF kept_trans [OF kept_same_dev [OF ok2 r(2,3), of "{}" "{}"] p5(3)] p6(3)]] by blast
    then have k6: "kept {} (set (addrs s n)) s s6" using kept_trans [OF k2] by fastforce
    have same: "?v = rdbytes (dev s) (slot s n ?l) 256"
    proof (rule rdbytes_cong)
      fix i assume "i < (256 :: nat)"
      then show "dev s2 (slot s n ?l + i) = dev s (slot s n ?l + i)"
        using slots_apart [OF d(1) lt(1,2) False] by (auto simp: g(3) p1(2) wrbytes_out)
    qed
    have "dev s6 = moved s n t"
      unfolding p6(2) p5(2) f5(3) f4(4) r(3) same using False
      by (simp add: g(3) p1(2) moved_def clear_slot_def Let_def)
    then show ?thesis using body mv k6 p6(4-6) f5 by (intro exI [of _ s6]) simp
  qed
qed

lemma file_ok_drop:
  assumes "file_ok s n" "unat (blocks n) = j + 1" "kept A {addrs s n ! j} s s'"
    and "blocks n' = blocks n - 1" "direct_blocks n' = direct_blocks n" "indirect_blocks n' = indirect_blocks n"
    and "dbl_indirect n' = dbl_indirect n" "trpl_indirect n' = trpl_indirect n"
  shows "file_ok s' n'" "addrs s' n' = take j (addrs s n)" "unat (blocks n') = j"
proof -
  note f = file_okD [OF assms(1)]
  let ?b = "addrs s n ! j"
  have j: "j < unat (blocks n)" "j \<le> unat (blocks n)" using assms(2) by simp_all
  then have b: "?b \<in> set (addrs s n)" by simp
  have ib: "indirect_blocks n \<notin> {?b}"
    using f(6) b f(3) owned_nonzero by (cases "indirect_blocks n = 0") (auto simp: list_all_iff)
  show bl: "unat (blocks n') = j"
  proof -
    have "blocks n = of_nat (unat (blocks n))" by simp
    then have "blocks n' = of_nat j" unfolding assms(2,4) by simp
    then show ?thesis using unat_of_nat_le [of j "blocks n"] assms(2) by simp
  qed
  have "addrs s' n' = take j (addrs s' n)"
    using bl assms(2) by (simp add: addrs_def take_map nth_addr_def assms(5-8))
  then show a: "addrs s' n' = take j (addrs s n)" using addrs_kept [OF assms(1,3) ib] by simp
  have "owned s' c" if c: "c \<in> set (take j (addrs s n))" for c
  proof -
    have "distinct (take j (addrs s n) @ [?b])" using f(4) j by (simp flip: take_Suc_conv_app_nth)
    then have "c \<noteq> ?b" using c by auto
    moreover have "owned s c" using c f(3) in_set_takeD by (fastforce simp: list_all_iff)
    ultimately show ?thesis using keptD(4) [OF assms(3)] by simp
  qed
  moreover have "indirect_blocks n \<noteq> 0 \<Longrightarrow> owned s' (indirect_blocks n)" using keptD(4) [OF assms(3) f(5)] ib by simp
  moreover have "indirect_blocks n \<noteq> 0 \<Longrightarrow> indirect_blocks n \<notin> set (take j (addrs s n))"
    using f(6) in_set_takeD by fastforce
  moreover have "12 < j \<Longrightarrow> indirect_blocks n \<noteq> 0" using f(7) j by simp
  ultimately show "file_ok s' n'"
    using f(1,2,4) j(2) bl a by (simp add: file_ok_def wf_node_def list_all_iff assms(5-8))
qed

definition removed :: "u64 \<Rightarrow> nat \<Rightarrow> fs \<Rightarrow> fs \<Rightarrow> bool" where
  "removed p t s s' \<longleftrightarrow>
     (let n = get_node s p
      in kept {p} (set (addrs s n)) s s' \<and> dir_ok s' (get_node s' p) \<and>
         entries s' (get_node s' p) = remove_at t (entries s n) \<and>
         free_set s' = (if (entry_count n - 1) mod 16 = 0 then insert (last (addrs s n)) (free_set s) else free_set s))"

lemma size_pred:
  assumes "dir_ok s n" "0 < entry_count n"
  shows "unat (n_size n - 256) = 256 * (entry_count n - 1)"
    "(n_size n - 256) mod 4096 = 0 \<longleftrightarrow> (entry_count n - 1) mod 16 = 0"
proof -
  let ?l = "entry_count n - 1"
  have "n_size n - of_nat 256 = of_nat (256 * ?l)"
    using assms(2) unfolding size_of_count [OF assms(1)] by (subst of_nat_diff [symmetric]) (simp_all add: diff_mult_distrib2)
  then have sz: "n_size n - 256 = of_nat (256 * ?l)" by simp
  have lt: "256 * ?l < 2 ^ 64" using dir_count(1) [OF assms(1)] by simp
  then show "unat (n_size n - 256) = 256 * ?l" unfolding sz by (simp only: unat_of_nat) simp
  have "(n_size n - 256) mod of_nat 4096 = of_nat (256 * ?l mod 4096)"
    unfolding sz using lt by (intro u64_mod) simp_all
  moreover have "256 * ?l mod 4096 = 256 * (?l mod 16)" using mult_mod_right [of 256 ?l 16] by simp
  moreover have "(of_nat (256 * (?l mod 16)) :: u64) = of_nat 0 \<longleftrightarrow> 256 * (?l mod 16) = 0"
    by (rule of_nat_eq_u64) (simp_all add: less_le_trans [OF mod_less_divisor])
  ultimately show "(n_size n - 256) mod 4096 = 0 \<longleftrightarrow> ?l mod 16 = 0" by simp
qed

lemma drop_last_slot_ok:
  assumes "fsys_ok s" "inode_slot s p" "dir_ok s (get_node s p)" "t < entry_count (get_node s p)"
    and "kept {} (set (addrs s (get_node s p))) s s3" "free_set s3 = free_set s" "file_ok s3 (get_node s p)"
    and "addrs s3 (get_node s p) = addrs s (get_node s p)" "dev s3 = moved s (get_node s p) t"
  shows "removed p t s (drop_last_slot (addrs s (get_node s p) ! ((entry_count (get_node s p) - 1) div 16)) (get_node s p) p s3)"
proof -
  define n where "n = get_node s p"
  note a = assms [folded n_def]
  note d = dir_okD [OF a(3)]
  let ?l = "entry_count n - 1"
  let ?c = "addrs s n ! (?l div 16)"
  have lt: "?l < 16 * unat (blocks n)" "0 < entry_count n" using a(4) d(6) by simp_all
  have bl: "unat (blocks n) = ?l div 16 + 1" using d(3) lt(2) by linarith
  have ok3: "fsys_ok s3" using keptD(2) [OF a(5)] .
  have last: "last (addrs s n) = ?c" using bl by (subst last_conv_nth) (auto simp flip: length_0_conv)
  have cm: "?c \<in> set (addrs s n)" using slot_block(2) [OF d(1) lt(1)] .
  have oc: "owned s3 ?c" using file_okD(3) [OF a(7)] cm a(8) by (simp add: list_all_iff)
  have sl3: "inode_slot s3 p" using a(2) inode_slot_only_io [OF keptD(1) [OF a(5)]] by simp
  note mod = size_pred(2) [OF a(3) lt(2)]
  define n' where "n' = n\<lparr>n_size := n_size n - 256, blocks := if ?l mod 16 = 0 then blocks n - 1 else blocks n\<rparr>"
  define s4 where "s4 = (if ?l mod 16 = 0 then snd (free_block (drive s3) ?c s3) else s3)"
  define s5 where "s5 = s4\<lparr>ticks := Suc (ticks s4)\<rparr>"
  have body: "drop_last_slot ?c n p s3 =
      store_node (n'\<lparr>data_time := clock s4 (ticks s4), change_time := clock s4 (ticks s4)\<rparr>) p s5"
    (is "_ = store_node ?n p s5")
    using mod by (cases "?l mod 16 = 0")
      (simp_all add: drop_last_slot_def n'_def s4_def s5_def get_current_time_in_nsec_def Let_def case_prod_unfold)
  obtain r s0 where fb: "free_block (drive s3) ?c s3 = (r, s0)" by fastforce
  note k0 = free_kept [OF ok3 oc fb]
  have k34: "kept {} {?c} s3 s4" "free_set s4 = (if ?l mod 16 = 0 then insert ?c (free_set s) else free_set s)"
    using k0 fb a(6) kept_mono [OF kept_same_dev [OF ok3, of s3 "{}" "{}"], of "{}" "{?c}"]
    by (simp_all add: s4_def only_io_def)
  have io5: "only_io s4 s5" "dev s5 = dev s4" by (simp_all add: s5_def only_io_def)
  have ok4: "fsys_ok s4" using keptD(2) [OF k34(1)] .
  note v5 = same_dev_views [OF io5] and fs5 = fl_same_dev [OF io5]
  have k5: "kept {} (set (addrs s n)) s s5"
    using kept_mono [OF kept_trans [OF kept_trans [OF a(5) k34(1)] kept_same_dev [OF ok4 io5, of "{}" "{}"]], of "{}" "set (addrs s n)"] cm
    by auto
  have f4: "file_ok s4 n' \<and> addrs s4 n' = take (unat (blocks n')) (addrs s n) \<and> unat (blocks n') = (?l + 15) div 16"
  proof (cases "?l mod 16 = 0")
    case True
    then have "blocks n' = blocks n - 1" by (simp add: n'_def)
    note fd = file_ok_drop [OF a(7) bl, unfolded a(8), OF k34(1) this]
    have "(?l + 15) div 16 = ?l div 16" using True mult_div_mod_eq [of 16 ?l] by linarith
    then show ?thesis using fd by (simp add: n'_def)
  next
    case False
    then have "s4 = s3" "(?l + 15) div 16 = ?l div 16 + 1"
      using mult_div_mod_eq [of 16 ?l] by (simp add: s4_def, linarith)
    then show ?thesis
      using False a(7,8) bl file_ok_cong [of n' n s3] addrs_cong [of n' n s3] by (simp add: n'_def)
  qed
  have d4: "dev s4 x = moved s n t x" if i: "i < 16 * unat (blocks n')" and x: "slot s n i \<le> x" "x < slot s n i + 256" for i x
  proof (cases "?l mod 16 = 0")
    case True
    then have b: "unat (blocks n') = ?l div 16" using f4 mult_div_mod_eq [of 16 ?l] by linarith
    have i16: "i < 16 * unat (blocks n)" "i div 16 \<noteq> ?l div 16" using i b bl by (linarith, auto)
    have "addrs s n ! (i div 16) \<notin> {?c}" using dir_slot_other [OF a(3) i16] bl by simp
    moreover have "owned s3 (addrs s n ! (i div 16))" using slot_block(1) [OF a(7) i16(1)] a(8) by simp
    ultimately have "same_block (dev s3) (dev s4) (addrs s3 n ! (i div 16))" using keptD(5) [OF k34(1)] a(8) by simp
    then show ?thesis using slot_same [OF a(7) i16(1)] x a(8,9) by (simp add: slot_def)
  qed (simp add: s4_def a(9))
  have sl5: "inode_slot s5 p" using a(2) inode_slot_only_io [OF keptD(1) [OF k5]] by simp
  have wf: "wf_node ?n" using file_okD(1) [OF conjunct1 [OF f4]] by (simp add: wf_node_def)
  note st = store_kept [OF keptD(2) [OF k5] sl5 wf]
  let ?s = "store_node ?n p s5"
  have k: "kept {p} (set (addrs s n)) s ?s" using kept_trans [OF k5 st(1)] by simp
  have fo: "file_ok s5 ?n" using f4 v5 file_ok_cong [of ?n n' s5] by simp
  then have "file_ok ?s ?n" using file_ok_kept [OF fo st(1)] by simp
  have ad: "addrs ?s ?n = take (unat (blocks n')) (addrs s n)"
    using addrs_kept [OF fo st(1)] addrs_cong [of ?n n' s5] f4 v5 by simp
  have "file_ok ?s ?n" by fact
  moreover have "slot ?s ?n i = slot s n i" if "i < 16 * unat (blocks n')" for i
    using that by (simp add: slot_def ad less_mult_imp_div_less mult.commute)
  moreover have "dev ?s x = moved s n t x" if i: "i < 16 * unat (blocks n')" and x: "slot s n i \<le> x" "x < slot s n i + 256" for i x
  proof -
    have "unat (blocks n') \<le> unat (blocks n)" using f4 bl by linarith
    then have i': "i < 16 * unat (blocks n)" using i by linarith
    have "unat (inode_byte_boundary s) \<le> unat (addrs s n ! (i div 16))"
      using slot_block(1) [OF d(1) i'] by (simp add: owned_def data_block_def)
    then have "unat (inode_byte_boundary s5) \<le> x"
      using slot_block(3) [OF d(1) i'] x(1) only_ioD(5) [OF keptD(1) [OF k5]] by simp
    then show ?thesis using st(4) d4 [OF i x] io5(2) by simp
  qed
  ultimately have "dir_ok ?s ?n" "entries ?s ?n = remove_at t (entries s n)"
    using f4 by (intro dir_shrink [OF a(3,4)]; simp add: n'_def)+
  then show ?thesis using st(2,3) k k34(2) fs5 last unfolding removed_def n_def [symmetric] body by (simp add: Let_def)
qed

text \<open>Where the search of both operations arrives.\<close>

definition entry_index :: "fs \<Rightarrow> node \<Rightarrow> u64 \<Rightarrow> nat option" where
  "entry_index s n c = find (\<lambda>t. snd (entries s n ! t) = c) [0..<entry_count n]"

lemma entry_index_Some:
  "entry_index s n c = Some t \<longleftrightarrow>
     t < entry_count n \<and> snd (entries s n ! t) = c \<and> (\<forall>i < t. snd (entries s n ! i) \<noteq> c)"
  unfolding entry_index_def find_Some_iff by auto

lemma entry_index_None: "entry_index s n c = None \<longleftrightarrow> c \<notin> snd ` set (entries s n)"
proof -
  have "c \<in> snd ` set (entries s n) \<longleftrightarrow> (\<exists>t < entry_count n. snd (entries s n ! t) = c)"
    unfolding set_conv_nth image_iff length_entries by blast
  then show ?thesis by (auto simp: entry_index_def find_None_iff)
qed

lemma find_link_index:
  assumes "fsys_ok s" "dir_ok s n"
  shows "\<exists>s'. find_link 0 child c n s =
      Some (map_option (\<lambda>t. (addrs s n ! (t div 16), t div 16, 256 * (t mod 16))) (entry_index s n c), s') \<and>
    only_io s s' \<and> dev s' = dev s"
  using find_link_finds [OF assms, of 0 child c] by (simp add: entry_index_def)

lemma removed_same_dev:
  assumes "only_io s s0" "dev s0 = dev s" "fsys_ok s" "removed p t s0 s'"
  shows "removed p t s s'"
  using assms(4) kept_trans [OF kept_same_dev [OF assms(3,1,2), of "{}" "{}"]] fl_same_dev [OF assms(1,2)]
  by (auto simp: removed_def Let_def same_dev_views [OF assms(1,2)])

text \<open>The search as \<^verbatim>\<open>remove_link_from_parent\<close> and \<^verbatim>\<open>rename_from_parent\<close> start it.\<close>

lemma search_from:
  assumes "fsys_ok s" "dir_ok s (get_node s p)" "only_io s s0" "dev s0 = dev s"
  shows "\<exists>s1. find_link 0 0 c (get_node s p) s0 =
      Some (map_option (\<lambda>t. (addrs s (get_node s p) ! (t div 16), t div 16, 256 * (t mod 16)))
              (entry_index s (get_node s p) c), s1) \<and>
    only_io s s1 \<and> dev s1 = dev s \<and> fsys_ok s1"
proof -
  note v = same_dev_views [OF assms(3,4)]
  have ok: "fsys_ok s0" using keptD(2) [OF kept_same_dev [OF assms(1,3,4)]] .
  have "dir_ok s0 (get_node s p)" using assms(2) v by simp
  from find_link_index [OF ok this, of 0 c]
  obtain s1 where r: "find_link 0 0 c (get_node s p) s0 =
      Some (map_option (\<lambda>t. (addrs s (get_node s p) ! (t div 16), t div 16, 256 * (t mod 16)))
              (entry_index s (get_node s p) c), s1)" "only_io s0 s1" "dev s1 = dev s0"
    by (auto simp: v entry_index_def)
  have io: "only_io s s1" "dev s1 = dev s" using only_io_trans [OF assms(3) r(2)] r(3) assms(4) by simp_all
  have "fsys_ok s1" using keptD(2) [OF kept_same_dev [OF assms(1) io]] .
  then show ?thesis using r(1) io by blast
qed

lemma remove_link_ok:
  assumes "fsys_ok s" "inode_slot s p" "dir_ok s (get_node s p)" "entry_index s (get_node s p) c = Some t" "c \<noteq> 0"
    and "t = entry_count (get_node s p) - 1 \<or> entry_count (get_node s p) mod 16 \<noteq> 0"
  shows "\<exists>s'. remove_link_from_parent p c s = Some (0, s') \<and> removed p t s s'"
proof -
  let ?n = "get_node s p"
  note d = dir_okD [OF assms(3)]
  have ok: "ok_dev s" "node_ok s p" using fsys_okD(3) slot_ok assms(1,2) by blast+
  have nz: "p \<noteq> 0" "c \<noteq> 0" using ok assms(5) by (simp_all add: node_ok_def)
  have t: "t < entry_count ?n" using assms(4) by (simp add: entry_index_Some)
  let ?s = "s\<lparr>fresh := Suc (Suc (fresh s)), pos := unat p + 208\<rparr>"
  let ?ed = "map (junk s (fresh s)) [0..<256]"
  have io: "only_io s ?s" "dev ?s = dev s" by (simp_all add: only_io_def)
  obtain s1 where f: "find_link 0 0 c ?n ?s = Some (Some (addrs s ?n ! (t div 16), t div 16, 256 * (t mod 16)), s1)"
    "only_io s s1" "dev s1 = dev s" "fsys_ok s1"
    using search_from [OF assms(1,3) io, of c] assms(4) by auto
  note v = same_dev_views [OF f(2,3)]
  have n1: "get_node s1 p = ?n" by (rule v(1))
  have d1: "dir_ok s1 ?n" using assms(3) v by simp
  have ed: "length ?ed = 256" by simp
  obtain s3 where m: "remove_entry (addrs s1 ?n ! (t div 16)) (t div 16) (256 * (t mod 16)) ?ed ?n p s1 =
      (0, drop_last_slot (addrs s1 ?n ! ((entry_count ?n - 1) div 16)) ?n p s3)"
    "kept {} (set (addrs s1 ?n)) s1 s3" "free_set s3 = free_set s1" "file_ok s3 ?n"
    "addrs s3 ?n = addrs s1 ?n" "dev s3 = moved s1 ?n t"
    using moved_state [OF f(4) d1 t assms(6) ed] by blast
  have sl: "inode_slot s1 p" using assms(2) inode_slot_only_io [OF f(2)] by simp
  have "removed p t s1 (drop_last_slot (addrs s1 ?n ! ((entry_count ?n - 1) div 16)) ?n p s3)"
    using drop_last_slot_ok [OF f(4) sl, unfolded n1, OF d1 t m(2-6)] .
  then have "removed p t s (drop_last_slot (addrs s1 ?n ! ((entry_count ?n - 1) div 16)) ?n p s3)"
    by (rule removed_same_dev [OF f(2,3) assms(1)])
  moreover have "remove_link_from_parent p c s = Some (0, drop_last_slot (addrs s1 ?n ! ((entry_count ?n - 1) div 16)) ?n p s3)"
    using nz ok f(1) m(1) v(2) by (simp add: remove_link_from_parent_def io_simps get_node_def [symmetric] uninit_def)
  ultimately show ?thesis by blast
qed

lemma remove_link_missing:
  assumes "fsys_ok s" "inode_slot s p" "dir_ok s (get_node s p)" "c = 0 \<or> entry_index s (get_node s p) c = None"
  shows "\<exists>s'. remove_link_from_parent p c s = Some (-1, s') \<and> only_io s s' \<and> dev s' = dev s"
proof -
  let ?n = "get_node s p"
  have ok: "ok_dev s" "node_ok s p" using fsys_okD(3) slot_ok assms(1,2) by blast+
  let ?s = "s\<lparr>fresh := Suc (Suc (fresh s)), pos := unat p + 208\<rparr>"
  have io: "only_io s ?s" "dev ?s = dev s" by (simp_all add: only_io_def)
  show ?thesis
  proof (cases "c = 0")
    case False
    then obtain s1 where f: "find_link 0 0 c ?n ?s = Some (None, s1)" "only_io s s1" "dev s1 = dev s"
      using search_from [OF assms(1,3) io, of c] assms(4) by auto
    have "remove_link_from_parent p c s = Some (-1, s1)"
      using False ok f(1) by (simp add: remove_link_from_parent_def io_simps get_node_def [symmetric] uninit_def node_ok_def)
    then show ?thesis using f by blast
  qed (auto simp: remove_link_from_parent_def only_io_def)
qed

section \<open>Renaming an entry\<close>

lemma store_dir:
  assumes "fsys_ok s" "inode_slot s p" "file_ok s m"
  shows "kept {p} {} s (store_node m p s)" "get_node (store_node m p s) p = m"
    "free_set (store_node m p s) = free_set s" "file_ok (store_node m p s) m"
    "slot (store_node m p s) m i = slot s m i"
    "i < 16 * unat (blocks m) \<Longrightarrow> slot s m i \<le> x \<Longrightarrow> dev (store_node m p s) x = dev s x"
proof -
  note st = store_kept [OF assms(1,2) file_okD(1) [OF assms(3)]]
  show "kept {p} {} s (store_node m p s)" "get_node (store_node m p s) p = m"
    "free_set (store_node m p s) = free_set s" by (rule st)+
  show "file_ok (store_node m p s) m" using file_ok_kept [OF assms(3) st(1)] by simp
  show "slot (store_node m p s) m i = slot s m i" by (simp add: slot_def addrs_kept [OF assms(3) st(1)])
  show "dev (store_node m p s) x = dev s x" if "i < 16 * unat (blocks m)" "slot s m i \<le> x"
  proof (rule st(4))
    have "unat (inode_byte_boundary s) \<le> unat (addrs s m ! (i div 16))"
      using slot_block(1) [OF assms(3) that(1)] by (simp add: owned_def data_block_def)
    then show "unat (inode_byte_boundary s) \<le> x" using slot_block(3) [OF assms(3) that(1)] that(2) by simp
  qed
qed

definition renamed :: "u64 \<Rightarrow> nat \<Rightarrow> bytes \<Rightarrow> fs \<Rightarrow> fs \<Rightarrow> bool" where
  "renamed p t name s s' \<longleftrightarrow>
     (let n = get_node s p
      in kept {p} (set (addrs s n)) s s' \<and> dir_ok s' (get_node s' p) \<and>
         entries s' (get_node s' p) = (entries s n)[t := (name, snd (entries s n ! t))] \<and>
         free_set s' = free_set s)"

text \<open>A change of one entry in place.\<close>

lemma dir_update:
  assumes "dir_ok s n" "t < entry_count n" "file_ok s' n'" "n_size n' = n_size n" "blocks n' = blocks n"
    and "\<And>i. slot s' n' i = slot s n i"
    and "\<And>i x. i < 16 * unat (blocks n) \<Longrightarrow> i \<noteq> t \<Longrightarrow> slot s n i \<le> x \<Longrightarrow> x < slot s n i + 256 \<Longrightarrow> dev s' x = dev s x"
    and "ent (dev s') (slot s n t) = e" "valid_ent (dev s') (slot s n t)"
  shows "dir_ok s' n'" "entries s' n' = (entries s n)[t := e]"
proof -
  note d = dir_okD [OF assms(1)]
  have cnt: "entry_count n' = entry_count n" by (simp add: entry_count_def assms(4))
  have old: "ent (dev s') (slot s n i) = ent (dev s) (slot s n i)"
    "valid_ent (dev s') (slot s n i) = valid_ent (dev s) (slot s n i)" if "i < 16 * unat (blocks n)" "i \<noteq> t" for i
    using assms(7) [OF that] by (auto intro!: ent_same)
  have "valid_ent (dev s') (slot s n i)" if "i < entry_count n" for i
    using old(2) [of i] d(4,6) assms(9) that by (cases "i = t") auto
  moreover have "dev s' (slot s n i) = 0" if "entry_count n \<le> i" "i < 16 * unat (blocks n)" for i
    using assms(2) assms(7) [of i "slot s n i"] d(5) [of i] that by auto
  ultimately show "dir_ok s' n'"
    using assms(3) d(2,3) cnt by (simp add: dir_ok_def assms(4-6))
  show "entries s' n' = (entries s n)[t := e]"
  proof (rule nth_equalityI)
    fix i assume "i < length (entries s' n')"
    then have i: "i < entry_count n" "i < 16 * unat (blocks n)" using d(6) by (simp_all add: cnt)
    then show "entries s' n' ! i = (entries s n)[t := e] ! i"
      using old(1) [of i] assms(6,8) by (cases "i = t") (simp_all add: cnt)
  qed (simp add: cnt)
qed

lemma rename_entry_ok:
  assumes "fsys_ok s" "inode_slot s p" "dir_ok s (get_node s p)" "t < entry_count (get_node s p)"
    and "name \<noteq> []" "wf_name name" "length name < 248"
  defines "n \<equiv> get_node s p"
  shows "\<exists>s'. rename_entry (addrs s n ! (t div 16)) (256 * (t mod 16)) name n p s = (0, s') \<and> renamed p t name s s'"
proof -
  note a = assms(3,4) [folded n_def]
  note d = dir_okD [OF a(1)]
  let ?b = "addrs s n ! (t div 16)" and ?z = "replicate 248 0 :: bytes"
  have lt: "t < 16 * unat (blocks n)" using a(2) d(6) by simp
  have z: "length ?z \<le> 256" "length name \<le> 256" using assms(7) by simp_all
  define s1 where "s1 = write_block_arr ?z ?b (int (256 * (t mod 16))) s"
  note p1 = slot_put [OF assms(1) d(1) lt z(1), folded s1_def]
  have ok1: "fsys_ok s1" using keptD(2) [OF p1(3)] .
  define s2 where "s2 = write_block_arr name ?b (int (256 * (t mod 16))) s1"
  note p2 = slot_put [OF ok1 p1(5) lt z(2), unfolded p1(6), folded s2_def]
  have k2: "kept {} {?b} s s2" using kept_trans [OF p1(3) p2(3)] by simp
  have ok2: "fsys_ok s2" using keptD(2) [OF k2] .
  have f2: "addrs s2 n = addrs s n" using p2(6) p1(6) by simp
  have "t mod 16 < 16" by simp
  then have "256 * (t mod 16) + length ?z \<le> 4096" by simp
  then obtain q where r: "read_block_arr ?z ?b (int (256 * (t mod 16))) s2 = (q, s2\<lparr>pos := unat ?b + 256 * (t mod 16) + 248\<rparr>)"
    using read_block_arr_in [of s2 ?b "256 * (t mod 16)" ?z] fsys_okD(3) [OF ok2]
      owned_block_ok [OF slot_block(1) [OF p2(5) lt]] f2 by auto
  let ?t = "clock s2 (ticks s2)"
  let ?n = "n\<lparr>data_time := ?t, change_time := ?t\<rparr>"
  define s3 where "s3 = s2\<lparr>pos := unat ?b + 256 * (t mod 16) + 248, ticks := Suc (ticks s2)\<rparr>"
  have nm: "take (min (length name) 248) (name @ [0]) = name" using assms(7) by simp
  have body: "rename_entry ?b (256 * (t mod 16)) name n p s = (0, store_node ?n p s3)"
    unfolding rename_entry_def Let_def nm s1_def [symmetric] s2_def [symmetric] r
    by (simp add: s3_def get_current_time_in_nsec_def)
  have io: "only_io s2 s3" "dev s3 = dev s2" by (simp_all add: s3_def only_io_def)
  note v = same_dev_views [OF io] and k3 = kept_trans [OF k2 kept_same_dev [OF ok2 io, of "{}" "{}"]]
  have f3: "file_ok s3 ?n" using p2(5) file_ok_cong [of ?n n s3] v by simp
  have sl3: "slot s3 ?n i = slot s n i" for i
    using addrs_cong [of ?n n s3] f2 v by (simp add: slot_def)
  have in3: "inode_slot s3 p" using assms(2) inode_slot_only_io [OF keptD(1) [OF k3]] by simp
  have ok3: "fsys_ok s3" using keptD(2) [OF k3] .
  let ?s = "store_node ?n p s3" and ?P = "slot s n t"
  note st = store_dir [OF ok3 in3 f3, unfolded sl3]
  have dv: "dev s3 = wrbytes (wrbytes (dev s) ?P ?z) ?P name"
    using io(2) p2(2) p1(2,7) by simp
  have mem: "dev ?s x = wrbytes (wrbytes (dev s) ?P ?z) ?P name x" if "i < 16 * unat (blocks n)" "slot s n i \<le> x" for i x
    using st(6) [of i x] that dv by simp
  have pre: "rdbytes (dev ?s) ?P 248 = name @ replicate (248 - length name) 0"
    using assms(7) mem [OF lt] by (intro nth_equalityI) (auto simp: wrbytes_def nth_append)
  have "rd64 (dev ?s) (?P + 248) = rd64 (dev s) (?P + 248)"
    using assms(7) mem [OF lt] by (intro rd64_cong) (simp add: wrbytes_out)
  moreover have "dev ?s ?P = hd name" using mem [OF lt] assms(5) by (simp add: wrbytes_def hd_conv_nth)
  moreover have "hd name \<noteq> 0" using assms(5,6) by (cases name) auto
  moreover have "valid_ent (dev s) ?P" using d(4) a(2) .
  moreover have "cstr (rdbytes (dev ?s) ?P 248) = name" "0 \<in> set (rdbytes (dev ?s) ?P 248)"
    unfolding pre using assms(6,7) by (cases "248 - length name"; simp)+
  ultimately have e: "ent (dev ?s) ?P = (name, snd (entries s n ! t))" "valid_ent (dev ?s) ?P"
    using a(2) by (simp_all add: ent_def valid_ent_def)
  have other: "dev ?s x = dev s x" if "i < 16 * unat (blocks n)" "i \<noteq> t" "slot s n i \<le> x" "x < slot s n i + 256" for i x
    using mem [OF that(1,3)] slots_apart [OF d(1) that(1) lt that(2)] that(3,4) assms(7) by (auto simp: wrbytes_out)
  have "dir_ok ?s ?n" "entries ?s ?n = (entries s n)[t := (name, snd (entries s n ! t))]"
    by (rule dir_update [OF a _ _ _ _ other e]; simp add: st(4,5))+
  moreover have "kept {p} (set (addrs s n)) s ?s"
    using kept_mono [OF kept_trans [OF k3 st(1)], of "{p}" "set (addrs s n)"] slot_block(2) [OF d(1) lt] by auto
  moreover have "free_set ?s = free_set s"
    using st(3) fl_same_dev [OF io] p2(4) p1(4) by simp
  ultimately show ?thesis using body st(2) by (auto simp: renamed_def Let_def n_def [symmetric])
qed

lemma rename_ok:
  assumes "fsys_ok s" "inode_slot s p" "dir_ok s (get_node s p)" "entry_index s (get_node s p) c = Some t" "c \<noteq> 0"
    and "name \<noteq> []" "wf_name name" "length name < 248"
  shows "\<exists>s'. rename_from_parent p c name s = Some (0, s') \<and> renamed p t name s s'"
proof -
  let ?n = "get_node s p"
  have ok: "ok_dev s" "node_ok s p" using fsys_okD(3) slot_ok assms(1,2) by blast+
  have nz: "p \<noteq> 0" "c \<noteq> 0" using ok assms(5) by (simp_all add: node_ok_def)
  have t: "t < entry_count ?n" using assms(4) by (simp add: entry_index_Some)
  let ?s = "s\<lparr>fresh := Suc (fresh s), pos := unat p + 208\<rparr>"
  have io: "only_io s ?s" "dev ?s = dev s" by (simp_all add: only_io_def)
  obtain s1 where f: "find_link 0 0 c ?n ?s = Some (Some (addrs s ?n ! (t div 16), t div 16, 256 * (t mod 16)), s1)"
    "only_io s s1" "dev s1 = dev s" "fsys_ok s1"
    using search_from [OF assms(1,3) io, of c] assms(4) by auto
  note v = same_dev_views [OF f(2,3)]
  have n1: "get_node s1 p = ?n" by (rule v(1))
  have d1: "dir_ok s1 ?n" using assms(3) v by simp
  have sl: "inode_slot s1 p" using assms(2) inode_slot_only_io [OF f(2)] by simp
  obtain s2 where r: "rename_entry (addrs s1 ?n ! (t div 16)) (256 * (t mod 16)) name ?n p s1 = (0, s2)"
    "renamed p t name s1 s2"
    using rename_entry_ok [OF f(4) sl, unfolded n1, OF d1 t assms(6-8)] by blast
  have "renamed p t name s s2"
    using r(2) kept_trans [OF kept_same_dev [OF assms(1) f(2,3), of "{}" "{}"]] fl_same_dev [OF f(2,3)] v
    by (auto simp: renamed_def Let_def)
  moreover have "rename_from_parent p c name s = Some (0, s2)"
    using nz ok f(1) r(1) v(2) by (simp add: rename_from_parent_def io_simps get_node_def [symmetric])
  ultimately show ?thesis by blast
qed

section \<open>The last entry of a full block\<close>

text \<open>
  When the last block is full, \<open>size % BLOCKSIZE\<close> is 0 and the offset of the last entry
  comes out as -256: it is neither read nor cleared, and the slot of the removed entry gets what
  was on the stack.
\<close>

definition entry_of :: "bytes \<Rightarrow> bytes \<times> u64" where
  "entry_of bs = (cstr (take 248 bs), of_le (take 8 (drop 248 bs)))"

lemma full_block_offset:
  assumes "dir_ok s n" "entry_count n mod 16 = 0"
  shows "off_t (n_size n mod 4096 - 256) = - 256"
proof -
  have "n_size n mod 4096 = 0" using dir_count(3) [OF assms(1)] assms(2) by simp
  then show ?thesis by (simp add: off_t_def)
qed

lemma ent_wrbytes:
  assumes "length bs = 256"
  shows "ent (wrbytes m p bs) p = entry_of bs"
proof -
  have "rdbytes (wrbytes m p bs) p 248 = take 248 bs" using assms by (simp add: rdbytes_wrbytes_inside)
  moreover have "rdbytes (wrbytes m p bs) (p + 248) 8 = take 8 (drop 248 bs)"
    using assms by (simp add: rdbytes_wrbytes_inside)
  ultimately show ?thesis by (simp add: ent_def entry_of_def rd64_def)
qed

lemma remove_entry_full:
  assumes "fsys_ok s" "inode_slot s p" "dir_ok s (get_node s p)" "t < entry_count (get_node s p) - 1"
    and "entry_count (get_node s p) mod 16 = 0" "length ed = 256"
  defines "n \<equiv> get_node s p"
  shows "\<exists>s'. remove_entry (addrs s n ! (t div 16)) (t div 16) (256 * (t mod 16)) ed n p s = (0, s') \<and>
    entries s' (get_node s' p) = (butlast (entries s n))[t := entry_of ed]"
proof -
  note a = assms(3-5) [folded n_def]
  note d = dir_okD [OF a(1)]
  let ?b = "addrs s n ! (t div 16)" and ?z = "replicate 256 0 :: bytes" and ?l = "entry_count n - 1"
  let ?c = "addrs s n ! (?l div 16)"
  have lt: "t < 16 * unat (blocks n)" "?l < 16 * unat (blocks n)" "t < entry_count n" "0 < entry_count n" "t \<noteq> ?l"
    using a(2) d(6) by simp_all
  have bl: "unat (blocks n) = ?l div 16 + 1" using d(3) lt(4) by linarith
  have z: "length ?z \<le> 256" "length ed \<le> 256" using assms(6) by simp_all
  define s1 where "s1 = write_block_arr ?z ?b (int (256 * (t mod 16))) s"
  note p1 = slot_put [OF assms(1) d(1) lt(1) z(1), folded s1_def]
  have ok1: "fsys_ok s1" using keptD(2) [OF p1(3)] .
  obtain s2 where g: "get_i_block n (blocks n - 1) s1 = (?c, s2)" "only_io s1 s2" "dev s2 = dev s1"
    using last_block_found [OF ok1 p1(5) bl] p1(6) by auto
  have c0: "?c \<noteq> 0" using owned_nonzero [OF slot_block(1) [OF d(1) lt(2)]] .
  have ok2: "fsys_ok s2" using keptD(2) [OF kept_same_dev [OF ok1 g(2,3)]] .
  note v = same_dev_views [OF g(2,3)]
  have f2: "file_ok s2 n" "addrs s2 n = addrs s n" "slot s2 n i = slot s n i" for i
    using p1(5-7) v by simp_all
  define s3 where "s3 = write_block_arr ed ?b (int (256 * (t mod 16))) s2"
  note p3 = slot_put [OF ok2 f2(1) lt(1) z(2), unfolded f2(2), folded s3_def]
  have ok3: "fsys_ok s3" using keptD(2) [OF p3(3)] .
  have rw: "read_block_arr ed ?c (- 256) s2 = (ed, s2)" "write_block_arr ?z ?c (- 256) s3 = s3"
    by (simp_all add: read_block_arr_def write_block_arr_def read_block_def write_block_def)
  have mv: "move_last_entry ?b (t div 16) (256 * (t mod 16)) ?c ed n s2 = s3"
    using lt(5) last_slot_iff [OF a(1) lt(3)] full_block_offset [OF a(1,3)] rw
    by (simp add: move_last_entry_def s3_def)
  have body: "remove_entry ?b (t div 16) (256 * (t mod 16)) ed n p s = (0, drop_last_slot ?c n p s3)"
    using g(1) c0 mv by (simp add: remove_entry_def s1_def Let_def)
  let ?n = "n\<lparr>n_size := n_size n - 256, data_time := clock s3 (ticks s3), change_time := clock s3 (ticks s3)\<rparr>"
  let ?s3 = "s3\<lparr>ticks := Suc (ticks s3)\<rparr>"
  have "?l mod 16 \<noteq> 0" using a(3) lt(4) by presburger
  then have drop: "drop_last_slot ?c n p s3 = store_node ?n p ?s3"
    using size_pred(2) [OF a(1) lt(4)] by (simp add: drop_last_slot_def get_current_time_in_nsec_def)
  have io3: "only_io s3 ?s3" "dev ?s3 = dev s3" by (simp_all add: only_io_def)
  note v3 = same_dev_views [OF io3]
  have fo: "file_ok ?s3 ?n" using p3(5) file_ok_cong [of ?n n ?s3] v3 by simp
  have sl3: "slot ?s3 ?n i = slot s n i" for i
    using addrs_cong [of ?n n ?s3] p3(6) f2(2) v3 by (simp add: slot_def)
  have "inode_slot ?s3 p"
    using assms(2) inode_slot_only_io [OF p1(1)] inode_slot_only_io [OF g(2)] inode_slot_only_io [OF p3(1)] by simp
  note st = store_dir [OF keptD(2) [OF kept_same_dev [OF ok3 io3, of "{}" "{}"]] this fo, unfolded sl3]
  let ?s = "store_node ?n p ?s3"
  have mem: "dev ?s x = wrbytes (wrbytes (dev s) (slot s n t) ?z) (slot s n t) ed x"
    if "i < 16 * unat (blocks n)" "slot s n i \<le> x" for i x
    using st(6) [of i x] that p3(2) f2(3) g(3) p1(2) by simp
  have at: "ent (dev ?s) (slot s n t) = entry_of ed"
  proof -
    have "ent (dev ?s) (slot s n t) = ent (wrbytes (wrbytes (dev s) (slot s n t) ?z) (slot s n t) ed) (slot s n t)"
      using mem [OF lt(1)] by (intro ent_same(1)) simp
    then show ?thesis using ent_wrbytes [OF assms(6)] by simp
  qed
  have other: "ent (dev ?s) (slot s n i) = ent (dev s) (slot s n i)" if "i < 16 * unat (blocks n)" "i \<noteq> t" for i
    using mem [OF that(1)] slots_apart [OF d(1) that(1) lt(1) that(2)] assms(6)
    by (intro ent_same(1)) (auto simp: wrbytes_out)
  have cnt: "entry_count ?n = ?l" using size_pred(1) [OF a(1) lt(4)] by (simp add: entry_count_def)
  have "entries ?s ?n = (butlast (entries s n))[t := entry_of ed]"
  proof (rule nth_equalityI)
    fix i assume "i < length (entries ?s ?n)"
    then have i: "i < ?l" "i < entry_count n" "i < 16 * unat (blocks n)" using d(6) by (simp_all add: cnt)
    then show "entries ?s ?n ! i = (butlast (entries s n))[t := entry_of ed] ! i"
      using at other [of i] st(5) by (cases "i = t") (simp_all add: cnt nth_butlast)
  qed (simp add: cnt)
  then show ?thesis using body drop st(2) by auto
qed

section \<open>Sequences of operations on a directory\<close>

text \<open>
  What a directory goes through: names are entered, the entry of an inode is removed or gets
  another name. The guard leaves out entering with no block for the entry, and the removals that
  the code gets wrong: of an entry before the last one when the last block is full. An inode that is not in the directory may be removed or renamed:
  the call returns -1.
\<close>

datatype dir_op =
    Enter_inode u64 bytes
  | Remove_inode u64
  | Rename_inode u64 bytes

primrec dir_call :: "u64 \<Rightarrow> dir_op \<Rightarrow> fs \<Rightarrow> (int \<times> fs) option" where
  "dir_call p (Enter_inode c name) s = add_to_directory p c name s"
| "dir_call p (Remove_inode c) s = remove_link_from_parent p c s"
| "dir_call p (Rename_inode c name) s = rename_from_parent p c name s"

definition entry_name :: "bytes \<Rightarrow> bool" where
  "entry_name name \<longleftrightarrow> name \<noteq> [] \<and> wf_name name \<and> length name < NAME_LENGTH"

primrec dir_guard :: "u64 \<Rightarrow> dir_op \<Rightarrow> fs \<Rightarrow> bool" where
  "dir_guard p (Enter_inode c name) s \<longleftrightarrow>
     inode_slot s c \<and> c \<noteq> p \<and> entry_name name \<and> has_room s (get_node s p)"
| "dir_guard p (Remove_inode c) s \<longleftrightarrow>
     (let n = get_node s p
      in entry_count n mod 16 \<noteq> 0 \<or> entry_index s n c \<in> {None, Some (entry_count n - 1)})"
| "dir_guard p (Rename_inode c name) s \<longleftrightarrow> entry_name name"

text \<open>The calls of a sequence, with what each returns, and that every one of them is guarded.\<close>

primrec dir_calls :: "u64 \<Rightarrow> dir_op list \<Rightarrow> fs \<Rightarrow> (int list \<times> fs) option" where
  "dir_calls p [] s = Some ([], s)"
| "dir_calls p (x # ops) s =
     (case dir_call p x s of
        None \<Rightarrow> None
      | Some (r, s) \<Rightarrow> map_option (\<lambda>(rs, s). (r # rs, s)) (dir_calls p ops s))"

primrec dir_guards :: "u64 \<Rightarrow> dir_op list \<Rightarrow> fs \<Rightarrow> bool" where
  "dir_guards p [] s = True"
| "dir_guards p (x # ops) s \<longleftrightarrow>
     dir_guard p x s \<and> (case dir_call p x s of None \<Rightarrow> True | Some (r, s) \<Rightarrow> dir_guards p ops s)"

text \<open>
  The same on a list of entries: a name is entered at the end, and the first entry of an inode is
  replaced by the last one or gets another name.
\<close>

fun list_pos :: "u64 \<Rightarrow> (bytes \<times> u64) list \<Rightarrow> nat option" where
  "list_pos c [] = None"
| "list_pos c (e # es) = (if snd e = c then Some 0 else map_option Suc (list_pos c es))"

definition list_find :: "u64 \<Rightarrow> (bytes \<times> u64) list \<Rightarrow> nat option" where
  "list_find c es = (if c = 0 then None else list_pos c es)"

primrec list_call :: "dir_op \<Rightarrow> (bytes \<times> u64) list \<Rightarrow> int \<times> (bytes \<times> u64) list" where
  "list_call (Enter_inode c name) es = (0, es @ [(name, c)])"
| "list_call (Remove_inode c) es =
     (case list_find c es of None \<Rightarrow> (-1, es) | Some t \<Rightarrow> (0, butlast (es[t := last es])))"
| "list_call (Rename_inode c name) es =
     (case list_find c es of None \<Rightarrow> (-1, es) | Some t \<Rightarrow> (0, es[t := (name, c)]))"

primrec list_calls :: "dir_op list \<Rightarrow> (bytes \<times> u64) list \<Rightarrow> int list \<times> (bytes \<times> u64) list" where
  "list_calls [] es = ([], es)"
| "list_calls (x # ops) es =
     (let (r, es) = list_call x es; (rs, es) = list_calls ops es in (r # rs, es))"

lemma list_pos_Some: "list_pos c es = Some t \<longleftrightarrow> t < length es \<and> snd (es ! t) = c \<and> (\<forall>i < t. snd (es ! i) \<noteq> c)"
proof (induction es arbitrary: t)
  case (Cons e es)
  show ?case
  proof (cases t)
    case (Suc u)
    have "(\<forall>i < Suc u. snd ((e # es) ! i) \<noteq> c) \<longleftrightarrow> snd e \<noteq> c \<and> (\<forall>i < u. snd (es ! i) \<noteq> c)"
      by (auto simp: All_less_Suc2)
    then show ?thesis using Cons.IH [of u] Suc by auto
  qed auto
qed simp

lemma list_pos_entries: "list_pos c (entries s n) = entry_index s n c"
proof -
  have "list_pos c (entries s n) = Some t \<longleftrightarrow> entry_index s n c = Some t" for t
    by (simp add: list_pos_Some entry_index_Some)
  then show ?thesis by (metis option.exhaust)
qed

lemma list_find_entries: "list_find c (entries s n) = (if c = 0 then None else entry_index s n c)"
  by (simp add: list_find_def list_pos_entries)

lemma rename_missing:
  assumes "fsys_ok s" "inode_slot s p" "dir_ok s (get_node s p)" "c = 0 \<or> entry_index s (get_node s p) c = None"
  shows "\<exists>s'. rename_from_parent p c name s = Some (-1, s') \<and> only_io s s' \<and> dev s' = dev s"
proof -
  let ?n = "get_node s p"
  have ok: "ok_dev s" "node_ok s p" using fsys_okD(3) slot_ok assms(1,2) by blast+
  let ?s = "s\<lparr>fresh := Suc (fresh s), pos := unat p + 208\<rparr>"
  have io: "only_io s ?s" "dev ?s = dev s" by (simp_all add: only_io_def)
  show ?thesis
  proof (cases "c = 0")
    case False
    then obtain s1 where f: "find_link 0 0 c ?n ?s = Some (None, s1)" "only_io s s1" "dev s1 = dev s"
      using search_from [OF assms(1,3) io, of c] assms(4) by auto
    have "rename_from_parent p c name s = Some (-1, s1)"
      using False ok f(1) by (simp add: rename_from_parent_def io_simps get_node_def [symmetric] uninit_node_def uninit_def node_ok_def)
    then show ?thesis using f by blast
  qed (auto simp: rename_from_parent_def only_io_def)
qed

text \<open>One call: it returns what the list operation returns, and changes the entries alike.\<close>

lemma dir_call_simulates:
  assumes "dir_guard p x s" "fsys_ok s" "inode_slot s p" "dir_ok s (get_node s p)"
  shows "\<exists>r s'. dir_call p x s = Some (r, s') \<and> only_io s s' \<and> fsys_ok s' \<and> dir_ok s' (get_node s' p) \<and>
    (r, entries s' (get_node s' p)) = list_call x (entries s (get_node s p))"
proof (cases x)
  case (Enter_inode c name)
  then have h: "inode_slot s c" "p \<noteq> c" "name \<noteq> []" "wf_name name" "length name < 248" "has_room s (get_node s p)"
    using assms(1) by (auto simp: entry_name_def)
  obtain s' where "add_to_directory p c name s = Some (0, s')" "entered p c name s s'"
    using add_to_directory_ok [OF assms(2,3) h(1,2) assms(4) h(3-6)] by blast
  then show ?thesis using Enter_inode keptD(1,2) by (auto simp: entered_def Let_def)
next
  case (Remove_inode c)
  show ?thesis
  proof (cases "list_find c (entries s (get_node s p))")
    case None
    then have "c = 0 \<or> entry_index s (get_node s p) c = None" by (auto simp: list_find_entries split: if_splits)
    from remove_link_missing [OF assms(2-4) this]
    obtain s' where r: "remove_link_from_parent p c s = Some (-1, s')" "only_io s s'" "dev s' = dev s" by blast
    then show ?thesis
      using Remove_inode None assms(4) keptD(2) [OF kept_same_dev [OF assms(2) r(2,3)]]
      by (auto simp: same_dev_views [OF r(2,3)])
  next
    case (Some t)
    then have c: "entry_index s (get_node s p) c = Some t" "c \<noteq> 0" by (auto simp: list_find_entries split: if_splits)
    then have "t = entry_count (get_node s p) - 1 \<or> entry_count (get_node s p) mod 16 \<noteq> 0"
      using assms(1) Remove_inode c(1) by (auto simp: Let_def)
    from remove_link_ok [OF assms(2-4) c this]
    obtain s' where "remove_link_from_parent p c s = Some (0, s')" "removed p t s s'" by blast
    then show ?thesis
      using Remove_inode Some keptD(1,2) by (auto simp: removed_def remove_at_def Let_def)
  qed
next
  case (Rename_inode c name)
  show ?thesis
  proof (cases "list_find c (entries s (get_node s p))")
    case None
    then have "c = 0 \<or> entry_index s (get_node s p) c = None" by (auto simp: list_find_entries split: if_splits)
    from rename_missing [OF assms(2-4) this]
    obtain s' where r: "rename_from_parent p c name s = Some (-1, s')" "only_io s s'" "dev s' = dev s" by blast
    then show ?thesis
      using Rename_inode None assms(4) keptD(2) [OF kept_same_dev [OF assms(2) r(2,3)]]
      by (auto simp: same_dev_views [OF r(2,3)])
  next
    case (Some t)
    then have c: "entry_index s (get_node s p) c = Some t" "c \<noteq> 0" by (auto simp: list_find_entries split: if_splits)
    have "name \<noteq> []" "wf_name name" "length name < 248" using assms(1) Rename_inode by (auto simp: entry_name_def)
    from rename_ok [OF assms(2-4) c this]
    obtain s' where "rename_from_parent p c name s = Some (0, s')" "renamed p t name s s'" by blast
    moreover have "snd (entries s (get_node s p) ! t) = c" using c(1) unfolding entry_index_Some by blast
    ultimately show ?thesis
      using Rename_inode Some keptD(1,2) by (auto simp: renamed_def Let_def)
  qed
qed

lemma dir_calls_simulate:
  assumes "dir_guards p ops s" "fsys_ok s" "inode_slot s p" "dir_ok s (get_node s p)"
  shows "\<exists>rs s'. dir_calls p ops s = Some (rs, s') \<and> only_io s s' \<and> fsys_ok s' \<and> dir_ok s' (get_node s' p) \<and>
    (rs, entries s' (get_node s' p)) = list_calls ops (entries s (get_node s p))"
  using assms
proof (induction ops arbitrary: s)
  case Nil
  then show ?case by (simp add: only_io_def)
next
  case (Cons x ops)
  have "dir_guard p x s" using Cons.prems(1) by simp
  from dir_call_simulates [OF this Cons.prems(2-4)]
  obtain r s1 where r: "dir_call p x s = Some (r, s1)" "only_io s s1" "fsys_ok s1" "dir_ok s1 (get_node s1 p)"
    "list_call x (entries s (get_node s p)) = (r, entries s1 (get_node s1 p))" by (metis)
  have h: "dir_guards p ops s1" "inode_slot s1 p"
    using Cons.prems r(1) inode_slot_only_io [OF r(2)] by simp_all
  obtain rs s' where "dir_calls p ops s1 = Some (rs, s')" "only_io s1 s'" "fsys_ok s'" "dir_ok s' (get_node s' p)"
    "list_calls ops (entries s1 (get_node s1 p)) = (rs, entries s' (get_node s' p))"
    using Cons.IH [OF h(1) r(3) h(2) r(4)] by metis
  then show ?case using r only_io_trans [OF r(2)] by (intro exI [of _ "r # rs"] exI [of _ s']) simp
qed

section \<open>Properties\<close>

text \<open>
  C10. \<open>add_to_directory\<close> enters the name after the directory's entries, in the last block or in a
  new one, counts the link of the child, and leaves every other inode and every block of other
  files as it was.
\<close>

theorem add_to_directory_enters:
  assumes "fsys_ok s" "inode_slot s p" "inode_slot s c" "p \<noteq> c" "dir_ok s (get_node s p)"
    and "name \<noteq> []" "wf_name name" "length name < NAME_LENGTH" "has_room s (get_node s p)"
  shows "\<exists>s'. add_to_directory p c name s = Some (0, s') \<and>
    dir_ok s' (get_node s' p) \<and> entries s' (get_node s' p) = entries s (get_node s p) @ [(name, c)] \<and>
    links (get_node s' c) = links (get_node s c) + 1 \<and>
    kept {p, c} (insert (indirect_blocks (get_node s p)) (set (addrs s (get_node s p)))) s s'"
  using add_to_directory_ok [OF assms] by (fastforce simp: entered_def Let_def)

text \<open>The sample disk, whose first inode is an empty directory.\<close>

lemma sample_dir:
  "inode_slot pool_fs 4352" "get_node pool_fs 4096 = node_of_bytes (replicate 208 0)"
  "get_node pool_fs 4352 = node_of_bytes (replicate 208 0)"
  "dir_ok pool_fs (get_node pool_fs 4096)" "entries pool_fs (get_node pool_fs 4096) = []"
  "has_room pool_fs (get_node pool_fs 4096)"
proof -
  show "inode_slot pool_fs 4352" by (simp add: inode_slot_def pool_fs_def small_fs_def)
  have z: "rdbytes (dev pool_fs) a 208 = replicate 208 0" if "4096 \<le> a" "a + 208 \<le> 8192" for a
    using that by (intro nth_equalityI)
      (simp_all add: pool_fs_def small_fs_def pool_mem_def wr64_out)
  show n: "get_node pool_fs 4096 = node_of_bytes (replicate 208 0)"
    "get_node pool_fs 4352 = node_of_bytes (replicate 208 0)"
    using z [of 4096] z [of 4352] by (simp_all add: get_node_def node_at_def)
  have e: "blocks (node_of_bytes (replicate 208 0)) = 0" "n_size (node_of_bytes (replicate 208 0)) = 0"
    "indirect_blocks (node_of_bytes (replicate 208 0)) = 0"
    by (simp_all add: node_of_bytes_def)
  then have c: "entry_count (node_of_bytes (replicate 208 0)) = 0" by (simp add: entry_count_def)
  show "dir_ok pool_fs (get_node pool_fs 4096)" using sample_fsys(2) e c by (simp add: n dir_ok_def)
  show "entries pool_fs (get_node pool_fs 4096) = []" by (simp add: n c)
  show "has_room pool_fs (get_node pool_fs 4096)" using sample_fsys(4) e by (simp add: n has_room_def)
qed

theorem add_to_directory_enters_witness:
  "\<exists>s'. add_to_directory 4096 4352 [97] pool_fs = Some (0, s') \<and>
     entries s' (get_node s' 4096) = [([97], 4352)] \<and> links (get_node s' 4352) = 1"
proof -
  have "links (node_of_bytes (replicate 208 0)) = 0" by (simp add: node_of_bytes_def)
  then show ?thesis
    using add_to_directory_enters [OF sample_fsys(1,3) sample_dir(1) _ sample_dir(4) _ _ _ sample_dir(6), of "[97]"]
      sample_dir(3,5) by auto
qed

text \<open>
  A name of 248 bytes or more overflows the array of \<open>add_addr\<close>: the call has a defined
  behaviour exactly when an address is 0 or the name fits.
\<close>

theorem add_addr_defined_iff:
  "add_addr p b c name s = None \<longleftrightarrow> p \<noteq> 0 \<and> b \<noteq> 0 \<and> c \<noteq> 0 \<and> NAME_LENGTH \<le> length name"
proof -
  have "strcpy (map (junk s (fresh s)) [0..<248]) name = None \<longleftrightarrow> 248 \<le> length name"
    by (simp add: strcpy_def not_less)
  then show ?thesis
    by (cases "strcpy (map (junk s (fresh s)) [0..<248]) name")
      (auto simp: add_addr_def uninit_def Let_def split: prod.split)
qed

text \<open>
  \<open>check_block\<close> is a lookup in the association list of the 16 entries of a block, 0 when the
  name is not there.
\<close>

theorem check_block_is_lookup:
  assumes "wf_name name" "\<And>j. j < 16 \<Longrightarrow> 0 \<in> set (rdbytes m (b + 256 * j) NAME_LENGTH)"
  shows "\<exists>s'. check_block (rdbytes m b BLOCKSIZE) name s =
      Some (case map_of (map (\<lambda>j. ent m (b + 256 * j)) [0..<16]) name of None \<Rightarrow> 0 | Some a \<Rightarrow> a, s') \<and>
    only_io s s' \<and> dev s' = dev s"
proof -
  have "map_option snd (find (\<lambda>e. fst e = name) xs) = map_of xs name" for xs :: "(bytes \<times> u64) list"
    by (induction xs) auto
  then have "(case find (\<lambda>e. fst e = name) xs of None \<Rightarrow> 0 | Some e \<Rightarrow> snd e) =
      (case map_of xs name of None \<Rightarrow> 0 | Some a \<Rightarrow> a)" for xs :: "(bytes \<times> u64) list"
    by (metis (no_types, lifting) option.case_eq_if option.map_disc_iff option.map_sel)
  then show ?thesis using check_block_device [OF assms, of s] by simp
qed

theorem check_block_is_lookup_witness:
  "\<exists>s'. check_block (rdbytes (wr64 (wrbytes (\<lambda>_. 0) 0 [97]) 248 4352) 0 BLOCKSIZE) [97] pool_fs = Some (4352, s')"
proof -
  let ?m = "wr64 (wrbytes (\<lambda>_. 0) 0 [97]) 248 4352"
  have z: "rdbytes ?m (0 + 256 * j) 248 ! 247 = 0" if "j < 16" for j
    using that by (cases j) (simp_all add: wr64_out wrbytes_out)
  then have z0: "0 \<in> set (rdbytes ?m (0 + 256 * j) 248)" if "j < 16" for j
  proof -
    have "247 < length (rdbytes ?m (0 + 256 * j) 248)" by simp
    from nth_mem [OF this] show ?thesis by (simp only: z [OF that])
  qed
  have "rdbytes ?m 0 248 = 97 # replicate 247 0"
    by (rule nth_equalityI) (auto simp: wr64_out wrbytes_def nth_Cons split: nat.split)
  then have "ent ?m 0 = ([97], 4352)" by (simp add: ent_def cstr_def)
  then have "map_of (map (\<lambda>j. ent ?m (0 + 256 * j)) [0..<16]) [97] = Some 4352"
    by (simp add: upt_rec [of 0 16])
  then show ?thesis using check_block_is_lookup [of "[97]" ?m 0 pool_fs, OF _ z0] by auto
qed

text \<open>
  \<open>remove_link_from_parent\<close> takes the first entry with the child's address away, and the last
  entry takes its place; the block that becomes empty goes back to the free list. This is so
  when the entry is the last one or the last block is not full.
\<close>

theorem remove_link_removes:
  assumes "fsys_ok s" "inode_slot s p" "dir_ok s (get_node s p)" "entry_index s (get_node s p) c = Some t" "c \<noteq> 0"
    and "t = entry_count (get_node s p) - 1 \<or> entry_count (get_node s p) mod 16 \<noteq> 0"
  shows "\<exists>s'. remove_link_from_parent p c s = Some (0, s') \<and>
    dir_ok s' (get_node s' p) \<and> entries s' (get_node s' p) = remove_at t (entries s (get_node s p)) \<and>
    mset (entries s' (get_node s' p)) = mset (entries s (get_node s p)) - {# entries s (get_node s p) ! t #} \<and>
    free_set s' = (if (entry_count (get_node s p) - 1) mod 16 = 0
       then insert (last (addrs s (get_node s p))) (free_set s) else free_set s) \<and>
    kept {p} (set (addrs s (get_node s p))) s s'"
proof -
  have "t < length (entries s (get_node s p))" using assms(4) by (simp add: entry_index_Some)
  note mset_remove_at [OF this]
  then show ?thesis using remove_link_ok [OF assms] by (auto simp: removed_def Let_def)
qed

text \<open>The sample directory with one entry, and with two.\<close>

lemma sample_enter:
  assumes "fsys_ok s" "inode_slot s 4096" "inode_slot s 4352" "dir_ok s (get_node s 4096)"
    and "has_room s (get_node s 4096)" "wf_name name" "name \<noteq> []" "length name < 248"
  obtains s' where "add_to_directory 4096 4352 name s = Some (0, s')" "fsys_ok s'" "inode_slot s' 4096"
    "inode_slot s' 4352" "dir_ok s' (get_node s' 4096)"
    "entries s' (get_node s' 4096) = entries s (get_node s 4096) @ [(name, 4352)]"
proof -
  obtain s' where r: "add_to_directory 4096 4352 name s = Some (0, s')" "entered 4096 4352 name s s'"
    using add_to_directory_ok [OF assms(1-3) _ assms(4,7,6,8,5)] by auto
  then have k: "kept {4096, 4352} (insert (indirect_blocks (get_node s 4096)) (set (addrs s (get_node s 4096)))) s s'"
    by (simp add: entered_def Let_def)
  show thesis
  proof (rule that [OF r(1) keptD(2) [OF k]])
    show "inode_slot s' 4096" "inode_slot s' 4352"
      using assms(2,3) inode_slot_only_io [OF keptD(1) [OF k]] by simp_all
  qed (use r(2) in \<open>simp_all add: entered_def Let_def\<close>)
qed

theorem remove_link_removes_witness:
  "\<exists>s1 s2. add_to_directory 4096 4352 [97] pool_fs = Some (0, s1) \<and>
     remove_link_from_parent 4096 4352 s1 = Some (0, s2) \<and> entries s2 (get_node s2 4096) = []"
proof -
  obtain s1 where s1: "add_to_directory 4096 4352 [97] pool_fs = Some (0, s1)" "fsys_ok s1" "inode_slot s1 4096"
    "dir_ok s1 (get_node s1 4096)" "entries s1 (get_node s1 4096) = [([97], 4352)]"
    using sample_enter [OF sample_fsys(1,3) sample_dir(1,4,6), of "[97]"] sample_dir(5) by auto
  have c: "entry_count (get_node s1 4096) = 1" using arg_cong [OF s1(5), of length] by simp
  then have "entry_index s1 (get_node s1 4096) 4352 = Some 0" using s1(5) by (simp add: entry_index_def)
  from remove_link_removes [OF s1(2-4) this _] c s1(5) obtain s2 where
    "remove_link_from_parent 4096 4352 s1 = Some (0, s2)" "entries s2 (get_node s2 4096) = remove_at 0 [([97], 4352)]"
    by auto
  then show ?thesis using s1(1) by (auto simp: remove_at_def)
qed

text \<open>
  Entering a name for an inode that has no entry in the directory and removing the link again
  gives back the entries that were there.
\<close>

theorem add_then_remove:
  assumes "fsys_ok s" "inode_slot s p" "inode_slot s c" "p \<noteq> c" "dir_ok s (get_node s p)"
    and "name \<noteq> []" "wf_name name" "length name < NAME_LENGTH" "has_room s (get_node s p)"
    and "c \<notin> snd ` set (entries s (get_node s p))"
  shows "\<exists>s1 s2. add_to_directory p c name s = Some (0, s1) \<and> remove_link_from_parent p c s1 = Some (0, s2) \<and>
    dir_ok s2 (get_node s2 p) \<and> entries s2 (get_node s2 p) = entries s (get_node s p)"
proof -
  obtain s1 where s1: "add_to_directory p c name s = Some (0, s1)" "entered p c name s s1"
    using add_to_directory_ok [OF assms(1-9)] by blast
  let ?n = "get_node s1 p" and ?es = "entries s (get_node s p)"
  have k: "kept {p, c} (insert (indirect_blocks (get_node s p)) (set (addrs s (get_node s p)))) s s1"
    and d: "dir_ok s1 ?n" and es: "entries s1 ?n = ?es @ [(name, c)]"
    using s1(2) by (simp_all add: entered_def Let_def)
  have cnt: "entry_count ?n = Suc (length ?es)" using arg_cong [OF es, of length] by simp
  have "find (\<lambda>t. snd ((?es @ [(name, c)]) ! t) = c) [0..<length ?es] = None"
  proof -
    have "snd (?es ! i) \<noteq> c" if "i < length ?es" for i
      using assms(10) nth_mem [OF that] by (metis image_eqI)
    then show ?thesis unfolding find_None_iff by (simp add: nth_append del: nth_entries length_entries)
  qed
  then have "entry_index s1 ?n c = Some (length ?es)"
    unfolding entry_index_def es cnt by (simp add: find_append del: length_entries)
  moreover have "inode_slot s1 p" using assms(2) inode_slot_only_io [OF keptD(1) [OF k]] by simp
  moreover have c0: "c \<noteq> 0" using slot_ok [OF assms(1,3)] by (simp add: node_ok_def)
  ultimately obtain s2 where "remove_link_from_parent p c s1 = Some (0, s2)" "removed p (length ?es) s1 s2"
    using remove_link_ok [OF keptD(2) [OF k] _ d _ c0] cnt by (metis diff_Suc_1)
  then show ?thesis using s1(1) es by (auto simp: removed_def Let_def remove_at_def simp del: length_entries)
qed

theorem add_then_remove_witness:
  "\<exists>s1 s2. add_to_directory 4096 4352 [97] pool_fs = Some (0, s1) \<and>
     remove_link_from_parent 4096 4352 s1 = Some (0, s2) \<and> entries s2 (get_node s2 4096) = []"
  using add_then_remove [OF sample_fsys(1,3) sample_dir(1) _ sample_dir(4) _ _ _ sample_dir(6), of "[97]"]
    sample_dir(5) by auto

declare nth_entries [simp del]

text \<open>
  \<open>remove_link_from_parent\<close> returns -1 and leaves the device as it was when no entry of the
  directory has the address.
\<close>

theorem remove_link_absent:
  assumes "fsys_ok s" "inode_slot s p" "dir_ok s (get_node s p)" "c \<notin> snd ` set (entries s (get_node s p))"
  shows "\<exists>s'. remove_link_from_parent p c s = Some (-1, s') \<and> only_io s s' \<and> dev s' = dev s"
  using remove_link_missing [OF assms(1-3)] assms(4) by (simp add: entry_index_None)

theorem remove_link_absent_witness:
  "\<exists>s'. remove_link_from_parent 4096 4352 pool_fs = Some (-1, s') \<and> dev s' = dev pool_fs"
  using remove_link_absent [OF sample_fsys(1,3) sample_dir(4), of 4352] sample_dir(5) by auto

text \<open>
  C20. When the last block of a directory is full, removing any entry but the last loses the last
  entry: \<open>size % BLOCKSIZE - NAME_BOUNDARY\<close> is -256, the copy is rejected, and the slot of the
  removed entry gets the uninitialised bytes of \<open>entry_data\<close>.
\<close>

theorem remove_link_loses_last_entry:
  assumes "fsys_ok s" "inode_slot s p" "dir_ok s (get_node s p)" "entry_index s (get_node s p) c = Some t" "c \<noteq> 0"
    and "t < entry_count (get_node s p) - 1" "entry_count (get_node s p) mod 16 = 0"
  shows "\<exists>s'. remove_link_from_parent p c s = Some (0, s') \<and>
    entries s' (get_node s' p) =
      (butlast (entries s (get_node s p)))[t := entry_of (map (junk s (fresh s)) [0..<NAME_BOUNDARY])]"
proof -
  let ?n = "get_node s p" and ?ed = "map (junk s (fresh s)) [0..<256]"
  have ok: "ok_dev s" "node_ok s p" using fsys_okD(3) slot_ok assms(1,2) by blast+
  have nz: "p \<noteq> 0" "c \<noteq> 0" using ok assms(5) by (simp_all add: node_ok_def)
  let ?s = "s\<lparr>fresh := Suc (Suc (fresh s)), pos := unat p + 208\<rparr>"
  have io: "only_io s ?s" "dev ?s = dev s" by (simp_all add: only_io_def)
  obtain s1 where f: "find_link 0 0 c ?n ?s = Some (Some (addrs s ?n ! (t div 16), t div 16, 256 * (t mod 16)), s1)"
    "only_io s s1" "dev s1 = dev s" "fsys_ok s1"
    using search_from [OF assms(1,3) io, of c] assms(4) by auto
  note v = same_dev_views [OF f(2,3)]
  have n1: "get_node s1 p = ?n" by (rule v(1))
  have d1: "dir_ok s1 ?n" "inode_slot s1 p" using assms(2,3) v inode_slot_only_io [OF f(2)] by simp_all
  have ed: "length ?ed = 256" by simp
  obtain s2 where r: "remove_entry (addrs s1 ?n ! (t div 16)) (t div 16) (256 * (t mod 16)) ?ed ?n p s1 = (0, s2)"
    "entries s2 (get_node s2 p) = (butlast (entries s1 ?n))[t := entry_of ?ed]"
    using remove_entry_full [OF f(4) d1(2), unfolded n1, OF d1(1) assms(6,7) ed] by blast
  have "remove_link_from_parent p c s = Some (0, s2)"
    using nz ok f(1) r(1) v(2) by (simp add: remove_link_from_parent_def io_simps get_node_def [symmetric] uninit_def)
  then show ?thesis using r(2) v(3) by simp
qed

text \<open>Entering the same inode again and again on the sample disk.\<close>

lemma sample_full:
  "k \<le> 16 \<Longrightarrow> \<exists>s. fsys_ok s \<and> inode_slot s 4096 \<and> inode_slot s 4352 \<and>
     dir_ok s (get_node s 4096) \<and> entries s (get_node s 4096) = replicate k ([97], 4352)"
proof (induction k)
  case 0
  show ?case
    by (rule exI [of _ pool_fs]) (use sample_fsys(1,3) sample_dir(1,4,5) in auto)
next
  case (Suc k)
  then obtain s where s: "fsys_ok s" "inode_slot s 4096" "inode_slot s 4352"
    "dir_ok s (get_node s 4096)" "entries s (get_node s 4096) = replicate k ([97], 4352)" by auto
  show ?case
  proof (cases k)
    case 0
    obtain s' where r: "add_to_directory 4096 4352 [97] pool_fs = Some (0, s')" "fsys_ok s'" "inode_slot s' 4096"
      "inode_slot s' 4352" "dir_ok s' (get_node s' 4096)" "entries s' (get_node s' 4096) = [([97], 4352)]"
      using sample_enter [OF sample_fsys(1,3) sample_dir(1,4,6), of "[97]"] sample_dir(5) by auto
    then show ?thesis using r 0 by auto
  next
    case (Suc j)
    have cnt: "entry_count (get_node s 4096) = k" using arg_cong [OF s(5), of length] by simp
    then have room: "has_room s (get_node s 4096)" using Suc \<open>Suc k \<le> 16\<close> by (simp add: has_room_def)
    obtain s' where r: "add_to_directory 4096 4352 [97] s = Some (0, s')" "fsys_ok s'" "inode_slot s' 4096"
      "inode_slot s' 4352" "dir_ok s' (get_node s' 4096)"
      "entries s' (get_node s' 4096) = entries s (get_node s 4096) @ [([97], 4352)]"
      using sample_enter [OF s(1-4) room, of "[97]"] by auto
    then show ?thesis using r s(5) by (intro exI [of _ s']) (simp add: replicate_append_same)
  qed
qed

theorem remove_link_loses_last_entry_witness:
  "\<exists>s s'. entries s (get_node s 4096) = replicate 16 ([97], 4352) \<and>
     remove_link_from_parent 4096 4352 s = Some (0, s') \<and>
     hd (entries s' (get_node s' 4096)) = entry_of (map (junk s (fresh s)) [0..<NAME_BOUNDARY])"
proof -
  obtain s where s: "fsys_ok s" "inode_slot s 4096" "dir_ok s (get_node s 4096)"
    "entries s (get_node s 4096) = replicate 16 ([97], 4352)" using sample_full [of 16] by auto
  have c: "entry_count (get_node s 4096) = 16" using arg_cong [OF s(4), of length] by simp
  then have "entry_index s (get_node s 4096) 4352 = Some 0"
    unfolding entry_index_Some s(4) by simp
  from remove_link_loses_last_entry [OF s(1-3) this _] c obtain s' where
    "remove_link_from_parent 4096 4352 s = Some (0, s')"
    "entries s' (get_node s' 4096) = (butlast (replicate 16 ([97], 4352)))[0 := entry_of (map (junk s (fresh s)) [0..<256])]"
    using s(4) by auto
  moreover have "hd ((butlast (replicate 16 e))[0 := x]) = x" for e x :: "bytes \<times> u64"
    by (subst hd_conv_nth) (simp_all flip: length_0_conv)
  ultimately show ?thesis using s(4) by metis
qed

text \<open>
  \<open>rename_from_parent\<close> replaces the name of the first entry with the child's address and nothing
  else.
\<close>

theorem rename_replaces_name:
  assumes "fsys_ok s" "inode_slot s p" "dir_ok s (get_node s p)" "entry_index s (get_node s p) c = Some t" "c \<noteq> 0"
    and "name \<noteq> []" "wf_name name" "length name < NAME_LENGTH"
  shows "\<exists>s'. rename_from_parent p c name s = Some (0, s') \<and> dir_ok s' (get_node s' p) \<and>
    entries s' (get_node s' p) = (entries s (get_node s p))[t := (name, c)] \<and>
    free_set s' = free_set s \<and> kept {p} (set (addrs s (get_node s p))) s s'"
proof -
  have "snd (entries s (get_node s p) ! t) = c" using assms(4) by (simp add: entry_index_Some)
  then show ?thesis using rename_ok [OF assms] by (auto simp: renamed_def Let_def)
qed

theorem rename_replaces_name_witness:
  "\<exists>s1 s2. add_to_directory 4096 4352 [97] pool_fs = Some (0, s1) \<and>
     rename_from_parent 4096 4352 [98, 99] s1 = Some (0, s2) \<and> entries s2 (get_node s2 4096) = [([98, 99], 4352)]"
proof -
  obtain s1 where s1: "add_to_directory 4096 4352 [97] pool_fs = Some (0, s1)" "fsys_ok s1" "inode_slot s1 4096"
    "dir_ok s1 (get_node s1 4096)" "entries s1 (get_node s1 4096) = [([97], 4352)]"
    using sample_enter [OF sample_fsys(1,3) sample_dir(1,4,6), of "[97]"] sample_dir(5) by auto
  have c: "entry_count (get_node s1 4096) = 1" using arg_cong [OF s1(5), of length] by simp
  then have "entry_index s1 (get_node s1 4096) 4352 = Some 0" using s1(5) by (simp add: entry_index_def)
  from rename_replaces_name [OF s1(2-4) this _, of "[98, 99]"] s1(1,5) show ?thesis by auto
qed

text \<open>
  C14. Every guarded sequence of entering, removing and renaming in a directory returns; each call
  returns what the operation on the list of entries returns, the entries are the list that the
  operations lead to from the list before, and the directory and the state of the file system stay
  well formed. The guard leaves out entering when there is no block for the entry, and removing an
  entry before the last one when the last block is full, which loses the last entry.
\<close>

theorem dir_run_invariant:
  assumes "dir_guards p ops s" "fsys_ok s" "inode_slot s p" "dir_ok s (get_node s p)"
  shows "\<exists>rs s'. dir_calls p ops s = Some (rs, s') \<and> fsys_ok s' \<and> dir_ok s' (get_node s' p) \<and>
    (rs, entries s' (get_node s' p)) = list_calls ops (entries s (get_node s p))"
  using dir_calls_simulate [OF assms] by blast

definition sample_ops :: "dir_op list" where
  "sample_ops = [Enter_inode 4352 [97], Enter_inode 4352 [98], Remove_inode 4352, Rename_inode 4352 [99], Remove_inode 8]"

definition sample_at :: "fs \<Rightarrow> (bytes \<times> u64) list \<Rightarrow> bool" where
  "sample_at s es \<longleftrightarrow> fsys_ok s \<and> inode_slot s 4096 \<and> inode_slot s 4352 \<and>
     dir_ok s (get_node s 4096) \<and> entries s (get_node s 4096) = es"

lemma sample_guards:
  assumes "sample_at s es" "dir_guard 4096 x s"
    and "\<And>s'. sample_at s' (snd (list_call x es)) \<Longrightarrow> dir_guards 4096 ops s'"
  shows "dir_guards 4096 (x # ops) s"
proof -
  from assms(1) obtain r s' where r: "dir_call 4096 x s = Some (r, s')" "only_io s s'" "fsys_ok s'"
    "dir_ok s' (get_node s' 4096)" "(r, entries s' (get_node s' 4096)) = list_call x es"
    using dir_call_simulates [OF assms(2), of] by (auto simp: sample_at_def)
  have "sample_at s' (snd (list_call x es))"
    using r inode_slot_only_io [OF r(2)] assms(1) by (simp add: sample_at_def flip: r(5))
  then show ?thesis using r(1) assms(2,3) by simp
qed

lemma sample_guard:
  assumes "sample_at s es" "length es mod 16 \<noteq> 0" "entry_name name"
  shows "dir_guard 4096 (Enter_inode 4352 name) s" "dir_guard 4096 (Remove_inode c) s"
    "dir_guard 4096 (Rename_inode c name) s"
proof -
  have "entry_count (get_node s 4096) = length es" using assms(1) by (auto simp: sample_at_def)
  then show "dir_guard 4096 (Enter_inode 4352 name) s" "dir_guard 4096 (Remove_inode c) s"
    "dir_guard 4096 (Rename_inode c name) s"
    using assms by (simp_all add: has_room_def sample_at_def Let_def)
qed

text \<open>
  On the sample disk: two names for an inode, the first removed, the other renamed, and an inode that
  is not there.
\<close>

theorem dir_run_invariant_witness:
  "\<exists>s'. dir_calls 4096 sample_ops pool_fs = Some ([0, 0, 0, 0, -1], s') \<and> fsys_ok s' \<and>
     entries s' (get_node s' 4096) = [([99], 4352)]"
proof -
  have names: "entry_name [97]" "entry_name [98]" "entry_name [99]" by (simp_all add: entry_name_def)
  have s0: "sample_at pool_fs []" using sample_fsys(1,3) sample_dir(1,4,5) by (simp add: sample_at_def)
  have g0: "dir_guard 4096 (Enter_inode 4352 [97]) pool_fs" using sample_dir(1,6) names by simp
  have "dir_guards 4096 sample_ops pool_fs"
    unfolding sample_ops_def
    by (rule sample_guards [OF s0 g0], (rule sample_guards, assumption, rule sample_guard [OF _ _ names(2)] sample_guard [OF _ _ names(3)], assumption, simp add: list_find_def)+, simp)
  from dir_run_invariant [OF this sample_fsys(1,3) sample_dir(4)]
  show ?thesis by (auto simp: sample_dir(5) sample_ops_def list_find_def simp del: dir_calls.simps)
qed
end
