(* ===== verification/Path_Lookup.thy ===== *)
theory Path_Lookup
  imports Directory
begin

text \<open>
  Resolving a path (\<^verbatim>\<open>find_path_node\<close> of \<^verbatim>\<open>tyrant_help.c\<close>): the names that
  \<^verbatim>\<open>strtok\<close> cuts out of the path are looked up one after the other, from the root
  directory, in the blocks of the current inode. The lemmas relate it to the resolution of a
  path in the lists of entries.
\<close>

section \<open>The names of a path\<close>

text \<open>
  \<open>strtok(s, "/")\<close> on the rest of the path: the next name, and the rest after the \<open>/\<close> that
  ended it.
\<close>

abbreviation "slash \<equiv> (47 :: u8)"

definition strtok :: "bytes \<Rightarrow> (bytes \<times> bytes) option" where
  "strtok s =
     (let s = dropWhile (\<lambda>c. c = slash) s
      in if s = [] then None
         else Some (takeWhile (\<lambda>c. c \<noteq> slash) s, drop 1 (dropWhile (\<lambda>c. c \<noteq> slash) s)))"

lemma strtok_shorter: "strtok s = Some (name, rest) \<Longrightarrow> length rest < length s"
proof -
  assume a: "strtok s = Some (name, rest)"
  let ?t = "dropWhile (\<lambda>c. c = slash) s"
  have r: "rest = drop 1 (dropWhile (\<lambda>c. c \<noteq> slash) ?t)" and ne: "?t \<noteq> []"
    using a by (auto simp: strtok_def Let_def split: if_splits)
  have "hd ?t \<noteq> slash" using hd_dropWhile [OF ne] by simp
  then have "dropWhile (\<lambda>c. c \<noteq> slash) ?t = dropWhile (\<lambda>c. c \<noteq> slash) (tl ?t)"
    using ne by (cases ?t) auto
  then have "length rest \<le> length (tl ?t)" using r length_dropWhile_le [of "\<lambda>c. c \<noteq> slash" "tl ?t"] by simp
  also have "\<dots> < length ?t" using ne by simp
  also have "\<dots> \<le> length s" by (rule length_dropWhile_le)
  finally show ?thesis .
qed

section \<open>One name\<close>

text \<open>
  The loop over the direct blocks. The result is \<open>None\<close> for \<open>return 0\<close>, otherwise the address
  found, 0 if none, and the number of blocks left.
\<close>

function scan_direct ::
  "nat \<Rightarrow> u64 \<Rightarrow> node \<Rightarrow> bytes \<Rightarrow> bytes \<Rightarrow> fs \<Rightarrow> ((u64 \<times> u64) option \<times> bytes \<times> fs) option" where
  "scan_direct i block_cnt cur_node node_name tmp_block s =
     (if i < 12 then
        if block_cnt = 0 then Some (None, tmp_block, s)
        else if direct_blocks cur_node ! i = 0 then Some (None, tmp_block, s)
        else
          let (tmp_block, s) = read_at (direct_blocks cur_node ! i) tmp_block s
          in (case check_block tmp_block node_name s of
                None \<Rightarrow> None
              | Some (tmp_node, s) \<Rightarrow>
                  let block_cnt = block_cnt - 1
                  in if tmp_node \<noteq> 0 then Some (Some (tmp_node, block_cnt), tmp_block, s)
                     else scan_direct (i + 1) block_cnt cur_node node_name tmp_block s)
      else Some (Some (0, block_cnt), tmp_block, s))"
  by pat_completeness auto
termination
  by (relation "measure (\<lambda>(i, _). 12 - i)") auto

declare scan_direct.simps [simp del]

text \<open>The \<open>lseek\<close> and \<open>write\<close> before each indirect level is searched.\<close>

definition write_at :: "u64 \<Rightarrow> bytes \<Rightarrow> fs \<Rightarrow> fs" where
  "write_at a bs s =
     (let s = seek_to (drive s) a s;
          (r, s) = sys_write (drive s) bs s
      in s)"

text \<open>The body of the \<open>while\<close> loop up to the next inode, 0 for \<open>return 0\<close>.\<close>

definition find_name :: "node \<Rightarrow> bytes \<Rightarrow> bytes \<Rightarrow> fs \<Rightarrow> (u64 \<times> bytes \<times> fs) option" where
  "find_name cur_node node_name tmp_block s =
     do {
       (found, tmp_block, s) \<leftarrow> scan_direct 0 (blocks cur_node) cur_node node_name tmp_block s;
       (case found of
          None \<Rightarrow> Some (0, tmp_block, s)
        | Some (tmp_node, block_cnt) \<Rightarrow>
            if tmp_node \<noteq> 0 then Some (tmp_node, tmp_block, s)
            else if block_cnt = 0 then Some (0, tmp_block, s)
            else do {
              let s = write_at (indirect_blocks cur_node) tmp_block s;
              (tmp_node, block_cnt, s) \<leftarrow> check_indirect_blk tmp_block node_name block_cnt s;
              if tmp_node \<noteq> 0 then Some (tmp_node, tmp_block, s)
              else if block_cnt = 0 then Some (0, tmp_block, s)
              else do {
                let s = write_at (dbl_indirect cur_node) tmp_block s;
                (tmp_node, block_cnt, s) \<leftarrow> check_dbl_indirect_blk tmp_block node_name block_cnt s;
                if tmp_node \<noteq> 0 then Some (tmp_node, tmp_block, s)
                else if block_cnt = 0 then Some (0, tmp_block, s)
                else do {
                  let s = write_at (trpl_indirect cur_node) tmp_block s;
                  (tmp_node, block_cnt, s) \<leftarrow> check_trpl_indirect_blk tmp_block node_name block_cnt s;
                  Some (tmp_node, tmp_block, s)
                }
              }
            })
     }"

section \<open>The whole path\<close>

function walk_path :: "bytes \<Rightarrow> u64 \<Rightarrow> node \<Rightarrow> bytes \<Rightarrow> fs \<Rightarrow> (u64 \<times> fs) option" where
  "walk_path rest tmp_node cur_node tmp_block s =
     (case strtok rest of
        None \<Rightarrow> Some (tmp_node, s)
      | Some (node_name, rest) \<Rightarrow>
          (case find_name cur_node node_name tmp_block s of
             None \<Rightarrow> None
           | Some (tmp_node, tmp_block, s) \<Rightarrow>
               if tmp_node = 0 then Some (0, s)
               else
                 let (cur_node, s) = load_node tmp_node cur_node s
                 in walk_path rest tmp_node cur_node tmp_block s))"
  by pat_completeness auto
termination
  by (relation "measure (\<lambda>(rest, _). length rest)") (auto dest: strtok_shorter)

declare walk_path.simps [simp del]

definition find_path_node :: "bytes \<Rightarrow> fs \<Rightarrow> (u64 \<times> fs) option" where
  "find_path_node path s =
     (if root_node s = 0 then Some (0, s)
      else
        let (cur_node, s) = uninit_node s;
            (tmp_block, s) = uninit BLOCKSIZE s;
            (got, cur_node, s) = fetch_inode (root_node s) cur_node s
        in if \<not> got then Some (0, s)
           else walk_path path (root_node s) cur_node tmp_block s)"

section \<open>Looking a name up in the direct blocks\<close>

text \<open>Slot \<open>j\<close> of block \<open>i\<close>, in the directory and in the block.\<close>

lemma slot_of_block: "j < 16 \<Longrightarrow> slot s n (16 * i + j) = unat (addrs s n ! i) + 256 * j"
  by (simp add: slot_def)

lemma map_of_no_key: "(\<And>e. e \<in> set ys \<Longrightarrow> fst e \<noteq> k) \<Longrightarrow> map_of (xs @ ys) k = map_of xs k"
  by (induction xs) (auto simp: map_of_eq_None_iff)

lemma block_entries:
  assumes "dir_ok s n" "i < unat (blocks n)" "name \<noteq> []"
  shows "map_of (map (\<lambda>j. ent (dev s) (unat (addrs s n ! i) + 256 * j)) [0..<16]) name =
    map_of (take 16 (drop (16 * i) (entries s n))) name"
    and "j < 16 \<Longrightarrow> 0 \<in> set (rdbytes (dev s) (unat (addrs s n ! i) + 256 * j) 248)"
proof -
  note d = dir_okD [OF assms(1)]
  let ?e = "\<lambda>j. ent (dev s) (unat (addrs s n ! i) + 256 * j)"
  define q where "q = min 16 (entry_count n - 16 * i)"
  have empty: "dev s (unat (addrs s n ! i) + 256 * j) = 0" if "q \<le> j" "j < 16" for j
  proof -
    have "entry_count n \<le> 16 * i + j" "16 * i + j < 16 * unat (blocks n)"
      using that assms(2) unfolding q_def by linarith+
    from d(5) [OF this] show ?thesis using slot_of_block [OF that(2)] by simp
  qed
  have first: "dev s x \<in> set (rdbytes (dev s) x 248)" for x
    using nth_mem [of 0 "rdbytes (dev s) x 248"] by simp
  show "0 \<in> set (rdbytes (dev s) (unat (addrs s n ! i) + 256 * j) 248)" if "j < 16" for j
  proof (cases "q \<le> j")
    case True
    then show ?thesis using first [of "unat (addrs s n ! i) + 256 * j"] empty [OF True that] by simp
  next
    case False
    then have "16 * i + j < entry_count n" unfolding q_def by linarith
    from d(4) [OF this] show ?thesis using slot_of_block [OF that] by (simp add: valid_ent_def)
  qed
  have nil: "fst (?e j) = []" if "q \<le> j" "j < 16" for j
  proof -
    have "rdbytes (dev s) (unat (addrs s n ! i) + 256 * j) 248 = 0 # tl (rdbytes (dev s) (unat (addrs s n ! i) + 256 * j) 248)"
      using empty [OF that] by (intro nth_equalityI) (auto simp: nth_Cons nth_tl split: nat.split)
    then show ?thesis by (metis cstr_append_zero append_Nil ent_def fst_conv empty_iff list.set(1))
  qed
  have "map ?e [0..<16] = map ?e [0..<q] @ map ?e [q..<16]"
    using upt_add_eq_append [of 0 q "16 - q"] by (simp add: q_def flip: map_append)
  moreover have "map ?e [0..<q] = take 16 (drop (16 * i) (entries s n))"
    by (rule nth_equalityI) (auto simp: q_def nth_entries slot_of_block)
  ultimately show "map_of (map ?e [0..<16]) name = map_of (take 16 (drop (16 * i) (entries s n))) name"
  proof -
    have "fst e \<noteq> name" if "e \<in> set (map ?e [q..<16])" for e
      using that nil assms(3) by auto
    then have "map_of (map ?e [0..<q] @ map ?e [q..<16]) name = map_of (map ?e [0..<q]) name"
      by (rule map_of_no_key)
    then show ?thesis using \<open>map ?e [0..<16] = _\<close> \<open>map ?e [0..<q] = _\<close> by simp
  qed
qed

lemma read_at_in:
  assumes "ok_dev s" "unat b + 4096 \<le> devsize s" "length buf = 4096"
  shows "read_at b buf s = (rdbytes (dev s) (unat b) 4096, s\<lparr>pos := unat b + 4096\<rparr>)"
  using assms by (simp add: read_at_def io_simps)

lemma map_of_split: "map_of (drop (16 * i) es) k =
    (case map_of (take 16 (drop (16 * i) es)) k of None \<Rightarrow> map_of (drop (16 * Suc i) es) k | Some a \<Rightarrow> Some a)"
proof -
  have "drop (16 * i) es = take 16 (drop (16 * i) es) @ drop (16 * Suc i) es"
    by (metis append_take_drop_id drop_drop mult_Suc_right)
  then have "map_of (drop (16 * i) es) k = map_of (take 16 (drop (16 * i) es) @ drop (16 * Suc i) es) k" by simp
  then show ?thesis by (simp add: map_add_def split: option.split)
qed

text \<open>
  What a name stands for among some entries. An address of 0, which \<^verbatim>\<open>tfs_mkdir\<close> leaves
  in the entry \<open>..\<close>, counts as not found: \<^verbatim>\<open>check_block\<close> returns it, and the search goes on
  in the next block. So the first entry of the name decides as long as the name does not stand both
  for 0 and for an inode, in different entries.
\<close>

definition found :: "(bytes \<times> u64) list \<Rightarrow> bytes \<Rightarrow> u64 option" where
  "found es name = (case map_of es name of None \<Rightarrow> None | Some a \<Rightarrow> if a = 0 then None else Some a)"

definition plain_name :: "(bytes \<times> u64) list \<Rightarrow> bytes \<Rightarrow> bool" where
  "plain_name es name \<longleftrightarrow> ((name, 0) \<in> set es \<longrightarrow> (\<forall>e \<in> set es. fst e = name \<longrightarrow> snd e = 0))"

lemma found_Nil [simp]: "found [] name = None"
  by (simp add: found_def)

lemma found_nonzero: "found es name = Some a \<Longrightarrow> a \<noteq> 0"
  by (simp add: found_def split: option.splits if_splits)

lemma found_value: "(case map_of es name of None \<Rightarrow> 0 | Some a \<Rightarrow> a) = (case found es name of None \<Rightarrow> 0 | Some a \<Rightarrow> a)"
  by (simp add: found_def split: option.split)

lemma found_missing: "name \<notin> fst ` set es \<Longrightarrow> found es name = None" "name \<notin> fst ` set es \<Longrightarrow> plain_name es name"
  by (force simp: found_def plain_name_def map_of_eq_None_iff [THEN iffD2] split: option.split)+

lemma found_append: "name \<notin> fst ` set es \<Longrightarrow> a \<noteq> 0 \<Longrightarrow> found (es @ [(name, a)]) name = Some a"
  by (simp add: found_def map_add_def map_of_eq_None_iff [THEN iffD2])

lemma plain_name_append: "name \<notin> fst ` set es \<Longrightarrow> plain_name (es @ [(name, a)]) name"
  by (force simp: plain_name_def)

lemma plain_nameD: "plain_name es name \<Longrightarrow> map_of es name = Some 0 \<Longrightarrow> (name, a) \<in> set es \<Longrightarrow> a = 0"
  unfolding plain_name_def by (fastforce dest: map_of_SomeD)

lemma plain_name_drop: "plain_name es name \<Longrightarrow> plain_name (drop k es) name" "plain_name es name \<Longrightarrow> plain_name (take k es) name"
  unfolding plain_name_def by (meson in_set_dropD in_set_takeD)+

lemma found_split:
  assumes "plain_name es name"
  shows "found (drop (16 * i) es) name =
    (case found (take 16 (drop (16 * i) es)) name of None \<Rightarrow> found (drop (16 * Suc i) es) name | Some a \<Rightarrow> Some a)"
proof (cases "map_of (take 16 (drop (16 * i) es)) name = Some 0")
  case True
  have m: "map_of (drop (16 * i) es) name = Some 0" using map_of_split [of i es name] True by simp
  have "found (drop (16 * Suc i) es) name = None"
  proof (cases "map_of (drop (16 * Suc i) es) name")
    case (Some a)
    then have "(name, a) \<in> set (drop (16 * i) es)"
      using set_drop_subset_set_drop [of "16 * i" "16 * Suc i" es] map_of_SomeD by fastforce
    from plain_nameD [OF plain_name_drop(1) [OF assms] m this] show ?thesis using Some by (simp add: found_def)
  qed (simp add: found_def)
  then show ?thesis using True m by (simp add: found_def)
next
  case False
  then show ?thesis using map_of_split [of i es name] by (auto simp: found_def split: option.splits)
qed

text \<open>What the scan finds from block \<open>i\<close> on among the first 192 entries.\<close>

definition direct_entries :: "fs \<Rightarrow> node \<Rightarrow> (bytes \<times> u64) list" where
  "direct_entries s n = take 192 (entries s n)"

lemma scan_direct_finds:
  assumes "fsys_ok s" "dir_ok s n" "name \<noteq> []" "wf_name name" "length tmp = 4096"
    and "i \<le> 12" "i \<le> unat (blocks n)" "plain_name (entries s n) name"
  shows "\<exists>r tmp' s'. scan_direct i (of_nat (unat (blocks n) - i)) n name tmp s = Some (r, tmp', s') \<and>
    only_io s s' \<and> dev s' = dev s \<and> length tmp' = 4096 \<and>
    (case found (drop (16 * i) (direct_entries s n)) name of
       Some a \<Rightarrow> \<exists>c. r = Some (a, c)
     | None \<Rightarrow> (if unat (blocks n) < 12 then r = None
                else r = Some (0, of_nat (unat (blocks n) - 12)) \<and>
                  (i < 12 \<longrightarrow> tmp' = rdbytes (dev s) (unat (addrs s n ! 11)) 4096)))"
  using assms
proof (induction "12 - i" arbitrary: i tmp s)
  case 0
  have "drop (16 * i) (direct_entries s n) = []" using 0 by (simp add: direct_entries_def)
  then show ?case using 0 by (subst scan_direct.simps) simp
next
  case (Suc x)
  note d = dir_okD [OF Suc.prems(2)] and f = file_okD [OF dir_okD(1) [OF Suc.prems(2)]]
  have i: "i < 12" using Suc.hyps(2) by simp
  show ?case
  proof (cases "i = unat (blocks n)")
    case True
    then have "entry_count n \<le> 16 * i" using d(6) by simp
    then have "drop (16 * i) (direct_entries s n) = []" by (simp add: direct_entries_def)
    then show ?thesis using i True Suc.prems(5) by (subst scan_direct.simps) simp
  next
    case False
    then have ib: "i < unat (blocks n)" using Suc.prems(7) by simp
    let ?b = "addrs s n ! i"
    have b: "direct_blocks n ! i = ?b" using ib i by (simp add: addrs_def nth_addr_def)
    have ob: "owned s ?b" using f(3) ib by (simp add: list_all_length)
    have ok: "ok_dev s" "unat ?b + 4096 \<le> devsize s"
      using fsys_okD(3) [OF Suc.prems(1)] owned_block_ok [OF ob] by (simp_all add: block_ok_def)
    let ?s1 = "s\<lparr>pos := unat ?b + 4096\<rparr>"
    obtain s2 where c: "check_block (rdbytes (dev s) (unat ?b) 4096) name ?s1 =
        Some (case found (take 16 (drop (16 * i) (entries s n))) name of None \<Rightarrow> 0 | Some a \<Rightarrow> a, s2)"
      "only_io ?s1 s2" "dev s2 = dev s"
      using check_block_is_lookup [OF Suc.prems(4) block_entries(2) [OF Suc.prems(2) ib Suc.prems(3)], of ?s1]
        block_entries(1) [OF Suc.prems(2) ib Suc.prems(3)] unfolding found_value [symmetric] by auto
    have io: "only_io s s2" using c(2) by (simp add: only_io_def)
    have cnt: "(of_nat (unat (blocks n) - i) :: u64) \<noteq> 0" "of_nat (unat (blocks n) - i) - 1 = (of_nat (unat (blocks n) - Suc i) :: u64)"
    proof -
      have "unat (blocks n) - i = Suc (unat (blocks n) - Suc i)" "Suc (unat (blocks n) - Suc i) < 2 ^ 64" "(0::nat) < 2 ^ 64"
        using ib f(2) by simp_all
      then show "(of_nat (unat (blocks n) - i) :: u64) \<noteq> 0" "of_nat (unat (blocks n) - i) - 1 = (of_nat (unat (blocks n) - Suc i) :: u64)"
        using of_nat_eq_u64 [of "Suc (unat (blocks n) - Suc i)" 0] by (simp_all del: of_nat_Suc, simp)
    qed
    have sp: "found (drop (16 * i) (direct_entries s n)) name =
        (case found (take 16 (drop (16 * i) (entries s n))) name of
           None \<Rightarrow> found (drop (16 * Suc i) (direct_entries s n)) name | Some a \<Rightarrow> Some a)"
    proof -
      have "take 16 (drop (16 * i) (direct_entries s n)) = take 16 (drop (16 * i) (entries s n))"
        using i by (simp add: direct_entries_def drop_take)
      moreover have "plain_name (direct_entries s n) name"
        using plain_name_drop(2) [OF Suc.prems(8)] by (simp add: direct_entries_def)
      ultimately show ?thesis using found_split [of "direct_entries s n" name i] by simp
    qed
    show ?thesis
    proof (cases "found (take 16 (drop (16 * i) (entries s n))) name")
      case (Some a)
      have "a \<noteq> 0" by (rule found_nonzero [OF Some])
      then have "scan_direct i (of_nat (unat (blocks n) - i)) n name tmp s =
          Some (Some (a, of_nat (unat (blocks n) - Suc i)), rdbytes (dev s) (unat ?b) 4096, s2)"
        using i b owned_nonzero [OF ob] cnt c(1) Some read_at_in [OF ok Suc.prems(5)]
        by (subst scan_direct.simps) simp
      then show ?thesis using io c(3) sp Some by simp
    next
      case None
      have "scan_direct i (of_nat (unat (blocks n) - i)) n name tmp s =
          scan_direct (Suc i) (of_nat (unat (blocks n) - Suc i)) n name (rdbytes (dev s) (unat ?b) 4096) s2"
        using i b owned_nonzero [OF ob] cnt c(1) None read_at_in [OF ok Suc.prems(5)]
        by (subst scan_direct.simps) simp
      moreover have dev2: "dev s2 = dev s" by (rule c(3))
      note v = same_dev_views [OF io dev2]
      have v': "direct_entries s2 n = direct_entries s n" by (simp add: direct_entries_def v)
      obtain r tmp' s' where ih: "scan_direct (Suc i) (of_nat (unat (blocks n) - Suc i)) n name (rdbytes (dev s) (unat ?b) 4096) s2 =
          Some (r, tmp', s')" "only_io s2 s'" "dev s' = dev s2" "length tmp' = 4096"
        and q: "case found (drop (16 * Suc i) (direct_entries s2 n)) name of
           Some a \<Rightarrow> \<exists>c. r = Some (a, c)
         | None \<Rightarrow> (if unat (blocks n) < 12 then r = None
                else r = Some (0, of_nat (unat (blocks n) - 12)) \<and>
                  (Suc i < 12 \<longrightarrow> tmp' = rdbytes (dev s2) (unat (addrs s2 n ! 11)) 4096))"
      proof -
        have h: "x = 12 - Suc i" "fsys_ok s2" "dir_ok s2 n" "length (rdbytes (dev s) (unat ?b) 4096) = 4096"
          "Suc i \<le> 12" "Suc i \<le> unat (blocks n)" "plain_name (entries s2 n) name"
          using Suc.hyps(2) i ib keptD(2) [OF kept_same_dev [OF Suc.prems(1) io dev2]] Suc.prems(2,8) v by simp_all
        from Suc.hyps(1) [OF h(1-3) Suc.prems(3,4) h(4-7)] show thesis by (elim exE conjE) (rule that)
      qed
      have "tmp' = rdbytes (dev s) (unat ?b) 4096" if "Suc i = 12"
        using ih(1) that by (subst (asm) scan_direct.simps) simp
      moreover have "?b = addrs s n ! 11" if "Suc i = 12"
      proof -
        have "i = 11" using that by simp
        then show ?thesis by simp
      qed
      ultimately show ?thesis
        using ih only_io_trans [OF io ih(2)] q sp None i unfolding v' v dev2
        by (cases "Suc i = 12") (auto split: option.splits if_splits)
    qed
  qed
qed

section \<open>The resolution of a path\<close>

lemma find_name_direct:
  assumes "fsys_ok s" "dir_ok s n" "unat (blocks n) \<le> 12" "name \<noteq> []" "wf_name name" "length tmp = 4096"
    and "plain_name (entries s n) name"
  shows "\<exists>tmp' s'. find_name n name tmp s =
      Some (case found (entries s n) name of None \<Rightarrow> 0 | Some a \<Rightarrow> a, tmp', s') \<and>
    only_io s s' \<and> dev s' = dev s \<and> length tmp' = 4096"
proof -
  have all: "direct_entries s n = entries s n"
    using dir_okD(6) [OF assms(2)] assms(3) by (simp add: direct_entries_def)
  have b: "blocks n = of_nat (unat (blocks n) - 0)" by simp
  obtain r tmp' s' where sc: "scan_direct 0 (blocks n) n name tmp s = Some (r, tmp', s')" "only_io s s'"
    "dev s' = dev s" "length tmp' = 4096"
    "case found (entries s n) name of Some a \<Rightarrow> \<exists>c. r = Some (a, c)
     | None \<Rightarrow> (if unat (blocks n) < 12 then r = None else r = Some (0, of_nat (unat (blocks n) - 12)))"
    using scan_direct_finds [OF assms(1,2,4-6), of 0] assms(7) all b by (auto split: option.splits if_splits)
  show ?thesis
  proof (cases "found (entries s n) name")
    case (Some a)
    then have "a \<noteq> 0" by (rule found_nonzero)
    then show ?thesis using sc Some by (auto simp: find_name_def)
  next
    case None
    have "r = None \<or> r = Some (0, 0)" using sc(5) None assms(3) by (auto split: if_splits)
    then show ?thesis using sc None by (auto simp: find_name_def)
  qed
qed

text \<open>The names of a path, and the inode it leads to from an inode.\<close>

function path_names :: "bytes \<Rightarrow> bytes list" where
  "path_names p = (case strtok p of None \<Rightarrow> [] | Some (name, rest) \<Rightarrow> name # path_names rest)"
  by pat_completeness auto
termination
  by (relation "measure length") (auto dest: strtok_shorter)

declare path_names.simps [simp del]

primrec resolve :: "fs \<Rightarrow> bytes list \<Rightarrow> u64 \<Rightarrow> u64" where
  "resolve s [] a = a"
| "resolve s (name # names) a =
     (case found (entries s (get_node s a)) name of None \<Rightarrow> 0 | Some b \<Rightarrow> resolve s names b)"

text \<open>
  The directories met on the way, of at most 12 blocks each, and the inodes they lead to. The
  directories need not be complete: an entry may have the address 0, and then its name leads nowhere.
\<close>

primrec walkable :: "fs \<Rightarrow> bytes list \<Rightarrow> u64 \<Rightarrow> bool" where
  "walkable s [] a = True"
| "walkable s (name # names) a =
     (dir_ok s (get_node s a) \<and> unat (blocks (get_node s a)) \<le> 12 \<and>
      plain_name (entries s (get_node s a)) name \<and>
      (case found (entries s (get_node s a)) name of
         None \<Rightarrow> True | Some b \<Rightarrow> node_ok s b \<and> walkable s names b))"

lemma strtok_name:
  assumes "strtok p = Some (name, rest)"
  shows "name \<noteq> []" "wf_name p \<Longrightarrow> wf_name name" "wf_name p \<Longrightarrow> wf_name rest" "slash \<notin> set name"
proof -
  let ?t = "dropWhile (\<lambda>c. c = slash) p"
  have r: "name = takeWhile (\<lambda>c. c \<noteq> slash) ?t" "rest = drop 1 (dropWhile (\<lambda>c. c \<noteq> slash) ?t)" and ne: "?t \<noteq> []"
    using assms by (auto simp: strtok_def Let_def split: if_splits)
  have "hd ?t \<noteq> slash" using hd_dropWhile [OF ne] by simp
  then show "name \<noteq> []" unfolding r using ne by (cases ?t) auto
  show "wf_name name" if "wf_name p"
    using that unfolding r by (meson set_dropWhileD set_takeWhileD)
  show "wf_name rest" if "wf_name p"
    using that unfolding r by (meson in_set_dropD set_dropWhileD)
  show "slash \<notin> set name" unfolding r by (auto dest: set_takeWhileD)
qed

lemma same_dev_resolve:
  assumes "only_io s s0" "dev s0 = dev s"
  shows "resolve s0 names a = resolve s names a" "walkable s0 names a = walkable s names a"
proof -
  have ok: "node_ok s0 b = node_ok s b" for b
    using only_ioD(1) [OF assms(1)] by (simp add: node_ok_def)
  show "resolve s0 names a = resolve s names a" "walkable s0 names a = walkable s names a"
    by (induction names arbitrary: a) (simp_all add: same_dev_views [OF assms] ok split: option.split)
qed

lemma walk_path_resolves:
  assumes "fsys_ok s" "path_names p = names" "wf_name p" "walkable s names a" "length tmp = 4096"
  shows "\<exists>s'. walk_path p a (get_node s a) tmp s = Some (resolve s names a, s') \<and> only_io s s' \<and> dev s' = dev s"
  using assms
proof (induction names arbitrary: p a tmp s)
  case Nil
  then have "strtok p = None" by (subst (asm) path_names.simps) (auto split: option.splits)
  then show ?case by (subst walk_path.simps) simp
next
  case (Cons name names)
  obtain rest where tok: "strtok p = Some (name, rest)" "path_names rest = names"
    using Cons.prems(2) by (subst (asm) path_names.simps) (auto split: option.splits)
  note nm = strtok_name [OF tok(1)]
  let ?n = "get_node s a"
  have d: "dir_ok s ?n" "unat (blocks ?n) \<le> 12" "plain_name (entries s ?n) name" using Cons.prems(4) by simp_all
  obtain tmp' s1 where f: "find_name ?n name tmp s =
      Some (case found (entries s ?n) name of None \<Rightarrow> 0 | Some a \<Rightarrow> a, tmp', s1)"
    "only_io s s1" "dev s1 = dev s" "length tmp' = 4096"
    using find_name_direct [OF Cons.prems(1) d(1,2) nm(1) nm(2) [OF Cons.prems(3)] Cons.prems(5) d(3)] by blast
  show ?case
  proof (cases "found (entries s ?n) name")
    case None
    then show ?thesis using f tok by (subst walk_path.simps) simp
  next
    case (Some b)
    then have b: "b \<noteq> 0" "node_ok s b" "walkable s names b"
      using found_nonzero Cons.prems(4) by auto
    let ?s2 = "s1\<lparr>pos := unat b + 208\<rparr>"
    have io: "only_io s ?s2" "dev ?s2 = dev s" using only_io_trans [OF f(2)] f(3) by simp_all
    have "ok_dev s1" "node_ok s1 b" 
      using fsys_okD(3) [OF Cons.prems(1)] ok_dev_only_io [OF f(2)] b(2) only_ioD(1) [OF f(2)] by (simp_all add: node_ok_def)
    then have "load_node b ?n s1 = (get_node s b, ?s2)"
      using f(3) by (simp add: io_simps get_node_def)
    then have w: "walk_path p a ?n tmp s = walk_path rest b (get_node s b) tmp' ?s2"
      using f(1) tok(1) Some b(1) by (subst walk_path.simps) simp
    have ok2: "fsys_ok ?s2" using keptD(2) [OF kept_same_dev [OF Cons.prems(1) io]] .
    have wk: "walkable ?s2 names b" using b(3) same_dev_resolve(2) [OF io] by simp
    obtain s' where "walk_path rest b (get_node ?s2 b) tmp' ?s2 = Some (resolve ?s2 names b, s')"
      "only_io ?s2 s'" "dev s' = dev ?s2"
      using Cons.IH [OF ok2 tok(2) nm(3) [OF Cons.prems(3)] wk f(4)] by blast
    then show ?thesis
      using w Some only_io_trans [OF io(1)] io(2) same_dev_resolve(1) [OF io] same_dev_views(1) [OF io] by auto
  qed
qed

text \<open>The whole path, from the root.\<close>

lemma find_path_walks:
  assumes "fsys_ok s" "node_ok s (root_node s)" "wf_name path"
    and "walkable s (path_names path) (root_node s)"
  shows "\<exists>s'. find_path_node path s = Some (resolve s (path_names path) (root_node s), s') \<and>
    only_io s s' \<and> dev s' = dev s"
proof -
  let ?a = "root_node s" and ?s = "s\<lparr>fresh := Suc (Suc (fresh s)), pos := unat (root_node s) + 208\<rparr>"
  have io: "only_io s ?s" "dev ?s = dev s" by (simp_all add: only_io_def)
  have a0: "?a \<noteq> 0" using assms(2) by (simp add: node_ok_def)
  have body: "find_path_node path s = walk_path path ?a (get_node s ?a) (map (junk s (Suc (fresh s))) [0..<4096]) ?s"
    using a0 fsys_okD(3) [OF assms(1)] assms(2)
    by (simp add: find_path_node_def uninit_node_def uninit_def fetch_inode_in get_node_def Let_def)
  obtain s' where "walk_path path ?a (get_node ?s ?a) (map (junk s (Suc (fresh s))) [0..<4096]) ?s =
      Some (resolve ?s (path_names path) ?a, s')" "only_io ?s s'" "dev s' = dev ?s"
    using walk_path_resolves [OF _ refl assms(3)] keptD(2) [OF kept_same_dev [OF assms(1) io, of "{}" "{}"]]
      same_dev_resolve(2) [OF io] assms(4) by (metis length_map length_upt diff_zero)
  then show ?thesis
    using body same_dev_views(1) [OF io] same_dev_resolve(1) [OF io] only_io_trans [OF io(1)] io(2) by auto
qed

lemma path_names_join:
  assumes "\<forall>x \<in> set xs. x \<noteq> [] \<and> slash \<notin> set x"
  shows "path_names (concat (map (\<lambda>x. slash # x) xs)) = xs"
  using assms
proof (induction xs)
  case Nil
  then show ?case by (subst path_names.simps) (simp add: strtok_def)
next
  case (Cons x xs)
  let ?r = "concat (map (\<lambda>x. slash # x) xs)"
  have x: "x \<noteq> []" "slash \<notin> set x" using Cons.prems by simp_all
  have tw: "takeWhile (\<lambda>c. c \<noteq> slash) (x @ ?r) = x" "dropWhile (\<lambda>c. c \<noteq> slash) (x @ ?r) = ?r"
    using x(2) by (cases xs; auto simp: takeWhile_append dropWhile_append)+
  have dw: "dropWhile (\<lambda>c. c = slash) (slash # x @ ?r) = x @ ?r" using x by (cases x) auto
  have "path_names (drop 1 ?r) = path_names ?r"
    by (cases xs; subst (1 2) path_names.simps) (simp_all add: strtok_def)
  then show ?case
    using Cons x dw tw by (subst path_names.simps) (simp add: strtok_def)
qed

section \<open>The indirect blocks of a directory\<close>

lemma only_io_read_at: "read_at a buf s = (r, s') \<Longrightarrow> only_io s s' \<and> dev s' = dev s"
  by (auto simp: read_at_def Let_def sys_read_def split: if_splits prod.splits) (metis only_io_trans only_io_seek(1) only_io_fields(2))+

lemma only_io_check_block: "check_block b name s = Some (a, s') \<Longrightarrow> only_io s s' \<and> dev s' = dev s"
  by (auto simp: check_block_def uninit_def split: option.splits)

lemma check_indirect_loop_count:
  assumes "check_indirect_loop (8 * k) data blk name cnt s = Some (r, cnt', s')" "k \<le> 512"
  shows "only_io s s' \<and> dev s' = dev s \<and> (r \<noteq> 0 \<or> unat cnt' = unat cnt - (512 - k))"
  using assms
proof (induction "512 - k" arbitrary: k data cnt s)
  case 0
  then show ?case by (subst (asm) check_indirect_loop.simps) simp
next
  case (Suc x)
  show ?case
  proof (cases "cnt = 0")
    case True
    moreover have "check_indirect_loop (8 * k) data blk name 0 s = Some (0, 0, s)"
      by (subst check_indirect_loop.simps) simp
    ultimately show ?thesis using Suc.prems(1) by simp
  next
    case False
    obtain data' s1 where r: "read_at (addr_at blk (8 * k)) data s = (data', s1)" by fastforce
    have k: "k < 512" using Suc.hyps(2) by simp
    then obtain a s2 where c: "check_block data' name s1 = Some (a, s2)"
      using Suc.prems(1) r False by (subst (asm) check_indirect_loop.simps) (auto simp: Let_def split: option.splits)
    have io: "only_io s s2" "dev s2 = dev s"
      using only_io_read_at [OF r] only_io_check_block [OF c] by (auto intro: only_io_trans)
    have u: "unat (cnt - 1) = unat cnt - 1" using False by (simp add: unat_minus_one)
    have "check_indirect_loop (8 * k) data blk name cnt s =
        (if a \<noteq> 0 then Some (a, cnt - 1, s2) else check_indirect_loop (8 * Suc k) data' blk name (cnt - 1) s2)"
      using k False r c by (subst check_indirect_loop.simps) (simp add: add.commute)
    then show ?thesis
      using Suc.prems(1) Suc.hyps(1) [of "Suc k" data' "cnt - 1" s2] Suc.hyps(2) k io u
      by (cases "a = 0") (auto intro: only_io_trans)
  qed
qed

lemma check_indirect_blk_count:
  assumes "check_indirect_blk blk name cnt s = Some (r, cnt', s')" "unat cnt \<le> 512"
  shows "dev s' = dev s" "r = 0 \<Longrightarrow> cnt' = 0"
proof -
  obtain d s1 where "check_indirect_loop (8 * 0) d blk name cnt s1 = Some (r, cnt', s')" "dev s1 = dev s"
    using assms(1) by (auto simp: check_indirect_blk_def uninit_def)
  from check_indirect_loop_count [OF this(1)] this(2) assms(2)
  show "dev s' = dev s" "r = 0 \<Longrightarrow> cnt' = 0" by (auto simp: unat_eq_0)
qed

section \<open>Properties\<close>

text \<open>
  C21. When a name is not in the 12 direct blocks of a directory that has more, \<open>find_path_node\<close>
  writes the block it read last over the indirect block, instead of reading it.
\<close>

theorem find_name_overwrites_indirect:
  assumes "ok_dev s" "block_ok s (indirect_blocks n)"
    and "scan_direct 0 (blocks n) n name tmp s = Some (Some (0, cnt), blk, s1)" "only_io s s1"
    and "cnt \<noteq> 0" "unat cnt \<le> 512" "length blk = BLOCKSIZE"
    and "find_name n name tmp s = Some (a, tmp', s')"
  shows "rdbytes (dev s') (unat (indirect_blocks n)) BLOCKSIZE = blk"
proof -
  let ?b = "indirect_blocks n"
  have ok: "ok_dev s1" "unat ?b + 4096 \<le> devsize s1"
    using assms(1,2) ok_dev_only_io [OF assms(4)] only_ioD(1) [OF assms(4)] by (simp_all add: block_ok_def)
  have w: "dev (write_at ?b blk s1) = wrbytes (dev s1) (unat ?b) blk"
    using ok assms(7) by (simp add: write_at_def io_simps)
  obtain r cnt' s2 where c: "check_indirect_blk blk name cnt (write_at ?b blk s1) = Some (r, cnt', s2)"
    using assms(3,5,8) by (auto simp: find_name_def bind_eq_Some_conv)
  note k = check_indirect_blk_count [OF c assms(6)]
  have "s' = s2" using assms(3,5,8) c k(2) by (auto simp: find_name_def split: if_splits)
  then show ?thesis using k(1) w assms(7) by simp
qed

text \<open>A directory of 13 blocks whose direct blocks are all the same empty one.\<close>

definition odd_node :: node where
  "odd_node = (node_of_bytes [])\<lparr>blocks := 13, direct_blocks := replicate 12 8192, indirect_blocks := 12288\<rparr>"

definition odd_fs :: fs where
  "odd_fs = (blank_fs 20480)\<lparr>dev := wr64 (\<lambda>_. 0) 12288 4352\<rparr>"

lemma empty_block_lookup:
  assumes "name \<noteq> []" "wf_name name" "\<And>i. i < 4096 \<Longrightarrow> dev s (b + i) = 0"
  shows "\<exists>s'. check_block (rdbytes (dev s) b 4096) name s = Some (0, s') \<and> only_io s s' \<and> dev s' = dev s"
proof -
  have z: "rdbytes (dev s) (b + 256 * j) 248 = replicate 248 0" if "j < 16" for j
    using that assms(3) by (intro nth_equalityI) (simp_all add: add.assoc)
  have "cstr (replicate 248 0) = []" by (simp add: cstr_def)
  then have "fst (ent (dev s) (b + 256 * j)) \<noteq> name" if "j < 16" for j
    using z [OF that] assms(1) by (simp add: ent_def)
  then have "map_of (map (\<lambda>j. ent (dev s) (b + 256 * j)) [0..<16]) name = None"
    by (force simp: map_of_eq_None_iff)
  moreover have "\<And>j. j < 16 \<Longrightarrow> 0 \<in> set (rdbytes (dev s) (b + 256 * j) 248)" using z by simp
  ultimately show ?thesis using check_block_is_lookup [OF assms(2), of "dev s" b s] by auto
qed

lemma odd_scan:
  assumes "i \<le> 12" "only_io odd_fs s" "dev s = dev odd_fs" "length tmp = 4096"
  shows "\<exists>tmp' s'. scan_direct i (of_nat (13 - i)) odd_node [97] tmp s = Some (Some (0, 1), tmp', s') \<and>
    only_io odd_fs s' \<and> dev s' = dev odd_fs \<and> length tmp' = 4096 \<and> (i < 12 \<longrightarrow> tmp' = replicate 4096 0)"
  using assms
proof (induction "12 - i" arbitrary: i tmp s)
  case 0
  then show ?case by (subst scan_direct.simps) simp
next
  case (Suc x)
  have i: "i < 12" "direct_blocks odd_node ! i = 8192" using Suc.hyps(2) by (simp_all add: odd_node_def)
  have ok: "ok_dev s" "unat (8192 :: u64) + 4096 \<le> devsize s"
    using ok_dev_only_io [OF Suc.prems(2)] only_ioD(1) [OF Suc.prems(2)]
    by (simp_all add: odd_fs_def blank_fs_def ok_dev_def)
  let ?s = "s\<lparr>pos := 12288\<rparr>"
  have d: "dev s (8192 + j) = 0" if "j < 4096" for j
    using that Suc.prems(3) by (simp add: odd_fs_def wr64_out)
  obtain s2 where c: "check_block (rdbytes (dev s) 8192 4096) [97] ?s = Some (0, s2)" "only_io ?s s2" "dev s2 = dev s"
    using empty_block_lookup [of "[97]" ?s 8192] d by auto
  have zero: "rdbytes (dev s) 8192 4096 = replicate 4096 0" using d by (intro nth_equalityI) simp_all
  have io: "only_io odd_fs s2" "dev s2 = dev odd_fs"
    using only_io_trans [OF Suc.prems(2), of s2] c Suc.prems(3) by (simp_all add: only_io_def)
  have cnt: "(of_nat (13 - i) :: u64) \<noteq> 0" "of_nat (13 - i) - 1 = (of_nat (13 - Suc i) :: u64)"
    using i(1) of_nat_eq_u64 [of "13 - i" 0] by (simp_all add: of_nat_diff)
  have step: "scan_direct i (of_nat (13 - i)) odd_node [97] tmp s =
      scan_direct (Suc i) (of_nat (13 - Suc i)) odd_node [97] (replicate 4096 0) s2"
    using i cnt c(1) read_at_in [OF ok Suc.prems(4)] zero by (subst scan_direct.simps) simp
  obtain tmp' s' where r: "scan_direct (Suc i) (of_nat (13 - Suc i)) odd_node [97] (replicate 4096 0) s2 = Some (Some (0, 1), tmp', s')"
    "only_io odd_fs s'" "dev s' = dev odd_fs" "length tmp' = 4096" "Suc i < 12 \<longrightarrow> tmp' = replicate 4096 0"
  proof -
    have h: "x = 12 - Suc i" "Suc i \<le> 12" "length (replicate 4096 0 :: bytes) = 4096" using Suc.hyps(2) i(1) by simp_all
    from Suc.hyps(1) [OF h(1,2) io h(3)] show thesis by (elim exE conjE) (rule that)
  qed
  have "tmp' = replicate 4096 0" if "Suc i = 12"
    using r(1) that by (subst (asm) scan_direct.simps) simp
  then show ?case using step r i(1) by (cases "Suc i = 12") auto
qed

theorem find_name_overwrites_indirect_witness:
  "\<exists>a tmp s'. find_name odd_node [97] (replicate BLOCKSIZE 0) odd_fs = Some (a, tmp, s') \<and>
     rd64 (dev odd_fs) 12288 = 4352 \<and> rd64 (dev s') 12288 = 0"
proof -
  have ok: "ok_dev odd_fs" "block_ok odd_fs (indirect_blocks odd_node)"
    by (simp_all add: odd_fs_def blank_fs_def ok_dev_def block_ok_def odd_node_def)
  have ib: "indirect_blocks odd_node = 12288" "blocks odd_node = 13" by (simp_all add: odd_node_def)
  obtain tmp1 s1 where sc: "scan_direct 0 (blocks odd_node) odd_node [97] (replicate 4096 0) odd_fs =
      Some (Some (0, 1), replicate 4096 0, s1)" "only_io odd_fs s1" "dev s1 = dev odd_fs"
    using odd_scan [of 0 odd_fs "replicate 4096 0"] ib by auto
  let ?s2 = "write_at 12288 (replicate 4096 0) s1"
  have ok1: "ok_dev s1" "devsize s1 = 20480"
    using ok(1) ok_dev_only_io [OF sc(2)] only_ioD(1) [OF sc(2)] by (simp_all add: odd_fs_def blank_fs_def)
  then have s2: "?s2 = s1\<lparr>dev := wrbytes (dev s1) 12288 (replicate 4096 0), pos := 16384\<rparr>"
    by (simp add: write_at_def io_simps)
  let ?s3 = "?s2\<lparr>fresh := Suc (fresh ?s2)\<rparr>"
  let ?d = "map (junk ?s2 (fresh ?s2)) [0..<4096]"
  have le0: "of_le (replicate 8 0) = (0 :: u64)" by (simp add: numeral_eq_Suc)
  have a0: "addr_at (replicate 4096 0) 0 = 0" by (simp add: addr_at_def le0)
  have rd: "read_at 0 ?d ?s3 = (rdbytes (dev ?s3) 0 4096, ?s3\<lparr>pos := 4096\<rparr>)"
    using read_at_in [of ?s3 0 ?d] ok1 by (simp add: s2)
  obtain s4 where c: "check_block (rdbytes (dev ?s3) 0 4096) [97] (?s3\<lparr>pos := 4096\<rparr>) = Some (0, s4)"
    using empty_block_lookup [of "[97]" "?s3\<lparr>pos := 4096\<rparr>" 0] by (auto simp: s2 sc(3) odd_fs_def wr64_out wrbytes_out)
  have "check_indirect_loop 8 t (replicate 4096 0) [97] 0 s4 = Some (0, 0, s4)" for t
    by (subst check_indirect_loop.simps) simp
  then have "check_indirect_blk (replicate 4096 0) [97] 1 ?s2 = Some (0, 0, s4)"
    using rd c a0 unfolding check_indirect_blk_def uninit_def Let_def prod.case
    by (subst check_indirect_loop.simps) (simp add: Let_def)
  then have f: "find_name odd_node [97] (replicate 4096 0) odd_fs = Some (0, replicate 4096 0, s4)"
    using sc(1) ib by (simp add: find_name_def)
  have "rdbytes (dev s4) 12288 4096 = replicate 4096 0"
    using find_name_overwrites_indirect [OF ok sc(1,2) _ _ _ f] ib by simp
  then have "take 8 (rdbytes (dev s4) 12288 4096) = replicate 8 0" by simp
  then have "rd64 (dev s4) 12288 = 0" using take_drop_rdbytes [of 0 8 4096 "dev s4" 12288] le0 by (simp add: rd64_def)
  then show ?thesis using f by (auto simp: odd_fs_def)
qed

end
