(* ===== verification/Mkfs.thy ===== *)
theory Mkfs
  imports Inode_Table
begin

text \<open>
  Formatting: \<^verbatim>\<open>tfs_mkfs\<close> and \<^verbatim>\<open>tfs_disk_info\<close> of \<^verbatim>\<open>disk.c\<close>.
  The device is divided into the superblock, \<open>num_blocks / 65\<close> blocks of inodes and the data
  region; the data region is threaded into the free list and a root directory is made. The
  loops of the C code count in \<open>uint64_t\<close>; their termination is proved on the counters.
\<close>

section \<open>The operations\<close>

text \<open>\<open>ioctl(fd, BLKGETSIZE64, &v)\<close>: the size of the device in bytes.\<close>

definition ioctl_blkgetsize64 :: "int \<Rightarrow> u64 \<Rightarrow> fs \<Rightarrow> u64" where
  "ioctl_blkgetsize64 fd v s = (if fd < 0 then v else of_nat (devsize s))"

text \<open>The geometry, computed alike by \<^verbatim>\<open>tfs_mkfs\<close> and \<^verbatim>\<open>tfs_disk_info\<close>.\<close>

definition set_geometry :: "int \<Rightarrow> fs \<Rightarrow> fs" where
  "set_geometry fd s =
     (let s = s\<lparr>drive := fd\<rparr>;
          s = s\<lparr>drivesize := ioctl_blkgetsize64 fd (drivesize s) s\<rparr>;
          s = s\<lparr>num_blocks := drivesize s div BLOCKSIZE\<rparr>;
          s = s\<lparr>inode_blocks := num_blocks s div 65\<rparr>;
          s = s\<lparr>data_blocks := inode_blocks s * 64 - 1\<rparr>
      in s\<lparr>inode_byte_boundary := (inode_blocks s + 1) * BLOCKSIZE\<rparr>)"

definition tfs_disk_info :: "int \<Rightarrow> fs \<Rightarrow> int \<times> fs" where
  "tfs_disk_info fd s = (if fd < 0 then (-1, s) else (0, set_geometry fd s))"

text \<open>The superblock and the inode table are zeroed.\<close>

function clear_blocks :: "int \<Rightarrow> u64 \<Rightarrow> fs \<Rightarrow> fs" where
  "clear_blocks fd i s =
     (if i < inode_blocks s + 1 then clear_blocks fd (i + 1) (write_zeros fd BLOCKSIZE s) else s)"
  by pat_completeness auto
termination
  by (relation "measure (\<lambda>(fd, i, s). unat (inode_blocks s + 1) - unat i)")
    (auto simp: only_ioD [OF only_io_write_zeros] Suc_unat_word word_less_nat_alt)

declare clear_blocks.simps [simp del]

text \<open>One list block is filled with the addresses after \<open>block_ptr\<close>.\<close>

function fill_list_block :: "int \<Rightarrow> nat \<Rightarrow> u64 \<Rightarrow> u64 \<Rightarrow> fs \<Rightarrow> u64 \<times> u64 \<times> fs" where
  "fill_list_block fd i addr_counter block_ptr s =
     (if i < BLOCKSIZE then
        if addr_counter \<ge> data_blocks s then (addr_counter, block_ptr, s)
        else let s = write_addr fd block_ptr s;
                 block_ptr = block_ptr + BLOCKSIZE;
                 addr_counter = addr_counter + 1
             in fill_list_block fd (i + 8) addr_counter block_ptr s
      else (addr_counter, block_ptr, s))"
  by pat_completeness auto
termination
  by (relation "measure (\<lambda>(fd, i, _). BLOCKSIZE - i)") auto

declare fill_list_block.simps [simp del]

lemma fill_list_block_counter:
  "fill_list_block fd i c p s = (c', p', s') \<Longrightarrow>
     only_io s s' \<and> unat c \<le> unat c' \<and> (i < BLOCKSIZE \<and> c < data_blocks s \<longrightarrow> unat c < unat c' \<and> c' \<le> data_blocks s)"
proof (induction fd i c p s rule: fill_list_block.induct)
  case (1 fd i c p s)
  show ?case
  proof (cases "i < BLOCKSIZE \<and> c < data_blocks s")
    case False
    then have "c' = c \<and> s' = s"
      using "1.prems" by (subst (asm) fill_list_block.simps) (auto split: if_splits)
    then show ?thesis using False by auto
  next
    case True
    let ?s = "write_addr fd p s"
    have "\<not> data_blocks s \<le> c" using True by auto
    then have rec: "fill_list_block fd (i + 8) (c + 1) (p + BLOCKSIZE) ?s = (c', p', s')"
      using "1.prems" True by (subst (asm) fill_list_block.simps) (simp add: Let_def)
    have ih: "only_io ?s s' \<and> unat (c + 1) \<le> unat c' \<and>
        (i + 8 < BLOCKSIZE \<and> c + 1 < data_blocks ?s \<longrightarrow> unat (c + 1) < unat c' \<and> c' \<le> data_blocks ?s)"
      using True rec by (intro "1.IH") auto
    have db: "data_blocks ?s = data_blocks s" by (simp add: only_ioD [OF only_io_write_addr])
    have suc: "unat (c + 1) = Suc (unat c)" using True Suc_unat_word by blast
    have "c' = c + 1" if "\<not> (i + 8 < BLOCKSIZE \<and> c + 1 < data_blocks s)"
      using rec that db by (subst (asm) fill_list_block.simps) (auto split: if_splits)
    moreover have "c + 1 \<le> data_blocks s"
      using True suc by (simp add: word_le_nat_alt word_less_nat_alt)
    ultimately have "c' \<le> data_blocks s" using ih db by metis
    then show ?thesis
      using ih suc only_io_trans [OF only_io_write_addr] by auto
  qed
qed

text \<open>The chain of list blocks.\<close>

function link_blocks :: "int \<Rightarrow> u64 \<Rightarrow> u64 \<Rightarrow> fs \<Rightarrow> fs" where
  "link_blocks fd addr_counter free_blockptr s =
     (if addr_counter < data_blocks s then
        let s = seek_to fd free_blockptr s;
            s = write_zeros fd BLOCKSIZE s;
            s = seek_by fd (- BLOCKSIZE) s;
            block_ptr = inode_byte_boundary s + addr_counter * BLOCKSIZE + BLOCKSIZE;
            (addr_counter, block_ptr, s) = fill_list_block fd 0 addr_counter block_ptr s;
            free_blockptr = block_ptr - BLOCKSIZE
        in link_blocks fd addr_counter free_blockptr s
      else s)"
  by pat_completeness auto
termination
proof (relation "measure (\<lambda>(fd, c, p, s). unat (data_blocks s) - unat c)", goal_cases)
  case (2 fd c p s s1 s2 s3 bp x c' y bp' s' p')
  have eq: "data_blocks s3 = data_blocks s"
    using 2 only_io_trans [OF only_io_trans [OF only_io_seek(1) only_io_write_zeros] only_io_seek(2)]
    by (metis only_ioD(8))
  have "unat c < unat c' \<and> only_io s3 s'"
    using fill_list_block_counter [of fd 0 c bp s3 c' bp' s'] 2 eq by simp
  then show ?case
    using 2(1) eq only_ioD(8) [of s3 s'] by (auto simp: word_less_nat_alt)
qed simp

declare link_blocks.simps [simp del]

definition format_root :: "int \<Rightarrow> bytes \<Rightarrow> fs \<Rightarrow> fs" where
  "format_root fd buff s =
     (let (temp_node, s) = uninit_node s;
          s = seek_to fd (root_node s) s;
          (r, bs, s) = sys_read fd SIZEOF_NODE s;
          temp_node = node_of_bytes (patch (bytes_of_node temp_node) bs);
          temp_node = temp_node\<lparr>mode := 0x4124\<rparr>;
          (t, s) = get_current_time_in_nsec s;
          temp_node = temp_node\<lparr>access_time := t\<rparr>;
          (t, s) = get_current_time_in_nsec s;
          temp_node = temp_node\<lparr>creation_time := t\<rparr>;
          (block, s) = allocate_block s;
          temp_node = temp_node\<lparr>direct_blocks := (direct_blocks temp_node)[0 := block]\<rparr>;
          path1 = bytes_of_string ''.'' @ [0];
          path2 = bytes_of_string ''..'' @ [0];
          s = write_block_arr buff block 0 s;
          s = write_block_arr path1 block 0 s;
          s = write_block_addr (root_node s) block (NAME_BOUNDARY - ADDR_LENGTH) s;
          s = write_block_arr path2 block NAME_BOUNDARY s;
          s = write_block_addr (root_node s) block (NAME_BOUNDARY * 2 - ADDR_LENGTH) s;
          (r, b, s) = read_block (Some buff) block (NAME_BOUNDARY - ADDR_LENGTH) ADDR_LENGTH s;
          (r, b, s) = read_block b block (NAME_BOUNDARY + NAME_BOUNDARY - ADDR_LENGTH) ADDR_LENGTH s;
          (t, s) = get_current_time_in_nsec s;
          temp_node = temp_node\<lparr>data_time := t, n_size := NAME_BOUNDARY * 2, blocks := 1, links := 1\<rparr>;
          s = store_node temp_node (root_node s) s;
          (temp_node, s) = load_node (root_node s) temp_node s
      in s)"

definition tfs_mkfs :: "int \<Rightarrow> fs \<Rightarrow> (int \<times> fs) option" where
  "tfs_mkfs fd s =
     (if fd < 0 then Some (-1, s)
      else do {
        let buff = replicate BLOCKSIZE 0;
        let s = set_geometry fd s;
        let s = seek_to fd 0 s;
        let s = clear_blocks fd 0 s;
        let s = seek_to fd 0 s;
        let s = write_addr fd (inode_byte_boundary s) s;
        let s = link_blocks fd 0 (inode_byte_boundary s + 0 * BLOCKSIZE) s;
        (a, s) \<leftarrow> allocate_inode fd s;
        let s = s\<lparr>root_node := a\<rparr>;
        let s = format_root fd buff s;
        Some (0, s)
      })"

section \<open>What the loops write\<close>

lemma clear_blocks_in:
  assumes "ok_dev s" "fd = drive s" "i \<le> n" "n = unat (inode_blocks s + 1)"
    and "pos s = 4096 * i" "4096 * n \<le> devsize s"
  shows "clear_blocks fd (of_nat i) s =
    s\<lparr>dev := wrbytes (dev s) (4096 * i) (replicate (4096 * (n - i)) 0), pos := 4096 * n\<rparr>"
  using assms
proof (induction "n - i" arbitrary: i s)
  case 0
  then have "i = n" by simp
  then have "\<not> (of_nat i :: u64) < inode_blocks s + 1" using 0 by simp
  then show ?case using 0 \<open>i = n\<close> by (subst clear_blocks.simps) simp
next
  case (Suc k)
  have i: "i < n" using Suc by simp
  have "unat (of_nat i :: u64) = i"
    using i Suc.prems(4) by (intro unat_of_nat_le [of _ "inode_blocks s + 1"]) simp
  then have lt: "(of_nat i :: u64) < inode_blocks s + 1" using i Suc.prems(4) by (simp add: word_less_nat_alt)
  have fits: "pos s + 4096 \<le> devsize s" using i Suc.prems by simp
  let ?s = "s\<lparr>dev := wrbytes (dev s) (4096 * i) (replicate 4096 0), pos := 4096 * Suc i\<rparr>"
  have w: "write_zeros fd BLOCKSIZE s = ?s" using Suc.prems fits by (simp add: io_simps)
  have "clear_blocks fd (of_nat (Suc i)) ?s =
      ?s\<lparr>dev := wrbytes (dev ?s) (4096 * Suc i) (replicate (4096 * (n - Suc i)) 0), pos := 4096 * n\<rparr>"
    using Suc.prems i Suc.hyps(2) by (intro Suc.hyps(1)) simp_all
  moreover have "clear_blocks fd (of_nat i) s = clear_blocks fd (of_nat (Suc i)) ?s"
    using lt w by (subst clear_blocks.simps) (simp add: add.commute)
  moreover have "wrbytes (wrbytes (dev s) (4096 * i) (replicate 4096 0)) (4096 * Suc i) (replicate (4096 * (n - Suc i)) 0)
      = wrbytes (dev s) (4096 * i) (replicate (4096 * (n - i)) 0)"
    using i by (auto simp: wrbytes_def fun_eq_iff)
  ultimately show ?case by simp
qed

text \<open>The address of the \<open>k\<close>th block of the data region that starts at \<open>b\<close>.\<close>

definition nth_block :: "nat \<Rightarrow> nat \<Rightarrow> u64" where
  "nth_block b k = of_nat (b + 4096 * k)"

lemma nth_block_Suc: "nth_block b k + 4096 = nth_block b (Suc k)"
  by (simp add: nth_block_def)

lemma unat_nth_block: "b + 4096 * k < 2 ^ 64 \<Longrightarrow> unat (nth_block b k) = b + 4096 * k"
  by (simp add: nth_block_def unat_of_nat del: of_nat_add of_nat_mult)

lemma fill_list_block_in:
  assumes "ok_dev s" "fd = drive s" "i \<le> 512" "c \<le> n" "n = unat (data_blocks s)"
    and "pos s = h + 8 * i" "h + 4096 \<le> devsize s"
  shows "\<exists>m p. fill_list_block fd (8 * i) (of_nat c) (nth_block b (Suc c)) s =
      (of_nat (min (c + (512 - i)) n), nth_block b (Suc (min (c + (512 - i)) n)), s\<lparr>dev := m, pos := p\<rparr>) \<and>
    (\<forall>x. x < h + 8 * i \<or> h + 4096 \<le> x \<longrightarrow> m x = dev s x) \<and>
    (\<forall>j<512. i \<le> j \<longrightarrow> rd64 m (h + 8 * j) =
       (if c + (j - i) < n then nth_block b (Suc (c + (j - i))) else rd64 (dev s) (h + 8 * j)))"
  using assms
proof (induction "512 - i" arbitrary: i c s)
  case 0
  then have "i = 512" by simp
  have "fill_list_block fd (8 * i) (of_nat c) (nth_block b (Suc c)) s = (of_nat c, nth_block b (Suc c), s)"
    using \<open>i = 512\<close> by (subst fill_list_block.simps) simp
  then show ?case
    using 0 \<open>i = 512\<close> by (intro exI [of _ "dev s"] exI [of _ "pos s"]) simp
next
  case (Suc k)
  have i: "i < 512" using Suc by simp
  have cu: "unat (of_nat c :: u64) = c"
    using Suc.prems(4,5) by (intro unat_of_nat_le [of _ "data_blocks s"]) simp
  show ?case
  proof (cases "c < n")
    case False
    then have "c = n" using Suc.prems(4) by simp
    then have "data_blocks s \<le> of_nat c" using Suc.prems(5) cu by (simp add: word_le_nat_alt)
    then have "fill_list_block fd (8 * i) (of_nat c) (nth_block b (Suc c)) s = (of_nat c, nth_block b (Suc c), s)"
      using i by (subst fill_list_block.simps) simp
    then show ?thesis
      using \<open>c = n\<close> by (intro exI [of _ "dev s"] exI [of _ "pos s"]) auto
  next
    case True
    have nle: "\<not> data_blocks s \<le> of_nat c" using True Suc.prems(5) cu by (simp add: word_le_nat_alt)
    let ?m = "wr64 (dev s) (h + 8 * i) (nth_block b (Suc c))"
    let ?s = "s\<lparr>dev := ?m, pos := h + 8 * Suc i\<rparr>"
    have "write_addr fd (nth_block b (Suc c)) s = ?s" using Suc.prems i by (simp add: io_simps)
    then have body: "fill_list_block fd (8 * i) (of_nat c) (nth_block b (Suc c)) s =
        fill_list_block fd (8 * Suc i) (of_nat (Suc c)) (nth_block b (Suc (Suc c))) ?s"
      using i nle by (subst fill_list_block.simps) (simp add: Let_def nth_block_Suc add.commute)
    obtain m p where ih: "fill_list_block fd (8 * Suc i) (of_nat (Suc c)) (nth_block b (Suc (Suc c))) ?s =
        (of_nat (min (Suc c + (512 - Suc i)) n), nth_block b (Suc (min (Suc c + (512 - Suc i)) n)), ?s\<lparr>dev := m, pos := p\<rparr>)"
      "\<forall>x. x < h + 8 * Suc i \<or> h + 4096 \<le> x \<longrightarrow> m x = dev ?s x"
      "\<forall>j<512. Suc i \<le> j \<longrightarrow> rd64 m (h + 8 * j) =
         (if Suc c + (j - Suc i) < n then nth_block b (Suc (Suc c + (j - Suc i))) else rd64 (dev ?s) (h + 8 * j))"
    proof -
      have "k = 512 - Suc i" "ok_dev ?s" "fd = drive ?s" "Suc i \<le> 512" "Suc c \<le> n"
        "n = unat (data_blocks ?s)" "pos ?s = h + 8 * Suc i" "h + 4096 \<le> devsize ?s"
        using Suc.hyps(2) Suc.prems i True by simp_all
      from Suc.hyps(1) [OF this] show thesis by (elim exE conjE) (rule that)
    qed
    have eq: "Suc c + (512 - Suc i) = c + (512 - i)" using i by simp
    have first: "rd64 m (h + 8 * i) = nth_block b (Suc c)"
    proof -
      have "rd64 m (h + 8 * i) = rd64 ?m (h + 8 * i)"
        using ih(2) by (intro rd64_cong) simp
      then show ?thesis by simp
    qed
    have "rd64 m (h + 8 * j) = (if c + (j - i) < n then nth_block b (Suc (c + (j - i))) else rd64 (dev s) (h + 8 * j))"
      if j: "j < 512" "i \<le> j" for j
    proof (cases "j = i")
      case False
      then have "Suc i \<le> j" "Suc c + (j - Suc i) = c + (j - i)" using j by simp_all
      moreover have "rd64 ?m (h + 8 * j) = rd64 (dev s) (h + 8 * j)"
        using False j by (simp add: addr_simps)
      ultimately show ?thesis using ih(3) j(1) by simp
    qed (use first True in simp)
    moreover have "m x = dev s x" if "x < h + 8 * i \<or> h + 4096 \<le> x" for x
      using ih(2) that i by (auto simp: addr_simps)
    ultimately show ?thesis
      using body ih(1) unfolding eq by (intro exI [of _ m] exI [of _ p]) simp
  qed
qed

text \<open>List block \<open>k\<close> of the chain, as \<^verbatim>\<open>tfs_mkfs\<close> leaves it.\<close>

definition formatted :: "nat \<Rightarrow> nat \<Rightarrow> mem \<Rightarrow> nat \<Rightarrow> bool" where
  "formatted b n m k \<longleftrightarrow>
     (\<forall>j<512. rd64 m (b + 4096 * (512 * k) + 8 * j) =
        (if 512 * k + j < n then nth_block b (Suc (512 * k + j)) else 0))"

lemma link_blocks_in:
  assumes "ok_dev s" "fd = drive s" "b = unat (inode_byte_boundary s)" "n = unat (data_blocks s)"
    and "b + 4096 * n \<le> devsize s" "c = min (512 * t) n"
  shows "\<exists>m p. link_blocks fd (of_nat c) (nth_block b c) s = s\<lparr>dev := m, pos := p\<rparr> \<and>
    (\<forall>x < b + 4096 * c. m x = dev s x) \<and>
    (\<forall>k \<ge> t. 512 * k < n \<longrightarrow> formatted b n m k) \<and>
    (\<forall>x. (\<forall>k. 512 * k < n \<longrightarrow> x < b + 4096 * (512 * k) \<or> b + 4096 * (512 * k) + 4096 \<le> x) \<longrightarrow> m x = dev s x)"
  using assms
proof (induction "n - c" arbitrary: c t s rule: less_induct)
  case less
  have cn: "c \<le> n" using less.prems(6) by simp
  have cu: "unat (of_nat c :: u64) = c"
    using cn less.prems(4) by (intro unat_of_nat_le [of _ "data_blocks s"]) simp
  show ?case
  proof (cases "512 * t < n")
    case False
    then have "c = n" using less.prems(6) by simp
    then have "\<not> of_nat c < data_blocks s" using cu less.prems(4) by (simp add: word_less_nat_alt)
    then have "link_blocks fd (of_nat c) (nth_block b c) s = s" by (subst link_blocks.simps) simp
    then show ?thesis using False by (intro exI [of _ "dev s"] exI [of _ "pos s"]) auto
  next
    case True
    then have c: "c = 512 * t" "c < n" using less.prems(6) by simp_all
    then have lt: "of_nat c < data_blocks s" using cu less.prems(4) by (simp add: word_less_nat_alt)
    let ?h = "b + 4096 * c"
    have h: "?h + 4096 \<le> devsize s" using c(2) less.prems(5) by simp
    have hu: "unat (nth_block b c) = ?h"
      using h less.prems(1) by (intro unat_nth_block) (simp add: ok_dev_def)
    let ?z = "wrbytes (dev s) ?h (replicate 4096 0)"
    let ?s1 = "s\<lparr>dev := ?z, pos := ?h\<rparr>"
    have zero: "seek_by fd (- BLOCKSIZE) (write_zeros fd BLOCKSIZE (seek_to fd (nth_block b c) s)) = ?s1"
      using h hu less.prems(1,2) seek_by_back [of "s\<lparr>dev := ?z, pos := ?h + 4096\<rparr>" fd 4096]
      by (simp add: io_simps)
    have ptr: "inode_byte_boundary s + of_nat c * BLOCKSIZE + BLOCKSIZE = nth_block b (Suc c)"
      using less.prems(3) by (simp add: nth_block_def)
    define c' where "c' = min (c + 512) n"
    obtain m p where f: "fill_list_block fd (8 * 0) (of_nat c) (nth_block b (Suc c)) ?s1 =
        (of_nat (min (c + (512 - 0)) n), nth_block b (Suc (min (c + (512 - 0)) n)), ?s1\<lparr>dev := m, pos := p\<rparr>)"
      "\<forall>x. x < ?h + 8 * 0 \<or> ?h + 4096 \<le> x \<longrightarrow> m x = dev ?s1 x"
      "\<forall>j<512. 0 \<le> j \<longrightarrow> rd64 m (?h + 8 * j) =
         (if c + (j - 0) < n then nth_block b (Suc (c + (j - 0))) else rd64 (dev ?s1) (?h + 8 * j))"
    proof -
      have "ok_dev ?s1" "fd = drive ?s1" "0 \<le> (512 :: nat)" "c \<le> n" "n = unat (data_blocks ?s1)"
        "pos ?s1 = ?h + 8 * 0" "?h + 4096 \<le> devsize ?s1" using less.prems c h by simp_all
      from fill_list_block_in [OF this, of b] show thesis by (elim exE conjE) (rule that)
    qed
    let ?s2 = "s\<lparr>dev := m, pos := p\<rparr>"
    have m_out: "m x = dev s x" if "x < ?h \<or> ?h + 4096 \<le> x" for x
      using f(2) that by (auto simp: wrbytes_out)
    have fm: "formatted b n m t"
    proof -
      have "rd64 ?z (?h + 8 * j) = 0" if "j < 512" for j
        using that by (intro rd64_wrbytes_zero) simp_all
      then show ?thesis using f(3) by (simp add: formatted_def c(1))
    qed
    have body: "link_blocks fd (of_nat c) (nth_block b c) s = link_blocks fd (of_nat c') (nth_block b c') ?s2"
      using lt zero ptr f(1) by (subst link_blocks.simps) (simp add: Let_def c'_def nth_block_Suc [symmetric])
    obtain m' p' where ih: "link_blocks fd (of_nat c') (nth_block b c') ?s2 = ?s2\<lparr>dev := m', pos := p'\<rparr>"
      "\<forall>x < b + 4096 * c'. m' x = dev ?s2 x"
      "\<forall>k \<ge> Suc t. 512 * k < n \<longrightarrow> formatted b n m' k"
      "\<forall>x. (\<forall>k. 512 * k < n \<longrightarrow> x < b + 4096 * (512 * k) \<or> b + 4096 * (512 * k) + 4096 \<le> x) \<longrightarrow> m' x = dev ?s2 x"
    proof -
      have "n - c' < n - c" "ok_dev ?s2" "fd = drive ?s2" "b = unat (inode_byte_boundary ?s2)"
        "n = unat (data_blocks ?s2)" "b + 4096 * n \<le> devsize ?s2" "c' = min (512 * Suc t) n"
        using less.prems c by (simp_all add: c'_def)
      from less.hyps [OF this] show thesis by (elim exE conjE) (rule that)
    qed
    have "c < c'" using c(2) by (simp add: c'_def)
    have keep: "rd64 m' (?h + 8 * j) = rd64 m (?h + 8 * j)" if "j < 512" for j
      using ih(2) \<open>c < c'\<close> that by (intro rd64_cong) simp
    have "formatted b n m' k" if "t \<le> k" "512 * k < n" for k
    proof (cases "k = t")
      case True
      then show ?thesis using fm keep by (simp add: formatted_def c(1))
    qed (use ih(3) that in simp)
    moreover have "m' x = dev s x" if "x < ?h" for x
      using ih(2) m_out that \<open>c < c'\<close> by simp
    moreover have "m' x = dev s x"
      if "\<forall>k. 512 * k < n \<longrightarrow> x < b + 4096 * (512 * k) \<or> b + 4096 * (512 * k) + 4096 \<le> x" for x
      using ih(4) m_out that True c(1) by auto
    ultimately show ?thesis
      using body ih(1) by (intro exI [of _ m'] exI [of _ p']) auto
  qed
qed

text \<open>The free list that the formatted list blocks make up.\<close>

lemma upt_split: "i \<le> j \<Longrightarrow> j \<le> k \<Longrightarrow> [i..<j] @ [j..<k] = [i..<k]"
  using upt_add_eq_append [of i j "k - j"] by simp

lemma filter_upt_less: "n \<le> k \<Longrightarrow> filter (\<lambda>j. j < n) [0..<k] = [0..<n]"
proof -
  assume "n \<le> k"
  then have "[0..<k] = [0..<n] @ [n..<k]" by (simp add: upt_split)
  then show ?thesis by (simp add: filter_empty_conv)
qed

lemma spare_formatted:
  assumes "formatted b n m k" "b + 4096 * (n + 1) < 2 ^ 64" "512 * k < n"
  shows "nth_block b (512 * k) # spare m (nth_block b (512 * k)) =
    map (nth_block b) [512 * k..<min (512 * k + 512) (Suc n)]"
proof -
  let ?h = "nth_block b (512 * k)"
  have u: "unat ?h = b + 4096 * (512 * k)" using assms(2,3) by (intro unat_nth_block) simp
  have e: "entry m ?h j = (if 512 * k + j < n then nth_block b (Suc (512 * k + j)) else 0)" if "j < 512" for j
    using assms(1) that by (simp add: entry_def u formatted_def)
  have nz: "nth_block b (Suc i) \<noteq> 0" if "i < n" for i
  proof -
    have "unat (nth_block b (Suc i)) = b + 4096 * Suc i" using assms(2) that by (intro unat_nth_block) simp
    then show ?thesis by auto
  qed
  define q where "q = min 511 (n - 512 * k)"
  have "spare m ?h = map (entry m ?h) (filter (\<lambda>j. entry m ?h j \<noteq> 0) [0..<511])"
    by (simp add: spare_def filter_map comp_def)
  also have "filter (\<lambda>j. entry m ?h j \<noteq> 0) [0..<511] = filter (\<lambda>j. j < q) [0..<511]"
    using e nz by (intro filter_cong) (auto simp: q_def)
  also have "\<dots> = [0..<q]" by (rule filter_upt_less) (simp add: q_def)
  also have "map (entry m ?h) [0..<q] = map (\<lambda>j. nth_block b (Suc (512 * k) + j)) [0..<q]"
    using e by (intro map_cong) (auto simp: q_def)
  also have "\<dots> = map (nth_block b) [Suc (512 * k)..<Suc (512 * k) + q]"
    by (simp add: list_eq_iff_nth_eq del: upt_Suc)
  finally have "?h # spare m ?h = map (nth_block b) (512 * k # [Suc (512 * k)..<Suc (512 * k) + q])" by simp
  also have "512 * k # [Suc (512 * k)..<Suc (512 * k) + q] = [512 * k..<Suc (512 * k) + q]"
    by (subst (2) upt_conv_Cons) simp_all
  also have "Suc (512 * k) + q = min (512 * k + 512) (Suc n)" using assms(3) by (simp add: q_def)
  finally show ?thesis .
qed

lemma formatted_chain:
  assumes "\<And>i. k \<le> i \<Longrightarrow> 512 * i < n \<Longrightarrow> formatted b n m i" "b + 4096 * (n + 1) < 2 ^ 64"
    and "\<not> 512 dvd n" "512 * k < n" "0 < b"
  shows "\<exists>hs. chain m (nth_block b (512 * k)) hs \<and> free_of m hs = map (nth_block b) [512 * k..<Suc n] \<and>
    set hs = (\<lambda>i. nth_block b (512 * i)) ` {i. k \<le> i \<and> 512 * i < n}"
  using assms
proof (induction "n - 512 * k" arbitrary: k rule: less_induct)
  case less
  let ?h = "nth_block b (512 * k)"
  have f: "formatted b n m k" using less.prems by simp
  have u: "unat ?h = b + 4096 * (512 * k)" using less.prems by (intro unat_nth_block) simp
  then have "?h \<noteq> 0" using less.prems(5) by auto
  have e: "entry m ?h 511 = (if 512 * k + 511 < n then nth_block b (512 * Suc k) else 0)"
    using f [unfolded formatted_def, rule_format, of 511] by (simp add: entry_def u)
  note sp = spare_formatted [OF f less.prems(2,4)]
  show ?case
  proof (cases "512 * Suc k < n")
    case False
    have "n \<noteq> 512 * Suc k" using less.prems(3) by (metis dvd_triv_left)
    then have "entry m ?h 511 = 0" "min (512 * k + 512) (Suc n) = Suc n" using e False by simp_all
    moreover have "{i. k \<le> i \<and> 512 * i < n} = {k}" using False less.prems(4) by auto
    ultimately show ?thesis
      using sp \<open>?h \<noteq> 0\<close> by (intro exI [of _ "[?h]"]) (simp add: free_of_def)
  next
    case True
    have "\<exists>hs. chain m (nth_block b (512 * Suc k)) hs \<and> free_of m hs = map (nth_block b) [512 * Suc k..<Suc n] \<and>
        set hs = (\<lambda>i. nth_block b (512 * i)) ` {i. Suc k \<le> i \<and> 512 * i < n}"
    proof (rule less.hyps)
      show "n - 512 * Suc k < n - 512 * k" using True by simp
      show "formatted b n m i" if "Suc k \<le> i" "512 * i < n" for i using less.prems(1) that by simp
    qed (use less.prems True in simp_all)
    then obtain hs where hs: "chain m (nth_block b (512 * Suc k)) hs"
      "free_of m hs = map (nth_block b) [512 * Suc k..<Suc n]"
      "set hs = (\<lambda>i. nth_block b (512 * i)) ` {i. Suc k \<le> i \<and> 512 * i < n}" by blast
    have "{i. k \<le> i \<and> 512 * i < n} = insert k {i. Suc k \<le> i \<and> 512 * i < n}"
      using less.prems(4) by auto
    then have set: "set (?h # hs) = (\<lambda>i. nth_block b (512 * i)) ` {i. k \<le> i \<and> 512 * i < n}"
      using hs(3) by simp
    have "[512 * k..<512 * Suc k] @ [512 * Suc k..<Suc n] = [512 * k..<Suc n]"
      using True upt_split [of "512 * k" "512 * Suc k" "Suc n"] by (simp del: upt_Suc)
    moreover have "min (512 * k + 512) (Suc n) = 512 * Suc k" using True by simp
    ultimately have "free_of m (?h # hs) = map (nth_block b) [512 * k..<Suc n]"
      using sp hs(2) by (metis free_of_Cons append_Cons map_append)
    then show ?thesis using hs(1) set e True \<open>?h \<noteq> 0\<close> by (intro exI [of _ "?h # hs"]) simp
  qed
qed

lemma allocate_block_head:
  assumes "ok_dev s" "block_ok s h" "super s = h" "entry (dev s) h 0 \<noteq> 0"
  shows "allocate_block s = (entry (dev s) h 0, s\<lparr>dev := wr64 (dev s) (unat h) 0, pos := unat h + 8\<rparr>)"
  using allocate_block_spare [OF assms(1-3), of 0] assms(4) by simp

text \<open>The first block of the root directory.\<close>

definition root_image :: "mem \<Rightarrow> nat \<Rightarrow> u64 \<Rightarrow> mem" where
  "root_image m c r =
     wr64 (wrbytes (wr64 (wrbytes (wrbytes m c (replicate BLOCKSIZE 0)) c [46, 0])
       (c + 248) r) (c + 256) [46, 46, 0]) (c + 504) r"

lemma root_image_out: "x < c \<or> c + 4096 \<le> x \<Longrightarrow> root_image m c r x = m x"
  by (auto simp: root_image_def addr_simps wrbytes_out)

lemma root_image_addr: "rd64 (root_image m c r) (c + 248) = r" "rd64 (root_image m c r) (c + 504) = r"
  by (simp_all add: root_image_def addr_simps)

lemma root_image_name:
  "rdbytes (root_image m c r) c 2 = [46, 0]" "rdbytes (root_image m c r) (c + 256) 3 = [46, 46, 0]"
  by (simp_all add: root_image_def wr64_def rdbytes_wrbytes_disjoint)

lemma format_root_in:
  assumes "ok_dev s" "fd = drive s" "node_ok s (root_node s)" "block_ok s h" "super s = h"
    and "entry (dev s) h 0 = c" "block_ok s c" "buff = replicate 4096 0"
  shows "\<exists>s' t1 t2 t3. format_root fd buff s = s' \<and> only_io s s' \<and>
    dev s' = wrbytes (root_image (wr64 (dev s) (unat h) 0) (unat c) (root_node s)) (unat (root_node s))
      (bytes_of_node ((node_at (dev s) (unat (root_node s)))
        \<lparr>mode := 0x4124, access_time := t1, creation_time := t2,
         direct_blocks := (direct_blocks (node_at (dev s) (unat (root_node s))))[0 := c],
         data_time := t3, n_size := 512, blocks := 1, links := 1\<rparr>))"
proof -
  have c0: "c \<noteq> 0" and h: "block_ok s h" "rd64 (dev s) 0 = h"
    using assms(4,5,7) by (auto simp: block_ok_def super_def)
  have r: "root_node s \<noteq> 0" "unat (root_node s) + 208 \<le> devsize s" using assms(3) by (simp_all add: node_ok_def)
  have len: "length buff = 4096" using assms(8) by simp
  note alloc = allocate_block_head [where h = h, unfolded super_def]
  show ?thesis
    using assms(1,2,3,6,7,8) c0 h r len
    by (simp add: format_root_def Let_def io_simps get_current_time_in_nsec_def alloc
        block_at node_at_def [symmetric] bytes_of_string_def root_image_def [symmetric])
       (auto simp: only_io_def root_image_def)
qed

section \<open>The formatted disk\<close>

text \<open>
  A disk of \<open>ib\<close> inode blocks: the data region starts at \<open>region ib\<close> and its free list gets
  \<open>list_size ib\<close> addresses after the first.
\<close>

definition disk_of :: "int \<Rightarrow> fs \<Rightarrow> nat \<Rightarrow> bool" where
  "disk_of fd s ib \<longleftrightarrow>
     0 \<le> fd \<and> devsize s < 2 ^ 63 \<and> ib = devsize s div BLOCKSIZE div 65 \<and> 0 < ib"

definition region :: "nat \<Rightarrow> nat" where
  "region ib = 4096 * (ib + 1)"

definition list_size :: "nat \<Rightarrow> nat" where
  "list_size ib = 64 * ib - 1"

lemma disk_room:
  assumes "disk_of fd s ib"
  shows "region ib + 4096 * list_size ib \<le> devsize s" "4096 * 65 * ib \<le> devsize s"
    "region ib < 2 ^ 63" "63 \<le> list_size ib" "0 < region ib" "\<not> 512 dvd list_size ib"
    "region ib + 4096 * (list_size ib + 1) < 2 ^ 64" "region ib + 4096 \<le> devsize s"
proof -
  have "ib * 65 \<le> devsize s div 4096" using assms by (simp add: disk_of_def)
  moreover have "devsize s div 4096 * 4096 \<le> devsize s" by simp
  ultimately show d: "4096 * 65 * ib \<le> devsize s" by linarith
  have ib: "0 < ib" using assms by (simp add: disk_of_def)
  have eq: "region ib + 4096 * list_size ib = 4096 * 65 * ib"
    using ib by (simp add: region_def list_size_def algebra_simps)
  then show "region ib + 4096 * list_size ib \<le> devsize s" using d by simp
  show "63 \<le> list_size ib" using ib by (simp add: list_size_def)
  show "0 < region ib" by (simp add: region_def)
  show "region ib < 2 ^ 63" "region ib + 4096 * (list_size ib + 1) < 2 ^ 64"
    using d eq assms by (simp_all add: disk_of_def)
  show "region ib + 4096 \<le> devsize s" using d ib by (simp add: region_def)
  show "\<not> 512 dvd list_size ib"
  proof
    assume "512 dvd list_size ib"
    then obtain k where "64 * ib - 1 = 512 * k" unfolding list_size_def by (elim dvdE)
    then have eq: "64 * ib = Suc (64 * (8 * k))" using ib by simp
    have "Suc (64 * j) mod 64 = 1" for j :: nat by (simp add: mod_Suc)
    then show False using eq by (metis mod_mult_self1_is_0 zero_neq_one)
  qed
qed

lemma set_geometry_fields:
  assumes "disk_of fd s ib"
  shows "unat (inode_byte_boundary (set_geometry fd s)) = region ib"
    "unat (data_blocks (set_geometry fd s)) = list_size ib"
    "unat (inode_blocks (set_geometry fd s) + 1) = ib + 1"
    "inode_byte_boundary (set_geometry fd s) = nth_block (region ib) 0"
    "drive (set_geometry fd s) = fd" "devsize (set_geometry fd s) = devsize s"
    "dev (set_geometry fd s) = dev s" "ok_dev (set_geometry fd s)"
proof -
  have fd: "0 \<le> fd" "devsize s < 2 ^ 63" and ib: "ib = devsize s div 4096 div 65" "0 < ib"
    using assms by (simp_all add: disk_of_def)
  have eq: "inode_blocks (set_geometry fd s) = of_nat ib"
  proof (rule word_unat_eq_iff [THEN iffD2])
    have "ib < 2 ^ 64" using ib(1) fd(2) by (simp add: div_mult2_eq [symmetric] less_mult_imp_div_less)
    then show "unat (inode_blocks (set_geometry fd s)) = unat (of_nat ib :: u64)"
      using fd ib(1) by (simp add: set_geometry_def Let_def ioctl_blkgetsize64_def unat_div unat_of_nat)
  qed
  have b: "inode_byte_boundary (set_geometry fd s) = of_nat (region ib)"
    using eq by (simp add: set_geometry_def Let_def region_def)
  have d: "data_blocks (set_geometry fd s) = of_nat (list_size ib)"
    using eq ib(2) by (simp add: set_geometry_def Let_def list_size_def of_nat_diff)
  have small: "region ib + 4096 * list_size ib < 2 ^ 63" using disk_room(1) [OF assms] fd(2) by simp
  show "unat (inode_byte_boundary (set_geometry fd s)) = region ib"
    unfolding b using small by (simp add: unat_of_nat)
  show "unat (data_blocks (set_geometry fd s)) = list_size ib"
    unfolding d using small by (simp add: unat_of_nat)
  have "ib + 1 < 2 ^ 63" using small by (simp add: region_def)
  then have "unat (of_nat (Suc ib) :: u64) = Suc ib" by (simp add: unat_of_nat del: of_nat_Suc)
  then show "unat (inode_blocks (set_geometry fd s) + 1) = ib + 1"
    unfolding eq by (metis of_nat_Suc add.commute Suc_eq_plus1)
  show "inode_byte_boundary (set_geometry fd s) = nth_block (region ib) 0"
    unfolding b by (simp add: nth_block_def)
  show "drive (set_geometry fd s) = fd" "devsize (set_geometry fd s) = devsize s"
    "dev (set_geometry fd s) = dev s" "ok_dev (set_geometry fd s)"
    using fd by (simp_all add: set_geometry_def Let_def ok_dev_def)
qed

text \<open>The state in which \<^verbatim>\<open>tfs_mkfs\<close> asks for the root's inode.\<close>

definition listed :: "int \<Rightarrow> fs \<Rightarrow> nat \<Rightarrow> fs \<Rightarrow> bool" where
  "listed fd s ib s1 \<longleftrightarrow>
     only_io (set_geometry fd s) s1 \<and> super s1 = nth_block (region ib) 0 \<and>
     (\<forall>x. 8 \<le> x \<and> x < region ib \<longrightarrow> dev s1 x = 0) \<and>
     (\<forall>k. 512 * k < list_size ib \<longrightarrow> formatted (region ib) (list_size ib) (dev s1) k)"

lemma mkfs_listed:
  assumes "disk_of fd s ib"
  shows "\<exists>s1. listed fd s ib s1 \<and> tfs_mkfs fd s =
    do { (a, s') \<leftarrow> allocate_inode fd s1; Some (0, format_root fd (replicate BLOCKSIZE 0) (s'\<lparr>root_node := a\<rparr>)) }"
proof -
  let ?g = "set_geometry fd s" and ?b = "region ib" and ?n = "list_size ib"
  note g = set_geometry_fields [OF assms] and r = disk_room [OF assms]
  define s0 where "s0 = ?g\<lparr>pos := 0\<rparr>"
  define m where "m = wrbytes (dev s) (4096 * 0) (replicate (4096 * (ib + 1 - 0)) 0)"
  define s2 where "s2 = ?g\<lparr>dev := wr64 m 0 (nth_block ?b 0), pos := 8\<rparr>"
  have c: "clear_blocks fd (of_nat 0) s0 = s0\<lparr>dev := wrbytes (dev s0) (4096 * 0) (replicate (4096 * (ib + 1 - 0)) 0), pos := 4096 * (ib + 1)\<rparr>"
    using g r by (intro clear_blocks_in) (simp_all add: s0_def region_def)
  define s1 where "s1 = ?g\<lparr>dev := m, pos := 4096 * (ib + 1)\<rparr>"
  define s1' where "s1' = ?g\<lparr>dev := m, pos := 0\<rparr>"
  have steps: "seek_to fd 0 ?g = s0" "clear_blocks fd 0 s0 = s1" "seek_to fd 0 s1 = s1'"
    "inode_byte_boundary s1' = nth_block ?b 0" "write_addr fd (nth_block ?b 0) s1' = s2"
    using g r c by (simp_all add: s0_def s1_def s1'_def s2_def m_def io_simps)
  have s2: "ok_dev s2" "fd = drive s2" "?b = unat (inode_byte_boundary s2)" "?n = unat (data_blocks s2)"
    "?b + 4096 * ?n \<le> devsize s2" "0 = min (512 * 0) ?n" "inode_byte_boundary s2 = nth_block ?b 0"
    using g r by (simp_all add: s2_def)
  obtain m' p where l: "link_blocks fd (of_nat 0) (nth_block ?b 0) s2 = s2\<lparr>dev := m', pos := p\<rparr>"
    "\<forall>x < ?b + 4096 * 0. m' x = dev s2 x" "\<forall>k \<ge> 0. 512 * k < ?n \<longrightarrow> formatted ?b ?n m' k"
    using link_blocks_in [OF s2(1-6)] by (elim exE conjE)
  let ?s1 = "s2\<lparr>dev := m', pos := p\<rparr>"
  have b8: "8 \<le> ?b" by (simp add: region_def)
  have "rd64 m' 0 = rd64 (dev s2) 0" using l(2) b8 by (intro rd64_cong) simp
  then have "super ?s1 = nth_block ?b 0" by (simp add: super_def s2_def)
  moreover have "m' x = 0" if "8 \<le> x" "x < ?b" for x
    using l(2) that by (simp add: s2_def m_def addr_simps wrbytes_def region_def)
  moreover have "only_io ?g ?s1" by (simp add: s2_def only_io_def)
  ultimately have "listed fd s ib ?s1" using l(3) by (simp add: listed_def)
  moreover have "tfs_mkfs fd s =
      do { (a, s') \<leftarrow> allocate_inode fd ?s1; Some (0, format_root fd (replicate BLOCKSIZE 0) (s'\<lparr>root_node := a\<rparr>)) }"
    using assms steps l(1) s2(7) by (simp add: tfs_mkfs_def disk_of_def Let_def)
  ultimately show ?thesis by blast
qed

lemma only_io_sym: "only_io s s' \<Longrightarrow> only_io s' s"
  by (simp add: only_io_def)

lemma fl_ok_root: "fl_ok (s\<lparr>root_node := a\<rparr>) hs = fl_ok s hs"
  by (simp add: fl_ok_def ok_dev_def super_def data_block_def list_all_iff)

text \<open>The free list before the root directory takes its block.\<close>

lemma listed_state:
  assumes "disk_of fd s ib" "listed fd s ib s1"
  shows "ok_dev s1" "drive s1 = fd" "devsize s1 = devsize s" "table_ok s1"
    "unat (inode_byte_boundary s1) = region ib" "block_ok s1 (nth_block (region ib) 0)"
    "unat (nth_block (region ib) 0) = region ib"
    "entry (dev s1) (nth_block (region ib) 0) 0 = nth_block (region ib) 1"
proof -
  note g = set_geometry_fields [OF assms(1)] and r = disk_room [OF assms(1)]
  have io: "only_io (set_geometry fd s) s1" using assms(2) by (simp add: listed_def)
  show "ok_dev s1" using g ok_dev_only_io [OF io] by simp
  show "drive s1 = fd" "devsize s1 = devsize s" using only_ioD [OF io] g by simp_all
  show b: "unat (inode_byte_boundary s1) = region ib" using only_ioD [OF io] g by simp
  show "table_ok s1"
    using \<open>ok_dev s1\<close> \<open>devsize s1 = _\<close> b r by (simp add: table_ok_def) (simp add: region_def)
  show u: "unat (nth_block (region ib) 0) = region ib"
    using r unat_nth_block [of "region ib" 0] by simp
  then show "block_ok s1 (nth_block (region ib) 0)"
    using r \<open>devsize s1 = _\<close> by (auto simp: block_ok_def)
  have "formatted (region ib) (list_size ib) (dev s1) 0"
    using assms(2) r by (auto simp: listed_def)
  then show "entry (dev s1) (nth_block (region ib) 0) 0 = nth_block (region ib) 1"
    using r(4) unfolding formatted_def entry_def u by (auto dest!: spec [of _ 0])
qed

lemma listed_fl:
  assumes "disk_of fd s ib" "listed fd s ib s1" "devsize s div BLOCKSIZE mod 65 \<noteq> 0"
  shows "fl_inv s1" "free_set s1 = nth_block (region ib) ` {0..list_size ib}"
proof -
  let ?b = "region ib" and ?n = "list_size ib"
  note l = listed_state [OF assms(1,2)] and r = disk_room [OF assms(1)]
  have f: "\<And>k. 512 * k < ?n \<Longrightarrow> formatted ?b ?n (dev s1) k" "super s1 = nth_block ?b 0"
    using assms(2) by (simp_all add: listed_def)
  obtain hs where hs: "chain (dev s1) (nth_block ?b (512 * 0)) hs"
    "free_of (dev s1) hs = map (nth_block ?b) [512 * 0..<Suc ?n]"
    using formatted_chain [of 0 ?n ?b "dev s1"] f(1) r by auto
  have fits: "?b + 4096 * k + 4096 \<le> devsize s1" if "k \<le> ?n" for k
  proof -
    have ib: "ib = devsize s div 4096 div 65" "0 < ib" using assms(1) by (simp_all add: disk_of_def)
    have "65 * ib + 1 \<le> devsize s div 4096"
      using assms(3) ib(1) mult_div_mod_eq [of 65 "devsize s div 4096"] by linarith
    then have "4096 * (65 * ib + 1) \<le> 4096 * (devsize s div 4096)" by (rule mult_le_mono2)
    also have "\<dots> \<le> devsize s" by simp
    finally have "4096 * (65 * ib + 1) \<le> devsize s" .
    moreover have "?b + 4096 * k + 4096 \<le> 4096 * (65 * ib + 1)"
      using that ib(2) by (simp add: region_def list_size_def)
    ultimately show ?thesis using l(3) by simp
  qed
  have u: "unat (nth_block ?b k) = ?b + 4096 * k" if "k \<le> ?n" for k
    using r(7) that by (intro unat_nth_block) simp
  have "inj_on (nth_block ?b) {0..?n}"
    using u by (intro inj_onI) (metis add_left_cancel atLeastAtMost_iff mult_left_cancel zero_neq_numeral)
  then have d: "distinct (free_of (dev s1) hs)"
    unfolding hs(2) by (simp add: distinct_map atLeast0LessThan lessThan_Suc_atMost atLeast0AtMost del: upt_Suc)
  have "data_block s1 (nth_block ?b k)" if "k \<le> ?n" for k
  proof -
    have "nth_block ?b k \<noteq> 0" using u [OF that] r(5) by auto
    moreover have "4096 dvd ?b + 4096 * k" by (simp add: region_def)
    ultimately show ?thesis using u [OF that] fits [OF that] l(5) by (simp add: data_block_def)
  qed
  then have "list_all (data_block s1) (free_of (dev s1) hs)"
    unfolding hs(2) by (auto simp: list_all_iff simp del: upt_Suc)
  then have ok: "fl_ok s1 hs"
    using l(1,3) r d hs(1) f(2) by (simp add: fl_ok_def)
  then show "fl_inv s1" using fl_ok_inv by blast
  show "free_set s1 = nth_block ?b ` {0..?n}"
    using fl_ok_inv [OF ok] unfolding hs(2) by (auto simp del: upt_Suc)
qed

lemma listed_inode:
  assumes "disk_of fd s ib" "listed fd s ib s1"
  shows "\<exists>s2. allocate_inode fd s1 = Some (4096, s2) \<and> only_io s1 s2 \<and> dev s2 = dev s1"
    and "node_at (dev s1) 4096 = node_of_bytes (replicate 208 0)"
proof -
  note l = listed_state [OF assms] and r = disk_room [OF assms(1)]
  have ib: "0 < ib" using assms(1) by (simp add: disk_of_def)
  have z: "dev s1 (4096 + i) = 0" if "i < 208" for i
    using assms(2) that ib by (simp add: listed_def region_def)
  have "rdbytes (dev s1) 4096 208 = replicate 208 0"
    using z by (auto simp: list_eq_iff_nth_eq)
  then show n: "node_at (dev s1) 4096 = node_of_bytes (replicate 208 0)" by (simp only: node_at_def)
  have slot: "inode_slot s1 4096" using ib by (simp add: inode_slot_def l(5)) (simp add: region_def)
  have unat_4096: "unat (4096 :: u64) = 4096" by simp
  have free: "free_slot s1 4096" by (simp add: free_slot_def n node_of_bytes_def)
  have "first_free s1 \<noteq> 0 \<and> \<not> 4096 < first_free s1 \<and> 4096 \<le> unat (first_free s1)"
    using first_free_cases [OF l(4)] slot free unat_4096
    by (metis (no_types, lifting) inode_slot_def)
  then have "first_free s1 = 4096" by (simp add: word_unat_eq_iff word_less_nat_alt)
  then show "\<exists>s2. allocate_inode fd s1 = Some (4096, s2) \<and> only_io s1 s2 \<and> dev s2 = dev s1"
    using allocate_inode_scan [OF l(4), of fd] l(3) r(8) by auto
qed

lemma mkfs_result:
  assumes "disk_of fd s ib"
  shows "\<exists>s' s1 n. tfs_mkfs fd s = Some (0, s') \<and> listed fd s ib s1 \<and> only_io (s1\<lparr>root_node := 4096\<rparr>) s' \<and>
    dev s' = wrbytes (root_image (wr64 (dev s1) (region ib) 0) (unat (nth_block (region ib) 1)) 4096) 4096 (bytes_of_node n) \<and>
    wf_node n \<and> mode n = 0x4124 \<and> n_size n = 512 \<and> blocks n = 1 \<and> links n = 1 \<and>
    direct_blocks n ! 0 = nth_block (region ib) 1 \<and> indirect_blocks n = 0"
proof -
  let ?c = "nth_block (region ib) 1" and ?h = "nth_block (region ib) 0"
  obtain s1 where s1: "listed fd s ib s1" "tfs_mkfs fd s =
    do { (a, s') \<leftarrow> allocate_inode fd s1; Some (0, format_root fd (replicate BLOCKSIZE 0) (s'\<lparr>root_node := a\<rparr>)) }"
    using mkfs_listed [OF assms] by blast
  note l = listed_state [OF assms s1(1)] and r = disk_room [OF assms]
  obtain s2 where s2: "allocate_inode fd s1 = Some (4096, s2)" "only_io s1 s2" "dev s2 = dev s1"
    using listed_inode(1) [OF assms s1(1)] by blast
  let ?s3 = "s2\<lparr>root_node := 4096\<rparr>"
  have io: "only_io (s1\<lparr>root_node := 4096\<rparr>) ?s3" using s2(2) by (simp add: only_io_def)
  have cu: "unat ?c = region ib + 4096" using r by (subst unat_nth_block) simp_all
  note cu' = cu [unfolded One_nat_def]
  have "block_ok ?s3 ?h" "node_ok ?s3 (root_node ?s3)" "block_ok ?s3 ?c" "ok_dev ?s3" "fd = drive ?s3"
    using l r only_ioD [OF s2(2)] ok_dev_only_io [OF s2(2)] block_ok_only_io [OF s2(2)]
    by (auto simp: block_ok_def node_ok_def ok_dev_def cu' word_unat_eq_iff)
  moreover have "super ?s3 = ?h" "entry (dev ?s3) ?h 0 = ?c"
    using s1(1) l(8) by (simp_all add: listed_def super_def s2(3))
  ultimately obtain s' t1 t2 t3 where f: "format_root fd (replicate 4096 0) ?s3 = s'" "only_io ?s3 s'"
    "dev s' = wrbytes (root_image (wr64 (dev ?s3) (unat ?h) 0) (unat ?c) (root_node ?s3)) (unat (root_node ?s3))
      (bytes_of_node ((node_at (dev ?s3) (unat (root_node ?s3)))
        \<lparr>mode := 0x4124, access_time := t1, creation_time := t2,
         direct_blocks := (direct_blocks (node_at (dev ?s3) (unat (root_node ?s3))))[0 := ?c],
         data_time := t3, n_size := 512, blocks := 1, links := 1\<rparr>))"
    using format_root_in [of ?s3 fd ?h ?c "replicate 4096 0"] by blast
  define n where "n = (node_at (dev ?s3) (unat (root_node ?s3)))
        \<lparr>mode := 0x4124, access_time := t1, creation_time := t2,
         direct_blocks := (direct_blocks (node_at (dev ?s3) (unat (root_node ?s3))))[0 := ?c],
         data_time := t3, n_size := 512, blocks := 1, links := 1\<rparr>"
  have "rdbytes (dev s1) 4096 208 = replicate 208 0"
  proof (rule nth_equalityI)
    fix i assume "i < length (rdbytes (dev s1) 4096 208)"
    then have i: "i < 208" by simp
    have "4096 + i < region ib" using i assms by (simp add: region_def disk_of_def)
    then show "rdbytes (dev s1) 4096 208 ! i = replicate 208 0 ! i" using i s1(1) by (simp add: listed_def)
  qed simp
  then have "indirect_blocks (node_at (dev s1) 4096) = 0" by (simp add: node_at_def node_of_bytes_def)
  then have n: "wf_node n" "mode n = 0x4124" "n_size n = 512" "blocks n = 1" "links n = 1" "direct_blocks n ! 0 = ?c"
    "indirect_blocks n = 0"
    by (simp_all add: n_def s2(3))
  have d: "dev s' = wrbytes (root_image (wr64 (dev s1) (region ib) 0) (unat ?c) 4096) 4096 (bytes_of_node n)"
    using f(3) by (simp only: n_def [symmetric] l(7) s2(3) fs.simps) (simp add: s2(3))
  have "tfs_mkfs fd s = Some (0, s')" using s1(2) s2(1) f(1) by simp
  then show ?thesis using s1(1) n d only_io_trans [OF io f(2)] by blast
qed

lemma root_image_in: "i < 4096 \<Longrightarrow> root_image m c r (c + i) = root_image m' c r (c + i)"
  by (simp add: root_image_def wr64_def wrbytes_def)

text \<open>Everything that matters of the formatted disk.\<close>

definition fresh_disk :: "int \<Rightarrow> fs \<Rightarrow> nat \<Rightarrow> fs \<Rightarrow> bool" where
  "fresh_disk fd s ib s' \<longleftrightarrow>
     tfs_mkfs fd s = Some (0, s') \<and> table_ok s' \<and> fl_inv s' \<and> root_node s' = BLOCKSIZE \<and>
     unat (inode_byte_boundary s') = region ib \<and> devsize s' = devsize s \<and>
     free_set s' = nth_block (region ib) ` ({0..list_size ib} - {1}) \<and>
     mode (get_node s' BLOCKSIZE) = 0x4124 \<and> n_size (get_node s' BLOCKSIZE) = 512 \<and>
     blocks (get_node s' BLOCKSIZE) = 1 \<and> links (get_node s' BLOCKSIZE) = 1 \<and>
     direct_blocks (get_node s' BLOCKSIZE) ! 0 = nth_block (region ib) 1 \<and>
     indirect_blocks (get_node s' BLOCKSIZE) = 0 \<and>
     (\<forall>x. BLOCKSIZE + 208 \<le> x \<and> x < region ib \<longrightarrow> dev s' x = 0) \<and>
     (\<forall>i < BLOCKSIZE. dev s' (region ib + BLOCKSIZE + i) =
        root_image (\<lambda>_. 0) (region ib + BLOCKSIZE) BLOCKSIZE (region ib + BLOCKSIZE + i))"

lemma mkfs_fresh:
  assumes "disk_of fd s ib" "devsize s div BLOCKSIZE mod 65 \<noteq> 0"
  shows "\<exists>s'. fresh_disk fd s ib s'"
proof -
  let ?c = "nth_block (region ib) 1" and ?h = "nth_block (region ib) 0"
  obtain s' s1 n where m: "tfs_mkfs fd s = Some (0, s')" "listed fd s ib s1"
    "only_io (s1\<lparr>root_node := 4096\<rparr>) s'"
    "dev s' = wrbytes (root_image (wr64 (dev s1) (region ib) 0) (unat ?c) 4096) 4096 (bytes_of_node n)"
    and n: "wf_node n" "mode n = 0x4124" "n_size n = 512" "blocks n = 1" "links n = 1" "direct_blocks n ! 0 = ?c"
      "indirect_blocks n = 0"
    using mkfs_result [OF assms(1)] by blast
  note l = listed_state [OF assms(1) m(2)] and r = disk_room [OF assms(1)]
    and fl = listed_fl [OF assms(1) m(2) assms(2)]
  let ?s3 = "s1\<lparr>root_node := 4096\<rparr>"
  have inv3: "fl_inv ?s3" "free_set ?s3 = free_set s1"
    using fl fl_ok_root [where s = s1] fl_ok_inv [of ?s3 "heads s1"]
    by (simp_all add: fl_inv_def free_set_def free_blocks_def)
  have cu: "unat ?c = region ib + 4096" using r by (subst unat_nth_block) simp_all
  note cu' = cu [unfolded One_nat_def]
  have c_in: "?c \<in> free_set ?s3" using r fl(2) inv3(2) by auto
  have sup: "super ?s3 = ?h" using m(2) by (simp add: listed_def super_def)
  have "?c \<noteq> 0" using cu by auto
  then have al: "allocate_block ?s3 = (?c, ?s3\<lparr>dev := wr64 (dev s1) (region ib) 0, pos := region ib + 8\<rparr>)"
    (is "_ = (_, ?s4)")
    using allocate_block_head [of ?s3 ?h] l sup by (simp add: block_ok_def ok_dev_def)
  have s4: "fl_inv ?s4" "free_set ?s4 = free_set s1 - {?c}" "data_block ?s4 ?c"
  proof -
    have "free_set ?s3 \<noteq> {}" using c_in by blast
    then show "fl_inv ?s4" "free_set ?s4 = free_set s1 - {?c}"
      using allocate_block_fl [OF inv3(1) al] inv3(2) by simp_all
    show "data_block ?s4 ?c" using free_set_data [OF inv3(1) c_in] by (simp add: data_block_def)
  qed
  let ?m5 = "root_image (wr64 (dev s1) (region ib) 0) (unat ?c) 4096"
  let ?s5 = "?s4\<lparr>dev := ?m5\<rparr>"
  have s5: "fl_inv ?s5" "free_set ?s5 = free_set s1 - {?c}"
  proof -
    have io: "only_io ?s4 ?s5" by (simp add: only_io_def)
    have out: "dev ?s5 x = dev ?s4 x" if "x < unat ?c \<or> unat ?c + 4096 \<le> x" for x
      using root_image_out [OF that] by simp
    have "?c \<notin> free_set ?s4" using s4(2) by blast
    from fl_write_block [OF s4(1,3) this io out] s4(2)
    show "fl_inv ?s5" "free_set ?s5 = free_set s1 - {?c}" by blast+
  qed
  have io5: "only_io ?s5 s'" using m(3) by (simp add: only_io_def)
  have "dev s' x = dev ?s5 x" if "x < 8 \<or> unat (inode_byte_boundary ?s5) \<le> x" for x
    using that m(4) l(5) n(1) assms(1) by (auto simp: wrbytes_out region_def disk_of_def)
  then have s': "fl_inv s'" "free_set s' = free_set s1 - {?c}"
    using fl_write_table [OF s5(1) io5] s5(2) by auto
  have "nth_block (region ib) i \<noteq> ?c" if "i \<le> list_size ib" "i \<noteq> 1" for i
    using unat_nth_block [of "region ib" i] cu r(7) that by auto
  then have fs: "free_set s' = nth_block (region ib) ` ({0..list_size ib} - {1})"
    using s'(2) fl(2) by auto
  have tab: "table_ok s'" "root_node s' = 4096"
    using table_ok_only_io [OF m(3)] l(4) only_ioD [OF m(3)] by (simp_all add: table_ok_def ok_dev_def)
  have g: "get_node s' 4096 = n" using n(1) by (simp add: get_node_def m(4))
  have out: "4096 + 208 \<le> region ib" using assms(1) by (simp add: region_def disk_of_def)
  have "dev s' x = 0" if "4304 \<le> x" "x < region ib" for x
    using that n(1) m(2) cu by (simp add: m(4) wrbytes_out root_image_out addr_simps listed_def)
  moreover have "dev s' (region ib + 4096 + i) = root_image (\<lambda>_. 0) (region ib + 4096) 4096 (region ib + 4096 + i)"
    if "i < 4096" for i
    using out n(1) root_image_in [OF that, of _ "region ib + 4096"] by (simp add: m(4) cu' wrbytes_out)
  moreover have "unat (inode_byte_boundary s') = region ib" "devsize s' = devsize s"
    using only_ioD [OF m(3)] l by simp_all
  ultimately show ?thesis
    using m(1) tab s'(1) fs g n by (intro exI [of _ s']) (simp add: fresh_disk_def)
qed

lemma fresh_root_block:
  assumes "fresh_disk fd s ib s'"
  shows "rdbytes (dev s') (region ib + 4096) 4096 = rdbytes (root_image (\<lambda>_. 0) (region ib + 4096) 4096) (region ib + 4096) 4096"
  using assms by (intro rdbytes_cong) (simp add: fresh_disk_def)

lemma fresh_root_bytes:
  assumes "fresh_disk fd s ib s'" "a + n \<le> 4096"
  shows "rdbytes (dev s') (region ib + 4096 + a) n = rdbytes (root_image (\<lambda>_. 0) (region ib + 4096) 4096) (region ib + 4096 + a) n"
    and "n = 8 \<Longrightarrow> rd64 (dev s') (region ib + 4096 + a) = rd64 (root_image (\<lambda>_. 0) (region ib + 4096) 4096) (region ib + 4096 + a)"
  using assms by (auto intro!: rdbytes_cong rd64_cong simp: fresh_disk_def add.assoc)

text \<open>
  C3. Formatting a disk with a data region that fits it: the table and the free list are
  well-formed, the free blocks are the whole data region but the root directory's block, the
  root directory is the first inode, and its block holds the entries \<open>.\<close> and \<open>..\<close>,
  both with the root's address.
\<close>

theorem mkfs_formats:
  assumes "disk_of fd s ib" "devsize s div BLOCKSIZE mod 65 \<noteq> 0"
  shows "\<exists>s'. tfs_mkfs fd s = Some (0, s') \<and> table_ok s' \<and> fl_inv s' \<and> root_node s' = BLOCKSIZE \<and>
    free_set s' = nth_block (region ib) ` ({0..list_size ib} - {1}) \<and>
    mode (get_node s' BLOCKSIZE) = 0x4124 \<and> n_size (get_node s' BLOCKSIZE) = 512 \<and>
    blocks (get_node s' BLOCKSIZE) = 1 \<and> links (get_node s' BLOCKSIZE) = 1 \<and>
    direct_blocks (get_node s' BLOCKSIZE) ! 0 = nth_block (region ib) 1 \<and>
    rdbytes (dev s') (region ib + 4096) 2 = bytes_of_string ''.'' @ [0] \<and>
    rd64 (dev s') (region ib + 4096 + 248) = BLOCKSIZE \<and>
    rdbytes (dev s') (region ib + 4096 + 256) 3 = bytes_of_string ''..'' @ [0] \<and>
    rd64 (dev s') (region ib + 4096 + 504) = BLOCKSIZE"
proof -
  obtain s' where f: "fresh_disk fd s ib s'" using mkfs_fresh [OF assms] by blast
  have img: "rdbytes (dev s') (region ib + 4096) 2 = [46, 0]" "rd64 (dev s') (region ib + 4096 + 248) = 4096"
    "rdbytes (dev s') (region ib + 4096 + 256) 3 = [46, 46, 0]" "rd64 (dev s') (region ib + 4096 + 504) = 4096"
    using fresh_root_bytes [OF f, of 0 2] fresh_root_bytes [OF f, of 248 8] fresh_root_bytes [OF f, of 256 3]
      fresh_root_bytes [OF f, of 504 8]
    by (simp_all only: root_image_addr root_image_name add_0_right)
  have dots: "bytes_of_string ''.'' @ [0] = [46, 0]" "bytes_of_string ''..'' @ [0] = [46, 46, 0]"
    by (simp_all add: bytes_of_string_def)
  show ?thesis unfolding dots using f img by (intro exI [of _ s']) (simp add: fresh_disk_def)
qed

text \<open>The smallest disk the theorem covers, 66 blocks, before it is formatted.\<close>

theorem mkfs_formats_witness:
  "\<exists>s'. tfs_mkfs 3 (blank_fs (66 * 4096)) = Some (0, s') \<and> card (free_set s') = 63 \<and>
     direct_blocks (get_node s' 4096) ! 0 = 12288"
proof -
  have d: "disk_of 3 (blank_fs (66 * 4096)) 1"
    by (simp add: disk_of_def blank_fs_def)
  obtain s' where s': "tfs_mkfs 3 (blank_fs (66 * 4096)) = Some (0, s')"
    "free_set s' = nth_block (region 1) ` ({0..list_size 1} - {1})"
    "direct_blocks (get_node s' 4096) ! 0 = nth_block (region 1) 1"
    using mkfs_formats [OF d] by (auto simp: blank_fs_def)
  have "inj_on (nth_block (region 1)) ({0..list_size 1} - {1})"
  proof (rule inj_onI)
    fix i j assume "i \<in> {0..list_size 1} - {1}" "j \<in> {0..list_size 1} - {1}"
      and "nth_block (region 1) i = nth_block (region 1) j"
    then show "i = j"
      using unat_nth_block [of "region 1" i] unat_nth_block [of "region 1" j]
      by (simp add: region_def list_size_def)
  qed
  then have "card (free_set s') = 63" by (simp add: s'(2) card_image list_size_def)
  then show ?thesis using s' by (auto simp: nth_block_def region_def)
qed

text \<open>A chain depends on the last slots of its blocks only.\<close>

lemma chain_links: "(\<And>h. h \<in> set hs \<Longrightarrow> entry m' h 511 = entry m h 511) \<Longrightarrow> chain m' x hs = chain m x hs"
proof (induction hs arbitrary: x)
  case (Cons h hs)
  have "entry m' h 511 = entry m h 511" using Cons.prems by simp
  moreover have "chain m' y hs = chain m y hs" for y using Cons.prems by (intro Cons.IH) simp
  ultimately show ?case by (metis chain.simps(2))
qed simp

lemma length_free_of: "length hs \<le> length (free_of m hs)"
  by (induction hs) (auto simp: free_of_Cons free_of_def)

text \<open>
  C7. When the number of blocks is a multiple of 65, the data region that
  \<^verbatim>\<open>tfs_mkfs\<close> hands out is one block longer than the device: the address just
  past the last block is put on the free list.
\<close>

theorem mkfs_lists_block_past_end:
  assumes "disk_of fd s ib" "devsize s = BLOCKSIZE * 65 * ib"
  shows "\<exists>s'. tfs_mkfs fd s = Some (0, s') \<and> devsize s' = devsize s \<and> of_nat (devsize s') \<in> free_set s' \<and>
    unat (of_nat (devsize s') :: u64) = devsize s'"
proof -
  let ?b = "region ib" and ?n = "list_size ib" and ?c = "nth_block (region ib) 1"
  obtain s' s1 nd where m: "tfs_mkfs fd s = Some (0, s')" "listed fd s ib s1"
    "only_io (s1\<lparr>root_node := 4096\<rparr>) s'"
    "dev s' = wrbytes (root_image (wr64 (dev s1) ?b 0) (unat ?c) 4096) 4096 (bytes_of_node nd)" "wf_node nd"
    using mkfs_result [OF assms(1)] by blast
  note l = listed_state [OF assms(1) m(2)] and r = disk_room [OF assms(1)]
  have ib: "0 < ib" "4096 + 208 \<le> ?b" using assms(1) by (simp_all add: disk_of_def region_def)
  have cu: "unat ?c = ?b + 4096" using r by (subst unat_nth_block) simp_all
  note cu' = cu [unfolded One_nat_def]
  have same: "rd64 (dev s') x = rd64 (dev s1) x" if "?b + 8 \<le> x \<and> x + 8 \<le> ?b + 4096 \<or> ?b + 8192 \<le> x" for x
    using that ib m(5) by (intro rd64_cong) (auto simp: m(4) cu' wrbytes_out root_image_out addr_simps)
  have f: "\<And>k. 512 * k < ?n \<Longrightarrow> formatted ?b ?n (dev s1) k" "super s1 = nth_block ?b 0"
    using m(2) by (simp_all add: listed_def)
  obtain hs where hs: "chain (dev s1) (nth_block ?b (512 * 0)) hs"
    "free_of (dev s1) hs = map (nth_block ?b) [512 * 0..<Suc ?n]"
    "set hs = (\<lambda>i. nth_block ?b (512 * i)) ` {i. 0 \<le> i \<and> 512 * i < ?n}"
    using formatted_chain [of 0 ?n ?b "dev s1"] f(1) r by auto
  have hu: "unat (nth_block ?b (512 * i)) = ?b + 4096 * (512 * i)" if "512 * i < ?n" for i
    using r(7) that by (intro unat_nth_block) simp
  have keep: "entry (dev s') (nth_block ?b (512 * i)) j = entry (dev s1) (nth_block ?b (512 * i)) j"
    if "512 * i < ?n" "0 < j" "j < 512" for i j
    unfolding entry_def hu [OF that(1)] by (rule same) (use that in \<open>cases i; simp\<close>)
  have "chain (dev s') (super s') hs"
  proof -
    have "rd64 (dev s') 0 = rd64 (dev s1) 0"
      using ib m(5) by (intro rd64_cong) (simp add: m(4) cu' wrbytes_out root_image_out addr_simps)
    then have "super s' = nth_block ?b 0" using f(2) by (simp add: super_def)
    moreover have "entry (dev s') h 511 = entry (dev s1) h 511" if "h \<in> set hs" for h
      using that hs(3) keep by auto
    then have "chain (dev s') x hs = chain (dev s1) x hs" for x by (rule chain_links)
    ultimately show ?thesis using hs(1) by simp
  qed
  moreover have "length hs \<le> devsize s' div 4096"
  proof -
    have "length hs \<le> Suc ?n" using length_free_of [of hs "dev s1"] hs(2) by simp
    then show ?thesis using only_ioD(1) [OF m(3)] l(3) assms(2) ib by (simp add: list_size_def)
  qed
  ultimately have heads: "heads s' = hs" unfolding heads_def by (rule chain_walk)
  define k where "k = (?n - 1) div 512"
  define j where "j = (?n - 1) mod 512"
  have kj: "512 * k + j = ?n - 1" by (simp add: k_def j_def)
  then have k: "512 * k < ?n" using r(4) by simp
  have "j mod 64 = 62"
  proof -
    have "j mod 64 = (?n - 1) mod 64" unfolding j_def by (rule mod_mod_cancel) simp
    also have "?n - 1 = 64 * (ib - 1) + 62" using ib by (cases ib) (simp_all add: list_size_def)
    also have "\<dots> mod 64 = 62" by (simp add: mod_mult_self4)
    finally show ?thesis .
  qed
  then have j: "0 < j" "j < 511" "j < 512" using mod_less_divisor [of 512 "?n - 1"]
    by (auto simp: j_def intro: le_neq_implies_less)
  let ?h = "nth_block ?b (512 * k)"
  have "entry (dev s1) ?h j = nth_block ?b ?n"
    using f(1) [OF k] kj j r(4) by (simp add: formatted_def entry_def hu [OF k])
  then have e: "entry (dev s') ?h j = nth_block ?b ?n" using keep [OF k j(1,3)] by simp
  have dsz: "devsize s' = ?b + 4096 * ?n"
    using only_ioD(1) [OF m(3)] l(3) assms(2) ib by (simp add: list_size_def region_def algebra_simps)
  then have u: "unat (of_nat (devsize s') :: u64) = devsize s'"
    using r by (simp add: unat_of_nat del: of_nat_add of_nat_mult)
  have nz: "nth_block ?b ?n \<noteq> 0" using unat_nth_block [of ?b ?n] r by auto
  have "nth_block ?b ?n \<in> set (spare (dev s') ?h)"
    unfolding spare_def using e nz j(2) by (auto intro!: image_eqI [of _ _ j])
  moreover have "?h \<in> set hs" using hs(3) k by auto
  ultimately have "nth_block ?b ?n \<in> free_set s'"
    by (auto simp: free_set_def free_blocks_def heads free_of_def)
  then show ?thesis using m(1) u dsz only_ioD(1) [OF m(3)] l(3) by (auto simp: nth_block_def)
qed

theorem mkfs_lists_block_past_end_witness:
  "\<exists>s'. tfs_mkfs 3 (blank_fs (65 * 4096)) = Some (0, s') \<and> 266240 \<in> free_set s' \<and> devsize s' = 266240"
proof -
  have d: "disk_of 3 (blank_fs (65 * 4096)) 1"
    by (simp add: disk_of_def blank_fs_def)
  show ?thesis using mkfs_lists_block_past_end [OF d] by (auto simp: blank_fs_def)
qed

end
