(* ===== verification/Handlers.thy ===== *)
theory Handlers
  imports Path_Lookup Mkfs "HOL-Library.Signed_Division"
begin

text \<open>
  The handlers of \<^verbatim>\<open>tyrant.c\<close> that FUSE calls, the unlinking ones apart
  (theory \<open>Unlink\<close>). Each takes the path and the other arguments that it uses and the state of
  the program; the result is its return value, what it hands back through a pointer, and the new
  state, or \<open>None\<close> where its behaviour is undefined or it does not return. The \<open>fuse_file_info\<close>
  of an open is its flags.
\<close>

abbreviation "ENOENT \<equiv> (2 :: int)"
abbreviation "PATH_BOUNDARY \<equiv> 256"
abbreviation "MAX_NAME_LENGTH \<equiv> 248"

section \<open>The directory of a path\<close>

text \<open>
  The loop back to the last \<open>/\<close>; \<open>None\<close> is \<open>i == -1\<close>. What the loop reads at \<open>temp[-1]\<close>
  before it tests \<open>i >= 0\<close> has no influence on where it stops.
\<close>

fun last_slash :: "bytes \<Rightarrow> nat \<Rightarrow> nat option" where
  "last_slash temp 0 = None"
| "last_slash temp (Suc i) = (if temp ! i \<noteq> slash then last_slash temp i else Some i)"

definition find_parent :: "bytes \<Rightarrow> nat \<Rightarrow> fs \<Rightarrow> (u64 \<times> fs) option" where
  "find_parent temp i s =
     (if i \<noteq> 0 then find_path_node (take i temp) s else Some (root_node s, s))"

section \<open>mkdir and mknod\<close>

text \<open>
  The second half of \<^verbatim>\<open>tfs_mkdir\<close>: the inode and its block, with the entries \<open>.\<close> and
  \<open>..\<close>. The offset of the address of \<open>..\<close> is \<open>2 * PATH_BOUNDARY - BLOCKSIZE\<close>.
\<close>

definition init_dir :: "u64 \<Rightarrow> u64 \<Rightarrow> u64 \<Rightarrow> u32 \<Rightarrow> node \<Rightarrow> fs \<Rightarrow> fs" where
  "init_dir parent dir block m dir_node s =
     (let s = write_block_arr (replicate BLOCKSIZE 0) block 0 s;
          (t, s) = get_current_time_in_nsec s;
          dir_node = dir_node\<lparr>creation_time := t\<rparr>;
          dir_node = dir_node\<lparr>access_time := creation_time dir_node\<rparr>;
          dir_node = dir_node\<lparr>change_time := creation_time dir_node\<rparr>;
          dir_node = dir_node\<lparr>data_time := creation_time dir_node\<rparr>;
          dir_node = dir_node\<lparr>user_id := euid s\<rparr>;
          dir_node = dir_node\<lparr>group_id := egid s\<rparr>;
          dir_node = dir_node\<lparr>mode := m\<rparr>;
          dir_node = dir_node\<lparr>mode := mode dir_node OR S_IFDIR\<rparr>;
          dir_node = dir_node\<lparr>direct_blocks := (direct_blocks dir_node)[0 := block]\<rparr>;
          dir_node = dir_node\<lparr>blocks := 1\<rparr>;
          dir_node = dir_node\<lparr>links := 0\<rparr>;
          s = write_block_arr [46, 0] block 0 s;
          s = write_block_addr dir block MAX_NAME_LENGTH s;
          s = write_block_arr [46, 46, 0] block PATH_BOUNDARY s;
          s = write_block_addr parent block (2 * PATH_BOUNDARY - BLOCKSIZE) s;
          dir_node = dir_node\<lparr>n_size := PATH_BOUNDARY * 2\<rparr>
      in store_node dir_node dir s)"

definition tfs_mkdir :: "bytes \<Rightarrow> u32 \<Rightarrow> fs \<Rightarrow> (int \<times> fs) option" where
  "tfs_mkdir path m s =
     (let (parent_node, s) = uninit_node s
      in (case last_slash path (length path) of
            None \<Rightarrow> Some (-1, s)
          | Some i \<Rightarrow> do {
              (parent, s) \<leftarrow> find_parent path i s;
              if parent = 0 then Some (- ENOENT, s)
              else do {
                let (parent_node, s) = load_node parent parent_node s;
                (dir, s) \<leftarrow> allocate_inode (drive s) s;
                let (dir_node, s) = uninit_node s;
                if dir = 0 then Some (-1, s)
                else do {
                  let (dir_node, s) = load_node dir dir_node s;
                  let (block, s) = allocate_block s;
                  if block = 0 then
                    let (r, s) = free_inode dir s in Some (-1, s)
                  else do {
                    let s = init_dir parent dir block m dir_node s;
                    (result, s) \<leftarrow> add_to_directory parent dir (drop (i + 1) path) s;
                    if result \<noteq> 0 then
                      let (r, s) = free_block (drive s) block s;
                          (r, s) = free_inode dir s
                      in Some (-1, s)
                    else Some (result, s)
                  }
                }
              }
            }))"

definition init_nod :: "u64 \<Rightarrow> u32 \<Rightarrow> node \<Rightarrow> fs \<Rightarrow> fs" where
  "init_nod data m data_node s =
     (let data_node = data_node\<lparr>mode := m\<rparr>;
          data_node = data_node\<lparr>links := 0\<rparr>;
          data_node = data_node\<lparr>blocks := 0\<rparr>;
          data_node = data_node\<lparr>n_size := 0\<rparr>;
          data_node = data_node\<lparr>user_id := euid s\<rparr>;
          data_node = data_node\<lparr>group_id := egid s\<rparr>;
          (t, s) = get_current_time_in_nsec s;
          data_node = data_node\<lparr>creation_time := t\<rparr>;
          data_node = data_node\<lparr>access_time := creation_time data_node\<rparr>;
          data_node = data_node\<lparr>change_time := creation_time data_node\<rparr>;
          data_node = data_node\<lparr>data_time := creation_time data_node\<rparr>
      in store_node data_node data s)"

definition tfs_mknod :: "bytes \<Rightarrow> u32 \<Rightarrow> fs \<Rightarrow> (int \<times> fs) option" where
  "tfs_mknod path m s =
     (case last_slash path (length path) of
        None \<Rightarrow> Some (-1, s)
      | Some i \<Rightarrow> do {
          (parent, s) \<leftarrow> find_parent path i s;
          if parent = 0 then Some (- ENOENT, s)
          else do {
            (data, s) \<leftarrow> allocate_inode (drive s) s;
            if data = 0 then Some (-1, s)
            else do {
              let (data_node, s) = uninit_node s;
              let (data_node, s) = load_node data data_node s;
              let s = init_nod data m data_node s;
              (result, s) \<leftarrow> add_to_directory parent data (drop (i + 1) path) s;
              if result \<noteq> 0 then
                let (r, s) = free_inode data s in Some (result, s)
              else Some (result, s)
            }
          }
        })"

section \<open>readdir\<close>

text \<open>
  The calls of \<open>filler\<close> are the list of the names it is given; a name without a terminating zero
  is read past its array.
\<close>

function readdir_block ::
  "nat \<Rightarrow> bytes \<Rightarrow> u64 \<Rightarrow> u64 \<Rightarrow> u64 \<Rightarrow> bytes list \<Rightarrow> fs \<Rightarrow> (bytes \<times> u64 \<times> bytes list \<times> fs) option" where
  "readdir_block i name block byte_count total_bytes filled s =
     (if i < BLOCKSIZE \<and> byte_count < total_bytes then
        let (r, b, s) = read_block (Some name) block (int i) MAX_NAME_LENGTH s;
            name = the b;
            byte_count = byte_count + PATH_BOUNDARY
        in if hd name = 0 then
             readdir_block (i + PATH_BOUNDARY) name block byte_count total_bytes filled s
           else if 0 \<notin> set name then None
           else readdir_block (i + PATH_BOUNDARY) name block byte_count total_bytes (filled @ [cstr name]) s
      else Some (name, byte_count, filled, s))"
  by pat_completeness auto
termination
  by (relation "measure (\<lambda>(i, _). BLOCKSIZE - i)") auto

declare readdir_block.simps [simp del]

function readdir_loop ::
  "u64 \<Rightarrow> u64 \<Rightarrow> u64 \<Rightarrow> u64 \<Rightarrow> bytes \<Rightarrow> node \<Rightarrow> bytes list \<Rightarrow> fs \<Rightarrow> (bytes list \<times> fs) option" where
  "readdir_loop block_count byte_count total_blocks total_bytes name dir filled s =
     (if block_count < total_blocks \<and> byte_count < total_bytes then
        let (block, s) = get_i_block dir block_count s
        in if block = 0 then
             readdir_loop (block_count + 1) (byte_count + BLOCKSIZE) total_blocks total_bytes name dir filled s
           else (case readdir_block 0 name block byte_count total_bytes filled s of
                   None \<Rightarrow> None
                 | Some (name, byte_count, filled, s) \<Rightarrow>
                     readdir_loop (block_count + 1) byte_count total_blocks total_bytes name dir filled s)
      else Some (filled, s))"
  by pat_completeness auto
termination
  by (relation "measure (\<lambda>(c, _, t, _). unat t - unat c)") (auto simp: word_less_nat_alt Suc_unat_word)

declare readdir_loop.simps [simp del]

definition tfs_readdir :: "bytes \<Rightarrow> fs \<Rightarrow> (int \<times> bytes list \<times> fs) option" where
  "tfs_readdir path s = do {
     (dir_loc, s) \<leftarrow> find_path_node path s;
     if dir_loc = 0 then Some (- ENOENT, [], s)
     else do {
       let (dir, s) = uninit_node s;
       let (dir, s) = load_node dir_loc dir s;
       let total_blocks = blocks dir;
       let total_bytes = n_size dir;
       let (t, s) = get_current_time_in_nsec s;
       let dir = dir\<lparr>access_time := t\<rparr>;
       let s = store_node dir dir_loc s;
       let (name, s) = uninit MAX_NAME_LENGTH s;
       (filled, s) \<leftarrow> readdir_loop 0 0 total_blocks total_bytes name dir [] s;
       Some (0, filled, s)
     }
   }"

section \<open>open, read and write\<close>

abbreviation "O_ACCMODE \<equiv> 3"

definition open_flags :: "u32 \<Rightarrow> u32" where
  "open_flags fi_flags =
     (let flags = 0;
          acc = fi_flags AND O_ACCMODE
      in if acc = 2 then flags OR 0x1B6
         else if acc = 0 then flags OR 0x124
         else if acc = 1 then flags OR 0x92
         else flags)"

definition tfs_open :: "bytes \<Rightarrow> u32 \<Rightarrow> fs \<Rightarrow> (int \<times> fs) option" where
  "tfs_open path fi_flags s = do {
     (cur, s) \<leftarrow> find_path_node path s;
     if cur = 0 then Some (- ENOENT, s)
     else do {
       let (cur_node, s) = uninit_node s;
       let (cur_node, s) = load_node cur cur_node s;
       let (t, s) = get_current_time_in_nsec s;
       let cur_node = cur_node\<lparr>access_time := t\<rparr>;
       let s = store_node cur_node cur s;
       let flags = open_flags fi_flags;
       if flags AND mode cur_node \<noteq> 0 then Some (0, s) else Some (-1, s)
     }
   }"

text \<open>
  The caller's buffer has \<open>size\<close> bytes. \<open>tmp >= 0\<close> always holds for an unsigned \<open>tmp\<close>; when a
  call fails, \<open>bytes\<close> wraps around and \<open>buff + bytes\<close> leaves the buffer.
\<close>

function read_loop ::
  "u64 \<Rightarrow> u64 \<Rightarrow> u64 \<Rightarrow> u64 \<Rightarrow> u64 \<Rightarrow> node \<Rightarrow> bytes \<Rightarrow> fs \<Rightarrow> (u64 \<times> bytes \<times> fs) option" where
  "read_loop byte_counter blk_no total_blocks bytes loc cur_node buff s =
     (if byte_counter \<noteq> 0 \<and> blk_no < total_blocks then
        if length buff < unat bytes then None
        else
          let (block, s) = get_i_block cur_node blk_no s;
              (r, b, s) = read_block (Some (drop (unat bytes) buff)) block (off_t loc) byte_counter s;
              buff = take (unat bytes) buff @ the b;
              tmp = u64_of_int r
          in read_loop (byte_counter - tmp) (blk_no + 1) total_blocks (bytes + tmp) 0 cur_node buff s
      else Some (bytes, buff, s))"
  by pat_completeness auto
termination
  by (relation "measure (\<lambda>(c, b, t, _). unat t - unat b)") (auto simp: word_less_nat_alt Suc_unat_word)

declare read_loop.simps [simp del]

definition tfs_read :: "bytes \<Rightarrow> bytes \<Rightarrow> u64 \<Rightarrow> int \<Rightarrow> fs \<Rightarrow> (int \<times> bytes \<times> fs) option" where
  "tfs_read path buff len offset s = do {
     (cur, s) \<leftarrow> find_path_node path s;
     if cur = 0 then Some (- ENOENT, buff, s)
     else do {
       let (cur_node, s) = uninit_node s;
       let (cur_node, s) = load_node cur cur_node s;
       let total_bytes = n_size cur_node;
       let total_blocks = blocks cur_node;
       if u64_of_int offset \<ge> total_bytes then Some (-1, buff, s)
       else do {
         let blk_no = u64_of_int (offset sdiv BLOCKSIZE);
         let loc = u64_of_int (offset smod BLOCKSIZE);
         let byte_counter =
           (if u64_of_int offset + len > total_bytes then total_bytes - u64_of_int offset else len);
         let (t, s) = get_current_time_in_nsec s;
         let cur_node = cur_node\<lparr>access_time := t\<rparr>;
         let s = store_node cur_node cur s;
         (bytes, buff, s) \<leftarrow> read_loop byte_counter blk_no total_blocks 0 loc cur_node buff s;
         Some (int_of_u64 bytes, buff, s)
       }
     }
   }"

text \<open>The blocks a write needs are added first, as far as there is space.\<close>

function grow_loop :: "u64 \<Rightarrow> u64 \<Rightarrow> node \<Rightarrow> u64 \<Rightarrow> fs \<Rightarrow> node \<times> fs" where
  "grow_loop i final_blocks cur_node cur s =
     (if i < final_blocks then
        let (block, cur_node, s) = add_block_to_node cur_node cur s
        in if block = 0 then (cur_node, s)
           else grow_loop (i + 1) final_blocks cur_node cur s
      else (cur_node, s))"
  by pat_completeness auto
termination
  by (relation "measure (\<lambda>(i, t, _). unat t - unat i)") (auto simp: word_less_nat_alt Suc_unat_word)

declare grow_loop.simps [simp del]

function write_loop ::
  "u64 \<Rightarrow> u64 \<Rightarrow> u64 \<Rightarrow> u64 \<Rightarrow> u64 \<Rightarrow> node \<Rightarrow> bytes \<Rightarrow> fs \<Rightarrow> (u64 \<times> fs) option" where
  "write_loop byte_counter blk_no total_blocks bytes loc cur_node buff s =
     (if byte_counter \<noteq> 0 \<and> blk_no < total_blocks then
        if length buff < unat bytes then None
        else
          let (block, s) = get_i_block cur_node blk_no s;
              (r, s) = write_block (Some (drop (unat bytes) buff)) block (off_t loc) byte_counter s;
              tmp = u64_of_int r
          in write_loop (byte_counter - tmp) (blk_no + 1) total_blocks (bytes + tmp) 0 cur_node buff s
      else Some (bytes, s))"
  by pat_completeness auto
termination
  by (relation "measure (\<lambda>(c, b, t, _). unat t - unat b)") (auto simp: word_less_nat_alt Suc_unat_word)

declare write_loop.simps [simp del]

definition tfs_write :: "bytes \<Rightarrow> bytes \<Rightarrow> u64 \<Rightarrow> int \<Rightarrow> fs \<Rightarrow> (int \<times> fs) option" where
  "tfs_write path buff len offset s = do {
     (cur, s) \<leftarrow> find_path_node path s;
     if cur = 0 then Some (- ENOENT, s)
     else do {
       let (cur_node, s) = uninit_node s;
       let (cur_node, s) = load_node cur cur_node s;
       let total_bytes = n_size cur_node;
       let total_blocks = blocks cur_node;
       let blk_no = u64_of_int (offset sdiv BLOCKSIZE);
       let loc = u64_of_int (offset smod BLOCKSIZE);
       let byte_counter = len;
       let (t, s) = get_current_time_in_nsec s;
       let cur_node = cur_node\<lparr>data_time := t\<rparr>;
       let cur_node = cur_node\<lparr>change_time := data_time cur_node\<rparr>;
       let s = store_node cur_node cur s;
       let (cur_node, s) =
         (if len + u64_of_int offset > total_bytes then
            let final_blocks = (len + u64_of_int offset) div BLOCKSIZE +
                  (if (len + u64_of_int offset) mod BLOCKSIZE = 0 then 0 else 1)
            in grow_loop total_blocks final_blocks cur_node cur s
          else (cur_node, s));
       let total_blocks = blocks cur_node;
       (bytes, s) \<leftarrow> write_loop byte_counter blk_no total_blocks 0 loc cur_node buff s;
       let cur_node = cur_node\<lparr>n_size :=
         (if total_bytes > u64_of_int offset + bytes then total_bytes else u64_of_int offset + bytes)\<rparr>;
       let s = store_node cur_node cur s;
       Some (int_of_u64 bytes, s)
     }
   }"

section \<open>truncate\<close>

text \<open>The counter is a \<open>uint32_t\<close>, compared with a \<open>uint64_t\<close>: the loop may not end.\<close>

partial_function (option) truncate_loop :: "u32 \<Rightarrow> u64 \<Rightarrow> node \<Rightarrow> fs \<Rightarrow> (node \<times> fs) option" where
  "truncate_loop i total_blocks cur_node s =
     (if ucast i < total_blocks then
        let (block, s) = get_i_block cur_node (ucast i) s;
            (r, s) = free_block (drive s) block s
        in truncate_loop (i + 1) total_blocks (cur_node\<lparr>blocks := blocks cur_node - 1\<rparr>) s
      else Some (cur_node, s))"

definition tfs_truncate :: "bytes \<Rightarrow> int \<Rightarrow> fs \<Rightarrow> (int \<times> fs) option" where
  "tfs_truncate path len s = do {
     (cur, s) \<leftarrow> find_path_node path s;
     if cur = 0 then Some (- ENOENT, s)
     else do {
       let (cur_node, s) = uninit_node s;
       let (cur_node, s) = load_node cur cur_node s;
       if n_size cur_node \<le> u64_of_int len then Some (0, s)
       else do {
         let block_no = u64_of_int (len sdiv BLOCKSIZE);
         let (block, s) = get_i_block cur_node block_no s;
         let total_blocks = blocks cur_node;
         (cur_node, s) \<leftarrow> truncate_loop (ucast (block_no + 1)) total_blocks cur_node s;
         let (t, s) = get_current_time_in_nsec s;
         let cur_node = cur_node\<lparr>change_time := t\<rparr>;
         let cur_node = cur_node\<lparr>data_time := change_time cur_node\<rparr>;
         let cur_node = cur_node\<lparr>n_size := u64_of_int len\<rparr>;
         let s = store_node cur_node cur s;
         Some (0, s)
       }
     }
   }"

section \<open>getattr and the attributes\<close>

record stat =
  st_ino :: u64
  st_mode :: u32
  st_nlink :: u64
  st_size :: int
  st_blocks :: int
  st_uid :: u32
  st_gid :: u32
  st_blksize :: int
  st_atime :: int
  st_mtime :: int
  st_ctime :: int

text \<open>The conversion of a \<open>uint64_t\<close> to a signed 64-bit field is that to \<open>off_t\<close>.\<close>

definition tfs_getattr :: "bytes \<Rightarrow> stat \<Rightarrow> fs \<Rightarrow> (int \<times> stat \<times> fs) option" where
  "tfs_getattr path st s = do {
     (cur, s) \<leftarrow> find_path_node path s;
     if cur = 0 then Some (- ENOENT, st, s)
     else do {
       let (cur_node, s) = uninit_node s;
       let (cur_node, s) = load_node cur cur_node s;
       let st = \<lparr>st_ino = (cur - BLOCKSIZE) div INODE_SIZE_BOUNDARY,
                 st_mode = mode cur_node,
                 st_nlink = ucast (links cur_node),
                 st_size = off_t (n_size cur_node),
                 st_blocks = off_t (blocks cur_node),
                 st_uid = user_id cur_node,
                 st_gid = group_id cur_node,
                 st_blksize = BLOCKSIZE,
                 st_atime = off_t (access_time cur_node),
                 st_mtime = off_t (data_time cur_node),
                 st_ctime = off_t (change_time cur_node)\<rparr>;
       Some (0, st, s)
     }
   }"

definition tfs_utime :: "bytes \<Rightarrow> int \<Rightarrow> int \<Rightarrow> fs \<Rightarrow> (int \<times> fs) option" where
  "tfs_utime path actime modtime s = do {
     (cur, s) \<leftarrow> find_path_node path s;
     if cur = 0 then Some (- ENOENT, s)
     else do {
       let (cur_node, s) = uninit_node s;
       let (cur_node, s) = load_node cur cur_node s;
       let cur_node = cur_node\<lparr>access_time := u64_of_int actime\<rparr>;
       let cur_node = cur_node\<lparr>change_time := u64_of_int modtime\<rparr>;
       let s = store_node cur_node cur s;
       Some (0, s)
     }
   }"

definition tfs_flush :: "bytes \<Rightarrow> fs \<Rightarrow> int \<times> fs" where
  "tfs_flush path s = (0, s)"

definition tfs_chmod :: "bytes \<Rightarrow> u32 \<Rightarrow> fs \<Rightarrow> (int \<times> fs) option" where
  "tfs_chmod path m s = do {
     (cur, s) \<leftarrow> find_path_node path s;
     if cur = 0 then Some (- ENOENT, s)
     else do {
       let (cur_node, s) = uninit_node s;
       let (cur_node, s) = load_node cur cur_node s;
       let cur_node = cur_node\<lparr>mode := m\<rparr>;
       let s = store_node cur_node cur s;
       Some (0, s)
     }
   }"

definition tfs_chown :: "bytes \<Rightarrow> u32 \<Rightarrow> u32 \<Rightarrow> fs \<Rightarrow> (int \<times> fs) option" where
  "tfs_chown path owner grp s = do {
     (cur, s) \<leftarrow> find_path_node path s;
     if cur = 0 then Some (- ENOENT, s)
     else do {
       let (cur_node, s) = uninit_node s;
       let (cur_node, s) = load_node cur cur_node s;
       let cur_node = cur_node\<lparr>user_id := owner\<rparr>;
       let cur_node = cur_node\<lparr>group_id := grp\<rparr>;
       let s = store_node cur_node cur s;
       Some (0, s)
     }
   }"

section \<open>rename and main\<close>

definition tfs_rename :: "bytes \<Rightarrow> bytes \<Rightarrow> fs \<Rightarrow> (int \<times> fs) option" where
  "tfs_rename path new_name s = do {
     (cur, s) \<leftarrow> find_path_node path s;
     if cur = 0 then Some (- ENOENT, s)
     else do {
       let (cur_node, s) = uninit_node s;
       let (cur_node, s) = load_node cur cur_node s;
       if path = [slash] then Some (-1, s)
       else (case last_slash path (length path) of
               None \<Rightarrow> Some (-1, s)
             | Some i \<Rightarrow> do {
                 (parent, s) \<leftarrow> find_parent path i s;
                 if parent = 0 then Some (-1, s)
                 else (case last_slash new_name (length new_name) of
                         None \<Rightarrow> Some (-1, s)
                       | Some i \<Rightarrow> rename_from_parent parent cur (drop (i + 1) new_name) s)
               })
     }
   }"

text \<open>
  \<open>main\<close>: the number of arguments, the result of \<open>open\<close> on the last one, and
  \<^verbatim>\<open>fuse_main\<close>, which runs the handlers.
\<close>

definition tyrant_main :: "int \<Rightarrow> int \<Rightarrow> (int \<Rightarrow> fs \<Rightarrow> int \<times> fs) \<Rightarrow> fs \<Rightarrow> int \<times> fs" where
  "tyrant_main argc fd fuse_main s =
     (if argc < 3 then (-1, s)
      else if fd < 0 then (fd, s)
      else let (r, s) = tfs_disk_info fd s
           in fuse_main (argc - 1) s)"

end
