(* ===== verification/Unlink.thy ===== *)
theory Unlink
  imports Handlers
begin

text \<open>
  Unlinking: \<^verbatim>\<open>sub_unlink\<close> of \<^verbatim>\<open>tyrant_help.c\<close>, which follows the entries
  of a directory that loses its last link, and \<^verbatim>\<open>tfs_unlink\<close> and
  \<^verbatim>\<open>tfs_rmdir\<close> of \<^verbatim>\<open>tyrant.c\<close>. The recursion has no bound in the code
  (directories that hold each other make it run for ever), so it takes fuel, the depth of the
  calls; without fuel the result is \<open>None\<close>.
\<close>

section \<open>The entries of a directory\<close>

text \<open>
  The loop over the entries of block \<open>i - 1\<close>, from the last one down; \<open>sub\<close> is the recursive
  call. \<open>ADDR_LENGTH\<close> is a \<open>size_t\<close>, so the offset is computed as an unsigned number.
\<close>

function unlink_entries ::
  "(u64 \<Rightarrow> u64 \<Rightarrow> fs \<Rightarrow> (int \<times> fs) option) \<Rightarrow> nat \<Rightarrow> u64 \<Rightarrow> u64 \<Rightarrow> u64 \<Rightarrow> u64 \<Rightarrow> fs \<Rightarrow> (u64 \<times> fs) option" where
  "unlink_entries sub j i block dir tmp s =
     (if j > 0 then
        let at = (i - 1) * BLOCKSIZE + of_nat j - NAME_BOUNDARY
        in if at = NAME_BOUNDARY \<or> at = 0 then
             unlink_entries sub (j - NAME_BOUNDARY) i block dir tmp s
           else
             let (tmp, s) = read_block_addr tmp block (off_t (of_nat j - ADDR_LENGTH)) s
             in (case sub dir tmp s of
                   None \<Rightarrow> None
                 | Some (r, s) \<Rightarrow> unlink_entries sub (j - NAME_BOUNDARY) i block dir tmp s)
      else Some (tmp, s))"
  by pat_completeness auto
termination
  by (relation "measure (\<lambda>(_, j, _). j)") auto

declare unlink_entries.simps [simp del]

text \<open>The blocks of the directory, the last one first; the address given back is \<open>block-1\<close>.\<close>

fun unlink_blocks ::
  "(u64 \<Rightarrow> u64 \<Rightarrow> fs \<Rightarrow> (int \<times> fs) option) \<Rightarrow> nat \<Rightarrow> u64 \<Rightarrow> node \<Rightarrow> u64 \<Rightarrow> u64 \<Rightarrow> fs \<Rightarrow> fs option" where
  "unlink_blocks sub 0 total_blocks dir_node dir tmp s = Some s"
| "unlink_blocks sub (Suc i) total_blocks dir_node dir tmp s =
     (let (block, s) = get_i_block dir_node (of_nat i) s;
          j = (if of_nat (Suc i) = total_blocks then unat (n_size dir_node mod BLOCKSIZE) else BLOCKSIZE)
      in (case unlink_entries sub j (of_nat (Suc i)) block dir tmp s of
            None \<Rightarrow> None
          | Some (tmp, s) \<Rightarrow>
              let (r, s) = free_block (drive s) (block - 1) s
              in unlink_blocks sub i total_blocks dir_node dir tmp s))"

section \<open>The blocks of a file\<close>

text \<open>From the last one down in \<^verbatim>\<open>sub_unlink\<close>, upwards with an \<open>int\<close> in \<^verbatim>\<open>tfs_unlink\<close>.\<close>

fun free_blocks_down :: "nat \<Rightarrow> node \<Rightarrow> fs \<Rightarrow> fs" where
  "free_blocks_down 0 n s = s"
| "free_blocks_down (Suc i) n s =
     (let (block, s) = get_i_block n (of_nat i) s;
          (r, s) = free_block (drive s) block s
      in free_blocks_down i n s)"

function free_blocks_up :: "nat \<Rightarrow> node \<Rightarrow> fs \<Rightarrow> fs option" where
  "free_blocks_up i n s =
     (if 2 ^ 31 \<le> i then None
      else if of_nat i < blocks n then
        let (block, s) = get_i_block n (of_nat i) s;
            (r, s) = free_block (drive s) block s
        in free_blocks_up (i + 1) n s
      else Some s)"
  by pat_completeness auto
termination
  by (relation "measure (\<lambda>(i, _). 2 ^ 31 - i)") auto

declare free_blocks_up.simps [simp del]

section \<open>sub_unlink\<close>

fun sub_unlink :: "nat \<Rightarrow> u64 \<Rightarrow> u64 \<Rightarrow> fs \<Rightarrow> (int \<times> fs) option" where
  "sub_unlink 0 parent child s = None"
| "sub_unlink (Suc fuel) parent child s =
     (if parent = 0 \<or> child = 0 then Some (-1, s)
      else do {
        (status, s) \<leftarrow> remove_link_from_parent parent child s;
        if status = -1 then Some (-1, s)
        else do {
          let (parent_node, s) = uninit_node s;
          let (child_node, s) = uninit_node s;
          let (parent_node, s) = load_node parent parent_node s;
          let (child_node, s) = load_node child child_node s;
          let child_node = child_node\<lparr>links := links child_node - 1\<rparr>;
          let total_blocks = blocks child_node;
          if links child_node = 0 then do {
            s \<leftarrow> (if mode child_node AND S_IFDIR = S_IFDIR
                  then unlink_blocks (sub_unlink fuel) (unat total_blocks) total_blocks child_node child 0 s
                  else Some (free_blocks_down (unat total_blocks) child_node s));
            let (r, s) = free_inode child s;
            Some (0, s)
          }
          else Some (0, store_node child_node child s)
        }
      })"

section \<open>tfs_unlink and tfs_rmdir\<close>

definition tfs_unlink :: "nat \<Rightarrow> bytes \<Rightarrow> fs \<Rightarrow> (int \<times> fs) option" where
  "tfs_unlink fuel path s = do {
     (cur, s) \<leftarrow> find_path_node path s;
     if cur = 0 then Some (- ENOENT, s)
     else do {
       let (cur_node, s) = uninit_node s;
       let (cur_node, s) = load_node cur cur_node s;
       if path = [slash] then Some (-1, s)
       else (case last_slash path (length path) of
               None \<Rightarrow> Some (-1, s)
             | Some i \<Rightarrow> do {
                 (parent, s) \<leftarrow> find_parent path i s;
                 if parent = 0 then Some (-1, s)
                 else do {
                   let (parent_node, s) = uninit_node s;
                   (status, s) \<leftarrow> remove_link_from_parent parent cur s;
                   if status = -1 then Some (-1, s)
                   else do {
                     let (cur_node, s) = load_node cur cur_node s;
                     let (parent_node, s) = load_node parent parent_node s;
                     let cur_node = cur_node\<lparr>links := links cur_node - 1\<rparr>;
                     let (t, s) = get_current_time_in_nsec s;
                     let cur_node = cur_node\<lparr>change_time := t\<rparr>;
                     let s = store_node cur_node cur s;
                     let total_blocks = blocks cur_node;
                     if links cur_node = 0 then do {
                       s \<leftarrow> (if mode cur_node AND S_IFDIR = S_IFDIR
                             then unlink_blocks (sub_unlink fuel) (unat total_blocks) total_blocks cur_node cur 0 s
                             else free_blocks_up 0 cur_node s);
                       let (r, s) = free_inode cur s;
                       Some (0, s)
                     }
                     else Some (0, store_node cur_node cur s)
                   }
                 }
               })
     }
   }"

definition tfs_rmdir :: "nat \<Rightarrow> bytes \<Rightarrow> fs \<Rightarrow> (int \<times> fs) option" where
  "tfs_rmdir fuel path s = tfs_unlink fuel path s"

end
