(* ===== verification/Mkfs_Handlers.thy ===== *)
theory Mkfs_Handlers
  imports Unlink
begin

text \<open>
  The program \<^verbatim>\<open>mkfs.c\<close>: its \<open>main\<close>, which formats the device, and its own
  copies of the handlers of \<^verbatim>\<open>tyrant.c\<close>. The copies of \<open>mkdir\<close> and \<open>mknod\<close>
  differ: they reject a name that does not begin with a letter or a digit, and they do not set the
  owner of the new inode. The inner loops are those of the theories \<open>Handlers\<close> and \<open>Unlink\<close>;
  what is printed is left out.
\<close>

abbreviation "EBADF \<equiv> (9 :: int)"

section \<open>mkdir and mknod\<close>

text \<open>\<open>isalnum\<close> of the character after the last \<open>/\<close>, in the C locale.\<close>

definition isalnum :: "u8 \<Rightarrow> bool" where
  "isalnum c \<longleftrightarrow> (48 \<le> c \<and> c \<le> 57) \<or> (65 \<le> c \<and> c \<le> 90) \<or> (97 \<le> c \<and> c \<le> 122)"

definition char_at :: "bytes \<Rightarrow> nat \<Rightarrow> u8" where
  "char_at cs i = (if i < length cs then cs ! i else 0)"

definition mkfs_init_dir :: "u64 \<Rightarrow> u64 \<Rightarrow> u64 \<Rightarrow> u32 \<Rightarrow> node \<Rightarrow> fs \<Rightarrow> fs" where
  "mkfs_init_dir parent dir block m dir_node s =
     (let s = write_block_arr (replicate BLOCKSIZE 0) block 0 s;
          (t, s) = get_current_time_in_nsec s;
          dir_node = dir_node\<lparr>creation_time := t\<rparr>;
          dir_node = dir_node\<lparr>access_time := creation_time dir_node\<rparr>;
          dir_node = dir_node\<lparr>change_time := creation_time dir_node\<rparr>;
          dir_node = dir_node\<lparr>data_time := creation_time dir_node\<rparr>;
          dir_node = dir_node\<lparr>mode := m\<rparr>;
          dir_node = dir_node\<lparr>mode := mode dir_node OR S_IFDIR\<rparr>;
          dir_node = dir_node\<lparr>direct_blocks := (direct_blocks dir_node)[0 := block]\<rparr>;
          dir_node = dir_node\<lparr>blocks := 1\<rparr>;
          dir_node = dir_node\<lparr>links := 0\<rparr>;
          s = write_block_arr [46, 0] block 0 s;
          s = write_block_addr dir block MAX_NAME_LENGTH s;
          s = write_block_arr [46, 46, 0] block PATH_BOUNDARY s;
          s = write_block_addr parent block (2 * PATH_BOUNDARY - BLOCKSIZE) s;
          dir_node = dir_node\<lparr>n_size := PATH_BOUNDARY * 2\<rparr>
      in store_node dir_node dir s)"

definition mkfs_mkdir :: "bytes \<Rightarrow> u32 \<Rightarrow> fs \<Rightarrow> (int \<times> fs) option" where
  "mkfs_mkdir path m s =
     (let (parent_node, s) = uninit_node s
      in (case last_slash path (length path) of
            None \<Rightarrow> Some (-1, s)
          | Some i \<Rightarrow>
            if \<not> isalnum (char_at path (i + 1)) then Some (- EBADF, s)
            else do {
              (parent, s) \<leftarrow> find_parent path i s;
              if parent = 0 then Some (- ENOENT, s)
              else do {
                let (parent_node, s) = load_node parent parent_node s;
                (dir, s) \<leftarrow> allocate_inode (drive s) s;
                let (dir_node, s) = uninit_node s;
                if dir = 0 then Some (-1, s)
                else do {
                  let (dir_node, s) = load_node dir dir_node s;
                  let (block, s) = allocate_block s;
                  if block = 0 then
                    let (r, s) = free_inode dir s in Some (-1, s)
                  else do {
                    let s = mkfs_init_dir parent dir block m dir_node s;
                    (result, s) \<leftarrow> add_to_directory parent dir (drop (i + 1) path) s;
                    if result \<noteq> 0 then
                      let (r, s) = free_block (drive s) block s;
                          (r, s) = free_inode dir s
                      in Some (-1, s)
                    else Some (result, s)
                  }
                }
              }
            }))"

definition mkfs_init_nod :: "u64 \<Rightarrow> u32 \<Rightarrow> node \<Rightarrow> fs \<Rightarrow> fs" where
  "mkfs_init_nod data m data_node s =
     (let data_node = data_node\<lparr>mode := m\<rparr>;
          data_node = data_node\<lparr>links := 0\<rparr>;
          data_node = data_node\<lparr>blocks := 0\<rparr>;
          data_node = data_node\<lparr>n_size := 0\<rparr>;
          (t, s) = get_current_time_in_nsec s;
          data_node = data_node\<lparr>creation_time := t\<rparr>;
          data_node = data_node\<lparr>access_time := creation_time data_node\<rparr>;
          data_node = data_node\<lparr>change_time := creation_time data_node\<rparr>;
          data_node = data_node\<lparr>data_time := creation_time data_node\<rparr>
      in store_node data_node data s)"

definition mkfs_mknod :: "bytes \<Rightarrow> u32 \<Rightarrow> fs \<Rightarrow> (int \<times> fs) option" where
  "mkfs_mknod path m s =
     (case last_slash path (length path) of
        None \<Rightarrow> Some (-1, s)
      | Some i \<Rightarrow>
        if \<not> isalnum (char_at path (i + 1)) then Some (- EBADF, s)
        else do {
          (parent, s) \<leftarrow> find_parent path i s;
          if parent = 0 then Some (- ENOENT, s)
          else do {
            (data, s) \<leftarrow> allocate_inode (drive s) s;
            if data = 0 then Some (-1, s)
            else do {
              let (data_node, s) = uninit_node s;
              let (data_node, s) = load_node data data_node s;
              let s = mkfs_init_nod data m data_node s;
              (result, s) \<leftarrow> add_to_directory parent data (drop (i + 1) path) s;
              if result \<noteq> 0 then
                let (r, s) = free_inode data s in Some (result, s)
              else Some (result, s)
            }
          }
        })"

section \<open>The other handlers\<close>

definition mkfs_readdir :: "bytes \<Rightarrow> fs \<Rightarrow> (int \<times> bytes list \<times> fs) option" where
  "mkfs_readdir path s = do {
     (dir_loc, s) \<leftarrow> find_path_node path s;
     if dir_loc = 0 then Some (- ENOENT, [], s)
     else do {
       let (dir, s) = uninit_node s;
       let (dir, s) = load_node dir_loc dir s;
       let total_blocks = blocks dir;
       let total_bytes = n_size dir;
       let (t, s) = get_current_time_in_nsec s;
       let dir = dir\<lparr>access_time := t\<rparr>;
       let s = store_node dir dir_loc s;
       let (name, s) = uninit MAX_NAME_LENGTH s;
       (filled, s) \<leftarrow> readdir_loop 0 0 total_blocks total_bytes name dir [] s;
       Some (0, filled, s)
     }
   }"

definition mkfs_open :: "bytes \<Rightarrow> u32 \<Rightarrow> fs \<Rightarrow> (int \<times> fs) option" where
  "mkfs_open path fi_flags s = do {
     (cur, s) \<leftarrow> find_path_node path s;
     if cur = 0 then Some (- ENOENT, s)
     else do {
       let (cur_node, s) = uninit_node s;
       let (cur_node, s) = load_node cur cur_node s;
       let (t, s) = get_current_time_in_nsec s;
       let cur_node = cur_node\<lparr>access_time := t\<rparr>;
       let s = store_node cur_node cur s;
       let flags = open_flags fi_flags;
       if flags AND mode cur_node \<noteq> 0 then Some (0, s) else Some (-1, s)
     }
   }"

definition mkfs_unlink :: "nat \<Rightarrow> bytes \<Rightarrow> fs \<Rightarrow> (int \<times> fs) option" where
  "mkfs_unlink fuel path s = do {
     (cur, s) \<leftarrow> find_path_node path s;
     if cur = 0 then Some (- ENOENT, s)
     else do {
       let (cur_node, s) = uninit_node s;
       let (cur_node, s) = load_node cur cur_node s;
       if path = [slash] then Some (-1, s)
       else (case last_slash path (length path) of
               None \<Rightarrow> Some (-1, s)
             | Some i \<Rightarrow> do {
                 (parent, s) \<leftarrow> find_parent path i s;
                 if parent = 0 then Some (-1, s)
                 else do {
                   let (parent_node, s) = uninit_node s;
                   (status, s) \<leftarrow> remove_link_from_parent parent cur s;
                   if status = -1 then Some (-1, s)
                   else do {
                     let (cur_node, s) = load_node cur cur_node s;
                     let (parent_node, s) = load_node parent parent_node s;
                     let cur_node = cur_node\<lparr>links := links cur_node - 1\<rparr>;
                     let (t, s) = get_current_time_in_nsec s;
                     let cur_node = cur_node\<lparr>change_time := t\<rparr>;
                     let s = store_node cur_node cur s;
                     let total_blocks = blocks cur_node;
                     if links cur_node = 0 then do {
                       s \<leftarrow> (if mode cur_node AND S_IFDIR = S_IFDIR
                             then unlink_blocks (sub_unlink fuel) (unat total_blocks) total_blocks cur_node cur 0 s
                             else free_blocks_up 0 cur_node s);
                       let (r, s) = free_inode cur s;
                       Some (0, s)
                     }
                     else Some (0, store_node cur_node cur s)
                   }
                 }
               })
     }
   }"

definition mkfs_rmdir :: "nat \<Rightarrow> bytes \<Rightarrow> fs \<Rightarrow> (int \<times> fs) option" where
  "mkfs_rmdir fuel path s = mkfs_unlink fuel path s"

definition mkfs_read :: "bytes \<Rightarrow> bytes \<Rightarrow> u64 \<Rightarrow> int \<Rightarrow> fs \<Rightarrow> (int \<times> bytes \<times> fs) option" where
  "mkfs_read path buff len offset s = do {
     (cur, s) \<leftarrow> find_path_node path s;
     if cur = 0 then Some (- ENOENT, buff, s)
     else do {
       let (cur_node, s) = uninit_node s;
       let (cur_node, s) = load_node cur cur_node s;
       let total_bytes = n_size cur_node;
       let total_blocks = blocks cur_node;
       if u64_of_int offset \<ge> total_bytes then Some (-1, buff, s)
       else do {
         let blk_no = u64_of_int (offset sdiv BLOCKSIZE);
         let loc = u64_of_int (offset smod BLOCKSIZE);
         let byte_counter =
           (if u64_of_int offset + len > total_bytes then total_bytes - u64_of_int offset else len);
         let (t, s) = get_current_time_in_nsec s;
         let cur_node = cur_node\<lparr>access_time := t\<rparr>;
         let s = store_node cur_node cur s;
         (bytes, buff, s) \<leftarrow> read_loop byte_counter blk_no total_blocks 0 loc cur_node buff s;
         Some (int_of_u64 bytes, buff, s)
       }
     }
   }"

definition mkfs_write :: "bytes \<Rightarrow> bytes \<Rightarrow> u64 \<Rightarrow> int \<Rightarrow> fs \<Rightarrow> (int \<times> fs) option" where
  "mkfs_write path buff len offset s = do {
     (cur, s) \<leftarrow> find_path_node path s;
     if cur = 0 then Some (- ENOENT, s)
     else do {
       let (cur_node, s) = uninit_node s;
       let (cur_node, s) = load_node cur cur_node s;
       let total_bytes = n_size cur_node;
       let total_blocks = blocks cur_node;
       let blk_no = u64_of_int (offset sdiv BLOCKSIZE);
       let loc = u64_of_int (offset smod BLOCKSIZE);
       let byte_counter = len;
       let (t, s) = get_current_time_in_nsec s;
       let cur_node = cur_node\<lparr>data_time := t\<rparr>;
       let cur_node = cur_node\<lparr>change_time := data_time cur_node\<rparr>;
       let s = store_node cur_node cur s;
       let (cur_node, s) =
         (if len + u64_of_int offset > total_bytes then
            let final_blocks = (len + u64_of_int offset) div BLOCKSIZE +
                  (if (len + u64_of_int offset) mod BLOCKSIZE = 0 then 0 else 1)
            in grow_loop total_blocks final_blocks cur_node cur s
          else (cur_node, s));
       let total_blocks = blocks cur_node;
       (bytes, s) \<leftarrow> write_loop byte_counter blk_no total_blocks 0 loc cur_node buff s;
       let cur_node = cur_node\<lparr>n_size :=
         (if total_bytes > u64_of_int offset + bytes then total_bytes else u64_of_int offset + bytes)\<rparr>;
       let s = store_node cur_node cur s;
       Some (int_of_u64 bytes, s)
     }
   }"

definition mkfs_truncate :: "bytes \<Rightarrow> int \<Rightarrow> fs \<Rightarrow> (int \<times> fs) option" where
  "mkfs_truncate path len s = do {
     (cur, s) \<leftarrow> find_path_node path s;
     if cur = 0 then Some (- ENOENT, s)
     else do {
       let (cur_node, s) = uninit_node s;
       let (cur_node, s) = load_node cur cur_node s;
       if n_size cur_node \<le> u64_of_int len then Some (0, s)
       else do {
         let block_no = u64_of_int (len sdiv BLOCKSIZE);
         let (block, s) = get_i_block cur_node block_no s;
         let total_blocks = blocks cur_node;
         (cur_node, s) \<leftarrow> truncate_loop (ucast (block_no + 1)) total_blocks cur_node s;
         let (t, s) = get_current_time_in_nsec s;
         let cur_node = cur_node\<lparr>change_time := t\<rparr>;
         let cur_node = cur_node\<lparr>data_time := change_time cur_node\<rparr>;
         let cur_node = cur_node\<lparr>n_size := u64_of_int len\<rparr>;
         let s = store_node cur_node cur s;
         Some (0, s)
       }
     }
   }"

definition mkfs_getattr :: "bytes \<Rightarrow> stat \<Rightarrow> fs \<Rightarrow> (int \<times> stat \<times> fs) option" where
  "mkfs_getattr path st s = do {
     (cur, s) \<leftarrow> find_path_node path s;
     if cur = 0 then Some (- ENOENT, st, s)
     else do {
       let (cur_node, s) = uninit_node s;
       let (cur_node, s) = load_node cur cur_node s;
       let st = \<lparr>st_ino = (cur - BLOCKSIZE) div INODE_SIZE_BOUNDARY,
                 st_mode = mode cur_node,
                 st_nlink = ucast (links cur_node),
                 st_size = off_t (n_size cur_node),
                 st_blocks = off_t (blocks cur_node),
                 st_uid = user_id cur_node,
                 st_gid = group_id cur_node,
                 st_blksize = BLOCKSIZE,
                 st_atime = off_t (access_time cur_node),
                 st_mtime = off_t (data_time cur_node),
                 st_ctime = off_t (change_time cur_node)\<rparr>;
       Some (0, st, s)
     }
   }"

definition mkfs_utime :: "bytes \<Rightarrow> int \<Rightarrow> int \<Rightarrow> fs \<Rightarrow> (int \<times> fs) option" where
  "mkfs_utime path actime modtime s = do {
     (cur, s) \<leftarrow> find_path_node path s;
     if cur = 0 then Some (- ENOENT, s)
     else do {
       let (cur_node, s) = uninit_node s;
       let (cur_node, s) = load_node cur cur_node s;
       let cur_node = cur_node\<lparr>access_time := u64_of_int actime\<rparr>;
       let cur_node = cur_node\<lparr>change_time := u64_of_int modtime\<rparr>;
       let s = store_node cur_node cur s;
       Some (0, s)
     }
   }"

definition mkfs_flush :: "bytes \<Rightarrow> fs \<Rightarrow> int \<times> fs" where
  "mkfs_flush path s = (0, s)"

section \<open>main\<close>

text \<open>
  The result of \<open>open\<close> on the last argument is given; \<open>close\<close> does not change what is modelled,
  and a \<open>main\<close> that ends without \<open>return\<close> returns 0.
\<close>

definition mkfs_main :: "int \<Rightarrow> int \<Rightarrow> fs \<Rightarrow> (int \<times> fs) option" where
  "mkfs_main argc fd s =
     (if argc < 2 then Some (-1, s)
      else if fd < 0 then Some (fd, s)
      else do {
        (setup, s) \<leftarrow> tfs_mkfs fd s;
        if setup = -1 then Some (-1, s) else Some (0, s)
      })"

end
