(* ===== verification/Handler_Facts.thy ===== *)
theory Handler_Facts
  imports Mkfs_Handlers
begin

text \<open>
  What the handlers do as a whole: a path is resolved through the lists of entries of the
  directories on its way, and then the handler works on the inode it leads to. The relation
  \<open>leads\<close> says that a path of the file system leads to an inode (0 when a name is missing).
\<close>

section \<open>Directories that are left alone\<close>

lemma dir_kept:
  assumes "dir_ok s n" "kept A B s s'" "B \<inter> insert (indirect_blocks n) (set (addrs s n)) = {}"
  shows "dir_ok s' n" "entries s' n = entries s n"
proof -
  note d = dir_okD [OF assms(1)]
  have a: "addrs s' n = addrs s n" using assms by (intro addrs_kept [OF d(1)]) auto
  have sl: "slot s' n i = slot s n i" for i by (simp add: slot_def a)
  have old: "dev s' x = dev s x" if "i < 16 * unat (blocks n)" "slot s n i \<le> x" "x < slot s n i + 256" for i x
  proof (rule slot_same [OF d(1) that(1) _ that(2,3)])
    show "same_block (dev s) (dev s') (addrs s n ! (i div 16))"
      using slot_block(1,2) [OF d(1) that(1)] keptD(5) [OF assms(2)] assms(3) by blast
  qed
  have e: "ent (dev s') (slot s n i) = ent (dev s) (slot s n i)"
    "valid_ent (dev s') (slot s n i) = valid_ent (dev s) (slot s n i)" if "i < 16 * unat (blocks n)" for i
    using old [OF that] by (auto intro!: ent_same)
  have cnt: "i < 16 * unat (blocks n)" if "i < entry_count n" for i using that d(6) by simp
  have "dev s' (slot s n i) = 0" if "entry_count n \<le> i" "i < 16 * unat (blocks n)" for i
    using old [OF that(2), of "slot s n i"] d(5) [OF that] by simp
  then show "dir_ok s' n"
    using file_ok_kept [OF d(1) assms(2,3)] d(2-4) cnt e by (simp add: dir_ok_def sl)
  show "entries s' n = entries s n"
    using cnt e by (simp add: entries_def sl)
qed

text \<open>Inodes that differ in their attributes only.\<close>

definition same_map :: "node \<Rightarrow> node \<Rightarrow> bool" where
  "same_map n n' \<longleftrightarrow> blocks n' = blocks n \<and> n_size n' = n_size n \<and> direct_blocks n' = direct_blocks n \<and>
     indirect_blocks n' = indirect_blocks n \<and> dbl_indirect n' = dbl_indirect n \<and> trpl_indirect n' = trpl_indirect n"

lemma same_map_refl [simp]: "same_map n n"
  by (simp add: same_map_def)

lemma same_map_dir:
  assumes "same_map n n'"
  shows "addrs s n' = addrs s n" "file_ok s n' = file_ok s n" "dir_ok s n' = dir_ok s n" "entries s n' = entries s n"
    "has_room s n' = has_room s n"
proof -
  have m: "blocks n' = blocks n" "direct_blocks n' = direct_blocks n" "indirect_blocks n' = indirect_blocks n"
    "dbl_indirect n' = dbl_indirect n" "trpl_indirect n' = trpl_indirect n" "n_size n' = n_size n"
    using assms by (simp_all add: same_map_def)
  show a: "addrs s n' = addrs s n" by (rule addrs_cong) (rule m)+
  show f: "file_ok s n' = file_ok s n" by (rule file_ok_cong) (rule m)+
  have c: "entry_count n' = entry_count n" "slot s n' i = slot s n i" for i
    by (simp_all add: entry_count_def slot_def m a)
  show "dir_ok s n' = dir_ok s n" "entries s n' = entries s n" "has_room s n' = has_room s n"
    by (simp_all add: dir_ok_def entries_def has_room_def f c m)
qed

text \<open>The inodes on the way of a path are slots of the table.\<close>

primrec slot_walk :: "fs \<Rightarrow> bytes list \<Rightarrow> u64 \<Rightarrow> bool" where
  "slot_walk s [] a = inode_slot s a"
| "slot_walk s (name # names) a =
     (inode_slot s a \<and>
      (case found (entries s (get_node s a)) name of None \<Rightarrow> True | Some b \<Rightarrow> slot_walk s names b))"

text \<open>A property of every directory on the way.\<close>

primrec on_way :: "fs \<Rightarrow> (u64 \<Rightarrow> bool) \<Rightarrow> bytes list \<Rightarrow> u64 \<Rightarrow> bool" where
  "on_way s P [] a = True"
| "on_way s P (name # names) a =
     (P a \<and> (case found (entries s (get_node s a)) name of None \<Rightarrow> True | Some b \<Rightarrow> on_way s P names b))"

lemma kept_resolve:
  assumes "kept A B s s'" "walkable s names a" "slot_walk s names a" "on_way s P names a"
    and "\<And>d. inode_slot s d \<Longrightarrow> dir_ok s (get_node s d) \<Longrightarrow> P d \<Longrightarrow> same_map (get_node s d) (get_node s' d) \<and>
      B \<inter> insert (indirect_blocks (get_node s d)) (set (addrs s (get_node s d))) = {} \<and> Q d"
  shows "resolve s' names a = resolve s names a \<and> walkable s' names a \<and> slot_walk s' names a \<and> on_way s' Q names a"
  using assms(2-4)
proof (induction names arbitrary: a)
  case Nil
  then show ?case using inode_slot_only_io [OF keptD(1) [OF assms(1)]] by simp
next
  case (Cons name names)
  have sl: "inode_slot s a" "inode_slot s' a"
    using Cons.prems(2) inode_slot_only_io [OF keptD(1) [OF assms(1)]] by simp_all
  have d: "dir_ok s (get_node s a)" using Cons.prems(1) by simp
  have P: "P a" using Cons.prems(3) by simp
  have sm: "same_map (get_node s a) (get_node s' a)" and Q: "Q a"
    and B: "B \<inter> insert (indirect_blocks (get_node s a)) (set (addrs s (get_node s a))) = {}"
    using assms(5) [OF sl(1) d P] by blast+
  note m = same_map_dir [OF sm] and k = dir_kept [OF d assms(1) B]
  have b: "blocks (get_node s' a) = blocks (get_node s a)" using sm by (simp add: same_map_def)
  have ok: "node_ok s' x = node_ok s x" for x using only_ioD(1) [OF keptD(1) [OF assms(1)]] by (simp add: node_ok_def)
  show ?case
    using Cons sl m k b ok Q by (auto split: option.splits)
qed

lemma on_way_True: "on_way s (\<lambda>_. True) names a"
  by (induction names arbitrary: a) (auto split: option.splits)

lemma attributes_resolve:
  assumes "kept A {} s s'" "\<And>a. inode_slot s a \<Longrightarrow> same_map (get_node s a) (get_node s' a)"
    "walkable s names a" "slot_walk s names a"
  shows "resolve s' names a = resolve s names a \<and> walkable s' names a \<and> slot_walk s' names a"
  using kept_resolve [OF assms(1,3,4) on_way_True, of "\<lambda>_. True"] assms(2) by blast

section \<open>Handlers that find their inode\<close>

definition leads :: "fs \<Rightarrow> bytes \<Rightarrow> u64 \<Rightarrow> bool" where
  "leads s path a \<longleftrightarrow>
     fsys_ok s \<and> inode_slot s (root_node s) \<and> wf_name path \<and> walkable s (path_names path) (root_node s) \<and>
     slot_walk s (path_names path) (root_node s) \<and> resolve s (path_names path) (root_node s) = a"

lemma slot_walk_resolve: "slot_walk s names a \<Longrightarrow> resolve s names a \<noteq> 0 \<Longrightarrow> inode_slot s (resolve s names a)"
  by (induction names arbitrary: a) (auto split: option.splits)

lemma leads_find:
  assumes "leads s path a"
  shows "\<exists>s'. find_path_node path s = Some (a, s') \<and> only_io s s' \<and> dev s' = dev s"
  using find_path_walks [of s path] slot_ok [of s "root_node s"] assms by (auto simp: leads_def)

lemma leads_load:
  assumes "leads s path a" "a \<noteq> 0"
  obtains s1 n s2 s3 where "find_path_node path s = Some (a, s1)" "uninit_node s1 = (n, s2)"
    "load_node a n s2 = (get_node s a, s3)" "only_io s s3" "dev s3 = dev s"
proof -
  obtain s1 where f: "find_path_node path s = Some (a, s1)" "only_io s s1" "dev s1 = dev s"
    using leads_find [OF assms(1)] by blast
  have "inode_slot s a" using slot_walk_resolve [of s "path_names path" "root_node s"] assms by (auto simp: leads_def)
  then have "node_ok s a" using slot_ok assms(1) by (simp add: leads_def)
  moreover have "ok_dev s" using assms(1) fsys_okD(3) by (simp add: leads_def)
  ultimately have ok: "ok_dev s1" "node_ok s1 a"
    using ok_dev_only_io [OF f(2)] only_ioD(1) [OF f(2)] by (simp_all add: node_ok_def)
  obtain n s2 where u: "uninit_node s1 = (n, s2)" "n = node_of_bytes (map (junk s1 (fresh s1)) [0..<208])"
    "s2 = s1\<lparr>fresh := Suc (fresh s1)\<rparr>" by (simp add: uninit_node_in)
  have l: "load_node a n s2 = (get_node s a, s2\<lparr>pos := unat a + 208\<rparr>)"
    using ok f(3) u(2,3) by (simp add: io_simps get_node_def)
  show thesis
    by (rule that [OF f(1) u(1) l]) (use f(2,3) u(3) in \<open>simp_all add: only_io_def\<close>)
qed

lemma leads_store:
  assumes "leads s path a" "a \<noteq> 0" "only_io s s3" "dev s3 = dev s" "same_map (get_node s a) n" "wf_node n"
  shows "kept {a} {} s (store_node n a s3)" "get_node (store_node n a s3) a = n"
    "\<And>p b. leads s p b \<Longrightarrow> leads (store_node n a s3) p b"
proof -
  let ?s = "store_node n a s3"
  have ok: "fsys_ok s" and a: "inode_slot s a"
    using slot_walk_resolve [of s "path_names path" "root_node s"] assms(1,2) by (auto simp: leads_def)
  have k3: "kept {} {} s s3" by (rule kept_same_dev [OF ok assms(3,4)])
  have a3: "inode_slot s3 a" using a inode_slot_only_io [OF assms(3)] by simp
  note st = store_kept [OF keptD(2) [OF k3] a3 assms(6)]
  show k: "kept {a} {} s ?s" using kept_trans [OF k3 st(1)] by simp
  show g: "get_node ?s a = n" by (rule st(2))
  have sm: "same_map (get_node s b) (get_node ?s b)" if "inode_slot s b" for b
    using keptD(3) [OF k that] g assms(5) by (cases "b = a") simp_all
  show "leads ?s p b" if "leads s p b" for p b
    using that attributes_resolve [OF k sm] keptD(1,2) [OF k] inode_slot_only_io [OF keptD(1) [OF k]]
      only_ioD(3) [OF keptD(1) [OF k]] by (simp add: leads_def)
qed

lemma wf_get_node [simp]: "wf_node (get_node s a)"
  by (simp add: get_node_def)

definition stat_of :: "u64 \<Rightarrow> node \<Rightarrow> stat" where
  "stat_of a n =
     \<lparr>st_ino = (a - BLOCKSIZE) div INODE_SIZE_BOUNDARY, st_mode = mode n, st_nlink = ucast (links n),
      st_size = off_t (n_size n), st_blocks = off_t (blocks n), st_uid = user_id n, st_gid = group_id n,
      st_blksize = BLOCKSIZE, st_atime = off_t (access_time n), st_mtime = off_t (data_time n),
      st_ctime = off_t (change_time n)\<rparr>"

lemma getattr_leads:
  assumes "leads s path a" "a \<noteq> 0"
  shows "\<exists>s'. tfs_getattr path st s = Some (0, stat_of a (get_node s a), s') \<and> only_io s s' \<and> dev s' = dev s"
proof -
  obtain s1 n s2 s3 where f: "find_path_node path s = Some (a, s1)" "uninit_node s1 = (n, s2)"
    "load_node a n s2 = (get_node s a, s3)" "only_io s s3" "dev s3 = dev s" by (rule leads_load [OF assms])
  then have "tfs_getattr path st s = Some (0, stat_of a (get_node s a), s3)"
    using assms(2) by (simp add: tfs_getattr_def stat_of_def)
  then show ?thesis using f(4,5) by blast
qed

lemma leads_same_dev:
  assumes "leads s path a" "only_io s s'" "dev s' = dev s"
  shows "leads s' path a"
proof -
  have ok: "fsys_ok s" using assms(1) by (simp add: leads_def)
  have "kept {} {} s s'" by (rule kept_same_dev [OF ok assms(2,3)])
  then show ?thesis
    using assms(1) attributes_resolve [of "{}" s s' "path_names path" "root_node s"] same_dev_views(1) [OF assms(2,3)]
      inode_slot_only_io [OF assms(2)] only_ioD(3) [OF assms(2)] keptD(2) by (simp add: leads_def)
qed

text \<open>\<open>chmod\<close> and \<open>chown\<close> are updates of the inode that the path leads to.\<close>

definition attributes :: "u64 \<Rightarrow> (node \<Rightarrow> node) \<Rightarrow> fs \<Rightarrow> fs \<Rightarrow> bool" where
  "attributes a f s s' \<longleftrightarrow> kept {a} {} s s' \<and> get_node s' a = f (get_node s a) \<and> (\<forall>p b. leads s p b \<longrightarrow> leads s' p b)"

lemma chmod_leads:
  assumes "leads s path a" "a \<noteq> 0"
  shows "\<exists>s'. tfs_chmod path m s = Some (0, s') \<and> attributes a (\<lambda>n. n\<lparr>mode := m\<rparr>) s s'"
proof -
  obtain s1 n s2 s3 where f: "find_path_node path s = Some (a, s1)" "uninit_node s1 = (n, s2)"
    "load_node a n s2 = (get_node s a, s3)" "only_io s s3" "dev s3 = dev s" by (rule leads_load [OF assms])
  let ?n = "(get_node s a)\<lparr>mode := m\<rparr>"
  have "same_map (get_node s a) ?n" "wf_node ?n" by (simp_all add: same_map_def)
  note st = leads_store [OF assms f(4,5) this]
  have "tfs_chmod path m s = Some (0, store_node ?n a s3)" using f assms(2) by (simp add: tfs_chmod_def)
  then show ?thesis using st by (auto simp: attributes_def)
qed

lemma chown_leads:
  assumes "leads s path a" "a \<noteq> 0"
  shows "\<exists>s'. tfs_chown path u g s = Some (0, s') \<and> attributes a (\<lambda>n. n\<lparr>user_id := u, group_id := g\<rparr>) s s'"
proof -
  obtain s1 n s2 s3 where f: "find_path_node path s = Some (a, s1)" "uninit_node s1 = (n, s2)"
    "load_node a n s2 = (get_node s a, s3)" "only_io s s3" "dev s3 = dev s" by (rule leads_load [OF assms])
  let ?n = "(get_node s a)\<lparr>user_id := u, group_id := g\<rparr>"
  have "same_map (get_node s a) ?n" "wf_node ?n" by (simp_all add: same_map_def)
  note st = leads_store [OF assms f(4,5) this]
  have "tfs_chown path u g s = Some (0, store_node ?n a s3)" using f assms(2) by (simp add: tfs_chown_def)
  then show ?thesis using st by (auto simp: attributes_def)
qed

section \<open>The formatted disk\<close>

lemma ent_of_bytes:
  assumes "rdbytes m p k = name @ [0]" "k = length name + 1" "wf_name name" "length name < 248"
  shows "ent m p = (name, rd64 m (p + 248))" "0 \<in> set (rdbytes m p 248)"
proof -
  have sp: "rdbytes m p 248 = (name @ [0]) @ rdbytes m (p + (length name + 1)) (248 - (length name + 1))"
    using rdbytes_split [of k 248 m p] assms by simp
  then show "0 \<in> set (rdbytes m p 248)" by simp
  show "ent m p = (name, rd64 m (p + 248))" unfolding ent_def sp using assms(3) by simp
qed

lemma valid_entI:
  assumes "ent m p = (name, a)" "name \<noteq> []" "0 \<in> set (rdbytes m p 248)"
  shows "valid_ent m p"
proof -
  have "rdbytes m p 248 = m p # rdbytes m (p + 1) 247"
    using rdbytes_split [of 1 248 m p] by (simp add: rdbytes_def)
  then have "cstr (rdbytes m p 248) = (if m p = 0 then [] else m p # cstr (rdbytes m (p + 1) 247))"
    by (simp only: cstr_def takeWhile.simps) simp
  then show ?thesis using assms by (auto simp: ent_def valid_ent_def split: if_splits)
qed

lemma root_image_zero: "512 \<le> i \<Longrightarrow> i < 4096 \<Longrightarrow> root_image m c r (c + i) = 0"
  by (simp add: root_image_def wr64_def wrbytes_def)

lemma fresh_root:
  assumes "disk_of fd s ib" "devsize s div BLOCKSIZE mod 65 \<noteq> 0" "fresh_disk fd s ib s'"
  shows "fsys_ok s'" "inode_slot s' 4096" "dir_ok s' (get_node s' 4096)"
    "entries s' (get_node s' 4096) = [([46], 4096), ([46, 46], 4096)]" "first_free s' = 4352"
    "get_node s' 4352 = node_of_bytes (replicate 208 0)" "free_set s' \<noteq> {}"
proof -
  let ?n = "get_node s' 4096" and ?c = "nth_block (region ib) 1" and ?m = "root_image (\<lambda>_. 0) (region ib + 4096) 4096"
  note r = disk_room [OF assms(1)] and f = assms(3)[unfolded fresh_disk_def]
  have cu: "unat ?c = region ib + 4096" using r by (subst unat_nth_block) simp_all
  show ok: "fsys_ok s'" using f by (simp add: fsys_ok_def)
  show sl: "inode_slot s' 4096" using f assms(1) by (simp add: inode_slot_def region_def disk_of_def)
  have a: "addrs s' ?n = [?c]" using f by (simp add: addrs_def nth_addr_def)
  have db: "data_block s' ?c"
    using f r(1,4,5) cu by (auto simp: data_block_def region_def)
  have "nth_block (region ib) i \<noteq> ?c" if "i \<le> list_size ib" "i \<noteq> 1" for i
    using unat_nth_block [of "region ib" i] cu r(7) that by auto
  then have "?c \<noteq> nth_block (region ib) i" if "i \<in> {0..list_size ib} - {1}" for i
    using that by (metis DiffE atLeastAtMost_iff insertI1)
  then have "?c \<notin> nth_block (region ib) ` ({0..list_size ib} - {1})" by blast
  then have "?c \<notin> free_set s'" using f by simp
  then have fo: "file_ok s' ?n" using db f a by (simp add: file_ok_def owned_def)
  have cnt: "entry_count ?n = 2" "unat (blocks ?n) = 1" "n_size ?n = 512" using f by (simp_all add: entry_count_def)
  have sl0: "slot s' ?n i = region ib + 4096 + 256 * i" if "i < 16" for i
    using that cu by (simp add: slot_def a)
  have img: "rdbytes (dev s') (region ib + 4096) 2 = [46] @ [0]" "rd64 (dev s') (region ib + 4096 + 248) = 4096"
    "rdbytes (dev s') (region ib + 4096 + 256) 3 = [46, 46] @ [0]" "rd64 (dev s') (region ib + 4096 + 504) = 4096"
    using fresh_root_bytes [OF assms(3), of 0 2] fresh_root_bytes [OF assms(3), of 248 8]
      fresh_root_bytes [OF assms(3), of 256 3] fresh_root_bytes [OF assms(3), of 504 8]
    by (simp_all only: root_image_addr root_image_name add_0_right) simp_all
  have two: "2 = length [46 :: u8] + 1" "3 = length [46 :: u8, 46] + 1" by simp_all
  have e0: "ent (dev s') (region ib + 4096) = ([46], 4096)" "0 \<in> set (rdbytes (dev s') (region ib + 4096) 248)"
    using ent_of_bytes [OF img(1) two(1)] img(2) by simp_all
  have e1: "ent (dev s') (region ib + 4096 + 256) = ([46, 46], 4096)" "0 \<in> set (rdbytes (dev s') (region ib + 4096 + 256) 248)"
    using ent_of_bytes [OF img(3) two(2)] img(4) by (simp_all add: add.assoc)
  have "valid_ent (dev s') (slot s' ?n i)" if "i < 2" for i
    using that sl0 [of i] valid_entI [OF e0(1) _ e0(2)] valid_entI [OF e1(1) _ e1(2)]
    by (cases "i = 0") (auto simp: less_2_cases_iff)
  moreover have "dev s' (slot s' ?n i) = 0" if "2 \<le> i" "i < 16" for i
  proof -
    have "dev s' (region ib + 4096 + 256 * i) = ?m (region ib + 4096 + 256 * i)"
      using f that(2) by simp
    then show ?thesis using sl0 [OF that(2)] root_image_zero [of "256 * i"] that by simp
  qed
  ultimately show "dir_ok s' ?n" using fo cnt by (simp add: dir_ok_def)
  show "entries s' ?n = [([46], 4096), ([46, 46], 4096)]"
    using sl0 [of 0] sl0 [of 1] e0(1) e1(1) by (simp add: entries_def cnt upt_rec)
  have ib: "8192 \<le> unat (inode_byte_boundary s')" "256 dvd unat (inode_byte_boundary s')"
    using f assms(1) by (auto simp: region_def disk_of_def)
  have zero: "rdbytes (dev s') 4352 208 = replicate 208 0"
    using f ib by (intro nth_equalityI) simp_all
  then show "get_node s' 4352 = node_of_bytes (replicate 208 0)" by (simp add: get_node_def node_at_def)
  have "nth_block (region ib) 0 \<in> free_set s'" using f by simp
  then show "free_set s' \<noteq> {}" by blast
  from zero have "free_slot s' 4352" "\<not> free_slot s' 4096"
    using f by (simp_all add: free_slot_def node_at_def node_of_bytes_def get_node_def)
  moreover have "slots_from s' 4096 = 4096 # 4352 # slots_from s' 4608"
    using slots_from_step [of 4096 s'] slots_from_step [of 4352 s'] ib by simp
  ultimately show "first_free s' = 4352" by (simp add: first_free_def)
qed

section \<open>mknod\<close>

lemma last_slash_append:
  assumes "slash \<notin> set name"
  shows "last_slash (pre @ slash # name) (length (pre @ slash # name)) = Some (length pre)"
proof -
  let ?p = "pre @ slash # name"
  have "last_slash ?p (length pre + 1 + k) = Some (length pre)" if "k \<le> length name" for k
    using that
  proof (induction k)
    case (Suc k)
    then have "?p ! (length pre + 1 + k) = name ! k" by (simp add: nth_append)
    moreover have "name ! k \<noteq> slash" using Suc.prems assms nth_mem [of k name] by force
    ultimately show ?case using Suc by simp
  qed (simp add: nth_append)
  from this [of "length name"] show ?thesis by simp
qed

lemma leads_parent:
  assumes "leads s pre p"
  shows "\<exists>s1. find_parent (pre @ slash # name) (length pre) s = Some (p, s1) \<and> only_io s s1 \<and> dev s1 = dev s"
proof (cases "pre = []")
  case True
  have "path_names [] = []" by (simp add: path_names.simps strtok_def)
  then show ?thesis using True assms by (auto simp: find_parent_def leads_def)
next
  case False
  then show ?thesis using leads_find [OF assms] by (simp add: find_parent_def)
qed

text \<open>The new inode.\<close>

definition new_node :: "u32 \<Rightarrow> u32 \<Rightarrow> u32 \<Rightarrow> u64 \<Rightarrow> node \<Rightarrow> node" where
  "new_node m u g t n =
     n\<lparr>mode := m, links := 0, blocks := 0, n_size := 0, user_id := u, group_id := g,
       creation_time := t, access_time := t, change_time := t, data_time := t\<rparr>"

lemma init_nod_in:
  "\<exists>t s1. init_nod c m n s = store_node (new_node m (euid s) (egid s) t n) c s1 \<and> only_io s s1 \<and> dev s1 = dev s"
proof -
  obtain t s1 where t: "get_current_time_in_nsec s = (t, s1)" by fastforce
  then have "init_nod c m n s = store_node (new_node m (euid s) (egid s) t n) c s1"
    by (simp add: init_nod_def new_node_def Let_def)
  then show ?thesis using only_io_time [OF t] by blast
qed

text \<open>The state after \<open>mknod\<close>: a new inode \<open>c\<close>, entered in the directory \<open>p\<close>.\<close>

definition created :: "u64 \<Rightarrow> u64 \<Rightarrow> bytes \<Rightarrow> u32 \<Rightarrow> fs \<Rightarrow> fs \<Rightarrow> bool" where
  "created p c name m s s' \<longleftrightarrow>
     (let n = get_node s p
      in kept {p, c} (insert (indirect_blocks n) (set (addrs s n))) s s' \<and> dir_ok s' (get_node s' p) \<and>
         entries s' (get_node s' p) = entries s n @ [(name, c)] \<and>
         (\<exists>t t'. get_node s' c =
            (new_node m (euid s) (egid s) t (get_node s c))\<lparr>links := 1, change_time := t'\<rparr>) \<and>
         (entry_count n mod 16 \<noteq> 0 \<longrightarrow> free_set s' = free_set s))"

lemma mknod_ok:
  assumes "leads s pre p" "p \<noteq> 0" "name \<noteq> []" "wf_name name" "slash \<notin> set name" "length name < 248"
    and "dir_ok s (get_node s p)" "has_room s (get_node s p)" "first_free s \<noteq> 0" "first_free s \<noteq> p"
  shows "\<exists>s'. tfs_mknod (pre @ slash # name) m s = Some (0, s') \<and> created p (first_free s) name m s s'"
proof -
  let ?c = "first_free s" and ?n = "get_node s p"
  have ok: "fsys_ok s" and p: "inode_slot s p"
    using slot_walk_resolve [of s "path_names pre" "root_node s"] assms(1,2) by (auto simp: leads_def)
  have tab: "table_ok s" "4096 \<le> devsize s"
    using fsys_okD [OF ok] p by (auto simp: table_ok_def inode_slot_def)
  have c: "inode_slot s ?c" using first_free_cases [OF tab(1)] assms(9) by simp
  obtain s1 where s1: "find_parent (pre @ slash # name) (length pre) s = Some (p, s1)" "only_io s s1" "dev s1 = dev s"
    using leads_parent [OF assms(1)] by blast
  have "first_free s1 = ?c"
    using s1(3) only_ioD(5) [OF s1(2)] by (simp add: first_free_def slots_from_def free_slot_def [abs_def])
  then obtain s2 where s2: "allocate_inode (drive s1) s1 = Some (?c, s2)" "only_io s1 s2" "dev s2 = dev s1"
    using allocate_inode_scan [of s1 "drive s1"] tab table_ok_only_io [OF s1(2)] only_ioD(1) [OF s1(2)] by auto
  obtain d0 s3 where s3: "uninit_node s2 = (d0, s3)" by fastforce
  have io3: "only_io s s3" "dev s3 = dev s"
    using only_io_trans [OF only_io_trans [OF s1(2) s2(2)]] only_io_uninit_node [OF s3] s1(3) s2(3) by auto
  have k3: "kept {} {} s s3" by (rule kept_same_dev [OF ok io3])
  have "wf_node d0" using s3 by (auto simp: uninit_node_in)
  then obtain s4 where s4: "load_node ?c d0 s3 = (get_node s ?c, s4)" "only_io s s4" "dev s4 = dev s"
    using load_node_in [of s3 ?c d0] fsys_okD(3) [OF keptD(2) [OF k3]] slot_ok [OF keptD(2) [OF k3]]
      inode_slot_only_io [OF io3(1)] c io3 by (auto simp: get_node_def only_io_def)
  obtain t s5 where s5: "init_nod ?c m (get_node s ?c) s4 = store_node (new_node m (euid s) (egid s) t (get_node s ?c)) ?c s5"
    "only_io s4 s5" "dev s5 = dev s4"
    using init_nod_in [of ?c m "get_node s ?c" s4] only_ioD(11,12) [OF s4(2)] by auto
  let ?m = "new_node m (euid s) (egid s) t (get_node s ?c)"
  let ?s6 = "store_node ?m ?c s5"
  have io5: "only_io s s5" "dev s5 = dev s" using only_io_trans [OF s4(2) s5(2)] s4(3) s5(3) by simp_all
  have k5: "kept {} {} s s5" by (rule kept_same_dev [OF ok io5])
  have c5: "inode_slot s5 ?c" "wf_node ?m"
    using c inode_slot_only_io [OF io5(1)] by (simp_all add: new_node_def)
  note st = store_kept [OF keptD(2) [OF k5] c5]
  have k6: "kept {?c} {} s ?s6" using kept_trans [OF k5 st(1)] by simp
  have p6: "inode_slot ?s6 p" "inode_slot ?s6 ?c" "get_node ?s6 p = ?n"
    using p c inode_slot_only_io [OF keptD(1) [OF k6]] keptD(3) [OF k6 p] assms(10) by simp_all
  have fr: "free_set ?s6 = free_set s" using st(3) fl_same_dev [OF io5] by simp
  have room: "has_room ?s6 ?n" using assms(8) fr by (simp add: has_room_def)
  note dk = dir_kept [OF assms(7) k6, unfolded Int_empty_left, OF refl]
  obtain s7 where s7: "add_to_directory p ?c name ?s6 = Some (0, s7)" "entered p ?c name ?s6 s7"
    using add_to_directory_ok [OF keptD(2) [OF k6] p6(1,2)] p6(3) dk(1) room assms(3,4,6,10) by auto
  have a6: "addrs ?s6 ?n = addrs s ?n" using addrs_kept [OF dir_okD(1) [OF assms(7)] k6] by simp
  have "created p ?c name m s s7"
    using kept_mono [OF kept_trans [OF k6], of "{p, ?c}" _ s7 "{p, ?c}"] s7(2) p6(3) dk(2) a6 st(2)
    by (auto simp: created_def entered_def Let_def new_node_def fr [simplified new_node_def])
  moreover have "tfs_mknod (pre @ slash # name) m s = Some (0, s7)"
    using s1(1) assms(2,9) s2(1) s3 s4(1) s5(1) s7(1) last_slash_append [OF assms(5), of pre]
    by (simp add: tfs_mknod_def)
  ultimately show ?thesis by blast
qed

text \<open>A name just entered is found.\<close>

lemma created_leads:
  assumes "created (root_node s) c name m s s'" "fsys_ok s" "inode_slot s (root_node s)" "inode_slot s c"
    and "entry_count (get_node s (root_node s)) < 192" "name \<noteq> []" "wf_name name" "slash \<notin> set name"
    and "name \<notin> fst ` set (entries s (get_node s (root_node s)))"
  shows "leads s' (slash # name) c"
proof -
  let ?r = "root_node s" and ?es = "entries s (get_node s (root_node s))"
  have k: "only_io s s'" "fsys_ok s'" and d: "dir_ok s' (get_node s' ?r)" "entries s' (get_node s' ?r) = ?es @ [(name, c)]"
    using assms(1) keptD(1,2) unfolding created_def Let_def by blast+
  have "entry_count (get_node s' ?r) = Suc (entry_count (get_node s ?r))"
    using arg_cong [OF d(2), of length] by simp
  then have b: "unat (blocks (get_node s' ?r)) \<le> 12" using dir_okD(3) [OF d(1)] assms(5) by simp
  have "c \<noteq> 0" using slot_ok [OF assms(2,4)] by (simp add: node_ok_def)
  then have m: "found (entries s' (get_node s' ?r)) name = Some c" "plain_name (entries s' (get_node s' ?r)) name"
    using assms(9) unfolding d(2) by (simp_all add: found_append plain_name_append)
  have sl: "inode_slot s' ?r" "inode_slot s' c" using assms(3,4) inode_slot_only_io [OF k(1)] by simp_all
  have "path_names (slash # name) = [name]" using path_names_join [of "[name]"] assms(6,8) by simp
  then show ?thesis
    using k(2) d(1) b m sl slot_ok [OF k(2) sl(2)] assms(7) only_ioD(3) [OF k(1)] by (simp add: leads_def)
qed

section \<open>Properties\<close>

text \<open>
  C12. \<open>mknod\<close> makes a file in the root directory: the directory gets one more entry, for the lowest
  free inode, and \<open>getattr\<close> on the new path returns an empty file with the mode asked for, one link
  and the user's identity; no other inode and no block outside the directory changes.
\<close>

theorem mknod_then_getattr:
  assumes "fsys_ok s" "inode_slot s (root_node s)" "mode (get_node s (root_node s)) \<noteq> 0"
    and "dir_ok s (get_node s (root_node s))" "entry_count (get_node s (root_node s)) < 192"
    and "name \<noteq> []" "wf_name name" "slash \<notin> set name" "length name < NAME_LENGTH"
    and "name \<notin> fst ` set (entries s (get_node s (root_node s)))"
    and "has_room s (get_node s (root_node s))" "first_free s \<noteq> 0"
  shows "\<exists>s1 st s2. tfs_mknod (slash # name) m s = Some (0, s1) \<and>
    entries s1 (get_node s1 (root_node s)) = entries s (get_node s (root_node s)) @ [(name, first_free s)] \<and>
    kept {root_node s, first_free s}
      (insert (indirect_blocks (get_node s (root_node s))) (set (addrs s (get_node s (root_node s))))) s s1 \<and>
    tfs_getattr (slash # name) st0 s1 = Some (0, st, s2) \<and>
    st_ino st = (first_free s - BLOCKSIZE) div INODE_SIZE_BOUNDARY \<and> st_mode st = m \<and> st_nlink st = 1 \<and>
    st_size st = 0 \<and> st_blocks st = 0 \<and> st_uid st = euid s \<and> st_gid st = egid s"
proof -
  let ?r = "root_node s" and ?c = "first_free s"
  have "path_names [] = []" by (simp add: path_names.simps strtok_def)
  then have l: "leads s [] ?r" using assms(1,2) by (simp add: leads_def)
  have tab: "table_ok s" and r0: "?r \<noteq> 0" using fsys_okD(2) assms(1,2) slot_ok node_ok_def by blast+
  have c: "inode_slot s ?c" "mode (get_node s ?c) = 0"
    using first_free_cases [OF tab] assms(12) by (simp_all add: free_slot_def get_node_def)
  then have ne: "?c \<noteq> ?r" using assms(3) by auto
  obtain s1 where s1: "tfs_mknod (slash # name) m s = Some (0, s1)" "created ?r ?c name m s s1"
    using mknod_ok [OF l r0 assms(6-9,4,11,12) ne, of m] by auto
  have lc: "leads s1 (slash # name) ?c"
    by (rule created_leads [OF s1(2) assms(1,2) c(1) assms(5-8,10)])
  obtain s2 where s2: "tfs_getattr (slash # name) st0 s1 = Some (0, stat_of ?c (get_node s1 ?c), s2)"
    using getattr_leads [OF lc assms(12)] by blast
  show ?thesis
    using s1(1) s1(2) s2 by (auto simp: created_def Let_def stat_of_def new_node_def off_t_def)
qed

text \<open>The file \<open>/a\<close> on a disk of 66 blocks that was just formatted.\<close>

lemma format_66:
  obtains s where "tfs_mkfs 3 (blank_fs (66 * 4096)) = Some (0, s)" "fsys_ok s" "root_node s = 4096" "inode_slot s 4096"
    "mode (get_node s 4096) \<noteq> 0" "dir_ok s (get_node s 4096)" "entry_count (get_node s 4096) = 2"
    "entries s (get_node s 4096) = [([46], 4096), ([46, 46], 4096)]" "first_free s = 4352"
    "get_node s 4352 = node_of_bytes (replicate 208 0)" "free_set s \<noteq> {}"
proof -
  have d: "disk_of 3 (blank_fs (66 * 4096)) 1" "devsize (blank_fs (66 * 4096)) div 4096 mod 65 \<noteq> 0"
    by (simp_all add: disk_of_def blank_fs_def)
  obtain s where f: "fresh_disk 3 (blank_fs (66 * 4096)) 1 s" using mkfs_fresh [OF d] by blast
  show thesis
    by (rule that [OF _ fresh_root(1) [OF d f] _ fresh_root(2) [OF d f] _ fresh_root(3) [OF d f] _ fresh_root(4-7) [OF d f]])
      (use f in \<open>simp_all add: fresh_disk_def entry_count_def\<close>)
qed

definition no_stat :: stat where
  "no_stat = stat_of 0 (node_of_bytes [])"

theorem mknod_then_getattr_witness:
  "\<exists>s s1 st s2. tfs_mkfs 3 (blank_fs (66 * 4096)) = Some (0, s) \<and> tfs_mknod [slash, 97] 0x81A4 s = Some (0, s1) \<and>
     tfs_getattr [slash, 97] no_stat s1 = Some (0, st, s2) \<and> st_mode st = 0x81A4 \<and> st_ino st = 1"
proof (rule format_66)
  fix s assume s: "tfs_mkfs 3 (blank_fs (66 * 4096)) = Some (0, s)" "fsys_ok s" "root_node s = 4096" "inode_slot s 4096"
    "mode (get_node s 4096) \<noteq> 0" "dir_ok s (get_node s 4096)" "entry_count (get_node s 4096) = 2"
    "entries s (get_node s 4096) = [([46], 4096), ([46, 46], 4096)]" "first_free s = 4352"
    "get_node s 4352 = node_of_bytes (replicate 208 0)" "free_set s \<noteq> {}"
  have "has_room s (get_node s 4096)" using s(7) by (simp add: has_room_def)
  then show ?thesis
    using mknod_then_getattr [of s "[97]" "0x81A4" no_stat] s by auto
qed

text \<open>
  C13. When a name on the path is in none of the directories it is looked up in, the handlers
  \<open>getattr\<close>, \<open>readdir\<close>, \<open>open\<close>, \<open>read\<close>, \<open>write\<close>, \<open>truncate\<close>, \<open>utime\<close>, \<open>chmod\<close>,
  \<open>chown\<close>, \<open>rename\<close>, \<open>unlink\<close> and \<open>rmdir\<close> of the path, and \<open>mknod\<close> and \<open>mkdir\<close> of a
  name below it, return \<open>-ENOENT\<close> and leave the device as it was. The directories on the way are
  well formed and have at most 12 blocks. The handler left is \<open>flush\<close>,
  which returns 0 for every path.
\<close>

theorem missing_path_is_enoent:
  assumes "leads s path 0" "slash \<notin> set name"
  shows "\<exists>s' s''. only_io s s' \<and> dev s' = dev s \<and> only_io s s'' \<and> dev s'' = dev s \<and>
    tfs_getattr path st s = Some (- ENOENT, st, s') \<and> tfs_readdir path s = Some (- ENOENT, [], s') \<and>
    tfs_open path flg s = Some (- ENOENT, s') \<and> tfs_read path buff len off s = Some (- ENOENT, buff, s') \<and>
    tfs_write path buff len off s = Some (- ENOENT, s') \<and> tfs_truncate path off s = Some (- ENOENT, s') \<and>
    tfs_utime path t1 t2 s = Some (- ENOENT, s') \<and> tfs_chmod path m s = Some (- ENOENT, s') \<and>
    tfs_chown path u g s = Some (- ENOENT, s') \<and> tfs_rename path new_name s = Some (- ENOENT, s') \<and>
    tfs_unlink fuel path s = Some (- ENOENT, s') \<and> tfs_rmdir fuel path s = Some (- ENOENT, s') \<and>
    tfs_mknod (path @ slash # name) m s = Some (- ENOENT, s') \<and>
    tfs_mkdir (path @ slash # name) m s = Some (- ENOENT, s'')"
proof -
  note ls = last_slash_append [OF assms(2), of path]
  obtain s' where s': "find_path_node path s = Some (0, s')" "only_io s s'" "dev s' = dev s"
    using leads_find [OF assms(1)] by blast
  obtain s1 where "find_parent (path @ slash # name) (length path) s = Some (0, s1)"
    using leads_parent [OF assms(1), of name] by blast
  moreover have "path \<noteq> []"
  proof
    assume "path = []"
    then have "path_names path = []" by (simp add: path_names.simps strtok_def)
    then have "inode_slot s (root_node s)" "root_node s = 0" "fsys_ok s" using assms(1) by (auto simp: leads_def)
    then show False using slot_ok [of s "root_node s"] by (simp add: node_ok_def)
  qed
  ultimately have mknod: "tfs_mknod (path @ slash # name) m s = Some (- ENOENT, s')"
    using ls s'(1) by (simp add: tfs_mknod_def find_parent_def)
  obtain d s0 where u: "uninit_node s = (d, s0)" by fastforce
  have io: "only_io s s0" "dev s0 = dev s" using only_io_uninit_node [OF u] by auto
  obtain s'' where s'': "find_parent (path @ slash # name) (length path) s0 = Some (0, s'')" "only_io s0 s''" "dev s'' = dev s0"
    using leads_parent [OF leads_same_dev [OF assms(1) io], of name] by blast
  have "tfs_mkdir (path @ slash # name) m s = Some (- ENOENT, s'')"
    using ls u s''(1) by (simp add: tfs_mkdir_def)
  moreover have "only_io s s''" "dev s'' = dev s" using only_io_trans [OF io(1) s''(2)] s''(3) io(2) by simp_all
  ultimately show ?thesis
    using s' mknod
    by (intro exI [of _ s'] exI [of _ s'']) (simp add: tfs_getattr_def tfs_readdir_def tfs_open_def tfs_read_def tfs_write_def tfs_truncate_def
        tfs_utime_def tfs_chmod_def tfs_chown_def tfs_rename_def tfs_unlink_def tfs_rmdir_def)
qed

text \<open>A name that is not on the formatted disk.\<close>

theorem missing_path_is_enoent_witness:
  "\<exists>s s' s''. tfs_mkfs 3 (blank_fs (66 * 4096)) = Some (0, s) \<and> tfs_open [slash, 98] 0 s = Some (- ENOENT, s') \<and>
     tfs_mkdir [slash, 98, slash, 97] 0x1ED s = Some (- ENOENT, s'')"
proof (rule format_66)
  fix s assume s: "tfs_mkfs 3 (blank_fs (66 * 4096)) = Some (0, s)" "fsys_ok s" "root_node s = 4096" "inode_slot s 4096"
    "mode (get_node s 4096) \<noteq> 0" "dir_ok s (get_node s 4096)" "entry_count (get_node s 4096) = 2"
    "entries s (get_node s 4096) = [([46], 4096), ([46, 46], 4096)]" "first_free s = 4352"
    "get_node s 4352 = node_of_bytes (replicate 208 0)" "free_set s \<noteq> {}"
  have "path_names [slash, 98] = [[98]]" using path_names_join [of "[[98]]"] by simp
  moreover have "unat (blocks (get_node s 4096)) \<le> 12" using dir_okD(3) [OF s(6)] s(7) by simp
  ultimately have "leads s [slash, 98] 0" using s by (simp add: leads_def found_def plain_name_def)
  from missing_path_is_enoent [OF this, of "[97]" no_stat 0 "[]" 0 0 0 0 "0x1ED" 0 0 "[]" 0] obtain s' s'' where
    "tfs_open [slash, 98] 0 s = Some (- ENOENT, s')" "tfs_mkdir [slash, 98, slash, 97] 0x1ED s = Some (- ENOENT, s'')"
    by auto
  then show ?thesis using s(1) by blast
qed

text \<open>
  What \<open>chmod\<close> and \<open>chown\<close> set, \<open>getattr\<close> returns, with every other attribute as before; no
  other inode and no block in use changes.
\<close>

theorem chmod_chown_getattr:
  assumes "leads s path a" "a \<noteq> 0"
  shows "\<exists>st s0 s1 s2 s3. tfs_getattr path st0 s = Some (0, st, s0) \<and> tfs_chmod path m s0 = Some (0, s1) \<and>
    tfs_chown path u g s1 = Some (0, s2) \<and>
    tfs_getattr path st0 s2 = Some (0, st\<lparr>st_mode := m, st_uid := u, st_gid := g\<rparr>, s3) \<and> kept {a} {} s s3"
proof -
  obtain s0 where s0: "tfs_getattr path st0 s = Some (0, stat_of a (get_node s a), s0)" "only_io s s0" "dev s0 = dev s"
    using getattr_leads [OF assms] by blast
  have l0: "leads s0 path a" by (rule leads_same_dev [OF assms(1) s0(2,3)])
  obtain s1 where s1: "tfs_chmod path m s0 = Some (0, s1)" "attributes a (\<lambda>n. n\<lparr>mode := m\<rparr>) s0 s1"
    using chmod_leads [OF l0 assms(2)] by blast
  then have l1: "leads s1 path a" using l0 by (simp add: attributes_def)
  obtain s2 where s2: "tfs_chown path u g s1 = Some (0, s2)" "attributes a (\<lambda>n. n\<lparr>user_id := u, group_id := g\<rparr>) s1 s2"
    using chown_leads [OF l1 assms(2)] by blast
  then have l2: "leads s2 path a" using l1 by (simp add: attributes_def)
  obtain s3 where s3: "tfs_getattr path st0 s2 = Some (0, stat_of a (get_node s2 a), s3)" "only_io s2 s3" "dev s3 = dev s2"
    using getattr_leads [OF l2 assms(2)] by blast
  have ok: "fsys_ok s" "fsys_ok s2" using assms(1) l2 by (simp_all add: leads_def)
  have "kept {a} {} s s3"
    using kept_trans [OF kept_trans [OF kept_trans [OF kept_same_dev [OF ok(1) s0(2,3), of "{}" "{}"]]]
        kept_same_dev [OF ok(2) s3(2,3), of "{}" "{}"]] s1(2) s2(2) by (fastforce simp: attributes_def)
  moreover have "stat_of a (get_node s2 a) = (stat_of a (get_node s a))\<lparr>st_mode := m, st_uid := u, st_gid := g\<rparr>"
    using s1(2) s2(2) same_dev_views(1) [OF s0(2,3)] by (simp add: attributes_def stat_of_def)
  ultimately show ?thesis using s0(1) s1(1) s2(1) s3(1) by auto
qed

text \<open>The entry \<open>.\<close> of the formatted disk.\<close>

theorem chmod_chown_getattr_witness:
  "\<exists>s st s0 s1 s2 s3. tfs_mkfs 3 (blank_fs (66 * 4096)) = Some (0, s) \<and>
     tfs_getattr [slash, 46] no_stat s = Some (0, st, s0) \<and> tfs_chmod [slash, 46] 0x41FF s0 = Some (0, s1) \<and>
     tfs_chown [slash, 46] 1 2 s1 = Some (0, s2) \<and>
     tfs_getattr [slash, 46] no_stat s2 = Some (0, st\<lparr>st_mode := 0x41FF, st_uid := 1, st_gid := 2\<rparr>, s3)"
proof (rule format_66)
  fix s assume s: "tfs_mkfs 3 (blank_fs (66 * 4096)) = Some (0, s)" "fsys_ok s" "root_node s = 4096" "inode_slot s 4096"
    "mode (get_node s 4096) \<noteq> 0" "dir_ok s (get_node s 4096)" "entry_count (get_node s 4096) = 2"
    "entries s (get_node s 4096) = [([46], 4096), ([46, 46], 4096)]" "first_free s = 4352"
    "get_node s 4352 = node_of_bytes (replicate 208 0)" "free_set s \<noteq> {}"
  have "path_names [slash, 46] = [[46]]" using path_names_join [of "[[46]]"] by simp
  moreover have "unat (blocks (get_node s 4096)) \<le> 12" using dir_okD(3) [OF s(6)] s(7) by simp
  ultimately have "leads s [slash, 46] 4096" using s slot_ok [OF s(2,4)] by (simp add: leads_def found_def plain_name_def)
  from chmod_chown_getattr [OF this, of no_stat "0x41FF" 1 2] s(1) show ?thesis by auto
qed

end
