(* ===== verification/File_Data.thy ===== *)
theory File_Data
  imports Handler_Facts
begin

text \<open>
  The bytes of a file. Its contents are read off its blocks in order (\<open>file_byte\<close>,
  \<open>contents\<close>); the loops of \<^verbatim>\<open>tfs_read\<close> and \<^verbatim>\<open>tfs_write\<close> go block by block over
  them, a write after the loop that adds the blocks it needs. A write is then an update of a list
  of bytes (\<open>overwrite\<close>), and a read returns a part of the list.
\<close>

section \<open>Bytes and blocks\<close>

definition file_byte :: "fs \<Rightarrow> node \<Rightarrow> nat \<Rightarrow> u8" where
  "file_byte s n i = dev s (unat (addrs s n ! (i div BLOCKSIZE)) + i mod BLOCKSIZE)"

definition file_data :: "fs \<Rightarrow> node \<Rightarrow> nat \<Rightarrow> nat \<Rightarrow> bytes" where
  "file_data s n a k = map (\<lambda>i. file_byte s n (a + i)) [0..<k]"

lemma length_file_data [simp]: "length (file_data s n a k) = k"
  by (simp add: file_data_def)

lemma file_data_split: "k \<le> c \<Longrightarrow> file_data s n a c = file_data s n a k @ file_data s n (a + k) (c - k)"
  by (rule nth_equalityI) (auto simp: file_data_def nth_append)

lemma within_block:
  assumes "a mod 4096 + i < (4096 :: nat)"
  shows "(a + i) div 4096 = a div 4096" "(a + i) mod 4096 = a mod 4096 + i"
proof -
  obtain q r where "a = 4096 * q + r" "r < 4096"
  proof
    show "a = 4096 * (a div 4096) + a mod 4096" "a mod 4096 < 4096" by simp_all
  qed
  then show "(a + i) div 4096 = a div 4096" "(a + i) mod 4096 = a mod 4096 + i"
    using assms by (simp_all add: add.assoc)
qed

lemma next_block:
  assumes "k = 4096 - a mod (4096 :: nat)"
  shows "(a + k) div 4096 = Suc (a div 4096)" "(a + k) mod 4096 = 0"
proof -
  obtain q r where "a = 4096 * q + r" "r < 4096"
  proof
    show "a = 4096 * (a div 4096) + a mod 4096" "a mod 4096 < 4096" by simp_all
  qed
  then have "a + k = 4096 * Suc q" "a div 4096 = q" using assms by simp_all
  then show "(a + k) div 4096 = Suc (a div 4096)" "(a + k) mod 4096 = 0" by simp_all
qed

lemma file_data_block:
  assumes "a mod BLOCKSIZE + k \<le> BLOCKSIZE"
  shows "file_data s n a k = rdbytes (dev s) (unat (addrs s n ! (a div BLOCKSIZE)) + a mod BLOCKSIZE) k"
  using assms by (intro nth_equalityI) (simp_all add: file_data_def file_byte_def within_block add.assoc)

text \<open>Numbers of the loops, as words.\<close>

lemma loop_words:
  assumes "c \<noteq> 0" "a + c \<le> 4096 * unat (t :: u64)" "unat t \<le> 524"
  shows "a div 4096 < unat t" "(of_nat c :: u64) \<noteq> 0" "(of_nat (a div 4096) :: u64) < t"
    "unat (of_nat c :: u64) = c" "unat (of_nat (a div 4096) :: u64) = a div 4096"
    "off_t (of_nat (a mod 4096)) = int (a mod 4096)"
proof -
  have "a < 4096 * unat t" "c \<le> 4096 * 524" using assms by simp_all
  then show d: "a div 4096 < unat t" by (simp add: less_mult_imp_div_less mult.commute)
  show u: "unat (of_nat c :: u64) = c" "unat (of_nat (a div 4096) :: u64) = a div 4096"
    using \<open>c \<le> _\<close> d assms(3) by (simp_all add: unat_of_nat)
  then show "(of_nat c :: u64) \<noteq> 0" "(of_nat (a div 4096) :: u64) < t"
    using assms(1) d by (auto simp: word_less_nat_alt)
  show "off_t (of_nat (a mod 4096)) = int (a mod 4096)"
    using mod_less_divisor [of 4096 a] by (intro off_t_of_nat) simp
qed

section \<open>Reading\<close>

lemma read_loop_done: "read_loop 0 b t d l n buff s = Some (d, buff, s)"
  by (subst read_loop.simps) simp

lemma read_loop_reads:
  assumes "fsys_ok s" "file_ok s n" "off + c \<le> BLOCKSIZE * unat (blocks n)" "d + c \<le> length buff" "length buff < 2 ^ 63"
  shows "\<exists>s'. read_loop (of_nat c) (of_nat (off div BLOCKSIZE)) (blocks n) (of_nat d) (of_nat (off mod BLOCKSIZE)) n buff s =
      Some (of_nat (d + c), take d buff @ file_data s n off c @ drop (d + c) buff, s') \<and> only_io s s' \<and> dev s' = dev s"
  using assms
proof (induction c arbitrary: off d buff s rule: less_induct)
  case (less c)
  show ?case
  proof (cases "c = 0")
    case True
    then show ?thesis by (simp add: read_loop_done file_data_def)
  next
    case False
    note f = file_okD [OF less.prems(2)]
    note w = loop_words [OF False less.prems(3) f(2)]
    let ?b = "addrs s n ! (off div 4096)"
    define k where "k = min c (4096 - off mod 4096)"
    have k: "k \<le> c" "0 < k" "off mod 4096 + k \<le> 4096" "d + k \<le> length buff"
      using False less.prems(4) mod_less_divisor [of 4096 off] by (simp_all add: k_def)
    obtain s1 where g: "get_i_block n (of_nat (off div 4096)) s = (?b, s1)" "only_io s s1" "dev s1 = dev s"
      using get_i_block_file [OF less.prems(1,2) w(1)] by blast
    have ob: "block_ok s ?b" using f(3) w(1) owned_block_ok by (simp add: list_all_length)
    let ?s2 = "s1\<lparr>pos := unat ?b + off mod 4096 + k\<rparr>" and ?r = "rdbytes (dev s) (unat ?b + off mod 4096) k"
    have rb: "read_block (Some (drop d buff)) ?b (int (off mod 4096)) (of_nat c) s1 =
        (int k, Some (?r @ drop (d + k) buff), ?s2)"
      using read_block_in [of s1 ?b "off mod 4096" "drop d buff" "of_nat c"] fsys_okD(3) [OF less.prems(1)]
        ok_dev_only_io [OF g(2)] block_ok_only_io [OF g(2)] ob g(3) w(4) k
      by (simp add: k_def patch_def Let_def add.commute)
    have io: "only_io s ?s2" "dev ?s2 = dev s" using only_io_trans [OF g(2)] g(3) by simp_all
    have len: "unat (of_nat d :: u64) = d" "\<not> length buff < d" using less.prems(4,5) by (simp_all add: unat_of_nat)
    have tmp: "u64_of_int (int k) = of_nat k" by (simp add: u64_of_int_def)
    let ?buff = "take d buff @ ?r @ drop (d + k) buff"
    have step: "read_loop (of_nat c) (of_nat (off div 4096)) (blocks n) (of_nat d) (of_nat (off mod 4096)) n buff s =
        read_loop (of_nat (c - k)) (of_nat (Suc (off div 4096))) (blocks n) (of_nat (d + k)) 0 n ?buff ?s2"
    proof -
      have ar: "(of_nat c :: u64) - of_nat k = of_nat (c - k)" "(of_nat (off div 4096) :: u64) + 1 = of_nat (Suc (off div 4096))"
        "(of_nat d :: u64) + of_nat k = of_nat (d + k)" using k(1) by (simp_all add: of_nat_diff)
      show ?thesis
        by (subst read_loop.simps)
          (simp only: w(2,3,6) len g(1) rb tmp ar Let_def prod.case option.sel simp_thms if_True if_False)
    qed
    have fd: "file_data s n off c = ?r @ file_data s n (off + k) (c - k)"
      using file_data_split [OF k(1)] file_data_block [OF k(3)] by simp
    show ?thesis
    proof (cases "k = c")
      case True
      then show ?thesis using step io fd by (simp add: read_loop_done file_data_def)
    next
      case nk: False
      then have kk: "k = 4096 - off mod 4096" using k(1) by (auto simp: k_def min_def split: if_splits)
      note nb = next_block [OF kk]
      have ok2: "fsys_ok ?s2" by (rule keptD(2) [OF kept_same_dev [OF less.prems(1) io, of "{}" "{}"]])
      have h: "c - k < c" "file_ok ?s2 n" "off + k + (c - k) \<le> 4096 * unat (blocks n)" "d + k + (c - k) \<le> length ?buff"
        "length ?buff < 2 ^ 63"
        using k less.prems False same_dev_views(4) [OF io] by simp_all
      obtain s' where ih: "read_loop (of_nat (c - k)) (of_nat (Suc (off div 4096))) (blocks n) (of_nat (d + k)) 0 n ?buff ?s2 =
          Some (of_nat (d + k + (c - k)), take (d + k) ?buff @ file_data ?s2 n (off + k) (c - k) @ drop (d + k + (c - k)) ?buff, s')"
        "only_io ?s2 s'" "dev s' = dev ?s2"
        using less.IH [OF h(1) ok2 h(2-5)] unfolding nb by auto
      have "file_data ?s2 n (off + k) (c - k) = file_data s n (off + k) (c - k)"
        by (simp add: file_data_def file_byte_def io(2) same_dev_views(2) [OF io])
      then show ?thesis
        using step ih fd k(1,4) only_io_trans [OF io(1) ih(2)] io(2) less.prems(4) by (simp add: add.commute [of c d])
    qed
  qed
qed

section \<open>Writing\<close>

lemma file_write:
  assumes "fsys_ok s" "file_ok s n" "j < unat (blocks n)" "only_io s s'"
    and "\<forall>x. x < unat (addrs s n ! j) \<or> unat (addrs s n ! j) + BLOCKSIZE \<le> x \<longrightarrow> dev s' x = dev s x"
  shows "kept {} {addrs s n ! j} s s'" "free_set s' = free_set s" "file_ok s' n" "addrs s' n = addrs s n"
proof -
  let ?b = "addrs s n ! j"
  note f = file_okD [OF assms(2)]
  have b: "owned s ?b" "?b \<in> set (addrs s n)" using f(3) assms(3) by (simp_all add: list_all_length)
  note w = write_kept [OF assms(1) b(1) assms(4) assms(5)[rule_format]]
  show k: "kept {} {?b} s s'" by (rule w(1))
  show "free_set s' = free_set s" by (rule w(2))
  have ib: "indirect_blocks n \<noteq> ?b" using f(6) b owned_nonzero by auto
  then show a: "addrs s' n = addrs s n" by (intro addrs_kept [OF assms(2) k]) simp
  have own: "owned s' c" if "owned s c" for c using keptD(4) [OF k that] w(3) by (cases "c = ?b") simp_all
  then show "file_ok s' n"
    using f(1-7) a by (auto simp: file_ok_def list_all_iff)
qed

lemma write_loop_done: "write_loop 0 b t d l n buff s = Some (d, s)"
  by (subst write_loop.simps) simp

lemma file_byte_write:
  assumes "fsys_ok s" "file_ok s n" "off div BLOCKSIZE < unat (blocks n)" "off mod BLOCKSIZE + length bs \<le> BLOCKSIZE"
    and "only_io s s'" "dev s' = wrbytes (dev s) (unat (addrs s n ! (off div BLOCKSIZE)) + off mod BLOCKSIZE) bs"
    and "i < BLOCKSIZE * unat (blocks n)"
  shows "file_byte s' n i = (if off \<le> i \<and> i < off + length bs then bs ! (i - off) else file_byte s n i)"
proof -
  let ?b = "addrs s n ! (off div 4096)" and ?c = "addrs s n ! (i div 4096)"
  have out: "\<forall>x. x < unat ?b \<or> unat ?b + 4096 \<le> x \<longrightarrow> dev s' x = dev s x"
    using assms(4,6) by (auto simp: wrbytes_out)
  note fw = file_write [OF assms(1-3,5) out]
  have i: "i div 4096 < unat (blocks n)" using assms(7) by (simp add: less_mult_imp_div_less mult.commute)
  show ?thesis
  proof (cases "i div 4096 = off div 4096")
    case True
    obtain q r t where q: "off = 4096 * q + r" "i = 4096 * q + t" "r < 4096" "t < 4096"
    proof
      show "off = 4096 * (off div 4096) + off mod 4096" "off mod 4096 < 4096" "i mod 4096 < 4096" by simp_all
      show "i = 4096 * (off div 4096) + i mod 4096" by (simp flip: True)
    qed
    then have "file_byte s' n i = wrbytes (dev s) (unat ?b + r) bs (unat ?b + t)" "file_byte s n i = dev s (unat ?b + t)"
      by (simp_all add: file_byte_def fw(4) assms(6))
    then show ?thesis using q by (simp add: wrbytes_def)
  next
    case False
    then have "?c \<noteq> ?b" using file_okD(4) [OF assms(2)] i assms(3) by (simp add: nth_eq_iff_index_eq)
    moreover have "owned s ?c" using file_okD(3) [OF assms(2)] i by (simp add: list_all_length)
    ultimately have "same_block (dev s) (dev s') ?c" using keptD(5) [OF fw(1)] by simp
    then have "file_byte s' n i = file_byte s n i" by (simp add: file_byte_def fw(4) same_block_def)
    moreover have "\<not> (off \<le> i \<and> i < off + length bs)"
    proof
      assume i: "off \<le> i \<and> i < off + length bs"
      then have "off mod 4096 + (i - off) < 4096" using assms(4) by linarith
      then have "(off + (i - off)) div 4096 = off div 4096" by (rule within_block)
      then show False using False i by simp
    qed
    ultimately show ?thesis by auto
  qed
qed

lemma write_loop_writes:
  assumes "fsys_ok s" "file_ok s n" "off + c \<le> BLOCKSIZE * unat (blocks n)" "d + c \<le> length buff" "length buff < 2 ^ 63"
  shows "\<exists>s'. write_loop (of_nat c) (of_nat (off div BLOCKSIZE)) (blocks n) (of_nat d) (of_nat (off mod BLOCKSIZE)) n buff s =
      Some (of_nat (d + c), s') \<and> kept {} (set (addrs s n)) s s' \<and> free_set s' = free_set s \<and> file_ok s' n \<and>
    addrs s' n = addrs s n \<and> (\<forall>i < BLOCKSIZE * unat (blocks n). file_byte s' n i =
      (if off \<le> i \<and> i < off + c then buff ! (d + (i - off)) else file_byte s n i))"
  using assms
proof (induction c arbitrary: off d s rule: less_induct)
  case (less c)
  show ?case
  proof (cases "c = 0")
    case True
    then show ?thesis using less.prems kept_refl by (auto simp: write_loop_done)
  next
    case False
    note f = file_okD [OF less.prems(2)]
    note w = loop_words [OF False less.prems(3) f(2)]
    let ?b = "addrs s n ! (off div 4096)"
    define k where "k = min c (4096 - off mod 4096)"
    define bs where "bs = take k (drop d buff)"
    have k: "k \<le> c" "0 < k" "off mod 4096 + k \<le> 4096" "length bs = k"
      using False less.prems(4) mod_less_divisor [of 4096 off] by (simp_all add: k_def bs_def)
    obtain s1 where g: "get_i_block n (of_nat (off div 4096)) s = (?b, s1)" "only_io s s1" "dev s1 = dev s"
      using get_i_block_file [OF less.prems(1,2) w(1)] by blast
    have ob: "block_ok s ?b" using f(3) w(1) owned_block_ok by (simp add: list_all_length)
    let ?s2 = "s1\<lparr>dev := wrbytes (dev s) (unat ?b + off mod 4096) bs, pos := unat ?b + off mod 4096 + k\<rparr>"
    have wb: "write_block (Some (drop d buff)) ?b (int (off mod 4096)) (of_nat c) s1 = (int k, ?s2)"
      using write_block_in [of s1 ?b "off mod 4096" "drop d buff" "of_nat c"] fsys_okD(3) [OF less.prems(1)]
        ok_dev_only_io [OF g(2)] block_ok_only_io [OF g(2)] ob g(3) w(4) k
      by (simp add: k_def bs_def Let_def)
    have io: "only_io s ?s2" using g(2) by (simp add: only_io_def)
    have dv: "dev ?s2 = wrbytes (dev s) (unat ?b + off mod 4096) bs" by simp
    have out: "\<forall>x. x < unat ?b \<or> unat ?b + 4096 \<le> x \<longrightarrow> dev ?s2 x = dev s x"
      using k by (auto simp: wrbytes_out)
    note fw = file_write [OF less.prems(1,2) w(1) io out]
    note fb = file_byte_write [OF less.prems(1,2) w(1) _ io dv, unfolded k(4), OF k(3)]
    have k2: "kept {} (set (addrs s n)) s ?s2" by (rule kept_mono [OF fw(1)]) (use w(1) in auto)
    have len: "unat (of_nat d :: u64) = d" "\<not> length buff < d" using less.prems(4,5) by (simp_all add: unat_of_nat)
    have tmp: "u64_of_int (int k) = of_nat k" by (simp add: u64_of_int_def)
    have step: "write_loop (of_nat c) (of_nat (off div 4096)) (blocks n) (of_nat d) (of_nat (off mod 4096)) n buff s =
        write_loop (of_nat (c - k)) (of_nat (Suc (off div 4096))) (blocks n) (of_nat (d + k)) 0 n buff ?s2"
    proof -
      have ar: "(of_nat c :: u64) - of_nat k = of_nat (c - k)" "(of_nat (off div 4096) :: u64) + 1 = of_nat (Suc (off div 4096))"
        "(of_nat d :: u64) + of_nat k = of_nat (d + k)" using k(1) by (simp_all add: of_nat_diff)
      show ?thesis
        by (subst write_loop.simps)
          (simp only: w(2,3,6) len g(1) wb tmp ar Let_def prod.case option.sel simp_thms if_True if_False)
    qed
    have bsn: "bs ! j = buff ! (d + j)" if "j < k" for j
      using that k(4) by (simp add: bs_def)
    show ?thesis
    proof (cases "k = c")
      case True
      then show ?thesis using step k2 fw(2-4) fb bsn by (auto simp: write_loop_done)
    next
      case nk: False
      then have kk: "k = 4096 - off mod 4096" using k(1) by (auto simp: k_def min_def split: if_splits)
      note nb = next_block [OF kk]
      have h: "c - k < c" "off + k + (c - k) \<le> 4096 * unat (blocks n)" "d + k + (c - k) \<le> length buff"
        using k less.prems False by simp_all
      obtain s' where ih: "write_loop (of_nat (c - k)) (of_nat (Suc (off div 4096))) (blocks n) (of_nat (d + k)) 0 n buff ?s2 =
          Some (of_nat (d + k + (c - k)), s')" "kept {} (set (addrs ?s2 n)) ?s2 s'" "free_set s' = free_set ?s2" "file_ok s' n"
        "addrs s' n = addrs ?s2 n" "\<forall>i < 4096 * unat (blocks n). file_byte s' n i =
          (if off + k \<le> i \<and> i < off + k + (c - k) then buff ! (d + k + (i - (off + k))) else file_byte ?s2 n i)"
        using less.IH [OF h(1) keptD(2) [OF k2] fw(3) h(2,3) less.prems(5)] unfolding nb by auto
      have "kept {} (set (addrs s n)) s s'" using kept_trans [OF k2 ih(2)] fw(4) by simp
      moreover have "file_byte s' n i = (if off \<le> i \<and> i < off + c then buff ! (d + (i - off)) else file_byte s n i)"
        if "i < 4096 * unat (blocks n)" for i
        using ih(6) that fb [OF that] bsn [of "i - off"] k(1) by auto
      ultimately show ?thesis using step ih(1,3-5) fw(2,4) k(1) by simp
    qed
  qed
qed

section \<open>Growing\<close>

definition blocks_needed :: "node \<Rightarrow> nat \<Rightarrow> nat" where
  "blocks_needed n k =
     (if k \<le> unat (blocks n) then 0
      else k - unat (blocks n) + (if 12 < k \<and> indirect_blocks n = 0 then 1 else 0))"

lemma kept_only_owned:
  assumes "kept A B s s'" "\<And>b. b \<in> B \<Longrightarrow> owned s b \<Longrightarrow> b \<in> C"
  shows "kept A C s s'"
  using assms by (auto simp: kept_def)

text \<open>What growing a file leaves: more blocks at its end, and its bytes where they were.\<close>

definition grown :: "u64 \<Rightarrow> node \<Rightarrow> fs \<Rightarrow> node \<Rightarrow> fs \<Rightarrow> bool" where
  "grown a n s n' s' \<longleftrightarrow>
     kept {a} {indirect_blocks n} s s' \<and> file_ok s' n' \<and>
     (\<exists>bs. addrs s' n' = addrs s n @ bs \<and> set bs \<subseteq> free_set s) \<and>
     (indirect_blocks n' = indirect_blocks n \<or> indirect_blocks n' \<in> free_set s) \<and>
     (\<exists>ds ib k. n' = n\<lparr>direct_blocks := ds, indirect_blocks := ib, blocks := k\<rparr>)"

lemma grown_refl: "fsys_ok s \<Longrightarrow> file_ok s n \<Longrightarrow> grown a n s n s"
proof -
  have "n = n\<lparr>direct_blocks := direct_blocks n, indirect_blocks := indirect_blocks n, blocks := blocks n\<rparr>" by simp
  then have "\<exists>ds ib k. n = n\<lparr>direct_blocks := ds, indirect_blocks := ib, blocks := k\<rparr>" by blast
  moreover assume "fsys_ok s" "file_ok s n"
  ultimately show ?thesis using kept_refl by (auto simp: grown_def)
qed

lemma grown_trans:
  assumes "grown a n s n1 s1" "grown a n1 s1 n2 s2" "free_set s1 \<subseteq> free_set s"
  shows "grown a n s n2 s2"
proof -
  note g1 = assms(1)[unfolded grown_def] and g2 = assms(2)[unfolded grown_def]
  have "kept {a} ({indirect_blocks n} \<union> {indirect_blocks n1}) s s2" 
    using kept_trans [of "{a}" "{indirect_blocks n}" s s1 "{a}" "{indirect_blocks n1}" s2] g1 g2 by simp
  then have "kept {a} {indirect_blocks n} s s2"
    by (rule kept_only_owned) (use g1 fresh_not_owned in auto)
  moreover obtain bs cs where "addrs s1 n1 = addrs s n @ bs" "set bs \<subseteq> free_set s" "addrs s2 n2 = addrs s1 n1 @ cs"
    "set cs \<subseteq> free_set s1" using g1 g2 by blast
  then have "addrs s2 n2 = addrs s n @ bs @ cs" "set (bs @ cs) \<subseteq> free_set s" using assms(3) by auto
  then have "\<exists>bs. addrs s2 n2 = addrs s n @ bs \<and> set bs \<subseteq> free_set s" by blast
  moreover have "indirect_blocks n2 = indirect_blocks n \<or> indirect_blocks n2 \<in> free_set s" using g1 g2 assms(3) by auto
  moreover have "\<exists>ds ib k. n2 = n\<lparr>direct_blocks := ds, indirect_blocks := ib, blocks := k\<rparr>"
  proof -
    obtain ds ib k where "n1 = n\<lparr>direct_blocks := ds, indirect_blocks := ib, blocks := k\<rparr>" using g1 by blast
    moreover obtain ds ib k where "n2 = n1\<lparr>direct_blocks := ds, indirect_blocks := ib, blocks := k\<rparr>" using g2 by blast
    ultimately show ?thesis by auto
  qed
  ultimately show ?thesis using g2 unfolding grown_def by blast
qed

lemma grow_step:
  assumes "fsys_ok s" "file_ok s n" "inode_slot s a" "unat (blocks n) < k" "k \<le> 524" "blocks_needed n k \<le> card (free_set s)"
  shows "\<exists>b n' s'. add_block_to_node n a s = (b, n', s') \<and> b \<noteq> 0 \<and> grown a n s n' s' \<and> blocks n' = blocks n + 1 \<and>
    unat (blocks n') = Suc (unat (blocks n)) \<and> free_set s' \<subseteq> free_set s \<and> blocks_needed n' k \<le> card (free_set s')"
proof -
  obtain b n' s' where r: "add_block_to_node n a s = (b, n', s')" by (metis prod_cases3)
  have "card (free_set s) \<ge> (if 12 \<le> unat (blocks n) \<and> indirect_blocks n = 0 then 2 else 1)"
    using assms(4,6) by (auto simp: blocks_needed_def split: if_splits)
  then obtain B where "appended n a s (b, n', s') B"
    using add_block_ok [OF assms(1-3), unfolded r] assms(4,5) by auto
  then have ap: "b \<in> B" "B \<subseteq> free_set s" "kept {a} {indirect_blocks n} s s'"
    "file_ok s' n'" "addrs s' n' = addrs s n @ [b]" "free_set s' = free_set s - B"
    and n': "\<exists>ds ib. n' = n\<lparr>direct_blocks := ds, indirect_blocks := ib, blocks := blocks n + 1\<rparr> \<and>
       (ib = indirect_blocks n \<and> B = {b} \<or> indirect_blocks n = 0 \<and> 12 \<le> unat (blocks n) \<and> B = {b, ib})"
    unfolding appended_def prod.case by blast+
  obtain ds ib where n: "n' = n\<lparr>direct_blocks := ds, indirect_blocks := ib, blocks := blocks n + 1\<rparr>"
    "ib = indirect_blocks n \<and> B = {b} \<or> indirect_blocks n = 0 \<and> 12 \<le> unat (blocks n) \<and> B = {b, ib}" using n' by blast
  have bl: "blocks n' = blocks n + 1" "unat (blocks n') = Suc (unat (blocks n))" "indirect_blocks n' = ib"
    using n(1) blocks_Suc [of "blocks n"] assms(4,5) by simp_all
  have "owned s' b" using file_okD(3) [OF ap(4)] ap(5) by simp
  then have b0: "b \<noteq> 0" by (rule owned_nonzero)
  have g: "grown a n s n' s'" using ap n unfolding grown_def by auto
  have cB: "card (free_set s') = card (free_set s) - card B"
    using ap(2,6) by (metis card_Diff_subset finite_subset pool.finite_avail)
  have "blocks_needed n' k \<le> card (free_set s')"
  proof (cases "ib = indirect_blocks n \<and> B = {b}")
    case True
    then show ?thesis using assms(4,6) cB bl by (auto simp: blocks_needed_def split: if_splits)
  next
    case False
    then have i: "indirect_blocks n = 0" "12 \<le> unat (blocks n)" "B = {b, ib}" using n(2) by auto
    then have "ib \<noteq> 0" using file_okD(7) [OF ap(4)] bl by simp
    moreover have "card B \<le> 2" using i(3) by (simp add: card_insert_if)
    ultimately show ?thesis using assms(4,6) cB bl i(1,2) by (auto simp: blocks_needed_def split: if_splits)
  qed
  then show ?thesis using r b0 g bl(1,2) ap(6) by blast
qed

lemma grow_loop_ok:
  assumes "fsys_ok s" "file_ok s n" "inode_slot s a" "unat f \<le> 524" "blocks_needed n (unat f) \<le> card (free_set s)"
  shows "\<exists>n' s'. grow_loop (blocks n) f n a s = (n', s') \<and> grown a n s n' s' \<and> unat (blocks n') = max (unat f) (unat (blocks n))"
  using assms
proof (induction "unat f - unat (blocks n)" arbitrary: n s)
  case 0
  then have "\<not> blocks n < f" by (simp add: word_less_nat_alt)
  then show ?case using 0 grown_refl by (subst grow_loop.simps) auto
next
  case (Suc d)
  then have lt: "blocks n < f" "unat (blocks n) < unat f" by (simp_all add: word_less_nat_alt)
  obtain b n1 s1 where st: "add_block_to_node n a s = (b, n1, s1)" "b \<noteq> 0" "grown a n s n1 s1" "blocks n1 = blocks n + 1"
    "unat (blocks n1) = Suc (unat (blocks n))" "free_set s1 \<subseteq> free_set s" "blocks_needed n1 (unat f) \<le> card (free_set s1)"
    using grow_step [OF Suc.prems(1-3) lt(2) Suc.prems(4,5)] by blast
  have k: "fsys_ok s1" "file_ok s1 n1" "inode_slot s1 a"
    using st(3) keptD(1,2) inode_slot_only_io Suc.prems(3) unfolding grown_def by blast+
  have "d = unat f - unat (blocks n1)" using Suc.hyps(2) st(5) by simp
  then obtain n' s' where ih: "grow_loop (blocks n1) f n1 a s1 = (n', s')" "grown a n1 s1 n' s'"
    "unat (blocks n') = max (unat f) (unat (blocks n1))"
    using Suc.hyps(1) [OF _ k Suc.prems(4) st(7)] by blast
  have "grow_loop (blocks n) f n a s = (n', s')"
    using lt(1) st(1,2,4) ih(1) by (subst grow_loop.simps) simp
  then show ?case using grown_trans [OF st(3) ih(2) st(6)] ih(3) st(5) lt(2) by (auto simp: max_def)
qed

lemma grown_bytes:
  assumes "grown a n s n' s'" "file_ok s n" "i < BLOCKSIZE * unat (blocks n)"
  shows "file_byte s' n' i = file_byte s n i"
proof -
  have i: "i div 4096 < unat (blocks n)" using assms(3) by (simp add: less_mult_imp_div_less mult.commute)
  let ?b = "addrs s n ! (i div 4096)"
  have "addrs s' n' ! (i div 4096) = ?b" using assms(1) i by (auto simp: grown_def nth_append)
  moreover have "owned s ?b" "?b \<in> set (addrs s n)" using file_okD(3) [OF assms(2)] i by (simp_all add: list_all_length)
  then have "same_block (dev s) (dev s') ?b"
    using assms(1) file_okD(6) [OF assms(2)] owned_nonzero keptD(5) by (fastforce simp: grown_def)
  ultimately show ?thesis by (simp add: file_byte_def same_block_def)
qed

section \<open>Files\<close>

definition contents :: "fs \<Rightarrow> u64 \<Rightarrow> bytes" where
  "contents s a = file_data s (get_node s a) 0 (unat (n_size (get_node s a)))"

definition own_blocks :: "fs \<Rightarrow> u64 \<Rightarrow> u64 set" where
  "own_blocks s a = set (addrs s (get_node s a)) \<union> ({indirect_blocks (get_node s a)} - {0})"

text \<open>A path to a file whose blocks hold its bytes and are no blocks of the directories above it.\<close>

definition file_at :: "fs \<Rightarrow> bytes \<Rightarrow> u64 \<Rightarrow> bool" where
  "file_at s path a \<longleftrightarrow>
     leads s path a \<and> a \<noteq> 0 \<and> file_ok s (get_node s a) \<and>
     unat (n_size (get_node s a)) \<le> BLOCKSIZE * unat (blocks (get_node s a)) \<and>
     on_way s (\<lambda>d. d \<noteq> a \<and> own_blocks s a \<inter> own_blocks s d = {}) (path_names path) (root_node s)"

definition overwrite :: "nat \<Rightarrow> bytes \<Rightarrow> bytes \<Rightarrow> bytes" where
  "overwrite off bs xs = take off xs @ bs @ drop (off + length bs) xs"

lemma length_overwrite: "off \<le> length xs \<Longrightarrow> length (overwrite off bs xs) = max (off + length bs) (length xs)"
  by (auto simp: overwrite_def)

lemma nth_overwrite:
  "off \<le> length xs \<Longrightarrow> i < max (off + length bs) (length xs) \<Longrightarrow>
   overwrite off bs xs ! i = (if off \<le> i \<and> i < off + length bs then bs ! (i - off) else xs ! i)"
  by (auto simp: overwrite_def nth_append min_def)

lemma length_contents [simp]: "length (contents s a) = unat (n_size (get_node s a))"
  by (simp add: contents_def)

lemma nth_contents: "i < unat (n_size (get_node s a)) \<Longrightarrow> contents s a ! i = file_byte s (get_node s a) i"
  by (simp add: contents_def file_data_def)

lemma take_file_data: "take k (drop a (file_data s n 0 m)) = file_data s n a (min k (m - a))"
  by (rule nth_equalityI) (auto simp: file_data_def)

lemma offset_words:
  shows "u64_of_int (int off) = of_nat off" "u64_of_int (int off sdiv 4096) = of_nat (off div 4096)"
    "u64_of_int (int off smod 4096) = of_nat (off mod 4096)"
proof -
  have q: "int off sdiv 4096 = int (off div 4096)" by (cases "off = 0") (simp_all add: signed_divide_int_def zdiv_int)
  have "int off smod 4096 = int (off mod 4096)"
    by (cases "off = 0") (simp_all add: signed_modulo_int_def zmod_int)
  then show "u64_of_int (int off) = of_nat off" "u64_of_int (int off sdiv 4096) = of_nat (off div 4096)"
    "u64_of_int (int off smod 4096) = of_nat (off mod 4096)" unfolding q by (simp_all add: u64_of_int_def)
qed

lemma int_of_u64_small: "k < 2 ^ 31 \<Longrightarrow> int_of_u64 (of_nat k) = int k"
proof -
  assume k: "k < 2 ^ 31"
  have "(ucast (of_nat k :: u64) :: u32) = of_nat k" by (rule bit_word_eqI) (simp add: bit_simps)
  moreover have "sint (of_nat k :: u32) = int k"
    using k by (simp add: signed_of_nat signed_take_bit_int_eq_self)
  ultimately show ?thesis by (simp add: int_of_u64_def)
qed

section \<open>Reading a file\<close>

lemma file_atD:
  assumes "file_at s path a"
  shows "leads s path a" "a \<noteq> 0" "fsys_ok s" "inode_slot s a" "file_ok s (get_node s a)"
    "unat (n_size (get_node s a)) \<le> BLOCKSIZE * unat (blocks (get_node s a))"
    "unat (n_size (get_node s a)) \<le> 2146304"
proof -
  show l: "leads s path a" "a \<noteq> 0" "fsys_ok s" and f: "file_ok s (get_node s a)"
    and z: "unat (n_size (get_node s a)) \<le> BLOCKSIZE * unat (blocks (get_node s a))"
    using assms by (simp_all add: file_at_def leads_def)
  show "inode_slot s a" using slot_walk_resolve [of s "path_names path" "root_node s"] l(1,2) by (auto simp: leads_def)
  show "unat (n_size (get_node s a)) \<le> 2146304" using z file_okD(2) [OF f] by simp
qed

text \<open>Storing new attributes of a file leaves its blocks and bytes alone.\<close>

lemma store_file:
  assumes "fsys_ok s" "inode_slot s a" "file_ok s n" "wf_node n'" "same_map n (n'\<lparr>n_size := n_size n\<rparr>)" "s' = store_node n' a s"
  shows "kept {a} {} s s'" "get_node s' a = n'" "free_set s' = free_set s" "addrs s' n' = addrs s n" "file_ok s' n'"
    "\<And>i. i < BLOCKSIZE * unat (blocks n) \<Longrightarrow> file_byte s' n' i = file_byte s n i"
proof -
  note st = store_kept [OF assms(1,2,4), folded assms(6)] and f = file_okD [OF assms(3)]
  show "kept {a} {} s s'" "get_node s' a = n'" "free_set s' = free_set s" by (rule st)+
  have m: "blocks n' = blocks n" "direct_blocks n' = direct_blocks n" "indirect_blocks n' = indirect_blocks n"
    "dbl_indirect n' = dbl_indirect n" "trpl_indirect n' = trpl_indirect n" using assms(5) by (simp_all add: same_map_def)
  have "addrs s' n' = addrs s' n" by (rule addrs_cong) (rule m)+
  then show a: "addrs s' n' = addrs s n" using addrs_kept [OF assms(3) st(1)] by simp
  have "file_ok s' n' = file_ok s' n" by (rule file_ok_cong) (rule m)+
  then show "file_ok s' n'" using file_ok_kept [OF assms(3) st(1)] by simp
  show "file_byte s' n' i = file_byte s n i" if "i < BLOCKSIZE * unat (blocks n)" for i
  proof -
    have "i div 4096 < unat (blocks n)" using that by (simp add: less_mult_imp_div_less mult.commute)
    then have "owned s (addrs s n ! (i div 4096))" using f(3) by (simp add: list_all_length)
    then show ?thesis using keptD(5) [OF st(1)] a by (simp add: file_byte_def same_block_def)
  qed
qed

text \<open>A read returns the bytes of the file from its offset on, as many as there are and fit.\<close>

lemma read_file:
  assumes "file_at s path a" "off < length (contents s a)" "length buff < 2 ^ 62"
    and "k = min (length buff) (length (contents s a) - off)"
  shows "\<exists>s'. tfs_read path buff (of_nat (length buff)) (int off) s =
    Some (int k, take k (drop off (contents s a)) @ drop k buff, s')"
proof -
  note f = file_atD [OF assms(1)]
  let ?n = "get_node s a"
  obtain s1 m s2 s3 where ld: "find_path_node path s = Some (a, s1)" "uninit_node s1 = (m, s2)"
    "load_node a m s2 = (?n, s3)" "only_io s s3" "dev s3 = dev s" by (rule leads_load [OF f(1,2)])
  obtain t s4 where t: "get_current_time_in_nsec s3 = (t, s4)" by fastforce
  have io: "only_io s s4" "dev s4 = dev s" using only_io_trans [OF ld(4)] only_io_time [OF t] ld(5) by auto
  let ?n1 = "?n\<lparr>access_time := t\<rparr>"
  let ?s5 = "store_node ?n1 a s4"
  have v: "fsys_ok s4" "inode_slot s4 a" "file_ok s4 ?n"
    using keptD(2) [OF kept_same_dev [OF f(3) io]] f(4,5) inode_slot_only_io [OF io(1)] same_dev_views(4) [OF io] by simp_all
  have st: "wf_node ?n1" "same_map ?n (?n1\<lparr>n_size := n_size ?n\<rparr>)" by (simp_all add: same_map_def)
  note sf = store_file [OF v st refl]
  have len: "off + k \<le> 4096 * unat (blocks ?n1)" "0 + k \<le> length buff" "length buff < 2 ^ 63" "off < 2 ^ 62" "k \<le> 2146304"
    using assms(2-4) f(6,7) by simp_all
  obtain s6 where rl: "read_loop (of_nat k) (of_nat (off div 4096)) (blocks ?n1) 0 (of_nat (off mod 4096)) ?n1 buff ?s5 =
      Some (of_nat k, file_data ?s5 ?n1 off k @ drop k buff, s6)"
    using read_loop_reads [OF keptD(2) [OF sf(1)] sf(5) len(1-3)] by auto
  have fb: "file_byte s4 ?n i = file_byte s ?n i" for i
    by (simp add: file_byte_def io(2) same_dev_views(2) [OF io])
  have "file_data ?s5 ?n1 off k = file_data s ?n off k"
    unfolding file_data_def by (rule map_cong [OF refl]) (use len(1) in \<open>simp add: sf(6) fb\<close>)
  also have "\<dots> = take k (drop off (contents s a))"
    unfolding contents_def by (subst take_file_data) (use assms(4) in \<open>simp add: min_def\<close>)
  finally have fd: "file_data ?s5 ?n1 off k = take k (drop off (contents s a))" .
  have bc: "(if u64_of_int (int off) + of_nat (length buff) > n_size ?n then n_size ?n - u64_of_int (int off)
      else of_nat (length buff)) = (of_nat k :: u64)"
  proof -
    have z: "of_nat (unat (n_size ?n)) = n_size ?n" by simp
    have "unat (of_nat off + of_nat (length buff) :: u64) = off + length buff"
      using assms(3) len(4) by (simp add: unat_of_nat flip: of_nat_add)
    then have "n_size ?n < of_nat off + of_nat (length buff) \<longleftrightarrow> unat (n_size ?n) < off + length buff"
      by (simp add: word_less_nat_alt)
    moreover have "n_size ?n - of_nat off = of_nat (unat (n_size ?n) - off)"
      using assms(2) by (simp add: of_nat_diff)
    moreover have "k = (if unat (n_size ?n) < off + length buff then unat (n_size ?n) - off else length buff)"
      using assms(2,4) by auto
    ultimately show ?thesis by (simp add: offset_words(1))
  qed
  have out: "\<not> n_size ?n \<le> u64_of_int (int off)"
    using assms(2) len(4) by (simp add: offset_words(1) word_le_nat_alt unat_of_nat)
  have "tfs_read path buff (of_nat (length buff)) (int off) s = Some (int k, take k (drop off (contents s a)) @ drop k buff, s6)"
    unfolding tfs_read_def ld(1) Option.bind.bind_lunit prod.case Let_def if_not_P [OF f(2)] ld(2,3) t bc
    using out rl fd int_of_u64_small [of k] len(5) by (simp add: offset_words)
  then show ?thesis by blast
qed

section \<open>Writing a file\<close>

abbreviation blocks_for :: "nat \<Rightarrow> nat" where
  "blocks_for k \<equiv> (k + (BLOCKSIZE - 1)) div BLOCKSIZE"

lemma blocks_for:
  assumes "k \<le> BLOCKSIZE * 524"
  shows "k \<le> BLOCKSIZE * blocks_for k" "blocks_for k \<le> 524"
    "unat ((of_nat k :: u64) div 4096 + (if (of_nat k :: u64) mod 4096 = 0 then 0 else 1)) = blocks_for k"
proof -
  obtain q r where k: "k = 4096 * q + r" "r < 4096"
  proof
    show "k = 4096 * (k div 4096) + k mod 4096" "k mod 4096 < 4096" by simp_all
  qed
  have q: "blocks_for k = q + (if r = 0 then 0 else 1)" by (rule div_nat_eqI) (use k in simp_all)
  show "k \<le> BLOCKSIZE * blocks_for k" "blocks_for k \<le> 524" using k assms by (simp_all add: q)
  have d: "(of_nat k :: u64) div 4096 = of_nat q" "(of_nat k :: u64) mod 4096 = of_nat r"
    using u64_div [of k 4096] u64_mod [of k 4096] k assms by simp_all
  have "unat (of_nat r :: u64) = r" using k(2) by (simp add: unat_of_nat)
  then have "(of_nat r :: u64) = 0 \<longleftrightarrow> r = 0" using u64_eq_unat [of "of_nat r" 0] by (simp only: unat_0)
  moreover have u: "unat (of_nat x :: u64) = x" if "x \<le> 525" for x using that by (simp add: unat_of_nat)
  moreover have "(of_nat q :: u64) + (if r = 0 then 0 else 1) = of_nat (q + (if r = 0 then 0 else 1))" by simp
  moreover have "unat (of_nat (q + (if r = 0 then 0 else 1)) :: u64) = q + (if r = 0 then 0 else 1)"
    by (rule u) (use k assms in simp)
  ultimately show "unat ((of_nat k :: u64) div 4096 + (if (of_nat k :: u64) mod 4096 = 0 then 0 else 1)) = blocks_for k"
    unfolding d q by (simp only:)
qed

lemma grow_file:
  assumes "fsys_ok s" "file_ok s n" "inode_slot s a" "unat (n_size n) \<le> BLOCKSIZE * unat (blocks n)"
    and "k \<le> BLOCKSIZE * 524" "blocks_needed n (blocks_for k) \<le> card (free_set s)"
  shows "\<exists>n' s'. (if of_nat k > n_size n then
      let final_blocks = of_nat k div 4096 + (if (of_nat k :: u64) mod 4096 = 0 then 0 else 1)
      in grow_loop (blocks n) final_blocks n a s else (n, s)) = (n', s') \<and>
    grown a n s n' s' \<and> k \<le> BLOCKSIZE * unat (blocks n')"
proof (cases "of_nat k > n_size n")
  case True
  note b = blocks_for [OF assms(5)]
  obtain n' s' where "grow_loop (blocks n) (of_nat k div 4096 + (if (of_nat k :: u64) mod 4096 = 0 then 0 else 1)) n a s = (n', s')"
    "grown a n s n' s'" "unat (blocks n') = max (blocks_for k) (unat (blocks n))"
    using grow_loop_ok [OF assms(1-3), of "of_nat k div 4096 + (if (of_nat k :: u64) mod 4096 = 0 then 0 else 1)", unfolded b(3), OF b(2) assms(6)]
    by blast
  moreover have "4096 * blocks_for k \<le> 4096 * max (blocks_for k) (unat (blocks n))" by simp
  ultimately show ?thesis using True b(1) by (auto simp: Let_def)
next
  case False
  have "unat (of_nat k :: u64) = k" using assms(5) by (simp add: unat_of_nat)
  then have "k \<le> 4096 * unat (blocks n)" using False assms(4) by (simp add: word_less_nat_alt)
  then show ?thesis using False grown_refl [OF assms(1,2)] by auto
qed

lemma own_blocks_owned: "file_ok s (get_node s a) \<Longrightarrow> b \<in> own_blocks s a \<Longrightarrow> owned s b"
  using file_okD(3,5) [of s "get_node s a"] by (auto simp: own_blocks_def list_all_iff)

lemma grown_blocks: "grown a n s n' s' \<Longrightarrow> unat (blocks n) \<le> unat (blocks n')"
  unfolding grown_def by (metis le_add1 length_addrs length_append)

text \<open>
  The state after a write: the contents are overwritten, and nothing outside the file changes.
\<close>

lemma write_file:
  assumes "file_at s path a" "off \<le> length (contents s a)" "off + length buff \<le> BLOCKSIZE * 524"
    and "blocks_needed (get_node s a) (blocks_for (off + length buff)) \<le> card (free_set s)"
  shows "\<exists>s'. tfs_write path buff (of_nat (length buff)) (int off) s = Some (int (length buff), s') \<and>
    contents s' a = overwrite off buff (contents s a) \<and> kept {a} (own_blocks s a) s s' \<and> file_at s' path a"
proof -
  note f = file_atD [OF assms(1)]
  let ?n = "get_node s a" and ?l = "length buff"
  obtain s1 m s2 s3 where ld: "find_path_node path s = Some (a, s1)" "uninit_node s1 = (m, s2)"
    "load_node a m s2 = (?n, s3)" "only_io s s3" "dev s3 = dev s" by (rule leads_load [OF f(1,2)])
  obtain t s4 where t: "get_current_time_in_nsec s3 = (t, s4)" by fastforce
  have io: "only_io s s4" "dev s4 = dev s" using only_io_trans [OF ld(4)] only_io_time [OF t] ld(5) by auto
  have k4: "kept {} {} s s4" by (rule kept_same_dev [OF f(3) io])
  let ?n1 = "?n\<lparr>data_time := t, change_time := t\<rparr>"
  define s5 where "s5 = store_node ?n1 a s4"
  have v: "fsys_ok s4" "inode_slot s4 a" "file_ok s4 ?n"
    using keptD(2) [OF k4] f(4,5) inode_slot_only_io [OF io(1)] same_dev_views(4) [OF io] by simp_all
  have fb4: "file_byte s4 ?n i = file_byte s ?n i" for i
    by (simp add: file_byte_def io(2) same_dev_views(2) [OF io])
  have "wf_node ?n1" "same_map ?n (?n1\<lparr>n_size := n_size ?n\<rparr>)" by (simp_all add: same_map_def)
  note s5 = store_file [OF v this s5_def]
  have fr: "free_set s5 = free_set s" using s5(3) fl_same_dev [OF io] by simp
  have bn: "blocks_needed ?n1 k = blocks_needed ?n k" for k by (simp add: blocks_needed_def)
  have "inode_slot s5 a" "unat (n_size ?n1) \<le> 4096 * unat (blocks ?n1)"
    "blocks_needed ?n1 (blocks_for (off + ?l)) \<le> card (free_set s5)"
    using v(2) inode_slot_only_io [OF keptD(1) [OF s5(1)]] f(6) assms(4) fr bn by simp_all
  then obtain n2 s6 where g: "(if of_nat (off + ?l) > n_size ?n1 then
      let final_blocks = of_nat (off + ?l) div 4096 + (if (of_nat (off + ?l) :: u64) mod 4096 = 0 then 0 else 1)
      in grow_loop (blocks ?n1) final_blocks ?n1 a s5 else (?n1, s5)) = (n2, s6)"
    "grown a ?n1 s5 n2 s6" "off + ?l \<le> 4096 * unat (blocks n2)"
    using grow_file [OF keptD(2) [OF s5(1)] s5(5) _ _ assms(3)] by blast
  have g6: "kept {a} {indirect_blocks ?n1} s5 s6" "file_ok s6 n2" using g(2) by (simp_all add: grown_def)
  obtain s7 where w: "write_loop (of_nat ?l) (of_nat (off div 4096)) (blocks n2) 0 (of_nat (off mod 4096)) n2 buff s6 = Some (of_nat ?l, s7)"
    "kept {} (set (addrs s6 n2)) s6 s7" "free_set s7 = free_set s6" "file_ok s7 n2" "addrs s7 n2 = addrs s6 n2"
    "\<And>i. i < 4096 * unat (blocks n2) \<Longrightarrow> file_byte s7 n2 i =
      (if off \<le> i \<and> i < off + ?l then buff ! (i - off) else file_byte s6 n2 i)"
    using write_loop_writes [OF keptD(2) [OF g6(1)] g6(2) g(3), of 0 buff] assms(3) by auto
  define z where "z = max (unat (n_size ?n)) (off + ?l)"
  have z: "unat (of_nat z :: u64) = z" using assms(3) f(7) by (simp add: z_def unat_of_nat)
  have nz: "(if n_size ?n > u64_of_int (int off) + of_nat ?l then n_size ?n else u64_of_int (int off) + of_nat ?l) = (of_nat z :: u64)"
  proof -
    have "unat (of_nat off + of_nat ?l :: u64) = off + ?l" using assms(3) by (simp add: unat_of_nat flip: of_nat_add)
    then have "of_nat off + of_nat ?l < n_size ?n \<longleftrightarrow> off + ?l < unat (n_size ?n)" by (simp add: word_less_nat_alt)
    then show ?thesis by (auto simp: offset_words(1) z_def max_def)
  qed
  let ?n3 = "n2\<lparr>n_size := of_nat z\<rparr>"
  define s8 where "s8 = store_node ?n3 a s7"
  have k57: "kept {a} ({indirect_blocks ?n} \<union> set (addrs s6 n2)) s5 s7" using kept_trans [OF g6(1) w(2)] by simp
  have k47: "kept {a} ({indirect_blocks ?n} \<union> set (addrs s6 n2)) s s7"
    using kept_trans [OF kept_trans [OF k4 s5(1)] k57] by simp
  have v7: "fsys_ok s7" "inode_slot s7 a" "wf_node ?n3" "same_map n2 (?n3\<lparr>n_size := n_size n2\<rparr>)"
    using keptD(2) [OF k47] f(4) inode_slot_only_io [OF keptD(1) [OF k47]] file_okD(1) [OF w(4)]
    by (simp_all add: wf_node_def same_map_def)
  note s8 = store_file [OF v7(1,2) w(4) v7(3,4) s8_def]
  have sz: "n_size n2 = n_size ?n" "blocks ?n3 = blocks n2" using g(2) by (auto simp: grown_def)
  have tw: "tfs_write path buff (of_nat ?l) (int off) s = Some (int ?l, s8)"
  proof -
    have gc: "of_nat ?l + u64_of_int (int off) = (of_nat (off + ?l) :: u64)" by (simp add: offset_words(1))
    have n1: "?n\<lparr>data_time := t, change_time := data_time (?n\<lparr>data_time := t\<rparr>)\<rparr> = ?n1"
      "n_size ?n1 = n_size ?n" "blocks ?n1 = blocks ?n" by simp_all
    show ?thesis
      unfolding tfs_write_def ld(1) Option.bind.bind_lunit prod.case Let_def if_not_P [OF f(2)] ld(2,3) t gc
        n1(1) s5_def [symmetric] g(1) [unfolded n1(2,3) Let_def] offset_words(2,3) w(1) nz
      using int_of_u64_small [of ?l] assms(3) by (simp add: s8_def)
  qed
  have bytes: "file_byte s8 ?n3 i = (if off \<le> i \<and> i < off + ?l then buff ! (i - off) else file_byte s ?n i)"
    if "i < z" for i
  proof -
    have i: "i < unat (n_size ?n) \<or> off \<le> i \<and> i < off + ?l" using that assms(2) by (auto simp: z_def)
    have le: "unat (blocks ?n) \<le> unat (blocks n2)" using grown_blocks [OF g(2)] by simp
    have i2: "i < 4096 * unat (blocks n2)" using i g(3) f(6) mult_le_mono2 [OF le, of 4096] by linarith
    have "file_byte s6 n2 i = file_byte s ?n i" if "i < unat (n_size ?n)"
      using that f(6) grown_bytes [OF g(2) s5(5), of i] s5(6) [of i] fb4 by simp
    then show ?thesis using s8(6) [OF i2] w(6) [OF i2] i by auto
  qed
  have co: "contents s8 a = overwrite off buff (contents s a)"
  proof (rule nth_equalityI)
    show len: "length (contents s8 a) = length (overwrite off buff (contents s a))"
      using assms(2) z by (simp add: length_overwrite s8(2) z_def max.commute)
    fix i assume "i < length (contents s8 a)"
    then have "i < z" by (simp add: s8(2) z)
    then show "contents s8 a ! i = overwrite off buff (contents s a) ! i"
      using bytes [of i] assms(2) nth_overwrite [of off "contents s a" i buff] z
      by (auto simp: nth_contents s8(2) z_def max.commute)
  qed
  obtain bs where bs: "addrs s6 n2 = addrs s ?n @ bs" "set bs \<subseteq> free_set s"
    using g(2) s5(4) same_dev_views(2) [OF io] fr by (auto simp: grown_def)
  have k: "kept {a} (own_blocks s a) s s8"
  proof (rule kept_only_owned)
    show "kept {a} ({indirect_blocks ?n} \<union> set (addrs s6 n2)) s s8" using kept_trans [OF k47 s8(1)] by simp
    show "b \<in> own_blocks s a" if "b \<in> {indirect_blocks ?n} \<union> set (addrs s6 n2)" "owned s b" for b
      using that bs fresh_not_owned owned_nonzero by (auto simp: own_blocks_def)
  qed
  have own8: "own_blocks s8 a \<subseteq> own_blocks s a \<union> free_set s"
    using bs g(2) s8(2,4) w(5) fr by (auto simp: own_blocks_def grown_def)
  have "resolve s8 (path_names path) (root_node s) = resolve s (path_names path) (root_node s) \<and>
      walkable s8 (path_names path) (root_node s) \<and> slot_walk s8 (path_names path) (root_node s) \<and>
      on_way s8 (\<lambda>d. d \<noteq> a \<and> own_blocks s8 a \<inter> own_blocks s8 d = {}) (path_names path) (root_node s)"
  proof (rule kept_resolve [OF k, where P = "\<lambda>d. d \<noteq> a \<and> own_blocks s a \<inter> own_blocks s d = {}"])
    fix d assume d: "inode_slot s d" "dir_ok s (get_node s d)" "d \<noteq> a \<and> own_blocks s a \<inter> own_blocks s d = {}"
    note fd = dir_okD(1) [OF d(2)]
    have g: "get_node s8 d = get_node s d" using keptD(3) [OF k d(1)] d(3) by simp
    have B: "own_blocks s a \<inter> insert (indirect_blocks (get_node s d)) (set (addrs s (get_node s d))) = {}"
      using d(3) own_blocks_owned [OF f(5)] owned_nonzero by (fastforce simp: own_blocks_def [of s d])
    have "own_blocks s8 d = own_blocks s d"
      using addrs_kept [OF fd k] B g by (simp add: own_blocks_def [of _ d])
    moreover have "own_blocks s8 a \<inter> own_blocks s d = {}"
      using own8 d(3) own_blocks_owned [OF fd] fresh_not_owned by blast
    ultimately show "same_map (get_node s d) (get_node s8 d) \<and>
        own_blocks s a \<inter> insert (indirect_blocks (get_node s d)) (set (addrs s (get_node s d))) = {} \<and>
        d \<noteq> a \<and> own_blocks s8 a \<inter> own_blocks s8 d = {}" using g B d(3) by simp
  qed (use assms(1) in \<open>simp_all add: file_at_def leads_def\<close>)
  moreover have "unat (n_size (get_node s8 a)) \<le> 4096 * unat (blocks (get_node s8 a))"
  proof -
    have "z \<le> 4096 * unat (blocks n2)"
      using g(3) f(6) mult_le_mono2 [OF grown_blocks [OF g(2)], of 4096] by (simp add: z_def)
    then show ?thesis by (simp add: s8(2) z)
  qed
  ultimately have "file_at s8 path a"
    using f(1,2) s8(2,5) keptD(1,2) [OF k] inode_slot_only_io only_ioD(3) [OF keptD(1) [OF k]]
    by (simp add: file_at_def leads_def)
  then show ?thesis using tw co k by blast
qed

section \<open>Properties\<close>

text \<open>
  C22. Let the offset be within the file, the bytes end within its first 524 blocks (direct and single
  indirect) and the disk have the blocks needed. A write to the file then returns the number of its
  bytes and overwrites the contents of the file from its offset on, the file growing as needed; no
  other inode and no block of another file or of a directory changes. A read then returns the bytes of the new contents from its own offset,
  as many as there are and fit in its buffer, and leaves the rest of the buffer alone.
\<close>

theorem write_then_read:
  assumes "file_at s path a" "off \<le> length (contents s a)" "off + length buff \<le> BLOCKSIZE * 524"
    and "blocks_needed (get_node s a) (blocks_for (off + length buff)) \<le> card (free_set s)"
    and "off' < length (overwrite off buff (contents s a))" "length buff' < 2 ^ 62"
  shows "\<exists>s1 s2. tfs_write path buff (of_nat (length buff)) (int off) s = Some (int (length buff), s1) \<and>
    contents s1 a = overwrite off buff (contents s a) \<and> kept {a} (own_blocks s a) s s1 \<and> file_at s1 path a \<and>
    (let bs = take (length buff') (drop off' (overwrite off buff (contents s a)))
     in tfs_read path buff' (of_nat (length buff')) (int off') s1 =
          Some (int (length bs), bs @ drop (length bs) buff', s2))"
proof -
  let ?xs = "overwrite off buff (contents s a)"
  let ?k = "min (length buff') (length ?xs - off')"
  obtain s1 where w: "tfs_write path buff (of_nat (length buff)) (int off) s = Some (int (length buff), s1)"
    "contents s1 a = ?xs" "kept {a} (own_blocks s a) s s1" "file_at s1 path a"
    using write_file [OF assms(1-4)] by blast
  obtain s2 where "tfs_read path buff' (of_nat (length buff')) (int off') s1 =
      Some (int ?k, take ?k (drop off' ?xs) @ drop ?k buff', s2)"
    using read_file [OF w(4) _ assms(6) refl, of off'] assms(5) unfolding w(2) by blast
  moreover have "take (length buff') (drop off' ?xs) = take ?k (drop off' ?xs)" by (simp add: min_def)
  moreover have "length (take ?k (drop off' ?xs)) = ?k" by simp
  ultimately show ?thesis using w by (auto simp: Let_def)
qed

text \<open>The file \<open>/a\<close>, just made on a formatted disk.\<close>

lemma fresh_file:
  obtains s s1 where "tfs_mkfs 3 (blank_fs (66 * 4096)) = Some (0, s)" "tfs_mknod [slash, 97] 0x81A4 s = Some (0, s1)"
    "file_at s1 [slash, 97] 4352" "contents s1 4352 = []" "blocks_needed (get_node s1 4352) 1 \<le> card (free_set s1)"
proof (rule format_66)
  fix s assume s: "tfs_mkfs 3 (blank_fs (66 * 4096)) = Some (0, s)" "fsys_ok s" "root_node s = 4096" "inode_slot s 4096"
    "mode (get_node s 4096) \<noteq> 0" "dir_ok s (get_node s 4096)" "entry_count (get_node s 4096) = 2"
    "entries s (get_node s 4096) = [([46], 4096), ([46, 46], 4096)]" "first_free s = 4352"
    "get_node s 4352 = node_of_bytes (replicate 208 0)" "free_set s \<noteq> {}"
  have l: "leads s [] 4096" using s by (simp add: leads_def path_names.simps strtok_def)
  have room: "has_room s (get_node s 4096)" using s(7) by (simp add: has_room_def)
  obtain s1 where m: "tfs_mknod [slash, 97] 0x81A4 s = Some (0, s1)" "created 4096 4352 [97] 0x81A4 s s1"
    using mknod_ok [OF l, of "[97]" "0x81A4"] s room by auto
  have sl: "inode_slot s 4352" using first_free_cases [OF fsys_okD(2) [OF s(2)]] s(9) by simp
  have ld: "leads s1 [slash, 97] 4352"
    by (rule created_leads [of s 4352 "[97]" "0x81A4" s1]) (use m(2) s sl in simp_all)
  obtain t t' where n: "get_node s1 4352 =
      (new_node 0x81A4 (euid s) (egid s) t (node_of_bytes (replicate 208 0)))\<lparr>links := 1, change_time := t'\<rparr>"
    using m(2) s(10) by (auto simp: created_def Let_def)
  have fl: "blocks (get_node s1 4352) = 0" "indirect_blocks (get_node s1 4352) = 0" "n_size (get_node s1 4352) = 0"
    by (simp_all add: n new_node_def node_of_bytes_def)
  have "file_ok s1 (get_node s1 4352)" using fl by (simp add: file_ok_def addrs_def)
  moreover have "own_blocks s1 4352 = {}" using fl by (simp add: own_blocks_def addrs_def)
  moreover have "path_names [slash, 97] = [[97]]" using path_names_join [of "[[97]]"] by simp
  moreover obtain A B where "kept A B s s1" using m(2) unfolding created_def Let_def by blast
  then have "root_node s1 = 4096" using s(3) only_ioD(3) [OF keptD(1)] by simp
  ultimately have fa: "file_at s1 [slash, 97] 4352" using ld fl by (simp add: file_at_def split: option.splits)
  have "free_set s1 = free_set s" using m(2) s(7) by (simp add: created_def Let_def)
  then have "card (free_set s1) > 0" using s(11) by (simp add: card_gt_0_iff pool.finite_avail)
  then have "blocks_needed (get_node s1 4352) 1 \<le> card (free_set s1)" using fl by (simp add: blocks_needed_def)
  moreover have "contents s1 4352 = []" using fl by (simp add: contents_def file_data_def)
  ultimately show thesis using that [OF s(1) m(1) fa] by blast
qed

theorem write_then_read_witness:
  "\<exists>s s1 s2 s3. tfs_mkfs 3 (blank_fs (66 * 4096)) = Some (0, s) \<and> tfs_mknod [slash, 97] 0x81A4 s = Some (0, s1) \<and>
     tfs_write [slash, 97] [104, 105] 2 0 s1 = Some (2, s2) \<and> contents s2 4352 = [104, 105] \<and>
     tfs_read [slash, 97] [0, 0, 0] 3 1 s2 = Some (1, [105, 0, 0], s3)"
proof (rule fresh_file)
  fix s s1 assume s: "tfs_mkfs 3 (blank_fs (66 * 4096)) = Some (0, s)" "tfs_mknod [slash, 97] 0x81A4 s = Some (0, s1)"
    "file_at s1 [slash, 97] 4352" "contents s1 4352 = []" "blocks_needed (get_node s1 4352) 1 \<le> card (free_set s1)"
  have o: "overwrite 0 [104, 105] [] = [104, 105 :: u8]" by (simp add: overwrite_def)
  show ?thesis
    using write_then_read [OF s(3), of 0 "[104, 105]" 1 "[0, 0, 0]"] s(1,2,4,5) by (auto simp: o Let_def)
qed

end
