(* ===== verification/Mkdir_Facts.thy ===== *)
theory Mkdir_Facts
  imports Handler_Facts
begin

unbundle bit_operations_syntax

text \<open>
  What \<^verbatim>\<open>tfs_mkdir\<close> makes, and the resolution of paths through it. The new directory has
  the entries \<open>.\<close> and \<open>..\<close>; the address of \<open>..\<close> is never written (its offset
  \<open>2 * PATH_BOUNDARY - BLOCKSIZE\<close> is negative and \<^verbatim>\<open>write_block\<close> rejects it), so the name
  leads nowhere.
\<close>

section \<open>The block of a new directory\<close>

text \<open>
  The block of a new directory: the name \<open>.\<close> with the address of the directory, and the name \<open>..\<close>
  with the address 0, because \<^verbatim>\<open>tfs_mkdir\<close> writes the parent's address at a negative offset.
\<close>

definition new_dir_block :: "u64 \<Rightarrow> nat \<Rightarrow> mem \<Rightarrow> mem" where
  "new_dir_block c b m =
     wrbytes (wr64 (wrbytes (wrbytes m b (replicate BLOCKSIZE 0)) b [46, 0]) (b + MAX_NAME_LENGTH) c) (b + PATH_BOUNDARY) [46, 46, 0]"

lemma new_dir_block_out: "x < b \<or> b + 4096 \<le> x \<Longrightarrow> new_dir_block c b m x = m x"
  by (auto simp: new_dir_block_def wrbytes_out wr64_out)

lemma new_dir_block_entries:
  "ent (new_dir_block c b m) b = ([46], c)" "valid_ent (new_dir_block c b m) b"
  "ent (new_dir_block c b m) (b + 256) = ([46, 46], 0)" "valid_ent (new_dir_block c b m) (b + 256)"
  "2 \<le> i \<Longrightarrow> i < 16 \<Longrightarrow> new_dir_block c b m (b + 256 * i) = 0"
proof -
  let ?m = "new_dir_block c b m" and ?z = "wrbytes m b (replicate 4096 0)"
  have z: "rdbytes ?m b 2 = [46] @ [0]" "rdbytes ?m (b + 256) 3 = [46, 46] @ [0]"
    by (simp_all add: new_dir_block_def rdbytes_wrbytes_disjoint wr64_def)
  have a: "rd64 ?m (b + 248) = c" "rd64 ?m (b + 256 + 248) = 0"
    by (simp_all add: new_dir_block_def rd64_wrbytes_disjoint rd64_wr64_disjoint rd64_wrbytes_zero)
  have two: "2 = length [46 :: u8] + 1" "3 = length [46 :: u8, 46] + 1" by simp_all
  note e0 = ent_of_bytes [OF z(1) two(1)] and e1 = ent_of_bytes [OF z(2) two(2)]
  show d: "ent ?m b = ([46], c)" "ent ?m (b + 256) = ([46, 46], 0)" using e0(1) e1(1) a by simp_all
  show "valid_ent ?m b" "valid_ent ?m (b + 256)"
    using valid_entI [OF d(1)] valid_entI [OF d(2)] e0(2) e1(2) by simp_all
  show "?m (b + 256 * i) = 0" if "2 \<le> i" "i < 16"
  proof -
    have "?m (b + 256 * i) = ?z (b + 256 * i)" using that by (simp add: new_dir_block_def wrbytes_out wr64_out)
    also have "\<dots> = 0" using that wrbytes_in [of "256 * i" "replicate 4096 0" m b] by simp
    finally show ?thesis .
  qed
qed

definition dir_made :: "u64 \<Rightarrow> u64 \<Rightarrow> fs \<Rightarrow> bool" where
  "dir_made c b s \<longleftrightarrow> dir_ok s (get_node s c) \<and> addrs s (get_node s c) = [b] \<and> indirect_blocks (get_node s c) = 0 \<and>
     entries s (get_node s c) = [([46], c), ([46, 46], 0)]"

lemma init_dir_ok:
  assumes "fsys_ok s" "owned s b" "inode_slot s c" "wf_node d" "indirect_blocks d = 0"
  shows "kept {c} {b} s (init_dir p c b m d s)" "free_set (init_dir p c b m d s) = free_set s"
    "owned (init_dir p c b m d s) b" "dir_made c b (init_dir p c b m d s)"
    "mode (get_node (init_dir p c b m d s) c) = m OR S_IFDIR"
proof -
  note f = fsys_okD [OF assms(1)] and ob = owned_block_ok [OF assms(2)]
  let ?s1 = "s\<lparr>dev := wrbytes (dev s) (unat b) (replicate 4096 0), pos := unat b + 4096\<rparr>"
  let ?t = "clock ?s1 (ticks ?s1)" and ?s2 = "?s1\<lparr>ticks := Suc (ticks ?s1)\<rparr>"
  let ?s3 = "?s2\<lparr>dev := wrbytes (dev ?s2) (unat b) [46, 0], pos := unat b + 2\<rparr>"
  let ?s4 = "?s3\<lparr>dev := wr64 (dev ?s3) (unat b + 248) c, pos := unat b + 256\<rparr>"
  let ?s5 = "?s4\<lparr>dev := new_dir_block c (unat b) (dev s), pos := unat b + 259\<rparr>"
  let ?n = "d\<lparr>creation_time := ?t, access_time := ?t, change_time := ?t, data_time := ?t, user_id := euid s,
     group_id := egid s, mode := m OR S_IFDIR, direct_blocks := (direct_blocks d)[0 := b], blocks := 1, links := 0,
     n_size := 512\<rparr>"
  have b0: "b \<noteq> 0" using ob by (simp add: block_ok_def)
  have w1: "write_block_arr (replicate 4096 0) b 0 s = ?s1"
    using f(3) ob b0 write_block_arr_in [of s b 0 "replicate 4096 0"] by simp
  have w3: "write_block_arr [46, 0] b 0 ?s2 = ?s3"
    using f(3) ob b0 write_block_arr_in [of ?s2 b 0 "[46, 0]"] by simp
  have w4: "write_block_addr c b 248 ?s3 = ?s4"
    using f(3) ob b0 write_block_addr_in [of ?s3 b 248 c] by simp
  have w5: "write_block_arr [46, 46, 0] b 256 ?s4 = ?s5"
    using f(3) ob b0 write_block_arr_in [of ?s4 b 256 "[46, 46, 0]"] by (simp add: new_dir_block_def)
  have w6: "write_block_addr p b (-3584) ?s5 = ?s5" by (simp add: write_block_addr_def write_block_rejects)
  have run: "init_dir p c b m d s = store_node ?n c ?s5"
    unfolding init_dir_def Let_def w1 get_current_time_in_nsec_def prod.case w3 
    using w4 w5 w6 by simp
  have io: "only_io s ?s5" by (simp add: only_io_def)
  have "dev ?s5 x = dev s x" if "x < unat b \<or> unat b + 4096 \<le> x" for x
    using that by (simp add: new_dir_block_out)
  note w = write_kept [OF assms(1,2) io this]
  have sl: "inode_slot ?s5 c" using inode_slot_only_io [OF io] assms(3) by simp
  have wf: "wf_node ?n" using assms(4) by (simp add: wf_node_def)
  note st = store_kept [OF keptD(2) [OF w(1)] sl wf]
  show "kept {c} {b} s (init_dir p c b m d s)" unfolding run using kept_trans [OF w(1) st(1)] by simp
  show "free_set (init_dir p c b m d s) = free_set s" unfolding run using st(3) w(2) by simp
  show ow: "owned (init_dir p c b m d s) b" unfolding run using keptD(4) [OF st(1) w(3)] by simp
  show "mode (get_node (init_dir p c b m d s) c) = m OR S_IFDIR" unfolding run by (subst st(2)) simp_all
  define s' where "s' = init_dir p c b m d s"
  define n where "n = get_node s' c"
  have n: "n = ?n" unfolding n_def s'_def run by (subst st(2)) simp_all
  have nf: "wf_node n" "blocks n = 1" "n_size n = 512" "direct_blocks n ! 0 = b" "indirect_blocks n = 0"
    using n wf assms(4,5) by (simp_all add: wf_node_def)
  have mem: "dev s' x = new_dir_block c (unat b) (dev s) x" if "unat b \<le> x" for x
    unfolding s'_def run using st(4) [of x] that assms(2) by (simp add: owned_def data_block_def)
  have a: "addrs s' n = [b]" using nf by (simp add: addrs_def nth_addr_def)
  have sl': "slot s' n i = unat b + 256 * i" if "i < 16" for i using that by (simp add: slot_def a)
  have e: "ent (dev s') (unat b + 256 * i) = ent (new_dir_block c (unat b) (dev s)) (unat b + 256 * i)"
    "valid_ent (dev s') (unat b + 256 * i) = valid_ent (new_dir_block c (unat b) (dev s)) (unat b + 256 * i)" for i
    using mem by (auto intro!: ent_same)
  note nb = new_dir_block_entries [where c = c and b = "unat b" and m = "dev s"]
  have cnt: "entry_count n = 2" by (simp add: entry_count_def nf)
  have ents: "entries s' n = [([46], c), ([46, 46], 0)]"
    using sl' [of 0] sl' [of 1] e(1) [of 0] e(1) [of 1] nb by (simp add: entries_def cnt upt_rec)
  have "valid_ent (dev s') (slot s' n i)" if "i < 2" for i
    using that sl' [of i] e(2) [of 0] e(2) [of 1] nb by (auto simp: less_2_cases_iff)
  moreover have "dev s' (slot s' n i) = 0" if "2 \<le> i" "i < 16" for i
    using that sl' [of i] mem [of "unat b + 256 * i"] nb(5) by simp
  moreover have "file_ok s' n" using nf a ow by (simp add: file_ok_def s'_def)
  ultimately have "dir_ok s' n" by (simp add: dir_ok_def cnt nf)
  then show "dir_made c b (init_dir p c b m d s)"
    unfolding dir_made_def s'_def [symmetric] n_def [symmetric] using ents a nf(5) by simp
qed

text \<open>The new directory after it is entered in its parent.\<close>

lemma dir_made_kept:
  assumes "dir_made c b s" "kept A B s s'" "c \<notin> A \<or> same_map (get_node s c) (get_node s' c)" "b \<notin> B" "0 \<notin> B" "inode_slot s c"
  shows "dir_made c b s'"
proof -
  have sm: "same_map (get_node s c) (get_node s' c)" using assms(3) keptD(3) [OF assms(2,6)] by auto
  have h: "dir_ok s (get_node s c)" "B \<inter> insert (indirect_blocks (get_node s c)) (set (addrs s (get_node s c))) = {}"
    "entries s (get_node s c) = [([46], c), ([46, 46], 0)]" "addrs s (get_node s c) = [b]" "indirect_blocks (get_node s c) = 0"
    using assms(1,4,5) by (auto simp: dir_made_def)
  note k = dir_kept [OF h(1) assms(2) h(2)] and m = same_map_dir [OF sm]
  have "addrs s' (get_node s c) = addrs s (get_node s c)"
    using h by (intro addrs_kept [OF dir_okD(1) [OF h(1)] assms(2)]) auto
  then show ?thesis using h k m sm by (simp add: dir_made_def same_map_def)
qed

section \<open>mkdir\<close>

text \<open>
  \<^verbatim>\<open>tfs_mkdir\<close> takes the lowest free inode and a free block, and enters the name in the parent.
  The inode must not have an old indirect block, which \<^verbatim>\<open>tfs_mkdir\<close> does not reset.
\<close>

lemma mkdir_ok:
  assumes "leads s pre p" "p \<noteq> 0" "name \<noteq> []" "wf_name name" "slash \<notin> set name" "length name < 248"
    and "dir_ok s (get_node s p)" "entry_count (get_node s p) mod 16 \<noteq> 0" "first_free s \<noteq> 0" "first_free s \<noteq> p"
    and "indirect_blocks (get_node s (first_free s)) = 0" "free_set s \<noteq> {}"
  shows "\<exists>b s'. tfs_mkdir (pre @ slash # name) m s = Some (0, s') \<and> b \<in> free_set s \<and> free_set s' = free_set s - {b} \<and>
    kept {p, first_free s} (insert (indirect_blocks (get_node s p)) (set (addrs s (get_node s p)))) s s' \<and>
    dir_ok s' (get_node s' p) \<and> entries s' (get_node s' p) = entries s (get_node s p) @ [(name, first_free s)] \<and>
    dir_made (first_free s) b s'"
proof -
  let ?c = "first_free s" and ?n = "get_node s p"
  have ok: "fsys_ok s" and p: "inode_slot s p"
    using slot_walk_resolve [of s "path_names pre" "root_node s"] assms(1,2) by (auto simp: leads_def)
  have tab: "table_ok s" "4096 \<le> devsize s"
    using fsys_okD [OF ok] p by (auto simp: table_ok_def inode_slot_def)
  have c: "inode_slot s ?c" using first_free_cases [OF tab(1)] assms(9) by simp
  obtain d0 sa where u0: "uninit_node s = (d0, sa)" by fastforce
  have ioa: "only_io s sa" "dev sa = dev s" using only_io_uninit_node [OF u0] by auto
  have la: "leads sa pre p" by (rule leads_same_dev [OF assms(1) ioa])
  obtain s1 where s1: "find_parent (pre @ slash # name) (length pre) sa = Some (p, s1)" "only_io sa s1" "dev s1 = dev sa"
    using leads_parent [OF la] by blast
  have io1: "only_io s s1" "dev s1 = dev s" using only_io_trans [OF ioa(1) s1(2)] s1(3) ioa(2) by simp_all
  obtain q s1' where l1: "load_node p d0 s1 = (q, s1')" "only_io s s1'" "dev s1' = dev s"
  proof -
    have "wf_node d0" using u0 by (auto simp: uninit_node_in)
    then show thesis
      using load_node_in [of s1 p d0] fsys_okD(3) [OF keptD(2) [OF kept_same_dev [OF ok io1]]] slot_ok [OF keptD(2) [OF kept_same_dev [OF ok io1]]]
        inode_slot_only_io [OF io1(1)] p io1 that by (auto simp: only_io_def)
  qed
  have "first_free s1' = ?c"
    using l1(3) only_ioD(5) [OF l1(2)] by (simp add: first_free_def slots_from_def free_slot_def [abs_def])
  then obtain s2 where s2: "allocate_inode (drive s1') s1' = Some (?c, s2)" "only_io s1' s2" "dev s2 = dev s1'"
    using allocate_inode_scan [of s1' "drive s1'"] tab table_ok_only_io [OF l1(2)] only_ioD(1) [OF l1(2)] by auto
  obtain e0 s3 where s3: "uninit_node s2 = (e0, s3)" by fastforce
  have io3: "only_io s s3" "dev s3 = dev s"
    using only_io_trans [OF only_io_trans [OF l1(2) s2(2)]] only_io_uninit_node [OF s3] l1(3) s2(3) by auto
  have k3: "kept {} {} s s3" by (rule kept_same_dev [OF ok io3])
  have "wf_node e0" using s3 by (auto simp: uninit_node_in)
  then obtain s4 where s4: "load_node ?c e0 s3 = (get_node s ?c, s4)" "only_io s s4" "dev s4 = dev s"
    using load_node_in [of s3 ?c e0] fsys_okD(3) [OF keptD(2) [OF k3]] slot_ok [OF keptD(2) [OF k3]]
      inode_slot_only_io [OF io3(1)] c io3 by (auto simp: get_node_def only_io_def)
  have k4: "kept {} {} s s4" by (rule kept_same_dev [OF ok s4(2,3)])
  have fr4: "free_set s4 = free_set s" using fl_same_dev [OF s4(2,3)] by simp
  obtain b s5 where s5: "allocate_block s4 = (b, s5)" by fastforce
  note al = allocate_kept [OF keptD(2) [OF k4] _ s5, unfolded fr4, OF assms(12)]
  have k5: "kept {} {} s s5" using kept_trans [OF k4 al(1)] by simp
  have b0: "b \<noteq> 0" using owned_nonzero [OF al(3)] .
  have c5: "inode_slot s5 ?c" using c inode_slot_only_io [OF keptD(1) [OF k5]] by simp
  note di = init_dir_ok [OF keptD(2) [OF k5] al(3) c5 wf_get_node assms(11), of p m]
  let ?s6 = "init_dir p ?c b m (get_node s ?c) s5"
  have nb: "\<not> owned s b" using al(2) by (simp add: owned_def)
  have k6: "kept {?c} {} s ?s6"
  proof -
    have "kept {?c} {b} s ?s6" using kept_trans [OF k5 di(1)] by simp
    then show ?thesis using nb by (auto simp: kept_def)
  qed
  have p6: "inode_slot ?s6 p" "inode_slot ?s6 ?c" "get_node ?s6 p = ?n"
    using p c inode_slot_only_io [OF keptD(1) [OF k6]] keptD(3) [OF k6 p] assms(10) by simp_all
  have room: "has_room ?s6 ?n" using assms(8) by (simp add: has_room_def)
  note dk = dir_kept [OF assms(7) k6, unfolded Int_empty_left, OF refl]
  obtain s7 where s7: "add_to_directory p ?c name ?s6 = Some (0, s7)" "entered p ?c name ?s6 s7"
    using add_to_directory_ok [OF keptD(2) [OF k6] p6(1,2)] p6(3) dk(1) room assms(3,4,6,10) by auto
  have a6: "addrs ?s6 ?n = addrs s ?n" using addrs_kept [OF dir_okD(1) [OF assms(7)] k6] by simp
  let ?B = "insert (indirect_blocks ?n) (set (addrs s ?n))"
  have e: "kept {p, ?c} ?B ?s6 s7" "dir_ok s7 (get_node s7 p)" "entries s7 (get_node s7 p) = entries s ?n @ [(name, ?c)]"
    "\<exists>t. get_node s7 ?c = (get_node ?s6 ?c)\<lparr>links := links (get_node ?s6 ?c) + 1, change_time := t\<rparr>"
    "entry_count ?n mod 16 \<noteq> 0 \<longrightarrow> free_set s7 = free_set ?s6"
    using s7(2) p6(3) a6 dk(2) by (auto simp: entered_def Let_def)
  have fo: "file_ok s ?n" using dir_okD(1) [OF assms(7)] .
  have "kept {p, ?c} (?B - {0}) ?s6 s7" using e(1) owned_nonzero by (auto simp: kept_def)
  moreover have "b \<notin> ?B" using nb b0 file_okD(3,5) [OF fo] by (auto simp: list_all_iff)
  ultimately have made: "dir_made ?c b s7"
    using e(4) by (intro dir_made_kept [OF di(4) _ _ _ _ p6(2)]) (auto simp: same_map_def)
  have "tfs_mkdir (pre @ slash # name) m s = Some (0, s7)"
    using u0 s1(1) l1(1) assms(2,9) s2(1) s3 s4(1) s5 b0 s7(1) last_slash_append [OF assms(5), of pre]
    by (simp add: tfs_mkdir_def)
  moreover have "kept {p, ?c} ?B s s7" using kept_mono [OF kept_trans [OF k6 e(1)], of "{p, ?c}" ?B] by simp
  ultimately show ?thesis using al(2,4) di(2) e assms(8) made by auto
qed

section \<open>Properties\<close>

text \<open>
  C11. \<open>find_path_node\<close> resolves a path: it returns the inode that the names of the path lead to
  from the root, or 0 when one of them is not in its directory or stands there for the address 0,
  and leaves the device as it was. The directories on the way are well formed and have at most 12
  blocks; those made by \<open>tfs_mkdir\<close> are among them, though their \<open>..\<close> has the address 0.
\<close>

theorem find_path_resolves:
  assumes "fsys_ok s" "node_ok s (root_node s)" "wf_name path"
    and "walkable s (path_names path) (root_node s)"
  shows "\<exists>s'. find_path_node path s = Some (resolve s (path_names path) (root_node s), s') \<and>
    only_io s s' \<and> dev s' = dev s"
  by (rule find_path_walks [OF assms])

text \<open>
  A disk of 66 blocks on which the directory \<open>/d\<close> was made, and the paths \<open>/d/.\<close> and \<open>/d/..\<close>: the
  second leads nowhere.
\<close>

lemma made_66:
  obtains s s' where "tfs_mkfs 3 (blank_fs (66 * 4096)) = Some (0, s)" "tfs_mkdir [slash, 100] 0x1ED s = Some (0, s')"
    "fsys_ok s'" "root_node s' = 4096" "inode_slot s' 4096" "inode_slot s' 4352"
    "dir_ok s' (get_node s' 4096)" "unat (blocks (get_node s' 4096)) \<le> 12"
    "entries s' (get_node s' 4096) = [([46], 4096), ([46, 46], 4096), ([100], 4352)]"
    "dir_ok s' (get_node s' 4352)" "unat (blocks (get_node s' 4352)) \<le> 12"
    "entries s' (get_node s' 4352) = [([46], 4352), ([46, 46], 0)]"
proof (rule format_66)
  fix s assume s: "tfs_mkfs 3 (blank_fs (66 * 4096)) = Some (0, s)" "fsys_ok s" "root_node s = 4096" "inode_slot s 4096"
    "mode (get_node s 4096) \<noteq> 0" "dir_ok s (get_node s 4096)" "entry_count (get_node s 4096) = 2"
    "entries s (get_node s 4096) = [([46], 4096), ([46, 46], 4096)]" "first_free s = 4352"
    "get_node s 4352 = node_of_bytes (replicate 208 0)" "free_set s \<noteq> {}"
  have "path_names [] = []" by (simp add: path_names.simps strtok_def)
  then have l: "leads s [] 4096" using s(2-4) by (simp add: leads_def)
  have z: "indirect_blocks (get_node s 4352) = 0" by (simp add: s(10) node_of_bytes_def)
  have c: "inode_slot s 4352" using first_free_cases [OF fsys_okD(2) [OF s(2)]] s(9) by auto
  obtain b s' where m: "tfs_mkdir ([] @ slash # [100]) 0x1ED s = Some (0, s')" "dir_ok s' (get_node s' 4096)"
    "kept {4096, 4352} (insert (indirect_blocks (get_node s 4096)) (set (addrs s (get_node s 4096)))) s s'"
    "entries s' (get_node s' 4096) = entries s (get_node s 4096) @ [([100], 4352)]" "dir_made 4352 b s'"
    using mkdir_ok [OF l, of "[100]" "0x1ED"] s(6,7,9,11) z by auto
  note k = keptD(1,2) [OF m(3)]
  have d: "dir_ok s' (get_node s' 4352)" "entries s' (get_node s' 4352) = [([46], 4352), ([46, 46], 0)]"
    using m(5) by (simp_all add: dir_made_def)
  have cnt: "entry_count (get_node s' 4096) = 3" "entry_count (get_node s' 4352) = 2"
    using arg_cong [OF m(4), of length] arg_cong [OF d(2), of length] s(7) by simp_all
  show thesis
    by (rule that [OF s(1) _ k(2) _ _ _ m(2) _ _ d(1) _ d(2)])
      (use m s(3,4,8) c only_ioD(3) [OF k(1)] inode_slot_only_io [OF k(1)] dir_okD(3) [OF m(2)] dir_okD(3) [OF d(1)] cnt in simp_all)
qed

theorem find_path_resolves_witness:
  "\<exists>s s' s1 s2. tfs_mkfs 3 (blank_fs (66 * 4096)) = Some (0, s) \<and> tfs_mkdir [slash, 100] 0x1ED s = Some (0, s') \<and>
     find_path_node [slash, 100, slash, 46] s' = Some (4352, s1) \<and>
     find_path_node [slash, 100, slash, 46, 46] s' = Some (0, s2)"
proof (rule made_66)
  fix s s' assume s: "tfs_mkfs 3 (blank_fs (66 * 4096)) = Some (0, s)" "tfs_mkdir [slash, 100] 0x1ED s = Some (0, s')"
    "fsys_ok s'" "root_node s' = 4096" "inode_slot s' 4096" "inode_slot s' 4352"
    "dir_ok s' (get_node s' 4096)" "unat (blocks (get_node s' 4096)) \<le> 12"
    "entries s' (get_node s' 4096) = [([46], 4096), ([46, 46], 4096), ([100], 4352)]"
    "dir_ok s' (get_node s' 4352)" "unat (blocks (get_node s' 4352)) \<le> 12"
    "entries s' (get_node s' 4352) = [([46], 4352), ([46, 46], 0)]"
  have n: "path_names [slash, 100, slash, 46] = [[100], [46]]" "path_names [slash, 100, slash, 46, 46] = [[100], [46, 46]]"
    using path_names_join [of "[[100], [46]]"] path_names_join [of "[[100], [46, 46]]"] by simp_all
  note ok = slot_ok [OF s(3,5)] slot_ok [OF s(3,6)]
  have w: "walkable s' [[100], [46]] 4096" "walkable s' [[100], [46, 46]] 4096"
    using s(7-12) ok by (simp_all add: found_def plain_name_def)
  have r: "resolve s' [[100], [46]] 4096 = 4352" "resolve s' [[100], [46, 46]] 4096 = 0"
    using s(9,12) by (simp_all add: found_def)
  obtain s1 where "find_path_node [slash, 100, slash, 46] s' = Some (4352, s1)"
    using find_path_resolves [OF s(3), of "[slash, 100, slash, 46]"] s(4) ok n w r by auto
  moreover obtain s2 where "find_path_node [slash, 100, slash, 46, 46] s' = Some (0, s2)"
    using find_path_resolves [OF s(3), of "[slash, 100, slash, 46, 46]"] s(4) ok n w r by auto
  ultimately show ?thesis using s(1,2) by blast
qed

end
