(* ===== verification/Fuse_Opt.thy ===== *)
theory Fuse_Opt
  imports Prelude
begin

text \<open>
  The option parser of the FUSE library that the program is built with
  (\<^verbatim>\<open>lib/fuse_opt.c\<close>). Strings are the bytes before the terminating zero. What the
  caller of \<^verbatim>\<open>fuse_opt_parse\<close> brings is a parameter, the record \<open>client\<close>: the object
  that \<open>data\<close> points to, with the stores that the parser makes in it at an offset, the C
  library's \<open>sscanf\<close> into it, and the processing function \<open>proc\<close>. Memory allocation is taken to
  succeed; a failed \<open>assert\<close> is \<open>None\<close>. The number of arguments \<open>argc\<close> is the length of the vector.
\<close>

section \<open>Argument vectors\<close>

record fuse_args =
  argv :: "bytes list option"
  allocated :: bool

definition argc :: "fuse_args \<Rightarrow> nat" where
  "argc args = (case argv args of None \<Rightarrow> 0 | Some l \<Rightarrow> length l)"

definition args_list :: "fuse_args \<Rightarrow> bytes list" where
  "args_list args = (case argv args of None \<Rightarrow> [] | Some l \<Rightarrow> l)"

definition fuse_opt_free_args :: "fuse_args option \<Rightarrow> fuse_args option" where
  "fuse_opt_free_args args = (case args of None \<Rightarrow> None | Some a \<Rightarrow> Some (a\<lparr>argv := None, allocated := False\<rparr>))"

definition fuse_opt_add_arg :: "fuse_args \<Rightarrow> bytes \<Rightarrow> (int \<times> fuse_args) option" where
  "fuse_opt_add_arg args arg =
     (if \<not> (argv args = None \<or> allocated args) then None
      else
        let newarg = arg;
            newargv = args_list args
        in Some (0, args\<lparr>argv := Some (newargv @ [newarg]), allocated := True\<rparr>))"

text \<open>\<open>memmove\<close> of \<open>n\<close> elements inside an array.\<close>

definition memmove :: "nat \<Rightarrow> nat \<Rightarrow> nat \<Rightarrow> 'a list \<Rightarrow> 'a list" where
  "memmove dst src n xs = take dst xs @ take n (drop src xs) @ drop (dst + n) xs"

definition fuse_opt_insert_arg :: "fuse_args \<Rightarrow> nat \<Rightarrow> bytes \<Rightarrow> (int \<times> fuse_args) option" where
  "fuse_opt_insert_arg args i arg =
     (if \<not> i \<le> argc args then None
      else do {
        (r, args) \<leftarrow> fuse_opt_add_arg args arg;
        if r = -1 then Some (-1, args)
        else if i \<noteq> argc args - 1 then
          let l = args_list args;
              newarg = l ! (argc args - 1);
              l = memmove (i + 1) i (argc args - i - 1) l
          in Some (0, args\<lparr>argv := Some (l[i := newarg])\<rparr>)
        else Some (0, args)
      })"

section \<open>Comma separated options\<close>

abbreviation "COMMA \<equiv> (44 :: u8)"
abbreviation "BACKSLASH \<equiv> (92 :: u8)"
abbreviation "EQUALS \<equiv> (61 :: u8)"
abbreviation "SPACE \<equiv> (32 :: u8)"
abbreviation "PERCENT \<equiv> (37 :: u8)"
abbreviation "DASH \<equiv> (45 :: u8)"

text \<open>The loop that copies \<open>opt\<close>.\<close>

fun copy_opt :: "bool \<Rightarrow> bytes \<Rightarrow> bytes" where
  "copy_opt esc [] = []"
| "copy_opt esc (c # opt) =
     (if esc \<and> (c = COMMA \<or> c = BACKSLASH) then BACKSLASH # c # copy_opt esc opt
      else c # copy_opt esc opt)"

definition add_opt_common :: "bytes option \<Rightarrow> bytes \<Rightarrow> bool \<Rightarrow> int \<times> bytes option" where
  "add_opt_common opts opt esc =
     (let oldlen = (case opts of None \<Rightarrow> 0 | Some s \<Rightarrow> length s);
          d = (if oldlen \<noteq> 0 then the opts @ [COMMA] else [])
      in (0, Some (d @ copy_opt esc opt)))"

definition fuse_opt_add_opt :: "bytes option \<Rightarrow> bytes \<Rightarrow> int \<times> bytes option" where
  "fuse_opt_add_opt opts opt = add_opt_common opts opt False"

definition fuse_opt_add_opt_escaped :: "bytes option \<Rightarrow> bytes \<Rightarrow> int \<times> bytes option" where
  "fuse_opt_add_opt_escaped opts opt = add_opt_common opts opt True"

section \<open>Templates\<close>

record fuse_opt =
  templ :: bytes
  offset :: u64
  opt_value :: int

definition str_at :: "bytes \<Rightarrow> nat \<Rightarrow> u8" where
  "str_at cs i = (if i < length cs then cs ! i else 0)"

fun strchr :: "bytes \<Rightarrow> u8 \<Rightarrow> nat option" where
  "strchr [] c = None"
| "strchr (b # bs) c = (if b = c then Some 0 else map_option Suc (strchr bs c))"

text \<open>The result is \<open>*sepp\<close> when the template matches.\<close>

definition match_template :: "bytes \<Rightarrow> bytes \<Rightarrow> nat option" where
  "match_template t arg =
     (let arglen = length arg;
          sep = strchr t EQUALS;
          sep = (if sep \<noteq> None then sep else strchr t SPACE);
          exact = (if t = arg then Some 0 else None)
      in (case sep of
            None \<Rightarrow> exact
          | Some i \<Rightarrow>
              if str_at t (i + 1) = 0 \<or> str_at t (i + 1) = PERCENT then
                let tlen = (if str_at t i = EQUALS then i + 1 else i)
                in if tlen \<le> arglen \<and> take tlen arg = take tlen t then Some i else exact
              else exact))"

fun find_opt :: "fuse_opt list \<Rightarrow> bytes \<Rightarrow> (fuse_opt \<times> nat) option" where
  "find_opt [] arg = None"
| "find_opt (opt # opts) arg =
     (case match_template (templ opt) arg of
        Some sep \<Rightarrow> Some (opt, sep)
      | None \<Rightarrow> find_opt opts arg)"

definition fuse_opt_match :: "fuse_opt list \<Rightarrow> bytes \<Rightarrow> int" where
  "fuse_opt_match opts opt = (if find_opt opts opt \<noteq> None then 1 else 0)"

section \<open>The parser\<close>

record 'd client =
  set_int :: "u64 \<Rightarrow> int \<Rightarrow> 'd \<Rightarrow> 'd"
  set_str :: "u64 \<Rightarrow> bytes \<Rightarrow> 'd \<Rightarrow> 'd"
  sscanf :: "bytes \<Rightarrow> bytes \<Rightarrow> u64 \<Rightarrow> 'd \<Rightarrow> int \<times> 'd"
  proc :: "('d \<Rightarrow> bytes \<Rightarrow> int \<Rightarrow> fuse_args \<Rightarrow> int \<times> 'd \<times> fuse_args) option"

text \<open>\<open>struct fuse_opt_context\<close>.\<close>

record 'd opt_context =
  data :: 'd
  opt_table :: "fuse_opt list"
  argctr :: nat
  in_argv :: "bytes list"
  outargs :: fuse_args
  copts :: "bytes option"
  nonopt :: nat

abbreviation "FUSE_OPT_KEY_OPT \<equiv> (-1 :: int)"
abbreviation "FUSE_OPT_KEY_NONOPT \<equiv> (-2 :: int)"
abbreviation "FUSE_OPT_KEY_KEEP \<equiv> (-3 :: int)"
abbreviation "FUSE_OPT_KEY_DISCARD \<equiv> (-4 :: int)"

definition next_arg :: "'d opt_context \<Rightarrow> int \<times> 'd opt_context" where
  "next_arg ctx =
     (if argctr ctx + 1 \<ge> length (in_argv ctx) then (-1, ctx)
      else (0, ctx\<lparr>argctr := argctr ctx + 1\<rparr>))"

definition add_arg :: "'d opt_context \<Rightarrow> bytes \<Rightarrow> (int \<times> 'd opt_context) option" where
  "add_arg ctx arg = do {
     (r, a) \<leftarrow> fuse_opt_add_arg (outargs ctx) arg;
     Some (r, ctx\<lparr>outargs := a\<rparr>)
   }"

definition add_opt :: "'d opt_context \<Rightarrow> bytes \<Rightarrow> int \<times> 'd opt_context" where
  "add_opt ctx opt =
     (let (r, o') = add_opt_common (copts ctx) opt True in (r, ctx\<lparr>copts := o'\<rparr>))"

definition call_proc :: "'d client \<Rightarrow> 'd opt_context \<Rightarrow> bytes \<Rightarrow> int \<Rightarrow> bool \<Rightarrow> (int \<times> 'd opt_context) option" where
  "call_proc cl ctx arg key iso' =
     (if key = FUSE_OPT_KEY_DISCARD then Some (0, ctx)
      else
        let (res, ctx) =
              (case proc cl of
                 Some f \<Rightarrow>
                   if key \<noteq> FUSE_OPT_KEY_KEEP then
                     let (res, d, a) = f (data ctx) arg key (outargs ctx)
                     in (res, ctx\<lparr>data := d, outargs := a\<rparr>)
                   else (1, ctx)
               | None \<Rightarrow> (1, ctx))
        in if res = -1 \<or> res = 0 then Some (res, ctx)
           else if iso' then Some (add_opt ctx arg)
           else add_arg ctx arg)"

definition process_opt_param ::
  "'d client \<Rightarrow> u64 \<Rightarrow> bytes \<Rightarrow> bytes \<Rightarrow> 'd opt_context \<Rightarrow> (int \<times> 'd opt_context) option" where
  "process_opt_param cl var format param ctx =
     (if str_at format 0 \<noteq> PERCENT then None
      else if str_at format 1 = 115 then Some (0, ctx\<lparr>data := set_str cl var param (data ctx)\<rparr>)
      else
        let (r, d) = sscanf cl param format var (data ctx);
            ctx = ctx\<lparr>data := d\<rparr>
        in if r \<noteq> 1 then Some (-1, ctx) else Some (0, ctx))"

text \<open>\<open>-1U\<close>, compared with an \<open>unsigned long\<close>.\<close>

abbreviation "NO_OFFSET \<equiv> (0xFFFFFFFF :: u64)"

definition process_opt ::
  "'d client \<Rightarrow> 'd opt_context \<Rightarrow> fuse_opt \<Rightarrow> nat \<Rightarrow> bytes \<Rightarrow> bool \<Rightarrow> (int \<times> 'd opt_context) option" where
  "process_opt cl ctx opt sep arg iso' =
     (if offset opt = NO_OFFSET then do {
        (r, ctx) \<leftarrow> call_proc cl ctx arg (opt_value opt) iso';
        if r = -1 then Some (-1, ctx) else Some (0, ctx)
      }
      else
        let var = offset opt
        in if sep \<noteq> 0 \<and> str_at (templ opt) (sep + 1) \<noteq> 0 then do {
             let param = drop sep arg;
             let param = (if str_at (templ opt) sep = EQUALS then drop 1 param else param);
             (r, ctx) \<leftarrow> process_opt_param cl var (drop (sep + 1) (templ opt)) param ctx;
             if r = -1 then Some (-1, ctx) else Some (0, ctx)
           }
           else Some (0, ctx\<lparr>data := set_int cl var (opt_value opt) (data ctx)\<rparr>))"

definition process_opt_sep_arg ::
  "'d client \<Rightarrow> 'd opt_context \<Rightarrow> fuse_opt \<Rightarrow> nat \<Rightarrow> bytes \<Rightarrow> bool \<Rightarrow> (int \<times> 'd opt_context) option" where
  "process_opt_sep_arg cl ctx opt sep arg iso' =
     (let (r, ctx) = next_arg ctx
      in if r = -1 then Some (-1, ctx)
         else let param = in_argv ctx ! argctr ctx;
                  newarg = take sep arg @ param
              in process_opt cl ctx opt sep newarg iso')"

text \<open>The loop over the matching entries of the table.\<close>

fun gopt_loop ::
  "'d client \<Rightarrow> fuse_opt list \<Rightarrow> 'd opt_context \<Rightarrow> bytes \<Rightarrow> bool \<Rightarrow> (int \<times> 'd opt_context) option" where
  "gopt_loop cl [] ctx arg iso' = Some (0, ctx)"
| "gopt_loop cl (opt # opts) ctx arg iso' =
     (case match_template (templ opt) arg of
        None \<Rightarrow> gopt_loop cl opts ctx arg iso'
      | Some sep \<Rightarrow> do {
          (res, ctx) \<leftarrow>
            (if sep \<noteq> 0 \<and> str_at (templ opt) sep = SPACE \<and> str_at arg sep = 0
             then process_opt_sep_arg cl ctx opt sep arg iso'
             else process_opt cl ctx opt sep arg iso');
          if res = -1 then Some (-1, ctx) else gopt_loop cl opts ctx arg iso'
        })"

definition process_gopt :: "'d client \<Rightarrow> 'd opt_context \<Rightarrow> bytes \<Rightarrow> bool \<Rightarrow> (int \<times> 'd opt_context) option" where
  "process_gopt cl ctx arg iso' =
     (case find_opt (opt_table ctx) arg of
        Some _ \<Rightarrow> gopt_loop cl (opt_table ctx) ctx arg iso'
      | None \<Rightarrow> call_proc cl ctx arg FUSE_OPT_KEY_OPT iso')"

text \<open>
  The group of options after \<open>-o\<close>: \<open>s\<close> is what is left to read, \<open>d\<close> the option that has been
  copied, in front of it in the same buffer. An octal escape can produce a zero byte, which
  ends the string that is processed.
\<close>

definition octal :: "bytes \<Rightarrow> bool" where
  "octal s \<longleftrightarrow>
     48 \<le> str_at s 0 \<and> str_at s 0 \<le> 51 \<and> 48 \<le> str_at s 1 \<and> str_at s 1 \<le> 55 \<and>
     48 \<le> str_at s 2 \<and> str_at s 2 \<le> 55"

definition octal_value :: "bytes \<Rightarrow> u8" where
  "octal_value s = (str_at s 0 - 48) * 64 + (str_at s 1 - 48) * 8 + (str_at s 2 - 48)"

function process_real_option_group ::
  "'d client \<Rightarrow> 'd opt_context \<Rightarrow> bytes \<Rightarrow> bytes \<Rightarrow> (int \<times> 'd opt_context) option" where
  "process_real_option_group cl ctx s d =
     (if s = [] then do {
        (res, ctx) \<leftarrow> process_gopt cl ctx (cstr d) True;
        if res = -1 then Some (-1, ctx) else Some (0, ctx)
      }
      else if hd s = COMMA then
        (case process_gopt cl ctx (cstr d) True of
           None \<Rightarrow> None
         | Some (res, ctx) \<Rightarrow>
             if res = -1 then Some (-1, ctx) else process_real_option_group cl ctx (tl s) [])
      else if hd s = BACKSLASH \<and> tl s \<noteq> [] then
        let s = tl s
        in if octal s then process_real_option_group cl ctx (drop 3 s) (d @ [octal_value s])
           else process_real_option_group cl ctx (tl s) (d @ [hd s])
      else process_real_option_group cl ctx (tl s) (d @ [hd s]))"
  by pat_completeness auto
termination
  by (relation "measure (\<lambda>(_, _, s, _). length s)") auto

declare process_real_option_group.simps [simp del]

definition process_option_group :: "'d client \<Rightarrow> 'd opt_context \<Rightarrow> bytes \<Rightarrow> (int \<times> 'd opt_context) option" where
  "process_option_group cl ctx opts = process_real_option_group cl ctx opts []"

definition process_one :: "'d client \<Rightarrow> 'd opt_context \<Rightarrow> bytes \<Rightarrow> (int \<times> 'd opt_context) option" where
  "process_one cl ctx arg =
     (if nonopt ctx \<noteq> 0 \<or> str_at arg 0 \<noteq> DASH then call_proc cl ctx arg FUSE_OPT_KEY_NONOPT False
      else if str_at arg 1 = 111 then
        if str_at arg 2 \<noteq> 0 then process_option_group cl ctx (drop 2 arg)
        else
          let (r, ctx) = next_arg ctx
          in if r = -1 then Some (-1, ctx)
             else process_option_group cl ctx (in_argv ctx ! argctr ctx)
      else if str_at arg 1 = DASH \<and> str_at arg 2 = 0 then do {
        (r, ctx) \<leftarrow> add_arg ctx arg;
        if r = -1 then Some (-1, ctx)
        else Some (0, ctx\<lparr>nonopt := argc (outargs ctx)\<rparr>)
      }
      else process_gopt cl ctx arg False)"

text \<open>The parser walks forward over a fixed argument vector.\<close>

definition forward :: "'d opt_context \<Rightarrow> 'd opt_context \<Rightarrow> bool" where
  "forward ctx ctx' \<longleftrightarrow>
     in_argv ctx' = in_argv ctx \<and> opt_table ctx' = opt_table ctx \<and> argctr ctx \<le> argctr ctx'"

lemma forward_refl [simp]: "forward ctx ctx"
  by (simp add: forward_def)

lemma forward_trans: "forward a b \<Longrightarrow> forward b c \<Longrightarrow> forward a c"
  by (auto simp: forward_def)

lemma forward_updates [simp]:
  "forward ctx (ctx\<lparr>data := d\<rparr>)" "forward ctx (ctx\<lparr>outargs := a\<rparr>)" "forward ctx (ctx\<lparr>copts := o'\<rparr>)"
  "forward ctx (ctx\<lparr>nonopt := n\<rparr>)" "forward ctx (ctx\<lparr>data := d, outargs := a\<rparr>)"
  by (simp_all add: forward_def)

named_theorems forward_rules

lemma forward_next_arg [forward_rules]: "next_arg ctx = (r, ctx') \<Longrightarrow> forward ctx ctx'"
  by (auto simp: next_arg_def forward_def split: if_splits)

lemma forward_add_arg [forward_rules]: "add_arg ctx arg = Some (r, ctx') \<Longrightarrow> forward ctx ctx'"
  by (auto simp: add_arg_def bind_eq_Some_conv)

lemma forward_add_opt [forward_rules]: "add_opt ctx arg = (r, ctx') \<Longrightarrow> forward ctx ctx'"
  by (auto simp: add_opt_def split: prod.splits)

lemma forward_call_proc [forward_rules]: "call_proc cl ctx arg key i = Some (r, ctx') \<Longrightarrow> forward ctx ctx'"
proof -
  assume a: "call_proc cl ctx arg key i = Some (r, ctx')"
  show ?thesis
  proof (cases "key = FUSE_OPT_KEY_DISCARD")
    case False
    obtain res c1 where r: "(case proc cl of
                 Some f \<Rightarrow>
                   if key \<noteq> FUSE_OPT_KEY_KEEP then
                     let (res, d, a) = f (data ctx) arg key (outargs ctx)
                     in (res, ctx\<lparr>data := d, outargs := a\<rparr>)
                   else (1, ctx)
               | None \<Rightarrow> (1, ctx)) = (res, c1)" by fastforce
    then have f: "forward ctx c1" by (auto split: option.splits if_splits prod.splits)
    have "(if res = -1 \<or> res = 0 then Some (res, c1) else if i then Some (add_opt c1 arg) else add_arg c1 arg) = Some (r, ctx')"
      using a False r by (simp add: call_proc_def)
    then have "forward c1 ctx'" by (auto split: if_splits dest: forward_rules)
    with f show ?thesis by (rule forward_trans)
  qed (use a in \<open>simp add: call_proc_def\<close>)
qed

lemma forward_process_opt_param [forward_rules]:
  "process_opt_param cl var format param ctx = Some (r, ctx') \<Longrightarrow> forward ctx ctx'"
  by (auto simp: process_opt_param_def Let_def split: if_splits prod.splits)

lemma forward_process_opt [forward_rules]: "process_opt cl ctx opt sep arg i = Some (r, ctx') \<Longrightarrow> forward ctx ctx'"
  by (auto simp: process_opt_def Let_def bind_eq_Some_conv split: if_splits dest: forward_rules)

lemma forward_process_opt_sep_arg [forward_rules]:
  "process_opt_sep_arg cl ctx opt sep arg i = Some (r, ctx') \<Longrightarrow> forward ctx ctx'"
proof -
  assume a: "process_opt_sep_arg cl ctx opt sep arg i = Some (r, ctx')"
  obtain r' c1 where n: "next_arg ctx = (r', c1)" by fastforce
  then have "ctx' = c1 \<or> process_opt cl c1 opt sep (take sep arg @ in_argv c1 ! argctr c1) i = Some (r, ctx')"
    using a by (auto simp: process_opt_sep_arg_def split: if_splits)
  then show ?thesis using forward_next_arg [OF n] forward_process_opt forward_trans by blast
qed

lemma forward_gopt_loop [forward_rules]: "gopt_loop cl opts ctx arg i = Some (r, ctx') \<Longrightarrow> forward ctx ctx'"
proof (induction opts arbitrary: ctx)
  case (Cons opt opts)
  show ?case
  proof (cases "match_template (templ opt) arg")
    case (Some sep)
    then obtain res c1 where c1: "(if sep \<noteq> 0 \<and> str_at (templ opt) sep = SPACE \<and> str_at arg sep = 0
             then process_opt_sep_arg cl ctx opt sep arg i
             else process_opt cl ctx opt sep arg i) = Some (res, c1)"
      and r: "(if res = -1 then Some (-1, c1) else gopt_loop cl opts c1 arg i) = Some (r, ctx')"
      using Cons.prems by (auto simp: bind_eq_Some_conv)
    have "forward ctx c1" using c1 by (auto split: if_splits dest: forward_rules)
    moreover have "forward c1 ctx'" using r Cons.IH [of c1] by (auto split: if_splits)
    ultimately show ?thesis by (rule forward_trans)
  qed (use Cons in simp)
qed simp

lemma forward_process_gopt [forward_rules]: "process_gopt cl ctx arg i = Some (r, ctx') \<Longrightarrow> forward ctx ctx'"
  by (auto simp: process_gopt_def split: option.splits dest: forward_rules)

lemma forward_real_option_group [forward_rules]:
  "process_real_option_group cl ctx s d = Some (r, ctx') \<Longrightarrow> forward ctx ctx'"
proof (induction cl ctx s d rule: process_real_option_group.induct)
  case (1 cl ctx s d)
  note run = "1.prems" [unfolded process_real_option_group.simps [of cl ctx s d]]
  consider "s = []" | "s \<noteq> []" "hd s = COMMA" | "s \<noteq> []" "hd s \<noteq> COMMA" by blast
  then show ?case
  proof cases
    case 1
    then show ?thesis using run by (auto simp: bind_eq_Some_conv split: if_splits dest: forward_process_gopt)
  next
    case 2
    then obtain res c1 where c1: "process_gopt cl ctx (cstr d) True = Some (res, c1)"
      "(if res = -1 then Some (-1, c1) else process_real_option_group cl c1 (tl s) []) = Some (r, ctx')"
      using run by (auto split: option.splits)
    then have "forward c1 ctx'" using "1.IH"(1) 2 by (cases "res = -1") auto
    then show ?thesis using forward_process_gopt [OF c1(1)] forward_trans by blast
  next
    case 3
    then show ?thesis using run "1.IH"(2-4) by (simp add: Let_def split: if_splits)
  qed
qed

lemma forward_process_one [forward_rules]:
  assumes "process_one cl ctx arg = Some (r, ctx')"
  shows "forward ctx ctx'"
proof -
  consider "nonopt ctx \<noteq> 0 \<or> str_at arg 0 \<noteq> DASH" | "nonopt ctx = 0" "str_at arg 0 = DASH" "str_at arg 1 = 111" "str_at arg 2 \<noteq> 0"
    | "nonopt ctx = 0" "str_at arg 0 = DASH" "str_at arg 1 = 111" "str_at arg 2 = 0"
    | "nonopt ctx = 0" "str_at arg 0 = DASH" "str_at arg 1 = DASH \<and> str_at arg 2 = 0"
    | "nonopt ctx = 0" "str_at arg 0 = DASH" "str_at arg 1 \<noteq> 111" "\<not> (str_at arg 1 = DASH \<and> str_at arg 2 = 0)" by blast
  then show ?thesis
  proof cases
    case 1
    then show ?thesis using assms by (simp add: process_one_def forward_call_proc)
  next
    case 2
    then show ?thesis using assms by (simp add: process_one_def process_option_group_def forward_real_option_group)
  next
    case 3
    obtain r' c1 where n: "next_arg ctx = (r', c1)" by fastforce
    then have "r' = -1 \<and> ctx' = c1 \<or> process_real_option_group cl c1 (in_argv c1 ! argctr c1) [] = Some (r, ctx')"
      using assms 3 by (auto simp: process_one_def process_option_group_def split: if_splits)
    then show ?thesis using forward_next_arg [OF n] forward_real_option_group forward_trans by blast
  next
    case 4
    then obtain r' c1 where n: "add_arg ctx arg = Some (r', c1)" "ctx' = c1 \<or> ctx' = c1\<lparr>nonopt := argc (outargs c1)\<rparr>"
      using assms by (auto simp: process_one_def bind_eq_Some_conv split: if_splits)
    then show ?thesis using forward_add_arg [OF n(1)] by (auto intro: forward_trans)
  next
    case 5
    then show ?thesis using assms by (auto simp: process_one_def forward_process_gopt)
  qed
qed

section \<open>The whole vector\<close>

function opt_loop :: "'d client \<Rightarrow> 'd opt_context \<Rightarrow> (int \<times> 'd opt_context) option" where
  "opt_loop cl ctx =
     (if argctr ctx < length (in_argv ctx) then
        (case process_one cl ctx (in_argv ctx ! argctr ctx) of
           None \<Rightarrow> None
         | Some (r, ctx) \<Rightarrow>
             if r = -1 then Some (-1, ctx)
             else opt_loop cl (ctx\<lparr>argctr := argctr ctx + 1\<rparr>))
      else Some (0, ctx))"
  by pat_completeness auto
termination
proof (relation "measure (\<lambda>(_, ctx). length (in_argv ctx) - argctr ctx)", goal_cases)
  case (2 cl ctx x r ctx')
  then have "forward ctx ctx'" by (auto dest: forward_process_one)
  then show ?case using 2 unfolding forward_def by simp linarith
qed simp

declare opt_loop.simps [simp del]

definition opt_parse :: "'d client \<Rightarrow> 'd opt_context \<Rightarrow> (int \<times> 'd opt_context) option" where
  "opt_parse cl ctx = do {
     (r, ctx) \<leftarrow> (if in_argv ctx \<noteq> [] then add_arg ctx (in_argv ctx ! 0) else Some (0, ctx));
     if r = -1 then Some (-1, ctx)
     else do {
       (r, ctx) \<leftarrow> opt_loop cl (ctx\<lparr>argctr := 1\<rparr>);
       if r = -1 then Some (-1, ctx)
       else do {
         (r, ctx) \<leftarrow>
           (case copts ctx of
              None \<Rightarrow> Some (0, ctx)
            | Some o' \<Rightarrow> do {
                (r, a) \<leftarrow> fuse_opt_insert_arg (outargs ctx) 1 [DASH, 111];
                if r = -1 then Some (-1, ctx\<lparr>outargs := a\<rparr>)
                else do {
                  (r, a) \<leftarrow> fuse_opt_insert_arg a 2 o';
                  Some (r, ctx\<lparr>outargs := a\<rparr>)
                }
              });
         if r = -1 then Some (-1, ctx)
         else
           let n = argc (outargs ctx)
           in if nonopt ctx \<noteq> 0 \<and> nonopt ctx = n \<and> args_list (outargs ctx) ! (n - 1) = [DASH, DASH]
              then Some (0, ctx\<lparr>outargs := (outargs ctx)\<lparr>argv := Some (take (n - 1) (args_list (outargs ctx)))\<rparr>\<rparr>)
              else Some (0, ctx)
       }
     }
   }"

text \<open>The result is the return value, \<open>*args\<close> and \<open>*data\<close> after the call.\<close>

definition fuse_opt_parse ::
  "'d client \<Rightarrow> fuse_args option \<Rightarrow> 'd \<Rightarrow> fuse_opt list \<Rightarrow> (int \<times> fuse_args option \<times> 'd) option" where
  "fuse_opt_parse cl args dat opts =
     (case args of
        None \<Rightarrow> Some (0, args, dat)
      | Some a \<Rightarrow>
          if argv a = None \<or> argc a = 0 then Some (0, args, dat)
          else do {
            let ctx = \<lparr>data = dat, opt_table = opts, argctr = 0, in_argv = args_list a,
                       outargs = \<lparr>argv = None, allocated = False\<rparr>, copts = None, nonopt = 0\<rparr>;
            (res, ctx) \<leftarrow> opt_parse cl ctx;
            if res \<noteq> -1 then Some (res, Some (outargs ctx), data ctx)
            else Some (res, args, data ctx)
          })"

section \<open>Properties\<close>

lemma memmove_insert:
  assumes "i < length l"
  shows "(memmove (i + 1) i (length l - i) (l @ [x]))[i := x] = take i l @ x # drop i l"
proof -
  have "memmove (i + 1) i (length l - i) (l @ [x]) = take (Suc i) l @ drop i l"
    using assms by (auto simp: memmove_def)
  moreover have "take (Suc i) l = take i l @ [l ! i]" using assms by (rule take_Suc_conv_app_nth)
  ultimately show ?thesis using assms by (simp add: list_update_append)
qed

text \<open>
  \<open>fuse_opt_insert_arg\<close> puts the argument at the position, in front of the arguments from
  there on.
\<close>

theorem insert_arg_inserts:
  assumes "i \<le> argc args" "argv args = None \<or> allocated args"
  shows "\<exists>args'. fuse_opt_insert_arg args i arg = Some (0, args') \<and> allocated args' \<and>
    args_list args' = take i (args_list args) @ arg # drop i (args_list args)"
proof -
  let ?l = "args_list args"
  have len: "argc args = length ?l" by (simp add: argc_def args_list_def split: option.split)
  show ?thesis
  proof (cases "i = length ?l")
    case True
    then show ?thesis using assms len
      by (simp add: fuse_opt_insert_arg_def fuse_opt_add_arg_def argc_def) (simp add: args_list_def)
  next
    case False
    then have "i < length ?l" using assms(1) len by simp
    from memmove_insert [OF this, of arg] show ?thesis using assms len False
      by (simp add: fuse_opt_insert_arg_def fuse_opt_add_arg_def argc_def [of "fuse_args.argv_update _ _"])
        (simp add: argc_def args_list_def nth_append)
  qed
qed

theorem insert_arg_inserts_witness:
  "fuse_opt_insert_arg \<lparr>argv = Some [[97], [98]], allocated = True\<rparr> 1 [99] =
     Some (0, \<lparr>argv = Some [[97], [99], [98]], allocated = True\<rparr>)"
proof -
  let ?a = "\<lparr>argv = Some [[97], [98]], allocated = True\<rparr>"
  obtain a' where "fuse_opt_insert_arg ?a 1 [99] = Some (0, a')" "allocated a'"
    "args_list a' = take 1 (args_list ?a) @ [99] # drop 1 (args_list ?a)"
    using insert_arg_inserts [of 1 ?a "[99]"] by (auto simp: argc_def)
  moreover have "argv a' = Some [[97], [99], [98]]"
    using calculation by (cases "argv a'") (auto simp: args_list_def)
  ultimately show ?thesis by simp
qed

text \<open>The options of a group, one after the other.\<close>

fun run_gopts :: "'d client \<Rightarrow> 'd opt_context \<Rightarrow> bytes list \<Rightarrow> (int \<times> 'd opt_context) option" where
  "run_gopts cl ctx [] = Some (0, ctx)"
| "run_gopts cl ctx (x # xs) =
     (case process_gopt cl ctx x True of
        None \<Rightarrow> None
      | Some (res, ctx) \<Rightarrow> if res = -1 then Some (-1, ctx) else run_gopts cl ctx xs)"

lemma real_option_group_escaped:
  assumes "rest = [] \<or> hd rest = COMMA"
  shows "process_real_option_group cl ctx (copy_opt True x @ rest) d = process_real_option_group cl ctx rest (d @ x)"
  using assms
proof (induction x arbitrary: d)
  case (Cons c x)
  show ?case
  proof (cases "c = COMMA \<or> c = BACKSLASH")
    case True
    then have "\<not> octal (c # copy_opt True x @ rest)" by (auto simp: octal_def str_at_def)
    then show ?thesis using True Cons by (subst process_real_option_group.simps) (auto simp: Let_def)
  next
    case False
    then show ?thesis using Cons by (subst process_real_option_group.simps) auto
  qed
qed simp

lemma real_option_group_list:
  "process_real_option_group cl ctx (concat (map (\<lambda>x. COMMA # copy_opt True x) xs)) d =
     run_gopts cl ctx (cstr d # map cstr xs)"
proof (induction xs arbitrary: ctx d)
  case Nil
  then show ?case
    by (subst process_real_option_group.simps) (auto split: option.split Option.bind_split)
next
  case (Cons x xs)
  let ?r = "concat (map (\<lambda>x. COMMA # copy_opt True x) xs)"
  have r: "?r = [] \<or> hd ?r = COMMA" by (cases xs) auto
  have "process_real_option_group cl c (copy_opt True x @ ?r) [] = run_gopts cl c (cstr x # map cstr xs)" for c
    using real_option_group_escaped [OF r, of cl c x "[]"] Cons.IH [of c x] by simp
  then show ?case by (subst process_real_option_group.simps) (auto split: option.split)
qed

lemma add_opts_escaped:
  assumes "s \<noteq> []"
  shows "foldl (\<lambda>opts x. snd (fuse_opt_add_opt_escaped opts x)) (Some s) xs =
    Some (s @ concat (map (\<lambda>x. COMMA # copy_opt True x) xs))"
  using assms
  by (induction xs arbitrary: s) (simp_all add: fuse_opt_add_opt_escaped_def add_opt_common_def)

lemma cstr_wf: "wf_name x \<Longrightarrow> cstr x = x"
  unfolding cstr_def by (induction x) auto

text \<open>
  C18. Options joined by \<open>fuse_opt_add_opt_escaped\<close> come back one by one: parsing the string
  processes each of them, as it was, in order, whatever commas and backslashes they hold.
\<close>

theorem escaped_options_parse_back:
  assumes "x \<noteq> []" "\<forall>y \<in> set (x # xs). wf_name y"
  shows "\<exists>s. foldl (\<lambda>opts y. snd (fuse_opt_add_opt_escaped opts y)) None (x # xs) = Some s \<and>
    process_option_group cl ctx s = run_gopts cl ctx (x # xs)"
proof -
  let ?r = "concat (map (\<lambda>x. COMMA # copy_opt True x) xs)"
  have ne: "copy_opt True x \<noteq> []" using assms(1) by (cases x) auto
  have r: "?r = [] \<or> hd ?r = COMMA" by (cases xs) auto
  have "map cstr xs = xs" using assms(2) cstr_wf by (simp add: map_idI)
  then have "process_option_group cl ctx (copy_opt True x @ ?r) = run_gopts cl ctx (x # xs)"
    using real_option_group_escaped [OF r, of cl ctx x "[]"] real_option_group_list [of cl ctx xs x] assms(2) cstr_wf [of x]
    by (simp add: process_option_group_def)
  moreover have "snd (fuse_opt_add_opt_escaped None x) = Some (copy_opt True x)"
    by (simp add: fuse_opt_add_opt_escaped_def add_opt_common_def)
  ultimately show ?thesis using add_opts_escaped [OF ne, of xs] by simp
qed

text \<open>A caller without a processing function, and a context with an empty table.\<close>

definition plain_client :: "unit client" where
  "plain_client = \<lparr>set_int = (\<lambda>_ _ d. d), set_str = (\<lambda>_ _ d. d), sscanf = (\<lambda>_ _ _ d. (0, d)), proc = None\<rparr>"

definition plain_context :: "unit opt_context" where
  "plain_context = \<lparr>data = (), opt_table = [], argctr = 0, in_argv = [],
     outargs = \<lparr>argv = None, allocated = False\<rparr>, copts = None, nonopt = 0\<rparr>"

text \<open>The options \<open>a,b\<close> and \<open>c\<close>: the first one is not taken for two.\<close>

theorem escaped_options_parse_back_witness:
  "process_option_group plain_client plain_context [97, 92, 44, 98, 44, 99] =
     Some (0, plain_context\<lparr>copts := Some [97, 92, 44, 98, 44, 99]\<rparr>)"
proof -
  have "foldl (\<lambda>opts y. snd (fuse_opt_add_opt_escaped opts y)) None [[97, 44, 98], [99]] = Some [97, 92, 44, 98, 44, 99]"
    by (simp add: fuse_opt_add_opt_escaped_def add_opt_common_def)
  then have "process_option_group plain_client plain_context [97, 92, 44, 98, 44, 99] =
      run_gopts plain_client plain_context [[97, 44, 98], [99]]"
    using escaped_options_parse_back [of "[97, 44, 98]" "[[99]]" plain_client plain_context] by simp
  also have "\<dots> = Some (0, plain_context\<lparr>copts := Some [97, 92, 44, 98, 44, 99]\<rparr>)"
    by (simp add: process_gopt_def call_proc_def add_opt_def add_opt_common_def plain_client_def plain_context_def)
  finally show ?thesis .
qed

lemma opt_loop_plain:
  assumes "proc cl = None" "opt_table ctx = []" "nonopt ctx = 0" "\<forall>a \<in> set (drop (argctr ctx) (in_argv ctx)). str_at a 0 \<noteq> DASH"
    and "argctr ctx \<le> length (in_argv ctx)"
    and "outargs ctx = \<lparr>argv = Some (take (argctr ctx) (in_argv ctx)), allocated = True\<rparr>"
  shows "opt_loop cl ctx = Some (0, ctx\<lparr>argctr := length (in_argv ctx),
      outargs := \<lparr>argv = Some (in_argv ctx), allocated = True\<rparr>\<rparr>)"
  using assms
proof (induction "length (in_argv ctx) - argctr ctx" arbitrary: ctx)
  case 0
  then show ?case by (subst opt_loop.simps) simp
next
  case (Suc k)
  then have lt: "argctr ctx < length (in_argv ctx)" by simp
  let ?a = "in_argv ctx ! argctr ctx"
  have "drop (argctr ctx) (in_argv ctx) = ?a # drop (Suc (argctr ctx)) (in_argv ctx)"
    using lt by (rule Cons_nth_drop_Suc [symmetric])
  then have nd: "str_at ?a 0 \<noteq> DASH" "\<forall>a \<in> set (drop (Suc (argctr ctx)) (in_argv ctx)). str_at a 0 \<noteq> DASH"
    using Suc.prems(4) by simp_all
  let ?c = "ctx\<lparr>outargs := \<lparr>argv = Some (take (Suc (argctr ctx)) (in_argv ctx)), allocated = True\<rparr>\<rparr>"
  have one: "process_one cl ctx ?a = Some (0, ?c)"
    using Suc.prems(1,3,6) nd(1) lt
    by (simp add: process_one_def call_proc_def add_arg_def fuse_opt_add_arg_def args_list_def take_Suc_conv_app_nth)
  then have "opt_loop cl ctx = opt_loop cl (?c\<lparr>argctr := Suc (argctr ctx)\<rparr>)"
    using lt by (subst opt_loop.simps) simp
  also have "\<dots> = Some (0, (?c\<lparr>argctr := Suc (argctr ctx)\<rparr>)\<lparr>argctr := length (in_argv ctx),
      outargs := \<lparr>argv = Some (in_argv ctx), allocated = True\<rparr>\<rparr>)"
    using Suc.hyps(1) [of "?c\<lparr>argctr := Suc (argctr ctx)\<rparr>"] Suc.hyps(2) Suc.prems nd(2) lt by simp
  finally show ?case by simp
qed

text \<open>
  Without a table, a processing function and options, \<open>fuse_opt_parse\<close> gives the arguments
  back in a fresh vector.
\<close>

theorem parse_keeps_plain_arguments:
  assumes "argv a = Some (p # ps)" "proc cl = None" "\<forall>x \<in> set ps. str_at x 0 \<noteq> DASH"
  shows "fuse_opt_parse cl (Some a) dat [] = Some (0, Some \<lparr>argv = Some (p # ps), allocated = True\<rparr>, dat)"
proof -
  let ?c = "\<lparr>data = dat, opt_table = [], argctr = 1, in_argv = p # ps,
    outargs = \<lparr>argv = Some [p], allocated = True\<rparr>, copts = None, nonopt = 0\<rparr>"
  have "opt_loop cl ?c = Some (0, ?c\<lparr>argctr := length (p # ps), outargs := \<lparr>argv = Some (p # ps), allocated = True\<rparr>\<rparr>)"
    using opt_loop_plain [of cl ?c] assms by simp
  then show ?thesis using assms(1)
    by (simp add: fuse_opt_parse_def opt_parse_def add_arg_def fuse_opt_add_arg_def args_list_def argc_def)
qed

theorem parse_keeps_plain_arguments_witness:
  "fuse_opt_parse plain_client (Some \<lparr>argv = Some [[97], [98]], allocated = False\<rparr>) () [] =
     Some (0, Some \<lparr>argv = Some [[97], [98]], allocated = True\<rparr>, ())"
  by (rule parse_keeps_plain_arguments) (simp_all add: plain_client_def str_at_def)

end
