(* ===== verification/Fuse_Buf.thy ===== *)
theory Fuse_Buf
  imports Prelude
begin

text \<open>
  Copying between the buffers of the FUSE library (\<^verbatim>\<open>lib/buffer.c\<close>): a buffer is
  a piece of memory or a file descriptor, a vector is an array of buffers with a current
  position. Memory is a map from addresses to bytes, so that buffers may overlap. The operating
  system is a parameter, the record \<open>os\<close>: its calls return a count or -1 and change a state of
  their own. \<open>size_t\<close> is a 64-bit word. A loop that never ends, a failed \<open>assert\<close> and an index
  outside the array are \<open>None\<close>.
\<close>

section \<open>Buffers, vectors and the operating system\<close>

record fuse_buf =
  buf_size :: u64
  buf_flags :: u32
  buf_mem :: nat
  buf_fd :: int
  buf_pos :: u64

record fuse_bufvec =
  vcount :: u64
  vidx :: u64
  voff :: u64
  vbuf :: "fuse_buf list"

abbreviation "FUSE_BUF_IS_FD \<equiv> (2 :: u32)"
abbreviation "FUSE_BUF_FD_SEEK \<equiv> (4 :: u32)"
abbreviation "FUSE_BUF_FD_RETRY \<equiv> (8 :: u32)"
abbreviation "FUSE_BUF_NO_SPLICE \<equiv> (2 :: u32)"
abbreviation "FUSE_BUF_FORCE_SPLICE \<equiv> (4 :: u32)"
abbreviation "FUSE_BUF_SPLICE_MOVE \<equiv> (8 :: u32)"
abbreviation "FUSE_BUF_SPLICE_NONBLOCK \<equiv> (16 :: u32)"
abbreviation "SIZE_MAX \<equiv> (0xFFFFFFFFFFFFFFFF :: u64)"
abbreviation "EINVAL \<equiv> (22 :: int)"

record 'w os =
  os_write :: "int \<Rightarrow> bytes \<Rightarrow> 'w \<Rightarrow> int \<times> 'w"
  os_pwrite :: "int \<Rightarrow> bytes \<Rightarrow> u64 \<Rightarrow> 'w \<Rightarrow> int \<times> 'w"
  os_read :: "int \<Rightarrow> nat \<Rightarrow> 'w \<Rightarrow> int \<times> bytes \<times> 'w"
  os_pread :: "int \<Rightarrow> nat \<Rightarrow> u64 \<Rightarrow> 'w \<Rightarrow> int \<times> bytes \<times> 'w"
  os_splice :: "int \<Rightarrow> u64 option \<Rightarrow> int \<Rightarrow> u64 option \<Rightarrow> u64 \<Rightarrow> u32 \<Rightarrow> 'w \<Rightarrow> int \<times> u64 option \<times> u64 option \<times> 'w"
  os_errno :: "'w \<Rightarrow> int"
  have_splice :: bool
  local_buf :: nat

type_synonym 'w st = "mem \<times> 'w"

text \<open>\<open>size_t\<close> to \<open>ssize_t\<close> and back.\<close>

abbreviation "ssize (n :: u64) \<equiv> sint n"
abbreviation "size_of_int (i :: int) \<equiv> (word_of_int i :: u64)"

section \<open>Sizes\<close>

fun buf_size_loop :: "fuse_buf list \<Rightarrow> u64 \<Rightarrow> u64" where
  "buf_size_loop [] sz = sz"
| "buf_size_loop (b # bs) sz =
     (if buf_size b = SIZE_MAX then buf_size_loop bs SIZE_MAX else buf_size_loop bs (sz + buf_size b))"

definition fuse_buf_size :: "fuse_bufvec \<Rightarrow> u64 option" where
  "fuse_buf_size bufv =
     (if length (vbuf bufv) < unat (vcount bufv) then None
      else Some (buf_size_loop (take (unat (vcount bufv)) (vbuf bufv)) 0))"

definition min_size :: "u64 \<Rightarrow> u64 \<Rightarrow> u64" where
  "min_size s1 s2 = (if s1 < s2 then s1 else s2)"

section \<open>Memory and descriptors\<close>

partial_function (option) fuse_buf_write_loop ::
  "'w os \<Rightarrow> fuse_buf \<Rightarrow> u64 \<Rightarrow> fuse_buf \<Rightarrow> u64 \<Rightarrow> u64 \<Rightarrow> u64 \<Rightarrow> 'w st \<Rightarrow> (int \<times> 'w st) option" where
  "fuse_buf_write_loop os dst dst_off src src_off len copied st =
     (if len \<noteq> 0 then
        let bs = rdbytes (fst st) (buf_mem src + unat src_off) (unat len);
            (res, w) =
              (if buf_flags dst AND FUSE_BUF_FD_SEEK \<noteq> 0
               then os_pwrite os (buf_fd dst) bs (buf_pos dst + dst_off) (snd st)
               else os_write os (buf_fd dst) bs (snd st));
            st = (fst st, w)
        in if res = -1 then
             if copied = 0 then Some (- os_errno os w, st) else Some (ssize copied, st)
           else if res = 0 then Some (ssize copied, st)
           else
             let copied = copied + size_of_int res
             in if buf_flags dst AND FUSE_BUF_FD_RETRY = 0 then Some (ssize copied, st)
                else fuse_buf_write_loop os dst (dst_off + size_of_int res) src (src_off + size_of_int res)
                       (len - size_of_int res) copied st
      else Some (ssize copied, st))"

definition fuse_buf_write ::
  "'w os \<Rightarrow> fuse_buf \<Rightarrow> u64 \<Rightarrow> fuse_buf \<Rightarrow> u64 \<Rightarrow> u64 \<Rightarrow> 'w st \<Rightarrow> (int \<times> 'w st) option" where
  "fuse_buf_write os dst dst_off src src_off len st = fuse_buf_write_loop os dst dst_off src src_off len 0 st"

text \<open>The bytes that \<open>read\<close> transfers go to the memory of \<open>dst\<close>.\<close>

partial_function (option) fuse_buf_read_loop ::
  "'w os \<Rightarrow> fuse_buf \<Rightarrow> u64 \<Rightarrow> fuse_buf \<Rightarrow> u64 \<Rightarrow> u64 \<Rightarrow> u64 \<Rightarrow> 'w st \<Rightarrow> (int \<times> 'w st) option" where
  "fuse_buf_read_loop os dst dst_off src src_off len copied st =
     (if len \<noteq> 0 then
        let (res, bs, w) =
              (if buf_flags src AND FUSE_BUF_FD_SEEK \<noteq> 0
               then os_pread os (buf_fd src) (unat len) (buf_pos src + src_off) (snd st)
               else os_read os (buf_fd src) (unat len) (snd st));
            st = (wrbytes (fst st) (buf_mem dst + unat dst_off) bs, w)
        in if res = -1 then
             if copied = 0 then Some (- os_errno os w, st) else Some (ssize copied, st)
           else if res = 0 then Some (ssize copied, st)
           else
             let copied = copied + size_of_int res
             in if buf_flags src AND FUSE_BUF_FD_RETRY = 0 then Some (ssize copied, st)
                else fuse_buf_read_loop os dst (dst_off + size_of_int res) src (src_off + size_of_int res)
                       (len - size_of_int res) copied st
      else Some (ssize copied, st))"

definition fuse_buf_read ::
  "'w os \<Rightarrow> fuse_buf \<Rightarrow> u64 \<Rightarrow> fuse_buf \<Rightarrow> u64 \<Rightarrow> u64 \<Rightarrow> 'w st \<Rightarrow> (int \<times> 'w st) option" where
  "fuse_buf_read os dst dst_off src src_off len st = fuse_buf_read_loop os dst dst_off src src_off len 0 st"

section \<open>From descriptor to descriptor\<close>

text \<open>Through the array \<open>buf[4096]\<close> of the function, at the address \<open>local_buf\<close>.\<close>

definition tmp_buf :: "'w os \<Rightarrow> fuse_buf" where
  "tmp_buf os = \<lparr>buf_size = 4096, buf_flags = 0, buf_mem = local_buf os, buf_fd = 0, buf_pos = 0\<rparr>"

partial_function (option) fuse_buf_fd_to_fd_loop ::
  "'w os \<Rightarrow> fuse_buf \<Rightarrow> u64 \<Rightarrow> fuse_buf \<Rightarrow> u64 \<Rightarrow> u64 \<Rightarrow> u64 \<Rightarrow> 'w st \<Rightarrow> (int \<times> 'w st) option" where
  "fuse_buf_fd_to_fd_loop os dst dst_off src src_off len copied st =
     (if len \<noteq> 0 then
        let this_len = min_size (buf_size (tmp_buf os)) len
        in (case fuse_buf_read os (tmp_buf os) 0 src src_off this_len st of
              None \<Rightarrow> None
            | Some (res, st) \<Rightarrow>
                if res < 0 then if copied = 0 then Some (res, st) else Some (ssize copied, st)
                else if res = 0 then Some (ssize copied, st)
                else
                  let read_len = size_of_int res
                  in (case fuse_buf_write os dst dst_off (tmp_buf os) 0 read_len st of
                        None \<Rightarrow> None
                      | Some (res, st) \<Rightarrow>
                          if res < 0 then if copied = 0 then Some (res, st) else Some (ssize copied, st)
                          else if res = 0 then Some (ssize copied, st)
                          else
                            let copied = copied + size_of_int res
                            in if size_of_int res < this_len then Some (ssize copied, st)
                               else fuse_buf_fd_to_fd_loop os dst (dst_off + size_of_int res) src
                                      (src_off + size_of_int res) (len - size_of_int res) copied st))
      else Some (ssize copied, st))"

definition fuse_buf_fd_to_fd ::
  "'w os \<Rightarrow> fuse_buf \<Rightarrow> u64 \<Rightarrow> fuse_buf \<Rightarrow> u64 \<Rightarrow> u64 \<Rightarrow> 'w st \<Rightarrow> (int \<times> 'w st) option" where
  "fuse_buf_fd_to_fd os dst dst_off src src_off len st = fuse_buf_fd_to_fd_loop os dst dst_off src src_off len 0 st"

text \<open>The loop of \<open>splice\<close> calls; the kernel advances the positions that are given.\<close>

partial_function (option) splice_loop ::
  "'w os \<Rightarrow> fuse_buf \<Rightarrow> u64 \<Rightarrow> fuse_buf \<Rightarrow> u64 \<Rightarrow> u64 option \<Rightarrow> u64 option \<Rightarrow> u64 \<Rightarrow> u64 \<Rightarrow> u32 \<Rightarrow> u32 \<Rightarrow>
     'w st \<Rightarrow> (int \<times> 'w st) option" where
  "splice_loop os dst dst_off src src_off srcpos dstpos len copied splice_flags flags st =
     (if len \<noteq> 0 then
        let (res, srcpos, dstpos, w) =
              os_splice os (buf_fd src) srcpos (buf_fd dst) dstpos len splice_flags (snd st);
            st = (fst st, w)
        in if res = -1 then
             if copied \<noteq> 0 then Some (ssize copied, st)
             else if os_errno os w \<noteq> EINVAL \<or> flags AND FUSE_BUF_FORCE_SPLICE \<noteq> 0
             then Some (- os_errno os w, st)
             else fuse_buf_fd_to_fd os dst dst_off src src_off len st
           else if res = 0 then Some (ssize copied, st)
           else
             let copied = copied + size_of_int res
             in if buf_flags src AND FUSE_BUF_FD_RETRY = 0 \<and> buf_flags dst AND FUSE_BUF_FD_RETRY = 0
                then Some (ssize copied, st)
                else splice_loop os dst dst_off src src_off srcpos dstpos (len - size_of_int res) copied
                       splice_flags flags st
      else Some (ssize copied, st))"

definition fuse_buf_splice ::
  "'w os \<Rightarrow> fuse_buf \<Rightarrow> u64 \<Rightarrow> fuse_buf \<Rightarrow> u64 \<Rightarrow> u64 \<Rightarrow> u32 \<Rightarrow> 'w st \<Rightarrow> (int \<times> 'w st) option" where
  "fuse_buf_splice os dst dst_off src src_off len flags st =
     (if have_splice os then
        let splice_flags = 0;
            splice_flags = (if flags AND FUSE_BUF_SPLICE_MOVE \<noteq> 0 then splice_flags OR 1 else splice_flags);
            splice_flags = (if flags AND FUSE_BUF_SPLICE_NONBLOCK \<noteq> 0 then splice_flags OR 2 else splice_flags);
            srcpos = (if buf_flags src AND FUSE_BUF_FD_SEEK \<noteq> 0 then Some (buf_pos src + src_off) else None);
            dstpos = (if buf_flags dst AND FUSE_BUF_FD_SEEK \<noteq> 0 then Some (buf_pos dst + dst_off) else None)
        in splice_loop os dst dst_off src src_off srcpos dstpos len 0 splice_flags flags st
      else fuse_buf_fd_to_fd os dst dst_off src src_off len st)"

section \<open>One buffer\<close>

definition fuse_buf_copy_one ::
  "'w os \<Rightarrow> fuse_buf \<Rightarrow> u64 \<Rightarrow> fuse_buf \<Rightarrow> u64 \<Rightarrow> u64 \<Rightarrow> u32 \<Rightarrow> 'w st \<Rightarrow> (int \<times> 'w st) option" where
  "fuse_buf_copy_one os dst dst_off src src_off len flags st =
     (let src_is_fd = buf_flags src AND FUSE_BUF_IS_FD;
          dst_is_fd = buf_flags dst AND FUSE_BUF_IS_FD
      in if src_is_fd = 0 \<and> dst_is_fd = 0 then
           let dstmem = buf_mem dst + unat dst_off;
               srcmem = buf_mem src + unat src_off;
               st = (if dstmem \<noteq> srcmem
                     then (wrbytes (fst st) dstmem (rdbytes (fst st) srcmem (unat len)), snd st)
                     else st)
           in Some (ssize len, st)
         else if src_is_fd = 0 then fuse_buf_write os dst dst_off src src_off len st
         else if dst_is_fd = 0 then fuse_buf_read os dst dst_off src src_off len st
         else if flags AND FUSE_BUF_NO_SPLICE \<noteq> 0 then fuse_buf_fd_to_fd os dst dst_off src src_off len st
         else fuse_buf_splice os dst dst_off src src_off len flags st)"

section \<open>Vectors\<close>

text \<open>The outer option is for an index outside the array, the inner one for \<open>NULL\<close>.\<close>

definition fuse_bufvec_current :: "fuse_bufvec \<Rightarrow> fuse_buf option option" where
  "fuse_bufvec_current bufv =
     (if vidx bufv < vcount bufv then
        if unat (vidx bufv) < length (vbuf bufv) then Some (Some (vbuf bufv ! unat (vidx bufv))) else None
      else Some None)"

definition fuse_bufvec_advance :: "fuse_bufvec \<Rightarrow> u64 \<Rightarrow> (bool \<times> fuse_bufvec) option" where
  "fuse_bufvec_advance bufv len =
     (case fuse_bufvec_current bufv of
        None \<Rightarrow> None
      | Some None \<Rightarrow> Some (False, bufv)
      | Some (Some buf) \<Rightarrow>
          let bufv = bufv\<lparr>voff := voff bufv + len\<rparr>
          in if \<not> voff bufv \<le> buf_size buf then None
             else if voff bufv = buf_size buf then
               let bufv = bufv\<lparr>vidx := vidx bufv + 1\<rparr>
               in if vidx bufv = vcount bufv then Some (False, bufv)
                  else Some (True, bufv\<lparr>voff := 0\<rparr>)
             else Some (True, bufv))"

partial_function (option) fuse_buf_copy_loop ::
  "'w os \<Rightarrow> fuse_bufvec \<Rightarrow> fuse_bufvec \<Rightarrow> u32 \<Rightarrow> u64 \<Rightarrow> 'w st \<Rightarrow> (int \<times> fuse_bufvec \<times> fuse_bufvec \<times> 'w st) option" where
  "fuse_buf_copy_loop os dstv srcv flags copied st =
     (case fuse_bufvec_current srcv of
        None \<Rightarrow> None
      | Some src \<Rightarrow>
          (case fuse_bufvec_current dstv of
             None \<Rightarrow> None
           | Some dst \<Rightarrow>
               if src = None \<or> dst = None then Some (ssize copied, dstv, srcv, st)
               else
                 let src_len = buf_size (the src) - voff srcv;
                     dst_len = buf_size (the dst) - voff dstv;
                     len = min_size src_len dst_len
                 in (case fuse_buf_copy_one os (the dst) (voff dstv) (the src) (voff srcv) len flags st of
                       None \<Rightarrow> None
                     | Some (res, st) \<Rightarrow>
                         if res < 0 then
                           if copied = 0 then Some (res, dstv, srcv, st) else Some (ssize copied, dstv, srcv, st)
                         else
                           let copied = copied + size_of_int res
                           in (case fuse_bufvec_advance srcv (size_of_int res) of
                                 None \<Rightarrow> None
                               | Some (go, srcv) \<Rightarrow>
                                   if \<not> go then Some (ssize copied, dstv, srcv, st)
                                   else
                                     (case fuse_bufvec_advance dstv (size_of_int res) of
                                        None \<Rightarrow> None
                                      | Some (go, dstv) \<Rightarrow>
                                          if \<not> go then Some (ssize copied, dstv, srcv, st)
                                          else if size_of_int res < len then Some (ssize copied, dstv, srcv, st)
                                          else fuse_buf_copy_loop os dstv srcv flags copied st)))))"

text \<open>\<open>same\<close> is the comparison of the two pointers.\<close>

definition fuse_buf_copy ::
  "'w os \<Rightarrow> bool \<Rightarrow> fuse_bufvec \<Rightarrow> fuse_bufvec \<Rightarrow> u32 \<Rightarrow> 'w st \<Rightarrow>
     (int \<times> fuse_bufvec \<times> fuse_bufvec \<times> 'w st) option" where
  "fuse_buf_copy os same dstv srcv flags st =
     (if same then (case fuse_buf_size dstv of None \<Rightarrow> None | Some n \<Rightarrow> Some (ssize n, dstv, srcv, st))
      else fuse_buf_copy_loop os dstv srcv flags 0 st)"

section \<open>What a vector still holds\<close>

text \<open>The addresses from the current position on.\<close>

definition buf_addrs :: "fuse_buf \<Rightarrow> nat list" where
  "buf_addrs b = [buf_mem b..<buf_mem b + unat (buf_size b)]"

definition vec_rest :: "fuse_bufvec \<Rightarrow> nat list" where
  "vec_rest v =
     (if vidx v < vcount v then
        drop (unat (voff v)) (buf_addrs (vbuf v ! unat (vidx v))) @
        concat (map buf_addrs (drop (Suc (unat (vidx v))) (take (unat (vcount v)) (vbuf v))))
      else [])"

definition vec_ok :: "fuse_bufvec \<Rightarrow> bool" where
  "vec_ok v \<longleftrightarrow>
     unat (vcount v) \<le> length (vbuf v) \<and>
     (\<forall>b \<in> set (vbuf v). buf_flags b AND FUSE_BUF_IS_FD = 0) \<and>
     (vidx v < vcount v \<longrightarrow> voff v \<le> buf_size (vbuf v ! unat (vidx v)))"

lemma vec_current:
  assumes "vec_ok v"
  shows "fuse_bufvec_current v = Some (if vidx v < vcount v then Some (vbuf v ! unat (vidx v)) else None)"
  using assms by (auto simp: vec_ok_def fuse_bufvec_current_def word_less_nat_alt)

lemma vec_rest_current:
  assumes "vec_ok v" "vidx v < vcount v"
  defines "b \<equiv> vbuf v ! unat (vidx v)"
  shows "take (unat (buf_size b - voff v)) (vec_rest v) = [buf_mem b + unat (voff v)..<buf_mem b + unat (buf_size b)]"
    "unat (buf_size b - voff v) \<le> length (vec_rest v)"
    "buf_mem b + unat (voff v) + unat (buf_size b - voff v) = buf_mem b + unat (buf_size b)"
    "buf_flags b AND FUSE_BUF_IS_FD = 0"
proof -
  have le: "voff v \<le> buf_size b" using assms by (simp add: vec_ok_def)
  then have u: "unat (buf_size b - voff v) = unat (buf_size b) - unat (voff v)" by (rule unat_sub)
  have le': "unat (voff v) \<le> unat (buf_size b)" using le by (simp add: word_le_nat_alt)
  have d: "drop (unat (voff v)) (buf_addrs b) = [buf_mem b + unat (voff v)..<buf_mem b + unat (buf_size b)]"
    by (simp add: buf_addrs_def)
  then show "take (unat (buf_size b - voff v)) (vec_rest v) = [buf_mem b + unat (voff v)..<buf_mem b + unat (buf_size b)]"
    "unat (buf_size b - voff v) \<le> length (vec_rest v)"
    using assms(2) by (simp_all add: vec_rest_def b_def [symmetric] u)
  show "buf_mem b + unat (voff v) + unat (buf_size b - voff v) = buf_mem b + unat (buf_size b)" using u le' by simp
  have "unat (vidx v) < length (vbuf v)" using assms(1,2) by (simp add: vec_ok_def word_less_nat_alt)
  then show "buf_flags b AND FUSE_BUF_IS_FD = 0" using assms(1) by (simp add: vec_ok_def b_def)
qed

lemma vec_advance:
  assumes "vec_ok v" "vidx v < vcount v" "n \<le> buf_size (vbuf v ! unat (vidx v)) - voff v"
  shows "\<exists>go v'. fuse_bufvec_advance v n = Some (go, v') \<and> vec_ok v' \<and> vec_rest v' = drop (unat n) (vec_rest v) \<and>
    vbuf v' = vbuf v \<and> vcount v' = vcount v \<and> (go \<longleftrightarrow> vidx v' < vcount v') \<and>
    (n = buf_size (vbuf v ! unat (vidx v)) - voff v \<longrightarrow> unat (vidx v') = Suc (unat (vidx v))) \<and>
    unat (vidx v) \<le> unat (vidx v')"
proof -
  let ?i = "unat (vidx v)"
  define b where "b = vbuf v ! ?i"
  have le: "voff v \<le> buf_size b" using assms(1,2) by (simp add: vec_ok_def b_def)
  then have u: "unat (buf_size b - voff v) = unat (buf_size b) - unat (voff v)" by (rule unat_sub)
  have nle: "unat n \<le> unat (buf_size b) - unat (voff v)" using assms(3) u by (simp add: b_def word_le_nat_alt)
  have le': "unat (voff v) \<le> unat (buf_size b)" using le by (simp add: word_le_nat_alt)
  have add: "unat (voff v + n) = unat (voff v) + unat n"
  proof -
    have "unat (buf_size b) < 2 ^ 64" using unsigned_less [of "buf_size b"] by simp
    then have "unat (voff v) + unat n < 2 ^ LENGTH(64)" using nle le' by simp
    then show ?thesis by (rule unat_add_lem [THEN iffD1])
  qed
  then have off: "voff v + n \<le> buf_size b" using nle le' by (simp add: word_le_nat_alt)
  have i: "?i < length (vbuf v)" "?i < unat (vcount v)" "unat (vcount v) \<le> length (vbuf v)"
    using assms(1,2) by (simp_all add: vec_ok_def word_less_nat_alt)
  have suc: "unat (vidx v + 1) = Suc ?i" by (rule Suc_unat_word [OF assms(2)])
  have cur: "fuse_bufvec_current v = Some (Some b)" using vec_current [OF assms(1)] assms(2) by (simp add: b_def)
  have len: "length (buf_addrs b) = unat (buf_size b)" by (simp add: buf_addrs_def)
  have rest: "drop (unat n) (vec_rest v) = drop (unat (voff v) + unat n) (buf_addrs b) @
      concat (map buf_addrs (drop (Suc ?i) (take (unat (vcount v)) (vbuf v))))"
    using assms(2) nle le' len by (simp add: vec_rest_def b_def [symmetric] add.commute)
  show ?thesis
  proof (cases "voff v + n = buf_size b")
    case False
    have "n \<noteq> buf_size b - voff v" using False by auto
    moreover have "fuse_bufvec_advance v n = Some (True, v\<lparr>voff := voff v + n\<rparr>)"
      using cur off False by (simp add: fuse_bufvec_advance_def)
    ultimately show ?thesis using assms(1,2) off rest
      by (intro exI [of _ True] exI [of _ "v\<lparr>voff := voff v + n\<rparr>"])
        (simp add: vec_ok_def vec_rest_def b_def [symmetric] add)
  next
    case True
    then have n: "unat (voff v) + unat n = unat (buf_size b)" using add by simp
    have r: "drop (unat n) (vec_rest v) = concat (map buf_addrs (drop (Suc ?i) (take (unat (vcount v)) (vbuf v))))"
      using rest len n by simp
    show ?thesis
    proof (cases "vidx v + 1 = vcount v")
      case last: True
      have "fuse_bufvec_advance v n = Some (False, v\<lparr>voff := voff v + n, vidx := vidx v + 1\<rparr>)"
        using cur off True last by (simp add: fuse_bufvec_advance_def)
      moreover have "unat (vcount v) = Suc ?i" using suc last by simp
      ultimately show ?thesis using assms(1) last r suc i
        by (intro exI [of _ False] exI [of _ "v\<lparr>voff := voff v + n, vidx := vidx v + 1\<rparr>"])
          (simp add: vec_ok_def vec_rest_def)
    next
      case more: False
      then have "Suc ?i \<noteq> unat (vcount v)" using suc by (metis word_unat_eq_iff)
      then have lt: "vidx v + 1 < vcount v" "Suc ?i < unat (vcount v)" using i(2) suc by (simp_all add: word_less_nat_alt)
      have adv: "fuse_bufvec_advance v n = Some (True, v\<lparr>vidx := vidx v + 1, voff := 0\<rparr>)"
        using cur off True more by (simp add: fuse_bufvec_advance_def)
      have "drop (Suc ?i) (take (unat (vcount v)) (vbuf v)) =
          vbuf v ! Suc ?i # drop (Suc (Suc ?i)) (take (unat (vcount v)) (vbuf v))"
        using lt(2) i(3) Cons_nth_drop_Suc [of "Suc ?i" "take (unat (vcount v)) (vbuf v)"] by simp
      then have "vec_rest (v\<lparr>vidx := vidx v + 1, voff := 0\<rparr>) = drop (unat n) (vec_rest v)"
        using lt(1) r suc by (simp add: vec_rest_def)
      then show ?thesis using adv assms(1) lt(1) suc
        by (intro exI [of _ True] exI [of _ "v\<lparr>vidx := vidx v + 1, voff := 0\<rparr>"]) (simp add: vec_ok_def)
    qed
  qed
qed

section \<open>Copying memory\<close>

text \<open>The first \<open>n\<close> bytes at the addresses \<open>ss\<close> are now at \<open>ds\<close>; nothing else has changed.\<close>

definition bytes_copied :: "nat \<Rightarrow> nat list \<Rightarrow> nat list \<Rightarrow> mem \<Rightarrow> mem \<Rightarrow> bool" where
  "bytes_copied n ds ss m m' \<longleftrightarrow>
     (\<forall>i < n. m' (ds ! i) = m (ss ! i)) \<and> (\<forall>x. x \<notin> set (take n ds) \<longrightarrow> m' x = m x)"

lemma bytes_copied_0: "bytes_copied 0 ds ss m m"
  by (simp add: bytes_copied_def)

lemma bytes_copied_run:
  assumes "take k ds = [d..<d + k]" "take k ss = [s..<s + k]" "k \<le> length ds" "k \<le> length ss"
  shows "bytes_copied k ds ss m (wrbytes m d (rdbytes m s k))"
proof -
  have "ds ! i = d + i" "ss ! i = s + i" if "i < k" for i
    using that nth_take [of i k ds] nth_take [of i k ss] assms(1,2) by simp_all
  then show ?thesis
    unfolding bytes_copied_def assms(1) by (auto simp: wrbytes_in wrbytes_out)
qed

lemma bytes_copied_append:
  assumes "bytes_copied k ds ss m m1" "bytes_copied l (drop k ds) (drop k ss) m1 m2"
    and "k + l \<le> length ds" "k + l \<le> length ss" "distinct ds" "set ds \<inter> set ss = {}"
  shows "bytes_copied (k + l) ds ss m m2"
  unfolding bytes_copied_def
proof (intro conjI allI impI)
  fix i assume i: "i < k + l"
  show "m2 (ds ! i) = m (ss ! i)"
  proof (cases "i < k")
    case True
    have "ds ! i \<notin> set (take l (drop k ds))"
    proof
      assume "ds ! i \<in> set (take l (drop k ds))"
      then obtain j where "j < length (take l (drop k ds))" "take l (drop k ds) ! j = ds ! i"
        unfolding in_set_conv_nth by blast
      then have "j < l" "k + j < length ds" "ds ! (k + j) = ds ! i" by auto
      then show False using assms(5) True by (simp add: nth_eq_iff_index_eq)
    qed
    then show ?thesis using assms(1,2) True by (simp add: bytes_copied_def)
  next
    case False
    then have j: "i - k < l" "k + (i - k) = i" "i < length ds" "i < length ss" using i assms(3,4) by simp_all
    have "m2 (drop k ds ! (i - k)) = m1 (drop k ss ! (i - k))" using assms(2) j(1) by (simp add: bytes_copied_def)
    then have "m2 (ds ! i) = m1 (ss ! i)" using j by simp
    moreover have "ss ! i \<notin> set (take k ds)" using assms(6) j(4) nth_mem in_set_takeD by fastforce
    ultimately show ?thesis using assms(1) by (simp add: bytes_copied_def)
  qed
next
  fix x assume "x \<notin> set (take (k + l) ds)"
  then have "x \<notin> set (take k ds)" "x \<notin> set (take l (drop k ds))"
    by (simp_all add: take_add)
  then show "m2 x = m x" using assms(1,2) by (simp add: bytes_copied_def)
qed

lemma min_size_cases: "min_size a b = a \<or> min_size a b = b" "min_size a b \<le> a" "min_size a b \<le> b"
  by (auto simp: min_size_def)

lemma size_of_ssize [simp]: "size_of_int (ssize n) = n"
  by simp

text \<open>One step of the loop.\<close>

lemma copy_one_mem:
  assumes "vec_ok dv" "vec_ok sv" "vidx dv < vcount dv" "vidx sv < vcount sv"
    and "set (vec_rest dv) \<inter> set (vec_rest sv) = {}"
  defines "d \<equiv> vbuf dv ! unat (vidx dv)" and "s \<equiv> vbuf sv ! unat (vidx sv)"
  defines "len \<equiv> min_size (buf_size s - voff sv) (buf_size d - voff dv)"
  shows "\<exists>m'. fuse_buf_copy_one os d (voff dv) s (voff sv) len flags (m, w) = Some (ssize len, m', w) \<and>
    bytes_copied (unat len) (vec_rest dv) (vec_rest sv) m m'"
    "unat len \<le> length (vec_rest dv)" "unat len \<le> length (vec_rest sv)"
proof -
  note cd = vec_rest_current [OF assms(1,3), folded d_def] and cs = vec_rest_current [OF assms(2,4), folded s_def]
  have le: "unat len \<le> unat (buf_size d - voff dv)" "unat len \<le> unat (buf_size s - voff sv)"
    using min_size_cases(2,3) by (simp_all add: len_def word_le_nat_alt [symmetric])
  then show l: "unat len \<le> length (vec_rest dv)" "unat len \<le> length (vec_rest sv)" using cd(2) cs(2) by simp_all
  let ?dm = "buf_mem d + unat (voff dv)" and ?sm = "buf_mem s + unat (voff sv)"
  have td: "take (unat len) (vec_rest dv) = [?dm..<?dm + unat len]"
    using arg_cong [OF cd(1), of "take (unat len)"] le(1) cd(3) by (simp add: min_absorb1)
  have ts: "take (unat len) (vec_rest sv) = [?sm..<?sm + unat len]"
    using arg_cong [OF cs(1), of "take (unat len)"] le(2) cs(3) by (simp add: min_absorb1)
  note run = bytes_copied_run [OF td ts l, of m]
  have "rdbytes m ?sm (unat len) = []" if "?dm = ?sm"
  proof -
    have "unat len = 0"
    proof (rule ccontr)
      assume "unat len \<noteq> 0"
      then have "?dm \<in> set (take (unat len) (vec_rest dv))" "?sm \<in> set (take (unat len) (vec_rest sv))"
        unfolding td ts by simp_all
      then show False using assms(5) that by (auto dest: in_set_takeD)
    qed
    then show ?thesis by simp
  qed
  then show "\<exists>m'. fuse_buf_copy_one os d (voff dv) s (voff sv) len flags (m, w) = Some (ssize len, m', w) \<and>
    bytes_copied (unat len) (vec_rest dv) (vec_rest sv) m m'"
    using cd(4) cs(4) run by (cases "?dm = ?sm") (simp_all add: fuse_buf_copy_one_def)
qed

lemma copy_loop_mem:
  assumes "vec_ok dv" "vec_ok sv" "distinct (vec_rest dv)" "set (vec_rest dv) \<inter> set (vec_rest sv) = {}"
    and "unat copied + length (vec_rest sv) < 2 ^ 63"
  shows "\<exists>dv' sv' m'. fuse_buf_copy_loop os dv sv flags copied (m, w) =
      Some (int (unat copied + min (length (vec_rest dv)) (length (vec_rest sv))), dv', sv', m', w) \<and>
    bytes_copied (min (length (vec_rest dv)) (length (vec_rest sv))) (vec_rest dv) (vec_rest sv) m m'"
  using assms
proof (induction "(unat (vcount dv) - unat (vidx dv)) + (unat (vcount sv) - unat (vidx sv))"
    arbitrary: dv sv copied m rule: less_induct)
  case less
  let ?ds = "vec_rest dv" and ?ss = "vec_rest sv"
  note cur = vec_current [OF less.prems(1)] vec_current [OF less.prems(2)]
  have c63: "unat copied < 2 ^ 63" using less.prems(5) by simp
  show ?case
  proof (cases "vidx dv < vcount dv \<and> vidx sv < vcount sv")
    case False
    then have "?ds = [] \<or> ?ss = []" by (auto simp: vec_rest_def)
    then have n: "min (length ?ds) (length ?ss) = 0" by auto
    have "fuse_buf_copy_loop os dv sv flags copied (m, w) = Some (ssize copied, dv, sv, m, w)"
      using False cur by (subst fuse_buf_copy_loop.simps) auto
    then show ?thesis using n sint_small [OF c63] bytes_copied_0 by auto
  next
    case True
    then have ix: "vidx dv < vcount dv" "vidx sv < vcount sv" by simp_all
    let ?d = "vbuf dv ! unat (vidx dv)" and ?s = "vbuf sv ! unat (vidx sv)"
    define len where "len = min_size (buf_size ?s - voff sv) (buf_size ?d - voff dv)"
    note one = copy_one_mem [OF less.prems(1,2) ix less.prems(4), folded len_def]
    obtain m1 where m1: "fuse_buf_copy_one os ?d (voff dv) ?s (voff sv) len flags (m, w) = Some (ssize len, m1, w)"
      "bytes_copied (unat len) ?ds ?ss m m1" using one(1) [of os flags m w] by blast
    have l63: "unat len < 2 ^ 63" using one(3) less.prems(5) by linarith
    have add: "unat (copied + len) = unat copied + unat len"
    proof -
      have "unat copied + unat len < 2 ^ LENGTH(64)" using one(3) less.prems(5) by simp
      then show ?thesis by (rule unat_add_lem [THEN iffD1])
    qed
    have lens: "len \<le> buf_size ?s - voff sv" "len \<le> buf_size ?d - voff dv"
      using min_size_cases(2,3) by (simp_all add: len_def)
    obtain gs sv1 where s1: "fuse_bufvec_advance sv len = Some (gs, sv1)" "vec_ok sv1" "vec_rest sv1 = drop (unat len) ?ss"
      "vcount sv1 = vcount sv" "gs \<longleftrightarrow> vidx sv1 < vcount sv1" "len = buf_size ?s - voff sv \<longrightarrow> unat (vidx sv1) = Suc (unat (vidx sv))"
      "unat (vidx sv) \<le> unat (vidx sv1)"
      using vec_advance [OF less.prems(2) ix(2) lens(1)] by blast
    obtain gd dv1 where d1: "fuse_bufvec_advance dv len = Some (gd, dv1)" "vec_ok dv1" "vec_rest dv1 = drop (unat len) ?ds"
      "vcount dv1 = vcount dv" "gd \<longleftrightarrow> vidx dv1 < vcount dv1" "len = buf_size ?d - voff dv \<longrightarrow> unat (vidx dv1) = Suc (unat (vidx dv))"
      "unat (vidx dv) \<le> unat (vidx dv1)"
      using vec_advance [OF less.prems(1) ix(1) lens(2)] by blast
    have nneg: "\<not> ssize len < 0" using sint_small [OF l63] by simp
    have step: "fuse_buf_copy_loop os dv sv flags copied (m, w) =
        (if \<not> gs then Some (ssize (copied + len), dv, sv1, m1, w)
         else if \<not> gd then Some (ssize (copied + len), dv1, sv1, m1, w)
         else fuse_buf_copy_loop os dv1 sv1 flags (copied + len) (m1, w))"
      using cur ix m1(1) nneg s1(1) d1(1)
      by (subst fuse_buf_copy_loop.simps) (simp add: len_def [symmetric] Let_def)
    have sum: "ssize (copied + len) = int (unat copied + unat len)"
      using sint_small [of "copied + len"] add one(3) less.prems(5) by simp
    show ?thesis
    proof (cases "gs \<and> gd")
      case False
      then have "vec_rest sv1 = [] \<or> vec_rest dv1 = []" using s1(5) d1(5) by (auto simp: vec_rest_def)
      then have "min (length ?ds) (length ?ss) = unat len" using s1(3) d1(3) one(2,3) by auto
      then show ?thesis using step False sum m1(2) by auto
    next
      case go: True
      let ?l = "min (length (vec_rest dv1)) (length (vec_rest sv1))"
      have m: "unat (vcount dv1) - unat (vidx dv1) + (unat (vcount sv1) - unat (vidx sv1)) <
          unat (vcount dv) - unat (vidx dv) + (unat (vcount sv) - unat (vidx sv))"
        using min_size_cases(1) [of "buf_size ?s - voff sv" "buf_size ?d - voff dv"] s1(4,6,7) d1(4,6,7) ix
        by (auto simp: len_def [symmetric] word_less_nat_alt)
      have p: "distinct (vec_rest dv1)" "set (vec_rest dv1) \<inter> set (vec_rest sv1) = {}"
        "unat (copied + len) + length (vec_rest sv1) < 2 ^ 63"
        using less.prems(3-5) s1(3) d1(3) add one(3) set_drop_subset [of "unat len" ?ds] set_drop_subset [of "unat len" ?ss]
        by auto
      obtain dv' sv' m' where ih: "fuse_buf_copy_loop os dv1 sv1 flags (copied + len) (m1, w) =
          Some (int (unat (copied + len) + ?l), dv', sv', m', w)"
        "bytes_copied ?l (vec_rest dv1) (vec_rest sv1) m1 m'"
        using less.hyps [OF m d1(2) s1(2) p] by blast
      have n: "min (length ?ds) (length ?ss) = unat len + ?l" using s1(3) d1(3) one(2,3) by simp
      have "bytes_copied (unat len + ?l) ?ds ?ss m m'"
        using bytes_copied_append [OF m1(2) ih(2) [unfolded s1(3) d1(3)] _ _ less.prems(3,4)] one(2,3) s1(3) d1(3) by simp
      then show ?thesis using step go ih(1) add n by simp
    qed
  qed
qed

section \<open>Writing to a descriptor\<close>

text \<open>
  What POSIX promises of \<open>write\<close> and \<open>pwrite\<close>: -1, with a positive \<open>errno\<close>, or the number of
  bytes taken; and that something is taken.
\<close>

definition write_counts :: "'w os \<Rightarrow> bool" where
  "write_counts os \<longleftrightarrow>
     (\<forall>fd bs w. - 1 \<le> fst (os_write os fd bs w) \<and> fst (os_write os fd bs w) \<le> int (length bs)) \<and>
     (\<forall>fd bs p w. - 1 \<le> fst (os_pwrite os fd bs p w) \<and> fst (os_pwrite os fd bs p w) \<le> int (length bs)) \<and>
     (\<forall>w. 0 < os_errno os w)"

definition write_progresses :: "'w os \<Rightarrow> bool" where
  "write_progresses os \<longleftrightarrow>
     (\<forall>fd bs w. bs \<noteq> [] \<longrightarrow> 0 < fst (os_write os fd bs w)) \<and>
     (\<forall>fd bs p w. bs \<noteq> [] \<longrightarrow> 0 < fst (os_pwrite os fd bs p w))"

lemma size_of_int_unat:
  assumes "0 \<le> r" "r \<le> int k" "k < 2 ^ 63"
  shows "unat (size_of_int r) = nat r"
proof -
  have "nat r < 2 ^ 64" using assms by simp
  then have "unat (of_nat (nat r) :: u64) = nat r" by (simp add: unat_of_nat)
  then show ?thesis using assms(1) by simp
qed

lemma write_loop_result:
  assumes "write_counts os" "unat copied + unat len < 2 ^ 63"
  shows "\<exists>r w'. fuse_buf_write_loop os dst dst_off src src_off len copied (m, w) = Some (r, m, w') \<and>
    r \<le> int (unat copied + unat len) \<and>
    (write_progresses os \<and> buf_flags dst AND FUSE_BUF_FD_RETRY \<noteq> 0 \<longrightarrow> r = int (unat copied + unat len))"
  using assms(2)
proof (induction "unat len" arbitrary: len copied dst_off src_off w rule: less_induct)
  case less
  have sc: "ssize copied = int (unat copied)" using less.prems by (intro sint_small) simp
  show ?case
  proof (cases "len = 0")
    case True
    then show ?thesis using sc by (subst fuse_buf_write_loop.simps) simp
  next
    case False
    then have l0: "0 < unat len" by (simp add: unat_gt_0)
    let ?bs = "rdbytes m (buf_mem src + unat src_off) (unat len)"
    obtain r w1 where r: "(if buf_flags dst AND FUSE_BUF_FD_SEEK \<noteq> 0
               then os_pwrite os (buf_fd dst) ?bs (buf_pos dst + dst_off) w
               else os_write os (buf_fd dst) ?bs w) = (r, w1)" by fastforce
    have rb: "- 1 \<le> r" "r \<le> int (unat len)" "write_progresses os \<Longrightarrow> 0 < r"
    proof -
      have bs: "length ?bs = unat len" "?bs \<noteq> []" using l0 by (simp_all flip: length_0_conv)
      have "r = fst (if buf_flags dst AND FUSE_BUF_FD_SEEK \<noteq> 0
               then os_pwrite os (buf_fd dst) ?bs (buf_pos dst + dst_off) w
               else os_write os (buf_fd dst) ?bs w)" using r by simp
      then show "- 1 \<le> r" "r \<le> int (unat len)" "write_progresses os \<Longrightarrow> 0 < r"
        using assms(1) bs unfolding write_counts_def write_progresses_def by (simp_all only: split: if_split) (metis bs(1))+
    qed
    have step: "fuse_buf_write_loop os dst dst_off src src_off len copied (m, w) =
        (if r = -1 then if copied = 0 then Some (- os_errno os w1, m, w1) else Some (ssize copied, m, w1)
         else if r = 0 then Some (ssize copied, m, w1)
         else if buf_flags dst AND FUSE_BUF_FD_RETRY = 0 then Some (ssize (copied + size_of_int r), m, w1)
         else fuse_buf_write_loop os dst (dst_off + size_of_int r) src (src_off + size_of_int r)
                (len - size_of_int r) (copied + size_of_int r) (m, w1))"
      unfolding fuse_buf_write_loop.simps [of os dst dst_off src src_off len copied "(m, w)"] fst_conv snd_conv Let_def r prod.case
      using False by simp
    show ?thesis
    proof (cases "r \<le> 0")
      case True
      have "0 < os_errno os w1" using assms(1) by (simp add: write_counts_def)
      then show ?thesis using step True rb sc by (cases "r = 0") auto
    next
      case pos: False
      have u: "unat (size_of_int r) = nat r" using pos rb(2) less.prems by (intro size_of_int_unat [of r "unat len"]) simp_all
      have nr: "0 < nat r" "nat r \<le> unat len" using pos rb(2) by (simp, simp only: nat_le_iff)
      have c: "unat (copied + size_of_int r) = unat copied + nat r"
      proof -
        have "unat copied + unat (size_of_int r) < 2 ^ LENGTH(64)" using u nr less.prems by simp
        then show ?thesis using u by (simp add: unat_add_lem [THEN iffD1])
      qed
      have l: "unat (len - size_of_int r) = unat len - nat r"
        using u nr by (subst unat_sub) (simp_all add: word_le_nat_alt)
      have sum: "unat (copied + size_of_int r) + unat (len - size_of_int r) = unat copied + unat len" using c l nr by simp
      show ?thesis
      proof (cases "buf_flags dst AND FUSE_BUF_FD_RETRY = 0")
        case True
        have "ssize (copied + size_of_int r) = int (unat copied + nat r)"
          using c nr less.prems by (subst sint_small) simp_all
        then show ?thesis using step pos rb True nr by auto
      next
        case False
        have lt: "unat (len - size_of_int r) < unat len" using l nr by simp
        obtain r' w' where ih: "fuse_buf_write_loop os dst (dst_off + size_of_int r) src (src_off + size_of_int r)
                (len - size_of_int r) (copied + size_of_int r) (m, w1) = Some (r', m, w')"
          "r' \<le> int (unat copied + unat len)"
          "write_progresses os \<and> buf_flags dst AND FUSE_BUF_FD_RETRY \<noteq> 0 \<longrightarrow> r' = int (unat copied + unat len)"
          using less.hyps [OF lt, of "copied + size_of_int r" "dst_off + size_of_int r" "src_off + size_of_int r" w1]
            less.prems unfolding sum by auto
        then show ?thesis using step pos False by auto
      qed
    qed
  qed
qed

section \<open>Properties\<close>

text \<open>
  C19. \<open>fuse_buf_copy\<close> between two vectors of memory buffers that do not overlap copies as many
  bytes as both hold from their positions on, in order, returns their number and leaves all other
  memory as it was, wherever the boundaries of the buffers are.
\<close>

theorem fuse_buf_copy_memory:
  assumes "vec_ok dstv" "vec_ok srcv" "distinct (vec_rest dstv)" "set (vec_rest dstv) \<inter> set (vec_rest srcv) = {}"
    and "length (vec_rest srcv) < 2 ^ 63"
  defines "n \<equiv> min (length (vec_rest dstv)) (length (vec_rest srcv))"
  shows "\<exists>dstv' srcv' m'. fuse_buf_copy os False dstv srcv flags (m, w) = Some (int n, dstv', srcv', m', w) \<and>
    bytes_copied n (vec_rest dstv) (vec_rest srcv) m m'"
  using copy_loop_mem [OF assms(1-4), of 0 os flags m w] assms(5) by (simp add: fuse_buf_copy_def n_def)

definition mem_buf :: "nat \<Rightarrow> u64 \<Rightarrow> fuse_buf" where
  "mem_buf a n = \<lparr>buf_size = n, buf_flags = 0, buf_mem = a, buf_fd = 0, buf_pos = 0\<rparr>"

definition mem_vec :: "fuse_buf list \<Rightarrow> fuse_bufvec" where
  "mem_vec bs = \<lparr>vcount = of_nat (length bs), vidx = 0, voff = 0, vbuf = bs\<rparr>"

text \<open>A file that takes one byte at a time.\<close>

definition byte_os :: "bytes os" where
  "byte_os = \<lparr>os_write = (\<lambda>fd bs w. if bs = [] then (0, w) else (1, w @ [hd bs])),
     os_pwrite = (\<lambda>fd bs p w. if bs = [] then (0, w) else (1, w @ [hd bs])),
     os_read = (\<lambda>fd n w. (0, [], w)), os_pread = (\<lambda>fd n p w. (0, [], w)),
     os_splice = (\<lambda>f p g q n l w. (-1, p, q, w)), os_errno = (\<lambda>w. 5), have_splice = False, local_buf = 0\<rparr>"

text \<open>Four bytes from two buffers into the one at address 0, of which one byte is left.\<close>

theorem fuse_buf_copy_memory_witness:
  "\<exists>d s m'. fuse_buf_copy byte_os False (mem_vec [mem_buf 0 5]) (mem_vec [mem_buf 100 2, mem_buf 200 2]) 0
     (\<lambda>a. of_nat a, []) = Some (4, d, s, m', []) \<and> m' 1 = 101 \<and> m' 2 = 200 \<and> m' 4 = 4"
proof -
  let ?d = "mem_vec [mem_buf 0 5]" and ?s = "mem_vec [mem_buf 100 2, mem_buf 200 2]"
  have r: "vec_rest ?d = [0, 1, 2, 3, 4]" "vec_rest ?s = [100, 101, 200, 201]"
    by (simp_all add: vec_rest_def mem_vec_def mem_buf_def buf_addrs_def upt_rec)
  have ok: "vec_ok ?d" "vec_ok ?s" by (simp_all add: vec_ok_def mem_vec_def mem_buf_def)
  have n: "min (length (vec_rest ?d)) (length (vec_rest ?s)) = 4" unfolding r by simp
  have side: "distinct (vec_rest ?d)" "set (vec_rest ?d) \<inter> set (vec_rest ?s) = {}" "length (vec_rest ?s) < 2 ^ 63"
    unfolding r by simp_all
  obtain d s m' where c: "fuse_buf_copy byte_os False ?d ?s 0 (\<lambda>a. of_nat a, []) = Some (int 4, d, s, m', [])"
    "bytes_copied 4 [0, 1, 2, 3, 4] [100, 101, 200, 201] (\<lambda>a. of_nat a) m'"
    using fuse_buf_copy_memory [OF ok side, of byte_os 0 "\<lambda>a. of_nat a" "[]", unfolded n] unfolding r by blast
  have P: "\<forall>i < 4. m' ([0, 1, 2, 3, 4] ! i) = of_nat ([100, 101, 200, 201] ! i)"
    "\<forall>x. x \<notin> set (take 4 [0, 1, 2, 3, 4 :: nat]) \<longrightarrow> m' x = of_nat x"
    using c(2) unfolding bytes_copied_def by blast+
  have "m' 1 = 101" "m' 2 = 200" "m' 4 = 4"
    using spec [OF P(1), of 1] spec [OF P(1), of 2] spec [OF P(2), of 4] by simp_all
  then show ?thesis using c(1) by auto
qed

text \<open>
  \<open>fuse_buf_write\<close> ends, leaves memory as it was and never reports more than it was asked
  to write, when \<open>write\<close> and \<open>pwrite\<close> keep to what POSIX says.
\<close>

theorem fuse_buf_write_ends:
  assumes "write_counts os" "unat len < 2 ^ 63"
  shows "\<exists>r w'. fuse_buf_write os dst dst_off src src_off len (m, w) = Some (r, m, w') \<and> r \<le> int (unat len)"
  using write_loop_result [OF assms(1), of 0 len dst dst_off src src_off m w] assms(2)
  by (auto simp: fuse_buf_write_def)

text \<open>
  With \<open>FUSE_BUF_FD_RETRY\<close> everything is written in the end, as long as each call writes
  something.
\<close>

theorem fuse_buf_write_retries:
  assumes "write_counts os" "write_progresses os" "unat len < 2 ^ 63" "buf_flags dst AND FUSE_BUF_FD_RETRY \<noteq> 0"
  shows "\<exists>w'. fuse_buf_write os dst dst_off src src_off len (m, w) = Some (int (unat len), m, w')"
  using write_loop_result [OF assms(1), of 0 len dst dst_off src src_off m w] assms(2-4)
  by (auto simp: fuse_buf_write_def)

lemma byte_os_ok: "write_counts byte_os" "write_progresses byte_os"
  by (auto simp: write_counts_def write_progresses_def byte_os_def Suc_le_eq)

theorem fuse_buf_write_ends_witness:
  "\<exists>r w'. fuse_buf_write byte_os (mem_buf 0 8) 0 (mem_buf 100 8) 0 8 (\<lambda>_. 7, []) = Some (r, \<lambda>_. 7, w') \<and> r \<le> 8"
  using fuse_buf_write_ends [OF byte_os_ok(1), of 8 "mem_buf 0 8" 0 "mem_buf 100 8" 0 "\<lambda>_. 7" "[]"] by auto

theorem fuse_buf_write_retries_witness:
  "\<exists>w'. fuse_buf_write byte_os ((mem_buf 0 8)\<lparr>buf_flags := 10\<rparr>) 0 (mem_buf 100 8) 0 8 (\<lambda>_. 7, []) = Some (8, \<lambda>_. 7, w')"
  using fuse_buf_write_retries [OF byte_os_ok, of 8 "(mem_buf 0 8)\<lparr>buf_flags := 10\<rparr>" 0 "mem_buf 100 8" 0 "\<lambda>_. 7" "[]"]
  by auto

text \<open>
  \<open>fuse_buf_size\<close> takes \<open>SIZE_MAX\<close> for an unknown size, but goes on adding to it: the size of a
  later buffer wraps around.
\<close>

lemma buf_size_wraps:
  "buf_size a = SIZE_MAX \<Longrightarrow> buf_size b \<noteq> SIZE_MAX \<Longrightarrow> fuse_buf_size (mem_vec [a, b]) = Some (buf_size b - 1)"
  by (simp add: fuse_buf_size_def mem_vec_def)

end
