(* ===== verification/Fuse_Locks.thy ===== *)
theory Fuse_Locks
  imports Prelude
begin

text \<open>
  The byte-range locks that the FUSE library keeps for a node
  (\<^verbatim>\<open>lib/fuse.c\<close>, from \<open>locks_conflict\<close> to \<open>lock_to_flock\<close>): a linked list of locks, in the
  order of its links. Offsets are the values of \<open>off_t\<close>; where an expression of the code would
  leave the type the result is \<open>None\<close>, as it is for the \<open>NULL\<close> dereference that a second split
  would be. The two calls of \<open>malloc\<close> that may fail are an argument.
\<close>

section \<open>Locks\<close>

record lock =
  ltype :: int
  lstart :: int
  lend :: int
  lpid :: int
  lowner :: u64

record flock =
  l_type :: int
  l_whence :: int
  l_start :: int
  l_len :: int
  l_pid :: int

abbreviation "F_RDLCK \<equiv> (0 :: int)"
abbreviation "F_WRLCK \<equiv> (1 :: int)"
abbreviation "F_UNLCK \<equiv> (2 :: int)"
abbreviation "ENOLCK \<equiv> (37 :: int)"
abbreviation "OFFSET_MAX \<equiv> (0x7FFFFFFFFFFFFFFF :: int)"
abbreviation "OFFSET_MIN \<equiv> (- 0x8000000000000000 :: int)"

section \<open>Conflicts\<close>

fun locks_conflict :: "lock list \<Rightarrow> lock \<Rightarrow> lock option" where
  "locks_conflict [] lk = None"
| "locks_conflict (l # ls) lk =
     (if lowner l \<noteq> lowner lk \<and> lstart lk \<le> lend l \<and> lstart l \<le> lend lk \<and>
         (ltype l = F_WRLCK \<or> ltype lk = F_WRLCK)
      then Some l else locks_conflict ls lk)"

section \<open>Setting and clearing a lock\<close>

definition delete_lock :: "lock list \<Rightarrow> lock list" where
  "delete_lock lp = tl lp"

definition insert_lock :: "lock list \<Rightarrow> lock \<Rightarrow> lock list" where
  "insert_lock lp lk = lk # lp"

text \<open>After the loop, with \<open>lp\<close> the rest of the list from where it stopped.\<close>

definition put_lock :: "lock list \<Rightarrow> lock \<Rightarrow> lock list" where
  "put_lock lp lk = (if ltype lk \<noteq> F_UNLCK then insert_lock lp lk else lp)"

text \<open>
  The loop, from the list that \<open>lp\<close> points to; the result is what that list becomes.
  \<open>newl2\<close> tells whether the block for a split is still there.
\<close>

function locks_insert_loop :: "lock list \<Rightarrow> lock \<Rightarrow> bool \<Rightarrow> lock list option" where
  "locks_insert_loop [] lk newl2 = Some (put_lock [] lk)"
| "locks_insert_loop (l # ls) lk newl2 =
     (if lowner l \<noteq> lowner lk then map_option (Cons l) (locks_insert_loop ls lk newl2)
      else if ltype lk = ltype l then
        if lstart lk = OFFSET_MIN then None
        else if lend l < lstart lk - 1 then map_option (Cons l) (locks_insert_loop ls lk newl2)
        else if lstart l = OFFSET_MIN then None
        else if lend lk < lstart l - 1 then Some (put_lock (l # ls) lk)
        else if lstart l \<le> lstart lk \<and> lend lk \<le> lend l then Some (l # ls)
        else
          let lk = (if lstart l < lstart lk then lk\<lparr>lstart := lstart l\<rparr> else lk);
              lk = (if lend lk < lend l then lk\<lparr>lend := lend l\<rparr> else lk)
          in locks_insert_loop (delete_lock (l # ls)) lk newl2
      else
        if lend l < lstart lk then map_option (Cons l) (locks_insert_loop ls lk newl2)
        else if lend lk < lstart l then Some (put_lock (l # ls) lk)
        else if lstart lk \<le> lstart l \<and> lend l \<le> lend lk then
          locks_insert_loop (delete_lock (l # ls)) lk newl2
        else if lend l \<le> lend lk then
          map_option (Cons (l\<lparr>lend := lstart lk - 1\<rparr>)) (locks_insert_loop ls lk newl2)
        else if lstart lk \<le> lstart l then Some (put_lock (l\<lparr>lstart := lend lk + 1\<rparr> # ls) lk)
        else if newl2 then
          let new2 = l\<lparr>lstart := lend lk + 1\<rparr>;
              l = l\<lparr>lend := lstart lk - 1\<rparr>
          in map_option (Cons l) (locks_insert_loop (insert_lock ls new2) lk False)
        else None)"
  by pat_completeness auto
termination
  by (relation "measure (\<lambda>(ls, lk, newl2). length ls + (if newl2 then 1 else 0))")
    (auto simp: delete_lock_def insert_lock_def)

declare locks_insert_loop.simps(2) [simp del]

definition locks_insert :: "bool \<times> bool \<Rightarrow> lock list \<Rightarrow> lock \<Rightarrow> (int \<times> lock list) option" where
  "locks_insert mallocs ls lk =
     (let alloc = (ltype lk \<noteq> F_UNLCK \<or> lstart lk \<noteq> 0 \<or> lend lk \<noteq> OFFSET_MAX)
      in if alloc \<and> (\<not> fst mallocs \<or> \<not> snd mallocs) then Some (- ENOLCK, ls)
         else map_option (Pair 0) (locks_insert_loop ls lk alloc))"

section \<open>The locks of \<open>fcntl\<close>\<close>

definition off_t :: "int \<Rightarrow> int option" where
  "off_t x = (if OFFSET_MIN \<le> x \<and> x \<le> OFFSET_MAX then Some x else None)"

definition flock_to_lock :: "flock \<Rightarrow> lock option" where
  "flock_to_lock f =
     map_option (\<lambda>e. \<lparr>ltype = l_type f, lstart = l_start f, lend = e, lpid = l_pid f, lowner = 0\<rparr>)
       (if l_len f \<noteq> 0
        then Option.bind (off_t (l_start f + l_len f)) (\<lambda>s. off_t (s - 1))
        else Some OFFSET_MAX)"

definition lock_to_flock :: "lock \<Rightarrow> flock \<Rightarrow> flock option" where
  "lock_to_flock lk f =
     map_option (\<lambda>n. f\<lparr>l_type := ltype lk, l_start := lstart lk, l_len := n, l_pid := lpid lk\<rparr>)
       (if lend lk = OFFSET_MAX then Some 0
        else Option.bind (off_t (lend lk - lstart lk)) (\<lambda>d. off_t (d + 1)))"

section \<open>What the list means\<close>

text \<open>The type of the lock that an owner holds on a byte.\<close>

definition covers :: "lock \<Rightarrow> int \<Rightarrow> bool" where
  "covers l x \<longleftrightarrow> lstart l \<le> x \<and> x \<le> lend l"

fun lock_at :: "lock list \<Rightarrow> u64 \<Rightarrow> int \<Rightarrow> int option" where
  "lock_at [] ow x = None"
| "lock_at (l # ls) ow x = (if lowner l = ow \<and> covers l x then Some (ltype l) else lock_at ls ow x)"

definition lock_range :: "lock \<Rightarrow> bool" where
  "lock_range l \<longleftrightarrow> 0 \<le> lstart l \<and> lstart l \<le> lend l \<and> lend l \<le> OFFSET_MAX"

text \<open>
  The locks of one owner stand in order and apart, and two of the same type do not touch.
\<close>

definition apart :: "lock \<Rightarrow> lock \<Rightarrow> bool" where
  "apart a b \<longleftrightarrow> lowner a = lowner b \<longrightarrow>
     (if ltype a = ltype b then lend a + 1 < lstart b else lend a < lstart b)"

definition locks_ok :: "lock list \<Rightarrow> bool" where
  "locks_ok ls \<longleftrightarrow> (\<forall>l \<in> set ls. lock_range l \<and> ltype l \<noteq> F_UNLCK) \<and> sorted_wrt apart ls"

lemma locks_ok_Nil [simp]: "locks_ok []"
  by (simp add: locks_ok_def)

lemma locks_ok_Cons [simp]:
  "locks_ok (l # ls) \<longleftrightarrow>
     lock_range l \<and> ltype l \<noteq> F_UNLCK \<and> (\<forall>y \<in> set ls. apart l y) \<and> locks_ok ls"
  by (auto simp: locks_ok_def)

lemma lock_at_none: "(\<And>l. l \<in> set ls \<Longrightarrow> lowner l = ow \<Longrightarrow> \<not> covers l x) \<Longrightarrow> lock_at ls ow x = None"
  by (induction ls) auto

lemma lock_at_someD: "lock_at ls ow x = Some t \<Longrightarrow> \<exists>l \<in> set ls. lowner l = ow \<and> covers l x \<and> ltype l = t"
  by (induction ls) (auto split: if_splits)

text \<open>The list after the loop, as the loop's result for a list and a lock.\<close>

definition set_lock :: "lock list \<Rightarrow> lock \<Rightarrow> u64 \<Rightarrow> int \<Rightarrow> int option" where
  "set_lock ls lk ow x =
     (if ow = lowner lk \<and> covers lk x
      then if ltype lk = F_UNLCK then None else Some (ltype lk)
      else lock_at ls ow x)"

definition loop_sets :: "lock list \<Rightarrow> lock \<Rightarrow> lock list \<Rightarrow> bool" where
  "loop_sets ls lk ls' \<longleftrightarrow> locks_ok ls' \<and> (\<forall>ow x. lock_at ls' ow x = set_lock ls lk ow x) \<and>
     (\<forall>a. lock_range a \<longrightarrow> (\<forall>y \<in> set ls. apart a y) \<longrightarrow> apart a lk \<longrightarrow> (\<forall>y \<in> set ls'. apart a y))"

lemma loop_setsI:
  assumes "locks_ok ls'" "\<And>ow x. lock_at ls' ow x = set_lock ls lk ow x"
    "\<And>a y. lock_range a \<Longrightarrow> \<forall>y \<in> set ls. apart a y \<Longrightarrow> apart a lk \<Longrightarrow> y \<in> set ls' \<Longrightarrow> apart a y"
  shows "loop_sets ls lk ls'"
  using assms unfolding loop_sets_def by blast

lemma loop_setsD:
  assumes "loop_sets ls lk ls'"
  shows "locks_ok ls'" "lock_at ls' ow x = set_lock ls lk ow x"
    "lock_range a \<Longrightarrow> \<forall>y \<in> set ls. apart a y \<Longrightarrow> apart a lk \<Longrightarrow> y \<in> set ls' \<Longrightarrow> apart a y"
  using assms unfolding loop_sets_def by blast+

lemma apart_apart:
  "apart a b \<Longrightarrow> lowner a = lowner b \<Longrightarrow> lend a < lstart b"
  by (auto simp: apart_def split: if_splits)

lemma apart_not_both: "apart a b \<Longrightarrow> lowner a = ow \<Longrightarrow> lowner b = ow \<Longrightarrow> covers a x \<Longrightarrow> covers b x \<Longrightarrow> False"
  using apart_apart [of a b] by (simp add: covers_def)

lemma loop_sets_skip:
  assumes "locks_ok (l # ls)" "apart l lk" "loop_sets ls lk ls'"
  shows "loop_sets (l # ls) lk (l # ls')"
proof (rule loop_setsI)
  note l = assms(1)[unfolded locks_ok_Cons]
  show "locks_ok (l # ls')" unfolding locks_ok_Cons using l assms(2) loop_setsD [OF assms(3)] by blast
  show "lock_at (l # ls') ow x = set_lock (l # ls) lk ow x" for ow x
    using loop_setsD(2) [OF assms(3), of ow x] apart_not_both [OF assms(2), of ow x] by (auto simp: set_lock_def)
  show "apart a y" if "lock_range a" "\<forall>y \<in> set (l # ls). apart a y" "apart a lk" "y \<in> set (l # ls')" for a y
    using that loop_setsD(3) [OF assms(3), of a y] by auto
qed

text \<open>Changing the first lock of the list where the new lock covers it changes nothing.\<close>

lemma loop_sets_head:
  assumes "loop_sets (l' # ls) lk ls'" "lowner l' = lowner l" "ltype l' = ltype l" "lstart l \<le> lstart l'"
    "\<And>x. \<not> covers lk x \<Longrightarrow> covers l' x = covers l x" "lowner l = lowner lk"
  shows "loop_sets (l # ls) lk ls'"
proof (rule loop_setsI)
  show "locks_ok ls'" by (rule loop_setsD [OF assms(1)])
  show "lock_at ls' ow x = set_lock (l # ls) lk ow x" for ow x
    using loop_setsD(2) [OF assms(1), of ow x] assms(2,3,6) assms(5)[of x] by (auto simp: set_lock_def)
  show "apart a y" if "lock_range a" "\<forall>y \<in> set (l # ls). apart a y" "apart a lk" "y \<in> set ls'" for a y
  proof -
    have "apart a l" using that(2) by simp
    then have "apart a l'" using assms(2-4) unfolding apart_def by (auto split: if_splits)
    then show ?thesis using that loop_setsD(3) [OF assms(1), of a y] by simp
  qed
qed

lemma locks_ok_head:
  assumes "locks_ok (l # ls)" "lowner l' = lowner l" "ltype l' = ltype l" "lend l' \<le> lend l" "lock_range l'"
  shows "locks_ok (l' # ls)"
proof -
  have "apart l' y" if "apart l y" for y using that assms(2-4) unfolding apart_def by (auto split: if_splits)
  then show ?thesis using assms(1,3,5) unfolding locks_ok_Cons by auto
qed

lemma loop_sets_trim:
  assumes "locks_ok (l # ls)" "lowner l = lowner lk" "ltype l \<noteq> ltype lk" "lstart l < lstart lk"
    "lstart lk \<le> lend l" "lend l \<le> lend lk" "loop_sets ls lk ls'"
  shows "loop_sets (l # ls) lk (l\<lparr>lend := lstart lk - 1\<rparr> # ls')"
proof -
  let ?l = "l\<lparr>lend := lstart lk - 1\<rparr>"
  have r: "lock_range l" using assms(1) by simp
  have s: "locks_ok (?l # ls)" "apart ?l lk"
    using assms(3-6) r by (intro locks_ok_head [OF assms(1)], auto simp: lock_range_def apart_def)
  have "loop_sets (?l # ls) lk (?l # ls')" by (rule loop_sets_skip [OF s assms(7)])
  then show ?thesis
    by (rule loop_sets_head) (use assms(2-6) in \<open>auto simp: covers_def\<close>)
qed

lemma loop_sets_put:
  assumes "locks_ok ls" "lock_range lk" "\<And>y. y \<in> set ls \<Longrightarrow> apart lk y"
    "\<And>y. y \<in> set ls \<Longrightarrow> lowner y = lowner lk \<Longrightarrow> lend lk < lstart y"
  shows "loop_sets ls lk (put_lock ls lk)"
proof -
  have at: "lock_at ls (lowner lk) x = None" if "covers lk x" for x
    using that assms(4) by (intro lock_at_none) (force simp: covers_def)
  show ?thesis
    by (intro loop_setsI; cases "ltype lk = F_UNLCK")
      (use assms at in \<open>auto simp: put_lock_def insert_lock_def set_lock_def\<close>)
qed

lemma rest_after:
  assumes "locks_ok (l # ls)" "y \<in> set ls" "lowner y = lowner l"
  shows "lend l < lstart y" "lstart l < lstart y"
  using assms apart_apart [of l y] by (auto simp: lock_range_def)

lemma apart_of_before:
  assumes "locks_ok (l # ls)" "lowner l = lowner lk" "lend lk < lstart l" "ltype l = ltype lk \<Longrightarrow> lend lk + 1 < lstart l"
    "y \<in> set (l # ls)"
  shows "apart lk y" "lowner y = lowner lk \<Longrightarrow> lend lk < lstart y"
  using assms rest_after [OF assms(1), of y] by (auto simp: apart_def lock_range_def)

lemma loop_sets_before:
  assumes "locks_ok (l # ls)" "lowner l = lowner lk" "lend lk < lstart l" "ltype l = ltype lk \<Longrightarrow> lend lk + 1 < lstart l"
    "lock_range lk"
  shows "loop_sets (l # ls) lk (put_lock (l # ls) lk)"
  using apart_of_before [OF assms(1-4)] by (intro loop_sets_put assms)

lemma loop_sets_cut_front:
  assumes "locks_ok (l # ls)" "lowner l = lowner lk" "ltype l \<noteq> ltype lk" "lstart lk \<le> lstart l"
    "lstart l \<le> lend lk" "lend lk < lend l" "lock_range lk"
  shows "loop_sets (l # ls) lk (put_lock (l\<lparr>lstart := lend lk + 1\<rparr> # ls) lk)"
proof -
  let ?l = "l\<lparr>lstart := lend lk + 1\<rparr>"
  have r: "lock_range l" using assms(1) by simp
  have s: "locks_ok (?l # ls)"
    using assms(4-7) r by (intro locks_ok_head [OF assms(1)]) (auto simp: lock_range_def)
  have "loop_sets (?l # ls) lk (put_lock (?l # ls) lk)"
    using assms(2-6) by (intro loop_sets_before [OF s _ _ _ assms(7)]) auto
  then show ?thesis
    by (rule loop_sets_head) (use assms(2-6) in \<open>auto simp: covers_def\<close>)
qed

lemma loop_sets_inside:
  assumes "locks_ok (l # ls)" "lowner l = lowner lk" "ltype l = ltype lk" "lstart l \<le> lstart lk" "lend lk \<le> lend l"
  shows "loop_sets (l # ls) lk (l # ls)"
  by (rule loop_setsI) (use assms in \<open>auto simp: set_lock_def covers_def\<close>)

lemma loop_sets_delete:
  assumes "lowner l = lowner lk" "lstart lk \<le> lstart l" "lend l \<le> lend lk" "loop_sets ls lk ls'"
  shows "loop_sets (l # ls) lk ls'"
proof (rule loop_setsI)
  show "locks_ok ls'" by (rule loop_setsD [OF assms(4)])
  show "lock_at ls' ow x = set_lock (l # ls) lk ow x" for ow x
    using loop_setsD(2) [OF assms(4), of ow x] assms(1-3) by (auto simp: set_lock_def covers_def)
  show "apart a y" if "lock_range a" "\<forall>y \<in> set (l # ls). apart a y" "apart a lk" "y \<in> set ls'" for a y
    using that loop_setsD(3) [OF assms(4), of a y] by auto
qed

text \<open>The lock that \<open>l\<close> is merged into.\<close>

definition merged :: "lock \<Rightarrow> lock \<Rightarrow> lock" where
  "merged l lk =
     (let lk = (if lstart l < lstart lk then lk\<lparr>lstart := lstart l\<rparr> else lk)
      in if lend lk < lend l then lk\<lparr>lend := lend l\<rparr> else lk)"

lemma merged_sel [simp]:
  "ltype (merged l lk) = ltype lk" "lowner (merged l lk) = lowner lk"
  "lstart (merged l lk) = min (lstart l) (lstart lk)" "lend (merged l lk) = max (lend l) (lend lk)"
  by (auto simp: merged_def Let_def)

lemma covers_merged:
  assumes "lock_range l" "lock_range lk" "lstart lk - 1 \<le> lend l" "lstart l - 1 \<le> lend lk"
  shows "covers (merged l lk) x \<longleftrightarrow> covers l x \<or> covers lk x"
  using assms by (auto simp: covers_def lock_range_def min_def max_def)

lemma loop_sets_merge:
  assumes "locks_ok (l # ls)" "lowner l = lowner lk" "ltype l = ltype lk" "lock_range lk"
    "lstart lk - 1 \<le> lend l" "lstart l - 1 \<le> lend lk" "loop_sets ls (merged l lk) ls'"
  shows "loop_sets (l # ls) lk ls'"
proof (rule loop_setsI)
  have l: "lock_range l" "ltype l \<noteq> F_UNLCK" using assms(1) by simp_all
  show "locks_ok ls'" by (rule loop_setsD [OF assms(7)])
  show "lock_at ls' ow x = set_lock (l # ls) lk ow x" for ow x
    using loop_setsD(2) [OF assms(7), of ow x] covers_merged [OF l(1) assms(4-6), of x] assms(2,3) l(2)
    by (auto simp: set_lock_def)
  show "apart a y" if "lock_range a" "\<forall>y \<in> set (l # ls). apart a y" "apart a lk" "y \<in> set ls'" for a y
  proof -
    have "apart a (merged l lk)" using that(2,3) assms(2,3) by (auto simp: apart_def min_def split: if_splits)
    then show ?thesis using that(1,2,4) loop_setsD(3) [OF assms(7), of a y] by simp
  qed
qed

lemma lock_range_merged: "lock_range l \<Longrightarrow> lock_range lk \<Longrightarrow> lock_range (merged l lk)"
  by (auto simp: lock_range_def)

lemma loop_sets_split:
  assumes "locks_ok (l # ls)" "lowner l = lowner lk" "ltype l \<noteq> ltype lk" "lstart l < lstart lk"
    "lend lk < lend l" "lock_range lk"
  shows "loop_sets (l # ls) lk (l\<lparr>lend := lstart lk - 1\<rparr> # put_lock (l\<lparr>lstart := lend lk + 1\<rparr> # ls) lk)"
proof -
  let ?l = "l\<lparr>lend := lstart lk - 1\<rparr>" and ?n = "l\<lparr>lstart := lend lk + 1\<rparr>"
  have r: "lock_range l" "lstart lk \<le> lend lk" using assms(1,6) by (simp_all add: lock_range_def)
  have n: "locks_ok (?n # ls)"
    using assms(4-6) r by (intro locks_ok_head [OF assms(1)]) (auto simp: lock_range_def)
  have l: "locks_ok (?l # ls)"
    using assms(4-6) r by (intro locks_ok_head [OF assms(1)]) (auto simp: lock_range_def)
  have put: "loop_sets (?n # ls) lk (put_lock (?n # ls) lk)"
    using assms(2-5) by (intro loop_sets_before [OF n _ _ _ assms(6)]) auto
  show ?thesis
  proof (rule loop_setsI)
    have "apart ?l lk" "apart ?l y" if "y \<in> set (put_lock (?n # ls) lk)" for y
    proof -
      show "apart ?l lk" using assms(3) by (simp add: apart_def)
      have "apart ?l ?n" using r(2) by (simp add: apart_def)
      then have "\<forall>y \<in> set (?n # ls). apart ?l y" using l by simp
      then show "apart ?l y"
        using loop_setsD(3) [OF put _ _ \<open>apart ?l lk\<close> that] l by simp
    qed
    then show "locks_ok (?l # put_lock (?n # ls) lk)"
      using l loop_setsD(1) [OF put] by simp
    show "lock_at (?l # put_lock (?n # ls) lk) ow x = set_lock (l # ls) lk ow x" for ow x
      using loop_setsD(2) [OF put, of ow x] assms(2,4,5) r(2) by (auto simp: set_lock_def covers_def)
    show "apart a y" if "lock_range a" "\<forall>y \<in> set (l # ls). apart a y" "apart a lk"
      "y \<in> set (?l # put_lock (?n # ls) lk)" for a y
    proof -
      have "apart a ?l" "apart a ?n"
        using bspec [OF that(2), of l] assms(4,5) r(2) by (auto simp: apart_def split: if_splits)
      then show ?thesis using that loop_setsD(3) [OF put that(1) _ that(3), of y] by auto
    qed
  qed
qed

lemma split_stops:
  assumes "lowner l = lowner lk" "ltype l \<noteq> ltype lk" "lend lk < lend l" "lock_range lk"
  shows "locks_insert_loop (l\<lparr>lstart := lend lk + 1\<rparr> # ls) lk newl2 = Some (put_lock (l\<lparr>lstart := lend lk + 1\<rparr> # ls) lk)"
  using assms by (simp add: locks_insert_loop.simps lock_range_def)

definition whole_unlock :: "lock \<Rightarrow> bool" where
  "whole_unlock lk \<longleftrightarrow> ltype lk = F_UNLCK \<and> lstart lk = 0 \<and> lend lk = OFFSET_MAX"

lemma locks_insert_loop_sets:
  assumes "locks_ok ls" "lock_range lk" "newl2 \<or> whole_unlock lk"
  shows "\<exists>ls'. locks_insert_loop ls lk newl2 = Some ls' \<and> loop_sets ls lk ls'"
  using assms
proof (induction ls arbitrary: lk)
  case Nil
  then show ?case using loop_sets_put [of "[]" lk] by simp
next
  case (Cons l ls)
  note ok = Cons.prems(1) and rng = Cons.prems(2) and new = Cons.prems(3)
  have tl: "locks_ok ls" and l: "lock_range l" "ltype l \<noteq> F_UNLCK" using ok by simp_all
  have min: "lstart lk \<noteq> OFFSET_MIN" "lstart l \<noteq> OFFSET_MIN" using rng l(1) by (auto simp: lock_range_def)
  obtain t where t: "locks_insert_loop ls lk newl2 = Some t" "loop_sets ls lk t"
    using Cons.IH [OF tl rng new] by blast
  have skip: ?case if "locks_insert_loop (l # ls) lk newl2 = map_option (Cons l) (locks_insert_loop ls lk newl2)"
    "apart l lk"
    using that(1) t loop_sets_skip [OF ok that(2) t(2)] by simp
  consider (owner) "lowner l \<noteq> lowner lk" | (same) "lowner l = lowner lk" "ltype l = ltype lk"
    | (other) "lowner l = lowner lk" "ltype l \<noteq> ltype lk" by blast
  then show ?case
  proof cases
    case owner
    then show ?thesis by (intro skip) (simp_all add: locks_insert_loop.simps(2) apart_def)
  next
    case same
    note eq = locks_insert_loop.simps(2) [of l ls lk newl2] same min
    consider "lend l < lstart lk - 1" | "\<not> lend l < lstart lk - 1" "lend lk < lstart l - 1"
      | "\<not> lend l < lstart lk - 1" "\<not> lend lk < lstart l - 1" "lstart l \<le> lstart lk \<and> lend lk \<le> lend l"
      | "\<not> lend l < lstart lk - 1" "\<not> lend lk < lstart l - 1" "\<not> (lstart l \<le> lstart lk \<and> lend lk \<le> lend l)"
      by blast
    then show ?thesis
    proof cases
      case 1
      then show ?thesis by (intro skip) (simp_all add: eq apart_def)
    next
      case 2
      have "locks_insert_loop (l # ls) lk newl2 = Some (put_lock (l # ls) lk)" using 2 by (simp add: eq)
      moreover have "loop_sets (l # ls) lk (put_lock (l # ls) lk)"
        by (rule loop_sets_before [OF ok same(1) _ _ rng]) (use 2 in simp_all)
      ultimately show ?thesis by blast
    next
      case 3
      have "locks_insert_loop (l # ls) lk newl2 = Some (l # ls)" using 3 by (simp add: eq)
      then show ?thesis using 3 loop_sets_inside [OF ok same] by auto
    next
      case 4
      have nu: "\<not> whole_unlock lk" using l(2) same(2) by (simp add: whole_unlock_def)
      obtain t' where t': "locks_insert_loop ls (merged l lk) newl2 = Some t'" "loop_sets ls (merged l lk) t'"
        using Cons.IH [OF tl lock_range_merged [OF l(1) rng]] new nu by blast
      have "locks_insert_loop (l # ls) lk newl2 = locks_insert_loop ls (merged l lk) newl2"
        using 4 unfolding eq(1) merged_def Let_def delete_lock_def by (auto simp: same min)
      then show ?thesis using t' 4 loop_sets_merge [OF ok same rng _ _ t'(2)] by simp
    qed
  next
    case other
    have ne: "ltype lk \<noteq> ltype l" using other(2) by simp
    note eq = locks_insert_loop.simps(2) [of l ls lk newl2] other(1) ne
    consider "lend l < lstart lk" | "\<not> lend l < lstart lk" "lend lk < lstart l"
      | "lstart lk \<le> lend l" "lstart l \<le> lend lk" "lstart lk \<le> lstart l" "lend l \<le> lend lk"
      | "lstart lk \<le> lend l" "lstart l \<le> lend lk" "lstart l < lstart lk" "lend l \<le> lend lk"
      | "lstart lk \<le> lend l" "lstart l \<le> lend lk" "lstart lk \<le> lstart l" "lend lk < lend l"
      | "lstart lk \<le> lend l" "lstart l \<le> lend lk" "lstart l < lstart lk" "lend lk < lend l"
      by linarith
    then show ?thesis
    proof cases
      case 1
      then show ?thesis by (intro skip) (simp_all add: eq apart_def other(2))
    next
      case 2
      have "locks_insert_loop (l # ls) lk newl2 = Some (put_lock (l # ls) lk)" using 2 by (simp add: eq)
      moreover have "loop_sets (l # ls) lk (put_lock (l # ls) lk)"
        by (rule loop_sets_before [OF ok other(1) _ _ rng]) (use 2 other(2) in simp_all)
      ultimately show ?thesis by blast
    next
      case 3
      have "locks_insert_loop (l # ls) lk newl2 = locks_insert_loop ls lk newl2"
        using 3 by (simp add: eq delete_lock_def)
      then show ?thesis using t loop_sets_delete [OF other(1) 3(3,4) t(2)] by simp
    next
      case 4
      have "locks_insert_loop (l # ls) lk newl2 = Some (l\<lparr>lend := lstart lk - 1\<rparr> # t)"
        using 4 t(1) by (simp add: eq)
      then show ?thesis using loop_sets_trim [OF ok other 4(3,1,4) t(2)] by blast
    next
      case 5
      have "locks_insert_loop (l # ls) lk newl2 = Some (put_lock (l\<lparr>lstart := lend lk + 1\<rparr> # ls) lk)"
        using 5 by (simp add: eq)
      then show ?thesis using loop_sets_cut_front [OF ok other 5(3,2,4) rng] by blast
    next
      case 6
      have nu: "newl2" using new l(1) 6(4) by (auto simp: whole_unlock_def lock_range_def)
      have "locks_insert_loop (l # ls) lk newl2 =
          Some (l\<lparr>lend := lstart lk - 1\<rparr> # put_lock (l\<lparr>lstart := lend lk + 1\<rparr> # ls) lk)"
        using 6 nu split_stops [OF other 6(4) rng] unfolding eq(1) by (simp add: other ne insert_lock_def)
      then show ?thesis using loop_sets_split [OF ok other 6(3,4) rng] by blast
    qed
  qed
qed

lemmas loop_setsD_at = loop_setsD(2)

lemma locks_insert_sets:
  assumes "locks_ok ls" "lock_range lk"
  shows "\<exists>ls'. locks_insert (True, True) ls lk = Some (0, ls') \<and> loop_sets ls lk ls'"
  using locks_insert_loop_sets [OF assms, of "ltype lk \<noteq> F_UNLCK \<or> lstart lk \<noteq> 0 \<or> lend lk \<noteq> OFFSET_MAX"]
  by (auto simp: locks_insert_def Let_def whole_unlock_def)

lemma locks_insert_cases:
  assumes "locks_ok ls" "lock_range lk" "locks_insert m ls lk = Some (r, ls')"
  obtains "r = - ENOLCK" "ls' = ls" | "r = 0" "loop_sets ls lk ls'"
  using assms(3) locks_insert_loop_sets [OF assms(1,2), of "ltype lk \<noteq> F_UNLCK \<or> lstart lk \<noteq> 0 \<or> lend lk \<noteq> OFFSET_MAX"]
  by (auto simp: locks_insert_def Let_def whole_unlock_def split: if_splits)

lemma locks_conflict_SomeD:
  "locks_conflict ls lk = Some l \<Longrightarrow> l \<in> set ls \<and> lowner l \<noteq> lowner lk \<and>
     lstart lk \<le> lend l \<and> lstart l \<le> lend lk \<and> (ltype l = F_WRLCK \<or> ltype lk = F_WRLCK)"
  by (induction ls) (auto split: if_splits)

lemma locks_conflict_NoneD:
  "locks_conflict ls lk = None \<Longrightarrow> l \<in> set ls \<Longrightarrow> lowner l \<noteq> lowner lk \<Longrightarrow>
     lstart lk \<le> lend l \<Longrightarrow> lstart l \<le> lend lk \<Longrightarrow> ltype l \<noteq> F_WRLCK \<and> ltype lk \<noteq> F_WRLCK"
  by (induction ls) (auto split: if_splits)

lemma lock_at_in:
  assumes "locks_ok ls" "l \<in> set ls" "covers l x"
  shows "lock_at ls (lowner l) x = Some (ltype l)"
  using assms
proof (induction ls)
  case (Cons y ls)
  then show ?case using apart_not_both [of y l "lowner l" x] by auto
qed simp

section \<open>Locks as an interface\<close>

text \<open>
  What a user of the lock list relies on: it is a map from owners and bytes to types, a lock
  changes its own bytes for its own owner only, and where no conflict is reported nobody else
  holds a lock that excludes the new one.
\<close>

locale byte_locks =
  fixes ok :: "'s \<Rightarrow> bool"
    and held :: "'s \<Rightarrow> u64 \<Rightarrow> int \<Rightarrow> int option"
    and conflict :: "'s \<Rightarrow> lock \<Rightarrow> bool"
    and put :: "'s \<Rightarrow> lock \<Rightarrow> 's \<Rightarrow> bool"
  assumes put_ok: "ok s \<Longrightarrow> lock_range lk \<Longrightarrow> put s lk s' \<Longrightarrow> ok s'"
    and put_own: "ok s \<Longrightarrow> lock_range lk \<Longrightarrow> put s lk s' \<Longrightarrow> covers lk x \<Longrightarrow>
      held s' (lowner lk) x = (if ltype lk = F_UNLCK then None else Some (ltype lk))"
    and put_other: "ok s \<Longrightarrow> lock_range lk \<Longrightarrow> put s lk s' \<Longrightarrow> \<not> (ow = lowner lk \<and> covers lk x) \<Longrightarrow>
      held s' ow x = held s ow x"
    and no_conflict: "ok s \<Longrightarrow> lock_range lk \<Longrightarrow> \<not> conflict s lk \<Longrightarrow> ow \<noteq> lowner lk \<Longrightarrow> covers lk x \<Longrightarrow>
      held s ow x = Some t \<Longrightarrow> t \<noteq> F_WRLCK \<and> ltype lk \<noteq> F_WRLCK"
begin

definition exclusive :: "'s \<Rightarrow> bool" where
  "exclusive s \<longleftrightarrow> (\<forall>x ow ow' t. held s ow x = Some F_WRLCK \<longrightarrow> held s ow' x = Some t \<longrightarrow> ow' = ow)"

lemma put_exclusive:
  assumes "ok s" "exclusive s" "lock_range lk" "ltype lk = F_UNLCK \<or> \<not> conflict s lk" "put s lk s'"
  shows "exclusive s'"
proof -
  have "ow' = ow" if "held s' ow x = Some F_WRLCK" "held s' ow' x = Some t" for x ow ow' t
  proof (rule ccontr)
    assume ne: "ow' \<noteq> ow"
    note own = put_own [OF assms(1,3,5), of x] and oth = put_other [OF assms(1,3,5), of _ x]
    consider "covers lk x" "ow = lowner lk" | "covers lk x" "ow' = lowner lk"
      | "\<not> (ow = lowner lk \<and> covers lk x)" "\<not> (ow' = lowner lk \<and> covers lk x)" by blast
    then show False
    proof cases
      case 1
      then have "held s ow' x = Some t" "ltype lk = F_WRLCK" using that ne oth [of ow'] own by (auto split: if_splits)
      then show False using 1 ne no_conflict [OF assms(1,3), of ow' x t] assms(4) by auto
    next
      case 2
      then have "held s ow x = Some F_WRLCK" "ltype lk \<noteq> F_UNLCK" using that ne oth [of ow] own by (auto split: if_splits)
      then show False using 2 ne no_conflict [OF assms(1,3), of ow x F_WRLCK] assms(4) by auto
    next
      case 3
      then show False using that ne oth [of ow] oth [of ow'] assms(2) unfolding exclusive_def by metis
    qed
  qed
  then show ?thesis unfolding exclusive_def by blast
qed

end

definition inserts :: "lock list \<Rightarrow> lock \<Rightarrow> lock list \<Rightarrow> bool" where
  "inserts ls lk ls' \<longleftrightarrow> locks_insert (True, True) ls lk = Some (0, ls')"

lemma inserts_sets: "locks_ok ls \<Longrightarrow> lock_range lk \<Longrightarrow> inserts ls lk ls' \<Longrightarrow> loop_sets ls lk ls'"
  using locks_insert_sets [of ls lk] by (auto simp: inserts_def)

lemma no_conflict_at:
  assumes "locks_ok ls" "locks_conflict ls lk = None" "ow \<noteq> lowner lk" "covers lk x" "lock_at ls ow x = Some t"
  shows "t \<noteq> F_WRLCK \<and> ltype lk \<noteq> F_WRLCK"
proof -
  obtain l where l: "l \<in> set ls" "lowner l = ow" "covers l x" "ltype l = t"
    using lock_at_someD [OF assms(5)] by blast
  then show ?thesis
    using locks_conflict_NoneD [OF assms(2) l(1)] assms(3,4) by (simp add: covers_def)
qed

interpretation node_locks: byte_locks locks_ok lock_at "\<lambda>ls lk. locks_conflict ls lk \<noteq> None" inserts
proof unfold_locales
  show "locks_ok s'" if "locks_ok s" "lock_range lk" "inserts s lk s'" for s s' lk
    by (rule loop_setsD(1) [OF inserts_sets [OF that]])
  show "lock_at s' (lowner lk) x = (if ltype lk = F_UNLCK then None else Some (ltype lk))"
    if "locks_ok s" "lock_range lk" "inserts s lk s'" "covers lk x" for s s' lk x
    using loop_setsD(2) [OF inserts_sets [OF that(1-3)]] that(4) by (simp add: set_lock_def)
  show "lock_at s' ow x = lock_at s ow x"
    if "locks_ok s" "lock_range lk" "inserts s lk s'" "\<not> (ow = lowner lk \<and> covers lk x)" for s s' lk x ow
    using loop_setsD(2) [OF inserts_sets [OF that(1-3)]] that(4) by (auto simp: set_lock_def)
  show "t \<noteq> F_WRLCK \<and> ltype lk \<noteq> F_WRLCK"
    if "locks_ok s" "lock_range lk" "\<not> locks_conflict s lk \<noteq> None" "ow \<noteq> lowner lk" "covers lk x"
      "lock_at s ow x = Some t" for s lk x ow t
    by (rule no_conflict_at [OF that(1) _ that(4-6)]) (use that(3) in simp)
qed

section \<open>Properties\<close>

text \<open>
  C15. \<open>locks_insert\<close> implements setting a range: it never fails when memory is there, the list
  stays in order and apart, and exactly the bytes of the range change, for the owner of the
  lock only.
\<close>

theorem locks_insert_refines:
  assumes "locks_ok ls" "lock_range lk"
  shows "\<exists>ls'. locks_insert (True, True) ls lk = Some (0, ls') \<and> locks_ok ls' \<and>
    (\<forall>ow x. lock_at ls' ow x =
       (if ow = lowner lk \<and> covers lk x then if ltype lk = F_UNLCK then None else Some (ltype lk)
        else lock_at ls ow x))"
  using locks_insert_sets [OF assms] unfolding loop_sets_def set_lock_def by blast

text \<open>A read lock in the middle of a write lock splits it.\<close>

abbreviation "lock_of t a b ow \<equiv> \<lparr>ltype = t, lstart = a, lend = b, lpid = 1, lowner = ow\<rparr>"

theorem locks_insert_refines_witness:
  "\<exists>ls. locks_insert (True, True) [lock_of F_WRLCK 0 99 7] (lock_of F_RDLCK 10 19 7) = Some (0, ls) \<and>
     lock_at ls 7 9 = Some F_WRLCK \<and> lock_at ls 7 15 = Some F_RDLCK \<and> lock_at ls 7 99 = Some F_WRLCK"
  using locks_insert_refines [of "[lock_of F_WRLCK 0 99 7]" "lock_of F_RDLCK 10 19 7"]
  by (auto simp: lock_range_def covers_def)

text \<open>
  C16. \<open>locks_conflict\<close> finds a lock exactly when on some byte of the range another owner
  holds a lock, and one of the two is a write lock.
\<close>

theorem locks_conflict_iff:
  assumes "locks_ok ls" "lock_range lk"
  shows "locks_conflict ls lk \<noteq> None \<longleftrightarrow>
    (\<exists>ow x t. ow \<noteq> lowner lk \<and> covers lk x \<and> lock_at ls ow x = Some t \<and> (t = F_WRLCK \<or> ltype lk = F_WRLCK))"
proof
  assume "locks_conflict ls lk \<noteq> None"
  then obtain l where l: "l \<in> set ls" "lowner l \<noteq> lowner lk" "lstart lk \<le> lend l" "lstart l \<le> lend lk"
    "ltype l = F_WRLCK \<or> ltype lk = F_WRLCK" using locks_conflict_SomeD by blast
  let ?x = "max (lstart l) (lstart lk)"
  have "lstart l \<le> lend l" using assms(1) l(1) by (simp add: locks_ok_def lock_range_def)
  then have c: "covers l ?x" "covers lk ?x"
    using l(3,4) assms(2) by (auto simp: covers_def lock_range_def max_def)
  show "\<exists>ow x t. ow \<noteq> lowner lk \<and> covers lk x \<and> lock_at ls ow x = Some t \<and> (t = F_WRLCK \<or> ltype lk = F_WRLCK)"
    using lock_at_in [OF assms(1) l(1) c(1)] c(2) l(2,5) by blast
qed (use no_conflict_at [OF assms(1)] in blast)

theorem locks_conflict_iff_witness:
  "locks_conflict [lock_of F_RDLCK 0 9 7] (lock_of F_RDLCK 5 5 8) = None \<and>
   (\<exists>l. locks_conflict [lock_of F_RDLCK 0 9 7] (lock_of F_WRLCK 9 20 8) = Some l)"
proof -
  let ?ls = "[lock_of F_RDLCK 0 9 7]"
  have ok: "locks_ok ?ls" "lock_range (lock_of F_RDLCK 5 5 8)" "lock_range (lock_of F_WRLCK 9 20 8)"
    by (simp_all add: lock_range_def)
  have "\<not> locks_conflict ?ls (lock_of F_RDLCK 5 5 8) \<noteq> None"
    unfolding locks_conflict_iff [OF ok(1,2)] by simp
  moreover have at: "lock_at ?ls 7 9 = Some F_RDLCK" "covers (lock_of F_WRLCK 9 20 8) 9"
    by (simp_all add: covers_def)
  have "locks_conflict ?ls (lock_of F_WRLCK 9 20 8) \<noteq> None"
    unfolding locks_conflict_iff [OF ok(1,3)]
    by (rule exI [of _ 7], rule exI [of _ 9], rule exI [of _ F_RDLCK]) (use at in simp)
  ultimately show ?thesis by blast
qed

text \<open>
  The lock lists that arise when a lock is set only after \<open>locks_conflict\<close> found none; setting
  one may fail for lack of memory.
\<close>

inductive lock_run :: "lock list \<Rightarrow> bool" where
  start: "lock_run []"
| unlock: "lock_run ls \<Longrightarrow> lock_range lk \<Longrightarrow> ltype lk = F_UNLCK \<Longrightarrow> locks_insert m ls lk = Some (r, ls') \<Longrightarrow>
    lock_run ls'"
| grant: "lock_run ls \<Longrightarrow> lock_range lk \<Longrightarrow> locks_conflict ls lk = None \<Longrightarrow> locks_insert m ls lk = Some (r, ls') \<Longrightarrow>
    lock_run ls'"

lemma inserts_of_sets:
  assumes "locks_ok ls" "lock_range lk" "loop_sets ls lk ls'" "locks_insert m ls lk = Some (0, ls')"
  shows "inserts ls lk ls'"
  using assms(4) by (auto simp: inserts_def locks_insert_def Let_def split: if_splits)

lemma step_exclusive:
  assumes "locks_ok ls" "node_locks.exclusive ls" "lock_range lk" "ltype lk = F_UNLCK \<or> locks_conflict ls lk = None"
    "locks_insert m ls lk = Some (r, ls')"
  shows "locks_ok ls' \<and> node_locks.exclusive ls'"
  using assms(1,3,5)
proof (cases rule: locks_insert_cases)
  case 2
  have "inserts ls lk ls'" by (rule inserts_of_sets [OF assms(1,3) 2(2)]) (use assms(5) 2 in simp)
  then show ?thesis
    using node_locks.put_exclusive [OF assms(1-3), of ls'] assms(4) loop_setsD(1) [OF 2(2)] by simp
qed (use assms in simp)

text \<open>
  C17. As long as locks are granted only when \<open>locks_conflict\<close> finds none, no two owners ever
  hold locks on the same byte of which one is a write lock.
\<close>

theorem lock_run_exclusive:
  assumes "lock_run ls" "lock_at ls ow x = Some F_WRLCK" "lock_at ls ow' x = Some t"
  shows "ow' = ow"
proof -
  have "locks_ok ls \<and> node_locks.exclusive ls" using assms(1)
    by induction (auto simp: node_locks.exclusive_def [of "[]"] dest: step_exclusive)
  then show ?thesis using assms(2,3) unfolding node_locks.exclusive_def by blast
qed

theorem lock_run_exclusive_witness:
  "lock_run [lock_of F_WRLCK 0 9 7] \<and> lock_at [lock_of F_WRLCK 0 9 7] 7 3 = Some F_WRLCK \<and>
     lock_at [lock_of F_WRLCK 0 9 7] 8 3 = None"
proof -
  have r: "lock_run [lock_of F_WRLCK 0 9 7]"
    by (rule lock_run.grant [OF lock_run.start, of "lock_of F_WRLCK 0 9 7" "(True, True)" 0])
      (simp_all add: lock_range_def locks_insert_def put_lock_def insert_lock_def)
  have h: "lock_at [lock_of F_WRLCK 0 9 7] 7 3 = Some F_WRLCK" by (simp add: covers_def)
  have "lock_at [lock_of F_WRLCK 0 9 7] 8 3 \<noteq> Some t" for t
    using lock_run_exclusive [OF r h, of 8 t] by auto
  then show ?thesis using r h by blast
qed

lemma flock_round_trip:
  assumes "0 \<le> l_start f" "0 \<le> l_len f" "l_start f + l_len f \<le> OFFSET_MAX"
  shows "\<exists>lk. flock_to_lock f = Some lk \<and> lock_range lk \<and> lock_to_flock lk g = Some (f\<lparr>l_whence := l_whence g\<rparr>)"
  using assms by (cases f; cases g) (auto simp: flock_to_lock_def lock_to_flock_def off_t_def lock_range_def)

end
