(* ===== verification/Fuse_Fs.thy ===== *)
theory Fuse_Fs
  imports Fuse_Locks
begin

text \<open>
  The interface between the library and a file system: \<open>struct fuse_operations\<close> of
  \<^verbatim>\<open>include/fuse.h\<close>, whose entries may be missing, and the functions
  \<open>fuse_fs_getattr\<close>, \<open>fuse_fs_readlink\<close> and so on of \<^verbatim>\<open>lib/fuse.c\<close>, through which the library and
  the stacked modules call it. The file system is a parameter: what an operation answers and how
  it changes its own state is arbitrary.
\<close>

abbreviation "ENOSYS \<equiv> (38 :: int)"

section \<open>Data\<close>

record fuse_file_info =
  fi_flags :: u32
  writepage :: bool
  direct_io :: bool
  keep_cache :: bool
  fi_flush :: bool
  nonseekable :: bool
  flock_release :: bool
  cache_readdir :: bool
  noflush :: bool
  fh :: u64
  lock_owner :: u64
  poll_events :: u32

text \<open>\<open>struct stat\<close>, as far as the library looks at it.\<close>

record fuse_stat =
  a_ino :: u64
  a_mode :: u32
  a_nlink :: u64
  a_uid :: u32
  a_gid :: u32
  a_size :: int
  a_atime :: "int \<times> int"
  a_mtime :: "int \<times> int"

text \<open>The operations, and the calls of them with their arguments; a path may be \<open>NULL\<close>.\<close>

datatype fs_op =
    Op_getattr
  | Op_readlink
  | Op_mknod
  | Op_mkdir
  | Op_unlink
  | Op_rmdir
  | Op_symlink
  | Op_rename
  | Op_link
  | Op_chmod
  | Op_chown
  | Op_truncate
  | Op_open
  | Op_statfs
  | Op_flush
  | Op_release
  | Op_fsync
  | Op_setxattr
  | Op_getxattr
  | Op_listxattr
  | Op_removexattr
  | Op_opendir
  | Op_releasedir
  | Op_fsyncdir
  | Op_access
  | Op_create
  | Op_lock
  | Op_utimens
  | Op_bmap
  | Op_poll
  | Op_flock
  | Op_fallocate
  | Op_copy_file_range
  | Op_lseek

datatype fs_call =
    Call_getattr "bytes option" "fuse_file_info option"
  | Call_readlink "bytes option" nat
  | Call_mknod "bytes option" u32 u64
  | Call_mkdir "bytes option" u32
  | Call_unlink "bytes option"
  | Call_rmdir "bytes option"
  | Call_symlink bytes "bytes option"
  | Call_rename "bytes option" "bytes option" u32
  | Call_link "bytes option" "bytes option"
  | Call_chmod "bytes option" u32 "fuse_file_info option"
  | Call_chown "bytes option" u32 u32 "fuse_file_info option"
  | Call_truncate "bytes option" int "fuse_file_info option"
  | Call_open "bytes option" fuse_file_info
  | Call_statfs "bytes option"
  | Call_flush "bytes option" fuse_file_info
  | Call_release "bytes option" fuse_file_info
  | Call_fsync "bytes option" int fuse_file_info
  | Call_setxattr "bytes option" bytes bytes int
  | Call_getxattr "bytes option" bytes nat
  | Call_listxattr "bytes option" nat
  | Call_removexattr "bytes option" bytes
  | Call_opendir "bytes option" fuse_file_info
  | Call_releasedir "bytes option" fuse_file_info
  | Call_fsyncdir "bytes option" int fuse_file_info
  | Call_access "bytes option" int
  | Call_create "bytes option" u32 fuse_file_info
  | Call_lock "bytes option" fuse_file_info int flock
  | Call_utimens "bytes option" "(int \<times> int) \<times> (int \<times> int)" "fuse_file_info option"
  | Call_bmap "bytes option" nat u64
  | Call_poll "bytes option" fuse_file_info "u64 option"
  | Call_flock "bytes option" fuse_file_info int
  | Call_fallocate "bytes option" int int int fuse_file_info
  | Call_copy_file_range "bytes option" fuse_file_info int "bytes option" fuse_file_info int u64 int
  | Call_lseek "bytes option" int int fuse_file_info


text \<open>What a call leaves: its result, and what it stores through the pointers it got, if anything.\<close>

record fs_result =
  ret :: int
  out_stat :: "fuse_stat option"
  out_fi :: "fuse_file_info option"
  out_data :: "bytes option"
  out_statfs :: "(nat \<times> nat) option"
  out_number :: "u64 option"
  out_lock :: "flock option"

record 's fuse_fs =
  has_op :: "fs_op \<Rightarrow> bool"
  run_op :: "fs_call \<Rightarrow> 's \<Rightarrow> fs_result \<times> 's"

definition no_op :: "int \<Rightarrow> fs_result" where
  "no_op err = \<lparr>ret = err, out_stat = None, out_fi = None, out_data = None, out_statfs = None, out_number = None, out_lock = None\<rparr>"

lemma ret_no_op [simp]: "ret (no_op err) = err"
  by (simp add: no_op_def)

section \<open>Calling an operation\<close>

definition fuse_fs_getattr :: "'s fuse_fs \<Rightarrow> bytes option \<Rightarrow> fuse_file_info option \<Rightarrow> 's \<Rightarrow> fs_result \<times> 's" where
  "fuse_fs_getattr fs path fi s =
     (if has_op fs Op_getattr then run_op fs (Call_getattr path fi) s else (no_op (- ENOSYS), s))"

definition fuse_fs_readlink :: "'s fuse_fs \<Rightarrow> bytes option \<Rightarrow> nat \<Rightarrow> 's \<Rightarrow> fs_result \<times> 's" where
  "fuse_fs_readlink fs path sz s =
     (if has_op fs Op_readlink then run_op fs (Call_readlink path sz) s else (no_op (- ENOSYS), s))"

definition fuse_fs_mknod :: "'s fuse_fs \<Rightarrow> bytes option \<Rightarrow> u32 \<Rightarrow> u64 \<Rightarrow> 's \<Rightarrow> fs_result \<times> 's" where
  "fuse_fs_mknod fs path mode rdev s =
     (if has_op fs Op_mknod then run_op fs (Call_mknod path mode rdev) s else (no_op (- ENOSYS), s))"

definition fuse_fs_mkdir :: "'s fuse_fs \<Rightarrow> bytes option \<Rightarrow> u32 \<Rightarrow> 's \<Rightarrow> fs_result \<times> 's" where
  "fuse_fs_mkdir fs path mode s =
     (if has_op fs Op_mkdir then run_op fs (Call_mkdir path mode) s else (no_op (- ENOSYS), s))"

definition fuse_fs_unlink :: "'s fuse_fs \<Rightarrow> bytes option \<Rightarrow> 's \<Rightarrow> fs_result \<times> 's" where
  "fuse_fs_unlink fs path s =
     (if has_op fs Op_unlink then run_op fs (Call_unlink path) s else (no_op (- ENOSYS), s))"

definition fuse_fs_rmdir :: "'s fuse_fs \<Rightarrow> bytes option \<Rightarrow> 's \<Rightarrow> fs_result \<times> 's" where
  "fuse_fs_rmdir fs path s =
     (if has_op fs Op_rmdir then run_op fs (Call_rmdir path) s else (no_op (- ENOSYS), s))"

definition fuse_fs_symlink :: "'s fuse_fs \<Rightarrow> bytes \<Rightarrow> bytes option \<Rightarrow> 's \<Rightarrow> fs_result \<times> 's" where
  "fuse_fs_symlink fs linkname path s =
     (if has_op fs Op_symlink then run_op fs (Call_symlink linkname path) s else (no_op (- ENOSYS), s))"

definition fuse_fs_rename :: "'s fuse_fs \<Rightarrow> bytes option \<Rightarrow> bytes option \<Rightarrow> u32 \<Rightarrow> 's \<Rightarrow> fs_result \<times> 's" where
  "fuse_fs_rename fs oldpath newpath flags s =
     (if has_op fs Op_rename then run_op fs (Call_rename oldpath newpath flags) s else (no_op (- ENOSYS), s))"

definition fuse_fs_link :: "'s fuse_fs \<Rightarrow> bytes option \<Rightarrow> bytes option \<Rightarrow> 's \<Rightarrow> fs_result \<times> 's" where
  "fuse_fs_link fs oldpath newpath s =
     (if has_op fs Op_link then run_op fs (Call_link oldpath newpath) s else (no_op (- ENOSYS), s))"

definition fuse_fs_chmod :: "'s fuse_fs \<Rightarrow> bytes option \<Rightarrow> u32 \<Rightarrow> fuse_file_info option \<Rightarrow> 's \<Rightarrow> fs_result \<times> 's" where
  "fuse_fs_chmod fs path mode fi s =
     (if has_op fs Op_chmod then run_op fs (Call_chmod path mode fi) s else (no_op (- ENOSYS), s))"

definition fuse_fs_chown :: "'s fuse_fs \<Rightarrow> bytes option \<Rightarrow> u32 \<Rightarrow> u32 \<Rightarrow> fuse_file_info option \<Rightarrow> 's \<Rightarrow> fs_result \<times> 's" where
  "fuse_fs_chown fs path uid gid fi s =
     (if has_op fs Op_chown then run_op fs (Call_chown path uid gid fi) s else (no_op (- ENOSYS), s))"

definition fuse_fs_truncate :: "'s fuse_fs \<Rightarrow> bytes option \<Rightarrow> int \<Rightarrow> fuse_file_info option \<Rightarrow> 's \<Rightarrow> fs_result \<times> 's" where
  "fuse_fs_truncate fs path sz fi s =
     (if has_op fs Op_truncate then run_op fs (Call_truncate path sz fi) s else (no_op (- ENOSYS), s))"

definition fuse_fs_open :: "'s fuse_fs \<Rightarrow> bytes option \<Rightarrow> fuse_file_info \<Rightarrow> 's \<Rightarrow> fs_result \<times> 's" where
  "fuse_fs_open fs path fi s =
     (if has_op fs Op_open then run_op fs (Call_open path fi) s else (no_op 0, s))"

definition fuse_fs_statfs :: "'s fuse_fs \<Rightarrow> bytes option \<Rightarrow> 's \<Rightarrow> fs_result \<times> 's" where
  "fuse_fs_statfs fs path s =
     (if has_op fs Op_statfs then run_op fs (Call_statfs path) s else ((no_op 0)\<lparr>out_statfs := Some (255, 512)\<rparr>, s))"

definition fuse_fs_flush :: "'s fuse_fs \<Rightarrow> bytes option \<Rightarrow> fuse_file_info \<Rightarrow> 's \<Rightarrow> fs_result \<times> 's" where
  "fuse_fs_flush fs path fi s =
     (if has_op fs Op_flush then run_op fs (Call_flush path fi) s else (no_op (- ENOSYS), s))"

definition fuse_fs_release :: "'s fuse_fs \<Rightarrow> bytes option \<Rightarrow> fuse_file_info \<Rightarrow> 's \<Rightarrow> fs_result \<times> 's" where
  "fuse_fs_release fs path fi s =
     (if has_op fs Op_release then run_op fs (Call_release path fi) s else (no_op 0, s))"

definition fuse_fs_fsync :: "'s fuse_fs \<Rightarrow> bytes option \<Rightarrow> int \<Rightarrow> fuse_file_info \<Rightarrow> 's \<Rightarrow> fs_result \<times> 's" where
  "fuse_fs_fsync fs path datasync fi s =
     (if has_op fs Op_fsync then run_op fs (Call_fsync path datasync fi) s else (no_op (- ENOSYS), s))"

definition fuse_fs_setxattr :: "'s fuse_fs \<Rightarrow> bytes option \<Rightarrow> bytes \<Rightarrow> bytes \<Rightarrow> int \<Rightarrow> 's \<Rightarrow> fs_result \<times> 's" where
  "fuse_fs_setxattr fs path name value flags s =
     (if has_op fs Op_setxattr then run_op fs (Call_setxattr path name value flags) s else (no_op (- ENOSYS), s))"

definition fuse_fs_getxattr :: "'s fuse_fs \<Rightarrow> bytes option \<Rightarrow> bytes \<Rightarrow> nat \<Rightarrow> 's \<Rightarrow> fs_result \<times> 's" where
  "fuse_fs_getxattr fs path name sz s =
     (if has_op fs Op_getxattr then run_op fs (Call_getxattr path name sz) s else (no_op (- ENOSYS), s))"

definition fuse_fs_listxattr :: "'s fuse_fs \<Rightarrow> bytes option \<Rightarrow> nat \<Rightarrow> 's \<Rightarrow> fs_result \<times> 's" where
  "fuse_fs_listxattr fs path sz s =
     (if has_op fs Op_listxattr then run_op fs (Call_listxattr path sz) s else (no_op (- ENOSYS), s))"

definition fuse_fs_removexattr :: "'s fuse_fs \<Rightarrow> bytes option \<Rightarrow> bytes \<Rightarrow> 's \<Rightarrow> fs_result \<times> 's" where
  "fuse_fs_removexattr fs path name s =
     (if has_op fs Op_removexattr then run_op fs (Call_removexattr path name) s else (no_op (- ENOSYS), s))"

definition fuse_fs_opendir :: "'s fuse_fs \<Rightarrow> bytes option \<Rightarrow> fuse_file_info \<Rightarrow> 's \<Rightarrow> fs_result \<times> 's" where
  "fuse_fs_opendir fs path fi s =
     (if has_op fs Op_opendir then run_op fs (Call_opendir path fi) s else (no_op 0, s))"

definition fuse_fs_releasedir :: "'s fuse_fs \<Rightarrow> bytes option \<Rightarrow> fuse_file_info \<Rightarrow> 's \<Rightarrow> fs_result \<times> 's" where
  "fuse_fs_releasedir fs path fi s =
     (if has_op fs Op_releasedir then run_op fs (Call_releasedir path fi) s else (no_op 0, s))"

definition fuse_fs_fsyncdir :: "'s fuse_fs \<Rightarrow> bytes option \<Rightarrow> int \<Rightarrow> fuse_file_info \<Rightarrow> 's \<Rightarrow> fs_result \<times> 's" where
  "fuse_fs_fsyncdir fs path datasync fi s =
     (if has_op fs Op_fsyncdir then run_op fs (Call_fsyncdir path datasync fi) s else (no_op (- ENOSYS), s))"

definition fuse_fs_access :: "'s fuse_fs \<Rightarrow> bytes option \<Rightarrow> int \<Rightarrow> 's \<Rightarrow> fs_result \<times> 's" where
  "fuse_fs_access fs path amode s =
     (if has_op fs Op_access then run_op fs (Call_access path amode) s else (no_op (- ENOSYS), s))"

definition fuse_fs_create :: "'s fuse_fs \<Rightarrow> bytes option \<Rightarrow> u32 \<Rightarrow> fuse_file_info \<Rightarrow> 's \<Rightarrow> fs_result \<times> 's" where
  "fuse_fs_create fs path mode fi s =
     (if has_op fs Op_create then run_op fs (Call_create path mode fi) s else (no_op (- ENOSYS), s))"

definition fuse_fs_lock :: "'s fuse_fs \<Rightarrow> bytes option \<Rightarrow> fuse_file_info \<Rightarrow> int \<Rightarrow> flock \<Rightarrow> 's \<Rightarrow> fs_result \<times> 's" where
  "fuse_fs_lock fs path fi cmd lk s =
     (if has_op fs Op_lock then run_op fs (Call_lock path fi cmd lk) s else (no_op (- ENOSYS), s))"

definition fuse_fs_utimens :: "'s fuse_fs \<Rightarrow> bytes option \<Rightarrow> ((int \<times> int) \<times> (int \<times> int)) \<Rightarrow> fuse_file_info option \<Rightarrow> 's \<Rightarrow> fs_result \<times> 's" where
  "fuse_fs_utimens fs path tv fi s =
     (if has_op fs Op_utimens then run_op fs (Call_utimens path tv fi) s else (no_op (- ENOSYS), s))"

definition fuse_fs_bmap :: "'s fuse_fs \<Rightarrow> bytes option \<Rightarrow> nat \<Rightarrow> u64 \<Rightarrow> 's \<Rightarrow> fs_result \<times> 's" where
  "fuse_fs_bmap fs path blocksize idx s =
     (if has_op fs Op_bmap then run_op fs (Call_bmap path blocksize idx) s else (no_op (- ENOSYS), s))"

definition fuse_fs_poll :: "'s fuse_fs \<Rightarrow> bytes option \<Rightarrow> fuse_file_info \<Rightarrow> u64 option \<Rightarrow> 's \<Rightarrow> fs_result \<times> 's" where
  "fuse_fs_poll fs path fi ph s =
     (if has_op fs Op_poll then run_op fs (Call_poll path fi ph) s else (no_op (- ENOSYS), s))"

definition fuse_fs_flock :: "'s fuse_fs \<Rightarrow> bytes option \<Rightarrow> fuse_file_info \<Rightarrow> int \<Rightarrow> 's \<Rightarrow> fs_result \<times> 's" where
  "fuse_fs_flock fs path fi opn s =
     (if has_op fs Op_flock then run_op fs (Call_flock path fi opn) s else (no_op (- ENOSYS), s))"

definition fuse_fs_fallocate :: "'s fuse_fs \<Rightarrow> bytes option \<Rightarrow> int \<Rightarrow> int \<Rightarrow> int \<Rightarrow> fuse_file_info \<Rightarrow> 's \<Rightarrow> fs_result \<times> 's" where
  "fuse_fs_fallocate fs path mode off len fi s =
     (if has_op fs Op_fallocate then run_op fs (Call_fallocate path mode off len fi) s else (no_op (- ENOSYS), s))"

definition fuse_fs_copy_file_range :: "'s fuse_fs \<Rightarrow> bytes option \<Rightarrow> fuse_file_info \<Rightarrow> int \<Rightarrow> bytes option \<Rightarrow> fuse_file_info \<Rightarrow> int \<Rightarrow> u64 \<Rightarrow> int \<Rightarrow> 's \<Rightarrow> fs_result \<times> 's" where
  "fuse_fs_copy_file_range fs path_in fi_in off_in path_out fi_out off_out len flags s =
     (if has_op fs Op_copy_file_range then run_op fs (Call_copy_file_range path_in fi_in off_in path_out fi_out off_out len flags) s else (no_op (- ENOSYS), s))"

definition fuse_fs_lseek :: "'s fuse_fs \<Rightarrow> bytes option \<Rightarrow> int \<Rightarrow> int \<Rightarrow> fuse_file_info \<Rightarrow> 's \<Rightarrow> fs_result \<times> 's" where
  "fuse_fs_lseek fs path off whence fi s =
     (if has_op fs Op_lseek then run_op fs (Call_lseek path off whence fi) s else (no_op (- ENOSYS), s))"


end
