(* ===== verification/Fuse_Table.thy ===== *)
theory Fuse_Table
  imports Prelude
begin

text \<open>
  The hash tables of \<^verbatim>\<open>lib/fuse.c\<close> that hold the nodes, one by the node's id and one by its
  name. Both grow and shrink a bucket at a time (linear hashing): \<open>split\<close> buckets of the lower
  half have been divided between the lower and the upper half of the array. A chain of nodes
  linked by \<open>id_next\<close> or \<open>name_next\<close> is the list of its nodes; a node is named by its address.
  The result of \<open>realloc\<close> is an argument. Sizes and counts are numbers, as the array fills memory
  long before a \<open>size_t\<close> overflows.
\<close>

section \<open>The table\<close>

record node_table =
  t_array :: "nat list list"
  t_use :: nat
  t_size :: nat
  t_split :: nat

abbreviation "NODE_TABLE_MIN_SIZE \<equiv> (8192 :: nat)"

text \<open>The end of both hash functions, from the hash modulo the size on.\<close>

definition split_index :: "node_table \<Rightarrow> nat \<Rightarrow> nat" where
  "split_index t hash =
     (let oldhash = hash mod (t_size t div 2)
      in if t_split t \<le> oldhash then oldhash else hash)"

section \<open>Shrinking\<close>

definition node_table_reduce :: "bool \<Rightarrow> node_table \<Rightarrow> node_table" where
  "node_table_reduce ok t =
     (let newsize = t_size t div 2
      in if newsize < NODE_TABLE_MIN_SIZE then t
         else t\<lparr>t_array := (if ok then take newsize (t_array t) else t_array t),
                t_size := newsize, t_split := newsize div 2\<rparr>)"

text \<open>The loop of \<open>remerge_id\<close> and \<open>remerge_name\<close>: the first upper chain found goes to the end of its lower one.\<close>

fun remerge_loop :: "nat \<Rightarrow> node_table \<Rightarrow> node_table" where
  "remerge_loop 0 t = t"
| "remerge_loop (Suc iter) t =
     (if 0 < t_split t then
        let split = t_split t - 1;
            t = t\<lparr>t_split := split\<rparr>;
            upper = split + t_size t div 2
        in if t_array t ! upper \<noteq> [] then
             t\<lparr>t_array := (t_array t)[split := t_array t ! split @ t_array t ! upper, upper := []]\<rparr>
           else remerge_loop iter t
      else t)"

definition remerge :: "bool \<Rightarrow> node_table \<Rightarrow> node_table" where
  "remerge ok t = remerge_loop 8 (if t_split t = 0 then node_table_reduce ok t else t)"

section \<open>Growing\<close>

definition node_table_resize :: "bool \<Rightarrow> node_table \<Rightarrow> int \<times> node_table" where
  "node_table_resize ok t =
     (let newsize = t_size t * 2
      in if \<not> ok then (-1, t)
         else (0, t\<lparr>t_array := take (t_size t) (t_array t) @ replicate (t_size t) [],
                    t_size := newsize, t_split := 0\<rparr>))"

text \<open>
  The loop of \<open>rehash_id\<close> and \<open>rehash_name\<close> along the chain \<open>hash\<close>: what stays of the chain, and
  the array with the nodes that moved.
\<close>

fun rehash_chain :: "(nat \<Rightarrow> nat) \<Rightarrow> nat \<Rightarrow> nat list \<Rightarrow> nat list list \<Rightarrow> nat list \<times> nat list list" where
  "rehash_chain index hash [] a = ([], a)"
| "rehash_chain index hash (r # rs) a =
     (let newhash = index r
      in if newhash \<noteq> hash then rehash_chain index hash rs (a[newhash := r # a ! newhash])
         else let (rest, a) = rehash_chain index hash rs a in (r # rest, a))"

definition rehash :: "(nat \<Rightarrow> nat) \<Rightarrow> bool \<Rightarrow> node_table \<Rightarrow> node_table" where
  "rehash key ok t =
     (if t_split t = t_size t div 2 then t
      else
        let hash = t_split t;
            t = t\<lparr>t_split := hash + 1\<rparr>;
            (rest, a) = rehash_chain (\<lambda>r. split_index t (key r mod t_size t)) hash (t_array t ! hash) (t_array t);
            t = t\<lparr>t_array := a[hash := rest]\<rparr>
        in if t_split t = t_size t div 2 then snd (node_table_resize ok t) else t)"

section \<open>Well-formed tables\<close>

text \<open>
  \<open>key r\<close> is the hash of the node \<open>r\<close> before it is reduced to the table. Every node is in the
  chain of its hash, once; the size is the least one times a power of 2.
\<close>

definition index_of :: "(nat \<Rightarrow> nat) \<Rightarrow> node_table \<Rightarrow> nat \<Rightarrow> nat" where
  "index_of key t r = split_index t (key r mod t_size t)"

definition members :: "node_table \<Rightarrow> nat set" where
  "members t = (\<Union>i < t_size t. set (t_array t ! i))"

definition chains_ok :: "(nat \<Rightarrow> nat) \<Rightarrow> node_table \<Rightarrow> bool" where
  "chains_ok key t \<longleftrightarrow>
     (\<exists>k. t_size t = NODE_TABLE_MIN_SIZE * 2 ^ k) \<and> t_split t \<le> t_size t div 2 \<and>
     t_size t \<le> length (t_array t) \<and>
     (\<forall>i < t_size t. distinct (t_array t ! i) \<and> (\<forall>r \<in> set (t_array t ! i). index_of key t r = i))"

lemma chains_okD:
  assumes "chains_ok key t"
  shows "0 < t_size t div 2" "t_split t \<le> t_size t div 2" "t_size t \<le> length (t_array t)"
    "t_size t = 2 * (t_size t div 2)"
    "\<And>i. i < t_size t \<Longrightarrow> distinct (t_array t ! i)"
    "\<And>i r. i < t_size t \<Longrightarrow> r \<in> set (t_array t ! i) \<Longrightarrow> index_of key t r = i"
proof -
  obtain k where "t_size t = NODE_TABLE_MIN_SIZE * 2 ^ k" using assms by (auto simp: chains_ok_def)
  then show "0 < t_size t div 2" "t_size t = 2 * (t_size t div 2)" by simp_all
qed (use assms in \<open>auto simp: chains_ok_def\<close>)

lemma mod_half: "h < 2 * n \<Longrightarrow> h mod n = (if h < n then h else h - n)" for h n :: nat
  by (simp add: mod_if)

lemma split_index_less: "0 < t_size t div 2 \<Longrightarrow> h < t_size t \<Longrightarrow> split_index t h < t_size t"
  using le_less_trans [OF mod_less_eq_dividend, of h "t_size t" "t_size t div 2"] by (simp add: split_index_def Let_def)

lemma index_less: "chains_ok key t \<Longrightarrow> index_of key t r < t_size t"
  unfolding index_of_def using chains_okD(1) by (intro split_index_less mod_less_divisor) fastforce+

lemma member_iff: "chains_ok key t \<Longrightarrow> r \<in> members t \<longleftrightarrow> r \<in> set (t_array t ! index_of key t r)"
  using chains_okD(6) index_less by (fastforce simp: members_def)

lemma chains_ok_newI:
  assumes "t_size t = NODE_TABLE_MIN_SIZE * 2 ^ k" "t_split t \<le> t_size t div 2" "t_size t \<le> length (t_array t)"
    and "\<And>i. i < t_size t \<Longrightarrow> distinct (t_array t ! i) \<and> (\<forall>r \<in> set (t_array t ! i). index_of key t r = i)"
  shows "chains_ok key t"
  using assms unfolding chains_ok_def by blast

lemma chains_okI:
  assumes "chains_ok key t" "t_size t' = t_size t" "t_split t' \<le> t_size t div 2" "t_size t \<le> length (t_array t')"
    and "\<And>i. i < t_size t \<Longrightarrow> distinct (t_array t' ! i) \<and> (\<forall>r \<in> set (t_array t' ! i). index_of key t' r = i)"
  shows "chains_ok key t'"
  using assms by (auto simp: chains_ok_def)

lemma index_cong: "key' r = key r \<Longrightarrow> t_size t' = t_size t \<Longrightarrow> t_split t' = t_split t \<Longrightarrow> index_of key' t' r = index_of key t r"
  by (simp add: index_of_def split_index_def)

lemma chains_ok_cong:
  assumes "chains_ok key t" "\<And>r. r \<in> members t \<Longrightarrow> key' r = key r"
  shows "chains_ok key' t"
proof -
  have "index_of key' t r = index_of key t r" if "i < t_size t" "r \<in> set (t_array t ! i)" for i r
    using that assms(2) by (intro index_cong) (auto simp: members_def)
  then show ?thesis using assms(1) by (simp add: chains_ok_def)
qed

lemma in_members: "x \<in> members t \<longleftrightarrow> (\<exists>i < t_size t. x \<in> set (t_array t ! i))"
  by (auto simp: members_def)

lemma finite_members [simp]: "finite (members t)"
  by (simp add: members_def)

subsection \<open>Entering and removing a node\<close>

lemma table_push:
  assumes "chains_ok key t" "r \<notin> members t"
    and "t' = t\<lparr>t_array := (t_array t)[index_of key t r := r # t_array t ! index_of key t r], t_use := u\<rparr>"
  shows "chains_ok key t'" "members t' = insert r (members t)"
proof -
  note d = chains_okD [OF assms(1)]
  let ?i = "index_of key t r"
  have i: "?i < t_size t" by (rule index_less [OF assms(1)])
  have ix: "index_of key t' x = index_of key t x" for x by (rule index_cong) (simp_all add: assms(3))
  have n: "r \<notin> set (t_array t ! ?i)" using assms(2) member_iff [OF assms(1)] by simp
  have a: "t_array t' ! j = (if j = ?i then r # t_array t ! ?i else t_array t ! j)" if "j < t_size t" for j
    using that d(3) by (simp add: assms(3) nth_list_update)
  show "chains_ok key t'"
    by (rule chains_okI [OF assms(1)]) (use d n ix a in \<open>auto simp: assms(3)\<close>)
  have "t_size t' = t_size t" by (simp add: assms(3))
  then show "members t' = insert r (members t)" using a i by (auto simp: members_def split: if_splits)
qed

lemma table_remove:
  assumes "chains_ok key t" "r \<in> members t"
    and "t' = t\<lparr>t_array := (t_array t)[index_of key t r := remove1 r (t_array t ! index_of key t r)], t_use := u\<rparr>"
  shows "chains_ok key t'" "members t' = members t - {r}"
proof -
  note d = chains_okD [OF assms(1)]
  let ?i = "index_of key t r"
  have i: "?i < t_size t" by (rule index_less [OF assms(1)])
  have ix: "index_of key t' x = index_of key t x" for x by (rule index_cong) (simp_all add: assms(3))
  have a: "t_array t' ! j = (if j = ?i then remove1 r (t_array t ! ?i) else t_array t ! j)" if "j < t_size t" for j
    using that d(3) by (simp add: assms(3) nth_list_update)
  have rm: "set (remove1 r (t_array t ! ?i)) = set (t_array t ! ?i) - {r}" using d(5) [OF i] by simp
  show "chains_ok key t'"
    by (rule chains_okI [OF assms(1)]) (use d ix a rm in \<open>auto simp: assms(3)\<close>)
  have s: "t_size t' = t_size t" by (simp add: assms(3))
  have "x \<in> members t' \<longleftrightarrow> x \<in> members t - {r}" for x
  proof -
    have "x \<in> members t' \<longleftrightarrow> x \<in> set (t_array t' ! index_of key t x)"
      using member_iff [OF \<open>chains_ok key t'\<close>, of x] ix by simp
    also have "\<dots> \<longleftrightarrow> x \<in> set (t_array t ! index_of key t x) \<and> x \<noteq> r"
      using a [OF index_less [OF assms(1), of x]] rm d(6) [OF i] by auto
    finally show ?thesis using member_iff [OF assms(1)] by auto
  qed
  then show "members t' = members t - {r}" by blast
qed

subsection \<open>Growing and shrinking\<close>

lemma rehash_chain_spec:
  assumes "rehash_chain index hash rs a = (rest, a')"
  shows "rest = filter (\<lambda>r. index r = hash) rs" "length a' = length a"
    "i < length a \<Longrightarrow> a' ! i = (if i = hash then a ! i else rev (filter (\<lambda>r. index r = i) rs) @ a ! i)"
proof -
  have "rest = filter (\<lambda>r. index r = hash) rs \<and> length a' = length a \<and>
    (\<forall>i < length a. a' ! i = (if i = hash then a ! i else rev (filter (\<lambda>r. index r = i) rs) @ a ! i))"
    using assms
  proof (induction rs arbitrary: a rest a')
    case (Cons r rs)
    show ?case
    proof (cases "index r = hash")
      case True
      then obtain rest1 where "rehash_chain index hash rs a = (rest1, a')" "rest = r # rest1"
        using Cons.prems by (auto split: prod.splits)
      then show ?thesis using Cons.IH [of a rest1 a'] True by auto
    next
      case False
      then have "rehash_chain index hash rs (a[index r := r # a ! index r]) = (rest, a')" using Cons.prems by (simp add: Let_def)
      note ih = Cons.IH [OF this]
      then show ?thesis using False by (auto simp: nth_list_update)
    qed
  qed simp
  then show "rest = filter (\<lambda>r. index r = hash) rs" "length a' = length a"
    "i < length a \<Longrightarrow> a' ! i = (if i = hash then a ! i else rev (filter (\<lambda>r. index r = i) rs) @ a ! i)" by blast+
qed

text \<open>When one more bucket is split, the index changes for its own nodes only.\<close>

lemma split_index_next:
  assumes "h < t_size t" "t_size t = 2 * (t_size t div 2)" "t_split t < t_size t div 2"
  shows "split_index (t\<lparr>t_split := t_split t + 1, t_array := a\<rparr>) h =
    (if split_index t h = t_split t then h else split_index t h)"
    "split_index t h = t_split t \<Longrightarrow> h = t_split t \<or> h = t_split t + t_size t div 2"
proof -
  obtain n where n: "t_size t = 2 * n" using assms(2) by blast
  have h: "h mod n = (if h < n then h else h - n)" using assms(1) n by (intro mod_half) simp
  show "split_index (t\<lparr>t_split := t_split t + 1, t_array := a\<rparr>) h =
    (if split_index t h = t_split t then h else split_index t h)"
    "split_index t h = t_split t \<Longrightarrow> h = t_split t \<or> h = t_split t + t_size t div 2"
    using assms(1,3) h n by (auto simp: split_index_def Let_def split: if_splits)
qed

lemma resize_ok:
  assumes "chains_ok key t" "t_split t = t_size t div 2"
  shows "chains_ok key (snd (node_table_resize ok t))" "members (snd (node_table_resize ok t)) = members t"
    "t_use (snd (node_table_resize ok t)) = t_use t"
proof -
  note d = chains_okD [OF assms(1)]
  let ?t = "snd (node_table_resize ok t)"
  obtain k where k: "t_size t = 8192 * 2 ^ k" using assms(1) by (auto simp: chains_ok_def)
  have "chains_ok key ?t \<and> members ?t = members t \<and> t_use ?t = t_use t"
  proof (cases ok)
    case True
    have s: "t_size ?t = 2 * t_size t" "t_split ?t = 0" "length (t_array ?t) = 2 * t_size t" "t_use ?t = t_use t"
      using True d(3) by (simp_all add: node_table_resize_def)
    have a: "t_array ?t ! i = (if i < t_size t then t_array t ! i else [])" if "i < 2 * t_size t" for i
      using that True d(3) by (simp add: node_table_resize_def nth_append)
    have ix: "index_of key ?t r = index_of key t r" for r
    proof -
      obtain n where n: "t_size t = 2 * n" "0 < n" using d(1,4) by blast
      have "key r mod (2 * (2 * n)) mod (2 * n) = key r mod (2 * n)" by (rule mod_mod_cancel) simp
      moreover have "key r mod (2 * n) < 2 * n" using n(2) by simp
      then have "key r mod (2 * n) < n \<or> key r mod (2 * n) mod n = key r mod (2 * n) - n \<and> key r mod (2 * n) - n < n"
        using mod_half [of "key r mod (2 * n)" n] by auto
      ultimately show ?thesis
        using assms(2) n by (auto simp: index_of_def split_index_def s Let_def)
    qed
    have "t_size ?t = 8192 * 2 ^ Suc k" using s k by simp
    then have "chains_ok key ?t"
      by (rule chains_ok_newI) (use s a ix d(5,6) in auto)
    moreover have "members ?t = members t" using a s by (force simp: members_def split: if_splits)
    ultimately show ?thesis using s by simp
  qed (use assms in \<open>simp add: node_table_resize_def\<close>)
  then show "chains_ok key ?t" "members ?t = members t" "t_use ?t = t_use t" by blast+
qed

lemma rehash_ok:
  assumes "chains_ok key t"
  shows "chains_ok key (rehash key ok t)" "members (rehash key ok t) = members t" "t_use (rehash key ok t) = t_use t"
proof -
  note d = chains_okD [OF assms]
  have "chains_ok key (rehash key ok t) \<and> members (rehash key ok t) = members t \<and> t_use (rehash key ok t) = t_use t"
  proof (cases "t_split t = t_size t div 2")
    case False
    let ?h = "t_split t"
    let ?t1 = "t\<lparr>t_split := ?h + 1\<rparr>"
    obtain rest a where r: "rehash_chain (\<lambda>r. split_index ?t1 (key r mod t_size t)) ?h (t_array t ! ?h) (t_array t) = (rest, a)"
      by fastforce
    define t2 where "t2 = t\<lparr>t_split := ?h + 1, t_array := a[?h := rest]\<rparr>"
    note rc = rehash_chain_spec [OF r]
    have h: "?h < t_size t div 2" "?h < t_size t" using d(2,4) False by linarith+
    have s: "t_size t2 = t_size t" "t_split t2 = ?h + 1" "length (t_array t2) = length (t_array t)" "t_use t2 = t_use t"
      by (simp_all add: t2_def rc(2))
    have ix1: "split_index ?t1 (key r mod t_size t) = index_of key t2 r" for r
      by (simp add: index_of_def split_index_def t2_def)
    have km: "key r mod t_size t < t_size t" for r using h(2) by (intro mod_less_divisor) simp
    have ix: "index_of key t2 r = (if index_of key t r = ?h then key r mod t_size t else index_of key t r)"
      "index_of key t r = ?h \<Longrightarrow> key r mod t_size t = ?h \<or> key r mod t_size t = ?h + t_size t div 2" for r
      using split_index_next(1) [OF km [of r] d(4) h(1), of "a[?h := rest]"] split_index_next(2) [OF km [of r] d(4) h(1)] by (simp_all add: index_of_def t2_def)
    have arr: "t_array t2 ! i = (if i = ?h then filter (\<lambda>r. index_of key t2 r = ?h) (t_array t ! ?h)
        else rev (filter (\<lambda>r. index_of key t2 r = i) (t_array t ! ?h)) @ t_array t ! i)" if "i < t_size t" for i
      using rc that d(3) unfolding ix1 by (simp add: t2_def nth_list_update)
    have ok2: "chains_ok key t2"
    proof (rule chains_okI [OF assms s(1)])
      show "t_split t2 \<le> t_size t div 2" "t_size t \<le> length (t_array t2)" using h(1) d(3) s by simp_all
      fix i assume i: "i < t_size t"
      have dj: "set (t_array t ! i) \<inter> set (t_array t ! ?h) = {}" if "i \<noteq> ?h"
        using d(6) [OF i] d(6) [OF h(2)] that by fastforce
      show "distinct (t_array t2 ! i) \<and> (\<forall>r \<in> set (t_array t2 ! i). index_of key t2 r = i)"
        using d(5) [OF h(2)] d(5) [OF i] d(6) [OF h(2)] d(6) [OF i] ix(1) arr [OF i] dj by auto
    qed
    have "x \<in> members t2 \<longleftrightarrow> x \<in> members t" for x
    proof -
      have i: "index_of key t2 x < t_size t" using index_less [OF ok2] s(1) by simp
      have "x \<in> members t2 \<longleftrightarrow> x \<in> set (t_array t2 ! index_of key t2 x)" by (rule member_iff [OF ok2])
      also have "\<dots> \<longleftrightarrow> x \<in> set (t_array t ! index_of key t x)"
      proof (cases "index_of key t x = ?h")
        case True
        then have "x \<notin> set (t_array t ! index_of key t2 x)" if "index_of key t2 x \<noteq> ?h" using that d(6) [OF i, of x] by auto
        then show ?thesis unfolding arr [OF i] True by (cases "index_of key t2 x = ?h") simp_all
      next
        case False
        then have "index_of key t2 x = index_of key t x" "x \<notin> set (t_array t ! ?h)" using ix(1) [of x] d(6) [OF h(2), of x] by auto
        then show ?thesis unfolding arr [OF i] using False by simp
      qed
      finally show ?thesis using member_iff [OF assms] by simp
    qed
    then have m2: "members t2 = members t" by blast
    have "rehash key ok t = (if t_split t2 = t_size t2 div 2 then snd (node_table_resize ok t2) else t2)"
      using False r by (simp add: rehash_def Let_def t2_def)
    then show ?thesis using resize_ok [OF ok2] ok2 m2 s(4) by simp
  qed (use assms in \<open>simp add: rehash_def\<close>)
  then show "chains_ok key (rehash key ok t)" "members (rehash key ok t) = members t" "t_use (rehash key ok t) = t_use t" by blast+
qed

lemma reduce_ok:
  assumes "chains_ok key t" "t_split t = 0"
  shows "chains_ok key (node_table_reduce ok t)" "members (node_table_reduce ok t) = members t"
    "t_use (node_table_reduce ok t) = t_use t"
proof -
  note d = chains_okD [OF assms(1)]
  obtain k where k: "t_size t = 8192 * 2 ^ k" using assms(1) by (auto simp: chains_ok_def)
  let ?t = "node_table_reduce ok t"
  have "chains_ok key ?t \<and> members ?t = members t \<and> t_use ?t = t_use t"
  proof (cases "t_size t div 2 < 8192")
    case False
    obtain n where n: "t_size t = 2 * n" "0 < n" using d(1,4) by blast
    have s: "t_size ?t = n" "t_split ?t = n div 2" "t_use ?t = t_use t"
      using False n by (simp_all add: node_table_reduce_def Let_def)
    have a: "t_array ?t ! i = t_array t ! i" if "i < n" for i
      using that False n d(3) by (simp add: node_table_reduce_def Let_def)
    have len: "n \<le> length (t_array ?t)" using False n d(3) by (simp add: node_table_reduce_def Let_def)
    obtain j where "k = Suc j" using False k by (cases k) simp_all
    then have nk: "n = 8192 * 2 ^ j" using k n by simp
    then have n2: "n = 2 * (n div 2)" "0 < n div 2" by simp_all
    have low: "index_of key t r = key r mod n" for r
      using n by (simp add: index_of_def split_index_def assms(2) mod_mod_cancel)
    have ix: "index_of key ?t r = key r mod n" for r
      using mod_less_divisor [OF n2(2), of "key r mod n"] by (simp add: index_of_def split_index_def s Let_def)
    have "chains_ok key ?t"
      by (rule chains_ok_newI [where k = j]) (use s nk len a ix low d(5,6) n in auto)
    have "t_array t ! i = []" if "n \<le> i" "i < 2 * n" for i
    proof (rule ccontr)
      assume "t_array t ! i \<noteq> []"
      then have "hd (t_array t ! i) \<in> set (t_array t ! i)" by simp
      then have "key (hd (t_array t ! i)) mod n = i" using d(6) [of i] that(2) n low by simp
      then show False using that(1) mod_less_divisor [OF n(2)] by (metis not_less)
    qed
    then have "(\<exists>i < n. x \<in> set (t_array t ! i)) \<longleftrightarrow> (\<exists>i < 2 * n. x \<in> set (t_array t ! i))" for x
      by (metis empty_iff list.set(1) mult_2 not_less trans_less_add1)
    moreover have "(\<exists>i < n. x \<in> set (t_array ?t ! i)) \<longleftrightarrow> (\<exists>i < n. x \<in> set (t_array t ! i))" for x
      using a by auto
    ultimately have "x \<in> members ?t \<longleftrightarrow> x \<in> members t" for x by (simp only: in_members s(1) n(1))
    then have "members ?t = members t" by blast
    moreover note \<open>chains_ok key ?t\<close>
    ultimately show ?thesis using s by simp
  qed (use assms(1) in \<open>simp add: node_table_reduce_def Let_def\<close>)
  then show "chains_ok key ?t" "members ?t = members t" "t_use ?t = t_use t" by blast+
qed

lemma remerge_step:
  assumes "chains_ok key t" "0 < t_split t" "h = t_split t - 1" "u = h + t_size t div 2"
    and "t' = t\<lparr>t_split := h, t_array := (t_array t)[h := t_array t ! h @ t_array t ! u, u := []]\<rparr>"
  shows "chains_ok key t'" "members t' = members t"
proof -
  note d = chains_okD [OF assms(1)]
  obtain n where n: "t_size t = 2 * n" "0 < n" using d(1,4) by blast
  have hu: "h < n" "u = h + n" "t_split t = h + 1" using d(2) assms(2-4) n by simp_all
  have ix: "index_of key t' r = (if index_of key t r = u then h else index_of key t r)" for r
  proof -
    define x where "x = key r mod (2 * n)"
    have x: "x < 2 * n" "x mod n = (if x < n then x else x - n)" using n(2) mod_half [of x n] by (simp_all add: x_def)
    then show ?thesis using n hu
      by (simp add: index_of_def split_index_def assms(5) Let_def flip: x_def) linarith
  qed
  have a: "t_array t' ! i = (if i = u then [] else if i = h then t_array t ! h @ t_array t ! u else t_array t ! i)"
    if "i < 2 * n" for i
    using that d(3) n hu by (simp add: assms(5) nth_list_update)
  have lt: "h < t_size t" "u < t_size t" using hu n by simp_all
  have dj: "set (t_array t ! h) \<inter> set (t_array t ! u) = {}"
  proof -
    have "h \<noteq> u" using hu(2) n(2) by simp
    then show ?thesis using d(6) [OF lt(1)] d(6) [OF lt(2)] by blast
  qed
  show ok: "chains_ok key t'"
  proof (rule chains_okI [OF assms(1)])
    show "t_size t' = t_size t" "t_split t' \<le> t_size t div 2" "t_size t \<le> length (t_array t')"
      using d(3) hu n by (simp_all add: assms(5))
    fix i assume i: "i < t_size t"
    show "distinct (t_array t' ! i) \<and> (\<forall>r \<in> set (t_array t' ! i). index_of key t' r = i)"
      using a [of i] i n ix d(5) [OF i] d(6) [OF i] d(5,6) [OF lt(1)] d(5,6) [OF lt(2)] dj by auto
  qed
  have "x \<in> members t' \<longleftrightarrow> x \<in> members t" for x
  proof -
    have i: "index_of key t' x < 2 * n" using index_less [OF ok] by (simp add: assms(5) n)
    have "x \<in> set (t_array t' ! index_of key t' x) \<longleftrightarrow> x \<in> set (t_array t ! index_of key t x)"
    proof (cases "index_of key t x = u \<or> index_of key t x = h")
      case True
      then have "index_of key t' x = h" using ix by auto
      moreover have "x \<notin> set (t_array t ! h)" if "index_of key t x = u" using that d(6) [OF lt(1), of x] hu n by auto
      moreover have "x \<notin> set (t_array t ! u)" if "index_of key t x = h" using that d(6) [OF lt(2), of x] hu n by auto
      ultimately show ?thesis using True a [of h] hu(1,2) n(2) by (elim disjE) simp_all
    next
      case False
      then have "index_of key t' x = index_of key t x" using ix by simp
      then show ?thesis unfolding a [OF i] using False by simp
    qed
    then show ?thesis using member_iff [OF ok] member_iff [OF assms(1)] by simp
  qed
  then show "members t' = members t" by blast
qed

lemma remerge_loop_ok:
  assumes "chains_ok key t"
  shows "chains_ok key (remerge_loop k t) \<and> members (remerge_loop k t) = members t \<and> t_use (remerge_loop k t) = t_use t"
  using assms
proof (induction k arbitrary: t)
  case (Suc k)
  show ?case
  proof (cases "0 < t_split t")
    case True
    define h where "h = t_split t - 1"
    define u where "u = h + t_size t div 2"
    define t' where "t' = t\<lparr>t_split := h, t_array := (t_array t)[h := t_array t ! h @ t_array t ! u, u := []]\<rparr>"
    note st = remerge_step [OF Suc.prems True h_def u_def t'_def]
    show ?thesis
    proof (cases "t_array t ! u = []")
      case False
      then have "remerge_loop (Suc k) t = t'"
        unfolding remerge_loop.simps if_P [OF True] Let_def h_def [symmetric] by (simp add: t'_def flip: u_def)
      then show ?thesis using st by (simp add: t'_def)
    next
      case e: True
      then have "(t_array t)[u := []] = t_array t" by (metis list_update_id)
      then have "t' = t\<lparr>t_split := h\<rparr>" using e by (simp add: t'_def)
      then have "remerge_loop (Suc k) t = remerge_loop k t'"
        unfolding remerge_loop.simps if_P [OF True] Let_def h_def [symmetric] using e by (simp flip: u_def)
      then show ?thesis using Suc.IH [OF st(1)] st(2) by (simp add: t'_def)
    qed
  qed (use Suc.prems in simp)
qed simp

lemma remerge_ok:
  assumes "chains_ok key t"
  shows "chains_ok key (remerge ok t)" "members (remerge ok t) = members t" "t_use (remerge ok t) = t_use t"
  using assms reduce_ok [of key t] remerge_loop_ok [of key "node_table_reduce ok t" 8] remerge_loop_ok [OF assms, of 8]
  by (auto simp: remerge_def)

section \<open>The interface of a table\<close>

text \<open>
  What a search relies on: the nodes with a key are in the chain of that key, no others are in any
  chain, and no two nodes have the same key.
\<close>

locale keyed_chains =
  fixes inv :: "'t \<Rightarrow> bool" and elems :: "'t \<Rightarrow> 'r set" and chain :: "'t \<Rightarrow> 'k \<Rightarrow> 'r list" and key :: "'t \<Rightarrow> 'r \<Rightarrow> 'k"
  assumes chain_elems: "inv t \<Longrightarrow> set (chain t k) \<subseteq> elems t"
    and in_chain: "inv t \<Longrightarrow> r \<in> elems t \<Longrightarrow> r \<in> set (chain t (key t r))"
    and key_unique: "inv t \<Longrightarrow> inj_on (key t) (elems t)"
begin

lemma find_iff:
  assumes "inv t"
  shows "List.find (\<lambda>r. key t r = k) (chain t k) = Some r \<longleftrightarrow> r \<in> elems t \<and> key t r = k"
proof
  assume "List.find (\<lambda>r. key t r = k) (chain t k) = Some r"
  then show "r \<in> elems t \<and> key t r = k"
    using chain_elems [OF assms, of k] by (force simp: find_Some_iff)
next
  assume r: "r \<in> elems t \<and> key t r = k"
  then have "List.find (\<lambda>r. key t r = k) (chain t k) \<noteq> None"
    using in_chain [OF assms, of r] by (auto simp: find_None_iff)
  then obtain q where q: "List.find (\<lambda>r. key t r = k) (chain t k) = Some q" by blast
  then have "q \<in> elems t" "key t q = k"
    using chain_elems [OF assms, of k] by (force simp: find_Some_iff)+
  then show "List.find (\<lambda>r. key t r = k) (chain t k) = Some r"
    using q r inj_onD [OF key_unique [OF assms], of q r] by simp
qed

lemma find_none:
  assumes "inv t"
  shows "List.find (\<lambda>r. key t r = k) (chain t k) = None \<longleftrightarrow> (\<forall>r \<in> elems t. key t r \<noteq> k)"
  using find_iff [OF assms, of k] by (metis not_None_eq)

end

end
