(* ===== verification/Fuse_Nodes.thy ===== *)
theory Fuse_Nodes
  imports Fuse_Table
begin

text \<open>
  The nodes of the FUSE library (\<^verbatim>\<open>lib/fuse.c\<close>, from \<open>get_node_nocheck\<close> to
  \<open>exchange_node\<close>). A node stands for a file the kernel knows; it has a number, and, until it is
  unlinked, a name and a parent. \<open>refctr\<close> counts its children, and one more while the kernel
  holds lookups of it (\<open>nlookup\<close>); a node without references is deleted, which may delete its
  parent in turn. Two hash tables find a node by its number and by its parent and name.

  Nodes are kept in a store from addresses to nodes, and an address is not used twice. \<open>abort\<close>,
  a failed \<open>assert\<close>, the use of a null pointer or of a freed node and a loop that does not end are \<open>None\<close>. Whether
  the \<open>n\<close>th call of \<open>malloc\<close>, \<open>calloc\<close> or \<open>realloc\<close> succeeds is arbitrary (\<open>mallocs\<close>). The
  functions run under the mutex of the \<open>fuse\<close> object.
\<close>

section \<open>State\<close>

record fuse_node =
  n_nodeid :: u64
  n_generation :: u32
  refctr :: int
  n_parent :: "nat option"
  n_name :: "bytes option"
  nlookup :: u64
  open_count :: int
  is_hidden :: bool
  treelock :: int
  forget_time :: int

record fuse =
  nodes :: "nat \<Rightarrow> fuse_node option"
  name_table :: node_table
  id_table :: node_table
  lru_table :: "nat list"
  ctr :: u64
  generation :: u32
  remember :: int
  next_addr :: nat
  mallocs :: "nat \<Rightarrow> bool"
  malloc_no :: nat
  now :: int

abbreviation "FUSE_ROOT_ID \<equiv> (1 :: u64)"
abbreviation "FUSE_UNKNOWN_INO \<equiv> (0xFFFFFFFF :: u64)"
abbreviation "ENOMEM \<equiv> (12 :: int)"
abbreviation "EBUSY \<equiv> (16 :: int)"

abbreviation nd :: "fuse \<Rightarrow> nat \<Rightarrow> fuse_node" where
  "nd f r \<equiv> the (nodes f r)"

definition upd :: "nat \<Rightarrow> (fuse_node \<Rightarrow> fuse_node) \<Rightarrow> fuse \<Rightarrow> fuse" where
  "upd r g f = f\<lparr>nodes := (nodes f)(r \<mapsto> g (nd f r))\<rparr>"

definition next_malloc :: "fuse \<Rightarrow> bool \<times> fuse" where
  "next_malloc f = (mallocs f (malloc_no f), f\<lparr>malloc_no := Suc (malloc_no f)\<rparr>)"

definition lru_enabled :: "fuse \<Rightarrow> bool" where
  "lru_enabled f \<longleftrightarrow> remember f > 0"

section \<open>Allocation and the list of forgotten nodes\<close>

definition zero_node :: fuse_node where
  "zero_node = \<lparr>n_nodeid = 0, n_generation = 0, refctr = 0, n_parent = None, n_name = None, nlookup = 0,
     open_count = 0, is_hidden = False, treelock = 0, forget_time = 0\<rparr>"

definition alloc_node :: "fuse \<Rightarrow> nat option \<times> fuse" where
  "alloc_node f =
     (let (ok, f) = next_malloc f
      in if \<not> ok then (None, f)
         else let r = next_addr f
              in (Some r, f\<lparr>nodes := (nodes f)(r \<mapsto> zero_node), next_addr := Suc r\<rparr>))"

definition free_node :: "fuse \<Rightarrow> nat \<Rightarrow> fuse" where
  "free_node f r = f\<lparr>nodes := (nodes f)(r := None)\<rparr>"

text \<open>Taking a node off the list twice has no effect, as its links then form a list of their own.\<close>

definition remove_node_lru :: "fuse \<Rightarrow> nat \<Rightarrow> fuse" where
  "remove_node_lru f r = f\<lparr>lru_table := remove1 r (lru_table f)\<rparr>"

definition set_forget_time :: "fuse \<Rightarrow> nat \<Rightarrow> fuse" where
  "set_forget_time f r =
     (let f = f\<lparr>lru_table := remove1 r (lru_table f)\<rparr>;
          f = f\<lparr>lru_table := lru_table f @ [r]\<rparr>
      in upd r (\<lambda>n. n\<lparr>forget_time := now f\<rparr>) f)"

section \<open>The table of numbers\<close>

definition id_key :: "u64 \<Rightarrow> nat" where
  "id_key ino = unat ((ucast ino :: u32) * 2654435761)"

definition id_hash :: "fuse \<Rightarrow> u64 \<Rightarrow> nat" where
  "id_hash f ino = split_index (id_table f) (id_key ino mod t_size (id_table f))"

definition get_node_nocheck :: "fuse \<Rightarrow> u64 \<Rightarrow> nat option" where
  "get_node_nocheck f ino = List.find (\<lambda>r. n_nodeid (nd f r) = ino) (t_array (id_table f) ! id_hash f ino)"

text \<open>\<open>get_node\<close>, which aborts when there is no such node.\<close>

definition get_fuse_node :: "fuse \<Rightarrow> u64 \<Rightarrow> nat option" where
  "get_fuse_node f ino = get_node_nocheck f ino"

definition remerge_id :: "fuse \<Rightarrow> fuse" where
  "remerge_id f = (let (ok, f) = next_malloc f in f\<lparr>id_table := remerge ok (id_table f)\<rparr>)"

definition unhash_id :: "fuse \<Rightarrow> nat \<Rightarrow> fuse" where
  "unhash_id f r =
     (let hash = id_hash f (n_nodeid (nd f r));
          t = id_table f
      in if r \<in> set (t_array t ! hash) then
           let t = t\<lparr>t_array := (t_array t)[hash := remove1 r (t_array t ! hash)], t_use := t_use t - 1\<rparr>;
               f = f\<lparr>id_table := t\<rparr>
           in if t_use t < t_size t div 4 then remerge_id f else f
         else f)"

definition rehash_id :: "fuse \<Rightarrow> fuse" where
  "rehash_id f =
     (let (ok, f) = next_malloc f
      in f\<lparr>id_table := rehash (\<lambda>r. id_key (n_nodeid (nd f r))) ok (id_table f)\<rparr>)"

definition hash_id :: "fuse \<Rightarrow> nat \<Rightarrow> fuse" where
  "hash_id f r =
     (let hash = id_hash f (n_nodeid (nd f r));
          t = id_table f;
          t = t\<lparr>t_array := (t_array t)[hash := r # t_array t ! hash], t_use := t_use t + 1\<rparr>;
          f = f\<lparr>id_table := t\<rparr>
      in if t_use t \<ge> t_size t div 2 then rehash_id f else f)"

section \<open>The table of names\<close>

definition name_key :: "u64 \<Rightarrow> bytes \<Rightarrow> nat" where
  "name_key parent name = unat (foldl (\<lambda>hash c. hash * 31 + ucast c) parent name)"

definition name_hash :: "fuse \<Rightarrow> u64 \<Rightarrow> bytes \<Rightarrow> nat" where
  "name_hash f parent name = split_index (name_table f) (name_key parent name mod t_size (name_table f))"

text \<open>The number of a node's parent.\<close>

abbreviation parent_id :: "fuse \<Rightarrow> nat \<Rightarrow> u64" where
  "parent_id f r \<equiv> n_nodeid (nd f (the (n_parent (nd f r))))"

definition lookup_node :: "fuse \<Rightarrow> u64 \<Rightarrow> bytes \<Rightarrow> nat option" where
  "lookup_node f parent name =
     List.find (\<lambda>r. parent_id f r = parent \<and> n_name (nd f r) = Some name) (t_array (name_table f) ! name_hash f parent name)"

definition remerge_name :: "fuse \<Rightarrow> fuse" where
  "remerge_name f = (let (ok, f) = next_malloc f in f\<lparr>name_table := remerge ok (name_table f)\<rparr>)"

definition rehash_name :: "fuse \<Rightarrow> fuse" where
  "rehash_name f =
     (let (ok, f) = next_malloc f
      in f\<lparr>name_table := rehash (\<lambda>r. name_key (parent_id f r) (the (n_name (nd f r)))) ok (name_table f)\<rparr>)"

text \<open>A name of 32 bytes or more is copied to the heap.\<close>

definition hash_name :: "fuse \<Rightarrow> nat \<Rightarrow> u64 \<Rightarrow> bytes \<Rightarrow> (int \<times> fuse) option" where
  "hash_name f r parentid name =
     (let hash = name_hash f parentid name
      in if nodes f r = None then None
         else case get_fuse_node f parentid of
           None \<Rightarrow> None
         | Some parent \<Rightarrow>
             let (ok, f) = (if length name < 32 then (True, f) else next_malloc f)
             in if \<not> ok then Some (-1, upd r (\<lambda>n. n\<lparr>n_name := None\<rparr>) f)
                else
                  let f = upd r (\<lambda>n. n\<lparr>n_name := Some name\<rparr>) f;
                      f = upd parent (\<lambda>n. n\<lparr>refctr := refctr n + 1\<rparr>) f;
                      f = upd r (\<lambda>n. n\<lparr>n_parent := Some parent\<rparr>) f;
                      t = name_table f;
                      t = t\<lparr>t_array := (t_array t)[hash := r # t_array t ! hash], t_use := t_use t + 1\<rparr>;
                      f = f\<lparr>name_table := t\<rparr>
                  in Some (0, if t_use t \<ge> t_size t div 2 then rehash_name f else f))"

section \<open>Dropping references\<close>

text \<open>
  The three functions call one another; each round takes a node out of the table of names, so
  they end.
\<close>

definition chained :: "fuse \<Rightarrow> nat" where
  "chained f = length (concat (t_array (name_table f)))"

lemma chained_upd [simp]: "chained (upd r g f) = chained f"
  by (simp add: chained_def upd_def)

lemma length_concat_update:
  "i < length a \<Longrightarrow> length (concat (a[i := x])) + length (a ! i) = length (concat a) + length x"
  by (induction a arbitrary: i) (auto split: nat.splits)

lemma chained_remove:
  assumes "h < length a" "r \<in> set (a ! h)"
  shows "Suc (Suc (3 * length (concat (a[h := remove1 r (a ! h)])))) < 3 * length (concat a)"
proof -
  have "Suc (length (remove1 r (a ! h))) = length (a ! h)"
    using assms(2) length_pos_if_in_set [OF assms(2)] by (simp add: length_remove1)
  then show ?thesis
    using length_concat_update [OF assms(1), of "remove1 r (a ! h)"] by linarith
qed

function unref_node :: "fuse \<Rightarrow> nat \<Rightarrow> fuse option"
  and delete_node :: "fuse \<Rightarrow> nat \<Rightarrow> fuse option"
  and unhash_name :: "fuse \<Rightarrow> nat \<Rightarrow> fuse option" where
  "unref_node f r =
     (if nodes f r = None then None
      else if refctr (nd f r) > 0 then
        let f = upd r (\<lambda>n. n\<lparr>refctr := refctr n - 1\<rparr>) f
        in if refctr (nd f r) = 0 then delete_node f r else Some f
      else None)"
| "delete_node f r =
     (if treelock (nd f r) = 0 then
        (case unhash_name f r of
           None \<Rightarrow> None
         | Some f \<Rightarrow>
             let f = (if lru_enabled f then remove_node_lru f r else f);
                 f = unhash_id f r
             in Some (free_node f r))
      else None)"
| "unhash_name f r =
     (if nodes f r = None then None
      else case n_name (nd f r) of
        None \<Rightarrow> Some f
      | Some name \<Rightarrow>
          (case n_parent (nd f r) of
             None \<Rightarrow> None
           | Some parent \<Rightarrow>
               let hash = name_hash f (n_nodeid (nd f parent)) name;
                   t = name_table f
               in if hash < length (t_array t) \<and> r \<in> set (t_array t ! hash) then
                    (case unref_node (f\<lparr>name_table := t\<lparr>t_array := (t_array t)[hash := remove1 r (t_array t ! hash)]\<rparr>\<rparr>) parent of
                       None \<Rightarrow> None
                     | Some f \<Rightarrow>
                         if nodes f r = None then None
                         else
                           let f = upd r (\<lambda>n. n\<lparr>n_name := None, n_parent := None\<rparr>) f;
                               t = (name_table f)\<lparr>t_use := t_use (name_table f) - 1\<rparr>;
                               f = f\<lparr>name_table := t\<rparr>
                           in Some (if t_use t < t_size t div 4 then remerge_name f else f))
                  else None))"
  by pat_completeness auto
termination
  by (relation "measure (\<lambda>x. case x of
        Inl (f, r) \<Rightarrow> 3 * chained f + 2
      | Inr (Inl (f, r)) \<Rightarrow> 3 * chained f + 1
      | Inr (Inr (f, r)) \<Rightarrow> 3 * chained f)")
    (use chained_remove in \<open>auto simp: chained_def upd_def\<close>)

declare unref_node.simps [simp del] delete_node.simps [simp del] unhash_name.simps [simp del]

section \<open>Looking up and forgetting\<close>

text \<open>The numbers wrap around at 32 bits; 0 and those in use are passed over.\<close>

partial_function (option) next_id :: "fuse \<Rightarrow> (u64 \<times> fuse) option" where
  "next_id f =
     (let f = f\<lparr>ctr := (ctr f + 1) AND 0xFFFFFFFF\<rparr>;
          f = (if ctr f = 0 then f\<lparr>generation := generation f + 1\<rparr> else f)
      in if ctr f = 0 \<or> ctr f = FUSE_UNKNOWN_INO \<or> get_node_nocheck f (ctr f) \<noteq> None then next_id f
         else Some (ctr f, f))"

definition inc_nlookup :: "fuse \<Rightarrow> nat \<Rightarrow> fuse" where
  "inc_nlookup f r =
     (let f = (if nlookup (nd f r) = 0 then upd r (\<lambda>n. n\<lparr>refctr := refctr n + 1\<rparr>) f else f)
      in upd r (\<lambda>n. n\<lparr>nlookup := nlookup n + 1\<rparr>) f)"

text \<open>The part of \<open>find_node\<close> for a node that is not there yet; \<open>None\<close> is a null pointer.\<close>

definition new_fuse_node :: "fuse \<Rightarrow> u64 \<Rightarrow> bytes \<Rightarrow> (nat option \<times> fuse) option" where
  "new_fuse_node f parent name =
     (case alloc_node f of
        (None, f) \<Rightarrow> Some (None, f)
      | (Some r, f) \<Rightarrow> do {
          (ino, f) \<leftarrow> next_id f;
          let f = upd r (\<lambda>n. n\<lparr>n_nodeid := ino\<rparr>) f;
          let f = upd r (\<lambda>n. n\<lparr>n_generation := generation f\<rparr>) f;
          let f = (if remember f \<noteq> 0 then inc_nlookup f r else f);
          (err, f) \<leftarrow> hash_name f r parent name;
          if err = -1 then Some (None, free_node f r)
          else
            let f = hash_id f r
            in Some (Some r, inc_nlookup f r)
        })"

definition find_node :: "fuse \<Rightarrow> u64 \<Rightarrow> bytes option \<Rightarrow> (nat option \<times> fuse) option" where
  "find_node f parent name =
     (case name of
        None \<Rightarrow> (case get_fuse_node f parent of
            None \<Rightarrow> None
          | Some r \<Rightarrow>
              let f = (if lru_enabled f \<and> nlookup (nd f r) = 1 then remove_node_lru f r else f)
              in Some (Some r, inc_nlookup f r))
      | Some name \<Rightarrow> (case lookup_node f parent name of
            None \<Rightarrow> new_fuse_node f parent name
          | Some r \<Rightarrow>
              let f = (if lru_enabled f \<and> nlookup (nd f r) = 1 then remove_node_lru f r else f)
              in Some (Some r, inc_nlookup f r)))"

text \<open>
  While the path of the node is locked, the last \<open>forget\<close> waits: the result is then \<open>False\<close>, and
  the call is made again when the lock is gone.
\<close>

definition forget_node :: "fuse \<Rightarrow> u64 \<Rightarrow> u64 \<Rightarrow> (bool \<times> fuse) option" where
  "forget_node f ino k =
     (if ino = FUSE_ROOT_ID then Some (True, f)
      else case get_fuse_node f ino of
        None \<Rightarrow> None
      | Some r \<Rightarrow>
          if nlookup (nd f r) = k \<and> treelock (nd f r) \<noteq> 0 then Some (False, f)
          else if \<not> k \<le> nlookup (nd f r) then None
          else
            let f = upd r (\<lambda>n. n\<lparr>nlookup := nlookup n - k\<rparr>) f
            in if nlookup (nd f r) = 0 then
                 (case unref_node f r of None \<Rightarrow> None | Some f \<Rightarrow> Some (True, f))
               else if lru_enabled f \<and> nlookup (nd f r) = 1 then Some (True, set_forget_time f r)
               else Some (True, f))"

section \<open>Unlinking and renaming\<close>

definition unlink_node :: "fuse \<Rightarrow> nat \<Rightarrow> fuse option" where
  "unlink_node f r =
     (if remember f \<noteq> 0 then
        if nlookup (nd f r) > 1 then unhash_name (upd r (\<lambda>n. n\<lparr>nlookup := nlookup n - 1\<rparr>) f) r
        else None
      else unhash_name f r)"

definition remove_node :: "fuse \<Rightarrow> u64 \<Rightarrow> bytes \<Rightarrow> fuse option" where
  "remove_node f dir name =
     (case lookup_node f dir name of None \<Rightarrow> Some f | Some r \<Rightarrow> unlink_node f r)"

definition rename_node :: "fuse \<Rightarrow> u64 \<Rightarrow> bytes \<Rightarrow> u64 \<Rightarrow> bytes \<Rightarrow> bool \<Rightarrow> (int \<times> fuse) option" where
  "rename_node f olddir oldname newdir newname hide =
     (let node = lookup_node f olddir oldname;
          newnode = lookup_node f newdir newname
      in case node of
           None \<Rightarrow> Some (0, f)
         | Some r \<Rightarrow>
             if newnode \<noteq> None \<and> hide then Some (- EBUSY, f)
             else do {
               f \<leftarrow> (case newnode of None \<Rightarrow> Some f | Some n \<Rightarrow> unlink_node f n);
               f \<leftarrow> unhash_name f r;
               (err, f) \<leftarrow> hash_name f r newdir newname;
               if err = -1 then Some (- ENOMEM, f)
               else Some (0, if hide then upd r (\<lambda>n. n\<lparr>is_hidden := True\<rparr>) f else f)
             })"

definition exchange_node :: "fuse \<Rightarrow> u64 \<Rightarrow> bytes \<Rightarrow> u64 \<Rightarrow> bytes \<Rightarrow> (int \<times> fuse) option" where
  "exchange_node f olddir oldname newdir newname =
     (let oldnode = lookup_node f olddir oldname;
          newnode = lookup_node f newdir newname
      in do {
        f \<leftarrow> (case oldnode of None \<Rightarrow> Some f | Some r \<Rightarrow> unhash_name f r);
        f \<leftarrow> (case newnode of None \<Rightarrow> Some f | Some r \<Rightarrow> unhash_name f r);
        (err, f) \<leftarrow> (case oldnode of None \<Rightarrow> Some (0, f) | Some r \<Rightarrow> hash_name f r newdir newname);
        if err = -1 then Some (- ENOMEM, f)
        else do {
          (err, f) \<leftarrow> (case newnode of None \<Rightarrow> Some (0, f) | Some r \<Rightarrow> hash_name f r olddir oldname);
          if err = -1 then Some (- ENOMEM, f) else Some (0, f)
        }
      })"

definition is_open :: "fuse \<Rightarrow> u64 \<Rightarrow> bytes \<Rightarrow> int" where
  "is_open f dir name =
     (case lookup_node f dir name of
        None \<Rightarrow> 0
      | Some r \<Rightarrow> if open_count (nd f r) > 0 then 1 else 0)"

section \<open>The cache of forgotten nodes\<close>

definition clean_delay :: "fuse \<Rightarrow> int" where
  "clean_delay f =
     (let min_sleep = 60;
          max_sleep = 3600;
          sleep_time = remember f sdiv 10
      in if sleep_time > max_sleep then max_sleep
         else if sleep_time < min_sleep then min_sleep
         else sleep_time)"

text \<open>The loop of \<open>fuse_clean_cache\<close> along what the list was at its start. Times are whole
  seconds; the code compares times with nanoseconds as \<^verbatim>\<open>double\<close>.\<close>

fun clean_loop :: "int \<Rightarrow> nat list \<Rightarrow> fuse \<Rightarrow> fuse option" where
  "clean_loop t [] f = Some f"
| "clean_loop t (r # rs) f =
     (if t - forget_time (nd f r) \<le> remember f then Some f
      else if nlookup (nd f r) \<noteq> 1 then None
      else if refctr (nd f r) > 1 then clean_loop t rs f
      else do {
        let f = upd r (\<lambda>n. n\<lparr>nlookup := 0\<rparr>) f;
        f \<leftarrow> unhash_name f r;
        f \<leftarrow> unref_node f r;
        clean_loop t rs f
      })"

definition fuse_clean_cache :: "fuse \<Rightarrow> (int \<times> fuse) option" where
  "fuse_clean_cache f = do {
     f \<leftarrow> clean_loop (now f) (lru_table f) f;
     Some (clean_delay f, f)
   }"

section \<open>The first node\<close>

definition node_table_init :: node_table where
  "node_table_init =
     \<lparr>t_array = replicate NODE_TABLE_MIN_SIZE [], t_use = 0, t_size = NODE_TABLE_MIN_SIZE, t_split = 0\<rparr>"

text \<open>The end of \<open>fuse_new_31\<close>, when memory suffices: empty tables and the root.\<close>

definition fuse_new_nodes :: "int \<Rightarrow> (nat \<Rightarrow> bool) \<Rightarrow> int \<Rightarrow> fuse option" where
  "fuse_new_nodes rem oks t =
     (let f = \<lparr>nodes = Map.empty, name_table = node_table_init, id_table = node_table_init, lru_table = [],
                ctr = 0, generation = 0, remember = rem, next_addr = 1, mallocs = oks, malloc_no = 0, now = t\<rparr>
      in case alloc_node f of
           (None, f) \<Rightarrow> None
         | (Some root, f) \<Rightarrow>
             let f = upd root (\<lambda>n. n\<lparr>n_name := Some [47]\<rparr>) f;
                 f = upd root (\<lambda>n. n\<lparr>n_parent := None\<rparr>) f;
                 f = upd root (\<lambda>n. n\<lparr>n_nodeid := FUSE_ROOT_ID\<rparr>) f;
                 f = inc_nlookup f root
             in Some (hash_id f root))"

end
