(* ===== verification/Fuse_Tree.thy ===== *)
theory Fuse_Tree
  imports Fuse_Nodes
begin

text \<open>
  The nodes of the FUSE library are well formed at all times. The invariant (\<open>tree_ok\<close>) says
  that both hash tables hold the right nodes in the right chains, that numbers, and names within a
  directory, are unique, that the parents form a forest, and that every count of references is
  right and positive. It is kept by every operation; inside a deletion a weaker form
  (\<open>tree_inv\<close>) is.
\<close>

section \<open>Well-formed trees of nodes\<close>

definition live :: "fuse \<Rightarrow> nat set" where
  "live f = dom (nodes f)"

definition named :: "fuse \<Rightarrow> nat set" where
  "named f = {r \<in> live f. n_parent (nd f r) \<noteq> None}"

abbreviation id_of :: "fuse \<Rightarrow> nat \<Rightarrow> nat" where
  "id_of f r \<equiv> id_key (n_nodeid (nd f r))"

abbreviation name_of :: "fuse \<Rightarrow> nat \<Rightarrow> nat" where
  "name_of f r \<equiv> name_key (parent_id f r) (the (n_name (nd f r)))"

definition kids :: "fuse \<Rightarrow> nat set \<Rightarrow> nat \<Rightarrow> nat set" where
  "kids f D p = {c \<in> live f - D. n_parent (nd f c) = Some p}"

definition looks :: "fuse \<Rightarrow> nat \<Rightarrow> int" where
  "looks f r = (if nlookup (nd f r) = 0 then 0 else 1)"

definition parent_rel :: "fuse \<Rightarrow> (nat \<times> nat) set" where
  "parent_rel f = {(c, p). c \<in> live f \<and> n_parent (nd f c) = Some p}"

text \<open>A node and those above it.\<close>

definition above :: "fuse \<Rightarrow> nat \<Rightarrow> nat set" where
  "above f r = {q. (r, q) \<in> (parent_rel f)\<^sup>*}"

text \<open>
  The invariant, with what holds inside a deletion: the nodes of \<open>D\<close> are out of the table of
  names already, but still have their name and are counted in the table, and \<open>x r\<close> references to
  \<open>r\<close> come from elsewhere.
\<close>

definition tables_ok :: "nat set \<Rightarrow> fuse \<Rightarrow> bool" where
  "tables_ok D f \<longleftrightarrow>
     finite (live f) \<and> (\<forall>r \<in> live f. r < next_addr f) \<and> D \<subseteq> named f \<and>
     chains_ok (id_of f) (id_table f) \<and> members (id_table f) = live f \<and> t_use (id_table f) = card (live f) \<and>
     inj_on (\<lambda>r. n_nodeid (nd f r)) (live f) \<and>
     chains_ok (name_of f) (name_table f) \<and> members (name_table f) = named f - D \<and>
     t_use (name_table f) = card (named f) \<and>
     inj_on (\<lambda>r. (n_parent (nd f r), n_name (nd f r))) (named f - D)"

definition links_ok :: "nat set \<Rightarrow> fuse \<Rightarrow> bool" where
  "links_ok D f \<longleftrightarrow>
     (\<forall>r \<in> named f - D. n_name (nd f r) \<noteq> None \<and> the (n_parent (nd f r)) \<in> live f) \<and>
     (\<forall>r \<in> live f - named f. n_name (nd f r) \<noteq> None \<longrightarrow> n_nodeid (nd f r) = FUSE_ROOT_ID) \<and>
     (\<forall>r \<in> live f. n_nodeid (nd f r) = FUSE_ROOT_ID \<longrightarrow> r \<notin> named f \<and> nlookup (nd f r) \<noteq> 0) \<and>
     (\<exists>r \<in> live f. n_nodeid (nd f r) = FUSE_ROOT_ID) \<and> acyclic (parent_rel f)"

definition refs_ok :: "nat set \<Rightarrow> (nat \<Rightarrow> int) \<Rightarrow> fuse \<Rightarrow> bool" where
  "refs_ok D x f \<longleftrightarrow>
     (\<forall>r \<in> live f - D. refctr (nd f r) = int (card (kids f D r)) + looks f r + x r \<and> 0 \<le> x r \<and>
        (treelock (nd f r) \<noteq> 0 \<longrightarrow> nlookup (nd f r) \<noteq> 0))"

definition tree_inv :: "nat set \<Rightarrow> (nat \<Rightarrow> int) \<Rightarrow> fuse \<Rightarrow> bool" where
  "tree_inv D x f \<longleftrightarrow> tables_ok D f \<and> links_ok D f \<and> refs_ok D x f"

text \<open>Between the operations every node has a reference.\<close>

definition tree_ok :: "fuse \<Rightarrow> bool" where
  "tree_ok f \<longleftrightarrow> tree_inv {} (\<lambda>_. 0) f \<and> (\<forall>r \<in> live f. refctr (nd f r) > 0)"

lemma tables_okD:
  assumes "tables_ok D f"
  shows "finite (live f)" "\<And>r. r \<in> live f \<Longrightarrow> r < next_addr f" "D \<subseteq> named f"
    "chains_ok (id_of f) (id_table f)" "members (id_table f) = live f" "t_use (id_table f) = card (live f)"
    "inj_on (\<lambda>r. n_nodeid (nd f r)) (live f)"
    "chains_ok (name_of f) (name_table f)" "members (name_table f) = named f - D" "t_use (name_table f) = card (named f)"
    "inj_on (\<lambda>r. (n_parent (nd f r), n_name (nd f r))) (named f - D)"
  using assms by (simp_all add: tables_ok_def)

lemma links_okD:
  assumes "links_ok D f"
  shows "\<And>r. r \<in> named f - D \<Longrightarrow> n_name (nd f r) \<noteq> None"
    "\<And>r p. r \<in> named f - D \<Longrightarrow> n_parent (nd f r) = Some p \<Longrightarrow> p \<in> live f"
    "\<And>r. r \<in> live f - named f \<Longrightarrow> n_name (nd f r) \<noteq> None \<Longrightarrow> n_nodeid (nd f r) = FUSE_ROOT_ID"
    "\<And>r. r \<in> live f \<Longrightarrow> n_nodeid (nd f r) = FUSE_ROOT_ID \<Longrightarrow> r \<notin> named f \<and> nlookup (nd f r) \<noteq> 0"
    "\<exists>r \<in> live f. n_nodeid (nd f r) = FUSE_ROOT_ID" "acyclic (parent_rel f)"
proof -
  note a = assms[unfolded links_ok_def]
  show "\<And>r. r \<in> named f - D \<Longrightarrow> n_name (nd f r) \<noteq> None" using a by blast
  show "\<And>r p. r \<in> named f - D \<Longrightarrow> n_parent (nd f r) = Some p \<Longrightarrow> p \<in> live f" using a by force
  show "\<And>r. r \<in> live f - named f \<Longrightarrow> n_name (nd f r) \<noteq> None \<Longrightarrow> n_nodeid (nd f r) = FUSE_ROOT_ID" using a by blast
  show "\<And>r. r \<in> live f \<Longrightarrow> n_nodeid (nd f r) = FUSE_ROOT_ID \<Longrightarrow> r \<notin> named f \<and> nlookup (nd f r) \<noteq> 0" using a by blast
  show "\<exists>r \<in> live f. n_nodeid (nd f r) = FUSE_ROOT_ID" "acyclic (parent_rel f)" using a by blast+
qed

lemma refs_okD:
  assumes "refs_ok D x f" "r \<in> live f" "r \<notin> D"
  shows "refctr (nd f r) = int (card (kids f D r)) + looks f r + x r" "0 \<le> x r"
    "treelock (nd f r) \<noteq> 0 \<Longrightarrow> nlookup (nd f r) \<noteq> 0"
  using assms by (simp_all add: refs_ok_def)

text \<open>The invariant looks at the nodes and the tables only.\<close>

lemma same_nodes_views:
  assumes "nodes f' = nodes f"
  shows "live f' = live f" "named f' = named f" "kids f' D r = kids f D r" "looks f' r = looks f r"
    "parent_rel f' = parent_rel f" "above f' r = above f r"
  using assms by (simp_all add: live_def named_def kids_def looks_def parent_rel_def above_def)

lemma same_nodes_ok:
  assumes "nodes f' = nodes f"
  shows "links_ok D f' = links_ok D f" "refs_ok D x f' = refs_ok D x f"
  by (simp_all add: links_ok_def refs_ok_def same_nodes_views [OF assms] assms)

lemma tree_inv_cong:
  assumes "tree_inv D x f" "nodes f' = nodes f" "id_table f' = id_table f" "name_table f' = name_table f" "next_addr f \<le> next_addr f'"
  shows "tree_inv D x f'"
proof -
  have "\<forall>r \<in> live f. r < next_addr f'" using assms(1,5) by (fastforce simp: tree_inv_def tables_ok_def)
  then show ?thesis
    using assms(1-4) same_nodes_views [OF assms(2)] same_nodes_ok [OF assms(2)] by (simp add: tree_inv_def tables_ok_def)
qed

text \<open>New tables with the same nodes in them.\<close>

lemma tree_inv_tables:
  assumes "tree_inv D x f" "nodes f' = nodes f" "next_addr f' = next_addr f"
    and "chains_ok (id_of f) (id_table f')" "members (id_table f') = members (id_table f)" "t_use (id_table f') = t_use (id_table f)"
    and "chains_ok (name_of f) (name_table f')" "members (name_table f') = members (name_table f)"
      "t_use (name_table f') = t_use (name_table f)"
  shows "tree_inv D x f'"
  using assms same_nodes_views [OF assms(2)] same_nodes_ok [OF assms(2)] by (simp add: tree_inv_def tables_ok_def)

lemma remerge_name_inv: "tree_inv D x f \<Longrightarrow> tree_inv D x (remerge_name f)"
proof -
  assume i: "tree_inv D x f"
  have k: "chains_ok (id_of f) (id_table f)" "chains_ok (name_of f) (name_table f)" using i by (simp_all add: tree_inv_def tables_ok_def)
  show ?thesis
    by (rule tree_inv_tables [OF i]) (simp_all add: remerge_name_def next_malloc_def remerge_ok [OF k(2)] k)
qed

lemma live_upd [simp]: "r \<in> live f \<Longrightarrow> live (upd r g f) = live f"
  by (auto simp: live_def upd_def)

lemma nd_upd [simp]: "nd (upd r g f) q = (if q = r then g (nd f r) else nd f q)"
  by (simp add: upd_def)

lemma upd_fields [simp]:
  "name_table (upd r g f) = name_table f" "id_table (upd r g f) = id_table f" "lru_table (upd r g f) = lru_table f"
  "next_addr (upd r g f) = next_addr f" "remember (upd r g f) = remember f" "ctr (upd r g f) = ctr f"
  "generation (upd r g f) = generation f" "mallocs (upd r g f) = mallocs f" "malloc_no (upd r g f) = malloc_no f" "now (upd r g f) = now f"
  by (simp_all add: upd_def)

lemma above_refl [simp]: "r \<in> above f r"
  by (simp add: above_def)

lemma above_parent:
  assumes "r \<in> live f" "n_parent (nd f r) = Some p"
  shows "above f r = insert r (above f p)"
proof -
  have e: "(r, q) \<in> parent_rel f \<longleftrightarrow> q = p" for q using assms by (auto simp: parent_rel_def)
  show ?thesis using e by (auto simp: above_def elim: converse_rtranclE intro: converse_rtrancl_into_rtrancl)
qed

lemma not_above_parent:
  assumes "acyclic (parent_rel f)" "r \<in> live f" "n_parent (nd f r) = Some p"
  shows "r \<notin> above f p"
proof
  assume "r \<in> above f p"
  then have "(r, r) \<in> (parent_rel f)\<^sup>+" using assms(2,3) by (auto simp: above_def parent_rel_def intro: rtrancl_into_trancl2)
  then show False using assms(1) by (simp add: acyclic_def)
qed

lemma tree_invD:
  assumes "tree_inv D x f"
  shows "tables_ok D f" "links_ok D f" "refs_ok D x f"
  using assms by (simp_all add: tree_inv_def)

lemma namedD: "r \<in> named f \<Longrightarrow> r \<in> live f \<and> (\<exists>p. n_parent (nd f r) = Some p)"
  by (auto simp: named_def)

lemma in_named: "r \<in> live f \<Longrightarrow> n_parent (nd f r) = Some p \<Longrightarrow> r \<in> named f"
  by (auto simp: named_def)

lemma finite_named: "tables_ok D f \<Longrightarrow> finite (named f)"
  using tables_okD(1) by (auto simp: named_def)

lemma finite_kids: "tables_ok D f \<Longrightarrow> finite (kids f E r)"
  using tables_okD(1) by (auto simp: kids_def)

subsection \<open>Out of the table of names\<close>

lemma take_out:
  assumes "tree_inv D x f" "r \<in> live f" "r \<notin> D" "n_parent (nd f r) = Some p" "n_name (nd f r) = Some name" "p \<notin> D"
    and "h = name_hash f (n_nodeid (nd f p)) name" "t = name_table f"
    and "f' = f\<lparr>name_table := t\<lparr>t_array := (t_array t)[h := remove1 r (t_array t ! h)]\<rparr>\<rparr>"
  shows "h < length (t_array t)" "r \<in> set (t_array t ! h)" "tree_inv (insert r D) (x(p := x p + 1)) f'"
proof -
  note T = tables_okD [OF tree_invD(1) [OF assms(1)]] and L = tree_invD(2) [OF assms(1)] and R = tree_invD(3) [OF assms(1)]
  have nr: "r \<in> named f - D" using in_named assms(2-4) by simp
  have h: "h = index_of (name_of f) t r"
    using assms(4,5,7,8) by (simp add: index_of_def name_hash_def)
  have m: "r \<in> members t" using nr T(9) assms(8) by simp
  have tok: "chains_ok (name_of f) t" using T(8) assms(8) by simp
  show "h < length (t_array t)" using index_less [OF tok, of r] chains_okD(3) [OF tok] h by simp
  show "r \<in> set (t_array t ! h)" using m member_iff [OF tok] h by simp
  define t' where "t' = t\<lparr>t_array := (t_array t)[index_of (name_of f) t r := remove1 r (t_array t ! index_of (name_of f) t r)], t_use := t_use t\<rparr>"
  have f': "f' = f\<lparr>name_table := t'\<rparr>" by (simp add: assms(9) h t'_def)
  note rm = table_remove [OF tok m t'_def]
  have n: "nodes f' = nodes f" by (simp add: f')
  note v = same_nodes_views [OF n]
  have p: "p \<in> live f" using links_okD(2) [OF L nr assms(4)] .
  have kq: "kids f (insert r D) q = kids f D q - {r}" for q by (auto simp: kids_def)
  have rk: "r \<in> kids f D q \<longleftrightarrow> q = p" for q using assms(2-4) by (auto simp: kids_def)
  have "tables_ok (insert r D) f'"
    unfolding tables_ok_def v
  proof (intro conjI)
    show "members (name_table f') = named f - insert r D" using rm(2) T(9) assms(8) by (auto simp: f')
    show "insert r D \<subseteq> named f" using T(3) nr by simp
    show "inj_on (\<lambda>r. (n_parent (nd f' r), n_name (nd f' r))) (named f - insert r D)"
      by (rule inj_on_subset [OF T(11) [folded n]]) auto
    show "t_use (name_table f') = card (named f)" using T(10) by (simp add: f' t'_def assms(8))
  qed (use T rm in \<open>simp_all add: f' n\<close>)
  moreover have "links_ok (insert r D) f'"
    using L unfolding links_ok_def v n by blast
  moreover have "refs_ok (insert r D) (x(p := x p + 1)) f'"
    unfolding refs_ok_def v n
  proof
    fix q assume q: "q \<in> live f - insert r D"
    have "int (card (kids f D q)) = int (card (kids f (insert r D) q)) + (if q = p then 1 else 0)"
    proof (cases "q = p")
      case True
      then have "card (kids f D q) = Suc (card (kids f (insert r D) q))"
        using kq rk finite_kids [OF tree_invD(1) [OF assms(1)], of D q]
        by (metis card_Suc_Diff1)
      then show ?thesis using True by simp
    qed (use kq rk in simp)
    then show "refctr (nd f q) = int (card (kids f (insert r D) q)) + looks f q + (x(p := x p + 1)) q \<and>
        0 \<le> (x(p := x p + 1)) q \<and> (treelock (nd f q) \<noteq> 0 \<longrightarrow> nlookup (nd f q) \<noteq> 0)"
      using refs_okD [OF R, of q] q by auto
  qed
  ultimately show "tree_inv (insert r D) (x(p := x p + 1)) f'" by (simp add: tree_inv_def)
qed

lemma put_back:
  assumes "tree_inv (insert r D) x f" "r \<in> live f" "r \<notin> D" "n_parent (nd f r) = Some p"
    and "refctr (nd f r) = int (card (kids f D r)) + looks f r + x r" "0 \<le> x r"
      "treelock (nd f r) \<noteq> 0 \<Longrightarrow> nlookup (nd f r) \<noteq> 0"
    and "t = name_table f" "f' = (upd r (\<lambda>n. n\<lparr>n_name := None, n_parent := None\<rparr>) f)\<lparr>name_table := t\<lparr>t_use := t_use t - 1\<rparr>\<rparr>"
  shows "tree_inv D x f'"
proof -
  note T = tables_okD [OF tree_invD(1) [OF assms(1)]] and R = tree_invD(3) [OF assms(1)]
  note L = links_okD [OF tree_invD(2) [OF assms(1)]]
  have v: "live f' = live f" "name_table f' = t\<lparr>t_use := t_use t - 1\<rparr>" "id_table f' = id_table f" "next_addr f' = next_addr f"
    using assms(2) by (simp_all add: assms(9) live_def upd_def insert_absorb)
  have g: "nd f' q = (if q = r then (nd f r)\<lparr>n_name := None, n_parent := None\<rparr> else nd f q)" for q
    by (simp add: assms(9))
  have nm: "named f' = named f - {r}" by (auto simp: named_def v g)
  have nr: "r \<in> named f" using in_named assms(2,4) by simp
  have k: "kids f' D q = kids f (insert r D) q" for q by (auto simp: kids_def v g)
  have kr: "kids f D r = kids f (insert r D) r"
  proof -
    have "n_parent (nd f r) \<noteq> Some r"
      using not_above_parent [OF L(6) assms(2), of r] by auto
    then show ?thesis by (auto simp: kids_def)
  qed
  have lk: "looks f' q = looks f q" for q by (simp add: looks_def g)
  have ids: "n_nodeid (nd f' q) = n_nodeid (nd f q)" for q by (simp add: g)
  have "tables_ok D f'"
    unfolding tables_ok_def v nm
  proof (intro conjI)
    show "D \<subseteq> named f - {r}" using T(3) assms(3) by blast
    show "chains_ok (id_of f') (id_table f)" using T(4) by (simp add: ids)
    show "inj_on (\<lambda>r. n_nodeid (nd f' r)) (live f)" using T(7) by (simp add: ids)
    have "chains_ok (name_of f') (name_table f)"
      by (rule chains_ok_cong [OF T(8)]) (use T(9) in \<open>auto simp: g\<close>)
    then show "chains_ok (name_of f') (t\<lparr>t_use := t_use t - 1\<rparr>)"
      by (simp add: assms(8) chains_ok_def index_of_def split_index_def)
    show "members (t\<lparr>t_use := t_use t - 1\<rparr>) = named f - {r} - D" using T(9) by (auto simp: assms(8) members_def)
    show "t_use (t\<lparr>t_use := t_use t - 1\<rparr>) = card (named f - {r})" using T(10) nr by (simp add: assms(8))
    have "inj_on (\<lambda>r. (n_parent (nd f r), n_name (nd f r))) (named f - {r} - D)"
      by (rule inj_on_subset [OF T(11)]) auto
    then show "inj_on (\<lambda>r. (n_parent (nd f' r), n_name (nd f' r))) (named f - {r} - D)"
      by (auto simp: inj_on_def g)
  qed (use T in simp_all)
  moreover have "links_ok D f'"
    unfolding links_ok_def v nm ids
  proof (intro conjI)
    have "parent_rel f' \<subseteq> parent_rel f" by (auto simp: parent_rel_def v g split: if_splits)
    then show "acyclic (parent_rel f')" using L(6) acyclic_subset by blast
    show "\<forall>q \<in> named f - {r} - D. n_name (nd f' q) \<noteq> None \<and> the (n_parent (nd f' q)) \<in> live f"
    proof
      fix q assume q: "q \<in> named f - {r} - D"
      then have q': "q \<in> named f - insert r D" by blast
      obtain p where "n_parent (nd f q) = Some p" using q namedD by blast
      then show "n_name (nd f' q) \<noteq> None \<and> the (n_parent (nd f' q)) \<in> live f"
        using L(1) [OF q'] L(2) [OF q'] q by (simp add: g)
    qed
    show "\<forall>q \<in> live f - (named f - {r}). n_name (nd f' q) \<noteq> None \<longrightarrow> n_nodeid (nd f q) = FUSE_ROOT_ID"
      using L(3) by (auto simp: g)
    show "\<forall>q \<in> live f. n_nodeid (nd f q) = FUSE_ROOT_ID \<longrightarrow> q \<notin> named f - {r} \<and> nlookup (nd f' q) \<noteq> 0"
      using L(4) by (auto simp: g)
  qed (rule L(5))
  moreover have "refs_ok D x f'"
    unfolding refs_ok_def v k lk
  proof
    fix q assume q: "q \<in> live f - D"
    show "refctr (nd f' q) = int (card (kids f (insert r D) q)) + looks f q + x q \<and> 0 \<le> x q \<and>
        (treelock (nd f' q) \<noteq> 0 \<longrightarrow> nlookup (nd f' q) \<noteq> 0)"
    proof (cases "q = r")
      case True
      then show ?thesis using assms(5-7) kr by (simp add: g)
    next
      case False
      then show ?thesis using refs_okD [OF R, of q] q by (simp add: g)
    qed
  qed
  ultimately show ?thesis by (simp add: tree_inv_def)
qed

subsection \<open>Freeing a node\<close>

lemma id_hash_index: "id_hash f (n_nodeid (nd f r)) = index_of (id_of f) (id_table f) r"
  by (simp add: id_hash_def index_of_def)

lemma unhash_id_spec:
  assumes "chains_ok (id_of f) (id_table f)" "r \<in> members (id_table f)" "f' = unhash_id f r"
  shows "nodes f' = nodes f" "name_table f' = name_table f" "lru_table f' = lru_table f" "next_addr f' = next_addr f"
    "remember f' = remember f" "ctr f' = ctr f" "generation f' = generation f" "mallocs f' = mallocs f" "now f' = now f"
    "chains_ok (id_of f) (id_table f')" "members (id_table f') = members (id_table f) - {r}"
    "t_use (id_table f') = t_use (id_table f) - 1"
proof -
  let ?i = "index_of (id_of f) (id_table f) r"
  define t where "t = (id_table f)\<lparr>t_array := (t_array (id_table f))[?i := remove1 r (t_array (id_table f) ! ?i)],
    t_use := t_use (id_table f) - 1\<rparr>"
  note rm = table_remove [OF assms(1,2) t_def]
  have "r \<in> set (t_array (id_table f) ! ?i)" using assms(2) member_iff [OF assms(1)] by simp
  then have f': "f' = (if t_use t < t_size t div 4 then remerge_id (f\<lparr>id_table := t\<rparr>) else f\<lparr>id_table := t\<rparr>)"
    unfolding assms(3) unhash_id_def id_hash_index Let_def t_def by simp
  show "nodes f' = nodes f" "name_table f' = name_table f" "lru_table f' = lru_table f" "next_addr f' = next_addr f"
    "remember f' = remember f" "ctr f' = ctr f" "generation f' = generation f" "mallocs f' = mallocs f" "now f' = now f"
    by (simp_all add: f' remerge_id_def next_malloc_def)
  have "id_table f' = t \<or> (\<exists>ok. id_table f' = remerge ok t)"
    by (auto simp: f' remerge_id_def next_malloc_def)
  then show "chains_ok (id_of f) (id_table f')" "members (id_table f') = members (id_table f) - {r}"
    "t_use (id_table f') = t_use (id_table f) - 1"
    using rm remerge_ok [OF rm(1)] by (auto simp: t_def)
qed

lemma unreferenced:
  assumes "tree_inv D x f" "r \<in> live f" "r \<notin> D" "refctr (nd f r) = 0"
  shows "kids f D r = {}" "nlookup (nd f r) = 0" "x r = 0" "treelock (nd f r) = 0" "n_nodeid (nd f r) \<noteq> FUSE_ROOT_ID"
proof -
  note R = refs_okD [OF tree_invD(3) [OF assms(1)] assms(2,3)]
  have z: "card (kids f D r) = 0" "looks f r = 0" "x r = 0"
    using R(1,2) assms(4) by (auto simp: looks_def split: if_splits)
  then show "kids f D r = {}" "x r = 0" using finite_kids [OF tree_invD(1) [OF assms(1)]] by simp_all
  show n: "nlookup (nd f r) = 0" using z(2) by (simp add: looks_def split: if_splits)
  then show "treelock (nd f r) = 0" using R(3) by blast
  show "n_nodeid (nd f r) \<noteq> FUSE_ROOT_ID" using links_okD(4) [OF tree_invD(2) [OF assms(1)] assms(2)] n by blast
qed

lemma free_ok:
  assumes "tree_inv D x f" "r \<in> live f" "n_parent (nd f r) = None" "refctr (nd f r) = 0"
    and "f' = free_node (unhash_id f r) r"
  shows "tree_inv D x f'" "nodes f' = (nodes f)(r := None)"
    "remember f' = remember f" "ctr f' = ctr f" "generation f' = generation f" "mallocs f' = mallocs f" "now f' = now f"
    "next_addr f' = next_addr f"
proof -
  note T = tables_okD [OF tree_invD(1) [OF assms(1)]] and R = tree_invD(3) [OF assms(1)]
  note L = links_okD [OF tree_invD(2) [OF assms(1)]]
  have "r \<in> members (id_table f)" using T(5) assms(2) by simp
  note u = unhash_id_spec [OF T(4) this refl]
  have nn: "r \<notin> named f" using assms(3) by (simp add: named_def)
  then have rD: "r \<notin> D" using T(3) by blast
  note un = unreferenced [OF assms(1,2) rD assms(4)]
  show n: "nodes f' = (nodes f)(r := None)" by (simp add: assms(5) free_node_def u)
  show "remember f' = remember f" "ctr f' = ctr f" "generation f' = generation f" "mallocs f' = mallocs f" "now f' = now f"
    "next_addr f' = next_addr f" by (simp_all add: assms(5) free_node_def u)
  then have na: "next_addr f' = next_addr f" by simp
  have lv: "live f' = live f - {r}" by (auto simp: live_def n)
  have g: "nd f' q = nd f q" if "q \<noteq> r" for q using that by (simp add: n)
  have "q \<in> named f' \<longleftrightarrow> q \<in> named f" for q using assms(3) by (cases "q = r") (auto simp: named_def lv g)
  then have nm: "named f' = named f" by blast
  have t: "id_table f' = id_table (unhash_id f r)" "name_table f' = name_table f" by (simp_all add: assms(5) free_node_def u)
  have ki: "kids f' D q = kids f D q" if "q \<noteq> r" for q
  proof -
    have "c \<in> kids f' D q \<longleftrightarrow> c \<in> kids f D q" for c using assms(3) by (cases "c = r") (auto simp: kids_def lv g)
    then show ?thesis by blast
  qed
  have par: "n_parent (nd f q) \<noteq> Some r" if "q \<in> named f - D" for q
    using un(1) that namedD by (force simp: kids_def)
  have "tables_ok D f'"
    unfolding tables_ok_def lv nm t na
  proof (intro conjI)
    show "chains_ok (id_of f') (id_table (unhash_id f r))"
      by (rule chains_ok_cong [OF u(10)]) (use u(11) g in auto)
    show "members (id_table (unhash_id f r)) = live f - {r}" using u(11) T(5) by simp
    show "t_use (id_table (unhash_id f r)) = card (live f - {r})" using u(12) T(6) assms(2) by simp
    show "inj_on (\<lambda>r. n_nodeid (nd f' r)) (live f - {r})" using T(7) g by (auto simp: inj_on_def)
    show "chains_ok (name_of f') (name_table f)"
    proof (rule chains_ok_cong [OF T(8)])
      fix q assume "q \<in> members (name_table f)"
      then have q: "q \<in> named f - D" using T(9) by simp
      then obtain p where p: "n_parent (nd f q) = Some p" using namedD by blast
      have "q \<noteq> r" using q nn by blast
      then show "name_of f' q = name_of f q" using p par [OF q] g by simp
    qed
    show "inj_on (\<lambda>r. (n_parent (nd f' r), n_name (nd f' r))) (named f - D)"
      using T(11) nn g unfolding inj_on_def by (metis (no_types, lifting) DiffD1)
  qed (use T in auto)
  moreover have "links_ok D f'"
    unfolding links_ok_def lv nm
  proof (intro conjI)
    have "parent_rel f' \<subseteq> parent_rel f" by (auto simp: parent_rel_def lv g)
    then show "acyclic (parent_rel f')" using L(6) acyclic_subset by blast
    show "\<forall>q \<in> named f - D. n_name (nd f' q) \<noteq> None \<and> the (n_parent (nd f' q)) \<in> live f - {r}"
    proof
      fix q assume q: "q \<in> named f - D"
      then obtain p where p: "n_parent (nd f q) = Some p" using namedD by blast
      then show "n_name (nd f' q) \<noteq> None \<and> the (n_parent (nd f' q)) \<in> live f - {r}"
        using L(1) [OF q] L(2) [OF q p] par [OF q] g [of q] q nn by (cases "q = r") auto
    qed
    show "\<forall>q \<in> live f - {r} - named f. n_name (nd f' q) \<noteq> None \<longrightarrow> n_nodeid (nd f' q) = FUSE_ROOT_ID"
      using L(3) g by auto
    show "\<forall>q \<in> live f - {r}. n_nodeid (nd f' q) = FUSE_ROOT_ID \<longrightarrow> q \<notin> named f \<and> nlookup (nd f' q) \<noteq> 0"
      using L(4) g by auto
    obtain q where "q \<in> live f" "n_nodeid (nd f q) = FUSE_ROOT_ID" using L(5) by blast
    moreover from this have "q \<noteq> r" using un(5) by auto
    ultimately show "\<exists>q \<in> live f - {r}. n_nodeid (nd f' q) = FUSE_ROOT_ID" using g by auto
  qed
  moreover have "refs_ok D x f'"
    unfolding refs_ok_def lv
  proof
    fix q assume "q \<in> live f - {r} - D"
    then have q: "q \<in> live f" "q \<notin> D" "q \<noteq> r" by simp_all
    show "refctr (nd f' q) = int (card (kids f' D q)) + looks f' q + x q \<and> 0 \<le> x q \<and>
        (treelock (nd f' q) \<noteq> 0 \<longrightarrow> nlookup (nd f' q) \<noteq> 0)"
      using refs_okD [OF R q(1,2)] unfolding g [OF q(3)] ki [OF q(3)] looks_def by blast
  qed
  ultimately show "tree_inv D x f'" by (simp add: tree_inv_def)
qed

subsection \<open>Deletion\<close>

text \<open>
  What a deletion may change: of the nodes in \<open>S\<close>, the counts; some of them, without lookups, go.
\<close>

definition pruned :: "nat set \<Rightarrow> fuse \<Rightarrow> fuse \<Rightarrow> bool" where
  "pruned S f f' \<longleftrightarrow>
     (\<forall>q. q \<notin> S \<longrightarrow> nodes f' q = nodes f q) \<and>
     (\<forall>q \<in> live f'. q \<in> live f \<and> nd f' q = (nd f q)\<lparr>refctr := refctr (nd f' q)\<rparr>) \<and>
     (\<forall>q \<in> live f - live f'. nlookup (nd f q) = 0) \<and>
     remember f' = remember f \<and> ctr f' = ctr f \<and> generation f' = generation f \<and> mallocs f' = mallocs f \<and>
     now f' = now f \<and> next_addr f' = next_addr f"

lemma prunedD:
  assumes "pruned S f f'"
  shows "\<And>q. q \<notin> S \<Longrightarrow> nodes f' q = nodes f q" "\<And>q. q \<in> live f' \<Longrightarrow> q \<in> live f"
    "\<And>q. q \<in> live f' \<Longrightarrow> nd f' q = (nd f q)\<lparr>refctr := refctr (nd f' q)\<rparr>"
    "\<And>q. q \<in> live f \<Longrightarrow> q \<notin> live f' \<Longrightarrow> nlookup (nd f q) = 0"
    "remember f' = remember f" "ctr f' = ctr f" "generation f' = generation f" "mallocs f' = mallocs f"
    "now f' = now f" "next_addr f' = next_addr f"
  using assms by (auto simp: pruned_def)

lemma prunedD_node:
  assumes "pruned S f f'" "q \<in> live f'"
  shows "n_parent (nd f' q) = n_parent (nd f q)" "n_name (nd f' q) = n_name (nd f q)" "nlookup (nd f' q) = nlookup (nd f q)"
    "n_nodeid (nd f' q) = n_nodeid (nd f q)" "treelock (nd f' q) = treelock (nd f q)"
  by (subst prunedD(3) [OF assms], simp)+

lemma pruned_mono: "pruned S f f' \<Longrightarrow> S \<subseteq> T \<Longrightarrow> pruned T f f'"
  unfolding pruned_def by blast

lemma pruned_same: "nodes f' = nodes f \<Longrightarrow> remember f' = remember f \<Longrightarrow> ctr f' = ctr f \<Longrightarrow> generation f' = generation f \<Longrightarrow>
    mallocs f' = mallocs f \<Longrightarrow> now f' = now f \<Longrightarrow> next_addr f' = next_addr f \<Longrightarrow> pruned S f f'"
  by (simp add: pruned_def live_def)

lemma pruned_trans:
  assumes "pruned S f f1" "pruned T f1 f2"
  shows "pruned (S \<union> T) f f2"
  unfolding pruned_def
proof (intro conjI ballI allI impI)
  show "nodes f2 q = nodes f q" if "q \<notin> S \<union> T" for q using prunedD(1) [OF assms(1)] prunedD(1) [OF assms(2)] that by simp
  show "q \<in> live f" if "q \<in> live f2" for q using prunedD(2) [OF assms(1)] prunedD(2) [OF assms(2)] that by blast
  show "nd f2 q = (nd f q)\<lparr>refctr := refctr (nd f2 q)\<rparr>" if q: "q \<in> live f2" for q
  proof -
    have "q \<in> live f1" by (rule prunedD(2) [OF assms(2) q])
    then have "(nd f1 q)\<lparr>refctr := refctr (nd f2 q)\<rparr> = (nd f q)\<lparr>refctr := refctr (nd f2 q)\<rparr>"
      using arg_cong [OF prunedD(3) [OF assms(1), of q], of "\<lambda>n. n\<lparr>refctr := refctr (nd f2 q)\<rparr>"] by simp
    then show ?thesis using prunedD(3) [OF assms(2) q] by simp
  qed
  show "nlookup (nd f q) = 0" if "q \<in> live f - live f2" for q
    using prunedD(4) [OF assms(1), of q] prunedD(4) [OF assms(2), of q] prunedD_node(3) [OF assms(1), of q] that by auto
qed (use prunedD(5-10) [OF assms(1)] prunedD(5-10) [OF assms(2)] in simp_all)

definition positive :: "nat set \<Rightarrow> fuse \<Rightarrow> bool" where
  "positive D f \<longleftrightarrow> (\<forall>r \<in> live f - D. refctr (nd f r) > 0)"

text \<open>What \<open>unhash_name\<close>, \<open>delete_node\<close> and \<open>unref_node\<close> do, as long as the nodes above are not in \<open>D\<close>.\<close>

definition unhash_spec :: "fuse \<Rightarrow> nat \<Rightarrow> bool" where
  "unhash_spec f r \<longleftrightarrow> (\<forall>D x. tree_inv D x f \<and> r \<in> live f \<and> positive (insert r D) f \<and> above f r \<inter> D = {} \<and>
     n_nodeid (nd f r) \<noteq> FUSE_ROOT_ID \<longrightarrow>
     (\<exists>f'. unhash_name f r = Some f' \<and> tree_inv D x f' \<and> positive (insert r D) f' \<and>
        pruned (above f r - {r}) (upd r (\<lambda>n. n\<lparr>n_name := None, n_parent := None\<rparr>) f) f'))"

definition delete_spec :: "fuse \<Rightarrow> nat \<Rightarrow> bool" where
  "delete_spec f r \<longleftrightarrow> (\<forall>D x. tree_inv D x f \<and> r \<in> live f \<and> positive (insert r D) f \<and> above f r \<inter> D = {} \<and>
     refctr (nd f r) = 0 \<longrightarrow>
     (\<exists>f'. delete_node f r = Some f' \<and> tree_inv D x f' \<and> positive D f' \<and> pruned (above f r) f f'))"

definition unref_spec :: "fuse \<Rightarrow> nat \<Rightarrow> bool" where
  "unref_spec f r \<longleftrightarrow> (\<forall>D x. tree_inv D (x(r := x r + 1)) f \<and> 0 \<le> x r \<and> r \<in> live f \<and> positive D f \<and> above f r \<inter> D = {} \<longrightarrow>
     (\<exists>f'. unref_node f r = Some f' \<and> tree_inv D x f' \<and> positive D f' \<and> pruned (above f r) f f'))"

lemma not_live_upd: "r \<in> live f \<Longrightarrow> nodes f r \<noteq> None"
  by (auto simp: live_def)

lemma above_live: 
  assumes "tree_inv D x f" "r \<in> live f" "above f r \<inter> D = {}"
  shows "above f r \<subseteq> live f"
proof
  fix q assume "q \<in> above f r"
  then have "(r, q) \<in> (parent_rel f)\<^sup>*" by (simp add: above_def)
  then show "q \<in> live f"
  proof (induction rule: rtrancl_induct)
    case (step a b)
    then have "a \<notin> D" using assms(3) by (auto simp: above_def)
    then show ?case
      using step.hyps(2) links_okD(2) [OF tree_invD(2) [OF assms(1)], of a b] by (auto simp: parent_rel_def named_def)
  qed (rule assms(2))
qed

lemma delete_from_unhash:
  assumes "unhash_spec f r"
  shows "delete_spec f r"
  unfolding delete_spec_def
proof (intro allI impI, elim conjE)
  fix D x
  assume i: "tree_inv D x f" and r: "r \<in> live f" and p: "positive (insert r D) f" and a: "above f r \<inter> D = {}" and z: "refctr (nd f r) = 0"
  have rD: "r \<notin> D" using a above_refl [of r f] by blast
  note un = unreferenced [OF i r rD z]
  let ?g = "\<lambda>n. n\<lparr>n_name := None, n_parent := None\<rparr>"
  obtain f1 where f1: "unhash_name f r = Some f1" "tree_inv D x f1" "positive (insert r D) f1"
    "pruned (above f r - {r}) (upd r ?g f) f1"
    using assms i r p a un(5) unfolding unhash_spec_def by blast
  define f2 where "f2 = (if lru_enabled f1 then remove_node_lru f1 r else f1)"
  have s2: "nodes f2 = nodes f1" "id_table f2 = id_table f1" "name_table f2 = name_table f1" "next_addr f2 = next_addr f1"
    "remember f2 = remember f1" "ctr f2 = ctr f1" "generation f2 = generation f1" "mallocs f2 = mallocs f1" "now f2 = now f1"
    by (simp_all add: f2_def remove_node_lru_def)
  have i2: "tree_inv D x f2" by (rule tree_inv_cong [OF f1(2) s2(1-3)]) (simp add: s2(4))
  have n1: "nodes f1 r = Some (?g (nd f r))"
    using prunedD(1) [OF f1(4), of r] by (simp add: upd_def)
  have r2: "r \<in> live f2" "n_parent (nd f2 r) = None" "refctr (nd f2 r) = 0"
    using n1 z by (simp_all add: live_def s2(1) domI)
  define f3 where "f3 = free_node (unhash_id f2 r) r"
  note fr = free_ok [OF i2 r2 f3_def]
  have "delete_node f r = Some f3"
    using f1(1) un(4) by (simp add: delete_node.simps f2_def f3_def Let_def)
  moreover have "positive D f3"
    using f1(3) s2(1) fr(2) by (auto simp: positive_def live_def)
  moreover have "pruned (above f r) f f3"
    unfolding pruned_def
  proof (intro conjI ballI allI impI)
    have g: "nodes f3 q = (if q = r then None else nodes f1 q)" for q by (simp add: fr(2) s2(1))
    have l: "live f3 = live f1 - {r}" by (auto simp: live_def g split: if_splits)
    show "nodes f3 q = nodes f q" if "q \<notin> above f r" for q
      using prunedD(1) [OF f1(4), of q] that g [of q] by (auto simp: upd_def)
    show "q \<in> live f" if "q \<in> live f3" for q using prunedD(2) [OF f1(4), of q] that l r by simp
    show "nd f3 q = (nd f q)\<lparr>refctr := refctr (nd f3 q)\<rparr>" if "q \<in> live f3" for q
      using prunedD(3) [OF f1(4), of q] that l g [of q] by simp
    show "nlookup (nd f q) = 0" if "q \<in> live f - live f3" for q
      using prunedD(4) [OF f1(4), of q] that l un(2) r by (cases "q = r") auto
  qed (use prunedD(5-10) [OF f1(4)] fr s2 in simp_all)
  ultimately show "\<exists>f'. delete_node f r = Some f' \<and> tree_inv D x f' \<and> positive D f' \<and> pruned (above f r) f f'"
    using fr(1) by blast
qed

text \<open>Changing the counts of a node.\<close>

lemma count_views:
  assumes "r \<in> live f" "f' = upd r g f" "\<And>n. n_parent (g n) = n_parent n" "\<And>n. n_name (g n) = n_name n"
    "\<And>n. n_nodeid (g n) = n_nodeid n"
  shows "live f' = live f" "named f' = named f" "kids f' D q = kids f D q" "parent_rel f' = parent_rel f" "above f' q = above f q"
    "n_parent (nd f' q) = n_parent (nd f q)" "n_name (nd f' q) = n_name (nd f q)" "n_nodeid (nd f' q) = n_nodeid (nd f q)"
proof -
  show p: "n_parent (nd f' q) = n_parent (nd f q)" "n_name (nd f' q) = n_name (nd f q)" "n_nodeid (nd f' q) = n_nodeid (nd f q)" for q
    by (simp_all add: assms(2-5))
  show l: "live f' = live f" using assms(1) by (simp add: assms(2))
  then show "named f' = named f" "kids f' D q = kids f D q" and r: "parent_rel f' = parent_rel f"
    by (simp_all add: named_def kids_def parent_rel_def p)
  show "above f' q = above f q" by (simp add: above_def r)
qed

lemma tree_inv_counts:
  assumes "tree_inv D x f" "r \<in> live f" "r \<notin> D" "f' = upd r g f" "\<And>n. n_parent (g n) = n_parent n" "\<And>n. n_name (g n) = n_name n"
    and "\<And>n. n_nodeid (g n) = n_nodeid n" "n_nodeid (nd f r) = FUSE_ROOT_ID \<longrightarrow> nlookup (g (nd f r)) \<noteq> 0"
    and "refctr (g (nd f r)) = int (card (kids f D r)) + (if nlookup (g (nd f r)) = 0 then 0 else 1) + k" "0 \<le> k"
    and "treelock (g (nd f r)) \<noteq> 0 \<longrightarrow> nlookup (g (nd f r)) \<noteq> 0"
  shows "tree_inv D (x(r := k)) f'"
proof -
  note v = count_views [OF assms(2,4-7)]
  note T = tree_invD(1) [OF assms(1)] and L = tree_invD(2) [OF assms(1)] and R = tree_invD(3) [OF assms(1)]
  have g: "nd f' q = (if q = r then g (nd f r) else nd f q)" for q by (simp add: assms(4))
  have "tables_ok D f'" using T by (simp add: tables_ok_def v) (simp add: assms(4))
  moreover have "links_ok D f'"
  proof -
    have "nlookup (nd f' q) \<noteq> 0" if "q \<in> live f" "n_nodeid (nd f q) = FUSE_ROOT_ID" for q
      using links_okD(4) [OF L that] assms(8) that by (auto simp: g)
    then show ?thesis using L unfolding links_ok_def v by blast
  qed
  moreover have "refs_ok D (x(r := k)) f'"
    unfolding refs_ok_def v
  proof
    fix q assume q: "q \<in> live f - D"
    show "refctr (nd f' q) = int (card (kids f D q)) + looks f' q + (x(r := k)) q \<and> 0 \<le> (x(r := k)) q \<and>
        (treelock (nd f' q) \<noteq> 0 \<longrightarrow> nlookup (nd f' q) \<noteq> 0)"
      using refs_okD [OF R, of q] q assms(9-11) by (auto simp: looks_def g)
  qed
  ultimately show ?thesis by (simp add: tree_inv_def)
qed

lemma unref_from_delete:
  assumes "\<And>g. delete_spec (upd r g f) r"
  shows "unref_spec f r"
  unfolding unref_spec_def
proof (intro allI impI, elim conjE)
  fix D x
  assume i: "tree_inv D (x(r := x r + 1)) f" and x: "0 \<le> x r" and r: "r \<in> live f" and p: "positive D f" and a: "above f r \<inter> D = {}"
  have rD: "r \<notin> D" using a above_refl [of r f] by blast
  let ?g = "\<lambda>n. n\<lparr>refctr := refctr n - 1\<rparr>"
  define f1 where "f1 = upd r ?g f"
  note R = refs_okD [OF tree_invD(3) [OF i] r rD]
  note v = count_views [OF r f1_def]
  have x': "(x(r := x r + 1))(r := x r) = x" by simp
  have i1: "tree_inv D x f1"
    using tree_inv_counts [OF i r rD f1_def, of "x r"] R x links_okD(4) [OF tree_invD(2) [OF i] r]
    unfolding x' by (simp add: looks_def)
  have pr: "pruned (above f r) f f1"
    using r by (auto simp: pruned_def f1_def upd_def live_def)
  have pos: "refctr (nd f r) > 0" using p r rD by (simp add: positive_def)
  have l1: "live f1 = live f" using r by (simp add: f1_def)
  have p1: "positive (insert r D) f1" using p unfolding positive_def l1 by (auto simp: f1_def)
  have ab: "above f1 r = above f r" by (rule v) simp_all
  show "\<exists>f'. unref_node f r = Some f' \<and> tree_inv D x f' \<and> positive D f' \<and> pruned (above f r) f f'"
  proof (cases "refctr (nd f1 r) = 0")
    case True
    obtain f' where f': "delete_node f1 r = Some f'" "tree_inv D x f'" "positive D f'" "pruned (above f1 r) f1 f'"
      using assms [of ?g, folded f1_def] i1 r p1 a True unfolding delete_spec_def ab l1 by blast
    have "unref_node f r = Some f'"
      using pos True f'(1) not_live_upd [OF r] by (simp add: unref_node.simps f1_def)
    then show ?thesis using f'(2,3) pruned_trans [OF pr f'(4)] ab by auto
  next
    case False
    have "unref_node f r = Some f1"
      using pos False not_live_upd [OF r] by (simp add: unref_node.simps f1_def)
    moreover have "positive D f1" using p pos False unfolding positive_def l1 by (auto simp: f1_def)
    ultimately show ?thesis using i1 pr by blast
  qed
qed

lemma unhash_from_unref:
  assumes "\<And>f' p. chained f' < chained f \<Longrightarrow> unref_spec f' p"
  shows "unhash_spec f r"
  unfolding unhash_spec_def
proof (intro allI impI, elim conjE)
  fix D x
  assume i: "tree_inv D x f" and r: "r \<in> live f" and p: "positive (insert r D) f" and a: "above f r \<inter> D = {}"
    and root: "n_nodeid (nd f r) \<noteq> FUSE_ROOT_ID"
  let ?g = "\<lambda>n. n\<lparr>n_name := None, n_parent := None\<rparr>"
  have rD: "r \<notin> D" using a above_refl [of r f] by blast
  note L = links_okD [OF tree_invD(2) [OF i]]
  show "\<exists>f'. unhash_name f r = Some f' \<and> tree_inv D x f' \<and> positive (insert r D) f' \<and> pruned (above f r - {r}) (upd r ?g f) f'"
  proof (cases "n_name (nd f r)")
    case None
    then have "r \<notin> named f" using L(1) [of r] rD by blast
    then have "n_parent (nd f r) = None" using r by (simp add: named_def)
    then have "?g (nd f r) = nd f r" using None by simp
    then have u: "upd r ?g f = f" using r by (auto simp: upd_def live_def fun_upd_idem)
    have "unhash_name f r = Some f" using None not_live_upd [OF r] by (simp add: unhash_name.simps)
    then show ?thesis using i p pruned_same [of f f] unfolding u by blast
  next
    case (Some name)
    then have "r \<in> named f" using L(3) [of r] r root by blast
    then obtain q where q: "n_parent (nd f r) = Some q" using namedD by blast
    have ab: "above f r = insert r (above f q)" by (rule above_parent [OF r q])
    have rq: "r \<notin> above f q" by (rule not_above_parent [OF L(6) r q])
    have qD: "q \<notin> D" "above f q \<inter> insert r D = {}" using a ab rq above_refl [of q f] by blast+
    define t where "t = name_table f"
    define h where "h = name_hash f (n_nodeid (nd f q)) name"
    define f1 where "f1 = f\<lparr>name_table := t\<lparr>t_array := (t_array t)[h := remove1 r (t_array t ! h)]\<rparr>\<rparr>"
    note tk = take_out [OF i r rD q Some qD(1) h_def t_def f1_def]
    have n1: "nodes f1 = nodes f" by (simp add: f1_def)
    note v = same_nodes_views [OF n1]
    have qr: "q \<noteq> r" using rq above_refl [of q f] by auto
    have ql: "q \<in> live f" using L(2) [OF _ q] \<open>r \<in> named f\<close> rD by blast
    have "chained f1 < chained f"
      using chained_remove [OF tk(1,2)] by (simp add: chained_def f1_def flip: t_def)
    then have "unref_spec f1 q" by (rule assms)
    moreover have "positive (insert r D) f1" using p by (simp add: positive_def v n1)
    moreover have "0 \<le> x q" using refs_okD(2) [OF tree_invD(3) [OF i] ql qD(1)] .
    ultimately obtain f2 where f2: "unref_node f1 q = Some f2" "tree_inv (insert r D) x f2" "positive (insert r D) f2"
      "pruned (above f q) f1 f2"
      using tk(3) ql qD(2) unfolding unref_spec_def v by blast
    have r2: "nodes f2 r = nodes f r" using prunedD(1) [OF f2(4) rq] n1 by simp
    define t2 where "t2 = name_table f2"
    define f3 where "f3 = (upd r ?g f2)\<lparr>name_table := t2\<lparr>t_use := t_use t2 - 1\<rparr>\<rparr>"
    have l2: "r \<in> live f2" using r r2 by (simp add: live_def dom_def)
    have k2: "kids f2 D r = kids f D r"
    proof -
      have "c \<in> kids f2 D r \<longleftrightarrow> c \<in> kids f D r" for c
      proof (cases "c \<in> above f q \<and> c \<in> live f \<and> n_parent (nd f c) = Some r")
        case True
        then have "r \<in> above f q" by (auto simp: above_def parent_rel_def intro: rtrancl_into_rtrancl)
        then show ?thesis using rq by blast
      next
        case False
        show ?thesis
        proof (cases "c \<in> above f q")
          case True
          then show ?thesis
            using False prunedD(2) [OF f2(4), of c] prunedD_node(1) [OF f2(4), of c] by (auto simp: kids_def v n1)
        next
          case nq: False
          then show ?thesis using prunedD(1) [OF f2(4) nq] by (simp add: kids_def live_def n1 dom_def)
        qed
      qed
      then show ?thesis by blast
    qed
    have i3: "tree_inv D x f3"
    proof (rule put_back [OF f2(2) l2 rD _ _ _ _ t2_def f3_def])
      show "n_parent (nd f2 r) = Some q" using q r2 by simp
      show "refctr (nd f2 r) = int (card (kids f2 D r)) + looks f2 r + x r" "0 \<le> x r"
        "treelock (nd f2 r) \<noteq> 0 \<Longrightarrow> nlookup (nd f2 r) \<noteq> 0"
        using refs_okD [OF tree_invD(3) [OF i] r rD] k2 by (simp_all add: looks_def r2)
    qed
    define f4 where "f4 = (if t_use (name_table f3) < t_size (name_table f3) div 4 then remerge_name f3 else f3)"
    have f4: "nodes f4 = nodes f3" "tree_inv D x f4" "remember f4 = remember f3" "ctr f4 = ctr f3" "generation f4 = generation f3"
      "mallocs f4 = mallocs f3" "now f4 = now f3" "next_addr f4 = next_addr f3"
      using i3 remerge_name_inv by (simp_all add: f4_def remerge_name_def next_malloc_def)
    have "unhash_name f r = Some f4"
      using Some q tk(1,2) f2(1) l2 not_live_upd [OF r]
      by (simp add: unhash_name.simps Let_def live_def f4_def f3_def t2_def f1_def flip: t_def h_def) auto
    moreover have n3: "nodes f3 = (nodes f2)(r \<mapsto> ?g (nd f2 r))" by (simp add: f3_def upd_def)
    have "positive (insert r D) f4"
      using f2(3) by (auto simp: positive_def live_def f4(1) n3)
    moreover have "pruned (above f r - {r}) (upd r ?g f) f4"
    proof -
      have e: "above f r - {r} = above f q" using ab rq by auto
      have ur: "nd f2 r = nd f r" using r2 by simp
      have l4: "live f4 = live f2" using l2 by (auto simp: live_def f4(1) n3)
      show ?thesis
        unfolding pruned_def e
      proof (intro conjI ballI allI impI)
        show "nodes f4 z = nodes (upd r ?g f) z" if "z \<notin> above f q" for z
          using prunedD(1) [OF f2(4) that] by (simp add: f4(1) n3 upd_def n1 ur)
        show "z \<in> live (upd r ?g f)" if "z \<in> live f4" for z
          using prunedD(2) [OF f2(4)] that r l4 v by simp
        show "nd f4 z = (nd (upd r ?g f) z)\<lparr>refctr := refctr (nd f4 z)\<rparr>" if "z \<in> live f4" for z
          using prunedD(3) [OF f2(4), of z] that l4 by (simp add: f4(1) n3 ur n1)
        show "nlookup (nd (upd r ?g f) z) = 0" if "z \<in> live (upd r ?g f) - live f4" for z
          using prunedD(4) [OF f2(4), of z] that l4 l2 r v by (auto simp: n1)
      qed (use prunedD(5-10) [OF f2(4)] f4 in \<open>simp_all add: f3_def f1_def\<close>)
    qed
    ultimately show ?thesis using f4(2) by blast
  qed
qed

lemma drop_specs: "unhash_spec f r \<and> delete_spec f r \<and> unref_spec f r"
proof (induction "chained f" arbitrary: f r rule: less_induct)
  case less
  have "unhash_spec f' r" if "chained f' = chained f" for f' r
    using less that by (intro unhash_from_unref) simp
  then have "delete_spec f' r" if "chained f' = chained f" for f' r using that delete_from_unhash by blast
  moreover from this have "unref_spec f r" by (intro unref_from_delete) simp
  ultimately show ?case using \<open>\<And>f' r. chained f' = chained f \<Longrightarrow> unhash_spec f' r\<close> by blast
qed

end
