(* ===== verification/Fuse_Tree_Ops.thy ===== *)
theory Fuse_Tree_Ops
  imports Fuse_Tree
begin

section \<open>Searching the tables\<close>

lemma chain_in:
  assumes "chains_ok key t"
  shows "split_index t (k mod t_size t) < t_size t"
proof -
  have "0 < t_size t" using chains_okD(1) [OF assms] by (cases "t_size t") simp_all
  then show ?thesis using chains_okD(1) [OF assms] by (intro split_index_less mod_less_divisor)
qed

definition tree_at_rest :: "fuse \<Rightarrow> bool" where
  "tree_at_rest f \<longleftrightarrow> tables_ok {} f \<and> links_ok {} f"

lemma at_rest: "tree_inv {} x f \<Longrightarrow> tree_at_rest f"
  by (simp add: tree_at_rest_def tree_inv_def)

lemma chain_members: "i < t_size t \<Longrightarrow> set (t_array t ! i) \<subseteq> members t"
  by (auto simp: members_def)

interpretation by_id: keyed_chains "tables_ok {}" live "\<lambda>f k. t_array (id_table f) ! id_hash f k" "\<lambda>f r. n_nodeid (nd f r)"
proof
  fix f k r
  assume "tables_ok {} f"
  note T = tables_okD [OF this]
  have "id_hash f k < t_size (id_table f)"
    unfolding id_hash_def by (rule chain_in [OF T(4)])
  then show "set (t_array (id_table f) ! id_hash f k) \<subseteq> live f"
    using chain_members [of "id_hash f k" "id_table f"] T(5) by simp
  show "r \<in> set (t_array (id_table f) ! id_hash f (n_nodeid (nd f r)))" if "r \<in> live f"
    using that member_iff [OF T(4)] T(5) by (simp add: id_hash_index)
  show "inj_on (\<lambda>r. n_nodeid (nd f r)) (live f)" by (rule T(7))
qed

interpretation by_name: keyed_chains tree_at_rest named
  "\<lambda>f (p, name). t_array (name_table f) ! name_hash f p (the name)" "\<lambda>f r. (parent_id f r, n_name (nd f r))"
proof
  fix f r and k :: "u64 \<times> bytes option"
  assume "tree_at_rest f"
  then have i: "tables_ok {} f" "links_ok {} f" by (simp_all add: tree_at_rest_def)
  note T = tables_okD [OF i(1)] and L = links_okD [OF i(2)]
  have "name_hash f p name < t_size (name_table f)" for p name
    unfolding name_hash_def by (rule chain_in [OF T(8)])
  then have "set (t_array (name_table f) ! name_hash f p name) \<subseteq> named f" for p name
    using chain_members [of "name_hash f p name" "name_table f"] T(9) by simp
  then show "set (case k of (p, name) \<Rightarrow> t_array (name_table f) ! name_hash f p (the name)) \<subseteq> named f"
    by (cases k) simp
  show "r \<in> set (case (parent_id f r, n_name (nd f r)) of (p, name) \<Rightarrow> t_array (name_table f) ! name_hash f p (the name))"
    if "r \<in> named f"
    using that member_iff [OF T(8)] T(9) by (simp add: name_hash_def index_of_def)
  show "inj_on (\<lambda>r. (parent_id f r, n_name (nd f r))) (named f)"
  proof (rule inj_onI)
    fix a b assume a: "a \<in> named f" and b: "b \<in> named f" and e: "(parent_id f a, n_name (nd f a)) = (parent_id f b, n_name (nd f b))"
    obtain p q where p: "n_parent (nd f a) = Some p" and q: "n_parent (nd f b) = Some q" using namedD a b by blast
    then have "p = q" using e L(2) [of a p] L(2) [of b q] a b inj_onD [OF T(7), of p q] by simp
    then show "a = b" using e p q inj_onD [OF T(11), of a b] a b by simp
  qed
qed

lemma get_node_iff: "tables_ok {} f \<Longrightarrow> get_fuse_node f ino = Some r \<longleftrightarrow> r \<in> live f \<and> n_nodeid (nd f r) = ino"
  unfolding get_fuse_node_def get_node_nocheck_def by (rule by_id.find_iff)

lemma get_node_none: "tables_ok {} f \<Longrightarrow> get_node_nocheck f ino = None \<longleftrightarrow> (\<forall>r \<in> live f. n_nodeid (nd f r) \<noteq> ino)"
  unfolding get_node_nocheck_def by (rule by_id.find_none)

lemma lookup_node_iff:
  assumes "tree_at_rest f"
  shows "lookup_node f parent name = Some r \<longleftrightarrow> r \<in> named f \<and> parent_id f r = parent \<and> n_name (nd f r) = Some name"
  using by_name.find_iff [OF assms, of "(parent, Some name)" r] by (simp add: lookup_node_def)

lemma lookup_node_none:
  assumes "tree_at_rest f"
  shows "lookup_node f parent name = None \<longleftrightarrow> (\<forall>r \<in> named f. \<not> (parent_id f r = parent \<and> n_name (nd f r) = Some name))"
  using by_name.find_none [OF assms, of "(parent, Some name)"] by (simp add: lookup_node_def)

section \<open>Entering a name\<close>

lemma adopt:
  assumes "tree_inv {} x f" "r \<in> live f" "r \<notin> named f" "n_nodeid (nd f r) \<noteq> FUSE_ROOT_ID" "p \<in> live f" "r \<notin> above f p"
    and "\<And>q. q \<in> named f \<Longrightarrow> n_parent (nd f q) = Some p \<Longrightarrow> n_name (nd f q) \<noteq> Some name"
    and "nodes f' = (nodes f)(r \<mapsto> (nd f r)\<lparr>n_name := Some name, n_parent := Some p\<rparr>, p \<mapsto> (nd f p)\<lparr>refctr := refctr (nd f p) + 1\<rparr>)"
    and "id_table f' = id_table f" "next_addr f' = next_addr f"
    and "chains_ok (name_of f') (name_table f')" "members (name_table f') = insert r (named f)"
      "t_use (name_table f') = Suc (t_use (name_table f))"
  shows "tree_inv {} x f'"
proof -
  note T = tables_okD [OF tree_invD(1) [OF assms(1)]] and R = tree_invD(3) [OF assms(1)]
  note L = links_okD [OF tree_invD(2) [OF assms(1)]]
  have pr: "p \<noteq> r" using assms(6) above_refl [of p f] by auto
  have v: "live f' = live f" using assms(2,5,8) by (auto simp: live_def)
  have g: "nd f' q = (if q = p then (nd f p)\<lparr>refctr := refctr (nd f p) + 1\<rparr>
      else if q = r then (nd f r)\<lparr>n_name := Some name, n_parent := Some p\<rparr> else nd f q)" for q
    by (simp add: assms(8))
  have ids: "n_nodeid (nd f' q) = n_nodeid (nd f q)" and lk: "looks f' q = looks f q"
    and nl: "nlookup (nd f' q) = nlookup (nd f q)" and tl: "treelock (nd f' q) = treelock (nd f q)" for q
    by (simp_all add: g looks_def)
  have par: "n_parent (nd f' q) = (if q = r then Some p else n_parent (nd f q))"
    "n_name (nd f' q) = (if q = r then Some name else n_name (nd f q))" for q using pr by (simp_all add: g)
  have nm: "named f' = insert r (named f)" using assms(2) by (auto simp: named_def v par)
  have nk: "n_parent (nd f r) = None" using assms(2,3) by (simp add: named_def)
  have ki: "kids f' {} q = (if q = p then insert r (kids f {} q) else kids f {} q)" for q
    using assms(2) nk by (auto simp: kids_def v par)
  have "tables_ok {} f'"
    unfolding tables_ok_def v nm assms(9,10)
  proof (intro conjI)
    show "chains_ok (id_of f') (id_table f)" "inj_on (\<lambda>r. n_nodeid (nd f' r)) (live f)" using T(4,7) by (simp_all add: ids)
    show "t_use (name_table f') = card (insert r (named f))"
      using assms(3,13) T(10) finite_named [OF tree_invD(1) [OF assms(1)]] by simp
    show "inj_on (\<lambda>r. (n_parent (nd f' r), n_name (nd f' r))) (insert r (named f) - {})"
    proof (rule inj_onI)
      fix a b assume ab: "a \<in> insert r (named f) - {}" "b \<in> insert r (named f) - {}"
        and e: "(n_parent (nd f' a), n_name (nd f' a)) = (n_parent (nd f' b), n_name (nd f' b))"
      show "a = b"
      proof (cases "a = r \<or> b = r")
        case True
        then show ?thesis using assms(7) [of a] assms(7) [of b] e ab by (auto simp: par split: if_splits)
      next
        case False
        then show ?thesis using e ab inj_onD [OF T(11), of a b] by (auto simp: par)
      qed
    qed
  qed (use T assms(11,12) in simp_all)
  moreover have "links_ok {} f'"
    unfolding links_ok_def v nm ids nl
  proof (intro conjI)
    have "parent_rel f' = insert (r, p) (parent_rel f)"
      using assms(2) nk by (auto simp: parent_rel_def v par split: if_splits)
    moreover have "(p, r) \<notin> (parent_rel f)\<^sup>*" using assms(6) by (simp add: above_def)
    ultimately show "acyclic (parent_rel f')" using L(6) by (simp add: acyclic_insert)
    show "\<forall>q \<in> insert r (named f) - {}. n_name (nd f' q) \<noteq> None \<and> the (n_parent (nd f' q)) \<in> live f"
      using L(1,2) assms(5) namedD by (fastforce simp: par)
    show "\<forall>q \<in> live f - insert r (named f). n_name (nd f' q) \<noteq> None \<longrightarrow> n_nodeid (nd f q) = FUSE_ROOT_ID"
      using L(3) by (auto simp: par)
    show "\<forall>q \<in> live f. n_nodeid (nd f q) = FUSE_ROOT_ID \<longrightarrow> q \<notin> insert r (named f) \<and> nlookup (nd f q) \<noteq> 0"
      using L(4) assms(4) by auto
  qed (rule L(5))
  moreover have "refs_ok {} x f'"
    unfolding refs_ok_def v lk nl tl
  proof
    fix q assume q: "q \<in> live f - {}"
    have "int (card (kids f' {} q)) = int (card (kids f {} q)) + (if q = p then 1 else 0)"
    proof -
      have "r \<notin> kids f {} q" using nk by (simp add: kids_def)
      then show ?thesis using finite_kids [OF tree_invD(1) [OF assms(1)], of "{}" q] by (cases "q = p") (simp_all add: ki)
    qed
    then show "refctr (nd f' q) = int (card (kids f' {} q)) + looks f q + x q \<and> 0 \<le> x q \<and>
        (treelock (nd f q) \<noteq> 0 \<longrightarrow> nlookup (nd f q) \<noteq> 0)"
      using refs_okD [OF R, of q] q by (auto simp: g)
  qed
  ultimately show ?thesis by (simp add: tree_inv_def)
qed

text \<open>What \<open>hash_name\<close> does, as an update of the nodes and of one table.\<close>

definition adopted :: "nat \<Rightarrow> nat \<Rightarrow> bytes \<Rightarrow> fuse \<Rightarrow> fuse \<Rightarrow> bool" where
  "adopted r p name f f' \<longleftrightarrow>
     nodes f' = (nodes f)(r \<mapsto> (nd f r)\<lparr>n_name := Some name, n_parent := Some p\<rparr>, p \<mapsto> (nd f p)\<lparr>refctr := refctr (nd f p) + 1\<rparr>) \<and>
     id_table f' = id_table f \<and> next_addr f' = next_addr f \<and> remember f' = remember f \<and> lru_table f' = lru_table f \<and>
     ctr f' = ctr f \<and> generation f' = generation f \<and> mallocs f' = mallocs f \<and> now f' = now f"

lemma hash_name_ok:
  assumes "chains_ok (name_of f) (name_table f)" "members (name_table f) = M" "r \<notin> M" "r \<in> live f" "p \<noteq> r"
    and "get_fuse_node f pid = Some p" "n_nodeid (nd f p) = pid" "\<And>q. q \<in> M \<Longrightarrow> \<exists>p. n_parent (nd f q) = Some p"
  shows "(\<exists>f'. hash_name f r pid name = Some (-1, f') \<and>
      (\<exists>k. f' = (upd r (\<lambda>n. n\<lparr>n_name := None\<rparr>) f)\<lparr>malloc_no := k\<rparr>) \<and> 32 \<le> length name \<and> \<not> mallocs f (malloc_no f)) \<or>
    (\<exists>f'. hash_name f r pid name = Some (0, f') \<and> adopted r p name f f' \<and>
      chains_ok (name_of f') (name_table f') \<and> members (name_table f') = insert r M \<and>
      t_use (name_table f') = Suc (t_use (name_table f)))"
proof -
  obtain ok f1 where o: "(if length name < 32 then (True, f) else next_malloc f) = (ok, f1)" by fastforce
  then have f1: "f1 = f\<lparr>malloc_no := malloc_no f1\<rparr>" by (auto simp: next_malloc_def split: if_splits)
  have al: "nodes f r \<noteq> None" using assms(4) by (rule not_live_upd)
  show ?thesis
  proof (cases ok)
    case False
    then have "hash_name f r pid name = Some (-1, upd r (\<lambda>n. n\<lparr>n_name := None\<rparr>) f1)"
      unfolding hash_name_def Let_def if_not_P [OF al] assms(6) option.case o prod.case by simp
    moreover have "upd r (\<lambda>n. n\<lparr>n_name := None\<rparr>) f1 = (upd r (\<lambda>n. n\<lparr>n_name := None\<rparr>) f)\<lparr>malloc_no := malloc_no f1\<rparr>"
      by (subst f1, subst f1) (simp add: upd_def)
    moreover have "32 \<le> length name \<and> \<not> mallocs f (malloc_no f)"
      using o False by (auto simp: next_malloc_def split: if_splits)
    ultimately show ?thesis by blast
  next
    case True
    define f2 where "f2 = upd r (\<lambda>n. n\<lparr>n_parent := Some p\<rparr>) (upd p (\<lambda>n. n\<lparr>refctr := refctr n + 1\<rparr>) (upd r (\<lambda>n. n\<lparr>n_name := Some name\<rparr>) f1))"
    define h where "h = name_hash f pid name"
    define t where "t = (name_table f)\<lparr>t_array := (t_array (name_table f))[h := r # t_array (name_table f) ! h], t_use := t_use (name_table f) + 1\<rparr>"
    define f3 where "f3 = f2\<lparr>name_table := t\<rparr>"
    define f4 where "f4 = (if t_use t \<ge> t_size t div 2 then rehash_name f3 else f3)"
    have e1: "name_table f1 = name_table f" "nodes f1 = nodes f" "id_table f1 = id_table f" "next_addr f1 = next_addr f"
      "remember f1 = remember f" "lru_table f1 = lru_table f" "ctr f1 = ctr f" "generation f1 = generation f" "mallocs f1 = mallocs f" "now f1 = now f"
      by (subst f1, simp)+
    have hn: "hash_name f r pid name = Some (0, f4)"
      unfolding hash_name_def Let_def if_not_P [OF al] assms(6) option.case o prod.case
      using True e1(1) by (simp add: f4_def f3_def f2_def t_def h_def Let_def)
    have n2: "nodes f3 = (nodes f)(r \<mapsto> (nd f r)\<lparr>n_name := Some name, n_parent := Some p\<rparr>, p \<mapsto> (nd f p)\<lparr>refctr := refctr (nd f p) + 1\<rparr>)"
      using assms(5) by (auto simp: f3_def f2_def upd_def e1 fun_eq_iff)
    have n4: "nodes f4 = nodes f3" by (simp add: f4_def rehash_name_def next_malloc_def)
    have ad: "adopted r p name f f4"
      unfolding adopted_def n4 n2 by (simp add: f4_def rehash_name_def next_malloc_def f3_def f2_def e1)
    have nr: "name_of f3 r = name_key pid name"
      using assms(5,7) by (simp add: n2)
    have no: "name_of f3 q = name_of f q" if "q \<in> M" for q
      using assms(8) [OF that] assms(3,5) that by (auto simp: n2)
    have tok: "chains_ok (name_of f3) (name_table f)"
      by (rule chains_ok_cong [OF assms(1)]) (use no assms(2) in auto)
    have "h = index_of (name_of f3) (name_table f) r"
      unfolding index_of_def nr by (simp add: h_def name_hash_def)
    then have t': "t = (name_table f)\<lparr>t_array := (t_array (name_table f))[index_of (name_of f3) (name_table f) r := r # t_array (name_table f) ! index_of (name_of f3) (name_table f) r],
        t_use := t_use (name_table f) + 1\<rparr>" by (simp add: t_def)
    have nm: "r \<notin> members (name_table f)" using assms(2,3) by simp
    note pu = table_push [OF tok nm t']
    have e4: "name_of f4 = name_of f3" by (simp add: n4)
    have "name_table f4 = t \<or> (\<exists>ok. name_table f4 = rehash (name_of f3) ok t)"
      by (auto simp: f4_def rehash_name_def next_malloc_def f3_def)
    then have "chains_ok (name_of f4) (name_table f4) \<and> members (name_table f4) = insert r M \<and>
        t_use (name_table f4) = Suc (t_use (name_table f))"
      unfolding e4 using pu rehash_ok [OF pu(1)] assms(2) by (auto simp: t_def)
    then show ?thesis using hn ad by blast
  qed
qed

section \<open>Numbers\<close>

lemma low_32: "(c :: u64) AND 0xFFFFFFFF = ucast (ucast c :: u32)"
proof -
  have "(0xFFFFFFFF :: u64) = mask 32" by (simp add: mask_eq_exp_minus_1)
  then have "c AND 0xFFFFFFFF = take_bit 32 c" by (simp add: take_bit_eq_mask)
  also have "\<dots> = ucast (ucast c :: u32)" by (rule bit_word_eqI) (auto simp: bit_simps)
  finally show ?thesis .
qed

lemma next_ctr: "(c + 1 :: u64) AND 0xFFFFFFFF = ucast ((ucast c :: u32) + 1)"
  unfolding low_32
  by (simp add: word_unat_eq_iff unsigned_ucast_eq unat_word_ariths take_bit_eq_mod mod_simps mod_mod_cancel)

lemma up_down: "ucast (ucast (w :: u32) :: u64) = w"
  by (rule bit_word_eqI) (simp add: bit_simps)

lemma nocheck_ctr [simp]: "get_node_nocheck (f\<lparr>ctr := c\<rparr>) i = get_node_nocheck f i"
  "get_node_nocheck (f\<lparr>generation := g\<rparr>) i = get_node_nocheck f i"
  by (simp_all add: get_node_nocheck_def id_hash_def)

lemma next_id_ok:
  assumes "c \<noteq> 0" "c \<noteq> FUSE_UNKNOWN_INO" "c AND 0xFFFFFFFF = c" "get_node_nocheck f c = None"
  shows "\<exists>i g. next_id f = Some (i, f\<lparr>ctr := i, generation := g\<rparr>) \<and> i \<noteq> 0 \<and> i \<noteq> FUSE_UNKNOWN_INO \<and> get_node_nocheck f i = None"
  using assms
proof (induction "unat ((ucast c :: u32) - ucast (ctr f) - 1)" arbitrary: f rule: less_induct)
  case less
  let ?c = "(ctr f + 1) AND 0xFFFFFFFF"
  define f1 where "f1 = (if ?c = 0 then f\<lparr>ctr := ?c, generation := generation f + 1\<rparr> else f\<lparr>ctr := ?c\<rparr>)"
  have f1: "ctr f1 = ?c" "f1 = f\<lparr>ctr := ?c, generation := generation f1\<rparr>" "get_node_nocheck f1 i = get_node_nocheck f i" for i
    by (auto simp: f1_def)
  have step: "next_id f = (if ?c = 0 \<or> ?c = FUSE_UNKNOWN_INO \<or> get_node_nocheck f ?c \<noteq> None then next_id f1 else Some (?c, f1))"
    by (subst next_id.simps) (simp add: Let_def f1_def)
  show ?case
  proof (cases "?c = 0 \<or> ?c = FUSE_UNKNOWN_INO \<or> get_node_nocheck f ?c \<noteq> None")
    case False
    then show ?thesis using step f1(2) by metis
  next
    case True
    then have ne: "?c \<noteq> c" using less.prems by auto
    let ?u = "ucast c :: u32" and ?w = "ucast (ctr f) :: u32"
    have cu: "c = ucast ?u" using less.prems(3) low_32 [of c] by simp
    have wu: "(ucast (ctr f1) :: u32) = ?w + 1" by (simp add: f1(1) next_ctr up_down)
    have "?u \<noteq> ?w + 1" using ne cu unfolding next_ctr by metis
    then have "?u - ?w - 1 \<noteq> 0" by (simp add: algebra_simps)
    then have "unat (?u - ?w - 1 - 1) < unat (?u - ?w - 1)" by (rule measure_unat)
    then have "unat (?u - ucast (ctr f1) - 1) < unat (?u - ?w - 1)" unfolding wu by (simp add: algebra_simps)
    then obtain i g where "next_id f1 = Some (i, f1\<lparr>ctr := i, generation := g\<rparr>)" "i \<noteq> 0" "i \<noteq> FUSE_UNKNOWN_INO"
      "get_node_nocheck f1 i = None"
      using less.hyps [of f1] less.prems f1(3) by auto
    moreover have "f1\<lparr>ctr := i, generation := g\<rparr> = f\<lparr>ctr := i, generation := g\<rparr>" by (subst f1(2)) simp
    ultimately show ?thesis using step True f1(3) by auto
  qed
qed

text \<open>There is a free number while fewer than the \<open>2 ^ 32 - 2\<close> of them are in use.\<close>

lemma free_number:
  assumes "tables_ok {} f" "card (live f) < 2 ^ 32 - 2"
  shows "\<exists>c. c \<noteq> 0 \<and> c \<noteq> FUSE_UNKNOWN_INO \<and> c AND 0xFFFFFFFF = c \<and> get_node_nocheck f c = None"
proof (rule ccontr)
  assume none: "\<not> ?thesis"
  let ?C = "(\<lambda>k. of_nat k :: u64) ` {1..<2 ^ 32 - 1}"
  have u: "unat (of_nat k :: u64) = k" if "k < 2 ^ 32" for k using that by (simp add: unat_of_nat)
  have nn: "get_node_nocheck f c \<noteq> None" if "c \<noteq> 0" "c \<noteq> FUSE_UNKNOWN_INO" "c AND 0xFFFFFFFF = c" for c
  proof
    assume "get_node_nocheck f c = None"
    with that have "c \<noteq> 0 \<and> c \<noteq> FUSE_UNKNOWN_INO \<and> c AND 0xFFFFFFFF = c \<and> get_node_nocheck f c = None" by (intro conjI)
    then have "\<exists>c. c \<noteq> 0 \<and> c \<noteq> FUSE_UNKNOWN_INO \<and> c AND 0xFFFFFFFF = c \<and> get_node_nocheck f c = None" by (rule exI)
    with none show False by (rule notE)
  qed
  have "c \<in> (\<lambda>r. n_nodeid (nd f r)) ` live f" if "c \<in> ?C" for c
  proof -
    obtain k where k: "c = of_nat k" "1 \<le> k" "k < 2 ^ 32 - 1" using \<open>c \<in> ?C\<close> by auto
    then have n: "unat c = k" using u by simp
    have "c \<noteq> 0" using n k(2) by auto
    moreover have "c \<noteq> FUSE_UNKNOWN_INO" using n k(3) by auto
    moreover have "c AND 0xFFFFFFFF = c"
    proof -
      have "unat (c AND 0xFFFFFFFF) = take_bit 32 (unat c)" unfolding low_32 by (simp add: unsigned_ucast_eq unsigned_take_bit_eq)
      also have "\<dots> = unat c" using n k(3) by (simp add: take_bit_nat_eq_self_iff)
      finally show ?thesis by (simp add: word_unat_eq_iff)
    qed
    ultimately have "get_node_nocheck f c \<noteq> None" by (rule nn)
    then show ?thesis using get_node_none [OF assms(1), of c] by force
  qed
  then have sub: "?C \<subseteq> (\<lambda>r. n_nodeid (nd f r)) ` live f" by blast
  have "card ?C \<le> card ((\<lambda>r. n_nodeid (nd f r)) ` live f)"
    by (rule card_mono [OF finite_imageI [OF tables_okD(1) [OF assms(1)]] sub])
  also have "\<dots> \<le> card (live f)" by (rule card_image_le [OF tables_okD(1) [OF assms(1)]])
  also have "card ?C = 2 ^ 32 - 1 - 1"
  proof -
    have "inj_on (\<lambda>k. of_nat k :: u64) {1..<2 ^ 32 - 1}" by (rule inj_on_inverseI [of _ unat]) (rule u, simp)
    then have "card ?C = card {1..<2 ^ 32 - 1 :: nat}" by (rule card_image)
    also have "\<dots> = 2 ^ 32 - 1 - 1" by (rule card_atLeastLessThan)
    finally show ?thesis .
  qed
  finally show False using assms(2) by simp
qed

section \<open>A new node\<close>

lemma birth:
  assumes "tree_inv {} x f" "r \<notin> live f" "x r = 0" "nodes f' = (nodes f)(r \<mapsto> n)" "n_parent n = None" "n_name n = None"
    and "treelock n = 0" "n_nodeid n \<noteq> FUSE_ROOT_ID" "\<And>q. q \<in> live f \<Longrightarrow> n_nodeid (nd f q) \<noteq> n_nodeid n"
    and "refctr n = (if nlookup n = 0 then 0 else 1)" "next_addr f \<le> next_addr f'" "r < next_addr f'"
    and "name_table f' = name_table f" "chains_ok (id_of f') (id_table f')" "members (id_table f') = insert r (live f)"
      "t_use (id_table f') = Suc (t_use (id_table f))"
  shows "tree_inv {} x f'"
proof -
  note T = tables_okD [OF tree_invD(1) [OF assms(1)]] and R = tree_invD(3) [OF assms(1)]
  note L = links_okD [OF tree_invD(2) [OF assms(1)]]
  have v: "live f' = insert r (live f)" by (auto simp: live_def assms(4))
  have g: "nd f' q = (if q = r then n else nd f q)" for q by (simp add: assms(4))
  have ne: "q \<noteq> r" if "q \<in> live f" for q using that assms(2) by blast
  have nm: "named f' = named f" using assms(2,5) by (auto simp: named_def v g)
  have lv: "q \<in> live f" if "q \<in> named f" for q using that by (simp add: named_def)
  have par: "p \<noteq> r" if "q \<in> named f" "n_parent (nd f q) = Some p" for q p using L(2) [of q p] that assms(2) by auto
  have ki: "kids f' {} q = kids f {} q" for q using assms(2,5) by (auto simp: kids_def v g)
  have kr: "kids f {} r = {}" using par in_named by (fastforce simp: kids_def)
  have "tables_ok {} f'"
    unfolding tables_ok_def v nm assms(13)
  proof (intro conjI)
    show "t_use (id_table f') = card (insert r (live f))" using assms(2,16) T(1,6) by simp
    show "\<forall>q \<in> insert r (live f). q < next_addr f'" using T(2) assms(11,12) by fastforce
    show "inj_on (\<lambda>r. n_nodeid (nd f' r)) (insert r (live f))"
      using T(7) assms(9) assms(9) [THEN not_sym] ne unfolding inj_on_def by (auto simp: g)
    show "chains_ok (name_of f') (name_table f)"
    proof (rule chains_ok_cong [OF T(8)])
      fix q assume "q \<in> members (name_table f)"
      then have q: "q \<in> named f" using T(9) by simp
      then obtain p where p: "n_parent (nd f q) = Some p" using namedD by blast
      show "name_of f' q = name_of f q" using p par [OF q p] ne [OF lv [OF q]] by (simp add: g)
    qed
    show "inj_on (\<lambda>r. (n_parent (nd f' r), n_name (nd f' r))) (named f - {})"
      using T(11) ne lv by (auto simp: inj_on_def g)
  qed (use T assms(14,15) in simp_all)
  moreover have "links_ok {} f'"
    unfolding links_ok_def v nm
  proof (intro conjI)
    have "parent_rel f' = parent_rel f" using assms(2,5) by (auto simp: parent_rel_def v g split: if_splits)
    then show "acyclic (parent_rel f')" using L(6) by simp
    show "\<forall>q \<in> named f - {}. n_name (nd f' q) \<noteq> None \<and> the (n_parent (nd f' q)) \<in> insert r (live f)"
    proof
      fix q assume q: "q \<in> named f - {}"
      then obtain p where p: "n_parent (nd f q) = Some p" using namedD by blast
      show "n_name (nd f' q) \<noteq> None \<and> the (n_parent (nd f' q)) \<in> insert r (live f)"
        using L(1) [OF q] L(2) [OF q p] p q ne lv by (simp add: g)
    qed
    show "\<forall>q \<in> insert r (live f) - named f. n_name (nd f' q) \<noteq> None \<longrightarrow> n_nodeid (nd f' q) = FUSE_ROOT_ID"
      using L(3) assms(6) by (auto simp: g)
    show "\<forall>q \<in> insert r (live f). n_nodeid (nd f' q) = FUSE_ROOT_ID \<longrightarrow> q \<notin> named f \<and> nlookup (nd f' q) \<noteq> 0"
      using L(4) assms(8) by (auto simp: g)
    show "\<exists>q \<in> insert r (live f). n_nodeid (nd f' q) = FUSE_ROOT_ID" using L(5) ne by (auto simp: g)
  qed
  moreover have "refs_ok {} x f'"
    unfolding refs_ok_def v ki
  proof
    fix q assume q: "q \<in> insert r (live f) - {}"
    show "refctr (nd f' q) = int (card (kids f {} q)) + looks f' q + x q \<and> 0 \<le> x q \<and>
        (treelock (nd f' q) \<noteq> 0 \<longrightarrow> nlookup (nd f' q) \<noteq> 0)"
    proof (cases "q = r")
      case True
      then show ?thesis using assms(3,7,10) kr by (simp add: g looks_def)
    next
      case False
      then show ?thesis using refs_okD [OF R, of q] q by (simp add: g looks_def)
    qed
  qed
  ultimately show ?thesis by (simp add: tree_inv_def)
qed

lemma inc_ok:
  assumes "tree_inv {} x f" "r \<in> live f" "nlookup (nd f r) + 1 \<noteq> 0" "f' = inc_nlookup f r"
  shows "tree_inv {} x f'"
    "nodes f' = (nodes f)(r \<mapsto> (nd f r)\<lparr>refctr := refctr (nd f r) + (if nlookup (nd f r) = 0 then 1 else 0), nlookup := nlookup (nd f r) + 1\<rparr>)"
    "name_table f' = name_table f" "id_table f' = id_table f" "lru_table f' = lru_table f"
    "next_addr f' = next_addr f" "remember f' = remember f" "ctr f' = ctr f" "generation f' = generation f" "mallocs f' = mallocs f" "now f' = now f"
proof -
  let ?g = "\<lambda>n. n\<lparr>refctr := refctr n + (if nlookup n = 0 then 1 else 0), nlookup := nlookup n + 1\<rparr>"
  have f': "f' = upd r ?g f" by (auto simp: assms(4) inc_nlookup_def upd_def Let_def)
  note R = refs_okD [OF tree_invD(3) [OF assms(1)] assms(2)]
  have "tree_inv {} (x(r := x r)) f'"
    by (rule tree_inv_counts [OF assms(1,2) _ f']) (use R assms(3) in \<open>simp_all add: looks_def\<close>)
  then show "tree_inv {} x f'" by simp
  show "nodes f' = (nodes f)(r \<mapsto> (nd f r)\<lparr>refctr := refctr (nd f r) + (if nlookup (nd f r) = 0 then 1 else 0), nlookup := nlookup (nd f r) + 1\<rparr>)"
    by (simp add: f' upd_def)
  show "name_table f' = name_table f" "id_table f' = id_table f" "lru_table f' = lru_table f"
    "next_addr f' = next_addr f" "remember f' = remember f" "ctr f' = ctr f" "generation f' = generation f" "mallocs f' = mallocs f" "now f' = now f"
    by (simp_all add: f')
qed

lemma hash_id_spec:
  assumes "chains_ok (id_of f) (id_table f)" "r \<notin> members (id_table f)" "f' = hash_id f r"
  shows "nodes f' = nodes f" "name_table f' = name_table f" "lru_table f' = lru_table f" "next_addr f' = next_addr f"
    "remember f' = remember f" "ctr f' = ctr f" "generation f' = generation f" "mallocs f' = mallocs f" "now f' = now f"
    "chains_ok (id_of f) (id_table f')" "members (id_table f') = insert r (members (id_table f))"
    "t_use (id_table f') = Suc (t_use (id_table f))"
proof -
  let ?i = "index_of (id_of f) (id_table f) r"
  define t where "t = (id_table f)\<lparr>t_array := (t_array (id_table f))[?i := r # t_array (id_table f) ! ?i],
    t_use := t_use (id_table f) + 1\<rparr>"
  note pu = table_push [OF assms(1,2) t_def]
  have f': "f' = (if t_use t \<ge> t_size t div 2 then rehash_id (f\<lparr>id_table := t\<rparr>) else f\<lparr>id_table := t\<rparr>)"
    unfolding assms(3) hash_id_def id_hash_index Let_def t_def by simp
  show "nodes f' = nodes f" "name_table f' = name_table f" "lru_table f' = lru_table f" "next_addr f' = next_addr f"
    "remember f' = remember f" "ctr f' = ctr f" "generation f' = generation f" "mallocs f' = mallocs f" "now f' = now f"
    by (simp_all add: f' rehash_id_def next_malloc_def)
  have "id_table f' = t \<or> (\<exists>ok. id_table f' = rehash (id_of f) ok t)"
    by (auto simp: f' rehash_id_def next_malloc_def)
  then show "chains_ok (id_of f) (id_table f')" "members (id_table f') = insert r (members (id_table f))"
    "t_use (id_table f') = Suc (t_use (id_table f))"
    using pu rehash_ok [OF pu(1)] by (auto simp: t_def)
qed

text \<open>A state with one more node that is in no table yet.\<close>

lemma same_chain:
  assumes "tables_ok {} f" "id_table f' = id_table f" "\<And>q. q \<in> live f \<Longrightarrow> n_nodeid (nd f' q) = n_nodeid (nd f q)"
  shows "get_node_nocheck f' i = get_node_nocheck f i"
proof -
  note T = tables_okD [OF assms(1)]
  have "id_hash f i < t_size (id_table f)" unfolding id_hash_def by (rule chain_in [OF T(4)])
  then have "set (t_array (id_table f) ! id_hash f i) \<subseteq> live f"
    using chain_members [of "id_hash f i" "id_table f"] T(5) by simp
  then show ?thesis
    unfolding get_node_nocheck_def id_hash_def assms(2) using assms(3) by (intro find_cong refl) auto
qed

text \<open>What \<open>new_fuse_node\<close> does when it succeeds: a node \<open>r\<close> below \<open>p\<close>.\<close>

definition born :: "nat \<Rightarrow> nat \<Rightarrow> bytes \<Rightarrow> fuse \<Rightarrow> fuse \<Rightarrow> bool" where
  "born r p name f f' \<longleftrightarrow>
     r \<notin> live f \<and> remember f' = remember f \<and> mallocs f' = mallocs f \<and> lru_table f' = lru_table f \<and>
     (\<exists>n. nodes f' = (nodes f)(r \<mapsto> n, p \<mapsto> (nd f p)\<lparr>refctr := refctr (nd f p) + 1\<rparr>) \<and>
        n_parent n = Some p \<and> n_name n = Some name \<and> nlookup n = (if remember f \<noteq> 0 then 2 else 1) \<and> treelock n = 0 \<and> open_count n = 0 \<and> \<not> is_hidden n \<and>
        n_nodeid n \<noteq> FUSE_ROOT_ID \<and> (\<forall>q \<in> live f. n_nodeid (nd f q) \<noteq> n_nodeid n))"

lemma tree_okD:
  assumes "tree_ok f"
  shows "tree_inv {} (\<lambda>_. 0) f" "\<And>r. r \<in> live f \<Longrightarrow> refctr (nd f r) > 0" "tree_at_rest f" "tables_ok {} f" "links_ok {} f"
    "refs_ok {} (\<lambda>_. 0) f" "positive {} f"
  using assms at_rest tree_invD unfolding tree_ok_def positive_def by blast+

lemma new_node_ok:
  assumes "tree_ok f" "p \<in> live f" "n_nodeid (nd f p) = pid" "lookup_node f pid name = None" "card (live f) < 2 ^ 32 - 2"
  shows "(\<exists>f' k. new_fuse_node f pid name = Some (None, f') \<and> tree_ok f' \<and> nodes f' = nodes f \<and> \<not> mallocs f k \<and>
      remember f' = remember f \<and> lru_table f' = lru_table f) \<or>
    (\<exists>r f'. new_fuse_node f pid name = Some (Some r, f') \<and> tree_ok f' \<and> born r p name f f')"
proof -
  note i = tree_okD [OF assms(1)] and T = tables_okD [OF tree_okD(4) [OF assms(1)]] and L = links_okD [OF tree_okD(5) [OF assms(1)]]
  define f0 where "f0 = f\<lparr>malloc_no := Suc (malloc_no f)\<rparr>"
  show ?thesis
  proof (cases "mallocs f (malloc_no f)")
    case False
    then have "new_fuse_node f pid name = Some (None, f0)"
      by (simp add: new_fuse_node_def alloc_node_def next_malloc_def f0_def)
    moreover have "tree_ok f0"
      using tree_inv_cong [OF i(1), of f0] i(2) by (simp add: tree_ok_def f0_def live_def)
    ultimately show ?thesis using False by (auto simp: f0_def)
  next
    case True
    define r where "r = next_addr f"
    have r: "r \<notin> live f" using T(2) by (auto simp: r_def)
    define f1 where "f1 = f0\<lparr>nodes := (nodes f)(r \<mapsto> zero_node), next_addr := Suc r\<rparr>"
    have al: "alloc_node f = (Some r, f1)"
      using True by (simp add: alloc_node_def next_malloc_def f0_def f1_def r_def Let_def)
    have ne: "q \<noteq> r" if "q \<in> live f" for q using r that by blast
    have pr: "p \<noteq> r" by (rule ne [OF assms(2)])
    have sc1: "get_node_nocheck f1 c = get_node_nocheck f c" for c
      by (rule same_chain [OF i(4)]) (use ne in \<open>simp_all add: f1_def f0_def\<close>)
    obtain c where c: "c \<noteq> 0" "c \<noteq> FUSE_UNKNOWN_INO" "c AND 0xFFFFFFFF = c" "get_node_nocheck f c = None"
      using free_number [OF i(4) assms(5)] by (elim exE conjE) (rule that)
    have "get_node_nocheck f1 c = None" using c(4) sc1 by simp
    then obtain ino g where ni: "next_id f1 = Some (ino, f1\<lparr>ctr := ino, generation := g\<rparr>)" "get_node_nocheck f1 ino = None"
      using next_id_ok [OF c(1-3), of f1] by blast
    have fresh: "n_nodeid (nd f q) \<noteq> ino" if "q \<in> live f" for q
      using ni(2) get_node_none [OF i(4), of ino] sc1 that by simp
    have nroot: "ino \<noteq> FUSE_ROOT_ID" using L(5) fresh by force
    define n where "n = zero_node\<lparr>n_nodeid := ino, n_generation := g\<rparr>"
    define n3 where "n3 = (if remember f \<noteq> 0 then n\<lparr>refctr := 1, nlookup := 1\<rparr> else n)"
    define f3 where "f3 = f1\<lparr>ctr := ino, generation := g, nodes := (nodes f)(r \<mapsto> n3)\<rparr>"
    have n3: "n_parent n3 = None" "n_name n3 = None" "treelock n3 = 0" "n_nodeid n3 = ino"
      "refctr n3 = (if nlookup n3 = 0 then 0 else 1)" "nlookup n3 = (if remember f \<noteq> 0 then 1 else 0)" "open_count n3 = 0" "\<not> is_hidden n3"
      by (simp_all add: n3_def n_def zero_node_def)
    have s3: "nodes f3 = (nodes f)(r \<mapsto> n3)" "name_table f3 = name_table f" "id_table f3 = id_table f" "next_addr f3 = Suc r"
      "remember f3 = remember f" "mallocs f3 = mallocs f" "lru_table f3 = lru_table f"
      by (simp_all add: f3_def f1_def f0_def)
    have st: "new_fuse_node f pid name = (case hash_name f3 r pid name of None \<Rightarrow> None | Some (err, f) \<Rightarrow>
        if err = -1 then Some (None, free_node f r) else Some (Some r, inc_nlookup (hash_id f r) r))"
    proof -
      have "(let f = upd r (\<lambda>n. n\<lparr>n_nodeid := ino\<rparr>) (f1\<lparr>ctr := ino, generation := g\<rparr>);
          f = upd r (\<lambda>n. n\<lparr>n_generation := generation f\<rparr>) f in (if remember f \<noteq> 0 then inc_nlookup f r else f)) = f3"
        by (simp add: f3_def f1_def f0_def n3_def n_def upd_def Let_def inc_nlookup_def zero_node_def)
      then show ?thesis
        by (simp add: new_fuse_node_def al ni(1) Let_def split: option.splits)
    qed
    have nd3: "nd f3 q = (if q = r then n3 else nd f q)" for q by (simp add: s3)
    have "get_fuse_node f3 pid = get_fuse_node f pid"
      unfolding get_fuse_node_def by (rule same_chain [OF i(4) s3(3)]) (use ne in \<open>simp add: nd3\<close>)
    then have gp: "get_fuse_node f3 pid = Some p" using get_node_iff [OF i(4), of pid p] assms(2,3) by simp
    have tn: "chains_ok (name_of f3) (name_table f3)"
      unfolding s3(2)
    proof (rule chains_ok_cong [OF T(8)])
      fix q assume "q \<in> members (name_table f)"
      then have q: "q \<in> named f - {}" using T(9) by simp
      then obtain a where a: "n_parent (nd f q) = Some a" using namedD by blast
      have "q \<noteq> r" "a \<noteq> r" using ne L(2) [OF q a] q by (auto simp: named_def)
      then show "name_of f3 q = name_of f q" using a by (simp add: nd3)
    qed
    have mn: "members (name_table f3) = named f" using T(9) s3(2) by simp
    have rn: "r \<notin> named f" using r by (simp add: named_def)
    have r3: "r \<in> live f3" by (simp add: live_def s3 domI)
    have par3: "\<exists>p. n_parent (nd f3 q) = Some p" if "q \<in> named f" for q
      using that L(2) [of q r] r by (auto simp: nd3 named_def)
    have p3: "n_nodeid (nd f3 p) = pid" using assms(3) pr by (simp add: nd3)
    have hn: "(\<exists>f'. hash_name f3 r pid name = Some (-1, f') \<and>
        (\<exists>k. f' = (upd r (\<lambda>n. n\<lparr>n_name := None\<rparr>) f3)\<lparr>malloc_no := k\<rparr>) \<and> 32 \<le> length name \<and> \<not> mallocs f3 (malloc_no f3)) \<or>
      (\<exists>f'. hash_name f3 r pid name = Some (0, f') \<and> adopted r p name f3 f' \<and>
        chains_ok (name_of f') (name_table f') \<and> members (name_table f') = insert r (named f) \<and>
        t_use (name_table f') = Suc (t_use (name_table f3)))"
      by (rule hash_name_ok [OF tn mn rn r3 pr gp p3 par3])
    then show ?thesis
    proof (elim disjE exE conjE)
      fix f4 k
      assume h: "hash_name f3 r pid name = Some (-1, f4)" "f4 = (upd r (\<lambda>n. n\<lparr>n_name := None\<rparr>) f3)\<lparr>malloc_no := k\<rparr>"
        and oom: "\<not> mallocs f3 (malloc_no f3)"
      define f5 where "f5 = free_node f4 r"
      have n5: "nodes f5 = nodes f" using r by (auto simp: f5_def free_node_def h(2) upd_def s3 live_def fun_upd_idem)
      have "tree_inv {} (\<lambda>_. 0) f5"
        by (rule tree_inv_cong [OF i(1) n5]) (simp_all add: f5_def free_node_def h(2) s3 r_def)
      then have "tree_ok f5" using i(2) n5 by (simp add: tree_ok_def live_def)
      moreover have "new_fuse_node f pid name = Some (None, f5)" using st h(1) by (simp add: f5_def)
      moreover have "remember f5 = remember f" "lru_table f5 = lru_table f" by (simp_all add: f5_def free_node_def h(2) s3)
      ultimately show ?thesis using n5 oom s3(6) by auto
    next
      fix f4
      assume h: "hash_name f3 r pid name = Some (0, f4)" and ad: "adopted r p name f3 f4"
        and tk: "chains_ok (name_of f4) (name_table f4)" "members (name_table f4) = insert r (named f)"
          "t_use (name_table f4) = Suc (t_use (name_table f3))"
      note ad' = ad[unfolded adopted_def]
      have n4: "nodes f4 = (nodes f3)(r \<mapsto> n3\<lparr>n_name := Some name, n_parent := Some p\<rparr>, p \<mapsto> (nd f p)\<lparr>refctr := refctr (nd f p) + 1\<rparr>)"
        using ad' pr by (simp add: nd3)
      have id4: "n_nodeid (nd f4 q) = n_nodeid (nd f3 q)" for q using pr by (simp add: n4 nd3)
      have "chains_ok (id_of f3) (id_table f)"
        by (rule chains_ok_cong [OF T(4)]) (use T(5) ne in \<open>simp add: nd3\<close>)
      moreover have it: "id_table f4 = id_table f" using ad' s3(3) by simp
      moreover have e4: "id_of f4 = id_of f3" by (intro ext arg_cong [where f = id_key] id4)
      ultimately have t4: "chains_ok (id_of f4) (id_table f4)" by metis
      have m4: "members (id_table f4) = live f" using it T(5) by simp
      define f5 where "f5 = hash_id f4 r"
      note h5 = hash_id_spec [OF t4 _ f5_def, unfolded m4, OF r]
      define fv where "fv = f3\<lparr>id_table := id_table f5\<rparr>"
      have iv: "tree_inv {} (\<lambda>_. 0) fv"
      proof (rule birth [OF i(1) r refl, where n = n3])
        have e: "id_of fv = id_of f4" unfolding e4 by (simp add: fv_def)
        show "chains_ok (id_of fv) (id_table fv)" unfolding e using h5(1,10) by (simp add: fv_def)
        show "members (id_table fv) = insert r (live f)" using h5(11) by (simp add: fv_def)
        show "t_use (id_table fv) = Suc (t_use (id_table f))" using h5(12) ad' s3(3) by (simp add: fv_def)
      qed (use n3 nroot fresh in \<open>simp_all add: fv_def s3 r_def\<close>)
      have vv: "nodes fv = nodes f3" "name_table fv = name_table f" by (simp_all add: fv_def s3)
      have ndv: "nd fv q = (if q = r then n3 else nd f q)" for q by (simp add: vv nd3)
      have lv: "live fv = insert r (live f)" by (auto simp: live_def vv s3)
      have nv: "named fv = named f" using r n3(1) ne by (auto simp: named_def lv ndv)
      have i5: "tree_inv {} (\<lambda>_. 0) f5"
      proof (rule adopt [OF iv, of r p name])
        show "r \<in> live fv" "p \<in> live fv" "r \<notin> named fv" using assms(2) rn by (simp_all add: lv nv)
        show "n_nodeid (nd fv r) \<noteq> FUSE_ROOT_ID" using n3(4) nroot by (simp add: ndv)
        show "r \<notin> above fv p"
        proof
          assume "r \<in> above fv p"
          then have "(p, r) \<in> (parent_rel fv)\<^sup>*" by (simp add: above_def)
          then show False
          proof (cases rule: rtranclE)
            case base
            then show ?thesis using pr by simp
          next
            case (step y)
            then have "y \<in> live f" "n_parent (nd f y) = Some r"
              using n3(1) by (auto simp: parent_rel_def lv ndv split: if_splits)
            then show ?thesis using L(2) [of y r] r in_named by blast
          qed
        qed
        show "n_name (nd fv q) \<noteq> Some name" if q: "q \<in> named fv" "n_parent (nd fv q) = Some p" for q
        proof -
          have qn: "q \<in> named f" using q(1) nv by simp
          then have "q \<noteq> r" using rn by blast
          then have e: "nd fv q = nd f q" by (simp add: ndv)
          then have "parent_id f q = pid" using q(2) assms(3) by simp
          then show ?thesis using lookup_node_none [OF i(3), of pid name] assms(4) qn e by simp
        qed
        show "nodes f5 = (nodes fv)(r \<mapsto> (nd fv r)\<lparr>n_name := Some name, n_parent := Some p\<rparr>,
            p \<mapsto> (nd fv p)\<lparr>refctr := refctr (nd fv p) + 1\<rparr>)"
          using pr by (simp add: h5(1) n4 vv nd3)
        show "id_table f5 = id_table fv" "next_addr f5 = next_addr fv" using h5(4) ad' by (simp_all add: fv_def)
        show "chains_ok (name_of f5) (name_table f5)" using tk(1) by (simp add: h5)
        show "members (name_table f5) = insert r (named fv)" using tk(2) by (simp add: h5 nv)
        show "t_use (name_table f5) = Suc (t_use (name_table fv))" using tk(3) by (simp add: h5 vv s3)
      qed
      have n5: "nodes f5 = (nodes f)(r \<mapsto> n3\<lparr>n_name := Some name, n_parent := Some p\<rparr>, p \<mapsto> (nd f p)\<lparr>refctr := refctr (nd f p) + 1\<rparr>)"
        using pr by (simp add: h5(1) n4 s3(1))
      define f6 where "f6 = inc_nlookup f5 r"
      have r5: "r \<in> live f5" "nd f5 r = n3\<lparr>n_name := Some name, n_parent := Some p\<rparr>" using pr by (simp_all add: live_def n5 domI)
      have "nlookup (nd f5 r) + 1 \<noteq> 0" using n3(6) r5(2) by simp
      note ic = inc_ok [OF i5 r5(1) this f6_def]
      have n6: "nodes f6 = (nodes f)(r \<mapsto> (nd f6 r), p \<mapsto> (nd f p)\<lparr>refctr := refctr (nd f p) + 1\<rparr>)"
        "nd f6 r = n3\<lparr>n_name := Some name, n_parent := Some p, refctr := 1, nlookup := (if remember f \<noteq> 0 then 2 else 1)\<rparr>"
        using pr n3(5,6) by (auto simp: ic(2) r5(2) n5 fun_eq_iff)
      have l6: "live f6 = insert r (live f)" using assms(2) by (subst live_def, subst n6(1)) (auto simp: live_def)
      have "refctr (nd f6 q) > 0" if "q \<in> live f6" for q
      proof (cases "q = r")
        case False
        then have "q \<in> live f" "nd f6 q = (if q = p then (nd f p)\<lparr>refctr := refctr (nd f p) + 1\<rparr> else nd f q)"
          using that l6 arg_cong [OF n6(1), of "\<lambda>m. the (m q)"] by auto
        then show ?thesis using i(2) [of q] by auto
      qed (simp add: n6(2))
      then have "tree_ok f6" using ic(1) by (simp add: tree_ok_def)
      moreover have "new_fuse_node f pid name = Some (Some r, f6)" using st h by (simp add: f6_def f5_def)
      moreover have "born r p name f f6"
        unfolding born_def
      proof (intro conjI exI)
        show "nodes f6 = (nodes f)(r \<mapsto> (nd f6 r), p \<mapsto> (nd f p)\<lparr>refctr := refctr (nd f p) + 1\<rparr>)" by (rule n6(1))
        show "\<forall>q \<in> live f. n_nodeid (nd f q) \<noteq> n_nodeid (nd f6 r)" using fresh n3(4) by (simp add: n6(2))
      qed (use r n3 nroot ic(5,7,10) h5(3,5,8) ad' s3(5-7) in \<open>simp_all add: n6(2)\<close>)
      ultimately show ?thesis by blast
    qed
  qed
qed

end
