(* ===== verification/Fuse_Requests.thy ===== *)
theory Fuse_Requests
  imports Fuse_Tree_Ops
begin

text \<open>
  What the operations on nodes do: each of them, applied to a well-formed tree of nodes under
  conditions on its arguments and the state, returns, keeps the tree well formed, and changes the
  nodes it should and no other. The last part runs them from the first state on.
\<close>

section \<open>The operations at rest\<close>

lemma tree_okI: "tree_inv {} (\<lambda>_. 0) f \<Longrightarrow> positive {} f \<Longrightarrow> tree_ok f"
  by (simp add: tree_ok_def positive_def)

lemma tree_okI_refs: "tree_inv {} (\<lambda>_. 0) f \<Longrightarrow> (\<And>r. r \<in> live f \<Longrightarrow> refctr (nd f r) > 0) \<Longrightarrow> tree_ok f"
  by (simp add: tree_ok_def)

lemma tree_ok_cong:
  assumes "tree_ok f" "nodes f' = nodes f" "id_table f' = id_table f" "name_table f' = name_table f" "next_addr f' = next_addr f"
  shows "tree_ok f'"
  using tree_inv_cong [of "{}" "\<lambda>_. 0" f f'] assms same_nodes_views [OF assms(2)] by (simp add: tree_ok_def)

text \<open>A change of the counts of one node.\<close>

lemma tree_ok_counts:
  assumes "tree_ok f" "r \<in> live f" "f' = upd r g f" "\<And>n. n_parent (g n) = n_parent n" "\<And>n. n_name (g n) = n_name n"
    and "\<And>n. n_nodeid (g n) = n_nodeid n" "\<And>n. refctr (g n) = refctr n" "\<And>n. treelock (g n) = treelock n"
    and "(nlookup (g (nd f r)) = 0) = (nlookup (nd f r) = 0)"
  shows "tree_ok f'"
proof (rule tree_okI_refs)
  note i = tree_okD [OF assms(1)]
  note R = refs_okD [OF i(6) assms(2)]
  have "tree_inv {} ((\<lambda>_. 0)(r := 0)) f'"
    by (rule tree_inv_counts [OF i(1) assms(2) _ assms(3-6)]) (use R links_okD(4) [OF i(5) assms(2)] assms(7-9) in \<open>simp_all add: looks_def\<close>)
  moreover have "(\<lambda>_. 0)(r := 0) = (\<lambda>_. 0 :: int)" by auto
  ultimately show "tree_inv {} (\<lambda>_. 0) f'" by simp
  show "refctr (nd f' q) > 0" if "q \<in> live f'" for q
    using that i(2) assms(2,7) by (simp add: assms(3))
qed

lemma unhash_ok:
  assumes "tree_ok f" "r \<in> live f" "n_nodeid (nd f r) \<noteq> FUSE_ROOT_ID"
  shows "\<exists>f'. unhash_name f r = Some f' \<and> tree_ok f' \<and>
    pruned (above f r - {r}) (upd r (\<lambda>n. n\<lparr>n_name := None, n_parent := None\<rparr>) f) f'"
proof -
  note i = tree_okD [OF assms(1)]
  have p: "positive (insert r {}) f" using i(2) by (simp add: positive_def)
  obtain f' where f': "unhash_name f r = Some f'" "tree_inv {} (\<lambda>_. 0) f'" "positive (insert r {}) f'"
    "pruned (above f r - {r}) (upd r (\<lambda>n. n\<lparr>n_name := None, n_parent := None\<rparr>) f) f'"
    using drop_specs [of f r] i(1) assms(2,3) p unfolding unhash_spec_def by blast
  have "nodes f' r = nodes (upd r (\<lambda>n. n\<lparr>n_name := None, n_parent := None\<rparr>) f) r" by (rule prunedD(1) [OF f'(4)]) simp
  then have "refctr (nd f' r) > 0" using i(2) assms(2) by (simp add: upd_def)
  then have "positive {} f'" using f'(3) unfolding positive_def by blast
  then show ?thesis using f' tree_okI by blast
qed

text \<open>Everything that is in use, or above what is in use, is there, and nothing else.\<close>

definition held :: "fuse \<Rightarrow> nat set" where
  "held f = {r \<in> live f. nlookup (nd f r) \<noteq> 0}"

lemma held_above:
  assumes "tree_ok f" "r \<in> live f"
  shows "\<exists>h \<in> held f. r \<in> above f h"
proof -
  note i = tree_okD [OF assms(1)]
  note L = links_okD [OF i(5)]
  have "finite (parent_rel f)"
  proof (rule finite_subset)
    show "parent_rel f \<subseteq> (\<lambda>c. (c, the (n_parent (nd f c)))) ` live f" by (force simp: parent_rel_def)
  qed (use tables_okD(1) [OF i(4)] in simp)
  then have "wf (parent_rel f)" using L(6) by (rule finite_acyclic_wf)
  then show ?thesis using assms(2)
  proof (induction r rule: wf_induct_rule)
    case (less r)
    show ?case
    proof (cases "nlookup (nd f r) = 0")
      case True
      then have "kids f {} r \<noteq> {}" using refs_okD(1) [OF i(6) less.prems] i(2) [OF less.prems] by (auto simp: looks_def)
      then obtain c where c: "c \<in> live f" "n_parent (nd f c) = Some r" by (auto simp: kids_def)
      then obtain h where h: "h \<in> held f" "c \<in> above f h" using less.IH [of c] by (auto simp: parent_rel_def)
      have "(c, r) \<in> parent_rel f" using c by (simp add: parent_rel_def)
      then have "r \<in> above f h" using h(2) unfolding above_def by (auto intro: rtrancl_into_rtrancl)
      then show ?thesis using h(1) by blast
    qed (use less.prems in \<open>auto simp: held_def\<close>)
  qed
qed

lemma live_is_above_held:
  assumes "tree_ok f"
  shows "live f = (\<Union>h \<in> held f. above f h)"
proof
  show "live f \<subseteq> (\<Union>h \<in> held f. above f h)" using held_above [OF assms] by blast
  have "above f h \<subseteq> live f" if "h \<in> held f" for h
    by (rule above_live [OF tree_okD(1) [OF assms]]) (use that in \<open>simp_all add: held_def\<close>)
  then show "(\<Union>h \<in> held f. above f h) \<subseteq> live f" by blast
qed

lemma unref_ok:
  assumes "tree_inv {} ((\<lambda>_. 0)(r := 1)) f" "r \<in> live f" "positive {} f"
  shows "\<exists>f'. unref_node f r = Some f' \<and> tree_ok f' \<and> pruned (above f r) f f'"
proof -
  have "tree_inv {} ((\<lambda>_. 0)(r := (\<lambda>_. 0) r + 1)) f" using assms(1) by simp
  then obtain f' where "unref_node f r = Some f'" "tree_inv {} (\<lambda>_. 0) f'" "positive {} f'" "pruned (above f r) f f'"
    using drop_specs [of f r] assms(2,3) unfolding unref_spec_def by (metis Int_empty_right order_refl)
  then show ?thesis using tree_okI by blast
qed

text \<open>Forgetting takes lookups off a node, and then all goes that is of no use any more.\<close>

lemma forget_ok:
  assumes "tree_ok f" "r \<in> live f" "n_nodeid (nd f r) = ino" "ino \<noteq> FUSE_ROOT_ID" "k \<noteq> 0" "k \<le> nlookup (nd f r)"
    and "f1 = upd r (\<lambda>n. n\<lparr>nlookup := nlookup n - k\<rparr>) f"
  shows "nlookup (nd f r) = k \<and> treelock (nd f r) \<noteq> 0 \<and> forget_node f ino k = Some (False, f) \<or>
    (\<exists>f'. forget_node f ino k = Some (True, f') \<and> tree_ok f' \<and>
      (if k = nlookup (nd f r) then pruned (above f r) f1 f'
       else if lru_enabled f \<and> nlookup (nd f1 r) = 1 then f' = set_forget_time f1 r else f' = f1))"
proof -
  note i = tree_okD [OF assms(1)]
  note R = refs_okD [OF i(6) assms(2)]
  have g: "get_fuse_node f ino = Some r" using get_node_iff [OF i(4)] assms(2,3) by simp
  have z: "nlookup (nd f1 r) = 0 \<longleftrightarrow> k = nlookup (nd f r)" by (auto simp: assms(7))
  have nz: "nlookup (nd f r) \<noteq> 0" using assms(5,6) by (auto simp: word_le_nat_alt unat_eq_0)
  show ?thesis
  proof (cases "k = nlookup (nd f r)")
    case True
    show ?thesis
    proof (cases "treelock (nd f r) = 0")
      case False
      then show ?thesis using True assms(4) g by (simp add: forget_node_def)
    next
      case free: True
      have "tree_inv {} ((\<lambda>_. 0)(r := 1)) f1"
        by (rule tree_inv_counts [OF i(1) assms(2) _ assms(7)])
          (use R links_okD(4) [OF i(5) assms(2)] assms(3,4) nz True free in \<open>simp_all add: looks_def\<close>)
      moreover have "r \<in> live f1" "positive {} f1" "above f1 r = above f r"
        using i(2) assms(2) count_views(5) [OF assms(2,7)] by (auto simp: positive_def assms(7))
      ultimately obtain f' where f': "unref_node f1 r = Some f'" "tree_ok f'" "pruned (above f r) f1 f'"
        using unref_ok [of r f1] by auto
      have "forget_node f ino k = Some (True, f')"
        using assms(4,6) free True g f'(1) z by (simp add: forget_node_def assms(7) Let_def)
      then show ?thesis using f' True by auto
    qed
  next
    case False
    have t1: "tree_ok f1"
      by (rule tree_ok_counts [OF assms(1,2,7)]) (use False nz in auto)
    then have t2: "tree_ok (set_forget_time f1 r)"
    proof -
      define f2 where "f2 = f1\<lparr>lru_table := remove1 r (lru_table f1) @ [r]\<rparr>"
      have "tree_ok f2" by (rule tree_ok_cong [OF t1]) (simp_all add: f2_def)
      moreover have "r \<in> live f2" using assms(2) by (simp add: f2_def live_def assms(7) upd_def)
      moreover have "set_forget_time f1 r = upd r (\<lambda>n. n\<lparr>forget_time := now f2\<rparr>) f2" by (simp add: set_forget_time_def f2_def)
      ultimately show ?thesis by (rule tree_ok_counts) simp_all
    qed
    have "forget_node f ino k = Some (True, if lru_enabled f1 \<and> nlookup (nd f1 r) = 1 then set_forget_time f1 r else f1)"
      using assms(4,6) False g z by (simp add: forget_node_def assms(7) Let_def)
    moreover have "lru_enabled f1 = lru_enabled f" by (simp add: lru_enabled_def assms(7))
    ultimately show ?thesis using t1 t2 False by auto
  qed
qed

lemma find_known:
  assumes "tree_ok f" "r \<in> live f" "nlookup (nd f r) + 1 \<noteq> 0"
    and "f1 = (if lru_enabled f \<and> nlookup (nd f r) = 1 then remove_node_lru f r else f)" "f' = inc_nlookup f1 r"
  shows "tree_ok f'"
    "nodes f' = (nodes f)(r \<mapsto> (nd f r)\<lparr>refctr := refctr (nd f r) + (if nlookup (nd f r) = 0 then 1 else 0), nlookup := nlookup (nd f r) + 1\<rparr>)"
    "remember f' = remember f" "mallocs f' = mallocs f"
    "lru_table f' = lru_table f1"
proof -
  have n1: "nodes f1 = nodes f" "id_table f1 = id_table f" "name_table f1 = name_table f" "next_addr f1 = next_addr f"
    "remember f1 = remember f" "mallocs f1 = mallocs f"
    by (simp_all add: assms(4) remove_node_lru_def)
  have t1: "tree_ok f1" by (rule tree_ok_cong [OF assms(1) n1(1-4)])
  have r1: "r \<in> live f1" using assms(2) by (simp add: live_def n1)
  note ic = inc_ok [OF tree_okD(1) [OF t1] r1 _ assms(5), unfolded n1, OF assms(3)]
  show n: "nodes f' = (nodes f)(r \<mapsto> (nd f r)\<lparr>refctr := refctr (nd f r) + (if nlookup (nd f r) = 0 then 1 else 0), nlookup := nlookup (nd f r) + 1\<rparr>)"
    by (rule ic(2))
  show "remember f' = remember f" "mallocs f' = mallocs f" "lru_table f' = lru_table f1" by (rule ic)+
  show "tree_ok f'"
  proof (rule tree_okI_refs [OF ic(1)])
    fix q assume "q \<in> live f'"
    then have "q \<in> live f" using assms(2) by (auto simp: live_def n split: if_splits)
    then show "refctr (nd f' q) > 0" using tree_okD(2) [OF assms(1), of q] by (auto simp: n)
  qed
qed

section \<open>Renaming\<close>

text \<open>Outside \<open>S\<close> only counts of references change, and no node in use goes.\<close>

definition others_kept :: "nat set \<Rightarrow> fuse \<Rightarrow> fuse \<Rightarrow> bool" where
  "others_kept S f f' \<longleftrightarrow>
     (\<forall>q \<in> live f' - S. q \<in> live f \<and> nd f' q = (nd f q)\<lparr>refctr := refctr (nd f' q)\<rparr>) \<and>
     (\<forall>q \<in> held f - S. q \<in> live f')"

lemma others_keptD:
  assumes "others_kept S f f'" "q \<notin> S"
  shows "q \<in> live f' \<Longrightarrow> q \<in> live f" "q \<in> live f' \<Longrightarrow> nd f' q = (nd f q)\<lparr>refctr := refctr (nd f' q)\<rparr>"
    "q \<in> held f \<Longrightarrow> q \<in> live f'"
  using assms by (auto simp: others_kept_def)

lemma others_kept_node:
  assumes "others_kept S f f'" "q \<notin> S" "q \<in> live f'"
  shows "n_parent (nd f' q) = n_parent (nd f q)" "n_name (nd f' q) = n_name (nd f q)" "nlookup (nd f' q) = nlookup (nd f q)"
    "n_nodeid (nd f' q) = n_nodeid (nd f q)" "treelock (nd f' q) = treelock (nd f q)" "open_count (nd f' q) = open_count (nd f q)"
  by (subst others_keptD(2) [OF assms], simp)+

lemma refctr_cong: "n = m\<lparr>refctr := a\<rparr> \<Longrightarrow> n\<lparr>refctr := b\<rparr> = m\<lparr>refctr := b\<rparr>"
  by simp

lemma others_kept_trans:
  assumes "others_kept S f f1" "others_kept T f1 f2"
  shows "others_kept (S \<union> T) f f2"
  unfolding others_kept_def
proof (intro conjI ballI)
  fix q assume q: "q \<in> live f2 - (S \<union> T)"
  then have q1: "q \<in> live f1" using others_keptD(1) [OF assms(2)] by simp
  then show "q \<in> live f" using others_keptD(1) [OF assms(1)] q by simp
  have "nd f1 q = (nd f q)\<lparr>refctr := refctr (nd f1 q)\<rparr>" using others_keptD(2) [OF assms(1)] q q1 by simp
  then have "(nd f1 q)\<lparr>refctr := refctr (nd f2 q)\<rparr> = (nd f q)\<lparr>refctr := refctr (nd f2 q)\<rparr>"
    by (rule refctr_cong)
  then show "nd f2 q = (nd f q)\<lparr>refctr := refctr (nd f2 q)\<rparr>" using others_keptD(2) [OF assms(2)] q by simp
next
  fix q assume q: "q \<in> held f - (S \<union> T)"
  then have "q \<in> held f1" using others_keptD(3) [OF assms(1)] others_kept_node(3) [OF assms(1)] by (simp add: held_def)
  then show "q \<in> live f2" using others_keptD(3) [OF assms(2)] q by simp
qed

lemma others_kept_pruned: "pruned S f f' \<Longrightarrow> others_kept {} f f'"
  unfolding others_kept_def held_def using prunedD(2-4) by blast

lemma others_kept_upd: "r \<in> live f \<Longrightarrow> others_kept {r} f (upd r g f)"
  by (auto simp: others_kept_def held_def)

lemma others_kept_adopted: "adopted r p name f f' \<Longrightarrow> r \<in> live f \<Longrightarrow> p \<in> live f \<Longrightarrow> others_kept {r} f f'"
  unfolding others_kept_def adopted_def by (auto simp: live_def held_def)

lemma others_kept_same: "nodes f' = nodes f \<Longrightarrow> others_kept S f f'"
  by (simp add: others_kept_def held_def live_def)

lemma others_kept_mono: "others_kept S f f' \<Longrightarrow> S \<subseteq> T \<Longrightarrow> others_kept T f f'"
  unfolding others_kept_def by blast

lemma enter_ok:
  assumes "tree_ok f" "r \<in> live f" "r \<notin> named f" "n_nodeid (nd f r) \<noteq> FUSE_ROOT_ID" "p \<in> live f" "n_nodeid (nd f p) = dir"
    and "r \<notin> above f p" "\<forall>q \<in> named f. n_parent (nd f q) = Some p \<longrightarrow> n_name (nd f q) \<noteq> Some name"
  shows "(\<exists>f'. hash_name f r dir name = Some (-1, f') \<and> tree_ok f' \<and> nodes f' = nodes f \<and>
      lru_table f' = lru_table f \<and> remember f' = remember f \<and> mallocs f' = mallocs f \<and> 32 \<le> length name \<and> (\<exists>k. \<not> mallocs f k)) \<or>
    (\<exists>f'. hash_name f r dir name = Some (0, f') \<and> tree_ok f' \<and> adopted r p name f f')"
proof -
  note i = tree_okD [OF assms(1)]
  note T = tables_okD [OF i(4)] and L = links_okD [OF i(5)]
  have pr: "p \<noteq> r" using assms(7) above_refl [of p f] by auto
  have gp: "get_fuse_node f dir = Some p" using get_node_iff [OF i(4)] assms(5,6) by simp
  have par: "\<exists>p. n_parent (nd f q) = Some p" if "q \<in> named f" for q using namedD that by blast
  have mn: "members (name_table f) = named f" using T(9) by simp
  have nn: "n_name (nd f r) = None" using L(3) assms(2-4) by blast
  have "(\<exists>f'. hash_name f r dir name = Some (-1, f') \<and>
      (\<exists>k. f' = (upd r (\<lambda>n. n\<lparr>n_name := None\<rparr>) f)\<lparr>malloc_no := k\<rparr>) \<and> 32 \<le> length name \<and> \<not> mallocs f (malloc_no f)) \<or>
    (\<exists>f'. hash_name f r dir name = Some (0, f') \<and> adopted r p name f f' \<and>
      chains_ok (name_of f') (name_table f') \<and> members (name_table f') = insert r (named f) \<and>
      t_use (name_table f') = Suc (t_use (name_table f)))"
    by (rule hash_name_ok [OF T(8) mn assms(3,2) pr gp assms(6) par])
  then show ?thesis
  proof (elim disjE exE conjE)
    fix f' k
    assume h: "hash_name f r dir name = Some (-1, f')" "f' = (upd r (\<lambda>n. n\<lparr>n_name := None\<rparr>) f)\<lparr>malloc_no := k\<rparr>"
      "32 \<le> length name" "\<not> mallocs f (malloc_no f)"
    have n: "nodes f' = nodes f" using nn assms(2) by (auto simp: h(2) upd_def live_def fun_eq_iff)
    have "tree_ok f'" by (rule tree_ok_cong [OF assms(1) n]) (simp_all add: h(2))
    then show ?thesis using h n by auto
  next
    fix f'
    assume h: "hash_name f r dir name = Some (0, f')" and ad: "adopted r p name f f'"
      and tk: "chains_ok (name_of f') (name_table f')" "members (name_table f') = insert r (named f)"
        "t_use (name_table f') = Suc (t_use (name_table f))"
    note ad' = ad[unfolded adopted_def]
    have "tree_inv {} (\<lambda>_. 0) f'"
    proof (rule adopt [OF i(1) assms(2-5,7)])
      show "n_name (nd f q) \<noteq> Some name" if "q \<in> named f" "n_parent (nd f q) = Some p" for q using assms(8) that by blast
      show "nodes f' = (nodes f)(r \<mapsto> (nd f r)\<lparr>n_name := Some name, n_parent := Some p\<rparr>,
          p \<mapsto> (nd f p)\<lparr>refctr := refctr (nd f p) + 1\<rparr>)" using ad' by blast
      show "id_table f' = id_table f" "next_addr f' = next_addr f" using ad' by blast+
    qed (rule tk)+
    moreover have "refctr (nd f' q) > 0" if "q \<in> live f'" for q
    proof -
      have n: "nodes f' = (nodes f)(r \<mapsto> (nd f r)\<lparr>n_name := Some name, n_parent := Some p\<rparr>,
          p \<mapsto> (nd f p)\<lparr>refctr := refctr (nd f p) + 1\<rparr>)" using ad' by blast
      have "q \<in> live f" using that assms(2,5) by (auto simp: live_def n split: if_splits)
      then show ?thesis using i(2) [of q] i(2) [OF assms(2)] i(2) [OF assms(5)] by (auto simp: n)
    qed
    ultimately show ?thesis using h ad tree_okI_refs by blast
  qed
qed

text \<open>A node loses its name.\<close>

lemma loses_name:
  assumes "tree_ok f" "r \<in> live f" "pruned (above f r - {r}) (upd r g f) f'" "\<And>n. n_parent (g n) = None"
    "\<And>n. n_nodeid (g n) = n_nodeid n" "\<And>n. treelock (g n) = treelock n"
  shows "others_kept {r} f f'" "r \<in> live f'" "nd f' r = g (nd f r)" "r \<notin> named f'" "parent_rel f' \<subseteq> parent_rel f"
    "mallocs f' = mallocs f" "remember f' = remember f"
proof -
  show ok: "others_kept {r} f f'"
    using others_kept_trans [OF others_kept_upd [OF assms(2), of g] others_kept_pruned [OF assms(3)]] by simp
  have n: "nodes f' r = nodes (upd r g f) r" by (rule prunedD(1) [OF assms(3)]) simp
  then show "r \<in> live f'" by (simp add: live_def upd_def domI)
  show g: "nd f' r = g (nd f r)" using n by (simp add: upd_def)
  then show "r \<notin> named f'" by (simp add: named_def assms(4))
  show "parent_rel f' \<subseteq> parent_rel f"
  proof (rule subrelI)
    fix c p assume "(c, p) \<in> parent_rel f'"
    then have c: "c \<in> live f'" "n_parent (nd f' c) = Some p" by (simp_all add: parent_rel_def)
    then have "c \<notin> {r}" using g assms(4) by auto
    then show "(c, p) \<in> parent_rel f"
      using c others_keptD(1) [OF ok] others_kept_node(1) [OF ok] by (simp add: parent_rel_def)
  qed
  show "mallocs f' = mallocs f" "remember f' = remember f" using prunedD(5,8) [OF assms(3)] by simp_all
qed

lemma above_mono: "parent_rel f' \<subseteq> parent_rel f \<Longrightarrow> above f' p \<subseteq> above f p"
  using rtrancl_mono [of "parent_rel f'" "parent_rel f"] by (auto simp: above_def)

definition unlinked :: "fuse \<Rightarrow> fuse_node \<Rightarrow> fuse_node" where
  "unlinked f n = n\<lparr>nlookup := if remember f \<noteq> 0 then nlookup n - 1 else nlookup n, n_name := None, n_parent := None\<rparr>"

lemma unlink_ok:
  assumes "tree_ok f" "r \<in> live f" "n_nodeid (nd f r) \<noteq> FUSE_ROOT_ID" "remember f \<noteq> 0 \<longrightarrow> nlookup (nd f r) > 1"
  shows "\<exists>f'. unlink_node f r = Some f' \<and> tree_ok f' \<and> pruned (above f r - {r}) (upd r (unlinked f) f) f'"
proof (cases "remember f \<noteq> 0")
  case False
  then show ?thesis using unhash_ok [OF assms(1-3)] by (simp add: unlink_node_def unlinked_def [abs_def])
next
  case True
  define f1 where "f1 = upd r (\<lambda>n. n\<lparr>nlookup := nlookup n - 1\<rparr>) f"
  have "nlookup (nd f r) \<noteq> 0" "nlookup (nd f r) - 1 \<noteq> 0" using assms(4) True by auto
  then have "tree_ok f1" by (intro tree_ok_counts [OF assms(1,2) f1_def]) simp_all
  moreover have v: "r \<in> live f1" "n_nodeid (nd f1 r) \<noteq> FUSE_ROOT_ID" "above f1 r = above f r"
    using assms(2,3) count_views(5) [OF assms(2) f1_def] by (simp_all add: f1_def)
  ultimately obtain f' where f': "unhash_name f1 r = Some f'" "tree_ok f'"
    "pruned (above f r - {r}) (upd r (\<lambda>n. n\<lparr>n_name := None, n_parent := None\<rparr>) f1) f'"
    using unhash_ok [of f1 r] by auto
  have "upd r (\<lambda>n. n\<lparr>n_name := None, n_parent := None\<rparr>) f1 = upd r (unlinked f) f"
    using True by (simp add: f1_def upd_def unlinked_def)
  then show ?thesis using f' True assms(4) by (auto simp: unlink_node_def f1_def)
qed

lemma lookup_named:
  assumes "tree_ok f" "lookup_node f dir name = Some r"
  shows "r \<in> named f" "r \<in> live f" "parent_id f r = dir" "n_name (nd f r) = Some name" "n_nodeid (nd f r) \<noteq> FUSE_ROOT_ID"
proof -
  note i = tree_okD [OF assms(1)]
  show r: "r \<in> named f" and "parent_id f r = dir" "n_name (nd f r) = Some name"
    using assms(2) lookup_node_iff [OF i(3)] by simp_all
  then show l: "r \<in> live f" by (simp add: named_def)
  show "n_nodeid (nd f r) \<noteq> FUSE_ROOT_ID" using links_okD(4) [OF i(5) l] r by blast
qed

text \<open>The number of the parent tells the parent.\<close>

lemma lookup_parent:
  assumes "tree_ok f" "p \<in> live f" "n_nodeid (nd f p) = dir"
  shows "lookup_node f dir name = Some r \<longleftrightarrow> r \<in> live f \<and> n_parent (nd f r) = Some p \<and> n_name (nd f r) = Some name"
proof -
  note i = tree_okD [OF assms(1)]
  have "r \<in> named f \<and> parent_id f r = dir \<longleftrightarrow> r \<in> live f \<and> n_parent (nd f r) = Some p"
  proof
    assume a: "r \<in> named f \<and> parent_id f r = dir"
    then obtain q where q: "n_parent (nd f r) = Some q" using namedD by blast
    then have "q \<in> live f" using links_okD(2) [OF i(5), of r] a by simp
    then have "q = p" using a q assms(2,3) inj_onD [OF tables_okD(7) [OF i(4)], of q p] by simp
    then show "r \<in> live f \<and> n_parent (nd f r) = Some p" using q a by (simp add: named_def)
  qed (use assms(3) in_named in auto)
  then show ?thesis using lookup_node_iff [OF i(3), of dir name r] by blast
qed

text \<open>The first step of \<open>rename_node\<close>: the node that has the new name loses it.\<close>

lemma clear_name:
  assumes "tree_ok f" "p \<in> held f" "n_nodeid (nd f p) = dir" "p \<notin> N" "N = set_option (lookup_node f dir name)"
    and "\<forall>n \<in> N. remember f \<noteq> 0 \<longrightarrow> nlookup (nd f n) > 1"
  shows "\<exists>f1. (case lookup_node f dir name of None \<Rightarrow> Some f | Some n \<Rightarrow> unlink_node f n) = Some f1 \<and> tree_ok f1 \<and>
    others_kept N f f1 \<and> parent_rel f1 \<subseteq> parent_rel f \<and> p \<in> held f1 \<and> n_nodeid (nd f1 p) = dir \<and> N \<inter> named f1 = {} \<and>
    mallocs f1 = mallocs f \<and> remember f1 = remember f \<and> (\<forall>q. q \<notin> N \<longrightarrow> q \<notin> above f p \<longrightarrow> nodes f1 q = nodes f q) \<and>
    (\<forall>n \<in> N. n_nodeid (nd f1 n) = n_nodeid (nd f n) \<and> treelock (nd f1 n) = treelock (nd f n) \<and> open_count (nd f1 n) = open_count (nd f n) \<and> (n \<in> held f \<longrightarrow> n \<in> held f1)) \<and>
    (\<forall>q. n_parent (nd f1 q) = Some p \<longrightarrow> q \<in> live f1 \<longrightarrow> n_name (nd f1 q) \<noteq> Some name)"
proof (cases "lookup_node f dir name")
  case None
  then have N: "N = {}" using assms(5) by simp
  have "n_name (nd f q) \<noteq> Some name" if "n_parent (nd f q) = Some p" "q \<in> live f" for q
    using lookup_parent [OF assms(1) _ assms(3), of name q] None assms(2) that by (auto simp: held_def)
  then show ?thesis using None assms(1-3) N others_kept_same by auto
next
  case (Some n)
  note l = lookup_named [OF assms(1) Some]
  have N: "N = {n}" using assms(5) Some by simp
  have np: "n_parent (nd f n) = Some p" using lookup_parent [OF assms(1) _ assms(3)] Some assms(2) by (simp add: held_def)
  obtain f1 where f1: "unlink_node f n = Some f1" "tree_ok f1" "pruned (above f n - {n}) (upd n (unlinked f) f) f1"
    using unlink_ok [OF assms(1) l(2,5)] assms(6) N by auto
  note k = loses_name [OF assms(1) l(2) f1(3), unfolded unlinked_def, simplified]
  have p1: "p \<in> live f1" using others_keptD(3) [OF k(1), of p] assms(2,4) N by simp
  have pn: "nlookup (nd f1 p) = nlookup (nd f p)" "n_nodeid (nd f1 p) = n_nodeid (nd f p)"
    using others_kept_node [OF k(1) _ p1] assms(4) N by auto
  have "nodes f1 q = nodes f q" if "q \<notin> N" "q \<notin> above f p" for q
  proof -
    have "q \<notin> above f n - {n}" using above_parent [OF l(2) np] that by simp
    then have "nodes f1 q = nodes (upd n (unlinked f) f) q" by (rule prunedD(1) [OF f1(3)])
    then show ?thesis using that N by (simp add: upd_def)
  qed
  moreover have "n_name (nd f1 q) \<noteq> Some name" if q: "n_parent (nd f1 q) = Some p" "q \<in> live f1" for q
  proof (cases "q = n")
    case False
    then have "q \<in> live f" "n_parent (nd f q) = Some p" "n_name (nd f1 q) = n_name (nd f q)"
      using others_kept_node [OF k(1) _ q(2)] others_keptD(1) [OF k(1) _ q(2)] q by auto
    then show ?thesis
      using lookup_parent [OF assms(1) _ assms(3), of name q] Some False assms(2) by (auto simp: held_def)
  qed (use q k(3) in simp)
  moreover have "\<forall>n \<in> N. n_nodeid (nd f1 n) = n_nodeid (nd f n) \<and> treelock (nd f1 n) = treelock (nd f n) \<and> open_count (nd f1 n) = open_count (nd f n) \<and> (n \<in> held f \<longrightarrow> n \<in> held f1)"
    using k(2,3) N assms(6) by (auto simp: held_def)
  ultimately show ?thesis using f1 Some N k p1 pn assms(2,3) by (auto simp: held_def)
qed

lemma rename_node_held:
  assumes "tree_ok f" "lookup_node f olddir oldname = Some r" "p \<in> held f" "n_nodeid (nd f p) = newdir" "r \<notin> above f p"
    and "N = set_option (lookup_node f newdir newname)" "r \<notin> N" "p \<notin> N" "hide \<longrightarrow> N = {}"
    and "\<forall>n \<in> N. remember f \<noteq> 0 \<longrightarrow> nlookup (nd f n) > 1"
  shows "\<exists>err f'. rename_node f olddir oldname newdir newname hide = Some (err, f') \<and> tree_ok f' \<and>
    others_kept (insert r N) f f' \<and> (\<forall>n \<in> N. (n \<in> live f' \<longrightarrow> n_nodeid (nd f' n) = n_nodeid (nd f n) \<and> treelock (nd f' n) = treelock (nd f n) \<and> open_count (nd f' n) = open_count (nd f n)) \<and> (n \<in> held f \<longrightarrow> n \<in> live f')) \<and> N \<inter> named f' = {} \<and> r \<in> live f' \<and>
    (err = 0 \<and> lookup_node f' newdir newname = Some r \<and>
       nd f' r = (nd f r)\<lparr>n_name := Some newname, n_parent := Some p, is_hidden := is_hidden (nd f r) \<or> hide\<rparr> \<or>
     err = - ENOMEM \<and> 32 \<le> length newname \<and> (\<exists>k. \<not> mallocs f k) \<and>
       nd f' r = (nd f r)\<lparr>n_name := None, n_parent := None\<rparr>)"
proof -
  note l = lookup_named [OF assms(1,2)]
  obtain f1 where f1: "(case lookup_node f newdir newname of None \<Rightarrow> Some f | Some n \<Rightarrow> unlink_node f n) = Some f1"
    "tree_ok f1" "others_kept N f f1" "parent_rel f1 \<subseteq> parent_rel f" "p \<in> held f1" "n_nodeid (nd f1 p) = newdir"
    "N \<inter> named f1 = {}" "mallocs f1 = mallocs f" "\<And>q. q \<notin> N \<Longrightarrow> q \<notin> above f p \<Longrightarrow> nodes f1 q = nodes f q"
    "\<And>q. n_parent (nd f1 q) = Some p \<Longrightarrow> q \<in> live f1 \<Longrightarrow> n_name (nd f1 q) \<noteq> Some newname"
    and id1: "\<forall>n \<in> N. n_nodeid (nd f1 n) = n_nodeid (nd f n) \<and> treelock (nd f1 n) = treelock (nd f n) \<and> open_count (nd f1 n) = open_count (nd f n) \<and> (n \<in> held f \<longrightarrow> n \<in> held f1)"
    using clear_name [OF assms(1,3,4,8,6,10)] by (elim exE conjE) blast
  have r1: "nodes f1 r = nodes f r" by (rule f1(9) [OF assms(7,5)])
  then have r1l: "r \<in> live f1" "n_nodeid (nd f1 r) \<noteq> FUSE_ROOT_ID" using l(2,5) by (simp_all add: live_def domIff)
  obtain f2 where f2: "unhash_name f1 r = Some f2" "tree_ok f2"
    "pruned (above f1 r - {r}) (upd r (\<lambda>n. n\<lparr>n_name := None, n_parent := None\<rparr>) f1) f2"
    using unhash_ok [OF f1(2) r1l] by blast
  note k = loses_name [OF f1(2) r1l(1) f2(3), simplified]
  have pr: "p \<noteq> r" using assms(5) above_refl [of p f] by auto
  have p2: "p \<in> live f2" using others_keptD(3) [OF k(1) _ f1(5)] pr by simp
  have pn: "n_nodeid (nd f2 p) = newdir" using others_kept_node(4) [OF k(1) _ p2] pr f1(6) by simp
  have rn: "n_nodeid (nd f2 r) \<noteq> FUSE_ROOT_ID" using k(3) r1l(2) by simp
  have ra: "r \<notin> above f2 p" using above_mono [OF subset_trans [OF k(5) f1(4)]] assms(5) by blast
  have free: "\<forall>q \<in> named f2. n_parent (nd f2 q) = Some p \<longrightarrow> n_name (nd f2 q) \<noteq> Some newname"
  proof (intro ballI impI)
    fix q assume q: "q \<in> named f2" "n_parent (nd f2 q) = Some p"
    have "q \<noteq> r" "q \<in> live f2" using q k(4) by (auto simp: named_def)
    then show "n_name (nd f2 q) \<noteq> Some newname"
      using others_kept_node(1,2) [OF k(1), of q] others_keptD(1) [OF k(1), of q] f1(10) [of q] q by simp
  qed
  have ok2: "others_kept (insert r N) f f2" using others_kept_trans [OF f1(3) k(1)] by simp
  have N2: "N \<inter> named f2 = {}"
  proof -
    have "q \<in> named f1" if "q \<in> named f2" "q \<noteq> r" for q
      using that others_kept_node(1) [OF k(1), of q] others_keptD(1) [OF k(1), of q] by (simp add: named_def)
    then show ?thesis using f1(7) k(4) by blast
  qed
  have ids: "\<forall>n \<in> N. (n \<in> live g \<longrightarrow> n_nodeid (nd g n) = n_nodeid (nd f n) \<and> treelock (nd g n) = treelock (nd f n) \<and> open_count (nd g n) = open_count (nd f n)) \<and> (n \<in> held f \<longrightarrow> n \<in> live g)" if "others_kept {r} f1 g" for g
  proof
    fix n assume n: "n \<in> N"
    then have r: "n \<notin> {r}" using assms(7) by blast
    show "(n \<in> live g \<longrightarrow> n_nodeid (nd g n) = n_nodeid (nd f n) \<and> treelock (nd g n) = treelock (nd f n) \<and> open_count (nd g n) = open_count (nd f n)) \<and> (n \<in> held f \<longrightarrow> n \<in> live g)"
      using others_kept_node(4,5,6) [OF that r] others_keptD(3) [OF that r] id1 n by simp
  qed
  have st: "rename_node f olddir oldname newdir newname hide = (case hash_name f2 r newdir newname of None \<Rightarrow> None
    | Some (err, f) \<Rightarrow> if err = -1 then Some (- ENOMEM, f) else Some (0, if hide then upd r (\<lambda>n. n\<lparr>is_hidden := True\<rparr>) f else f))"
  proof -
    have "\<not> (lookup_node f newdir newname \<noteq> None \<and> hide)" using assms(6,9) by auto
    then show ?thesis
      unfolding rename_node_def Let_def assms(2) option.case if_not_P f1(1) using f2(1)
      by (simp add: Option.bind_def split: option.splits)
  qed
  from enter_ok [OF f2(2) k(2,4) rn p2 pn ra free]
  show ?thesis
  proof (elim disjE exE conjE)
    fix f3 b
    assume h: "hash_name f2 r newdir newname = Some (-1, f3)" "tree_ok f3" "nodes f3 = nodes f2" "32 \<le> length newname"
      and m: "\<not> mallocs f2 b"
    have "others_kept (insert r N) f f3" using others_kept_trans [OF ok2 others_kept_same [OF h(3), of "{}"]] by simp
    moreover have "\<forall>n \<in> N. (n \<in> live f3 \<longrightarrow> n_nodeid (nd f3 n) = n_nodeid (nd f n) \<and> treelock (nd f3 n) = treelock (nd f n) \<and> open_count (nd f3 n) = open_count (nd f n)) \<and> (n \<in> held f \<longrightarrow> n \<in> live f3)"
      using ids [of f3] others_kept_trans [OF k(1) others_kept_same [OF h(3), of "{}"]] by simp
    moreover have "N \<inter> named f3 = {}" "r \<in> live f3" using N2 k(2) same_nodes_views [OF h(3)] by simp_all
    moreover have "nd f3 r = (nd f r)\<lparr>n_name := None, n_parent := None\<rparr>" using k(3) r1 h(3) by simp
    ultimately show ?thesis using h st m k(6) f1(8) by auto
  next
    fix f3
    assume h: "hash_name f2 r newdir newname = Some (0, f3)" "tree_ok f3" and ad: "adopted r p newname f2 f3"
    note n3 = ad[unfolded adopted_def, THEN conjunct1]
    define f4 where "f4 = (if hide then upd r (\<lambda>n. n\<lparr>is_hidden := True\<rparr>) f3 else f3)"
    have r3: "r \<in> live f3" "p \<in> live f3" by (simp_all add: live_def n3 domI)
    have g: "nd f3 r = (nd f r)\<lparr>n_name := Some newname, n_parent := Some p\<rparr>" "n_nodeid (nd f3 p) = newdir"
      using pr pn k(3) r1 by (simp_all add: n3)
    have t4: "tree_ok f4"
      using h(2) tree_ok_counts [OF h(2) r3(1), of "upd r (\<lambda>n. n\<lparr>is_hidden := True\<rparr>) f3" "\<lambda>n. n\<lparr>is_hidden := True\<rparr>"]
      by (simp add: f4_def)
    have l4: "live f4 = live f3" using r3 by (simp add: f4_def)
    have g4: "nd f4 q = (if q = r then (nd f3 r)\<lparr>is_hidden := is_hidden (nd f r) \<or> hide\<rparr> else nd f3 q)" for q
      using g by (simp add: f4_def)
    have "others_kept (insert r N) f f3"
      using others_kept_trans [OF ok2 others_kept_adopted [OF ad k(2) p2]] by simp
    moreover have o4: "others_kept {r} f3 f4" using others_kept_upd [OF r3(1)] others_kept_same [of f3 f3] by (simp add: f4_def)
    ultimately have "others_kept (insert r N) f f4" using others_kept_trans [of "insert r N" f f3 "{r}" f4] by simp
    moreover have "others_kept {r} f1 f4"
      using others_kept_trans [OF others_kept_trans [OF k(1) others_kept_adopted [OF ad k(2) p2]] o4] by simp
    then have idn: "\<forall>n \<in> N. (n \<in> live f4 \<longrightarrow> n_nodeid (nd f4 n) = n_nodeid (nd f n) \<and> treelock (nd f4 n) = treelock (nd f n) \<and> open_count (nd f4 n) = open_count (nd f n)) \<and> (n \<in> held f \<longrightarrow> n \<in> live f4)" by (rule ids)
    moreover have "N \<inter> named f4 = {}"
    proof -
      have "q \<in> named f2" if "q \<in> named f4" "q \<noteq> r" for q
        using that k(2) p2 unfolding named_def l4 by (auto simp: g4 n3 live_def split: if_splits)
      then show ?thesis using N2 assms(7) by blast
    qed
    moreover have "lookup_node f4 newdir newname = Some r"
      using lookup_parent [OF t4, of p newdir newname r] r3 g pr by (simp add: l4 g4)
    moreover have "rename_node f olddir oldname newdir newname hide = Some (0, f4)"
      unfolding st h(1) option.case prod.case by (simp add: f4_def)
    ultimately show ?thesis using idn t4 r3(1) g(1) by (auto simp: l4 g4)
  qed
qed

lemma rename_node_ok:
  assumes "tree_ok f" "lookup_node f olddir oldname = Some r" "p \<in> held f" "n_nodeid (nd f p) = newdir" "r \<notin> above f p"
    and "N = set_option (lookup_node f newdir newname)" "r \<notin> N" "p \<notin> N" "hide \<longrightarrow> N = {}"
    and "\<forall>n \<in> N. remember f \<noteq> 0 \<longrightarrow> nlookup (nd f n) > 1"
  shows "\<exists>err f'. rename_node f olddir oldname newdir newname hide = Some (err, f') \<and> tree_ok f' \<and>
    others_kept (insert r N) f f' \<and> (\<forall>n \<in> N. n \<in> live f' \<longrightarrow> n_nodeid (nd f' n) = n_nodeid (nd f n)) \<and> N \<inter> named f' = {} \<and> r \<in> live f' \<and>
    (err = 0 \<and> lookup_node f' newdir newname = Some r \<and>
       nd f' r = (nd f r)\<lparr>n_name := Some newname, n_parent := Some p, is_hidden := is_hidden (nd f r) \<or> hide\<rparr> \<or>
     err = - ENOMEM \<and> 32 \<le> length newname \<and> (\<exists>k. \<not> mallocs f k) \<and>
       nd f' r = (nd f r)\<lparr>n_name := None, n_parent := None\<rparr>)"
  using rename_node_held [OF assms] by blast

lemma exchange_held:
  assumes "tree_ok f" "lookup_node f olddir oldname = Some r" "lookup_node f newdir newname = Some n" "r \<noteq> n"
    and "s \<in> held f" "n_nodeid (nd f s) = olddir" "p \<in> held f" "n_nodeid (nd f p) = newdir"
    and "r \<notin> above f p" "n \<notin> above f s"
  shows "\<exists>err f'. exchange_node f olddir oldname newdir newname = Some (err, f') \<and> tree_ok f' \<and> others_kept {r, n} f f' \<and>
    (\<forall>q \<in> {r, n}. q \<in> live f' \<and> nlookup (nd f' q) = nlookup (nd f q) \<and> n_nodeid (nd f' q) = n_nodeid (nd f q) \<and> treelock (nd f' q) = treelock (nd f q) \<and> open_count (nd f' q) = open_count (nd f q)) \<and>
    (err = 0 \<and> lookup_node f' newdir newname = Some r \<and> lookup_node f' olddir oldname = Some n \<or>
     err = - ENOMEM \<and> (32 \<le> length oldname \<or> 32 \<le> length newname) \<and> (\<exists>k. \<not> mallocs f k))"
proof -
  let ?g = "\<lambda>n. n\<lparr>n_name := None, n_parent := None\<rparr>"
  note i = tree_okD [OF assms(1)]
  note l = lookup_named [OF assms(1,2)] and m = lookup_named [OF assms(1,3)]
  have op: "s \<in> live f" "p \<in> live f" using assms(5,7) by (simp_all add: held_def)
  have lr: "n_parent (nd f r) = Some s" and ln: "n_parent (nd f n) = Some p"
    using lookup_parent [OF assms(1) op(1) assms(6)] lookup_parent [OF assms(1) op(2) assms(8)] assms(2,3) by blast+
  have ro: "r \<notin> above f s" by (rule not_above_parent [OF links_okD(6) [OF i(5)] l(2) lr])
  have np: "n \<notin> above f p" by (rule not_above_parent [OF links_okD(6) [OF i(5)] m(2) ln])
  have ne: "p \<noteq> r" "s \<noteq> r" "p \<noteq> n" "s \<noteq> n" using assms(9,10) ro np above_refl by metis+
  obtain f1 where f1: "unhash_name f r = Some f1" "tree_ok f1" "pruned (above f r - {r}) (upd r ?g f) f1"
    using unhash_ok [OF assms(1) l(2,5)] by blast
  note k = loses_name [OF assms(1) l(2) f1(3), simplified]
  have "n \<notin> above f r" using above_parent [OF l(2) lr] assms(4,10) by simp
  then have "nodes f1 n = nodes (upd r ?g f) n" by (intro prunedD(1) [OF f1(3)]) blast
  then have n1: "nodes f1 n = nodes f n" using assms(4) by (simp add: upd_def)
  then have n1l: "n \<in> live f1" "n_nodeid (nd f1 n) \<noteq> FUSE_ROOT_ID" using m(2,5) by (simp_all add: live_def domIff)
  obtain f2 where f2: "unhash_name f1 n = Some f2" "tree_ok f2" "pruned (above f1 n - {n}) (upd n ?g f1) f2"
    using unhash_ok [OF f1(2) n1l] by blast
  note j = loses_name [OF f1(2) n1l(1) f2(3), simplified]
  have ok2: "others_kept {r, n} f f2" using others_kept_trans [OF k(1) j(1)] by (simp add: insert_commute)
  have sub2: "parent_rel f2 \<subseteq> parent_rel f" using j(5) k(5) by blast
  have "n_parent (nd f1 n) = Some p" using n1 ln by simp
  then have a1: "above f1 n = insert n (above f1 p)" by (rule above_parent [OF n1l(1)])
  have "r \<notin> above f1 n - {n}" using a1 above_mono [OF k(5)] assms(9) by blast
  then have "nodes f2 r = nodes (upd n ?g f1) r" by (rule prunedD(1) [OF f2(3)])
  then have r2: "nodes f2 r = nodes f1 r" using assms(4) by (simp add: upd_def)
  then have r2l: "r \<in> live f2" "n_nodeid (nd f2 r) \<noteq> FUSE_ROOT_ID" "r \<notin> named f2" "nd f2 r = ?g (nd f r)"
    using k(2,3,4) l(5) by (simp_all add: live_def domIff named_def)
  have k2: "\<forall>q \<in> {r, n}. q \<in> live f2 \<and> nlookup (nd f2 q) = nlookup (nd f q) \<and> n_nodeid (nd f2 q) = n_nodeid (nd f q) \<and> treelock (nd f2 q) = treelock (nd f q) \<and> open_count (nd f2 q) = open_count (nd f q)"
    using r2l(1,4) j(2,3) n1 by simp
  have d2: "p \<in> live f2" "n_nodeid (nd f2 p) = newdir" "s \<in> live f2" "n_nodeid (nd f2 s) = olddir"
    using others_keptD(3) [OF ok2] others_kept_node(4) [OF ok2] assms(5-8) ne by simp_all
  have old: "q \<in> live f \<and> n_parent (nd f q) = n_parent (nd f2 q) \<and> n_name (nd f q) = n_name (nd f2 q)" if "q \<in> named f2" for q
  proof -
    have "q \<notin> {r, n}" "q \<in> live f2" using that r2l(3) j(4) by (auto simp: named_def)
    then show ?thesis using others_kept_node(1,2) [OF ok2] others_keptD(1) [OF ok2] by simp
  qed
  have fr1: "\<forall>q \<in> named f2. n_parent (nd f2 q) = Some p \<longrightarrow> n_name (nd f2 q) \<noteq> Some newname"
    using old lookup_parent [OF assms(1) op(2) assms(8), of newname] assms(3) j(4) by (metis option.inject)
  have ra: "r \<notin> above f2 p" using above_mono [OF sub2] assms(9) by blast
  have mm: "mallocs f2 = mallocs f" using j(6) k(6) by simp
  have st: "exchange_node f olddir oldname newdir newname = (case hash_name f2 r newdir newname of None \<Rightarrow> None
    | Some (err, f) \<Rightarrow> if err = -1 then Some (- ENOMEM, f) else (case hash_name f n olddir oldname of None \<Rightarrow> None
      | Some (err, f) \<Rightarrow> if err = -1 then Some (- ENOMEM, f) else Some (0, f)))"
    unfolding exchange_node_def Let_def assms(2,3) option.case using f1(1) f2(1)
    by (simp add: Option.bind_def split: option.splits)
  from enter_ok [OF f2(2) r2l(1,3,2) d2(1,2) ra fr1]
  show ?thesis
  proof (elim disjE exE conjE)
    fix f3 b
    assume h: "hash_name f2 r newdir newname = Some (-1, f3)" "tree_ok f3" "nodes f3 = nodes f2" "32 \<le> length newname"
      and fails: "\<not> mallocs f2 b"
    have "others_kept {r, n} f f3" using others_kept_trans [OF ok2 others_kept_same [OF h(3), of "{}"]] by simp
    moreover have "\<forall>q \<in> {r, n}. q \<in> live f3 \<and> nlookup (nd f3 q) = nlookup (nd f q) \<and> n_nodeid (nd f3 q) = n_nodeid (nd f q) \<and> treelock (nd f3 q) = treelock (nd f q) \<and> open_count (nd f3 q) = open_count (nd f q)" using k2 same_nodes_views(1) [OF h(3)] h(3) by simp
    ultimately show ?thesis using h st mm fails by auto
  next
    fix f3
    assume h: "hash_name f2 r newdir newname = Some (0, f3)" "tree_ok f3" and ad: "adopted r p newname f2 f3"
    note n3 = ad[unfolded adopted_def, THEN conjunct1]
    have g3: "nd f3 q = (if q = p then (nd f2 p)\<lparr>refctr := refctr (nd f2 p) + 1\<rparr>
        else if q = r then (nd f2 r)\<lparr>n_name := Some newname, n_parent := Some p\<rparr> else nd f2 q)" for q
      by (simp add: n3)
    have l3: "live f3 = live f2" using r2l(1) d2(1) by (auto simp: live_def n3)
    have nm3: "named f3 = insert r (named f2)"
      using r2l(1) ne by (auto simp: named_def l3 g3)
    have n3l: "n \<in> live f3" "n \<notin> named f3" "n_nodeid (nd f3 n) \<noteq> FUSE_ROOT_ID" "s \<in> live f3" "n_nodeid (nd f3 s) = olddir"
      using j(2,3,4) n1l d2 ne assms(4) by (auto simp: l3 nm3 g3)
    have "above f3 s \<subseteq> above f s"
    proof
      fix q assume "q \<in> above f3 s"
      then have "(s, q) \<in> (parent_rel f3)\<^sup>*" by (simp add: above_def)
      then show "q \<in> above f s"
      proof (induction rule: rtrancl_induct)
        case (step y z)
        have "y \<noteq> r" using step.IH ro by blast
        then have "(y, z) \<in> parent_rel f2" using step.hyps(2) by (auto simp: parent_rel_def l3 g3 split: if_splits)
        then show ?case using sub2 step.IH unfolding above_def by (auto intro: rtrancl_into_rtrancl)
      qed simp
    qed
    then have na: "n \<notin> above f3 s" using assms(10) by blast
    have fr2: "\<forall>q \<in> named f3. n_parent (nd f3 q) = Some s \<longrightarrow> n_name (nd f3 q) \<noteq> Some oldname"
    proof (intro ballI impI notI)
      fix q assume q: "q \<in> named f3" "n_parent (nd f3 q) = Some s" "n_name (nd f3 q) = Some oldname"
      show False
      proof (cases "q = r")
        case True
        then have "s = p" "oldname = newname" using q ne by (simp_all add: g3)
        then show False using assms(2,3,4,6,8) by simp
      next
        case False
        then have "q \<in> named f2" "n_parent (nd f2 q) = Some s" "n_name (nd f2 q) = Some oldname"
          using q nm3 by (auto simp: g3 split: if_splits)
        then have "lookup_node f olddir oldname = Some q"
          using old [of q] lookup_parent [OF assms(1) op(1) assms(6)] by simp
        then show False using assms(2) False by simp
      qed
    qed
    have k3: "\<forall>q \<in> {r, n}. q \<in> live f3 \<and> nlookup (nd f3 q) = nlookup (nd f q) \<and> n_nodeid (nd f3 q) = n_nodeid (nd f q) \<and> treelock (nd f3 q) = treelock (nd f q) \<and> open_count (nd f3 q) = open_count (nd f q)"
      using k2 ne by (auto simp: l3 g3)
    have mm3: "mallocs f3 = mallocs f" using ad mm by (simp add: adopted_def)
    have ok3: "others_kept {r, n} f f3"
      using others_kept_trans [OF ok2 others_kept_adopted [OF ad r2l(1) d2(1)]] by simp
    from enter_ok [OF h(2) n3l(1,2,3,4,5) na fr2]
    show ?thesis
    proof (elim disjE exE conjE)
      fix f4 b
      assume h4: "hash_name f3 n olddir oldname = Some (-1, f4)" "tree_ok f4" "nodes f4 = nodes f3" "32 \<le> length oldname"
        and fails: "\<not> mallocs f3 b"
      have "others_kept {r, n} f f4" using others_kept_trans [OF ok3 others_kept_same [OF h4(3), of "{}"]] by simp
      moreover have "\<forall>q \<in> {r, n}. q \<in> live f4 \<and> nlookup (nd f4 q) = nlookup (nd f q) \<and> n_nodeid (nd f4 q) = n_nodeid (nd f q) \<and> treelock (nd f4 q) = treelock (nd f q) \<and> open_count (nd f4 q) = open_count (nd f q)" using k3 same_nodes_views(1) [OF h4(3)] h4(3) by simp
      ultimately show ?thesis using h h4 st mm3 fails by auto
    next
      fix f4
      assume h4: "hash_name f3 n olddir oldname = Some (0, f4)" "tree_ok f4" and ad4: "adopted n s oldname f3 f4"
      note n4 = ad4[unfolded adopted_def, THEN conjunct1]
      have g4: "nd f4 q = (if q = s then (nd f3 s)\<lparr>refctr := refctr (nd f3 s) + 1\<rparr>
          else if q = n then (nd f3 n)\<lparr>n_name := Some oldname, n_parent := Some s\<rparr> else nd f3 q)" for q
        by (simp add: n4)
      have l4: "live f4 = live f3" using n3l by (auto simp: live_def n4)
      have "others_kept {r, n} f f4"
        using others_kept_trans [OF ok3 others_kept_adopted [OF ad4 n3l(1,4)]] by (simp add: insert_commute)
      moreover have "\<forall>q \<in> {r, n}. q \<in> live f4 \<and> nlookup (nd f4 q) = nlookup (nd f q) \<and> n_nodeid (nd f4 q) = n_nodeid (nd f q) \<and> treelock (nd f4 q) = treelock (nd f q) \<and> open_count (nd f4 q) = open_count (nd f q)" using k3 ne by (auto simp: l4 g4)
      moreover have "lookup_node f4 newdir newname = Some r"
        using lookup_parent [OF h4(2), of p newdir newname r] d2 r2l(1) ne assms(4) by (auto simp: l4 l3 g4 g3)
      moreover have "lookup_node f4 olddir oldname = Some n"
        using lookup_parent [OF h4(2), of s olddir oldname n] n3l ne by (simp add: l4 g4)
      ultimately show ?thesis using st h h4 by simp
    qed
  qed
qed

lemma exchange_ok:
  assumes "tree_ok f" "lookup_node f olddir oldname = Some r" "lookup_node f newdir newname = Some n" "r \<noteq> n"
    and "s \<in> held f" "n_nodeid (nd f s) = olddir" "p \<in> held f" "n_nodeid (nd f p) = newdir"
    and "r \<notin> above f p" "n \<notin> above f s"
  shows "\<exists>err f'. exchange_node f olddir oldname newdir newname = Some (err, f') \<and> tree_ok f' \<and> others_kept {r, n} f f' \<and>
    (\<forall>q \<in> {r, n}. q \<in> live f' \<and> nlookup (nd f' q) = nlookup (nd f q) \<and> n_nodeid (nd f' q) = n_nodeid (nd f q)) \<and>
    (err = 0 \<and> lookup_node f' newdir newname = Some r \<and> lookup_node f' olddir oldname = Some n \<or>
     err = - ENOMEM \<and> (32 \<le> length oldname \<or> 32 \<le> length newname) \<and> (\<exists>k. \<not> mallocs f k))"
  using exchange_held [OF assms] by blast

section \<open>The list of forgotten nodes\<close>

definition lru_less :: "fuse \<Rightarrow> fuse \<Rightarrow> bool" where
  "lru_less f f' \<longleftrightarrow> set (lru_table f') \<subseteq> set (lru_table f) \<and> (distinct (lru_table f) \<longrightarrow> distinct (lru_table f')) \<and>
     remember f' = remember f"

lemma lru_less_same: "lru_table f' = lru_table f \<Longrightarrow> remember f' = remember f \<Longrightarrow> lru_less f f'"
  by (simp add: lru_less_def)

lemma lru_less_trans: "lru_less f f1 \<Longrightarrow> lru_less f1 f2 \<Longrightarrow> lru_less f f2"
  by (auto simp: lru_less_def)

lemma lru_less_upd [simp]: "lru_less (upd r g f) f' = lru_less f f'" "lru_less f (upd r g f') = lru_less f f'"
  by (simp_all add: lru_less_def)

lemma lru_less_remove: "lru_less f (remove_node_lru f r)"
  by (auto simp: lru_less_def remove_node_lru_def dest: set_remove1_subset [THEN subsetD])

lemma after_delete:
  assumes "delete_node f r = Some f'"
  obtains f1 where "unhash_name f r = Some f1" "lru_table f' = lru_table (if lru_enabled f1 then remove_node_lru f1 r else f1)"
    "remember f' = remember f1" "r \<notin> live f'"
proof -
  obtain f1 where u: "treelock (nd f r) = 0" "unhash_name f r = Some f1"
    using assms by (auto simp: delete_node.simps [of f r] split: if_splits option.splits)
  define f2 where "f2 = (if lru_enabled f1 then remove_node_lru f1 r else f1)"
  have "f' = free_node (unhash_id f2 r) r"
    using assms u by (simp add: delete_node.simps [of f r] f2_def Let_def)
  then have "lru_table f' = lru_table f2" "remember f' = remember f2" "r \<notin> live f'"
    by (simp_all add: free_node_def unhash_id_def remerge_id_def next_malloc_def Let_def live_def)
  then show ?thesis using that u(2) by (simp add: f2_def remove_node_lru_def split: if_splits)
qed

lemma lru_shrinks:
  shows "unref_node f r = Some f' \<Longrightarrow> lru_less f f'"
    and "delete_node f r = Some f' \<Longrightarrow> lru_less f f'"
    and "unhash_name f r = Some f' \<Longrightarrow> lru_less f f'"
proof (induction f r and f r and f r arbitrary: f' and f' and f' rule: unref_node_delete_node_unhash_name.induct)
  case (1 f r)
  show ?case using 1(2) 1(1) by (auto simp: unref_node.simps [of f r] Let_def lru_less_same split: if_splits)
next
  case (2 f r)
  obtain f1 where f1: "unhash_name f r = Some f1" "lru_table f' = lru_table (if lru_enabled f1 then remove_node_lru f1 r else f1)"
    "remember f' = remember f1"
    using 2(2) by (rule after_delete)
  have "treelock (nd f r) = 0" using 2(2) by (auto simp: delete_node.simps [of f r] split: if_splits)
  then have "lru_less f f1" using 2(1) f1(1) by simp
  moreover have "lru_less f1 f'" using f1(2,3) lru_less_remove [of f1 r] by (simp add: lru_less_def split: if_splits)
  ultimately show ?case by (rule lru_less_trans)
next
  case (3 f r)
  show ?case
  proof (cases "n_name (nd f r)")
    case None
    then show ?thesis using 3(2) by (simp add: unhash_name.simps [of f r] lru_less_same split: if_splits)
  next
    case (Some name)
    then obtain p where p: "n_parent (nd f r) = Some p"
      using 3(2) by (auto simp: unhash_name.simps [of f r] split: if_splits option.splits)
    define h where "h = name_hash f (n_nodeid (nd f p)) name"
    define f0 where "f0 = f\<lparr>name_table := (name_table f)\<lparr>t_array := (t_array (name_table f))[h := remove1 r (t_array (name_table f) ! h)]\<rparr>\<rparr>"
    have c: "nodes f r \<noteq> None" "h < length (t_array (name_table f)) \<and> r \<in> set (t_array (name_table f) ! h)"
      using 3(2) Some p by (auto simp: unhash_name.simps [of f r] h_def Let_def split: if_splits)
    obtain f1 where f1: "unref_node f0 p = Some f1"
      using 3(2) Some p c by (auto simp: unhash_name.simps [of f r] h_def f0_def Let_def split: if_splits option.splits)
    then have "lru_table f' = lru_table f1" "remember f' = remember f1"
      using 3(2) Some p c
      by (auto simp: unhash_name.simps [of f r] h_def f0_def Let_def remerge_name_def next_malloc_def split: if_splits)
    moreover have "lru_less f0 f1"
      by (rule 3(1) [of name p h "name_table f" f1, folded f0_def]) (use c Some p f1 in \<open>simp_all add: h_def\<close>)
    ultimately show ?thesis by (simp add: f0_def lru_less_def)
  qed
qed

lemma unref_last:
  assumes "unref_node f r = Some f'" "refctr (nd f r) = 1" "lru_enabled f" "distinct (lru_table f)"
  shows "r \<notin> live f'" "r \<notin> set (lru_table f')"
proof -
  define f0 where "f0 = upd r (\<lambda>n. n\<lparr>refctr := refctr n - 1\<rparr>) f"
  have "delete_node f0 r = Some f'"
    using assms(1,2) by (simp add: unref_node.simps [of f r] f0_def split: if_splits)
  then obtain f1 where f1: "unhash_name f0 r = Some f1" "lru_table f' = lru_table (if lru_enabled f1 then remove_node_lru f1 r else f1)"
    "r \<notin> live f'"
    by (rule after_delete)
  show "r \<notin> live f'" by (rule f1(3))
  have "lru_less f f1" using lru_shrinks(3) [OF f1(1)] by (simp add: f0_def)
  then show "r \<notin> set (lru_table f')" using f1(2) assms(3,4) by (simp add: lru_less_def remove_node_lru_def lru_enabled_def)
qed

text \<open>The list holds nodes whose one lookup is that of the cache.\<close>

definition lru_ok :: "fuse \<Rightarrow> bool" where
  "lru_ok f \<longleftrightarrow> distinct (lru_table f) \<and> (lru_table f \<noteq> [] \<longrightarrow> lru_enabled f) \<and>
     (\<forall>q \<in> set (lru_table f). q \<in> live f \<and> nlookup (nd f q) = 1 \<and> n_nodeid (nd f q) \<noteq> FUSE_ROOT_ID)"

lemma lru_okD:
  assumes "lru_ok f"
  shows "distinct (lru_table f)" "lru_table f \<noteq> [] \<Longrightarrow> lru_enabled f"
    "\<And>q. q \<in> set (lru_table f) \<Longrightarrow> q \<in> live f" "\<And>q. q \<in> set (lru_table f) \<Longrightarrow> nlookup (nd f q) = 1"
    "\<And>q. q \<in> set (lru_table f) \<Longrightarrow> n_nodeid (nd f q) \<noteq> FUSE_ROOT_ID"
  using assms by (auto simp: lru_ok_def)

lemma lru_ok_shrink:
  assumes "lru_ok f" "set (lru_table f') \<subseteq> set (lru_table f) - S" "distinct (lru_table f')" "remember f' = remember f" "others_kept S f f'"
  shows "lru_ok f'"
  unfolding lru_ok_def
proof (intro conjI impI ballI)
  show "lru_enabled f'" if "lru_table f' \<noteq> []"
  proof -
    have "lru_table f \<noteq> []" using that assms(2) by (cases "lru_table f'") auto
    then show ?thesis using lru_okD(2) [OF assms(1)] assms(4) by (simp add: lru_enabled_def)
  qed
  fix q assume "q \<in> set (lru_table f')"
  then have q: "q \<in> set (lru_table f)" "q \<notin> S" using assms(2) by auto
  note l = lru_okD(3-5) [OF assms(1) q(1)]
  show l': "q \<in> live f'" using others_keptD(3) [OF assms(5) q(2)] l by (simp add: held_def)
  show "nlookup (nd f' q) = 1" "n_nodeid (nd f' q) \<noteq> FUSE_ROOT_ID" using others_kept_node(3,4) [OF assms(5) q(2) l'] l by simp_all
qed (rule assms(3))

lemma others_kept_gone: "others_kept (insert r S) f f' \<Longrightarrow> r \<notin> live f' \<Longrightarrow> q \<in> live f' - S \<Longrightarrow> q \<in> live f \<and> nd f' q = (nd f q)\<lparr>refctr := refctr (nd f' q)\<rparr>"
  unfolding others_kept_def by blast

definition only_cached :: "fuse \<Rightarrow> nat \<Rightarrow> bool" where
  "only_cached f r \<longleftrightarrow> r \<in> live f \<and> nlookup (nd f r) = 1 \<and> n_nodeid (nd f r) \<noteq> FUSE_ROOT_ID \<and> treelock (nd f r) = 0"

lemma clean_step:
  assumes "tree_ok f" "distinct (lru_table f)" "lru_enabled f" "only_cached f r" "\<not> refctr (nd f r) > 1"
  shows "\<exists>f2 f3. unhash_name (upd r (\<lambda>n. n\<lparr>nlookup := 0\<rparr>) f) r = Some f2 \<and> unref_node f2 r = Some f3 \<and> tree_ok f3 \<and>
    others_kept {r} f f3 \<and> r \<notin> live f3 \<and> set (lru_table f3) \<subseteq> set (lru_table f) - {r} \<and> distinct (lru_table f3) \<and>
    remember f3 = remember f \<and> now f3 = now f"
proof -
  let ?g = "\<lambda>n. n\<lparr>n_name := None, n_parent := None\<rparr>"
  note i = tree_okD [OF assms(1)]
  have r: "r \<in> live f" "nlookup (nd f r) = 1" "n_nodeid (nd f r) \<noteq> FUSE_ROOT_ID" and tl0: "treelock (nd f r) = 0"
    using assms(4) by (simp_all add: only_cached_def)
  note R = refs_okD [OF i(6) r(1)]
  have one: "refctr (nd f r) = 1" using i(2) [OF r(1)] assms(5) by linarith
  define f1 where "f1 = upd r (\<lambda>n. n\<lparr>nlookup := 0\<rparr>) f"
  have i1: "tree_inv {} ((\<lambda>_. 0)(r := 1)) f1"
    by (rule tree_inv_counts [OF i(1) r(1) _ f1_def]) (use R r one tl0 in \<open>simp_all add: looks_def\<close>)
  have v: "r \<in> live f1" "positive (insert r {}) f1" "n_nodeid (nd f1 r) \<noteq> FUSE_ROOT_ID" "refctr (nd f1 r) = 1"
    "treelock (nd f1 r) = 0"
    using i(2) r one tl0 by (auto simp: positive_def f1_def)
  obtain f2 where f2: "unhash_name f1 r = Some f2" "tree_inv {} ((\<lambda>_. 0)(r := 1)) f2" "positive (insert r {}) f2"
    "pruned (above f1 r - {r}) (upd r ?g f1) f2"
    using drop_specs [of f1 r] i1 v unfolding unhash_spec_def by blast
  have "nodes f2 r = nodes (upd r ?g f1) r" by (rule prunedD(1) [OF f2(4)]) simp
  then have n2: "nodes f2 r = Some (?g (nd f1 r))" by (simp add: upd_def)
  then have r2: "r \<in> live f2" "refctr (nd f2 r) = 1" "n_name (nd f2 r) = None" "treelock (nd f2 r) = 0"
    using v by (simp_all add: live_def domI)
  then have p2: "positive {} f2" using f2(3) by (auto simp: positive_def)
  obtain f3 where f3: "unref_node f2 r = Some f3" "tree_ok f3" "pruned (above f2 r) f2 f3"
    using unref_ok [OF f2(2) r2(1) p2] by blast
  have rem: "remember f2 = remember f" "now f2 = now f" using prunedD(5,9) [OF f2(4)] by (simp_all add: f1_def)
  have l2: "lru_less f f2" using lru_shrinks(3) [OF f2(1)] by (simp add: f1_def)
  have u: "r \<notin> live f3" "r \<notin> set (lru_table f3)"
    using unref_last [OF f3(1) r2(2)] l2 assms(2,3) by (simp_all add: lru_less_def lru_enabled_def)
  then have "set (lru_table f3) \<subseteq> set (lru_table f) - {r} \<and> distinct (lru_table f3)"
    using lru_less_trans [OF l2 lru_shrinks(1) [OF f3(1)]] assms(2) by (auto simp: lru_less_def)
  moreover have "others_kept {r} f f3"
  proof -
    have "others_kept {r} f f1" "others_kept {r} f1 (upd r ?g f1)" unfolding f1_def using r(1) by (simp_all add: others_kept_upd)
    from others_kept_trans [OF others_kept_trans [OF this] others_kept_trans [OF others_kept_pruned [OF f2(4)] others_kept_pruned [OF f3(3)]]]
    show ?thesis by simp
  qed
  moreover have "remember f3 = remember f" "now f3 = now f" using prunedD(5,9) [OF f3(3)] rem by simp_all
  ultimately show ?thesis using f2(1) f3(1,2) u by (auto simp: f1_def)
qed

lemma others_kept_cached:
  assumes "others_kept S f f'" "q \<notin> S" "only_cached f q"
  shows "only_cached f' q" "forget_time (nd f' q) = forget_time (nd f q)"
proof -
  have q: "q \<in> live f'" using others_keptD(3) [OF assms(1,2)] assms(3) by (simp add: only_cached_def held_def)
  then show "only_cached f' q" using others_kept_node(3-5) [OF assms(1,2)] assms(3) by (simp add: only_cached_def)
  show "forget_time (nd f' q) = forget_time (nd f q)" by (subst others_keptD(2) [OF assms(1,2) q]) simp
qed

lemma clean_loop_ok:
  assumes "tree_ok f" "lru_ok f" "lru_enabled f" "distinct rs" "\<forall>q \<in> set rs. only_cached f q"
  shows "\<exists>f'. clean_loop t rs f = Some f' \<and> tree_ok f' \<and> lru_ok f' \<and>
    others_kept {q \<in> set rs. t - forget_time (nd f q) > remember f} f f' \<and>
    set (lru_table f') \<subseteq> set (lru_table f) \<and> remember f' = remember f \<and> now f' = now f"
  using assms
proof (induction rs arbitrary: f)
  case Nil
  then show ?case using others_kept_same [of f f] by simp
next
  case (Cons r rs)
  let ?old = "\<lambda>rs f. {q \<in> set rs. t - forget_time (nd f q) > remember f}"
  show ?case
  proof (cases "t - forget_time (nd f r) \<le> remember f")
    case True
    then show ?thesis using Cons.prems(1,2) others_kept_same [of f f] by simp
  next
    case age: False
    show ?thesis
    proof (cases "refctr (nd f r) > 1")
      case True
      obtain f' where f': "clean_loop t rs f = Some f'" "tree_ok f'" "lru_ok f'" "others_kept (?old rs f) f f'"
        "set (lru_table f') \<subseteq> set (lru_table f)" "remember f' = remember f" "now f' = now f"
        using Cons.IH [of f] Cons.prems by auto
      have "others_kept (?old (r # rs) f) f f'" by (rule others_kept_mono [OF f'(4)]) auto
      then show ?thesis using f' True age Cons.prems(5) by (simp add: only_cached_def)
    next
      case False
      have c: "only_cached f r" using Cons.prems(5) by simp
      obtain f2 f3 where s: "unhash_name (upd r (\<lambda>n. n\<lparr>nlookup := 0\<rparr>) f) r = Some f2" "unref_node f2 r = Some f3" "tree_ok f3"
        "others_kept {r} f f3" "set (lru_table f3) \<subseteq> set (lru_table f) - {r}" "distinct (lru_table f3)"
        "remember f3 = remember f" "now f3 = now f"
        using clean_step [OF Cons.prems(1) lru_okD(1) [OF Cons.prems(2)] Cons.prems(3) c False] by (elim exE conjE)
      have l3: "lru_ok f3" by (rule lru_ok_shrink [OF Cons.prems(2) s(5,6,7,4)])
      have q: "only_cached f3 q" "forget_time (nd f3 q) = forget_time (nd f q)" if "q \<in> set rs" for q
        using others_kept_cached [OF s(4), of q] Cons.prems(4,5) that by auto
      obtain f' where f': "clean_loop t rs f3 = Some f'" "tree_ok f'" "lru_ok f'" "others_kept (?old rs f3) f3 f'"
        "set (lru_table f') \<subseteq> set (lru_table f3)" "remember f' = remember f3" "now f' = now f3"
        using Cons.IH [of f3] Cons.prems(3,4) s(3,7) l3 q(1) by (auto simp: lru_enabled_def)
      have "?old rs f3 = ?old rs f" using q(2) s(7) by auto
      then have "others_kept (?old (r # rs) f) f f'"
        using others_kept_mono [OF others_kept_trans [OF s(4) f'(4)], of "?old (r # rs) f"] age by auto
      moreover have "clean_loop t (r # rs) f = Some f'"
        using age False c s(1,2) f'(1) by (simp add: only_cached_def)
      ultimately show ?thesis using f' s by auto
    qed
  qed
qed

lemma clean_ok:
  assumes "tree_ok f" "lru_ok f" "\<forall>q \<in> set (lru_table f). treelock (nd f q) = 0"
  shows "\<exists>f'. fuse_clean_cache f = Some (clean_delay f', f') \<and> tree_ok f' \<and> lru_ok f' \<and>
    others_kept {q \<in> set (lru_table f). now f - forget_time (nd f q) > remember f} f f' \<and>
    set (lru_table f') \<subseteq> set (lru_table f) \<and> remember f' = remember f \<and> now f' = now f"
proof (cases "lru_table f = []")
  case True
  then show ?thesis using assms(1,2) others_kept_same [of f f] by (simp add: fuse_clean_cache_def)
next
  case False
  have "\<forall>q \<in> set (lru_table f). only_cached f q"
    using lru_okD(3-5) [OF assms(2)] assms(3) by (simp add: only_cached_def)
  then obtain f' where "clean_loop (now f) (lru_table f) f = Some f'" "tree_ok f'" "lru_ok f'"
    "others_kept {q \<in> set (lru_table f). now f - forget_time (nd f q) > remember f} f f'"
    "set (lru_table f') \<subseteq> set (lru_table f)" "remember f' = remember f" "now f' = now f"
    using clean_loop_ok [OF assms(1,2) lru_okD(2) [OF assms(2) False] lru_okD(1) [OF assms(2)], of "now f"] by blast
  then show ?thesis by (simp add: fuse_clean_cache_def)
qed

end
