(* ===== verification/Fuse_Paths.thy ===== *)
theory Fuse_Paths
  imports Fuse_Requests
begin

text \<open>
  Paths of nodes in \<^verbatim>\<open>lib/fuse.c\<close>, from \<open>lookup_path_in_cache\<close> to \<open>free_path2\<close>. The
  path of a node is put together from the names up to the root. On the way every node is locked
  for reading, and, for an operation that takes away or replaces a name, the node of that name for
  writing. A path that cannot be locked at once is queued and tried again when another is freed.

  \<open>treelock\<close> is the number of readers, or \<open>TREELOCK_WRITE\<close>; \<open>TREELOCK_WAIT_OFFSET\<close> is added while
  a writer waits, which keeps new readers out.
\<close>

section \<open>Putting a path together\<close>

abbreviation "TREELOCK_WRITE \<equiv> (- 1 :: int)"
abbreviation "TREELOCK_WAIT_OFFSET \<equiv> (- 2147483648 :: int)"
abbreviation "EAGAIN \<equiv> (11 :: int)"
abbreviation "ESTALE \<equiv> (116 :: int)"
abbreviation "ENOENT \<equiv> (2 :: int)"

abbreviation SLASH :: u8 where
  "SLASH \<equiv> 47"

text \<open>The size of the buffer; it does not end when more than 4 GB are needed.\<close>

partial_function (option) grow_size :: "nat \<Rightarrow> nat \<Rightarrow> nat option" where
  "grow_size need newbufsize =
     (if newbufsize < need then grow_size need (if newbufsize \<ge> 0x80000000 then 0xFFFFFFFF else newbufsize * 2)
      else Some newbufsize)"

text \<open>
  A path is built from its end, at the end of the buffer: \<open>s\<close> is what is there so far, without
  the terminating zero. The result is \<open>None\<close> inside when the buffer cannot be made larger.
\<close>

definition add_name :: "fuse \<Rightarrow> nat \<Rightarrow> bytes \<Rightarrow> bytes \<Rightarrow> ((nat \<times> bytes) option \<times> fuse) option" where
  "add_name f bufsize s name =
     (let len = length name;
          pathlen = length s + 1
      in if bufsize \<le> pathlen + len then
           (case grow_size (pathlen + len + 1) bufsize of
              None \<Rightarrow> None
            | Some newbufsize \<Rightarrow>
                let (ok, f) = next_malloc f
                in if \<not> ok then Some (None, f) else Some (Some (newbufsize, SLASH # name @ s), f))
         else Some (Some (bufsize, SLASH # name @ s), f))"

partial_function (option) unlock_loop :: "fuse \<Rightarrow> nat option \<Rightarrow> nat option \<Rightarrow> fuse option" where
  "unlock_loop f node till =
     (if node = till then Some f
      else case node of
        None \<Rightarrow> None
      | Some r \<Rightarrow>
          if nodes f r = None then None
          else if n_nodeid (nd f r) = FUSE_ROOT_ID then Some f
          else if treelock (nd f r) = 0 \<or> treelock (nd f r) = TREELOCK_WAIT_OFFSET \<or> treelock (nd f r) = TREELOCK_WRITE then None
          else
            let f = upd r (\<lambda>n. n\<lparr>treelock := treelock n - 1\<rparr>) f;
                f = (if treelock (nd f r) = TREELOCK_WAIT_OFFSET then upd r (\<lambda>n. n\<lparr>treelock := 0\<rparr>) f else f)
            in unlock_loop f (n_parent (nd f r)) till)"

definition unlock_path :: "fuse \<Rightarrow> u64 \<Rightarrow> nat option \<Rightarrow> nat option \<Rightarrow> fuse option" where
  "unlock_path f nodeid wnode till = do {
     f \<leftarrow> (case wnode of
        None \<Rightarrow> Some f
      | Some w \<Rightarrow> if treelock (nd f w) = TREELOCK_WRITE then Some (upd w (\<lambda>n. n\<lparr>treelock := 0\<rparr>) f) else None);
     case get_fuse_node f nodeid of
       None \<Rightarrow> None
     | Some r \<Rightarrow> unlock_loop f (Some r) till
   }"

text \<open>The loop of \<open>try_get_path\<close>: the path, or the error and the node at which it stopped.\<close>

partial_function (option) path_loop :: "fuse \<Rightarrow> nat \<Rightarrow> nat \<Rightarrow> bytes \<Rightarrow> bool \<Rightarrow> ((int \<times> nat + bytes) \<times> fuse) option" where
  "path_loop f r bufsize s need_lock =
     (if nodes f r = None then None
      else if n_nodeid (nd f r) = FUSE_ROOT_ID then Some (Inr s, f)
      else case (n_name (nd f r), n_parent (nd f r)) of
        (Some name, Some parent) \<Rightarrow>
          (case add_name f bufsize s name of
             None \<Rightarrow> None
           | Some (None, f) \<Rightarrow> Some (Inl (- ENOMEM, r), f)
           | Some (Some (bufsize, s), f) \<Rightarrow>
               if need_lock then
                 if treelock (nd f r) < 0 then Some (Inl (- EAGAIN, r), f)
                 else path_loop (upd r (\<lambda>n. n\<lparr>treelock := treelock n + 1\<rparr>) f) parent bufsize s need_lock
               else path_loop f parent bufsize s need_lock)
      | _ \<Rightarrow> Some (Inl (- ESTALE, r), f))"

definition path_up :: "fuse \<Rightarrow> u64 \<Rightarrow> nat \<Rightarrow> bytes \<Rightarrow> nat option \<Rightarrow> bool \<Rightarrow> ((int + bytes \<times> nat option) \<times> fuse) option" where
  "path_up f nodeid bufsize s wnode need_lock =
     (case get_fuse_node f nodeid of
        None \<Rightarrow> None
      | Some r \<Rightarrow>
          (case path_loop f r bufsize s need_lock of
             None \<Rightarrow> None
           | Some (Inr s, f) \<Rightarrow> Some (Inr (if s = [] then [SLASH] else s, wnode), f)
           | Some (Inl (err, node), f) \<Rightarrow>
               if need_lock then
                 (case unlock_path f nodeid wnode (Some node) of
                    None \<Rightarrow> None
                  | Some f \<Rightarrow> Some (Inl err, f))
               else Some (Inl err, f)))"

text \<open>\<open>wr\<close> says whether the caller wants the node of the name locked for writing (\<open>wnodep\<close>).\<close>

definition try_get_path :: "fuse \<Rightarrow> u64 \<Rightarrow> bytes option \<Rightarrow> bool \<Rightarrow> bool \<Rightarrow> ((int + bytes \<times> nat option) \<times> fuse) option" where
  "try_get_path f nodeid name wr need_lock =
     (let bufsize = 256;
          (ok, f) = next_malloc f
      in if \<not> ok then Some (Inl (- ENOMEM), f)
         else case (case name of None \<Rightarrow> Some (Some (bufsize, []), f) | Some name \<Rightarrow> add_name f bufsize [] name) of
           None \<Rightarrow> None
         | Some (None, f) \<Rightarrow> Some (Inl (- ENOMEM), f)
         | Some (Some (bufsize, s), f) \<Rightarrow>
             if wr then
               if need_lock \<and> name \<noteq> None then
                 (case lookup_node f nodeid (the name) of
                    None \<Rightarrow> path_up f nodeid bufsize s None need_lock
                  | Some w \<Rightarrow>
                      if treelock (nd f w) \<noteq> 0 then
                        Some (Inl (- EAGAIN),
                          if treelock (nd f w) > 0 then upd w (\<lambda>n. n\<lparr>treelock := treelock n + TREELOCK_WAIT_OFFSET\<rparr>) f else f)
                      else path_up (upd w (\<lambda>n. n\<lparr>treelock := TREELOCK_WRITE\<rparr>) f) nodeid bufsize s (Some w) need_lock)
               else None
             else path_up f nodeid bufsize s None need_lock)"

definition try_get_path2 :: "fuse \<Rightarrow> u64 \<Rightarrow> bytes option \<Rightarrow> u64 \<Rightarrow> bytes option \<Rightarrow> bool \<Rightarrow> bool \<Rightarrow>
    ((int + (bytes \<times> nat option) \<times> (bytes \<times> nat option)) \<times> fuse) option" where
  "try_get_path2 f nodeid1 name1 nodeid2 name2 wr1 wr2 =
     (case try_get_path f nodeid1 name1 wr1 True of
        None \<Rightarrow> None
      | Some (Inl err, f) \<Rightarrow> Some (Inl err, f)
      | Some (Inr (path1, wnode1), f) \<Rightarrow>
          (case try_get_path f nodeid2 name2 wr2 True of
             None \<Rightarrow> None
           | Some (Inr (path2, wnode2), f) \<Rightarrow> Some (Inr ((path1, wnode1), (path2, wnode2)), f)
           | Some (Inl err, f) \<Rightarrow>
               (case unlock_path f nodeid1 wnode1 None of
                  None \<Rightarrow> None
                | Some f \<Rightarrow> Some (Inl err, f))))"

section \<open>Following a path in the tables\<close>

text \<open>The elements that \<open>strtok_r\<close> finds between slashes.\<close>

function path_elements :: "bytes \<Rightarrow> bytes list" where
  "path_elements path =
     (let rest = dropWhile (\<lambda>c. c = SLASH) path
      in if rest = [] then []
         else takeWhile (\<lambda>c. c \<noteq> SLASH) rest # path_elements (dropWhile (\<lambda>c. c \<noteq> SLASH) rest))"
  by pat_completeness auto
termination
proof (relation "measure length")
  fix path rest :: bytes
  assume r: "rest = dropWhile (\<lambda>c. c = SLASH) path" "rest \<noteq> []"
  obtain a xs where x: "rest = a # xs" using r(2) by (cases rest) auto
  have "hd rest \<noteq> SLASH" using r hd_dropWhile [of "\<lambda>c. c = SLASH" path] by simp
  then have "dropWhile (\<lambda>c. c \<noteq> SLASH) rest = dropWhile (\<lambda>c. c \<noteq> SLASH) xs" by (simp add: x)
  then have "length (dropWhile (\<lambda>c. c \<noteq> SLASH) rest) < length rest"
    by (simp add: x le_imp_less_Suc length_dropWhile_le)
  also have "\<dots> \<le> length path" by (simp add: r(1) length_dropWhile_le)
  finally show "(dropWhile (\<lambda>c. c \<noteq> SLASH) rest, path) \<in> measure length" by simp
qed simp

declare path_elements.simps [simp del]

fun follow :: "fuse \<Rightarrow> u64 \<Rightarrow> bytes list \<Rightarrow> u64 option" where
  "follow f ino [] = Some ino"
| "follow f ino (element # rest) =
     (case lookup_node f ino element of
        None \<Rightarrow> None
      | Some r \<Rightarrow> follow f (n_nodeid (nd f r)) rest)"

definition lookup_path_in_cache :: "fuse \<Rightarrow> bytes \<Rightarrow> (int + u64) \<times> fuse" where
  "lookup_path_in_cache f path =
     (let (ok, f) = next_malloc f
      in if \<not> ok then (Inl (- ENOMEM), f)
         else case follow f FUSE_ROOT_ID (path_elements path) of
           None \<Rightarrow> (Inl (- ENOENT), f)
         | Some ino \<Rightarrow> (Inr ino, f))"

section \<open>Waiting for a path\<close>

text \<open>
  An element of the queue: a path is wanted (otherwise the element waits for the last lock of a
  node to be forgotten), or two. The mutex is given up in \<open>pthread_cond_wait\<close> only; what happens
  after a signal is the return of the waiting call with what the element holds.
\<close>

record lock_queue_element =
  nodeid1 :: u64
  name1 :: "bytes option"
  wants_path1 :: bool
  wants_wnode1 :: bool
  second :: "(u64 \<times> bytes option \<times> bool) option"
  path_err :: int
  paths :: "(bytes \<times> nat option) list"
  path_done :: bool

text \<open>The result says whether the waiting thread is signalled.\<close>

definition queue_element_wakeup :: "fuse \<Rightarrow> lock_queue_element \<Rightarrow> (bool \<times> lock_queue_element \<times> fuse) option" where
  "queue_element_wakeup f qe =
     (if \<not> wants_path1 qe then
        (case get_fuse_node f (nodeid1 qe) of
           None \<Rightarrow> None
         | Some r \<Rightarrow> Some (treelock (nd f r) = 0, qe, f))
      else if path_done qe then Some (False, qe, f)
      else do {
        (res, f) \<leftarrow> (case second qe of
           None \<Rightarrow> do {
             (res, f) \<leftarrow> try_get_path f (nodeid1 qe) (name1 qe) (wants_wnode1 qe) True;
             Some (case res of Inl err \<Rightarrow> Inl err | Inr p \<Rightarrow> Inr [p], f)
           }
         | Some (nodeid2, name2, wr2) \<Rightarrow> do {
             (res, f) \<leftarrow> try_get_path2 f (nodeid1 qe) (name1 qe) nodeid2 name2 (wants_wnode1 qe) wr2;
             Some (case res of Inl err \<Rightarrow> Inl err | Inr (p1, p2) \<Rightarrow> Inr [p1, p2], f)
           });
        Some (case res of
            Inl err \<Rightarrow> if err = - EAGAIN then (False, qe, f) else (True, qe\<lparr>path_err := err, path_done := True\<rparr>, f)
          | Inr ps \<Rightarrow> (True, qe\<lparr>path_err := 0, paths := ps, path_done := True\<rparr>, f))
      })"

fun wake_up_queued :: "fuse \<Rightarrow> lock_queue_element list \<Rightarrow> (lock_queue_element list \<times> fuse) option" where
  "wake_up_queued f [] = Some ([], f)"
| "wake_up_queued f (qe # rest) = do {
     (_, qe, f) \<leftarrow> queue_element_wakeup f qe;
     (rest, f) \<leftarrow> wake_up_queued f rest;
     Some (qe # rest, f)
   }"

text \<open>A request that has to wait is put at the end of the queue; otherwise there is a result.\<close>

definition get_path_common :: "fuse \<Rightarrow> lock_queue_element list \<Rightarrow> u64 \<Rightarrow> bytes option \<Rightarrow> bool \<Rightarrow>
    ((int + bytes \<times> nat option) option \<times> lock_queue_element list \<times> fuse) option" where
  "get_path_common f lockq nodeid name wr = do {
     (res, f) \<leftarrow> try_get_path f nodeid name wr True;
     if res = Inl (- EAGAIN) then
       let qe = \<lparr>nodeid1 = nodeid, name1 = name, wants_path1 = True, wants_wnode1 = wr, second = None,
                 path_err = 0, paths = [], path_done = False\<rparr>
       in Some (None, lockq @ [qe], f)
     else Some (Some res, lockq, f)
   }"

definition get_path2 :: "fuse \<Rightarrow> lock_queue_element list \<Rightarrow> u64 \<Rightarrow> bytes option \<Rightarrow> u64 \<Rightarrow> bytes option \<Rightarrow> bool \<Rightarrow> bool \<Rightarrow>
    ((int + (bytes \<times> nat option) \<times> (bytes \<times> nat option)) option \<times> lock_queue_element list \<times> fuse) option" where
  "get_path2 f lockq ino1 n1 ino2 n2 wr1 wr2 = do {
     (res, f) \<leftarrow> try_get_path2 f ino1 n1 ino2 n2 wr1 wr2;
     if res = Inl (- EAGAIN) then
       let qe = \<lparr>nodeid1 = ino1, name1 = n1, wants_path1 = True, wants_wnode1 = wr1, second = Some (ino2, n2, wr2),
                 path_err = 0, paths = [], path_done = False\<rparr>
       in Some (None, lockq @ [qe], f)
     else Some (Some res, lockq, f)
   }"

definition free_path_wrlock :: "fuse \<Rightarrow> lock_queue_element list \<Rightarrow> u64 \<Rightarrow> nat option \<Rightarrow> (lock_queue_element list \<times> fuse) option" where
  "free_path_wrlock f lockq nodeid wnode = do {
     f \<leftarrow> unlock_path f nodeid wnode None;
     if lockq \<noteq> [] then wake_up_queued f lockq else Some (lockq, f)
   }"

definition free_path2 :: "fuse \<Rightarrow> lock_queue_element list \<Rightarrow> u64 \<Rightarrow> u64 \<Rightarrow> nat option \<Rightarrow> nat option \<Rightarrow> (lock_queue_element list \<times> fuse) option" where
  "free_path2 f lockq ino1 ino2 wnode1 wnode2 = do {
     f \<leftarrow> unlock_path f ino1 wnode1 None;
     f \<leftarrow> unlock_path f ino2 wnode2 None;
     wake_up_queued f lockq
   }"

section \<open>Changes of the locks\<close>

definition relock :: "(nat \<Rightarrow> int \<Rightarrow> int) \<Rightarrow> fuse \<Rightarrow> fuse" where
  "relock h f = f\<lparr>nodes := \<lambda>q. map_option (\<lambda>n. n\<lparr>treelock := h q (treelock n)\<rparr>) (nodes f q)\<rparr>"

lemma relock_fields [simp]:
  "name_table (relock h f) = name_table f" "id_table (relock h f) = id_table f" "lru_table (relock h f) = lru_table f"
  "next_addr (relock h f) = next_addr f" "remember (relock h f) = remember f" "ctr (relock h f) = ctr f"
  "generation (relock h f) = generation f" "mallocs (relock h f) = mallocs f" "malloc_no (relock h f) = malloc_no f" "now (relock h f) = now f"
  by (simp_all add: relock_def)

lemma live_relock [simp]: "live (relock h f) = live f"
  by (auto simp: live_def relock_def)

lemma nd_relock: "r \<in> live f \<Longrightarrow> nd (relock h f) r = (nd f r)\<lparr>treelock := h r (treelock (nd f r))\<rparr>"
  by (auto simp: live_def relock_def)

lemma relock_relock: "relock h (relock g f) = relock (\<lambda>q k. h q (g q k)) f"
  by (simp add: relock_def option.map_comp o_def)

lemma relock_id: "(\<And>q. q \<in> live f \<Longrightarrow> h q (treelock (nd f q)) = treelock (nd f q)) \<Longrightarrow> relock h f = f"
proof -
  assume a: "\<And>q. q \<in> live f \<Longrightarrow> h q (treelock (nd f q)) = treelock (nd f q)"
  have "map_option (\<lambda>n. n\<lparr>treelock := h q (treelock n)\<rparr>) (nodes f q) = nodes f q" for q
    using a [of q] by (cases "nodes f q") (auto simp: live_def dom_def)
  then show ?thesis by (simp add: relock_def)
qed

lemma relock_cong: "(\<And>q. q \<in> live f \<Longrightarrow> h q (treelock (nd f q)) = g q (treelock (nd f q))) \<Longrightarrow> relock h f = relock g f"
proof -
  assume a: "\<And>q. q \<in> live f \<Longrightarrow> h q (treelock (nd f q)) = g q (treelock (nd f q))"
  have "map_option (\<lambda>n. n\<lparr>treelock := h q (treelock n)\<rparr>) (nodes f q) = map_option (\<lambda>n. n\<lparr>treelock := g q (treelock n)\<rparr>) (nodes f q)" for q
    using a [of q] by (cases "nodes f q") (auto simp: live_def dom_def)
  then show ?thesis by (simp add: relock_def)
qed

lemma upd_relock: "r \<in> live f \<Longrightarrow> upd r (\<lambda>n. n\<lparr>treelock := g (treelock n)\<rparr>) f = relock (\<lambda>q k. if q = r then g k else k) f"
proof -
  assume r: "r \<in> live f"
  have "((nodes f)(r \<mapsto> (nd f r)\<lparr>treelock := g (treelock (nd f r))\<rparr>)) q =
      map_option (\<lambda>n. n\<lparr>treelock := (if q = r then g (treelock n) else treelock n)\<rparr>) (nodes f q)" for q
    using r by (cases "nodes f q") (auto simp: live_def)
  then have "(nodes f)(r \<mapsto> (nd f r)\<lparr>treelock := g (treelock (nd f r))\<rparr>) =
      (\<lambda>q. map_option (\<lambda>n. n\<lparr>treelock := (if q = r then g (treelock n) else treelock n)\<rparr>) (nodes f q))" by (rule ext)
  then show ?thesis unfolding upd_def relock_def by simp
qed

lemma relock_tree:
  "named (relock h f) = named f" "parent_rel (relock h f) = parent_rel f" "above (relock h f) r = above f r"
  "kids (relock h f) D r = kids f D r"
proof -
  have p: "n_parent (nd (relock h f) q) = n_parent (nd f q)" if "q \<in> live f" for q using that by (simp add: nd_relock)
  show "named (relock h f) = named f" "kids (relock h f) D r = kids f D r" using p by (auto simp: named_def kids_def)
  show pr: "parent_rel (relock h f) = parent_rel f" using p by (auto simp: parent_rel_def)
  show "above (relock h f) r = above f r" by (simp add: above_def pr)
qed

lemma relock_parent: "tree_at_rest f \<Longrightarrow> r \<in> named f \<Longrightarrow> parent_id (relock h f) r = parent_id f r"
proof -
  assume t: "tree_at_rest f" and r: "r \<in> named f"
  obtain p where p: "r \<in> live f" "n_parent (nd f r) = Some p" using namedD [OF r] by blast
  then have "p \<in> live f" using links_okD(2) [of "{}" f r p] t r by (simp add: tree_at_rest_def)
  then show ?thesis using p by (simp add: nd_relock)
qed

lemma relock_rest: 
  assumes "tree_at_rest f"
  shows "tree_at_rest (relock h f)"
proof -
  have T: "tables_ok {} f" and L: "links_ok {} f" using assms by (simp_all add: tree_at_rest_def)
  note t = tables_okD [OF T] and l = links_okD [OF L]
  have e: "n_nodeid (nd (relock h f) q) = n_nodeid (nd f q)" "n_name (nd (relock h f) q) = n_name (nd f q)"
    "n_parent (nd (relock h f) q) = n_parent (nd f q)" "nlookup (nd (relock h f) q) = nlookup (nd f q)" if "q \<in> live f" for q
    using that by (simp_all add: nd_relock)
  have sub: "named f \<subseteq> live f" by (auto simp: named_def)
  have "chains_ok (id_of (relock h f)) (id_table f)"
    by (rule chains_ok_cong [OF t(4)]) (simp add: t(5) e)
  moreover have "chains_ok (name_of (relock h f)) (name_table f)"
    by (rule chains_ok_cong [OF t(8)]) (use t(9) sub relock_parent [OF assms] e in auto)
  moreover have "inj_on (\<lambda>r. n_nodeid (nd (relock h f) r)) (live f)"
    using t(7) e(1) by (simp add: inj_on_def)
  moreover have "inj_on (\<lambda>r. (n_parent (nd (relock h f) r), n_name (nd (relock h f) r))) (named f)"
  proof (rule inj_onI)
    fix a b assume a: "a \<in> named f" "b \<in> named f" and
      k: "(n_parent (nd (relock h f) a), n_name (nd (relock h f) a)) = (n_parent (nd (relock h f) b), n_name (nd (relock h f) b))"
    have l: "a \<in> live f" "b \<in> live f" using a sub by blast+
    have "(n_parent (nd f a), n_name (nd f a)) = (n_parent (nd f b), n_name (nd f b))" using k e(2,3) [OF l(1)] e(2,3) [OF l(2)] by simp
    then show "a = b" using inj_onD [OF t(11), of a b] a by simp
  qed
  ultimately have "tables_ok {} (relock h f)"
    using T unfolding tables_ok_def relock_fields live_relock relock_tree by simp
  moreover have "links_ok {} (relock h f)"
    unfolding links_ok_def live_relock relock_tree
  proof (intro conjI ballI)
    show "acyclic (parent_rel f)" by (rule l(6))
    show "\<exists>r \<in> live f. n_nodeid (nd (relock h f) r) = FUSE_ROOT_ID" using l(5) e(1) by force
    fix r assume r: "r \<in> named f - {}"
    then have rl: "r \<in> live f" using sub by blast
    show "n_name (nd (relock h f) r) \<noteq> None" using l(1) [OF r] e(2) [OF rl] by simp
    obtain p where "n_parent (nd f r) = Some p" using r namedD by blast
    then show "the (n_parent (nd (relock h f) r)) \<in> live f" using l(2) [OF r] e(3) [OF rl] by simp
  next
    fix r assume "r \<in> live f - named f"
    then show "n_name (nd (relock h f) r) \<noteq> None \<longrightarrow> n_nodeid (nd (relock h f) r) = FUSE_ROOT_ID"
      using l(3) e(1,2) [of r] by simp
  next
    fix r assume "r \<in> live f"
    then show "n_nodeid (nd (relock h f) r) = FUSE_ROOT_ID \<longrightarrow> r \<notin> named f \<and> nlookup (nd (relock h f) r) \<noteq> 0"
      using l(4) e(1,4) [of r] by simp
  qed
  ultimately show ?thesis by (simp add: tree_at_rest_def)
qed

lemma relock_searches:
  assumes "tree_at_rest f"
  shows "get_fuse_node (relock h f) ino = get_fuse_node f ino" "lookup_node (relock h f) dir name = lookup_node f dir name"
proof -
  note T = tables_okD [of "{}" f] and t = assms[unfolded tree_at_rest_def, THEN conjunct1]
  show "get_fuse_node (relock h f) ino = get_fuse_node f ino"
  proof (rule option.exhaust [of "get_fuse_node f ino"])
    assume n: "get_fuse_node f ino = None"
    then have "\<forall>r \<in> live f. n_nodeid (nd f r) \<noteq> ino" using get_node_none [OF t] by (simp add: get_fuse_node_def)
    then have "get_fuse_node (relock h f) ino = None"
      using get_node_none [of "relock h f"] relock_rest [OF assms] by (simp add: get_fuse_node_def nd_relock tree_at_rest_def)
    then show ?thesis using n by simp
  next
    fix r assume s: "get_fuse_node f ino = Some r"
    then have "get_fuse_node (relock h f) ino = Some r"
      using get_node_iff [OF t] get_node_iff [of "relock h f"] relock_rest [OF assms] by (auto simp: nd_relock tree_at_rest_def)
    then show ?thesis using s by simp
  qed
  have k: "r \<in> named f \<Longrightarrow> parent_id (relock h f) r = parent_id f r \<and> n_name (nd (relock h f) r) = n_name (nd f r)" for r
    using relock_parent [OF assms, of r] by (simp add: named_def nd_relock)
  have "lookup_node (relock h f) dir name = Some r \<longleftrightarrow> lookup_node f dir name = Some r" for r
    unfolding lookup_node_iff [OF assms] lookup_node_iff [OF relock_rest [OF assms]] relock_tree using k by metis
  then show "lookup_node (relock h f) dir name = lookup_node f dir name" by (metis option.exhaust)
qed

section \<open>The way up from a node\<close>

text \<open>\<open>qs\<close> are the nodes passed on the way up from \<open>r\<close>, which ends at \<open>e\<close>: at the root or at an unlinked node.\<close>

inductive chain :: "fuse \<Rightarrow> nat \<Rightarrow> nat list \<Rightarrow> nat \<Rightarrow> bool" for f where
  stop: "r \<in> live f \<Longrightarrow> n_nodeid (nd f r) = FUSE_ROOT_ID \<or> n_name (nd f r) = None \<or> n_parent (nd f r) = None \<Longrightarrow> chain f r [] r"
| up: "r \<in> live f \<Longrightarrow> n_nodeid (nd f r) \<noteq> FUSE_ROOT_ID \<Longrightarrow> n_name (nd f r) = Some name \<Longrightarrow> n_parent (nd f r) = Some p \<Longrightarrow>
    chain f p qs e \<Longrightarrow> chain f r (r # qs) e"

inductive_cases chain_NilE: "chain f r [] e"
inductive_cases chain_ConsE: "chain f r (q # qs) e"

lemma chain_live: "chain f r qs e \<Longrightarrow> set qs \<subseteq> live f \<and> e \<in> live f \<and> r \<in> live f"
  by (induction rule: chain.induct) auto

lemma chain_above: "chain f r qs e \<Longrightarrow> set qs \<subseteq> above f r \<and> e \<in> above f r"
proof (induction rule: chain.induct)
  case (up r name p qs e)
  then show ?case using above_parent [OF up(1,4)] by auto
qed simp

lemma chain_relock: "chain f r qs e \<Longrightarrow> chain (relock h f) r qs e"
proof (induction rule: chain.induct)
  case (up r name p qs e)
  then show ?case by (intro chain.up [where name = name and p = p]) (simp_all add: nd_relock)
qed (auto intro: chain.stop simp: nd_relock)

lemma chain_malloc: "chain f r qs e \<Longrightarrow> chain (f\<lparr>malloc_no := k\<rparr>) r qs e"
proof (induction rule: chain.induct)
  case (up r name p qs e)
  then show ?case by (intro chain.up [where name = name and p = p]) (simp_all add: live_def)
next
  case (stop r)
  show ?case by (rule chain.stop) (use stop in \<open>simp_all add: live_def\<close>)
qed

lemma chain_unique: "chain f r qs e \<Longrightarrow> chain f r qs' e' \<Longrightarrow> qs' = qs \<and> e' = e"
proof (induction arbitrary: qs' e' rule: chain.induct)
  case (stop r)
  from stop(3) show ?case by cases (use stop in auto)
next
  case (up r name p qs e)
  have "\<exists>qs''. qs' = r # qs'' \<and> chain f p qs'' e'" using up(7)
  proof cases
    case stop
    then show ?thesis using up(2-4) by simp
  next
    case (up name' p' qs'')
    then show ?thesis using \<open>n_parent (nd f r) = Some p\<close> by simp
  qed
  then show ?case using up(6) by blast
qed

lemma chain_distinct:
  assumes "acyclic (parent_rel f)" "chain f r qs e"
  shows "distinct qs \<and> e \<notin> set qs"
  using assms(2)
proof (induction rule: chain.induct)
  case (up r name p qs e)
  have "r \<notin> above f p" by (rule not_above_parent [OF assms(1) up(1,4)])
  then have "r \<notin> set qs" "r \<noteq> e" using chain_above [OF up(5)] by auto
  then show ?case using up by simp
qed simp

lemma chain_exists:
  assumes "tree_at_rest f" "r \<in> live f"
  shows "\<exists>qs e. chain f r qs e"
proof -
  have T: "tables_ok {} f" and L: "links_ok {} f" using assms(1) by (simp_all add: tree_at_rest_def)
  note l = links_okD [OF L]
  have "finite (parent_rel f)"
  proof (rule finite_subset)
    show "parent_rel f \<subseteq> (\<lambda>c. (c, the (n_parent (nd f c)))) ` live f" by (force simp: parent_rel_def)
  qed (use tables_okD(1) [OF T] in simp)
  then have "wf ((parent_rel f)\<inverse>)" using l(6) by (rule finite_acyclic_wf_converse)
  then show ?thesis using assms(2)
  proof (induction r rule: wf_induct_rule)
    case (less r)
    show ?case
    proof (cases "n_nodeid (nd f r) = FUSE_ROOT_ID \<or> n_name (nd f r) = None \<or> n_parent (nd f r) = None")
      case True
      then show ?thesis using chain.stop [OF less.prems] by blast
    next
      case False
      then obtain name p where p: "n_name (nd f r) = Some name" "n_parent (nd f r) = Some p" by auto
      have "r \<in> named f - {}" using in_named [OF less.prems p(2)] by simp
      then have "p \<in> live f" using l(2) p(2) by blast
      then obtain qs e where "chain f p qs e" using less.IH [of p] less.prems p(2) by (auto simp: parent_rel_def)
      then show ?thesis using chain.up [OF less.prems _ p] False by blast
    qed
  qed
qed

definition path_string :: "fuse \<Rightarrow> nat list \<Rightarrow> bytes" where
  "path_string f qs = concat (map (\<lambda>q. SLASH # the (n_name (nd f q))) (rev qs))"

lemma path_string_simps [simp]: "path_string f [] = []"
  "path_string f (q # qs) = path_string f qs @ SLASH # the (n_name (nd f q))"
  by (simp_all add: path_string_def)

section \<open>The loops\<close>

lemma grow_size_ends:
  assumes "0 < b" "need \<le> 0xFFFFFFFF"
  shows "\<exists>b'. grow_size need b = Some b' \<and> need \<le> b'"
  using assms(1)
proof (induction "need - b" arbitrary: b rule: less_induct)
  case less
  show ?case
  proof (cases "b < need")
    case False
    then show ?thesis by (subst grow_size.simps) simp
  next
    case True
    let ?b = "if b \<ge> 0x80000000 then 0xFFFFFFFF else b * 2"
    have "need - ?b < need - b" "0 < ?b" using True less.prems assms(2) by auto
    from less.hyps [OF this] show ?thesis using True by (subst grow_size.simps) simp
  qed
qed

lemma add_name_ends:
  assumes "0 < b" "length s + length name + 2 \<le> 0xFFFFFFFF"
  shows "\<exists>k. (\<exists>b'. 0 < b' \<and> add_name f b s name = Some (Some (b', SLASH # name @ s), f\<lparr>malloc_no := k\<rparr>)) \<or>
    add_name f b s name = Some (None, f\<lparr>malloc_no := k\<rparr>) \<and> (\<exists>k. \<not> mallocs f k)"
proof (cases "b \<le> length s + 1 + length name")
  case True
  have "length s + 1 + length name + 1 \<le> 0xFFFFFFFF" using assms(2) by simp
  then obtain b' where b': "grow_size (length s + 1 + length name + 1) b = Some b'" "length s + 1 + length name + 1 \<le> b'"
    using grow_size_ends [OF assms(1)] by blast
  then have "0 < b'" by simp
  then show ?thesis using True b'(1) by (auto simp: add_name_def Let_def next_malloc_def)
next
  case False
  then have "add_name f b s name = Some (Some (b, SLASH # name @ s), f\<lparr>malloc_no := malloc_no f\<rparr>)"
    by (simp add: add_name_def Let_def)
  then show ?thesis using assms(1) by blast
qed

abbreviation raised :: "nat set \<Rightarrow> nat \<Rightarrow> int \<Rightarrow> int" where
  "raised S q k \<equiv> (if q \<in> S then k + 1 else k)"

abbreviation lowered :: "nat set \<Rightarrow> nat \<Rightarrow> int \<Rightarrow> int" where
  "lowered S q k \<equiv> (if q \<in> S then if k - 1 = TREELOCK_WAIT_OFFSET then 0 else k - 1 else k)"

lemma path_loop_stop:
  assumes "nodes g r \<noteq> None" "n_nodeid (nd g r) = FUSE_ROOT_ID \<or> n_name (nd g r) = None \<or> n_parent (nd g r) = None"
  shows "path_loop g r b s lk = Some (if n_nodeid (nd g r) = FUSE_ROOT_ID then Inr s else Inl (- ESTALE, r), g)"
proof -
  obtain n where n: "nodes g r = Some n" using assms(1) by blast
  show ?thesis using assms(2) n by (subst path_loop.simps) (cases "n_name n"; cases "n_parent n"; simp)
qed

lemma path_loop_up:
  assumes "nodes g r \<noteq> None" "n_nodeid (nd g r) \<noteq> FUSE_ROOT_ID" "n_name (nd g r) = Some name" "n_parent (nd g r) = Some p"
  shows "path_loop g r b s lk =
    (case add_name g b s name of
       None \<Rightarrow> None
     | Some (None, f) \<Rightarrow> Some (Inl (- ENOMEM, r), f)
     | Some (Some (b, s), f) \<Rightarrow>
         if lk then
           if treelock (nd f r) < 0 then Some (Inl (- EAGAIN, r), f)
           else path_loop (upd r (\<lambda>n. n\<lparr>treelock := treelock n + 1\<rparr>) f) p b s lk
         else path_loop f p b s lk)"
proof -
  obtain n where n: "nodes g r = Some n" using assms(1) by blast
  show ?thesis using assms(2-4) n by (subst path_loop.simps) simp
qed

lemma relock_malloc: "relock h (f\<lparr>malloc_no := k\<rparr>) = (relock h f)\<lparr>malloc_no := k\<rparr>"
  by (simp add: relock_def)

lemma raise_one:
  assumes "r \<in> live f" "r \<notin> S"
  shows "upd r (\<lambda>n. n\<lparr>treelock := treelock n + 1\<rparr>) ((relock (raised S) f)\<lparr>malloc_no := k\<rparr>) = (relock (raised (insert r S)) f)\<lparr>malloc_no := k\<rparr>"
proof -
  have l: "r \<in> live ((relock (raised S) f)\<lparr>malloc_no := k\<rparr>)" using assms(1) by (auto simp: live_def relock_def)
  have "upd r (\<lambda>n. n\<lparr>treelock := treelock n + 1\<rparr>) ((relock (raised S) f)\<lparr>malloc_no := k\<rparr>) =
      (relock (\<lambda>q k. if q = r then k + 1 else k) (relock (raised S) f))\<lparr>malloc_no := k\<rparr>"
    using upd_relock [OF l, of "\<lambda>k. k + 1"] unfolding relock_malloc by simp
  also have "relock (\<lambda>q k. if q = r then k + 1 else k) (relock (raised S) f) = relock (raised (insert r S)) f"
    unfolding relock_relock by (rule relock_cong) (use assms(2) in auto)
  finally show ?thesis .
qed

text \<open>What the loop of \<open>try_get_path\<close> does: it passes \<open>j\<close> nodes of the way up, and has locked these.\<close>

definition passed :: "bool \<Rightarrow> nat list \<Rightarrow> nat \<Rightarrow> nat set" where
  "passed lk qs j = (if lk then set (take j qs) else {})"

definition path_result :: "fuse \<Rightarrow> nat list \<Rightarrow> nat \<Rightarrow> bytes \<Rightarrow> bool \<Rightarrow> nat \<Rightarrow> int \<times> nat + bytes \<Rightarrow> bool" where
  "path_result f qs e s lk j res \<longleftrightarrow>
     (\<forall>q \<in> passed lk qs j. 0 \<le> treelock (nd f q)) \<and>
     (j = length qs \<and>
        res = (if n_nodeid (nd f e) = FUSE_ROOT_ID then Inr (path_string f qs @ s) else Inl (- ESTALE, e)) \<or>
      j < length qs \<and> res = Inl (- ENOMEM, qs ! j) \<and> (\<exists>k. \<not> mallocs f k) \<or>
      j < length qs \<and> res = Inl (- EAGAIN, qs ! j) \<and> lk \<and> treelock (nd f (qs ! j)) < 0)"

lemma path_loop_run:
  assumes "chain f r qs e" "distinct qs" "S \<inter> set qs = {}" "0 < b" "length s + length (path_string f qs) + 2 \<le> 0xFFFFFFFF"
  shows "\<exists>j k res. path_result f qs e s lk j res \<and>
    path_loop ((relock (raised S) f)\<lparr>malloc_no := m\<rparr>) r b s lk =
      Some (res, (relock (raised (S \<union> passed lk qs j)) f)\<lparr>malloc_no := k\<rparr>)"
  using assms
proof (induction arbitrary: S b s m rule: chain.induct)
  case (stop r)
  define g where "g = (relock (raised S) f)\<lparr>malloc_no := m\<rparr>"
  have n: "nodes g r \<noteq> None" "nd g r = (nd f r)\<lparr>treelock := raised S r (treelock (nd f r))\<rparr>"
    using stop(1) nd_relock [OF stop(1), of "raised S"] by (auto simp: g_def live_def relock_def)
  have "path_loop g r b s lk = Some (if n_nodeid (nd f r) = FUSE_ROOT_ID then Inr s else Inl (- ESTALE, r), g)"
    using path_loop_stop [OF n(1)] n(2) stop(2) by simp
  moreover have "path_result f [] r s lk 0 (if n_nodeid (nd f r) = FUSE_ROOT_ID then Inr s else Inl (- ESTALE, r))"
    by (simp add: path_result_def passed_def)
  ultimately show ?case unfolding g_def by (intro exI [of _ 0] exI [of _ m]) (auto simp: passed_def)
next
  case (up r name p qs e)
  define g where "g = (relock (raised S) f)\<lparr>malloc_no := m\<rparr>"
  have rS: "r \<notin> S" "r \<notin> set qs" using up.prems(1,2) by simp_all
  have n: "nodes g r \<noteq> None" "nd g r = nd f r"
    using up(1) nd_relock [OF up(1), of "raised S"] rS(1) by (auto simp: g_def live_def relock_def)
  have nn: "n_nodeid (nd g r) \<noteq> FUSE_ROOT_ID" "n_name (nd g r) = Some name" "n_parent (nd g r) = Some p"
    using up(2-4) n(2) by simp_all
  note st = path_loop_up [OF n(1) nn, of b s lk]
  have len: "length s + length name + 2 \<le> 0xFFFFFFFF" "length (SLASH # name @ s) + length (path_string f qs) + 2 \<le> 0xFFFFFFFF"
    using up.prems(4) up(3) by simp_all
  obtain k where a: "(\<exists>b'. 0 < b' \<and> add_name g b s name = Some (Some (b', SLASH # name @ s), g\<lparr>malloc_no := k\<rparr>)) \<or>
    add_name g b s name = Some (None, g\<lparr>malloc_no := k\<rparr>) \<and> (\<exists>k. \<not> mallocs g k)"
    using add_name_ends [OF up.prems(3) len(1), of g] by blast
  have gk: "g\<lparr>malloc_no := k\<rparr> = (relock (raised S) f)\<lparr>malloc_no := k\<rparr>" by (simp add: g_def)
  have ndk: "nd (g\<lparr>malloc_no := k\<rparr>) r = nd f r" using n(2) by simp
  from a show ?case
  proof (elim disjE exE conjE)
    fix k' assume "add_name g b s name = Some (None, g\<lparr>malloc_no := k\<rparr>)" "\<not> mallocs g k'"
    then have "path_loop g r b s lk = Some (Inl (- ENOMEM, r), g\<lparr>malloc_no := k\<rparr>)" using st by simp
    moreover have "path_result f (r # qs) e s lk 0 (Inl (- ENOMEM, r))"
      using \<open>\<not> mallocs g k'\<close> by (auto simp: path_result_def passed_def g_def)
    ultimately show ?thesis unfolding gk unfolding g_def by (intro exI [of _ 0] exI [of _ k]) (auto simp: passed_def)
  next
    fix b' assume b': "0 < b'" and ad: "add_name g b s name = Some (Some (b', SLASH # name @ s), g\<lparr>malloc_no := k\<rparr>)"
    show ?thesis
    proof (cases "lk \<and> treelock (nd f r) < 0")
      case True
      then have "path_loop g r b s lk = Some (Inl (- EAGAIN, r), g\<lparr>malloc_no := k\<rparr>)" using st ad ndk by simp
      moreover have "path_result f (r # qs) e s lk 0 (Inl (- EAGAIN, r))"
        using True by (auto simp: path_result_def passed_def)
      ultimately show ?thesis unfolding gk unfolding g_def by (intro exI [of _ 0] exI [of _ k]) (auto simp: passed_def)
    next
      case False
      define S' where "S' = (if lk then insert r S else S)"
      have e: "path_loop g r b s lk = path_loop ((relock (raised S') f)\<lparr>malloc_no := k\<rparr>) p b' (SLASH # name @ s) lk"
        using st ad ndk False raise_one [OF up(1) rS(1), of k] unfolding gk S'_def by simp
      have dj: "distinct qs" "S' \<inter> set qs = {}" using up.prems(1,2) rS(2) by (auto simp: S'_def)
      obtain j k' res where r: "path_result f qs e (SLASH # name @ s) lk j res"
        "path_loop ((relock (raised S') f)\<lparr>malloc_no := k\<rparr>) p b' (SLASH # name @ s) lk =
          Some (res, (relock (raised (S' \<union> passed lk qs j)) f)\<lparr>malloc_no := k'\<rparr>)"
        using up.IH [OF dj b' len(2), of k] by blast
      have "S' \<union> passed lk qs j = S \<union> passed lk (r # qs) (Suc j)" by (simp add: S'_def passed_def)
      moreover have "path_result f (r # qs) e s lk (Suc j) res"
        using r(1) False up(3) unfolding path_result_def passed_def by auto
      ultimately show ?thesis using r(2) e unfolding g_def by (intro exI [of _ "Suc j"] exI [of _ k'] exI [of _ res]) simp
    qed
  qed
qed

definition can_unlock :: "int \<Rightarrow> bool" where
  "can_unlock k \<longleftrightarrow> k \<noteq> 0 \<and> k \<noteq> TREELOCK_WAIT_OFFSET \<and> k \<noteq> TREELOCK_WRITE"

lemma unlock_loop_stop: "unlock_loop f node node = Some f"
  by (subst unlock_loop.simps) simp

lemma unlock_loop_root: "r \<in> live f \<Longrightarrow> n_nodeid (nd f r) = FUSE_ROOT_ID \<Longrightarrow> unlock_loop f (Some r) till = Some f"
  by (subst unlock_loop.simps) (auto simp: live_def)

lemma unlock_loop_step:
  assumes "r \<in> live f" "till \<noteq> Some r" "n_nodeid (nd f r) \<noteq> FUSE_ROOT_ID" "can_unlock (treelock (nd f r))"
  shows "unlock_loop f (Some r) till = unlock_loop (relock (lowered {r}) f) (n_parent (nd f r)) till"
proof -
  define f1 where "f1 = upd r (\<lambda>n. n\<lparr>treelock := treelock n - 1\<rparr>) f"
  define f2 where "f2 = (if treelock (nd f1 r) = TREELOCK_WAIT_OFFSET then upd r (\<lambda>n. n\<lparr>treelock := 0\<rparr>) f1 else f1)"
  have l: "r \<in> live f1" using assms(1) by (simp add: f1_def)
  have f1: "f1 = relock (\<lambda>q k. if q = r then k - 1 else k) f"
    using upd_relock [OF assms(1), of "\<lambda>k. k - 1"] by (simp add: f1_def)
  have t1: "treelock (nd f1 r) = treelock (nd f r) - 1" "n_parent (nd f2 r) = n_parent (nd f r)"
    using assms(1) by (simp_all add: f1_def f2_def)
  have "f2 = relock (lowered {r}) f"
  proof (cases "treelock (nd f r) - 1 = TREELOCK_WAIT_OFFSET")
    case True
    then have "f2 = relock (\<lambda>q k. if q = r then 0 else k) f1"
      using upd_relock [OF l, of "\<lambda>_. 0"] t1(1) by (simp add: f2_def)
    then have "f2 = relock (\<lambda>q k. if q = r then 0 else if q = r then k - 1 else k) f" unfolding f1 relock_relock .
    also have "\<dots> = relock (lowered {r}) f" by (rule relock_cong) (simp add: True)
    finally show ?thesis .
  next
    case False
    then have "f2 = relock (\<lambda>q k. if q = r then k - 1 else k) f" unfolding f1 [symmetric] by (simp add: f2_def t1(1))
    also have "\<dots> = relock (lowered {r}) f" by (rule relock_cong) (simp add: False)
    finally show ?thesis .
  qed
  moreover have "unlock_loop f (Some r) till = unlock_loop f2 (n_parent (nd f2 r)) till"
  proof -
    have c: "Some r \<noteq> till" "nodes f r \<noteq> None" "\<not> (treelock (nd f r) = 0 \<or> treelock (nd f r) = TREELOCK_WAIT_OFFSET \<or> treelock (nd f r) = TREELOCK_WRITE)"
      using assms not_live_upd [OF assms(1)] by (auto simp: can_unlock_def)
    show ?thesis
      unfolding unlock_loop.simps [of f "Some r" till] option.case if_not_P [OF c(1)] if_not_P [OF c(2)] if_not_P [OF assms(3)]
        if_not_P [OF c(3)] Let_def f2_def f1_def by (rule refl)
  qed
  ultimately show ?thesis using t1(2) by simp
qed

lemma lower_more: "r \<notin> S \<Longrightarrow> relock (lowered S) (relock (lowered {r}) f) = relock (lowered (insert r S)) f"
  unfolding relock_relock by (rule relock_cong) auto

lemma unlock_loop_run:
  assumes "chain f r qs e" "distinct qs" "e \<notin> set qs" "j \<le> length qs" "\<forall>q \<in> set (take j qs). can_unlock (treelock (nd f q))"
    and "till = Some ((qs @ [e]) ! j) \<or> till = None \<and> j = length qs \<and> n_nodeid (nd f e) = FUSE_ROOT_ID"
  shows "unlock_loop f (Some r) till = Some (relock (lowered (set (take j qs))) f)"
  using assms
proof (induction j arbitrary: r qs f)
  case 0
  have "relock (lowered {}) f = f" by (rule relock_id) simp
  moreover have "unlock_loop f (Some r) till = Some f"
  proof (cases "till = Some r")
    case False
    have "till = None \<and> qs = [] \<and> n_nodeid (nd f e) = FUSE_ROOT_ID"
      using 0(1,6) False by (cases qs) (auto elim: chain_NilE chain_ConsE)
    then show ?thesis using 0(1) unlock_loop_root [of r f] by (auto elim: chain_NilE)
  qed (simp add: unlock_loop_stop)
  ultimately show ?case by simp
next
  case (Suc j)
  obtain qs' where qs: "qs = r # qs'" using Suc.prems(1,4) by (cases qs) (auto elim: chain_ConsE)
  obtain name p where u: "r \<in> live f" "n_nodeid (nd f r) \<noteq> FUSE_ROOT_ID" "n_parent (nd f r) = Some p" "chain f p qs' e"
    using Suc.prems(1) unfolding qs by (rule chain_ConsE) blast
  have till: "till = Some ((qs' @ [e]) ! j) \<or> till = None \<and> j = length qs' \<and> n_nodeid (nd f e) = FUSE_ROOT_ID"
    using Suc.prems(6) by (simp add: qs)
  have "(qs' @ [e]) ! j \<in> set qs' \<union> {e}" using Suc.prems(4) nth_mem [of j "qs' @ [e]"] by (simp add: qs)
  then have ne: "till \<noteq> Some r" using till Suc.prems(2,3) by (auto simp: qs)
  let ?g = "relock (lowered {r}) f"
  have el: "e \<in> live f" "set qs' \<subseteq> live f" using chain_live [OF u(4)] by simp_all
  have rq: "r \<notin> set qs'" using Suc.prems(2) by (simp add: qs)
  have same: "nd ?g q = nd f q" if "q \<in> set qs'" for q
  proof -
    have "q \<in> live f" "q \<noteq> r" using that el rq by auto
    then show ?thesis by (simp add: nd_relock)
  qed
  have "unlock_loop f (Some r) till = unlock_loop ?g (Some p) till"
    using unlock_loop_step [OF u(1) ne u(2)] Suc.prems(5) u(3) by (simp add: qs)
  also have "\<dots> = Some (relock (lowered (set (take j qs'))) ?g)"
  proof (rule Suc.IH [OF chain_relock [OF u(4)]])
    show "\<forall>q \<in> set (take j qs'). can_unlock (treelock (nd ?g q))"
    proof
      fix q assume q: "q \<in> set (take j qs')"
      then have "can_unlock (treelock (nd f q))" using Suc.prems(5) by (simp add: qs)
      then show "can_unlock (treelock (nd ?g q))" unfolding same [OF in_set_takeD [OF q]] .
    qed
    show "till = Some ((qs' @ [e]) ! j) \<or> till = None \<and> j = length qs' \<and> n_nodeid (nd ?g e) = FUSE_ROOT_ID"
      using till el(1) by (simp add: nd_relock)
  qed (use Suc.prems(2-4) in \<open>simp_all add: qs\<close>)
  also have "relock (lowered (set (take j qs'))) ?g = relock (lowered (set (take (Suc j) qs))) f"
  proof -
    have "r \<notin> set (take j qs')" using rq by (auto dest: in_set_takeD)
    then show ?thesis using lower_more [of r "set (take j qs')" f] by (simp add: qs)
  qed
  finally show ?case .
qed

section \<open>Getting a path\<close>

lemma search_malloc [simp]: "get_fuse_node (f\<lparr>malloc_no := k\<rparr>) ino = get_fuse_node f ino"
  "lookup_node (f\<lparr>malloc_no := k\<rparr>) dir name = lookup_node f dir name"
  by (simp_all add: get_fuse_node_def get_node_nocheck_def id_hash_def lookup_node_def name_hash_def)

abbreviation marked :: "nat option \<Rightarrow> nat \<Rightarrow> int \<Rightarrow> int" where
  "marked wn q k \<equiv> (if wn = Some q then TREELOCK_WRITE else k)"

abbreviation taken :: "bool \<Rightarrow> nat list \<Rightarrow> nat option \<Rightarrow> nat \<Rightarrow> int \<Rightarrow> int" where
  "taken lk qs wn q k \<equiv> (if lk \<and> q \<in> set qs then k + 1 else marked wn q k)"

definition path_cause :: "fuse \<Rightarrow> nat list \<Rightarrow> nat \<Rightarrow> bool \<Rightarrow> int \<Rightarrow> bool" where
  "path_cause f qs e lk err \<longleftrightarrow>
     err = - ENOMEM \<and> (\<exists>k. \<not> mallocs f k) \<or> err = - ESTALE \<and> n_nodeid (nd f e) \<noteq> FUSE_ROOT_ID \<or>
     err = - EAGAIN \<and> lk \<and> (\<exists>q \<in> set qs. treelock (nd f q) < 0)"

lemma undo_locks:
  assumes "\<And>q. q \<in> T \<Longrightarrow> 0 \<le> treelock (nd f q)" "\<And>w. wn = Some w \<Longrightarrow> w \<notin> T \<and> treelock (nd f w) = 0"
  shows "relock (lowered T) (relock (\<lambda>q k. if wn = Some q then 0 else k) (relock (raised T) (relock (marked wn) f))) = f"
  unfolding relock_relock
proof (rule relock_id)
  fix q
  show "lowered T q (if wn = Some q then 0 else raised T q (marked wn q (treelock (nd f q)))) = treelock (nd f q)"
    using assms(1) [of q] assms(2) [of q] by auto
qed

lemma unmark:
  assumes "w \<in> live f"
  shows "upd w (\<lambda>n. n\<lparr>treelock := 0\<rparr>) (f\<lparr>malloc_no := k\<rparr>) = (relock (\<lambda>q k. if Some w = Some q then 0 else k) f)\<lparr>malloc_no := k\<rparr>"
    "upd w (\<lambda>n. n\<lparr>treelock := TREELOCK_WRITE\<rparr>) (f\<lparr>malloc_no := k\<rparr>) = (relock (marked (Some w)) f)\<lparr>malloc_no := k\<rparr>"
proof -
  have l: "w \<in> live (f\<lparr>malloc_no := k\<rparr>)" using assms by (simp add: live_def)
  show "upd w (\<lambda>n. n\<lparr>treelock := 0\<rparr>) (f\<lparr>malloc_no := k\<rparr>) = (relock (\<lambda>q k. if Some w = Some q then 0 else k) f)\<lparr>malloc_no := k\<rparr>"
    using upd_relock [OF l, of "\<lambda>_. 0"] by (simp add: relock_malloc eq_commute [of w])
  show "upd w (\<lambda>n. n\<lparr>treelock := TREELOCK_WRITE\<rparr>) (f\<lparr>malloc_no := k\<rparr>) = (relock (marked (Some w)) f)\<lparr>malloc_no := k\<rparr>"
    using upd_relock [OF l, of "\<lambda>_. TREELOCK_WRITE"] by (simp add: relock_malloc eq_commute [of w])
qed

lemma unlock_path_run:
  assumes "tree_at_rest f" "get_fuse_node f nodeid = Some r" "chain f r qs e" "j \<le> length qs"
    and "wn = None \<or> (\<exists>w. wn = Some w \<and> w \<in> live f \<and> w \<notin> set qs \<and> treelock (nd f w) = TREELOCK_WRITE)"
    and "\<forall>q \<in> set (take j qs). can_unlock (treelock (nd f q))"
    and "till = Some ((qs @ [e]) ! j) \<or> till = None \<and> j = length qs \<and> n_nodeid (nd f e) = FUSE_ROOT_ID"
  shows "unlock_path (f\<lparr>malloc_no := k\<rparr>) nodeid wn till =
    Some ((relock (lowered (set (take j qs))) (relock (\<lambda>q k. if wn = Some q then 0 else k) f))\<lparr>malloc_no := k\<rparr>)"
proof -
  let ?g = "relock (\<lambda>q k. if wn = Some q then 0 else k) f"
  have ac: "acyclic (parent_rel f)" using assms(1) by (simp add: tree_at_rest_def links_ok_def)
  have lv: "set qs \<subseteq> live f" "e \<in> live f" using chain_live [OF assms(3)] by simp_all
  have st: "(case wn of None \<Rightarrow> Some (f\<lparr>malloc_no := k\<rparr>)
      | Some w \<Rightarrow> if treelock (nd (f\<lparr>malloc_no := k\<rparr>) w) = TREELOCK_WRITE then Some (upd w (\<lambda>n. n\<lparr>treelock := 0\<rparr>) (f\<lparr>malloc_no := k\<rparr>)) else None) =
    Some (?g\<lparr>malloc_no := k\<rparr>)"
  proof (cases wn)
    case None
    then have "?g = f" by (intro relock_id) simp
    then show ?thesis using None by simp
  next
    case (Some w)
    then have w: "w \<in> live f" "treelock (nd (f\<lparr>malloc_no := k\<rparr>) w) = TREELOCK_WRITE" using assms(5) by auto
    show ?thesis unfolding Some option.case if_P [OF w(2)] unmark(1) [OF w(1)] ..
  qed
  have "chain (?g\<lparr>malloc_no := k\<rparr>) r qs e" by (intro chain_malloc chain_relock assms(3))
  moreover have "\<forall>q \<in> set (take j qs). can_unlock (treelock (nd (?g\<lparr>malloc_no := k\<rparr>) q))"
  proof
    fix q assume q: "q \<in> set (take j qs)"
    then have "q \<in> set qs" by (rule in_set_takeD)
    then have "nd ?g q = nd f q" using lv(1) assms(5) nd_relock [of q f] by auto
    then show "can_unlock (treelock (nd (?g\<lparr>malloc_no := k\<rparr>) q))" using assms(6) q by simp
  qed
  moreover have "till = Some ((qs @ [e]) ! j) \<or> till = None \<and> j = length qs \<and> n_nodeid (nd (?g\<lparr>malloc_no := k\<rparr>) e) = FUSE_ROOT_ID"
    using assms(7) lv(2) by (simp add: nd_relock)
  ultimately have "unlock_loop (?g\<lparr>malloc_no := k\<rparr>) (Some r) till = Some (relock (lowered (set (take j qs))) (?g\<lparr>malloc_no := k\<rparr>))"
    using chain_distinct [OF ac assms(3)] assms(4) by (intro unlock_loop_run) simp_all
  moreover have "get_fuse_node (?g\<lparr>malloc_no := k\<rparr>) nodeid = Some r" using relock_searches(1) [OF assms(1)] assms(2) by simp
  ultimately show ?thesis unfolding unlock_path_def st by (simp add: relock_malloc)
qed

lemma path_up_run:
  assumes "tree_at_rest f" "get_fuse_node f nodeid = Some r" "chain f r qs e" "0 < b"
    and "length s + length (path_string f qs) + 2 \<le> 0xFFFFFFFF"
    and "wn = None \<or> lk \<and> (\<exists>w. wn = Some w \<and> w \<in> live f \<and> w \<notin> set qs \<and> treelock (nd f w) = 0)"
  shows "\<exists>k. (path_up ((relock (marked wn) f)\<lparr>malloc_no := m\<rparr>) nodeid b s wn lk =
        Some (Inr (if path_string f qs @ s = [] then [SLASH] else path_string f qs @ s, wn), (relock (taken lk qs wn) f)\<lparr>malloc_no := k\<rparr>) \<and>
      n_nodeid (nd f e) = FUSE_ROOT_ID \<and> (lk \<longrightarrow> (\<forall>q \<in> set qs. 0 \<le> treelock (nd f q)))) \<or>
    (\<exists>err. path_up ((relock (marked wn) f)\<lparr>malloc_no := m\<rparr>) nodeid b s wn lk = Some (Inl err, f\<lparr>malloc_no := k\<rparr>) \<and> path_cause f qs e lk err)"
proof -
  let ?f = "relock (marked wn) f"
  have rest: "tree_at_rest ?f" by (rule relock_rest [OF assms(1)])
  have ac: "acyclic (parent_rel f)" using assms(1) by (simp add: tree_at_rest_def links_ok_def)
  have lv: "set qs \<subseteq> live f" "e \<in> live f" using chain_live [OF assms(3)] by simp_all
  note d = chain_distinct [OF ac assms(3)]
  have ch: "chain ?f r qs e" by (rule chain_relock [OF assms(3)])
  have same: "nd ?f q = nd f q" if "q \<in> set qs" for q
    using that lv(1) assms(6) nd_relock [of q f "marked wn"] by auto
  have ps: "path_string ?f qs = path_string f qs"
    unfolding path_string_def by (intro arg_cong [where f = concat] map_cong refl) (simp add: same)
  have et: "n_nodeid (nd ?f e) = n_nodeid (nd f e)" using lv(2) by (simp add: nd_relock)
  have r0: "relock (raised {}) ?f = ?f" by (rule relock_id) simp
  have dq: "distinct qs" "{} \<inter> set qs = {}" using d by simp_all
  have len: "length s + length (path_string ?f qs) + 2 \<le> 0xFFFFFFFF" using assms(5) ps by simp
  obtain j k res where res: "path_result ?f qs e s lk j res"
    "path_loop (?f\<lparr>malloc_no := m\<rparr>) r b s lk = Some (res, (relock (raised (passed lk qs j)) ?f)\<lparr>malloc_no := k\<rparr>)"
    using path_loop_run [OF ch dq assms(4) len, of lk m, unfolded r0] by (auto simp only: Un_empty_left)
  have g: "get_fuse_node (?f\<lparr>malloc_no := m\<rparr>) nodeid = Some r" using relock_searches(1) [OF assms(1)] assms(2) by simp
  have pos: "0 \<le> treelock (nd f q)" if "q \<in> passed lk qs j" for q
  proof -
    have "q \<in> set qs" using that by (auto simp: passed_def dest: in_set_takeD split: if_splits)
    then show ?thesis using res(1) same that by (auto simp: path_result_def)
  qed
  have jl: "j \<le> length qs" using res(1) by (auto simp: path_result_def)
  show ?thesis
  proof (cases "j = length qs \<and> n_nodeid (nd f e) = FUSE_ROOT_ID")
    case True
    then have "res = Inr (path_string f qs @ s)" using res(1) et ps by (simp add: path_result_def)
    moreover have "relock (raised (passed lk qs j)) ?f = relock (taken lk qs wn) f"
      unfolding relock_relock
    proof (rule relock_cong)
      fix q
      show "raised (passed lk qs j) q (marked wn q (treelock (nd f q))) = taken lk qs wn q (treelock (nd f q))"
        using True assms(6) by (auto simp: passed_def)
    qed
    ultimately have "path_up (?f\<lparr>malloc_no := m\<rparr>) nodeid b s wn lk =
        Some (Inr (if path_string f qs @ s = [] then [SLASH] else path_string f qs @ s, wn), (relock (taken lk qs wn) f)\<lparr>malloc_no := k\<rparr>)"
      unfolding path_up_def g option.case res(2) prod.case by simp
    moreover have "\<forall>q \<in> set qs. lk \<longrightarrow> 0 \<le> treelock (nd f q)" using pos True by (auto simp: passed_def)
    ultimately show ?thesis using True by blast
  next
    case False
    define stop where "stop = (qs @ [e]) ! j"
    have c: "\<exists>err. res = Inl (err, stop) \<and> path_cause f qs e lk err"
    proof -
      consider "j = length qs" "res = Inl (- ESTALE, e)" "n_nodeid (nd f e) \<noteq> FUSE_ROOT_ID"
        | "j < length qs" "res = Inl (- ENOMEM, qs ! j)" "\<exists>k. \<not> mallocs f k"
        | "j < length qs" "res = Inl (- EAGAIN, qs ! j)" "lk" "treelock (nd ?f (qs ! j)) < 0"
        using res(1) False et unfolding path_result_def by auto
      then show ?thesis
      proof cases
        case 3
        then have "qs ! j \<in> set qs" by simp
        then have "\<exists>q \<in> set qs. treelock (nd f q) < 0" using 3(4) same by (metis (no_types))
        then show ?thesis using 3 by (simp add: path_cause_def stop_def nth_append)
      qed (simp_all add: path_cause_def stop_def nth_append)
    qed
    then obtain err where err: "res = Inl (err, stop)" "path_cause f qs e lk err" by blast
    have "path_up (?f\<lparr>malloc_no := m\<rparr>) nodeid b s wn lk = Some (Inl err, f\<lparr>malloc_no := k\<rparr>)"
    proof (cases lk)
      case False
      then have "?f = f" using assms(6) by (intro relock_id) simp
      moreover have "relock (raised (passed lk qs j)) ?f = ?f" by (rule relock_id) (simp add: passed_def False)
      ultimately show ?thesis unfolding path_up_def g option.case res(2) prod.case err using False by simp
    next
      case True
      let ?g = "relock (raised (passed lk qs j)) ?f"
      have pt: "passed lk qs j = set (take j qs)" using True by (simp add: passed_def)
      have "unlock_path (?g\<lparr>malloc_no := k\<rparr>) nodeid wn (Some stop) =
        Some ((relock (lowered (set (take j qs))) (relock (\<lambda>q k. if wn = Some q then 0 else k) ?g))\<lparr>malloc_no := k\<rparr>)"
      proof (rule unlock_path_run [OF relock_rest [OF rest] _ chain_relock [OF ch] jl])
        show "get_fuse_node ?g nodeid = Some r" using relock_searches(1) [OF rest] g by simp
        show "wn = None \<or> (\<exists>w. wn = Some w \<and> w \<in> live ?g \<and> w \<notin> set qs \<and> treelock (nd ?g w) = TREELOCK_WRITE)"
        proof (cases wn)
          case (Some w)
          then have w: "w \<in> live f" "w \<notin> set qs" using assms(6) by auto
          then have "w \<notin> set (take j qs)" by (auto dest: in_set_takeD)
          then have "treelock (nd ?g w) = TREELOCK_WRITE" using w(1) Some by (simp add: nd_relock pt)
          then show ?thesis using w Some by simp
        qed simp
        show "\<forall>q \<in> set (take j qs). can_unlock (treelock (nd ?g q))"
        proof
          fix q assume q: "q \<in> set (take j qs)"
          then have "q \<in> live ?f" using lv(1) by (auto dest: in_set_takeD)
          then have "treelock (nd ?g q) = treelock (nd f q) + 1" using q same [OF in_set_takeD [OF q]] by (simp add: nd_relock pt)
          then show "can_unlock (treelock (nd ?g q))" using pos [of q] q by (simp add: can_unlock_def pt)
        qed
      qed (simp add: stop_def)
      also have "relock (lowered (set (take j qs))) (relock (\<lambda>q k. if wn = Some q then 0 else k) ?g) = f"
        unfolding pt
      proof (rule undo_locks)
        show "0 \<le> treelock (nd f q)" if "q \<in> set (take j qs)" for q using pos that pt by simp
        show "w \<notin> set (take j qs) \<and> treelock (nd f w) = 0" if "wn = Some w" for w
          using assms(6) that by (auto dest: in_set_takeD)
      qed
      finally show ?thesis unfolding path_up_def g option.case res(2) prod.case err(1) using True by simp
    qed
    then show ?thesis using err(2) by blast
  qed
qed

abbreviation name_part :: "bytes option \<Rightarrow> bytes" where
  "name_part name \<equiv> (case name of None \<Rightarrow> [] | Some n \<Rightarrow> SLASH # n)"

definition full_path :: "fuse \<Rightarrow> nat list \<Rightarrow> bytes option \<Rightarrow> bytes" where
  "full_path f qs name = (let p = path_string f qs @ name_part name in if p = [] then [SLASH] else p)"

abbreviation waiting :: "nat \<Rightarrow> nat \<Rightarrow> int \<Rightarrow> int" where
  "waiting w q t \<equiv> (if q = w \<and> t > 0 then t + TREELOCK_WAIT_OFFSET else t)"

lemma child_off_chain:
  assumes "tree_at_rest f" "r \<in> live f" "n_nodeid (nd f r) = ino" "chain f r qs e" "lookup_node f ino name = Some w"
  shows "w \<in> live f" "w \<notin> set qs" "n_parent (nd f w) = Some r" "n_name (nd f w) = Some name"
proof -
  have T: "tables_ok {} f" and L: "links_ok {} f" using assms(1) by (simp_all add: tree_at_rest_def)
  have w: "w \<in> named f" "parent_id f w = ino" "n_name (nd f w) = Some name" using assms(5) lookup_node_iff [OF assms(1)] by simp_all
  then obtain p where p: "w \<in> live f" "n_parent (nd f w) = Some p" using namedD by blast
  have "p \<in> live f" using links_okD(2) [OF L, of w p] w(1) p(2) by simp
  then have "p = r" using inj_onD [OF tables_okD(7) [OF T], of p r] p(2) w(2) assms(2,3) by simp
  then show r: "n_parent (nd f w) = Some r" using p(2) by simp
  show "w \<in> live f" "n_name (nd f w) = Some name" using p(1) w(3) by simp_all
  have "w \<notin> above f r" by (rule not_above_parent [OF links_okD(6) [OF L] p(1) r])
  then show "w \<notin> set qs" using chain_above [OF assms(4)] by blast
qed

lemma try_get_path_run:
  assumes "tree_at_rest f" "r \<in> live f" "n_nodeid (nd f r) = ino" "chain f r qs e"
    and "length (path_string f qs) + length (name_part name) + 2 \<le> 0xFFFFFFFF" "wr \<longrightarrow> lk \<and> name \<noteq> None"
    and "wn = (if wr then lookup_node f ino (the name) else None)"
  shows "\<exists>k. (try_get_path f ino name wr lk = Some (Inr (full_path f qs name, wn), (relock (taken lk qs wn) f)\<lparr>malloc_no := k\<rparr>) \<and>
      n_nodeid (nd f e) = FUSE_ROOT_ID \<and> (lk \<longrightarrow> (\<forall>q \<in> set qs. 0 \<le> treelock (nd f q))) \<and> (\<forall>w. wn = Some w \<longrightarrow> treelock (nd f w) = 0)) \<or>
    (\<exists>err. try_get_path f ino name wr lk = Some (Inl err, f\<lparr>malloc_no := k\<rparr>) \<and> path_cause f qs e lk err) \<or>
    (\<exists>w. wn = Some w \<and> treelock (nd f w) \<noteq> 0 \<and>
      try_get_path f ino name wr lk = Some (Inl (- EAGAIN), (relock (waiting w) f)\<lparr>malloc_no := k\<rparr>))"
proof (cases "mallocs f (malloc_no f)")
  case False
  then have "try_get_path f ino name wr lk = Some (Inl (- ENOMEM), f\<lparr>malloc_no := Suc (malloc_no f)\<rparr>)"
    by (simp add: try_get_path_def next_malloc_def Let_def)
  moreover have "path_cause f qs e lk (- ENOMEM)" using False by (auto simp: path_cause_def)
  ultimately show ?thesis by blast
next
  case True
  define f0 where "f0 = f\<lparr>malloc_no := Suc (malloc_no f)\<rparr>"
  have g: "get_fuse_node f ino = Some r" using get_node_iff [of f ino r] assms(1-3) by (simp add: tree_at_rest_def)
  define start where "start = (case name of None \<Rightarrow> Some (Some (256, []), f0) | Some name \<Rightarrow> add_name f0 256 [] name)"
  have st: "try_get_path f ino name wr lk = (case start of
           None \<Rightarrow> None
         | Some (None, f) \<Rightarrow> Some (Inl (- ENOMEM), f)
         | Some (Some (bufsize, s), f) \<Rightarrow>
             if wr then
               if lk \<and> name \<noteq> None then
                 (case lookup_node f ino (the name) of
                    None \<Rightarrow> path_up f ino bufsize s None lk
                  | Some w \<Rightarrow>
                      if treelock (nd f w) \<noteq> 0 then
                        Some (Inl (- EAGAIN),
                          if treelock (nd f w) > 0 then upd w (\<lambda>n. n\<lparr>treelock := treelock n + TREELOCK_WAIT_OFFSET\<rparr>) f else f)
                      else path_up (upd w (\<lambda>n. n\<lparr>treelock := TREELOCK_WRITE\<rparr>) f) ino bufsize s (Some w) lk)
               else None
             else path_up f ino bufsize s None lk)"
    unfolding try_get_path_def next_malloc_def Let_def prod.case start_def f0_def using True by (simp only: simp_thms if_False)
  have "\<exists>k. (\<exists>b. 0 < b \<and> start = Some (Some (b, name_part name), f\<lparr>malloc_no := k\<rparr>)) \<or>
    start = Some (None, f\<lparr>malloc_no := k\<rparr>) \<and> (\<exists>k. \<not> mallocs f k)"
  proof (cases name)
    case None
    then show ?thesis by (intro exI [of _ "Suc (malloc_no f)"]) (simp add: start_def f0_def)
  next
    case (Some n)
    have "length ([] :: bytes) + length n + 2 \<le> 0xFFFFFFFF" using assms(5) Some by simp
    from add_name_ends [OF _ this, of 256 f0] show ?thesis by (auto simp: start_def Some f0_def)
  qed
  then obtain m where m: "(\<exists>b. 0 < b \<and> start = Some (Some (b, name_part name), f\<lparr>malloc_no := m\<rparr>)) \<or>
    start = Some (None, f\<lparr>malloc_no := m\<rparr>) \<and> (\<exists>k. \<not> mallocs f k)" by blast
  then show ?thesis
  proof (elim disjE exE conjE)
    fix k assume "start = Some (None, f\<lparr>malloc_no := m\<rparr>)" "\<not> mallocs f k"
    then have "try_get_path f ino name wr lk = Some (Inl (- ENOMEM), f\<lparr>malloc_no := m\<rparr>)" "path_cause f qs e lk (- ENOMEM)"
      using st by (auto simp: path_cause_def)
    then show ?thesis by blast
  next
    fix b assume b: "0 < b" and s: "start = Some (Some (b, name_part name), f\<lparr>malloc_no := m\<rparr>)"
    have len: "length (name_part name) + length (path_string f qs) + 2 \<le> 0xFFFFFFFF" using assms(5) by linarith
    have off: "w \<in> live f \<and> w \<notin> set qs" if "wn = Some w" for w
      using child_off_chain [OF assms(1-4), of "the name" w] that assms(7) by (auto split: if_splits)
    show ?thesis
    proof (cases "\<exists>w. wn = Some w \<and> treelock (nd f w) \<noteq> 0")
      case True
      then obtain w where w: "wn = Some w" "treelock (nd f w) \<noteq> 0" by blast
      have l: "w \<in> live (f\<lparr>malloc_no := m\<rparr>)" using off [OF w(1)] by (simp add: live_def)
      have "try_get_path f ino name wr lk = Some (Inl (- EAGAIN), if treelock (nd f w) > 0
          then upd w (\<lambda>n. n\<lparr>treelock := treelock n + TREELOCK_WAIT_OFFSET\<rparr>) (f\<lparr>malloc_no := m\<rparr>) else f\<lparr>malloc_no := m\<rparr>)"
        using st s w assms(6,7) by (simp split: if_splits)
      also have "(if treelock (nd f w) > 0 then upd w (\<lambda>n. n\<lparr>treelock := treelock n + TREELOCK_WAIT_OFFSET\<rparr>) (f\<lparr>malloc_no := m\<rparr>)
          else f\<lparr>malloc_no := m\<rparr>) = (relock (waiting w) f)\<lparr>malloc_no := m\<rparr>"
      proof (cases "treelock (nd f w) > 0")
        case True
        have "upd w (\<lambda>n. n\<lparr>treelock := treelock n + TREELOCK_WAIT_OFFSET\<rparr>) (f\<lparr>malloc_no := m\<rparr>) =
            relock (\<lambda>q k. if q = w then k + TREELOCK_WAIT_OFFSET else k) (f\<lparr>malloc_no := m\<rparr>)"
          using upd_relock [OF l, of "\<lambda>k. k + TREELOCK_WAIT_OFFSET"] by simp
        also have "\<dots> = (relock (\<lambda>q k. if q = w then k + TREELOCK_WAIT_OFFSET else k) f)\<lparr>malloc_no := m\<rparr>" by (rule relock_malloc)
        also have "relock (\<lambda>q k. if q = w then k + TREELOCK_WAIT_OFFSET else k) f = relock (waiting w) f"
          by (rule relock_cong) (use True in auto)
        finally show ?thesis using True by simp
      next
        case False
        have "relock (waiting w) f = f" by (rule relock_id) (use False in auto)
        then show ?thesis using False by simp
      qed
      finally show ?thesis using w by blast
    next
      case False
      have e: "try_get_path f ino name wr lk = path_up ((relock (marked wn) f)\<lparr>malloc_no := m\<rparr>) ino b (name_part name) wn lk"
      proof (cases wn)
        case None
        then have "relock (marked wn) f = f" by (intro relock_id) simp
        then show ?thesis using st s None assms(6,7) by (auto split: if_splits)
      next
        case (Some w)
        have "wr" "lookup_node f ino (the name) = Some w" using Some assms(7) by (simp_all split: if_splits)
        then have "try_get_path f ino name wr lk = path_up (upd w (\<lambda>n. n\<lparr>treelock := TREELOCK_WRITE\<rparr>) (f\<lparr>malloc_no := m\<rparr>)) ino b (name_part name) (Some w) lk"
          using st s False Some assms(6) by simp
        then show ?thesis unfolding unmark(2) [OF off [OF Some, THEN conjunct1]] Some .
      qed
      have w: "wn = None \<or> lk \<and> (\<exists>w. wn = Some w \<and> w \<in> live f \<and> w \<notin> set qs \<and> treelock (nd f w) = 0)"
        using off False assms(6,7) by (cases wn) (auto split: if_splits)
      show ?thesis
        using path_up_run [OF assms(1) g assms(4) b len w, of m] False unfolding e full_path_def Let_def by blast
    qed
  qed
qed

end
