(* ===== verification/Fuse_Path_Locks.thy ===== *)
theory Fuse_Path_Locks
  imports Fuse_Paths
begin

text \<open>
  Paths of nodes lead back to the node, and what the locks of \<^verbatim>\<open>lib/fuse.c\<close> keep apart: in
  any sequence of paths locked and freed, on nodes that keep their names meanwhile, \<open>treelock\<close> counts the
  readers or marks the one writer of a node (\<open>locks_inv\<close>).
\<close>

section \<open>Paths lead back\<close>

definition plain_name :: "bytes \<Rightarrow> bool" where
  "plain_name n \<longleftrightarrow> n \<noteq> [] \<and> SLASH \<notin> set n"

lemma path_elements_Nil: "path_elements [] = []"
  by (simp add: path_elements.simps)

lemma take_drop_plain:
  assumes "SLASH \<notin> set n" "rest = [] \<or> (\<exists>xs. rest = SLASH # xs)"
  shows "takeWhile (\<lambda>c. c \<noteq> SLASH) (n @ rest) = n" "dropWhile (\<lambda>c. c \<noteq> SLASH) (n @ rest) = rest"
proof -
  have n: "\<And>c. c \<in> set n \<Longrightarrow> c \<noteq> SLASH" using assms(1) by metis
  show "takeWhile (\<lambda>c. c \<noteq> SLASH) (n @ rest) = n"
    using takeWhile_append2 [of n "\<lambda>c. c \<noteq> SLASH" rest] n assms(2) by auto
  show "dropWhile (\<lambda>c. c \<noteq> SLASH) (n @ rest) = rest"
    using dropWhile_append2 [of n "\<lambda>c. c \<noteq> SLASH" rest] n assms(2) by auto
qed

lemma path_elements_Cons:
  assumes "plain_name n" "rest = [] \<or> (\<exists>xs. rest = SLASH # xs)"
  shows "path_elements (SLASH # n @ rest) = n # path_elements rest"
proof -
  obtain a xs where n: "n = a # xs" "a \<noteq> SLASH" using assms(1) by (cases n) (auto simp: plain_name_def)
  have d: "dropWhile (\<lambda>c. c = SLASH) (SLASH # n @ rest) = n @ rest" using n by simp
  have s: "SLASH \<notin> set n" using assms(1) by (simp add: plain_name_def)
  show ?thesis
    unfolding path_elements.simps [of "SLASH # n @ rest"] Let_def d take_drop_plain [OF s assms(2)] using n(1) by simp
qed

lemma path_elements_join:
  "\<forall>n \<in> set ns. plain_name n \<Longrightarrow> path_elements (concat (map ((#) SLASH) ns)) = ns"
proof (induction ns)
  case (Cons n ns)
  have "concat (map ((#) SLASH) ns) = [] \<or> (\<exists>xs. concat (map ((#) SLASH) ns) = SLASH # xs)" by (cases ns) auto
  then show ?case using path_elements_Cons [of n "concat (map ((#) SLASH) ns)"] Cons by simp
qed (simp add: path_elements_Nil)

lemma follow_append: "follow f i (xs @ ys) = (case follow f i xs of None \<Rightarrow> None | Some j \<Rightarrow> follow f j ys)"
  by (induction xs arbitrary: i) (auto split: option.splits)

lemma follow_chain:
  assumes "tree_at_rest f" "chain f r qs e" "n_nodeid (nd f e) = FUSE_ROOT_ID"
  shows "follow f FUSE_ROOT_ID (map (\<lambda>q. the (n_name (nd f q))) (rev qs)) = Some (n_nodeid (nd f r))"
  using assms(2,3)
proof (induction rule: chain.induct)
  case (up r name p qs e)
  have "r \<in> named f" by (rule in_named [OF up(1,4)])
  then have "lookup_node f (n_nodeid (nd f p)) name = Some r" using lookup_node_iff [OF assms(1)] up(3,4) by simp
  then show ?case using up by (simp add: follow_append)
qed simp

lemma full_path_elements:
  assumes "\<forall>q \<in> set qs. plain_name (the (n_name (nd f q)))" "\<forall>n. name = Some n \<longrightarrow> plain_name n"
  shows "path_elements (full_path f qs name) = map (\<lambda>q. the (n_name (nd f q))) (rev qs) @ (case name of None \<Rightarrow> [] | Some n \<Rightarrow> [n])"
proof -
  let ?ns = "map (\<lambda>q. the (n_name (nd f q))) (rev qs) @ (case name of None \<Rightarrow> [] | Some n \<Rightarrow> [n])"
  have c: "concat (map ((#) SLASH) ?ns) = path_string f qs @ name_part name"
    by (simp add: path_string_def o_def split: option.splits)
  have p: "\<forall>n \<in> set ?ns. plain_name n" using assms by (auto split: option.splits)
  show ?thesis
  proof (cases "?ns = []")
    case True
    then have "full_path f qs name = [SLASH]" using c unfolding full_path_def Let_def by simp
    moreover have "path_elements [SLASH] = []" by (simp add: path_elements.simps)
    ultimately show ?thesis using True by simp
  next
    case False
    then have "concat (map ((#) SLASH) ?ns) \<noteq> []" by (cases ?ns) auto
    then have "path_string f qs @ name_part name \<noteq> []" unfolding c .
    then have "full_path f qs name = concat (map ((#) SLASH) ?ns)" unfolding c full_path_def Let_def by (rule if_not_P)
    then show ?thesis using path_elements_join [OF p] by simp
  qed
qed

section \<open>Holders of locks\<close>

text \<open>\<open>hs\<close> are the paths locked at a time, each with the node locked for writing, if any.\<close>

definition covers :: "fuse \<Rightarrow> u64 \<times> nat option \<Rightarrow> nat \<Rightarrow> bool" where
  "covers f h q \<longleftrightarrow> (\<exists>r qs e. get_fuse_node f (fst h) = Some r \<and> chain f r qs e \<and> q \<in> set qs)"

definition readers :: "fuse \<Rightarrow> (u64 \<times> nat option) list \<Rightarrow> nat \<Rightarrow> nat" where
  "readers f hs q = length (filter (\<lambda>h. covers f h q) hs)"

definition writers :: "(u64 \<times> nat option) list \<Rightarrow> nat \<Rightarrow> nat" where
  "writers hs q = length (filter (\<lambda>h. snd h = Some q) hs)"

definition lock_value :: "nat \<Rightarrow> nat \<Rightarrow> int \<Rightarrow> bool" where
  "lock_value rs ws t \<longleftrightarrow>
     ws = 0 \<and> (t = int rs \<or> 0 < rs \<and> t = int rs + TREELOCK_WAIT_OFFSET) \<or> ws = 1 \<and> rs = 0 \<and> t = TREELOCK_WRITE"

definition locks_inv :: "fuse \<Rightarrow> fuse \<Rightarrow> (u64 \<times> nat option) list \<Rightarrow> bool" where
  "locks_inv f0 f hs \<longleftrightarrow>
     (\<exists>t k. f = (relock (\<lambda>q _. t q) f0)\<lparr>malloc_no := k\<rparr> \<and> (\<forall>q \<in> live f0. lock_value (readers f0 hs q) (writers hs q) (t q))) \<and>
     length hs < 2 ^ 31 - 1 \<and>
     (\<forall>h \<in> set hs. \<exists>r qs e. get_fuse_node f0 (fst h) = Some r \<and> chain f0 r qs e \<and> n_nodeid (nd f0 e) = FUSE_ROOT_ID \<and>
        (\<forall>w. snd h = Some w \<longrightarrow> w \<in> live f0 \<and> w \<notin> set qs))"

text \<open>Paths are shorter than the largest buffer.\<close>

definition path_fits :: "fuse \<Rightarrow> u64 \<Rightarrow> bytes option \<Rightarrow> bool" where
  "path_fits f ino name \<longleftrightarrow>
     (\<forall>r qs e. get_fuse_node f ino = Some r \<longrightarrow> chain f r qs e \<longrightarrow> length (path_string f qs) + length (name_part name) + 2 \<le> 0xFFFFFFFF)"

inductive lock_run :: "fuse \<Rightarrow> fuse \<Rightarrow> (u64 \<times> nat option) list \<Rightarrow> bool" for f0 where
  start: "lock_run f0 f0 []"
| get: "lock_run f0 f hs \<Longrightarrow> Suc (length hs) < 2 ^ 31 - 1 \<Longrightarrow> get_fuse_node f ino \<noteq> None \<Longrightarrow> path_fits f ino name \<Longrightarrow> (wr \<longrightarrow> name \<noteq> None) \<Longrightarrow>
    try_get_path f ino name wr True = Some (Inr (path, w), f') \<Longrightarrow> lock_run f0 f' ((ino, w) # hs)"
| fail: "lock_run f0 f hs \<Longrightarrow> get_fuse_node f ino \<noteq> None \<Longrightarrow> path_fits f ino name \<Longrightarrow> (wr \<longrightarrow> name \<noteq> None) \<Longrightarrow>
    try_get_path f ino name wr True = Some (Inl err, f') \<Longrightarrow> lock_run f0 f' hs"
| free: "lock_run f0 f hs \<Longrightarrow> (ino, w) \<in> set hs \<Longrightarrow> unlock_path f ino w None = Some f' \<Longrightarrow> lock_run f0 f' (remove1 (ino, w) hs)"


lemma try_get_path_cases:
  assumes "tree_at_rest f" "get_fuse_node f ino = Some r" "chain f r qs e" "path_fits f ino name" "wr \<longrightarrow> name \<noteq> None"
    and "try_get_path f ino name wr True = Some (res, f')"
  shows "(\<exists>wn k. wn = (if wr then lookup_node f ino (the name) else None) \<and> res = Inr (full_path f qs name, wn) \<and>
      f' = (relock (taken True qs wn) f)\<lparr>malloc_no := k\<rparr> \<and> n_nodeid (nd f e) = FUSE_ROOT_ID \<and>
      (\<forall>q \<in> set qs. 0 \<le> treelock (nd f q)) \<and> (\<forall>w. wn = Some w \<longrightarrow> w \<in> live f \<and> w \<notin> set qs \<and> treelock (nd f w) = 0)) \<or>
    (\<exists>err k. res = Inl err \<and> path_cause f qs e True err \<and> f' = f\<lparr>malloc_no := k\<rparr>) \<or>
    (\<exists>w k. w \<in> live f \<and> treelock (nd f w) \<noteq> 0 \<and> res = Inl (- EAGAIN) \<and> wr \<and> lookup_node f ino (the name) = Some w \<and>
      f' = (relock (waiting w) f)\<lparr>malloc_no := k\<rparr>)"
proof -
  define wn where "wn = (if wr then lookup_node f ino (the name) else None)"
  have r: "r \<in> live f" "n_nodeid (nd f r) = ino" using get_node_iff [of f ino r] assms(1,2) by (simp_all add: tree_at_rest_def)
  have len: "length (path_string f qs) + length (name_part name) + 2 \<le> 0xFFFFFFFF"
    using assms(2-4) unfolding path_fits_def by blast
  have off: "w \<in> live f \<and> w \<notin> set qs" if "wn = Some w" for w
    using child_off_chain [OF assms(1) r assms(3), of "the name" w] that wn_def by (auto split: if_splits)
  have cond: "wr \<longrightarrow> True \<and> name \<noteq> None" using assms(5) by simp
  obtain k where "(try_get_path f ino name wr True = Some (Inr (full_path f qs name, wn), (relock (taken True qs wn) f)\<lparr>malloc_no := k\<rparr>) \<and>
      n_nodeid (nd f e) = FUSE_ROOT_ID \<and> (True \<longrightarrow> (\<forall>q \<in> set qs. 0 \<le> treelock (nd f q))) \<and> (\<forall>w. wn = Some w \<longrightarrow> treelock (nd f w) = 0)) \<or>
    (\<exists>err. try_get_path f ino name wr True = Some (Inl err, f\<lparr>malloc_no := k\<rparr>) \<and> path_cause f qs e True err) \<or>
    (\<exists>w. wn = Some w \<and> treelock (nd f w) \<noteq> 0 \<and>
      try_get_path f ino name wr True = Some (Inl (- EAGAIN), (relock (waiting w) f)\<lparr>malloc_no := k\<rparr>))"
    using try_get_path_run [OF assms(1) r assms(3) len cond wn_def] by (elim exE) (rule that)
  then show ?thesis
  proof (elim disjE exE conjE)
    assume "try_get_path f ino name wr True = Some (Inr (full_path f qs name, wn), (relock (taken True qs wn) f)\<lparr>malloc_no := k\<rparr>)"
      "n_nodeid (nd f e) = FUSE_ROOT_ID" "True \<longrightarrow> (\<forall>q \<in> set qs. 0 \<le> treelock (nd f q))" "\<forall>w. wn = Some w \<longrightarrow> treelock (nd f w) = 0"
    then show ?thesis using assms(6) off wn_def by (intro disjI1 exI [of _ wn] exI [of _ k]) simp
  next
    fix err assume "try_get_path f ino name wr True = Some (Inl err, f\<lparr>malloc_no := k\<rparr>)" "path_cause f qs e True err"
    then show ?thesis using assms(6) by (intro disjI2 disjI1 exI [of _ err] exI [of _ k]) simp
  next
    fix w assume w: "wn = Some w" "treelock (nd f w) \<noteq> 0"
      "try_get_path f ino name wr True = Some (Inl (- EAGAIN), (relock (waiting w) f)\<lparr>malloc_no := k\<rparr>)"
    then have "wr" "lookup_node f ino (the name) = Some w" using wn_def by (simp_all split: if_splits)
    then show ?thesis using assms(6) w off [OF w(1)] by (intro disjI2 exI [of _ w] exI [of _ k]) simp
  qed
qed

lemma rest_malloc [simp]: "tree_at_rest (f\<lparr>malloc_no := k\<rparr>) = tree_at_rest f"
  by (simp add: tree_at_rest_def tables_ok_def links_ok_def live_def named_def parent_rel_def)

lemma live_malloc [simp]: "live (f\<lparr>malloc_no := k\<rparr>) = live f"
  by (simp add: live_def)

lemma relocked_views:
  assumes "tree_at_rest f0" "f = (relock h f0)\<lparr>malloc_no := k\<rparr>"
  shows "tree_at_rest f" "get_fuse_node f ino = get_fuse_node f0 ino" "lookup_node f ino n = lookup_node f0 ino n"
    "chain f0 r qs e \<Longrightarrow> chain f r qs e" "live f = live f0" "mallocs f = mallocs f0"
    "q \<in> live f0 \<Longrightarrow> nd f q = (nd f0 q)\<lparr>treelock := h q (treelock (nd f0 q))\<rparr>"
  using relock_rest [OF assms(1)] relock_searches [OF assms(1)] chain_malloc [OF chain_relock]
  by (simp_all add: assms(2) nd_relock)

subsection \<open>Values of a lock\<close>

lemma lock_value_read: "lock_value rs ws t \<Longrightarrow> 0 \<le> t \<Longrightarrow> rs < 2 ^ 31 - 1 \<Longrightarrow> lock_value (Suc rs) ws (t + 1)"
  by (auto simp: lock_value_def)

lemma lock_value_write: "lock_value rs ws 0 \<Longrightarrow> rs < 2 ^ 31 - 1 \<Longrightarrow> rs = 0 \<and> ws = 0 \<and> lock_value rs (Suc ws) TREELOCK_WRITE"
  by (auto simp: lock_value_def)

lemma lock_value_wait: "lock_value rs ws t \<Longrightarrow> rs < 2 ^ 31 - 1 \<Longrightarrow> lock_value rs ws (if t > 0 then t + TREELOCK_WAIT_OFFSET else t)"
  by (auto simp: lock_value_def)

lemma lock_value_reader: "lock_value (Suc rs) ws t \<Longrightarrow> Suc rs < 2 ^ 31 - 1 \<Longrightarrow>
    can_unlock t \<and> lock_value rs ws (if t - 1 = TREELOCK_WAIT_OFFSET then 0 else t - 1)"
  by (auto simp: lock_value_def can_unlock_def)

lemma lock_value_writer: "lock_value rs (Suc ws) t \<Longrightarrow> rs = 0 \<and> ws = 0 \<and> t = TREELOCK_WRITE \<and> lock_value rs ws 0"
  by (auto simp: lock_value_def)

lemma lock_value_free: "lock_value 0 0 t \<Longrightarrow> t = 0"
  by (simp add: lock_value_def)

subsection \<open>Counting holders\<close>

lemma covers_chain: "get_fuse_node f ino = Some r \<Longrightarrow> chain f r qs e \<Longrightarrow> covers f (ino, w) q \<longleftrightarrow> q \<in> set qs"
  unfolding covers_def using chain_unique [of f r qs e] by (metis fst_conv option.inject)

lemma readers_Cons: "readers f (h # hs) q = readers f hs q + (if covers f h q then 1 else 0)"
  by (simp add: readers_def)

lemma writers_Cons: "writers (h # hs) q = writers hs q + (if snd h = Some q then 1 else 0)"
  by (simp add: writers_def)

lemma readers_remove1: "h \<in> set hs \<Longrightarrow> readers f hs q = readers f (remove1 h hs) q + (if covers f h q then 1 else 0)"
  by (induction hs) (auto simp: readers_def)

lemma writers_remove1: "h \<in> set hs \<Longrightarrow> writers hs q = writers (remove1 h hs) q + (if snd h = Some q then 1 else 0)"
  by (induction hs) (auto simp: writers_def)

lemma readers_bound: "readers f hs q \<le> length hs"
  by (simp add: readers_def)

subsection \<open>The invariant of the locks\<close>

lemma locks_invD:
  assumes "locks_inv f0 f hs"
  obtains t k where "f = (relock (\<lambda>q _. t q) f0)\<lparr>malloc_no := k\<rparr>"
    "\<forall>q \<in> live f0. lock_value (readers f0 hs q) (writers hs q) (t q)"
  using assms unfolding locks_inv_def by blast

lemma locks_inv_get:
  assumes "tree_at_rest f0" "locks_inv f0 f hs" "Suc (length hs) < 2 ^ 31 - 1" "get_fuse_node f ino \<noteq> None" "path_fits f ino name"
    and "wr \<longrightarrow> name \<noteq> None" "try_get_path f ino name wr True = Some (Inr (path, w), f')"
  shows "locks_inv f0 f' ((ino, w) # hs)"
proof -
  obtain t k where f: "f = (relock (\<lambda>q _. t q) f0)\<lparr>malloc_no := k\<rparr>"
    and lv: "\<forall>q \<in> live f0. lock_value (readers f0 hs q) (writers hs q) (t q)"
    using assms(2) by (rule locks_invD)
  note v = relocked_views [OF assms(1) f]
  obtain r where r: "get_fuse_node f0 ino = Some r" "get_fuse_node f ino = Some r" using assms(4) v(2) by auto
  have "r \<in> live f0" using get_node_iff [of f0 ino r] assms(1) r(1) by (simp add: tree_at_rest_def)
  then obtain qs e where c: "chain f0 r qs e" using chain_exists [OF assms(1)] by blast
  obtain k' where g: "f' = (relock (taken True qs w) f)\<lparr>malloc_no := k'\<rparr>" "n_nodeid (nd f e) = FUSE_ROOT_ID"
    "\<forall>q \<in> set qs. 0 \<le> treelock (nd f q)" "\<forall>w'. w = Some w' \<longrightarrow> w' \<in> live f \<and> w' \<notin> set qs \<and> treelock (nd f w') = 0"
    using try_get_path_cases [OF v(1) r(2) v(4) [OF c] assms(5-7)] by blast
  have live: "set qs \<subseteq> live f0" "e \<in> live f0" using chain_live [OF c] by simp_all
  define t' where "t' = (\<lambda>q. taken True qs w q (t q))"
  have "f' = (relock (\<lambda>q _. t' q) f0)\<lparr>malloc_no := k'\<rparr>"
    unfolding g(1) f relock_malloc relock_relock by (simp add: t'_def)
  moreover have "lock_value (readers f0 ((ino, w) # hs) q) (writers ((ino, w) # hs) q) (t' q)" if q: "q \<in> live f0" for q
  proof -
    note o = bspec [OF lv q]
    have tq: "treelock (nd f q) = t q" using v(7) [OF q] by simp
    have b: "readers f0 hs q < 2 ^ 31 - 1" using readers_bound [of f0 hs q] assms(3) by simp
    have cv: "covers f0 (ino, w) q \<longleftrightarrow> q \<in> set qs" by (rule covers_chain [OF r(1) c])
    show ?thesis
    proof (cases "q \<in> set qs")
      case True
      then have "w \<noteq> Some q" "0 \<le> t q" using g(3,4) tq by auto
      then show ?thesis using lock_value_read [OF o _ b] True cv by (simp add: readers_Cons writers_Cons t'_def)
    next
      case False
      show ?thesis
      proof (cases "w = Some q")
        case True
        then have "t q = 0" using g(4) tq by simp
        then have "lock_value (readers f0 hs q) (Suc (writers hs q)) TREELOCK_WRITE" using lock_value_write [OF _ b] o by metis
        then show ?thesis using True False cv by (simp add: readers_Cons writers_Cons t'_def)
      qed (use False cv o in \<open>simp add: readers_Cons writers_Cons t'_def\<close>)
    qed
  qed
  moreover have "n_nodeid (nd f0 e) = FUSE_ROOT_ID" using g(2) v(7) [OF live(2)] by simp
  ultimately show ?thesis
    using assms(2,3) r(1) c g(4) v(5) unfolding locks_inv_def by auto
qed

lemma locks_inv_fail:
  assumes "tree_at_rest f0" "locks_inv f0 f hs" "get_fuse_node f ino \<noteq> None" "path_fits f ino name"
    and "wr \<longrightarrow> name \<noteq> None" "try_get_path f ino name wr True = Some (Inl err, f')"
  shows "locks_inv f0 f' hs"
proof -
  obtain t k where f: "f = (relock (\<lambda>q _. t q) f0)\<lparr>malloc_no := k\<rparr>"
    and lv: "\<forall>q \<in> live f0. lock_value (readers f0 hs q) (writers hs q) (t q)"
    using assms(2) by (rule locks_invD)
  note v = relocked_views [OF assms(1) f]
  obtain r where r: "get_fuse_node f0 ino = Some r" "get_fuse_node f ino = Some r" using assms(3) v(2) by auto
  have "r \<in> live f0" using get_node_iff [of f0 ino r] assms(1) r(1) by (simp add: tree_at_rest_def)
  then obtain qs e where c: "chain f0 r qs e" using chain_exists [OF assms(1)] by blast
  have "(\<exists>k. f' = f\<lparr>malloc_no := k\<rparr>) \<or> (\<exists>w k. f' = (relock (waiting w) f)\<lparr>malloc_no := k\<rparr>)"
    using try_get_path_cases [OF v(1) r(2) v(4) [OF c] assms(4-6)] by blast
  then show ?thesis
  proof (elim disjE exE)
    fix k' assume "f' = f\<lparr>malloc_no := k'\<rparr>"
    then have "f' = (relock (\<lambda>q _. t q) f0)\<lparr>malloc_no := k'\<rparr>" by (simp add: f)
    then show ?thesis using assms(2) lv unfolding locks_inv_def by auto
  next
    fix w k' assume f': "f' = (relock (waiting w) f)\<lparr>malloc_no := k'\<rparr>"
    define t' where "t' = (\<lambda>q. waiting w q (t q))"
    have "f' = (relock (\<lambda>q _. t' q) f0)\<lparr>malloc_no := k'\<rparr>" unfolding f' f relock_malloc relock_relock by (simp add: t'_def)
    moreover have "lock_value (readers f0 hs q) (writers hs q) (t' q)" if q: "q \<in> live f0" for q
    proof -
      have "readers f0 hs q < 2 ^ 31 - 1" using readers_bound [of f0 hs q] assms(2) by (simp add: locks_inv_def)
      from lock_value_wait [OF bspec [OF lv q] this] show ?thesis using bspec [OF lv q] by (cases "q = w \<and> 0 < t q") (auto simp: t'_def)
    qed
    ultimately show ?thesis using assms(2) unfolding locks_inv_def by auto
  qed
qed


lemma locks_inv_free:
  assumes "tree_at_rest f0" "locks_inv f0 f hs" "(ino, w) \<in> set hs"
  shows "\<exists>f'. unlock_path f ino w None = Some f' \<and> locks_inv f0 f' (remove1 (ino, w) hs)"
proof -
  obtain t k where f: "f = (relock (\<lambda>q _. t q) f0)\<lparr>malloc_no := k\<rparr>"
    and lv: "\<forall>q \<in> live f0. lock_value (readers f0 hs q) (writers hs q) (t q)"
    using assms(2) by (rule locks_invD)
  let ?hs = "remove1 (ino, w) hs"
  obtain r qs e where r: "get_fuse_node f0 ino = Some r" "chain f0 r qs e" "n_nodeid (nd f0 e) = FUSE_ROOT_ID"
    and w: "\<And>x. w = Some x \<Longrightarrow> x \<in> live f0 \<and> x \<notin> set qs"
    using assms(2,3) unfolding locks_inv_def by fastforce
  let ?g = "relock (\<lambda>q _. t q) f0"
  have gv: "tree_at_rest ?g" "get_fuse_node ?g ino = Some r" "chain ?g r qs e"
    using relock_rest [OF assms(1)] relock_searches(1) [OF assms(1)] r chain_relock [OF r(2)] by simp_all
  have tg: "treelock (nd ?g q) = t q" if "q \<in> live f0" for q using that by (simp add: nd_relock)
  have live: "set qs \<subseteq> live f0" "e \<in> live f0" using chain_live [OF r(2)] by simp_all
  have cnt: "readers f0 hs q = readers f0 ?hs q + (if q \<in> set qs then 1 else 0)" "writers hs q = writers ?hs q + (if w = Some q then 1 else 0)" for q
    using readers_remove1 [OF assms(3), of f0 q] writers_remove1 [OF assms(3), of q] covers_chain [OF r(1,2), of w q] by simp_all
  have small: "length hs < 2 ^ 31 - 1" using assms(2) by (simp add: locks_inv_def)
  have reader: "can_unlock (t q) \<and> lock_value (readers f0 ?hs q) (writers hs q) (if t q - 1 = TREELOCK_WAIT_OFFSET then 0 else t q - 1)"
    if "q \<in> set qs" for q
  proof (rule lock_value_reader)
    have "q \<in> live f0" using that live(1) by blast
    then show "lock_value (Suc (readers f0 ?hs q)) (writers hs q) (t q)" using bspec [OF lv, of q] cnt(1) [of q] that by simp
    show "Suc (readers f0 ?hs q) < 2 ^ 31 - 1" using cnt(1) [of q] readers_bound [of f0 hs q] small that by simp
  qed
  have writer: "t x = TREELOCK_WRITE \<and> lock_value (readers f0 hs x) (writers ?hs x) 0" if "w = Some x" for x
  proof -
    have "x \<in> live f0" using w [OF that] by simp
    then have "lock_value (readers f0 hs x) (Suc (writers ?hs x)) (t x)" using bspec [OF lv, of x] cnt(2) [of x] that by simp
    from lock_value_writer [OF this] show ?thesis by blast
  qed
  have up: "unlock_path f ino w None =
    Some ((relock (lowered (set (take (length qs) qs))) (relock (\<lambda>q k. if w = Some q then 0 else k) ?g))\<lparr>malloc_no := k\<rparr>)"
    unfolding f
  proof (rule unlock_path_run [OF gv(1-3) order_refl])
    show "w = None \<or> (\<exists>x. w = Some x \<and> x \<in> live ?g \<and> x \<notin> set qs \<and> treelock (nd ?g x) = TREELOCK_WRITE)"
      using w writer tg by (cases w) auto
    show "\<forall>q \<in> set (take (length qs) qs). can_unlock (treelock (nd ?g q))"
      using reader live(1) tg by auto
    show "None = Some ((qs @ [e]) ! length qs) \<or> None = None \<and> length qs = length qs \<and> n_nodeid (nd ?g e) = FUSE_ROOT_ID"
      using r(3) live(2) by (simp add: nd_relock)
  qed
  define t' where "t' = (\<lambda>q. lowered (set qs) q (if w = Some q then 0 else t q))"
  have "relock (lowered (set (take (length qs) qs))) (relock (\<lambda>q k. if w = Some q then 0 else k) ?g) = relock (\<lambda>q _. t' q) f0"
    unfolding relock_relock by (simp add: t'_def)
  moreover have "lock_value (readers f0 ?hs q) (writers ?hs q) (t' q)" if q: "q \<in> live f0" for q
  proof (cases "q \<in> set qs")
    case True
    then have "w \<noteq> Some q" using w by blast
    then have "t' q = (if t q - 1 = TREELOCK_WAIT_OFFSET then 0 else t q - 1)" "writers ?hs q = writers hs q"
      using True cnt(2) [of q] by (simp_all add: t'_def)
    then show ?thesis using reader [OF True] by simp
  next
    case False
    then show ?thesis using writer [of q] bspec [OF lv q] cnt [of q] by (cases "w = Some q") (simp_all add: t'_def)
  qed
  moreover have "length ?hs < 2 ^ 31 - 1" using small length_remove1 [of "(ino, w)" hs] by (simp split: if_splits)
  moreover have "set ?hs \<subseteq> set hs" by (rule set_remove1_subset)
  ultimately have "locks_inv f0 ((relock (\<lambda>q _. t' q) f0)\<lparr>malloc_no := k\<rparr>) ?hs"
    using assms(2) unfolding locks_inv_def by blast
  then show ?thesis using up \<open>relock (lowered (set (take (length qs) qs))) _ = _\<close> by simp
qed

lemma locks_inv_start:
  assumes "\<forall>q \<in> live f0. treelock (nd f0 q) = 0"
  shows "locks_inv f0 f0 []"
proof -
  have "relock (\<lambda>q _. 0) f0 = f0" by (rule relock_id) (use assms in simp)
  then have "f0 = (relock (\<lambda>q _. 0) f0)\<lparr>malloc_no := malloc_no f0\<rparr>" by simp
  moreover have "\<forall>q \<in> live f0. lock_value (readers f0 [] q) (writers [] q) 0"
    by (simp add: lock_value_def readers_def writers_def)
  ultimately show ?thesis unfolding locks_inv_def by auto
qed

lemma lock_run_inv:
  assumes "lock_run f0 f hs" "tree_at_rest f0" "\<forall>q \<in> live f0. treelock (nd f0 q) = 0"
  shows "locks_inv f0 f hs"
  using assms(1)
proof (induction rule: lock_run.induct)
  case start
  show ?case by (rule locks_inv_start [OF assms(3)])
next
  case (get f hs ino name wr path w f')
  then show ?case using locks_inv_get [OF assms(2)] by blast
next
  case (fail f hs ino name wr err f')
  then show ?case using locks_inv_fail [OF assms(2)] by blast
next
  case (free f hs ino w f')
  then show ?case using locks_inv_free [OF assms(2) free(4) free(2)] by simp
qed

end
