(* ===== verification/Subdir.thy ===== *)
theory Subdir
  imports Fuse_Fs Fuse_Path_Locks
begin

text \<open>
  The stackable module \<^verbatim>\<open>lib/modules/subdir.c\<close>: it puts a base directory before every path and
  passes the call on to the next file system, and it makes the targets of absolute symbolic links
  below the base relative. \<open>baselen\<close> is the length of \<open>base\<close>, set when the module is made.
\<close>

section \<open>The module\<close>

record subdir =
  base :: bytes
  baselen :: nat
  rellinks :: bool

abbreviation DOT :: bytes where
  "DOT \<equiv> [46]"

abbreviation DOTDOT :: bytes where
  "DOTDOT \<equiv> [46, 46]"

definition slashed :: "bytes \<Rightarrow> bool" where
  "slashed s \<longleftrightarrow> s \<noteq> [] \<and> hd s = SLASH"

text \<open>
  \<open>ok\<close> says whether \<open>malloc\<close> succeeds. The size of the buffer is an \<open>unsigned\<close>; a copy past it is
  undefined.
\<close>

definition subdir_addpath :: "subdir \<Rightarrow> bool \<Rightarrow> bytes option \<Rightarrow> (int \<times> bytes option) option" where
  "subdir_addpath d ok path =
     (case path of
        None \<Rightarrow> Some (0, None)
      | Some path \<Rightarrow>
          if \<not> ok then Some (- ENOMEM, None)
          else
            let newlen = (baselen d + length path + 2) mod 2 ^ 32;
                path = (if slashed path then tl path else path);
                newpath = take (baselen d) (base d) @ path
            in if newlen < length newpath + 1 \<or> newlen < length (base d) + 1 then None
               else Some (0, Some (if newpath = [] then DOT else newpath)))"

definition with_path :: "subdir \<Rightarrow> bool \<Rightarrow> bytes option \<Rightarrow> 's \<Rightarrow> (bytes option \<Rightarrow> 's \<Rightarrow> (fs_result \<times> 's) option) \<Rightarrow>
    (fs_result \<times> 's) option" where
  "with_path d ok path s k = do {
     (err, newpath) \<leftarrow> subdir_addpath d ok path;
     if err \<noteq> 0 then Some (no_op err, s) else k newpath s
   }"

section \<open>Relative links\<close>

lemma shorter_rest:
  assumes "x = dropWhile (\<lambda>c. c = SLASH) p" "x \<noteq> []"
  shows "length (dropWhile (\<lambda>c. c \<noteq> SLASH) x) < length p"
proof -
  obtain a xs where x: "x = a # xs" using assms(2) by (cases x) auto
  have "hd x \<noteq> SLASH" using hd_dropWhile [of "\<lambda>c. c = SLASH" p] assms by blast
  then have "a \<noteq> SLASH" by (simp add: x)
  then have "length (dropWhile (\<lambda>c. c \<noteq> SLASH) x) < length x" by (simp add: x le_imp_less_Suc length_dropWhile_le)
  also have "\<dots> \<le> length p" by (simp add: assms(1) length_dropWhile_le)
  finally show ?thesis .
qed

text \<open>The number of elements of a path.\<close>

function count_components :: "bytes \<Rightarrow> nat" where
  "count_components p =
     (let p = dropWhile (\<lambda>c. c = SLASH) p
      in if p = [] then 0 else Suc (count_components (dropWhile (\<lambda>c. c \<noteq> SLASH) p)))"
  by pat_completeness auto
termination
proof (relation "measure length")
  fix p x :: bytes
  assume "x = dropWhile (\<lambda>c. c = SLASH) p" "x \<noteq> []"
  then show "(dropWhile (\<lambda>c. c \<noteq> SLASH) x, p) \<in> measure length" by (simp add: shorter_rest)
qed simp

declare count_components.simps [simp del]

fun skip_same :: "bytes \<Rightarrow> bytes \<Rightarrow> bytes \<times> bytes" where
  "skip_same (x # xs) (y # ys) = (if x = y \<and> x \<noteq> SLASH then skip_same xs ys else (x # xs, y # ys))"
| "skip_same xs ys = (xs, ys)"

function strip_common :: "bytes \<Rightarrow> bytes \<Rightarrow> bytes \<times> bytes" where
  "strip_common s t =
     (let s = dropWhile (\<lambda>c. c = SLASH) s;
          t = dropWhile (\<lambda>c. c = SLASH) t;
          (s', t') = skip_same s t
      in if s' \<noteq> [] \<and> t' \<noteq> [] \<and> hd s' = hd t' \<or> s' = [] \<and> slashed t' \<or> slashed s' \<and> t' = []
         then strip_common s' t' else (s, t))"
  by pat_completeness auto

lemma skip_same_split:
  "skip_same s t = (s', t') \<Longrightarrow> \<exists>c. s = c @ s' \<and> t = c @ t' \<and> SLASH \<notin> set c \<and> (s' \<noteq> [] \<and> t' \<noteq> [] \<and> hd s' = hd t' \<longrightarrow> hd s' = SLASH)"
proof (induction s t rule: skip_same.induct)
  case (1 x xs y ys)
  show ?case
  proof (cases "x = y \<and> x \<noteq> SLASH")
    case True
    then have "\<exists>c. xs = c @ s' \<and> ys = c @ t' \<and> SLASH \<notin> set c \<and> (s' \<noteq> [] \<and> t' \<noteq> [] \<and> hd s' = hd t' \<longrightarrow> hd s' = SLASH)"
      using 1(1) [OF True] 1(2) unfolding skip_same.simps if_P [OF True] by blast
    then obtain c where "xs = c @ s'" "ys = c @ t'" "SLASH \<notin> set c" "s' \<noteq> [] \<and> t' \<noteq> [] \<and> hd s' = hd t' \<longrightarrow> hd s' = SLASH"
      by blast
    then show ?thesis using True by (intro exI [of _ "x # c"]) auto
  qed (use 1 in auto)
qed auto

text \<open>When the loop goes on, it has passed the same element of both.\<close>

lemma strip_step:
  assumes "skip_same (dropWhile (\<lambda>c. c = SLASH) s) (dropWhile (\<lambda>c. c = SLASH) t) = (s', t')"
    and "s' \<noteq> [] \<and> t' \<noteq> [] \<and> hd s' = hd t' \<or> s' = [] \<and> slashed t' \<or> slashed s' \<and> t' = []"
  obtains c where "dropWhile (\<lambda>c. c = SLASH) s = c @ s'" "dropWhile (\<lambda>c. c = SLASH) t = c @ t'" "SLASH \<notin> set c" "c \<noteq> []"
    "s' = [] \<or> slashed s'" "t' = [] \<or> slashed t'"
proof -
  obtain c where c: "dropWhile (\<lambda>c. c = SLASH) s = c @ s'" "dropWhile (\<lambda>c. c = SLASH) t = c @ t'" "SLASH \<notin> set c"
    "s' \<noteq> [] \<and> t' \<noteq> [] \<and> hd s' = hd t' \<longrightarrow> hd s' = SLASH"
    using skip_same_split [OF assms(1)] by blast
  have no: "\<not> slashed (dropWhile (\<lambda>c. c = SLASH) u)" for u
    using hd_dropWhile [of "\<lambda>c. c = SLASH" u] by (auto simp: slashed_def)
  have ends: "s' = [] \<or> slashed s'" "t' = [] \<or> slashed t'" using assms(2) c(4) by (auto simp: slashed_def)
  have "c \<noteq> []"
  proof
    assume "c = []"
    then have "\<not> slashed s'" "\<not> slashed t'" using no [of s] no [of t] c(1,2) by simp_all
    then show False using assms(2) ends by auto
  qed
  then show ?thesis using that c ends by blast
qed

termination strip_common
proof (relation "measure (\<lambda>(s, t). length s + length t)")
  fix s t sa ta p s' t'
  assume h: "sa = dropWhile (\<lambda>c. c = SLASH) s" "ta = dropWhile (\<lambda>c. c = SLASH) t" "p = skip_same sa ta" "(s', t') = p"
    "s' \<noteq> [] \<and> t' \<noteq> [] \<and> hd s' = hd t' \<or> s' = [] \<and> slashed t' \<or> slashed s' \<and> t' = []"
  have "skip_same (dropWhile (\<lambda>c. c = SLASH) s) (dropWhile (\<lambda>c. c = SLASH) t) = (s', t')" using h(1-4) by simp
  from strip_step [OF this h(5)] obtain c where c: "dropWhile (\<lambda>c. c = SLASH) s = c @ s'" "dropWhile (\<lambda>c. c = SLASH) t = c @ t'" "c \<noteq> []"
    by blast
  have "length (c @ s') \<le> length s" "length (c @ t') \<le> length t" unfolding c(1,2) [symmetric] by (simp_all add: length_dropWhile_le)
  then show "((s', t'), (s, t)) \<in> measure (\<lambda>(s, t). length s + length t)" using c(3) by (cases c) simp_all
qed simp

declare strip_common.simps [simp del]

text \<open>
  \<open>link\<close> is what the buffer of \<open>size\<close> bytes holds; it is replaced when the result, with its zero,
  fits as well.
\<close>

definition transform_symlink :: "subdir \<Rightarrow> bytes \<Rightarrow> bytes \<Rightarrow> nat \<Rightarrow> bytes" where
  "transform_symlink d path link bufsize =
     (if \<not> slashed link \<or> \<not> slashed (base d) then link
      else
        let (l, path) = strip_common link path
        in if length link - length l < baselen d then link
           else if count_components path = 0 then link
           else
             let dotdots = count_components path - 1
             in if bufsize < dotdots * 3 + length l + 2 then link
                else concat (replicate dotdots (DOTDOT @ [SLASH])) @ (if l \<noteq> [] then l else if dotdots = 0 then DOT else []))"

definition subdir_readlink :: "subdir \<Rightarrow> 's fuse_fs \<Rightarrow> bool \<Rightarrow> bytes option \<Rightarrow> nat \<Rightarrow> 's \<Rightarrow> (fs_result \<times> 's) option" where
  "subdir_readlink d next ok path sz s = with_path d ok path s (\<lambda>newpath s.
     let (r, s) = fuse_fs_readlink next newpath sz s
     in if ret r = 0 \<and> rellinks d then
          (case (newpath, out_data r) of
             (Some newpath, Some link) \<Rightarrow> Some (r\<lparr>out_data := Some (transform_symlink d newpath link sz)\<rparr>, s)
           | _ \<Rightarrow> None)
        else Some (r, s))"

section \<open>The other operations\<close>

definition subdir_getattr :: "subdir \<Rightarrow> 's fuse_fs \<Rightarrow> bool \<Rightarrow> bytes option \<Rightarrow> fuse_file_info option \<Rightarrow> 's \<Rightarrow> (fs_result \<times> 's) option" where
  "subdir_getattr d next ok path fi s = with_path d ok path s (\<lambda>newpath s. Some (fuse_fs_getattr next newpath fi s))"

definition subdir_mknod :: "subdir \<Rightarrow> 's fuse_fs \<Rightarrow> bool \<Rightarrow> bytes option \<Rightarrow> u32 \<Rightarrow> u64 \<Rightarrow> 's \<Rightarrow> (fs_result \<times> 's) option" where
  "subdir_mknod d next ok path mode rdev s = with_path d ok path s (\<lambda>newpath s. Some (fuse_fs_mknod next newpath mode rdev s))"

definition subdir_mkdir :: "subdir \<Rightarrow> 's fuse_fs \<Rightarrow> bool \<Rightarrow> bytes option \<Rightarrow> u32 \<Rightarrow> 's \<Rightarrow> (fs_result \<times> 's) option" where
  "subdir_mkdir d next ok path mode s = with_path d ok path s (\<lambda>newpath s. Some (fuse_fs_mkdir next newpath mode s))"

definition subdir_unlink :: "subdir \<Rightarrow> 's fuse_fs \<Rightarrow> bool \<Rightarrow> bytes option \<Rightarrow> 's \<Rightarrow> (fs_result \<times> 's) option" where
  "subdir_unlink d next ok path s = with_path d ok path s (\<lambda>newpath s. Some (fuse_fs_unlink next newpath s))"

definition subdir_rmdir :: "subdir \<Rightarrow> 's fuse_fs \<Rightarrow> bool \<Rightarrow> bytes option \<Rightarrow> 's \<Rightarrow> (fs_result \<times> 's) option" where
  "subdir_rmdir d next ok path s = with_path d ok path s (\<lambda>newpath s. Some (fuse_fs_rmdir next newpath s))"

definition subdir_symlink :: "subdir \<Rightarrow> 's fuse_fs \<Rightarrow> bool \<Rightarrow> bytes \<Rightarrow> bytes option \<Rightarrow> 's \<Rightarrow> (fs_result \<times> 's) option" where
  "subdir_symlink d next ok linkname path s = with_path d ok path s (\<lambda>newpath s. Some (fuse_fs_symlink next linkname newpath s))"

definition subdir_rename :: "subdir \<Rightarrow> 's fuse_fs \<Rightarrow> bool \<Rightarrow> bool \<Rightarrow> bytes option \<Rightarrow> bytes option \<Rightarrow> u32 \<Rightarrow> 's \<Rightarrow> (fs_result \<times> 's) option" where
  "subdir_rename d next ok1 ok2 old new flags s =
     with_path d ok1 old s (\<lambda>newfrom s. with_path d ok2 new s (\<lambda>newto s. Some (fuse_fs_rename next newfrom newto flags s)))"

definition subdir_link :: "subdir \<Rightarrow> 's fuse_fs \<Rightarrow> bool \<Rightarrow> bool \<Rightarrow> bytes option \<Rightarrow> bytes option \<Rightarrow> 's \<Rightarrow> (fs_result \<times> 's) option" where
  "subdir_link d next ok1 ok2 old new s =
     with_path d ok1 old s (\<lambda>newfrom s. with_path d ok2 new s (\<lambda>newto s. Some (fuse_fs_link next newfrom newto s)))"

definition subdir_chmod :: "subdir \<Rightarrow> 's fuse_fs \<Rightarrow> bool \<Rightarrow> bytes option \<Rightarrow> u32 \<Rightarrow> fuse_file_info option \<Rightarrow> 's \<Rightarrow> (fs_result \<times> 's) option" where
  "subdir_chmod d next ok path mode fi s = with_path d ok path s (\<lambda>newpath s. Some (fuse_fs_chmod next newpath mode fi s))"

definition subdir_chown :: "subdir \<Rightarrow> 's fuse_fs \<Rightarrow> bool \<Rightarrow> bytes option \<Rightarrow> u32 \<Rightarrow> u32 \<Rightarrow> fuse_file_info option \<Rightarrow> 's \<Rightarrow> (fs_result \<times> 's) option" where
  "subdir_chown d next ok path uid gid fi s = with_path d ok path s (\<lambda>newpath s. Some (fuse_fs_chown next newpath uid gid fi s))"

definition subdir_truncate :: "subdir \<Rightarrow> 's fuse_fs \<Rightarrow> bool \<Rightarrow> bytes option \<Rightarrow> int \<Rightarrow> fuse_file_info option \<Rightarrow> 's \<Rightarrow> (fs_result \<times> 's) option" where
  "subdir_truncate d next ok path sz fi s = with_path d ok path s (\<lambda>newpath s. Some (fuse_fs_truncate next newpath sz fi s))"

definition subdir_open :: "subdir \<Rightarrow> 's fuse_fs \<Rightarrow> bool \<Rightarrow> bytes option \<Rightarrow> fuse_file_info \<Rightarrow> 's \<Rightarrow> (fs_result \<times> 's) option" where
  "subdir_open d next ok path fi s = with_path d ok path s (\<lambda>newpath s. Some (fuse_fs_open next newpath fi s))"

definition subdir_statfs :: "subdir \<Rightarrow> 's fuse_fs \<Rightarrow> bool \<Rightarrow> bytes option \<Rightarrow> 's \<Rightarrow> (fs_result \<times> 's) option" where
  "subdir_statfs d next ok path s = with_path d ok path s (\<lambda>newpath s. Some (fuse_fs_statfs next newpath s))"

definition subdir_flush :: "subdir \<Rightarrow> 's fuse_fs \<Rightarrow> bool \<Rightarrow> bytes option \<Rightarrow> fuse_file_info \<Rightarrow> 's \<Rightarrow> (fs_result \<times> 's) option" where
  "subdir_flush d next ok path fi s = with_path d ok path s (\<lambda>newpath s. Some (fuse_fs_flush next newpath fi s))"

definition subdir_release :: "subdir \<Rightarrow> 's fuse_fs \<Rightarrow> bool \<Rightarrow> bytes option \<Rightarrow> fuse_file_info \<Rightarrow> 's \<Rightarrow> (fs_result \<times> 's) option" where
  "subdir_release d next ok path fi s = with_path d ok path s (\<lambda>newpath s. Some (fuse_fs_release next newpath fi s))"

definition subdir_fsync :: "subdir \<Rightarrow> 's fuse_fs \<Rightarrow> bool \<Rightarrow> bytes option \<Rightarrow> int \<Rightarrow> fuse_file_info \<Rightarrow> 's \<Rightarrow> (fs_result \<times> 's) option" where
  "subdir_fsync d next ok path datasync fi s = with_path d ok path s (\<lambda>newpath s. Some (fuse_fs_fsync next newpath datasync fi s))"

definition subdir_setxattr :: "subdir \<Rightarrow> 's fuse_fs \<Rightarrow> bool \<Rightarrow> bytes option \<Rightarrow> bytes \<Rightarrow> bytes \<Rightarrow> int \<Rightarrow> 's \<Rightarrow> (fs_result \<times> 's) option" where
  "subdir_setxattr d next ok path name value flags s = with_path d ok path s (\<lambda>newpath s. Some (fuse_fs_setxattr next newpath name value flags s))"

definition subdir_getxattr :: "subdir \<Rightarrow> 's fuse_fs \<Rightarrow> bool \<Rightarrow> bytes option \<Rightarrow> bytes \<Rightarrow> nat \<Rightarrow> 's \<Rightarrow> (fs_result \<times> 's) option" where
  "subdir_getxattr d next ok path name sz s = with_path d ok path s (\<lambda>newpath s. Some (fuse_fs_getxattr next newpath name sz s))"

definition subdir_listxattr :: "subdir \<Rightarrow> 's fuse_fs \<Rightarrow> bool \<Rightarrow> bytes option \<Rightarrow> nat \<Rightarrow> 's \<Rightarrow> (fs_result \<times> 's) option" where
  "subdir_listxattr d next ok path sz s = with_path d ok path s (\<lambda>newpath s. Some (fuse_fs_listxattr next newpath sz s))"

definition subdir_removexattr :: "subdir \<Rightarrow> 's fuse_fs \<Rightarrow> bool \<Rightarrow> bytes option \<Rightarrow> bytes \<Rightarrow> 's \<Rightarrow> (fs_result \<times> 's) option" where
  "subdir_removexattr d next ok path name s = with_path d ok path s (\<lambda>newpath s. Some (fuse_fs_removexattr next newpath name s))"

definition subdir_opendir :: "subdir \<Rightarrow> 's fuse_fs \<Rightarrow> bool \<Rightarrow> bytes option \<Rightarrow> fuse_file_info \<Rightarrow> 's \<Rightarrow> (fs_result \<times> 's) option" where
  "subdir_opendir d next ok path fi s = with_path d ok path s (\<lambda>newpath s. Some (fuse_fs_opendir next newpath fi s))"

definition subdir_releasedir :: "subdir \<Rightarrow> 's fuse_fs \<Rightarrow> bool \<Rightarrow> bytes option \<Rightarrow> fuse_file_info \<Rightarrow> 's \<Rightarrow> (fs_result \<times> 's) option" where
  "subdir_releasedir d next ok path fi s = with_path d ok path s (\<lambda>newpath s. Some (fuse_fs_releasedir next newpath fi s))"

definition subdir_fsyncdir :: "subdir \<Rightarrow> 's fuse_fs \<Rightarrow> bool \<Rightarrow> bytes option \<Rightarrow> int \<Rightarrow> fuse_file_info \<Rightarrow> 's \<Rightarrow> (fs_result \<times> 's) option" where
  "subdir_fsyncdir d next ok path datasync fi s = with_path d ok path s (\<lambda>newpath s. Some (fuse_fs_fsyncdir next newpath datasync fi s))"

definition subdir_access :: "subdir \<Rightarrow> 's fuse_fs \<Rightarrow> bool \<Rightarrow> bytes option \<Rightarrow> int \<Rightarrow> 's \<Rightarrow> (fs_result \<times> 's) option" where
  "subdir_access d next ok path amode s = with_path d ok path s (\<lambda>newpath s. Some (fuse_fs_access next newpath amode s))"

definition subdir_create :: "subdir \<Rightarrow> 's fuse_fs \<Rightarrow> bool \<Rightarrow> bytes option \<Rightarrow> u32 \<Rightarrow> fuse_file_info \<Rightarrow> 's \<Rightarrow> (fs_result \<times> 's) option" where
  "subdir_create d next ok path mode fi s = with_path d ok path s (\<lambda>newpath s. Some (fuse_fs_create next newpath mode fi s))"

definition subdir_lock :: "subdir \<Rightarrow> 's fuse_fs \<Rightarrow> bool \<Rightarrow> bytes option \<Rightarrow> fuse_file_info \<Rightarrow> int \<Rightarrow> flock \<Rightarrow> 's \<Rightarrow> (fs_result \<times> 's) option" where
  "subdir_lock d next ok path fi cmd lk s = with_path d ok path s (\<lambda>newpath s. Some (fuse_fs_lock next newpath fi cmd lk s))"

definition subdir_utimens :: "subdir \<Rightarrow> 's fuse_fs \<Rightarrow> bool \<Rightarrow> bytes option \<Rightarrow> ((int \<times> int) \<times> (int \<times> int)) \<Rightarrow> fuse_file_info option \<Rightarrow> 's \<Rightarrow> (fs_result \<times> 's) option" where
  "subdir_utimens d next ok path tv fi s = with_path d ok path s (\<lambda>newpath s. Some (fuse_fs_utimens next newpath tv fi s))"

definition subdir_bmap :: "subdir \<Rightarrow> 's fuse_fs \<Rightarrow> bool \<Rightarrow> bytes option \<Rightarrow> nat \<Rightarrow> u64 \<Rightarrow> 's \<Rightarrow> (fs_result \<times> 's) option" where
  "subdir_bmap d next ok path blocksize idx s = with_path d ok path s (\<lambda>newpath s. Some (fuse_fs_bmap next newpath blocksize idx s))"

definition subdir_flock :: "subdir \<Rightarrow> 's fuse_fs \<Rightarrow> bool \<Rightarrow> bytes option \<Rightarrow> fuse_file_info \<Rightarrow> int \<Rightarrow> 's \<Rightarrow> (fs_result \<times> 's) option" where
  "subdir_flock d next ok path fi opn s = with_path d ok path s (\<lambda>newpath s. Some (fuse_fs_flock next newpath fi opn s))"

definition subdir_lseek :: "subdir \<Rightarrow> 's fuse_fs \<Rightarrow> bool \<Rightarrow> bytes option \<Rightarrow> int \<Rightarrow> int \<Rightarrow> fuse_file_info \<Rightarrow> 's \<Rightarrow> (fs_result \<times> 's) option" where
  "subdir_lseek d next ok path off whence fi s = with_path d ok path s (\<lambda>newpath s. Some (fuse_fs_lseek next newpath off whence fi s))"


section \<open>Making the module\<close>

text \<open>
  \<open>subdir_new\<close> once its options are parsed: \<open>opt_base\<close> is the value of the option \<open>subdir\<close>,
  \<open>nexts\<close> the number of file systems after it; the last arguments say whether memory can be had for
  the module, for a longer \<open>base\<close> and for the file system object.
\<close>

definition subdir_new :: "bytes option \<Rightarrow> bool \<Rightarrow> nat \<Rightarrow> bool \<Rightarrow> bool \<Rightarrow> bool \<Rightarrow> subdir option" where
  "subdir_new opt_base opt_rellinks nexts ok1 ok2 ok3 =
     (if \<not> ok1 \<or> nexts \<noteq> 1 then None
      else case opt_base of
        None \<Rightarrow> None
      | Some b \<Rightarrow>
          if b \<noteq> [] \<and> last b \<noteq> SLASH then
            if ok2 \<and> ok3 then Some \<lparr>base = b @ [SLASH], baselen = length b + 1, rellinks = opt_rellinks\<rparr> else None
          else if \<not> ok3 then None
          else Some \<lparr>base = b, baselen = length b, rellinks = opt_rellinks\<rparr>)"

section \<open>What a path leads to\<close>

text \<open>
  A path is followed from a directory by its elements, without looking at the disk: . stays, .. leaves the last
  element. A path with a leading slash starts at the root.
\<close>

fun walk :: "bytes list \<Rightarrow> bytes list \<Rightarrow> bytes list" where
  "walk dir [] = dir"
| "walk dir (c # cs) = walk (if c = DOT then dir else if c = DOTDOT then butlast dir else dir @ [c]) cs"

definition resolve :: "bytes list \<Rightarrow> bytes \<Rightarrow> bytes list" where
  "resolve dir p = walk (if slashed p then [] else dir) (path_elements p)"

lemma walk_append: "walk dir (xs @ ys) = walk (walk dir xs) ys"
  by (induction xs arbitrary: dir) auto

lemma walk_plain: "DOT \<notin> set xs \<Longrightarrow> DOTDOT \<notin> set xs \<Longrightarrow> walk dir xs = dir @ xs"
  by (induction xs arbitrary: dir) auto

lemma walk_up: "walk (dir @ xs) (replicate (length xs) DOTDOT) = dir"
proof (induction xs rule: rev_induct)
  case (snoc x xs)
  have "walk (dir @ xs @ [x]) (replicate (length (xs @ [x])) DOTDOT) = walk (butlast (dir @ xs @ [x])) (replicate (length xs) DOTDOT)"
    by simp
  also have "butlast (dir @ xs @ [x]) = dir @ xs" by (simp add: butlast_append)
  finally show ?case using snoc.IH by simp
qed simp

subsection \<open>Elements of paths\<close>

lemma path_elements_drop: "path_elements (dropWhile (\<lambda>c. c = SLASH) p) = path_elements p"
proof -
  have "dropWhile (\<lambda>c. c = SLASH) (dropWhile (\<lambda>c. c = SLASH) p) = dropWhile (\<lambda>c. c = SLASH) p" by simp
  then show ?thesis by (simp add: path_elements.simps [of p] path_elements.simps [of "dropWhile (\<lambda>c. c = SLASH) p"])
qed

lemma path_elements_slash: "path_elements (SLASH # p) = path_elements p"
  using path_elements_drop [of "SLASH # p"] path_elements_drop [of p] by simp

lemma path_elements_first:
  "c \<noteq> [] \<Longrightarrow> SLASH \<notin> set c \<Longrightarrow> rest = [] \<or> slashed rest \<Longrightarrow> path_elements (c @ rest) = c # path_elements rest"
  using path_elements_Cons [of c rest] path_elements_slash [of "c @ rest"]
  by (auto simp: plain_name_def slashed_def neq_Nil_conv)

lemma slashed_append: "x = [] \<or> slashed x \<Longrightarrow> slashed q \<or> q = [] \<Longrightarrow> x @ q = [] \<or> slashed (x @ q)"
  by (cases x) (auto simp: slashed_def)

lemma path_elements_append:
  "slashed q \<or> q = [] \<Longrightarrow> path_elements (p @ q) = path_elements p @ path_elements q"
proof (induction p rule: path_elements.induct)
  case (1 p)
  let ?r = "dropWhile (\<lambda>c. c = SLASH) p"
  show ?case
  proof (cases "?r = []")
    case True
    then have "\<forall>c \<in> set p. c = SLASH" by (simp add: dropWhile_eq_Nil_conv)
    then have "path_elements (p @ q) = path_elements q \<and> path_elements p = []"
      by (induction p) (simp_all add: path_elements_slash path_elements_Nil)
    then show ?thesis by simp
  next
    case False
    let ?e = "takeWhile (\<lambda>c. c \<noteq> SLASH) ?r" and ?d = "dropWhile (\<lambda>c. c \<noteq> SLASH) ?r"
    have h: "hd ?r \<noteq> SLASH" using hd_dropWhile [OF False] by simp
    then have e: "?e \<noteq> []" using False by (cases ?r) simp_all
    have e2: "SLASH \<notin> set ?e" using set_takeWhileD [of SLASH "\<lambda>c. c \<noteq> SLASH" ?r] by blast
    have d: "?d = [] \<or> slashed ?d" using hd_dropWhile [of "\<lambda>c. c \<noteq> SLASH" ?r] unfolding slashed_def by blast
    then have dq: "?d @ q = [] \<or> slashed (?d @ q)" by (rule slashed_append [OF _ 1(2)])
    have "path_elements (p @ q) = path_elements (dropWhile (\<lambda>c. c = SLASH) (p @ q))" by (simp only: path_elements_drop)
    also have "dropWhile (\<lambda>c. c = SLASH) (p @ q) = ?r @ q" using False by (auto simp: dropWhile_append)
    also have "\<dots> = ?e @ (?d @ q)" by (simp only: append_assoc [symmetric] takeWhile_dropWhile_id)
    also have "path_elements \<dots> = ?e # path_elements (?d @ q)" by (rule path_elements_first [OF e e2 dq])
    also have "path_elements (?d @ q) = path_elements ?d @ path_elements q" using 1(1) [OF refl False 1(2)] .
    finally show ?thesis using path_elements_first [OF e e2 d] path_elements_drop [of p] by simp
  qed
qed

lemma count_is_elements: "count_components p = length (path_elements p)"
proof (induction p rule: count_components.induct)
  case (1 p)
  then show ?case
    by (cases "dropWhile (\<lambda>c. c = SLASH) p = []") (simp_all add: count_components.simps [of p] path_elements.simps [of p] Let_def)
qed

lemma strip_common_elements:
  "strip_common s t = (l, p) \<Longrightarrow> \<exists>cs. path_elements s = cs @ path_elements l \<and> path_elements t = cs @ path_elements p \<and> \<not> slashed l"
proof (induction s t rule: strip_common.induct)
  case (1 s t)
  let ?s = "dropWhile (\<lambda>c. c = SLASH) s" and ?t = "dropWhile (\<lambda>c. c = SLASH) t"
  obtain s' t' where sk: "skip_same ?s ?t = (s', t')" by fastforce
  show ?case
  proof (cases "s' \<noteq> [] \<and> t' \<noteq> [] \<and> hd s' = hd t' \<or> s' = [] \<and> slashed t' \<or> slashed s' \<and> t' = []")
    case True
    obtain c where c: "?s = c @ s'" "?t = c @ t'" "SLASH \<notin> set c" "c \<noteq> []" "s' = [] \<or> slashed s'" "t' = [] \<or> slashed t'"
      by (rule strip_step [OF sk True])
    have "strip_common s' t' = (l, p)" using 1(2) True by (simp add: strip_common.simps [of s t] sk)
    then obtain cs where cs: "path_elements s' = cs @ path_elements l" "path_elements t' = cs @ path_elements p" "\<not> slashed l"
      using 1(1) [OF refl refl refl] sk True by metis
    have "path_elements s = c # path_elements s'" "path_elements t = c # path_elements t'"
      using path_elements_first [OF c(4,3)] c path_elements_drop [of s] path_elements_drop [of t] by simp_all
    then show ?thesis using cs by (intro exI [of _ "c # cs"]) simp
  next
    case False
    then have "l = ?s" "p = ?t" using 1(2) by (auto simp: strip_common.simps [of s t] sk)
    moreover have "\<not> slashed ?s" using hd_dropWhile [of "\<lambda>c. c = SLASH" s] by (auto simp: slashed_def)
    ultimately show ?thesis by (intro exI [of _ "[]"]) (simp add: path_elements_drop)
  qed
qed

lemma dotdots_elements: "path_elements (concat (replicate n (DOTDOT @ [SLASH])) @ l) = replicate n DOTDOT @ path_elements l"
proof (induction n)
  case (Suc n)
  have "path_elements (DOTDOT @ (SLASH # (concat (replicate n (DOTDOT @ [SLASH])) @ l))) =
      DOTDOT # path_elements (SLASH # (concat (replicate n (DOTDOT @ [SLASH])) @ l))"
    by (rule path_elements_first) (simp_all add: slashed_def)
  then show ?case using Suc.IH by (simp add: path_elements_slash)
qed simp

text \<open>
  C34. A link made relative leads where the absolute one led: seen from the directory that holds
  the link, with the base directory in front, both name the same place.
\<close>

theorem relative_link_resolves:
  assumes "slashed path" "DOT \<notin> set (path_elements path)" "DOTDOT \<notin> set (path_elements path)"
  shows "resolve (butlast (path_elements path)) (transform_symlink d path link bufsize) =
    resolve (butlast (path_elements path)) link"
proof -
  obtain l p where st: "strip_common link path = (l, p)" by fastforce
  obtain cs where cs: "path_elements link = cs @ path_elements l" "path_elements path = cs @ path_elements p" "\<not> slashed l"
    using strip_common_elements [OF st] by blast
  let ?n = "count_components p - 1"
  let ?r = "concat (replicate ?n (DOTDOT @ [SLASH])) @ (if l \<noteq> [] then l else if ?n = 0 then DOT else [])"
  show ?thesis
  proof (cases "transform_symlink d path link bufsize = link")
    case False
    then have t: "transform_symlink d path link bufsize = ?r" "slashed link" "count_components p \<noteq> 0"
      by (auto simp: transform_symlink_def st Let_def split: if_splits)
    have p: "path_elements p \<noteq> []" "?n = length (butlast (path_elements p))"
      using t(3) by (auto simp: count_is_elements)
    have dir: "butlast (path_elements path) = cs @ butlast (path_elements p)" using p(1) by (simp add: cs(2) butlast_append)
    have "\<not> slashed ?r" using cs(3) by (cases ?n) (auto simp: slashed_def)
    moreover have "walk dir (path_elements ?r) = walk dir (replicate ?n DOTDOT @ path_elements l)" for dir
    proof (cases "l \<noteq> [] \<or> ?n \<noteq> 0")
      case True
      then have "?r = concat (replicate ?n (DOTDOT @ [SLASH])) @ l" by auto
      then show ?thesis by (simp only: dotdots_elements)
    next
      case False
      have "path_elements DOT = [DOT]" using path_elements_first [of DOT "[]"] by (simp add: path_elements_Nil)
      then show ?thesis using False by (simp add: path_elements_Nil)
    qed
    ultimately have "resolve (butlast (path_elements path)) ?r =
        walk (walk (cs @ butlast (path_elements p)) (replicate ?n DOTDOT)) (path_elements l)"
      unfolding dir by (simp add: resolve_def walk_append)
    also have "walk (cs @ butlast (path_elements p)) (replicate ?n DOTDOT) = cs" unfolding p(2) by (rule walk_up)
    also have "walk cs (path_elements l) = resolve (butlast (path_elements path)) link"
      using t(2) walk_plain [of cs "[]"] assms(2,3) cs by (simp add: resolve_def walk_append)
    finally show ?thesis by (simp only: t(1))
  qed simp
qed

theorem relative_link_resolves_witness:
  "transform_symlink \<lparr>base = [47, 98, 47], baselen = 3, rellinks = True\<rparr> [47, 98, 47, 120, 47, 108] [47, 98, 47, 116] 100 = [46, 46, 47, 116] \<and>
   resolve [[98], [120]] (transform_symlink \<lparr>base = [47, 98, 47], baselen = 3, rellinks = True\<rparr> [47, 98, 47, 120, 47, 108] [47, 98, 47, 116] 100) =
     resolve [[98], [120]] [47, 98, 47, 116]"
proof -
  have e: "path_elements [47, 98, 47, 120, 47, 108] = [[98], [120], [108]]"
    by (simp add: path_elements.simps)
  show ?thesis
    using relative_link_resolves [of "[47, 98, 47, 120, 47, 108]" "\<lparr>base = [47, 98, 47], baselen = 3, rellinks = True\<rparr>" "[47, 98, 47, 116]" 100]
    by (simp add: e slashed_def transform_symlink_def strip_common.simps count_components.simps)
qed

section \<open>Calls passed on\<close>

text \<open>The operation of a call, a call with other paths, and the paths of a call.\<close>

primrec op_of :: "fs_call \<Rightarrow> fs_op" where
  "op_of (Call_getattr p x) = Op_getattr"
| "op_of (Call_readlink p x) = Op_readlink"
| "op_of (Call_mknod p x y) = Op_mknod"
| "op_of (Call_mkdir p x) = Op_mkdir"
| "op_of (Call_unlink p) = Op_unlink"
| "op_of (Call_rmdir p) = Op_rmdir"
| "op_of (Call_symlink x p) = Op_symlink"
| "op_of (Call_rename p q x) = Op_rename"
| "op_of (Call_link p q) = Op_link"
| "op_of (Call_chmod p x y) = Op_chmod"
| "op_of (Call_chown p x y z) = Op_chown"
| "op_of (Call_truncate p x y) = Op_truncate"
| "op_of (Call_open p x) = Op_open"
| "op_of (Call_statfs p) = Op_statfs"
| "op_of (Call_flush p x) = Op_flush"
| "op_of (Call_release p x) = Op_release"
| "op_of (Call_fsync p x y) = Op_fsync"
| "op_of (Call_setxattr p x y z) = Op_setxattr"
| "op_of (Call_getxattr p x y) = Op_getxattr"
| "op_of (Call_listxattr p x) = Op_listxattr"
| "op_of (Call_removexattr p x) = Op_removexattr"
| "op_of (Call_opendir p x) = Op_opendir"
| "op_of (Call_releasedir p x) = Op_releasedir"
| "op_of (Call_fsyncdir p x y) = Op_fsyncdir"
| "op_of (Call_access p x) = Op_access"
| "op_of (Call_create p x y) = Op_create"
| "op_of (Call_lock p x y z) = Op_lock"
| "op_of (Call_utimens p x y) = Op_utimens"
| "op_of (Call_bmap p x y) = Op_bmap"
| "op_of (Call_poll p x y) = Op_poll"
| "op_of (Call_flock p x y) = Op_flock"
| "op_of (Call_fallocate p x y z u) = Op_fallocate"
| "op_of (Call_copy_file_range p x y q z u v w) = Op_copy_file_range"
| "op_of (Call_lseek p x y z) = Op_lseek"

primrec map_paths :: "(bytes \<Rightarrow> bytes) \<Rightarrow> fs_call \<Rightarrow> fs_call" where
  "map_paths f (Call_getattr p x) = Call_getattr (map_option f p) x"
| "map_paths f (Call_readlink p x) = Call_readlink (map_option f p) x"
| "map_paths f (Call_mknod p x y) = Call_mknod (map_option f p) x y"
| "map_paths f (Call_mkdir p x) = Call_mkdir (map_option f p) x"
| "map_paths f (Call_unlink p) = Call_unlink (map_option f p)"
| "map_paths f (Call_rmdir p) = Call_rmdir (map_option f p)"
| "map_paths f (Call_symlink x p) = Call_symlink x (map_option f p)"
| "map_paths f (Call_rename p q x) = Call_rename (map_option f p) (map_option f q) x"
| "map_paths f (Call_link p q) = Call_link (map_option f p) (map_option f q)"
| "map_paths f (Call_chmod p x y) = Call_chmod (map_option f p) x y"
| "map_paths f (Call_chown p x y z) = Call_chown (map_option f p) x y z"
| "map_paths f (Call_truncate p x y) = Call_truncate (map_option f p) x y"
| "map_paths f (Call_open p x) = Call_open (map_option f p) x"
| "map_paths f (Call_statfs p) = Call_statfs (map_option f p)"
| "map_paths f (Call_flush p x) = Call_flush (map_option f p) x"
| "map_paths f (Call_release p x) = Call_release (map_option f p) x"
| "map_paths f (Call_fsync p x y) = Call_fsync (map_option f p) x y"
| "map_paths f (Call_setxattr p x y z) = Call_setxattr (map_option f p) x y z"
| "map_paths f (Call_getxattr p x y) = Call_getxattr (map_option f p) x y"
| "map_paths f (Call_listxattr p x) = Call_listxattr (map_option f p) x"
| "map_paths f (Call_removexattr p x) = Call_removexattr (map_option f p) x"
| "map_paths f (Call_opendir p x) = Call_opendir (map_option f p) x"
| "map_paths f (Call_releasedir p x) = Call_releasedir (map_option f p) x"
| "map_paths f (Call_fsyncdir p x y) = Call_fsyncdir (map_option f p) x y"
| "map_paths f (Call_access p x) = Call_access (map_option f p) x"
| "map_paths f (Call_create p x y) = Call_create (map_option f p) x y"
| "map_paths f (Call_lock p x y z) = Call_lock (map_option f p) x y z"
| "map_paths f (Call_utimens p x y) = Call_utimens (map_option f p) x y"
| "map_paths f (Call_bmap p x y) = Call_bmap (map_option f p) x y"
| "map_paths f (Call_poll p x y) = Call_poll (map_option f p) x y"
| "map_paths f (Call_flock p x y) = Call_flock (map_option f p) x y"
| "map_paths f (Call_fallocate p x y z u) = Call_fallocate (map_option f p) x y z u"
| "map_paths f (Call_copy_file_range p x y q z u v w) = Call_copy_file_range (map_option f p) x y (map_option f q) z u v w"
| "map_paths f (Call_lseek p x y z) = Call_lseek (map_option f p) x y z"

primrec call_paths :: "fs_call \<Rightarrow> bytes option list" where
  "call_paths (Call_getattr p x) = [p]"
| "call_paths (Call_readlink p x) = [p]"
| "call_paths (Call_mknod p x y) = [p]"
| "call_paths (Call_mkdir p x) = [p]"
| "call_paths (Call_unlink p) = [p]"
| "call_paths (Call_rmdir p) = [p]"
| "call_paths (Call_symlink x p) = [p]"
| "call_paths (Call_rename p q x) = [p, q]"
| "call_paths (Call_link p q) = [p, q]"
| "call_paths (Call_chmod p x y) = [p]"
| "call_paths (Call_chown p x y z) = [p]"
| "call_paths (Call_truncate p x y) = [p]"
| "call_paths (Call_open p x) = [p]"
| "call_paths (Call_statfs p) = [p]"
| "call_paths (Call_flush p x) = [p]"
| "call_paths (Call_release p x) = [p]"
| "call_paths (Call_fsync p x y) = [p]"
| "call_paths (Call_setxattr p x y z) = [p]"
| "call_paths (Call_getxattr p x y) = [p]"
| "call_paths (Call_listxattr p x) = [p]"
| "call_paths (Call_removexattr p x) = [p]"
| "call_paths (Call_opendir p x) = [p]"
| "call_paths (Call_releasedir p x) = [p]"
| "call_paths (Call_fsyncdir p x y) = [p]"
| "call_paths (Call_access p x) = [p]"
| "call_paths (Call_create p x y) = [p]"
| "call_paths (Call_lock p x y z) = [p]"
| "call_paths (Call_utimens p x y) = [p]"
| "call_paths (Call_bmap p x y) = [p]"
| "call_paths (Call_poll p x y) = [p]"
| "call_paths (Call_flock p x y) = [p]"
| "call_paths (Call_fallocate p x y z u) = [p]"
| "call_paths (Call_copy_file_range p x y q z u v w) = [p, q]"
| "call_paths (Call_lseek p x y z) = [p]"

text \<open>
  A call of a file system: its operation when it has one, and otherwise what \<^verbatim>\<open>fuse_fs_*\<close>
  answers for it.
\<close>

definition unserved :: "fs_op \<Rightarrow> fs_result" where
  "unserved f =
     (if f = Op_statfs then (no_op 0)\<lparr>out_statfs := Some (255, 512)\<rparr>
      else if f \<in> {Op_open, Op_release, Op_opendir, Op_releasedir} then no_op 0
      else no_op (- ENOSYS))"

definition passed :: "'s fuse_fs \<Rightarrow> fs_call \<Rightarrow> 's \<Rightarrow> fs_result \<times> 's" where
  "passed fs c s = (if has_op fs (op_of c) then run_op fs c s else (unserved (op_of c), s))"

text \<open>
  The operations of the module by the calls they serve. \<open>ok1\<close> and \<open>ok2\<close> say whether memory can be had
  for the first path and the second; the calls that the table lacks are answered by \<^verbatim>\<open>fuse_fs_*\<close>.
\<close>

primrec subdir_oper :: "subdir \<Rightarrow> 's fuse_fs \<Rightarrow> bool \<Rightarrow> bool \<Rightarrow> fs_call \<Rightarrow> 's \<Rightarrow> (fs_result \<times> 's) option" where
  "subdir_oper d next ok1 ok2 (Call_getattr p x) s = subdir_getattr d next ok1 p x s"
| "subdir_oper d next ok1 ok2 (Call_readlink p x) s = subdir_readlink d next ok1 p x s"
| "subdir_oper d next ok1 ok2 (Call_mknod p x y) s = subdir_mknod d next ok1 p x y s"
| "subdir_oper d next ok1 ok2 (Call_mkdir p x) s = subdir_mkdir d next ok1 p x s"
| "subdir_oper d next ok1 ok2 (Call_unlink p) s = subdir_unlink d next ok1 p s"
| "subdir_oper d next ok1 ok2 (Call_rmdir p) s = subdir_rmdir d next ok1 p s"
| "subdir_oper d next ok1 ok2 (Call_symlink x p) s = subdir_symlink d next ok1 x p s"
| "subdir_oper d next ok1 ok2 (Call_rename p q x) s = subdir_rename d next ok1 ok2 p q x s"
| "subdir_oper d next ok1 ok2 (Call_link p q) s = subdir_link d next ok1 ok2 p q s"
| "subdir_oper d next ok1 ok2 (Call_chmod p x y) s = subdir_chmod d next ok1 p x y s"
| "subdir_oper d next ok1 ok2 (Call_chown p x y z) s = subdir_chown d next ok1 p x y z s"
| "subdir_oper d next ok1 ok2 (Call_truncate p x y) s = subdir_truncate d next ok1 p x y s"
| "subdir_oper d next ok1 ok2 (Call_open p x) s = subdir_open d next ok1 p x s"
| "subdir_oper d next ok1 ok2 (Call_statfs p) s = subdir_statfs d next ok1 p s"
| "subdir_oper d next ok1 ok2 (Call_flush p x) s = subdir_flush d next ok1 p x s"
| "subdir_oper d next ok1 ok2 (Call_release p x) s = subdir_release d next ok1 p x s"
| "subdir_oper d next ok1 ok2 (Call_fsync p x y) s = subdir_fsync d next ok1 p x y s"
| "subdir_oper d next ok1 ok2 (Call_setxattr p x y z) s = subdir_setxattr d next ok1 p x y z s"
| "subdir_oper d next ok1 ok2 (Call_getxattr p x y) s = subdir_getxattr d next ok1 p x y s"
| "subdir_oper d next ok1 ok2 (Call_listxattr p x) s = subdir_listxattr d next ok1 p x s"
| "subdir_oper d next ok1 ok2 (Call_removexattr p x) s = subdir_removexattr d next ok1 p x s"
| "subdir_oper d next ok1 ok2 (Call_opendir p x) s = subdir_opendir d next ok1 p x s"
| "subdir_oper d next ok1 ok2 (Call_releasedir p x) s = subdir_releasedir d next ok1 p x s"
| "subdir_oper d next ok1 ok2 (Call_fsyncdir p x y) s = subdir_fsyncdir d next ok1 p x y s"
| "subdir_oper d next ok1 ok2 (Call_access p x) s = subdir_access d next ok1 p x s"
| "subdir_oper d next ok1 ok2 (Call_create p x y) s = subdir_create d next ok1 p x y s"
| "subdir_oper d next ok1 ok2 (Call_lock p x y z) s = subdir_lock d next ok1 p x y z s"
| "subdir_oper d next ok1 ok2 (Call_utimens p x y) s = subdir_utimens d next ok1 p x y s"
| "subdir_oper d next ok1 ok2 (Call_bmap p x y) s = subdir_bmap d next ok1 p x y s"
| "subdir_oper d next ok1 ok2 (Call_poll p x y) s = Some (no_op (- ENOSYS), s)"
| "subdir_oper d next ok1 ok2 (Call_flock p x y) s = subdir_flock d next ok1 p x y s"
| "subdir_oper d next ok1 ok2 (Call_fallocate p x y z u) s = Some (no_op (- ENOSYS), s)"
| "subdir_oper d next ok1 ok2 (Call_copy_file_range p x y q z u v w) s = Some (no_op (- ENOSYS), s)"
| "subdir_oper d next ok1 ok2 (Call_lseek p x y z) s = subdir_lseek d next ok1 p x y z s"

text \<open>Where a path goes: the base, then the path without its leading slash.\<close>

definition below :: "subdir \<Rightarrow> bytes \<Rightarrow> bytes" where
  "below d path =
     (let newpath = base d @ (if slashed path then tl path else path) in if newpath = [] then DOT else newpath)"

definition memory_for :: "bool \<Rightarrow> bool \<Rightarrow> fs_call \<Rightarrow> bool" where
  "memory_for ok1 ok2 c \<longleftrightarrow> (\<forall>(p, ok) \<in> set (zip (call_paths c) [ok1, ok2]). p = None \<or> ok)"

lemma subdir_addpath_below:
  assumes "baselen d = length (base d)" "case path of None \<Rightarrow> True | Some p \<Rightarrow> length (base d) + length p + 2 < 2 ^ 32"
  shows "subdir_addpath d ok path =
    Some (if path = None \<or> ok then (0, map_option (below d) path) else (- ENOMEM, None))"
proof (cases path)
  case (Some p)
  have "length (if slashed p then tl p else p) \<le> length p" by simp
  then show ?thesis using Some assms by (simp add: subdir_addpath_def below_def Let_def)
qed (simp add: subdir_addpath_def)

lemma below_elements:
  assumes "base d = [] \<or> last (base d) = SLASH" "base d \<noteq> [] \<or> path_elements path \<noteq> []"
  shows "path_elements (below d path) = path_elements (base d) @ path_elements path"
proof -
  let ?p = "if slashed path then tl path else path"
  have el: "path_elements ?p = path_elements path"
    by (cases path) (auto simp: slashed_def path_elements_slash)
  have ne: "base d @ ?p \<noteq> []" using assms(2) el by (auto simp: path_elements_Nil)
  have bl: "below d path = base d @ ?p" unfolding below_def Let_def if_not_P [OF ne] ..
  show ?thesis
    unfolding bl
  proof (cases "base d = []")
    case False
    then obtain b where b: "base d = b @ [SLASH]" using assms(1) append_butlast_last_id by metis
    have "path_elements (base d @ ?p) = path_elements (b @ (SLASH # ?p))" by (simp add: b)
    also have "\<dots> = path_elements b @ path_elements (SLASH # ?p)" by (rule path_elements_append) (simp add: slashed_def)
    also have "path_elements b = path_elements (base d)"
      using path_elements_append [of "[SLASH]" b] by (simp add: b slashed_def path_elements_slash path_elements_Nil)
    finally show "path_elements (base d @ ?p) = path_elements (base d) @ path_elements path" by (simp add: path_elements_slash el)
  qed (simp add: path_elements_Nil el)
qed


text \<open>Renaming through the module with base \<open>/b\<close>, over a file system that notes its calls.\<close>

definition note_calls :: "fs_call list fuse_fs" where
  "note_calls = \<lparr>has_op = \<lambda>_. True, run_op = \<lambda>c s. (no_op 0, s @ [c])\<rparr>"


text \<open>
  Slashes repeated in a link count as bytes of the base: a link to a place outside is changed as
  well, and then leaves the mounted directory upwards.
\<close>

lemma outside_link_changed:
  "transform_symlink \<lparr>base = [47, 97, 98, 47], baselen = 4, rellinks = True\<rparr> [47, 97, 98, 47, 102] [47, 47, 47, 47, 47, 99] 100 =
    [46, 46, 47, 99]"
  by (simp add: transform_symlink_def slashed_def strip_common.simps count_components.simps)

end
