(* ===== verification/Fuse_Runs.thy ===== *)
theory Fuse_Runs
  imports Fuse_Path_Locks
begin

text \<open>
  Sequences of operations on nodes, from the state \<open>fuse_new_31\<close> makes on, each made under the
  conditions of \<open>guarded\<close>, and what holds at every point of them.
\<close>

section \<open>Runs\<close>

lemma empty_table: "chains_ok key node_table_init" "members node_table_init = {}" "t_use node_table_init = 0"
proof -
  show "chains_ok key node_table_init"
    by (rule chains_ok_newI [where k = 0]) (auto simp: node_table_init_def)
qed (auto simp: node_table_init_def members_def)

lemma start_ok:
  assumes "fuse_new_nodes rem oks t = Some f"
  shows "tree_ok f" "lru_ok f" "live f = {1}" "n_nodeid (nd f 1) = FUSE_ROOT_ID" "nlookup (nd f 1) = 1" "n_parent (nd f 1) = None"
    "remember f = rem" "mallocs f = oks" "lru_table f = []" "treelock (nd f 1) = 0" "open_count (nd f 1) = 0"
proof -
  define n where "n = \<lparr>n_nodeid = FUSE_ROOT_ID, n_generation = 0, refctr = 1, n_parent = None, n_name = Some [47], nlookup = 1,
    open_count = 0, is_hidden = False, treelock = 0, forget_time = 0\<rparr>"
  define f0 where "f0 = \<lparr>nodes = [1 \<mapsto> n], name_table = node_table_init, id_table = node_table_init, lru_table = [],
    ctr = 0, generation = 0, remember = rem, next_addr = Suc 1, mallocs = oks, malloc_no = Suc 0, now = t\<rparr>"
  have f: "f = hash_id f0 1"
    using assms
    by (auto simp: fuse_new_nodes_def alloc_node_def next_malloc_def Let_def upd_def inc_nlookup_def zero_node_def
        f0_def n_def split: if_splits)
  have t0: "chains_ok (id_of f0) (id_table f0)" "1 \<notin> members (id_table f0)"
    using empty_table by (simp_all add: f0_def)
  note h = hash_id_spec [OF t0 f]
  have nf: "nodes f = [1 \<mapsto> n]" using h(1) by (simp add: f0_def)
  show l: "live f = {1}" by (simp add: live_def nf)
  show "n_nodeid (nd f 1) = FUSE_ROOT_ID" "nlookup (nd f 1) = 1" "n_parent (nd f 1) = None" "treelock (nd f 1) = 0" "open_count (nd f 1) = 0"
    by (simp_all add: nf n_def)
  show "remember f = rem" "mallocs f = oks" using h(5,8) by (simp_all add: f0_def)
  have "lru_table f = lru_table f0" by (rule h(3))
  then show "lru_table f = []" by (simp add: f0_def)
  then show "lru_ok f" by (simp add: lru_ok_def)
  have nm: "named f = {}" by (simp add: named_def l nf n_def)
  have pr: "parent_rel f = {}" by (auto simp: parent_rel_def l nf n_def)
  have ki: "kids f {} (Suc 0) = {}" by (simp add: kids_def l nf n_def)
  have na: "next_addr f = Suc 1" "name_table f = node_table_init" using h(2,4) by (simp_all add: f0_def)
  have idt: "id_of f = id_of f0" by (simp add: h(1))
  have "tables_ok {} f"
    unfolding tables_ok_def l nm na idt
    using h(10,11,12) empty_table by (simp add: f0_def)
  moreover have "links_ok {} f"
    unfolding links_ok_def l nm pr by (simp add: nf n_def acyclic_def)
  moreover have "refs_ok {} (\<lambda>_. 0) f"
    unfolding refs_ok_def l by (simp add: ki) (simp add: nf n_def looks_def)
  ultimately show "tree_ok f" unfolding tree_ok_def tree_inv_def l by (simp add: nf n_def)
qed

datatype node_op =
  Find u64 "bytes option"
| Forget u64 u64
| Remove u64 bytes
| Rename u64 bytes u64 bytes bool
| Exchange u64 bytes u64 bytes
| Clean
| Pass int
| Get_Path u64 "bytes option" bool
| Free_Path u64 "nat option"

text \<open>
  When an operation is made. A name is looked up in a node that is there, with a number and a lookup
  count to spare; a node is forgotten that is there, and no more often than it was looked up (a node in
  the list of unused nodes only when it has no children); with \<open>remember\<close>, what is removed or
  replaced has a lookup besides the cache's; nothing is renamed below itself, and the new parent is in
  use; paths are asked for of nodes whose ancestors are in use, and freed as they were locked; the cache
  is cleaned when no node in its list is locked. A kernel that forgets only what it looked up sees to
  this as long as the library keeps the nodes that the kernel knows. With \<open>remember\<close> the library
  does not always do so (it can drop an unlinked file that the kernel still uses, see the last property
  below), and nothing keeps the cleaning away from locked nodes: these are conditions here, not facts
  about the kernel.
\<close>

fun guarded :: "fuse \<Rightarrow> node_op \<Rightarrow> bool" where
  "guarded f (Find parent name) \<longleftrightarrow>
     (\<exists>p \<in> live f. n_nodeid (nd f p) = parent) \<and> (\<forall>r \<in> live f. nlookup (nd f r) + 1 \<noteq> 0) \<and> card (live f) < 2 ^ 32 - 2"
| "guarded f (Forget ino k) \<longleftrightarrow>
     ino = FUSE_ROOT_ID \<or>
     k \<noteq> 0 \<and> (\<exists>r \<in> live f. n_nodeid (nd f r) = ino \<and> k \<le> nlookup (nd f r) \<and>
        (k = nlookup (nd f r) \<longrightarrow> r \<in> set (lru_table f) \<longrightarrow> kids f {} r = {}))"
| "guarded f (Remove dir name) \<longleftrightarrow>
     (\<forall>r. lookup_node f dir name = Some r \<longrightarrow> remember f \<noteq> 0 \<longrightarrow> nlookup (nd f r) > 1)"
| "guarded f (Rename olddir oldname newdir newname hide) \<longleftrightarrow>
     (\<forall>r. lookup_node f olddir oldname = Some r \<longrightarrow>
        (\<exists>p \<in> held f. n_nodeid (nd f p) = newdir \<and> r \<notin> above f p) \<and>
        (\<forall>n. lookup_node f newdir newname = Some n \<longrightarrow> n \<noteq> r \<and> (remember f \<noteq> 0 \<longrightarrow> nlookup (nd f n) > 1)))"
| "guarded f (Exchange olddir oldname newdir newname) \<longleftrightarrow>
     (\<exists>r n s p. lookup_node f olddir oldname = Some r \<and> lookup_node f newdir newname = Some n \<and> r \<noteq> n \<and>
        s \<in> held f \<and> n_nodeid (nd f s) = olddir \<and> p \<in> held f \<and> n_nodeid (nd f p) = newdir \<and>
        r \<notin> above f p \<and> n \<notin> above f s)"
| "guarded f Clean \<longleftrightarrow> (\<forall>r \<in> set (lru_table f). treelock (nd f r) = 0)"
| "guarded f (Pass t) \<longleftrightarrow> True"
| "guarded f (Get_Path ino name wr) \<longleftrightarrow>
     (\<exists>r \<in> live f. n_nodeid (nd f r) = ino \<and> (\<forall>q \<in> above f r. nlookup (nd f q) \<noteq> 0)) \<and> path_fits f ino name \<and>
     (wr \<longrightarrow> name \<noteq> None \<and> (\<forall>w. lookup_node f ino (the name) = Some w \<longrightarrow> nlookup (nd f w) \<noteq> 0))"
| "guarded f (Free_Path ino w) \<longleftrightarrow>
     (\<exists>r qs e. get_fuse_node f ino = Some r \<and> chain f r qs e \<and> n_nodeid (nd f e) = FUSE_ROOT_ID \<and>
        (\<forall>q \<in> set qs. can_unlock (treelock (nd f q))) \<and>
        (\<forall>x. w = Some x \<longrightarrow> x \<in> live f \<and> x \<notin> set qs \<and> treelock (nd f x) = TREELOCK_WRITE))"

fun exec :: "fuse \<Rightarrow> node_op \<Rightarrow> fuse option" where
  "exec f (Find parent name) = map_option snd (find_node f parent name)"
| "exec f (Forget ino k) = map_option snd (forget_node f ino k)"
| "exec f (Remove dir name) = remove_node f dir name"
| "exec f (Rename olddir oldname newdir newname hide) = map_option snd (rename_node f olddir oldname newdir newname hide)"
| "exec f (Exchange olddir oldname newdir newname) = map_option snd (exchange_node f olddir oldname newdir newname)"
| "exec f Clean = map_option snd (fuse_clean_cache f)"
| "exec f (Pass t) = Some (f\<lparr>now := t\<rparr>)"
| "exec f (Get_Path ino name wr) = map_option snd (try_get_path f ino name wr True)"
| "exec f (Free_Path ino w) = unlock_path f ino w None"

inductive reached :: "fuse \<Rightarrow> bool" where
  start: "fuse_new_nodes rem oks t = Some f \<Longrightarrow> reached f"
| step: "reached f \<Longrightarrow> guarded f op \<Longrightarrow> exec f op = Some f' \<Longrightarrow> reached f'"

lemma lru_ok_kept:
  assumes "lru_ok f" "lru_less f f'"
    and "\<And>q. q \<in> set (lru_table f') \<Longrightarrow> q \<in> live f \<Longrightarrow> nlookup (nd f q) = 1 \<Longrightarrow> n_nodeid (nd f q) \<noteq> FUSE_ROOT_ID \<Longrightarrow>
      q \<in> live f' \<and> nlookup (nd f' q) = nlookup (nd f q) \<and> n_nodeid (nd f' q) = n_nodeid (nd f q)"
  shows "lru_ok f'"
  unfolding lru_ok_def
proof (intro conjI impI ballI)
  show "distinct (lru_table f')" using assms(1,2) by (simp add: lru_ok_def lru_less_def)
  show "lru_enabled f'" if "lru_table f' \<noteq> []"
  proof -
    have "lru_table f \<noteq> []" using that assms(2) by (cases "lru_table f'") (auto simp: lru_less_def)
    then show ?thesis using lru_okD(2) [OF assms(1)] assms(2) by (simp add: lru_enabled_def lru_less_def)
  qed
  fix q assume q: "q \<in> set (lru_table f')"
  then have "q \<in> set (lru_table f)" using assms(2) by (auto simp: lru_less_def)
  then show "q \<in> live f'" "nlookup (nd f' q) = 1" "n_nodeid (nd f' q) \<noteq> FUSE_ROOT_ID"
    using assms(3) [OF q] lru_okD(3-5) [OF assms(1), of q] by simp_all
qed

lemma lru_ok_others:
  assumes "lru_ok f" "lru_less f f'" "others_kept S f f'" "S \<inter> set (lru_table f') = {}"
  shows "lru_ok f'"
proof (rule lru_ok_kept [OF assms(1,2)])
  fix q assume q: "q \<in> set (lru_table f')" "q \<in> live f" "nlookup (nd f q) = 1"
  then have S: "q \<notin> S" using assms(4) by blast
  have "q \<in> held f" using q by (simp add: held_def)
  then have l: "q \<in> live f'" using others_keptD(3) [OF assms(3) S] by blast
  then show "q \<in> live f' \<and> nlookup (nd f' q) = nlookup (nd f q) \<and> n_nodeid (nd f' q) = n_nodeid (nd f q)"
    using others_kept_node(3,4) [OF assms(3) S l] by simp
qed

lemma lru_ok_same:
  assumes "lru_ok f" "nodes f' = nodes f" "lru_table f' = lru_table f" "remember f' = remember f"
  shows "lru_ok f'"
  using assms by (simp add: lru_ok_def lru_enabled_def live_def)

lemma find_step:
  assumes "tree_ok f" "lru_ok f" "guarded f (Find parent name)"
  shows "\<exists>f'. exec f (Find parent name) = Some f' \<and> tree_ok f' \<and> lru_ok f'"
proof -
  note i = tree_okD [OF assms(1)]
  obtain p where p: "p \<in> live f" "n_nodeid (nd f p) = parent" "card (live f) < 2 ^ 32 - 2"
    and room: "\<And>r. r \<in> live f \<Longrightarrow> nlookup (nd f r) + 1 \<noteq> 0" using assms(3) by auto
  let ?old = "\<lambda>r. let f1 = (if lru_enabled f \<and> nlookup (nd f r) = 1 then remove_node_lru f r else f) in inc_nlookup f1 r"
  have known: "tree_ok (?old r) \<and> lru_ok (?old r)" if r: "r \<in> live f" for r
  proof -
    define f1 where "f1 = (if lru_enabled f \<and> nlookup (nd f r) = 1 then remove_node_lru f r else f)"
    define f2 where "f2 = inc_nlookup f1 r"
    note k = find_known [OF assms(1) r room [OF r] f1_def f2_def]
    have "lru_less f f1" by (simp add: f1_def lru_less_remove lru_less_same)
    then have "lru_less f f2" using k(3,5) by (simp add: lru_less_def)
    moreover have "others_kept {r} f f2" using r by (auto simp: others_kept_def held_def live_def k(2))
    moreover have "r \<notin> set (lru_table f1)"
    proof (cases "r \<in> set (lru_table f)")
      case True
      then have "lru_enabled f" "nlookup (nd f r) = 1" using lru_okD(2,4) [OF assms(2)] by (fastforce, blast)
      then show ?thesis using lru_okD(1) [OF assms(2)] by (simp add: f1_def remove_node_lru_def)
    qed (simp add: f1_def remove_node_lru_def notin_set_remove1)
    ultimately have "lru_ok f2" using lru_ok_others [OF assms(2), of f2 "{r}"] k(5) by simp
    then show ?thesis using k(1) by (simp add: f2_def f1_def)
  qed
  show ?thesis
  proof (cases name)
    case None
    have "get_fuse_node f parent = Some p" using get_node_iff [OF i(4)] p by simp
    then show ?thesis using known [OF p(1)] None by (simp add: find_node_def Let_def)
  next
    case name: (Some nm)
    show ?thesis
    proof (cases "lookup_node f parent nm")
      case (Some r)
      then show ?thesis using known [OF lookup_named(2) [OF assms(1) Some]] name by (simp add: find_node_def Let_def)
    next
      case None
      from new_node_ok [OF assms(1) p(1,2) None p(3)]
      show ?thesis
      proof (elim disjE exE conjE)
        fix f' assume f': "new_fuse_node f parent nm = Some (None, f')" "tree_ok f'" "nodes f' = nodes f" "remember f' = remember f"
          "lru_table f' = lru_table f"
        then show ?thesis using name None lru_ok_same [OF assms(2) f'(3,5,4)] by (simp add: find_node_def)
      next
        fix r f' assume f': "new_fuse_node f parent nm = Some (Some r, f')" "tree_ok f'" "born r p nm f f'"
        have b: "r \<notin> live f" "remember f' = remember f" "lru_table f' = lru_table f"
          "\<exists>n. nodes f' = (nodes f)(r \<mapsto> n, p \<mapsto> (nd f p)\<lparr>refctr := refctr (nd f p) + 1\<rparr>)"
          using f'(3) unfolding born_def by blast+
        then have "others_kept {r} f f'" using p(1) by (auto simp: others_kept_def held_def live_def split: if_splits)
        moreover have "{r} \<inter> set (lru_table f') = {}" using b(1,3) lru_okD(3) [OF assms(2)] by auto
        ultimately have "lru_ok f'" using lru_ok_others [OF assms(2) lru_less_same [OF b(3,2)]] by blast
        then show ?thesis using name None f' by (simp add: find_node_def)
      qed
    qed
  qed
qed

lemma forget_step:
  assumes "tree_ok f" "lru_ok f" "guarded f (Forget ino k)"
  shows "\<exists>f'. exec f (Forget ino k) = Some f' \<and> tree_ok f' \<and> lru_ok f'"
proof (cases "ino = FUSE_ROOT_ID")
  case True
  then show ?thesis using assms(1,2) by (simp add: forget_node_def)
next
  case root: False
  note i = tree_okD [OF assms(1)]
  obtain r where r: "r \<in> live f" "n_nodeid (nd f r) = ino" "k \<noteq> 0" "k \<le> nlookup (nd f r)"
    "k = nlookup (nd f r) \<Longrightarrow> r \<in> set (lru_table f) \<Longrightarrow> kids f {} r = {}"
    using assms(3) root by auto
  define f1 where "f1 = upd r (\<lambda>n. n\<lparr>nlookup := nlookup n - k\<rparr>) f"
  have n1: "lru_table f1 = lru_table f" "remember f1 = remember f" "live f1 = live f" using r(1) by (simp_all add: f1_def)
  have o1: "others_kept {r} f f1" using others_kept_upd [OF r(1)] by (simp add: f1_def)
  from forget_ok [OF assms(1) r(1,2) root r(3,4) f1_def]
  show ?thesis
  proof (elim disjE exE conjE)
    assume "forget_node f ino k = Some (False, f)"
    then show ?thesis using assms(1,2) by simp
  next
    fix f' assume f': "forget_node f ino k = Some (True, f')" "tree_ok f'"
      "if k = nlookup (nd f r) then pruned (above f r) f1 f'
       else if lru_enabled f \<and> nlookup (nd f1 r) = 1 then f' = set_forget_time f1 r else f' = f1"
    have "lru_ok f'"
    proof (cases "k = nlookup (nd f r)")
      case True
      have g: "get_fuse_node f ino = Some r" using get_node_iff [OF i(4)] r(1,2) by simp
      have "unref_node f1 r = Some f'"
        using f'(1) root g True by (simp add: forget_node_def f1_def Let_def split: if_splits option.splits)
      note sh = lru_shrinks(1) [OF this] and last = unref_last [OF this]
      have "r \<notin> set (lru_table f')"
      proof (cases "r \<in> set (lru_table f)")
        case listed: True
        then have "refctr (nd f1 r) = 1"
          using refs_okD(1) [OF i(6) r(1)] r(5) [OF True] True r(3) by (simp add: looks_def f1_def)
        then show ?thesis using last(2) lru_okD(1,2) [OF assms(2)] listed n1 by (force simp: lru_enabled_def)
      qed (use sh n1 in \<open>auto simp: lru_less_def\<close>)
      moreover have "lru_less f f'" using lru_less_trans [OF lru_less_same [OF n1(1,2)] sh] .
      moreover have "others_kept {r} f f'" using others_kept_trans [OF o1 others_kept_pruned] f'(3) True by simp
      ultimately show ?thesis by (intro lru_ok_others [OF assms(2)]) auto
    next
      case False
      have "r \<notin> set (lru_table f)"
      proof
        assume "r \<in> set (lru_table f)"
        then have one: "nlookup (nd f r) = 1" using lru_okD(4) [OF assms(2)] by blast
        then have "unat k \<le> 1" using r(4) by (simp add: word_le_nat_alt)
        moreover have "unat k \<noteq> 0" using r(3) by (simp add: unat_eq_0)
        ultimately have "unat k = 1" by linarith
        then show False using False one by (simp add: word_unat_eq_iff)
      qed
      then have l1: "lru_ok f1" using lru_ok_others [OF assms(2) lru_less_same [OF n1(1,2)] o1] n1(1) by simp
      show ?thesis
      proof (cases "lru_enabled f \<and> nlookup (nd f1 r) = 1")
        case True
        then have e: "f' = set_forget_time f1 r" using f'(3) False by simp
        show ?thesis
          using l1 True r root n1 unfolding e
          by (auto simp: lru_ok_def set_forget_time_def Let_def lru_enabled_def f1_def live_def upd_def notin_set_remove1
              dest: set_remove1_subset [THEN subsetD])
      qed (use f'(3) False l1 in auto)
    qed
    then show ?thesis using f' by simp
  qed
qed

lemma unlink_lru: "unlink_node f r = Some f' \<Longrightarrow> lru_less f f'"
  using lru_shrinks(3) [of "upd r (\<lambda>n. n\<lparr>nlookup := nlookup n - 1\<rparr>) f" r f'] lru_shrinks(3) [of f r f']
  by (auto simp: unlink_node_def split: if_splits)

lemma hash_name_lru: "hash_name f r dir name = Some (err, f') \<Longrightarrow> lru_less f f'"
  by (auto simp: hash_name_def Let_def next_malloc_def rehash_name_def lru_less_def split: if_splits option.splits prod.splits)

lemma remove_step:
  assumes "tree_ok f" "lru_ok f" "guarded f (Remove dir name)"
  shows "\<exists>f'. exec f (Remove dir name) = Some f' \<and> tree_ok f' \<and> lru_ok f'"
proof (cases "lookup_node f dir name")
  case None
  then show ?thesis using assms(1,2) by (simp add: remove_node_def)
next
  case (Some r)
  note l = lookup_named [OF assms(1) Some]
  have c: "remember f \<noteq> 0 \<longrightarrow> nlookup (nd f r) > 1" using assms(3) Some by simp
  obtain f' where f': "unlink_node f r = Some f'" "tree_ok f'" "pruned (above f r - {r}) (upd r (unlinked f) f) f'"
    using unlink_ok [OF assms(1) l(2,5) c] by blast
  note k = loses_name [OF assms(1) l(2) f'(3), unfolded unlinked_def, simplified]
  have "r \<notin> set (lru_table f)"
    using c lru_okD(2,4) [OF assms(2)] by (fastforce simp: lru_enabled_def)
  then have "{r} \<inter> set (lru_table f') = {}" using unlink_lru [OF f'(1)] by (auto simp: lru_less_def)
  then have "lru_ok f'" by (rule lru_ok_others [OF assms(2) unlink_lru [OF f'(1)] k(1)])
  then show ?thesis using f' Some by (simp add: remove_node_def)
qed

lemma rename_lru:
  assumes "rename_node f olddir oldname newdir newname hide = Some (err, f')"
  shows "lru_less f f'"
proof (cases "lookup_node f olddir oldname = None \<or> lookup_node f newdir newname \<noteq> None \<and> hide")
  case True
  then show ?thesis using assms by (auto simp: rename_node_def Let_def lru_less_same split: option.splits if_splits)
next
  case False
  then obtain r f1 f2 f3 e where
    h: "(case lookup_node f newdir newname of None \<Rightarrow> Some f | Some n \<Rightarrow> unlink_node f n) = Some f1"
    "unhash_name f1 r = Some f2" "hash_name f2 r newdir newname = Some (e, f3)" "f' = f3 \<or> f' = upd r (\<lambda>n. n\<lparr>is_hidden := True\<rparr>) f3"
    using assms by (auto simp: rename_node_def bind_eq_Some_conv split: if_splits)
  have "lru_less f f1" using h(1) by (auto simp: lru_less_same unlink_lru split: option.splits)
  then have "lru_less f f3"
    using lru_less_trans [OF lru_less_trans [OF _ lru_shrinks(3) [OF h(2)]] hash_name_lru [OF h(3)]] by blast
  then show ?thesis using h(4) by auto
qed

lemma exchange_lru:
  assumes "exchange_node f olddir oldname newdir newname = Some (err, f')" "lookup_node f olddir oldname = Some r"
    "lookup_node f newdir newname = Some n"
  shows "lru_less f f'"
proof -
  obtain f1 f2 f3 e where h: "unhash_name f r = Some f1" "unhash_name f1 n = Some f2" "hash_name f2 r newdir newname = Some (e, f3)"
    "f' = f3 \<or> (\<exists>e. hash_name f3 n olddir oldname = Some (e, f'))"
    using assms by (auto simp: exchange_node_def bind_eq_Some_conv split: if_splits)
  have "lru_less f f3"
    using lru_less_trans [OF lru_less_trans [OF lru_shrinks(3) [OF h(1)] lru_shrinks(3) [OF h(2)]] hash_name_lru [OF h(3)]] .
  then show ?thesis using h(4) lru_less_trans [OF _ hash_name_lru] by blast
qed

lemma rename_step:
  assumes "tree_ok f" "lru_ok f" "guarded f (Rename olddir oldname newdir newname hide)"
  shows "\<exists>f'. exec f (Rename olddir oldname newdir newname hide) = Some f' \<and> tree_ok f' \<and> lru_ok f'"
proof (cases "lookup_node f olddir oldname")
  case None
  then show ?thesis using assms(1,2) by (simp add: rename_node_def)
next
  case (Some r)
  obtain p where p: "p \<in> held f" "n_nodeid (nd f p) = newdir" "r \<notin> above f p"
    using assms(3) Some by auto
  define N where "N = set_option (lookup_node f newdir newname)"
  have N: "r \<notin> N" "\<forall>n \<in> N. remember f \<noteq> 0 \<longrightarrow> nlookup (nd f n) > 1" using assms(3) Some by (auto simp: N_def)
  show ?thesis
  proof (cases "hide \<and> N \<noteq> {}")
    case True
    then have "rename_node f olddir oldname newdir newname hide = Some (- EBUSY, f)"
      using Some by (auto simp: rename_node_def N_def)
    then show ?thesis using assms(1,2) by simp
  next
    case False
    have live_p: "p \<in> live f" using p(1) by (simp add: held_def)
    have pN: "p \<notin> N"
    proof
      assume "p \<in> N"
      then have "n_parent (nd f p) = Some p"
        using lookup_parent [OF assms(1) live_p p(2), of newname p] by (auto simp: N_def)
      then show False using not_above_parent [OF links_okD(6) [OF tree_okD(5) [OF assms(1)]] live_p] by simp
    qed
    obtain err f' where f': "rename_node f olddir oldname newdir newname hide = Some (err, f')" "tree_ok f'"
      "others_kept (insert r N) f f'" "r \<in> live f'" "nlookup (nd f' r) = nlookup (nd f r)" "n_nodeid (nd f' r) = n_nodeid (nd f r)"
      using rename_node_ok [OF assms(1) Some p N_def N(1) pN _ N(2), of hide] False by fastforce
    note sh = rename_lru [OF f'(1)]
    have "lru_ok f'"
    proof (rule lru_ok_kept [OF assms(2) sh])
      fix q assume q: "q \<in> set (lru_table f')" "q \<in> live f" "nlookup (nd f q) = 1"
      show "q \<in> live f' \<and> nlookup (nd f' q) = nlookup (nd f q) \<and> n_nodeid (nd f' q) = n_nodeid (nd f q)"
      proof (cases "q = r")
        case False
        have "lru_enabled f" using lru_okD(2) [OF assms(2)] q(1) sh by (force simp: lru_less_def)
        then have "q \<notin> insert r N" using False N(2) q(3) by (auto simp: lru_enabled_def)
        then show ?thesis
          using others_keptD(3) [OF f'(3), of q] others_kept_node(3,4) [OF f'(3), of q] q by (simp add: held_def)
      qed (use f' in simp)
    qed
    then show ?thesis using f' by simp
  qed
qed

lemma exchange_step:
  assumes "tree_ok f" "lru_ok f" "guarded f (Exchange olddir oldname newdir newname)"
  shows "\<exists>f'. exec f (Exchange olddir oldname newdir newname) = Some f' \<and> tree_ok f' \<and> lru_ok f'"
proof -
  obtain r n s p where h: "lookup_node f olddir oldname = Some r" "lookup_node f newdir newname = Some n" "r \<noteq> n"
    "s \<in> held f" "n_nodeid (nd f s) = olddir" "p \<in> held f" "n_nodeid (nd f p) = newdir" "r \<notin> above f p" "n \<notin> above f s"
    using assms(3) by auto
  obtain err f' where f': "exchange_node f olddir oldname newdir newname = Some (err, f')" "tree_ok f'" "others_kept {r, n} f f'"
    "\<forall>q \<in> {r, n}. q \<in> live f' \<and> nlookup (nd f' q) = nlookup (nd f q) \<and> n_nodeid (nd f' q) = n_nodeid (nd f q)"
    using exchange_ok [OF assms(1) h] by blast
  have "lru_ok f'"
  proof (rule lru_ok_kept [OF assms(2) exchange_lru [OF f'(1) h(1,2)]])
    fix q assume q: "q \<in> live f" "nlookup (nd f q) = 1"
    show "q \<in> live f' \<and> nlookup (nd f' q) = nlookup (nd f q) \<and> n_nodeid (nd f' q) = n_nodeid (nd f q)"
    proof (cases "q \<in> {r, n}")
      case False
      then show ?thesis
        using others_keptD(3) [OF f'(3), of q] others_kept_node(3,4) [OF f'(3), of q] q by (simp add: held_def)
    qed (use f'(4) in blast)
  qed
  then show ?thesis using f' by simp
qed

lemma relock_ok:
  assumes "tree_ok f" "lru_ok f" "\<forall>q \<in> live f. h q (treelock (nd f q)) \<noteq> 0 \<longrightarrow> nlookup (nd f q) \<noteq> 0"
    and "f' = (relock h f)\<lparr>malloc_no := k\<rparr>"
  shows "tree_ok f' \<and> lru_ok f'"
proof
  note i = tree_okD [OF assms(1)]
  let ?g = "relock h f"
  have "tree_at_rest ?g" by (rule relock_rest [OF i(3)])
  moreover have "refs_ok {} (\<lambda>_. 0) ?g"
    unfolding refs_ok_def live_relock relock_tree
  proof
    fix q assume "q \<in> live f - {}"
    then have q: "q \<in> live f" by simp
    show "refctr (nd ?g q) = int (card (kids f {} q)) + looks ?g q + 0 \<and> 0 \<le> (0 :: int) \<and> (treelock (nd ?g q) \<noteq> 0 \<longrightarrow> nlookup (nd ?g q) \<noteq> 0)"
      using refs_okD(1) [OF i(6) q] assms(3) q by (simp add: nd_relock looks_def)
  qed
  ultimately have "tree_ok ?g" using i(2) unfolding tree_ok_def tree_inv_def tree_at_rest_def by (simp add: nd_relock)
  then show "tree_ok f'" by (rule tree_ok_cong) (simp_all add: assms(4))
  show "lru_ok f'" using assms(2) unfolding assms(4) lru_ok_def lru_enabled_def live_malloc by (auto simp: nd_relock)
qed

lemma get_path_step:
  assumes "tree_ok f" "lru_ok f" "guarded f (Get_Path ino name wr)"
  shows "\<exists>f'. exec f (Get_Path ino name wr) = Some f' \<and> tree_ok f' \<and> lru_ok f'"
proof -
  note i = tree_okD [OF assms(1)]
  obtain r where r: "r \<in> live f" "n_nodeid (nd f r) = ino" "\<forall>q \<in> above f r. nlookup (nd f q) \<noteq> 0"
    and fits: "path_fits f ino name" and wr: "wr \<longrightarrow> name \<noteq> None"
    and hw: "\<And>w. wr \<Longrightarrow> lookup_node f ino (the name) = Some w \<Longrightarrow> nlookup (nd f w) \<noteq> 0"
    using assms(3) by auto
  have g: "get_fuse_node f ino = Some r" using get_node_iff [OF i(4)] r by simp
  obtain qs e where c: "chain f r qs e" using chain_exists [OF i(3) r(1)] by blast
  have used: "nlookup (nd f q) \<noteq> 0" if "q \<in> set qs" for q using chain_above [OF c] r(3) that by blast
  have locked: "treelock (nd f q) \<noteq> 0 \<longrightarrow> nlookup (nd f q) \<noteq> 0" if "q \<in> live f" for q using refs_okD(3) [OF i(6) that] by simp
  have len: "length (path_string f qs) + length (name_part name) + 2 \<le> 0xFFFFFFFF"
    using fits g c unfolding path_fits_def by blast
  have cond: "wr \<longrightarrow> True \<and> name \<noteq> None" using wr by simp
  obtain res f' where t: "try_get_path f ino name wr True = Some (res, f')"
    using try_get_path_run [OF i(3) r(1,2) c len cond refl] by blast
  have "tree_ok f' \<and> lru_ok f'"
    using try_get_path_cases [OF i(3) g c fits wr t]
  proof (elim disjE exE conjE)
    fix wn k assume "wn = (if wr then lookup_node f ino (the name) else None)" "f' = (relock (taken True qs wn) f)\<lparr>malloc_no := k\<rparr>"
    moreover from this have "\<forall>q \<in> live f. taken True qs wn q (treelock (nd f q)) \<noteq> 0 \<longrightarrow> nlookup (nd f q) \<noteq> 0"
      using used locked hw by (auto split: if_splits)
    ultimately show ?thesis using relock_ok [OF assms(1,2), of "taken True qs wn" f' k] by simp
  next
    fix k assume f': "f' = f\<lparr>malloc_no := k\<rparr>"
    have "relock (\<lambda>q k. k) f = f" by (rule relock_id) simp
    then show ?thesis using relock_ok [OF assms(1,2), of "\<lambda>q k. k" f' k] locked f' by simp
  next
    fix w k assume "f' = (relock (waiting w) f)\<lparr>malloc_no := k\<rparr>"
    moreover have "\<forall>q \<in> live f. waiting w q (treelock (nd f q)) \<noteq> 0 \<longrightarrow> nlookup (nd f q) \<noteq> 0"
      using locked by (auto split: if_splits)
    ultimately show ?thesis using relock_ok [OF assms(1,2), of "waiting w" f' k] by simp
  qed
  then show ?thesis using t by simp
qed

lemma free_path_step:
  assumes "tree_ok f" "lru_ok f" "guarded f (Free_Path ino w)"
  shows "\<exists>f'. exec f (Free_Path ino w) = Some f' \<and> tree_ok f' \<and> lru_ok f'"
proof -
  note i = tree_okD [OF assms(1)]
  obtain r qs e where c: "get_fuse_node f ino = Some r" "chain f r qs e" "n_nodeid (nd f e) = FUSE_ROOT_ID"
    "\<forall>q \<in> set qs. can_unlock (treelock (nd f q))"
    and w: "\<And>x. w = Some x \<Longrightarrow> x \<in> live f \<and> x \<notin> set qs \<and> treelock (nd f x) = TREELOCK_WRITE"
    using assms(3) by auto
  have locked: "treelock (nd f q) \<noteq> 0 \<longrightarrow> nlookup (nd f q) \<noteq> 0" if "q \<in> live f" for q using refs_okD(3) [OF i(6) that] by simp
  define h where "h = (\<lambda>q k. lowered (set qs) q (if w = Some q then 0 else k))"
  have "unlock_path (f\<lparr>malloc_no := malloc_no f\<rparr>) ino w None =
    Some ((relock (lowered (set (take (length qs) qs))) (relock (\<lambda>q k. if w = Some q then 0 else k) f))\<lparr>malloc_no := malloc_no f\<rparr>)"
    by (rule unlock_path_run [OF i(3) c(1,2) order_refl]) (use c w in \<open>cases w; auto\<close>)+
  then have u: "unlock_path f ino w None = Some ((relock h f)\<lparr>malloc_no := malloc_no f\<rparr>)"
    by (simp add: relock_relock h_def)
  have "h q (treelock (nd f q)) \<noteq> 0 \<longrightarrow> nlookup (nd f q) \<noteq> 0" if "q \<in> live f" for q
    using locked [OF that] c(4) w [of q] unfolding h_def can_unlock_def by (cases "q \<in> set qs"; cases "w = Some q") auto
  then have "tree_ok ((relock h f)\<lparr>malloc_no := malloc_no f\<rparr>) \<and> lru_ok ((relock h f)\<lparr>malloc_no := malloc_no f\<rparr>)"
    by (intro relock_ok [OF assms(1,2)]) auto
  then show ?thesis using u by simp
qed

text \<open>Every operation, on its conditions, returns and leaves a well-formed tree.\<close>

lemma exec_ok:
  assumes "tree_ok f" "lru_ok f" "guarded f op"
  shows "\<exists>f'. exec f op = Some f' \<and> tree_ok f' \<and> lru_ok f'"
proof (cases op)
  case Clean
  then show ?thesis using clean_ok [OF assms(1,2)] assms(3) by auto
next
  case (Pass t)
  have "tree_ok (f\<lparr>now := t\<rparr>)" by (rule tree_ok_cong [OF assms(1)]) simp_all
  moreover have "lru_ok (f\<lparr>now := t\<rparr>)" by (rule lru_ok_same [OF assms(2)]) simp_all
  ultimately show ?thesis using Pass by simp
next
  case (Find parent name)
  show ?thesis using find_step [OF assms(1,2) assms(3) [unfolded Find]] unfolding Find .
next
  case (Forget ino k)
  show ?thesis using forget_step [OF assms(1,2) assms(3) [unfolded Forget]] unfolding Forget .
next
  case (Remove dir name)
  show ?thesis using remove_step [OF assms(1,2) assms(3) [unfolded Remove]] unfolding Remove .
next
  case (Rename olddir oldname newdir newname hide)
  show ?thesis using rename_step [OF assms(1,2) assms(3) [unfolded Rename]] unfolding Rename .
next
  case (Exchange olddir oldname newdir newname)
  show ?thesis using exchange_step [OF assms(1,2) assms(3) [unfolded Exchange]] unfolding Exchange .
next
  case (Get_Path ino name wr)
  show ?thesis using get_path_step [OF assms(1,2) assms(3) [unfolded Get_Path]] unfolding Get_Path .
next
  case (Free_Path ino w)
  show ?thesis using free_path_step [OF assms(1,2) assms(3) [unfolded Free_Path]] unfolding Free_Path .
qed

lemma reached_ok: "reached f \<Longrightarrow> tree_ok f \<and> lru_ok f"
proof (induction rule: reached.induct)
  case (start rem oks t f)
  then show ?case using start_ok by blast
next
  case (step f op f')
  then show ?case using exec_ok [of f op] by auto
qed

section \<open>What holds of every run\<close>

lemma start_exists: "oks 0 \<Longrightarrow> \<exists>f. fuse_new_nodes rem oks t = Some f"
  by (simp add: fuse_new_nodes_def alloc_node_def next_malloc_def Let_def)

lemma find_new:
  assumes "tree_ok f" "p \<in> live f" "n_nodeid (nd f p) = pid" "lookup_node f pid name = None" "card (live f) < 2 ^ 32 - 2"
    and "\<forall>k. mallocs f k"
  shows "\<exists>r f'. find_node f pid (Some name) = Some (Some r, f') \<and> born r p name f f' \<and> tree_ok f' \<and> lookup_node f' pid name = Some r \<and>
    live f' = insert r (live f)"
proof -
  obtain r f' where f': "new_fuse_node f pid name = Some (Some r, f')" "tree_ok f'" "born r p name f f'"
    using new_node_ok [OF assms(1-5)] assms(6) by blast
  obtain n where n: "r \<notin> live f" "nodes f' = (nodes f)(r \<mapsto> n, p \<mapsto> (nd f p)\<lparr>refctr := refctr (nd f p) + 1\<rparr>)"
    "n_parent n = Some p" "n_name n = Some name"
    using f'(3) unfolding born_def by blast
  have pr: "p \<noteq> r" using n(1) assms(2) by blast
  have l: "live f' = insert r (live f)" using assms(2) by (auto simp: live_def n(2))
  have "lookup_node f' pid name = Some r"
    using lookup_parent [OF f'(2), of p pid name r] assms(2,3) n pr by (simp add: l)
  then show ?thesis using f' l assms(4) by (auto simp: find_node_def)
qed

subsection \<open>Some states\<close>

text \<open>A root, and a root with a file \<open>a\<close> below it.\<close>

definition first_state :: "int \<Rightarrow> fuse" where
  "first_state rem = the (fuse_new_nodes rem (\<lambda>_. True) 0)"

lemma first_state: "fuse_new_nodes rem (\<lambda>_. True) 0 = Some (first_state rem)"
  using start_exists [of "\<lambda>_. True" rem 0] by (auto simp: first_state_def)

lemmas first_facts = start_ok [OF first_state]

lemma first_reached: "reached (first_state rem)"
  by (rule reached.start [OF first_state])

definition one_file :: "int \<Rightarrow> fuse" where
  "one_file rem = the (exec (first_state rem) (Find 1 (Some [97])))"

lemma one_file:
  obtains r where "find_node (first_state rem) 1 (Some [97]) = Some (Some r, one_file rem)" "tree_ok (one_file rem)"
    "reached (one_file rem)" "lookup_node (one_file rem) 1 [97] = Some r" "live (one_file rem) = {1, r}" "r \<noteq> 1"
    "n_nodeid (nd (one_file rem) 1) = 1" "nlookup (nd (one_file rem) 1) = 1" "n_parent (nd (one_file rem) 1) = None"
    "nlookup (nd (one_file rem) r) = (if rem \<noteq> 0 then 2 else 1)" "n_parent (nd (one_file rem) r) = Some 1"
    "n_name (nd (one_file rem) r) = Some [97]" "treelock (nd (one_file rem) r) = 0" "remember (one_file rem) = rem"
    "\<forall>k. mallocs (one_file rem) k" "lru_table (one_file rem) = []" "n_nodeid (nd (one_file rem) r) \<noteq> 1"
    "treelock (nd (one_file rem) 1) = 0"
proof -
  let ?f = "first_state rem"
  note F = first_facts [of rem]
  have p: "1 \<in> live ?f" "card (live ?f) < 2 ^ 32 - 2" "\<forall>k. mallocs ?f k" using F by simp_all
  have lk: "lookup_node ?f 1 [97] = None"
    using lookup_node_none [OF tree_okD(3) [OF F(1)]] F(3,6) by (simp add: named_def)
  obtain r f' where f': "find_node ?f 1 (Some [97]) = Some (Some r, f')" "born r 1 [97] ?f f'" "tree_ok f'"
    "lookup_node f' 1 [97] = Some r" "live f' = insert r (live ?f)"
    using find_new [OF F(1) p(1) F(4) lk p(2,3)] by blast
  have e: "one_file rem = f'" by (simp add: one_file_def f'(1))
  obtain n where n: "r \<notin> live ?f" "remember f' = remember ?f" "mallocs f' = mallocs ?f" "lru_table f' = lru_table ?f"
    "nodes f' = (nodes ?f)(r \<mapsto> n, 1 \<mapsto> (nd ?f 1)\<lparr>refctr := refctr (nd ?f 1) + 1\<rparr>)"
    "n_parent n = Some 1" "n_name n = Some [97]" "nlookup n = (if remember ?f \<noteq> 0 then 2 else 1)" "treelock n = 0"
    "n_nodeid n \<noteq> FUSE_ROOT_ID"
    using f'(2) unfolding born_def by blast
  have r1: "r \<noteq> 1" using n(1) F(3) by simp
  have g: "nd f' r = n" "nd f' 1 = (nd ?f 1)\<lparr>refctr := refctr (nd ?f 1) + 1\<rparr>" using r1 by (simp_all add: n(5))
  have "guarded ?f (Find 1 (Some [97]))" using F p(2) by simp
  then have "reached f'" by (rule reached.step [OF first_reached]) (simp add: f'(1))
  then show ?thesis
    using that [of r] f' F n g r1 unfolding e by (simp add: insert_commute)
qed

lemma above_top: "n_parent (nd f r) = None \<Longrightarrow> above f r = {r}"
  by (auto simp: above_def parent_rel_def elim: converse_rtranclE)

lemma one_file_other: "lookup_node (one_file rem) 1 name \<noteq> None \<longleftrightarrow> name = [97]"
proof -
  obtain r where r: "tree_ok (one_file rem)" "lookup_node (one_file rem) 1 [97] = Some r" "live (one_file rem) = {1, r}" "n_nodeid (nd (one_file rem) 1) = 1" "n_parent (nd (one_file rem) 1) = None" "n_name (nd (one_file rem) r) = Some [97]"
    by (rule one_file [of rem]) blast
  have "1 \<in> live (one_file rem)" using r(3) by simp
  from lookup_parent [OF r(1) this r(4), of name] show ?thesis using r by auto
qed

text \<open>The nodes at the front of the list of unused nodes that are old and have no children are dropped.\<close>

lemma childless_refctr:
  assumes "tree_ok f" "only_cached f q" "\<forall>c \<in> live f. n_parent (nd f c) \<noteq> Some q"
  shows "refctr (nd f q) = 1"
proof -
  have q: "q \<in> live f" "nlookup (nd f q) = 1" using assms(2) by (simp_all add: only_cached_def)
  have "kids f {} q = {}" using assms(3) by (auto simp: kids_def)
  then show ?thesis using refs_okD(1) [OF tree_okD(6) [OF assms(1)] q(1)] q(2) by (simp add: looks_def)
qed

lemma clean_loop_drops:
  assumes "tree_ok f" "lru_ok f" "lru_enabled f" "distinct (xs @ q # ys)" "\<forall>p \<in> set (xs @ q # ys). only_cached f p"
    and "\<forall>x \<in> set (xs @ [q]). t - forget_time (nd f x) > remember f" "\<forall>c \<in> live f. n_parent (nd f c) \<noteq> Some q"
    and "clean_loop t (xs @ q # ys) f = Some f'"
  shows "q \<notin> live f'"
  using assms
proof (induction xs arbitrary: f)
  case Nil
  have c: "only_cached f q" and nr: "\<not> refctr (nd f q) > 1" "nlookup (nd f q) = 1"
    using Nil.prems(5) childless_refctr [OF Nil.prems(1) _ Nil.prems(7)] by (simp_all add: only_cached_def)
  obtain f2 f3 where s: "unhash_name (upd q (\<lambda>n. n\<lparr>nlookup := 0\<rparr>) f) q = Some f2" "unref_node f2 q = Some f3" "tree_ok f3"
    "others_kept {q} f f3" "q \<notin> live f3" "set (lru_table f3) \<subseteq> set (lru_table f) - {q}" "distinct (lru_table f3)"
    "remember f3 = remember f" "now f3 = now f"
    using clean_step [OF Nil.prems(1) lru_okD(1) [OF Nil.prems(2)] Nil.prems(3) c nr(1)] by (elim exE conjE)
  have l3: "lru_ok f3" by (rule lru_ok_shrink [OF Nil.prems(2) s(6,7,8,4)])
  have ys: "\<forall>p \<in> set ys. only_cached f3 p"
    by (intro ballI others_kept_cached(1) [OF s(4)]) (use Nil.prems(4,5) in auto)
  have e3: "lru_enabled f3" using Nil.prems(3) s(8) by (simp add: lru_enabled_def)
  have "clean_loop t ys f3 = Some f'"
    using Nil.prems(6,8) nr s(1,2) by simp
  moreover obtain f'' where "clean_loop t ys f3 = Some f''"
    "others_kept {p \<in> set ys. t - forget_time (nd f3 p) > remember f3} f3 f''"
    using clean_loop_ok [OF s(3) l3 e3 _ ys, of t] Nil.prems(4) by auto
  ultimately have "others_kept {p \<in> set ys. t - forget_time (nd f3 p) > remember f3} f3 f'" by simp
  from others_keptD(1) [OF this, of q] s(5) Nil.prems(4) show ?case by auto
next
  case (Cons r xs)
  have c: "only_cached f r" "only_cached f q" "nlookup (nd f r) = 1" "r \<noteq> q"
    using Cons.prems(4,5) by (auto simp: only_cached_def)
  show ?case
  proof (cases "refctr (nd f r) > 1")
    case True
    then have "clean_loop t (xs @ q # ys) f = Some f'" using Cons.prems(6,8) c(3) by simp
    then show ?thesis using Cons.IH [of f] Cons.prems by simp
  next
    case False
    obtain f2 f3 where s: "unhash_name (upd r (\<lambda>n. n\<lparr>nlookup := 0\<rparr>) f) r = Some f2" "unref_node f2 r = Some f3" "tree_ok f3"
      "others_kept {r} f f3" "r \<notin> live f3" "set (lru_table f3) \<subseteq> set (lru_table f) - {r}" "distinct (lru_table f3)"
      "remember f3 = remember f" "now f3 = now f"
      using clean_step [OF Cons.prems(1) lru_okD(1) [OF Cons.prems(2)] Cons.prems(3) c(1) False] by (elim exE conjE)
    have l3: "lru_ok f3" by (rule lru_ok_shrink [OF Cons.prems(2) s(6,7,8,4)])
    have k: "only_cached f3 p" "forget_time (nd f3 p) = forget_time (nd f p)" if "p \<in> set (xs @ q # ys)" for p
      using others_kept_cached [OF s(4), of p] Cons.prems(4,5) that by auto
    have "n_parent (nd f3 p) \<noteq> Some q" if "p \<in> live f3" for p
    proof -
      have p: "p \<notin> {r}" using s(5) that by auto
      show ?thesis using others_kept_node(1) [OF s(4) p that] others_keptD(1) [OF s(4) p that] Cons.prems(7) by simp
    qed
    moreover have "clean_loop t (xs @ q # ys) f3 = Some f'"
      using Cons.prems(6,8) False c(3) s(1,2) by simp
    ultimately show ?thesis
      using Cons.IH [of f3] s(3,8) l3 k Cons.prems(3,4,6) by (auto simp: lru_enabled_def)
  qed
qed

subsection \<open>The properties\<close>

text \<open>
  C23. In every state that guarded operations lead to, every guarded operation returns (no assertion
  fails, nothing aborts and no freed node is used), and the state after it is well formed again: both
  hash tables hold exactly the right nodes, parents form a forest, and the counts of references are
  those of the children and lookups. The guards (\<open>guarded\<close>) are conditions on the state as well as
  on the caller: a node that is forgotten must still be there, which with \<open>remember\<close> the library
  can break itself (the last property below), and a cleaning must meet no locked node.
\<close>

theorem nodes_stay_well_formed:
  assumes "reached f" "guarded f op"
  shows "\<exists>f'. exec f op = Some f' \<and> reached f' \<and> tree_ok f' \<and> lru_ok f'"
proof -
  have "tree_ok f" "lru_ok f" using reached_ok [OF assms(1)] by simp_all
  then obtain f' where f': "exec f op = Some f'" "tree_ok f'" "lru_ok f'" using exec_ok [OF _ _ assms(2)] by blast
  moreover have "reached f'" by (rule reached.step [OF assms f'(1)])
  ultimately show ?thesis by blast
qed

theorem nodes_stay_well_formed_witness:
  "\<exists>f'. exec (one_file 0) (Rename 1 [97] 1 [98] False) = Some f' \<and> reached f' \<and> tree_ok f' \<and> lru_ok f'"
proof -
  obtain r where r: "reached (one_file 0)" "lookup_node (one_file 0) 1 [97] = Some r" "live (one_file 0) = {1, r}" "r \<noteq> 1"
    "n_nodeid (nd (one_file 0) 1) = 1" "nlookup (nd (one_file 0) 1) = 1" "n_parent (nd (one_file 0) 1) = None"
    by (rule one_file [of 0]) blast
  have "\<exists>p \<in> held (one_file 0). n_nodeid (nd (one_file 0) p) = 1 \<and> r \<notin> above (one_file 0) p"
    by (rule bexI [of _ 1]) (use r above_top [of "one_file 0" 1] in \<open>simp_all add: held_def\<close>)
  then have "guarded (one_file 0) (Rename 1 [97] 1 [98] False)"
    using r(2) one_file_other [of 0 "[98]"] by simp
  then show ?thesis by (rule nodes_stay_well_formed [OF r(1)])
qed

text \<open>
  C24. No node outlives its use: at every point a node is in memory exactly when it is, or is above,
  a node that the kernel (or the cache of forgotten nodes) has lookups of.
\<close>

theorem no_node_leaks:
  assumes "reached f"
  shows "q \<in> live f \<longleftrightarrow> (\<exists>h. h \<in> live f \<and> nlookup (nd f h) \<noteq> 0 \<and> q \<in> above f h)"
proof -
  have "tree_ok f" using reached_ok [OF assms] by simp
  then show ?thesis using live_is_above_held [of f] by (auto simp: held_def)
qed

theorem no_node_leaks_witness:
  "1 \<in> live (one_file 0) \<longleftrightarrow> (\<exists>h. h \<in> live (one_file 0) \<and> nlookup (nd (one_file 0) h) \<noteq> 0 \<and> 1 \<in> above (one_file 0) h)"
proof -
  have "reached (one_file 0)" by (rule one_file [of 0]) blast
  then show ?thesis by (rule no_node_leaks)
qed

text \<open>
  The two hash tables, which are split and merged by linear hashing as they grow and shrink, are
  searched correctly: a number or a pair of a directory and a name leads to the node that has it,
  and to none only when no node has it.
\<close>

theorem searches_are_exact:
  assumes "reached f"
  shows "(get_node_nocheck f ino = Some r \<longleftrightarrow> r \<in> live f \<and> n_nodeid (nd f r) = ino) \<and>
    (lookup_node f dir name = Some r \<longleftrightarrow>
       r \<in> live f \<and> n_name (nd f r) = Some name \<and> (\<exists>p \<in> live f. n_parent (nd f r) = Some p \<and> n_nodeid (nd f p) = dir))"
proof
  have t: "tree_ok f" using reached_ok [OF assms] by simp
  note i = tree_okD [OF t]
  show "get_node_nocheck f ino = Some r \<longleftrightarrow> r \<in> live f \<and> n_nodeid (nd f r) = ino"
    using get_node_iff [OF i(4)] by (simp add: get_fuse_node_def)
  show "lookup_node f dir name = Some r \<longleftrightarrow>
       r \<in> live f \<and> n_name (nd f r) = Some name \<and> (\<exists>p \<in> live f. n_parent (nd f r) = Some p \<and> n_nodeid (nd f p) = dir)"
    (is "?l \<longleftrightarrow> ?r")
  proof
    assume l: ?l
    then have r: "r \<in> named f" "parent_id f r = dir" "n_name (nd f r) = Some name" using lookup_node_iff [OF i(3)] by simp_all
    obtain p where "r \<in> live f" "n_parent (nd f r) = Some p" using r(1) namedD by blast
    then show ?r using r links_okD(2) [OF i(5), of r p] by auto
  qed (use lookup_node_iff [OF i(3)] in_named in auto)
qed

theorem searches_are_exact_witness:
  "(get_node_nocheck (one_file 0) 1 = Some 1 \<longleftrightarrow> 1 \<in> live (one_file 0) \<and> n_nodeid (nd (one_file 0) 1) = 1) \<and>
    (lookup_node (one_file 0) 1 [97] = Some 1 \<longleftrightarrow>
       1 \<in> live (one_file 0) \<and> n_name (nd (one_file 0) 1) = Some [97] \<and>
       (\<exists>p \<in> live (one_file 0). n_parent (nd (one_file 0) 1) = Some p \<and> n_nodeid (nd (one_file 0) p) = 1))"
proof -
  have "reached (one_file 0)" by (rule one_file [of 0]) blast
  then show ?thesis by (rule searches_are_exact)
qed

lemma above_same:
  assumes "tree_ok f'" "h \<in> live f'" "\<And>q. q \<in> live f' \<Longrightarrow> q \<in> live f \<and> n_parent (nd f' q) = n_parent (nd f q)"
  shows "above f' h = above f h"
proof
  have "parent_rel f' \<subseteq> parent_rel f" using assms(3) by (auto simp: parent_rel_def)
  then show "above f' h \<subseteq> above f h" by (rule above_mono)
  have l: "above f' h \<subseteq> live f'" by (rule above_live [OF tree_okD(1) [OF assms(1)] assms(2)]) simp
  show "above f h \<subseteq> above f' h"
  proof
    fix q assume "q \<in> above f h"
    then have "(h, q) \<in> (parent_rel f)\<^sup>*" by (simp add: above_def)
    then show "q \<in> above f' h"
    proof (induction rule: rtrancl_induct)
      case (step y z)
      then have "y \<in> live f'" using l by blast
      then have "(y, z) \<in> parent_rel f'" using step.hyps(2) assms(3) [of y] by (simp add: parent_rel_def)
      then show ?case using step.IH by (auto simp: above_def intro: rtrancl_into_rtrancl)
    qed simp
  qed
qed

text \<open>
  C26. Forgetting \<open>k\<close> lookups of a node (whose path is not locked, when they are the last) takes them
  off, and leaves exactly the nodes that are still in use or above one in use, with their names,
  parents and lookups as they were.
\<close>

theorem forget_leaves_what_is_used:
  assumes "reached f" "r \<in> live f" "n_nodeid (nd f r) = ino" "ino \<noteq> FUSE_ROOT_ID" "k \<noteq> 0" "k \<le> nlookup (nd f r)"
    and "k = nlookup (nd f r) \<longrightarrow> treelock (nd f r) = 0"
  shows "\<exists>f'. forget_node f ino k = Some (True, f') \<and>
    live f' = (\<Union>h \<in> {h \<in> live f. nlookup (nd f h) \<noteq> (if h = r then k else 0)}. above f h) \<and>
    (\<forall>q \<in> live f'. n_parent (nd f' q) = n_parent (nd f q) \<and> n_name (nd f' q) = n_name (nd f q) \<and>
       nlookup (nd f' q) = nlookup (nd f q) - (if q = r then k else 0))"
proof -
  have t: "tree_ok f" using reached_ok [OF assms(1)] by simp
  define f1 where "f1 = upd r (\<lambda>n. n\<lparr>nlookup := nlookup n - k\<rparr>) f"
  have v1: "live f1 = live f" using assms(2) by (simp add: f1_def)
  obtain f' where f': "forget_node f ino k = Some (True, f')" "tree_ok f'"
    "if k = nlookup (nd f r) then pruned (above f r) f1 f'
     else if lru_enabled f \<and> nlookup (nd f1 r) = 1 then f' = set_forget_time f1 r else f' = f1"
    using forget_ok [OF t assms(2-6) f1_def] assms(7) by auto
  have view: "q \<in> live f \<and> n_parent (nd f' q) = n_parent (nd f q) \<and> n_name (nd f' q) = n_name (nd f q) \<and>
      nlookup (nd f' q) = nlookup (nd f q) - (if q = r then k else 0)" if "q \<in> live f'" for q
  proof (cases "k = nlookup (nd f r)")
    case True
    then have "pruned (above f r) f1 f'" using f'(3) by simp
    from prunedD(2) [OF this that] prunedD_node(1,2,3) [OF this that] show ?thesis using v1 by (simp add: f1_def)
  next
    case False
    then have "nodes f' = nodes f1 \<or> nodes f' = nodes (upd r (\<lambda>n. n\<lparr>forget_time := now f1\<rparr>) f1)"
      using f'(3) by (auto simp: set_forget_time_def upd_def Let_def split: if_splits)
    then show ?thesis using that assms(2) by (auto simp: f1_def upd_def live_def split: if_splits)
  qed
  have stay: "q \<in> live f'" if q: "q \<in> live f" "nlookup (nd f q) \<noteq> (if q = r then k else 0)" for q
  proof (cases "k = nlookup (nd f r)")
    case True
    then have p: "pruned (above f r) f1 f'" using f'(3) by simp
    have "nlookup (nd f1 q) \<noteq> 0" using q True by (auto simp: f1_def split: if_splits)
    then show ?thesis using prunedD(4) [OF p, of q] q(1) v1 by blast
  next
    case False
    then show ?thesis using f'(3) q(1) v1 by (auto simp: set_forget_time_def upd_def Let_def live_def split: if_splits)
  qed
  have h: "held f' = {h \<in> live f. nlookup (nd f h) \<noteq> (if h = r then k else 0)}"
  proof (intro equalityI subsetI)
    fix q assume q: "q \<in> held f'"
    then have l: "q \<in> live f'" and n: "nlookup (nd f' q) \<noteq> 0" by (simp_all add: held_def)
    show "q \<in> {h \<in> live f. nlookup (nd f h) \<noteq> (if h = r then k else 0)}"
      using view [OF l] n by (auto split: if_splits)
  next
    fix q assume "q \<in> {h \<in> live f. nlookup (nd f h) \<noteq> (if h = r then k else 0)}"
    then have q: "q \<in> live f" "nlookup (nd f q) \<noteq> (if q = r then k else 0)" by simp_all
    show "q \<in> held f'" using stay [OF q] view [OF stay [OF q]] q(2) by (auto simp: held_def split: if_splits)
  qed
  have "live f' = (\<Union>h \<in> held f'. above f' h)" by (rule live_is_above_held [OF f'(2)])
  also have "\<dots> = (\<Union>h \<in> held f'. above f h)"
    by (rule SUP_cong [OF refl], rule above_same [OF f'(2)]) (use view in \<open>auto simp: held_def\<close>)
  finally show ?thesis using f'(1) view unfolding h by blast
qed

theorem forget_leaves_what_is_used_witness:
  "\<exists>r f'. forget_node (one_file 0) (n_nodeid (nd (one_file 0) r)) 1 = Some (True, f') \<and> r \<noteq> 1 \<and> live f' = {1}"
proof -
  obtain r where r: "reached (one_file 0)" "lookup_node (one_file 0) 1 [97] = Some r" "live (one_file 0) = {1, r}" "r \<noteq> 1"
    "n_nodeid (nd (one_file 0) 1) = 1" "nlookup (nd (one_file 0) 1) = 1" "n_parent (nd (one_file 0) 1) = None"
    "nlookup (nd (one_file 0) r) = 1" "treelock (nd (one_file 0) r) = 0" "n_nodeid (nd (one_file 0) r) \<noteq> 1"
    by (rule one_file [of 0]) auto
  have "r \<in> live (one_file 0)" using r(3) by simp
  then obtain f' where f': "forget_node (one_file 0) (n_nodeid (nd (one_file 0) r)) 1 = Some (True, f')"
    "live f' = (\<Union>h \<in> {h \<in> live (one_file 0). nlookup (nd (one_file 0) h) \<noteq> (if h = r then 1 else 0)}. above (one_file 0) h)"
    using forget_leaves_what_is_used [OF r(1) _ refl r(10), of 1] r(8,9) by auto
  have "{h \<in> live (one_file 0). nlookup (nd (one_file 0) h) \<noteq> (if h = r then 1 else 0)} = {1}" using r by auto
  then have "live f' = {1}" using f'(2) above_top [OF r(7)] by simp
  then show ?thesis using f'(1) r(4) by blast
qed

text \<open>
  C25. A lookup that succeeds makes the node known: it returns a node that both tables then lead to,
  the old one with one more lookup when the name was known, and otherwise a new one with a number
  that no node has. What else was there stays there.
\<close>

theorem lookup_makes_known:
  assumes "reached f" "p \<in> live f" "n_nodeid (nd f p) = parent" "card (live f) < 2 ^ 32 - 2"
    and "\<forall>r \<in> live f. nlookup (nd f r) + 1 \<noteq> 0" "\<forall>k. mallocs f k"
  shows "\<exists>r f'. find_node f parent (Some name) = Some (Some r, f') \<and> reached f' \<and>
    lookup_node f' parent name = Some r \<and> get_fuse_node f' (n_nodeid (nd f' r)) = Some r \<and>
    live f' = insert r (live f) \<and>
    (\<forall>q \<in> live f - {r}. n_parent (nd f' q) = n_parent (nd f q) \<and> n_name (nd f' q) = n_name (nd f q) \<and>
       nlookup (nd f' q) = nlookup (nd f q) \<and> n_nodeid (nd f' q) = n_nodeid (nd f q)) \<and>
    (case lookup_node f parent name of
       Some r' \<Rightarrow> r = r' \<and> nlookup (nd f' r) = nlookup (nd f r) + 1 \<and> n_nodeid (nd f' r) = n_nodeid (nd f r)
     | None \<Rightarrow> r \<notin> live f \<and> nlookup (nd f' r) = (if remember f \<noteq> 0 then 2 else 1) \<and>
         (\<forall>q \<in> live f. n_nodeid (nd f q) \<noteq> n_nodeid (nd f' r)))"
proof -
  have t: "tree_ok f" using reached_ok [OF assms(1)] by simp
  have g: "guarded f (Find parent (Some name))" using assms(2-5) by auto
  have re: "reached f'" if "find_node f parent (Some name) = Some (Some r, f')" for r f'
    by (rule reached.step [OF assms(1) g]) (simp add: that)
  have ok': "tree_ok f'" if "find_node f parent (Some name) = Some (Some r, f')" for r f'
    using reached_ok [OF re [OF that]] by simp
  show ?thesis
  proof (cases "lookup_node f parent name")
    case (Some r)
    note l = lookup_named [OF t Some]
    define f1 where "f1 = (if lru_enabled f \<and> nlookup (nd f r) = 1 then remove_node_lru f r else f)"
    define f' where "f' = inc_nlookup f1 r"
    have nz: "nlookup (nd f r) + 1 \<noteq> 0" using assms(5) l(2) by blast
    note k = find_known [OF t l(2) nz f1_def f'_def]
    have e: "find_node f parent (Some name) = Some (Some r, f')"
      using Some by (simp add: find_node_def f1_def f'_def Let_def)
    have v: "live f' = insert r (live f)" using l(2) by (auto simp: live_def k(2))
    have d: "n_parent (nd f' q) = n_parent (nd f q)" "n_name (nd f' q) = n_name (nd f q)" "n_nodeid (nd f' q) = n_nodeid (nd f q)"
        "nlookup (nd f' q) = (if q = r then nlookup (nd f r) + 1 else nlookup (nd f q))" for q
      by (simp_all add: k(2))
    have "r \<in> named f'" using l(1) v d [of r] by (simp add: named_def)
    moreover have "parent_id f' r = parent" "n_name (nd f' r) = Some name" using l(3,4) d by simp_all
    ultimately have "lookup_node f' parent name = Some r" using lookup_node_iff [OF tree_okD(3) [OF k(1)]] by blast
    moreover have "get_fuse_node f' (n_nodeid (nd f' r)) = Some r" using get_node_iff [OF tree_okD(4) [OF k(1)]] v by simp
    ultimately show ?thesis using e re [OF e] v Some by (intro exI [of _ r] exI [of _ f'] conjI) (simp_all add: d)
  next
    case None
    obtain r f' where f': "find_node f parent (Some name) = Some (Some r, f')" "born r p name f f'" "lookup_node f' parent name = Some r"
      "live f' = insert r (live f)"
      using find_new [OF t assms(2,3) None assms(4,6)] by blast
    obtain n where n: "r \<notin> live f" "nodes f' = (nodes f)(r \<mapsto> n, p \<mapsto> (nd f p)\<lparr>refctr := refctr (nd f p) + 1\<rparr>)"
      "nlookup n = (if remember f \<noteq> 0 then 2 else 1)" "\<forall>q \<in> live f. n_nodeid (nd f q) \<noteq> n_nodeid n"
      using f'(2) unfolding born_def by blast
    have pr: "p \<noteq> r" using n(1) assms(2) by blast
    have "get_fuse_node f' (n_nodeid (nd f' r)) = Some r" using get_node_iff [OF tree_okD(4) [OF ok' [OF f'(1)]]] f'(4) by simp
    moreover have "n_parent (nd f' q) = n_parent (nd f q) \<and> n_name (nd f' q) = n_name (nd f q) \<and>
       nlookup (nd f' q) = nlookup (nd f q) \<and> n_nodeid (nd f' q) = n_nodeid (nd f q)" if "q \<in> live f - {r}" for q
      using that by (simp add: n(2))
    moreover have "nd f' r = n" using pr by (simp add: n(2))
    ultimately show ?thesis using f' re [OF f'(1)] n None by (intro exI [of _ r] exI [of _ f'] conjI) simp_all
  qed
qed

theorem lookup_makes_known_witness:
  "\<exists>r f'. find_node (one_file 0) 1 (Some [97]) = Some (Some r, f') \<and> lookup_node f' 1 [97] = Some r \<and> nlookup (nd f' r) = 2"
proof -
  obtain r where r: "reached (one_file 0)" "lookup_node (one_file 0) 1 [97] = Some r" "live (one_file 0) = {1, r}" "r \<noteq> 1"
    "n_nodeid (nd (one_file 0) 1) = 1" "nlookup (nd (one_file 0) 1) = 1" "nlookup (nd (one_file 0) r) = 1" "\<forall>k. mallocs (one_file 0) k"
    by (rule one_file [of 0]) auto
  have one: "1 \<in> live (one_file 0)" and room: "\<forall>q \<in> live (one_file 0). nlookup (nd (one_file 0) q) + 1 \<noteq> 0"
    and small: "card (live (one_file 0)) < 2 ^ 32 - 2" using r by simp_all
  from lookup_makes_known [OF r(1) one r(5) small room r(8), of "[97]"]
  show ?thesis unfolding r(2) option.case using r(7) by (elim exE conjE) (intro exI conjI, assumption+, simp)
qed

text \<open>
  C27. A rename moves the node to its new name and keeps the rest: the node that had the name loses
  it, no node has the old name any more, and no other node that is in use changes. When the new name
  does not fit into the node and no memory is left for it, the node is without a name afterwards.
\<close>

theorem rename_moves_node:
  assumes "reached f" "lookup_node f olddir oldname = Some r" "p \<in> live f" "nlookup (nd f p) \<noteq> 0" "n_nodeid (nd f p) = newdir"
    and "r \<notin> above f p" "lookup_node f newdir newname = new" "new \<noteq> Some r"
    and "hide \<longrightarrow> new = None" "remember f \<noteq> 0 \<longrightarrow> new \<noteq> None \<longrightarrow> nlookup (nd f (the new)) > 1"
  shows "\<exists>err f'. rename_node f olddir oldname newdir newname hide = Some (err, f') \<and> reached f' \<and>
    (if err = 0 then lookup_node f' newdir newname = Some r \<and> n_parent (nd f' r) = Some p
     else err = - ENOMEM \<and> 32 \<le> length newname \<and> (\<exists>k. \<not> mallocs f k) \<and> n_name (nd f' r) = None) \<and>
    ((olddir, oldname) \<noteq> (newdir, newname) \<longrightarrow> lookup_node f' olddir oldname = None) \<and>
    (\<forall>q \<in> live f. nlookup (nd f q) \<noteq> 0 \<longrightarrow> q \<noteq> r \<longrightarrow> new \<noteq> Some q \<longrightarrow>
       q \<in> live f' \<and> n_parent (nd f' q) = n_parent (nd f q) \<and> n_name (nd f' q) = n_name (nd f q) \<and> nlookup (nd f' q) = nlookup (nd f q))"
proof -
  have t: "tree_ok f" using reached_ok [OF assms(1)] by simp
  define N where "N = set_option (lookup_node f newdir newname)"
  have ph: "p \<in> held f" using assms(3,4) by (simp add: held_def)
  have N: "r \<notin> N" "\<forall>n \<in> N. remember f \<noteq> 0 \<longrightarrow> nlookup (nd f n) > 1" "hide \<longrightarrow> N = {}"
    using assms(7-10) by (auto simp: N_def)
  have pN: "p \<notin> N"
  proof
    assume "p \<in> N"
    then have "n_parent (nd f p) = Some p"
      using lookup_parent [OF t assms(3,5), of newname p] by (auto simp: N_def)
    then show False using not_above_parent [OF links_okD(6) [OF tree_okD(5) [OF t]] assms(3)] by simp
  qed
  obtain err f' where f': "rename_node f olddir oldname newdir newname hide = Some (err, f')" "tree_ok f'"
    "others_kept (insert r N) f f'" "\<forall>n \<in> N. n \<in> live f' \<longrightarrow> n_nodeid (nd f' n) = n_nodeid (nd f n)" "N \<inter> named f' = {}" "r \<in> live f'"
    "err = 0 \<and> lookup_node f' newdir newname = Some r \<and>
       nd f' r = (nd f r)\<lparr>n_name := Some newname, n_parent := Some p, is_hidden := is_hidden (nd f r) \<or> hide\<rparr> \<or>
     err = - ENOMEM \<and> 32 \<le> length newname \<and> (\<exists>k. \<not> mallocs f k) \<and> nd f' r = (nd f r)\<lparr>n_name := None, n_parent := None\<rparr>"
    using rename_node_ok [OF t assms(2) ph assms(5,6) N_def N(1) pN N(3,2)] by blast
  have "guarded f (Rename olddir oldname newdir newname hide)"
    using assms(2,5-8,10) ph by auto
  then have re: "reached f'" by (rule reached.step [OF assms(1)]) (simp add: f'(1))
  have ids: "n_nodeid (nd f' q) = n_nodeid (nd f q)" "q \<in> insert r N \<or> q \<in> live f" if "q \<in> live f'" for q
  proof -
    have "q = r \<or> q \<in> N \<or> q \<notin> insert r N" by blast
    then show "n_nodeid (nd f' q) = n_nodeid (nd f q)"
      using f'(4,7) others_kept_node(4) [OF f'(3) _ that] that by auto
    show "q \<in> insert r N \<or> q \<in> live f" using others_keptD(1) [OF f'(3) _ that] by blast
  qed
  have gone: "lookup_node f' olddir oldname = None" if "(olddir, oldname) \<noteq> (newdir, newname)"
  proof (rule ccontr)
    assume "lookup_node f' olddir oldname \<noteq> None"
    then obtain q where lq: "lookup_node f' olddir oldname = Some q" by blast
    note q = lookup_named [OF f'(2) lq]
    show False
    proof (cases "q = r")
      case True
      then have "err = 0" "lookup_node f' newdir newname = Some r" "n_parent (nd f' r) = Some p" "n_name (nd f' r) = Some newname"
        using f'(7) q(4) by auto
      then show False using that lq True q(3,4) lookup_named(3) [OF f'(2), of newdir newname r] by simp
    next
      case False
      then have qS: "q \<notin> insert r N" using f'(5) q(1) by blast
      note k = others_kept_node [OF f'(3) qS q(2)]
      obtain a where a: "n_parent (nd f' q) = Some a" using q(1) namedD by blast
      have al: "a \<in> live f'" using links_okD(2) [OF tree_okD(5) [OF f'(2)], of q a] q(1) a by simp
      have "q \<in> live f" using others_keptD(1) [OF f'(3) qS q(2)] .
      moreover have "n_parent (nd f q) = Some a" "n_name (nd f q) = Some oldname" using k(1,2) a q(4) by simp_all
      moreover have "n_nodeid (nd f a) = olddir" using ids(1) [OF al] q(3) a by simp
      ultimately have "lookup_node f olddir oldname = Some q"
        using lookup_node_iff [OF tree_okD(3) [OF t]] in_named by simp
      then show False using assms(2) False by simp
    qed
  qed
  have stay: "q \<in> live f' \<and> n_parent (nd f' q) = n_parent (nd f q) \<and> n_name (nd f' q) = n_name (nd f q) \<and> nlookup (nd f' q) = nlookup (nd f q)"
    if "q \<in> live f" "nlookup (nd f q) \<noteq> 0" "q \<noteq> r" "new \<noteq> Some q" for q
  proof -
    have qS: "q \<notin> insert r N" using that(3,4) assms(7) by (auto simp: N_def)
    have l: "q \<in> live f'" using others_keptD(3) [OF f'(3) qS] that by (simp add: held_def)
    then show ?thesis using others_kept_node [OF f'(3) qS l] by simp
  qed
  have "if err = 0 then lookup_node f' newdir newname = Some r \<and> n_parent (nd f' r) = Some p
     else err = - ENOMEM \<and> 32 \<le> length newname \<and> (\<exists>k. \<not> mallocs f k) \<and> n_name (nd f' r) = None"
    using f'(7) by auto
  then show ?thesis using f'(1) re gone stay by blast
qed

theorem rename_moves_node_witness:
  "\<exists>r err f'. lookup_node (one_file 0) 1 [97] = Some r \<and> rename_node (one_file 0) 1 [97] 1 [98] False = Some (err, f') \<and>
    lookup_node f' 1 [98] = Some r \<and> lookup_node f' 1 [97] = None"
proof -
  obtain r where r: "reached (one_file 0)" "lookup_node (one_file 0) 1 [97] = Some r" "live (one_file 0) = {1, r}" "r \<noteq> 1"
    "n_nodeid (nd (one_file 0) 1) = 1" "nlookup (nd (one_file 0) 1) = 1" "n_parent (nd (one_file 0) 1) = None"
    by (rule one_file [of 0]) auto
  have h: "1 \<in> live (one_file 0)" "nlookup (nd (one_file 0) 1) \<noteq> 0" "r \<notin> above (one_file 0) 1" "lookup_node (one_file 0) 1 [98] = None"
    using r above_top [OF r(7)] one_file_other [of 0 "[98]"] by simp_all
  obtain err f' where f': "rename_node (one_file 0) 1 [97] 1 [98] False = Some (err, f')"
    "if err = 0 then lookup_node f' 1 [98] = Some r \<and> n_parent (nd f' r) = Some 1
     else err = - ENOMEM \<and> 32 \<le> length [98 :: u8] \<and> (\<exists>k. \<not> mallocs (one_file 0) k) \<and> n_name (nd f' r) = None"
    "(1, [97]) \<noteq> (1 :: u64, [98 :: u8]) \<longrightarrow> lookup_node f' 1 [97] = None"
    using rename_moves_node [OF r(1,2) h(1,2) r(5) h(3,4), of False] by auto
  then show ?thesis using r(2) by (auto split: if_splits)
qed

text \<open>
  The exchange of two names gives each node the other's name and changes no other node that is
  in use.
\<close>

theorem exchange_swaps_nodes:
  assumes "reached f" "lookup_node f olddir oldname = Some r" "lookup_node f newdir newname = Some n" "r \<noteq> n"
    and "s \<in> live f" "nlookup (nd f s) \<noteq> 0" "n_nodeid (nd f s) = olddir"
    and "p \<in> live f" "nlookup (nd f p) \<noteq> 0" "n_nodeid (nd f p) = newdir"
    and "r \<notin> above f p" "n \<notin> above f s" "\<forall>k. mallocs f k"
  shows "\<exists>f'. exchange_node f olddir oldname newdir newname = Some (0, f') \<and> reached f' \<and>
    lookup_node f' newdir newname = Some r \<and> lookup_node f' olddir oldname = Some n \<and>
    (\<forall>q \<in> live f. nlookup (nd f q) \<noteq> 0 \<longrightarrow> q \<notin> {r, n} \<longrightarrow>
       q \<in> live f' \<and> n_parent (nd f' q) = n_parent (nd f q) \<and> n_name (nd f' q) = n_name (nd f q) \<and> nlookup (nd f' q) = nlookup (nd f q))"
proof -
  have t: "tree_ok f" using reached_ok [OF assms(1)] by simp
  have h: "s \<in> held f" "p \<in> held f" using assms(5,6,8,9) by (simp_all add: held_def)
  obtain f' where f': "exchange_node f olddir oldname newdir newname = Some (0, f')" "others_kept {r, n} f f'"
    "lookup_node f' newdir newname = Some r" "lookup_node f' olddir oldname = Some n"
    using exchange_ok [OF t assms(2-4) h(1) assms(7) h(2) assms(10-12)] assms(13) by blast
  have "guarded f (Exchange olddir oldname newdir newname)"
    using assms(2-4,7,10-12) h by auto
  then have "reached f'" by (rule reached.step [OF assms(1)]) (simp add: f'(1))
  moreover have "q \<in> live f' \<and> n_parent (nd f' q) = n_parent (nd f q) \<and> n_name (nd f' q) = n_name (nd f q) \<and> nlookup (nd f' q) = nlookup (nd f q)"
    if "q \<in> live f" "nlookup (nd f q) \<noteq> 0" "q \<notin> {r, n}" for q
  proof -
    have l: "q \<in> live f'" using others_keptD(3) [OF f'(2) that(3)] that by (simp add: held_def)
    then show ?thesis using others_kept_node [OF f'(2) that(3) l] by simp
  qed
  ultimately show ?thesis using f' by blast
qed

theorem exchange_swaps_nodes_witness:
  "\<exists>f r n f'. lookup_node f 1 [97] = Some r \<and> lookup_node f 1 [98] = Some n \<and> exchange_node f 1 [97] 1 [98] = Some (0, f') \<and>
    lookup_node f' 1 [98] = Some r \<and> lookup_node f' 1 [97] = Some n"
proof -
  obtain r where r: "reached (one_file 0)" "lookup_node (one_file 0) 1 [97] = Some r" "live (one_file 0) = {1, r}" "r \<noteq> 1"
    "n_nodeid (nd (one_file 0) 1) = 1" "nlookup (nd (one_file 0) 1) = 1" "nlookup (nd (one_file 0) r) = 1" "\<forall>k. mallocs (one_file 0) k"
    "n_parent (nd (one_file 0) 1) = None" "n_parent (nd (one_file 0) r) = Some 1" "n_name (nd (one_file 0) r) = Some [97]" "tree_ok (one_file 0)"
    by (rule one_file [of 0]) auto
  have one: "1 \<in> live (one_file 0)" and room: "\<forall>q \<in> live (one_file 0). nlookup (nd (one_file 0) q) + 1 \<noteq> 0"
    and small: "card (live (one_file 0)) < 2 ^ 32 - 2" and none: "lookup_node (one_file 0) 1 [98] = None"
    using r one_file_other [of 0 "[98]"] by simp_all
  obtain n f where f: "find_node (one_file 0) 1 (Some [98]) = Some (Some n, f)" "born n 1 [98] (one_file 0) f" "tree_ok f"
    "lookup_node f 1 [98] = Some n" "live f = insert n (live (one_file 0))"
    using find_new [OF r(12) one r(5) none small r(8)] by blast
  obtain m where m: "n \<notin> live (one_file 0)" "mallocs f = mallocs (one_file 0)"
    "nodes f = (nodes (one_file 0))(n \<mapsto> m, 1 \<mapsto> (nd (one_file 0) 1)\<lparr>refctr := refctr (nd (one_file 0) 1) + 1\<rparr>)"
    using f(2) unfolding born_def by blast
  have "guarded (one_file 0) (Find 1 (Some [98]))" using one room small r(5) by auto
  then have re: "reached f" by (rule reached.step [OF r(1)]) (simp add: f(1))
  have ne: "n \<noteq> 1" "r \<noteq> n" using m(1) r(3) by auto
  have g: "nd f 1 = (nd (one_file 0) 1)\<lparr>refctr := refctr (nd (one_file 0) 1) + 1\<rparr>" "nd f r = nd (one_file 0) r"
    using ne r(4) by (simp_all add: m(3))
  have l1: "1 \<in> live f" "r \<in> live f" "n_nodeid (nd f 1) = 1" "nlookup (nd f 1) \<noteq> 0" "n_parent (nd f 1) = None" "\<forall>k. mallocs f k"
    using f(5) r g m(2) by simp_all
  have lr: "lookup_node f 1 [97] = Some r"
    using lookup_parent [OF f(3) l1(1,3), of "[97]" r] l1(2) g(2) r(10,11) by simp
  have ab: "r \<notin> above f 1" "n \<notin> above f 1" using above_top [OF l1(5)] ne r(4) by simp_all
  show ?thesis
    using exchange_swaps_nodes [OF re lr f(4) ne(2) l1(1,4,3,1,4,3) ab l1(6)] lr f(4) by blast
qed

text \<open>
  The search for an unused number ends as long as some 32-bit number other than 0 and the one
  for unknown inodes is unused, and finds one that no node has; only the counter and the generation change.
\<close>

theorem next_id_finds_unused:
  assumes "reached f" "card (live f) < 2 ^ 32 - 2"
  shows "\<exists>ino g. next_id f = Some (ino, f\<lparr>ctr := ino, generation := g\<rparr>) \<and> ino \<noteq> 0 \<and> ino \<noteq> FUSE_UNKNOWN_INO \<and>
    (\<forall>r \<in> live f. n_nodeid (nd f r) \<noteq> ino)"
proof -
  have "tables_ok {} f" using reached_ok [OF assms(1)] tree_okD(4) by blast
  then show ?thesis
    using free_number [OF _ assms(2)] next_id_ok [of _ f] get_node_none [of f] by metis
qed

theorem next_id_finds_unused_witness:
  "\<exists>ino g. next_id (one_file 0) = Some (ino, (one_file 0)\<lparr>ctr := ino, generation := g\<rparr>) \<and> ino \<noteq> 1"
proof -
  obtain r where r: "reached (one_file 0)" "live (one_file 0) = {1, r}" "n_nodeid (nd (one_file 0) 1) = 1" "r \<noteq> 1"
    by (rule one_file [of 0]) auto
  have "card (live (one_file 0)) < 2 ^ 32 - 2" using r(2,4) by simp
  from next_id_finds_unused [OF r(1) this] show ?thesis using r(2,3) by auto
qed

text \<open>
  C28. When no node of the list \<open>lru_table\<close> is locked, cleaning the cache returns, and asks to be
  called again after a minute to an hour. It drops a node with a lookup only when the node is in
  \<open>lru_table\<close>, where forgetting puts a node that has one lookup left, and was put there longer ago
  than \<open>remember\<close>. And it does drop each node that is that old, as are the ones before it in the
  list, and has no children.
\<close>

theorem clean_drops_old_only:
  assumes "reached f" "\<forall>r \<in> set (lru_table f). treelock (nd f r) = 0"
  shows "\<exists>d f'. fuse_clean_cache f = Some (d, f') \<and> 60 \<le> d \<and> d \<le> 3600 \<and> reached f' \<and>
    (\<forall>q \<in> live f. nlookup (nd f q) \<noteq> 0 \<longrightarrow> q \<notin> live f' \<longrightarrow>
       q \<in> set (lru_table f) \<and> nlookup (nd f q) = 1 \<and> now f - forget_time (nd f q) > remember f) \<and>
    (\<forall>xs q ys. lru_table f = xs @ q # ys \<longrightarrow> (\<forall>x \<in> set (xs @ [q]). now f - forget_time (nd f x) > remember f) \<longrightarrow>
       (\<forall>c \<in> live f. n_parent (nd f c) \<noteq> Some q) \<longrightarrow> q \<notin> live f')"
proof -
  have t: "tree_ok f" "lru_ok f" using reached_ok [OF assms(1)] by simp_all
  obtain f' where f': "fuse_clean_cache f = Some (clean_delay f', f')"
    "others_kept {q \<in> set (lru_table f). now f - forget_time (nd f q) > remember f} f f'"
    using clean_ok [OF t assms(2)] by blast
  have "guarded f Clean" using assms(2) by simp
  then have "reached f'" by (rule reached.step [OF assms(1)]) (simp add: f'(1))
  moreover have "60 \<le> clean_delay f' \<and> clean_delay f' \<le> 3600" by (simp add: clean_delay_def Let_def)
  moreover have "q \<in> set (lru_table f) \<and> nlookup (nd f q) = 1 \<and> now f - forget_time (nd f q) > remember f"
    if "q \<in> live f" "nlookup (nd f q) \<noteq> 0" "q \<notin> live f'" for q
    using others_keptD(3) [OF f'(2), of q] that lru_okD(4) [OF t(2), of q] by (auto simp: held_def)
  moreover have "q \<notin> live f'"
    if l: "lru_table f = xs @ q # ys" and old: "\<forall>x \<in> set (xs @ [q]). now f - forget_time (nd f x) > remember f"
      and ch: "\<forall>c \<in> live f. n_parent (nd f c) \<noteq> Some q" for xs q ys
  proof -
    have oc: "\<forall>p \<in> set (xs @ q # ys). only_cached f p"
      using lru_okD(3-5) [OF t(2)] assms(2) unfolding l [symmetric] by (simp add: only_cached_def)
    have d: "distinct (xs @ q # ys)" "lru_enabled f" using lru_okD(1,2) [OF t(2)] by (simp_all flip: l) (simp add: l)
    have "clean_loop (now f) (xs @ q # ys) f = Some f'"
      using f'(1) by (auto simp: fuse_clean_cache_def bind_eq_Some_conv simp flip: l)
    then show ?thesis by (rule clean_loop_drops [OF t d(2,1) oc old ch])
  qed
  ultimately show ?thesis using f'(1) by blast
qed

text \<open>
  A file that is looked up and forgotten again, with 60 seconds to be remembered: a cleaning a minute
  later keeps it, one after 61 seconds drops it.
\<close>

lemma forgotten_file:
  obtains r f where "forget_node (one_file 60) (n_nodeid (nd (one_file 60) r)) 1 = Some (True, f)" "reached f" "live f = {1, r}"
    "r \<noteq> 1" "lru_table f = [r]" "remember f = 60" "treelock (nd f r) = 0" "forget_time (nd f r) = now f"
    "nlookup (nd f r) = 1" "nlookup (nd f 1) = 1" "n_parent (nd f r) = Some 1" "n_parent (nd f 1) = None"
proof (rule one_file [of 60])
  let ?g = "one_file 60"
  fix r assume r: "find_node (first_state 60) 1 (Some [97]) = Some (Some r, ?g)" "tree_ok ?g" "reached ?g"
    "lookup_node ?g 1 [97] = Some r" "live ?g = {1, r}" "r \<noteq> 1" "n_nodeid (nd ?g 1) = 1" "nlookup (nd ?g 1) = 1"
    "n_parent (nd ?g 1) = None" "nlookup (nd ?g r) = (if (60::int) \<noteq> 0 then 2 else 1)" "n_parent (nd ?g r) = Some 1"
    "n_name (nd ?g r) = Some [97]" "treelock (nd ?g r) = 0" "remember ?g = 60" "\<forall>k. mallocs ?g k" "lru_table ?g = []"
    "n_nodeid (nd ?g r) \<noteq> 1" "treelock (nd ?g 1) = 0"
  have rl: "r \<in> live ?g" "n_nodeid (nd ?g r) \<noteq> FUSE_ROOT_ID" "nlookup (nd ?g r) = 2" using r by simp_all
  define g where "g = upd r (\<lambda>n. n\<lparr>nlookup := nlookup n - 1\<rparr>) ?g"
  obtain f where f: "forget_node ?g (n_nodeid (nd ?g r)) 1 = Some (True, f)" "f = set_forget_time g r"
    using forget_ok [OF r(2) rl(1) refl rl(2), of 1, OF _ _ g_def] rl(3) r(14,16) by (auto simp: g_def lru_enabled_def)
  have "guarded ?g (Forget (n_nodeid (nd ?g r)) 1)" using rl by auto
  then have re: "reached f" by (rule reached.step [OF r(3)]) (simp add: f(1))
  have n: "nodes f = (nodes ?g)(r \<mapsto> (nd ?g r)\<lparr>nlookup := 1, forget_time := now ?g\<rparr>)" "lru_table f = [r]" "remember f = 60" "now f = now ?g"
    using r(14,16) rl(3) by (simp_all add: f(2) set_forget_time_def g_def upd_def Let_def)
  show thesis
    by (rule that [OF f(1) re]) (use n r rl in \<open>auto simp: live_def\<close>)
qed

theorem clean_drops_old_only_witness:
  "\<exists>r f d d' f' f''. forget_node (one_file 60) (n_nodeid (nd (one_file 60) r)) 1 = Some (True, f) \<and> lru_table f = [r] \<and>
    fuse_clean_cache (f\<lparr>now := now f + 60\<rparr>) = Some (d, f') \<and> r \<in> live f' \<and>
    fuse_clean_cache (f\<lparr>now := now f + 61\<rparr>) = Some (d', f'') \<and> r \<notin> live f'' \<and> 1 \<in> live f''"
proof (rule forgotten_file)
  fix r f assume f: "forget_node (one_file 60) (n_nodeid (nd (one_file 60) r)) 1 = Some (True, f)" "reached f" "live f = {1, r}"
    "r \<noteq> 1" "lru_table f = [r]" "remember f = 60" "treelock (nd f r) = 0" "forget_time (nd f r) = now f"
    "nlookup (nd f r) = 1" "nlookup (nd f 1) = 1" "n_parent (nd f r) = Some 1" "n_parent (nd f 1) = None"
  have re: "reached (f\<lparr>now := t\<rparr>)" for t
    by (rule reached.step [OF f(2), of "Pass t"]) simp_all
  have v: "live (f\<lparr>now := t\<rparr>) = {1, r}" "nd (f\<lparr>now := t\<rparr>) = nd f" for t
    using f(3) by (simp_all add: live_def fun_eq_iff)
  have u: "\<forall>p \<in> set (lru_table (f\<lparr>now := t\<rparr>)). treelock (nd (f\<lparr>now := t\<rparr>) p) = 0" for t using f(5,7) by (simp add: v)
  obtain d f' where a: "fuse_clean_cache (f\<lparr>now := now f + 60\<rparr>) = Some (d, f')" "r \<in> live f'"
    using clean_drops_old_only [OF re u, of "now f + 60"] f(5,6,8,9) by (auto simp: v)
  obtain d' f'' where b: "fuse_clean_cache (f\<lparr>now := now f + 61\<rparr>) = Some (d', f'')"
    "\<forall>q \<in> {1, r}. nlookup (nd f q) \<noteq> 0 \<longrightarrow> q \<notin> live f'' \<longrightarrow> q \<in> {r}"
    "\<forall>xs q ys. [r] = xs @ q # ys \<longrightarrow> (\<forall>x \<in> set (xs @ [q]). now f + 61 - forget_time (nd f x) > 60) \<longrightarrow>
       (\<forall>c \<in> {1, r}. n_parent (nd f c) \<noteq> Some q) \<longrightarrow> q \<notin> live f''"
    using clean_drops_old_only [OF re u, of "now f + 61"] f(5,6) by (auto simp: v)
  have "\<forall>c \<in> {1, r}. n_parent (nd f c) \<noteq> Some r" using f(4,11,12) by auto
  then have "r \<notin> live f''" using b(3) [THEN spec, of "[]", THEN spec, of r, THEN spec, of "[]"] f(8) by simp
  moreover have "1 \<in> live f''" using b(2) f(4,10) by auto
  ultimately show ?thesis using f(1,5) a b(1) by blast
qed

text \<open>
  C29. With \<open>remember\<close>, a node in use can be freed. When a file of which the kernel has two lookups
  (and the cache one) is unlinked, the cache gives up its lookup; when the kernel then forgets one of
  its two, the one lookup left is taken for that of the cache, and the next cleaning deletes the node.
  The kernel's next request on it finds no node, which is fatal.
\<close>

theorem unlinked_node_dropped_in_use:
  assumes "reached f" "remember f > 0" "lookup_node f dir name = Some r" "n_nodeid (nd f r) = ino" "nlookup (nd f r) = 3"
    and "\<forall>c \<in> live f. n_parent (nd f c) \<noteq> Some r" "treelock (nd f r) = 0" "lru_table f = []" "t - now f > remember f"
  shows "\<exists>f1 f2 d f3. remove_node f dir name = Some f1 \<and> forget_node f1 ino 1 = Some (True, f2) \<and>
    fuse_clean_cache (f2\<lparr>now := t\<rparr>) = Some (d, f3) \<and> get_fuse_node f3 ino = None"
proof -
  have ok: "tree_ok f" "lru_ok f" using reached_ok [OF assms(1)] by simp_all
  note l = lookup_named [OF ok(1) assms(3)]
  obtain f1 where f1: "unlink_node f r = Some f1" "tree_ok f1" "pruned (above f r - {r}) (upd r (unlinked f) f) f1"
    using unlink_ok [OF ok(1) l(2,5)] assms(5) by auto
  note k = loses_name [OF ok(1) l(2) f1(3), unfolded unlinked_def, simplified]
  have r1: "nlookup (nd f1 r) = 2" "n_nodeid (nd f1 r) = ino" "treelock (nd f1 r) = 0"
    using k(3) assms(2,4,5,7) by simp_all
  have "ino \<noteq> FUSE_ROOT_ID" using l(5) assms(4) by simp
  have lr1: "lru_table f1 = []" "remember f1 = remember f" using unlink_lru [OF f1(1)] assms(8) by (simp_all add: lru_less_def)
  have now1: "now f1 = now f" using prunedD(9) [OF f1(3)] by simp
  define g where "g = upd r (\<lambda>n. n\<lparr>nlookup := nlookup n - 1\<rparr>) f1"
  have g1: "nlookup (nd g r) = 1" using r1 by (simp add: g_def)
  obtain f2 where f2: "forget_node f1 ino 1 = Some (True, f2)" "tree_ok f2" "f2 = set_forget_time g r"
    using forget_ok [OF f1(2) k(2) r1(2) \<open>ino \<noteq> FUSE_ROOT_ID\<close>, of 1, OF _ _ g_def] r1 g1 assms(2) lr1
    by (auto simp: lru_enabled_def)
  let ?h = "f2\<lparr>now := t\<rparr>"
  have th: "tree_ok ?h" by (rule tree_ok_cong [OF f2(2)]) simp_all
  have sh: "lru_table ?h = [r]" "remember ?h = remember f" "now ?h = t" "r \<in> live ?h" "nd ?h r = (nd g r)\<lparr>forget_time := now f\<rparr>"
    using lr1 now1 k(2) by (simp_all add: f2(3) set_forget_time_def g_def live_def upd_def Let_def)
  have vh: "nlookup (nd ?h r) = 1" "n_nodeid (nd ?h r) = ino" "treelock (nd ?h r) = 0" "forget_time (nd ?h r) = now f"
    using sh(5) g1 r1 by (simp_all add: g_def)
  have "kids ?h {} r = {}"
  proof -
    have "n_parent (nd ?h c) \<noteq> Some r" if "c \<in> live ?h" for c
    proof (cases "c = r")
      case True
      then show ?thesis using not_above_parent [OF links_okD(6) [OF tree_okD(5) [OF th]] sh(4), of r] by auto
    next
      case False
      have e: "nd ?h c = nd f1 c" "c \<in> live f1"
        using False that k(2) by (auto simp: f2(3) set_forget_time_def g_def live_def upd_def Let_def split: if_splits)
      then show ?thesis
        using others_kept_node(1) [OF k(1), of c] others_keptD(1) [OF k(1), of c] False assms(6) by auto
    qed
    then show ?thesis by (auto simp: kids_def)
  qed
  then have one: "\<not> refctr (nd ?h r) > 1"
    using refs_okD(1) [OF tree_okD(6) [OF th] sh(4)] by (simp add: looks_def)
  have cached: "only_cached ?h r" using sh(4) vh \<open>ino \<noteq> FUSE_ROOT_ID\<close> by (simp add: only_cached_def)
  have "distinct (lru_table ?h)" "lru_enabled ?h" using sh assms(2) by (simp_all add: lru_enabled_def)
  from clean_step [OF th this cached one]
  obtain f4 f3 where c: "unhash_name (upd r (\<lambda>n. n\<lparr>nlookup := 0\<rparr>) ?h) r = Some f4" "unref_node f4 r = Some f3" "tree_ok f3"
    "others_kept {r} ?h f3" "r \<notin> live f3"
    by blast
  have "fuse_clean_cache ?h = Some (clean_delay f3, f3)"
    unfolding fuse_clean_cache_def sh(1,3)
    using c(1,2) one vh sh(2) assms(9) by simp
  moreover have "get_fuse_node f3 ino = None"
  proof -
    have "n_nodeid (nd f3 q) \<noteq> ino" if q: "q \<in> live f3" for q
    proof -
      have "q \<noteq> r" using q c(5) by blast
      then have "n_nodeid (nd f3 q) = n_nodeid (nd ?h q)" "q \<in> live ?h"
        using others_kept_node(4) [OF c(4) _ q] others_keptD(1) [OF c(4) _ q] by simp_all
      then show ?thesis
        using inj_onD [OF tables_okD(7) [OF tree_okD(4) [OF th]], of q r] sh(4) vh(2) \<open>q \<noteq> r\<close> by auto
    qed
    then show ?thesis using get_node_none [OF tree_okD(4) [OF c(3)]] by (simp add: get_fuse_node_def)
  qed
  moreover have "remove_node f dir name = Some f1" using f1(1) assms(3) by (simp add: remove_node_def)
  ultimately show ?thesis using f2(1) by blast
qed

theorem unlinked_node_dropped_in_use_witness:
  "\<exists>f r f1 f2 d f3. find_node (one_file 60) 1 (Some [97]) = Some (Some r, f) \<and> remove_node f 1 [97] = Some f1 \<and>
    forget_node f1 (n_nodeid (nd f r)) 1 = Some (True, f2) \<and> fuse_clean_cache (f2\<lparr>now := now f + 61\<rparr>) = Some (d, f3) \<and>
    get_fuse_node f3 (n_nodeid (nd f r)) = None"
proof -
  let ?g = "one_file 60"
  obtain r where r: "reached ?g" "lookup_node ?g 1 [97] = Some r" "live ?g = {1, r}" "r \<noteq> 1" "n_nodeid (nd ?g 1) = 1"
    "nlookup (nd ?g 1) = 1" "nlookup (nd ?g r) = 2" "n_parent (nd ?g 1) = None" "n_parent (nd ?g r) = Some 1"
    "n_name (nd ?g r) = Some [97]" "treelock (nd ?g r) = 0" "remember ?g = 60" "lru_table ?g = []" "tree_ok ?g"
    by (rule one_file [of 60]) auto
  define f where "f = inc_nlookup ?g r"
  have rl: "r \<in> live ?g" "nlookup (nd ?g r) + 1 \<noteq> 0" using r by simp_all
  have e: "?g = (if lru_enabled ?g \<and> nlookup (nd ?g r) = 1 then remove_node_lru ?g r else ?g)" using r(7) by simp
  note k = find_known [OF r(14) rl e f_def]
  have fi: "find_node ?g 1 (Some [97]) = Some (Some r, f)" using r(2,7) by (simp add: find_node_def f_def)
  have one: "1 \<in> live ?g" and room: "\<forall>q \<in> live ?g. nlookup (nd ?g q) + 1 \<noteq> 0" and small: "card (live ?g) < 2 ^ 32 - 2"
    using r by simp_all
  have "guarded ?g (Find 1 (Some [97]))" using one room small r(5) by auto
  then have re: "reached f" by (rule reached.step [OF r(1)]) (simp add: fi)
  have lf: "live f = {1, r}" using r(3) by (auto simp: live_def k(2))
  have lk: "lookup_node f 1 [97] = Some r"
    using lookup_parent [OF k(1), of 1 1 "[97]" r] r(4,5,9,10) lf by (simp add: k(2))
  have "\<exists>f1 f2 d f3. remove_node f 1 [97] = Some f1 \<and> forget_node f1 (n_nodeid (nd f r)) 1 = Some (True, f2) \<and>
    fuse_clean_cache (f2\<lparr>now := now f + 61\<rparr>) = Some (d, f3) \<and> get_fuse_node f3 (n_nodeid (nd f r)) = None"
    by (rule unlinked_node_dropped_in_use [OF re _ lk refl]) (use r k(2,3,5) lf in simp_all)
  then show ?thesis using fi by blast
qed

end
