(* ===== verification/Fuse_Path_Runs.thy ===== *)
theory Fuse_Path_Runs
  imports Fuse_Runs
begin

text \<open>
  Paths and their locks in the states that the library reaches: a path leads back to its node, a lock taken
  is undone by its release, holders are kept apart, and a freed path wakes the first that waits.
\<close>


section \<open>Paths\<close>

lemma follow_relocked:
  assumes "tree_at_rest f" "f' = (relock h f)\<lparr>malloc_no := k\<rparr>"
  shows "follow f' i xs = follow f i xs"
proof (induction xs arbitrary: i)
  case (Cons x xs)
  note v = relocked_views [OF assms]
  show ?case
  proof (cases "lookup_node f i x")
    case (Some r)
    then have "r \<in> live f" using lookup_node_iff [OF assms(1)] by (simp add: named_def)
    then show ?thesis using Some v(3,7) Cons.IH by simp
  qed (simp add: v(3))
qed simp

lemma chain_named: "chain f r qs e \<Longrightarrow> q \<in> set qs \<Longrightarrow> q \<in> live f \<and> n_parent (nd f q) \<noteq> None"
proof (induction rule: chain.induct)
  case (up r name p qs e)
  then show ?case by (cases "q = r") simp_all
qed simp

lemma use_path:
  assumes "tree_at_rest f" "r \<in> live f" "n_nodeid (nd f r) = ino" "path_fits f ino name" "wr \<longrightarrow> lk \<and> name \<noteq> None"
    and "try_get_path f ino name wr lk = Some (Inr (path, w), f')"
  obtains qs e k where "chain f r qs e" "n_nodeid (nd f e) = FUSE_ROOT_ID" "path = full_path f qs name"
    "w = (if wr then lookup_node f ino (the name) else None)" "f' = (relock (taken lk qs w) f)\<lparr>malloc_no := k\<rparr>"
    "lk \<longrightarrow> (\<forall>q \<in> set qs. 0 \<le> treelock (nd f q))" "\<forall>x. w = Some x \<longrightarrow> treelock (nd f x) = 0"
proof -
  obtain qs e where c: "chain f r qs e" using chain_exists [OF assms(1,2)] by blast
  have g: "get_fuse_node f ino = Some r" using get_node_iff [of f ino r] assms(1-3) by (simp add: tree_at_rest_def)
  have len: "length (path_string f qs) + length (name_part name) + 2 \<le> 0xFFFFFFFF"
    using assms(4) g c unfolding path_fits_def by blast
  show ?thesis
    using try_get_path_run [OF assms(1-3) c len assms(5) refl] assms(6) that [OF c] by auto
qed

lemma follow_malloc [simp]: "follow (f\<lparr>malloc_no := k\<rparr>) i xs = follow f i xs"
  by (induction xs arbitrary: i) (auto split: option.splits)

text \<open>
  C30. The path that \<open>try_get_path\<close> puts together leads back: looked up in the cache it gives the
  number of the node it was made for (or, with a name, of the node of that name).
\<close>

theorem path_leads_back:
  assumes "reached f" "r \<in> live f" "n_nodeid (nd f r) = ino" "path_fits f ino name" "wr \<longrightarrow> lk \<and> name \<noteq> None"
    and "try_get_path f ino name wr lk = Some (Inr (path, w), f')"
    and "\<forall>q \<in> live f. n_parent (nd f q) \<noteq> None \<longrightarrow> plain_name (the (n_name (nd f q)))"
    and "case name of None \<Rightarrow> t = r | Some n \<Rightarrow> lookup_node f ino n = Some t" "mallocs f' (malloc_no f')"
  shows "fst (lookup_path_in_cache f' path) = Inr (n_nodeid (nd f t))"
proof -
  have rest: "tree_at_rest f" using reached_ok [OF assms(1)] tree_okD(3) by blast
  obtain qs e k where p: "chain f r qs e" "n_nodeid (nd f e) = FUSE_ROOT_ID" "path = full_path f qs name"
    "w = (if wr then lookup_node f ino (the name) else None)" "f' = (relock (taken lk qs w) f)\<lparr>malloc_no := k\<rparr>"
    "lk \<longrightarrow> (\<forall>q \<in> set qs. 0 \<le> treelock (nd f q))" "\<forall>x. w = Some x \<longrightarrow> treelock (nd f x) = 0"
    by (rule use_path [OF rest assms(2-6)])
  have plain: "plain_name (the (n_name (nd f q)))" if "q \<in> set qs" for q
  proof -
    have "q \<in> live f \<and> n_parent (nd f q) \<noteq> None" by (rule chain_named [OF p(1) that])
    then show ?thesis using assms(7) by blast
  qed
  have pn: "\<forall>n. name = Some n \<longrightarrow> plain_name n"
  proof (intro allI impI)
    fix n assume n: "name = Some n"
    then have "t \<in> named f" "n_name (nd f t) = Some n" using assms(8) lookup_node_iff [OF rest] by simp_all
    then show "plain_name n" using assms(7) by (force simp: named_def)
  qed
  have "follow f FUSE_ROOT_ID (path_elements path) = Some (n_nodeid (nd f t))"
  proof (cases name)
    case None
    then show ?thesis using full_path_elements [of qs f name] plain follow_chain [OF rest p(1,2)] assms(8) p(3) by simp
  next
    case (Some n)
    then show ?thesis
      using full_path_elements [of qs f name] plain pn follow_chain [OF rest p(1,2)] assms(3,8) p(3) by (simp add: follow_append)
  qed
  then show ?thesis
    using assms(9) follow_relocked [OF rest p(5)] by (simp add: lookup_path_in_cache_def next_malloc_def Let_def)
qed


section \<open>A path when nothing is locked\<close>

lemma path_available:
  assumes "tree_at_rest f" "r \<in> live f" "n_nodeid (nd f r) = ino" "chain f r qs e" "n_nodeid (nd f e) = FUSE_ROOT_ID" "path_fits f ino name"
    and "wr \<longrightarrow> name \<noteq> None" "\<forall>k. mallocs f k" "\<forall>q \<in> set qs. 0 \<le> treelock (nd f q)"
    and "wn = (if wr then lookup_node f ino (the name) else None)" "\<forall>w. wn = Some w \<longrightarrow> treelock (nd f w) = 0"
  shows "\<exists>k. try_get_path f ino name wr True = Some (Inr (full_path f qs name, wn), (relock (taken True qs wn) f)\<lparr>malloc_no := k\<rparr>)"
proof -
  have g: "get_fuse_node f ino = Some r" using get_node_iff [of f ino r] assms(1-3) by (simp add: tree_at_rest_def)
  have len: "length (path_string f qs) + length (name_part name) + 2 \<le> 0xFFFFFFFF"
    using assms(6) g assms(4) unfolding path_fits_def by blast
  have wr: "wr \<longrightarrow> True \<and> name \<noteq> None" using assms(7) by simp
  have "\<not> path_cause f qs e True err" for err
    using assms(5,8,9) by (auto simp: path_cause_def)
  then show ?thesis using try_get_path_run [OF assms(1-4) len wr assms(10)] assms(11) by blast
qed

lemma small_tree_fits:
  assumes "\<And>r qs e. get_fuse_node f ino = Some r \<Longrightarrow> chain f r qs e \<Longrightarrow> length (path_string f qs) + length (name_part name) \<le> 1000"
  shows "path_fits f ino name"
  unfolding path_fits_def using assms by fastforce

lemma one_file_chains:
  obtains r where "reached (one_file rem)" "lookup_node (one_file rem) 1 [97] = Some r" "live (one_file rem) = {1, r}" "r \<noteq> 1"
    "n_nodeid (nd (one_file rem) 1) = 1" "n_parent (nd (one_file rem) 1) = None" "n_name (nd (one_file rem) r) = Some [97]"
    "\<forall>k. mallocs (one_file rem) k" "\<forall>q \<in> live (one_file rem). treelock (nd (one_file rem) q) = 0"
    "chain (one_file rem) 1 [] 1" "chain (one_file rem) r [r] 1" "tree_at_rest (one_file rem)"
    "get_fuse_node (one_file rem) 1 = Some 1" "get_fuse_node (one_file rem) (n_nodeid (nd (one_file rem) r)) = Some r"
proof -
  obtain r where r: "tree_ok (one_file rem)"
    "reached (one_file rem)" "lookup_node (one_file rem) 1 [97] = Some r" "live (one_file rem) = {1, r}" "r \<noteq> 1"
    "n_nodeid (nd (one_file rem) 1) = 1" "nlookup (nd (one_file rem) 1) = 1" "n_parent (nd (one_file rem) 1) = None"
    "n_parent (nd (one_file rem) r) = Some 1"
    "n_name (nd (one_file rem) r) = Some [97]" "treelock (nd (one_file rem) r) = 0"
    "\<forall>k. mallocs (one_file rem) k" "n_nodeid (nd (one_file rem) r) \<noteq> 1" "treelock (nd (one_file rem) 1) = 0"
    by (rule one_file [of rem]) blast
  have c1: "chain (one_file rem) 1 [] 1" using r by (intro chain.stop) simp_all
  have c2: "chain (one_file rem) r [r] 1" using r by (intro chain.up [OF _ _ r(10,9) c1]) simp_all
  have rest: "tree_at_rest (one_file rem)" "tables_ok {} (one_file rem)"
    using tree_okD(3,4) [OF r(1)] by simp_all
  have g: "get_fuse_node (one_file rem) 1 = Some 1" "get_fuse_node (one_file rem) (n_nodeid (nd (one_file rem) r)) = Some r"
    using get_node_iff [OF rest(2)] r(4,6) by simp_all
  have t: "\<forall>q \<in> live (one_file rem). treelock (nd (one_file rem) q) = 0" using r(4,11,14) by simp
  show ?thesis by (rule that [OF r(2-6,8,10,12) t c1 c2 rest(1) g])
qed


lemma one_file_fits: "ino \<in> {1, n_nodeid (nd (one_file rem) r)} \<Longrightarrow> lookup_node (one_file rem) 1 [97] = Some r \<Longrightarrow>
  length (name_part name) \<le> 500 \<Longrightarrow> path_fits (one_file rem) ino name"
proof (rule small_tree_fits)
  fix q qs e
  assume i: "ino \<in> {1, n_nodeid (nd (one_file rem) r)}" "lookup_node (one_file rem) 1 [97] = Some r" "length (name_part name) \<le> 500"
    and q: "get_fuse_node (one_file rem) ino = Some q" "chain (one_file rem) q qs e"
  obtain s where s: "lookup_node (one_file rem) 1 [97] = Some s" "n_name (nd (one_file rem) s) = Some [97]"
    "chain (one_file rem) 1 [] 1" "chain (one_file rem) s [s] 1"
    "get_fuse_node (one_file rem) 1 = Some 1" "get_fuse_node (one_file rem) (n_nodeid (nd (one_file rem) s)) = Some s"
    by (rule one_file_chains [of rem]) blast
  have "q = 1 \<or> q = s" using i(1,2) q(1) s(1,5,6) by auto
  then have "qs = [] \<or> qs = [s]" using chain_unique [OF q(2)] s(3,4) by blast
  then show "length (path_string (one_file rem) qs) + length (name_part name) \<le> 1000"
    using i(3) s(2) by (auto simp: path_string_def)
qed

lemma one_file_locks:
  obtains r k1 k2 where "lookup_node (one_file rem) 1 [97] = Some r"
    "try_get_path (one_file rem) (n_nodeid (nd (one_file rem) r)) None False True =
      Some (Inr ([47, 97], None), (relock (taken True [r] None) (one_file rem))\<lparr>malloc_no := k1\<rparr>)"
    "try_get_path (one_file rem) 1 (Some [97]) True True =
      Some (Inr ([47, 97], Some r), (relock (taken True [] (Some r)) (one_file rem))\<lparr>malloc_no := k2\<rparr>)"
    "path_fits (one_file rem) (n_nodeid (nd (one_file rem) r)) None" "path_fits (one_file rem) 1 (Some [97])"
proof -
  let ?f = "one_file rem"
  obtain r where r: "lookup_node ?f 1 [97] = Some r" "live ?f = {1, r}" "r \<noteq> 1" "n_nodeid (nd ?f 1) = 1"
    "n_name (nd ?f r) = Some [97]" "\<forall>k. mallocs ?f k" "\<forall>q \<in> live ?f. treelock (nd ?f q) = 0"
    "chain ?f 1 [] 1" "chain ?f r [r] 1" "tree_at_rest ?f"
    by (rule one_file_chains [of rem]) blast
  have fits: "path_fits ?f (n_nodeid (nd ?f r)) None" "path_fits ?f 1 (Some [97])"
    by (rule one_file_fits [OF _ r(1)]; simp)+
  have "\<exists>k. try_get_path ?f (n_nodeid (nd ?f r)) None False True =
      Some (Inr (full_path ?f [r] None, None), (relock (taken True [r] None) ?f)\<lparr>malloc_no := k\<rparr>)"
    by (rule path_available [OF r(10) _ refl r(9) r(4) fits(1) _ r(6)]) (use r in simp_all)
  moreover have "\<exists>k. try_get_path ?f 1 (Some [97]) True True =
      Some (Inr (full_path ?f [] (Some [97]), Some r), (relock (taken True [] (Some r)) ?f)\<lparr>malloc_no := k\<rparr>)"
    by (rule path_available [OF r(10) _ r(4) r(8) r(4) fits(2) _ r(6)]) (use r in simp_all)
  moreover have "full_path ?f [r] None = [47, 97]" "full_path ?f [] (Some [97]) = [47, 97]"
    using r(5) by (simp_all add: full_path_def path_string_def Let_def)
  ultimately show ?thesis using that r(1) fits by auto
qed

theorem path_leads_back_witness:
  "\<exists>r path w f'. try_get_path (one_file 0) (n_nodeid (nd (one_file 0) r)) None False True = Some (Inr (path, w), f') \<and>
     fst (lookup_path_in_cache f' path) = Inr (n_nodeid (nd (one_file 0) r))"
proof -
  let ?f = "one_file 0"
  obtain r where r: "reached ?f" "lookup_node ?f 1 [97] = Some r" "live ?f = {1, r}" "n_parent (nd ?f 1) = None"
    "n_name (nd ?f r) = Some [97]" "\<forall>k. mallocs ?f k"
    by (rule one_file_chains [of 0]) blast
  obtain s k where s: "lookup_node ?f 1 [97] = Some s" and "try_get_path ?f (n_nodeid (nd ?f s)) None False True =
      Some (Inr ([47, 97], None), (relock (taken True [s] None) ?f)\<lparr>malloc_no := k\<rparr>)" "path_fits ?f (n_nodeid (nd ?f s)) None"
    by (rule one_file_locks [of 0]) blast
  moreover have "s = r" using s r(2) by simp
  ultimately have t: "try_get_path ?f (n_nodeid (nd ?f r)) None False True =
      Some (Inr ([47, 97], None), (relock (taken True [r] None) ?f)\<lparr>malloc_no := k\<rparr>)" "path_fits ?f (n_nodeid (nd ?f r)) None" by simp_all
  have "fst (lookup_path_in_cache ((relock (taken True [r] None) ?f)\<lparr>malloc_no := k\<rparr>) [47, 97]) = Inr (n_nodeid (nd ?f r))"
    by (rule path_leads_back [OF r(1) _ refl t(2) _ t(1)]) (use r in \<open>simp_all add: plain_name_def\<close>)
  then show ?thesis using t(1) by blast
qed

lemma taken_unlock:
  assumes "tree_at_rest f" "get_fuse_node f ino = Some r" "chain f r qs e" "n_nodeid (nd f e) = FUSE_ROOT_ID"
    "\<forall>q \<in> set qs. 0 \<le> treelock (nd f q)" "\<forall>w. wn = Some w \<longrightarrow> w \<in> live f \<and> w \<notin> set qs \<and> treelock (nd f w) = 0"
  shows "unlock_path ((relock (taken True qs wn) f)\<lparr>malloc_no := k\<rparr>) ino wn None = Some (f\<lparr>malloc_no := k\<rparr>)"
proof -
  let ?g = "relock (taken True qs wn) f"
  have v: "tree_at_rest ?g" "get_fuse_node ?g ino = Some r" "chain ?g r qs e"
    using relock_rest [OF assms(1)] relock_searches(1) [OF assms(1)] assms(2) chain_relock [OF assms(3)] by simp_all
  have live: "set qs \<subseteq> live f" "e \<in> live f" using chain_live [OF assms(3)] by simp_all
  have "unlock_path (?g\<lparr>malloc_no := k\<rparr>) ino wn None =
    Some ((relock (lowered (set (take (length qs) qs))) (relock (\<lambda>q k. if wn = Some q then 0 else k) ?g))\<lparr>malloc_no := k\<rparr>)"
  proof (rule unlock_path_run [OF v order_refl])
    show "wn = None \<or> (\<exists>w. wn = Some w \<and> w \<in> live ?g \<and> w \<notin> set qs \<and> treelock (nd ?g w) = TREELOCK_WRITE)"
      using assms(6) by (cases wn) (auto simp: nd_relock)
    show "\<forall>q \<in> set (take (length qs) qs). can_unlock (treelock (nd ?g q))"
      using assms(5) live(1) by (force simp: nd_relock can_unlock_def)
    show "None = Some ((qs @ [e]) ! length qs) \<or> None = None \<and> length qs = length qs \<and> n_nodeid (nd ?g e) = FUSE_ROOT_ID"
      using assms(4) live(2) by (simp add: nd_relock)
  qed
  also have "relock (lowered (set (take (length qs) qs))) (relock (\<lambda>q k. if wn = Some q then 0 else k) ?g) = f"
    unfolding relock_relock
  proof (rule relock_id)
    fix q
    show "lowered (set (take (length qs) qs)) q (if wn = Some q then 0 else taken True qs wn q (treelock (nd f q))) = treelock (nd f q)"
      using assms(5,6) by (cases "q \<in> set qs") (fastforce, auto)
  qed
  finally show ?thesis .
qed

text \<open>
  C31. Locking a path and unlocking it again leaves every node as it was; a path that cannot be had
  leaves no lock behind, except for the mark of a writer that waits for the readers of its node.
\<close>

theorem path_lock_then_unlock:
  assumes "reached f" "get_fuse_node f ino \<noteq> None" "path_fits f ino name" "wr \<longrightarrow> name \<noteq> None"
  shows "\<exists>res f' k. try_get_path f ino name wr True = Some (res, f') \<and>
    (case res of
       Inr (path, w) \<Rightarrow> unlock_path f' ino w None = Some (f\<lparr>malloc_no := k\<rparr>)
     | Inl err \<Rightarrow> f' = f\<lparr>malloc_no := k\<rparr> \<or>
         (\<exists>w. wr \<and> err = - EAGAIN \<and> lookup_node f ino (the name) = Some w \<and> treelock (nd f w) > 0 \<and>
            f' = (upd w (\<lambda>n. n\<lparr>treelock := treelock n + TREELOCK_WAIT_OFFSET\<rparr>) f)\<lparr>malloc_no := k\<rparr>))"
proof -
  have rest: "tree_at_rest f" using reached_ok [OF assms(1)] tree_okD(3) by blast
  obtain r where r: "get_fuse_node f ino = Some r" using assms(2) by blast
  then have rl: "r \<in> live f" "n_nodeid (nd f r) = ino" using get_node_iff [of f ino r] rest by (simp_all add: tree_at_rest_def)
  obtain qs e where c: "chain f r qs e" using chain_exists [OF rest rl(1)] by blast
  have len: "length (path_string f qs) + length (name_part name) + 2 \<le> 0xFFFFFFFF"
    using assms(3) r c unfolding path_fits_def by blast
  have cond: "wr \<longrightarrow> True \<and> name \<noteq> None" using assms(4) by simp
  obtain res f' where t: "try_get_path f ino name wr True = Some (res, f')"
    using try_get_path_run [OF rest rl c len cond refl] by blast
  show ?thesis
    using try_get_path_cases [OF rest r c assms(3,4) t]
  proof (elim disjE exE conjE)
    fix wn k
    assume g: "res = Inr (full_path f qs name, wn)" "f' = (relock (taken True qs wn) f)\<lparr>malloc_no := k\<rparr>" "n_nodeid (nd f e) = FUSE_ROOT_ID"
      "\<forall>q \<in> set qs. 0 \<le> treelock (nd f q)" "\<forall>w. wn = Some w \<longrightarrow> w \<in> live f \<and> w \<notin> set qs \<and> treelock (nd f w) = 0"
    have "unlock_path f' ino wn None = Some (f\<lparr>malloc_no := k\<rparr>)"
      unfolding g(2) by (rule taken_unlock [OF rest r c g(3-5)])
    then show ?thesis using t g(1) by auto
  next
    fix err k assume "res = Inl err" "f' = f\<lparr>malloc_no := k\<rparr>"
    then show ?thesis using t by auto
  next
    fix w k assume g: "w \<in> live f" "treelock (nd f w) \<noteq> 0" "res = Inl (- EAGAIN)" wr "lookup_node f ino (the name) = Some w"
      "f' = (relock (waiting w) f)\<lparr>malloc_no := k\<rparr>"
    show ?thesis
    proof (cases "treelock (nd f w) > 0")
      case True
      have "upd w (\<lambda>n. n\<lparr>treelock := treelock n + TREELOCK_WAIT_OFFSET\<rparr>) f = relock (\<lambda>q k. if q = w then k + TREELOCK_WAIT_OFFSET else k) f"
        using upd_relock [OF g(1), of "\<lambda>k. k + TREELOCK_WAIT_OFFSET"] by simp
      also have "\<dots> = relock (waiting w) f" by (rule relock_cong) (use True in auto)
      finally show ?thesis using t g True by auto
    next
      case False
      have "relock (waiting w) f = f" by (rule relock_id) (use False in auto)
      then show ?thesis using t g by auto
    qed
  qed
qed


theorem path_lock_then_unlock_witness:
  "\<exists>res f' k. try_get_path (one_file 0) 1 (Some [97]) True True = Some (res, f') \<and>
    (case res of
       Inr (path, w) \<Rightarrow> unlock_path f' 1 w None = Some ((one_file 0)\<lparr>malloc_no := k\<rparr>)
     | Inl err \<Rightarrow> f' = (one_file 0)\<lparr>malloc_no := k\<rparr> \<or>
         (\<exists>w. True \<and> err = - EAGAIN \<and> lookup_node (one_file 0) 1 (the (Some [97])) = Some w \<and> treelock (nd (one_file 0) w) > 0 \<and>
            f' = (upd w (\<lambda>n. n\<lparr>treelock := treelock n + TREELOCK_WAIT_OFFSET\<rparr>) (one_file 0))\<lparr>malloc_no := k\<rparr>))"
proof -
  obtain r where r: "reached (one_file 0)" "get_fuse_node (one_file 0) 1 = Some 1"
    by (rule one_file_chains [of 0]) blast
  have fits: "path_fits (one_file 0) 1 (Some [97])" by (rule one_file_locks [of 0]) blast
  show ?thesis by (rule path_lock_then_unlock [OF r(1) _ fits]) (simp_all add: r(2))
qed

section \<open>Several paths at a time\<close>

text \<open>
  C32. However paths are locked and freed on nodes that keep their names meanwhile, each path held
  can be freed without a failed assertion, and while one holds a node for writing no other path
  through that node is held, neither for reading nor for writing.
\<close>

theorem locks_keep_apart:
  assumes "reached f0" "\<forall>q \<in> live f0. treelock (nd f0 q) = 0" "lock_run f0 f hs" "(ino, w) \<in> set hs"
  shows "(\<exists>f'. unlock_path f ino w None = Some f' \<and> lock_run f0 f' (remove1 (ino, w) hs)) \<and>
    (\<forall>x. w = Some x \<longrightarrow> \<not> covers f0 (ino, w) x \<and> (\<forall>h \<in> set (remove1 (ino, w) hs). snd h \<noteq> Some x \<and> \<not> covers f0 h x))"
proof
  have rest: "tree_at_rest f0" using reached_ok [OF assms(1)] tree_okD(3) by blast
  note inv = lock_run_inv [OF assms(3) rest assms(2)]
  show "\<exists>f'. unlock_path f ino w None = Some f' \<and> lock_run f0 f' (remove1 (ino, w) hs)"
    using locks_inv_free [OF rest inv assms(4)] lock_run.free [OF assms(3,4)] by blast
  show "\<forall>x. w = Some x \<longrightarrow> \<not> covers f0 (ino, w) x \<and> (\<forall>h \<in> set (remove1 (ino, w) hs). snd h \<noteq> Some x \<and> \<not> covers f0 h x)"
  proof (intro allI impI)
    fix x assume x: "w = Some x"
    have "x \<in> live f0" using inv assms(4) x unfolding locks_inv_def by fastforce
    then obtain t where t: "lock_value (readers f0 hs x) (writers hs x) t" using inv by (auto elim!: locks_invD)
    have "writers hs x = Suc (writers (remove1 (ino, w) hs) x)" using writers_remove1 [OF assms(4), of x] x by simp
    then have z: "readers f0 hs x = 0" "writers (remove1 (ino, w) hs) x = 0"
      using t lock_value_writer [of "readers f0 hs x" "writers (remove1 (ino, w) hs) x" t] by simp_all
    have "\<not> covers f0 h x" if "h \<in> set hs" for h
      using z(1) that by (auto simp: readers_def filter_empty_conv)
    moreover have "snd h \<noteq> Some x" if "h \<in> set (remove1 (ino, w) hs)" for h
      using z(2) that by (auto simp: writers_def filter_empty_conv)
    ultimately show "\<not> covers f0 (ino, w) x \<and> (\<forall>h \<in> set (remove1 (ino, w) hs). snd h \<noteq> Some x \<and> \<not> covers f0 h x)"
      using assms(4) set_remove1_subset [of "(ino, w)" hs] by auto
  qed
qed

lemma one_file_run:
  obtains r f where "lookup_node (one_file rem) 1 [97] = Some r" "lock_run (one_file rem) f [(1, Some r)]" "treelock (nd f r) = TREELOCK_WRITE"
proof -
  let ?f = "one_file rem"
  obtain r k where r: "lookup_node ?f 1 [97] = Some r"
    "try_get_path ?f 1 (Some [97]) True True = Some (Inr ([47, 97], Some r), (relock (taken True [] (Some r)) ?f)\<lparr>malloc_no := k\<rparr>)"
    "path_fits ?f 1 (Some [97])"
    by (rule one_file_locks [of rem]) blast
  obtain s where s: "lookup_node ?f 1 [97] = Some s" "live ?f = {1, s}" "get_fuse_node ?f 1 = Some 1"
    by (rule one_file_chains [of rem]) blast
  have "lock_run ?f ((relock (taken True [] (Some r)) ?f)\<lparr>malloc_no := k\<rparr>) [(1, Some r)]"
    by (rule lock_run.get [OF lock_run.start _ _ r(3) _ r(2)]) (simp_all add: s(3))
  moreover have "treelock (nd ((relock (taken True [] (Some r)) ?f)\<lparr>malloc_no := k\<rparr>) r) = TREELOCK_WRITE"
    using r(1) s(1,2) by (simp add: nd_relock)
  ultimately show ?thesis using that r(1) by blast
qed

theorem locks_keep_apart_witness:
  "\<exists>r f. lock_run (one_file 0) f [(1, Some r)] \<and> treelock (nd f r) = TREELOCK_WRITE \<and> (\<exists>f'. unlock_path f 1 (Some r) None = Some f') \<and>
    \<not> covers (one_file 0) (1, Some r) r"
proof -
  obtain r f where r: "lookup_node (one_file 0) 1 [97] = Some r" "lock_run (one_file 0) f [(1, Some r)]" "treelock (nd f r) = TREELOCK_WRITE"
    by (rule one_file_run [of 0]) blast
  obtain s where s: "reached (one_file 0)" "\<forall>q \<in> live (one_file 0). treelock (nd (one_file 0) q) = 0"
    by (rule one_file_chains [of 0]) blast
  from locks_keep_apart [OF s r(2), of 1 "Some r"] show ?thesis using r by auto
qed

section \<open>Waiting for a path\<close>

lemma relocked_path:
  assumes "tree_at_rest f0" "f = (relock h f0)\<lparr>malloc_no := k\<rparr>" "chain f0 r qs e"
  shows "path_string f qs = path_string f0 qs"
proof -
  have "map (\<lambda>q. SLASH # the (n_name (nd f q))) (rev qs) = map (\<lambda>q. SLASH # the (n_name (nd f0 q))) (rev qs)"
  proof (rule map_cong [OF refl])
    fix q assume "q \<in> set (rev qs)"
    then have "q \<in> live f0" using chain_live [OF assms(3)] by auto
    then show "SLASH # the (n_name (nd f q)) = SLASH # the (n_name (nd f0 q))"
      by (simp add: relocked_views(7) [OF assms(1,2)])
  qed
  then show ?thesis unfolding path_string_def by (rule arg_cong)
qed

lemma relocked_fits:
  assumes "tree_at_rest f0" "f = (relock h f0)\<lparr>malloc_no := k\<rparr>" "path_fits f0 ino name"
  shows "path_fits f ino name"
  unfolding path_fits_def
proof (intro allI impI)
  note v = relocked_views [OF assms(1,2)]
  fix r qs e assume g: "get_fuse_node f ino = Some r" and c: "chain f r qs e"
  have r: "get_fuse_node f0 ino = Some r" using g v(2) by simp
  then have "r \<in> live f0" using get_node_iff [of f0 ino r] assms(1) by (simp add: tree_at_rest_def)
  then obtain qs0 e0 where c0: "chain f0 r qs0 e0" using chain_exists [OF assms(1)] by blast
  have "qs = qs0" using chain_unique [OF c v(4) [OF c0]] by simp
  moreover have "path_string f qs0 = path_string f0 qs0"
    by (rule relocked_path [OF assms(1,2) c0])
  ultimately show "length (path_string f qs) + length (name_part name) + 2 \<le> 0xFFFFFFFF"
    using assms(3) r c0 unfolding path_fits_def by metis
qed

definition waits_well :: "fuse \<Rightarrow> lock_queue_element \<Rightarrow> bool" where
  "waits_well f qe \<longleftrightarrow> wants_path1 qe \<and> second qe = None \<and> get_fuse_node f (nodeid1 qe) \<noteq> None \<and>
     path_fits f (nodeid1 qe) (name1 qe) \<and> (wants_wnode1 qe \<longrightarrow> name1 qe \<noteq> None)"

lemma try_relocks:
  assumes "tree_at_rest f" "get_fuse_node f ino \<noteq> None" "path_fits f ino name" "wr \<longrightarrow> name \<noteq> None"
  shows "\<exists>res h k. try_get_path f ino name wr True = Some (res, (relock h f)\<lparr>malloc_no := k\<rparr>)"
proof -
  obtain r where r: "get_fuse_node f ino = Some r" using assms(2) by blast
  then have rl: "r \<in> live f" "n_nodeid (nd f r) = ino" using get_node_iff [of f ino r] assms(1) by (simp_all add: tree_at_rest_def)
  obtain qs e where c: "chain f r qs e" using chain_exists [OF assms(1) rl(1)] by blast
  have len: "length (path_string f qs) + length (name_part name) + 2 \<le> 0xFFFFFFFF"
    using assms(3) r c unfolding path_fits_def by blast
  have cond: "wr \<longrightarrow> True \<and> name \<noteq> None" using assms(4) by simp
  have id: "relock (\<lambda>q k. k) f = f" by (rule relock_id) simp
  obtain res f' where t: "try_get_path f ino name wr True = Some (res, f')"
    using try_get_path_run [OF assms(1) rl c len cond refl] by blast
  have "\<exists>h k. f' = (relock h f)\<lparr>malloc_no := k\<rparr>"
    using try_get_path_cases [OF assms(1) r c assms(3,4) t]
  proof (elim disjE exE conjE)
    fix k assume "f' = f\<lparr>malloc_no := k\<rparr>"
    then have "f' = (relock (\<lambda>q k. k) f)\<lparr>malloc_no := k\<rparr>" by (simp only: id)
    then show ?thesis by blast
  qed blast+
  then show ?thesis using t by blast
qed

lemma wakeup_relocks:
  assumes "tree_at_rest f0" "f = (relock h f0)\<lparr>malloc_no := k\<rparr>" "waits_well f0 qe"
  shows "\<exists>b qe' h' k'. queue_element_wakeup f qe = Some (b, qe', (relock h' f0)\<lparr>malloc_no := k'\<rparr>)"
proof (cases "path_done qe")
  case True
  then show ?thesis using assms by (auto simp: queue_element_wakeup_def waits_well_def)
next
  case False
  note v = relocked_views [OF assms(1,2)]
  have w: "wants_path1 qe" "second qe = None" "get_fuse_node f (nodeid1 qe) \<noteq> None" "path_fits f (nodeid1 qe) (name1 qe)"
    "wants_wnode1 qe \<longrightarrow> name1 qe \<noteq> None"
    using assms(3) relocked_fits [OF assms(1,2)] v(2) by (simp_all add: waits_well_def)
  obtain res h' k' where t: "try_get_path f (nodeid1 qe) (name1 qe) (wants_wnode1 qe) True = Some (res, (relock h' f)\<lparr>malloc_no := k'\<rparr>)"
    using try_relocks [OF v(1) w(3-5)] by blast
  have "(relock h' f)\<lparr>malloc_no := k'\<rparr> = (relock (\<lambda>q k. h' q (h q k)) f0)\<lparr>malloc_no := k'\<rparr>"
    unfolding assms(2) relock_malloc relock_relock by simp
  then show ?thesis using t w(1,2) False by (auto simp: queue_element_wakeup_def split: sum.splits)
qed

lemma wake_up_ends:
  assumes "tree_at_rest f0" "\<forall>qe \<in> set lockq. waits_well f0 qe" "f = (relock h f0)\<lparr>malloc_no := k\<rparr>"
  shows "\<exists>lockq' h' k'. wake_up_queued f lockq = Some (lockq', (relock h' f0)\<lparr>malloc_no := k'\<rparr>)"
  using assms(2,3)
proof (induction lockq arbitrary: f h k)
  case (Cons qe rest)
  obtain b qe' h' k' where w: "queue_element_wakeup f qe = Some (b, qe', (relock h' f0)\<lparr>malloc_no := k'\<rparr>)"
    using wakeup_relocks [OF assms(1) Cons.prems(2), of qe] Cons.prems(1) by auto
  from Cons.IH [OF _ refl, of k' h'] Cons.prems(1)
  obtain rest' h2 k2 where "wake_up_queued ((relock h' f0)\<lparr>malloc_no := k'\<rparr>) rest = Some (rest', (relock h2 f0)\<lparr>malloc_no := k2\<rparr>)"
    by auto
  then show ?case using w by (intro exI [of _ "qe' # rest'"] exI [of _ h2] exI [of _ k2]) simp
qed auto

text \<open>
  C33. When the last path that is locked is freed, the first thread of the queue gets the path it
  waits for (if memory lasts and the node is still connected to the root): its element is marked
  done without an error and holds the path, and freeing ends whatever else is queued. The threads of
  the queue wait for one path each (\<open>waits_well\<close>); those that wait for two paths or to forget a node
  are left out.
\<close>

theorem freed_path_wakes_waiter:
  assumes "reached f0" "\<forall>q \<in> live f0. treelock (nd f0 q) = 0" "lock_run f0 f [(ino, w)]" "\<forall>k. mallocs f0 k"
    and "\<forall>qe \<in> set (qe # rest). waits_well f0 qe" "\<not> path_done qe"
    and "get_fuse_node f0 (nodeid1 qe) = Some r" "chain f0 r qs e" "n_nodeid (nd f0 e) = FUSE_ROOT_ID"
  shows "\<exists>qe' rest' f'. free_path_wrlock f (qe # rest) ino w = Some (qe' # rest', f') \<and> path_done qe' \<and> path_err qe' = 0 \<and>
    paths qe' = [(full_path f0 qs (name1 qe), if wants_wnode1 qe then lookup_node f0 (nodeid1 qe) (the (name1 qe)) else None)]"
proof -
  have rest: "tree_at_rest f0" using reached_ok [OF assms(1)] tree_okD(3) by blast
  obtain f1 where f1: "unlock_path f ino w None = Some f1" "locks_inv f0 f1 []"
    using locks_inv_free [OF rest lock_run_inv [OF assms(3) rest assms(2)], of ino w] by auto
  obtain t k where t: "f1 = (relock (\<lambda>q _. t q) f0)\<lparr>malloc_no := k\<rparr>" "\<forall>q \<in> live f0. lock_value 0 0 (t q)"
    by (rule locks_invD [OF f1(2)]) (simp add: readers_def writers_def)
  note v = relocked_views [OF rest t(1)]
  have z: "treelock (nd f1 q) = 0" if "q \<in> live f0" for q using v(7) [OF that] lock_value_free t(2) that by simp
  let ?wn = "if wants_wnode1 qe then lookup_node f0 (nodeid1 qe) (the (name1 qe)) else None"
  have w: "wants_path1 qe" "second qe = None" "path_fits f1 (nodeid1 qe) (name1 qe)" "wants_wnode1 qe \<longrightarrow> name1 qe \<noteq> None"
    using assms(5) relocked_fits [OF rest t(1)] by (simp_all add: waits_well_def)
  have rl: "r \<in> live f0" "n_nodeid (nd f0 r) = nodeid1 qe" using get_node_iff [of f0 "nodeid1 qe" r] assms(7) rest by (simp_all add: tree_at_rest_def)
  have live: "set qs \<subseteq> live f0" "e \<in> live f0" using chain_live [OF assms(8)] by simp_all
  have wn: "\<forall>x. ?wn = Some x \<longrightarrow> treelock (nd f1 x) = 0"
    using child_off_chain(1) [OF rest rl assms(8)] z by simp
  have rl1: "r \<in> live f1" "n_nodeid (nd f1 r) = nodeid1 qe" and root: "n_nodeid (nd f1 e) = FUSE_ROOT_ID"
    and m: "\<forall>k. mallocs f1 k" and nz: "\<forall>q \<in> set qs. 0 \<le> treelock (nd f1 q)"
    using rl live assms(4,9) z by (auto simp: v(5,6,7))
  have wn1: "?wn = (if wants_wnode1 qe then lookup_node f1 (nodeid1 qe) (the (name1 qe)) else None)" by (simp add: v(3))
  obtain k' where g: "try_get_path f1 (nodeid1 qe) (name1 qe) (wants_wnode1 qe) True =
      Some (Inr (full_path f1 qs (name1 qe), ?wn), (relock (taken True qs ?wn) f1)\<lparr>malloc_no := k'\<rparr>)"
    using path_available [OF v(1) rl1 v(4) [OF assms(8)] root w(3,4) m nz wn1 wn] by blast
  have "path_string f1 qs = path_string f0 qs"
    by (rule relocked_path [OF rest t(1) assms(8)])
  then have p: "full_path f1 qs (name1 qe) = full_path f0 qs (name1 qe)" by (simp add: full_path_def)
  obtain qe' where q: "queue_element_wakeup f1 qe = Some (True, qe', (relock (taken True qs ?wn) f1)\<lparr>malloc_no := k'\<rparr>)"
    "path_done qe'" "path_err qe' = 0" "paths qe' = [(full_path f0 qs (name1 qe), ?wn)]"
    using g w(1,2) assms(6) p by (simp add: queue_element_wakeup_def)
  have "(relock (taken True qs ?wn) f1)\<lparr>malloc_no := k'\<rparr> = (relock (\<lambda>q k. taken True qs ?wn q (t q)) f0)\<lparr>malloc_no := k'\<rparr>"
    unfolding t(1) relock_malloc relock_relock by simp
  from wake_up_ends [OF rest _ this, of rest] assms(5) obtain rest' f' where
    "wake_up_queued ((relock (taken True qs ?wn) f1)\<lparr>malloc_no := k'\<rparr>) rest = Some (rest', f')" by auto
  then show ?thesis using f1(1) q by (simp add: free_path_wrlock_def)
qed


theorem freed_path_wakes_waiter_witness:
  "\<exists>r f qe' f'. free_path_wrlock f [\<lparr>nodeid1 = n_nodeid (nd (one_file 0) r), name1 = None, wants_path1 = True, wants_wnode1 = False,
       second = None, path_err = 0, paths = [], path_done = False\<rparr>] 1 (Some r) = Some ([qe'], f') \<and>
     path_done qe' \<and> paths qe' = [([47, 97], None)]"
proof -
  let ?f = "one_file 0"
  obtain r f where r: "lookup_node ?f 1 [97] = Some r" "lock_run ?f f [(1, Some r)]"
    by (rule one_file_run [of 0]) blast
  let ?qe = "\<lparr>nodeid1 = n_nodeid (nd ?f r), name1 = None, wants_path1 = True, wants_wnode1 = False,
       second = None, path_err = 0, paths = [], path_done = False\<rparr>"
  obtain s where s: "reached ?f" "\<forall>q \<in> live ?f. treelock (nd ?f q) = 0" "\<forall>k. mallocs ?f k" "lookup_node ?f 1 [97] = Some s"
    "get_fuse_node ?f (n_nodeid (nd ?f s)) = Some s" "chain ?f s [s] 1" "n_nodeid (nd ?f 1) = 1" "n_name (nd ?f s) = Some [97]"
    by (rule one_file_chains [of 0]) blast
  have rs: "r = s" using r(1) s(4) by simp
  have fits: "path_fits ?f (n_nodeid (nd ?f r)) None" by (rule one_file_fits [OF _ r(1)]) simp_all
  have w: "\<forall>qe \<in> set [?qe]. waits_well ?f qe" using fits s(5) rs by (simp add: waits_well_def)
  have nd: "\<not> path_done ?qe" by simp
  have g: "get_fuse_node ?f (nodeid1 ?qe) = Some s" using s(5) rs by simp
  obtain qe' rest' f' where e: "free_path_wrlock f [?qe] 1 (Some r) = Some (qe' # rest', f')" "path_done qe'"
    "paths qe' = [(full_path ?f [s] None, None)]"
    using freed_path_wakes_waiter [OF s(1,2) r(2) s(3) w nd g s(6,7)] by auto
  moreover have "rest' = []"
    using e(1) by (auto simp: free_path_wrlock_def split: option.splits Option.bind_splits)
  moreover have "full_path ?f [s] None = [47, 97]" using s(8) by (simp add: full_path_def path_string_def)
  ultimately show ?thesis by auto
qed

end
