(* ===== verification/Fuse_Lib.thy ===== *)
theory Fuse_Lib
  imports Fuse_Fs Fuse_Path_Runs
begin

text \<open>
  The requests of \<^verbatim>\<open>lib/fuse.c\<close>, \<open>fuse_lib_lookup\<close> to \<open>fuse_lib_lseek\<close>: each locks the path of
  the node that the kernel names, calls the file system with it, updates the nodes, frees the path
  and replies. The state \<open>lib\<close> holds the nodes (\<open>core\<close>), the byte-range locks and cached attributes of
  each node, the file system with its state, and the replies sent so far; \<open>sent\<close> gives what sending
  the n-th reply returns (\<open>-ENOENT\<close> when the request was interrupted).

  Requests run one at a time here: one that would have to wait for the path of another does not
  return (\<open>None\<close>). Interrupts, debug output and the timeouts of replies are left out.
\<close>

section \<open>State\<close>

record config =
  use_ino :: bool
  set_mode :: "u32 option"
  set_uid :: "u32 option"
  set_gid :: "u32 option"
  hard_remove :: bool
  conf_direct_io :: bool
  kernel_cache :: bool
  auto_cache :: bool
  no_rofd_flush :: bool
  nullpath_ok :: bool
  negative_timeout :: bool
  readdir_ino :: bool
  expired :: "int \<times> int \<Rightarrow> int \<times> int \<Rightarrow> bool"

record node_cache =
  cache_valid :: bool
  cache_mtime :: "int \<times> int"
  cache_size :: int
  stat_updated :: "int \<times> int"

record entry =
  e_ino :: u64
  e_generation :: u32
  e_attr :: fuse_stat

datatype reply =
    Reply_err int
  | Reply_none
  | Reply_entry entry
  | Reply_create entry fuse_file_info
  | Reply_attr fuse_stat
  | Reply_open fuse_file_info
  | Reply_readlink bytes
  | Reply_statfs "nat \<times> nat"
  | Reply_write int
  | Reply_buf bytes
  | Reply_xattr int
  | Reply_lock flock
  | Reply_bmap u64
  | Reply_poll u64
  | Reply_lseek int

record 's lib =
  core :: fuse
  hidectr :: u32
  conf :: config
  fsys :: "'s fuse_fs"
  fss :: 's
  node_locks :: "nat \<Rightarrow> lock list"
  caches :: "nat \<Rightarrow> node_cache"
  clock :: "nat \<Rightarrow> int \<times> int"
  clock_no :: nat
  replies :: "reply list"
  sent :: "nat \<Rightarrow> int"

abbreviation "EIO \<equiv> (5 :: int)"

definition call :: "('s fuse_fs \<Rightarrow> 's \<Rightarrow> fs_result \<times> 's) \<Rightarrow> 's lib \<Rightarrow> fs_result \<times> 's lib" where
  "call g L = (let (r, s) = g (fsys L) (fss L) in (r, L\<lparr>fss := s\<rparr>))"

definition on_core :: "(fuse \<Rightarrow> ('a \<times> fuse) option) \<Rightarrow> 's lib \<Rightarrow> ('a \<times> 's lib) option" where
  "on_core g L = (case g (core L) of None \<Rightarrow> None | Some (x, f) \<Rightarrow> Some (x, L\<lparr>core := f\<rparr>))"

definition update_core :: "(fuse \<Rightarrow> fuse option) \<Rightarrow> 's lib \<Rightarrow> 's lib option" where
  "update_core g L = (case g (core L) of None \<Rightarrow> None | Some f \<Rightarrow> Some (L\<lparr>core := f\<rparr>))"

definition send :: "reply \<Rightarrow> 's lib \<Rightarrow> int \<times> 's lib" where
  "send r L = (sent L (length (replies L)), L\<lparr>replies := replies L @ [r]\<rparr>)"

definition finish :: "reply \<Rightarrow> 's lib \<Rightarrow> 's lib option" where
  "finish r L = Some (snd (send r L))"

abbreviation reply_err :: "int \<Rightarrow> 's lib \<Rightarrow> 's lib option" where
  "reply_err err \<equiv> finish (Reply_err err)"

definition zero_file_info :: fuse_file_info where
  "zero_file_info = \<lparr>fi_flags = 0, writepage = False, direct_io = False, keep_cache = False, fi_flush = False, nonseekable = False,
     flock_release = False, cache_readdir = False, noflush = False, fh = 0, lock_owner = 0, poll_events = 0\<rparr>"

definition zero_stat :: fuse_stat where
  "zero_stat = \<lparr>a_ino = 0, a_mode = 0, a_nlink = 0, a_uid = 0, a_gid = 0, a_size = 0, a_atime = (0, 0), a_mtime = (0, 0)\<rparr>"

abbreviation stat_of :: "fs_result \<Rightarrow> fuse_stat" where
  "stat_of r \<equiv> (case out_stat r of None \<Rightarrow> zero_stat | Some st \<Rightarrow> st)"

abbreviation fi_of :: "fuse_file_info \<Rightarrow> fs_result \<Rightarrow> fuse_file_info" where
  "fi_of fi r \<equiv> (case out_fi r of None \<Rightarrow> fi | Some fi' \<Rightarrow> fi')"

abbreviation is_regular :: "u32 \<Rightarrow> bool" where
  "is_regular m \<equiv> m AND 0xF000 = 0x8000"

section \<open>Paths\<close>

definition lock_path :: "u64 \<Rightarrow> bytes option \<Rightarrow> bool \<Rightarrow> 's lib \<Rightarrow> ((int + bytes \<times> nat option) \<times> 's lib) option" where
  "lock_path ino name wr L = do {
     (res, _, f) \<leftarrow> get_path_common (core L) [] ino name wr;
     case res of
       None \<Rightarrow> None
     | Some res \<Rightarrow> Some (res, L\<lparr>core := f\<rparr>)
   }"

definition get_path_name :: "u64 \<Rightarrow> bytes option \<Rightarrow> 's lib \<Rightarrow> ((int + bytes option) \<times> 's lib) option" where
  "get_path_name ino name L = do {
     (res, L) \<leftarrow> lock_path ino name False L;
     Some (case res of Inl err \<Rightarrow> Inl err | Inr (path, _) \<Rightarrow> Inr (Some path), L)
   }"

definition get_path :: "u64 \<Rightarrow> 's lib \<Rightarrow> ((int + bytes option) \<times> 's lib) option" where
  "get_path ino L = get_path_name ino None L"

definition get_path_nullok :: "u64 \<Rightarrow> 's lib \<Rightarrow> ((int + bytes option) \<times> 's lib) option" where
  "get_path_nullok ino L =
     (if nullpath_ok (conf L) then Some (Inr None, L)
      else do {
        (res, L) \<leftarrow> get_path ino L;
        Some (if res = Inl (- ESTALE) then Inr None else res, L)
      })"

definition get_path_wrlock :: "u64 \<Rightarrow> bytes \<Rightarrow> 's lib \<Rightarrow> ((int + bytes \<times> nat option) \<times> 's lib) option" where
  "get_path_wrlock ino name L = lock_path ino (Some name) True L"

definition get_paths :: "u64 \<Rightarrow> bytes option \<Rightarrow> u64 \<Rightarrow> bytes option \<Rightarrow> bool \<Rightarrow> bool \<Rightarrow> 's lib \<Rightarrow>
    ((int + (bytes \<times> nat option) \<times> (bytes \<times> nat option)) \<times> 's lib) option" where
  "get_paths ino1 n1 ino2 n2 wr1 wr2 L = do {
     (res, _, f) \<leftarrow> get_path2 (core L) [] ino1 n1 ino2 n2 wr1 wr2;
     case res of
       None \<Rightarrow> None
     | Some res \<Rightarrow> Some (res, L\<lparr>core := f\<rparr>)
   }"

definition unlock :: "u64 \<Rightarrow> nat option \<Rightarrow> 's lib \<Rightarrow> 's lib option" where
  "unlock ino w = update_core (\<lambda>f. map_option snd (free_path_wrlock f [] ino w))"

definition free_path :: "u64 \<Rightarrow> bytes option \<Rightarrow> 's lib \<Rightarrow> 's lib option" where
  "free_path ino path L = (if path \<noteq> None then unlock ino None L else Some L)"

definition unlock2 :: "u64 \<Rightarrow> u64 \<Rightarrow> nat option \<Rightarrow> nat option \<Rightarrow> 's lib \<Rightarrow> 's lib option" where
  "unlock2 ino1 ino2 w1 w2 = update_core (\<lambda>f. map_option snd (free_path2 f [] ino1 ino2 w1 w2))"

text \<open>The shape that most requests have: the path of a node, a call with it, and the path freed.\<close>

definition at_path :: "bool \<Rightarrow> u64 \<Rightarrow> (bytes option \<Rightarrow> 's fuse_fs \<Rightarrow> 's \<Rightarrow> fs_result \<times> 's) \<Rightarrow> 's lib \<Rightarrow> (fs_result \<times> 's lib) option" where
  "at_path nullok ino g L = do {
     (res, L) \<leftarrow> (if nullok then get_path_nullok ino L else get_path ino L);
     case res of
       Inl err \<Rightarrow> Some (no_op err, L)
     | Inr path \<Rightarrow> do {
         let (r, L) = call (g path) L;
         L \<leftarrow> free_path ino path L;
         Some (r, L)
       }
   }"

section \<open>Attributes\<close>

text \<open>The user's choices override what the file system says.\<close>

definition set_stat :: "'s lib \<Rightarrow> u64 \<Rightarrow> fuse_stat \<Rightarrow> fuse_stat" where
  "set_stat L nodeid st =
     (let st = (if \<not> use_ino (conf L) then st\<lparr>a_ino := nodeid\<rparr> else st);
          st = (case set_mode (conf L) of None \<Rightarrow> st | Some umask \<Rightarrow> st\<lparr>a_mode := (a_mode st AND 0xF000) OR (0x1FF AND NOT umask)\<rparr>);
          st = (case set_uid (conf L) of None \<Rightarrow> st | Some uid \<Rightarrow> st\<lparr>a_uid := uid\<rparr>)
      in case set_gid (conf L) of None \<Rightarrow> st | Some gid \<Rightarrow> st\<lparr>a_gid := gid\<rparr>)"

definition curr_time :: "'s lib \<Rightarrow> (int \<times> int) \<times> 's lib" where
  "curr_time L = (clock L (clock_no L), L\<lparr>clock_no := Suc (clock_no L)\<rparr>)"

definition update_stat :: "nat \<Rightarrow> fuse_stat \<Rightarrow> 's lib \<Rightarrow> 's lib" where
  "update_stat r st L =
     (let c = caches L r;
          c = (if cache_valid c \<and> (a_mtime st \<noteq> cache_mtime c \<or> a_size st \<noteq> cache_size c) then c\<lparr>cache_valid := False\<rparr> else c);
          (t, L) = curr_time L;
          c = c\<lparr>cache_mtime := a_mtime st, cache_size := a_size st, stat_updated := t\<rparr>
      in L\<lparr>caches := (caches L)(r := c)\<rparr>)"

section \<open>Looking up\<close>

definition do_lookup :: "u64 \<Rightarrow> bytes option \<Rightarrow> fuse_stat \<Rightarrow> 's lib \<Rightarrow> ((int + entry) \<times> 's lib) option" where
  "do_lookup nodeid name st L = do {
     (res, L) \<leftarrow> on_core (\<lambda>f. find_node f nodeid name) L;
     case res of
       None \<Rightarrow> Some (Inl (- ENOMEM), L)
     | Some r \<Rightarrow>
         let ino = n_nodeid (nd (core L) r);
             gen = n_generation (nd (core L) r);
             L = (if auto_cache (conf L) then update_stat r st L else L)
         in Some (Inr \<lparr>e_ino = ino, e_generation = gen, e_attr = set_stat L ino st\<rparr>, L)
   }"

definition lookup_path :: "u64 \<Rightarrow> bytes option \<Rightarrow> bytes option \<Rightarrow> fuse_file_info option \<Rightarrow> 's lib \<Rightarrow> ((int + entry) \<times> 's lib) option" where
  "lookup_path nodeid name path fi L =
     (let (r, L) = call (\<lambda>fs. fuse_fs_getattr fs path fi) L
      in if ret r = 0 then do_lookup nodeid name (stat_of r) L else Some (Inl (ret r), L))"

text \<open>\<open>forget_node\<close> that would have to wait for a lock of the node does not return.\<close>

definition forget :: "u64 \<Rightarrow> u64 \<Rightarrow> 's lib \<Rightarrow> 's lib option" where
  "forget ino k L = do {
     (finished, L) \<leftarrow> on_core (\<lambda>f. forget_node f ino k) L;
     if finished then Some L else None
   }"

definition reply_entry :: "int + entry \<Rightarrow> 's lib \<Rightarrow> 's lib option" where
  "reply_entry res L =
     (case res of
        Inl err \<Rightarrow> reply_err err L
      | Inr e \<Rightarrow>
          let (err, L) = send (Reply_entry e) L
          in if err = - ENOENT \<and> e_ino e \<noteq> 0 then forget (e_ino e) 1 L else Some L)"

text \<open>A negative entry: the attributes, which the code leaves as they are, are zero here.\<close>

definition negative :: "'s lib \<Rightarrow> int + entry \<Rightarrow> int + entry" where
  "negative L res =
     (if res = Inl (- ENOENT) \<and> negative_timeout (conf L)
      then Inr \<lparr>e_ino = 0, e_generation = 0, e_attr = zero_stat\<rparr> else res)"

definition lookup_at :: "u64 \<Rightarrow> bytes option \<Rightarrow> 's lib \<Rightarrow> ((int + entry) \<times> 's lib) option" where
  "lookup_at parent name L = do {
     (res, L) \<leftarrow> get_path_name parent name L;
     case res of
       Inl err \<Rightarrow> Some (Inl err, L)
     | Inr path \<Rightarrow> do {
         (res, L) \<leftarrow> lookup_path parent name path None L;
         L \<leftarrow> free_path parent path L;
         Some (negative L res, L)
       }
   }"

abbreviation "DOT_NAME \<equiv> ([46] :: bytes)"
abbreviation "DOTDOT_NAME \<equiv> ([46, 46] :: bytes)"

definition fuse_lib_lookup :: "u64 \<Rightarrow> bytes \<Rightarrow> 's lib \<Rightarrow> 's lib option" where
  "fuse_lib_lookup parent name L =
     (if name = DOT_NAME then
        (case get_node_nocheck (core L) parent of
           None \<Rightarrow> reply_entry (Inl (- ESTALE)) L
         | Some dot \<Rightarrow> do {
             let L = L\<lparr>core := upd dot (\<lambda>n. n\<lparr>refctr := refctr n + 1\<rparr>) (core L)\<rparr>;
             (res, L) \<leftarrow> lookup_at parent None L;
             L \<leftarrow> update_core (\<lambda>f. unref_node f dot) L;
             reply_entry res L
           })
      else if name = DOTDOT_NAME then
        (case get_fuse_node (core L) parent of
           None \<Rightarrow> None
         | Some r \<Rightarrow>
             (case n_parent (nd (core L) r) of
                None \<Rightarrow> None
              | Some p \<Rightarrow> do {
                  (res, L) \<leftarrow> lookup_at (n_nodeid (nd (core L) p)) None L;
                  reply_entry res L
                }))
      else do {
        (res, L) \<leftarrow> lookup_at parent (Some name) L;
        reply_entry res L
      })"

definition fuse_lib_forget :: "u64 \<Rightarrow> u64 \<Rightarrow> 's lib \<Rightarrow> 's lib option" where
  "fuse_lib_forget ino k L = do {
     L \<leftarrow> forget ino k L;
     finish Reply_none L
   }"

fun forget_all :: "(u64 \<times> u64) list \<Rightarrow> 's lib \<Rightarrow> 's lib option" where
  "forget_all [] L = Some L"
| "forget_all ((ino, k) # rest) L = do { L \<leftarrow> forget ino k L; forget_all rest L }"

definition fuse_lib_forget_multi :: "(u64 \<times> u64) list \<Rightarrow> 's lib \<Rightarrow> 's lib option" where
  "fuse_lib_forget_multi forgets L = do {
     L \<leftarrow> forget_all forgets L;
     finish Reply_none L
   }"

section \<open>Attributes of a node\<close>

definition reply_attr :: "u64 \<Rightarrow> fuse_stat \<Rightarrow> 's lib \<Rightarrow> 's lib option" where
  "reply_attr ino st L = finish (Reply_attr (set_stat L ino st)) L"

definition fuse_lib_getattr :: "u64 \<Rightarrow> fuse_file_info option \<Rightarrow> 's lib \<Rightarrow> 's lib option" where
  "fuse_lib_getattr ino fi L = do {
     (r, L) \<leftarrow> at_path (fi \<noteq> None) ino (\<lambda>path fs. fuse_fs_getattr fs path fi) L;
     if ret r \<noteq> 0 then reply_err (ret r) L
     else case get_fuse_node (core L) ino of
       None \<Rightarrow> None
     | Some n \<Rightarrow>
         let st = stat_of r;
             st = (if is_hidden (nd (core L) n) \<and> a_nlink st > 0 then st\<lparr>a_nlink := a_nlink st - 1\<rparr> else st);
             L = (if auto_cache (conf L) then update_stat n st L else L)
         in reply_attr ino st L
   }"

abbreviation "SET_ATTR_MODE \<equiv> (0x01 :: u32)"
abbreviation "SET_ATTR_UID \<equiv> (0x02 :: u32)"
abbreviation "SET_ATTR_GID \<equiv> (0x04 :: u32)"
abbreviation "SET_ATTR_SIZE \<equiv> (0x08 :: u32)"
abbreviation "SET_ATTR_ATIME \<equiv> (0x10 :: u32)"
abbreviation "SET_ATTR_MTIME \<equiv> (0x20 :: u32)"
abbreviation "SET_ATTR_ATIME_NOW \<equiv> (0x80 :: u32)"
abbreviation "SET_ATTR_MTIME_NOW \<equiv> (0x100 :: u32)"
abbreviation "UTIME_NOW \<equiv> (0x3FFFFFFF :: int)"
abbreviation "UTIME_OMIT \<equiv> (0x3FFFFFFE :: int)"

text \<open>The changes one after the other, up to the first that fails, then the attributes.\<close>

definition set_attrs :: "fuse_stat \<Rightarrow> u32 \<Rightarrow> bytes option \<Rightarrow> fuse_file_info option \<Rightarrow> 's fuse_fs \<Rightarrow> 's \<Rightarrow> fs_result \<times> 's" where
  "set_attrs attr valid path fi fs s =
     (let (r, s) = (if valid AND SET_ATTR_MODE \<noteq> 0 then fuse_fs_chmod fs path (a_mode attr) fi s else (no_op 0, s));
          (r, s) = (if ret r = 0 \<and> valid AND (SET_ATTR_UID OR SET_ATTR_GID) \<noteq> 0 then
            let uid = (if valid AND SET_ATTR_UID \<noteq> 0 then a_uid attr else - 1);
                gid = (if valid AND SET_ATTR_GID \<noteq> 0 then a_gid attr else - 1)
            in fuse_fs_chown fs path uid gid fi s else (r, s));
          (r, s) = (if ret r = 0 \<and> valid AND SET_ATTR_SIZE \<noteq> 0 then fuse_fs_truncate fs path (a_size attr) fi s else (r, s));
          (r, s) = (if ret r = 0 \<and> valid AND (SET_ATTR_ATIME OR SET_ATTR_MTIME) \<noteq> 0 then
            let t0 = (if valid AND SET_ATTR_ATIME_NOW \<noteq> 0 then (0, UTIME_NOW)
                      else if valid AND SET_ATTR_ATIME \<noteq> 0 then a_atime attr else (0, UTIME_OMIT));
                t1 = (if valid AND SET_ATTR_MTIME_NOW \<noteq> 0 then (0, UTIME_NOW)
                      else if valid AND SET_ATTR_MTIME \<noteq> 0 then a_mtime attr else (0, UTIME_OMIT))
            in fuse_fs_utimens fs path (t0, t1) fi s else (r, s))
      in if ret r = 0 then fuse_fs_getattr fs path fi s else (r, s))"

definition fuse_lib_setattr :: "u64 \<Rightarrow> fuse_stat \<Rightarrow> u32 \<Rightarrow> fuse_file_info option \<Rightarrow> 's lib \<Rightarrow> 's lib option" where
  "fuse_lib_setattr ino attr valid fi L = do {
     (r, L) \<leftarrow> at_path (fi \<noteq> None) ino (\<lambda>path fs. set_attrs attr valid path fi fs) L;
     if ret r \<noteq> 0 then reply_err (ret r) L
     else if auto_cache (conf L) then
       (case get_fuse_node (core L) ino of
          None \<Rightarrow> None
        | Some n \<Rightarrow> reply_attr ino (stat_of r) (update_stat n (stat_of r) L))
     else reply_attr ino (stat_of r) L
   }"

definition fuse_lib_access :: "u64 \<Rightarrow> int \<Rightarrow> 's lib \<Rightarrow> 's lib option" where
  "fuse_lib_access ino amode L = do {
     (r, L) \<leftarrow> at_path False ino (\<lambda>path fs. fuse_fs_access fs path amode) L;
     reply_err (ret r) L
   }"

text \<open>The buffer for the target of a link has 4097 bytes; an answer without data leaves it undefined.\<close>

definition fuse_lib_readlink :: "u64 \<Rightarrow> 's lib \<Rightarrow> 's lib option" where
  "fuse_lib_readlink ino L = do {
     (r, L) \<leftarrow> at_path False ino (\<lambda>path fs. fuse_fs_readlink fs path 4097) L;
     if ret r \<noteq> 0 then reply_err (ret r) L
     else case out_data r of
       None \<Rightarrow> None
     | Some link \<Rightarrow> finish (Reply_readlink (take 4096 link)) L
   }"

section \<open>Making and removing names\<close>

text \<open>The shape of the requests that make a name: the call at its path, then the lookup of the new node.\<close>

definition make_at :: "u64 \<Rightarrow> bytes \<Rightarrow> (bytes option \<Rightarrow> 's lib \<Rightarrow> ((int + entry) \<times> 's lib) option) \<Rightarrow> 's lib \<Rightarrow> 's lib option" where
  "make_at parent name g L = do {
     (res, L) \<leftarrow> get_path_name parent (Some name) L;
     case res of
       Inl err \<Rightarrow> reply_entry (Inl err) L
     | Inr path \<Rightarrow> do {
         (res, L) \<leftarrow> g path L;
         L \<leftarrow> free_path parent path L;
         reply_entry res L
       }
   }"

abbreviation "O_CREATE_NEW \<equiv> (0xC1 :: u32)"

definition mknod_at :: "u64 \<Rightarrow> bytes \<Rightarrow> u32 \<Rightarrow> u64 \<Rightarrow> bytes option \<Rightarrow> 's lib \<Rightarrow> ((int + entry) \<times> 's lib) option" where
  "mknod_at parent name m rdev path L = do {
     (res, L) \<leftarrow> (if is_regular m then
        let fi = zero_file_info\<lparr>fi_flags := O_CREATE_NEW\<rparr>;
            (r, L) = call (\<lambda>fs. fuse_fs_create fs path m fi) L
        in if ret r \<noteq> 0 then Some (Inl (ret r), L)
           else do {
             (res, L) \<leftarrow> lookup_path parent (Some name) path (Some (fi_of fi r)) L;
             let (_, L) = call (\<lambda>fs. fuse_fs_release fs path (fi_of fi r)) L;
             Some (res, L)
           }
      else Some (Inl (- ENOSYS), L));
     if res = Inl (- ENOSYS) then
       let (r, L) = call (\<lambda>fs. fuse_fs_mknod fs path m rdev) L
       in if ret r = 0 then lookup_path parent (Some name) path None L else Some (Inl (ret r), L)
     else Some (res, L)
   }"

definition fuse_lib_mknod :: "u64 \<Rightarrow> bytes \<Rightarrow> u32 \<Rightarrow> u64 \<Rightarrow> 's lib \<Rightarrow> 's lib option" where
  "fuse_lib_mknod parent name m rdev = make_at parent name (mknod_at parent name m rdev)"

definition fuse_lib_mkdir :: "u64 \<Rightarrow> bytes \<Rightarrow> u32 \<Rightarrow> 's lib \<Rightarrow> 's lib option" where
  "fuse_lib_mkdir parent name m = make_at parent name (\<lambda>path L.
     let (r, L) = call (\<lambda>fs. fuse_fs_mkdir fs path m) L
     in if ret r = 0 then lookup_path parent (Some name) path None L else Some (Inl (ret r), L))"

definition fuse_lib_symlink :: "bytes \<Rightarrow> u64 \<Rightarrow> bytes \<Rightarrow> 's lib \<Rightarrow> 's lib option" where
  "fuse_lib_symlink linkname parent name = make_at parent name (\<lambda>path L.
     let (r, L) = call (\<lambda>fs. fuse_fs_symlink fs linkname path) L
     in if ret r = 0 then lookup_path parent (Some name) path None L else Some (Inl (ret r), L))"

definition fuse_lib_link :: "u64 \<Rightarrow> u64 \<Rightarrow> bytes \<Rightarrow> 's lib \<Rightarrow> 's lib option" where
  "fuse_lib_link ino newparent newname L = do {
     (res, L) \<leftarrow> get_paths ino None newparent (Some newname) False False L;
     case res of
       Inl err \<Rightarrow> reply_entry (Inl err) L
     | Inr ((oldpath, _), (newpath, _)) \<Rightarrow> do {
         let (r, L) = call (\<lambda>fs. fuse_fs_link fs (Some oldpath) (Some newpath)) L;
         (res, L) \<leftarrow> (if ret r = 0 then lookup_path newparent (Some newname) (Some newpath) None L else Some (Inl (ret r), L));
         L \<leftarrow> unlock2 ino newparent None None L;
         reply_entry res L
       }
   }"

subsection \<open>Hiding what is open\<close>

definition hex_digit :: "nat \<Rightarrow> u8" where
  "hex_digit d = (if d < 10 then 48 + of_nat d else 87 + of_nat d)"

definition hex8 :: "u32 \<Rightarrow> bytes" where
  "hex8 w = map (\<lambda>i. hex_digit (unat w div 16 ^ i mod 16)) [7, 6, 5, 4, 3, 2, 1, 0]"

text \<open>.fuse_hidden and two numbers of eight hexadecimal digits; it fits the buffer of 64 bytes.\<close>

definition hidden_string :: "u64 \<Rightarrow> u32 \<Rightarrow> bytes" where
  "hidden_string nodeid k = [46, 102, 117, 115, 101, 95, 104, 105, 100, 100, 101, 110] @ hex8 (ucast nodeid) @ hex8 k"

partial_function (option) unused_name :: "u64 \<Rightarrow> u64 \<Rightarrow> 's lib \<Rightarrow> (bytes \<times> 's lib) option" where
  "unused_name dir nodeid L =
     (let L = L\<lparr>hidectr := hidectr L + 1\<rparr>;
          newname = hidden_string nodeid (hidectr L)
      in if lookup_node (core L) dir newname \<noteq> None then unused_name dir nodeid L else Some (newname, L))"

text \<open>The new name and its path, if there is one; \<open>failctr\<close> counts the attempts left.\<close>

fun hidden_name :: "nat \<Rightarrow> u64 \<Rightarrow> bytes \<Rightarrow> 's lib \<Rightarrow> ((bytes \<times> bytes) option \<times> 's lib) option" where
  "hidden_name 0 dir oldname L = Some (None, L)"
| "hidden_name (Suc failctr) dir oldname L =
     (case lookup_node (core L) dir oldname of
        None \<Rightarrow> Some (None, L)
      | Some node \<Rightarrow> do {
          (newname, L) \<leftarrow> unused_name dir (n_nodeid (nd (core L) node)) L;
          (res, L) \<leftarrow> on_core (\<lambda>f. try_get_path f dir (Some newname) False False) L;
          case res of
            Inl err \<Rightarrow> Some (None, L)
          | Inr (newpath, _) \<Rightarrow>
              let (r, L) = call (\<lambda>fs. fuse_fs_getattr fs (Some newpath) None) L
              in if ret r = - ENOENT then Some (Some (newname, newpath), L)
                 else if ret r = 0 then hidden_name failctr dir oldname L
                 else Some (None, L)
        })"

definition hide_node :: "bytes \<Rightarrow> u64 \<Rightarrow> bytes \<Rightarrow> 's lib \<Rightarrow> (int \<times> 's lib) option" where
  "hide_node oldpath dir oldname L = do {
     (res, L) \<leftarrow> hidden_name 10 dir oldname L;
     case res of
       None \<Rightarrow> Some (- EBUSY, L)
     | Some (newname, newpath) \<Rightarrow>
         let (r, L) = call (\<lambda>fs. fuse_fs_rename fs (Some oldpath) (Some newpath) 0) L
         in if ret r \<noteq> 0 then Some (ret r, L)
            else on_core (\<lambda>f. rename_node f dir oldname dir newname True) L
   }"

definition fuse_lib_unlink :: "u64 \<Rightarrow> bytes \<Rightarrow> 's lib \<Rightarrow> 's lib option" where
  "fuse_lib_unlink parent name L = do {
     (res, L) \<leftarrow> get_path_wrlock parent name L;
     case res of
       Inl err \<Rightarrow> reply_err err L
     | Inr (path, wnode) \<Rightarrow> do {
         (err, L) \<leftarrow> (if \<not> hard_remove (conf L) \<and> is_open (core L) parent name \<noteq> 0 then hide_node path parent name L
           else let (r, L) = call (\<lambda>fs. fuse_fs_unlink fs (Some path)) L
                in if ret r \<noteq> 0 then Some (ret r, L)
                   else do { L \<leftarrow> update_core (\<lambda>f. remove_node f parent name) L; Some (0, L) });
         L \<leftarrow> unlock parent wnode L;
         reply_err err L
       }
   }"

definition fuse_lib_rmdir :: "u64 \<Rightarrow> bytes \<Rightarrow> 's lib \<Rightarrow> 's lib option" where
  "fuse_lib_rmdir parent name L = do {
     (res, L) \<leftarrow> get_path_wrlock parent name L;
     case res of
       Inl err \<Rightarrow> reply_err err L
     | Inr (path, wnode) \<Rightarrow> do {
         let (r, L) = call (\<lambda>fs. fuse_fs_rmdir fs (Some path)) L;
         L \<leftarrow> (if ret r = 0 then update_core (\<lambda>f. remove_node f parent name) L else Some L);
         L \<leftarrow> unlock parent wnode L;
         reply_err (ret r) L
       }
   }"

abbreviation "RENAME_EXCHANGE \<equiv> (2 :: u32)"

definition fuse_lib_rename :: "u64 \<Rightarrow> bytes \<Rightarrow> u64 \<Rightarrow> bytes \<Rightarrow> u32 \<Rightarrow> 's lib \<Rightarrow> 's lib option" where
  "fuse_lib_rename olddir oldname newdir newname flags L = do {
     (res, L) \<leftarrow> get_paths olddir (Some oldname) newdir (Some newname) True True L;
     case res of
       Inl err \<Rightarrow> reply_err err L
     | Inr ((oldpath, wnode1), (newpath, wnode2)) \<Rightarrow> do {
         (err, L) \<leftarrow> (if \<not> hard_remove (conf L) \<and> flags AND RENAME_EXCHANGE = 0 \<and> is_open (core L) newdir newname \<noteq> 0
           then hide_node newpath newdir newname L else Some (0, L));
         (err, L) \<leftarrow> (if err \<noteq> 0 then Some (err, L)
           else let (r, L) = call (\<lambda>fs. fuse_fs_rename fs (Some oldpath) (Some newpath) flags) L
                in if ret r \<noteq> 0 then Some (ret r, L)
                   else if flags AND RENAME_EXCHANGE \<noteq> 0 then on_core (\<lambda>f. exchange_node f olddir oldname newdir newname) L
                   else on_core (\<lambda>f. rename_node f olddir oldname newdir newname False) L);
         L \<leftarrow> unlock2 olddir newdir wnode1 wnode2 L;
         reply_err err L
       }
   }"

section \<open>Open files\<close>

definition drop_open :: "u64 \<Rightarrow> 's lib \<Rightarrow> (bool \<times> 's lib) option" where
  "drop_open ino L =
     (case get_fuse_node (core L) ino of
        None \<Rightarrow> None
      | Some r \<Rightarrow>
          if open_count (nd (core L) r) \<le> 0 then None
          else
            let f = upd r (\<lambda>n. n\<lparr>open_count := open_count n - 1\<rparr>) (core L);
                unlink_hidden = is_hidden (nd f r) \<and> open_count (nd f r) = 0;
                f = (if unlink_hidden then upd r (\<lambda>n. n\<lparr>is_hidden := False\<rparr>) f else f)
            in Some (unlink_hidden, L\<lparr>core := f\<rparr>))"

definition fuse_do_release :: "u64 \<Rightarrow> bytes option \<Rightarrow> fuse_file_info \<Rightarrow> 's lib \<Rightarrow> 's lib option" where
  "fuse_do_release ino path fi L = do {
     let (_, L) = call (\<lambda>fs. fuse_fs_release fs path fi) L;
     (unlink_hidden, L) \<leftarrow> drop_open ino L;
     if \<not> unlink_hidden then Some L
     else if path \<noteq> None then Some (snd (call (\<lambda>fs. fuse_fs_unlink fs path) L))
     else if nullpath_ok (conf L) then do {
       (res, L) \<leftarrow> get_path ino L;
       case res of
         Inl err \<Rightarrow> Some L
       | Inr unlinkpath \<Rightarrow>
           let (_, L) = call (\<lambda>fs. fuse_fs_unlink fs unlinkpath) L
           in free_path ino unlinkpath L
     }
     else Some L
   }"

definition add_open :: "u64 \<Rightarrow> 's lib \<Rightarrow> 's lib option" where
  "add_open ino L =
     (case get_fuse_node (core L) ino of
        None \<Rightarrow> None
      | Some r \<Rightarrow> Some (L\<lparr>core := upd r (\<lambda>n. n\<lparr>open_count := open_count n + 1\<rparr>) (core L)\<rparr>))"

text \<open>What is known after \<open>create\<close>: the node and the open file, or an error.\<close>

definition create_at :: "u64 \<Rightarrow> bytes \<Rightarrow> u32 \<Rightarrow> fuse_file_info \<Rightarrow> bytes option \<Rightarrow> 's lib \<Rightarrow> ((int + entry \<times> fuse_file_info) \<times> 's lib) option" where
  "create_at parent name m fi path L =
     (let (r, L) = call (\<lambda>fs. fuse_fs_create fs path m fi) L
      in if ret r \<noteq> 0 then Some (Inl (ret r), L)
         else do {
           let fi = fi_of fi r;
           (res, L) \<leftarrow> lookup_path parent (Some name) path (Some fi) L;
           case res of
             Inl err \<Rightarrow> Some (Inl err, snd (call (\<lambda>fs. fuse_fs_release fs path fi) L))
           | Inr e \<Rightarrow>
               if \<not> is_regular (a_mode (e_attr e)) then do {
                 let (_, L) = call (\<lambda>fs. fuse_fs_release fs path fi) L;
                 L \<leftarrow> forget (e_ino e) 1 L;
                 Some (Inl (- EIO), L)
               }
               else Some (Inr (e, fi\<lparr>direct_io := direct_io fi \<or> conf_direct_io (conf L), keep_cache := keep_cache fi \<or> kernel_cache (conf L)\<rparr>), L)
         })"

definition fuse_lib_create :: "u64 \<Rightarrow> bytes \<Rightarrow> u32 \<Rightarrow> fuse_file_info \<Rightarrow> 's lib \<Rightarrow> 's lib option" where
  "fuse_lib_create parent name m fi L = do {
     (res, L) \<leftarrow> get_path_name parent (Some name) L;
     case res of
       Inl err \<Rightarrow> reply_err err L
     | Inr path \<Rightarrow> do {
         (res, L) \<leftarrow> create_at parent name m fi path L;
         L \<leftarrow> (case res of
            Inl err \<Rightarrow> reply_err err L
          | Inr (e, fi) \<Rightarrow> do {
              L \<leftarrow> add_open (e_ino e) L;
              let (err, L) = send (Reply_create e fi) L;
              if err = - ENOENT then do {
                L \<leftarrow> fuse_do_release (e_ino e) path fi L;
                forget (e_ino e) 1 L
              } else Some L
            });
         free_path parent path L
       }
   }"

definition open_auto_cache :: "u64 \<Rightarrow> bytes option \<Rightarrow> fuse_file_info \<Rightarrow> 's lib \<Rightarrow> (fuse_file_info \<times> 's lib) option" where
  "open_auto_cache ino path fi L =
     (case get_fuse_node (core L) ino of
        None \<Rightarrow> None
      | Some n \<Rightarrow>
          let invalid = (\<lambda>b L. L\<lparr>caches := (caches L)(n := (caches L n)\<lparr>cache_valid := b\<rparr>)\<rparr>);
              L = (if cache_valid (caches L n) then
                let (t, L) = curr_time L
                in if expired (conf L) t (stat_updated (caches L n)) then
                     let (r, L) = call (\<lambda>fs. fuse_fs_getattr fs path (Some fi)) L
                     in if ret r = 0 then update_stat n (stat_of r) L else invalid False L
                   else L
                else L)
          in Some (if cache_valid (caches L n) then fi\<lparr>keep_cache := True\<rparr> else fi, invalid True L))"

abbreviation "O_ACCESS \<equiv> (3 :: u32)"

definition fuse_lib_open :: "u64 \<Rightarrow> fuse_file_info \<Rightarrow> 's lib \<Rightarrow> 's lib option" where
  "fuse_lib_open ino fi L = do {
     (res, L) \<leftarrow> get_path ino L;
     case res of
       Inl err \<Rightarrow> reply_err err L
     | Inr path \<Rightarrow> do {
         let (r, L) = call (\<lambda>fs. fuse_fs_open fs path fi) L;
         L \<leftarrow> (if ret r \<noteq> 0 then reply_err (ret r) L
           else do {
             let fi = fi_of fi r;
             let fi = fi\<lparr>direct_io := direct_io fi \<or> conf_direct_io (conf L), keep_cache := keep_cache fi \<or> kernel_cache (conf L)\<rparr>;
             (fi, L) \<leftarrow> (if auto_cache (conf L) then open_auto_cache ino path fi L else Some (fi, L));
             let fi = (if no_rofd_flush (conf L) \<and> fi_flags fi AND O_ACCESS = 0 then fi\<lparr>noflush := True\<rparr> else fi);
             L \<leftarrow> add_open ino L;
             let (err, L) = send (Reply_open fi) L;
             if err = - ENOENT then fuse_do_release ino path fi L else Some L
           });
         free_path ino path L
       }
   }"

section \<open>Flush and release\<close>

abbreviation "F_GETLK \<equiv> (5 :: int)"
abbreviation "F_SETLK \<equiv> (6 :: int)"
abbreviation "F_SETLKW \<equiv> (7 :: int)"

text \<open>The result of \<open>locks_insert\<close> is not looked at; the two allocations it may make are taken from those of the nodes.\<close>

definition set_lock :: "u64 \<Rightarrow> fuse_file_info \<Rightarrow> flock \<Rightarrow> 's lib \<Rightarrow> 's lib option" where
  "set_lock ino fi lk L =
     (case (get_fuse_node (core L) ino, flock_to_lock lk) of
        (Some r, Some l) \<Rightarrow> do {
          let (m1, f) = next_malloc (core L);
          let (m2, f) = next_malloc f;
          (_, ls) \<leftarrow> locks_insert (m1, m2) (node_locks L r) (l\<lparr>lowner := lock_owner fi\<rparr>);
          Some (L\<lparr>core := f, node_locks := (node_locks L)(r := ls)\<rparr>)
        }
      | _ \<Rightarrow> None)"

definition unlock_all :: flock where
  "unlock_all = \<lparr>l_type = F_UNLCK, l_whence = 0, l_start = 0, l_len = 0, l_pid = 0\<rparr>"

definition fuse_flush_common :: "u64 \<Rightarrow> bytes option \<Rightarrow> fuse_file_info \<Rightarrow> 's lib \<Rightarrow> (int \<times> 's lib) option" where
  "fuse_flush_common ino path fi L =
     (let (r, L) = call (\<lambda>fs. fuse_fs_flush fs path fi) L;
          (rl, L) = call (\<lambda>fs. fuse_fs_lock fs path fi F_SETLK unlock_all) L
      in if ret rl \<noteq> - ENOSYS then do {
           L \<leftarrow> set_lock ino fi (case out_lock rl of None \<Rightarrow> unlock_all | Some lk \<Rightarrow> lk) L;
           Some (if ret r = - ENOSYS then 0 else ret r, L)
         }
         else Some (ret r, L))"

text \<open>The path, or \<open>NULL\<close> when it cannot be had.\<close>

definition some_path :: "u64 \<Rightarrow> 's lib \<Rightarrow> (bytes option \<times> 's lib) option" where
  "some_path ino L = do {
     (res, L) \<leftarrow> get_path_nullok ino L;
     Some (case res of Inl err \<Rightarrow> None | Inr path \<Rightarrow> path, L)
   }"

definition fuse_lib_release :: "u64 \<Rightarrow> fuse_file_info \<Rightarrow> 's lib \<Rightarrow> 's lib option" where
  "fuse_lib_release ino fi L = do {
     (path, L) \<leftarrow> some_path ino L;
     (err, L) \<leftarrow> (if fi_flush fi then fuse_flush_common ino path fi L else Some (0, L));
     let err = (if err = - ENOSYS then 0 else err);
     L \<leftarrow> fuse_do_release ino path fi L;
     L \<leftarrow> free_path ino path L;
     reply_err err L
   }"

definition fuse_lib_flush :: "u64 \<Rightarrow> fuse_file_info \<Rightarrow> 's lib \<Rightarrow> 's lib option" where
  "fuse_lib_flush ino fi L = do {
     (path, L) \<leftarrow> some_path ino L;
     (err, L) \<leftarrow> fuse_flush_common ino path fi L;
     L \<leftarrow> free_path ino path L;
     reply_err err L
   }"

section \<open>Locks of byte ranges\<close>

definition fuse_lock_common :: "u64 \<Rightarrow> fuse_file_info \<Rightarrow> flock \<Rightarrow> int \<Rightarrow> 's lib \<Rightarrow> (int \<times> flock \<times> 's lib) option" where
  "fuse_lock_common ino fi lk cmd L = do {
     (r, L) \<leftarrow> at_path True ino (\<lambda>path fs. fuse_fs_lock fs path fi cmd lk) L;
     Some (ret r, case out_lock r of None \<Rightarrow> lk | Some lk \<Rightarrow> lk, L)
   }"

definition fuse_lib_getlk :: "u64 \<Rightarrow> fuse_file_info \<Rightarrow> flock \<Rightarrow> 's lib \<Rightarrow> 's lib option" where
  "fuse_lib_getlk ino fi lk L =
     (case (get_fuse_node (core L) ino, flock_to_lock lk) of
        (Some r, Some l) \<Rightarrow>
          (case locks_conflict (node_locks L r) (l\<lparr>lowner := lock_owner fi\<rparr>) of
             Some conflict \<Rightarrow> do { lk \<leftarrow> lock_to_flock conflict lk; finish (Reply_lock lk) L }
           | None \<Rightarrow> do {
               (err, lk, L) \<leftarrow> fuse_lock_common ino fi lk F_GETLK L;
               if err = 0 then finish (Reply_lock lk) L else reply_err err L
             })
      | _ \<Rightarrow> None)"

definition fuse_lib_setlk :: "u64 \<Rightarrow> fuse_file_info \<Rightarrow> flock \<Rightarrow> bool \<Rightarrow> 's lib \<Rightarrow> 's lib option" where
  "fuse_lib_setlk ino fi lk sleep L = do {
     (err, lk, L) \<leftarrow> fuse_lock_common ino fi lk (if sleep then F_SETLKW else F_SETLK) L;
     L \<leftarrow> (if err = 0 then set_lock ino fi lk L else Some L);
     reply_err err L
   }"

definition fuse_lib_flock :: "u64 \<Rightarrow> fuse_file_info \<Rightarrow> int \<Rightarrow> 's lib \<Rightarrow> 's lib option" where
  "fuse_lib_flock ino fi opn L = do {
     (r, L) \<leftarrow> at_path True ino (\<lambda>path fs. fuse_fs_flock fs path fi opn) L;
     reply_err (ret r) L
   }"

section \<open>The other requests\<close>

definition fuse_lib_fsync :: "u64 \<Rightarrow> int \<Rightarrow> fuse_file_info \<Rightarrow> 's lib \<Rightarrow> 's lib option" where
  "fuse_lib_fsync ino datasync fi L = do {
     (r, L) \<leftarrow> at_path True ino (\<lambda>path fs. fuse_fs_fsync fs path datasync fi) L;
     reply_err (ret r) L
   }"

definition fuse_lib_statfs :: "u64 \<Rightarrow> 's lib \<Rightarrow> 's lib option" where
  "fuse_lib_statfs ino L = do {
     (r, L) \<leftarrow> (if ino \<noteq> 0 then at_path False ino (\<lambda>path fs. fuse_fs_statfs fs path) L
       else Some (call (\<lambda>fs. fuse_fs_statfs fs (Some [SLASH])) L));
     if ret r = 0 then finish (Reply_statfs (case out_statfs r of None \<Rightarrow> (0, 0) | Some st \<Rightarrow> st)) L
     else reply_err (ret r) L
   }"

definition fuse_lib_setxattr :: "u64 \<Rightarrow> bytes \<Rightarrow> bytes \<Rightarrow> int \<Rightarrow> 's lib \<Rightarrow> 's lib option" where
  "fuse_lib_setxattr ino name val flags L = do {
     (r, L) \<leftarrow> at_path False ino (\<lambda>path fs. fuse_fs_setxattr fs path name val flags) L;
     reply_err (ret r) L
   }"

text \<open>
  The answer to a request for the value of an attribute, or for the list of names: with a size it
  is the bytes, without the size needed. The value is the beginning of what the file system stored.
\<close>

definition reply_sized :: "nat \<Rightarrow> fs_result \<Rightarrow> 's lib \<Rightarrow> 's lib option" where
  "reply_sized sz r L =
     (if sz > 0 then
        if ret r > 0 then
          (case out_data r of
             None \<Rightarrow> None
           | Some d \<Rightarrow> if nat (ret r) \<le> sz \<and> nat (ret r) \<le> length d then finish (Reply_buf (take (nat (ret r)) d)) L else None)
        else reply_err (ret r) L
      else if ret r \<ge> 0 then finish (Reply_xattr (ret r)) L
      else reply_err (ret r) L)"

definition fuse_lib_getxattr :: "u64 \<Rightarrow> bytes \<Rightarrow> nat \<Rightarrow> 's lib \<Rightarrow> 's lib option" where
  "fuse_lib_getxattr ino name sz L =
     (let (ok, f) = (if sz > 0 then next_malloc (core L) else (True, core L));
          L = L\<lparr>core := f\<rparr>
      in if \<not> ok then reply_err (- ENOMEM) L
         else do {
           (r, L) \<leftarrow> at_path False ino (\<lambda>path fs. fuse_fs_getxattr fs path name sz) L;
           reply_sized sz r L
         })"

definition fuse_lib_listxattr :: "u64 \<Rightarrow> nat \<Rightarrow> 's lib \<Rightarrow> 's lib option" where
  "fuse_lib_listxattr ino sz L =
     (let (ok, f) = (if sz > 0 then next_malloc (core L) else (True, core L));
          L = L\<lparr>core := f\<rparr>
      in if \<not> ok then reply_err (- ENOMEM) L
         else do {
           (r, L) \<leftarrow> at_path False ino (\<lambda>path fs. fuse_fs_listxattr fs path sz) L;
           reply_sized sz r L
         })"

definition fuse_lib_removexattr :: "u64 \<Rightarrow> bytes \<Rightarrow> 's lib \<Rightarrow> 's lib option" where
  "fuse_lib_removexattr ino name L = do {
     (r, L) \<leftarrow> at_path False ino (\<lambda>path fs. fuse_fs_removexattr fs path name) L;
     reply_err (ret r) L
   }"

definition fuse_lib_bmap :: "u64 \<Rightarrow> nat \<Rightarrow> u64 \<Rightarrow> 's lib \<Rightarrow> 's lib option" where
  "fuse_lib_bmap ino blocksize idx L = do {
     (r, L) \<leftarrow> at_path False ino (\<lambda>path fs. fuse_fs_bmap fs path blocksize idx) L;
     if ret r = 0 then finish (Reply_bmap (case out_number r of None \<Rightarrow> idx | Some i \<Rightarrow> i)) L else reply_err (ret r) L
   }"

definition fuse_lib_poll :: "u64 \<Rightarrow> fuse_file_info \<Rightarrow> u64 option \<Rightarrow> 's lib \<Rightarrow> 's lib option" where
  "fuse_lib_poll ino fi ph L = do {
     (r, L) \<leftarrow> at_path True ino (\<lambda>path fs. fuse_fs_poll fs path fi ph) L;
     if ret r = 0 then finish (Reply_poll (case out_number r of None \<Rightarrow> 0 | Some i \<Rightarrow> i)) L else reply_err (ret r) L
   }"

definition fuse_lib_fallocate :: "u64 \<Rightarrow> int \<Rightarrow> int \<Rightarrow> int \<Rightarrow> fuse_file_info \<Rightarrow> 's lib \<Rightarrow> 's lib option" where
  "fuse_lib_fallocate ino m off len fi L = do {
     (r, L) \<leftarrow> at_path True ino (\<lambda>path fs. fuse_fs_fallocate fs path m off len fi) L;
     reply_err (ret r) L
   }"

definition fuse_lib_copy_file_range :: "u64 \<Rightarrow> int \<Rightarrow> fuse_file_info \<Rightarrow> u64 \<Rightarrow> int \<Rightarrow> fuse_file_info \<Rightarrow> u64 \<Rightarrow> int \<Rightarrow> 's lib \<Rightarrow> 's lib option" where
  "fuse_lib_copy_file_range ino_in off_in fi_in ino_out off_out fi_out len flags L = do {
     (res, L) \<leftarrow> get_path_nullok ino_in L;
     case res of
       Inl err \<Rightarrow> reply_err err L
     | Inr path_in \<Rightarrow> do {
         (res, L) \<leftarrow> get_path_nullok ino_out L;
         case res of
           Inl err \<Rightarrow> do { L \<leftarrow> free_path ino_in path_in L; reply_err err L }
         | Inr path_out \<Rightarrow> do {
             let (r, L) = call (\<lambda>fs. fuse_fs_copy_file_range fs path_in fi_in off_in path_out fi_out off_out len flags) L;
             L \<leftarrow> (if ret r \<ge> 0 then finish (Reply_write (ret r)) L else reply_err (ret r) L);
             L \<leftarrow> free_path ino_in path_in L;
             free_path ino_out path_out L
           }
       }
   }"

definition fuse_lib_lseek :: "u64 \<Rightarrow> int \<Rightarrow> int \<Rightarrow> fuse_file_info \<Rightarrow> 's lib \<Rightarrow> 's lib option" where
  "fuse_lib_lseek ino off whence fi L = do {
     (res, L) \<leftarrow> get_path ino L;
     case res of
       Inl err \<Rightarrow> reply_err err L
     | Inr path \<Rightarrow> do {
         let (r, L) = call (\<lambda>fs. fuse_fs_lseek fs path off whence fi) L;
         L \<leftarrow> free_path ino path L;
         if ret r \<ge> 0 then finish (Reply_lseek (ret r)) L else reply_err (ret r) L
       }
   }"

end
