(* ===== verification/Fuse_Dir.thy ===== *)
theory Fuse_Dir
  imports Fuse_Lib
begin

text \<open>
  Open directories of \<^verbatim>\<open>lib/fuse.c\<close>: the handle \<open>struct fuse_dh\<close>, the callback \<open>fill_dir\<close> that the file system calls
  for each entry, and the requests \<open>fuse_lib_opendir\<close>, \<open>fuse_lib_readdir\<close>, \<open>fuse_lib_releasedir\<close> and \<open>fuse_lib_fsyncdir\<close>,
  with \<open>fuse_add_direntry\<close> of \<^verbatim>\<open>lib/fuse_lowlevel.c\<close>, the form in which the kernel gets an entry.

  The operation \<open>readdir\<close> of the file system is a parameter: what it does, from its start to its return, is a tree of calls
  of the callback, each continued by the callback's answer. Lengths are below 4 GB.
\<close>

section \<open>Entries for the kernel\<close>

abbreviation "FUSE_NAME_OFFSET \<equiv> (24 :: nat)"

definition dirent_align :: "nat \<Rightarrow> nat" where
  "dirent_align x = (x + 7) div 8 * 8"

text \<open>The length of the entry, and the bytes that are written: none when it does not fit.\<close>

definition fuse_add_direntry :: "nat \<Rightarrow> bytes \<Rightarrow> fuse_stat \<Rightarrow> u64 \<Rightarrow> nat \<times> bytes" where
  "fuse_add_direntry bufsize name st off =
     (let namelen = length name;
          entlen = FUSE_NAME_OFFSET + namelen;
          entlen_padded = dirent_align entlen
      in if entlen_padded > bufsize then (entlen_padded, [])
         else (entlen_padded,
           to_le 8 (a_ino st) @ to_le 8 off @ to_le 4 (of_nat namelen :: u32) @ to_le 4 (drop_bit 12 (a_mode st AND 0xF000)) @
           name @ replicate (entlen_padded - entlen) 0))"

section \<open>The handle\<close>

record direntry =
  de_name :: bytes
  de_stat :: fuse_stat

text \<open>\<open>dh_contents\<close> are the bytes up to \<open>len\<close>; those after it are never read.\<close>

record fuse_dh =
  dh_contents :: bytes
  dh_first :: "direntry list"
  dh_size :: nat
  needlen :: nat
  dh_filled :: bool
  dh_fh :: u64
  dh_error :: int
  dh_nodeid :: u64

definition get_dirhandle :: "fuse_dh \<Rightarrow> fuse_file_info" where
  "get_dirhandle dh = zero_file_info\<lparr>fh := dh_fh dh\<rparr>"

definition extend_contents :: "nat \<Rightarrow> fuse_dh \<Rightarrow> fuse \<Rightarrow> (bool \<times> fuse_dh \<times> fuse) option" where
  "extend_contents minsize dh f =
     (if minsize > dh_size dh then do {
        newsize \<leftarrow> grow_size minsize (if dh_size dh = 0 then 1024 else dh_size dh);
        let (ok, f) = next_malloc f;
        Some (if ok then (True, dh\<lparr>dh_size := newsize\<rparr>, f) else (False, dh\<lparr>dh_error := - ENOMEM\<rparr>, f))
      }
      else Some (True, dh, f))"

definition fuse_add_direntry_to_dh :: "fuse_dh \<Rightarrow> fuse \<Rightarrow> bytes \<Rightarrow> fuse_stat \<Rightarrow> bool \<times> fuse_dh \<times> fuse" where
  "fuse_add_direntry_to_dh dh f name st =
     (let (ok, f) = next_malloc f
      in if \<not> ok then (False, dh\<lparr>dh_error := - ENOMEM\<rparr>, f)
         else let (ok, f) = next_malloc f
              in if \<not> ok then (False, dh\<lparr>dh_error := - ENOMEM\<rparr>, f)
                 else (True, dh\<lparr>dh_first := dh_first dh @ [\<lparr>de_name = name, de_stat = st\<rparr>]\<rparr>, f))"

definition lookup_nodeid :: "fuse \<Rightarrow> u64 \<Rightarrow> bytes \<Rightarrow> u64" where
  "lookup_nodeid f parent name = (case lookup_node f parent name of None \<Rightarrow> FUSE_UNKNOWN_INO | Some r \<Rightarrow> n_nodeid (nd f r))"

section \<open>The callback\<close>

abbreviation "FUSE_FILL_DIR_PLUS \<equiv> (2 :: u32)"

text \<open>The answer is whether the file system has to stop.\<close>

definition fill_dir :: "config \<Rightarrow> bytes \<Rightarrow> fuse_stat option \<Rightarrow> u64 \<Rightarrow> u32 \<Rightarrow> fuse_dh \<times> fuse \<Rightarrow> (bool \<times> fuse_dh \<times> fuse) option" where
  "fill_dir cfg name statp off flags = (\<lambda>(dh, f).
     if flags AND NOT FUSE_FILL_DIR_PLUS \<noteq> 0 then Some (True, dh\<lparr>dh_error := - EIO\<rparr>, f)
     else
       let st = (case statp of Some st \<Rightarrow> st | None \<Rightarrow> zero_stat\<lparr>a_ino := FUSE_UNKNOWN_INO\<rparr>);
           st = (if \<not> use_ino cfg then
                   st\<lparr>a_ino := (if readdir_ino cfg then lookup_nodeid f (dh_nodeid dh) name else FUSE_UNKNOWN_INO)\<rparr>
                 else st)
       in if off \<noteq> 0 then
            if dh_filled dh \<or> dh_first dh \<noteq> [] then Some (True, dh\<lparr>dh_error := - EIO\<rparr>, f)
            else do {
              (ok, dh, f) \<leftarrow> extend_contents (needlen dh) dh f;
              if \<not> ok then Some (True, dh, f)
              else
                let (entlen, e) = fuse_add_direntry (needlen dh - length (dh_contents dh)) name st off
                in if length (dh_contents dh) + entlen > needlen dh then Some (True, dh, f)
                   else Some (False, dh\<lparr>dh_contents := dh_contents dh @ e\<rparr>, f)
            }
          else
            let (ok, dh, f) = fuse_add_direntry_to_dh (dh\<lparr>dh_filled := True\<rparr>) f name st
            in Some (\<not> ok, dh, f))"

text \<open>A run of the operation \<open>readdir\<close>: it returns, or calls the callback and goes on with the answer.\<close>

datatype 's readdir_run =
    Return int 's
  | Fill bytes "fuse_stat option" u64 u32 "bool \<Rightarrow> 's readdir_run"

primrec run_readdir :: "config \<Rightarrow> 's readdir_run \<Rightarrow> fuse_dh \<times> fuse \<Rightarrow> (int \<times> 's \<times> fuse_dh \<times> fuse) option" where
  "run_readdir cfg (Return err s) dhf = Some (err, s, dhf)"
| "run_readdir cfg (Fill name statp off flags k) dhf = do {
     (stop, dhf) \<leftarrow> fill_dir cfg name statp off flags dhf;
     run_readdir cfg (k stop) dhf
   }"

type_synonym 's readdir_op = "(bytes option \<Rightarrow> int \<Rightarrow> fuse_file_info \<Rightarrow> 's \<Rightarrow> 's readdir_run) option"

definition fuse_fs_readdir :: "'s readdir_op \<Rightarrow> bytes option \<Rightarrow> int \<Rightarrow> fuse_file_info \<Rightarrow> 's \<Rightarrow> 's readdir_run" where
  "fuse_fs_readdir rd path off fi s = (case rd of Some g \<Rightarrow> g path off fi s | None \<Rightarrow> Return (- ENOSYS) s)"

section \<open>Reading\<close>

definition readdir_fill :: "'s readdir_op \<Rightarrow> u64 \<Rightarrow> nat \<Rightarrow> int \<Rightarrow> fuse_dh \<Rightarrow> 's lib \<Rightarrow> (int \<times> fuse_dh \<times> 's lib) option" where
  "readdir_fill rd ino sz off dh L = do {
     (res, L) \<leftarrow> (if rd \<noteq> None then get_path_nullok ino L else get_path ino L);
     case res of
       Inl err \<Rightarrow> Some (err, dh, L)
     | Inr path \<Rightarrow> do {
         let fi = get_dirhandle dh;
         let dh = dh\<lparr>dh_first := [], dh_contents := [], dh_error := 0, needlen := sz, dh_filled := False\<rparr>;
         (err, s, dh, f) \<leftarrow> run_readdir (conf L) (fuse_fs_readdir rd path off fi (fss L)) (dh, core L);
         let err = (if err = 0 then dh_error dh else err);
         let dh = (if err \<noteq> 0 then dh\<lparr>dh_filled := False\<rparr> else dh);
         L \<leftarrow> free_path ino path (L\<lparr>core := f, fss := s\<rparr>);
         Some (err, dh, L)
       }
   }"

fun skip_entries :: "int \<Rightarrow> int \<Rightarrow> direntry list \<Rightarrow> int \<times> direntry list" where
  "skip_entries off pos [] = (pos, [])"
| "skip_entries off pos (de # des) = (if pos < off then skip_entries off (pos + 1) des else (pos, de # des))"

fun list_entries :: "nat \<Rightarrow> int \<Rightarrow> direntry list \<Rightarrow> bytes \<Rightarrow> bytes" where
  "list_entries need pos [] done = done"
| "list_entries need pos (de # des) done =
     (let pos = pos + 1;
          (entlen, e) = fuse_add_direntry (need - length done) (de_name de) (de_stat de) (word_of_int pos)
      in if length done + entlen > need then done
         else list_entries need pos des (done @ e))"

definition readdir_fill_from_list :: "int \<Rightarrow> fuse_dh \<Rightarrow> fuse \<Rightarrow> (int \<times> fuse_dh \<times> fuse) option" where
  "readdir_fill_from_list off dh f = do {
     (ok, dh, f) \<leftarrow> extend_contents (needlen dh) (dh\<lparr>dh_contents := []\<rparr>) f;
     if \<not> ok then Some (dh_error dh, dh, f)
     else
       let (pos, des) = skip_entries off 0 (dh_first dh)
       in Some (0, dh\<lparr>dh_contents := list_entries (needlen dh) pos des []\<rparr>, f)
   }"

definition fuse_lib_readdir :: "'s readdir_op \<Rightarrow> u64 \<Rightarrow> nat \<Rightarrow> int \<Rightarrow> fuse_dh \<Rightarrow> 's lib \<Rightarrow> (fuse_dh \<times> 's lib) option" where
  "fuse_lib_readdir rd ino sz off dh L = do {
     let dh = (if off = 0 then dh\<lparr>dh_filled := False\<rparr> else dh);
     (err, dh, L) \<leftarrow> (if \<not> dh_filled dh then readdir_fill rd ino sz off dh L else Some (0, dh, L));
     if err \<noteq> 0 then do { L \<leftarrow> reply_err err L; Some (dh, L) }
     else do {
       (err, dh, f) \<leftarrow> (if dh_filled dh then readdir_fill_from_list off (dh\<lparr>needlen := sz\<rparr>) (core L) else Some (0, dh, core L));
       let L = L\<lparr>core := f\<rparr>;
       L \<leftarrow> (if err \<noteq> 0 then reply_err err L else finish (Reply_buf (dh_contents dh)) L);
       Some (dh, L)
     }
   }"

section \<open>Opening and releasing\<close>

text \<open>\<open>addr\<close> is the address of the new handle; the result is the handle when it stays allocated.\<close>

definition fuse_lib_opendir :: "u64 \<Rightarrow> u64 \<Rightarrow> fuse_file_info \<Rightarrow> 's lib \<Rightarrow> (fuse_dh option \<times> 's lib) option" where
  "fuse_lib_opendir addr ino llfi L =
     (let (ok, f) = next_malloc (core L);
          L = L\<lparr>core := f\<rparr>
      in if \<not> ok then do { L \<leftarrow> reply_err (- ENOMEM) L; Some (None, L) }
         else do {
           (res, L) \<leftarrow> get_path ino L;
           case res of
             Inl err \<Rightarrow> do { L \<leftarrow> reply_err err L; Some (None, L) }
           | Inr path \<Rightarrow> do {
               let fi = zero_file_info\<lparr>fi_flags := fi_flags llfi\<rparr>;
               let (r, L) = call (\<lambda>fs. fuse_fs_opendir fs path fi) L;
               let fi = fi_of fi r;
               let dh = \<lparr>dh_contents = [], dh_first = [], dh_size = 0, needlen = 0, dh_filled = False, dh_fh = fh fi, dh_error = 0, dh_nodeid = ino\<rparr>;
               (d, L) \<leftarrow> (if ret r = 0 then
                   let (err, L) = send (Reply_open (llfi\<lparr>fh := addr\<rparr>)) L
                   in if err = - ENOENT then Some (None, snd (call (\<lambda>fs. fuse_fs_releasedir fs path fi) L))
                      else Some (Some dh, L)
                 else do { L \<leftarrow> reply_err (ret r) L; Some (None, L) });
               L \<leftarrow> free_path ino path L;
               Some (d, L)
             }
         })"

definition fuse_lib_releasedir :: "u64 \<Rightarrow> fuse_dh \<Rightarrow> 's lib \<Rightarrow> 's lib option" where
  "fuse_lib_releasedir ino dh L = do {
     (path, L) \<leftarrow> some_path ino L;
     let (r, L) = call (\<lambda>fs. fuse_fs_releasedir fs path (get_dirhandle dh)) L;
     L \<leftarrow> free_path ino path L;
     reply_err 0 L
   }"

definition fuse_lib_fsyncdir :: "u64 \<Rightarrow> int \<Rightarrow> fuse_dh \<Rightarrow> 's lib \<Rightarrow> 's lib option" where
  "fuse_lib_fsyncdir ino datasync dh L = do {
     (r, L) \<leftarrow> at_path True ino (\<lambda>path fs. fuse_fs_fsyncdir fs path datasync (get_dirhandle dh)) L;
     reply_err (ret r) L
   }"

end
