(* ===== verification/Fuse_Lib_Locks.thy ===== *)
theory Fuse_Lib_Locks
  imports Fuse_Lib
begin

text \<open>
  The locks of paths while requests run: \<open>good hs\<close> says that the nodes are well formed and the paths \<open>hs\<close> are locked.
  Operations on nodes that leave alone what is locked (\<open>frame\<close>) keep it, and so each request can free what it locked.
\<close>


section \<open>Locks in a state of their own\<close>

definition zeroed :: "fuse \<Rightarrow> fuse" where
  "zeroed f = relock (\<lambda>_ _. 0) f"

definition locks_held :: "fuse \<Rightarrow> (u64 \<times> nat option) list \<Rightarrow> bool" where
  "locks_held f hs \<longleftrightarrow>
     (\<forall>q \<in> live f. lock_value (readers f hs q) (writers hs q) (treelock (nd f q))) \<and> length hs < 2 ^ 31 - 1 \<and>
     (\<forall>h \<in> set hs. \<exists>r qs e. get_fuse_node f (fst h) = Some r \<and> chain f r qs e \<and> n_nodeid (nd f e) = FUSE_ROOT_ID \<and>
        (\<forall>w. snd h = Some w \<longrightarrow> w \<in> live f \<and> w \<notin> set qs))"

lemma covers_relocked:
  assumes "tree_at_rest f0" "f = (relock h f0)\<lparr>malloc_no := k\<rparr>"
  shows "covers f hh q \<longleftrightarrow> covers f0 hh q"
proof -
  note v = relocked_views [OF assms]
  show ?thesis
  proof
    assume "covers f hh q"
    then obtain r qs e where c: "get_fuse_node f (fst hh) = Some r" "chain f r qs e" "q \<in> set qs" by (auto simp: covers_def)
    have g: "get_fuse_node f0 (fst hh) = Some r" using c(1) v(2) by simp
    then have "r \<in> live f0" using get_node_iff [of f0 "fst hh" r] assms(1) by (simp add: tree_at_rest_def)
    then obtain qs0 e0 where c0: "chain f0 r qs0 e0" using chain_exists [OF assms(1)] by blast
    have "qs = qs0" using chain_unique [OF c(2) v(4) [OF c0]] by simp
    then show "covers f0 hh q" using g c0 c(3) by (auto simp: covers_def)
  next
    assume "covers f0 hh q"
    then show "covers f hh q" using v(2,4) by (fastforce simp: covers_def)
  qed
qed

lemma readers_relocked:
  assumes "tree_at_rest f0" "f = (relock h f0)\<lparr>malloc_no := k\<rparr>"
  shows "readers f hs q = readers f0 hs q"
  by (simp add: readers_def covers_relocked [OF assms])

lemma locks_inv_held:
  assumes "tree_at_rest f0" "locks_inv f0 f hs"
  shows "locks_held f hs"
proof -
  obtain t k where t: "f = (relock (\<lambda>q _. t q) f0)\<lparr>malloc_no := k\<rparr>" "\<forall>q \<in> live f0. lock_value (readers f0 hs q) (writers hs q) (t q)"
    by (rule locks_invD [OF assms(2)]) blast
  note v = relocked_views [OF assms(1) t(1)]
  have "\<exists>r qs e. get_fuse_node f (fst h) = Some r \<and> chain f r qs e \<and> n_nodeid (nd f e) = FUSE_ROOT_ID \<and>
      (\<forall>w. snd h = Some w \<longrightarrow> w \<in> live f \<and> w \<notin> set qs)" if h: "h \<in> set hs" for h
  proof -
    obtain r qs e where c: "get_fuse_node f0 (fst h) = Some r" "chain f0 r qs e" "n_nodeid (nd f0 e) = FUSE_ROOT_ID"
      "\<forall>w. snd h = Some w \<longrightarrow> w \<in> live f0 \<and> w \<notin> set qs"
      using assms(2) h unfolding locks_inv_def by blast
    then have e: "e \<in> live f0" using chain_live by blast
    show ?thesis
      by (intro exI [of _ r] exI [of _ qs] exI [of _ e] conjI) (use c e v(4) [OF c(2)] v(2,5,7) in simp_all)
  qed
  moreover have "lock_value (readers f hs q) (writers hs q) (treelock (nd f q))" if "q \<in> live f" for q
    using that t(2) v(5,7) readers_relocked [OF assms(1) t(1)] by simp
  ultimately show ?thesis using assms(2) by (simp add: locks_held_def locks_inv_def)
qed

lemma zeroed_rest: "tree_at_rest f \<Longrightarrow> tree_at_rest (zeroed f)"
  by (simp add: zeroed_def relock_rest)

lemma of_zeroed: "f = (relock (\<lambda>q _. treelock (nd f q)) (zeroed f))\<lparr>malloc_no := malloc_no f\<rparr>"
proof -
  have "relock (\<lambda>q _. treelock (nd f q)) (zeroed f) = relock (\<lambda>q k. treelock (nd f q)) f"
    by (simp add: zeroed_def relock_relock)
  also have "\<dots> = f" by (rule relock_id) simp
  finally show ?thesis by simp
qed

lemma locks_held_inv:
  assumes "tree_at_rest f" "locks_held f hs"
  shows "locks_inv (zeroed f) f hs"
proof -
  note z = zeroed_rest [OF assms(1)]
  note v = relocked_views [OF z of_zeroed]
  have bk: "zeroed f = (relock (\<lambda>_ _. 0) f)\<lparr>malloc_no := malloc_no f\<rparr>" by (simp add: zeroed_def)
  note w = relocked_views [OF assms(1) bk]
  have "\<exists>r qs e. get_fuse_node (zeroed f) (fst h) = Some r \<and> chain (zeroed f) r qs e \<and> n_nodeid (nd (zeroed f) e) = FUSE_ROOT_ID \<and>
      (\<forall>x. snd h = Some x \<longrightarrow> x \<in> live (zeroed f) \<and> x \<notin> set qs)" if h: "h \<in> set hs" for h
  proof -
    obtain r qs e where c: "get_fuse_node f (fst h) = Some r" "chain f r qs e" "n_nodeid (nd f e) = FUSE_ROOT_ID"
      "\<forall>x. snd h = Some x \<longrightarrow> x \<in> live f \<and> x \<notin> set qs"
      using assms(2) h unfolding locks_held_def by blast
    then have e: "e \<in> live f" using chain_live by blast
    show ?thesis
      by (intro exI [of _ r] exI [of _ qs] exI [of _ e] conjI) (use c e w(4) [OF c(2)] w(2,5,7) in simp_all)
  qed
  moreover have "\<forall>q \<in> live (zeroed f). lock_value (readers (zeroed f) hs q) (writers hs q) (treelock (nd f q))"
    using assms(2) w(5) readers_relocked [OF assms(1) bk] by (simp add: locks_held_def)
  moreover have "length hs < 2 ^ 31 - 1" using assms(2) by (simp add: locks_held_def)
  ultimately show ?thesis unfolding locks_inv_def
    by (intro conjI exI [of _ "\<lambda>q. treelock (nd f q)"] exI [of _ "malloc_no f"] of_zeroed) blast+
qed

lemma held_value: "locks_held f hs \<Longrightarrow> q \<in> live f \<Longrightarrow> lock_value (readers f hs q) (writers hs q) (treelock (nd f q))"
  by (simp add: locks_held_def)

lemma held_covered:
  assumes "locks_held f hs" "h \<in> set hs" "covers f h q" "q \<in> live f"
  shows "treelock (nd f q) \<noteq> 0"
proof -
  have "0 < readers f hs q" using assms(2,3) by (auto simp: readers_def length_greater_0_conv filter_empty_conv)
  moreover have "readers f hs q < 2 ^ 31 - 1" using readers_bound [of f hs q] assms(1) by (simp add: locks_held_def)
  ultimately show ?thesis using held_value [OF assms(1,4)] by (auto simp: lock_value_def)
qed

lemma held_none:
  assumes "locks_held f hs" "q \<in> live f" "\<forall>h \<in> set hs. \<not> covers f h q \<and> snd h \<noteq> Some q"
  shows "treelock (nd f q) = 0"
proof -
  have "readers f hs q = 0" "writers hs q = 0" using assms(3) by (simp_all add: readers_def writers_def filter_empty_conv)
  then show ?thesis using held_value [OF assms(1,2)] by (simp add: lock_value_def)
qed

lemma held_Nil: "locks_held f [] \<longleftrightarrow> (\<forall>q \<in> live f. treelock (nd f q) = 0)"
  by (simp add: locks_held_def readers_def writers_def lock_value_def)

lemma held_get:
  assumes "tree_at_rest f" "locks_held f hs" "Suc (length hs) < 2 ^ 31 - 1" "get_fuse_node f ino \<noteq> None" "path_fits f ino name"
    and "wr \<longrightarrow> name \<noteq> None" "try_get_path f ino name wr True = Some (Inr (path, w), f')"
  shows "locks_held f' ((ino, w) # hs)"
  by (rule locks_inv_held [OF zeroed_rest [OF assms(1)] locks_inv_get [OF zeroed_rest [OF assms(1)] locks_held_inv [OF assms(1,2)] assms(3-7)]])

lemma held_fail:
  assumes "tree_at_rest f" "locks_held f hs" "get_fuse_node f ino \<noteq> None" "path_fits f ino name"
    and "wr \<longrightarrow> name \<noteq> None" "try_get_path f ino name wr True = Some (Inl err, f')"
  shows "locks_held f' hs"
  by (rule locks_inv_held [OF zeroed_rest [OF assms(1)] locks_inv_fail [OF zeroed_rest [OF assms(1)] locks_held_inv [OF assms(1,2)] assms(3-6)]])

lemma held_free:
  assumes "tree_ok f" "lru_ok f" "locks_held f hs" "(ino, w) \<in> set hs"
  shows "\<exists>h k. unlock_path f ino w None = Some ((relock h f)\<lparr>malloc_no := k\<rparr>) \<and> tree_ok ((relock h f)\<lparr>malloc_no := k\<rparr>) \<and>
    lru_ok ((relock h f)\<lparr>malloc_no := k\<rparr>) \<and> locks_held ((relock h f)\<lparr>malloc_no := k\<rparr>) (remove1 (ino, w) hs)"
proof -
  note i = tree_okD [OF assms(1)]
  note z = zeroed_rest [OF i(3)]
  obtain f' where f': "unlock_path f ino w None = Some f'" "locks_inv (zeroed f) f' (remove1 (ino, w) hs)"
    using locks_inv_free [OF z locks_held_inv [OF i(3) assms(3)] assms(4)] by blast
  obtain t k where t: "f' = (relock (\<lambda>q _. t q) (zeroed f))\<lparr>malloc_no := k\<rparr>"
    "\<forall>q \<in> live (zeroed f). lock_value (readers (zeroed f) (remove1 (ino, w) hs) q) (writers (remove1 (ino, w) hs) q) (t q)"
    by (rule locks_invD [OF f'(2)]) blast
  have e: "f' = (relock (\<lambda>q _. t q) f)\<lparr>malloc_no := k\<rparr>" by (simp add: t(1) zeroed_def relock_relock)
  have bk: "zeroed f = (relock (\<lambda>_ _. 0) f)\<lparr>malloc_no := malloc_no f\<rparr>" by (simp add: zeroed_def)
  have "t q \<noteq> 0 \<longrightarrow> nlookup (nd f q) \<noteq> 0" if q: "q \<in> live f" for q
  proof
    assume n: "t q \<noteq> 0"
    let ?hs = "remove1 (ino, w) hs"
    have "lock_value (readers f ?hs q) (writers ?hs q) (t q)"
      using t(2) q readers_relocked [OF i(3) bk] by (simp add: zeroed_def)
    then have "readers f ?hs q \<noteq> 0 \<or> writers ?hs q \<noteq> 0" using n by (auto simp: lock_value_def)
    then have "\<exists>h \<in> set ?hs. covers f h q \<or> snd h = Some q" by (auto simp: readers_def writers_def filter_empty_conv)
    then obtain h where h: "h \<in> set hs" "covers f h q \<or> snd h = Some q" using set_remove1_subset [of "(ino, w)" hs] by blast
    have "treelock (nd f q) \<noteq> 0"
    proof (cases "covers f h q")
      case True
      then show ?thesis using held_covered [OF assms(3) h(1) _ q] by simp
    next
      case False
      then have "0 < writers hs q" using h by (auto simp: writers_def length_greater_0_conv filter_empty_conv)
      then show ?thesis using held_value [OF assms(3) q] by (auto simp: lock_value_def)
    qed
    then show "nlookup (nd f q) \<noteq> 0" using refs_okD(3) [OF i(6) q] by simp
  qed
  then have "tree_ok f' \<and> lru_ok f'" by (intro relock_ok [OF assms(1,2) _ e]) simp
  moreover have "locks_held f' (remove1 (ino, w) hs)" by (rule locks_inv_held [OF z f'(2)])
  ultimately show ?thesis using f'(1) e by blast
qed

section \<open>Operations under locks\<close>

text \<open>An operation that leaves the place and the locks of the nodes that are locked keeps all that is held.\<close>

lemma chain_kept:
  assumes "chain f r qs e"
    and "\<forall>q \<in> insert e (set qs). q \<in> live f' \<and> n_name (nd f' q) = n_name (nd f q) \<and> n_parent (nd f' q) = n_parent (nd f q) \<and>
      n_nodeid (nd f' q) = n_nodeid (nd f q)"
  shows "chain f' r qs e"
  using assms
proof (induction rule: chain.induct)
  case (stop r)
  then show ?case by (intro chain.stop) auto
next
  case (up r name p qs e)
  then have "chain f' p qs e" by auto
  then show ?case using up by (intro chain.up [of r f' name p]) auto
qed

definition frame :: "(u64 \<times> nat option) list \<Rightarrow> fuse \<Rightarrow> fuse \<Rightarrow> bool" where
  "frame hs f f' \<longleftrightarrow>
     (\<forall>q \<in> live f'. treelock (nd f' q) = (if q \<in> live f then treelock (nd f q) else 0)) \<and>
     (\<forall>q \<in> live f. (\<exists>h \<in> set hs. covers f h q) \<or> n_nodeid (nd f q) = FUSE_ROOT_ID \<longrightarrow>
        q \<in> live f' \<and> n_name (nd f' q) = n_name (nd f q) \<and> n_parent (nd f' q) = n_parent (nd f q) \<and> n_nodeid (nd f' q) = n_nodeid (nd f q)) \<and>
     (\<forall>h \<in> set hs. \<forall>w. snd h = Some w \<longrightarrow> w \<in> live f')"

lemma held_frame:
  assumes "tree_ok f" "tree_ok f'" "locks_held f hs" "frame hs f f'"
  shows "locks_held f' hs"
proof -
  note i = tree_okD [OF assms(1)] and i' = tree_okD [OF assms(2)]
  have holder: "\<exists>qs e. get_fuse_node f (fst h) = Some r \<and> chain f r qs e \<and> get_fuse_node f' (fst h) = Some r \<and> chain f' r qs e \<and>
      n_nodeid (nd f' e) = FUSE_ROOT_ID \<and> set qs \<subseteq> live f \<and> (\<forall>w. snd h = Some w \<longrightarrow> w \<in> live f \<and> w \<in> live f' \<and> w \<notin> set qs)"
    if h: "h \<in> set hs" "get_fuse_node f (fst h) = Some r" for h r
  proof -
    obtain qs e where c: "chain f r qs e" "n_nodeid (nd f e) = FUSE_ROOT_ID" "\<forall>w. snd h = Some w \<longrightarrow> w \<in> live f \<and> w \<notin> set qs"
      using assms(3) h unfolding locks_held_def by fastforce
    have live: "set qs \<subseteq> live f" "e \<in> live f" "r \<in> live f" using chain_live [OF c(1)] by simp_all
    have cov: "covers f h q" if "q \<in> set qs" for q using that c(1) h(2) by (auto simp: covers_def)
    have same: "\<forall>q \<in> insert e (set qs). q \<in> live f' \<and> n_name (nd f' q) = n_name (nd f q) \<and> n_parent (nd f' q) = n_parent (nd f q) \<and>
        n_nodeid (nd f' q) = n_nodeid (nd f q)"
      using assms(4) live c(2) cov h(1) unfolding frame_def by blast
    have "r \<in> insert e (set qs)" using c(1) by (cases rule: chain.cases) simp_all
    moreover have "n_nodeid (nd f r) = fst h" using get_node_iff [OF i(4), of "fst h" r] h(2) by simp
    ultimately have "r \<in> live f'" "n_nodeid (nd f' r) = fst h" using same by metis+
    then have "get_fuse_node f' (fst h) = Some r" using get_node_iff [OF i'(4)] by simp
    moreover have "chain f' r qs e" by (rule chain_kept [OF c(1) same])
    moreover have "\<forall>w. snd h = Some w \<longrightarrow> w \<in> live f \<and> w \<in> live f' \<and> w \<notin> set qs"
      using c(3) assms(4) h(1) unfolding frame_def by blast
    moreover have "n_nodeid (nd f' e) = FUSE_ROOT_ID" using same c(2) by simp
    ultimately show ?thesis using c(1) live(1) h(2) by blast
  qed
  have known: "\<exists>r. get_fuse_node f (fst h) = Some r" if "h \<in> set hs" for h
    using assms(3) that unfolding locks_held_def by blast
  have cov: "covers f' h q \<longleftrightarrow> covers f h q" if h: "h \<in> set hs" for h q
  proof -
    obtain r where r: "get_fuse_node f (fst h) = Some r" using known [OF h] by blast
    obtain qs e where c: "get_fuse_node f' (fst h) = Some r" "chain f r qs e" "chain f' r qs e" using holder [OF h r] by blast
    show ?thesis
      using covers_chain [of f "fst h" r qs e "snd h" q] covers_chain [of f' "fst h" r qs e "snd h" q] r c by simp
  qed
  have rd: "readers f' hs q = readers f hs q" for q
    unfolding readers_def using cov by (metis (no_types, lifting) filter_cong)
  have "lock_value (readers f' hs q) (writers hs q) (treelock (nd f' q))" if q: "q \<in> live f'" for q
  proof (cases "q \<in> live f")
    case True
    then show ?thesis using held_value [OF assms(3) True] assms(4) q by (simp add: rd frame_def)
  next
    case False
    have "\<not> covers f h q" "snd h \<noteq> Some q" if "h \<in> set hs" for h
    proof -
      obtain r where r: "get_fuse_node f (fst h) = Some r" using known [OF \<open>h \<in> set hs\<close>] by blast
      obtain qs e where c: "chain f r qs e" "set qs \<subseteq> live f" "\<forall>w. snd h = Some w \<longrightarrow> w \<in> live f" using holder [OF \<open>h \<in> set hs\<close> r] by blast
      have "covers f (fst h, snd h) q \<longleftrightarrow> q \<in> set qs" by (rule covers_chain [OF r c(1)])
      then show "\<not> covers f h q" using c(2) False by auto
      show "snd h \<noteq> Some q" using c(3) False by blast
    qed
    then have "readers f hs q = 0" "writers hs q = 0" by (simp_all add: readers_def writers_def filter_empty_conv)
    moreover have "treelock (nd f' q) = 0" using assms(4) q False by (simp add: frame_def)
    ultimately show ?thesis by (simp add: rd lock_value_def)
  qed
  moreover have "\<exists>r qs e. get_fuse_node f' (fst h) = Some r \<and> chain f' r qs e \<and> n_nodeid (nd f' e) = FUSE_ROOT_ID \<and>
      (\<forall>w. snd h = Some w \<longrightarrow> w \<in> live f' \<and> w \<notin> set qs)" if h: "h \<in> set hs" for h
    using known [OF h] holder [OF h] by blast
  ultimately show ?thesis using assms(3) by (simp add: locks_held_def)
qed

lemma covered_held:
  assumes "tree_ok f" "locks_held f hs" "h \<in> set hs" "covers f h q \<or> snd h = Some q"
  shows "q \<in> held f"
proof -
  have q: "q \<in> live f"
  proof (cases "covers f h q")
    case True
    then show ?thesis using chain_live by (fastforce simp: covers_def)
  next
    case False
    then show ?thesis using assms(2-4) unfolding locks_held_def by blast
  qed
  have "treelock (nd f q) \<noteq> 0"
  proof (cases "covers f h q")
    case True
    then show ?thesis using held_covered [OF assms(2,3) _ q] by simp
  next
    case False
    then have "0 < writers hs q" using assms(3,4) by (auto simp: writers_def length_greater_0_conv filter_empty_conv)
    then show ?thesis using held_value [OF assms(2) q] by (auto simp: lock_value_def)
  qed
  then show ?thesis using refs_okD(3) [OF tree_okD(6) [OF assms(1)] q] q by (simp add: held_def)
qed

text \<open>What the operations on nodes are known to keep is enough when the nodes changed are not covered.\<close>

lemma frame_others:
  assumes "tree_ok f" "locks_held f hs" "others_kept S f f'" "\<And>q. q \<in> S \<Longrightarrow> q \<in> live f' \<Longrightarrow> q \<in> live f \<and> treelock (nd f' q) = treelock (nd f q)"
    and "\<And>q h. q \<in> S \<Longrightarrow> h \<in> set hs \<Longrightarrow> \<not> covers f h q" "\<And>q. q \<in> S \<Longrightarrow> n_nodeid (nd f q) \<noteq> FUSE_ROOT_ID"
    and "\<And>h w. h \<in> set hs \<Longrightarrow> snd h = Some w \<Longrightarrow> w \<in> S \<Longrightarrow> w \<in> live f'"
  shows "frame hs f f'"
  unfolding frame_def
proof (intro conjI ballI allI impI)
  fix q assume q: "q \<in> live f'"
  show "treelock (nd f' q) = (if q \<in> live f then treelock (nd f q) else 0)"
  proof (cases "q \<in> S")
    case False
    then show ?thesis using others_keptD(1) [OF assms(3) False q] others_kept_node(5) [OF assms(3) False q] by simp
  qed (use assms(4) q in simp)
next
  fix q assume q: "q \<in> live f" "(\<exists>h \<in> set hs. covers f h q) \<or> n_nodeid (nd f q) = FUSE_ROOT_ID"
  then have S: "q \<notin> S" using assms(5,6) by blast
  have "q \<in> held f"
    using q covered_held [OF assms(1,2)] links_okD(4) [OF tree_okD(5) [OF assms(1)] q(1)] by (auto simp: held_def)
  then have l: "q \<in> live f'" by (rule others_keptD(3) [OF assms(3) S])
  then show "q \<in> live f'" "n_name (nd f' q) = n_name (nd f q)" "n_parent (nd f' q) = n_parent (nd f q)" "n_nodeid (nd f' q) = n_nodeid (nd f q)"
    using others_kept_node [OF assms(3) S l] by simp_all
next
  fix h w assume h: "h \<in> set hs" "snd h = Some w"
  show "w \<in> live f'"
  proof (cases "w \<in> S")
    case False
    then show ?thesis using others_keptD(3) [OF assms(3) False] covered_held [OF assms(1,2) h(1), of w] h(2) by simp
  qed (use assms(7) h in blast)
qed


section \<open>Locking and freeing in the library\<close>

definition relocked :: "fuse \<Rightarrow> fuse \<Rightarrow> bool" where
  "relocked f f' \<longleftrightarrow> (\<exists>h k. f' = (relock h f)\<lparr>malloc_no := k\<rparr>)"

definition env :: "'s lib \<Rightarrow> 's lib \<Rightarrow> bool" where
  "env L L' \<longleftrightarrow> conf L' = conf L \<and> fsys L' = fsys L \<and> sent L' = sent L \<and> replies L' = replies L \<and>
     ((\<forall>r. locks_ok (node_locks L r)) \<longrightarrow> (\<forall>r. locks_ok (node_locks L' r)))"

definition opens_ok :: "fuse \<Rightarrow> bool" where
  "opens_ok f \<longleftrightarrow> (\<forall>q \<in> live f. 0 \<le> open_count (nd f q))"

lemma opens_okI:
  assumes "opens_ok f" "\<And>q. q \<in> live f' \<Longrightarrow> if q \<in> live f then open_count (nd f' q) = open_count (nd f q) else open_count (nd f' q) = 0"
  shows "opens_ok f'"
proof -
  have "0 \<le> open_count (nd f' q)" if "q \<in> live f'" for q
    using assms(1) assms(2) [OF that] by (cases "q \<in> live f") (simp_all add: opens_ok_def)
  then show ?thesis by (simp add: opens_ok_def)
qed

definition good :: "(u64 \<times> nat option) list \<Rightarrow> 's lib \<Rightarrow> bool" where
  "good hs L \<longleftrightarrow> tree_ok (core L) \<and> lru_ok (core L) \<and> locks_held (core L) hs \<and> opens_ok (core L)"

lemma goodD: "good hs L \<Longrightarrow> tree_ok (core L)" "good hs L \<Longrightarrow> lru_ok (core L)" "good hs L \<Longrightarrow> locks_held (core L) hs"
  "good hs L \<Longrightarrow> tree_at_rest (core L)" "good hs L \<Longrightarrow> opens_ok (core L)"
  using tree_okD(3) [of "core L"] by (auto simp: good_def)

lemma good_core: "core L' = core L \<Longrightarrow> good hs L' = good hs L"
  by (simp add: good_def)

lemma env_refl [simp]: "env L L"
  by (simp add: env_def)

lemma env_trans: "env L L1 \<Longrightarrow> env L1 L2 \<Longrightarrow> env L L2"
  by (simp add: env_def)

lemma env_core [simp]: "env L (L\<lparr>core := f\<rparr>)" "env L (L\<lparr>fss := s\<rparr>)"
  by (simp_all add: env_def)

lemma relocked_id: "relocked f (f\<lparr>malloc_no := k\<rparr>)"
proof -
  have "f = relock (\<lambda>q k. k) f" by (rule relock_id [symmetric]) simp
  then have "f\<lparr>malloc_no := k\<rparr> = (relock (\<lambda>q k. k) f)\<lparr>malloc_no := k\<rparr>" by (rule arg_cong)
  then show ?thesis unfolding relocked_def by blast
qed

lemma relocked_refl: "relocked f f"
  using relocked_id [of f "malloc_no f"] by simp

lemma relocked_trans: "relocked f g \<Longrightarrow> relocked g h \<Longrightarrow> relocked f h"
proof -
  assume "relocked f g" "relocked g h"
  then obtain a j b k where "g = (relock a f)\<lparr>malloc_no := j\<rparr>" "h = (relock b g)\<lparr>malloc_no := k\<rparr>" by (auto simp: relocked_def)
  then have "h = (relock (\<lambda>q t. b q (a q t)) f)\<lparr>malloc_no := k\<rparr>" by (simp add: relock_malloc relock_relock)
  then show ?thesis unfolding relocked_def by blast
qed

lemma relockedD:
  assumes "tree_at_rest f" "relocked f f'"
  shows "tree_at_rest f'" "get_fuse_node f' ino = get_fuse_node f ino" "lookup_node f' ino n = lookup_node f ino n"
    "chain f r qs e \<Longrightarrow> chain f' r qs e" "live f' = live f" "mallocs f' = mallocs f" "remember f' = remember f" "lru_table f' = lru_table f"
    "q \<in> live f \<Longrightarrow> n_nodeid (nd f' q) = n_nodeid (nd f q)" "q \<in> live f \<Longrightarrow> n_name (nd f' q) = n_name (nd f q)"
    "q \<in> live f \<Longrightarrow> n_parent (nd f' q) = n_parent (nd f q)" "q \<in> live f \<Longrightarrow> nlookup (nd f' q) = nlookup (nd f q)"
    "q \<in> live f \<Longrightarrow> open_count (nd f' q) = open_count (nd f q)" "q \<in> live f \<Longrightarrow> is_hidden (nd f' q) = is_hidden (nd f q)"
    "above f' q = above f q" "kids f' D q = kids f D q" "path_fits f ino name \<Longrightarrow> path_fits f' ino name"
    "held f' = held f"
proof -
  obtain h k where h: "f' = (relock h f)\<lparr>malloc_no := k\<rparr>" using assms(2) by (auto simp: relocked_def)
  note v = relocked_views [OF assms(1) h]
  show "tree_at_rest f'" "get_fuse_node f' ino = get_fuse_node f ino" "lookup_node f' ino n = lookup_node f ino n"
    "chain f r qs e \<Longrightarrow> chain f' r qs e" "live f' = live f" "mallocs f' = mallocs f" using v by simp_all
  show "remember f' = remember f" "lru_table f' = lru_table f" by (simp_all add: h)
  show "q \<in> live f \<Longrightarrow> n_nodeid (nd f' q) = n_nodeid (nd f q)" "q \<in> live f \<Longrightarrow> n_name (nd f' q) = n_name (nd f q)"
    "q \<in> live f \<Longrightarrow> n_parent (nd f' q) = n_parent (nd f q)" "q \<in> live f \<Longrightarrow> nlookup (nd f' q) = nlookup (nd f q)"
    "q \<in> live f \<Longrightarrow> open_count (nd f' q) = open_count (nd f q)" "q \<in> live f \<Longrightarrow> is_hidden (nd f' q) = is_hidden (nd f q)"
    using v(7) by simp_all
  show "path_fits f ino name \<Longrightarrow> path_fits f' ino name" by (rule relocked_fits [OF assms(1) h])
  have "parent_rel (f\<lparr>malloc_no := k\<rparr>) = parent_rel f" for f k by (simp add: parent_rel_def)
  then have "above (f\<lparr>malloc_no := k\<rparr>) q = above f q" for f k by (simp add: above_def)
  then show "above f' q = above f q" by (simp add: h relock_tree)
  have "kids (f\<lparr>malloc_no := k\<rparr>) D q = kids f D q" for f k by (simp add: kids_def)
  then show "kids f' D q = kids f D q" by (simp add: h relock_tree)
  show "held f' = held f" using v(5,7) by (auto simp: held_def)
qed

lemma opens_relocked: "tree_at_rest f \<Longrightarrow> relocked f f' \<Longrightarrow> opens_ok f \<Longrightarrow> opens_ok f'"
  using relockedD(5,13) by (simp add: opens_ok_def)

definition known :: "fuse \<Rightarrow> u64 \<Rightarrow> bool" where
  "known f ino \<longleftrightarrow> (\<exists>r \<in> live f. n_nodeid (nd f r) = ino \<and> (\<forall>q \<in> above f r. nlookup (nd f q) \<noteq> 0))"

lemma known_relocked: "tree_ok f \<Longrightarrow> relocked f f' \<Longrightarrow> known f ino \<Longrightarrow> known f' ino"
proof -
  assume a: "tree_ok f" "relocked f f'" "known f ino"
  note i = tree_okD [OF a(1)]
  note v = relockedD [OF i(3) a(2)]
  obtain r where r: "r \<in> live f" "n_nodeid (nd f r) = ino" "\<forall>q \<in> above f r. nlookup (nd f q) \<noteq> 0"
    using a(3) by (auto simp: known_def)
  have "above f r \<subseteq> live f" using above_live [OF i(1) r(1)] by simp
  then show ?thesis using r v(5,9,12,15) unfolding known_def by (intro bexI [of _ r]) auto
qed

text \<open>The path of a node cannot be had at once only if someone holds a lock that is in the way.\<close>

definition free_way :: "fuse \<Rightarrow> u64 \<Rightarrow> bytes option \<Rightarrow> bool \<Rightarrow> bool" where
  "free_way f ino name wr \<longleftrightarrow>
     (\<forall>r qs e. get_fuse_node f ino = Some r \<longrightarrow> chain f r qs e \<longrightarrow> (\<forall>q \<in> set qs. 0 \<le> treelock (nd f q))) \<and>
     (wr \<longrightarrow> name \<noteq> None \<and> (\<forall>w. lookup_node f ino (the name) = Some w \<longrightarrow> treelock (nd f w) = 0 \<and> nlookup (nd f w) \<noteq> 0))"

lemma try_ok:
  assumes "tree_ok f" "lru_ok f" "locks_held f hs" "Suc (length hs) < 2 ^ 31 - 1" "known f ino" "path_fits f ino name" "free_way f ino name wr"
  shows "\<exists>res f'. try_get_path f ino name wr True = Some (res, f') \<and> relocked f f' \<and> tree_ok f' \<and> lru_ok f' \<and> res \<noteq> Inl (- EAGAIN) \<and>
    (case res of Inl err \<Rightarrow> err < 0 \<and> locks_held f' hs
     | Inr (path, w) \<Rightarrow> locks_held f' ((ino, w) # hs) \<and> w = (if wr then lookup_node f ino (the name) else None) \<and>
         (\<exists>r qs e. get_fuse_node f ino = Some r \<and> chain f r qs e \<and> path = full_path f qs name))"
proof -
  note i = tree_okD [OF assms(1)]
  obtain r where r: "r \<in> live f" "n_nodeid (nd f r) = ino" "\<forall>q \<in> above f r. nlookup (nd f q) \<noteq> 0"
    using assms(5) by (auto simp: known_def)
  have g: "get_fuse_node f ino = Some r" using get_node_iff [OF i(4)] r by simp
  have wr: "wr \<longrightarrow> name \<noteq> None" using assms(7) by (simp add: free_way_def)
  have "guarded f (Get_Path ino name wr)" using r assms(6,7) by (auto simp: free_way_def)
  from get_path_step [OF assms(1,2) this] obtain res f' where
    t: "try_get_path f ino name wr True = Some (res, f')" "tree_ok f'" "lru_ok f'" by auto
  obtain qs e where c: "chain f r qs e" using chain_exists [OF i(3) r(1)] by blast
  have free: "\<forall>q \<in> set qs. 0 \<le> treelock (nd f q)" using assms(7) g c unfolding free_way_def by blast
  have gn: "get_fuse_node f ino \<noteq> None" by (simp add: g)
  from try_get_path_cases [OF i(3) g c assms(6) wr t(1)] show ?thesis
  proof (elim disjE exE conjE)
    fix wn k assume h: "wn = (if wr then lookup_node f ino (the name) else None)" "res = Inr (full_path f qs name, wn)"
      "f' = (relock (taken True qs wn) f)\<lparr>malloc_no := k\<rparr>"
    have "locks_held f' ((ino, wn) # hs)" using held_get [OF i(3) assms(3,4) gn assms(6) wr t(1) [unfolded h(2)]] .
    moreover have "relocked f f'" using h(3) unfolding relocked_def by blast
    ultimately show ?thesis using t h(1,2) g c by auto
  next
    fix err k assume h: "res = Inl err" "path_cause f qs e True err" "f' = f\<lparr>malloc_no := k\<rparr>"
    have "locks_held f' hs" using held_fail [OF i(3) assms(3) gn assms(6) wr t(1) [unfolded h(1)]] .
    moreover have "err \<noteq> - EAGAIN \<and> err < 0" using h(2) free by (auto simp: path_cause_def)
    ultimately show ?thesis using t h(1,3) relocked_id [of f k] by auto
  next
    fix w assume "treelock (nd f w) \<noteq> 0" wr "lookup_node f ino (the name) = Some w"
    then show ?thesis using assms(7) by (simp add: free_way_def)
  qed
qed

lemma lock_path_ok:
  assumes "good hs L" "Suc (length hs) < 2 ^ 31 - 1" "known (core L) ino" "path_fits (core L) ino name" "free_way (core L) ino name wr"
  shows "\<exists>res L'. lock_path ino name wr L = Some (res, L') \<and> env L L' \<and> fss L' = fss L \<and> relocked (core L) (core L') \<and>
    (case res of Inl err \<Rightarrow> err < 0 \<and> good hs L'
     | Inr (path, w) \<Rightarrow> good ((ino, w) # hs) L' \<and> w = (if wr then lookup_node (core L) ino (the name) else None) \<and>
         (\<exists>r qs e. get_fuse_node (core L) ino = Some r \<and> chain (core L) r qs e \<and> path = full_path (core L) qs name))"
proof -
  obtain res f' where t: "try_get_path (core L) ino name wr True = Some (res, f')" "relocked (core L) f'" "tree_ok f'" "lru_ok f'"
    "res \<noteq> Inl (- EAGAIN)" "case res of Inl err \<Rightarrow> err < 0 \<and> locks_held f' hs
     | Inr (path, w) \<Rightarrow> locks_held f' ((ino, w) # hs) \<and> w = (if wr then lookup_node (core L) ino (the name) else None) \<and>
         (\<exists>r qs e. get_fuse_node (core L) ino = Some r \<and> chain (core L) r qs e \<and> path = full_path (core L) qs name)"
    using try_ok [OF goodD(1-3) [OF assms(1)] assms(2-5)] by blast
  have "lock_path ino name wr L = Some (res, L\<lparr>core := f'\<rparr>)"
    using t(1,5) by (simp add: lock_path_def get_path_common_def)
  then show ?thesis using t(2-4,6) opens_relocked [OF goodD(4) [OF assms(1)] t(2) goodD(5) [OF assms(1)]] by (auto simp: good_def split: sum.splits)
qed

lemma unlock_ok:
  assumes "good hs L" "(ino, w) \<in> set hs"
  shows "\<exists>L'. unlock ino w L = Some L' \<and> good (remove1 (ino, w) hs) L' \<and> env L L' \<and> fss L' = fss L \<and> relocked (core L) (core L') \<and> L' = L\<lparr>core := core L'\<rparr>"
proof -
  obtain h k where h: "unlock_path (core L) ino w None = Some ((relock h (core L))\<lparr>malloc_no := k\<rparr>)"
    "tree_ok ((relock h (core L))\<lparr>malloc_no := k\<rparr>)" "lru_ok ((relock h (core L))\<lparr>malloc_no := k\<rparr>)"
    "locks_held ((relock h (core L))\<lparr>malloc_no := k\<rparr>) (remove1 (ino, w) hs)"
    using held_free [OF goodD(1-3) [OF assms(1)] assms(2)] by blast
  have "relocked (core L) ((relock h (core L))\<lparr>malloc_no := k\<rparr>)" unfolding relocked_def by blast
  then show ?thesis using h opens_relocked [OF goodD(4) [OF assms(1)] _ goodD(5) [OF assms(1)]]
    by (simp add: unlock_def update_core_def free_path_wrlock_def good_def)
qed

lemma free_way_idle:
  assumes "locks_held f []" "tree_at_rest f" "wr \<longrightarrow> name \<noteq> None" "wr \<longrightarrow> (\<forall>w. lookup_node f ino (the name) = Some w \<longrightarrow> nlookup (nd f w) \<noteq> 0)"
  shows "free_way f ino name wr"
proof -
  have z: "\<forall>q \<in> live f. treelock (nd f q) = 0" using assms(1) by (simp add: held_Nil)
  have "w \<in> live f" if "lookup_node f ino n = Some w" for n w using that lookup_node_iff [OF assms(2)] by (simp add: named_def)
  then show ?thesis unfolding free_way_def using z assms(3,4) chain_live by fastforce
qed

text \<open>Reading the path of a node while nothing is locked for writing.\<close>

lemma get_path_name_ok:
  assumes "good [] L" "known (core L) ino" "path_fits (core L) ino name"
  shows "\<exists>res L'. get_path_name ino name L = Some (res, L') \<and> env L L' \<and> fss L' = fss L \<and> relocked (core L) (core L') \<and>
    (case res of Inl err \<Rightarrow> err < 0 \<and> good [] L' | Inr path \<Rightarrow> path \<noteq> None \<and> good [(ino, None)] L')"
proof -
  have "free_way (core L) ino name False" using goodD(3,4) [OF assms(1)] by (intro free_way_idle) simp_all
  from lock_path_ok [OF assms(1) _ assms(2,3) this] obtain res L' where l: "lock_path ino name False L = Some (res, L')" "env L L'"
    "fss L' = fss L" "relocked (core L) (core L')" "case res of Inl err \<Rightarrow> err < 0 \<and> good [] L' | Inr (path, w) \<Rightarrow> good [(ino, w)] L' \<and> w = None"
    by (fastforce split: sum.splits)
  then show ?thesis
    by (cases res) (auto simp: get_path_name_def intro!: exI [of _ "case res of Inl err \<Rightarrow> Inl err | Inr (path, _) \<Rightarrow> Inr (Some path)"] exI [of _ L'])
qed

lemma free_path_ok:
  assumes "good hs L" "path \<noteq> None \<longrightarrow> (ino, None) \<in> set hs"
  shows "\<exists>L'. free_path ino path L = Some L' \<and> good (if path \<noteq> None then remove1 (ino, None) hs else hs) L' \<and> env L L' \<and> fss L' = fss L \<and>
    relocked (core L) (core L')"
proof (cases path)
  case (Some p)
  then show ?thesis using unlock_ok [OF assms(1)] assms(2) by (auto simp: free_path_def)
qed (use assms(1) relocked_refl in \<open>simp add: free_path_def\<close>)

lemma get_path_nullok_ok:
  assumes "good [] L" "known (core L) ino" "path_fits (core L) ino None"
  shows "\<exists>res L'. get_path_nullok ino L = Some (res, L') \<and> env L L' \<and> fss L' = fss L \<and> relocked (core L) (core L') \<and>
    (case res of Inl err \<Rightarrow> err < 0 \<and> good [] L' | Inr path \<Rightarrow> good (if path \<noteq> None then [(ino, None)] else []) L')"
proof (cases "nullpath_ok (conf L)")
  case True
  then show ?thesis using assms(1) relocked_refl by (simp add: get_path_nullok_def)
next
  case False
  obtain res L' where g: "get_path_name ino None L = Some (res, L')" "env L L'" "fss L' = fss L" "relocked (core L) (core L')"
    "case res of Inl err \<Rightarrow> err < 0 \<and> good [] L' | Inr path \<Rightarrow> path \<noteq> None \<and> good [(ino, None)] L'"
    using get_path_name_ok [OF assms] by blast
  then show ?thesis using False by (cases res) (auto simp: get_path_nullok_def get_path_def)
qed

lemma call_ok [simp]: "call g L = (fst (g (fsys L) (fss L)), L\<lparr>fss := snd (g (fsys L) (fss L))\<rparr>)"
  by (simp add: call_def split_beta)

lemma at_path_ok:
  assumes "good [] L" "known (core L) ino" "path_fits (core L) ino None"
  shows "\<exists>r L'. at_path nullok ino g L = Some (r, L') \<and> good [] L' \<and> env L L' \<and> relocked (core L) (core L')"
proof -
  obtain res L1 where g: "(if nullok then get_path_nullok ino L else get_path ino L) = Some (res, L1)" "env L L1" "relocked (core L) (core L1)"
    "case res of Inl err \<Rightarrow> good [] L1 | Inr path \<Rightarrow> good (if path \<noteq> None then [(ino, None)] else []) L1"
  proof (cases nullok)
    case True
    then show ?thesis using get_path_nullok_ok [OF assms] that by (fastforce split: sum.splits)
  next
    case False
    then show ?thesis using get_path_name_ok [OF assms] that by (fastforce simp: get_path_def split: sum.splits)
  qed
  show ?thesis
  proof (cases res)
    case (Inl err)
    then show ?thesis using g by (simp add: at_path_def)
  next
    case (Inr path)
    let ?L2 = "L1\<lparr>fss := snd (g path (fsys L1) (fss L1))\<rparr>"
    have "good (if path \<noteq> None then [(ino, None)] else []) ?L2" using g(4) Inr by (simp add: good_def)
    then obtain L' where f: "free_path ino path ?L2 = Some L'" "good [] L'" "env ?L2 L'" "relocked (core ?L2) (core L')"
      using free_path_ok [of "if path \<noteq> None then [(ino, None)] else []" ?L2 path ino] by (auto split: if_splits)
    have "env L L'" using env_trans [OF g(2) env_trans [OF env_core(2) f(3)]] .
    moreover have "relocked (core L) (core L')" using relocked_trans [OF g(3)] f(4) by simp
    ultimately show ?thesis using g(1) f(1,2) Inr by (simp add: at_path_def)
  qed
qed

end
