(* ===== verification/Fuse_Lib_Nodes.thy ===== *)
theory Fuse_Lib_Nodes
  imports Fuse_Lib_Locks
begin

text \<open>
  The operations on nodes inside a request, where paths are locked: a node entered, forgotten, removed or renamed leaves
  alone what the locks cover, so that the request can free them afterwards.
\<close>

section \<open>Operations on nodes while paths are locked\<close>

definition room :: "fuse \<Rightarrow> bool" where
  "room f \<longleftrightarrow> (\<forall>r \<in> live f. nlookup (nd f r) + 1 \<noteq> 0) \<and> card (live f) < 2 ^ 32 - 2"

definition steady :: "(u64 \<times> nat option) list \<Rightarrow> fuse \<Rightarrow> bool" where
  "steady hs f \<longleftrightarrow> tree_ok f \<and> lru_ok f \<and> locks_held f hs \<and> opens_ok f"

lemma steadyD: "steady hs f \<Longrightarrow> tree_ok f" "steady hs f \<Longrightarrow> lru_ok f" "steady hs f \<Longrightarrow> locks_held f hs"
  "steady hs f \<Longrightarrow> opens_ok f"
  by (simp_all add: steady_def)

lemma good_steady: "good hs L \<longleftrightarrow> steady hs (core L)"
  by (simp add: good_def steady_def)

lemma frame_same_places:
  assumes "live f \<subseteq> live f'" "\<And>q. q \<in> live f \<Longrightarrow> n_name (nd f' q) = n_name (nd f q) \<and> n_parent (nd f' q) = n_parent (nd f q) \<and>
      n_nodeid (nd f' q) = n_nodeid (nd f q) \<and> treelock (nd f' q) = treelock (nd f q)"
    and "\<And>q. q \<in> live f' \<Longrightarrow> q \<notin> live f \<Longrightarrow> treelock (nd f' q) = 0" "locks_held f hs"
  shows "frame hs f f'"
proof -
  have "w \<in> live f" if "h \<in> set hs" "snd h = Some w" for h w using assms(4) that unfolding locks_held_def by blast
  then show ?thesis unfolding frame_def using assms(1-3) by auto
qed

text \<open>What may be forgotten once without waiting.\<close>

definition fresh :: "fuse \<Rightarrow> nat \<Rightarrow> bool" where
  "fresh f r \<longleftrightarrow> r \<in> live f \<and> nlookup (nd f r) \<noteq> 0 \<and> (nlookup (nd f r) = 1 \<longrightarrow> r \<notin> set (lru_table f))"

lemma steady_framed:
  assumes "steady hs f" "tree_ok f'" "lru_ok f'" "frame hs f f'"
    and "\<And>q. q \<in> live f' \<Longrightarrow> if q \<in> live f then open_count (nd f' q) = open_count (nd f q) else open_count (nd f' q) = 0"
  shows "steady hs f'"
  using held_frame [OF steadyD(1) [OF assms(1)] assms(2) steadyD(3) [OF assms(1)] assms(4)] assms(2,3)
    opens_okI [OF steadyD(4) [OF assms(1)] assms(5)] by (simp add: steady_def)

lemma find_held:
  assumes "steady hs f" "p \<in> live f" "n_nodeid (nd f p) = parent" "room f"
  shows "\<exists>res f'. find_node f parent (Some name) = Some (res, f') \<and> steady hs f' \<and> live f \<subseteq> live f' \<and>
    (\<forall>q \<in> live f. n_nodeid (nd f' q) = n_nodeid (nd f q) \<and> n_parent (nd f' q) = n_parent (nd f q) \<and> n_name (nd f' q) = n_name (nd f q)) \<and>
    (\<forall>r. res = Some r \<longrightarrow> fresh f' r \<and> n_parent (nd f' r) = Some p \<and> n_name (nd f' r) = Some name \<and>
       (r \<in> live f \<longrightarrow> lookup_node f parent name = Some r \<and> nlookup (nd f' r) = nlookup (nd f r) + 1) \<and> n_nodeid (nd f' r) \<noteq> FUSE_ROOT_ID)"
proof -
  note s = steadyD [OF assms(1)]
  note i = tree_okD [OF s(1)]
  have room: "\<And>r. r \<in> live f \<Longrightarrow> nlookup (nd f r) + 1 \<noteq> 0" and c: "card (live f) < 2 ^ 32 - 2"
    using assms(4) by (auto simp: room_def)
  have "guarded f (Find parent (Some name))" using assms(2-4) by (auto simp: room_def)
  from find_step [OF s(1,2) this] obtain res f' where f': "find_node f parent (Some name) = Some (res, f')" "tree_ok f'" "lru_ok f'" by auto
  show ?thesis
  proof (cases "lookup_node f parent name")
    case (Some r)
    note l = lookup_named [OF s(1) Some]
    define f1 where "f1 = (if lru_enabled f \<and> nlookup (nd f r) = 1 then remove_node_lru f r else f)"
    define f2 where "f2 = inc_nlookup f1 r"
    note k = find_known [OF s(1) l(2) room [OF l(2)] f1_def f2_def]
    have e: "res = Some r" "f' = f2" using f'(1) Some by (simp_all add: find_node_def f2_def f1_def Let_def)
    have np: "n_parent (nd f r) = Some p" using lookup_parent [OF s(1) assms(2,3)] Some by blast
    have lv: "live f2 = live f" using l(2) by (auto simp: live_def k(2))
    have nr: "r \<notin> set (lru_table f1)"
    proof (cases "r \<in> set (lru_table f)")
      case True
      then have "lru_enabled f" "nlookup (nd f r) = 1" using lru_okD(2,4) [OF s(2)] by (fastforce, blast)
      then show ?thesis using lru_okD(1) [OF s(2)] by (simp add: f1_def remove_node_lru_def)
    qed (simp add: f1_def remove_node_lru_def notin_set_remove1)
    have fr: "fresh f2 r" using l(2) lv nr k(5) room [OF l(2)] by (simp add: fresh_def k(2))
    have pl: "n_name (nd f2 q) = n_name (nd f q) \<and> n_parent (nd f2 q) = n_parent (nd f q) \<and> n_nodeid (nd f2 q) = n_nodeid (nd f q) \<and> treelock (nd f2 q) = treelock (nd f q)" for q
      by (simp add: k(2))
    have "frame hs f f2" by (rule frame_same_places) (use lv pl s(3) in auto)
    then have "steady hs f2" using f'(2,3) e lv by (intro steady_framed [OF assms(1)]) (auto simp: k(2))
    then show ?thesis using f'(1) e fr np l(4,5) Some lv pl by (intro exI [of _ res] exI [of _ f']) (auto simp: k(2))
  next
    case None
    from new_node_ok [OF s(1) assms(2,3) None c]
    show ?thesis
    proof (elim disjE exE conjE)
      fix g assume g: "new_fuse_node f parent name = Some (None, g)" "nodes g = nodes f"
      then have e: "res = None" "f' = g" using f'(1) None by (simp_all add: find_node_def)
      have pl: "live g = live f" "nd g q = nd f q" for q using g(2) by (simp_all add: live_def)
      have "frame hs f g" by (rule frame_same_places) (use pl s(3) in auto)
      then have "steady hs f'" using f'(2,3) e pl by (intro steady_framed [OF assms(1)]) simp_all
      then show ?thesis using f'(1) e pl by (intro exI [of _ res] exI [of _ f']) simp
    next
      fix r g assume g: "new_fuse_node f parent name = Some (Some r, g)" "born r p name f g"
      then have e: "res = Some r" "f' = g" using f'(1) None by (simp_all add: find_node_def)
      obtain n where b: "r \<notin> live f" "lru_table g = lru_table f" "remember g = remember f"
        "nodes g = (nodes f)(r \<mapsto> n, p \<mapsto> (nd f p)\<lparr>refctr := refctr (nd f p) + 1\<rparr>)"
        "n_parent n = Some p" "n_name n = Some name" "nlookup n = (if remember f \<noteq> 0 then 2 else 1)" "treelock n = 0" "n_nodeid n \<noteq> FUSE_ROOT_ID" "open_count n = 0"
        using g(2) unfolding born_def by blast
      have rp: "r \<noteq> p" using b(1) assms(2) by blast
      have lv: "live g = insert r (live f)" using assms(2) by (auto simp: live_def b(4))
      have nr: "nd g r = n" using rp by (simp add: b(4))
      have pl: "n_name (nd g q) = n_name (nd f q) \<and> n_parent (nd g q) = n_parent (nd f q) \<and> n_nodeid (nd g q) = n_nodeid (nd f q) \<and> treelock (nd g q) = treelock (nd f q)" if "q \<in> live f" for q
        using that b(1) by (auto simp: b(4))
      have "frame hs f g" by (rule frame_same_places) (use lv pl s(3) nr b in auto)
      then have "steady hs f'" using f'(2,3) e lv nr b(1,10) by (intro steady_framed [OF assms(1)]) (auto simp: b(4))
      moreover have "r \<notin> set (lru_table g)" using b(1,2) lru_okD(3) [OF s(2)] by auto
      ultimately show ?thesis using f'(1) e lv pl b(5-9) b(1) by (intro exI [of _ res] exI [of _ f']) (auto simp: fresh_def nr)
    qed
  qed
qed


definition apart_from :: "(u64 \<times> nat option) list \<Rightarrow> fuse \<Rightarrow> nat \<Rightarrow> bool" where
  "apart_from hs f r \<longleftrightarrow> (\<forall>h \<in> set hs. \<not> covers f h r \<and> snd h \<noteq> Some r)"

lemma apart_Nil [simp]: "apart_from [] f r"
  by (simp add: apart_from_def)

lemma opens_others:
  assumes "others_kept S f f'" "\<forall>q \<in> S. q \<in> live f' \<longrightarrow> q \<in> live f \<and> open_count (nd f' q) = open_count (nd f q)" "q \<in> live f'"
  shows "if q \<in> live f then open_count (nd f' q) = open_count (nd f q) else open_count (nd f' q) = 0"
  using others_kept_node(6) [OF assms(1) _ assms(3)] others_keptD(1) [OF assms(1) _ assms(3)] assms(2,3) by (cases "q \<in> S") auto

text \<open>What may be forgotten \<open>k\<close> times without waiting.\<close>

definition forgettable_times :: "u64 \<Rightarrow> fuse \<Rightarrow> nat \<Rightarrow> bool" where
  "forgettable_times k f r \<longleftrightarrow> r \<in> live f \<and> k \<noteq> 0 \<and> k \<le> nlookup (nd f r) \<and> (nlookup (nd f r) = k \<longrightarrow> r \<notin> set (lru_table f))"

lemma forget_times_held:
  assumes "steady hs f" "ino = FUSE_ROOT_ID \<or> (\<exists>r. forgettable_times k f r \<and> n_nodeid (nd f r) = ino \<and> apart_from hs f r)"
  shows "\<exists>f'. forget_node f ino k = Some (True, f') \<and> steady hs f'"
proof (cases "ino = FUSE_ROOT_ID")
  case True
  then show ?thesis using assms(1) by (simp add: forget_node_def)
next
  case root: False
  then obtain r where r: "forgettable_times k f r" "n_nodeid (nd f r) = ino" "apart_from hs f r" using assms(2) by blast
  note s = steadyD [OF assms(1)]
  have l: "r \<in> live f" "k \<noteq> 0" "k \<le> nlookup (nd f r)" using r(1) by (simp_all add: forgettable_times_def)
  have g: "guarded f (Forget ino k)" using root l r by (auto simp: forgettable_times_def)
  have unlocked: "treelock (nd f r) = 0" using held_none [OF s(3) l(1)] r(3) by (auto simp: apart_from_def)
  define f1 where "f1 = upd r (\<lambda>n. n\<lparr>nlookup := nlookup n - k\<rparr>) f"
  have o1: "others_kept {r} f f1" using others_kept_upd [OF l(1)] by (simp add: f1_def)
  have l1: "live f1 = live f" using l(1) by (simp add: f1_def)
  obtain f' where f': "forget_node f ino k = Some (True, f')" "tree_ok f'"
    "if k = nlookup (nd f r) then pruned (above f r) f1 f'
       else if lru_enabled f \<and> nlookup (nd f1 r) = 1 then f' = set_forget_time f1 r else f' = f1"
    using forget_ok [OF s(1) l(1) r(2) root l(2,3) f1_def] unlocked by auto
  have "lru_ok f'" using forget_step [OF s(1,2) g] f'(1) by simp
  moreover have o: "others_kept {r} f f' \<and> (r \<in> live f' \<longrightarrow> treelock (nd f' r) = treelock (nd f r) \<and> open_count (nd f' r) = open_count (nd f r))"
  proof (cases "nlookup (nd f r) = k")
    case True
    then have p: "pruned (above f r) f1 f'" using f'(3) by simp
    have "treelock (nd f' r) = treelock (nd f1 r) \<and> open_count (nd f' r) = open_count (nd f1 r)" if "r \<in> live f'"
      by (subst (1 2) prunedD(3) [OF p that]) simp
    then show ?thesis using others_kept_trans [OF o1 others_kept_pruned [OF p]] by (simp add: f1_def)
  next
    case False
    then have "f' = f1 \<or> f' = set_forget_time f1 r" using f'(3) by presburger
    then show ?thesis
    proof
      assume e: "f' = set_forget_time f1 r"
      have n: "nodes f' = nodes (upd r (\<lambda>n. n\<lparr>forget_time := now f1\<rparr>) f1)" by (simp add: e set_forget_time_def Let_def upd_def)
      have "others_kept {r} f1 f'"
        using others_kept_trans [OF others_kept_upd [of r f1] others_kept_same [OF n, of "{}"]] l(1) l1 by simp
      then show ?thesis using others_kept_trans [OF o1, of "{r}"] n by (simp add: f1_def)
    qed (use o1 in \<open>simp add: f1_def\<close>)
  qed
  then have "frame hs f f'"
    using l(1) r(2,3) root unlocked by (intro frame_others [OF s(1,3), of "{r}"]) (auto simp: apart_from_def)
  moreover have "\<forall>q \<in> {r}. q \<in> live f' \<longrightarrow> q \<in> live f \<and> open_count (nd f' q) = open_count (nd f q)" using o l(1) by simp
  ultimately have "steady hs f'" using steady_framed [OF assms(1) f'(2)] opens_others o by blast
  then show ?thesis using f'(1) by blast
qed

lemma forget_held:
  assumes "steady hs f" "ino = FUSE_ROOT_ID \<or> (\<exists>r. fresh f r \<and> n_nodeid (nd f r) = ino \<and> apart_from hs f r)"
  shows "\<exists>f'. forget_node f ino 1 = Some (True, f') \<and> steady hs f'"
proof -
  have "forgettable_times 1 f r" if "fresh f r" for r
    using that by (simp add: fresh_def forgettable_times_def word_le_nat_alt unat_gt_0 Suc_le_eq)
  then show ?thesis using forget_times_held [OF assms(1), of ino 1] assms(2) by blast
qed

lemma remove_held:
  assumes "steady hs f" "guarded f (Remove dir name)" "\<forall>r. lookup_node f dir name = Some r \<longrightarrow> (\<forall>h \<in> set hs. \<not> covers f h r)"
  shows "\<exists>f'. remove_node f dir name = Some f' \<and> steady hs f' \<and> lookup_node f' dir name = None \<and> remember f' = remember f \<and>
    others_kept (set_option (lookup_node f dir name)) f f'"
proof (cases "lookup_node f dir name")
  case None
  then show ?thesis using assms(1) others_kept_same by (simp add: remove_node_def)
next
  case (Some r)
  note s = steadyD [OF assms(1)]
  note l = lookup_named [OF s(1) Some]
  obtain f' where f': "unlink_node f r = Some f'" "tree_ok f'" "pruned (above f r - {r}) (upd r (unlinked f) f) f'"
    using unlink_ok [OF s(1) l(2,5)] assms(2) Some by auto
  note k = loses_name [OF s(1) l(2) f'(3), unfolded unlinked_def, simplified]
  have e: "remove_node f dir name = Some f'" using Some f'(1) by (simp add: remove_node_def)
  have "lru_ok f'" using remove_step [OF s(1,2) assms(2)] e by simp
  moreover have "frame hs f f'"
    using k l(5) assms(3) Some l(2) by (intro frame_others [OF s(1,3) k(1)]) auto
  moreover have "\<forall>q \<in> {r}. q \<in> live f' \<longrightarrow> q \<in> live f \<and> open_count (nd f' q) = open_count (nd f q)" using k(3) l(2) by simp
  ultimately have st: "steady hs f'" using steady_framed [OF assms(1) f'(2)] opens_others [OF k(1)] by blast
  have "lookup_node f' dir name \<noteq> Some q" for q
  proof
    assume q: "lookup_node f' dir name = Some q"
    note m = lookup_named [OF f'(2) q]
    have qr: "q \<notin> {r}" using m(1) k(4) by blast
    have "n_name (nd f q) = Some name" "q \<in> live f" "n_parent (nd f q) = n_parent (nd f' q)"
      using others_kept_node(1,2) [OF k(1) qr m(2)] others_keptD(1) [OF k(1) qr m(2)] m(4) by simp_all
    moreover obtain p where p: "n_parent (nd f' q) = Some p" using m(1) by (auto simp: named_def)
    have "p \<in> live f'" using links_okD(2) [OF tree_okD(5) [OF f'(2)], of q p] m(1) p by simp
    moreover have "n_nodeid (nd f' p) = dir" using m(3) p by simp
    moreover have "p \<in> live f \<and> n_nodeid (nd f' p) = n_nodeid (nd f p)"
      using k(2,3) l(2) others_kept_node(4) [OF k(1), of p] others_keptD(1) [OF k(1), of p] \<open>p \<in> live f'\<close> by (cases "p = r") auto
    ultimately have "lookup_node f dir name = Some q" using lookup_parent [OF s(1), of p dir name q] p by simp
    then show False using Some qr by simp
  qed
  then show ?thesis using e st k(1,7) Some by auto
qed


lemma parent_not_in_it:
  assumes "tree_ok f" "p \<in> live f" "n_nodeid (nd f p) = dir" "lookup_node f dir name = Some r"
  shows "r \<notin> above f p" "r \<noteq> p" "n_parent (nd f r) = Some p"
proof -
  show n: "n_parent (nd f r) = Some p" using lookup_parent [OF assms(1-3)] assms(4) by blast
  show "r \<notin> above f p" by (rule not_above_parent [OF links_okD(6) [OF tree_okD(5) [OF assms(1)]] lookup_named(2) [OF assms(1,4)] n])
  then show "r \<noteq> p" by auto
qed

lemma rename_under:
  assumes "steady hs f" "lookup_node f olddir oldname = Some r" "p \<in> held f" "n_nodeid (nd f p) = newdir" "r \<notin> above f p"
    and "N = set_option (lookup_node f newdir newname)" "r \<notin> N" "hide \<longrightarrow> N = {}" "\<forall>n \<in> N. nlookup (nd f n) \<noteq> 0 \<and> (remember f \<noteq> 0 \<longrightarrow> nlookup (nd f n) > 1)"
    and "\<forall>q \<in> insert r N. \<forall>h \<in> set hs. \<not> covers f h q"
  shows "\<exists>err f'. rename_node f olddir oldname newdir newname hide = Some (err, f') \<and> steady hs f' \<and>
    others_kept (insert r N) f f' \<and> r \<in> live f' \<and> (\<forall>n \<in> N. n \<in> live f') \<and>
    (err = 0 \<and> lookup_node f' newdir newname = Some r \<and>
       nd f' r = (nd f r)\<lparr>n_name := Some newname, n_parent := Some p, is_hidden := is_hidden (nd f r) \<or> hide\<rparr> \<or>
     err = - ENOMEM \<and> (\<exists>k. \<not> mallocs f k) \<and> nd f' r = (nd f r)\<lparr>n_name := None, n_parent := None\<rparr>)"
proof -
  note s = steadyD [OF assms(1)]
  note l = lookup_named [OF s(1) assms(2)]
  have pl: "p \<in> live f" using assms(3) by (simp add: held_def)
  have pN: "p \<notin> N" using parent_not_in_it(2) [OF s(1) pl assms(4)] assms(6) by auto
  have N: "n \<in> live f \<and> n \<in> held f \<and> n_nodeid (nd f n) \<noteq> FUSE_ROOT_ID" if "n \<in> N" for n
    using lookup_named(2,5) [OF s(1), of newdir newname n] assms(6,9) that by (auto simp: held_def)
  have rem: "\<forall>n \<in> N. remember f \<noteq> 0 \<longrightarrow> nlookup (nd f n) > 1" using assms(9) by blast
  obtain err f' where f': "rename_node f olddir oldname newdir newname hide = Some (err, f')" "tree_ok f'"
    "others_kept (insert r N) f f'"
    "\<forall>n \<in> N. (n \<in> live f' \<longrightarrow> n_nodeid (nd f' n) = n_nodeid (nd f n) \<and> treelock (nd f' n) = treelock (nd f n) \<and> open_count (nd f' n) = open_count (nd f n)) \<and> (n \<in> held f \<longrightarrow> n \<in> live f')"
    "r \<in> live f'"
    "err = 0 \<and> lookup_node f' newdir newname = Some r \<and>
       nd f' r = (nd f r)\<lparr>n_name := Some newname, n_parent := Some p, is_hidden := is_hidden (nd f r) \<or> hide\<rparr> \<or>
     err = - ENOMEM \<and> 32 \<le> length newname \<and> (\<exists>k. \<not> mallocs f k) \<and> nd f' r = (nd f r)\<lparr>n_name := None, n_parent := None\<rparr>"
    using rename_node_held [OF s(1) assms(2-6,7) pN assms(8) rem] by blast
  have "guarded f (Rename olddir oldname newdir newname hide)"
    using assms(2-7) rem by auto
  then have "lru_ok f'" using rename_step [OF s(1,2), of olddir oldname newdir newname hide] f'(1) by simp
  moreover have "treelock (nd f' r) = treelock (nd f r)" using f'(6) by auto
  then have "frame hs f f'"
    using f'(4,5) N l(2,5) assms(10) by (intro frame_others [OF s(1,3) f'(3)]) auto
  moreover have "open_count (nd f' r) = open_count (nd f r)" using f'(6) by auto
  then have "\<forall>q \<in> insert r N. q \<in> live f' \<longrightarrow> q \<in> live f \<and> open_count (nd f' q) = open_count (nd f q)" using f'(4) N l(2) by blast
  ultimately have "steady hs f'" using steady_framed [OF assms(1) f'(2)] opens_others [OF f'(3)] by blast
  then show ?thesis using f' N by blast
qed

lemma exchange_under:
  assumes "steady hs f" "lookup_node f olddir oldname = Some r" "lookup_node f newdir newname = Some n" "r \<noteq> n"
    and "s \<in> held f" "n_nodeid (nd f s) = olddir" "p \<in> held f" "n_nodeid (nd f p) = newdir"
    and "r \<notin> above f p" "n \<notin> above f s" "\<forall>h \<in> set hs. \<not> covers f h r \<and> \<not> covers f h n"
  shows "\<exists>err f'. exchange_node f olddir oldname newdir newname = Some (err, f') \<and> steady hs f'"
proof -
  note t = steadyD [OF assms(1)]
  obtain err f' where f': "exchange_node f olddir oldname newdir newname = Some (err, f')" "tree_ok f'" "others_kept {r, n} f f'"
    "\<forall>q \<in> {r, n}. q \<in> live f' \<and> nlookup (nd f' q) = nlookup (nd f q) \<and> n_nodeid (nd f' q) = n_nodeid (nd f q) \<and> treelock (nd f' q) = treelock (nd f q) \<and> open_count (nd f' q) = open_count (nd f q)"
    using exchange_held [OF t(1) assms(2-10)] by blast
  have "guarded f (Exchange olddir oldname newdir newname)"
    using assms(2-10) unfolding guarded.simps by blast
  then have "lru_ok f'" using exchange_step [OF t(1,2), of olddir oldname newdir newname] f'(1) by simp
  moreover have "frame hs f f'"
    using f'(4) lookup_named(2,5) [OF t(1) assms(2)] lookup_named(2,5) [OF t(1) assms(3)] assms(11)
    by (intro frame_others [OF t(1,3) f'(3)]) auto
  moreover have "\<forall>q \<in> {r, n}. q \<in> live f' \<longrightarrow> q \<in> live f \<and> open_count (nd f' q) = open_count (nd f q)"
    using f'(4) lookup_named(2) [OF t(1) assms(2)] lookup_named(2) [OF t(1) assms(3)] by simp
  ultimately have "steady hs f'" using steady_framed [OF assms(1) f'(2)] opens_others [OF f'(3)] by blast
  then show ?thesis using f'(1) by blast
qed

lemma steady_upd:
  assumes "steady hs f" "r \<in> live f" "\<And>n. n_parent (g n) = n_parent n" "\<And>n. n_name (g n) = n_name n"
    "\<And>n. n_nodeid (g n) = n_nodeid n" "\<And>n. refctr (g n) = refctr n" "\<And>n. treelock (g n) = treelock n" "\<And>n. nlookup (g n) = nlookup n"
    "0 \<le> open_count (g (nd f r))"
  shows "steady hs (upd r g f)"
proof -
  note s = steadyD [OF assms(1)]
  have "tree_ok (upd r g f)" using assms(8) by (intro tree_ok_counts [OF s(1) assms(2) refl assms(3-7)]) simp
  moreover have "lru_ok (upd r g f)"
    using s(2) assms(2,5,8) by (auto simp: lru_ok_def lru_enabled_def)
  moreover have "frame hs f (upd r g f)"
    by (rule frame_same_places) (use assms s(3) in auto)
  moreover have "opens_ok (upd r g f)" using s(4) assms(2,9) by (simp add: opens_ok_def)
  ultimately show ?thesis using held_frame [OF s(1) _ s(3)] by (simp add: steady_def)
qed

text \<open>The path of a name that is not locked for it.\<close>

lemma try_unlocked:
  assumes "tree_at_rest f" "get_fuse_node f ino = Some r" "path_fits f ino name"
  shows "\<exists>res k. try_get_path f ino name False False = Some (res, f\<lparr>malloc_no := k\<rparr>)"
proof -
  have r: "r \<in> live f" "n_nodeid (nd f r) = ino" using get_node_iff [of f ino r] assms(1,2) by (simp_all add: tree_at_rest_def)
  obtain qs e where c: "chain f r qs e" using chain_exists [OF assms(1) r(1)] by blast
  have l: "length (path_string f qs) + length (name_part name) + 2 \<le> 0xFFFFFFFF"
    using assms(2,3) c unfolding path_fits_def by blast
  have id: "relock (\<lambda>q k. k) f = f" by (rule relock_id) simp
  show ?thesis using try_get_path_run [OF assms(1) r c l, of False False None] by (auto simp: id)
qed

lemma steady_malloc [simp]: "steady hs (f\<lparr>malloc_no := k\<rparr>) = steady hs f"
proof -
  have a: "steady hs (f\<lparr>malloc_no := k\<rparr>)" if s: "steady hs f" for f k
  proof -
    note t = steadyD [OF s]
    have "tree_ok (f\<lparr>malloc_no := k\<rparr>)" by (rule tree_ok_cong [OF t(1)]) simp_all
    moreover have "lru_ok (f\<lparr>malloc_no := k\<rparr>)" by (rule lru_ok_same [OF t(2)]) simp_all
    moreover have "frame hs f (f\<lparr>malloc_no := k\<rparr>)" by (rule frame_same_places) (use t in simp_all)
    ultimately show ?thesis by (rule steady_framed [OF s]) simp
  qed
  show ?thesis using a [of f k] a [of "f\<lparr>malloc_no := k\<rparr>" "malloc_no f"] by auto
qed

end
