(* ===== verification/Fuse_Lib_Answers.thy ===== *)
theory Fuse_Lib_Answers
  imports Fuse_Lib_Nodes
begin

text \<open>
  Every request returns and sends exactly one reply, and then no path is locked any more. \<open>runs\<close> is the weakest
  precondition of a program with errors; the lemmas \<open>..._answered\<close> are one for each request.
\<close>

section \<open>Returning\<close>

text \<open>\<open>runs m Q\<close>: the program \<open>m\<close> returns, with a result that satisfies \<open>Q\<close>.\<close>

definition runs :: "'a option \<Rightarrow> ('a \<Rightarrow> bool) \<Rightarrow> bool" where
  "runs m Q \<longleftrightarrow> (\<exists>x. m = Some x \<and> Q x)"

lemma runs_Some [simp]: "runs (Some x) Q = Q x"
  by (simp add: runs_def)

lemma runs_bind [simp]: "runs (Option.bind m g) Q = runs m (\<lambda>x. runs (g x) Q)"
  by (cases m) (auto simp: runs_def)

lemma runs_mono: "runs m P \<Longrightarrow> (\<And>x. P x \<Longrightarrow> Q x) \<Longrightarrow> runs m Q"
  by (auto simp: runs_def)

lemma runs_mono2: "runs m (\<lambda>(a, b). P a b) \<Longrightarrow> (\<And>a b. P a b \<Longrightarrow> Q a b) \<Longrightarrow> runs m (\<lambda>(a, b). Q a b)"
  by (auto simp: runs_def)

lemma runsI: "m = Some x \<Longrightarrow> Q x \<Longrightarrow> runs m Q"
  by (simp add: runs_def)

text \<open>A request has sent its reply, and the state is otherwise as before up to the file system and the nodes.\<close>

definition replied :: "'s lib \<Rightarrow> 's lib \<Rightarrow> bool" where
  "replied L L' \<longleftrightarrow> (\<exists>r. env (L\<lparr>replies := replies L @ [r]\<rparr>) L')"

definition answered :: "'s lib \<Rightarrow> 's lib \<Rightarrow> bool" where
  "answered L L' \<longleftrightarrow> good [] L' \<and> replied L L'"

lemma replied_env: "env L L1 \<Longrightarrow> replied L1 L2 \<Longrightarrow> replied L L2" "replied L L1 \<Longrightarrow> env L1 L2 \<Longrightarrow> replied L L2"
  by (auto simp: replied_def env_def)

lemma replied_send [simp]: "replied L (L\<lparr>replies := replies L @ [r]\<rparr>)"
  unfolding replied_def by (intro exI [of _ r]) simp

lemma good_views [simp]: "good hs (L\<lparr>replies := rs\<rparr>) = good hs L" "good hs (L\<lparr>fss := s\<rparr>) = good hs L" "good hs (L\<lparr>caches := c\<rparr>) = good hs L"
  "good hs (L\<lparr>clock_no := k\<rparr>) = good hs L" "good hs (L\<lparr>hidectr := h\<rparr>) = good hs L" "good hs (L\<lparr>node_locks := l\<rparr>) = good hs L"
  by (simp_all add: good_def)

lemma env_views [simp]: "env L (L\<lparr>caches := c\<rparr>)" "env L (L\<lparr>clock_no := k\<rparr>)" "env L (L\<lparr>hidectr := h\<rparr>)"
  by (simp_all add: env_def)

lemma env_right [simp]: "env L (L'\<lparr>core := f\<rparr>) = env L L'" "env L (L'\<lparr>fss := s\<rparr>) = env L L'" "env L (L'\<lparr>caches := c\<rparr>) = env L L'"
  "env L (L'\<lparr>clock_no := k\<rparr>) = env L L'" "env L (L'\<lparr>hidectr := h\<rparr>) = env L L'"
  by (simp_all add: env_def)

lemma env_left [simp]: "env (L\<lparr>core := f\<rparr>) L' = env L L'" "env (L\<lparr>fss := s\<rparr>) L' = env L L'" "env (L\<lparr>caches := c\<rparr>) L' = env L L'"
  "env (L\<lparr>clock_no := k\<rparr>) L' = env L L'" "env (L\<lparr>hidectr := h\<rparr>) L' = env L L'"
  by (simp_all add: env_def)

lemma finish_runs [simp]: "runs (finish r L) Q = Q (L\<lparr>replies := replies L @ [r]\<rparr>)"
  by (simp add: finish_def send_def)

lemma send_simp [simp]: "send r L = (sent L (length (replies L)), L\<lparr>replies := replies L @ [r]\<rparr>)"
  by (simp add: send_def)

lemma answered_send: "good [] L1 \<Longrightarrow> env L L1 \<Longrightarrow> answered L (L1\<lparr>replies := replies L1 @ [r]\<rparr>)"
  using replied_env(1) [of L L1] by (simp add: answered_def)

lemma answered_now: "good [] L1 \<Longrightarrow> env L L1 \<Longrightarrow> rs = replies L1 @ [r] \<Longrightarrow> answered L (L1\<lparr>replies := rs\<rparr>)"
  using answered_send by simp

lemma update_stat_views: "core (update_stat n st L) = core L" "good hs (update_stat n st L) = good hs L" "env L L' \<Longrightarrow> env L (update_stat n st L')"
  "conf (update_stat n st L) = conf L"
  by (simp_all add: update_stat_def curr_time_def Let_def)

section \<open>Requests for one path\<close>

definition reachable_node :: "fuse \<Rightarrow> u64 \<Rightarrow> bool" where
  "reachable_node f ino \<longleftrightarrow> known f ino \<and> path_fits f ino None"

lemma at_path_runs:
  assumes "good [] L" "reachable_node (core L) ino"
  shows "runs (at_path nullok ino g L) (\<lambda>(r, L'). good [] L' \<and> env L L' \<and> relocked (core L) (core L'))"
  using at_path_ok [of L ino nullok g] assms by (auto simp: runs_def reachable_node_def)

lemma known_get: "tree_ok f \<Longrightarrow> known f ino \<Longrightarrow> \<exists>r. get_fuse_node f ino = Some r \<and> r \<in> live f"
  using get_node_iff [OF tree_okD(4), of f ino] by (auto simp: known_def)

lemma at_path_reply:
  assumes "good [] L" "reachable_node (core L) ino"
    and "\<And>r L'. good [] L' \<Longrightarrow> env L L' \<Longrightarrow> get_fuse_node (core L') ino \<noteq> None \<Longrightarrow> runs (k r L') (answered L)"
  shows "runs (Option.bind (at_path nullok ino g L) (\<lambda>(r, L). k r L)) (answered L)"
  unfolding runs_bind
proof (rule runs_mono [OF at_path_runs [OF assms(1,2)]], clarify)
  fix r L' assume h: "good [] L'" "env L L'" "relocked (core L) (core L')"
  have "known (core L) ino" using assms(2) by (simp add: reachable_node_def)
  then have "get_fuse_node (core L') ino \<noteq> None"
    using relockedD(2) [OF goodD(4) [OF assms(1)] h(3)] known_get [OF goodD(1) [OF assms(1)]] by fastforce
  then show "runs (k r L') (answered L)" using assms(3) h by blast
qed

lemma getattr_answered:
  assumes "good [] L" "reachable_node (core L) ino"
  shows "runs (fuse_lib_getattr ino fi L) (answered L)"
  unfolding fuse_lib_getattr_def
  by (rule at_path_reply [OF assms])
    (auto simp: reply_attr_def Let_def update_stat_views intro!: answered_send split: option.splits)

lemma setattr_answered:
  assumes "good [] L" "reachable_node (core L) ino"
  shows "runs (fuse_lib_setattr ino attr valid fi L) (answered L)"
  unfolding fuse_lib_setattr_def
  by (rule at_path_reply [OF assms])
    (auto simp: reply_attr_def Let_def update_stat_views intro!: answered_send split: option.splits)

lemma access_answered: "good [] L \<Longrightarrow> reachable_node (core L) ino \<Longrightarrow> runs (fuse_lib_access ino m L) (answered L)"
  unfolding fuse_lib_access_def by (rule at_path_reply) (simp_all add: answered_send)

lemma flock_answered: "good [] L \<Longrightarrow> reachable_node (core L) ino \<Longrightarrow> runs (fuse_lib_flock ino fi opn L) (answered L)"
  unfolding fuse_lib_flock_def by (rule at_path_reply) (simp_all add: answered_send)

lemma fsync_answered: "good [] L \<Longrightarrow> reachable_node (core L) ino \<Longrightarrow> runs (fuse_lib_fsync ino datasync fi L) (answered L)"
  unfolding fuse_lib_fsync_def by (rule at_path_reply) (simp_all add: answered_send)

lemma setxattr_answered: "good [] L \<Longrightarrow> reachable_node (core L) ino \<Longrightarrow> runs (fuse_lib_setxattr ino name val flags L) (answered L)"
  unfolding fuse_lib_setxattr_def by (rule at_path_reply) (simp_all add: answered_send)

lemma removexattr_answered: "good [] L \<Longrightarrow> reachable_node (core L) ino \<Longrightarrow> runs (fuse_lib_removexattr ino name L) (answered L)"
  unfolding fuse_lib_removexattr_def by (rule at_path_reply) (simp_all add: answered_send)

lemma bmap_answered: "good [] L \<Longrightarrow> reachable_node (core L) ino \<Longrightarrow> runs (fuse_lib_bmap ino blocksize idx L) (answered L)"
  unfolding fuse_lib_bmap_def by (rule at_path_reply) (simp_all add: answered_send)

lemma poll_answered: "good [] L \<Longrightarrow> reachable_node (core L) ino \<Longrightarrow> runs (fuse_lib_poll ino fi ph L) (answered L)"
  unfolding fuse_lib_poll_def by (rule at_path_reply) (simp_all add: answered_send)

lemma fallocate_answered: "good [] L \<Longrightarrow> reachable_node (core L) ino \<Longrightarrow> runs (fuse_lib_fallocate ino m off len fi L) (answered L)"
  unfolding fuse_lib_fallocate_def by (rule at_path_reply) (simp_all add: answered_send)

lemma statfs_answered:
  assumes "good [] L" "ino = 0 \<or> reachable_node (core L) ino"
  shows "runs (fuse_lib_statfs ino L) (answered L)"
proof (cases "ino = 0")
  case True
  then show ?thesis using assms(1) by (auto simp: fuse_lib_statfs_def intro!: answered_now)
next
  case False
  then have "(if ino \<noteq> 0 then at_path False ino (\<lambda>path fs. fuse_fs_statfs fs path) L
       else Some (call (\<lambda>fs. fuse_fs_statfs fs (Some [SLASH])) L)) = at_path False ino (\<lambda>path fs. fuse_fs_statfs fs path) L" by simp
  then show ?thesis unfolding fuse_lib_statfs_def
    using at_path_reply [of L ino] assms False by (simp add: answered_send)
qed


section \<open>Two paths\<close>

lemma second_free:
  assumes "steady [] f" "get_fuse_node f ino = Some r" "path_fits f ino name" "wr \<longrightarrow> name \<noteq> None"
    and "try_get_path f ino name wr True = Some (Inr (path, w), f1)"
    and "get_fuse_node f ino2 = Some r2" "\<forall>x. w = Some x \<longrightarrow> x \<notin> above f r2"
    and "wr2 \<longrightarrow> name2 \<noteq> None \<and> (\<forall>x. lookup_node f ino2 (the name2) = Some x \<longrightarrow> nlookup (nd f x) \<noteq> 0 \<and> w \<noteq> Some x \<and> x \<notin> above f r)"
  shows "free_way f1 ino2 name2 wr2"
proof -
  note s = steadyD [OF assms(1)]
  note i = tree_okD [OF s(1)]
  have zero: "\<forall>q \<in> live f. treelock (nd f q) = 0" using s(3) by (simp add: held_Nil)
  have rl: "r \<in> live f" "r2 \<in> live f" using get_node_iff [OF i(4)] assms(2,6) by blast+
  obtain qs e where c: "chain f r qs e" using chain_exists [OF i(3) rl(1)] by blast
  obtain k where f1: "f1 = (relock (taken True qs w) f)\<lparr>malloc_no := k\<rparr>"
    using try_get_path_cases [OF i(3) assms(2) c assms(3,4,5)] by auto
  note v = relocked_views [OF i(3) f1]
  obtain qs2 e2 where c2: "chain f r2 qs2 e2" using chain_exists [OF i(3) rl(2)] by blast
  have t: "treelock (nd f1 q) = taken True qs w q 0" if "q \<in> live f" for q
    using v(7) [OF that] zero that by simp
  have qs2: "q \<in> live f \<and> w \<noteq> Some q" if "q \<in> set qs2" for q
    using that chain_live [OF c2] chain_above [OF c2] assms(7) by blast
  have "0 \<le> treelock (nd f1 q)" if "chain f1 r2 qs3 e3" "q \<in> set qs3" for qs3 e3 q
  proof -
    have "qs3 = qs2" using chain_unique [OF that(1) v(4) [OF c2]] by simp
    then show ?thesis using t [of q] qs2 [of q] that(2) by auto
  qed
  moreover have "treelock (nd f1 x) = 0 \<and> nlookup (nd f1 x) \<noteq> 0" if x: "wr2" "lookup_node f1 ino2 (the name2) = Some x" for x
  proof -
    have l: "lookup_node f ino2 (the name2) = Some x" using x(2) v(3) by simp
    have xl: "x \<in> live f" using lookup_named(2) [OF s(1) l] .
    have "x \<notin> set qs" "w \<noteq> Some x" "nlookup (nd f x) \<noteq> 0" using assms(8) l x(1) chain_above [OF c] by blast+
    then show ?thesis using t [OF xl] v(7) [OF xl] by simp
  qed
  ultimately show ?thesis using assms(6,8) v(2) by (simp add: free_way_def)
qed

lemma try2_ok:
  assumes "steady [] f" "known f ino1" "known f ino2" "path_fits f ino1 n1" "path_fits f ino2 n2"
    and "wr1 \<longrightarrow> n1 \<noteq> None \<and> (\<forall>x. lookup_node f ino1 (the n1) = Some x \<longrightarrow> nlookup (nd f x) \<noteq> 0)"
    and "w1 = (if wr1 then lookup_node f ino1 (the n1) else None)" "w2 = (if wr2 then lookup_node f ino2 (the n2) else None)"
    and "\<forall>r x. get_fuse_node f ino2 = Some r \<longrightarrow> w1 = Some x \<longrightarrow> x \<notin> above f r"
    and "wr2 \<longrightarrow> n2 \<noteq> None \<and> (\<forall>x. lookup_node f ino2 (the n2) = Some x \<longrightarrow> nlookup (nd f x) \<noteq> 0 \<and> w1 \<noteq> Some x \<and> (\<forall>r. get_fuse_node f ino1 = Some r \<longrightarrow> x \<notin> above f r))"
  shows "\<exists>res f'. try_get_path2 f ino1 n1 ino2 n2 wr1 wr2 = Some (res, f') \<and> relocked f f' \<and> res \<noteq> Inl (- EAGAIN) \<and>
    (case res of Inl err \<Rightarrow> err < 0 \<and> steady [] f' | Inr ((p1, x1), (p2, x2)) \<Rightarrow> x1 = w1 \<and> x2 = w2 \<and> steady [(ino2, w2), (ino1, w1)] f')"
proof -
  note s = steadyD [OF assms(1)]
  note i = tree_okD [OF s(1)]
  have op: "opens_ok f'" if "relocked f f'" for f' by (rule opens_relocked [OF i(3) that s(4)])
  obtain r1 r2 where g: "get_fuse_node f ino1 = Some r1" "get_fuse_node f ino2 = Some r2"
    using known_get [OF s(1)] assms(2,3) by blast
  have fw: "free_way f ino1 n1 wr1" using assms(6) by (intro free_way_idle [OF s(3) i(3)]) auto
  obtain res f1 where t1: "try_get_path f ino1 n1 wr1 True = Some (res, f1)" "relocked f f1" "tree_ok f1" "lru_ok f1" "res \<noteq> Inl (- EAGAIN)"
    "case res of Inl err \<Rightarrow> err < 0 \<and> locks_held f1 [] | Inr (path, w) \<Rightarrow> locks_held f1 [(ino1, w)] \<and> w = w1"
    using try_ok [OF s(1-3) _ assms(2,4) fw] assms(7) by (fastforce split: sum.splits prod.splits)
  show ?thesis
  proof (cases res)
    case (Inl err)
    then show ?thesis using t1 op by (auto simp: try_get_path2_def steady_def)
  next
    case (Inr pw)
    obtain p1 where p: "pw = (p1, w1)" using t1(6) Inr by (cases pw) simp
    have h1: "locks_held f1 [(ino1, w1)]" using t1(6) Inr p by simp
    have s1: "try_get_path f ino1 n1 wr1 True = Some (Inr (p1, w1), f1)" using t1(1) Inr p by simp
    have fw2: "free_way f1 ino2 n2 wr2"
      using assms(6,9,10) g by (intro second_free [OF assms(1) g(1) assms(4) _ s1 g(2)]) auto
    note d = relockedD [OF i(3) t1(2)]
    obtain res2 f2 where t2: "try_get_path f1 ino2 n2 wr2 True = Some (res2, f2)" "relocked f1 f2" "tree_ok f2" "lru_ok f2" "res2 \<noteq> Inl (- EAGAIN)"
      "case res2 of Inl err \<Rightarrow> err < 0 \<and> locks_held f2 [(ino1, w1)] | Inr (path, w) \<Rightarrow> locks_held f2 [(ino2, w), (ino1, w1)] \<and> w = w2"
      using try_ok [OF t1(3,4) h1 _ known_relocked [OF s(1) t1(2) assms(3)] d(17) [OF assms(5)] fw2] assms(8) d(3)
      by (fastforce split: sum.splits prod.splits)
    have rel: "relocked f f2" using relocked_trans [OF t1(2) t2(2)] .
    show ?thesis
    proof (cases res2)
      case (Inl err)
      have h2: "locks_held f2 [(ino1, w1)]" using t2(6) Inl by simp
      obtain h k where h: "unlock_path f2 ino1 w1 None = Some ((relock h f2)\<lparr>malloc_no := k\<rparr>)" "tree_ok ((relock h f2)\<lparr>malloc_no := k\<rparr>)"
        "lru_ok ((relock h f2)\<lparr>malloc_no := k\<rparr>)" "locks_held ((relock h f2)\<lparr>malloc_no := k\<rparr>) []"
        using held_free [OF t2(3,4) h2, of ino1 w1] by auto
      have "relocked f2 ((relock h f2)\<lparr>malloc_no := k\<rparr>)" unfolding relocked_def by blast
      then show ?thesis using s1 t2 Inl h op relocked_trans [OF rel] by (simp add: try_get_path2_def steady_def)
    next
      case (Inr pw2)
      then show ?thesis using s1 t2 rel op by (cases pw2) (simp add: try_get_path2_def steady_def)
    qed
  qed
qed


lemma replied_now: "env L L1 \<Longrightarrow> rs = replies L1 @ [r] \<Longrightarrow> replied L (L1\<lparr>replies := rs\<rparr>)"
  using replied_env(1) [of L L1] by simp

lemma get_paths_runs:
  assumes "good [] L" "f = core L" "known f ino1" "known f ino2" "path_fits f ino1 n1" "path_fits f ino2 n2"
    and "wr1 \<longrightarrow> n1 \<noteq> None \<and> (\<forall>x. lookup_node f ino1 (the n1) = Some x \<longrightarrow> nlookup (nd f x) \<noteq> 0)"
    and "w1 = (if wr1 then lookup_node f ino1 (the n1) else None)" "w2 = (if wr2 then lookup_node f ino2 (the n2) else None)"
    and "\<forall>r x. get_fuse_node f ino2 = Some r \<longrightarrow> w1 = Some x \<longrightarrow> x \<notin> above f r"
    and "wr2 \<longrightarrow> n2 \<noteq> None \<and> (\<forall>x. lookup_node f ino2 (the n2) = Some x \<longrightarrow> nlookup (nd f x) \<noteq> 0 \<and> w1 \<noteq> Some x \<and> (\<forall>r. get_fuse_node f ino1 = Some r \<longrightarrow> x \<notin> above f r))"
  shows "runs (get_paths ino1 n1 ino2 n2 wr1 wr2 L) (\<lambda>(res, L'). env L L' \<and> relocked f (core L') \<and>
    (case res of Inl err \<Rightarrow> err < 0 \<and> good [] L' | Inr ((p1, x1), (p2, x2)) \<Rightarrow> x1 = w1 \<and> x2 = w2 \<and> good [(ino2, w2), (ino1, w1)] L'))"
proof -
  have s: "steady [] f" using assms(1,2) by (simp add: good_steady)
  obtain res f' where t: "try_get_path2 f ino1 n1 ino2 n2 wr1 wr2 = Some (res, f')" "relocked f f'" "res \<noteq> Inl (- EAGAIN)"
    "case res of Inl err \<Rightarrow> err < 0 \<and> steady [] f' | Inr ((p1, x1), (p2, x2)) \<Rightarrow> x1 = w1 \<and> x2 = w2 \<and> steady [(ino2, w2), (ino1, w1)] f'"
    using try2_ok [OF s assms(3-11)] by blast
  have "get_paths ino1 n1 ino2 n2 wr1 wr2 L = Some (res, L\<lparr>core := f'\<rparr>)"
    using t(1,3) assms(2) by (simp add: get_paths_def get_path2_def)
  then show ?thesis by (rule runsI) (use t(2,4) in \<open>auto simp: good_steady split: sum.splits\<close>)
qed

lemma unlock_runs:
  assumes "good ((ino, w) # hs) L"
  shows "runs (unlock ino w L) (\<lambda>L'. good hs L' \<and> env L L' \<and> relocked (core L) (core L') \<and> L' = L\<lparr>core := core L'\<rparr>)"
  using unlock_ok [OF assms, of ino w] by (auto simp: runs_def)

lemma unlock2_runs:
  assumes "good [(ino2, w2), (ino1, w1)] L"
  shows "runs (unlock2 ino1 ino2 w1 w2 L) (\<lambda>L'. good [] L' \<and> env L L' \<and> relocked (core L) (core L'))"
proof -
  obtain L1 where u1: "unlock ino1 w1 L = Some L1" "good (remove1 (ino1, w1) [(ino2, w2), (ino1, w1)]) L1" "relocked (core L) (core L1)" "L1 = L\<lparr>core := core L1\<rparr>"
    using unlock_ok [OF assms, of ino1 w1] by auto
  have "remove1 (ino1, w1) [(ino2, w2), (ino1, w1)] = [(ino2, w2)]" by auto
  then obtain L2 where u2: "unlock ino2 w2 L1 = Some L2" "good [] L2" "relocked (core L1) (core L2)" "L2 = L1\<lparr>core := core L2\<rparr>"
    using u1(2) unlock_ok [of "[(ino2, w2)]" L1 ino2 w2] by auto
  have "unlock_path (core L) ino1 w1 None = Some (core L1)" "unlock_path (core L1) ino2 w2 None = Some (core L2)"
    using u1(1) u2(1) by (auto simp: unlock_def update_core_def free_path_wrlock_def bind_eq_Some_conv split: option.splits)
  then have "unlock2 ino1 ino2 w1 w2 L = Some (L\<lparr>core := core L2\<rparr>)" by (simp add: unlock2_def update_core_def free_path2_def)
  moreover have "good [] (L\<lparr>core := core L2\<rparr>)" using u2(2) by (simp add: good_def)
  ultimately show ?thesis using relocked_trans [OF u1(3) u2(3)] by (intro runsI) auto
qed

lemma get_path_name_runs:
  assumes "good hs L" "Suc (length hs) < 2 ^ 31 - 1" "known (core L) ino" "path_fits (core L) ino name" "free_way (core L) ino name False"
  shows "runs (get_path_name ino name L) (\<lambda>(res, L'). env L L' \<and> fss L' = fss L \<and> relocked (core L) (core L') \<and>
    (case res of Inl err \<Rightarrow> err < 0 \<and> good hs L' | Inr path \<Rightarrow> path \<noteq> None \<and> good ((ino, None) # hs) L'))"
proof -
  obtain res L' where l: "lock_path ino name False L = Some (res, L')" "env L L'"
    "fss L' = fss L" "relocked (core L) (core L')" "case res of Inl err \<Rightarrow> err < 0 \<and> good hs L' | Inr (path, w) \<Rightarrow> good ((ino, w) # hs) L' \<and> w = None"
    using lock_path_ok [OF assms] by (fastforce split: sum.splits)
  have "get_path_name ino name L = Some (case res of Inl err \<Rightarrow> Inl err | Inr (path, _) \<Rightarrow> Inr (Some path), L')"
    using l(1) by (simp add: get_path_name_def)
  then show ?thesis by (rule runsI) (use l in \<open>auto split: sum.splits prod.splits\<close>)
qed

definition holds :: "u64 \<Rightarrow> bytes option \<Rightarrow> (u64 \<times> nat option) list" where
  "holds ino path = (if path \<noteq> None then [(ino, None)] else [])"

lemma free_path_runs:
  assumes "good (holds ino path @ hs) L"
  shows "runs (free_path ino path L) (\<lambda>L'. good hs L' \<and> env L L' \<and> relocked (core L) (core L') \<and> fss L' = fss L)"
proof -
  have "(if path \<noteq> None then remove1 (ino, None) (holds ino path @ hs) else holds ino path @ hs) = hs" by (auto simp: holds_def)
  then show ?thesis using free_path_ok [OF assms, of path ino] by (auto simp: runs_def holds_def)
qed

lemma get_path_nullok_runs:
  assumes "good hs L" "Suc (length hs) < 2 ^ 31 - 1" "known (core L) ino" "path_fits (core L) ino None" "free_way (core L) ino None False"
  shows "runs (get_path_nullok ino L) (\<lambda>(res, L'). env L L' \<and> fss L' = fss L \<and> relocked (core L) (core L') \<and>
    (case res of Inl err \<Rightarrow> err < 0 \<and> good hs L' | Inr path \<Rightarrow> good (holds ino path @ hs) L'))"
proof (cases "nullpath_ok (conf L)")
  case True
  then show ?thesis using assms(1) relocked_refl by (simp add: get_path_nullok_def holds_def)
next
  case False
  show ?thesis
    unfolding get_path_nullok_def get_path_def using False
    by (auto simp: holds_def intro!: runs_mono [OF get_path_name_runs [OF assms]] split: sum.splits)
qed

lemma free_way_good:
  assumes "good [] L"
  shows "free_way (core L) ino name False"
  using goodD(3,4) [OF assms] by (intro free_way_idle) simp_all

text \<open>A second path, read while the first is held.\<close>

lemma second_nullok:
  assumes "good [] L" "reachable_node (core L) ino1" "reachable_node (core L) ino2" "get_path_nullok ino1 L = Some (Inr path, L1)"
  shows "good (holds ino1 path) L1" "env L L1" "relocked (core L) (core L1)" "fss L1 = fss L" "reachable_node (core L1) ino2" "free_way (core L1) ino2 None False"
proof -
  have r1: "known (core L) ino1" "path_fits (core L) ino1 None" and r2: "known (core L) ino2" "path_fits (core L) ino2 None"
    using assms(2,3) by (simp_all add: reachable_node_def)
  note n = get_path_nullok_runs [OF assms(1) _ r1 free_way_good [OF assms(1)]]
  then show h: "good (holds ino1 path) L1" "env L L1" "relocked (core L) (core L1)" "fss L1 = fss L"
    using assms(4) by (simp_all add: runs_def)
  show "reachable_node (core L1) ino2"
    using known_relocked [OF goodD(1) [OF assms(1)] h(3) r2(1)] relockedD(17) [OF goodD(4) [OF assms(1)] h(3) r2(2)]
    by (simp add: reachable_node_def)
  show "free_way (core L1) ino2 None False"
  proof (cases path)
    case None
    then show ?thesis using free_way_good [of L1] h(1) by (simp add: holds_def)
  next
    case (Some p)
    have "\<not> nullpath_ok (conf L)" using assms(4) Some by (auto simp: get_path_nullok_def)
    then have g: "get_path ino1 L = Some (Inr (Some p), L1)" using assms(4) Some by (auto simp: get_path_nullok_def bind_eq_Some_conv split: if_splits)
    then obtain res where res: "lock_path ino1 None False L = Some (res, L1)" "(case res of Inl err \<Rightarrow> Inl err | Inr (path, _) \<Rightarrow> Inr (Some path)) = Inr (Some p)"
      by (auto simp: get_path_def get_path_name_def bind_eq_Some_conv)
    obtain w where lp: "lock_path ino1 None False L = Some (Inr (p, w), L1)"
      using res by (cases res) auto
    then have t: "try_get_path (core L) ino1 None False True = Some (Inr (p, w), core L1)"
      by (auto simp: lock_path_def get_path_common_def bind_eq_Some_conv Let_def split: if_splits option.splits)
    have s: "steady [] (core L)" using assms(1) by (simp add: good_steady)
    obtain r r' where gr: "get_fuse_node (core L) ino1 = Some r" "get_fuse_node (core L) ino2 = Some r'"
      using known_get [OF goodD(1) [OF assms(1)]] r1(1) r2(1) by blast
    have "w = None"
      using lock_path_ok [OF assms(1) _ r1 free_way_good [OF assms(1)]] lp by auto
    then show ?thesis using second_free [OF s gr(1) r1(2) _ t gr(2)] by simp
  qed
qed

lemma copy_file_range_answered:
  assumes "good [] L" "reachable_node (core L) ino_in" "reachable_node (core L) ino_out"
  shows "runs (fuse_lib_copy_file_range ino_in off_in fi_in ino_out off_out fi_out len flags L) (answered L)"
proof -
  have r1: "known (core L) ino_in" "path_fits (core L) ino_in None" using assms(2) by (simp_all add: reachable_node_def)
  obtain res L1 where g1: "get_path_nullok ino_in L = Some (res, L1)" "env L L1"
    "case res of Inl err \<Rightarrow> good [] L1 | Inr path \<Rightarrow> good (holds ino_in path) L1"
    using get_path_nullok_runs [OF assms(1) _ r1 free_way_good [OF assms(1)]] by (fastforce simp: runs_def split: sum.splits)
  show ?thesis
  proof (cases res)
    case (Inl err)
    then show ?thesis using g1 by (simp add: fuse_lib_copy_file_range_def answered_send)
  next
    case (Inr path)
    note n = second_nullok [OF assms g1(1) [unfolded Inr]]
    have r2: "known (core L1) ino_out" "path_fits (core L1) ino_out None" using n(5) by (simp_all add: reachable_node_def)
    have len: "Suc (length (holds ino_in path)) < 2 ^ 31 - 1" by (simp add: holds_def)
    obtain res2 L2 where g2: "get_path_nullok ino_out L1 = Some (res2, L2)" "env L1 L2"
      "case res2 of Inl err \<Rightarrow> good (holds ino_in path) L2 | Inr p \<Rightarrow> good (holds ino_out p @ holds ino_in path) L2"
      using get_path_nullok_runs [OF n(1) len r2 n(6)] by (fastforce simp: runs_def split: sum.splits)
    have e2: "env L L2" using env_trans [OF n(2) g2(2)] .
    show ?thesis
    proof (cases res2)
      case (Inl err)
      have "runs (free_path ino_in path L2) (\<lambda>L'. answered L (L'\<lparr>replies := replies L' @ [Reply_err err]\<rparr>))"
        using free_path_runs [of ino_in path "[]" L2] g2(3) Inl
        by (auto intro!: answered_send env_trans [OF e2] elim!: runs_mono)
      then show ?thesis using g1(1) g2(1) Inr Inl by (simp add: fuse_lib_copy_file_range_def)
    next
      case (Inr p)
      let ?hs = "holds ino_out p @ holds ino_in path"
      define L3 where "L3 = (let r = fuse_fs_copy_file_range (fsys L2) path fi_in off_in p fi_out off_out len flags (fss L2)
        in L2\<lparr>fss := snd r, replies := replies L2 @ [if ret (fst r) \<ge> 0 then Reply_write (ret (fst r)) else Reply_err (ret (fst r))]\<rparr>)"
      have e: "fuse_lib_copy_file_range ino_in off_in fi_in ino_out off_out fi_out len flags L =
          do { L \<leftarrow> free_path ino_in path L3; free_path ino_out p L }"
        using g1(1) g2(1) \<open>res = Inr path\<close> Inr by (simp add: fuse_lib_copy_file_range_def L3_def finish_def Let_def)
      have "replied L L3" unfolding L3_def Let_def by (rule replied_now) (use e2 in simp_all)
      have g3: "good ?hs L3" using g2(3) Inr by (simp add: L3_def Let_def)
      obtain L4 where f4: "free_path ino_in path L3 = Some L4" "good (if path \<noteq> None then remove1 (ino_in, None) ?hs else ?hs) L4" "env L3 L4"
        using free_path_ok [OF g3, of path ino_in] by (auto simp: holds_def)
      have "(if path \<noteq> None then remove1 (ino_in, None) ?hs else ?hs) = holds ino_out p" by (auto simp: holds_def)
      then obtain L5 where f5: "free_path ino_out p L4 = Some L5" "good [] L5" "env L4 L5"
        using free_path_runs [of ino_out p "[]" L4] f4(2) by (auto simp: runs_def)
      have "replied L L5" using replied_env(2) [OF \<open>replied L L3\<close> env_trans [OF f4(3) f5(3)]] .
      then show ?thesis using e f4(1) f5(1,2) by (simp add: answered_def)
    qed
  qed
qed


section \<open>Requests that look at the answer of the file system\<close>

definition flock_ok :: "flock \<Rightarrow> bool" where
  "flock_ok lk \<longleftrightarrow> (\<exists>l. flock_to_lock lk = Some l \<and> lock_range l)"

definition sized_ok :: "nat \<Rightarrow> fs_result \<Rightarrow> bool" where
  "sized_ok sz r \<longleftrightarrow> (0 < sz \<longrightarrow> 0 < ret r \<longrightarrow> (\<exists>d. out_data r = Some d \<and> nat (ret r) \<le> sz \<and> nat (ret r) \<le> length d))"

text \<open>What the library relies on: data where a call says so, not more than asked for, and locks that are ranges of bytes.\<close>

definition fs_answers :: "'s fuse_fs \<Rightarrow> bool" where
  "fs_answers fs \<longleftrightarrow>
     (\<forall>path sz s. ret (fst (fuse_fs_readlink fs path sz s)) = 0 \<longrightarrow> out_data (fst (fuse_fs_readlink fs path sz s)) \<noteq> None) \<and>
     (\<forall>path name sz s. sized_ok sz (fst (fuse_fs_getxattr fs path name sz s))) \<and>
     (\<forall>path sz s. sized_ok sz (fst (fuse_fs_listxattr fs path sz s))) \<and>
     (\<forall>path fi cmd lk s lk'. flock_ok lk \<longrightarrow> out_lock (fst (fuse_fs_lock fs path fi cmd lk s)) = Some lk' \<longrightarrow> flock_ok lk')"

definition comes_from :: "fs_result \<Rightarrow> (bytes option \<Rightarrow> 's fuse_fs \<Rightarrow> 's \<Rightarrow> fs_result \<times> 's) \<Rightarrow> 's fuse_fs \<Rightarrow> bool" where
  "comes_from r g fs \<longleftrightarrow> (\<exists>err < 0. r = no_op err) \<or> (\<exists>path s. r = fst (g path fs s))"

lemma at_path_result:
  assumes "good [] L" "reachable_node (core L) ino" "at_path nullok ino g L = Some (r, L')"
  shows "comes_from r g (fsys L)"
proof -
  have k: "known (core L) ino" "path_fits (core L) ino None" using assms(2) by (simp_all add: reachable_node_def)
  obtain res L1 where g: "(if nullok then get_path_nullok ino L else get_path ino L) = Some (res, L1)"
    using assms(3) by (auto simp: at_path_def bind_eq_Some_conv)
  then have "fsys L1 = fsys L \<and> (\<forall>err. res = Inl err \<longrightarrow> err < 0)"
    using get_path_nullok_runs [OF assms(1) _ k free_way_good [OF assms(1)]] get_path_name_runs [OF assms(1) _ k free_way_good [OF assms(1)]]
    by (auto simp: runs_def get_path_def env_def split: if_splits)
  then show ?thesis
    using assms(3) g by (cases res) (auto simp: at_path_def comes_from_def bind_eq_Some_conv)
qed

lemma at_path_reply_from:
  assumes "good [] L" "reachable_node (core L) ino"
    and "\<And>r L'. good [] L' \<Longrightarrow> env L L' \<Longrightarrow> get_fuse_node (core L') ino \<noteq> None \<Longrightarrow> comes_from r g (fsys L) \<Longrightarrow> runs (k r L') (answered L)"
  shows "runs (Option.bind (at_path nullok ino g L) (\<lambda>(r, L). k r L)) (answered L)"
proof -
  obtain r L' where a: "at_path nullok ino g L = Some (r, L')" using at_path_runs [OF assms(1,2), of nullok g] by (auto simp: runs_def)
  have "runs (Option.bind (at_path nullok ino g L) (\<lambda>(x, L). if x = r then k x L else reply_err 0 L)) (answered L)"
    by (rule at_path_reply [OF assms(1,2)]) (use assms(3) at_path_result [OF assms(1,2) a] in \<open>auto simp: answered_send\<close>)
  then show ?thesis by (simp add: a)
qed

lemma readlink_answered:
  assumes "good [] L" "reachable_node (core L) ino" "fs_answers (fsys L)"
  shows "runs (fuse_lib_readlink ino L) (answered L)"
  unfolding fuse_lib_readlink_def
proof (rule at_path_reply_from [OF assms(1,2)])
  fix r L' assume h: "good [] L'" "env L L'" "comes_from r (\<lambda>path fs. fuse_fs_readlink fs path 4097) (fsys L)"
  have "ret r = 0 \<Longrightarrow> out_data r \<noteq> None" using h(3) assms(3) by (auto simp: comes_from_def fs_answers_def)
  then show "runs (if ret r \<noteq> 0 then reply_err (ret r) L' else case out_data r of None \<Rightarrow> None | Some link \<Rightarrow> finish (Reply_readlink (take 4096 link)) L') (answered L)"
    using h by (auto simp: answered_send)
qed

lemma reply_sized_answered:
  assumes "good [] L'" "env L L'" "sized_ok sz r"
  shows "runs (reply_sized sz r L') (answered L)"
  using assms by (auto simp: reply_sized_def sized_ok_def answered_send)

lemma sized_no_op: "err < 0 \<Longrightarrow> sized_ok sz (no_op err)"
  by (simp add: sized_ok_def)

lemma reachable_malloc [simp]:
  assumes "good hs L"
  shows "reachable_node ((core L)\<lparr>malloc_no := k\<rparr>) ino \<longleftrightarrow> reachable_node (core L) ino"
proof -
  have a: "reachable_node (f\<lparr>malloc_no := k\<rparr>) ino" if "reachable_node f ino" "tree_ok f" for f k
    using that known_relocked [OF that(2) relocked_id] relockedD(17) [OF tree_okD(3) [OF that(2)] relocked_id]
    by (simp add: reachable_node_def)
  have "tree_ok ((core L)\<lparr>malloc_no := k\<rparr>)" by (rule tree_ok_cong [OF goodD(1) [OF assms]]) simp_all
  then show ?thesis using a [of "core L" k] a [of "(core L)\<lparr>malloc_no := k\<rparr>" "malloc_no (core L)"] goodD(1) [OF assms] by auto
qed

lemma good_malloc [simp]: "good hs (L\<lparr>core := (core L)\<lparr>malloc_no := k\<rparr>\<rparr>) = good hs L"
  by (simp add: good_steady)

lemma next_malloc_eq: "next_malloc f = (mallocs f (malloc_no f), f\<lparr>malloc_no := Suc (malloc_no f)\<rparr>)"
  by (simp add: next_malloc_def)

lemma answered_malloc: "answered (L\<lparr>core := f\<rparr>) = answered L"
  by (intro ext) (simp add: answered_def replied_def env_def)

lemma sized_request:
  assumes "good [] L" "reachable_node (core L) ino" "\<And>path s. sized_ok sz (fst (g path (fsys L) s))"
    and "L1 = L\<lparr>core := (core L)\<lparr>malloc_no := k\<rparr>\<rparr> \<or> L1 = L"
  shows "runs (Option.bind (at_path False ino g L1) (\<lambda>(r, L). reply_sized sz r L)) (answered L)"
proof -
  have g1: "good [] L1" "reachable_node (core L1) ino" using assms by auto
  have "runs (Option.bind (at_path False ino g L1) (\<lambda>(r, L). reply_sized sz r L)) (answered L1)"
  proof (rule at_path_reply_from [OF g1])
    fix r L' assume h: "good [] L'" "env L1 L'" "comes_from r g (fsys L1)"
    have "sized_ok sz r" using h(3) assms(3,4) by (auto simp: comes_from_def sized_no_op)
    then show "runs (reply_sized sz r L') (answered L1)" using h(1,2) by (intro reply_sized_answered)
  qed
  then show ?thesis using assms(4) by (auto simp: answered_malloc)
qed

lemma getxattr_answered:
  assumes "good [] L" "reachable_node (core L) ino" "fs_answers (fsys L)"
  shows "runs (fuse_lib_getxattr ino name sz L) (answered L)"
proof -
  have s: "sized_ok sz (fst (fuse_fs_getxattr (fsys L) path name sz s))" for path s using assms(3) by (simp add: fs_answers_def)
  show ?thesis
    using assms(1) sized_request [OF assms(1,2), of sz "\<lambda>path fs. fuse_fs_getxattr fs path name sz" _ "Suc (malloc_no (core L))"] s
    by (auto simp: fuse_lib_getxattr_def next_malloc_eq Let_def intro!: answered_now simp del: runs_bind)
qed

lemma listxattr_answered:
  assumes "good [] L" "reachable_node (core L) ino" "fs_answers (fsys L)"
  shows "runs (fuse_lib_listxattr ino sz L) (answered L)"
proof -
  have s: "sized_ok sz (fst (fuse_fs_listxattr (fsys L) path sz s))" for path s using assms(3) by (simp add: fs_answers_def)
  show ?thesis
    using assms(1) sized_request [OF assms(1,2), of sz "\<lambda>path fs. fuse_fs_listxattr fs path sz" _ "Suc (malloc_no (core L))"] s
    by (auto simp: fuse_lib_listxattr_def next_malloc_eq Let_def intro!: answered_now simp del: runs_bind)
qed

lemma get_path_runs:
  assumes "good [] L" "reachable_node (core L) ino"
  shows "runs (get_path ino L) (\<lambda>(res, L'). env L L' \<and> fss L' = fss L \<and> relocked (core L) (core L') \<and>
    (case res of Inl err \<Rightarrow> err < 0 \<and> good [] L' | Inr path \<Rightarrow> path \<noteq> None \<and> good (holds ino path) L'))"
  unfolding get_path_def
  using get_path_name_runs [OF assms(1) _ _ _ free_way_good [OF assms(1)], of ino None] assms(2)
  by (auto simp: reachable_node_def holds_def runs_def split: sum.splits)

lemma lseek_answered:
  assumes "good [] L" "reachable_node (core L) ino"
  shows "runs (fuse_lib_lseek ino off whence fi L) (answered L)"
proof -
  obtain res L1 where g: "get_path ino L = Some (res, L1)" "env L L1"
    "case res of Inl err \<Rightarrow> good [] L1 | Inr path \<Rightarrow> good (holds ino path) L1"
    using get_path_runs [OF assms] by (fastforce simp: runs_def split: sum.splits)
  show ?thesis
  proof (cases res)
    case (Inl err)
    then show ?thesis using g by (simp add: fuse_lib_lseek_def answered_send)
  next
    case (Inr path)
    let ?r = "fuse_fs_lseek (fsys L1) path off whence fi (fss L1)"
    have "runs (free_path ino path (L1\<lparr>fss := snd ?r\<rparr>)) (\<lambda>L. good [] L \<and> env L1 L)"
      using free_path_runs [of ino path "[]" "L1\<lparr>fss := snd ?r\<rparr>"] g(3) Inr by (auto elim!: runs_mono)
    then show ?thesis
      using g(1,2) Inr by (auto simp: fuse_lib_lseek_def elim!: runs_mono intro!: answered_send env_trans [OF g(2)])
  qed
qed


section \<open>Locks of byte ranges\<close>

definition locks_fine :: "'s lib \<Rightarrow> bool" where
  "locks_fine L \<longleftrightarrow> (\<forall>r. locks_ok (node_locks L r))"

lemma env_locks: "env L L' \<Longrightarrow> locks_fine L \<Longrightarrow> locks_fine L'"
  by (simp add: env_def locks_fine_def)

lemma env_fsys: "env L L' \<Longrightarrow> fsys L' = fsys L" "env L L' \<Longrightarrow> conf L' = conf L"
  by (simp_all add: env_def)

lemma lock_range_owner [simp]: "lock_range (l\<lparr>lowner := w\<rparr>) = lock_range l"
  by (simp add: lock_range_def)

lemma locks_insert_total:
  assumes "locks_ok ls" "lock_range lk"
  shows "\<exists>err ls'. locks_insert m ls lk = Some (err, ls') \<and> locks_ok ls'"
proof -
  define alloc where "alloc = (ltype lk \<noteq> F_UNLCK \<or> lstart lk \<noteq> 0 \<or> lend lk \<noteq> OFFSET_MAX)"
  obtain ls' where "locks_insert (True, True) ls lk = Some (0, ls')" "locks_ok ls'"
    using locks_insert_refines [OF assms] by blast
  then have "locks_insert_loop ls lk alloc = Some ls'" by (simp add: locks_insert_def alloc_def Let_def)
  moreover have "locks_insert m ls lk = (if alloc \<and> (\<not> fst m \<or> \<not> snd m) then Some (- ENOLCK, ls)
      else map_option (Pair 0) (locks_insert_loop ls lk alloc))" by (simp add: locks_insert_def alloc_def)
  ultimately show ?thesis using \<open>locks_ok ls'\<close> assms(1) by simp
qed

lemma set_lock_runs:
  assumes "good hs L" "get_fuse_node (core L) ino \<noteq> None" "flock_ok lk" "locks_fine L"
  shows "runs (set_lock ino fi lk L) (\<lambda>L'. good hs L' \<and> env L L' \<and> relocked (core L) (core L'))"
proof -
  obtain r l where r: "get_fuse_node (core L) ino = Some r" "flock_to_lock lk = Some l" "lock_range l"
    using assms(2,3) by (auto simp: flock_ok_def)
  define f where "f = (core L)\<lparr>malloc_no := Suc (Suc (malloc_no (core L)))\<rparr>"
  obtain m1 m2 where m: "next_malloc (core L) = (m1, (core L)\<lparr>malloc_no := Suc (malloc_no (core L))\<rparr>)"
    "next_malloc ((core L)\<lparr>malloc_no := Suc (malloc_no (core L))\<rparr>) = (m2, f)"
    by (simp add: next_malloc_eq f_def)
  have "locks_ok (node_locks L r)" using assms(4) by (simp add: locks_fine_def)
  then obtain err ls where i: "locks_insert (m1, m2) (node_locks L r) (l\<lparr>lowner := lock_owner fi\<rparr>) = Some (err, ls)" "locks_ok ls"
    using locks_insert_total [of "node_locks L r" "l\<lparr>lowner := lock_owner fi\<rparr>" "(m1, m2)"] r(3) by auto
  have "set_lock ino fi lk L = Some (L\<lparr>core := f, node_locks := (node_locks L)(r := ls)\<rparr>)"
    using r m i(1) by (simp add: Fuse_Lib.set_lock_def)
  moreover have "good hs (L\<lparr>core := f, node_locks := (node_locks L)(r := ls)\<rparr>)" using assms(1) by (simp add: good_steady f_def)
  moreover have "env L (L\<lparr>core := f, node_locks := (node_locks L)(r := ls)\<rparr>)" using i(2) by (simp add: env_def)
  ultimately show ?thesis using relocked_id by (simp add: f_def)
qed

lemma flock_ok_unlock_all: "flock_ok unlock_all"
  by (simp add: flock_ok_def unlock_all_def flock_to_lock_def lock_range_def)

lemma fs_lock_ok:
  assumes "fs_answers fs" "flock_ok lk"
  shows "flock_ok (case out_lock (fst (fuse_fs_lock fs path fi cmd lk s)) of None \<Rightarrow> lk | Some lk' \<Rightarrow> lk')"
  using assms unfolding fs_answers_def by (auto split: option.splits)

lemma flush_common_runs:
  assumes "good hs L" "get_fuse_node (core L) ino \<noteq> None" "fs_answers (fsys L)" "locks_fine L"
  shows "runs (fuse_flush_common ino path fi L) (\<lambda>(err, L'). good hs L' \<and> env L L' \<and> relocked (core L) (core L'))"
proof -
  define r where "r = fuse_fs_flush (fsys L) path fi (fss L)"
  define rl where "rl = fuse_fs_lock (fsys L) path fi F_SETLK unlock_all (snd r)"
  let ?lk = "case out_lock (fst rl) of None \<Rightarrow> unlock_all | Some lk \<Rightarrow> lk"
  let ?L = "L\<lparr>fss := snd rl\<rparr>"
  have st: "fuse_flush_common ino path fi L = (if ret (fst rl) \<noteq> - ENOSYS then do {
      L \<leftarrow> set_lock ino fi ?lk ?L; Some (if ret (fst r) = - ENOSYS then 0 else ret (fst r), L) } else Some (ret (fst r), ?L))"
    by (simp add: fuse_flush_common_def r_def rl_def)
  have ok: "flock_ok ?lk" using fs_lock_ok [OF assms(3) flock_ok_unlock_all] by (simp add: rl_def)
  have "runs (set_lock ino fi ?lk ?L) (\<lambda>L'. good hs L' \<and> env ?L L' \<and> relocked (core ?L) (core L'))"
    using assms ok by (intro set_lock_runs) (simp_all add: locks_fine_def)
  then show ?thesis unfolding st using assms(1) relocked_refl [of "core L"] by (auto elim!: runs_mono)
qed

lemma lock_common_runs:
  assumes "good [] L" "reachable_node (core L) ino" "fs_answers (fsys L)" "flock_ok lk"
  shows "runs (fuse_lock_common ino fi lk cmd L) (\<lambda>(err, lk', L'). good [] L' \<and> env L L' \<and> relocked (core L) (core L') \<and> flock_ok lk')"
proof -
  obtain r L' where a: "at_path True ino (\<lambda>path fs. fuse_fs_lock fs path fi cmd lk) L = Some (r, L')" "good [] L'" "env L L'" "relocked (core L) (core L')"
    using at_path_runs [OF assms(1,2), of True "\<lambda>path fs. fuse_fs_lock fs path fi cmd lk"] by (auto simp: runs_def)
  have "flock_ok (case out_lock r of None \<Rightarrow> lk | Some lk' \<Rightarrow> lk')"
    using at_path_result [OF assms(1,2) a(1)] fs_lock_ok [OF assms(3,4)] assms(4) by (auto simp: comes_from_def no_op_def)
  then show ?thesis using a by (simp add: fuse_lock_common_def)
qed

lemma get_kept: "tree_ok f \<Longrightarrow> relocked f f' \<Longrightarrow> get_fuse_node f' ino = get_fuse_node f ino"
  using relockedD(2) [OF tree_okD(3)] by blast

lemma setlk_answered:
  assumes "good [] L" "reachable_node (core L) ino" "fs_answers (fsys L)" "flock_ok lk" "locks_fine L"
  shows "runs (fuse_lib_setlk ino fi lk sleep L) (answered L)"
proof -
  obtain err lk' L' where c: "fuse_lock_common ino fi lk (if sleep then F_SETLKW else F_SETLK) L = Some (err, lk', L')"
    "good [] L'" "env L L'" "relocked (core L) (core L')" "flock_ok lk'"
    using lock_common_runs [OF assms(1-4), of fi "if sleep then F_SETLKW else F_SETLK"] by (auto simp: runs_def)
  have "get_fuse_node (core L') ino \<noteq> None"
    using get_kept [OF goodD(1) [OF assms(1)] c(4)] known_get [OF goodD(1) [OF assms(1)], of ino] assms(2) by (auto simp: reachable_node_def)
  then have "runs (set_lock ino fi lk' L') (\<lambda>L2. good [] L2 \<and> env L L2)"
    using set_lock_runs [OF c(2) _ c(5) env_locks [OF c(3) assms(5)], of ino fi] env_trans [OF c(3)] by (auto elim!: runs_mono)
  then show ?thesis using c(1-3) by (auto simp: fuse_lib_setlk_def elim!: runs_mono intro!: answered_send)
qed

lemma getlk_answered:
  assumes "good [] L" "reachable_node (core L) ino" "fs_answers (fsys L)" "flock_ok lk" "locks_fine L"
  shows "runs (fuse_lib_getlk ino fi lk L) (answered L)"
proof -
  obtain r where r: "get_fuse_node (core L) ino = Some r"
    using known_get [OF goodD(1) [OF assms(1)], of ino] assms(2) by (auto simp: reachable_node_def)
  obtain l where l: "flock_to_lock lk = Some l" using assms(4) by (auto simp: flock_ok_def)
  show ?thesis
  proof (cases "locks_conflict (node_locks L r) (l\<lparr>lowner := lock_owner fi\<rparr>)")
    case None
    have "runs (fuse_lock_common ino fi lk F_GETLK L) (\<lambda>(err, lk', L'). good [] L' \<and> env L L')"
      using lock_common_runs [OF assms(1-4), of fi F_GETLK] by (auto elim!: runs_mono)
    then show ?thesis using r l None by (auto simp: fuse_lib_getlk_def elim!: runs_mono intro!: answered_send)
  next
    case (Some c)
    then have "c \<in> set (node_locks L r)" using locks_conflict_SomeD by blast
    then have "lock_range c" using assms(5) by (auto simp: locks_fine_def locks_ok_def)
    then obtain fl where "lock_to_flock c lk = Some fl"
      by (cases "lend c = OFFSET_MAX") (auto simp: lock_to_flock_def off_t_def lock_range_def)
    then show ?thesis using r l Some assms(1) by (auto simp: fuse_lib_getlk_def intro!: answered_now)
  qed
qed


section \<open>Nodes that stay where they are\<close>

definition unmoved :: "fuse \<Rightarrow> fuse \<Rightarrow> bool" where
  "unmoved f f' \<longleftrightarrow> live f' = live f \<and> lru_table f' = lru_table f \<and> remember f' = remember f \<and> mallocs f' = mallocs f \<and>
     (\<forall>q \<in> live f. n_name (nd f' q) = n_name (nd f q) \<and> n_parent (nd f' q) = n_parent (nd f q) \<and>
        n_nodeid (nd f' q) = n_nodeid (nd f q) \<and> nlookup (nd f' q) = nlookup (nd f q))"

lemma unmoved_trans: "unmoved f g \<Longrightarrow> unmoved g h \<Longrightarrow> unmoved f h"
  by (simp add: unmoved_def)

lemma unmoved_refl [simp]: "unmoved f f"
  by (simp add: unmoved_def)

lemma unmoved_relocked: "tree_ok f \<Longrightarrow> relocked f f' \<Longrightarrow> unmoved f f'"
  using relockedD(5-12) [OF tree_okD(3)] by (simp add: unmoved_def)

lemma unmoved_upd:
  assumes "r \<in> live f" "\<And>n. n_parent (g n) = n_parent n" "\<And>n. n_name (g n) = n_name n"
    "\<And>n. n_nodeid (g n) = n_nodeid n" "\<And>n. nlookup (g n) = nlookup n"
  shows "unmoved f (upd r g f)"
  using assms by (simp add: unmoved_def)

lemma unmoved_chain:
  assumes "unmoved f f'" "chain f r qs e"
  shows "chain f' r qs e"
  by (rule chain_kept [OF assms(2)]) (use chain_live [OF assms(2)] assms(1) in \<open>unfold unmoved_def, blast\<close>)

lemma unmoved_get: "tree_ok f \<Longrightarrow> tree_ok f' \<Longrightarrow> unmoved f f' \<Longrightarrow> get_fuse_node f' ino = get_fuse_node f ino"
proof -
  assume a: "tree_ok f" "tree_ok f'" "unmoved f f'"
  have "get_fuse_node f' ino = Some r \<longleftrightarrow> get_fuse_node f ino = Some r" for r
    using get_node_iff [OF tree_okD(4) [OF a(1)]] get_node_iff [OF tree_okD(4) [OF a(2)]] a(3) by (auto simp: unmoved_def)
  then show ?thesis by (metis option.exhaust)
qed

lemma unmoved_path:
  assumes "tree_ok f" "tree_ok f'" "unmoved f f'" "path_fits f ino name"
  shows "path_fits f' ino name"
  unfolding path_fits_def
proof (intro allI impI)
  fix r qs e assume h: "get_fuse_node f' ino = Some r" "chain f' r qs e"
  have g: "get_fuse_node f ino = Some r" using unmoved_get [OF assms(1-3)] h(1) by simp
  then have "r \<in> live f" using get_node_iff [OF tree_okD(4) [OF assms(1)]] by blast
  then obtain qs0 e0 where c: "chain f r qs0 e0" using chain_exists [OF tree_okD(3) [OF assms(1)]] by blast
  have q: "qs = qs0" using chain_unique [OF h(2) unmoved_chain [OF assms(3) c]] by simp
  have "\<forall>q \<in> set qs0. n_name (nd f' q) = n_name (nd f q)" using chain_live [OF c] assms(3) unfolding unmoved_def by blast
  then have "map (\<lambda>q. SLASH # the (n_name (nd f' q))) (rev qs0) = map (\<lambda>q. SLASH # the (n_name (nd f q))) (rev qs0)"
    by (intro map_cong [OF refl]) simp
  then have "path_string f' qs0 = path_string f qs0" unfolding path_string_def by (rule arg_cong)
  moreover have "length (path_string f qs0) + length (name_part name) + 2 \<le> 0xFFFFFFFF"
    using assms(4) g c unfolding path_fits_def by blast
  ultimately show "length (path_string f' qs) + length (name_part name) + 2 \<le> 0xFFFFFFFF" by (simp add: q)
qed

lemma unmoved_known: "unmoved f f' \<Longrightarrow> tree_ok f \<Longrightarrow> known f ino \<Longrightarrow> known f' ino"
proof -
  assume a: "unmoved f f'" "tree_ok f" "known f ino"
  have "parent_rel f' = parent_rel f" using a(1) by (auto simp: parent_rel_def unmoved_def)
  then have ab: "above f' r = above f r" for r by (simp add: above_def)
  obtain r where r: "r \<in> live f" "n_nodeid (nd f r) = ino" "\<forall>q \<in> above f r. nlookup (nd f q) \<noteq> 0"
    using a(3) by (auto simp: known_def)
  have "above f r \<subseteq> live f" using above_live [OF tree_okD(1) [OF a(2)] r(1)] by simp
  then show ?thesis using r a(1) ab unfolding known_def by (intro bexI [of _ r]) (auto simp: unmoved_def)
qed

lemma unmoved_reachable: "unmoved f f' \<Longrightarrow> tree_ok f \<Longrightarrow> tree_ok f' \<Longrightarrow> reachable_node f ino \<Longrightarrow> reachable_node f' ino"
  using unmoved_known unmoved_path by (simp add: reachable_node_def)

lemma unmoved_fresh: "unmoved f f' \<Longrightarrow> fresh f r \<Longrightarrow> fresh f' r"
  by (simp add: unmoved_def fresh_def)

lemma unmoved_covers:
  assumes "tree_ok f" "tree_ok f'" "unmoved f f'"
  shows "covers f' h q = covers f h q"
proof -
  have "covers f' h q" if "covers f h q" using that unmoved_get [OF assms] unmoved_chain [OF assms(3)] by (fastforce simp: covers_def)
  moreover have "covers f h q" if c': "covers f' h q"
  proof -
    obtain r qs e where c: "get_fuse_node f' (fst h) = Some r" "chain f' r qs e" "q \<in> set qs" using c' by (auto simp: covers_def)
    have g: "get_fuse_node f (fst h) = Some r" using unmoved_get [OF assms] c(1) by simp
    then have "r \<in> live f" using get_node_iff [OF tree_okD(4) [OF assms(1)]] by blast
    then obtain qs0 e0 where c0: "chain f r qs0 e0" using chain_exists [OF tree_okD(3) [OF assms(1)]] by blast
    have "qs = qs0" using chain_unique [OF c(2) unmoved_chain [OF assms(3) c0]] by simp
    then show ?thesis using g c0 c(3) by (auto simp: covers_def)
  qed
  ultimately show ?thesis by blast
qed

text \<open>A node that the kernel is told of can be forgotten without waiting.\<close>

definition forgettable :: "(u64 \<times> nat option) list \<Rightarrow> fuse \<Rightarrow> u64 \<Rightarrow> bool" where
  "forgettable hs f ino \<longleftrightarrow> (\<exists>r. fresh f r \<and> n_nodeid (nd f r) = ino \<and> apart_from hs f r)"

lemma unmoved_forgettable:
  assumes "unmoved f f'" "tree_ok f" "tree_ok f'" "forgettable hs f ino" "set hs' \<subseteq> set hs"
  shows "forgettable hs' f' ino"
proof -
  obtain r where r: "fresh f r" "n_nodeid (nd f r) = ino" "apart_from hs f r" using assms(4) by (auto simp: forgettable_def)
  have "apart_from hs' f' r" using r(3) assms(5) unmoved_covers [OF assms(2,3,1)] by (auto simp: apart_from_def)
  moreover have "n_nodeid (nd f' r) = ino" using r(1,2) assms(1) by (simp add: unmoved_def fresh_def)
  ultimately show ?thesis using unmoved_fresh [OF assms(1) r(1)] by (auto simp: forgettable_def)
qed

lemma forget_runs:
  assumes "good hs L" "forgettable hs (core L) ino"
  shows "runs (forget ino 1 L) (\<lambda>L'. good hs L' \<and> env L L')"
proof -
  obtain f' where "forget_node (core L) ino 1 = Some (True, f')" "steady hs f'"
    using forget_held [of hs "core L" ino] assms by (auto simp: good_steady forgettable_def)
  then show ?thesis by (simp add: forget_def on_core_def good_steady)
qed

end
