(* ===== verification/Fuse_Lib_Served.thy ===== *)
theory Fuse_Lib_Served
  imports Fuse_Lib_Answers
begin

text \<open>
  The requests that change nodes: opening and releasing files, entering, removing and renaming names.
\<close>

section \<open>Open files\<close>

lemma good_upd:
  assumes "good hs L" "get_fuse_node (core L) ino = Some r" "\<And>n. n_parent (g n) = n_parent n" "\<And>n. n_name (g n) = n_name n"
    "\<And>n. n_nodeid (g n) = n_nodeid n" "\<And>n. refctr (g n) = refctr n" "\<And>n. treelock (g n) = treelock n" "\<And>n. nlookup (g n) = nlookup n"
    "0 \<le> open_count (g (nd (core L) r))"
  shows "good hs (L\<lparr>core := upd r g (core L)\<rparr>)" "unmoved (core L) (upd r g (core L))" "r \<in> live (core L)"
proof -
  show r: "r \<in> live (core L)" using get_node_iff [OF tree_okD(4) [OF goodD(1) [OF assms(1)]]] assms(2) by blast
  show "good hs (L\<lparr>core := upd r g (core L)\<rparr>)"
    using steady_upd [OF _ r assms(3-9), of hs] assms(1) by (simp add: good_steady)
  show "unmoved (core L) (upd r g (core L))" by (rule unmoved_upd [OF r assms(3,4,5,8)])
qed

lemma add_open_runs:
  assumes "good hs L" "get_fuse_node (core L) ino = Some r"
  shows "runs (add_open ino L) (\<lambda>L'. good hs L' \<and> env L L' \<and> unmoved (core L) (core L') \<and> open_count (nd (core L') r) > 0 \<and>
    L' = L\<lparr>core := core L'\<rparr>)"
proof -
  let ?g = "\<lambda>n. n\<lparr>open_count := open_count n + 1\<rparr>"
  have c: "0 \<le> open_count (nd (core L) r)"
    using goodD(5) [OF assms(1)] get_node_iff [OF tree_okD(4) [OF goodD(1) [OF assms(1)]], of ino r] assms(2) by (simp add: opens_ok_def)
  have "good hs (L\<lparr>core := upd r ?g (core L)\<rparr>)" "unmoved (core L) (upd r ?g (core L))"
    using good_upd [OF assms(1,2), of ?g] c by simp_all
  then show ?thesis using assms(2) c by (simp add: add_open_def)
qed

lemma drop_open_runs:
  assumes "good hs L" "get_fuse_node (core L) ino = Some r" "open_count (nd (core L) r) > 0"
  shows "runs (drop_open ino L) (\<lambda>(b, L'). good hs L' \<and> env L L' \<and> unmoved (core L) (core L') \<and> L' = L\<lparr>core := core L'\<rparr> \<and>
    nd (core L') r = (nd (core L) r)\<lparr>open_count := open_count (nd (core L) r) - 1, is_hidden := is_hidden (nd (core L) r) \<and> \<not> b\<rparr> \<and>
    (b \<longleftrightarrow> is_hidden (nd (core L) r) \<and> open_count (nd (core L) r) = 1))"
proof -
  define b where "b = (is_hidden (nd (core L) r) \<and> open_count (nd (core L) r) = 1)"
  let ?g = "\<lambda>n. n\<lparr>open_count := open_count n - 1\<rparr>"
  let ?h = "\<lambda>n. n\<lparr>is_hidden := False\<rparr>"
  let ?L = "L\<lparr>core := upd r ?g (core L)\<rparr>"
  have g: "good hs ?L" "unmoved (core L) (upd r ?g (core L))" "r \<in> live (core L)"
    using good_upd [OF assms(1,2), of ?g] assms(3) by simp_all
  have rl: "get_fuse_node (core ?L) ino = Some r"
    using unmoved_get [OF goodD(1) [OF assms(1)] goodD(1) [OF g(1)]] g(2) assms(2) by simp
  have h: "good hs (?L\<lparr>core := upd r ?h (core ?L)\<rparr>)" "unmoved (core ?L) (upd r ?h (core ?L))"
    using good_upd [OF g(1) rl, of ?h] assms(3) by simp_all
  have st: "drop_open ino L = Some (b, if b then ?L\<lparr>core := upd r ?h (core ?L)\<rparr> else ?L)"
    using assms(2,3) by (auto simp: drop_open_def b_def Let_def)
  show ?thesis unfolding st
  proof (cases b)
    case True
    then show "runs (Some (b, if b then ?L\<lparr>core := upd r ?h (core ?L)\<rparr> else ?L)) (\<lambda>(b, L'). good hs L' \<and> env L L' \<and> unmoved (core L) (core L') \<and> L' = L\<lparr>core := core L'\<rparr> \<and>
      nd (core L') r = (nd (core L) r)\<lparr>open_count := open_count (nd (core L) r) - 1, is_hidden := is_hidden (nd (core L) r) \<and> \<not> b\<rparr> \<and>
      (b \<longleftrightarrow> is_hidden (nd (core L) r) \<and> open_count (nd (core L) r) = 1))"
      using h unmoved_trans [OF g(2), of "upd r ?h (upd r ?g (core L))"] b_def by simp
  next
    case False
    then show "runs (Some (b, if b then ?L\<lparr>core := upd r ?h (core ?L)\<rparr> else ?L)) (\<lambda>(b, L'). good hs L' \<and> env L L' \<and> unmoved (core L) (core L') \<and> L' = L\<lparr>core := core L'\<rparr> \<and>
      nd (core L') r = (nd (core L) r)\<lparr>open_count := open_count (nd (core L) r) - 1, is_hidden := is_hidden (nd (core L) r) \<and> \<not> b\<rparr> \<and>
      (b \<longleftrightarrow> is_hidden (nd (core L) r) \<and> open_count (nd (core L) r) = 1))"
      using g b_def by auto
  qed
qed

lemma release_runs:
  assumes "good hs L" "get_fuse_node (core L) ino = Some r" "open_count (nd (core L) r) > 0"
    and "path = None \<longrightarrow> hs = [] \<and> reachable_node (core L) ino"
  shows "runs (fuse_do_release ino path fi L) (\<lambda>L'. good hs L' \<and> env L L' \<and> unmoved (core L) (core L'))"
proof -
  let ?L = "L\<lparr>fss := snd (fuse_fs_release (fsys L) path fi (fss L))\<rparr>"
  obtain b L1 where d: "drop_open ino ?L = Some (b, L1)" "good hs L1" "env L L1" "unmoved (core L) (core L1)"
    using drop_open_runs [of hs ?L ino r] assms(1-3) by (auto simp: runs_def)
  have st: "fuse_do_release ino path fi L = (if \<not> b then Some L1
     else if path \<noteq> None then Some (snd (call (\<lambda>fs. fuse_fs_unlink fs path) L1))
     else if nullpath_ok (conf L1) then do {
       (res, L) \<leftarrow> get_path ino L1;
       case res of
         Inl err \<Rightarrow> Some L
       | Inr unlinkpath \<Rightarrow>
           let (_, L) = call (\<lambda>fs. fuse_fs_unlink fs unlinkpath) L
           in free_path ino unlinkpath L
     } else Some L1)"
    using d(1) by (simp add: fuse_do_release_def)
  show ?thesis
  proof (cases "b \<and> path = None \<and> nullpath_ok (conf L1)")
    case False
    then show ?thesis unfolding st using d by auto
  next
    case True
    then have hs: "hs = []" "reachable_node (core L) ino" using assms(4) by simp_all
    have g1: "good [] L1" using d(2) hs(1) by simp
    have "reachable_node (core L1) ino" using unmoved_reachable [OF d(4) goodD(1) [OF assms(1)] goodD(1) [OF g1] hs(2)] .
    then obtain res L2 where p: "get_path ino L1 = Some (res, L2)" "env L1 L2" "relocked (core L1) (core L2)"
      "case res of Inl err \<Rightarrow> good [] L2 | Inr path \<Rightarrow> good (holds ino path) L2"
      using get_path_runs [OF g1] by (fastforce simp: runs_def split: sum.splits)
    have k2: "unmoved (core L) (core L2)" using unmoved_trans [OF d(4) unmoved_relocked [OF goodD(1) [OF g1] p(3)]] .
    have e2: "env L L2" using env_trans [OF d(3) p(2)] .
    show ?thesis
    proof (cases res)
      case (Inl err)
      then show ?thesis unfolding st using True p k2 e2 hs(1) by simp
    next
      case (Inr up)
      let ?L3 = "L2\<lparr>fss := snd (fuse_fs_unlink (fsys L2) up (fss L2))\<rparr>"
      have g3: "good (holds ino up @ []) ?L3" using p(4) Inr by simp
      have "runs (free_path ino up ?L3) (\<lambda>L'. good hs L' \<and> env L L' \<and> unmoved (core L) (core L'))"
      proof (rule runs_mono [OF free_path_runs [OF g3]], elim conjE)
        fix L' assume h: "good [] L'" "env ?L3 L'" "relocked (core ?L3) (core L')"
        have "tree_ok (core L2)" using goodD(1) [OF g3] by simp
        then show "good hs L' \<and> env L L' \<and> unmoved (core L) (core L')"
          using h hs(1) env_trans [OF e2] unmoved_trans [OF k2 unmoved_relocked] by simp
      qed
      then show ?thesis unfolding st using True p(1) Inr by simp
    qed
  qed
qed

lemma open_auto_cache_runs:
  assumes "good hs L" "get_fuse_node (core L) ino \<noteq> None"
  shows "runs (open_auto_cache ino path fi L) (\<lambda>(fi', L'). good hs L' \<and> env L L' \<and> core L' = core L)"
  using assms by (auto simp: open_auto_cache_def curr_time_def update_stat_def Let_def)


lemma replied_good_free:
  assumes "good (holds ino path @ hs) L1" "replied L L1"
  shows "runs (free_path ino path L1) (\<lambda>L'. good hs L' \<and> replied L L')"
  using free_path_runs [OF assms(1)] replied_env(2) [OF assms(2)] by (auto elim!: runs_mono)

lemma answered_free:
  assumes "good (holds ino path) L1" "replied L L1"
  shows "runs (free_path ino path L1) (answered L)"
proof -
  have "good (holds ino path @ []) L1" using assms(1) by simp
  then show ?thesis by (rule runs_mono [OF replied_good_free [OF _ assms(2)]]) (simp add: answered_def)
qed

lemma open_answered:
  assumes "good [] L" "reachable_node (core L) ino"
  shows "runs (fuse_lib_open ino fi L) (answered L)"
proof -
  obtain res L1 where p: "get_path ino L = Some (res, L1)" "env L L1" "relocked (core L) (core L1)"
    "case res of Inl err \<Rightarrow> good [] L1 | Inr path \<Rightarrow> path \<noteq> None \<and> good (holds ino path) L1"
    using get_path_runs [OF assms] by (fastforce simp: runs_def split: sum.splits)
  show ?thesis
  proof (cases res)
    case (Inl err)
    then show ?thesis using p by (simp add: fuse_lib_open_def answered_send)
  next
    case (Inr path)
    let ?hs = "holds ino path"
    define r where "r = fuse_fs_open (fsys L1) path fi (fss L1)"
    let ?L2 = "L1\<lparr>fss := snd r\<rparr>"
    define body where "body = (do {
             let fi = fi_of fi (fst r);
             let fi = fi\<lparr>direct_io := direct_io fi \<or> conf_direct_io (conf ?L2), keep_cache := keep_cache fi \<or> kernel_cache (conf ?L2)\<rparr>;
             (fi, L) \<leftarrow> (if auto_cache (conf ?L2) then open_auto_cache ino path fi ?L2 else Some (fi, ?L2));
             let fi = (if no_rofd_flush (conf L) \<and> fi_flags fi AND O_ACCESS = 0 then fi\<lparr>noflush := True\<rparr> else fi);
             L \<leftarrow> add_open ino L;
             let (err, L) = send (Reply_open fi) L;
             if err = - ENOENT then fuse_do_release ino path fi L else Some L
           })"
    have st: "fuse_lib_open ino fi L = do { L \<leftarrow> (if ret (fst r) \<noteq> 0 then reply_err (ret (fst r)) ?L2 else body); free_path ino path L }"
      using p(1) Inr by (simp add: fuse_lib_open_def r_def body_def Let_def)
    have hs: "path \<noteq> None" "good ?hs ?L2" "env L ?L2" using p(2,4) Inr by simp_all
    have t: "tree_ok (core L1)" using goodD(1) [OF hs(2)] by simp
    have "known (core L1) ino" using known_relocked [OF goodD(1) [OF assms(1)] p(3)] assms(2) by (simp add: reachable_node_def)
    then obtain n where n: "get_fuse_node (core L1) ino = Some n" using known_get [OF t] by blast
    have "runs body (\<lambda>L'. good ?hs L' \<and> replied L L')"
    proof -
      let ?fi = "(fi_of fi (fst r))\<lparr>direct_io := direct_io (fi_of fi (fst r)) \<or> conf_direct_io (conf ?L2), keep_cache := keep_cache (fi_of fi (fst r)) \<or> kernel_cache (conf ?L2)\<rparr>"
      obtain fi' L3 where c: "(if auto_cache (conf ?L2) then open_auto_cache ino path ?fi ?L2 else Some (?fi, ?L2)) = Some (fi', L3)"
        "good ?hs L3" "env ?L2 L3" "core L3 = core L1"
        using open_auto_cache_runs [OF hs(2), of ino path ?fi] n hs(2) by (cases "auto_cache (conf ?L2)") (auto simp: runs_def)
      obtain L4 where a: "add_open ino L3 = Some L4" "good ?hs L4" "env L3 L4" "unmoved (core L3) (core L4)" "open_count (nd (core L4) n) > 0"
        using add_open_runs [OF c(2), of ino n] n c(4) by (auto simp: runs_def)
      define fi2 where "fi2 = (if no_rofd_flush (conf L3) \<and> fi_flags fi' AND O_ACCESS = 0 then fi'\<lparr>noflush := True\<rparr> else fi')"
      let ?L5 = "L4\<lparr>replies := replies L4 @ [Reply_open fi2]\<rparr>"
      have st: "body = (if sent L4 (length (replies L4)) = - ENOENT then fuse_do_release ino path fi2 ?L5 else Some ?L5)"
        using c(1) a(1) unfolding body_def Let_def by (simp add: fi2_def)
      have e: "env L L4" using env_trans [OF hs(3) env_trans [OF c(3) a(3)]] .
      then have rp: "replied L ?L5" by (rule replied_now) simp
      have n4: "get_fuse_node (core ?L5) ino = Some n"
        using unmoved_get [OF goodD(1) [OF c(2)] goodD(1) [OF a(2)] a(4), of ino] n c(4) by simp
      have "runs (fuse_do_release ino path fi2 ?L5) (\<lambda>L'. good ?hs L' \<and> replied L L')"
        using release_runs [of ?hs ?L5 ino n path fi2] a(2,5) n4 hs(1) replied_env(2) [OF rp] by (auto elim!: runs_mono)
      then show ?thesis unfolding st using a(2) rp by simp
    qed
    moreover have "good ?hs (?L2\<lparr>replies := replies ?L2 @ [x]\<rparr>)" "replied L (?L2\<lparr>replies := replies ?L2 @ [x]\<rparr>)" for x
      using hs(2) replied_now [OF hs(3) refl] by simp_all
    ultimately have "runs (if ret (fst r) \<noteq> 0 then reply_err (ret (fst r)) ?L2 else body) (\<lambda>L'. good ?hs L' \<and> replied L L')"
      by simp
    then show ?thesis unfolding st runs_bind by (rule runs_mono) (simp add: answered_free)
  qed
qed

lemma some_path_runs:
  assumes "good [] L" "reachable_node (core L) ino"
  shows "runs (some_path ino L) (\<lambda>(path, L'). good (holds ino path) L' \<and> env L L' \<and> relocked (core L) (core L'))"
proof -
  have k: "known (core L) ino" "path_fits (core L) ino None" using assms(2) by (simp_all add: reachable_node_def)
  obtain res L1 where g: "get_path_nullok ino L = Some (res, L1)" "env L L1" "relocked (core L) (core L1)"
    "case res of Inl err \<Rightarrow> good [] L1 | Inr path \<Rightarrow> good (holds ino path) L1"
    using get_path_nullok_runs [OF assms(1) _ k free_way_good [OF assms(1)]] by (fastforce simp: runs_def split: sum.splits)
  then show ?thesis by (cases res) (simp_all add: some_path_def holds_def)
qed

lemma holds_None [simp]: "holds ino None = []"
  by (simp add: holds_def)

lemma flush_answered:
  assumes "good [] L" "reachable_node (core L) ino" "fs_answers (fsys L)" "locks_fine L"
  shows "runs (fuse_lib_flush ino fi L) (answered L)"
proof -
  obtain path L1 where p: "some_path ino L = Some (path, L1)" "good (holds ino path) L1" "env L L1" "relocked (core L) (core L1)"
    using some_path_runs [OF assms(1,2)] by (auto simp: runs_def)
  have n: "get_fuse_node (core L1) ino \<noteq> None"
    using get_kept [OF goodD(1) [OF assms(1)] p(4)] known_get [OF goodD(1) [OF assms(1)], of ino] assms(2) by (auto simp: reachable_node_def)
  obtain err L2 where c: "fuse_flush_common ino path fi L1 = Some (err, L2)" "good (holds ino path) L2" "env L L2"
    using flush_common_runs [OF p(2) n, of path fi] assms(3) env_locks [OF p(3) assms(4)] env_fsys(1) [OF p(3)] env_trans [OF p(3)] by (auto simp: runs_def)
  have "runs (free_path ino path L2) (\<lambda>L'. good [] L' \<and> env L L')"
    using free_path_runs [of ino path "[]" L2] c(2) env_trans [OF c(3)] by (auto elim!: runs_mono)
  then show ?thesis using p(1) c(1) by (auto simp: fuse_lib_flush_def elim!: runs_mono intro!: answered_send)
qed

lemma release_answered:
  assumes "good [] L" "reachable_node (core L) ino" "fs_answers (fsys L)" "locks_fine L"
    and "get_fuse_node (core L) ino = Some r" "open_count (nd (core L) r) > 0"
  shows "runs (fuse_lib_release ino fi L) (answered L)"
proof -
  note t = goodD(1) [OF assms(1)]
  obtain path L1 where p: "some_path ino L = Some (path, L1)" "good (holds ino path) L1" "env L L1" "relocked (core L) (core L1)"
    using some_path_runs [OF assms(1,2)] by (auto simp: runs_def)
  have n: "get_fuse_node (core L1) ino = Some r" using get_kept [OF t p(4)] assms(5) by simp
  define m where "m = (if fi_flush fi then fuse_flush_common ino path fi L1 else Some (0, L1))"
  have "runs m (\<lambda>(err, L2). good (holds ino path) L2 \<and> env L L2 \<and> relocked (core L1) (core L2))"
  proof (cases "fi_flush fi")
    case True
    then show ?thesis unfolding m_def
      using flush_common_runs [OF p(2), of ino path fi] n assms(3) env_locks [OF p(3) assms(4)] env_fsys(1) [OF p(3)] env_trans [OF p(3)]
      by (auto elim!: runs_mono)
  next
    case False
    then show ?thesis using p(2,3) relocked_refl by (simp add: m_def)
  qed
  then obtain err L2 where c: "m = Some (err, L2)" "good (holds ino path) L2" "env L L2" "relocked (core L1) (core L2)"
    by (auto simp: runs_def)
  have rel: "relocked (core L) (core L2)" using relocked_trans [OF p(4) c(4)] .
  note k = unmoved_relocked [OF t rel]
  have "r \<in> live (core L)" using get_node_iff [OF tree_okD(4) [OF t]] assms(5) by blast
  then have o: "get_fuse_node (core L2) ino = Some r" "open_count (nd (core L2) r) > 0" "reachable_node (core L2) ino"
    using get_kept [OF t rel] assms(5,6) relockedD(13) [OF tree_okD(3) [OF t] rel] unmoved_reachable [OF k t goodD(1) [OF c(2)] assms(2)] by simp_all
  obtain L3 where d: "fuse_do_release ino path fi L2 = Some L3" "good (holds ino path) L3" "env L L3"
    using release_runs [OF c(2) o(1,2), of path fi] o(3) env_trans [OF c(3)] by (auto simp: runs_def)
  have "runs (free_path ino path L3) (\<lambda>L'. good [] L' \<and> env L L')"
    using free_path_runs [of ino path "[]" L3] d(2) env_trans [OF d(3)] by (auto elim!: runs_mono)
  then show ?thesis using p(1) c(1) d(1)
    by (auto simp: fuse_lib_release_def m_def [symmetric] elim!: runs_mono intro!: answered_send)
qed


section \<open>Requests that make a name\<close>

definition entry_ok :: "fuse \<Rightarrow> u64 \<Rightarrow> u64 \<Rightarrow> bool" where
  "entry_ok f parent ino \<longleftrightarrow> (\<exists>r p. fresh f r \<and> n_nodeid (nd f r) = ino \<and> n_parent (nd f r) = Some p \<and> p \<in> live f \<and> n_nodeid (nd f p) = parent)"

definition can_enter :: "fuse \<Rightarrow> u64 \<Rightarrow> bool" where
  "can_enter f parent \<longleftrightarrow> known f parent \<and> room f"

lemma unmoved_entry:
  assumes "unmoved f f'" "tree_ok f" "entry_ok f parent ino"
  shows "entry_ok f' parent ino"
proof -
  obtain r p where r: "fresh f r" "n_nodeid (nd f r) = ino" "n_parent (nd f r) = Some p" "p \<in> live f" "n_nodeid (nd f p) = parent"
    using assms(3) by (auto simp: entry_ok_def)
  have "r \<in> live f" using r(1) by (simp add: fresh_def)
  then show ?thesis unfolding entry_ok_def
    by (intro exI [of _ r] exI [of _ p]) (use unmoved_fresh [OF assms(1) r(1)] r assms(1) in \<open>simp add: unmoved_def\<close>)
qed

lemma entry_forgettable:
  assumes "tree_ok f" "entry_ok f parent ino"
  shows "forgettable [(parent, None)] f ino" "forgettable [] f ino"
proof -
  obtain r p where r: "fresh f r" "n_nodeid (nd f r) = ino" "n_parent (nd f r) = Some p" "p \<in> live f" "n_nodeid (nd f p) = parent"
    using assms(2) by (auto simp: entry_ok_def)
  note i = tree_okD [OF assms(1)]
  have rl: "r \<in> live f" using r(1) by (simp add: fresh_def)
  have np: "r \<notin> above f p" by (rule not_above_parent [OF links_okD(6) [OF i(5)] rl r(3)])
  have "\<not> covers f (parent, None) r"
  proof
    assume "covers f (parent, None) r"
    then obtain q qs e where c: "get_fuse_node f parent = Some q" "chain f q qs e" "r \<in> set qs" by (auto simp: covers_def)
    have "get_fuse_node f parent = Some p" using get_node_iff [OF i(4)] r(4,5) by blast
    then have "q = p" using c(1) by simp
    then show False using np chain_above [OF c(2)] c(3) by blast
  qed
  then show "forgettable [(parent, None)] f ino" using r(1,2) by (auto simp: forgettable_def apart_from_def)
  show "forgettable [] f ino" using r(1,2) by (auto simp: forgettable_def)
qed

lemma unmoved_room: "unmoved f f' \<Longrightarrow> room f \<Longrightarrow> room f'"
  by (simp add: unmoved_def room_def)

lemma unmoved_enter: "unmoved f f' \<Longrightarrow> tree_ok f \<Longrightarrow> can_enter f parent \<Longrightarrow> can_enter f' parent"
  using unmoved_known unmoved_room by (simp add: can_enter_def)

lemma do_lookup_runs:
  assumes "good hs L" "can_enter (core L) parent"
  shows "runs (do_lookup parent (Some name) st L) (\<lambda>(res, L'). good hs L' \<and> env L L' \<and> res \<noteq> Inl (- ENOSYS) \<and>
    (\<forall>e. res = Inr e \<longrightarrow> entry_ok (core L') parent (e_ino e)))"
proof -
  have s: "steady hs (core L)" using assms(1) by (simp add: good_steady)
  obtain p where p: "p \<in> live (core L)" "n_nodeid (nd (core L) p) = parent" and rm: "room (core L)"
    using assms(2) by (auto simp: can_enter_def known_def)
  obtain res f' where f: "find_node (core L) parent (Some name) = Some (res, f')" "steady hs f'" "live (core L) \<subseteq> live f'"
    "\<forall>q \<in> live (core L). n_nodeid (nd f' q) = n_nodeid (nd (core L) q)"
    "\<forall>r. res = Some r \<longrightarrow> fresh f' r \<and> n_parent (nd f' r) = Some p"
    using find_held [OF s p rm, of name] by blast
  have oc: "on_core (\<lambda>f. find_node f parent (Some name)) L = Some (res, L\<lparr>core := f'\<rparr>)" using f(1) by (simp add: on_core_def)
  have g: "good hs (L\<lparr>core := f'\<rparr>)" using f(2) by (simp add: good_steady)
  show ?thesis
  proof (cases res)
    case None
    then show ?thesis using oc g by (simp add: do_lookup_def)
  next
    case (Some r)
    have "entry_ok f' parent (n_nodeid (nd f' r))"
      unfolding entry_ok_def using f(3-5) p Some by (intro exI [of _ r] exI [of _ p]) auto
    then show ?thesis using oc g Some by (auto simp: do_lookup_def Let_def update_stat_views)
  qed
qed

lemma lookup_path_runs:
  assumes "good hs L" "can_enter (core L) parent"
  shows "runs (lookup_path parent (Some name) path fi L) (\<lambda>(res, L'). good hs L' \<and> env L L' \<and> (res = Inl (- ENOSYS) \<longrightarrow> core L' = core L) \<and>
    (\<forall>e. res = Inr e \<longrightarrow> entry_ok (core L') parent (e_ino e)))"
proof -
  let ?r = "fuse_fs_getattr (fsys L) path fi (fss L)"
  have "runs (do_lookup parent (Some name) (stat_of (fst ?r)) (L\<lparr>fss := snd ?r\<rparr>)) (\<lambda>(res, L'). good hs L' \<and> env L L' \<and> res \<noteq> Inl (- ENOSYS) \<and>
    (\<forall>e. res = Inr e \<longrightarrow> entry_ok (core L') parent (e_ino e)))"
    using do_lookup_runs [of hs "L\<lparr>fss := snd ?r\<rparr>" parent name "stat_of (fst ?r)"] assms by simp
  then show ?thesis using assms(1) by (auto simp: lookup_path_def elim!: runs_mono)
qed

lemma reply_entry_runs:
  assumes "good [] L'" "env L L'" "\<forall>e. res = Inr e \<longrightarrow> e_ino e = 0 \<or> forgettable [] (core L') (e_ino e)"
  shows "runs (reply_entry res L') (answered L)"
proof (cases res)
  case (Inl err)
  then show ?thesis using assms by (simp add: reply_entry_def answered_send)
next
  case (Inr e)
  let ?L = "L'\<lparr>replies := replies L' @ [Reply_entry e]\<rparr>"
  have r: "replied L ?L" using replied_now [OF assms(2) refl] .
  have "runs (forget (e_ino e) 1 ?L) (answered L)" if "e_ino e \<noteq> 0"
    using forget_runs [of "[]" ?L "e_ino e"] assms(1,3) Inr that replied_env(2) [OF r] by (auto simp: answered_def elim!: runs_mono)
  then show ?thesis using assms(1) r Inr by (auto simp: reply_entry_def answered_def)
qed

lemma make_answered:
  assumes "good [] L" "can_enter (core L) parent" "path_fits (core L) parent (Some name)"
    and "\<And>path L1. good [(parent, None)] L1 \<Longrightarrow> can_enter (core L1) parent \<Longrightarrow>
      runs (g path L1) (\<lambda>(res, L'). good [(parent, None)] L' \<and> env L1 L' \<and> (\<forall>e. res = Inr e \<longrightarrow> entry_ok (core L') parent (e_ino e)))"
  shows "runs (make_at parent name g L) (answered L)"
proof -
  note t = goodD(1) [OF assms(1)]
  have k: "known (core L) parent" using assms(2) by (simp add: can_enter_def)
  obtain res L1 where p: "get_path_name parent (Some name) L = Some (res, L1)" "env L L1" "relocked (core L) (core L1)"
    "case res of Inl err \<Rightarrow> good [] L1 | Inr path \<Rightarrow> path \<noteq> None \<and> good [(parent, None)] L1"
    using get_path_name_runs [OF assms(1) _ k assms(3) free_way_good [OF assms(1)]] by (fastforce simp: runs_def split: sum.splits)
  show ?thesis
  proof (cases res)
    case (Inl err)
    then show ?thesis using p reply_entry_runs [of L1 L "Inl err"] by (simp add: make_at_def)
  next
    case (Inr path)
    have g1: "good [(parent, None)] L1" "path \<noteq> None" using p(4) Inr by simp_all
    have "can_enter (core L1) parent" by (rule unmoved_enter [OF unmoved_relocked [OF t p(3)] t assms(2)])
    then obtain res2 L2 where b: "g path L1 = Some (res2, L2)" "good [(parent, None)] L2" "env L1 L2"
      "\<forall>e. res2 = Inr e \<longrightarrow> entry_ok (core L2) parent (e_ino e)"
      using assms(4) [OF g1(1), of path] by (auto simp: runs_def)
    have "good (holds parent path @ []) L2" using b(2) g1(2) by (simp add: holds_def)
    then obtain L3 where c: "free_path parent path L2 = Some L3" "good [] L3" "env L2 L3" "relocked (core L2) (core L3)"
      using free_path_runs [of parent path "[]" L2] by (auto simp: runs_def)
    have e: "env L L3" using env_trans [OF env_trans [OF p(2) b(3)] c(3)] .
    have "\<forall>e. res2 = Inr e \<longrightarrow> e_ino e = 0 \<or> forgettable [] (core L3) (e_ino e)"
      using b(4) unmoved_entry [OF unmoved_relocked [OF goodD(1) [OF b(2)] c(4)] goodD(1) [OF b(2)]] entry_forgettable(2) [OF goodD(1) [OF c(2)]] by blast
    then show ?thesis using p(1) b(1) c(1) Inr reply_entry_runs [OF c(2) e] by (simp add: make_at_def)
  qed
qed


lemma lookup_answered:
  assumes "good [] L" "can_enter (core L) parent" "path_fits (core L) parent (Some name)" "name \<noteq> DOT_NAME" "name \<noteq> DOTDOT_NAME"
  shows "runs (fuse_lib_lookup parent name L) (answered L)"
proof -
  let ?g = "\<lambda>path L. map_option (\<lambda>(res, L). (negative L res, L)) (lookup_path parent (Some name) path None L)"
  have e: "fuse_lib_lookup parent name L = do { (res, L) \<leftarrow> lookup_at parent (Some name) L; reply_entry res L }"
    using assms(4,5) by (simp add: fuse_lib_lookup_def)
  note t = goodD(1) [OF assms(1)]
  have k: "known (core L) parent" using assms(2) by (simp add: can_enter_def)
  obtain res L1 where p: "get_path_name parent (Some name) L = Some (res, L1)" "env L L1" "relocked (core L) (core L1)"
    "case res of Inl err \<Rightarrow> good [] L1 | Inr path \<Rightarrow> path \<noteq> None \<and> good [(parent, None)] L1"
    using get_path_name_runs [OF assms(1) _ k assms(3) free_way_good [OF assms(1)]] by (fastforce simp: runs_def split: sum.splits)
  show ?thesis
  proof (cases res)
    case (Inl err)
    then show ?thesis using e p reply_entry_runs [of L1 L "Inl err"] by (simp add: lookup_at_def)
  next
    case (Inr path)
    have g1: "good [(parent, None)] L1" "path \<noteq> None" using p(4) Inr by simp_all
    have "can_enter (core L1) parent" by (rule unmoved_enter [OF unmoved_relocked [OF t p(3)] t assms(2)])
    then obtain res2 L2 where b: "lookup_path parent (Some name) path None L1 = Some (res2, L2)" "good [(parent, None)] L2" "env L1 L2"
      "\<forall>e. res2 = Inr e \<longrightarrow> entry_ok (core L2) parent (e_ino e)"
      using lookup_path_runs [OF g1(1), of parent name path None] by (auto simp: runs_def)
    have "good (holds parent path @ []) L2" using b(2) g1(2) by (simp add: holds_def)
    then obtain L3 where c: "free_path parent path L2 = Some L3" "good [] L3" "env L2 L3" "relocked (core L2) (core L3)"
      using free_path_runs [of parent path "[]" L2] by (auto simp: runs_def)
    have e3: "env L L3" using env_trans [OF env_trans [OF p(2) b(3)] c(3)] .
    have "\<forall>e. res2 = Inr e \<longrightarrow> forgettable [] (core L3) (e_ino e)"
      using b(4) unmoved_entry [OF unmoved_relocked [OF goodD(1) [OF b(2)] c(4)] goodD(1) [OF b(2)]] entry_forgettable(2) [OF goodD(1) [OF c(2)]] by blast
    then have "\<forall>e. negative L3 res2 = Inr e \<longrightarrow> e_ino e = 0 \<or> forgettable [] (core L3) (e_ino e)"
      by (auto simp: negative_def)
    then show ?thesis using e p(1) b(1) c(1) Inr reply_entry_runs [OF c(2) e3] by (simp add: lookup_at_def)
  qed
qed

text \<open>A call, then the lookup when it succeeds.\<close>

lemma call_then_lookup:
  assumes "good [(parent, None)] L1" "can_enter (core L1) parent"
  shows "runs (let (r, L) = call c L1 in if ret r = 0 then lookup_path parent (Some name) path None L else Some (Inl (ret r), L))
    (\<lambda>(res, L'). good [(parent, None)] L' \<and> env L1 L' \<and> (\<forall>e. res = Inr e \<longrightarrow> entry_ok (core L') parent (e_ino e)))"
proof -
  let ?L = "L1\<lparr>fss := snd (c (fsys L1) (fss L1))\<rparr>"
  have "runs (lookup_path parent (Some name) path None ?L) (\<lambda>(res, L'). good [(parent, None)] L' \<and> env L1 L' \<and>
    (\<forall>e. res = Inr e \<longrightarrow> entry_ok (core L') parent (e_ino e)))"
    using lookup_path_runs [of "[(parent, None)]" ?L parent name path None] assms by (auto elim!: runs_mono)
  then show ?thesis using assms(1) by simp
qed

lemma mkdir_answered:
  assumes "good [] L" "can_enter (core L) parent" "path_fits (core L) parent (Some name)"
  shows "runs (fuse_lib_mkdir parent name m L) (answered L)"
  unfolding fuse_lib_mkdir_def using assms by (intro make_answered call_then_lookup)

lemma symlink_answered:
  assumes "good [] L" "can_enter (core L) parent" "path_fits (core L) parent (Some name)"
  shows "runs (fuse_lib_symlink linkname parent name L) (answered L)"
  unfolding fuse_lib_symlink_def using assms by (intro make_answered call_then_lookup)

lemma mknod_answered:
  assumes "good [] L" "can_enter (core L) parent" "path_fits (core L) parent (Some name)"
  shows "runs (fuse_lib_mknod parent name m rdev L) (answered L)"
  unfolding fuse_lib_mknod_def
proof (rule make_answered [OF assms])
  fix path L1 assume h: "good [(parent, None)] L1" "can_enter (core L1) parent"
  define P where "P = (\<lambda>(res :: int + entry, L'). good [(parent, None)] L' \<and> env L1 L' \<and> (res = Inl (- ENOSYS) \<longrightarrow> core L' = core L1) \<and>
    (\<forall>e. res = Inr e \<longrightarrow> entry_ok (core L') parent (e_ino e)))"
  define r where "r = fuse_fs_create (fsys L1) path m (zero_file_info\<lparr>fi_flags := O_CREATE_NEW\<rparr>) (fss L1)"
  let ?fi = "fi_of (zero_file_info\<lparr>fi_flags := O_CREATE_NEW\<rparr>) (fst r)"
  let ?L = "L1\<lparr>fss := snd r\<rparr>"
  define m1 where "m1 = (if is_regular m then
      (if ret (fst r) \<noteq> 0 then Some (Inl (ret (fst r)), ?L)
       else do {
         (res, L) \<leftarrow> lookup_path parent (Some name) path (Some ?fi) ?L;
         Some (res, L\<lparr>fss := snd (fuse_fs_release (fsys L) path ?fi (fss L))\<rparr>)
       })
    else Some (Inl (- ENOSYS), L1))"
  have st: "mknod_at parent name m rdev path L1 = do {
      (res, L) \<leftarrow> m1;
      if res = Inl (- ENOSYS) then
       let (r, L) = call (\<lambda>fs. fuse_fs_mknod fs path m rdev) L
       in if ret r = 0 then lookup_path parent (Some name) path None L else Some (Inl (ret r), L)
     else Some (res, L) }"
    by (simp add: mknod_at_def m1_def r_def Let_def)
  have "runs (lookup_path parent (Some name) path (Some ?fi) ?L) (\<lambda>(res, L). P (res, L\<lparr>fss := snd (fuse_fs_release (fsys L) path ?fi (fss L))\<rparr>))"
    using lookup_path_runs [of "[(parent, None)]" ?L parent name path "Some ?fi"] h by (auto simp: P_def elim!: runs_mono)
  then have first: "runs m1 P"
    using h(1) by (auto simp: m1_def P_def elim!: runs_mono)
  show "runs (mknod_at parent name m rdev path L1) (\<lambda>(res, L'). good [(parent, None)] L' \<and> env L1 L' \<and> (\<forall>e. res = Inr e \<longrightarrow> entry_ok (core L') parent (e_ino e)))"
    unfolding st runs_bind
  proof (rule runs_mono [OF first], clarify)
    fix res L2 assume q: "P (res, L2)"
    have c: "can_enter (core L2) parent" if "res = Inl (- ENOSYS)" using q h(2) that by (simp add: P_def)
    show "runs (if res = Inl (- ENOSYS) then
       let (r, L) = call (\<lambda>fs. fuse_fs_mknod fs path m rdev) L2
       in if ret r = 0 then lookup_path parent (Some name) path None L else Some (Inl (ret r), L)
     else Some (res, L2)) (\<lambda>(res, L'). good [(parent, None)] L' \<and> env L1 L' \<and> (\<forall>e. res = Inr e \<longrightarrow> entry_ok (core L') parent (e_ino e)))"
    proof (cases "res = Inl (- ENOSYS)")
      case True
      have g2: "good [(parent, None)] L2" "env L1 L2" using q by (simp_all add: P_def)
      show ?thesis unfolding if_P [OF True]
        by (rule runs_mono [OF call_then_lookup [OF g2(1) c [OF True]]]) (use env_trans [OF g2(2)] in auto)
    qed (use q in \<open>simp add: P_def\<close>)
  qed
qed


lemma create_at_runs:
  assumes "good [(parent, None)] L1" "can_enter (core L1) parent"
  shows "runs (create_at parent name m fi path L1) (\<lambda>(res, L'). good [(parent, None)] L' \<and> env L1 L' \<and>
    (\<forall>e fi'. res = Inr (e, fi') \<longrightarrow> entry_ok (core L') parent (e_ino e)))"
proof -
  define r where "r = fuse_fs_create (fsys L1) path m fi (fss L1)"
  let ?fi = "fi_of fi (fst r)"
  let ?L = "L1\<lparr>fss := snd r\<rparr>"
  have st: "create_at parent name m fi path L1 = (if ret (fst r) \<noteq> 0 then Some (Inl (ret (fst r)), ?L)
    else do {
      (res, L) \<leftarrow> lookup_path parent (Some name) path (Some ?fi) ?L;
      case res of
        Inl err \<Rightarrow> Some (Inl err, snd (call (\<lambda>fs. fuse_fs_release fs path ?fi) L))
      | Inr e \<Rightarrow>
          if \<not> is_regular (a_mode (e_attr e)) then do {
            let (_, L) = call (\<lambda>fs. fuse_fs_release fs path ?fi) L;
            L \<leftarrow> forget (e_ino e) 1 L;
            Some (Inl (- EIO), L)
          }
          else Some (Inr (e, ?fi\<lparr>direct_io := direct_io ?fi \<or> conf_direct_io (conf L), keep_cache := keep_cache ?fi \<or> kernel_cache (conf L)\<rparr>), L)
    })"
    unfolding create_at_def r_def Let_def call_ok prod.case fst_conv snd_conv by (rule refl)
  obtain res L2 where l: "lookup_path parent (Some name) path (Some ?fi) ?L = Some (res, L2)" "good [(parent, None)] L2" "env L1 L2"
    "\<forall>e. res = Inr e \<longrightarrow> entry_ok (core L2) parent (e_ino e)"
    using lookup_path_runs [of "[(parent, None)]" ?L parent name path "Some ?fi"] assms by (auto simp: runs_def)
  have fg: "runs (forget (e_ino e) 1 (L2\<lparr>fss := s\<rparr>)) (\<lambda>L'. good [(parent, None)] L' \<and> env L1 L')" if "res = Inr e" for e s
    using forget_runs [of "[(parent, None)]" "L2\<lparr>fss := s\<rparr>" "e_ino e"] l(2,4) that entry_forgettable(1) [OF goodD(1) [OF l(2)]] env_trans [OF l(3)]
    by (auto elim!: runs_mono)
  show ?thesis
  proof (cases res)
    case (Inl err)
    then show ?thesis unfolding st using l assms(1) by simp
  next
    case (Inr e)
    have "runs (forget (e_ino e) 1 (L2\<lparr>fss := s\<rparr>)) (\<lambda>L. runs (Some (Inl (- EIO), L)) (\<lambda>(res :: int + entry \<times> fuse_file_info, L'). good [(parent, None)] L' \<and> env L1 L' \<and>
      (\<forall>e fi'. res = Inr (e, fi') \<longrightarrow> entry_ok (core L') parent (e_ino e))))" for s
      using fg [OF Inr] by (rule runs_mono) simp
    then show ?thesis unfolding st using l assms(1) Inr by simp
  qed
qed

lemma create_answered:
  assumes "good [] L" "can_enter (core L) parent" "path_fits (core L) parent (Some name)"
  shows "runs (fuse_lib_create parent name m fi L) (answered L)"
proof -
  note t = goodD(1) [OF assms(1)]
  have k: "known (core L) parent" using assms(2) by (simp add: can_enter_def)
  obtain res L1 where p: "get_path_name parent (Some name) L = Some (res, L1)" "env L L1" "relocked (core L) (core L1)"
    "case res of Inl err \<Rightarrow> good [] L1 | Inr path \<Rightarrow> path \<noteq> None \<and> good [(parent, None)] L1"
    using get_path_name_runs [OF assms(1) _ k assms(3) free_way_good [OF assms(1)]] by (fastforce simp: runs_def split: sum.splits)
  show ?thesis
  proof (cases res)
    case (Inl err)
    then show ?thesis using p by (simp add: fuse_lib_create_def answered_send)
  next
    case (Inr path)
    let ?hs = "[(parent, None)]"
    have g1: "good ?hs L1" "path \<noteq> None" using p(4) Inr by simp_all
    have "can_enter (core L1) parent" by (rule unmoved_enter [OF unmoved_relocked [OF t p(3)] t assms(2)])
    then obtain res2 L2 where b: "create_at parent name m fi path L1 = Some (res2, L2)" "good ?hs L2" "env L1 L2"
      "\<forall>e fi'. res2 = Inr (e, fi') \<longrightarrow> entry_ok (core L2) parent (e_ino e)"
      using create_at_runs [OF g1(1), where name = name and m = m and fi = fi and path = path] by (auto simp: runs_def)
    have e2: "env L L2" using env_trans [OF p(2) b(3)] .
    have fr: "runs (free_path parent path L3) (answered L)" if "good ?hs L3" "replied L L3" for L3
      using answered_free [of parent path L3 L] that g1(2) by (simp add: holds_def)
    show ?thesis
    proof (cases res2)
      case err: (Inl err)
      have "runs (free_path parent path (L2\<lparr>replies := replies L2 @ [Reply_err err]\<rparr>)) (answered L)"
        by (rule fr) (use b(2) replied_now [OF e2 refl] in simp_all)
      then show ?thesis using p(1) b(1) Inr err by (simp add: fuse_lib_create_def)
    next
      case ok: (Inr ef)
      obtain e fi2 where ef: "ef = (e, fi2)" by (cases ef)
      have en: "entry_ok (core L2) parent (e_ino e)" using b(4) ok ef by blast
      then obtain n where n: "fresh (core L2) n" "n_nodeid (nd (core L2) n) = e_ino e" by (auto simp: entry_ok_def)
      have gn: "get_fuse_node (core L2) (e_ino e) = Some n"
        using get_node_iff [OF tree_okD(4) [OF goodD(1) [OF b(2)]]] n by (simp add: fresh_def)
      obtain L3 where a: "add_open (e_ino e) L2 = Some L3" "good ?hs L3" "env L2 L3" "unmoved (core L2) (core L3)" "open_count (nd (core L3) n) > 0"
        using add_open_runs [OF b(2) gn] by (auto simp: runs_def)
      let ?L4 = "L3\<lparr>replies := replies L3 @ [Reply_create e fi2]\<rparr>"
      have g4: "good ?hs ?L4" using a(2) by simp
      have rp: "replied L ?L4" using replied_now [OF env_trans [OF e2 a(3)] refl] .
      have gn3: "get_fuse_node (core ?L4) (e_ino e) = Some n" using unmoved_get [OF goodD(1) [OF b(2)] goodD(1) [OF a(2)] a(4)] gn by simp
      have "runs (fuse_do_release (e_ino e) path fi2 ?L4) (\<lambda>L'. good ?hs L' \<and> env ?L4 L' \<and> unmoved (core ?L4) (core L'))"
        using g1(2) a(5) by (intro release_runs [OF g4 gn3]) simp_all
      then obtain L5 where d: "fuse_do_release (e_ino e) path fi2 ?L4 = Some L5" "good ?hs L5" "env ?L4 L5" "unmoved (core L3) (core L5)"
        by (auto simp: runs_def)
      have "entry_ok (core L5) parent (e_ino e)"
        using unmoved_entry [OF unmoved_trans [OF a(4) d(4)] goodD(1) [OF b(2)] en] .
      then obtain L6 where f: "forget (e_ino e) 1 L5 = Some L6" "good ?hs L6" "env L5 L6"
        using forget_runs [OF d(2), of "e_ino e"] entry_forgettable(1) [OF goodD(1) [OF d(2)]] by (auto simp: runs_def)
      have rp6: "replied L L6" using replied_env(2) [OF rp env_trans [OF d(3) f(3)]] .
      show ?thesis
      proof (cases "sent L3 (length (replies L3)) = - ENOENT")
        case True
        then show ?thesis using p(1) b(1) a(1) d(1) f(1) Inr ok ef fr [OF f(2) rp6] by (simp add: fuse_lib_create_def)
      next
        case False
        then show ?thesis using p(1) b(1) a(1) Inr ok ef fr [OF g4 rp] by (simp add: fuse_lib_create_def)
      qed
    qed
  qed
qed

lemma link_answered:
  assumes "good [] L" "reachable_node (core L) ino" "can_enter (core L) newparent" "path_fits (core L) newparent (Some newname)"
  shows "runs (fuse_lib_link ino newparent newname L) (answered L)"
proof -
  note t = goodD(1) [OF assms(1)]
  have k: "known (core L) ino" "path_fits (core L) ino None" "known (core L) newparent"
    using assms(2,3) by (simp_all add: reachable_node_def can_enter_def)
  obtain res L1 where p: "get_paths ino None newparent (Some newname) False False L = Some (res, L1)" "env L L1" "relocked (core L) (core L1)"
    "case res of Inl err \<Rightarrow> good [] L1 | Inr ((p1, x1), (p2, x2)) \<Rightarrow> good [(newparent, None), (ino, None)] L1"
    using get_paths_runs [OF assms(1) refl k(1,3,2) assms(4), where ?wr1.0 = False and ?wr2.0 = False, OF _ refl refl] by (fastforce simp: runs_def split: sum.splits)
  show ?thesis
  proof (cases res)
    case (Inl err)
    then show ?thesis using p reply_entry_runs [of L1 L "Inl err"] by (simp add: fuse_lib_link_def)
  next
    case (Inr ps)
    obtain op x1 np x2 where ps: "ps = ((op, x1), (np, x2))" by (metis surj_pair)
    let ?hs = "[(newparent, None), (ino, None)]"
    have g1: "good ?hs L1" using p(4) Inr ps by simp
    define r where "r = fuse_fs_link (fsys L1) (Some op) (Some np) (fss L1)"
    let ?L = "L1\<lparr>fss := snd r\<rparr>"
    define m where "m = (if ret (fst r) = 0 then lookup_path newparent (Some newname) (Some np) None ?L else Some (Inl (ret (fst r)), ?L))"
    have st: "fuse_lib_link ino newparent newname L = do { (res, L) \<leftarrow> m; L \<leftarrow> unlock2 ino newparent None None L; reply_entry res L }"
      using p(1) Inr ps by (simp add: fuse_lib_link_def m_def r_def Let_def)
    have "can_enter (core L1) newparent" by (rule unmoved_enter [OF unmoved_relocked [OF t p(3)] t assms(3)])
    then have "runs m
      (\<lambda>(res, L'). good ?hs L' \<and> env L1 L' \<and> (\<forall>e. res = Inr e \<longrightarrow> entry_ok (core L') newparent (e_ino e)))"
      unfolding m_def
      using lookup_path_runs [of ?hs ?L newparent newname "Some np" None] g1 by (auto elim!: runs_mono)
    then obtain res2 L2 where b: "m = Some (res2, L2)"
      "good ?hs L2" "env L1 L2" "\<forall>e. res2 = Inr e \<longrightarrow> entry_ok (core L2) newparent (e_ino e)"
      by (auto simp: runs_def)
    obtain L3 where c: "unlock2 ino newparent None None L2 = Some L3" "good [] L3" "env L2 L3" "relocked (core L2) (core L3)"
      using unlock2_runs [OF b(2)] by (auto simp: runs_def)
    have e: "env L L3" using env_trans [OF env_trans [OF p(2) b(3)] c(3)] .
    have "\<forall>e. res2 = Inr e \<longrightarrow> e_ino e = 0 \<or> forgettable [] (core L3) (e_ino e)"
      using b(4) unmoved_entry [OF unmoved_relocked [OF goodD(1) [OF b(2)] c(4)] goodD(1) [OF b(2)]] entry_forgettable(2) [OF goodD(1) [OF c(2)]] by blast
    then show ?thesis using st b(1) c(1) reply_entry_runs [OF c(2) e] by simp
  qed
qed

end
