(* ===== verification/Fuse_Lib_Hide.thy ===== *)
theory Fuse_Lib_Hide
  imports Fuse_Lib_Served
begin

text \<open>
  Removing and renaming names: the node of the name is locked for writing. A file that is still open is not removed but
  renamed to a hidden name that nothing has; such a name is always found.
\<close>

section \<open>Hidden names\<close>

lemma hex_digit_inj: "a < 16 \<Longrightarrow> b < 16 \<Longrightarrow> hex_digit a = hex_digit b \<Longrightarrow> a = b"
proof -
  assume h: "a < 16" "b < 16" "hex_digit a = hex_digit b"
  have u: "unat (hex_digit d) = (if d < 10 then 48 + d else 87 + d)" if "d < 16" for d
    using that by (simp add: hex_digit_def unat_word_ariths unat_of_nat)
  show "a = b" using arg_cong [OF h(3), of unat] u [OF h(1)] u [OF h(2)] h(1,2) by (auto split: if_splits)
qed

lemma nat_of_digits:
  fixes n :: nat
  assumes "n < 16 ^ k" "m < 16 ^ k" "\<And>i. i < k \<Longrightarrow> n div 16 ^ i mod 16 = m div 16 ^ i mod 16"
  shows "n = m"
  using assms
proof (induction k arbitrary: n m)
  case (Suc k)
  have "n div 16 = m div 16"
  proof (rule Suc.IH)
    show "n div 16 < 16 ^ k" "m div 16 < 16 ^ k" using Suc.prems(1,2) by (simp_all add: less_mult_imp_div_less mult.commute)
    show "n div 16 div 16 ^ i mod 16 = m div 16 div 16 ^ i mod 16" if "i < k" for i
      using Suc.prems(3) [of "Suc i"] that by (simp add: div_mult2_eq)
  qed
  moreover have "n mod 16 = m mod 16" using Suc.prems(3) [of 0] by simp
  ultimately show ?case by (metis div_mult_mod_eq)
qed simp

lemma hex8_inj: "hex8 a = hex8 b \<Longrightarrow> a = b"
proof -
  assume h: "hex8 a = hex8 b"
  have "unat a div 16 ^ i mod 16 = unat b div 16 ^ i mod 16" if "i < 8" for i
  proof -
    have "i \<in> set [7, 6, 5, 4, 3, 2, 1, 0]" using that by auto
    then have "hex_digit (unat a div 16 ^ i mod 16) = hex_digit (unat b div 16 ^ i mod 16)"
      using h unfolding hex8_def map_eq_conv by blast
    then show ?thesis by (rule hex_digit_inj [rotated 2]) simp_all
  qed
  moreover have "unat a < 16 ^ 8" "unat b < 16 ^ 8" using unsigned_less [of a] unsigned_less [of b] by simp_all
  ultimately have "unat a = unat b" using nat_of_digits [of "unat a" 8 "unat b"] by blast
  then show "a = b" by (simp only: word_unat_eq_iff)
qed

lemma hidden_string_inj: "inj (hidden_string nodeid)"
  using hex8_inj by (intro injI) (auto simp: hidden_string_def)

lemma hidden_string_length: "length (hidden_string nodeid k) = 28"
  by (simp add: hidden_string_def hex8_def)

lemma some_name_unused:
  assumes "tree_ok f" "card (live f) < 2 ^ 32"
  shows "\<exists>k. lookup_node f dir (hidden_string nodeid k) = None"
proof (rule ccontr)
  assume "\<nexists>k. lookup_node f dir (hidden_string nodeid k) = None"
  then have all: "\<exists>r. lookup_node f dir (hidden_string nodeid k) = Some r" for k by (meson not_None_eq)
  define g where "g k = the (lookup_node f dir (hidden_string nodeid k))" for k :: u32
  have g: "lookup_node f dir (hidden_string nodeid k) = Some (g k)" for k using all [of k] by (auto simp: g_def)
  have "inj g"
  proof (rule injI)
    fix a b assume "g a = g b"
    then have "hidden_string nodeid a = hidden_string nodeid b"
      using lookup_named(4) [OF assms(1) g [of a]] lookup_named(4) [OF assms(1) g [of b]] by simp
    then show "a = b" using hidden_string_inj by (auto dest: injD)
  qed
  moreover have "range g \<subseteq> live f" using lookup_named(2) [OF assms(1) g] by blast
  moreover have "finite (live f)" using tables_okD(1) [OF tree_okD(4) [OF assms(1)]] .
  ultimately have "card (UNIV :: u32 set) \<le> card (live f)" by (metis card_inj_on_le)
  then show False using assms(2) by (simp add: card_word)
qed

lemma unused_name_runs:
  assumes "lookup_node (core L) dir (hidden_string nodeid (hidectr L + of_nat (Suc n))) = None"
  shows "runs (unused_name dir nodeid L) (\<lambda>(newname, L'). \<exists>k. newname = hidden_string nodeid k \<and> L' = L\<lparr>hidectr := k\<rparr> \<and>
    lookup_node (core L) dir newname = None)"
  using assms
proof (induction n arbitrary: L)
  case 0
  then show ?case by (subst unused_name.simps) (auto simp: Let_def)
next
  case (Suc n)
  let ?L = "L\<lparr>hidectr := hidectr L + 1\<rparr>"
  show ?case
  proof (cases "lookup_node (core L) dir (hidden_string nodeid (hidectr L + 1)) = None")
    case True
    then show ?thesis by (subst unused_name.simps) (auto simp: Let_def)
  next
    case False
    have "runs (unused_name dir nodeid ?L) (\<lambda>(newname, L'). \<exists>k. newname = hidden_string nodeid k \<and> L' = ?L\<lparr>hidectr := k\<rparr> \<and>
      lookup_node (core ?L) dir newname = None)" using Suc.prems by (intro Suc.IH) (simp add: ac_simps)
    then show ?thesis using False by (subst unused_name.simps) (auto simp: Let_def elim!: runs_mono)
  qed
qed

lemma unused_name_found:
  assumes "tree_ok (core L)" "card (live (core L)) < 2 ^ 32"
  shows "runs (unused_name dir nodeid L) (\<lambda>(newname, L'). \<exists>k. newname = hidden_string nodeid k \<and> L' = L\<lparr>hidectr := k\<rparr> \<and>
    lookup_node (core L) dir newname = None)"
proof -
  obtain k where k: "lookup_node (core L) dir (hidden_string nodeid k) = None" using some_name_unused [OF assms] by blast
  define n where "n = unat (k - hidectr L - 1)"
  have "of_nat n = k - hidectr L - 1" by (simp add: n_def)
  then have "hidectr L + of_nat (Suc n) = k" by simp
  then show ?thesis using k by (intro unused_name_runs [where n = n]) simp
qed


section \<open>Locking a name for writing\<close>

definition removable :: "fuse \<Rightarrow> u64 \<Rightarrow> bytes \<Rightarrow> bool" where
  "removable f dir name \<longleftrightarrow>
     (\<forall>r. lookup_node f dir name = Some r \<longrightarrow> nlookup (nd f r) \<noteq> 0 \<and> (remember f \<noteq> 0 \<longrightarrow> nlookup (nd f r) > 1))"

lemma unmoved_lookup:
  assumes "unmoved f f'" "tree_ok f" "tree_ok f'" "known f dir"
  shows "lookup_node f' dir name = lookup_node f dir name"
proof -
  obtain p where p: "p \<in> live f" "n_nodeid (nd f p) = dir" using assms(4) by (auto simp: known_def)
  have p': "p \<in> live f'" "n_nodeid (nd f' p) = dir" using p assms(1) by (simp_all add: unmoved_def)
  have "lookup_node f' dir name = Some r \<longleftrightarrow> lookup_node f dir name = Some r" for r
    using lookup_parent [OF assms(2) p] lookup_parent [OF assms(3) p'] assms(1) by (auto simp: unmoved_def)
  then show ?thesis by (metis option.exhaust)
qed

lemma not_covers_child:
  assumes "tree_ok f" "lookup_node f dir name = Some r"
  shows "\<not> covers f (dir, w) r"
proof
  assume "covers f (dir, w) r"
  then obtain q qs e where c: "get_fuse_node f dir = Some q" "chain f q qs e" "r \<in> set qs" by (auto simp: covers_def)
  have "q \<in> live f" "n_nodeid (nd f q) = dir" using get_node_iff [OF tree_okD(4) [OF assms(1)]] c(1) by blast+
  then show False using parent_not_in_it(1) [OF assms(1) _ _ assms(2)] chain_above [OF c(2)] c(3) by blast
qed

lemma wrlock_runs:
  assumes "good [] L" "known (core L) parent" "path_fits (core L) parent (Some name)" "removable (core L) parent name"
  shows "runs (get_path_wrlock parent name L) (\<lambda>(res, L'). env L L' \<and> fss L' = fss L \<and> relocked (core L) (core L') \<and>
    (case res of Inl err \<Rightarrow> err < 0 \<and> good [] L'
     | Inr (path, w) \<Rightarrow> good [(parent, w)] L' \<and> w = lookup_node (core L) parent name))"
proof -
  have "free_way (core L) parent (Some name) True"
    using assms(4) by (intro free_way_idle [OF goodD(3,4) [OF assms(1)]]) (auto simp: removable_def)
  from lock_path_ok [OF assms(1) _ assms(2,3) this] obtain res L' where l: "lock_path parent (Some name) True L = Some (res, L')" "env L L'"
    "fss L' = fss L" "relocked (core L) (core L')"
    "case res of Inl err \<Rightarrow> err < 0 \<and> good [] L' | Inr (path, w) \<Rightarrow> good [(parent, w)] L' \<and> w = lookup_node (core L) parent name"
    by (fastforce split: sum.splits)
  then show ?thesis by (simp add: get_path_wrlock_def)
qed

lemma unmoved_removable:
  assumes "unmoved f f'" "tree_ok f" "tree_ok f'" "known f dir" "removable f dir name"
  shows "removable f' dir name"
proof -
  have "r \<in> live f" if "lookup_node f dir name = Some r" for r using lookup_named(2) [OF assms(2) that] .
  then show ?thesis using assms(1,5) unmoved_lookup [OF assms(1-4), of name] by (auto simp: removable_def unmoved_def)
qed

lemma remove_runs:
  assumes "good [(dir, w)] L" "removable (core L) dir name"
  shows "runs (update_core (\<lambda>f. remove_node f dir name) L) (\<lambda>L'. good [(dir, w)] L' \<and> env L L' \<and> fss L' = fss L)"
proof -
  have s: "steady [(dir, w)] (core L)" using assms(1) by (simp add: good_steady)
  have "guarded (core L) (Remove dir name)" using assms(2) by (simp add: removable_def)
  moreover have "\<forall>r. lookup_node (core L) dir name = Some r \<longrightarrow> (\<forall>h \<in> set [(dir, w)]. \<not> covers (core L) h r)"
    using not_covers_child [OF steadyD(1) [OF s]] by auto
  ultimately obtain f' where "remove_node (core L) dir name = Some f'" "steady [(dir, w)] f'"
    using remove_held [OF s] by blast
  then show ?thesis by (simp add: update_core_def good_steady)
qed

section \<open>Hiding a file\<close>

definition hidden_fits :: "fuse \<Rightarrow> u64 \<Rightarrow> bool" where
  "hidden_fits f dir \<longleftrightarrow> path_fits f dir (Some (replicate 28 0)) \<and> card (live f) < 2 ^ 32"

lemma fits_hidden: "hidden_fits f dir \<Longrightarrow> length name = 28 \<Longrightarrow> path_fits f dir (Some name)"
  by (auto simp: hidden_fits_def path_fits_def)

lemma unmoved_hidden_fits: "unmoved f f' \<Longrightarrow> tree_ok f \<Longrightarrow> tree_ok f' \<Longrightarrow> hidden_fits f dir \<Longrightarrow> hidden_fits f' dir"
proof -
  assume a: "unmoved f f'" "tree_ok f" "tree_ok f'" "hidden_fits f dir"
  have "live f' = live f" using a(1) by (simp add: unmoved_def)
  then show "hidden_fits f' dir" using a(4) unmoved_path [OF a(2,3,1)] by (simp add: hidden_fits_def)
qed

lemma hidden_fits_malloc:
  assumes "tree_ok f" "hidden_fits f dir"
  shows "hidden_fits (f\<lparr>malloc_no := k\<rparr>) dir"
proof -
  have t: "tree_ok (f\<lparr>malloc_no := k\<rparr>)" by (rule tree_ok_cong [OF assms(1)]) simp_all
  show ?thesis by (rule unmoved_hidden_fits [OF unmoved_relocked [OF assms(1) relocked_id] assms(1) t assms(2)])
qed

lemma lookup_malloc: "tree_ok f \<Longrightarrow> lookup_node (f\<lparr>malloc_no := k\<rparr>) dir name = lookup_node f dir name"
  using relockedD(3) [OF tree_okD(3) relocked_id] by blast

lemma hidden_name_runs:
  assumes "good hs L" "get_fuse_node (core L) dir \<noteq> None" "hidden_fits (core L) dir"
  shows "runs (hidden_name n dir oldname L) (\<lambda>(res, L'). good hs L' \<and> env L L' \<and> (\<exists>k. core L' = (core L)\<lparr>malloc_no := k\<rparr>) \<and>
    (\<forall>newname newpath. res = Some (newname, newpath) \<longrightarrow> length newname = 28 \<and> lookup_node (core L) dir newname = None))"
  using assms
proof (induction n arbitrary: L)
  case 0
  have "core L = (core L)\<lparr>malloc_no := malloc_no (core L)\<rparr>" by simp
  then show ?case using 0 by (auto intro: exI [of _ "malloc_no (core L)"])
next
  case (Suc n)
  note t = goodD(1) [OF Suc.prems(1)]
  have self: "\<exists>k. core L = (core L)\<lparr>malloc_no := k\<rparr>" by (rule exI [of _ "malloc_no (core L)"]) simp
  show ?case
  proof (cases "lookup_node (core L) dir oldname")
    case None
    then show ?thesis using Suc.prems(1) self by simp
  next
    case (Some node)
    obtain newname c where u: "unused_name dir (n_nodeid (nd (core L) node)) L = Some (newname, L\<lparr>hidectr := c\<rparr>)"
      "length newname = 28" "lookup_node (core L) dir newname = None"
      using unused_name_found [OF t, of dir "n_nodeid (nd (core L) node)"] Suc.prems(3) hidden_string_length
      by (auto simp: runs_def hidden_fits_def)
    obtain r where r: "get_fuse_node (core L) dir = Some r" using Suc.prems(2) by blast
    obtain res k where tr: "try_get_path (core L) dir (Some newname) False False = Some (res, (core L)\<lparr>malloc_no := k\<rparr>)"
      using try_unlocked [OF tree_okD(3) [OF t] r fits_hidden [OF Suc.prems(3) u(2)]] by blast
    let ?L1 = "L\<lparr>hidectr := c, core := (core L)\<lparr>malloc_no := k\<rparr>\<rparr>"
    have oc: "on_core (\<lambda>f. try_get_path f dir (Some newname) False False) (L\<lparr>hidectr := c\<rparr>) = Some (res, ?L1)"
      using tr by (simp add: on_core_def)
    have g1: "good hs ?L1" using Suc.prems(1) by (simp add: good_steady)
    show ?thesis
    proof (cases res)
      case (Inl err)
      then show ?thesis using Some u(1) oc g1 by auto
    next
      case (Inr pw)
      obtain newpath x where pw: "pw = (newpath, x)" by (cases pw)
      define q where "q = fuse_fs_getattr (fsys L) (Some newpath) None (fss L)"
      let ?L2 = "?L1\<lparr>fss := snd q\<rparr>"
      have st: "hidden_name (Suc n) dir oldname L = (if ret (fst q) = - ENOENT then Some (Some (newname, newpath), ?L2)
          else if ret (fst q) = 0 then hidden_name n dir oldname ?L2 else Some (None, ?L2))"
        using Some u(1) oc Inr pw by (simp add: q_def)
      have g2: "good hs ?L2" using g1 by simp
      have "get_fuse_node (core ?L2) dir \<noteq> None"
        using get_kept [OF t relocked_id] r by simp
      moreover have "hidden_fits (core ?L2) dir" using hidden_fits_malloc [OF t Suc.prems(3)] by simp
      ultimately have "runs (hidden_name n dir oldname ?L2) (\<lambda>(res, L'). good hs L' \<and> env ?L2 L' \<and> (\<exists>k. core L' = (core ?L2)\<lparr>malloc_no := k\<rparr>) \<and>
        (\<forall>newname newpath. res = Some (newname, newpath) \<longrightarrow> length newname = 28 \<and> lookup_node (core ?L2) dir newname = None))"
        by (intro Suc.IH g2)
      then have "runs (hidden_name n dir oldname ?L2) (\<lambda>(res, L'). good hs L' \<and> env L L' \<and> (\<exists>k. core L' = (core L)\<lparr>malloc_no := k\<rparr>) \<and>
        (\<forall>newname newpath. res = Some (newname, newpath) \<longrightarrow> length newname = 28 \<and> lookup_node (core L) dir newname = None))"
        using lookup_malloc [OF t] by (auto elim!: runs_mono)
      then show ?thesis unfolding st using g2 u by auto
    qed
  qed
qed


lemma lookup_gone:
  assumes "tree_ok f" "tree_ok f'" "others_kept {n} f f'" "lookup_node f dir name = Some n" "lookup_node f' dir name \<noteq> Some n"
    and "known f dir"
  shows "lookup_node f' dir name = None"
proof (rule ccontr)
  assume "lookup_node f' dir name \<noteq> None"
  then obtain q where q: "lookup_node f' dir name = Some q" by blast
  note m = lookup_named [OF assms(2) q]
  have qn: "q \<notin> {n}" using q assms(5) by auto
  obtain p where p: "p \<in> live f" "n_nodeid (nd f p) = dir" "nlookup (nd f p) \<noteq> 0" using assms(6) by (auto simp: known_def)
  have pn: "p \<notin> {n}" using parent_not_in_it(2) [OF assms(1) p(1,2) assms(4)] by blast
  have pl: "p \<in> live f'" using others_keptD(3) [OF assms(3) pn] p by (simp add: held_def)
  have pi: "n_nodeid (nd f' p) = dir" using others_kept_node(4) [OF assms(3) pn pl] p(2) by simp
  have "n_parent (nd f' q) = Some p" "n_name (nd f' q) = Some name" using lookup_parent [OF assms(2) pl pi] q by blast+
  then have "q \<in> live f" "n_parent (nd f q) = Some p" "n_name (nd f q) = Some name"
    using others_kept_node(1,2) [OF assms(3) qn m(2)] others_keptD(1) [OF assms(3) qn m(2)] by simp_all
  then have "lookup_node f dir name = Some q" using lookup_parent [OF assms(1) p(1,2)] by blast
  then show False using assms(4) qn by simp
qed

lemma hide_node_runs:
  assumes "good hs L" "known (core L) dir" "hidden_fits (core L) dir" "lookup_node (core L) dir oldname = Some n"
    and "nlookup (nd (core L) n) \<noteq> 0" "\<forall>h \<in> set hs. \<not> covers (core L) h n"
  shows "runs (hide_node oldpath dir oldname L) (\<lambda>(err, L'). good hs L' \<and> env L L' \<and>
    (err = 0 \<longrightarrow> others_kept {n} (core L) (core L') \<and> lookup_node (core L') dir oldname = None \<and> is_hidden (nd (core L') n) \<and>
       n \<in> live (core L') \<and> n_nodeid (nd (core L') n) = n_nodeid (nd (core L) n)))"
proof -
  note t = goodD(1) [OF assms(1)]
  obtain p where p: "p \<in> live (core L)" "n_nodeid (nd (core L) p) = dir" "p \<in> held (core L)"
    using assms(2) by (auto simp: known_def held_def)
  have g: "get_fuse_node (core L) dir \<noteq> None" using known_get [OF t assms(2)] by blast
  obtain res L1 k where h: "hidden_name 10 dir oldname L = Some (res, L1)" "good hs L1" "env L L1" "core L1 = (core L)\<lparr>malloc_no := k\<rparr>"
    "\<forall>newname newpath. res = Some (newname, newpath) \<longrightarrow> length newname = 28 \<and> lookup_node (core L) dir newname = None"
    using hidden_name_runs [OF assms(1) g assms(3), of 10 oldname] by (auto simp: runs_def)
  show ?thesis
  proof (cases res)
    case None
    then show ?thesis using h by (simp add: hide_node_def)
  next
    case (Some nn)
    obtain newname newpath where nn: "nn = (newname, newpath)" by (cases nn)
    define r where "r = fuse_fs_rename (fsys L1) (Some oldpath) (Some newpath) 0 (fss L1)"
    let ?L2 = "L1\<lparr>fss := snd r\<rparr>"
    have st: "hide_node oldpath dir oldname L = (if ret (fst r) \<noteq> 0 then Some (ret (fst r), ?L2)
      else on_core (\<lambda>f. rename_node f dir oldname dir newname True) ?L2)"
      using h(1) Some nn by (simp add: hide_node_def r_def)
    let ?f = "core ?L2"
    have s: "steady hs ?f" using h(2) by (simp add: good_steady)
    have rel: "relocked (core L) ?f" using relocked_id h(4) by simp
    note k2 = unmoved_relocked [OF t rel]
    have lk: "lookup_node ?f dir name = lookup_node (core L) dir name" for name using lookup_malloc [OF t] h(4) by simp
    have nf: "nd (core L1) q = nd (core L) q" "live (core L1) = live (core L)" for q using h(4) by simp_all
    have pf: "p \<in> held ?f" "n_nodeid (nd ?f p) = dir" using p by (simp_all add: held_def nf)
    have ab: "n \<notin> above ?f p" using parent_not_in_it(1) [OF steadyD(1) [OF s] _ pf(2)] p(1) lk assms(4) nf by simp
    have new: "lookup_node ?f dir newname = None" using lk h(5) Some nn by simp
    have cov: "\<forall>q \<in> insert n {}. \<forall>x \<in> set hs. \<not> covers ?f x q"
      using unmoved_covers [OF t steadyD(1) [OF s] k2] assms(6) by simp
    obtain err f' where rn: "rename_node ?f dir oldname dir newname True = Some (err, f')" "steady hs f'" "others_kept {n} ?f f'" "n \<in> live f'"
      "err = 0 \<and> lookup_node f' dir newname = Some n \<and> nd f' n = (nd ?f n)\<lparr>n_name := Some newname, n_parent := Some p, is_hidden := is_hidden (nd ?f n) \<or> True\<rparr> \<or>
       err = - ENOMEM"
      using rename_under [OF s, of dir oldname n p dir "{}" newname True] lk assms(4) pf ab new cov by auto
    have res: "on_core (\<lambda>f. rename_node f dir oldname dir newname True) ?L2 = Some (err, ?L2\<lparr>core := f'\<rparr>)"
      using rn(1) by (simp add: on_core_def)
    have g2: "good hs (?L2\<lparr>core := f'\<rparr>)" using rn(2) by (simp add: good_steady)
    have "others_kept {n} (core L) f' \<and> lookup_node f' dir oldname = None \<and> is_hidden (nd f' n) \<and> n_nodeid (nd f' n) = n_nodeid (nd (core L) n)" if "err = 0"
    proof -
      have r5: "lookup_node f' dir newname = Some n" "nd f' n = (nd ?f n)\<lparr>n_name := Some newname, n_parent := Some p, is_hidden := is_hidden (nd ?f n) \<or> True\<rparr>"
        using rn(5) that by auto
      have "others_kept {n} (core L) ?f" by (rule others_kept_same) (simp add: h(4))
      then have o: "others_kept {n} (core L) f'" using others_kept_trans [of "{n}" "core L" ?f "{n}" f'] rn(3) by simp
      have "oldname \<noteq> newname" using new lk assms(4) by auto
      then have "lookup_node f' dir oldname \<noteq> Some n"
        using lookup_named(4) [OF steadyD(1) [OF rn(2)], of dir oldname n] r5(2) by auto
      then show ?thesis using lookup_gone [OF t steadyD(1) [OF rn(2)] o assms(4) _ assms(2)] o r5(2) nf by simp
    qed
    then show ?thesis unfolding st using res g2 h(2,3) rn(4) by simp
  qed
qed

lemma unlink_answered:
  assumes "good [] L" "known (core L) parent" "path_fits (core L) parent (Some name)" "removable (core L) parent name" "hidden_fits (core L) parent"
  shows "runs (fuse_lib_unlink parent name L) (answered L)"
proof -
  note t = goodD(1) [OF assms(1)]
  obtain res L1 where p: "get_path_wrlock parent name L = Some (res, L1)" "env L L1" "relocked (core L) (core L1)"
    "case res of Inl err \<Rightarrow> good [] L1 | Inr (path, w) \<Rightarrow> good [(parent, w)] L1 \<and> w = lookup_node (core L) parent name"
    using wrlock_runs [OF assms(1-4)] by (fastforce simp: runs_def split: sum.splits)
  show ?thesis
  proof (cases res)
    case (Inl err)
    then show ?thesis using p by (simp add: fuse_lib_unlink_def answered_send)
  next
    case (Inr pw)
    obtain path w where pw: "pw = (path, w)" by (cases pw)
    have g1: "good [(parent, w)] L1" using p(4) Inr pw by auto
    note t1 = goodD(1) [OF g1] and k1 = unmoved_relocked [OF t p(3)]
    have kn: "known (core L1) parent" by (rule unmoved_known [OF k1 t assms(2)])
    have rm: "removable (core L1) parent name" by (rule unmoved_removable [OF k1 t t1 assms(2,4)])
    have hf: "hidden_fits (core L1) parent" by (rule unmoved_hidden_fits [OF k1 t t1 assms(5)])
    define m where "m = (if \<not> hard_remove (conf L1) \<and> is_open (core L1) parent name \<noteq> 0 then hide_node path parent name L1
           else let (r, L) = call (\<lambda>fs. fuse_fs_unlink fs (Some path)) L1
                in if ret r \<noteq> 0 then Some (ret r, L)
                   else do { L \<leftarrow> update_core (\<lambda>f. remove_node f parent name) L; Some (0, L) })"
    have "runs m (\<lambda>(err, L2). good [(parent, w)] L2 \<and> env L1 L2)"
    proof (cases "\<not> hard_remove (conf L1) \<and> is_open (core L1) parent name \<noteq> 0")
      case True
      then obtain n where n: "lookup_node (core L1) parent name = Some n" by (auto simp: is_open_def split: option.splits)
      have "nlookup (nd (core L1) n) \<noteq> 0" using rm n by (simp add: removable_def)
      moreover have "\<forall>h \<in> set [(parent, w)]. \<not> covers (core L1) h n" using not_covers_child [OF t1 n] by simp
      ultimately show ?thesis using True hide_node_runs [OF g1 kn hf n, of path] by (auto simp: m_def elim!: runs_mono)
    next
      case False
      let ?r = "fuse_fs_unlink (fsys L1) (Some path) (fss L1)"
      have "runs (update_core (\<lambda>f. remove_node f parent name) (L1\<lparr>fss := snd ?r\<rparr>)) (\<lambda>L2. good [(parent, w)] L2 \<and> env L1 L2)"
        using remove_runs [of parent w "L1\<lparr>fss := snd ?r\<rparr>" name] g1 rm by (auto elim!: runs_mono)
      then show ?thesis unfolding m_def if_not_P [OF False] using g1 by simp
    qed
    then obtain err L2 where b: "m = Some (err, L2)" "good [(parent, w)] L2" "env L1 L2" by (auto simp: runs_def)
    obtain L3 where c: "unlock parent w L2 = Some L3" "good [] L3" "env L2 L3" using unlock_runs [OF b(2)] by (auto simp: runs_def)
    have e: "env L L3" using env_trans [OF env_trans [OF p(2) b(3)] c(3)] .
    have "fuse_lib_unlink parent name L = reply_err err L3"
      using p(1) Inr pw b(1) c(1) unfolding fuse_lib_unlink_def by (simp add: m_def)
    then show ?thesis using answered_send [OF c(2) e] by simp
  qed
qed

lemma rmdir_answered:
  assumes "good [] L" "known (core L) parent" "path_fits (core L) parent (Some name)" "removable (core L) parent name"
  shows "runs (fuse_lib_rmdir parent name L) (answered L)"
proof -
  note t = goodD(1) [OF assms(1)]
  obtain res L1 where p: "get_path_wrlock parent name L = Some (res, L1)" "env L L1" "relocked (core L) (core L1)"
    "case res of Inl err \<Rightarrow> good [] L1 | Inr (path, w) \<Rightarrow> good [(parent, w)] L1 \<and> w = lookup_node (core L) parent name"
    using wrlock_runs [OF assms(1-4)] by (fastforce simp: runs_def split: sum.splits)
  show ?thesis
  proof (cases res)
    case (Inl err)
    then show ?thesis using p by (simp add: fuse_lib_rmdir_def answered_send)
  next
    case (Inr pw)
    obtain path w where pw: "pw = (path, w)" by (cases pw)
    have g1: "good [(parent, w)] L1" using p(4) Inr pw by auto
    have rm: "removable (core L1) parent name"
      by (rule unmoved_removable [OF unmoved_relocked [OF t p(3)] t goodD(1) [OF g1] assms(2,4)])
    define r where "r = fuse_fs_rmdir (fsys L1) (Some path) (fss L1)"
    let ?L = "L1\<lparr>fss := snd r\<rparr>"
    define m where "m = (if ret (fst r) = 0 then update_core (\<lambda>f. remove_node f parent name) ?L else Some ?L)"
    have "runs (update_core (\<lambda>f. remove_node f parent name) ?L) (\<lambda>L2. good [(parent, w)] L2 \<and> env L1 L2)"
      using remove_runs [of parent w ?L name] g1 rm by (auto elim!: runs_mono)
    then have "runs m (\<lambda>L2. good [(parent, w)] L2 \<and> env L1 L2)" using g1 by (simp add: m_def)
    then obtain L2 where b: "m = Some L2" "good [(parent, w)] L2" "env L1 L2" by (auto simp: runs_def)
    obtain L3 where c: "unlock parent w L2 = Some L3" "good [] L3" "env L2 L3" using unlock_runs [OF b(2)] by (auto simp: runs_def)
    have e: "env L L3" using env_trans [OF env_trans [OF p(2) b(3)] c(3)] .
    have "fuse_lib_rmdir parent name L = do { L \<leftarrow> m; L \<leftarrow> unlock parent w L; reply_err (ret (fst r)) L }"
      using p(1) Inr pw unfolding fuse_lib_rmdir_def by (simp add: m_def r_def)
    then have "fuse_lib_rmdir parent name L = reply_err (ret (fst r)) L3" using b(1) c(1) by simp
    then show ?thesis using answered_send [OF c(2) e] by simp
  qed
qed


section \<open>Renaming\<close>

text \<open>What the kernel checks before it asks for a rename, and that what is replaced is known to it.\<close>

definition may_rename :: "fuse \<Rightarrow> u64 \<Rightarrow> bytes \<Rightarrow> u64 \<Rightarrow> bytes \<Rightarrow> u32 \<Rightarrow> bool" where
  "may_rename f olddir oldname newdir newname flags \<longleftrightarrow>
     known f olddir \<and> known f newdir \<and>
     (\<exists>r. lookup_node f olddir oldname = Some r \<and> nlookup (nd f r) \<noteq> 0 \<and> (\<forall>p. get_fuse_node f newdir = Some p \<longrightarrow> r \<notin> above f p) \<and>
        lookup_node f newdir newname \<noteq> Some r) \<and>
     (\<forall>n. lookup_node f newdir newname = Some n \<longrightarrow> (\<forall>s. get_fuse_node f olddir = Some s \<longrightarrow> n \<notin> above f s)) \<and>
     removable f newdir newname \<and> (flags AND RENAME_EXCHANGE \<noteq> 0 \<longrightarrow> lookup_node f newdir newname \<noteq> None)"

lemma unmoved_above:
  assumes "unmoved f f'"
  shows "above f' r = above f r"
proof -
  have "parent_rel f' = parent_rel f" using assms by (auto simp: parent_rel_def unmoved_def)
  then show ?thesis by (simp add: above_def)
qed

lemma unmoved_may_rename:
  assumes "unmoved f f'" "tree_ok f" "tree_ok f'" "may_rename f olddir oldname newdir newname flags"
  shows "may_rename f' olddir oldname newdir newname flags"
proof -
  have k: "known f olddir" "known f newdir" using assms(4) by (simp_all add: may_rename_def)
  note l = unmoved_lookup [OF assms(1-3) k(1), of oldname] unmoved_lookup [OF assms(1-3) k(2), of newname]
  have "r \<in> live f" if "lookup_node f olddir oldname = Some r" for r using lookup_named(2) [OF assms(2) that] .
  then show ?thesis
    using assms(4) unmoved_known [OF assms(1,2)] k l unmoved_get [OF assms(2,3,1)] unmoved_above [OF assms(1)] unmoved_removable [OF assms(1-3) k(2)] assms(1)
    unfolding may_rename_def unmoved_def by auto
qed

lemma above_others:
  assumes "tree_ok f'" "others_kept S f f'" "S \<inter> above f p = {}"
  shows "above f' p \<subseteq> above f p"
proof
  fix q assume "q \<in> above f' p"
  then have "(p, q) \<in> (parent_rel f')\<^sup>*" by (simp add: above_def)
  then show "q \<in> above f p"
  proof (induction rule: rtrancl_induct)
    case (step y z)
    have y: "y \<notin> S" using step.IH assms(3) by blast
    have yl: "y \<in> live f'" "n_parent (nd f' y) = Some z" using step.hyps(2) by (auto simp: parent_rel_def)
    have "(y, z) \<in> parent_rel f"
      using others_keptD(1) [OF assms(2) y yl(1)] others_kept_node(1) [OF assms(2) y yl(1)] yl(2) by (simp add: parent_rel_def)
    then show ?case using step.IH by (auto simp: above_def intro: rtrancl_into_rtrancl)
  qed simp
qed

lemma known_held:
  assumes "tree_ok f" "known f ino"
  obtains s where "s \<in> held f" "n_nodeid (nd f s) = ino" "get_fuse_node f ino = Some s"
proof -
  obtain r where r: "r \<in> live f" "n_nodeid (nd f r) = ino" "\<forall>q \<in> above f r. nlookup (nd f q) \<noteq> 0"
    using assms(2) by (auto simp: known_def)
  then have "nlookup (nd f r) \<noteq> 0" using above_refl by blast
  then show thesis using that r(1,2) get_node_iff [OF tree_okD(4) [OF assms(1)], of ino r] by (simp add: held_def)
qed

lemma rename_core_runs:
  assumes "good [(newdir, w2), (olddir, w1)] L" "known (core L) olddir" "known (core L) newdir"
    and "lookup_node (core L) olddir oldname = Some r" "\<forall>p. get_fuse_node (core L) newdir = Some p \<longrightarrow> r \<notin> above (core L) p"
    and "lookup_node (core L) newdir newname \<noteq> Some r" "removable (core L) newdir newname"
    and "\<forall>n. lookup_node (core L) newdir newname = Some n \<longrightarrow> (\<forall>s. get_fuse_node (core L) olddir = Some s \<longrightarrow> n \<notin> above (core L) s)"
    and "flags AND RENAME_EXCHANGE \<noteq> 0 \<longrightarrow> lookup_node (core L) newdir newname \<noteq> None"
  shows "runs (if flags AND RENAME_EXCHANGE \<noteq> 0 then on_core (\<lambda>f. exchange_node f olddir oldname newdir newname) L
      else on_core (\<lambda>f. rename_node f olddir oldname newdir newname False) L)
    (\<lambda>(err, L'). good [(newdir, w2), (olddir, w1)] L' \<and> env L L')"
proof -
  let ?hs = "[(newdir, w2), (olddir, w1)]" and ?f = "core L"
  have st: "steady ?hs ?f" using assms(1) by (simp add: good_steady)
  note t = steadyD(1) [OF st]
  obtain s where s: "s \<in> held ?f" "n_nodeid (nd ?f s) = olddir" "get_fuse_node ?f olddir = Some s"
    by (rule known_held [OF t assms(2)])
  obtain p where p: "p \<in> held ?f" "n_nodeid (nd ?f p) = newdir" "get_fuse_node ?f newdir = Some p"
    by (rule known_held [OF t assms(3)])
  have rp: "r \<notin> above ?f p" using assms(5) p(3) by blast
  have covr: "\<not> covers ?f h r" if "h \<in> set ?hs" for h
  proof -
    have "\<not> covers ?f (newdir, w2) r" using rp p(3) chain_above by (fastforce simp: covers_def)
    then show ?thesis using that not_covers_child [OF t assms(4)] by auto
  qed
  have covn: "\<not> covers ?f h n" if n: "lookup_node ?f newdir newname = Some n" and h: "h \<in> set ?hs" for n h
  proof -
    have "n \<notin> above ?f s" using assms(8) n s(3) by blast
    then have "\<not> covers ?f (olddir, w1) n" using s(3) chain_above by (fastforce simp: covers_def)
    then show ?thesis using h not_covers_child [OF t n] by auto
  qed
  show ?thesis
  proof (cases "flags AND RENAME_EXCHANGE \<noteq> 0")
    case True
    then obtain n where n: "lookup_node ?f newdir newname = Some n" using assms(9) by blast
    have nr: "r \<noteq> n" "n \<notin> above ?f s" using n assms(6,8) s(3) by auto
    have "\<forall>h \<in> set ?hs. \<not> covers ?f h r \<and> \<not> covers ?f h n" using covr covn [OF n] by blast
    from exchange_under [OF st assms(4) n nr(1) s(1,2) p(1,2) rp nr(2) this] obtain err f' where
      "exchange_node ?f olddir oldname newdir newname = Some (err, f')" "steady ?hs f'" by blast
    then show ?thesis using True by (simp add: on_core_def good_steady)
  next
    case False
    define N where "N = set_option (lookup_node ?f newdir newname)"
    have N: "r \<notin> N" "\<forall>n \<in> N. nlookup (nd ?f n) \<noteq> 0 \<and> (remember ?f \<noteq> 0 \<longrightarrow> nlookup (nd ?f n) > 1)"
      using assms(6,7) by (auto simp: N_def removable_def)
    have "\<forall>q \<in> insert r N. \<forall>h \<in> set ?hs. \<not> covers ?f h q" using covr covn by (auto simp: N_def)
    from rename_under [OF st assms(4) p(1,2) rp N_def N(1) _ N(2) this, of False] obtain err f' where
      "rename_node ?f olddir oldname newdir newname False = Some (err, f')" "steady ?hs f'" by auto
    then show ?thesis using False by (simp add: on_core_def good_steady)
  qed
qed


lemma known_others:
  assumes "tree_ok f" "tree_ok f'" "others_kept {n} f f'" "get_fuse_node f ino = Some s" "n \<notin> above f s" "known f ino"
  shows "known f' ino" "get_fuse_node f' ino = Some s" "above f' s \<subseteq> above f s"
proof -
  note i = tree_okD [OF assms(1)]
  show ab: "above f' s \<subseteq> above f s" using above_others [OF assms(2,3)] assms(5) by blast
  obtain r where r: "r \<in> live f" "n_nodeid (nd f r) = ino" "\<forall>q \<in> above f r. nlookup (nd f q) \<noteq> 0"
    using assms(6) by (auto simp: known_def)
  have "get_fuse_node f ino = Some r" using get_node_iff [OF i(4)] r(1,2) by blast
  then have rs: "r = s" using assms(4) by simp
  have al: "above f s \<subseteq> live f" using above_live [OF i(1)] r(1) rs by simp
  have keep: "q \<in> live f' \<and> nlookup (nd f' q) \<noteq> 0 \<and> n_nodeid (nd f' q) = n_nodeid (nd f q)" if q: "q \<in> above f s" for q
  proof -
    have qn: "q \<notin> {n}" using q assms(5) by blast
    have "q \<in> held f" using q al r(3) rs by (auto simp: held_def)
    then have l: "q \<in> live f'" using others_keptD(3) [OF assms(3) qn] by blast
    then show ?thesis using others_kept_node(3,4) [OF assms(3) qn l] r(3) q rs by simp
  qed
  have s: "s \<in> live f'" "n_nodeid (nd f' s) = ino" using keep [of s] r(2) rs by simp_all
  then show "get_fuse_node f' ino = Some s" using get_node_iff [OF tree_okD(4) [OF assms(2)]] by blast
  show "known f' ino" unfolding known_def using s ab keep by (intro bexI [of _ s]) auto
qed

lemma after_hide:
  assumes "tree_ok f" "tree_ok f'" "others_kept {n} f f'" "lookup_node f newdir newname = Some n" "lookup_node f' newdir newname = None"
    and "may_rename f olddir oldname newdir newname flags" "flags AND RENAME_EXCHANGE = 0"
  shows "may_rename f' olddir oldname newdir newname flags"
proof -
  have k: "known f olddir" "known f newdir" using assms(6) by (simp_all add: may_rename_def)
  obtain r where r: "lookup_node f olddir oldname = Some r" "nlookup (nd f r) \<noteq> 0"
    "\<forall>p. get_fuse_node f newdir = Some p \<longrightarrow> r \<notin> above f p" "lookup_node f newdir newname \<noteq> Some r"
    using assms(6) by (auto simp: may_rename_def)
  obtain s where s: "s \<in> held f" "n_nodeid (nd f s) = olddir" "get_fuse_node f olddir = Some s" by (rule known_held [OF assms(1) k(1)])
  obtain p where p: "p \<in> held f" "n_nodeid (nd f p) = newdir" "get_fuse_node f newdir = Some p" by (rule known_held [OF assms(1) k(2)])
  have ns: "n \<notin> above f s" using assms(4,6) s(3) by (auto simp: may_rename_def)
  have np: "n \<notin> above f p" using parent_not_in_it(1) [OF assms(1) _ p(2) assms(4)] p(1) by (simp add: held_def)
  note ks = known_others [OF assms(1-3) s(3) ns k(1)] and kp = known_others [OF assms(1-3) p(3) np k(2)]
  have rn: "r \<notin> {n}" using r(4) assms(4) by auto
  note l = lookup_named [OF assms(1) r(1)]
  have rl: "r \<in> live f'" using others_keptD(3) [OF assms(3) rn] l(2) r(2) by (simp add: held_def)
  have sl: "s \<in> live f'" "n_nodeid (nd f' s) = olddir" using get_node_iff [OF tree_okD(4) [OF assms(2)]] ks(2) by blast+
  have "n_parent (nd f r) = Some s" using parent_not_in_it(3) [OF assms(1) _ s(2) r(1)] s(1) by (simp add: held_def)
  then have lr: "lookup_node f' olddir oldname = Some r"
    using lookup_parent [OF assms(2) sl] rl others_kept_node(1,2) [OF assms(3) rn rl] l(4) by simp
  have "nlookup (nd f' r) \<noteq> 0" using others_kept_node(3) [OF assms(3) rn rl] r(2) by simp
  then show ?thesis
    using lr ks kp r(3) p(3) assms(5,7) unfolding may_rename_def by (auto simp: removable_def)
qed

lemma rename_answered:
  assumes "good [] L" "may_rename (core L) olddir oldname newdir newname flags"
    and "path_fits (core L) olddir (Some oldname)" "path_fits (core L) newdir (Some newname)" "hidden_fits (core L) newdir"
  shows "runs (fuse_lib_rename olddir oldname newdir newname flags L) (answered L)"
proof -
  note t = goodD(1) [OF assms(1)]
  note m = assms(2) [unfolded may_rename_def]
  obtain r where r: "lookup_node (core L) olddir oldname = Some r" "nlookup (nd (core L) r) \<noteq> 0"
    "\<forall>p. get_fuse_node (core L) newdir = Some p \<longrightarrow> r \<notin> above (core L) p" "lookup_node (core L) newdir newname \<noteq> Some r"
    using m by blast
  have k: "known (core L) olddir" "known (core L) newdir" using m by blast+
  obtain res L1 where p: "get_paths olddir (Some oldname) newdir (Some newname) True True L = Some (res, L1)" "env L L1" "relocked (core L) (core L1)"
    "case res of Inl err \<Rightarrow> good [] L1
     | Inr ((p1, x1), (p2, x2)) \<Rightarrow> good [(newdir, x2), (olddir, x1)] L1"
    using get_paths_runs [OF assms(1) refl k assms(3,4), where ?wr1.0 = True and ?wr2.0 = True, OF _ refl refl] r m
    by (fastforce simp: runs_def removable_def split: sum.splits)
  show ?thesis
  proof (cases res)
    case (Inl err)
    then show ?thesis using p by (simp add: fuse_lib_rename_def answered_send)
  next
    case (Inr ps)
    obtain op w1 np w2 where ps: "ps = ((op, w1), (np, w2))" by (metis surj_pair)
    let ?hs = "[(newdir, w2), (olddir, w1)]"
    have g1: "good ?hs L1" using p(4) Inr ps by simp
    note t1 = goodD(1) [OF g1] and k1 = unmoved_relocked [OF t p(3)]
    have m1: "may_rename (core L1) olddir oldname newdir newname flags" by (rule unmoved_may_rename [OF k1 t t1 assms(2)])
    have hf: "hidden_fits (core L1) newdir" by (rule unmoved_hidden_fits [OF k1 t t1 assms(5)])
    have kn: "known (core L1) olddir" "known (core L1) newdir" using m1 by (simp_all add: may_rename_def)
    define a where "a = (if \<not> hard_remove (conf L1) \<and> flags AND RENAME_EXCHANGE = 0 \<and> is_open (core L1) newdir newname \<noteq> 0
           then hide_node np newdir newname L1 else Some (0, L1))"
    have "runs a (\<lambda>(err, L2). good ?hs L2 \<and> env L1 L2 \<and> (err = 0 \<longrightarrow> may_rename (core L2) olddir oldname newdir newname flags))"
    proof (cases "\<not> hard_remove (conf L1) \<and> flags AND RENAME_EXCHANGE = 0 \<and> is_open (core L1) newdir newname \<noteq> 0")
      case True
      then obtain n where n: "lookup_node (core L1) newdir newname = Some n" by (auto simp: is_open_def split: option.splits)
      have nl: "nlookup (nd (core L1) n) \<noteq> 0" using m1 n by (auto simp: may_rename_def removable_def)
      obtain s where s: "get_fuse_node (core L1) olddir = Some s" by (rule known_held [OF t1 kn(1)])
      have "n \<notin> above (core L1) s" using m1 n s by (auto simp: may_rename_def)
      then have "\<not> covers (core L1) (olddir, w1) n" using s chain_above by (fastforce simp: covers_def)
      then have cov: "\<forall>h \<in> set ?hs. \<not> covers (core L1) h n" using not_covers_child [OF t1 n] by simp
      obtain err L2 where h: "hide_node np newdir newname L1 = Some (err, L2)" "good ?hs L2" "env L1 L2"
        "err = 0 \<longrightarrow> others_kept {n} (core L1) (core L2) \<and> lookup_node (core L2) newdir newname = None"
        using hide_node_runs [OF g1 kn(2) hf n nl cov, of np] by (auto simp: runs_def)
      have fl: "flags AND RENAME_EXCHANGE = 0" using True by blast
      have "may_rename (core L2) olddir oldname newdir newname flags" if e: "err = 0"
      proof -
        have o: "others_kept {n} (core L1) (core L2)" "lookup_node (core L2) newdir newname = None" using h(4) e by blast+
        show ?thesis by (rule after_hide [OF t1 goodD(1) [OF h(2)] o(1) n o(2) m1 fl])
      qed
      then show ?thesis unfolding a_def if_P [OF True] h(1) using h(2,3) by simp
    next
      case False
      then show ?thesis unfolding a_def if_not_P [OF False] using g1 m1 by simp
    qed
    then obtain err L2 where b: "a = Some (err, L2)" "good ?hs L2" "env L1 L2" "err = 0 \<Longrightarrow> may_rename (core L2) olddir oldname newdir newname flags"
      by (auto simp: runs_def)
    define q where "q = fuse_fs_rename (fsys L2) (Some op) (Some np) flags (fss L2)"
    let ?L = "L2\<lparr>fss := snd q\<rparr>"
    define c where "c = (if err \<noteq> 0 then Some (err, L2)
           else if ret (fst q) \<noteq> 0 then Some (ret (fst q), ?L)
                   else if flags AND RENAME_EXCHANGE \<noteq> 0 then on_core (\<lambda>f. exchange_node f olddir oldname newdir newname) ?L
                   else on_core (\<lambda>f. rename_node f olddir oldname newdir newname False) ?L)"
    have st: "fuse_lib_rename olddir oldname newdir newname flags L = do {
        (err, L) \<leftarrow> c; L \<leftarrow> unlock2 olddir newdir w1 w2 L; reply_err err L }"
      using p(1) Inr ps b(1) by (simp add: fuse_lib_rename_def a_def c_def q_def)
    have "runs c (\<lambda>(err, L3). good ?hs L3 \<and> env L2 L3)"
    proof (cases "err = 0")
      case True
      note m2 = b(4) [OF True, unfolded may_rename_def]
      obtain r2 where r2: "lookup_node (core L2) olddir oldname = Some r2"
        "\<forall>p. get_fuse_node (core L2) newdir = Some p \<longrightarrow> r2 \<notin> above (core L2) p" "lookup_node (core L2) newdir newname \<noteq> Some r2"
        using m2 by blast
      have "runs (if flags AND RENAME_EXCHANGE \<noteq> 0 then on_core (\<lambda>f. exchange_node f olddir oldname newdir newname) ?L
        else on_core (\<lambda>f. rename_node f olddir oldname newdir newname False) ?L) (\<lambda>(err, L'). good ?hs L' \<and> env ?L L')"
        using rename_core_runs [of newdir w2 olddir w1 ?L oldname r2 newname flags] b(2) m2 r2 by simp
      then show ?thesis using True b(2) by (simp add: c_def)
    qed (use b(2) in \<open>simp add: c_def\<close>)
    then obtain e L3 where d: "c = Some (e, L3)" "good ?hs L3" "env L2 L3" by (auto simp: runs_def)
    obtain L4 where u: "unlock2 olddir newdir w1 w2 L3 = Some L4" "good [] L4" "env L3 L4" using unlock2_runs [OF d(2)] by (auto simp: runs_def)
    have "env L L4" using env_trans [OF env_trans [OF p(2) b(3)] env_trans [OF d(3) u(3)]] .
    then show ?thesis unfolding st using d(1) u answered_send by simp
  qed
qed

end
