(* ===== verification/Fuse_Lib_Requests.thy ===== *)
theory Fuse_Lib_Requests
  imports Fuse_Lib_Hide
begin

text \<open>
  All requests of the library together: the table \<open>fuse_path_ops\<close>, the requests that are followed (\<open>allowed\<close>), and runs of
  requests from the first state on (\<open>served\<close>).
\<close>

section \<open>The table of requests\<close>

text \<open>The requests of \<open>fuse_path_ops\<close> that are modelled, by the names of their opcodes, and the function that serves each.\<close>

datatype request =
    FUSE_LOOKUP u64 bytes
  | FUSE_FORGET u64 u64
  | FUSE_BATCH_FORGET "(u64 \<times> u64) list"
  | FUSE_GETATTR u64 "fuse_file_info option"
  | FUSE_SETATTR u64 fuse_stat u32 "fuse_file_info option"
  | FUSE_ACCESS u64 int
  | FUSE_READLINK u64
  | FUSE_MKNOD u64 bytes u32 u64
  | FUSE_MKDIR u64 bytes u32
  | FUSE_UNLINK u64 bytes
  | FUSE_RMDIR u64 bytes
  | FUSE_SYMLINK bytes u64 bytes
  | FUSE_RENAME u64 bytes u64 bytes u32
  | FUSE_LINK u64 u64 bytes
  | FUSE_CREATE u64 bytes u32 fuse_file_info
  | FUSE_OPEN u64 fuse_file_info
  | FUSE_FLUSH u64 fuse_file_info
  | FUSE_RELEASE u64 fuse_file_info
  | FUSE_FSYNC u64 int fuse_file_info
  | FUSE_STATFS u64
  | FUSE_SETXATTR u64 bytes bytes int
  | FUSE_GETXATTR u64 bytes nat
  | FUSE_LISTXATTR u64 nat
  | FUSE_REMOVEXATTR u64 bytes
  | FUSE_GETLK u64 fuse_file_info flock
  | FUSE_SETLK u64 fuse_file_info flock bool
  | FUSE_FLOCK u64 fuse_file_info int
  | FUSE_BMAP u64 nat u64
  | FUSE_POLL u64 fuse_file_info "u64 option"
  | FUSE_FALLOCATE u64 int int int fuse_file_info
  | FUSE_COPY_FILE_RANGE u64 int fuse_file_info u64 int fuse_file_info u64 int
  | FUSE_LSEEK u64 int int fuse_file_info

fun fuse_path_ops :: "request \<Rightarrow> 's lib \<Rightarrow> 's lib option" where
  "fuse_path_ops (FUSE_LOOKUP parent name) = fuse_lib_lookup parent name"
| "fuse_path_ops (FUSE_FORGET ino k) = fuse_lib_forget ino k"
| "fuse_path_ops (FUSE_BATCH_FORGET forgets) = fuse_lib_forget_multi forgets"
| "fuse_path_ops (FUSE_GETATTR ino fi) = fuse_lib_getattr ino fi"
| "fuse_path_ops (FUSE_SETATTR ino attr valid fi) = fuse_lib_setattr ino attr valid fi"
| "fuse_path_ops (FUSE_ACCESS ino amode) = fuse_lib_access ino amode"
| "fuse_path_ops (FUSE_READLINK ino) = fuse_lib_readlink ino"
| "fuse_path_ops (FUSE_MKNOD parent name m rdev) = fuse_lib_mknod parent name m rdev"
| "fuse_path_ops (FUSE_MKDIR parent name m) = fuse_lib_mkdir parent name m"
| "fuse_path_ops (FUSE_UNLINK parent name) = fuse_lib_unlink parent name"
| "fuse_path_ops (FUSE_RMDIR parent name) = fuse_lib_rmdir parent name"
| "fuse_path_ops (FUSE_SYMLINK linkname parent name) = fuse_lib_symlink linkname parent name"
| "fuse_path_ops (FUSE_RENAME olddir oldname newdir newname flags) = fuse_lib_rename olddir oldname newdir newname flags"
| "fuse_path_ops (FUSE_LINK ino newparent newname) = fuse_lib_link ino newparent newname"
| "fuse_path_ops (FUSE_CREATE parent name m fi) = fuse_lib_create parent name m fi"
| "fuse_path_ops (FUSE_OPEN ino fi) = fuse_lib_open ino fi"
| "fuse_path_ops (FUSE_FLUSH ino fi) = fuse_lib_flush ino fi"
| "fuse_path_ops (FUSE_RELEASE ino fi) = fuse_lib_release ino fi"
| "fuse_path_ops (FUSE_FSYNC ino datasync fi) = fuse_lib_fsync ino datasync fi"
| "fuse_path_ops (FUSE_STATFS ino) = fuse_lib_statfs ino"
| "fuse_path_ops (FUSE_SETXATTR ino name val flags) = fuse_lib_setxattr ino name val flags"
| "fuse_path_ops (FUSE_GETXATTR ino name sz) = fuse_lib_getxattr ino name sz"
| "fuse_path_ops (FUSE_LISTXATTR ino sz) = fuse_lib_listxattr ino sz"
| "fuse_path_ops (FUSE_REMOVEXATTR ino name) = fuse_lib_removexattr ino name"
| "fuse_path_ops (FUSE_GETLK ino fi lk) = fuse_lib_getlk ino fi lk"
| "fuse_path_ops (FUSE_SETLK ino fi lk sleep) = fuse_lib_setlk ino fi lk sleep"
| "fuse_path_ops (FUSE_FLOCK ino fi opn) = fuse_lib_flock ino fi opn"
| "fuse_path_ops (FUSE_BMAP ino blocksize idx) = fuse_lib_bmap ino blocksize idx"
| "fuse_path_ops (FUSE_POLL ino fi ph) = fuse_lib_poll ino fi ph"
| "fuse_path_ops (FUSE_FALLOCATE ino m off len fi) = fuse_lib_fallocate ino m off len fi"
| "fuse_path_ops (FUSE_COPY_FILE_RANGE ino_in off_in fi_in ino_out off_out fi_out len flags) =
     fuse_lib_copy_file_range ino_in off_in fi_in ino_out off_out fi_out len flags"
| "fuse_path_ops (FUSE_LSEEK ino off whence fi) = fuse_lib_lseek ino off whence fi"

section \<open>Which requests are allowed\<close>

text \<open>
  A request is allowed in a state when the nodes it names are there, in use and below nodes in use, when it forgets no more
  lookups than a node has, without that of the cache, and when the names that it removes and renames stand for nodes in use
  or for none. A file that it releases is open, and a range to lock is one. Paths have a length that fits, and a lookup
  leaves room for one more node. These are conditions on the nodes of the library: with \<open>remember\<close> the library can drop a
  node that the caller still uses. Lookups of \<open>.\<close> and \<open>..\<close> are not allowed here.
\<close>

definition may_forget :: "fuse \<Rightarrow> u64 \<Rightarrow> u64 \<Rightarrow> bool" where
  "may_forget f ino k \<longleftrightarrow> ino = FUSE_ROOT_ID \<or> (\<exists>r. forgettable_times k f r \<and> n_nodeid (nd f r) = ino)"

fun may_forget_all :: "fuse \<Rightarrow> (u64 \<times> u64) list \<Rightarrow> bool" where
  "may_forget_all f [] \<longleftrightarrow> True"
| "may_forget_all f ((ino, k) # rest) \<longleftrightarrow> may_forget f ino k \<and> (\<forall>b f'. forget_node f ino k = Some (b, f') \<longrightarrow> may_forget_all f' rest)"

definition may_make :: "fuse \<Rightarrow> u64 \<Rightarrow> bytes \<Rightarrow> bool" where
  "may_make f parent name \<longleftrightarrow> can_enter f parent \<and> path_fits f parent (Some name)"

definition may_remove :: "fuse \<Rightarrow> u64 \<Rightarrow> bytes \<Rightarrow> bool" where
  "may_remove f parent name \<longleftrightarrow> known f parent \<and> path_fits f parent (Some name) \<and> removable f parent name"

fun allowed :: "fuse \<Rightarrow> request \<Rightarrow> bool" where
  "allowed f (FUSE_LOOKUP parent name) \<longleftrightarrow> may_make f parent name \<and> name \<noteq> DOT_NAME \<and> name \<noteq> DOTDOT_NAME"
| "allowed f (FUSE_FORGET ino k) \<longleftrightarrow> may_forget f ino k"
| "allowed f (FUSE_BATCH_FORGET forgets) \<longleftrightarrow> may_forget_all f forgets"
| "allowed f (FUSE_GETATTR ino fi) \<longleftrightarrow> reachable_node f ino"
| "allowed f (FUSE_SETATTR ino attr valid fi) \<longleftrightarrow> reachable_node f ino"
| "allowed f (FUSE_ACCESS ino amode) \<longleftrightarrow> reachable_node f ino"
| "allowed f (FUSE_READLINK ino) \<longleftrightarrow> reachable_node f ino"
| "allowed f (FUSE_MKNOD parent name m rdev) \<longleftrightarrow> may_make f parent name"
| "allowed f (FUSE_MKDIR parent name m) \<longleftrightarrow> may_make f parent name"
| "allowed f (FUSE_UNLINK parent name) \<longleftrightarrow> may_remove f parent name \<and> hidden_fits f parent"
| "allowed f (FUSE_RMDIR parent name) \<longleftrightarrow> may_remove f parent name"
| "allowed f (FUSE_SYMLINK linkname parent name) \<longleftrightarrow> may_make f parent name"
| "allowed f (FUSE_RENAME olddir oldname newdir newname flags) \<longleftrightarrow> may_rename f olddir oldname newdir newname flags \<and>
     path_fits f olddir (Some oldname) \<and> path_fits f newdir (Some newname) \<and> hidden_fits f newdir"
| "allowed f (FUSE_LINK ino newparent newname) \<longleftrightarrow> reachable_node f ino \<and> may_make f newparent newname"
| "allowed f (FUSE_CREATE parent name m fi) \<longleftrightarrow> may_make f parent name"
| "allowed f (FUSE_OPEN ino fi) \<longleftrightarrow> reachable_node f ino"
| "allowed f (FUSE_FLUSH ino fi) \<longleftrightarrow> reachable_node f ino"
| "allowed f (FUSE_RELEASE ino fi) \<longleftrightarrow> reachable_node f ino \<and> (\<exists>r. get_fuse_node f ino = Some r \<and> open_count (nd f r) > 0)"
| "allowed f (FUSE_FSYNC ino datasync fi) \<longleftrightarrow> reachable_node f ino"
| "allowed f (FUSE_STATFS ino) \<longleftrightarrow> ino = 0 \<or> reachable_node f ino"
| "allowed f (FUSE_SETXATTR ino name val flags) \<longleftrightarrow> reachable_node f ino"
| "allowed f (FUSE_GETXATTR ino name sz) \<longleftrightarrow> reachable_node f ino"
| "allowed f (FUSE_LISTXATTR ino sz) \<longleftrightarrow> reachable_node f ino"
| "allowed f (FUSE_REMOVEXATTR ino name) \<longleftrightarrow> reachable_node f ino"
| "allowed f (FUSE_GETLK ino fi lk) \<longleftrightarrow> reachable_node f ino \<and> flock_ok lk"
| "allowed f (FUSE_SETLK ino fi lk sleep) \<longleftrightarrow> reachable_node f ino \<and> flock_ok lk"
| "allowed f (FUSE_FLOCK ino fi opn) \<longleftrightarrow> reachable_node f ino"
| "allowed f (FUSE_BMAP ino blocksize idx) \<longleftrightarrow> reachable_node f ino"
| "allowed f (FUSE_POLL ino fi ph) \<longleftrightarrow> reachable_node f ino"
| "allowed f (FUSE_FALLOCATE ino m off len fi) \<longleftrightarrow> reachable_node f ino"
| "allowed f (FUSE_COPY_FILE_RANGE ino_in off_in fi_in ino_out off_out fi_out len flags) \<longleftrightarrow> reachable_node f ino_in \<and> reachable_node f ino_out"
| "allowed f (FUSE_LSEEK ino off whence fi) \<longleftrightarrow> reachable_node f ino"

section \<open>Forgetting\<close>

lemma forget_times_runs:
  assumes "good [] L" "may_forget (core L) ino k"
  shows "runs (forget ino k L) (\<lambda>L'. good [] L' \<and> env L L')"
proof -
  have "steady [] (core L)" using assms(1) by (simp add: good_steady)
  then obtain f' where "forget_node (core L) ino k = Some (True, f')" "steady [] f'"
    using forget_times_held [of "[]" "core L" ino k] assms(2) apart_Nil unfolding may_forget_def by blast
  then show ?thesis by (simp add: forget_def on_core_def good_steady)
qed

lemma forget_answered: "good [] L \<Longrightarrow> may_forget (core L) ino k \<Longrightarrow> runs (fuse_lib_forget ino k L) (answered L)"
  unfolding fuse_lib_forget_def runs_bind by (rule runs_mono [OF forget_times_runs]) (auto intro: answered_send)

lemma forget_core:
  assumes "forget ino k L = Some L'"
  shows "\<exists>b. forget_node (core L) ino k = Some (b, core L')"
proof (cases "forget_node (core L) ino k")
  case (Some p)
  have "L' = L\<lparr>core := snd p\<rparr>" using assms Some by (cases p) (simp add: forget_def on_core_def split: if_splits)
  then have "forget_node (core L) ino k = Some (fst p, core L')" using Some by simp
  then show ?thesis by blast
qed (use assms in \<open>simp add: forget_def on_core_def\<close>)

lemma forget_all_runs:
  assumes "good [] L" "may_forget_all (core L) forgets"
  shows "runs (forget_all forgets L) (\<lambda>L'. good [] L' \<and> env L L')"
  using assms
proof (induction forgets arbitrary: L)
  case (Cons x rest)
  obtain ino k where x: "x = (ino, k)" by (cases x)
  obtain L1 where a: "forget ino k L = Some L1" "good [] L1" "env L L1"
    using forget_times_runs [OF Cons.prems(1), of ino k] Cons.prems(2) x by (auto simp: runs_def)
  have "may_forget_all (core L1) rest" using forget_core [OF a(1)] Cons.prems(2) x by auto
  from Cons.IH [OF a(2) this] show ?case using x a(1) env_trans [OF a(3)] by (auto elim!: runs_mono)
qed simp

lemma forget_multi_answered: "good [] L \<Longrightarrow> may_forget_all (core L) forgets \<Longrightarrow> runs (fuse_lib_forget_multi forgets L) (answered L)"
  unfolding fuse_lib_forget_multi_def runs_bind by (rule runs_mono [OF forget_all_runs]) (auto intro: answered_send)

section \<open>Runs of requests\<close>

lemmas request_answered = lookup_answered forget_answered forget_multi_answered getattr_answered setattr_answered access_answered
  readlink_answered mknod_answered mkdir_answered unlink_answered rmdir_answered symlink_answered rename_answered link_answered
  create_answered open_answered flush_answered release_answered fsync_answered statfs_answered setxattr_answered getxattr_answered
  listxattr_answered removexattr_answered getlk_answered setlk_answered flock_answered bmap_answered poll_answered fallocate_answered
  copy_file_range_answered lseek_answered

text \<open>Between two requests no path is locked, and the nodes and the byte-range locks are well formed.\<close>

definition idle :: "'s lib \<Rightarrow> bool" where
  "idle L \<longleftrightarrow> good [] L \<and> locks_fine L \<and> fs_answers (fsys L)"

lemma serve_answered:
  assumes "good [] L" "locks_fine L" "fs_answers (fsys L)" "allowed (core L) req"
  shows "runs (fuse_path_ops req L) (answered L)"
  by (insert assms, cases req; simp only: allowed.simps fuse_path_ops.simps may_make_def may_remove_def; (elim conjE exE)?; rule request_answered; assumption)

inductive served :: "'s lib \<Rightarrow> bool" where
  start: "fuse_new_nodes rem oks t = Some (core L) \<Longrightarrow> node_locks L = (\<lambda>_. []) \<Longrightarrow> replies L = [] \<Longrightarrow> fs_answers (fsys L) \<Longrightarrow> served L"
| step: "served L \<Longrightarrow> allowed (core L) req \<Longrightarrow> fuse_path_ops req L = Some L' \<Longrightarrow> served L'"

lemma start_good: "fuse_new_nodes rem oks t = Some (core L) \<Longrightarrow> good [] L"
  using start_ok [of rem oks t "core L"] by (simp add: good_def held_Nil opens_ok_def)

lemma replied_locks: "replied L L' \<Longrightarrow> locks_fine L \<Longrightarrow> locks_fine L'" "replied L L' \<Longrightarrow> fsys L' = fsys L"
  by (auto simp: replied_def env_def locks_fine_def)

lemma served_idle: "served L \<Longrightarrow> idle L"
  unfolding idle_def
proof (induction rule: served.induct)
  case (start rem oks t L)
  then show ?case using start_good by (simp add: locks_fine_def)
next
  case (step L req L')
  then have "answered L L'" using serve_answered [of L req] by (simp add: runs_def)
  then show ?case using step.IH replied_locks(1) [of L L'] replied_locks(2) [of L L'] by (simp add: answered_def)
qed

lemma served_answered: "served L \<Longrightarrow> allowed (core L) req \<Longrightarrow> runs (fuse_path_ops req L) (answered L)"
  using served_idle serve_answered unfolding idle_def by blast

end
