(* ===== verification/Fuse_Lib_Calls.thy ===== *)
theory Fuse_Lib_Calls
  imports Fuse_Lib_Requests
begin

text \<open>
  What requests do to the file system and the nodes: a file that is open is hidden instead of removed and
  removed with its last release, and a lookup whose reply nobody gets leaves nothing behind.
\<close>

section \<open>Which calls a request makes\<close>

text \<open>\<open>calls fs K s s'\<close>: the file system gets from \<open>s\<close> to \<open>s'\<close> by calls in \<open>K\<close>.\<close>

inductive calls :: "'s fuse_fs \<Rightarrow> fs_call set \<Rightarrow> 's \<Rightarrow> 's \<Rightarrow> bool" for fs K where
  none: "calls fs K s s"
| call: "calls fs K s s' \<Longrightarrow> c \<in> K \<Longrightarrow> calls fs K s (snd (run_op fs c s'))"

lemma calls_trans: "calls fs K s s1 \<Longrightarrow> calls fs K s1 s2 \<Longrightarrow> calls fs K s s2"
  by (rotate_tac, induction rule: calls.induct) (auto intro: calls.intros)

lemma calls_one: "c \<in> K \<Longrightarrow> calls fs K s (snd (run_op fs c s))"
  by (rule calls.call [OF calls.none])

abbreviation no_unlink :: "fs_call set" where
  "no_unlink \<equiv> - range Call_unlink"

lemma calls_simple:
  "calls fs no_unlink s (snd (fuse_fs_getattr fs path fi s))" "calls fs no_unlink s (snd (fuse_fs_rename fs old new flags s))"
  "calls fs no_unlink s (snd (fuse_fs_release fs path fi' s))" "calls fs no_unlink s (snd (fuse_fs_flush fs path fi' s))"
  "calls fs no_unlink s (snd (fuse_fs_lock fs path fi' cmd lk s))"
  by (auto simp: fuse_fs_getattr_def fuse_fs_rename_def fuse_fs_release_def fuse_fs_flush_def fuse_fs_lock_def intro: calls_one calls.none)

section \<open>Releasing\<close>

lemma path_of_node:
  assumes "good [] L" "reachable_node (core L) ino" "get_fuse_node (core L) ino = Some r" "chain (core L) r qs e"
    and "n_nodeid (nd (core L) e) = FUSE_ROOT_ID" "\<forall>k. mallocs (core L) k"
  shows "runs (get_path ino L) (\<lambda>(res, L'). res = Inr (Some (full_path (core L) qs None)) \<and> good [(ino, None)] L' \<and> env L L' \<and>
    relocked (core L) (core L') \<and> fss L' = fss L)"
proof -
  note t = goodD(1) [OF assms(1)]
  have r: "r \<in> live (core L)" "n_nodeid (nd (core L) r) = ino" using get_node_iff [OF tree_okD(4) [OF t]] assms(3) by blast+
  have k: "known (core L) ino" "path_fits (core L) ino None" using assms(2) by (simp_all add: reachable_node_def)
  have z: "\<forall>q \<in> set qs. 0 \<le> treelock (nd (core L) q)"
    using goodD(3) [OF assms(1)] chain_live [OF assms(4)] by (auto simp: held_Nil)
  obtain j where "try_get_path (core L) ino None False True = Some (Inr (full_path (core L) qs None, None), (relock (taken True qs None) (core L))\<lparr>malloc_no := j\<rparr>)"
    using path_available [OF tree_okD(3) [OF t] r assms(4,5) k(2) _ assms(6) z, of False None] by auto
  then have "fst (the (get_path ino L)) = Inr (Some (full_path (core L) qs None))"
    by (simp add: get_path_def get_path_name_def lock_path_def get_path_common_def)
  moreover have "runs (get_path ino L) (\<lambda>(res, L'). env L L' \<and> fss L' = fss L \<and> relocked (core L) (core L') \<and>
    (case res of Inl err \<Rightarrow> err < 0 \<and> good [] L' | Inr path \<Rightarrow> path \<noteq> None \<and> good [(ino, None)] L'))"
    unfolding get_path_def by (rule get_path_name_runs [OF assms(1) _ k free_way_good [OF assms(1)]]) simp
  ultimately show ?thesis by (auto simp: runs_def)
qed

lemma unmoved_full_path:
  assumes "unmoved f f'" "chain f r qs e"
  shows "full_path f' qs name = full_path f qs name"
proof -
  have "\<forall>q \<in> set qs. n_name (nd f' q) = n_name (nd f q)" using chain_live [OF assms(2)] assms(1) unfolding unmoved_def by blast
  then have "map (\<lambda>q. SLASH # the (n_name (nd f' q))) (rev qs) = map (\<lambda>q. SLASH # the (n_name (nd f q))) (rev qs)"
    by (intro map_cong [OF refl]) simp
  then have "path_string f' qs = path_string f qs" unfolding path_string_def by (rule arg_cong)
  then show ?thesis by (simp add: full_path_def)
qed

lemma flush_common_calls:
  "fuse_flush_common ino path fi L = Some (err, L') \<Longrightarrow> calls (fsys L) no_unlink (fss L) (fss L')"
proof -
  assume h: "fuse_flush_common ino path fi L = Some (err, L')"
  define q where "q = fuse_fs_flush (fsys L) path fi (fss L)"
  define q2 where "q2 = fuse_fs_lock (fsys L) path fi F_SETLK unlock_all (snd q)"
  have c: "calls (fsys L) no_unlink (fss L) (snd q)" "calls (fsys L) no_unlink (snd q) (snd q2)"
    unfolding q_def q2_def by (rule calls_simple)+
  have "fss L' = snd q2"
    using h by (auto simp: fuse_flush_common_def q_def q2_def set_lock_def bind_eq_Some_conv next_malloc_eq split: if_splits option.splits)
  then show ?thesis using calls_trans [OF c] by simp
qed


section \<open>A file that is closed\<close>

text \<open>One close fewer; with the last one of a hidden file, and only then, the file system removes it.\<close>

definition closed_once :: "nat \<Rightarrow> bytes \<Rightarrow> 's lib \<Rightarrow> 's lib \<Rightarrow> bool" where
  "closed_once r path L L' \<longleftrightarrow>
     open_count (nd (core L') r) = open_count (nd (core L) r) - 1 \<and>
     (\<exists>s. calls (fsys L) no_unlink (fss L) s \<and>
        (if is_hidden (nd (core L) r) \<and> open_count (nd (core L) r) = 1
         then fss L' = snd (fuse_fs_unlink (fsys L) (Some path) s) \<and> \<not> is_hidden (nd (core L') r)
         else fss L' = s \<and> is_hidden (nd (core L') r) = is_hidden (nd (core L) r)))"

lemma closed_once_replies [simp]: "closed_once r path L (L'\<lparr>replies := rs\<rparr>) = closed_once r path L L'"
  by (simp add: closed_once_def)

lemma closed_once_relocked:
  assumes "closed_once r path L L1" "tree_ok (core L1)" "relocked (core L1) (core L')" "r \<in> live (core L1)" "fss L' = fss L1"
  shows "closed_once r path L L'"
proof -
  note v = relockedD(13,14) [OF tree_okD(3) [OF assms(2)] assms(3,4)]
  show ?thesis using assms(1) unfolding closed_once_def v assms(5) .
qed

lemma closed_once_later:
  assumes "closed_once r path L1 L'" "calls (fsys L) no_unlink (fss L) (fss L1)" "fsys L1 = fsys L"
    and "open_count (nd (core L1) r) = open_count (nd (core L) r)" "is_hidden (nd (core L1) r) = is_hidden (nd (core L) r)"
  shows "closed_once r path L L'"
  using assms(1) calls_trans [OF assms(2)] unfolding closed_once_def assms(3,4,5) by blast

lemma do_release_calls:
  assumes "good (holds ino path) L" "get_fuse_node (core L) ino = Some r" "open_count (nd (core L) r) > 0" "reachable_node (core L) ino"
    and "chain (core L) r qs e" "n_nodeid (nd (core L) e) = FUSE_ROOT_ID" "\<forall>k. mallocs (core L) k" "p = full_path (core L) qs None"
    and "path = (if nullpath_ok (conf L) then None else Some p)"
  shows "runs (fuse_do_release ino path fi L) (\<lambda>L'. good (holds ino path) L' \<and> env L L' \<and> unmoved (core L) (core L') \<and> closed_once r p L L')"
proof -
  note t = goodD(1) [OF assms(1)]
  let ?L = "L\<lparr>fss := snd (fuse_fs_release (fsys L) path fi (fss L))\<rparr>"
  have c: "calls (fsys L) no_unlink (fss L) (fss ?L)" using calls_simple(3) [of "fsys L" "fss L" path fi] by simp
  obtain b L1 where d: "drop_open ino ?L = Some (b, L1)" "good (holds ino path) L1" "env ?L L1" "unmoved (core L) (core L1)" "L1 = ?L\<lparr>core := core L1\<rparr>"
    "nd (core L1) r = (nd (core L) r)\<lparr>open_count := open_count (nd (core L) r) - 1, is_hidden := is_hidden (nd (core L) r) \<and> \<not> b\<rparr>"
    "b \<longleftrightarrow> is_hidden (nd (core L) r) \<and> open_count (nd (core L) r) = 1"
    using drop_open_runs [of "holds ino path" ?L ino r] assms(1-3) by (auto simp: runs_def)
  have e: "env L L1" using d(3) by simp
  have f1: "fss L1 = fss ?L" by (subst d(5)) simp
  have fs: "fsys L1 = fsys L" "conf L1 = conf L" using e by (simp_all add: env_def)
  show ?thesis
  proof (cases "\<not> b")
    case True
    have "closed_once r p L L1" using True d(6,7) f1 c by (auto simp: closed_once_def)
    then show ?thesis using True d(1,2,4) e by (simp add: fuse_do_release_def)
  next
    case b: False
    have hid: "is_hidden (nd (core L) r) \<and> open_count (nd (core L) r) = 1" using b d(7) by simp
    have once: "closed_once r p L L2" if "fss L2 = snd (fuse_fs_unlink (fsys L) (Some p) (fss ?L))" "core L2 = core L1" for L2
      using that c d(6) hid b by (auto simp: closed_once_def)
    show ?thesis
    proof (cases "nullpath_ok (conf L)")
      case False
      let ?L2 = "L1\<lparr>fss := snd (fuse_fs_unlink (fsys L) (Some p) (fss L1))\<rparr>"
      have "fuse_do_release ino path fi L = Some ?L2" using b d(1) False assms(9) fs by (simp add: fuse_do_release_def)
      moreover have "closed_once r p L ?L2" by (rule once) (simp_all add: f1)
      ultimately show ?thesis using d(2,4) e by simp
    next
      case True
      then have pn: "path = None" using assms(9) by simp
      have g1: "good [] L1" using d(2) pn by simp
      note t1 = goodD(1) [OF g1]
      have el: "e \<in> live (core L)" using chain_live [OF assms(5)] by simp
      have n1: "get_fuse_node (core L1) ino = Some r" using unmoved_get [OF t t1 d(4)] assms(2) by simp
      have e1: "n_nodeid (nd (core L1) e) = FUSE_ROOT_ID" "\<forall>k. mallocs (core L1) k" using d(4) el assms(6,7) by (simp_all add: unmoved_def)
      obtain L2 where q: "get_path ino L1 = Some (Inr (Some p), L2)" "good [(ino, None)] L2" "env L1 L2" "relocked (core L1) (core L2)" "fss L2 = fss L1"
        using path_of_node [OF g1 unmoved_reachable [OF d(4) t t1 assms(4)] n1 unmoved_chain [OF d(4) assms(5)] e1]
          unmoved_full_path [OF d(4) assms(5)] assms(8) by (auto simp: runs_def)
      let ?L3 = "L2\<lparr>fss := snd (fuse_fs_unlink (fsys L2) (Some p) (fss L2))\<rparr>"
      have g3: "good (holds ino (Some p) @ []) ?L3" using q(2) by (simp add: holds_def)
      obtain L4 where u: "free_path ino (Some p) ?L3 = Some L4" "good [] L4" "env ?L3 L4" "relocked (core ?L3) (core L4)" "fss L4 = fss ?L3"
        using free_path_runs [OF g3] by (auto simp: runs_def)
      have st: "fuse_do_release ino path fi L = Some L4" using b d(1) True pn fs q(1) u(1) by (simp add: fuse_do_release_def)
      have rel: "relocked (core L1) (core L4)" using relocked_trans [OF q(4)] u(4) by simp
      have f3: "fsys L2 = fsys L" using q(3) fs by (simp add: env_def)
      have rl: "r \<in> live (core L1)" using get_node_iff [OF tree_okD(4) [OF t1]] n1 by blast
      have "closed_once r p L (L1\<lparr>fss := fss L4\<rparr>)" by (rule once) (simp_all add: u(5) q(5) f1 f3)
      then have "closed_once r p L L4" by (rule closed_once_relocked) (use t1 rel rl in simp_all)
      moreover have "env L L4" using env_trans [OF env_trans [OF e q(3)]] u(3) by simp
      ultimately show ?thesis unfolding st using u(2) pn unmoved_trans [OF d(4) unmoved_relocked [OF t1 rel]] by simp
    qed
  qed
qed

lemma nullok_exact:
  assumes "good [] L" "reachable_node (core L) ino" "get_fuse_node (core L) ino = Some r" "chain (core L) r qs e"
    and "n_nodeid (nd (core L) e) = FUSE_ROOT_ID" "\<forall>k. mallocs (core L) k" "p = full_path (core L) qs None"
    and "path = (if nullpath_ok (conf L) then None else Some p)"
  shows "runs (get_path_nullok ino L) (\<lambda>(res, L'). res = Inr path \<and> good (holds ino path) L' \<and> env L L' \<and> relocked (core L) (core L') \<and> fss L' = fss L)"
proof (cases "nullpath_ok (conf L)")
  case True
  then show ?thesis using assms(1,8) relocked_refl by (simp add: get_path_nullok_def)
next
  case False
  obtain L' where g: "get_path ino L = Some (Inr (Some p), L')" "good [(ino, None)] L'" "env L L'" "relocked (core L) (core L')" "fss L' = fss L"
    using path_of_node [OF assms(1-6)] assms(7) by (auto simp: runs_def)
  then have "get_path_nullok ino L = Some (Inr (Some p), L')" using False by (simp add: get_path_nullok_def)
  then show ?thesis using g False assms(8) by (simp add: holds_def)
qed

lemma some_path_exact:
  assumes "good [] L" "reachable_node (core L) ino" "get_fuse_node (core L) ino = Some r" "chain (core L) r qs e"
    and "n_nodeid (nd (core L) e) = FUSE_ROOT_ID" "\<forall>k. mallocs (core L) k" "p = full_path (core L) qs None"
    and "path = (if nullpath_ok (conf L) then None else Some p)"
  shows "runs (some_path ino L) (\<lambda>(path', L'). path' = path \<and> good (holds ino path) L' \<and> env L L' \<and> relocked (core L) (core L') \<and> fss L' = fss L)"
  using nullok_exact [OF assms] by (auto simp: some_path_def runs_def)

lemma released_file:
  assumes "good [] L" "locks_fine L" "fs_answers (fsys L)" "allowed (core L) (FUSE_RELEASE ino fi)" "get_fuse_node (core L) ino = Some r"
    and "chain (core L) r qs e" "n_nodeid (nd (core L) e) = FUSE_ROOT_ID" "\<forall>k. mallocs (core L) k" "p = full_path (core L) qs None"
  shows "\<exists>L' err. fuse_lib_release ino fi L = Some L' \<and> replies L' = replies L @ [Reply_err err] \<and> closed_once r p L L'"
proof -
  note t = goodD(1) [OF assms(1)]
  have a: "reachable_node (core L) ino" "open_count (nd (core L) r) > 0" using assms(4,5) by auto
  define path where "path = (if nullpath_ok (conf L) then None else Some p)"
  obtain L1 where p: "some_path ino L = Some (path, L1)" "good (holds ino path) L1" "env L L1" "relocked (core L) (core L1)" "fss L1 = fss L"
    using some_path_exact [OF assms(1) a(1) assms(5-9) path_def] by (auto simp: runs_def)
  have n: "get_fuse_node (core L1) ino = Some r" using get_kept [OF t p(4)] assms(5) by simp
  define m where "m = (if fi_flush fi then fuse_flush_common ino path fi L1 else Some (0, L1))"
  have "runs m (\<lambda>(err, L2). good (holds ino path) L2 \<and> env L L2 \<and> relocked (core L1) (core L2))"
  proof (cases "fi_flush fi")
    case True
    then show ?thesis unfolding m_def
      using flush_common_runs [OF p(2), of ino path fi] n assms(3) env_locks [OF p(3) assms(2)] env_fsys(1) [OF p(3)] env_trans [OF p(3)]
      by (auto elim!: runs_mono)
  next
    case False
    then show ?thesis using p(2,3) relocked_refl by (simp add: m_def)
  qed
  then obtain err L2 where c: "m = Some (err, L2)" "good (holds ino path) L2" "env L L2" "relocked (core L1) (core L2)"
    by (auto simp: runs_def)
  have fs: "fsys L1 = fsys L" "fsys L2 = fsys L" "conf L2 = conf L" "replies L2 = replies L" using p(3) c(3) by (simp_all add: env_def)
  have cl: "calls (fsys L) no_unlink (fss L) (fss L2)"
    using c(1) flush_common_calls [of ino path fi L1 err L2] p(5) fs by (auto simp: m_def calls.none split: if_splits)
  have rel: "relocked (core L) (core L2)" using relocked_trans [OF p(4) c(4)] .
  note k = unmoved_relocked [OF t rel] and v = relockedD [OF tree_okD(3) [OF t] rel] and t2 = goodD(1) [OF c(2)]
  have rl: "r \<in> live (core L)" using get_node_iff [OF tree_okD(4) [OF t]] assms(5) by blast
  have el: "e \<in> live (core L)" using chain_live [OF assms(6)] by simp
  have o: "get_fuse_node (core L2) ino = Some r" "open_count (nd (core L2) r) > 0" "n_nodeid (nd (core L2) e) = FUSE_ROOT_ID" "\<forall>k. mallocs (core L2) k"
    using v(2) v(6) v(9) [OF el] v(13) [OF rl] assms(5,7,8) a(2) by simp_all
  have pp: "p = full_path (core L2) qs None" "path = (if nullpath_ok (conf L2) then None else Some p)"
    using unmoved_full_path [OF k assms(6)] assms(9) fs(3) by (simp_all add: path_def)
  obtain L3 where d: "fuse_do_release ino path fi L2 = Some L3" "good (holds ino path) L3" "env L2 L3" "closed_once r p L2 L3" "unmoved (core L2) (core L3)"
    using do_release_calls [OF c(2) o(1,2) unmoved_reachable [OF k t t2 a(1)] unmoved_chain [OF k assms(6)] o(3,4) pp, of fi] by (auto simp: runs_def)
  obtain L4 where u: "free_path ino path L3 = Some L4" "good [] L4" "env L3 L4" "relocked (core L3) (core L4)" "fss L4 = fss L3"
    using free_path_runs [of ino path "[]" L3] d(2) by (auto simp: runs_def)
  have st: "fuse_lib_release ino fi L = reply_err (if err = - ENOSYS then 0 else err) L4"
    using p(1) c(1) d(1) u(1) unfolding fuse_lib_release_def by (simp add: m_def [symmetric])
  have "replies L4 = replies L" using fs(4) d(3) u(3) by (simp add: env_def)
  moreover have "closed_once r p L L4"
  proof (rule closed_once_relocked [OF _ goodD(1) [OF d(2)] u(4) _ u(5)])
    show "closed_once r p L L3"
      by (rule closed_once_later [OF d(4) cl fs(2) v(13,14) [OF rl]])
    show "r \<in> live (core L3)" using d(5) v(5) rl by (simp add: unmoved_def)
  qed
  ultimately show ?thesis unfolding st by (simp add: finish_def)
qed

section \<open>Removing a file that is open\<close>

lemma unlocked_path:
  assumes "tree_ok f" "get_fuse_node f dir = Some d" "chain f d qs e" "n_nodeid (nd f e) = FUSE_ROOT_ID" "\<forall>k. mallocs f k" "path_fits f dir name"
  shows "\<exists>j. try_get_path f dir name False False = Some (Inr (full_path f qs name, None), f\<lparr>malloc_no := j\<rparr>)"
proof -
  have r: "d \<in> live f" "n_nodeid (nd f d) = dir" using get_node_iff [OF tree_okD(4) [OF assms(1)]] assms(2) by blast+
  have l: "length (path_string f qs) + length (name_part name) + 2 \<le> 0xFFFFFFFF"
    using assms(2,3,6) unfolding path_fits_def by blast
  have id: "relock (\<lambda>q k. k) f = f" by (rule relock_id) simp
  have "\<not> path_cause f qs e False err" for err using assms(4,5) by (auto simp: path_cause_def)
  then show ?thesis using try_get_path_run [OF tree_okD(3) [OF assms(1)] r assms(3) l, of False False None] by (auto simp: id)
qed

text \<open>When the file system has nothing under hidden names, the first name that no node has is taken.\<close>

definition unhidden :: "'s fuse_fs \<Rightarrow> (bytes \<Rightarrow> bytes) \<Rightarrow> u64 \<Rightarrow> bool" where
  "unhidden fs path ino \<longleftrightarrow> (\<forall>k s. ret (fst (fuse_fs_getattr fs (Some (path (hidden_string ino k))) None s)) = - ENOENT)"

lemma first_hidden_name:
  assumes "good hs L" "get_fuse_node (core L) dir = Some d" "chain (core L) d qs e" "n_nodeid (nd (core L) e) = FUSE_ROOT_ID"
    and "\<forall>k. mallocs (core L) k" "hidden_fits (core L) dir" "lookup_node (core L) dir oldname = Some n"
    and "unhidden (fsys L) (\<lambda>name. full_path (core L) qs (Some name)) (n_nodeid (nd (core L) n))"
  shows "\<exists>c j newname newpath. newname = hidden_string (n_nodeid (nd (core L) n)) c \<and> lookup_node (core L) dir newname = None \<and>
    newpath = full_path (core L) qs (Some newname) \<and>
    hidden_name (Suc m) dir oldname L = Some (Some (newname, newpath),
      L\<lparr>hidectr := c, core := (core L)\<lparr>malloc_no := j\<rparr>, fss := snd (fuse_fs_getattr (fsys L) (Some newpath) None (fss L))\<rparr>)"
proof -
  note t = goodD(1) [OF assms(1)]
  let ?ino = "n_nodeid (nd (core L) n)"
  obtain c where u: "unused_name dir ?ino L = Some (hidden_string ?ino c, L\<lparr>hidectr := c\<rparr>)" "lookup_node (core L) dir (hidden_string ?ino c) = None"
    using unused_name_found [OF t, of dir ?ino] assms(6) by (auto simp: runs_def hidden_fits_def)
  let ?new = "hidden_string ?ino c" and ?path = "full_path (core L) qs (Some (hidden_string ?ino c))"
  obtain j where tr: "try_get_path (core L) dir (Some ?new) False False = Some (Inr (?path, None), (core L)\<lparr>malloc_no := j\<rparr>)"
    using unlocked_path [OF t assms(2-5) fits_hidden [OF assms(6) hidden_string_length]] by blast
  have "ret (fst (fuse_fs_getattr (fsys L) (Some ?path) None (fss L))) = - ENOENT"
    using assms(8) by (simp add: unhidden_def)
  then have "hidden_name (Suc m) dir oldname L = Some (Some (?new, ?path),
      L\<lparr>hidectr := c, core := (core L)\<lparr>malloc_no := j\<rparr>, fss := snd (fuse_fs_getattr (fsys L) (Some ?path) None (fss L))\<rparr>)"
    using assms(7) u(1) tr by (simp add: on_core_def call_def case_prod_beta Let_def)
  then show ?thesis using u(2) by blast
qed

text \<open>
  Hiding then is two calls: the new path is looked at and the file renamed to it. When the
  file system renames it, so does the library.
\<close>

definition hidden_by :: "'s fuse_fs \<Rightarrow> (bytes \<Rightarrow> bytes) \<Rightarrow> bytes \<Rightarrow> bytes \<Rightarrow> 's \<Rightarrow> fs_result \<times> 's" where
  "hidden_by fs path oldname newname s =
     fuse_fs_rename fs (Some (path oldname)) (Some (path newname)) 0 (snd (fuse_fs_getattr fs (Some (path newname)) None s))"

lemma hide_node_hides:
  assumes "good hs L" "known (core L) dir" "get_fuse_node (core L) dir = Some d" "chain (core L) d qs e" "n_nodeid (nd (core L) e) = FUSE_ROOT_ID"
    and "\<forall>k. mallocs (core L) k" "hidden_fits (core L) dir" "lookup_node (core L) dir oldname = Some n"
    and "nlookup (nd (core L) n) \<noteq> 0" "\<forall>h \<in> set hs. \<not> covers (core L) h n"
    and "path = (\<lambda>name. full_path (core L) qs (Some name))" "unhidden (fsys L) path (n_nodeid (nd (core L) n))"
  shows "\<exists>c newname L'. newname = hidden_string (n_nodeid (nd (core L) n)) c \<and> lookup_node (core L) dir newname = None \<and>
    hide_node (path oldname) dir oldname L = Some (ret (fst (hidden_by (fsys L) path oldname newname (fss L))), L') \<and> good hs L' \<and> env L L' \<and>
    fss L' = snd (hidden_by (fsys L) path oldname newname (fss L)) \<and> n \<in> live (core L') \<and>
    n_nodeid (nd (core L') n) = n_nodeid (nd (core L) n) \<and>
    (if ret (fst (hidden_by (fsys L) path oldname newname (fss L))) = 0
     then lookup_node (core L') dir oldname = None \<and> lookup_node (core L') dir newname = Some n \<and> is_hidden (nd (core L') n)
     else lookup_node (core L') dir oldname = Some n \<and> is_hidden (nd (core L') n) = is_hidden (nd (core L) n))"
proof -
  note t = goodD(1) [OF assms(1)]
  have un: "unhidden (fsys L) (\<lambda>name. full_path (core L) qs (Some name)) (n_nodeid (nd (core L) n))" using assms(11,12) by simp
  obtain c j newname where nn: "newname = hidden_string (n_nodeid (nd (core L) n)) c" "lookup_node (core L) dir newname = None"
    "hidden_name (Suc 9) dir oldname L = Some (Some (newname, path newname),
      L\<lparr>hidectr := c, core := (core L)\<lparr>malloc_no := j\<rparr>, fss := snd (fuse_fs_getattr (fsys L) (Some (path newname)) None (fss L))\<rparr>)"
    using first_hidden_name [OF assms(1,3-8) un, of 9] assms(11) by auto
  define r where "r = hidden_by (fsys L) path oldname newname (fss L)"
  define L2 where "L2 = L\<lparr>hidectr := c, core := (core L)\<lparr>malloc_no := j\<rparr>, fss := snd r\<rparr>"
  have st: "hide_node (path oldname) dir oldname L = (if ret (fst r) \<noteq> 0 then Some (ret (fst r), L2)
      else on_core (\<lambda>f. rename_node f dir oldname dir newname True) L2)"
    using nn(3) by (simp add: hide_node_def r_def hidden_by_def L2_def call_def case_prod_beta Let_def)
  let ?f = "core L2"
  have c2: "?f = (core L)\<lparr>malloc_no := j\<rparr>" by (simp add: L2_def)
  have g2: "good hs L2" "env L L2" "fss L2 = snd r" using assms(1) by (simp_all add: L2_def good_steady)
  have s: "steady hs ?f" using g2(1) by (simp add: good_steady)
  have rel: "relocked (core L) ?f" using relocked_id c2 by simp
  note k2 = unmoved_relocked [OF t rel]
  have lk: "lookup_node ?f dir name = lookup_node (core L) dir name" for name using lookup_malloc [OF t] c2 by simp
  have nf: "nd ?f q = nd (core L) q" "live ?f = live (core L)" for q by (simp_all add: c2)
  have nl: "n \<in> live (core L)" using lookup_named(2) [OF t assms(8)] .
  show ?thesis
  proof (cases "ret (fst r) = 0")
    case False
    have "hide_node (path oldname) dir oldname L = Some (ret (fst r), L2)" using st False by simp
    then show ?thesis
      by (intro exI [of _ c] exI [of _ newname] exI [of _ L2], fold r_def) (use nn(1,2) g2 nl lk nf assms(8) False in simp)
  next
    case True
    obtain p where p: "p \<in> live (core L)" "n_nodeid (nd (core L) p) = dir" "p \<in> held (core L)"
      using assms(2) by (auto simp: known_def held_def)
    have pf: "p \<in> held ?f" "n_nodeid (nd ?f p) = dir" using p by (simp_all add: held_def nf)
    have ab: "n \<notin> above ?f p" using parent_not_in_it(1) [OF steadyD(1) [OF s] _ pf(2)] p(1) lk assms(8) nf by simp
    have new: "lookup_node ?f dir newname = None" using lk nn(2) by simp
    have cov: "\<forall>q \<in> insert n {}. \<forall>x \<in> set hs. \<not> covers ?f x q"
      using unmoved_covers [OF t steadyD(1) [OF s] k2] assms(10) by simp
    have ml: "\<forall>k. mallocs ?f k" using assms(6) c2 by simp
    obtain err f' where rn: "rename_node ?f dir oldname dir newname True = Some (err, f')" "steady hs f'" "others_kept {n} ?f f'" "n \<in> live f'"
      "err = 0" "lookup_node f' dir newname = Some n"
      "nd f' n = (nd ?f n)\<lparr>n_name := Some newname, n_parent := Some p, is_hidden := is_hidden (nd ?f n) \<or> True\<rparr>"
      using rename_under [OF s, of dir oldname n p dir "{}" newname True] lk assms(8) pf ab new cov ml by auto
    have on: "on_core (\<lambda>f. rename_node f dir oldname dir newname True) L2 = Some (0, L2\<lparr>core := f'\<rparr>)"
      using rn(1,5) by (simp add: on_core_def)
    have g3: "good hs (L2\<lparr>core := f'\<rparr>)" using rn(2) by (simp add: good_steady)
    have "others_kept {n} (core L) ?f" by (rule others_kept_same) (simp add: c2)
    then have o: "others_kept {n} (core L) f'" using others_kept_trans [of "{n}" "core L" ?f "{n}" f'] rn(3) by simp
    have "oldname \<noteq> newname" using new lk assms(8) by auto
    then have "lookup_node f' dir oldname \<noteq> Some n"
      using lookup_named(4) [OF steadyD(1) [OF rn(2)], of dir oldname n] rn(7) by auto
    then have gone: "lookup_node f' dir oldname = None"
      using lookup_gone [OF t steadyD(1) [OF rn(2)] o assms(8) _ assms(2)] by simp
    have "hide_node (path oldname) dir oldname L = Some (ret (fst r), L2\<lparr>core := f'\<rparr>)" using st True on by simp
    then show ?thesis
      by (intro exI [of _ c] exI [of _ newname] exI [of _ "L2\<lparr>core := f'\<rparr>"], fold r_def)
        (use nn(1,2) g2 g3 gone rn(4,6,7) nf True in simp)
  qed
qed

lemma hidden_open_file:
  assumes "good [] L" "allowed (core L) (FUSE_UNLINK parent name)" "lookup_node (core L) parent name = Some n"
    and "open_count (nd (core L) n) > 0" "\<not> hard_remove (conf L)"
    and "get_fuse_node (core L) parent = Some d" "chain (core L) d qs e" "n_nodeid (nd (core L) e) = FUSE_ROOT_ID" "\<forall>k. mallocs (core L) k"
    and "path = (\<lambda>name. full_path (core L) qs (Some name))" "unhidden (fsys L) path (n_nodeid (nd (core L) n))"
  shows "\<exists>L' c newname. fuse_lib_unlink parent name L = Some L' \<and> newname = hidden_string (n_nodeid (nd (core L) n)) c \<and>
    lookup_node (core L) parent newname = None \<and>
    replies L' = replies L @ [Reply_err (ret (fst (hidden_by (fsys L) path name newname (fss L))))] \<and>
    fss L' = snd (hidden_by (fsys L) path name newname (fss L)) \<and>
    get_fuse_node (core L') (n_nodeid (nd (core L) n)) = Some n \<and>
    (if ret (fst (hidden_by (fsys L) path name newname (fss L))) = 0
     then lookup_node (core L') parent name = None \<and> lookup_node (core L') parent newname = Some n \<and> is_hidden (nd (core L') n)
     else lookup_node (core L') parent name = Some n \<and> is_hidden (nd (core L') n) = is_hidden (nd (core L) n))"
proof -
  note t = goodD(1) [OF assms(1)]
  have a: "known (core L) parent" "path_fits (core L) parent (Some name)" "removable (core L) parent name" "hidden_fits (core L) parent"
    using assms(2) by (simp_all add: may_remove_def)
  have d: "d \<in> live (core L)" "n_nodeid (nd (core L) d) = parent" using get_node_iff [OF tree_okD(4) [OF t]] assms(6) by blast+
  have nl: "n \<in> live (core L)" using lookup_named(2) [OF t assms(3)] .
  have z: "\<forall>q \<in> live (core L). treelock (nd (core L) q) = 0" using goodD(3) [OF assms(1)] by (simp add: held_Nil)
  have z': "\<forall>q \<in> set qs. 0 \<le> treelock (nd (core L) q)" using z chain_live [OF assms(7)] by auto
  obtain j where "try_get_path (core L) parent (Some name) True True = Some (Inr (path name, Some n), (relock (taken True qs (Some n)) (core L))\<lparr>malloc_no := j\<rparr>)"
    using path_available [OF tree_okD(3) [OF t] d assms(7,8) a(2) _ assms(9) z', of True "Some n"] assms(3,10) nl z by auto
  then have "fst (the (get_path_wrlock parent name L)) = Inr (path name, Some n)"
    by (simp add: get_path_wrlock_def lock_path_def get_path_common_def)
  then obtain L1 where p: "get_path_wrlock parent name L = Some (Inr (path name, Some n), L1)" "env L L1" "fss L1 = fss L"
    "relocked (core L) (core L1)" "good [(parent, Some n)] L1"
    using wrlock_runs [OF assms(1) a(1-3)] assms(3) by (auto simp: runs_def)
  have e1: "fsys L1 = fsys L" "replies L1 = replies L" "conf L1 = conf L" using p(2) by (simp_all add: env_def)
  note t1 = goodD(1) [OF p(5)] and k1 = unmoved_relocked [OF t p(4)]
  note v = relockedD [OF tree_okD(3) [OF t] p(4)]
  have n1: "lookup_node (core L1) parent name = Some n" "n_nodeid (nd (core L1) n) = n_nodeid (nd (core L) n)"
    using v(3) v(9) [OF nl] assms(3) by simp_all
  have op: "is_open (core L1) parent name \<noteq> 0" using n1 v(13) [OF nl] assms(4) by (simp add: is_open_def)
  have nn: "nlookup (nd (core L1) n) \<noteq> 0" using a(3) assms(3) v(12) [OF nl] by (simp add: removable_def)
  have cov: "\<forall>h \<in> set [(parent, Some n)]. \<not> covers (core L1) h n" using not_covers_child [OF t1 n1(1)] by simp
  have el: "e \<in> live (core L)" using chain_live [OF assms(7)] by simp
  have d1: "get_fuse_node (core L1) parent = Some d" "n_nodeid (nd (core L1) e) = FUSE_ROOT_ID" "\<forall>k. mallocs (core L1) k"
    using v(2) v(6) v(9) [OF el] assms(6,8,9) by simp_all
  have pp: "path = (\<lambda>name. full_path (core L1) qs (Some name))" using unmoved_full_path [OF k1 assms(7)] assms(10) by (simp add: fun_eq_iff)
  have un: "unhidden (fsys L1) path (n_nodeid (nd (core L1) n))" using assms(11) e1(1) n1(2) by simp
  note h0 = hide_node_hides [OF p(5) unmoved_known [OF k1 t a(1)] d1(1) unmoved_chain [OF k1 assms(7)] d1(2,3)
      unmoved_hidden_fits [OF k1 t t1 a(4)] n1(1) nn cov pp un]
  obtain c newname L2 where h: "newname = hidden_string (n_nodeid (nd (core L) n)) c" "lookup_node (core L1) parent newname = None"
    "hide_node (path name) parent name L1 = Some (ret (fst (hidden_by (fsys L) path name newname (fss L))), L2)"
    "good [(parent, Some n)] L2" "env L1 L2" "fss L2 = snd (hidden_by (fsys L) path name newname (fss L))" "n \<in> live (core L2)"
    "n_nodeid (nd (core L2) n) = n_nodeid (nd (core L) n)"
    "if ret (fst (hidden_by (fsys L) path name newname (fss L))) = 0
     then lookup_node (core L2) parent name = None \<and> lookup_node (core L2) parent newname = Some n \<and> is_hidden (nd (core L2) n)
     else lookup_node (core L2) parent name = Some n \<and> is_hidden (nd (core L2) n) = is_hidden (nd (core L1) n)"
    using h0 unfolding e1(1) n1(2) p(3) by (elim exE conjE) (rule that)
  define r where "r = hidden_by (fsys L) path name newname (fss L)"
  obtain L3 where u: "unlock parent (Some n) L2 = Some L3" "good [] L3" "env L2 L3" "relocked (core L2) (core L3)" "L3 = L2\<lparr>core := core L3\<rparr>"
    using unlock_runs [OF h(4)] by (auto simp: runs_def)
  note t2 = goodD(1) [OF h(4)] and t3 = goodD(1) [OF u(2)]
  note v3 = relockedD [OF tree_okD(3) [OF t2] u(4)]
  have f3: "fss L3 = snd r" by (subst u(5)) (simp add: h(6) r_def)
  have r3: "replies L3 = replies L" using u(3) h(5) e1 by (simp add: env_def)
  have "n \<in> live (core L3)" "n_nodeid (nd (core L3) n) = n_nodeid (nd (core L) n)"
    using h(7,8) v3(5) v3(9) [OF h(7)] by simp_all
  then have g3: "get_fuse_node (core L3) (n_nodeid (nd (core L) n)) = Some n" using get_node_iff [OF tree_okD(4) [OF t3]] by blast
  have st: "fuse_lib_unlink parent name L = reply_err (ret (fst r)) L3"
    using p(1) h(3) u(1) op assms(5) e1(3) unfolding fuse_lib_unlink_def r_def by simp
  have "if ret (fst r) = 0
     then lookup_node (core L3) parent name = None \<and> lookup_node (core L3) parent newname = Some n \<and> is_hidden (nd (core L3) n)
     else lookup_node (core L3) parent name = Some n \<and> is_hidden (nd (core L3) n) = is_hidden (nd (core L) n)"
    using h(9) unfolding r_def v3(3) v3(14) [OF h(7)] v(14) [OF nl] .
  then show ?thesis
    by (intro exI [of _ "L3\<lparr>replies := replies L3 @ [Reply_err (ret (fst r))]\<rparr>"] exI [of _ c] exI [of _ newname], fold r_def)
      (use st h(1) [symmetric] h(2) v(3) f3 r3 g3 in \<open>simp add: finish_def send_def\<close>)
qed

end
