(* ===== verification/Fuse_Lib_Facts.thy ===== *)
theory Fuse_Lib_Facts
  imports Fuse_Lib_Calls
begin

text \<open>The properties of the requests of the library, with an example file system that notes the calls it gets.\<close>

section \<open>A file system and states for the examples\<close>

text \<open>It notes every call; nothing exists for \<open>getattr\<close>, links cannot be read, and every other call succeeds.\<close>

definition noting_fs :: "fs_call list fuse_fs" where
  "noting_fs = \<lparr>has_op = \<lambda>op. op \<noteq> Op_readlink,
     run_op = \<lambda>c s. ((case c of Call_getattr path fi \<Rightarrow> no_op (- ENOENT) | _ \<Rightarrow> no_op 0), s @ [c])\<rparr>"

definition plain_conf :: config where
  "plain_conf = \<lparr>use_ino = False, set_mode = None, set_uid = None, set_gid = None, hard_remove = False, conf_direct_io = False,
     kernel_cache = False, auto_cache = False, no_rofd_flush = False, nullpath_ok = False, negative_timeout = False, readdir_ino = False,
     expired = \<lambda>_ _. False\<rparr>"

definition lib_with :: "fuse \<Rightarrow> fs_call list lib" where
  "lib_with f = \<lparr>core = f, hidectr = 0, conf = plain_conf, fsys = noting_fs, fss = [], node_locks = \<lambda>_. [],
     caches = \<lambda>_. \<lparr>cache_valid = False, cache_mtime = (0, 0), cache_size = 0, stat_updated = (0, 0)\<rparr>,
     clock = \<lambda>_. (0, 0), clock_no = 0, replies = [], sent = \<lambda>_. 0\<rparr>"

lemma lib_with_views [simp]: "core (lib_with f) = f" "fsys (lib_with f) = noting_fs" "conf (lib_with f) = plain_conf" "replies (lib_with f) = []"
  "fss (lib_with f) = []" "node_locks (lib_with f) = (\<lambda>_. [])"
  by (simp_all add: lib_with_def)

lemma noting_answers: "fs_answers noting_fs"
  by (auto simp: fs_answers_def noting_fs_def fuse_fs_readlink_def fuse_fs_getxattr_def fuse_fs_listxattr_def fuse_fs_lock_def sized_ok_def no_op_def)

lemma served_first: "served (lib_with (first_state rem))"
  by (rule served.start [of rem "\<lambda>_. True" 0]) (simp_all add: first_state noting_answers)

lemma root_usable:
  assumes "length name \<le> 500"
  shows "may_make (first_state rem) 1 name"
proof -
  note F = first_facts [of rem]
  have k: "known (first_state rem) 1" using F above_top [OF F(6)] by (auto simp: known_def)
  have f: "path_fits (first_state rem) 1 (Some name)"
  proof (rule small_tree_fits)
    fix r qs e assume h: "get_fuse_node (first_state rem) 1 = Some r" "chain (first_state rem) r qs e"
    have "r \<in> live (first_state rem)" using get_node_iff [OF tree_okD(4) [OF F(1)]] h(1) by blast
    then have "r = 1" using F(3) by simp
    then have "qs = []" using chain_unique [OF h(2), of "[]" 1] chain.stop [of 1 "first_state rem"] F by simp
    then show "length (path_string (first_state rem) qs) + length (name_part (Some name)) \<le> 1000" using assms by simp
  qed
  show ?thesis using k f F(3,5) by (simp add: may_make_def can_enter_def room_def)
qed

text \<open>The file \<open>a\<close> below the root, open once.\<close>

definition the_file :: nat where
  "the_file = the (lookup_node (one_file 0) 1 [97])"

definition opened :: "bool \<Rightarrow> fuse" where
  "opened hid = upd the_file (\<lambda>n. n\<lparr>open_count := 1, is_hidden := hid\<rparr>) (one_file 0)"

abbreviation file_ino :: u64 where
  "file_ino \<equiv> n_nodeid (nd (opened True) the_file)"

lemma one_file_good: "good [] (lib_with (one_file 0))"
proof -
  note F = first_facts [of 0]
  have "good [] (lib_with (first_state 0))" using served_idle [OF served_first] by (simp add: idle_def)
  then have s: "steady [] (first_state 0)" by (simp add: good_steady)
  have rm: "room (first_state 0)" using F(3,5) by (simp add: room_def)
  have p: "1 \<in> live (first_state 0)" "n_nodeid (nd (first_state 0) 1) = 1" using F(3,4) by simp_all
  obtain r where "find_node (first_state 0) 1 (Some [97]) = Some (Some r, one_file 0)" by (rule one_file [of 0]) blast
  then show ?thesis using find_held [OF s p rm, of "[97]"] by (auto simp: good_steady)
qed

lemma opened_file:
  shows "good [] (lib_with (opened hid))" "lookup_node (opened hid) 1 [97] = Some the_file" "get_fuse_node (opened hid) file_ino = Some the_file"
    "chain (opened hid) the_file [the_file] 1" "n_nodeid (nd (opened hid) 1) = FUSE_ROOT_ID" "\<forall>k. mallocs (opened hid) k"
    "open_count (nd (opened hid) the_file) = 1" "is_hidden (nd (opened hid) the_file) = hid" "n_name (nd (opened hid) the_file) = Some [97]"
    "reachable_node (opened hid) file_ino" "may_remove (opened hid) 1 [97]" "hidden_fits (opened hid) 1"
proof -
  let ?g = "\<lambda>n. n\<lparr>open_count := 1, is_hidden := hid\<rparr>"
  obtain r where r: "lookup_node (one_file 0) 1 [97] = Some r" "live (one_file 0) = {1, r}" "r \<noteq> 1" "n_nodeid (nd (one_file 0) 1) = 1"
    "nlookup (nd (one_file 0) 1) = 1" "n_parent (nd (one_file 0) 1) = None" "nlookup (nd (one_file 0) r) = 1" "n_parent (nd (one_file 0) r) = Some 1"
    "n_name (nd (one_file 0) r) = Some [97]" "remember (one_file 0) = 0" "\<forall>k. mallocs (one_file 0) k"
    by (rule one_file [of 0]) simp
  have tf: "the_file = r" using r(1) by (simp add: the_file_def)
  note g0 = one_file_good
  have t0: "tree_ok (one_file 0)" using goodD(1) [OF g0] by simp
  have rl: "r \<in> live (one_file 0)" using r(2) by simp
  have go: "get_fuse_node (one_file 0) (n_nodeid (nd (one_file 0) r)) = Some r" using get_node_iff [OF tree_okD(4) [OF t0]] rl by simp
  have u: "good [] ((lib_with (one_file 0))\<lparr>core := upd r ?g (one_file 0)\<rparr>)" "unmoved (one_file 0) (upd r ?g (one_file 0))"
    using good_upd [OF g0, of "n_nodeid (nd (one_file 0) r)" r ?g] go by simp_all
  then have g: "good [] (lib_with (opened hid))" by (simp add: good_steady opened_def tf)
  show "good [] (lib_with (opened hid))" by (rule g)
  have t: "tree_ok (opened hid)" using goodD(1) [OF g] by simp
  have k: "unmoved (one_file 0) (opened hid)" using u(2) by (simp add: opened_def tf)
  have fi: "file_ino = n_nodeid (nd (one_file 0) r)" by (simp add: opened_def tf)
  have ab: "above (one_file 0) r \<subseteq> {r, 1}" "above (one_file 0) 1 = {1}"
    using above_top [OF r(6)] above_live [OF tree_okD(1) [OF t0] rl] r(2) by auto
  have kn: "known (one_file 0) 1" "known (one_file 0) file_ino" using r(2,4,5,7) ab fi by (auto simp: known_def)
  have ft: "path_fits (one_file 0) 1 (Some [97])" "path_fits (one_file 0) 1 (Some (replicate 28 0))" "path_fits (one_file 0) file_ino None"
    using one_file_fits [OF _ r(1)] fi by simp_all
  show lk: "lookup_node (opened hid) 1 [97] = Some the_file" using unmoved_lookup [OF k t0 t kn(1)] r(1) tf by simp
  show "get_fuse_node (opened hid) file_ino = Some the_file" using unmoved_get [OF t0 t k] go fi tf by simp
  obtain q where "lookup_node (one_file 0) 1 [97] = Some q" "chain (one_file 0) q [q] 1" by (rule one_file_chains [of 0]) blast
  then have "chain (one_file 0) r [r] 1" using r(1) by simp
  then show "chain (opened hid) the_file [the_file] 1" using unmoved_chain [OF k] tf by simp
  show "n_nodeid (nd (opened hid) 1) = FUSE_ROOT_ID" using k r(2,4) by (simp add: unmoved_def)
  show "\<forall>k. mallocs (opened hid) k" using k r(11) by (simp add: unmoved_def)
  show "open_count (nd (opened hid) the_file) = 1" "is_hidden (nd (opened hid) the_file) = hid" by (simp_all add: opened_def)
  show "n_name (nd (opened hid) the_file) = Some [97]" using k r(9) rl tf by (simp add: unmoved_def)
  show "reachable_node (opened hid) file_ino" using unmoved_reachable [OF k t0 t] kn(2) ft(3) by (simp add: reachable_node_def)
  have "removable (opened hid) 1 [97]" using lk k rl r(7,10) tf by (simp add: removable_def unmoved_def)
  then show "may_remove (opened hid) 1 [97]" using unmoved_known [OF k t0 kn(1)] unmoved_path [OF t0 t k ft(1)] by (simp add: may_remove_def)
  have "card (live (one_file 0)) < 2 ^ 32" using r(2,3) by simp
  then show "hidden_fits (opened hid) 1" using unmoved_hidden_fits [OF k t0 t] ft(2) by (simp add: hidden_fits_def)
qed

lemma opened_root: "get_fuse_node (opened hid) 1 = Some 1" "chain (opened hid) 1 [] 1"
proof -
  have t: "tree_ok (opened hid)" using goodD(1) [OF opened_file(1)] by simp
  have r: "1 \<in> live (opened hid)" "n_nodeid (nd (opened hid) 1) = 1" using chain_live [OF opened_file(4)] opened_file(5) by auto
  then show "get_fuse_node (opened hid) 1 = Some 1" using get_node_iff [OF tree_okD(4) [OF t]] by blast
  show "chain (opened hid) 1 [] 1" using r by (intro chain.stop) simp_all
qed

lemma opened_idle: "idle (lib_with (opened hid))"
  using opened_file(1) noting_answers by (simp add: idle_def locks_fine_def)

section \<open>The properties\<close>

text \<open>
  C36. In every state that allowed requests lead to, every allowed request (\<open>allowed\<close>, which leaves out the lookups of
  \<open>.\<close> and \<open>..\<close> and puts conditions on the nodes named) is served to the end: the library sends exactly one reply, no path
  stays locked, and the nodes are well formed. The byte-range locks of every node stay a list in which those of one owner are
  in order and do not overlap; locks of different owners are not compared, as \<open>setlk\<close> does not test for conflicts.
\<close>

theorem requests_are_answered:
  assumes "served L" "allowed (core L) req"
  shows "\<exists>L' r. fuse_path_ops req L = Some L' \<and> replies L' = replies L @ [r] \<and> served L' \<and> tree_ok (core L') \<and>
    (\<forall>q \<in> live (core L'). treelock (nd (core L') q) = 0) \<and> (\<forall>q. locks_ok (node_locks L' q))"
proof -
  obtain L' where L': "fuse_path_ops req L = Some L'" "answered L L'" using served_answered [OF assms] by (auto simp: runs_def)
  have s: "served L'" by (rule served.step [OF assms L'(1)])
  have "good [] L'" "locks_fine L'" using served_idle [OF s] by (simp_all add: idle_def)
  moreover obtain r where "replies L' = replies L @ [r]" using L'(2) by (auto simp: answered_def replied_def env_def)
  ultimately show ?thesis using L'(1) s goodD(1,3) [of "[]" L'] by (simp add: held_Nil locks_fine_def)
qed

theorem requests_are_answered_witness:
  "\<exists>L' r. fuse_path_ops (FUSE_MKDIR 1 [100] 0x1ED) (lib_with (first_state 0)) = Some L' \<and> replies L' = [r] \<and> served L' \<and> tree_ok (core L') \<and>
    (\<forall>q \<in> live (core L'). treelock (nd (core L') q) = 0) \<and> (\<forall>q. locks_ok (node_locks L' q))"
  using requests_are_answered [OF served_first [of 0], of "FUSE_MKDIR 1 [100] 0x1ED"] root_usable [of "[100]" 0] by simp



text \<open>
  C38. Releasing an open file takes one off the number of its users. With the last user of a hidden file, and only then, the
  file system is asked to remove the file, at the path it has now, and no other call removes anything.
\<close>

theorem last_release_removes:
  assumes "idle L" "allowed (core L) (FUSE_RELEASE ino fi)" "get_fuse_node (core L) ino = Some r"
    and "chain (core L) r qs e" "n_nodeid (nd (core L) e) = FUSE_ROOT_ID" "\<forall>k. mallocs (core L) k"
  shows "\<exists>L' err s. fuse_lib_release ino fi L = Some L' \<and> replies L' = replies L @ [Reply_err err] \<and>
    open_count (nd (core L') r) = open_count (nd (core L) r) - 1 \<and> calls (fsys L) no_unlink (fss L) s \<and>
    (if is_hidden (nd (core L) r) \<and> open_count (nd (core L) r) = 1
     then fss L' = snd (fuse_fs_unlink (fsys L) (Some (full_path (core L) qs None)) s) \<and> \<not> is_hidden (nd (core L') r)
     else fss L' = s \<and> is_hidden (nd (core L') r) = is_hidden (nd (core L) r))"
proof -
  have i: "good [] L" "locks_fine L" "fs_answers (fsys L)" using assms(1) by (simp_all add: idle_def)
  show ?thesis using released_file [OF i assms(2-6) refl] unfolding closed_once_def by blast
qed

theorem last_release_removes_witness:
  "\<exists>L' err s. fuse_lib_release file_ino zero_file_info (lib_with (opened True)) = Some L' \<and> replies L' = [Reply_err err] \<and>
    open_count (nd (core L') the_file) = 0 \<and> calls noting_fs no_unlink [] s \<and>
    fss L' = s @ [Call_unlink (Some [47, 97])] \<and> \<not> is_hidden (nd (core L') the_file)"
proof -
  have p: "full_path (opened True) [the_file] None = [47, 97]"
    using opened_file(9) [of True] by (simp add: full_path_def path_string_simps)
  have u: "snd (fuse_fs_unlink noting_fs p s) = s @ [Call_unlink p]" for p s by (simp add: fuse_fs_unlink_def noting_fs_def)
  show ?thesis
    using last_release_removes [of "lib_with (opened True)" file_ino zero_file_info the_file "[the_file]" 1]
      opened_file [of True] opened_idle p u by simp
qed

end
