(* ===== verification/Fuse_Dir_Reads.thy ===== *)
theory Fuse_Dir_Reads
  imports Fuse_Dir Fuse_Lib_Facts
begin

text \<open>
  Reading directories: what the kernel reads out of the answers, and that reading to the end gives every entry once.
\<close>

section \<open>What the kernel reads\<close>

text \<open>
  The kernel takes a buffer apart into entries: number, offset of the next entry, type and name; an entry that is not
  complete ends it. This is the format of \<^verbatim>\<open>struct fuse_dirent\<close> in \<^verbatim>\<open>include/fuse_kernel.h\<close>.
\<close>

type_synonym dirent = "u64 \<times> u64 \<times> u32 \<times> bytes"

lemma dirent_align_ge: "x \<le> dirent_align x" "dirent_align x \<le> x + 7"
  unfolding dirent_align_def by presburger+

function parse_dirents :: "bytes \<Rightarrow> dirent list" where
  "parse_dirents bs =
     (let namelen = unat (of_le (take 4 (drop 16 bs)) :: u32);
          reclen = dirent_align (FUSE_NAME_OFFSET + namelen)
      in if length bs < FUSE_NAME_OFFSET \<or> length bs < reclen then []
         else (of_le (take 8 bs), of_le (take 8 (drop 8 bs)), of_le (take 4 (drop 20 bs)), take namelen (drop FUSE_NAME_OFFSET bs)) #
           parse_dirents (drop reclen bs))"
  by pat_completeness auto
termination
proof (relation "measure length")
  fix bs :: bytes and namelen reclen
  assume "reclen = dirent_align (FUSE_NAME_OFFSET + namelen)" "\<not> (length bs < FUSE_NAME_OFFSET \<or> length bs < reclen)"
  then show "(drop reclen bs, bs) \<in> measure length" using dirent_align_ge(1) [of "FUSE_NAME_OFFSET + namelen"] by auto
qed simp

declare parse_dirents.simps [simp del]

definition dirent_bytes :: "nat \<Rightarrow> direntry \<Rightarrow> bytes" where
  "dirent_bytes pos de = to_le 8 (a_ino (de_stat de)) @ to_le 8 (of_nat pos :: u64) @ to_le 4 (of_nat (length (de_name de)) :: u32) @
     to_le 4 (drop_bit 12 (a_mode (de_stat de) AND 0xF000)) @ de_name de @
     replicate (dirent_align (FUSE_NAME_OFFSET + length (de_name de)) - (FUSE_NAME_OFFSET + length (de_name de))) 0"

definition dirent_of :: "nat \<Rightarrow> direntry \<Rightarrow> dirent" where
  "dirent_of pos de = (a_ino (de_stat de), of_nat pos, drop_bit 12 (a_mode (de_stat de) AND 0xF000), de_name de)"

lemma length_dirent_bytes: "length (dirent_bytes pos de) = dirent_align (FUSE_NAME_OFFSET + length (de_name de))"
  using dirent_align_ge(1) [of "FUSE_NAME_OFFSET + length (de_name de)"] by (simp add: dirent_bytes_def)

lemma parse_entry:
  assumes "length (de_name de) < 2 ^ 32"
  shows "parse_dirents (dirent_bytes pos de @ rest) = dirent_of pos de # parse_dirents rest"
proof -
  let ?bs = "dirent_bytes pos de @ rest"
  let ?n = "length (de_name de)"
  have len: "FUSE_NAME_OFFSET + ?n \<le> dirent_align (FUSE_NAME_OFFSET + ?n)" by (rule dirent_align_ge)
  have p: "take 8 ?bs = to_le 8 (a_ino (de_stat de))" "take 8 (drop 8 ?bs) = to_le 8 (of_nat pos :: u64)"
    "take 4 (drop 16 ?bs) = to_le 4 (of_nat ?n :: u32)" "take 4 (drop 20 ?bs) = to_le 4 (drop_bit 12 (a_mode (de_stat de) AND 0xF000))"
    "take ?n (drop FUSE_NAME_OFFSET ?bs) = de_name de"
    by (simp_all add: dirent_bytes_def)
  have n: "unat (of_nat ?n :: u32) = ?n" using assms by (simp add: unat_of_nat)
  have d: "drop (dirent_align (FUSE_NAME_OFFSET + ?n)) ?bs = rest" by (simp add: length_dirent_bytes)
  have l: "\<not> (length ?bs < FUSE_NAME_OFFSET \<or> length ?bs < dirent_align (FUSE_NAME_OFFSET + ?n))" using len by (simp add: length_dirent_bytes)
  have f: "of_le (to_le 8 w) = w" "of_le (to_le 4 v) = v" for w :: u64 and v :: u32 by simp_all
  show ?thesis
    by (subst parse_dirents.simps) (simp only: p f n Let_def l d if_False dirent_of_def)
qed

lemma parse_nothing: "parse_dirents [] = []"
  by (subst parse_dirents.simps) simp

text \<open>Entries at the offsets from \<open>pos\<close> on.\<close>

fun dirents_bytes :: "nat \<Rightarrow> direntry list \<Rightarrow> bytes" where
  "dirents_bytes pos [] = []"
| "dirents_bytes pos (de # des) = dirent_bytes (Suc pos) de @ dirents_bytes (Suc pos) des"

fun dirents_of :: "nat \<Rightarrow> direntry list \<Rightarrow> dirent list" where
  "dirents_of pos [] = []"
| "dirents_of pos (de # des) = dirent_of (Suc pos) de # dirents_of (Suc pos) des"

lemma parse_dirents_bytes: "\<forall>de \<in> set des. length (de_name de) < 2 ^ 32 \<Longrightarrow> parse_dirents (dirents_bytes pos des) = dirents_of pos des"
  by (induction des arbitrary: pos) (simp_all add: parse_nothing parse_entry)

lemma dirents_of_append: "dirents_of pos (xs @ ys) = dirents_of pos xs @ dirents_of (pos + length xs) ys"
  by (induction xs arbitrary: pos) simp_all

lemma dirents_of_last: "xs \<noteq> [] \<Longrightarrow> fst (snd (last (dirents_of pos xs))) = of_nat (pos + length xs)"
  by (cases xs rule: rev_cases) (simp_all add: dirents_of_append dirent_of_def)

section \<open>Listing what is kept\<close>

lemma add_direntry_eq: "fuse_add_direntry bufsize (de_name de) (de_stat de) (of_nat pos) =
  (length (dirent_bytes pos de), if length (dirent_bytes pos de) > bufsize then [] else dirent_bytes pos de)"
  using length_dirent_bytes [of pos de] by (simp add: fuse_add_direntry_def dirent_bytes_def Let_def)

lemma list_entries_prefix:
  assumes "length done \<le> need"
  shows "\<exists>k \<le> length des. list_entries need (int pos) des done = done @ dirents_bytes pos (take k des) \<and>
    (k < length des \<longrightarrow> length done + length (dirents_bytes pos (take k des)) + length (dirent_bytes (pos + Suc k) (des ! k)) > need)"
  using assms
proof (induction des arbitrary: pos "done")
  case (Cons de des)
  let ?e = "dirent_bytes (Suc pos) de"
  have a: "int pos + 1 = int (Suc pos)" "(word_of_int (int (Suc pos)) :: u64) = of_nat (Suc pos)" by simp_all
  have st: "list_entries need (int pos) (de # des) done = (if length done + length ?e > need then done else list_entries need (int (Suc pos)) des (done @ ?e))"
    using Cons.prems by (simp only: list_entries.simps Let_def a add_direntry_eq) auto
  show ?case
  proof (cases "length done + length ?e > need")
    case True
    then show ?thesis unfolding st by (intro exI [of _ 0]) simp
  next
    case False
    then obtain k where "k \<le> length des" "list_entries need (int (Suc pos)) des (done @ ?e) = (done @ ?e) @ dirents_bytes (Suc pos) (take k des)"
      "k < length des \<longrightarrow> length (done @ ?e) + length (dirents_bytes (Suc pos) (take k des)) + length (dirent_bytes (Suc pos + Suc k) (des ! k)) > need"
      using Cons.IH [of "done @ ?e" "Suc pos"] by auto
    then show ?thesis unfolding st using False by (intro exI [of _ "Suc k"]) (simp add: add.assoc)
  qed
qed simp

lemma skip_entries_drop: "k \<le> length des \<Longrightarrow> skip_entries (int p + int k) (int p) des = (int p + int k, drop k des)"
proof (induction des arbitrary: p k)
  case (Cons de des)
  show ?case
  proof (cases k)
    case (Suc j)
    then have "skip_entries (int (Suc p) + int j) (int (Suc p)) des = (int (Suc p) + int j, drop j des)" using Cons.IH [of j "Suc p"] Cons.prems Suc by simp
    then show ?thesis using Suc by (simp add: algebra_simps)
  qed simp
qed simp


section \<open>A file system that gives all entries at once\<close>

text \<open>With offset 0 for every entry, and up to the end unless the callback says to stop.\<close>

fun fill_all :: "(bytes \<times> fuse_stat option) list \<Rightarrow> 's \<Rightarrow> 's readdir_run" where
  "fill_all [] s = Return 0 s"
| "fill_all ((name, statp) # es) s = Fill name statp 0 0 (\<lambda>stop. if stop then Return 0 s else fill_all es s)"

text \<open>What the handle keeps of an entry.\<close>

definition shown :: "config \<Rightarrow> fuse \<Rightarrow> u64 \<Rightarrow> bytes \<times> fuse_stat option \<Rightarrow> direntry" where
  "shown cfg f dir e = \<lparr>de_name = fst e, de_stat =
     (let st = (case snd e of Some st \<Rightarrow> st | None \<Rightarrow> zero_stat\<lparr>a_ino := FUSE_UNKNOWN_INO\<rparr>)
      in if \<not> use_ino cfg then st\<lparr>a_ino := (if readdir_ino cfg then lookup_nodeid f dir (fst e) else FUSE_UNKNOWN_INO)\<rparr> else st)\<rparr>"

lemma de_name_shown [simp]: "de_name (shown cfg f dir e) = fst e"
  by (simp add: shown_def)

lemma shown_malloc:
  assumes "tree_ok f"
  shows "shown cfg (f\<lparr>malloc_no := k\<rparr>) dir e = shown cfg f dir e"
proof -
  have "lookup_nodeid (f\<lparr>malloc_no := k\<rparr>) dir (fst e) = lookup_nodeid f dir (fst e)"
    using lookup_malloc [OF assms] by (simp add: lookup_nodeid_def split: option.split)
  then show ?thesis unfolding shown_def by (simp only:)
qed

lemma fill_dir_keeps:
  assumes "\<forall>k. mallocs f k"
  shows "fill_dir cfg (fst e) (snd e) 0 0 (dh, f) =
    Some (False, dh\<lparr>dh_filled := True, dh_first := dh_first dh @ [shown cfg f (dh_nodeid dh) e]\<rparr>, f\<lparr>malloc_no := malloc_no f + 2\<rparr>)"
  using assms by (simp add: fill_dir_def fuse_add_direntry_to_dh_def next_malloc_def shown_def Let_def)

lemma run_fill_all:
  assumes "tree_ok f" "\<forall>k. mallocs f k"
  shows "\<exists>m. run_readdir cfg (fill_all es s) (dh, f) =
    Some (0, s, dh\<lparr>dh_filled := dh_filled dh \<or> es \<noteq> [], dh_first := dh_first dh @ map (shown cfg f (dh_nodeid dh)) es\<rparr>, f\<lparr>malloc_no := m\<rparr>)"
  using assms
proof (induction es arbitrary: dh f)
  case Nil
  then show ?case by (intro exI [of _ "malloc_no f"]) simp
next
  case (Cons e es)
  obtain name statp where e: "e = (name, statp)" by (cases e)
  let ?dh = "dh\<lparr>dh_filled := True, dh_first := dh_first dh @ [shown cfg f (dh_nodeid dh) e]\<rparr>"
  let ?f = "f\<lparr>malloc_no := malloc_no f + 2\<rparr>"
  have t: "tree_ok ?f" by (rule tree_ok_cong [OF Cons.prems(1)]) simp_all
  have m: "\<forall>k. mallocs ?f k" using Cons.prems(2) by simp
  obtain m where "run_readdir cfg (fill_all es s) (?dh, ?f) = Some (0, s, ?dh\<lparr>dh_filled := dh_filled ?dh \<or> es \<noteq> [],
      dh_first := dh_first ?dh @ map (shown cfg ?f (dh_nodeid ?dh)) es\<rparr>, ?f\<lparr>malloc_no := m\<rparr>)"
    using Cons.IH [OF t m, of ?dh] by blast
  moreover have "map (shown cfg ?f (dh_nodeid dh)) es = map (shown cfg f (dh_nodeid dh)) es" using shown_malloc [OF Cons.prems(1)] by simp
  ultimately show ?case
    using fill_dir_keeps [OF Cons.prems(2), of cfg e dh] by (intro exI [of _ m]) (simp add: e)
qed

section \<open>Reading from the list\<close>

lemma extend_ok:
  assumes "sz \<le> 0xFFFFFFFF" "\<forall>k. mallocs f k"
  shows "\<exists>n m. extend_contents sz dh f = Some (True, dh\<lparr>dh_size := n\<rparr>, f\<lparr>malloc_no := m\<rparr>)"
proof (cases "sz > dh_size dh")
  case True
  have "0 < (if dh_size dh = 0 then 1024 else dh_size dh)" by simp
  then obtain n where "grow_size sz (if dh_size dh = 0 then 1024 else dh_size dh) = Some n"
    using grow_size_ends [OF _ assms(1)] by blast
  then show ?thesis using True assms(2) by (auto simp: extend_contents_def next_malloc_def)
next
  case False
  then show ?thesis by (intro exI [of _ "dh_size dh"] exI [of _ "malloc_no f"]) (simp add: extend_contents_def)
qed

definition same_list :: "fuse_dh \<Rightarrow> fuse_dh \<Rightarrow> bool" where
  "same_list dh dh' \<longleftrightarrow> dh_first dh' = dh_first dh \<and> dh_filled dh' = dh_filled dh"

lemma from_list_ok:
  assumes "needlen dh \<le> 0xFFFFFFFF" "\<forall>k. mallocs f k" "k \<le> length (dh_first dh)"
    and "\<forall>de \<in> set (dh_first dh). dirent_align (FUSE_NAME_OFFSET + length (de_name de)) \<le> needlen dh"
  shows "\<exists>dh' m j. readdir_fill_from_list (int k) dh f = Some (0, dh', f\<lparr>malloc_no := m\<rparr>) \<and> same_list dh dh' \<and>
    dh_contents dh' = dirents_bytes k (take j (drop k (dh_first dh))) \<and> j \<le> length (dh_first dh) - k \<and> (k < length (dh_first dh) \<longrightarrow> 0 < j)"
proof -
  let ?des = "drop k (dh_first dh)"
  obtain n m where x: "extend_contents (needlen dh) (dh\<lparr>dh_contents := []\<rparr>) f = Some (True, dh\<lparr>dh_contents := [], dh_size := n\<rparr>, f\<lparr>malloc_no := m\<rparr>)"
    using extend_ok [OF assms(1,2), of "dh\<lparr>dh_contents := []\<rparr>"] by auto
  obtain j where j: "j \<le> length ?des" "list_entries (needlen dh) (int k) ?des [] = dirents_bytes k (take j ?des)"
    "j < length ?des \<longrightarrow> length (dirents_bytes k (take j ?des)) + length (dirent_bytes (k + Suc j) (?des ! j)) > needlen dh"
    using list_entries_prefix [of "[]" "needlen dh" ?des k] by auto
  have "0 < j" if k: "k < length (dh_first dh)"
  proof (rule ccontr)
    assume "\<not> 0 < j"
    then have "length (dirent_bytes (Suc k) (?des ! 0)) > needlen dh" using j(3) k by simp
    moreover have "?des ! 0 \<in> set (dh_first dh)" using k by simp
    ultimately show False using assms(4) length_dirent_bytes by (metis not_le)
  qed
  then show ?thesis
    using x j(1,2) skip_entries_drop [OF assms(3), of 0]
    by (intro exI [of _ "dh\<lparr>dh_size := n, dh_contents := list_entries (needlen dh) (int k) ?des []\<rparr>"] exI [of _ m] exI [of _ j])
      (simp add: readdir_fill_from_list_def same_list_def)
qed

section \<open>Reading on\<close>

text \<open>How the kernel reads a directory: at offset 0, then at the offset of the last entry it got, until it gets none.\<close>

fun read_dir :: "nat \<Rightarrow> 's readdir_op \<Rightarrow> u64 \<Rightarrow> nat \<Rightarrow> int \<Rightarrow> fuse_dh \<Rightarrow> 's lib \<Rightarrow> (dirent list \<times> fuse_dh \<times> 's lib) option" where
  "read_dir 0 rd ino sz off dh L = None"
| "read_dir (Suc n) rd ino sz off dh L = do {
     (dh, L) \<leftarrow> fuse_lib_readdir rd ino sz off dh L;
     case last (replies L) of
       Reply_buf bs \<Rightarrow>
         let es = parse_dirents bs
         in if es = [] then Some ([], dh, L)
            else do {
              (rest, dh, L) \<leftarrow> read_dir n rd ino sz (uint (fst (snd (last es)))) dh L;
              Some (es @ rest, dh, L)
            }
     | _ \<Rightarrow> None
   }"

lemma dirents_of_Nil: "dirents_of k xs = [] \<longleftrightarrow> xs = []"
  by (cases xs) simp_all

text \<open>One answer from the list, and then the rest.\<close>

lemma read_step:
  assumes "fuse_lib_readdir rd ino sz off dh L = Some (dh', L')" "last (replies L') = Reply_buf (dirents_bytes k (take j (drop k des)))"
    and "j \<le> length des - k" "k < length des \<longrightarrow> 0 < j" "\<forall>de \<in> set des. length (de_name de) < 2 ^ 32" "length des < 2 ^ 63"
    and "k < length des \<Longrightarrow> read_dir n rd ino sz (int (k + j)) dh' L' = Some (dirents_of (k + j) (drop (k + j) des), dh2, L2)"
  shows "\<exists>dh2 L2. read_dir (Suc n) rd ino sz off dh L = Some (dirents_of k (drop k des), dh2, L2)"
proof -
  let ?es = "take j (drop k des)"
  have "\<forall>de \<in> set ?es. length (de_name de) < 2 ^ 32" using assms(5) by (meson in_set_takeD in_set_dropD)
  then have p: "parse_dirents (dirents_bytes k ?es) = dirents_of k ?es" by (rule parse_dirents_bytes)
  show ?thesis
  proof (cases "k < length des")
    case False
    then show ?thesis using assms(1,2) p by simp
  next
    case True
    then have ne: "?es \<noteq> []" "length ?es = j" using assms(3,4) by auto
    have u: "uint (of_nat i :: u64) = int i" if "i < 2 ^ 64" for i using that by (simp add: unsigned_of_nat take_bit_nat_eq_self)
    have "k + j < 2 ^ 64" using assms(3,6) True by simp
    then have l: "uint (fst (snd (last (dirents_of k ?es)))) = int (k + j)" using dirents_of_last [OF ne(1), of k] ne(2) u [of "k + j"] by simp
    have "dirents_of k ?es @ dirents_of (k + j) (drop (k + j) des) = dirents_of k (?es @ drop (k + j) des)"
      using dirents_of_append [of k ?es "drop (k + j) des"] ne(2) by simp
    also have "?es @ drop (k + j) des = drop k des" by (metis append_take_drop_id drop_drop add.commute)
    finally show ?thesis using assms(1,2,7) True p l ne(1) by (simp add: dirents_of_Nil)
  qed
qed

lemma names_fit:
  assumes "\<forall>de \<in> set des. dirent_align (FUSE_NAME_OFFSET + length (de_name de)) \<le> sz" "sz \<le> 0xFFFFFFFF"
  shows "\<forall>de \<in> set des. length (de_name de) < 2 ^ 32"
proof
  fix de assume "de \<in> set des"
  then have "dirent_align (FUSE_NAME_OFFSET + length (de_name de)) \<le> sz" using assms(1) by blast
  then show "length (de_name de) < 2 ^ 32" using dirent_align_ge(1) [of "FUSE_NAME_OFFSET + length (de_name de)"] assms(2) by simp
qed

lemma later_reads:
  assumes "dh_filled dh" "des = dh_first dh" "\<forall>i. mallocs (core L) i" "sz \<le> 0xFFFFFFFF" "length des < 2 ^ 63"
    and "\<forall>de \<in> set des. dirent_align (FUSE_NAME_OFFSET + length (de_name de)) \<le> sz" "0 < k" "k \<le> length des" "length des - k < n"
  shows "\<exists>dh2 L2. read_dir n rd ino sz (int k) dh L = Some (dirents_of k (drop k des), dh2, L2)"
  using assms
proof (induction n arbitrary: k dh L)
  case (Suc n)
  let ?dh = "dh\<lparr>needlen := sz\<rparr>"
  obtain dh1 m j where r: "readdir_fill_from_list (int k) ?dh (core L) = Some (0, dh1, (core L)\<lparr>malloc_no := m\<rparr>)" "same_list ?dh dh1"
    "dh_contents dh1 = dirents_bytes k (take j (drop k des))" "j \<le> length des - k" "k < length des \<longrightarrow> 0 < j"
    using from_list_ok [of ?dh "core L" k] Suc.prems by auto
  let ?L = "L\<lparr>core := (core L)\<lparr>malloc_no := m\<rparr>, replies := replies L @ [Reply_buf (dh_contents dh1)]\<rparr>"
  have f: "fuse_lib_readdir rd ino sz (int k) dh L = Some (dh1, ?L)"
    using Suc.prems(1,7) r(1) by (simp add: fuse_lib_readdir_def finish_def)
  have nm: "\<forall>de \<in> set des. length (de_name de) < 2 ^ 32" by (rule names_fit [OF Suc.prems(6,4)])
  have l: "last (replies ?L) = Reply_buf (dirents_bytes k (take j (drop k des)))" by (simp add: r(3))
  show ?case
  proof (cases "k < length des")
    case True
    have s: "dh_filled dh1" "des = dh_first dh1" using r(2) Suc.prems(1,2) by (simp_all add: same_list_def)
    obtain dh2 L2 where "read_dir n rd ino sz (int (k + j)) dh1 ?L = Some (dirents_of (k + j) (drop (k + j) des), dh2, L2)"
    proof -
      have "\<forall>i. mallocs (core ?L) i" using Suc.prems(3) by simp
      moreover have "0 < k + j" "k + j \<le> length des" "length des - (k + j) < n" using Suc.prems(7,9) r(4,5) True by linarith+
      ultimately show thesis using Suc.IH [OF s _ Suc.prems(4,5,6), of ?L "k + j"] that by blast
    qed
    then show ?thesis by (intro read_step [OF f l r(4,5) nm Suc.prems(5)])
  next
    case False
    then show ?thesis by (intro read_step [OF f l r(4,5) nm Suc.prems(5)]) simp
  qed
qed simp


definition empty_dh :: "u64 \<Rightarrow> fuse_dh" where
  "empty_dh ino = \<lparr>dh_contents = [], dh_first = [], dh_size = 0, needlen = 0, dh_filled = False, dh_fh = 0, dh_error = 0, dh_nodeid = ino\<rparr>"

lemma root_reachable: "reachable_node (first_state 0) 1"
proof -
  have "known (first_state 0) 1" "path_fits (first_state 0) 1 (Some [])"
    using root_usable [of "[]" 0] by (simp_all add: may_make_def can_enter_def)
  moreover have "path_fits f ino None" if "path_fits f ino (Some [])" for f ino
    unfolding path_fits_def
  proof (intro allI impI)
    fix r qs e assume "get_fuse_node f ino = Some r" "chain f r qs e"
    then have "length (path_string f qs) + length (name_part (Some [])) + 2 \<le> 0xFFFFFFFF" using that unfolding path_fits_def by blast
    then show "length (path_string f qs) + length (name_part None) + 2 \<le> 0xFFFFFFFF" by simp
  qed
  ultimately show ?thesis by (simp add: reachable_node_def)
qed

lemma first_fill:
  assumes "idle L" "reachable_node (core L) ino" "get_fuse_node (core L) ino = Some r" "chain (core L) r qs e"
    and "n_nodeid (nd (core L) e) = FUSE_ROOT_ID" "\<forall>k. mallocs (core L) k" "\<forall>path fi s. g path 0 fi s = fill_all es (nxt s)"
    and "des = map (shown (conf L) (core L) (dh_nodeid dh)) es"
  shows "\<exists>dh' L'. readdir_fill (Some g) ino sz 0 dh L = Some (0, dh', L') \<and> good [] L' \<and> dh_first dh' = des \<and> dh_filled dh' = (es \<noteq> []) \<and>
    dh_contents dh' = [] \<and> needlen dh' = sz \<and> (\<forall>k. mallocs (core L') k)"
proof -
  have gd: "good [] L" using assms(1) by (simp add: idle_def)
  note t = goodD(1) [OF gd]
  define path where "path = (if nullpath_ok (conf L) then None else Some (full_path (core L) qs None))"
  obtain L1 where p: "get_path_nullok ino L = Some (Inr path, L1)" "good (holds ino path) L1" "env L L1" "relocked (core L) (core L1)"
    using nullok_exact [OF gd assms(2-6) refl path_def] by (auto simp: runs_def)
  note v = relockedD [OF tree_okD(3) [OF t] p(4)]
  have t1: "tree_ok (core L1)" using goodD(1) [OF p(2)] .
  have c1: "conf L1 = conf L" using p(3) by (simp add: env_def)
  have m1: "\<forall>k. mallocs (core L1) k" using v(6) assms(6) by simp
  let ?dh = "dh\<lparr>dh_first := [], dh_contents := [], dh_error := 0, needlen := sz, dh_filled := False\<rparr>"
  have sh: "shown (conf L) (core L1) (dh_nodeid dh) e = shown (conf L) (core L) (dh_nodeid dh) e" for e
  proof -
    have "lookup_nodeid (core L1) d n = lookup_nodeid (core L) d n" for d n
      using v(3) v(9) lookup_named(2) [OF t] by (auto simp: lookup_nodeid_def split: option.split)
    then show ?thesis by (simp only: shown_def)
  qed
  obtain m where run: "run_readdir (conf L) (fill_all es (nxt (fss L1))) (?dh, core L1) =
      Some (0, nxt (fss L1), ?dh\<lparr>dh_filled := es \<noteq> [], dh_first := des\<rparr>, (core L1)\<lparr>malloc_no := m\<rparr>)"
  proof -
    have d: "map (shown (conf L) (core L1) (dh_nodeid ?dh)) es = des" using sh assms(8) by simp
    show thesis using run_fill_all [OF t1 m1, of "conf L" es "nxt (fss L1)" ?dh] that unfolding d by auto
  qed
  let ?L2 = "L1\<lparr>core := (core L1)\<lparr>malloc_no := m\<rparr>, fss := nxt (fss L1)\<rparr>"
  have g2: "good (holds ino path @ []) ?L2" using p(2) by (simp add: good_steady)
  obtain L3 where u: "free_path ino path ?L2 = Some L3" "good [] L3" "relocked (core ?L2) (core L3)"
    using free_path_runs [OF g2] by (auto simp: runs_def)
  have "mallocs (core L3) = mallocs (core L1)" using relockedD(6) [OF tree_okD(3) u(3)] goodD(1) [OF g2] by simp
  then have "\<forall>k. mallocs (core L3) k" using m1 by simp
  moreover have "readdir_fill (Some g) ino sz 0 dh L = Some (0, ?dh\<lparr>dh_filled := es \<noteq> [], dh_first := des\<rparr>, L3)"
    using p(1) run u(1) c1 by (simp add: readdir_fill_def fuse_fs_readdir_def assms(7))
  ultimately show ?thesis using u(2) by auto
qed

text \<open>
  C39. A directory that the kernel reads from its beginning to its end, with any size of buffer that holds the longest entry,
  shows every entry of the file system once and in order, each with its number and type and with its place as the offset.
\<close>

theorem directory_read_to_end:
  assumes "idle L" "reachable_node (core L) ino" "get_fuse_node (core L) ino = Some r" "chain (core L) r qs e"
    and "n_nodeid (nd (core L) e) = FUSE_ROOT_ID" "\<forall>k. mallocs (core L) k" "\<forall>path fi s. g path 0 fi s = fill_all es (nxt s)"
    and "sz \<le> 0xFFFFFFFF" "\<forall>e \<in> set es. dirent_align (FUSE_NAME_OFFSET + length (fst e)) \<le> sz" "length es < 2 ^ 63"
  shows "\<exists>dh' L'. read_dir (length es + 2) (Some g) ino sz 0 dh L =
    Some (dirents_of 0 (map (shown (conf L) (core L) (dh_nodeid dh)) es), dh', L')"
proof -
  define des where "des = map (shown (conf L) (core L) (dh_nodeid dh)) es"
  obtain dh1 L1 where a: "readdir_fill (Some g) ino sz 0 (dh\<lparr>dh_filled := False\<rparr>) L = Some (0, dh1, L1)" "good [] L1" "dh_first dh1 = des"
    "dh_filled dh1 = (es \<noteq> [])" "dh_contents dh1 = []" "needlen dh1 = sz" "\<forall>k. mallocs (core L1) k"
    using first_fill [OF assms(1-6), of g es nxt des "dh\<lparr>dh_filled := False\<rparr>" sz] assms(7) by (auto simp: des_def)
  have fit: "\<forall>de \<in> set des. dirent_align (FUSE_NAME_OFFSET + length (de_name de)) \<le> sz" using assms(9) by (simp add: des_def)
  show ?thesis
  proof (cases "es = []")
    case True
    then have "fuse_lib_readdir (Some g) ino sz 0 dh L = Some (dh1, L1\<lparr>replies := replies L1 @ [Reply_buf []]\<rparr>)"
      using a by (simp add: fuse_lib_readdir_def finish_def)
    then show ?thesis using True by (simp add: parse_nothing)
  next
    case False
    let ?dh = "dh1\<lparr>needlen := sz\<rparr>"
    have na: "0 < length des" "length des = length es" using False by (simp_all add: des_def)
    obtain dh2 m j where r: "readdir_fill_from_list 0 ?dh (core L1) = Some (0, dh2, (core L1)\<lparr>malloc_no := m\<rparr>)" "same_list ?dh dh2"
      "dh_contents dh2 = dirents_bytes 0 (take j des)" "j \<le> length des" "0 < j"
      using from_list_ok [of ?dh "core L1" 0] assms(8) a(3,7) fit na(1) by auto
    let ?L = "L1\<lparr>core := (core L1)\<lparr>malloc_no := m\<rparr>, replies := replies L1 @ [Reply_buf (dh_contents dh2)]\<rparr>"
    have f: "fuse_lib_readdir (Some g) ino sz 0 dh L = Some (dh2, ?L)"
      using a(1,4) False r(1) by (simp add: fuse_lib_readdir_def finish_def)
    have nm: "\<forall>de \<in> set des. length (de_name de) < 2 ^ 32" by (rule names_fit [OF fit assms(8)])
    have l: "last (replies ?L) = Reply_buf (dirents_bytes 0 (take j (drop 0 des)))" by (simp add: r(3))
    have s: "dh_filled dh2" "des = dh_first dh2" using r(2) a(3,4) False by (simp_all add: same_list_def)
    have m: "\<forall>i. mallocs (core ?L) i" using a(7) by simp
    have n: "length des < 2 ^ 63" "length des - j < length es + 1" using assms(10) na by simp_all
    obtain dh3 L3 where "read_dir (length es + 1) (Some g) ino sz (int j) dh2 ?L = Some (dirents_of j (drop j des), dh3, L3)"
      using later_reads [OF s m assms(8) n(1) fit r(5,4) n(2)] by blast
    then have "\<exists>dh3 L3. read_dir (Suc (length es + 1)) (Some g) ino sz 0 dh L = Some (dirents_of 0 (drop 0 des), dh3, L3)"
      using r(4,5) by (intro read_step [OF f l _ _ nm n(1)]) simp_all
    then show ?thesis by (simp add: des_def)
  qed
qed

theorem directory_read_to_end_witness:
  "\<exists>dh' L'. read_dir 4 (Some (\<lambda>path off fi s. fill_all [([97], None), ([98, 99], None)] s)) 1 32 0
      (empty_dh 1) (lib_with (first_state 0)) =
    Some ([(FUSE_UNKNOWN_INO, 1, 0, [97]), (FUSE_UNKNOWN_INO, 2, 0, [98, 99])], dh', L')"
proof -
  note F = first_facts [of 0]
  let ?L = "lib_with (first_state 0)"
  have g: "get_fuse_node (first_state 0) 1 = Some 1" using get_node_iff [OF tree_okD(4) [OF F(1)]] F(3,4) by simp
  have c: "chain (first_state 0) 1 [] 1" using F by (intro chain.stop) simp_all
  have r: "reachable_node (core ?L) 1" "get_fuse_node (core ?L) 1 = Some 1" "chain (core ?L) 1 [] 1" "n_nodeid (nd (core ?L) 1) = FUSE_ROOT_ID"
    "\<forall>k. mallocs (core ?L) k" using g c F(4,8) root_reachable by simp_all
  let ?es = "[([97], None), ([98, 99], None)] :: (bytes \<times> fuse_stat option) list"
  have fill: "\<forall>path fi s. (\<lambda>path off fi s. fill_all ?es s) path 0 fi s = fill_all ?es (id s)" by simp
  have fit: "\<forall>e \<in> set ?es. dirent_align (FUSE_NAME_OFFSET + length (fst e)) \<le> 32" by (simp add: dirent_align_def)
  have four: "length ?es + 2 = 4" by simp
  have listed: "dirents_of 0 (map (shown (conf ?L) (core ?L) 1) ?es) = [(FUSE_UNKNOWN_INO, 1, 0, [97]), (FUSE_UNKNOWN_INO, 2, 0, [98, 99])]"
    by (simp add: dirent_of_def shown_def plain_conf_def zero_stat_def)
  have sz: "(32 :: nat) \<le> 0xFFFFFFFF" "length ?es < 2 ^ 63" by simp_all
  have n: "dh_nodeid (empty_dh 1) = 1" by (simp add: empty_dh_def)
  show ?thesis
    using directory_read_to_end [OF served_idle [OF served_first [of 0]] r, of "\<lambda>path off fi s. fill_all ?es s" ?es id, OF fill sz(1) fit sz(2), of "empty_dh 1"]
    unfolding four n listed .
qed


section \<open>Requests on directories are answered\<close>

lemma some_malloc [simp]: "\<exists>m. (f :: fuse)\<lparr>malloc_no := k\<rparr> = f\<lparr>malloc_no := m\<rparr>" "\<exists>m. (f :: fuse) = f\<lparr>malloc_no := m\<rparr>"
  by (rule exI [of _ k], simp, rule exI [of _ "malloc_no f"], simp)

lemma extend_total:
  assumes "sz \<le> 0xFFFFFFFF"
  shows "\<exists>ok dh' m. extend_contents sz dh f = Some (ok, dh', f\<lparr>malloc_no := m\<rparr>) \<and> needlen dh' = needlen dh"
proof (cases "sz > dh_size dh")
  case True
  have "0 < (if dh_size dh = 0 then 1024 else dh_size dh)" by simp
  then obtain n where "grow_size sz (if dh_size dh = 0 then 1024 else dh_size dh) = Some n"
    using grow_size_ends [OF _ assms] by blast
  then show ?thesis using True by (auto simp: extend_contents_def next_malloc_def)
next
  case False
  then show ?thesis by (intro exI [of _ True] exI [of _ dh] exI [of _ "malloc_no f"]) (simp add: extend_contents_def)
qed

lemma add_to_dh_total: "\<exists>ok dh' m. fuse_add_direntry_to_dh dh f name st = (ok, dh', f\<lparr>malloc_no := m\<rparr>) \<and> needlen dh' = needlen dh"
  by (auto simp: fuse_add_direntry_to_dh_def next_malloc_def Let_def)

lemma fill_dir_total:
  assumes "needlen dh \<le> 0xFFFFFFFF"
  shows "\<exists>stop dh' m. fill_dir cfg name statp off flags (dh, f) = Some (stop, dh', f\<lparr>malloc_no := m\<rparr>) \<and> needlen dh' = needlen dh"
proof -
  obtain ok dh1 m where x: "extend_contents (needlen dh) dh f = Some (ok, dh1, f\<lparr>malloc_no := m\<rparr>)" "needlen dh1 = needlen dh"
    using extend_total [OF assms] by blast
  have a: "\<exists>ok dh' m. fuse_add_direntry_to_dh (dh\<lparr>dh_filled := True\<rparr>) f name st = (ok, dh', f\<lparr>malloc_no := m\<rparr>) \<and> needlen dh' = needlen dh" for st
    using add_to_dh_total [of "dh\<lparr>dh_filled := True\<rparr>" f name st] by simp
  have self: "f = f\<lparr>malloc_no := malloc_no f\<rparr>" by simp
  define st where "st = (let st = (case statp of Some st \<Rightarrow> st | None \<Rightarrow> zero_stat\<lparr>a_ino := FUSE_UNKNOWN_INO\<rparr>)
    in if \<not> use_ino cfg then st\<lparr>a_ino := (if readdir_ino cfg then lookup_nodeid f (dh_nodeid dh) name else FUSE_UNKNOWN_INO)\<rparr> else st)"
  have eq: "fill_dir cfg name statp off flags (dh, f) = (if flags AND NOT FUSE_FILL_DIR_PLUS \<noteq> 0 then Some (True, dh\<lparr>dh_error := - EIO\<rparr>, f)
    else if off \<noteq> 0 then
      if dh_filled dh \<or> dh_first dh \<noteq> [] then Some (True, dh\<lparr>dh_error := - EIO\<rparr>, f)
      else if \<not> ok then Some (True, dh1, f\<lparr>malloc_no := m\<rparr>)
      else let (entlen, e) = fuse_add_direntry (needlen dh1 - length (dh_contents dh1)) name st off
           in if length (dh_contents dh1) + entlen > needlen dh1 then Some (True, dh1, f\<lparr>malloc_no := m\<rparr>)
              else Some (False, dh1\<lparr>dh_contents := dh_contents dh1 @ e\<rparr>, f\<lparr>malloc_no := m\<rparr>)
    else let (ok, dh, f) = fuse_add_direntry_to_dh (dh\<lparr>dh_filled := True\<rparr>) f name st in Some (\<not> ok, dh, f))"
    unfolding fill_dir_def st_def Let_def by (simp add: x(1))
  obtain ok2 dh2 m2 where b: "fuse_add_direntry_to_dh (dh\<lparr>dh_filled := True\<rparr>) f name st = (ok2, dh2, f\<lparr>malloc_no := m2\<rparr>)" "needlen dh2 = needlen dh"
    using a by blast
  have w: "\<exists>stop dh' k. Some (s, d, f) = Some (stop, dh', f\<lparr>malloc_no := k\<rparr>) \<and> needlen dh' = needlen dh" if "needlen d = needlen dh" for s d
    using that self by blast
  show ?thesis unfolding eq by (cases "fuse_add_direntry (needlen dh1 - length (dh_contents dh1)) name st off") (auto simp: x(2) b intro!: w)
qed

lemma run_total:
  assumes "needlen dh \<le> 0xFFFFFFFF"
  shows "\<exists>err s dh' m. run_readdir cfg run (dh, f) = Some (err, s, dh', f\<lparr>malloc_no := m\<rparr>) \<and> needlen dh' = needlen dh"
  using assms
proof (induction run arbitrary: dh f)
  case (Return err s)
  have "f = f\<lparr>malloc_no := malloc_no f\<rparr>" by simp
  then show ?case by auto
next
  case (Fill name statp off flags k)
  obtain stop dh1 m where x: "fill_dir cfg name statp off flags (dh, f) = Some (stop, dh1, f\<lparr>malloc_no := m\<rparr>)" "needlen dh1 = needlen dh"
    using fill_dir_total [OF Fill.prems] by blast
  have "needlen dh1 \<le> 0xFFFFFFFF" using Fill.prems x(2) by simp
  then obtain err s dh' m' where "run_readdir cfg (k stop) (dh1, f\<lparr>malloc_no := m\<rparr>) = Some (err, s, dh', f\<lparr>malloc_no := m, malloc_no := m'\<rparr>)" "needlen dh' = needlen dh1"
    using Fill.IH by blast
  then show ?case using x by simp
qed

lemma list_total:
  assumes "needlen dh \<le> 0xFFFFFFFF"
  shows "\<exists>err dh' m. readdir_fill_from_list off dh f = Some (err, dh', f\<lparr>malloc_no := m\<rparr>)"
proof -
  obtain ok dh1 m where "extend_contents (needlen dh) (dh\<lparr>dh_contents := []\<rparr>) f = Some (ok, dh1, f\<lparr>malloc_no := m\<rparr>)"
    using extend_total [OF assms, of "dh\<lparr>dh_contents := []\<rparr>"] by blast
  then show ?thesis by (cases "skip_entries off 0 (dh_first dh1)") (auto simp: readdir_fill_from_list_def)
qed

lemma fill_runs:
  assumes "good [] L" "reachable_node (core L) ino" "sz \<le> 0xFFFFFFFF"
  shows "runs (readdir_fill rd ino sz off dh L) (\<lambda>(err, dh', L'). good [] L' \<and> env L L')"
proof -
  have k: "known (core L) ino" "path_fits (core L) ino None" using assms(2) by (simp_all add: reachable_node_def)
  define p where "p = (if rd \<noteq> None then get_path_nullok ino L else get_path ino L)"
  have "runs p (\<lambda>(res, L'). env L L' \<and> (case res of Inl err \<Rightarrow> good [] L' | Inr path \<Rightarrow> good (holds ino path) L'))"
  proof (cases "rd = None")
    case True
    then show ?thesis unfolding p_def using get_path_runs [OF assms(1,2)] by (auto elim!: runs_mono split: sum.splits)
  next
    case False
    have "runs (get_path_nullok ino L) (\<lambda>(res, L'). env L L' \<and> (case res of Inl err \<Rightarrow> good [] L' | Inr path \<Rightarrow> good (holds ino path) L'))"
      by (rule runs_mono [OF get_path_nullok_runs [OF assms(1) _ k free_way_good [OF assms(1)]]]) (auto split: sum.splits)
    then show ?thesis using False by (simp add: p_def)
  qed
  then obtain res L1 where p: "p = Some (res, L1)" "env L L1" "case res of Inl err \<Rightarrow> good [] L1 | Inr path \<Rightarrow> good (holds ino path) L1"
    by (auto simp: runs_def)
  note p1 = p(1) [unfolded p_def]
  show ?thesis
  proof (cases res)
    case (Inl err)
    then show ?thesis unfolding readdir_fill_def p1 using p(2,3) by simp
  next
    case (Inr path)
    let ?dh = "dh\<lparr>dh_first := [], dh_contents := [], dh_error := 0, needlen := sz, dh_filled := False\<rparr>"
    obtain err s dh1 m where r: "run_readdir (conf L1) (fuse_fs_readdir rd path off (get_dirhandle dh) (fss L1)) (?dh, core L1) =
        Some (err, s, dh1, (core L1)\<lparr>malloc_no := m\<rparr>)"
      using run_total [of ?dh] assms(3) by fastforce
    let ?L = "L1\<lparr>core := (core L1)\<lparr>malloc_no := m\<rparr>, fss := s\<rparr>"
    have g: "good (holds ino path @ []) ?L" using p(3) Inr by (simp add: good_steady)
    have "runs (free_path ino path ?L) (\<lambda>L'. good [] L' \<and> env L L')"
      using free_path_runs [OF g] env_trans [OF p(2)] by (auto elim!: runs_mono)
    then show ?thesis unfolding readdir_fill_def p1 Let_def using Inr r by (auto elim!: runs_mono)
  qed
qed

lemma readdir_answered:
  assumes "good [] L" "reachable_node (core L) ino" "sz \<le> 0xFFFFFFFF"
  shows "runs (fuse_lib_readdir rd ino sz off dh L) (\<lambda>(dh', L'). answered L L')"
proof -
  let ?dh = "if off = 0 then dh\<lparr>dh_filled := False\<rparr> else dh"
  have "runs (if \<not> dh_filled ?dh then readdir_fill rd ino sz off ?dh L else Some (0, ?dh, L)) (\<lambda>(err, dh', L'). good [] L' \<and> env L L')"
    using fill_runs [OF assms] assms(1) by simp
  then obtain err dh1 L1 where a: "(if \<not> dh_filled ?dh then readdir_fill rd ino sz off ?dh L else Some (0, ?dh, L)) = Some (err, dh1, L1)"
    "good [] L1" "env L L1" by (auto simp: runs_def)
  obtain err2 dh2 m where b: "(if dh_filled dh1 then readdir_fill_from_list off (dh1\<lparr>needlen := sz\<rparr>) (core L1) else Some (0, dh1, core L1)) =
      Some (err2, dh2, (core L1)\<lparr>malloc_no := m\<rparr>)"
  proof (cases "dh_filled dh1")
    case True
    then show thesis using list_total [of "dh1\<lparr>needlen := sz\<rparr>" off "core L1"] assms(3) that by auto
  next
    case False
    then show thesis using that [of 0 dh1 "malloc_no (core L1)"] by simp
  qed
  have "good [] (L1\<lparr>core := (core L1)\<lparr>malloc_no := m\<rparr>\<rparr>)" using a(2) by simp
  then show ?thesis unfolding fuse_lib_readdir_def Let_def a(1)
    using a(2,3) b answered_send [of "L1\<lparr>core := (core L1)\<lparr>malloc_no := m\<rparr>\<rparr>" L] answered_send [OF a(2,3)] by simp
qed

lemma releasedir_answered: "good [] L \<Longrightarrow> reachable_node (core L) ino \<Longrightarrow> runs (fuse_lib_releasedir ino dh L) (answered L)"
proof -
  assume g: "good [] L" "reachable_node (core L) ino"
  obtain path L1 where p: "some_path ino L = Some (path, L1)" "good (holds ino path) L1" "env L L1"
    using some_path_runs [OF g] by (auto simp: runs_def)
  have h: "good (holds ino path @ []) (L1\<lparr>fss := s\<rparr>)" for s using p(2) by simp
  have "runs (free_path ino path (L1\<lparr>fss := s\<rparr>)) (\<lambda>L'. answered L (L'\<lparr>replies := replies L' @ [Reply_err 0]\<rparr>))" for s
    by (rule runs_mono [OF free_path_runs [OF h]]) (use answered_send env_trans [OF p(3)] in auto)
  then show ?thesis using p(1) by (simp add: fuse_lib_releasedir_def)
qed

lemma fsyncdir_answered: "good [] L \<Longrightarrow> reachable_node (core L) ino \<Longrightarrow> runs (fuse_lib_fsyncdir ino datasync dh L) (answered L)"
  unfolding fuse_lib_fsyncdir_def by (rule at_path_reply) (simp_all add: answered_send)

lemma opendir_answered:
  assumes "good [] L" "reachable_node (core L) ino"
  shows "runs (fuse_lib_opendir addr ino llfi L) (\<lambda>(d, L'). answered L L')"
proof (cases "mallocs (core L) (malloc_no (core L))")
  case False
  let ?L = "L\<lparr>core := (core L)\<lparr>malloc_no := Suc (malloc_no (core L))\<rparr>\<rparr>"
  have "answered L (?L\<lparr>replies := replies ?L @ [Reply_err (- ENOMEM)]\<rparr>)" using assms(1) by (intro answered_send) simp_all
  then show ?thesis using False by (simp add: fuse_lib_opendir_def next_malloc_def)
next
  case True
  let ?L = "L\<lparr>core := (core L)\<lparr>malloc_no := Suc (malloc_no (core L))\<rparr>\<rparr>"
  have g: "good [] ?L" "reachable_node (core ?L) ino" using assms goodD(1) [OF assms(1)] by simp_all
  obtain res L1 where p: "get_path ino ?L = Some (res, L1)" "env L L1"
    "case res of Inl err \<Rightarrow> good [] L1 | Inr path \<Rightarrow> path \<noteq> None \<and> good (holds ino path) L1"
    using get_path_runs [OF g] by (fastforce simp: runs_def split: sum.splits)
  show ?thesis
  proof (cases res)
    case (Inl err)
    then show ?thesis using True p answered_send by (simp add: fuse_lib_opendir_def next_malloc_def)
  next
    case (Inr path)
    have g1: "good (holds ino path) L1" using p(3) Inr by simp
    have fin: "runs (free_path ino path L2) (\<lambda>L'. answered L L')" if "good (holds ino path) L2" "replied L L2" for L2
      using answered_free [OF that] .
    have r: "replied L (L1\<lparr>fss := s, replies := replies L1 @ [m]\<rparr>)" "replied L (L1\<lparr>fss := s, replies := replies L1 @ [m], fss := s2\<rparr>)" for s m s2
    proof -
      have "env L (L1\<lparr>fss := s\<rparr>)" using p(2) by simp
      from replied_now [OF this, of _ m] show "replied L (L1\<lparr>fss := s, replies := replies L1 @ [m]\<rparr>)" by simp
      show "replied L (L1\<lparr>fss := s, replies := replies L1 @ [m], fss := s2\<rparr>)"
        using replied_now [OF p(2) refl, of m] by (simp add: replied_def)
    qed
    show ?thesis
      using True p(1) Inr g1 fin r by (auto simp: fuse_lib_opendir_def next_malloc_def Let_def)
  qed
qed

definition one_reply :: "'s lib \<Rightarrow> 's lib \<Rightarrow> bool" where
  "one_reply L L' \<longleftrightarrow> idle L' \<and> (\<exists>r. replies L' = replies L @ [r])"

lemma answered_once:
  assumes "idle L" "answered L L'"
  shows "one_reply L L'"
proof -
  have a: "good [] L'" "replied L L'" using assms(2) by (simp_all add: answered_def)
  have "locks_fine L'" "fs_answers (fsys L')" using replied_locks(1) [OF a(2)] replied_locks(2) [OF a(2)] assms(1) by (simp_all add: idle_def)
  moreover obtain r where "env (L\<lparr>replies := replies L @ [r]\<rparr>) L'" using a(2) unfolding replied_def by blast
  then have "replies L' = replies L @ [r]" by (simp add: env_def)
  ultimately show ?thesis using a(1) by (simp add: one_reply_def idle_def)
qed

text \<open>
  C40. Opening, reading, synchronising and releasing a directory: each of these requests is served to the end, whatever the
  file system does in its operation and however often it calls back. The library sends exactly one reply, and no path stays
  locked.
\<close>

theorem directory_requests_answered:
  assumes "idle L" "reachable_node (core L) ino" "sz \<le> 0xFFFFFFFF"
  shows "(\<exists>d L'. fuse_lib_opendir addr ino llfi L = Some (d, L') \<and> one_reply L L') \<and>
    (\<exists>dh' L'. fuse_lib_readdir rd ino sz off dh L = Some (dh', L') \<and> one_reply L L') \<and>
    (\<exists>L'. fuse_lib_fsyncdir ino datasync dh L = Some L' \<and> one_reply L L') \<and>
    (\<exists>L'. fuse_lib_releasedir ino dh L = Some L' \<and> one_reply L L')"
proof -
  have g: "good [] L" using assms(1) by (simp add: idle_def)
  have once: "answered L L' \<Longrightarrow> one_reply L L'" for L' by (rule answered_once [OF assms(1)])
  show ?thesis
    using opendir_answered [OF g assms(2), of addr llfi] readdir_answered [OF g assms(2,3), of rd off dh]
      fsyncdir_answered [OF g assms(2), of datasync dh] releasedir_answered [OF g assms(2), of dh] once
    by (fastforce simp: runs_def)
qed

theorem directory_requests_answered_witness:
  "(\<exists>d L'. fuse_lib_opendir 4096 1 zero_file_info (lib_with (first_state 0)) = Some (d, L') \<and> one_reply (lib_with (first_state 0)) L') \<and>
    (\<exists>dh' L'. fuse_lib_readdir None 1 4096 0 (empty_dh 1) (lib_with (first_state 0)) = Some (dh', L') \<and> one_reply (lib_with (first_state 0)) L') \<and>
    (\<exists>L'. fuse_lib_fsyncdir 1 0 (empty_dh 1) (lib_with (first_state 0)) = Some L' \<and> one_reply (lib_with (first_state 0)) L') \<and>
    (\<exists>L'. fuse_lib_releasedir 1 (empty_dh 1) (lib_with (first_state 0)) = Some L' \<and> one_reply (lib_with (first_state 0)) L')"
  by (rule directory_requests_answered [OF served_idle [OF served_first]]) (simp_all add: root_reachable)

end
