(* ===== verification/Spec2Isabelle.thy ===== *)
theory Spec2Isabelle
  imports File_Data Mkdir_Facts Fuse_Opt Fuse_Buf Subdir Fuse_Dir_Reads
begin

text \<open>
  tyrantFS is a FUSE file system kept on one block device. \<^verbatim>\<open>mkfs.c\<close> formats the
  device, \<^verbatim>\<open>tyrant.c\<close> mounts it: its \<open>main\<close> hands a table of handlers to the FUSE
  library under \<^verbatim>\<open>lib/\<close>, which calls them with paths. The handlers use the helpers
  of \<^verbatim>\<open>tyrant_help.c\<close> (directories, paths, the block map of a file), and these
  the primitives of \<^verbatim>\<open>disk.c\<close> (blocks, inodes, the free list).

  The layout of the device: block 0 begins with the address of the first block of the free list;
  then come the blocks of the inode table, 256 bytes per inode, a slot being free when its mode is
  0; then the data blocks. An inode or block is named by its byte address. A list block holds
  addresses of free blocks in its first 511 slots and the next list block in the last one. A
  directory is a file of 256-byte entries, 248 bytes of name and an inode address.

  The state. All globals of \<^verbatim>\<open>disk.c\<close>, the device and its file offset are the
  record \<open>fs\<close> (theory \<open>Device\<close>), passed from call to call. \<open>lseek\<close>, \<open>read\<close> and \<open>write\<close> have
  their POSIX meaning on a byte array of fixed size. The clock, the contents of uninitialised
  objects, the user's identity and the result of opening the device are arbitrary. Addresses,
  counters and sizes are words of their C width. Behaviour that C leaves undefined (a copy past an
  array, signed overflow, a \<open>NULL\<close> dereference), a failed \<open>assert\<close> and a loop that does not end
  are \<open>None\<close>.

  The theories, in the order of the code's layers:
  \<^item> \<open>Prelude\<close>: words as little-endian bytes, memory as a map, C strings, and the
    collections of rewrite rules used everywhere.
  \<^item> \<open>Device\<close>, \<open>Inode\<close>, \<open>Block_IO\<close>: the state and the system calls; \<open>struct inode\<close>,
    \<open>fetch_inode\<close> and \<open>commit_inode\<close>; \<open>read_block\<close> and \<open>write_block\<close> with their clamps.
  \<^item> \<open>Free_List\<close>: \<open>allocate_block\<close> and \<open>free_block\<close>. The abstraction \<open>free_set\<close> is the set
    of the blocks on the list, \<open>fl_inv\<close> the well-formed chains; both operations refine insertion
    into and removal from the set. The locale \<open>block_pool\<close> states what clients rely on and is
    interpreted on the two operations.
  \<^item> \<open>Inode_Table\<close>: the scan for a free inode, and the inodes as a keyed store (locale
    \<open>keyed_store\<close>, interpreted on \<open>fetch_inode\<close> and \<open>commit_inode\<close>).
  \<^item> \<open>Mkfs\<close>: formatting. The lemmas follow the loops that write the free list and
    describe the disk they leave.
  \<^item> \<open>Storage\<close>: the relation \<open>kept\<close>, what an operation leaves unchanged, which
    composes along the steps of the layers above.
  \<^item> \<open>Block_Map\<close>: \<open>get_i_block\<close>, \<open>add_block_to_node\<close> and \<open>fetch_block\<close>; a file is a list
    of block addresses (\<open>addrs\<close>), and adding a block appends to it.
  \<^item> \<open>Directory\<close>: entering, looking up, removing and renaming; a directory is a list of
    pairs of a name and an address (\<open>entries\<close>). Sequences of operations (\<open>dir_calls\<close>) return what
    the same operations on the list return (\<open>list_calls\<close>), under the guard \<open>dir_guard\<close>: there is a
    block for a new entry, and what is removed is the last entry when the last block is full.
  \<^item> \<open>Path_Lookup\<close>: \<open>find_path_node\<close> against the resolution of a path in these lists
    (\<open>resolve\<close>), where an entry with the address 0 leads nowhere.
  \<^item> \<open>Handlers\<close>, \<open>Unlink\<close>: the handlers and \<open>main\<close> of \<^verbatim>\<open>tyrant.c\<close>, and
    \<open>sub_unlink\<close>. \<open>Mkfs_Handlers\<close>: \<open>main\<close> of \<^verbatim>\<open>mkfs.c\<close> and its own copies of the
    handlers. \<open>Handler_Facts\<close>: properties of whole handlers, on a disk just formatted among
    others. \<open>Mkdir_Facts\<close>: the directories that \<open>tfs_mkdir\<close> makes, whose \<^verbatim>\<open>..\<close> has the address 0,
    and paths through them. \<open>File_Data\<close>: \<open>tfs_write\<close> and \<open>tfs_read\<close> against the bytes of a file
    (\<open>contents\<close>).
  \<^item> \<open>Fuse_Opt\<close>, \<open>Fuse_Buf\<close>, \<open>Fuse_Locks\<close>: parts of the library that are
    algorithms of their own: the option parser, copying between vectors of buffers, and the list
    of byte-range locks of a node (the locale \<open>byte_locks\<close> states what its users rely on).
  \<^item> \<open>Fuse_Table\<close>, \<open>Fuse_Nodes\<close>: the nodes of \<^verbatim>\<open>lib/fuse.c\<close>, which stand for the files
    that the kernel knows: the hash tables, which grow and shrink by linear hashing, and every
    operation on nodes, from \<open>get_node_nocheck\<close> to \<open>exchange_node\<close>, with \<open>fuse_clean_cache\<close>.
    The state is the record \<open>fuse\<close>, a store of nodes with the two tables.
  \<^item> \<open>Fuse_Tree\<close>, \<open>Fuse_Tree_Ops\<close>, \<open>Fuse_Requests\<close>: the invariant \<open>tree_ok\<close> of the
    nodes and how each operation keeps it. The weaker \<open>tree_inv\<close> holds inside a deletion,
    where the counts of references are one off. The locale \<open>keyed_chains\<close> is the search in a hash
    table, interpreted on both. \<open>Fuse_Runs\<close>: sequences of operations from the first state on
    (\<open>reached\<close>), each under conditions on the state (\<open>guarded\<close>), and the properties of the nodes.
  \<^item> \<open>Fuse_Paths\<close>, \<open>Fuse_Path_Locks\<close>, \<open>Fuse_Path_Runs\<close>: the paths of nodes, which
    \<open>try_get_path\<close> builds from the names above a node while it locks the nodes on the way, and the
    queue of threads that wait for a path. A path is the \<open>chain\<close> of nodes up to the root;
    \<open>relock\<close> changes nothing but locks, and \<open>lock_value\<close> says what a lock is, given the
    readers and writers that have it.
  \<^item> \<open>Fuse_Fs\<close>, \<open>Subdir\<close>: the interface of a file system to the library, a record of the
    operations it has and a function that runs a call; and the module \<^verbatim>\<open>lib/modules/subdir.c\<close>,
    a file system on top of another. A call through it (\<open>subdir_oper\<close>) is the same call of the other
    one with its paths moved below the base.
  \<^item> \<open>Fuse_Lib\<close>: the requests of \<^verbatim>\<open>lib/fuse.c\<close>, \<open>fuse_lib_lookup\<close> to \<open>fuse_lib_lseek\<close>. The
    state \<open>lib\<close> has the nodes, the locks and cached attributes of each, the file system with its
    state, and the replies sent. \<open>Fuse_Lib_Locks\<close> and \<open>Fuse_Lib_Nodes\<close> say which paths are locked
    (\<open>good\<close>) and that operations on nodes leave these alone (\<open>frame\<close>); \<open>Fuse_Lib_Answers\<close>,
    \<open>Fuse_Lib_Served\<close> and \<open>Fuse_Lib_Hide\<close> have one lemma \<open>..._answered\<close> for each request, in the
    style of weakest preconditions (\<open>runs\<close>). \<open>Fuse_Lib_Requests\<close> has the table of requests,
    the conditions under which a request is followed (\<open>allowed\<close>) and the runs of requests (\<open>served\<close>);
    \<open>Fuse_Lib_Calls\<close> follows the calls of the file system when an open file is hidden and when it is
    released, and \<open>Fuse_Lib_Facts\<close> has the properties.
  \<^item> \<open>Fuse_Dir\<close>, \<open>Fuse_Dir_Reads\<close>: open directories of \<^verbatim>\<open>lib/fuse.c\<close>, with the callback
    \<open>fill_dir\<close> and the entries in the form of the kernel. What the file system does in \<open>readdir\<close> is a
    tree of calls of the callback; \<open>parse_dirents\<close> is how the kernel takes an answer apart.

  Bounds and fuel. Files and directories in the lemmas have at most 524 blocks, the direct and the
  single indirect range (\<open>file_ok\<close>); \<open>get_i_block\<close> is proved for all four ranges. Lookups of
  names are proved for directories of at most 12 blocks: past them the code is wrong (theorem
  \<open>find_name_overwrites_indirect\<close>). Only \<open>sub_unlink\<close> takes fuel, the depth of its recursion,
  which the code does not bound; every other loop is total by a measure, or a
  \<open>partial_function\<close> where it need not end.

  Some theorems state what the code does where that cannot be meant:
  \<open>mkfs_lists_block_past_end\<close>, \<open>fetch_block_misses_last_group\<close>, \<open>remove_link_loses_last_entry\<close>,
  \<open>find_name_overwrites_indirect\<close>, \<open>add_addr_defined_iff\<close>, \<open>unlinked_node_dropped_in_use\<close>.

  Not modelled: the output of the programs; \<open>malloc\<close> that fails in the file system itself. Of the
  library: requests that read and write data, \<open>readdirplus\<close> and \<open>ioctl\<close>; threads that wait (a
  request that would wait does not return, the queue of waiting threads is a model of its own),
  interrupts and timeouts; the module \<^verbatim>\<open>iconv.c\<close>, which calls \<open>iconv\<close>; and the kernel protocol of
  \<^verbatim>\<open>fuse_lowlevel.c\<close>, mounting, signals and logging, which are bound to the operating system.
  Lookups of \<^verbatim>\<open>.\<close> and \<^verbatim>\<open>..\<close>, which only an exported file system gets, are modelled but not among the
  requests of \<open>allowed\<close>.
\<close>

end
